(* ===== verification/Prelude.thy ===== *)
theory Prelude
  imports Main "HOL-Library.Word"
begin

text \<open>
  Shared vocabulary of the development: the outcome of a Rust call (a returned \<open>Ok\<close>,
  a returned \<open>Err\<close>, a panic, or undefined behaviour reached through an \<open>unsafe\<close>
  block), the combinators that stand for \<open>?\<close>, \<open>map_err\<close> and \<open>expect\<close>, machine
  word sizes with Rust's checked and saturating arithmetic, and generic facts on lists.
\<close>

section \<open>Outcomes of a call\<close>

datatype ('e, 'a) outcome =
    Ok 'a
  | Err 'e
  | Panic string
  | UB

text \<open>An operation on a state \<open>'s\<close> returns its outcome and the state it leaves behind.\<close>

type_synonym ('s, 'e, 'a) run = "('e, 'a) outcome \<times> 's"

text \<open>The \<open>?\<close> operator: continue on \<open>Ok\<close>, return early on everything else.\<close>

fun and_then :: "('s, 'e, 'a) run \<Rightarrow> ('a \<Rightarrow> 's \<Rightarrow> ('s, 'e, 'b) run) \<Rightarrow> ('s, 'e, 'b) run" where
  "and_then (Ok a, s) f = f a s"
| "and_then (Err e, s) f = (Err e, s)"
| "and_then (Panic m, s) f = (Panic m, s)"
| "and_then (UB, s) f = (UB, s)"

text \<open>\<open>Result::map_err\<close> and \<open>Result::map\<close> on the outcome alone.\<close>

fun map_err :: "('e \<Rightarrow> 'f) \<Rightarrow> ('e, 'a) outcome \<Rightarrow> ('f, 'a) outcome" where
  "map_err g (Ok a) = Ok a"
| "map_err g (Err e) = Err (g e)"
| "map_err g (Panic m) = Panic m"
| "map_err g UB = UB"

fun map_ok :: "('a \<Rightarrow> 'b) \<Rightarrow> ('e, 'a) outcome \<Rightarrow> ('e, 'b) outcome" where
  "map_ok g (Ok a) = Ok (g a)"
| "map_ok g (Err e) = Err e"
| "map_ok g (Panic m) = Panic m"
| "map_ok g UB = UB"

text \<open>\<open>Result::expect\<close>: an error becomes a panic with the given message.\<close>

fun expect :: "string \<Rightarrow> ('e, 'a) outcome \<Rightarrow> ('f, 'a) outcome" where
  "expect msg (Ok a) = Ok a"
| "expect msg (Err e) = Panic msg"
| "expect msg (Panic m) = Panic m"
| "expect msg UB = UB"

text \<open>The same two on a run, leaving the state alone.\<close>

definition map_err_run :: "('e \<Rightarrow> 'f) \<Rightarrow> ('s, 'e, 'a) run \<Rightarrow> ('s, 'f, 'a) run" where
  "map_err_run g r = (map_err g (fst r), snd r)"

definition map_ok_run :: "('a \<Rightarrow> 'b) \<Rightarrow> ('s, 'e, 'a) run \<Rightarrow> ('s, 'e, 'b) run" where
  "map_ok_run g r = (map_ok g (fst r), snd r)"

definition expect_run :: "string \<Rightarrow> ('s, 'e, 'a) run \<Rightarrow> ('s, 'f, 'a) run" where
  "expect_run msg r = (expect msg (fst r), snd r)"

lemma run_maps [simp]:
  "map_err_run g (r, s) = (map_err g r, s)"
  "map_ok_run f (r, s) = (map_ok f r, s)"
  "expect_run msg (r, s) = (expect msg r, s)"
  by (simp_all add: map_err_run_def map_ok_run_def expect_run_def)

text \<open>An outcome is clean when the call returned: no panic and no undefined behaviour.\<close>

fun clean :: "('e, 'a) outcome \<Rightarrow> bool" where
  "clean (Ok a) = True"
| "clean (Err e) = True"
| "clean (Panic m) = False"
| "clean UB = False"

fun is_ok :: "('e, 'a) outcome \<Rightarrow> bool" where
  "is_ok (Ok a) = True"
| "is_ok (Err e) = False"
| "is_ok (Panic m) = False"
| "is_ok UB = False"

lemma clean_map_err [simp]: "clean (map_err g r) = clean r"
  by (cases r) auto

lemma clean_map_ok [simp]: "clean (map_ok g r) = clean r"
  by (cases r) auto

lemma clean_cases:
  assumes "clean r"
  obtains (Ok) a where "r = Ok a" | (Err) e where "r = Err e"
  using assms by (cases r) auto

lemma map_err_eq_Ok [simp]: "map_err g r = Ok a \<longleftrightarrow> r = Ok a"
  by (cases r) auto

lemma map_err_eq_Err [simp]: "map_err g r = Err f \<longleftrightarrow> (\<exists>e. r = Err e \<and> f = g e)"
  by (cases r) auto

lemma map_err_id [simp]: "map_err (\<lambda>e. e) r = r"
  by (cases r) auto

lemma and_then_eq_Ok:
  "and_then r f = (Ok b, t) \<longleftrightarrow> (\<exists>a s. r = (Ok a, s) \<and> f a s = (Ok b, t))"
  by (cases r; cases "fst r") auto

lemma and_then_clean:
  assumes "clean (fst r)" and "\<And>a s. r = (Ok a, s) \<Longrightarrow> clean (fst (f a s))"
  shows "clean (fst (and_then r f))"
  using assms by (cases r; cases "fst r") auto

section \<open>Machine sizes\<close>

text \<open>A 64-bit target: \<open>usize\<close> and \<open>isize\<close> are 64 bits wide.\<close>

definition usize_max :: nat where
  "usize_max = 2 ^ 64 - 1"

definition isize_max :: nat where
  "isize_max = 2 ^ 63 - 1"

definition checked_add :: "nat \<Rightarrow> nat \<Rightarrow> nat option" where
  "checked_add a b = (if a + b \<le> usize_max then Some (a + b) else None)"

definition saturating_add :: "nat \<Rightarrow> nat \<Rightarrow> nat" where
  "saturating_add a b = min (a + b) usize_max"

text \<open>\<open>saturating_sub\<close> on \<open>usize\<close> is subtraction on naturals, which stops at 0.\<close>

lemma isize_le_usize: "isize_max \<le> usize_max"
  by (simp add: isize_max_def usize_max_def)

lemma checked_add_Some [simp]: "checked_add a b = Some c \<longleftrightarrow> c = a + b \<and> a + b \<le> usize_max"
  by (auto simp: checked_add_def)

lemma checked_add_None [simp]: "checked_add a b = None \<longleftrightarrow> usize_max < a + b"
  by (auto simp: checked_add_def)

lemma saturating_add_le: "saturating_add a b \<le> usize_max"
  by (simp add: saturating_add_def)

section \<open>Facts on lists\<close>

lemma take_length_append [simp]: "take (length xs) (xs @ ys) = xs"
  by simp

lemma filter_list_update_in:
  assumes "i < length xs" and "P (xs ! i)" and "P x"
  shows "length (filter P (xs[i := x])) = length (filter P xs)"
  using assms by (induction xs arbitrary: i) (auto split: nat.splits)

lemma filter_list_update_add:
  assumes "i < length xs" and "\<not> P (xs ! i)" and "P x"
  shows "length (filter P (xs[i := x])) = Suc (length (filter P xs))"
  using assms by (induction xs arbitrary: i) (auto split: nat.splits)

lemma filter_list_update_remove:
  assumes "i < length xs" and "P (xs ! i)" and "\<not> P x"
  shows "Suc (length (filter P (xs[i := x]))) = length (filter P xs)"
  using assms by (induction xs arbitrary: i) (auto split: nat.splits)

lemma filter_list_update_out:
  assumes "i < length xs" and "\<not> P (xs ! i)" and "\<not> P x"
  shows "length (filter P (xs[i := x])) = length (filter P xs)"
  using assms by (induction xs arbitrary: i) (auto split: nat.splits)

lemma filter_length_pos:
  assumes "i < length xs" and "P (xs ! i)"
  shows "0 < length (filter P xs)"
  using assms by (metis filter_empty_conv length_greater_0_conv nth_mem)

end
