(* ===== verification/Allocator.thy ===== *)
theory Allocator
  imports Prelude
begin

text \<open>
  The global allocator, as the test suite installs it
  (\<^verbatim>\<open>rustyfill-test-allocator/src/lib.rs\<close>): a failure policy and two
  invocation counters in thread-local cells, in front of the system allocator. The system
  allocator is not part of the repository; the model leaves it open as an arbitrary sequence of
  grants \<open>sys_grants\<close>, indexed by the number of requests made so far. Every operation of the
  development that allocates threads this \<open>heap\<close>, so a theorem about all heaps is a theorem
  about every failure pattern. Also here: the layouts and reservation errors of
  \<^verbatim>\<open>rustyfill/src/alloc.rs\<close>.
\<close>

section \<open>Failure policy\<close>

type_synonym u64 = "64 word"

record fail_policy =
  fail_alloc_at :: "u64 option"
  fail_realloc_at :: "u64 option"

definition policy_nothing :: fail_policy where
  "policy_nothing = \<lparr>fail_alloc_at = None, fail_realloc_at = None\<rparr>"

definition policy_fail_next_alloc :: fail_policy where
  "policy_fail_next_alloc = \<lparr>fail_alloc_at = Some 1, fail_realloc_at = None\<rparr>"

definition policy_fail_next_realloc :: fail_policy where
  "policy_fail_next_realloc = \<lparr>fail_alloc_at = None, fail_realloc_at = Some 1\<rparr>"

definition policy_fail_nth_alloc :: "u64 \<Rightarrow> fail_policy" where
  "policy_fail_nth_alloc n = \<lparr>fail_alloc_at = Some n, fail_realloc_at = None\<rparr>"

definition policy_fail_nth_realloc :: "u64 \<Rightarrow> fail_policy" where
  "policy_fail_nth_realloc n = \<lparr>fail_alloc_at = None, fail_realloc_at = Some n\<rparr>"

definition policy_fail_all_alloc :: fail_policy where
  "policy_fail_all_alloc = \<lparr>fail_alloc_at = Some 0, fail_realloc_at = None\<rparr>"

definition policy_fail_all_realloc :: fail_policy where
  "policy_fail_all_realloc = \<lparr>fail_alloc_at = None, fail_realloc_at = Some 0\<rparr>"

definition policy_fail_all :: fail_policy where
  "policy_fail_all = \<lparr>fail_alloc_at = Some 0, fail_realloc_at = Some 0\<rparr>"

section \<open>Thread-local state\<close>

record heap =
  fail_policy_cell :: fail_policy
  alloc_invocations :: u64
  realloc_invocations :: u64
  sys_grants :: "nat \<Rightarrow> bool"
  sys_clock :: nat

type_synonym policy_snapshot = "fail_policy \<times> u64 \<times> u64"

definition get_snapshot :: "heap \<Rightarrow> policy_snapshot" where
  "get_snapshot h = (fail_policy_cell h, alloc_invocations h, realloc_invocations h)"

fun restore_snapshot :: "policy_snapshot \<Rightarrow> heap \<Rightarrow> heap" where
  "restore_snapshot (p, a, r) h =
     h\<lparr>fail_policy_cell := p, alloc_invocations := a, realloc_invocations := r\<rparr>"

text \<open>
  Installing a policy resets both counters. \<open>with_policy\<close> catches a panic of the closure,
  restores the snapshot and resumes the panic: on outcomes this is running the closure and
  restoring afterwards, whatever it returned.
\<close>

definition install_policy :: "fail_policy \<Rightarrow> heap \<Rightarrow> heap" where
  "install_policy p h =
     h\<lparr>fail_policy_cell := p, alloc_invocations := 0, realloc_invocations := 0\<rparr>"

definition with_policy ::
    "fail_policy \<Rightarrow> (heap \<Rightarrow> ('e, 'a) outcome \<times> heap) \<Rightarrow> heap \<Rightarrow> ('e, 'a) outcome \<times> heap" where
  "with_policy p f h =
     (let prev = get_snapshot h;
          (result, h') = f (install_policy p h)
      in (result, restore_snapshot prev h'))"

text \<open>The RAII guard: \<open>install\<close> saves the snapshot, \<open>drop\<close> restores it.\<close>

definition guard_install :: "fail_policy \<Rightarrow> heap \<Rightarrow> policy_snapshot \<times> heap" where
  "guard_install p h = (get_snapshot h, install_policy p h)"

definition guard_drop :: "policy_snapshot \<Rightarrow> heap \<Rightarrow> heap" where
  "guard_drop snap h = restore_snapshot snap h"

section \<open>Allocation requests\<close>

text \<open>
  A counter value of zero in the policy fails every call without counting. The \<open>u64\<close> counters
  wrap at \<open>2 ^ 64\<close> calls, as a release build does.
\<close>

definition check_should_fail_alloc :: "heap \<Rightarrow> bool \<times> heap" where
  "check_should_fail_alloc h =
     (case fail_alloc_at (fail_policy_cell h) of
        None \<Rightarrow> (False, h)
      | Some at \<Rightarrow>
          if at = 0 then (True, h)
          else let n = alloc_invocations h
               in (n + 1 = at, h\<lparr>alloc_invocations := n + 1\<rparr>))"

definition check_should_fail_realloc :: "heap \<Rightarrow> bool \<times> heap" where
  "check_should_fail_realloc h =
     (case fail_realloc_at (fail_policy_cell h) of
        None \<Rightarrow> (False, h)
      | Some at \<Rightarrow>
          if at = 0 then (True, h)
          else let n = realloc_invocations h
               in (n + 1 = at, h\<lparr>realloc_invocations := n + 1\<rparr>))"

text \<open>The system allocator answers its next request.\<close>

definition system_request :: "heap \<Rightarrow> bool \<times> heap" where
  "system_request h = (sys_grants h (sys_clock h), h\<lparr>sys_clock := Suc (sys_clock h)\<rparr>)"

text \<open>The result is whether the returned pointer is not null.\<close>

definition galloc :: "heap \<Rightarrow> bool \<times> heap" where
  "galloc h =
     (let (fails, h') = check_should_fail_alloc h
      in if fails then (False, h') else system_request h')"

definition galloc_zeroed :: "heap \<Rightarrow> bool \<times> heap" where
  "galloc_zeroed h =
     (let (fails, h') = check_should_fail_alloc h
      in if fails then (False, h') else system_request h')"

definition grealloc :: "heap \<Rightarrow> bool \<times> heap" where
  "grealloc h =
     (let (fails, h') = check_should_fail_realloc h
      in if fails then (False, h') else system_request h')"

section \<open>Layouts and reservation errors\<close>

datatype layout = Layout (lsize: nat) (lalign: nat)

datatype alloc_error = AllocError

datatype try_reserve_error_kind = CapacityOverflow | AllocErrorKind layout

text \<open>
  \<open>TryReserveError\<close> is the standard library's struct around the kind; the crate builds it by
  transmuting a layout-matched mirror, which on values is the constructor.
\<close>

datatype try_reserve_error = TryReserveError (kind: try_reserve_error_kind)

definition new_alloc :: "layout \<Rightarrow> try_reserve_error" where
  "new_alloc l = TryReserveError (AllocErrorKind l)"

definition new_capacity_overflow :: try_reserve_error where
  "new_capacity_overflow = TryReserveError CapacityOverflow"

definition error_kind :: "try_reserve_error \<Rightarrow> try_reserve_error_kind" where
  "error_kind e =
     (case kind e of CapacityOverflow \<Rightarrow> CapacityOverflow | AllocErrorKind l \<Rightarrow> AllocErrorKind l)"

definition is_alloc :: "try_reserve_error \<Rightarrow> bool" where
  "is_alloc e = (case error_kind e of AllocErrorKind _ \<Rightarrow> True | CapacityOverflow \<Rightarrow> False)"

definition is_capacity_overflow :: "try_reserve_error \<Rightarrow> bool" where
  "is_capacity_overflow e =
     (case error_kind e of CapacityOverflow \<Rightarrow> True | AllocErrorKind _ \<Rightarrow> False)"

text \<open>hashbrown's own error type has the same two variants.\<close>

datatype hashbrown_reserve_error = HbCapacityOverflow | HbAllocError layout

fun try_reserve_error_from_hashbrown :: "hashbrown_reserve_error \<Rightarrow> try_reserve_error" where
  "try_reserve_error_from_hashbrown HbCapacityOverflow = new_capacity_overflow"
| "try_reserve_error_from_hashbrown (HbAllocError l) = new_alloc l"

definition debug_try_reserve_error :: "try_reserve_error \<Rightarrow> string" where
  "debug_try_reserve_error e =
     (case error_kind e of
        CapacityOverflow \<Rightarrow> ''TryReserveError::CapacityOverflow''
      | AllocErrorKind _ \<Rightarrow> ''TryReserveError::AllocError'')"

section \<open>Properties of the allocator\<close>

text \<open>A run of \<open>k\<close> allocation requests, with the answers in order.\<close>

fun alloc_run :: "nat \<Rightarrow> heap \<Rightarrow> bool list \<times> heap" where
  "alloc_run 0 h = ([], h)"
| "alloc_run (Suc k) h =
     (let (ok, h') = galloc h; (oks, h'') = alloc_run k h' in (ok # oks, h''))"

lemma galloc_keeps_grants [simp]: "sys_grants (snd (galloc h)) = sys_grants h"
  by (simp add: galloc_def check_should_fail_alloc_def system_request_def Let_def
      split: option.splits)

lemma grealloc_keeps_grants [simp]: "sys_grants (snd (grealloc h)) = sys_grants h"
  by (simp add: grealloc_def check_should_fail_realloc_def system_request_def Let_def
      split: option.splits)

lemma error_kind_new [simp]:
  "error_kind (new_alloc l) = AllocErrorKind l"
  "error_kind new_capacity_overflow = CapacityOverflow"
  by (simp_all add: error_kind_def new_alloc_def new_capacity_overflow_def)

lemma error_kind_inverse:
  "(case error_kind e of CapacityOverflow \<Rightarrow> new_capacity_overflow | AllocErrorKind l \<Rightarrow> new_alloc l) = e"
  by (cases e; cases "kind e")
    (auto simp: error_kind_def new_alloc_def new_capacity_overflow_def)

text \<open>
  A heap on which every request is granted: no policy, and a system allocator with memory left.
\<close>

definition generous :: "heap \<Rightarrow> bool" where
  "generous h \<longleftrightarrow> fail_policy_cell h = policy_nothing \<and> (\<forall>n. sys_grants h n)"

lemma generous_galloc: "generous h \<Longrightarrow> fst (galloc h) \<and> generous (snd (galloc h))"
  by (simp add: generous_def galloc_def check_should_fail_alloc_def policy_nothing_def
      system_request_def)

lemma generous_grealloc: "generous h \<Longrightarrow> fst (grealloc h) \<and> generous (snd (grealloc h))"
  by (simp add: generous_def grealloc_def check_should_fail_realloc_def policy_nothing_def
      system_request_def)

text \<open>A heap on which every request fails, as under \<open>FailPolicy::fail_all()\<close>.\<close>

definition exhausted :: "heap \<Rightarrow> bool" where
  "exhausted h \<longleftrightarrow> fail_policy_cell h = policy_fail_all"

lemma exhausted_galloc: "exhausted h \<Longrightarrow> galloc h = (False, h)"
  by (simp add: exhausted_def galloc_def check_should_fail_alloc_def policy_fail_all_def)

lemma exhausted_grealloc: "exhausted h \<Longrightarrow> grealloc h = (False, h)"
  by (simp add: exhausted_def grealloc_def check_should_fail_realloc_def policy_fail_all_def)

definition heap_with :: "fail_policy \<Rightarrow> heap" where
  "heap_with p = \<lparr>fail_policy_cell = p, alloc_invocations = 0, realloc_invocations = 0,
     sys_grants = (\<lambda>_. True), sys_clock = 0\<rparr>"

lemma generous_heap_with [simp]: "generous (heap_with policy_nothing)"
  by (simp add: generous_def heap_with_def)

lemma exhausted_heap_with [simp]: "exhausted (heap_with policy_fail_all)"
  by (simp add: exhausted_def heap_with_def)

end
