(* ===== verification/Vec.thy ===== *)
theory Vec
  imports Allocator
begin

text \<open>
  Fallible vectors (\<^verbatim>\<open>rustyfill/src/alloc/vec/vec_.rs\<close>, \<^verbatim>\<open>raw_manipulation.rs\<close>).
  The first section is the part of the standard library's \<open>Vec\<close> that the crate calls: a
  sequence with a capacity and its element layout, growing as \<open>RawVec\<close> does. A zero-sized
  element never allocates and has capacity \<open>usize::MAX\<close>. The rest follows the trait
  \<open>TryVec\<close> method by method. The state of an operation is the vector and the heap.
\<close>

section \<open>The standard vector\<close>

datatype 'a vec = Vec (items: "'a list") (cap: nat) (elem: layout)

type_synonym 'a vstate = "'a vec \<times> heap"

abbreviation vlen :: "'a vec \<Rightarrow> nat" where
  "vlen v \<equiv> length (items v)"

definition vec_new :: "layout \<Rightarrow> 'a vec" where
  "vec_new l = Vec [] (if lsize l = 0 then usize_max else 0) l"

definition with_items :: "'a list \<Rightarrow> 'a vec \<Rightarrow> 'a vec" where
  "with_items xs v = Vec xs (cap v) (elem v)"

definition with_cap :: "nat \<Rightarrow> 'a vec \<Rightarrow> 'a vec" where
  "with_cap c v = Vec (items v) c (elem v)"

lemma vec_sel [simp]:
  "items (with_items xs v) = xs" "cap (with_items xs v) = cap v" "elem (with_items xs v) = elem v"
  "items (with_cap c v) = items v" "cap (with_cap c v) = c" "elem (with_cap c v) = elem v"
  by (simp_all add: with_items_def with_cap_def)

lemma with_items_again [simp]: "with_items xs (with_items ys v) = with_items xs v"
  by (simp add: with_items_def)

definition min_non_zero_cap :: "nat \<Rightarrow> nat" where
  "min_non_zero_cap sz = (if sz = 1 then 8 else if sz \<le> 1024 then 4 else 1)"

text \<open>\<open>RawVec::grow_amortized\<close>: at least double, never beyond \<open>isize::MAX\<close> bytes.\<close>

definition grow_cap :: "'a vec \<Rightarrow> nat \<Rightarrow> nat option" where
  "grow_cap v additional =
     (if lsize (elem v) = 0 then None
      else case checked_add (vlen v) additional of
          None \<Rightarrow> None
        | Some required \<Rightarrow>
            let new_cap = max (min_non_zero_cap (lsize (elem v))) (max (cap v * 2) required)
            in if isize_max + 1 - lalign (elem v) < new_cap * lsize (elem v) then None
               else Some new_cap)"

definition grow_amortized :: "nat \<Rightarrow> 'a vstate \<Rightarrow> ('a vstate, try_reserve_error, unit) run" where
  "grow_amortized additional s =
     (case s of (v, h) \<Rightarrow>
        case grow_cap v additional of
          None \<Rightarrow> (Err new_capacity_overflow, s)
        | Some new_cap \<Rightarrow>
            let (ok, h') = (if cap v = 0 then galloc h else grealloc h)
            in if ok then (Ok (), (with_cap new_cap v, h'))
               else (Err (new_alloc (Layout (new_cap * lsize (elem v)) (lalign (elem v)))), (v, h')))"

definition vec_try_reserve :: "nat \<Rightarrow> 'a vstate \<Rightarrow> ('a vstate, try_reserve_error, unit) run" where
  "vec_try_reserve additional s =
     (if cap (fst s) - vlen (fst s) < additional then grow_amortized additional s else (Ok (), s))"

text \<open>
  The infallible methods abort when they must grow and cannot; with enough capacity they do not
  touch the allocator.
\<close>

definition vec_push :: "'a \<Rightarrow> 'a vstate \<Rightarrow> ('a vstate, 'e, unit) run" where
  "vec_push x s =
     (case (if vlen (fst s) = cap (fst s) then grow_amortized 1 s else (Ok (), s)) of
        (Ok _, (v, h)) \<Rightarrow> (Ok (), (with_items (items v @ [x]) v, h))
      | (_, s') \<Rightarrow> (Panic ''memory allocation failed'', s'))"

definition vec_insert :: "nat \<Rightarrow> 'a \<Rightarrow> 'a vstate \<Rightarrow> ('a vstate, 'e, unit) run" where
  "vec_insert index x s =
     (if vlen (fst s) < index then (Panic ''insertion index out of bounds'', s)
      else case (if vlen (fst s) = cap (fst s) then grow_amortized 1 s else (Ok (), s)) of
        (Ok _, (v, h)) \<Rightarrow>
          (Ok (), (with_items (take index (items v) @ x # drop index (items v)) v, h))
      | (_, s') \<Rightarrow> (Panic ''memory allocation failed'', s'))"

definition vec_truncate :: "nat \<Rightarrow> 'a vec \<Rightarrow> 'a vec" where
  "vec_truncate n v = with_items (take n (items v)) v"

text \<open>\<open>Vec::append\<close> moves the elements of the second vector, which keeps its buffer.\<close>

definition vec_append :: "'a vec \<Rightarrow> 'a vstate \<Rightarrow> ('a vstate, 'e, 'a vec) run" where
  "vec_append other s =
     (case (if cap (fst s) - vlen (fst s) < vlen other
            then grow_amortized (vlen other) s else (Ok (), s)) of
        (Ok _, (v, h)) \<Rightarrow> (Ok (with_items [] other), (with_items (items v @ items other) v, h))
      | (_, s') \<Rightarrow> (Panic ''memory allocation failed'', s'))"

subsection \<open>Well-formed vectors\<close>

definition vec_ok :: "'a vec \<Rightarrow> bool" where
  "vec_ok v \<longleftrightarrow> vlen v \<le> cap v \<and> cap v \<le> usize_max \<and> 0 < lalign (elem v) \<and>
     (if lsize (elem v) = 0 then cap v = usize_max else cap v * lsize (elem v) \<le> isize_max)"

lemma vec_ok_new [simp]: "0 < lalign l \<Longrightarrow> vec_ok (vec_new l)"
  by (simp add: vec_ok_def vec_new_def)

lemma vec_ok_with_items: "vec_ok v \<Longrightarrow> length xs \<le> cap v \<Longrightarrow> vec_ok (with_items xs v)"
  by (simp add: vec_ok_def)

lemma vec_ok_lenD: "vec_ok v \<Longrightarrow> vlen v \<le> cap v"
  by (simp add: vec_ok_def)

lemma vec_ok_truncate [simp]: "vec_ok v \<Longrightarrow> vec_ok (vec_truncate n v)"
  by (auto simp: vec_truncate_def vec_ok_def)

lemma items_truncate [simp]: "items (vec_truncate n v) = take n (items v)"
  by (simp add: vec_truncate_def)

lemma items_new [simp]: "items (vec_new l) = []"
  by (simp add: vec_new_def)

lemma elem_new [simp]: "elem (vec_new l) = l"
  by (simp add: vec_new_def)

text \<open>What a reservation does: it never panics, keeps the elements, and on success has room.\<close>

lemma grow_cap_Some:
  assumes "grow_cap v n = Some c"
  shows "0 < lsize (elem v) \<and> vlen v + n \<le> c \<and> cap v * 2 \<le> c \<and>
    c * lsize (elem v) \<le> isize_max + 1 - lalign (elem v)"
  using assms by (auto simp: grow_cap_def Let_def split: if_splits option.splits)

lemma grow_cap_bound:
  assumes "grow_cap v n = Some c" and "0 < lalign (elem v)"
  shows "c * lsize (elem v) \<le> isize_max" and "c \<le> usize_max"
proof -
  have g: "c * lsize (elem v) \<le> isize_max + 1 - lalign (elem v)" "1 \<le> lsize (elem v)"
    using grow_cap_Some [OF assms(1)] by auto
  show b: "c * lsize (elem v) \<le> isize_max"
    using g(1) assms(2) by linarith
  have "c * 1 \<le> c * lsize (elem v)"
    by (rule mult_le_mono2) (rule g(2))
  then show "c \<le> usize_max"
    using b isize_le_usize by linarith
qed

lemma grow_amortized_cases:
  obtains (grown) c h' where "grow_cap v n = Some c"
      and "grow_amortized n (v, h) = (Ok (), (with_cap c v, h'))"
  | (failed) e h' where "grow_amortized n (v, h) = (Err e, (v, h'))"
  by (cases "grow_cap v n"; cases "if cap v = 0 then galloc h else grealloc h"; cases "fst (if cap v = 0 then galloc h else grealloc h)")
    (simp_all add: grow_amortized_def Let_def)

lemma vec_ok_grown:
  assumes "vec_ok v" and "grow_cap v n = Some c"
  shows "vec_ok (with_cap c v)" and "vlen v + n \<le> c"
  using assms grow_cap_Some [OF assms(2)] grow_cap_bound [OF assms(2)]
  by (auto simp: vec_ok_def)

lemma vec_try_reserve_cases [consumes 1]:
  assumes "vec_ok v"
  obtains (reserved) v' h' where "vec_try_reserve n (v, h) = (Ok (), (v', h'))"
      and "vec_ok v'" and "items v' = items v" and "elem v' = elem v" and "vlen v + n \<le> cap v'"
  | (failed) e h' where "vec_try_reserve n (v, h) = (Err e, (v, h'))"
proof (cases "cap v - vlen v < n")
  case True
  then have eq: "vec_try_reserve n (v, h) = grow_amortized n (v, h)"
    by (simp add: vec_try_reserve_def)
  show ?thesis
  proof (cases rule: grow_amortized_cases [of v n h])
    case (grown c h')
    then show ?thesis
      using vec_ok_grown [OF assms grown(1)] by (intro reserved [of "with_cap c v" h']) (auto simp: eq)
  next
    case (failed e h')
    then show ?thesis using that(2) by (simp add: eq)
  qed
next
  case False
  then have "vec_try_reserve n (v, h) = (Ok (), (v, h))" and "vlen v + n \<le> cap v"
    using assms by (auto simp: vec_try_reserve_def vec_ok_def)
  then show ?thesis using assms by (intro reserved [of v h]) auto
qed

lemma vec_try_reserve_room:
  "vlen v + n \<le> cap v \<Longrightarrow> vec_try_reserve n (v, h) = (Ok (), (v, h))"
  by (auto simp: vec_try_reserve_def)

lemma vec_push_room:
  "vlen v < cap v \<Longrightarrow> vec_push x (v, h) = (Ok (), (with_items (items v @ [x]) v, h))"
  by (simp add: vec_push_def)

lemma vec_insert_room:
  "vlen v < cap v \<Longrightarrow> i \<le> vlen v \<Longrightarrow>
   vec_insert i x (v, h) = (Ok (), (with_items (take i (items v) @ x # drop i (items v)) v, h))"
  by (simp add: vec_insert_def)

lemma vec_append_room:
  "vlen v + vlen w \<le> cap v \<Longrightarrow>
   vec_append w (v, h) = (Ok (with_items [] w), (with_items (items v @ items w) v, h))"
  by (auto simp: vec_append_def)

end
