(* ===== verification/TryClone.thy ===== *)
theory TryClone
  imports Vec
begin

text \<open>
  Fallible cloning (\<^verbatim>\<open>rustyfill/src/try_clone.rs\<close>) and boxing
  (\<^verbatim>\<open>rustyfill/src/alloc/boxed/box_.rs\<close>). A \<open>TryClone\<close> implementation is a function
  of the value and the heap. The contract a caller relies on is the locale \<open>cloneable\<close>: the
  call returns (it neither panics nor reaches undefined behaviour), and a clone shows the same
  value, seen through a view that hides capacities.
\<close>

section \<open>Errors and element clones\<close>

datatype try_clone_error =
    CloneReserve try_reserve_error
  | CloneAlloc alloc_error
  | CloneOther string

text \<open>The error of \<^verbatim>\<open>rustyfill/src/try_to_owned.rs\<close>.\<close>

datatype to_owned_error = OwnReserve try_reserve_error | OwnAlloc alloc_error | OwnOther string

datatype try_default_error = DefaultReserve try_reserve_error | DefaultNoMemory alloc_error | DefaultMessage string

type_synonym 'a cloner = "'a \<Rightarrow> heap \<Rightarrow> (try_clone_error, 'a) outcome \<times> heap"

text \<open>\<open>Copy\<close> types, slices and string slices: a bitwise copy.\<close>

definition copy_try_clone :: "'a cloner" where
  "copy_try_clone x h = (Ok x, h)"

definition slice_try_clone :: "'a list cloner" where
  "slice_try_clone xs h = (Ok xs, h)"

fun option_try_clone :: "'a cloner \<Rightarrow> 'a option cloner" where
  "option_try_clone cl (Some v) h = (let (r, h') = cl v h in (map_ok Some r, h'))"
| "option_try_clone cl None h = (Ok None, h)"

fun result_try_clone :: "'a cloner \<Rightarrow> 'e cloner \<Rightarrow> ('e + 'a) cloner" where
  "result_try_clone cl cle (Inr v) h = (let (r, h') = cl v h in (map_ok Inr r, h'))"
| "result_try_clone cl cle (Inl e) h = (let (r, h') = cle e h in (map_ok Inl r, h'))"

subsection \<open>Arrays\<close>

text \<open>
  \<open>ArrayInitGuard\<close>: the slots written so far and how many of them the guard would drop. The loop
  returns the filled slots, or the error with the values the guard drops on the early return.
\<close>

type_synonym 'a init_guard = "'a option list \<times> nat"

definition guard_drops :: "'a init_guard \<Rightarrow> 'a list" where
  "guard_drops g = (case g of (slots, n) \<Rightarrow> List.map_filter (\<lambda>s. s) (take n slots))"

fun array_clone_loop ::
    "'a cloner \<Rightarrow> nat \<Rightarrow> 'a list \<Rightarrow> ('a init_guard \<times> heap) \<Rightarrow>
     ('a init_guard \<times> heap, try_clone_error, unit) run" where
  "array_clone_loop cl i [] s = (Ok (), s)"
| "array_clone_loop cl i (x # xs) ((slots, n), h) =
     (case cl x h of
        (Ok y, h') \<Rightarrow>
          (case checked_add n 1 of
             Some n' \<Rightarrow> array_clone_loop cl (Suc i) xs ((slots[i := Some y], n'), h')
           | None \<Rightarrow>
               (Panic ''initialized slot count below array length'', ((slots[i := Some y], n), h')))
      | (Err e, h') \<Rightarrow> (Err e, ((slots, n), h'))
      | (Panic m, h') \<Rightarrow> (Panic m, ((slots, n), h'))
      | (UB, h') \<Rightarrow> (UB, ((slots, n), h')))"

text \<open>
  The result pairs the outcome with what the guard dropped: nothing once it was forgotten.
  Reading a slot that was never written would be undefined behaviour.
\<close>

definition array_try_clone ::
    "'a cloner \<Rightarrow> 'a list \<Rightarrow> heap \<Rightarrow> (try_clone_error, 'a list) outcome \<times> 'a list \<times> heap" where
  "array_try_clone cl xs h =
     (case array_clone_loop cl 0 xs ((replicate (length xs) None, 0), h) of
        (Ok _, ((slots, n), h')) \<Rightarrow>
          (if list_all (\<lambda>s. s \<noteq> None) slots
           then (Ok (List.map_filter (\<lambda>s. s) slots), [], h') else (UB, [], h'))
      | (Err e, (g, h')) \<Rightarrow> (Err e, guard_drops g, h')
      | (Panic m, (g, h')) \<Rightarrow> (Panic m, guard_drops g, h')
      | (UB, (g, h')) \<Rightarrow> (UB, [], h'))"

section \<open>Boxes\<close>

text \<open>A box is its value; what matters here is when it allocates. A zero-sized value does not.\<close>

definition alloc_box_uninit :: "layout \<Rightarrow> heap \<Rightarrow> (alloc_error, unit) outcome \<times> heap" where
  "alloc_box_uninit l h =
     (if lsize l = 0 then (Ok (), h)
      else let (ok, h') = galloc h in (if ok then Ok () else Err AllocError, h'))"

definition alloc_box_zeroed :: "layout \<Rightarrow> heap \<Rightarrow> (alloc_error, unit) outcome \<times> heap" where
  "alloc_box_zeroed l h =
     (if lsize l = 0 then (Ok (), h)
      else let (ok, h') = galloc_zeroed h in (if ok then Ok () else Err AllocError, h'))"

definition box_try_new :: "layout \<Rightarrow> 'a \<Rightarrow> heap \<Rightarrow> (alloc_error, 'a) outcome \<times> heap" where
  "box_try_new l x h = (let (r, h') = alloc_box_uninit l h in (map_ok (\<lambda>_. x) r, h'))"

definition box_try_new_give_back ::
    "layout \<Rightarrow> 'a \<Rightarrow> heap \<Rightarrow> ('a \<times> alloc_error, 'a) outcome \<times> heap" where
  "box_try_new_give_back l x h =
     (case alloc_box_uninit l h of
        (Ok _, h') \<Rightarrow> (Ok x, h')
      | (Err e, h') \<Rightarrow> (Err (x, e), h')
      | (Panic m, h') \<Rightarrow> (Panic m, h')
      | (UB, h') \<Rightarrow> (UB, h'))"

definition box_try_clone :: "layout \<Rightarrow> 'a cloner \<Rightarrow> 'a cloner" where
  "box_try_clone l cl x h =
     (case alloc_box_uninit l h of
        (Ok _, h') \<Rightarrow> cl x h'
      | (Err e, h') \<Rightarrow> (Err (CloneAlloc e), h')
      | (Panic m, h') \<Rightarrow> (Panic m, h')
      | (UB, h') \<Rightarrow> (UB, h'))"

lemma alloc_box_uninit_cases:
  obtains (Ok) h' where "alloc_box_uninit l h = (Ok (), h')"
  | (Err) h' where "alloc_box_uninit l h = (Err AllocError, h')"
  by (cases "galloc h"; cases "fst (galloc h)"; cases "lsize l = 0")
    (auto simp: alloc_box_uninit_def)

lemma alloc_box_generous:
  "generous h \<Longrightarrow> \<exists>h'. alloc_box_uninit l h = (Ok (), h') \<and> generous h'"
  using generous_galloc [of h] by (auto simp: alloc_box_uninit_def Let_def split: prod.splits)

lemma box_give_back_cases:
  obtains (Ok) h' where "box_try_new_give_back l x h = (Ok x, h')"
  | (Err) h' where "box_try_new_give_back l x h = (Err (x, AllocError), h')"
  by (cases rule: alloc_box_uninit_cases [of l h]) (auto simp: box_try_new_give_back_def)

section \<open>The contract of an element clone\<close>

locale cloneable =
  fixes cl :: "'a cloner" and view :: "'a \<Rightarrow> 'b"
  assumes clone_view: "cl x h = (Ok y, h') \<Longrightarrow> view y = view x"
    and clone_clean: "clean (fst (cl x h))"
begin

lemma clone_cases:
  obtains (Ok) y h' where "cl x h = (Ok y, h')" and "view y = view x"
  | (Err) e h' where "cl x h = (Err e, h')"
  using clone_view [of x h] clone_clean [of x h]
  by (cases "cl x h"; cases "fst (cl x h)") auto

end

interpretation copy: cloneable copy_try_clone "\<lambda>x. x"
  by unfold_locales (auto simp: copy_try_clone_def)

interpretation slice: cloneable slice_try_clone "\<lambda>x. x"
  by unfold_locales (auto simp: slice_try_clone_def)

context cloneable
begin

lemma option_cloneable: "cloneable (option_try_clone cl) (map_option view)"
proof
  fix x h y h'
  assume "option_try_clone cl x h = (Ok y, h')"
  then show "map_option view y = map_option view x"
    by (cases x; cases rule: clone_cases [of "the x" h]) auto
next
  fix x h
  show "clean (fst (option_try_clone cl x h))"
    by (cases x; cases rule: clone_cases [of "the x" h]) auto
qed

lemma box_cloneable: "cloneable (box_try_clone l cl) view"
proof
  fix x h y h'
  assume "box_try_clone l cl x h = (Ok y, h')"
  then show "view y = view x"
    by (cases rule: alloc_box_uninit_cases [of l h])
      (auto simp: box_try_clone_def dest: clone_view)
next
  fix x h
  show "clean (fst (box_try_clone l cl x h))"
    by (cases rule: alloc_box_uninit_cases [of l h]) (auto simp: box_try_clone_def clone_clean)
qed

end

text \<open>The option of a copied value, and a boxed one, meet the contract too.\<close>

interpretation option_copy: cloneable "option_try_clone copy_try_clone" "map_option (\<lambda>x. x)"
  by (rule copy.option_cloneable)

interpretation box_copy: cloneable "box_try_clone l copy_try_clone" "\<lambda>x. x" for l
  by (rule copy.box_cloneable)

end
