(* ===== verification/TryVec.thy ===== *)
theory TryVec
  imports TryClone
begin

text \<open>
  The trait \<open>TryVec\<close> for \<open>Vec<T>\<close>, method by method
  (\<^verbatim>\<open>rustyfill/src/alloc/vec/vec_.rs\<close>), with the raw-buffer shrink of
  \<^verbatim>\<open>raw_manipulation.rs\<close>. A method that takes \<open>&mut self\<close> is a run on the vector and
  the heap; a constructor returns the vector in its outcome. The \<open>fallible_\<close> aliases are the
  same functions and are not repeated.
\<close>

section \<open>Errors\<close>

datatype vec_clone_error = VecReserve try_reserve_error | VecClone try_clone_error

datatype vec_within_error =
    WithinReserve try_reserve_error
  | WithinOutOfBounds
  | WithinClone try_clone_error

datatype vec_insert_error = InsertReserve try_reserve_error | InsertOutOfBounds

section \<open>The truncating guard\<close>

text \<open>
  \<open>TruncateGuard\<close> truncates the vector to its first length when it goes out of scope without
  \<open>forget\<close>, that is on every way out but \<open>Ok\<close>: an early return or a panic of the body.
\<close>

definition with_truncate_guard ::
    "('a vstate \<Rightarrow> ('a vstate, 'e, 'b) run) \<Rightarrow> 'a vstate \<Rightarrow> ('a vstate, 'e, 'b) run" where
  "with_truncate_guard body s =
     (let len_before = vlen (fst s)
      in case body s of
           (Ok a, s') \<Rightarrow> (Ok a, s')
         | (r, (v, h)) \<Rightarrow> (r, (vec_truncate len_before v, h)))"

section \<open>Construction\<close>

definition into_vec :: "('a vstate, 'e, unit) run \<Rightarrow> ('e, 'a vec) outcome \<times> heap" where
  "into_vec r = (case r of (out, (v, h)) \<Rightarrow> (map_ok (\<lambda>_. v) out, h))"

definition vec_try_with_capacity ::
    "layout \<Rightarrow> nat \<Rightarrow> heap \<Rightarrow> (try_reserve_error, 'a vec) outcome \<times> heap" where
  "vec_try_with_capacity l capacity h =
     into_vec (if 0 < capacity then vec_try_reserve capacity (vec_new l, h)
               else (Ok (), (vec_new l, h)))"

text \<open>Clone each element in turn and push it; stop at the first clone that does not succeed.\<close>

fun push_clones ::
    "'a cloner \<Rightarrow> 'a list \<Rightarrow> 'a vstate \<Rightarrow> ('a vstate, try_clone_error, unit) run" where
  "push_clones cl [] s = (Ok (), s)"
| "push_clones cl (x # xs) (v, h) =
     (case cl x h of
        (Ok y, h') \<Rightarrow> and_then (vec_push y (v, h')) (\<lambda>_. push_clones cl xs)
      | (Err e, h') \<Rightarrow> (Err e, (v, h'))
      | (Panic m, h') \<Rightarrow> (Panic m, (v, h'))
      | (UB, h') \<Rightarrow> (UB, (v, h')))"

definition vec_try_from_elem ::
    "layout \<Rightarrow> 'a cloner \<Rightarrow> 'a \<Rightarrow> nat \<Rightarrow> heap \<Rightarrow> (vec_clone_error, 'a vec) outcome \<times> heap" where
  "vec_try_from_elem l cl x n h =
     into_vec (and_then
       (if 0 < n then map_err_run VecReserve (vec_try_reserve n (vec_new l, h))
        else (Ok (), (vec_new l, h)))
       (\<lambda>_ s. map_err_run VecClone (push_clones cl (replicate n x) s)))"

definition vec_try_from_elem_give_back ::
    "layout \<Rightarrow> 'a cloner \<Rightarrow> 'a \<Rightarrow> nat \<Rightarrow> heap \<Rightarrow> ('a \<times> vec_clone_error, 'a vec) outcome \<times> heap" where
  "vec_try_from_elem_give_back l cl x n h =
     (let (r, h') = vec_try_from_elem l cl x n h in (map_err (\<lambda>e. (x, e)) r, h'))"

definition vec_try_from_slice ::
    "layout \<Rightarrow> 'a cloner \<Rightarrow> 'a list \<Rightarrow> heap \<Rightarrow> (vec_clone_error, 'a vec) outcome \<times> heap" where
  "vec_try_from_slice l cl xs h =
     into_vec (and_then (map_err_run VecReserve (vec_try_reserve (length xs) (vec_new l, h)))
       (\<lambda>_ s. map_err_run VecClone (push_clones cl xs s)))"

definition vec_try_clone :: "'a cloner \<Rightarrow> 'a vec cloner" where
  "vec_try_clone cl v h =
     into_vec (and_then
       (if items v \<noteq> [] then map_err_run CloneReserve (vec_try_reserve (vlen v) (vec_new (elem v), h))
        else (Ok (), (vec_new (elem v), h)))
       (\<lambda>_ s. push_clones cl (items v) s))"

section \<open>Mutation\<close>

definition vec_try_push :: "'a \<Rightarrow> 'a vstate \<Rightarrow> ('a vstate, try_reserve_error, unit) run" where
  "vec_try_push x s = and_then (vec_try_reserve 1 s) (\<lambda>_. vec_push x)"

definition vec_try_push_give_back ::
    "'a \<Rightarrow> 'a vstate \<Rightarrow> ('a vstate, 'a \<times> try_reserve_error, unit) run" where
  "vec_try_push_give_back x s =
     and_then (map_err_run (\<lambda>e. (x, e)) (vec_try_reserve 1 s)) (\<lambda>_. vec_push x)"

definition vec_try_insert ::
    "nat \<Rightarrow> 'a \<Rightarrow> 'a vstate \<Rightarrow> ('a vstate, vec_insert_error, unit) run" where
  "vec_try_insert index x s =
     (if vlen (fst s) < index then (Err InsertOutOfBounds, s)
      else and_then (map_err_run InsertReserve (vec_try_reserve 1 s)) (\<lambda>_. vec_insert index x))"

definition vec_try_insert_give_back ::
    "nat \<Rightarrow> 'a \<Rightarrow> 'a vstate \<Rightarrow> ('a vstate, 'a \<times> vec_insert_error, unit) run" where
  "vec_try_insert_give_back index x s =
     (if vlen (fst s) < index then (Err (x, InsertOutOfBounds), s)
      else and_then (map_err_run (\<lambda>e. (x, InsertReserve e)) (vec_try_reserve 1 s))
             (\<lambda>_. vec_insert index x))"

definition vec_try_extend_from_slice_with_rollback ::
    "'a cloner \<Rightarrow> 'a list \<Rightarrow> 'a vstate \<Rightarrow> ('a vstate, vec_clone_error, unit) run" where
  "vec_try_extend_from_slice_with_rollback cl other s =
     (if other = [] then (Ok (), s)
      else and_then (map_err_run VecReserve (vec_try_reserve (length other) s))
             (\<lambda>_. with_truncate_guard (\<lambda>s'. map_err_run VecClone (push_clones cl other s'))))"

text \<open>The state of \<open>append\<close> is both vectors: the source is drained only on success.\<close>

definition vec_try_append ::
    "('a vec \<times> 'a vec) \<times> heap \<Rightarrow> (('a vec \<times> 'a vec) \<times> heap, try_reserve_error, unit) run" where
  "vec_try_append s =
     (case s of ((v, other), h) \<Rightarrow>
        let extra = vlen other
        in if extra = 0 then (Ok (), s)
           else case vec_try_reserve extra (v, h) of
               (Ok _, s') \<Rightarrow>
                 (case vec_append other s' of
                    (Ok other', (v', h')) \<Rightarrow> (Ok (), ((v', other'), h'))
                  | (r, (v', h')) \<Rightarrow> (map_ok (\<lambda>_. ()) r, ((v', other), h')))
             | (r, (v', h')) \<Rightarrow> (r, ((v', other), h')))"

datatype bound = Included nat | Excluded nat | Unbounded

fun range_start :: "bound \<Rightarrow> nat option" where
  "range_start (Included i) = Some i"
| "range_start (Excluded i) = checked_add i 1"
| "range_start Unbounded = Some 0"

fun range_end :: "nat \<Rightarrow> bound \<Rightarrow> nat option" where
  "range_end len (Included i) = checked_add i 1"
| "range_end len (Excluded i) = Some i"
| "range_end len Unbounded = Some len"

text \<open>The loop reads the growing vector by index; an index out of range would panic.\<close>

fun push_clones_at ::
    "'a cloner \<Rightarrow> nat list \<Rightarrow> 'a vstate \<Rightarrow> ('a vstate, try_clone_error, unit) run" where
  "push_clones_at cl [] s = (Ok (), s)"
| "push_clones_at cl (i # is) (v, h) =
     (if vlen v \<le> i then (Panic ''index out of bounds'', (v, h))
      else case cl (items v ! i) h of
        (Ok y, h') \<Rightarrow> and_then (vec_push y (v, h')) (\<lambda>_. push_clones_at cl is)
      | (Err e, h') \<Rightarrow> (Err e, (v, h'))
      | (Panic m, h') \<Rightarrow> (Panic m, (v, h'))
      | (UB, h') \<Rightarrow> (UB, (v, h')))"

definition vec_try_extend_from_within ::
    "'a cloner \<Rightarrow> bound \<Rightarrow> bound \<Rightarrow> 'a vstate \<Rightarrow> ('a vstate, vec_within_error, unit) run" where
  "vec_try_extend_from_within cl lo hi s =
     (case range_start lo of
        None \<Rightarrow> (Err (WithinReserve new_capacity_overflow), s)
      | Some start \<Rightarrow>
          (case range_end (vlen (fst s)) hi of
             None \<Rightarrow> (Err (WithinReserve new_capacity_overflow), s)
           | Some stop \<Rightarrow>
               if stop \<le> start then (Ok (), s)
               else if vlen (fst s) < stop \<or> vlen (fst s) < start then (Err WithinOutOfBounds, s)
               else and_then (map_err_run WithinReserve (vec_try_reserve (stop - start) s))
                      (\<lambda>_. with_truncate_guard
                         (\<lambda>s'. map_err_run WithinClone (push_clones_at cl [start..<stop] s')))))"

definition vec_try_resize ::
    "'a cloner \<Rightarrow> 'a \<Rightarrow> nat \<Rightarrow> 'a vstate \<Rightarrow> ('a vstate, vec_clone_error, unit) run" where
  "vec_try_resize cl x new_len s =
     (case s of (v, h) \<Rightarrow>
        if new_len \<le> vlen v then (Ok (), (vec_truncate new_len v, h))
        else let extra = new_len - vlen v
             in and_then (map_err_run VecReserve (vec_try_reserve extra s))
                  (\<lambda>_. with_truncate_guard
                     (\<lambda>s'. map_err_run VecClone (push_clones cl (replicate extra x) s'))))"

text \<open>
  \<open>resize_with\<close> calls a stateful closure; \<open>None\<close> is a closure that panics. The closure state is
  threaded beside the vector.
\<close>

fun push_generated ::
    "('f \<Rightarrow> 'a option \<times> 'f) \<Rightarrow> nat \<Rightarrow> 'f \<Rightarrow> 'a vstate \<Rightarrow> ('a vstate, 'e, 'f) run" where
  "push_generated f 0 st s = (Ok st, s)"
| "push_generated f (Suc n) st s =
     (case f st of
        (Some y, st') \<Rightarrow> and_then (vec_push y s) (\<lambda>_. push_generated f n st')
      | (None, st') \<Rightarrow> (Panic ''closure panicked'', s))"

definition vec_try_resize_with ::
    "nat \<Rightarrow> ('f \<Rightarrow> 'a option \<times> 'f) \<Rightarrow> 'f \<Rightarrow> 'a vstate \<Rightarrow> ('a vstate, try_reserve_error, 'f) run" where
  "vec_try_resize_with new_len f st s =
     (case s of (v, h) \<Rightarrow>
        if new_len \<le> vlen v then (Ok st, (vec_truncate new_len v, h))
        else let extra = new_len - vlen v
             in and_then (vec_try_reserve extra s)
                  (\<lambda>_. with_truncate_guard (push_generated f extra st)))"

section \<open>Shrinking\<close>

text \<open>
  The raw view of a vector's buffer: its capacity and the elements stored in it. Reallocating to
  a smaller capacity keeps the part of the contents that fits; a failed one keeps the buffer.
\<close>

datatype 'a raw_view = RawView (rv_buf: "'a list") (rv_cap: nat)

definition raw_from_vec :: "'a vec \<Rightarrow> 'a raw_view \<times> nat" where
  "raw_from_vec v = (RawView (items v) (cap v), vlen v)"

definition raw_into_vec :: "layout \<Rightarrow> 'a raw_view \<Rightarrow> nat \<Rightarrow> 'a vec" where
  "raw_into_vec l rv len = Vec (take len (rv_buf rv)) (rv_cap rv) l"

definition current_memory :: "layout \<Rightarrow> 'a raw_view \<Rightarrow> layout option" where
  "current_memory l rv =
     (if lsize l = 0 \<or> rv_cap rv = 0 then None
      else Some (Layout (lsize l * rv_cap rv) (lalign l)))"

definition shrink_unchecked ::
    "nat \<Rightarrow> layout \<Rightarrow> 'a raw_view \<times> heap \<Rightarrow> ('a raw_view \<times> heap, alloc_error, unit) run" where
  "shrink_unchecked new_cap l s =
     (case s of (rv, h) \<Rightarrow>
        case current_memory l rv of
          None \<Rightarrow> (Ok (), s)
        | Some _ \<Rightarrow>
            if new_cap = 0 then (Ok (), (RawView [] 0, h))
            else let (ok, h') = grealloc h
                 in if ok then (Ok (), (RawView (take new_cap (rv_buf rv)) new_cap, h'))
                    else (Err AllocError, (rv, h')))"

definition vec_try_shrink_to ::
    "nat \<Rightarrow> 'a vstate \<Rightarrow> ('a vstate, try_reserve_error, unit) run" where
  "vec_try_shrink_to min_capacity s =
     (case s of (v, h) \<Rightarrow>
        let target = max (vlen v) min_capacity
        in if cap v \<le> target then (Ok (), s)
           else let (rv, len) = raw_from_vec v
                in case shrink_unchecked target (elem v) (rv, h) of
                     (Ok _, (rv', h')) \<Rightarrow> (Ok (), (raw_into_vec (elem v) rv' len, h'))
                   | (Err _, (rv', h')) \<Rightarrow>
                       (Err (new_alloc (elem v)), (raw_into_vec (elem v) rv' len, h'))
                   | (Panic m, (rv', h')) \<Rightarrow> (Panic m, (v, h'))
                   | (UB, (rv', h')) \<Rightarrow> (UB, (v, h')))"

definition vec_try_shrink_to_fit :: "'a vstate \<Rightarrow> ('a vstate, try_reserve_error, unit) run" where
  "vec_try_shrink_to_fit s = vec_try_shrink_to (vlen (fst s)) s"

text \<open>
  \<open>Vec::into_boxed_slice\<close> reallocates when there is spare capacity and aborts when that fails.
\<close>

definition vec_into_boxed_slice :: "'a vstate \<Rightarrow> ('e, 'a list) outcome \<times> heap" where
  "vec_into_boxed_slice s =
     (case s of (v, h) \<Rightarrow>
        if lsize (elem v) \<noteq> 0 \<and> vlen v < cap v \<and> 0 < vlen v
        then let (ok, h') = grealloc h
             in (if ok then Ok (items v) else Panic ''memory allocation failed'', h')
        else (Ok (items v), h))"

definition vec_try_into_boxed_slice ::
    "'a vstate \<Rightarrow> (try_reserve_error, 'a list) outcome \<times> heap" where
  "vec_try_into_boxed_slice s =
     (case vec_try_shrink_to_fit s of
        (Ok _, s') \<Rightarrow> vec_into_boxed_slice s'
      | (Err e, (_, h')) \<Rightarrow> (Err e, h')
      | (Panic m, (_, h')) \<Rightarrow> (Panic m, h')
      | (UB, (_, h')) \<Rightarrow> (UB, h'))"

definition vec_try_into_boxed_slice_give_back ::
    "'a vstate \<Rightarrow> ('a vec \<times> try_reserve_error, 'a list) outcome \<times> heap" where
  "vec_try_into_boxed_slice_give_back s =
     (case vec_try_shrink_to_fit s of
        (Ok _, s') \<Rightarrow> vec_into_boxed_slice s'
      | (Err e, (v', h')) \<Rightarrow> (Err (v', e), h')
      | (Panic m, (_, h')) \<Rightarrow> (Panic m, h')
      | (UB, (_, h')) \<Rightarrow> (UB, h'))"

section \<open>Facts shared by the methods\<close>

text \<open>
  What a loop of clones produces, without the vector: the clones up to the first failure, how it
  ended, and the heap.
\<close>

fun clone_prefix ::
    "'a cloner \<Rightarrow> 'a list \<Rightarrow> heap \<Rightarrow> 'a list \<times> (try_clone_error, unit) outcome \<times> heap" where
  "clone_prefix cl [] h = ([], Ok (), h)"
| "clone_prefix cl (x # xs) h =
     (case cl x h of
        (Ok y, h') \<Rightarrow> (let (ys, r) = clone_prefix cl xs h' in (y # ys, r))
      | (Err e, h') \<Rightarrow> ([], Err e, h')
      | (Panic m, h') \<Rightarrow> ([], Panic m, h')
      | (UB, h') \<Rightarrow> ([], UB, h'))"

lemma push_clones_room:
  assumes "vlen v + length xs \<le> cap v"
  shows "push_clones cl xs (v, h) =
    (case clone_prefix cl xs h of (ys, r, h') \<Rightarrow> (r, (with_items (items v @ ys) v, h')))"
  using assms
proof (induction xs arbitrary: v h)
  case Nil
  then show ?case by (cases v) (simp add: with_items_def)
next
  case (Cons x xs)
  obtain r h' where r: "cl x h = (r, h')" by (cases "cl x h")
  have IH: "push_clones cl xs (with_items (items v @ [y]) v, h') =
      (case clone_prefix cl xs h' of (ys, q, h'') \<Rightarrow>
        (q, (with_items ((items v @ [y]) @ ys) v, h'')))" for y
    using Cons.IH [of "with_items (items v @ [y]) v" h'] Cons.prems
    by (simp add: with_items_def split: prod.splits)
  have keep: "with_items (items v) v = v" by (cases v) (simp add: with_items_def)
  show ?case
    using Cons.prems
    by (cases r) (simp_all add: r vec_push_room IH keep split: prod.splits)
qed

lemma clone_prefix_length: "clone_prefix cl xs h = (ys, r, h') \<Longrightarrow> length ys \<le> length xs"
  by (induction xs arbitrary: h ys r h') (auto split: prod.splits outcome.splits)

lemma clone_prefix_Ok: "clone_prefix cl xs h = (ys, Ok u, h') \<Longrightarrow> length ys = length xs"
  by (induction xs arbitrary: h ys h') (auto split: prod.splits outcome.splits)

text \<open>A loop over indices of the original vector reads the same elements.\<close>

lemma push_clones_at_room:
  assumes "vlen v + length is \<le> cap v" and "\<forall>i\<in>set is. i < vlen v"
  shows "push_clones_at cl is (v, h) = push_clones cl (map ((!) (items v)) is) (v, h)"
  using assms
proof (induction "is" arbitrary: v h)
  case Nil
  then show ?case by simp
next
  case (Cons i "is")
  obtain r h' where r: "cl (items v ! i) h = (r, h')" by (cases "cl (items v ! i) h")
  have same: "map ((!) (items v @ [y])) is = map ((!) (items v)) is" for y
    using Cons.prems(2) by (simp add: nth_append)
  have IH: "push_clones_at cl is (with_items (items v @ [y]) v, h') =
      push_clones cl (map ((!) (items v)) is) (with_items (items v @ [y]) v, h')" for y
    using Cons.IH [of "with_items (items v @ [y]) v" h'] Cons.prems same by (auto simp: less_SucI)
  show ?case
    using Cons.prems by (cases r) (simp_all add: r vec_push_room IH)
qed

lemma map_nth_upt: "b \<le> length xs \<Longrightarrow> map ((!) xs) [a..<b] = drop a (take b xs)"
  by (rule nth_equalityI) auto

text \<open>The same for a loop over a closure: the values it made and its last state, if any.\<close>

fun gen_prefix :: "('f \<Rightarrow> 'a option \<times> 'f) \<Rightarrow> nat \<Rightarrow> 'f \<Rightarrow> 'a list \<times> 'f option" where
  "gen_prefix f 0 st = ([], Some st)"
| "gen_prefix f (Suc n) st =
     (case f st of
        (Some y, st') \<Rightarrow> (let (ys, r) = gen_prefix f n st' in (y # ys, r))
      | (None, st') \<Rightarrow> ([], None))"

lemma push_generated_room:
  assumes "vlen v + n \<le> cap v"
  shows "(push_generated f n st (v, h) :: ('a vstate, 'e, 'f) run) =
    (case gen_prefix f n st of (ys, r) \<Rightarrow>
      ((case r of Some st' \<Rightarrow> Ok st' | None \<Rightarrow> Panic ''closure panicked''),
       (with_items (items v @ ys) v, h)))"
  using assms
proof (induction n arbitrary: v st)
  case 0
  then show ?case by (cases v) (simp add: with_items_def)
next
  case (Suc n)
  obtain r st' where r: "f st = (r, st')" by (cases "f st")
  have keep: "with_items (items v) v = v" by (cases v) (simp add: with_items_def)
  have IH: "(push_generated f n st' (with_items (items v @ [y]) v, h) :: ('a vstate, 'e, 'f) run) =
      (case gen_prefix f n st' of (ys, r) \<Rightarrow>
        ((case r of Some st' \<Rightarrow> Ok st' | None \<Rightarrow> Panic ''closure panicked''),
         (with_items ((items v @ [y]) @ ys) v, h)))" for y
    using Suc.IH [of "with_items (items v @ [y]) v" st'] Suc.prems
    by (simp add: with_items_def split: prod.splits)
  show ?case
    using Suc.prems
    by (cases r) (simp_all add: r vec_push_room IH keep split: prod.splits)
qed

lemma gen_prefix_length: "gen_prefix f n st = (ys, Some st') \<Longrightarrow> length ys = n"
  by (induction n arbitrary: st ys) (auto split: prod.splits option.splits)

text \<open>The guard undoes whatever was pushed, unless the body succeeded.\<close>

lemma truncate_pushed:
  "vec_truncate (vlen v) (with_items (items v @ ys) v) = v"
  by (cases v) (simp add: vec_truncate_def with_items_def)

lemma guarded_pushes:
  assumes "vlen v + length xs \<le> cap v"
  shows "with_truncate_guard (\<lambda>s. map_err_run g (push_clones cl xs s)) (v, h) =
    (case clone_prefix cl xs h of (ys, r, h') \<Rightarrow>
       (map_err g r, (if is_ok r then with_items (items v @ ys) v else v, h')))"
proof -
  obtain ys r h' where c: "clone_prefix cl xs h = (ys, r, h')" by (cases "clone_prefix cl xs h")
  show ?thesis
    using push_clones_room [OF assms, of cl h]
    by (cases r) (auto simp: c with_truncate_guard_def truncate_pushed)
qed

context cloneable
begin

lemma clone_prefix_view:
  assumes "clone_prefix cl xs h = (ys, r, h')"
  shows "map view ys = map view (take (length ys) xs) \<and> clean r"
  using assms
proof (induction xs arbitrary: h ys r h')
  case Nil
  then show ?case by auto
next
  case (Cons x xs)
  show ?case
  proof (cases rule: clone_cases [of x h])
    case (Ok y k)
    obtain zs q where "clone_prefix cl xs k = (zs, q)" by (cases "clone_prefix cl xs k")
    moreover obtain q1 q2 where "q = (q1, q2)" by (cases q)
    ultimately show ?thesis
      using Cons.IH [of k zs q1 q2] Cons.prems Ok by (auto split: prod.splits)
  next
    case (Err e k)
    then show ?thesis using Cons.prems by auto
  qed
qed

lemma clone_prefix_all:
  assumes "clone_prefix cl xs h = (ys, Ok u, h')"
  shows "map view ys = map view xs"
  using clone_prefix_view [OF assms] clone_prefix_Ok [OF assms] by simp

end

text \<open>
  What shrinking does: nothing to do, a buffer of exactly the target capacity, or an error and the
  identical vector.
\<close>

lemma vec_try_shrink_to_cases [consumes 1]:
  assumes "vec_ok v"
  obtains (kept) "vec_try_shrink_to m (v, h) = (Ok (), (v, h))"
      and "cap v \<le> max (vlen v) m \<or> lsize (elem v) = 0"
  | (shrunk) h' where
      "vec_try_shrink_to m (v, h) = (Ok (), (Vec (items v) (max (vlen v) m) (elem v), h'))"
      and "max (vlen v) m < cap v" and "lsize (elem v) \<noteq> 0"
  | (failed) h' where "vec_try_shrink_to m (v, h) = (Err (new_alloc (elem v)), (v, h'))"
proof (cases "cap v \<le> max (vlen v) m")
  case True
  then show ?thesis using kept by (simp add: vec_try_shrink_to_def)
next
  case False
  have mem: "current_memory (elem v) (RawView (items v) (cap v)) =
      (if lsize (elem v) = 0 then None else Some (Layout (lsize (elem v) * cap v) (lalign (elem v))))"
    using False by (simp add: current_memory_def)
  have same: "Vec (items v) (cap v) (elem v) = v" by (cases v) simp
  note defs = vec_try_shrink_to_def raw_from_vec_def shrink_unchecked_def raw_into_vec_def
  obtain ok h1 where g: "grealloc h = (ok, h1)" by (cases "grealloc h")
  consider "lsize (elem v) = 0" | "lsize (elem v) \<noteq> 0" "max (vlen v) m = 0"
    | "lsize (elem v) \<noteq> 0" "max (vlen v) m \<noteq> 0" by blast
  then show ?thesis
  proof cases
    case 1
    then show ?thesis using False kept by (simp add: defs mem same)
  next
    case 2
    have "shrink_unchecked 0 (elem v) (RawView (items v) (cap v), h) = (Ok (), (RawView [] 0, h))"
      using mem 2(1) by (simp add: shrink_unchecked_def)
    then show ?thesis
      using 2 False shrunk [of h]
      by (auto simp: vec_try_shrink_to_def raw_from_vec_def raw_into_vec_def Let_def)
  next
    case 3
    have sh: "shrink_unchecked (max (vlen v) m) (elem v) (RawView (items v) (cap v), h) =
        (if ok then (Ok (), (RawView (items v) (max (vlen v) m), h1))
         else (Err AllocError, (RawView (items v) (cap v), h1)))"
      using mem 3 g by (auto simp: shrink_unchecked_def)
    have "vec_try_shrink_to m (v, h) =
        (if ok then (Ok (), (Vec (items v) (max (vlen v) m) (elem v), h1))
         else (Err (new_alloc (elem v)), (v, h1)))"
      unfolding vec_try_shrink_to_def raw_from_vec_def Let_def prod.case sh
      using False same by (simp add: raw_into_vec_def)
    then show ?thesis
      using 3 False shrunk [of h1] failed [of h1] by (cases ok) (simp_all add: not_le)
  qed
qed

lemma vec_ok_shrunk:
  assumes "vec_ok v" and "max (vlen v) m < cap v" and "lsize (elem v) \<noteq> 0"
  shows "vec_ok (Vec (items v) (max (vlen v) m) (elem v))"
proof -
  have "max (vlen v) m * lsize (elem v) \<le> cap v * lsize (elem v)"
    using assms(2) by (intro mult_le_mono1) simp
  moreover have "cap v * lsize (elem v) \<le> isize_max" "cap v \<le> usize_max" "0 < lalign (elem v)"
    using assms by (auto simp: vec_ok_def)
  ultimately have "max (vlen v) m * lsize (elem v) \<le> isize_max" "max (vlen v) m \<le> usize_max"
      "0 < lalign (elem v)"
    using assms(2) by linarith+
  then show ?thesis
    using assms(3) by (simp only: vec_ok_def vec.sel if_False simp_thms max.cobounded1)
qed

text \<open>With memory to spare a reservation succeeds, and memory is to spare afterwards.\<close>

lemma vec_try_reserve_generous:
  assumes "generous h" and "grow_cap v n \<noteq> None"
  shows "\<exists>c h'. vec_try_reserve n (v, h) = (Ok (), (with_cap c v, h')) \<and> generous h'"
proof (cases "cap v - vlen v < n")
  case True
  obtain c where "grow_cap v n = Some c" using assms(2) by auto
  then show ?thesis
    using True generous_galloc [OF assms(1)] generous_grealloc [OF assms(1)]
    by (auto simp: vec_try_reserve_def grow_amortized_def Let_def split: prod.splits)
next
  case False
  then have "vec_try_reserve n (v, h) = (Ok (), (with_cap (cap v) v, h))"
    by (simp add: vec_try_reserve_def with_cap_def)
  then show ?thesis using assms(1) by blast
qed

end
