(* ===== verification/Deque.thy ===== *)
theory Deque
  imports TryVec
begin

text \<open>
  Fallible double-ended queues (\<^verbatim>\<open>rustyfill/src/alloc/vecdeque/vecdeque_.rs\<close>). The
  standard \<open>VecDeque\<close> is a ring buffer over the same raw buffer as \<open>Vec\<close>; seen from outside it
  is a sequence with a capacity that grows by the same rule, so the state is a \<open>vec\<close> and
  \<open>push_front\<close> is the operation a vector lacks. The interface that the rest of the code relies
  on (a push that gives the value back on failure and cannot fail while there is room) is the
  locale \<open>fallible_container\<close>.
\<close>

section \<open>The standard deque\<close>

type_synonym 'a deque = "'a vec"

type_synonym 'a dstate = "'a deque \<times> heap"

definition deque_push_back :: "'a \<Rightarrow> 'a dstate \<Rightarrow> ('a dstate, 'e, unit) run" where
  "deque_push_back = vec_push"

definition deque_push_front :: "'a \<Rightarrow> 'a dstate \<Rightarrow> ('a dstate, 'e, unit) run" where
  "deque_push_front x s =
     (case (if vlen (fst s) = cap (fst s) then grow_amortized 1 s else (Ok (), s)) of
        (Ok _, (v, h)) \<Rightarrow> (Ok (), (with_items (x # items v) v, h))
      | (_, s') \<Rightarrow> (Panic ''memory allocation failed'', s'))"

fun deque_pop_back :: "'a deque \<Rightarrow> 'a option \<times> 'a deque" where
  "deque_pop_back v =
     (if items v = [] then (None, v) else (Some (last (items v)), with_items (butlast (items v)) v))"

declare deque_pop_back.simps [simp del]

definition deque_remove :: "nat \<Rightarrow> 'a deque \<Rightarrow> 'a option \<times> 'a deque" where
  "deque_remove i v =
     (if i < vlen v then (Some (items v ! i), with_items (take i (items v) @ drop (Suc i) (items v)) v)
      else (None, v))"

lemma deque_push_front_room:
  "vlen v < cap v \<Longrightarrow> deque_push_front x (v, h) = (Ok (), (with_items (x # items v) v, h))"
  by (simp add: deque_push_front_def)

lemma deque_push_back_room:
  "vlen v < cap v \<Longrightarrow> deque_push_back x (v, h) = (Ok (), (with_items (items v @ [x]) v, h))"
  by (simp add: deque_push_back_def vec_push_room)

section \<open>Errors\<close>

datatype deque_clone_error = DequeReserve try_reserve_error | DequeClone try_clone_error

datatype deque_within_error =
    DequeWithinReserve try_reserve_error
  | DequeWithinOutOfBounds
  | DequeWithinClone try_clone_error

datatype deque_insert_error = DequeInsertReserve try_reserve_error | DequeInsertOutOfBounds

datatype deque_remove_error = DequeRemoveOutOfBounds

section \<open>The trait TryVecDeque\<close>

definition deque_try_with_capacity ::
    "layout \<Rightarrow> nat \<Rightarrow> heap \<Rightarrow> (try_reserve_error, 'a deque) outcome \<times> heap" where
  "deque_try_with_capacity l capacity h =
     into_vec (if 0 < capacity then vec_try_reserve capacity (vec_new l, h)
               else (Ok (), (vec_new l, h)))"

definition deque_try_push_back :: "'a \<Rightarrow> 'a dstate \<Rightarrow> ('a dstate, try_reserve_error, unit) run" where
  "deque_try_push_back x s = and_then (vec_try_reserve 1 s) (\<lambda>_. deque_push_back x)"

definition deque_try_push_back_give_back ::
    "'a \<Rightarrow> 'a dstate \<Rightarrow> ('a dstate, 'a \<times> try_reserve_error, unit) run" where
  "deque_try_push_back_give_back x s =
     and_then (map_err_run (\<lambda>e. (x, e)) (vec_try_reserve 1 s)) (\<lambda>_. deque_push_back x)"

definition deque_try_push_front :: "'a \<Rightarrow> 'a dstate \<Rightarrow> ('a dstate, try_reserve_error, unit) run" where
  "deque_try_push_front x s = and_then (vec_try_reserve 1 s) (\<lambda>_. deque_push_front x)"

definition deque_try_push_front_give_back ::
    "'a \<Rightarrow> 'a dstate \<Rightarrow> ('a dstate, 'a \<times> try_reserve_error, unit) run" where
  "deque_try_push_front_give_back x s =
     and_then (map_err_run (\<lambda>e. (x, e)) (vec_try_reserve 1 s)) (\<lambda>_. deque_push_front x)"

definition deque_try_pop_back :: "'a deque \<Rightarrow> 'a option \<times> 'a deque" where
  "deque_try_pop_back v = deque_pop_back v"

definition deque_try_insert ::
    "nat \<Rightarrow> 'a \<Rightarrow> 'a dstate \<Rightarrow> ('a dstate, deque_insert_error, unit) run" where
  "deque_try_insert index x s =
     (if vlen (fst s) < index then (Err DequeInsertOutOfBounds, s)
      else and_then (map_err_run DequeInsertReserve (vec_try_reserve 1 s)) (\<lambda>_. vec_insert index x))"

definition deque_try_insert_give_back ::
    "nat \<Rightarrow> 'a \<Rightarrow> 'a dstate \<Rightarrow> ('a dstate, 'a \<times> deque_insert_error, unit) run" where
  "deque_try_insert_give_back index x s =
     (if vlen (fst s) < index then (Err (x, DequeInsertOutOfBounds), s)
      else and_then (map_err_run (\<lambda>e. (x, DequeInsertReserve e)) (vec_try_reserve 1 s))
             (\<lambda>_. vec_insert index x))"

definition deque_try_remove ::
    "nat \<Rightarrow> 'a deque \<Rightarrow> (deque_remove_error, 'a option) outcome \<times> 'a deque" where
  "deque_try_remove index v =
     (if vlen v \<le> index then (Err DequeRemoveOutOfBounds, v)
      else let (x, v') = deque_remove index v in (Ok x, v'))"

definition deque_try_append ::
    "('a deque \<times> 'a deque) \<times> heap \<Rightarrow>
     (('a deque \<times> 'a deque) \<times> heap, try_reserve_error, unit) run" where
  "deque_try_append s =
     (case s of ((v, other), h) \<Rightarrow>
        let extra = vlen other
        in if extra = 0 then (Ok (), s)
           else case vec_try_reserve extra (v, h) of
               (Ok _, s') \<Rightarrow>
                 (case vec_append other s' of
                    (Ok other', (v', h')) \<Rightarrow> (Ok (), ((v', other'), h'))
                  | (r, (v', h')) \<Rightarrow> (map_ok (\<lambda>_. ()) r, ((v', other), h')))
             | (r, (v', h')) \<Rightarrow> (r, ((v', other), h')))"

text \<open>
  Shrinking goes through a contiguous vector: \<open>mem::take\<close> and the two conversions keep the
  elements, their order and the buffer's capacity.
\<close>

definition deque_into_vec :: "'a deque \<Rightarrow> 'a vec" where
  "deque_into_vec v = v"

definition vec_into_deque :: "'a vec \<Rightarrow> 'a deque" where
  "vec_into_deque v = v"

definition deque_try_shrink_to ::
    "nat \<Rightarrow> 'a dstate \<Rightarrow> ('a dstate, try_reserve_error, unit) run" where
  "deque_try_shrink_to min_capacity s =
     (case s of (v, h) \<Rightarrow>
        let target = max (vlen v) min_capacity
        in if cap v \<le> target then (Ok (), s)
           else case vec_try_shrink_to target (deque_into_vec v, h) of
               (r, (v', h')) \<Rightarrow> (r, (vec_into_deque v', h')))"

definition deque_try_shrink_to_fit :: "'a dstate \<Rightarrow> ('a dstate, try_reserve_error, unit) run" where
  "deque_try_shrink_to_fit s = deque_try_shrink_to (vlen (fst s)) s"

section \<open>The interface of a fallible push\<close>

locale fallible_container =
  fixes push :: "'a \<Rightarrow> 'c \<times> heap \<Rightarrow> ('c \<times> heap, 'a \<times> try_reserve_error, unit) run"
    and view :: "'c \<Rightarrow> 'a list"
    and spare :: "'c \<Rightarrow> nat"
    and inv :: "'c \<Rightarrow> bool"
  assumes push_outcome: "inv c \<Longrightarrow>
      (\<exists>c' h'. push x (c, h) = (Ok (), (c', h')) \<and> view c' = view c @ [x] \<and> inv c') \<or>
      (\<exists>e h'. push x (c, h) = (Err (x, e), (c, h')))"
    and push_room: "inv c \<Longrightarrow> 0 < spare c \<Longrightarrow>
      \<exists>c'. push x (c, h) = (Ok (), (c', h)) \<and> spare c' = spare c - 1"
begin

text \<open>
  A push gives the value back or stores it; while there is spare capacity it stores it and does
  not call the allocator, so a batch within the spare capacity always succeeds.
\<close>

lemma push_cases:
  assumes "inv c"
  obtains (Ok) c' h' where "push x (c, h) = (Ok (), (c', h'))" and "view c' = view c @ [x]" and "inv c'"
  | (Err) e h' where "push x (c, h) = (Err (x, e), (c, h'))"
  using push_outcome [OF assms, of x h] by blast

lemma push_clean: "inv c \<Longrightarrow> clean (fst (push x (c, h)))"
  by (cases rule: push_cases [of c x h]) auto

lemma push_spare:
  assumes "inv c" and "0 < spare c"
  shows "\<exists>c'. push x (c, h) = (Ok (), (c', h)) \<and> spare c' = spare c - 1 \<and>
    view c' = view c @ [x] \<and> inv c'"
  using push_room [OF assms, of x h] push_outcome [OF assms(1), of x h] by auto

end

text \<open>Push a list of values in order, stopping at the first failure.\<close>

fun push_each ::
    "('a \<Rightarrow> 's \<Rightarrow> ('s, 'a \<times> try_reserve_error, unit) run) \<Rightarrow> 'a list \<Rightarrow> 's \<Rightarrow>
     ('s, 'a \<times> try_reserve_error, unit) run" where
  "push_each push [] s = (Ok (), s)"
| "push_each push (x # xs) s = and_then (push x s) (\<lambda>_. push_each push xs)"

context fallible_container
begin

lemma push_each_room:
  assumes "inv c" and "length xs \<le> spare c"
  shows "\<exists>c'. push_each push xs (c, h) = (Ok (), (c', h)) \<and> view c' = view c @ xs \<and> inv c' \<and>
    spare c' = spare c - length xs"
  using assms
proof (induction xs arbitrary: c)
  case Nil
  then show ?case by simp
next
  case (Cons x xs)
  obtain c' where c': "push x (c, h) = (Ok (), (c', h))" "spare c' = spare c - 1"
      "view c' = view c @ [x]" "inv c'"
    using push_spare [of c x h] Cons.prems by auto
  then show ?case
    using Cons.IH [of c'] Cons.prems by auto
qed

lemma push_each_conserves:
  assumes "inv c" and "push_each push xs (c, h) = (r, (c', h'))"
  shows "inv c' \<and> (r = Ok () \<and> view c' = view c @ xs \<or>
    (\<exists>y e ys zs. r = Err (y, e) \<and> xs = ys @ y # zs \<and> view c' = view c @ ys))"
  using assms
proof (induction xs arbitrary: c h)
  case Nil
  then show ?case by auto
next
  case (Cons x xs)
  show ?case
  proof (cases rule: push_cases [OF Cons.prems(1), of x h])
    case (1 d k)
    have "inv c' \<and> (r = Ok () \<and> view c' = view d @ xs \<or>
        (\<exists>y e ys zs. r = Err (y, e) \<and> xs = ys @ y # zs \<and> view c' = view d @ ys))"
      using Cons.IH [OF 1(3), of k] Cons.prems(2) 1(1) by simp
    then show ?thesis
      using 1(2) by (auto intro: exI [of _ "x # _"])
  next
    case (2 e k)
    then show ?thesis using Cons.prems by auto
  qed
qed

end

section \<open>The model's containers meet the interface\<close>

lemma push_give_back_outcome:
  assumes "vec_ok v"
  shows "(\<exists>v' h'. vec_try_push_give_back x (v, h) = (Ok (), (v', h')) \<and>
        items v' = items v @ [x] \<and> vec_ok v') \<or>
      (\<exists>e h'. vec_try_push_give_back x (v, h) = (Err (x, e), (v, h')))"
proof (cases rule: vec_try_reserve_cases [OF assms, of 1 h])
  case (1 v' h')
  then show ?thesis
    by (auto simp: vec_try_push_give_back_def vec_push_room intro: vec_ok_with_items)
next
  case (2 e h')
  then show ?thesis by (simp add: vec_try_push_give_back_def)
qed

lemma push_front_give_back_outcome:
  assumes "vec_ok v"
  shows "(\<exists>v' h'. deque_try_push_front_give_back x (v, h) = (Ok (), (v', h')) \<and>
        items v' = x # items v \<and> vec_ok v') \<or>
      (\<exists>e h'. deque_try_push_front_give_back x (v, h) = (Err (x, e), (v, h')))"
proof (cases rule: vec_try_reserve_cases [OF assms, of 1 h])
  case (1 v' h')
  then show ?thesis
    by (auto simp: deque_try_push_front_give_back_def deque_push_front_room
        intro: vec_ok_with_items)
next
  case (2 e h')
  then show ?thesis by (simp add: deque_try_push_front_give_back_def)
qed

lemma push_back_is_push: "deque_try_push_back_give_back = vec_try_push_give_back"
  by (simp add: fun_eq_iff deque_try_push_back_give_back_def vec_try_push_give_back_def
      deque_push_back_def)

abbreviation vec_spare :: "'a vec \<Rightarrow> nat" where
  "vec_spare v \<equiv> cap v - vlen v"

interpretation vpush: fallible_container vec_try_push_give_back items vec_spare vec_ok
proof
  fix c :: "'a vec" and x h
  assume "vec_ok c"
  then show "(\<exists>c' h'. vec_try_push_give_back x (c, h) = (Ok (), (c', h')) \<and>
        items c' = items c @ [x] \<and> vec_ok c') \<or>
      (\<exists>e h'. vec_try_push_give_back x (c, h) = (Err (x, e), (c, h')))"
    by (rule push_give_back_outcome)
next
  fix c :: "'a vec" and x h
  assume "0 < vec_spare c"
  then show "\<exists>c'. vec_try_push_give_back x (c, h) = (Ok (), (c', h)) \<and> vec_spare c' = vec_spare c - 1"
    by (simp add: vec_try_push_give_back_def vec_try_reserve_room vec_push_room)
qed

interpretation dback: fallible_container deque_try_push_back_give_back items vec_spare vec_ok
  unfolding push_back_is_push by unfold_locales

text \<open>Pushing at the front appends to the sequence read from the back.\<close>

interpretation dfront: fallible_container deque_try_push_front_give_back
    "\<lambda>v. rev (items v)" vec_spare vec_ok
proof
  fix c :: "'a vec" and x h
  assume "vec_ok c"
  then show "(\<exists>c' h'. deque_try_push_front_give_back x (c, h) = (Ok (), (c', h')) \<and>
        rev (items c') = rev (items c) @ [x] \<and> vec_ok c') \<or>
      (\<exists>e h'. deque_try_push_front_give_back x (c, h) = (Err (x, e), (c, h')))"
    using push_front_give_back_outcome [of c x h] by auto
next
  fix c :: "'a vec" and x h
  assume "0 < vec_spare c"
  then show "\<exists>c'. deque_try_push_front_give_back x (c, h) = (Ok (), (c', h)) \<and>
      vec_spare c' = vec_spare c - 1"
    by (simp add: deque_try_push_front_give_back_def vec_try_reserve_room deque_push_front_room)
qed

end
