(* ===== verification/Extend.thy ===== *)
theory Extend
  imports Deque
begin

text \<open>
  Resumable extension (\<^verbatim>\<open>rustyfill/src/recovery.rs\<close>, the \<open>try_extend.rs\<close> files of
  \<open>Vec\<close> and \<open>VecDeque\<close>, and \<open>try_collect\<close>). An iterator is the list of items it has left
  and its size hint, which user code chooses freely and which may be wrong in both directions.
\<close>

section \<open>Iterators and resumable sources\<close>

datatype 'a iter = Iter (rest: "'a list") (hint: "'a list \<Rightarrow> nat \<times> nat option")

fun iter_next :: "'a iter \<Rightarrow> 'a option \<times> 'a iter" where
  "iter_next (Iter [] g) = (None, Iter [] g)"
| "iter_next (Iter (x # xs) g) = (Some x, Iter xs g)"

definition size_hint :: "'a iter \<Rightarrow> nat \<times> nat option" where
  "size_hint it = hint it (rest it)"

datatype 'a resumable = Resumable (res_head: "'a option") (res_remainder: "'a iter")

definition resumable_new :: "'a \<Rightarrow> 'a iter \<Rightarrow> 'a resumable" where
  "resumable_new x it = Resumable (Some x) it"

definition resumable_from_remainder :: "'a iter \<Rightarrow> 'a resumable" where
  "resumable_from_remainder it = Resumable None it"

definition has_head :: "'a resumable \<Rightarrow> bool" where
  "has_head r \<longleftrightarrow> res_head r \<noteq> None"

definition into_remainder :: "'a resumable \<Rightarrow> 'a iter" where
  "into_remainder r = res_remainder r"

definition into_parts :: "'a resumable \<Rightarrow> 'a option \<times> 'a iter" where
  "into_parts r = (res_head r, res_remainder r)"

text \<open>A source is a plain iterator or a resumable; both decompose into a head and an iterator.\<close>

datatype 'a source = Plain "'a iter" | Retry "'a resumable"

fun safe_into_iter :: "'a source \<Rightarrow> 'a option \<times> 'a iter" where
  "safe_into_iter (Plain it) = (None, it)"
| "safe_into_iter (Retry r) = (res_head r, res_remainder r)"

definition pending :: "'a option \<times> 'a iter \<Rightarrow> 'a list" where
  "pending p = (case fst p of None \<Rightarrow> [] | Some x \<Rightarrow> [x]) @ rest (snd p)"

definition source_items :: "'a source \<Rightarrow> 'a list" where
  "source_items src = pending (safe_into_iter src)"

definition resumable_items :: "'a resumable \<Rightarrow> 'a list" where
  "resumable_items r = pending (into_parts r)"

section \<open>TryExtend\<close>

text \<open>Push one item, reserving one more slot first when the vector is full.\<close>

definition extend_push :: "'a \<Rightarrow> 'a vstate \<Rightarrow> ('a vstate, try_reserve_error, unit) run" where
  "extend_push x s =
     and_then (if vlen (fst s) = cap (fst s) then vec_try_reserve 1 s else (Ok (), s))
       (\<lambda>_. vec_push x)"

text \<open>The \<open>while let Some(item) = iter.next()\<close> loop, on the items left.\<close>

fun extend_loop ::
    "'a list \<Rightarrow> ('a list \<Rightarrow> nat \<times> nat option) \<Rightarrow> 'a vstate \<Rightarrow>
     ('a vstate, 'a resumable \<times> try_reserve_error, unit) run" where
  "extend_loop [] g s = (Ok (), s)"
| "extend_loop (x # xs) g s =
     and_then (map_err_run (\<lambda>e. (resumable_new x (Iter xs g), e)) (extend_push x s))
       (\<lambda>_. extend_loop xs g)"

definition vec_try_extend ::
    "'a source \<Rightarrow> 'a vstate \<Rightarrow> ('a vstate, 'a resumable \<times> try_reserve_error, unit) run" where
  "vec_try_extend src s =
     (let (head, it) = safe_into_iter src
      in and_then
           (case head of
              Some x \<Rightarrow> map_err_run (\<lambda>e. (resumable_new x it, e)) (extend_push x s)
            | None \<Rightarrow> (Ok (), s))
           (\<lambda>_ s1.
             let lower = fst (size_hint it)
             in and_then
                  (if 0 < lower
                   then map_err_run (\<lambda>e. (resumable_from_remainder it, e)) (vec_try_reserve lower s1)
                   else (Ok (), s1))
                  (\<lambda>_. extend_loop (rest it) (hint it))))"

text \<open>The deque's implementation is the same code over \<open>push_back\<close>.\<close>

definition deque_extend_push :: "'a \<Rightarrow> 'a dstate \<Rightarrow> ('a dstate, try_reserve_error, unit) run" where
  "deque_extend_push x s =
     and_then (if vlen (fst s) = cap (fst s) then vec_try_reserve 1 s else (Ok (), s))
       (\<lambda>_. deque_push_back x)"

fun deque_extend_loop ::
    "'a list \<Rightarrow> ('a list \<Rightarrow> nat \<times> nat option) \<Rightarrow> 'a dstate \<Rightarrow>
     ('a dstate, 'a resumable \<times> try_reserve_error, unit) run" where
  "deque_extend_loop [] g s = (Ok (), s)"
| "deque_extend_loop (x # xs) g s =
     and_then (map_err_run (\<lambda>e. (resumable_new x (Iter xs g), e)) (deque_extend_push x s))
       (\<lambda>_. deque_extend_loop xs g)"

definition deque_try_extend ::
    "'a source \<Rightarrow> 'a dstate \<Rightarrow> ('a dstate, 'a resumable \<times> try_reserve_error, unit) run" where
  "deque_try_extend src s =
     (let (head, it) = safe_into_iter src
      in and_then
           (case head of
              Some x \<Rightarrow> map_err_run (\<lambda>e. (resumable_new x it, e)) (deque_extend_push x s)
            | None \<Rightarrow> (Ok (), s))
           (\<lambda>_ s1.
             let lower = fst (size_hint it)
             in and_then
                  (if 0 < lower
                   then map_err_run (\<lambda>e. (resumable_from_remainder it, e)) (vec_try_reserve lower s1)
                   else (Ok (), s1))
                  (\<lambda>_. deque_extend_loop (rest it) (hint it))))"

section \<open>TryExtendFromSlice: no rollback, the tail is given back\<close>

fun clone_slice_loop ::
    "'a cloner \<Rightarrow> 'a list \<Rightarrow> 'a vstate \<Rightarrow> ('a vstate, 'a list \<times> vec_clone_error, unit) run" where
  "clone_slice_loop cl [] s = (Ok (), s)"
| "clone_slice_loop cl (x # xs) (v, h) =
     (case cl x h of
        (Ok y, h') \<Rightarrow> and_then (vec_push y (v, h')) (\<lambda>_. clone_slice_loop cl xs)
      | (Err e, h') \<Rightarrow> (Err (x # xs, VecClone e), (v, h'))
      | (Panic m, h') \<Rightarrow> (Panic m, (v, h'))
      | (UB, h') \<Rightarrow> (UB, (v, h')))"

definition vec_try_extend_from_slice ::
    "'a cloner \<Rightarrow> 'a list \<Rightarrow> 'a vstate \<Rightarrow> ('a vstate, 'a list \<times> vec_clone_error, unit) run" where
  "vec_try_extend_from_slice cl other s =
     (if other = [] then (Ok (), s)
      else and_then (map_err_run (\<lambda>e. (other, VecReserve e)) (vec_try_reserve (length other) s))
             (\<lambda>_. clone_slice_loop cl other))"

section \<open>try_collect\<close>

fun collect_loop :: "'a list \<Rightarrow> 'a vstate \<Rightarrow> ('a vstate, try_reserve_error, unit) run" where
  "collect_loop [] s = (Ok (), s)"
| "collect_loop (x # xs) s = and_then (extend_push x s) (\<lambda>_. collect_loop xs)"

definition vec_try_collect ::
    "layout \<Rightarrow> 'a iter \<Rightarrow> heap \<Rightarrow> (try_reserve_error, 'a vec) outcome \<times> heap" where
  "vec_try_collect l it h =
     (let (lower, upper) = size_hint it;
          capacity = (case upper of Some u \<Rightarrow> u | None \<Rightarrow> lower)
      in into_vec (and_then
           (if 0 < capacity then vec_try_reserve capacity (vec_new l, h) else (Ok (), (vec_new l, h)))
           (\<lambda>_. collect_loop (rest it))))"

section \<open>Conservation of items\<close>

lemma extend_push_cases:
  assumes "vec_ok v"
  obtains (Ok) v' h' where "extend_push x (v, h) = (Ok (), (v', h'))"
      and "vec_ok v'" and "items v' = items v @ [x]"
  | (Err) e h' where "extend_push x (v, h) = (Err e, (v, h'))"
proof (cases "vlen v = cap v")
  case True
  then show ?thesis
  proof (cases rule: vec_try_reserve_cases [OF assms, of 1 h])
    case (1 v' h')
    then have "extend_push x (v, h) = (Ok (), (with_items (items v @ [x]) v', h'))"
      using True by (simp add: extend_push_def vec_push_room)
    then show ?thesis
      using 1 by (intro that(1) [of "with_items (items v @ [x]) v'" h']) (auto intro: vec_ok_with_items)
  next
    case (2 e h')
    then show ?thesis using True by (intro that(2) [of e h']) (simp add: extend_push_def)
  qed
next
  case False
  then have "vlen v < cap v" using assms by (simp add: vec_ok_def)
  then have "extend_push x (v, h) = (Ok (), (with_items (items v @ [x]) v, h))"
    by (simp add: extend_push_def vec_push_room)
  with \<open>vlen v < cap v\<close> show ?thesis
    using assms by (intro that(1) [of "with_items (items v @ [x]) v" h]) (auto intro: vec_ok_with_items)
qed

text \<open>
  The contract of every extension: it returns; on success the items are appended in order; on
  failure the items already stored and the items handed back are the original ones, in order.
\<close>

definition conserves ::
    "'a list \<Rightarrow> 'a list \<Rightarrow> ('a vstate, 'a resumable \<times> try_reserve_error, unit) run \<Rightarrow> bool" where
  "conserves before src r =
     (vec_ok (fst (snd r)) \<and>
      (case fst r of
         Ok _ \<Rightarrow> items (fst (snd r)) = before @ src
       | Err (res, _) \<Rightarrow> items (fst (snd r)) @ resumable_items res = before @ src
       | Panic _ \<Rightarrow> False
       | UB \<Rightarrow> False))"

lemma resumable_items_simps [simp]:
  "resumable_items (resumable_new x it) = x # rest it"
  "resumable_items (resumable_from_remainder it) = rest it"
  by (simp_all add: resumable_items_def resumable_new_def resumable_from_remainder_def
      into_parts_def pending_def)

lemma conserves_shift: "conserves (before @ [x]) xs r = conserves before (x # xs) r"
  unfolding conserves_def append_assoc append_Cons append_Nil ..

lemma extend_loop_conserves:
  assumes "vec_ok v"
  shows "conserves (items v) xs (extend_loop xs g (v, h))"
  using assms
proof (induction xs arbitrary: v h)
  case Nil
  then show ?case by (simp add: conserves_def)
next
  case (Cons x xs)
  show ?case
  proof (cases rule: extend_push_cases [OF Cons.prems, of x h])
    case (1 v' h')
    then show ?thesis
      using Cons.IH [of v' h'] by (simp add: conserves_shift)
  next
    case (2 e h')
    then show ?thesis using Cons.prems by (simp add: conserves_def)
  qed
qed

lemma extend_rest_conserves:
  assumes "vec_ok v"
  shows "conserves (items v) (rest it)
    (and_then (if 0 < n then map_err_run (\<lambda>e. (resumable_from_remainder it, e)) (vec_try_reserve n (v, h))
               else (Ok (), (v, h)))
       (\<lambda>_. extend_loop (rest it) (hint it)))"
proof (cases "0 < n")
  case True
  show ?thesis
  proof (cases rule: vec_try_reserve_cases [OF assms, of n h])
    case (1 v' h')
    then show ?thesis
      using extend_loop_conserves [OF 1(2), of "rest it" "hint it" h'] True by simp
  next
    case (2 e h')
    then show ?thesis using assms True by (simp add: conserves_def)
  qed
next
  case False
  then show ?thesis using extend_loop_conserves [OF assms] by simp
qed

lemma vec_try_extend_conserves:
  assumes "vec_ok v"
  shows "conserves (items v) (source_items src) (vec_try_extend src (v, h))"
proof -
  obtain head it where src: "safe_into_iter src = (head, it)" by (cases "safe_into_iter src")
  have items: "source_items src = (case head of None \<Rightarrow> [] | Some x \<Rightarrow> [x]) @ rest it"
    by (simp add: source_items_def src pending_def)
  show ?thesis
  proof (cases head)
    case None
    then show ?thesis
      using extend_rest_conserves [OF assms, of it "fst (size_hint it)" h]
      by (simp add: vec_try_extend_def src items Let_def)
  next
    case (Some x)
    show ?thesis
    proof (cases rule: extend_push_cases [OF assms, of x h])
      case (1 v' h')
      then show ?thesis
        using extend_rest_conserves [OF 1(2), of it "fst (size_hint it)" h']
        by (simp add: vec_try_extend_def src items Some Let_def conserves_shift)
    next
      case (2 e h')
      then show ?thesis
        using assms by (simp add: vec_try_extend_def src items Some Let_def conserves_def)
    qed
  qed
qed

lemma deque_extend_push_eq: "deque_extend_push = extend_push"
  by (simp add: fun_eq_iff deque_extend_push_def extend_push_def deque_push_back_def)

lemma deque_extend_loop_eq: "deque_extend_loop xs g = extend_loop xs g"
proof (induction xs)
  case Nil
  then show ?case by (intro ext) simp
next
  case (Cons x xs)
  then show ?case by (intro ext) (simp add: deque_extend_push_eq)
qed

lemma deque_try_extend_eq: "deque_try_extend = vec_try_extend"
  unfolding deque_try_extend_def [abs_def] vec_try_extend_def [abs_def]
    deque_extend_push_eq deque_extend_loop_eq ..

end
