(* ===== verification/VecProps.thy ===== *)
theory VecProps
  imports Extend
begin

text \<open>
  What the fallible vector methods guarantee: exactly one of success with the documented effect or
  an error that leaves the elements as they were, under every allocator and every element clone.
\<close>

section \<open>Cloning a vector meets the clone contract\<close>

lemma new_reserve_cases:
  fixes l :: layout
  obtains (reserved) v' h' where "vec_try_reserve n (vec_new l :: 'a vec, h) = (Ok (), (v', h'))"
      and "items v' = []" and "n \<le> cap v'" and "0 < lalign l \<Longrightarrow> vec_ok v'"
  | (failed) e v' h' where "vec_try_reserve n (vec_new l :: 'a vec, h) = (Err e, (v', h'))"
proof (cases "cap (vec_new l :: 'a vec) < n")
  case True
  then have eq: "vec_try_reserve n (vec_new l :: 'a vec, h) = grow_amortized n (vec_new l, h)"
    by (simp add: vec_try_reserve_def)
  show ?thesis
  proof (cases rule: grow_amortized_cases [of "vec_new l :: 'a vec" n h])
    case (grown c h')
    then show ?thesis
      using grow_cap_Some [OF grown(1)] eq vec_ok_grown(1) [OF _ grown(1)]
      by (intro that(1) [of "with_cap c (vec_new l)" h']) auto
  next
    case (failed e h')
    then show ?thesis using eq by (intro that(2)) simp
  qed
next
  case False
  then show ?thesis
    by (intro that(1) [of "vec_new l" h]) (auto simp: vec_try_reserve_def)
qed

context cloneable
begin

lemma vec_clone_cases:
  obtains (Ok) w h' where "vec_try_clone cl v h = (Ok w, h')" and "map view (items w) = map view (items v)"
      and "0 < lalign (elem v) \<Longrightarrow> vec_ok w"
  | (Err) e h' where "vec_try_clone cl v h = (Err e, h')"
proof (cases "items v = []")
  case True
  then show ?thesis
    by (intro that(1) [of "vec_new (elem v)" h]) (auto simp: vec_try_clone_def into_vec_def)
next
  case False
  show ?thesis
  proof (cases rule: new_reserve_cases [where 'a = 'a, of "vlen v" "elem v" h])
    case (reserved w k)
    obtain ys r h' where c: "clone_prefix cl (items v) k = (ys, r, h')"
      by (cases "clone_prefix cl (items v) k")
    have run: "vec_try_clone cl v h = (map_ok (\<lambda>_. with_items ys w) r, h')"
      using reserved False push_clones_room [of w "items v" cl k]
      by (simp add: vec_try_clone_def into_vec_def c)
    show ?thesis
    proof (cases r)
      case (Ok u)
      then show ?thesis
        using clone_prefix_all [of "items v" k ys u h'] c run reserved vec_ok_with_items [of w ys]
        by (intro that(1) [of "with_items ys w" h']) (auto dest: map_eq_imp_length_eq)
    next
      case (Err e)
      then show ?thesis using run by (intro that(2)) simp
    qed (use clone_prefix_view [OF c] in auto)
  next
    case (failed e w h')
    then show ?thesis
      using False by (intro that(2)) (simp add: vec_try_clone_def into_vec_def)
  qed
qed

lemma vec_cloneable: "cloneable (vec_try_clone cl) (\<lambda>v. map view (items v))"
proof
  fix x h y h'
  assume "vec_try_clone cl x h = (Ok y, h')"
  then show "map view (items y) = map view (items x)"
    by (cases rule: vec_clone_cases [of x h]) auto
next
  fix x h
  show "clean (fst (vec_try_clone cl x h))"
    by (cases rule: vec_clone_cases [of x h]) auto
qed

end

interpretation vec_copy: cloneable "vec_try_clone copy_try_clone" "\<lambda>v. map (\<lambda>x. x) (items v)"
  by (rule copy.vec_cloneable)

interpretation vec_vec_copy: cloneable "vec_try_clone (vec_try_clone copy_try_clone)"
    "\<lambda>v. map (\<lambda>w. map (\<lambda>x. x) (items w)) (items v)"
  by (rule vec_copy.vec_cloneable)

section \<open>Guarded bulk methods\<close>

text \<open>Reserve, then run guarded pushes: the common shape of the bulk methods.\<close>

lemma reserve_guarded:
  assumes "vec_ok v"
    and "and_then (map_err_run f (vec_try_reserve (length xs) (v, h)))
      (\<lambda>_. with_truncate_guard (\<lambda>s. map_err_run g (push_clones cl xs s))) = (r, (v', h'))"
  shows "vec_ok v' \<and> (\<not> is_ok r \<longrightarrow> items v' = items v) \<and>
    (is_ok r \<longrightarrow> (\<exists>ys k k'. clone_prefix cl xs k = (ys, Ok (), k') \<and> items v' = items v @ ys))"
proof (cases rule: vec_try_reserve_cases [OF assms(1), of "length xs" h])
  case (1 w k)
  obtain ys q k' where c: "clone_prefix cl xs k = (ys, q, k')" by (cases "clone_prefix cl xs k")
  have room: "vlen w + length xs \<le> cap w" using 1 by simp
  have r: "r = map_err g q" and v': "v' = (if is_ok q then with_items (items w @ ys) w else w)"
    using assms(2) 1 guarded_pushes [OF room, of g cl k] by (auto simp: c)
  have "vec_ok v'"
    using v' 1 room clone_prefix_length [OF c] by (auto intro: vec_ok_with_items)
  then show ?thesis
    using r v' 1(3) c by (cases q) auto
next
  case (2 e k)
  then show ?thesis using assms by auto
qed

text \<open>Claim C6.
  \<open>try_extend_from_slice_with_rollback\<close> is atomic for every allocator and every element clone,
  well behaved or not: unless it returns \<open>Ok\<close>, the vector holds exactly its former elements (also
  when an element clone panics), and when it returns \<open>Ok\<close> the former elements are followed by
  clones of the whole slice.\<close>

theorem extend_with_rollback_atomic:
  assumes "vec_ok v"
    and "vec_try_extend_from_slice_with_rollback cl xs (v, h) = (r, (v', h'))"
  shows "vec_ok v' \<and> (\<not> is_ok r \<longrightarrow> items v' = items v) \<and>
    (is_ok r \<longrightarrow> (\<exists>ys k k'. clone_prefix cl xs k = (ys, Ok (), k') \<and> items v' = items v @ ys))"
proof (cases "xs = []")
  case True
  then show ?thesis
    using assms by (auto simp: vec_try_extend_from_slice_with_rollback_def)
next
  case False
  then show ?thesis
    using reserve_guarded [OF assms(1)] assms(2)
    by (simp add: vec_try_extend_from_slice_with_rollback_def)
qed

text \<open>A clone that fails on one value, to exercise the rollback.\<close>

definition fails_on :: "nat \<Rightarrow> nat cloner" where
  "fails_on n x h = (if x = n then (Err (CloneOther ''refused''), h) else (Ok x, h))"

definition nat_vec :: "nat list \<Rightarrow> nat \<Rightarrow> nat vec" where
  "nat_vec xs c = Vec xs c (Layout 8 8)"

lemma nat_vec_sel [simp]:
  "items (nat_vec xs c) = xs" "cap (nat_vec xs c) = c" "elem (nat_vec xs c) = Layout 8 8"
  by (simp_all add: nat_vec_def)

lemma vec_ok_nat_vec [simp]: "length xs \<le> c \<Longrightarrow> c \<le> 1000 \<Longrightarrow> vec_ok (nat_vec xs c)"
  by (simp add: vec_ok_def nat_vec_def isize_max_def usize_max_def)

theorem extend_with_rollback_atomic_witness:
  "vec_ok (nat_vec [1, 2] 9) \<and>
   (let r = vec_try_extend_from_slice_with_rollback (fails_on 5) [3, 5]
              (nat_vec [1, 2] 9, heap_with policy_nothing)
    in \<not> is_ok (fst r) \<and> items (fst (snd r)) = [1, 2])"
proof -
  let ?r = "vec_try_extend_from_slice_with_rollback (fails_on 5) [3, 5]
    (nat_vec [1, 2] 9, heap_with policy_nothing)"
  have "\<not> is_ok (fst ?r)"
    by (simp add: vec_try_extend_from_slice_with_rollback_def vec_try_reserve_def nat_vec_def
        with_truncate_guard_def fails_on_def vec_push_def)
  then show ?thesis
    using extend_with_rollback_atomic [of "nat_vec [1, 2] 9" "fails_on 5" "[3, 5]"
        "heap_with policy_nothing" "fst ?r" "fst (snd ?r)" "snd (snd ?r)"]
    by simp
qed

text \<open>\<open>try_resize\<close> truncates or appends: afterwards the length is the requested one and the common
  prefix is unchanged; when a reservation or a clone fails, or a clone panics, the elements are
  what they were.\<close>

lemma resize_spec:
  assumes "vec_ok v" and "vec_try_resize cl x n (v, h) = (r, (v', h'))"
  shows "vec_ok v' \<and> (\<not> is_ok r \<longrightarrow> items v' = items v) \<and>
    (is_ok r \<longrightarrow> vlen v' = n \<and> take n (items v) = take (vlen v) (items v'))"
proof (cases "n \<le> vlen v")
  case True
  then have "r = Ok ()" "v' = vec_truncate n v"
    using assms(2) by (auto simp: vec_try_resize_def)
  then show ?thesis
    using True assms(1) by auto
next
  case False
  let ?xs = "replicate (n - vlen v) x"
  have "vec_ok v' \<and> (\<not> is_ok r \<longrightarrow> items v' = items v) \<and>
    (is_ok r \<longrightarrow> (\<exists>ys k k'. clone_prefix cl ?xs k = (ys, Ok (), k') \<and> items v' = items v @ ys))"
    using reserve_guarded [OF assms(1), of VecReserve ?xs h VecClone cl r v' h'] assms(2) False
    by (simp add: vec_try_resize_def Let_def)
  then show ?thesis
    using False by (auto dest!: clone_prefix_Ok)
qed

text \<open>\<open>try_extend_from_within\<close> on a range \<open>a..b\<close>: out-of-range ends are an error and never an
  out-of-bounds read; on success the elements of the range are cloned to the back; on every
  failure the vector is unchanged.\<close>

lemma extend_from_within_spec:
  assumes "vec_ok v" and "cloneable cl view"
    and "vec_try_extend_from_within cl (Included a) (Excluded b) (v, h) = (r, (v', h'))"
  shows "clean r \<and> vec_ok v' \<and> (\<not> is_ok r \<longrightarrow> items v' = items v) \<and>
    (is_ok r \<longrightarrow> map view (items v') = map view (items v @ drop a (take b (items v))))"
proof (cases "a < b \<and> b \<le> vlen v")
  case True
  let ?xs = "drop a (take b (items v))"
  have bounds: "vlen w + length [a..<b] \<le> cap w \<and> items w = items v \<Longrightarrow>
      push_clones_at cl [a..<b] (w, k) = push_clones cl ?xs (w, k)" for w k
    using push_clones_at_room [of w "[a..<b]" cl k] True by (auto simp: map_nth_upt)
  show ?thesis
  proof (cases rule: vec_try_reserve_cases [OF assms(1), of "b - a" h])
    case (1 w k)
    obtain ys q k' where c: "clone_prefix cl ?xs k = (ys, q, k')" by (cases "clone_prefix cl ?xs k")
    have room: "vlen w + length ?xs \<le> cap w" using 1 True by simp
    have "with_truncate_guard (\<lambda>s. map_err_run WithinClone (push_clones_at cl [a..<b] s)) (w, k) =
        with_truncate_guard (\<lambda>s. map_err_run WithinClone (push_clones cl ?xs s)) (w, k)"
      using bounds [of w k] 1 True by (simp add: with_truncate_guard_def)
    then have run: "r = map_err WithinClone q \<and>
        v' = (if is_ok q then with_items (items w @ ys) w else w)"
      using assms(3) 1 True guarded_pushes [OF room, of WithinClone cl k]
      by (simp add: vec_try_extend_from_within_def c)
    have view: "map view ys = map view (take (length ys) ?xs)" "clean q"
      using cloneable.clone_prefix_view [OF assms(2) c] by auto
    have "vec_ok v'"
      using run 1 room clone_prefix_length [OF c] by (auto intro: vec_ok_with_items)
    then show ?thesis
      using run 1 view c by (cases q) (auto dest: clone_prefix_Ok)
  next
    case (2 e k)
    then show ?thesis
      using assms True by (auto simp: vec_try_extend_from_within_def)
  qed
next
  case False
  then show ?thesis
    using assms by (auto simp: vec_try_extend_from_within_def split: if_splits)
qed

text \<open>
  Insertion and push hand the value back on failure: \<open>try_insert_give_back\<close> stores the value at its
  index, or returns it together with the error and leaves the very same vector behind;
  \<open>OutOfBounds\<close> is returned exactly when the index is past the end.\<close>

lemma insert_give_back_spec:
  assumes "vec_ok v" and "vec_try_insert_give_back i x (v, h) = (r, (v', h'))"
  shows "r = Ok () \<and> i \<le> vlen v \<and> vec_ok v' \<and> items v' = take i (items v) @ x # drop i (items v) \<or>
    (\<exists>e. r = Err (x, e) \<and> v' = v \<and> (e = InsertOutOfBounds \<longleftrightarrow> vlen v < i))"
proof (cases "vlen v < i")
  case True
  then show ?thesis using assms(2) by (auto simp: vec_try_insert_give_back_def)
next
  case False
  show ?thesis
  proof (cases rule: vec_try_reserve_cases [OF assms(1), of 1 h])
    case (1 w k)
    then have "r = Ok () \<and> v' = with_items (take i (items v) @ x # drop i (items v)) w"
      using assms(2) False by (simp add: vec_try_insert_give_back_def vec_insert_room)
    then show ?thesis using 1 False by (auto intro: vec_ok_with_items)
  next
    case (2 e k)
    then show ?thesis using assms(2) False by (auto simp: vec_try_insert_give_back_def)
  qed
qed

theorem insert_give_back_spec_witness:
  "vec_ok (nat_vec [1, 2] 2) \<and>
   (\<exists>e. fst (vec_try_insert_give_back 1 7 (nat_vec [1, 2] 2, heap_with policy_fail_all)) = Err (7, e)) \<and>
   fst (snd (vec_try_insert_give_back 1 7 (nat_vec [1, 2] 2, heap_with policy_fail_all))) = nat_vec [1, 2] 2"
proof -
  let ?r = "vec_try_insert_give_back 1 7 (nat_vec [1, 2] 2, heap_with policy_fail_all)"
  have "fst ?r \<noteq> Ok ()"
    using exhausted_grealloc [of "heap_with policy_fail_all"]
    by (cases "grow_cap (nat_vec [1, 2] 2) 1")
      (simp_all add: vec_try_insert_give_back_def vec_try_reserve_def grow_amortized_def)
  then show ?thesis
    using insert_give_back_spec [of "nat_vec [1, 2] 2" 1 7 "heap_with policy_fail_all"
        "fst ?r" "fst (snd ?r)" "snd (snd ?r)"]
    by auto
qed

text \<open>Shrinking never loses an element: \<open>try_shrink_to\<close> keeps the sequence whether the reallocation
  succeeds or not, ends with the capacity asked for when it succeeds on elements that occupy
  memory, and gives back the identical vector when it fails.\<close>

lemma shrink_to_lossless:
  assumes "vec_ok v" and "vec_try_shrink_to m (v, h) = (r, (v', h'))"
  shows "vec_ok v' \<and> items v' = items v \<and>
    (r = Ok () \<and> (lsize (elem v) \<noteq> 0 \<longrightarrow> cap v' = min (cap v) (max (vlen v) m)) \<or>
     (\<exists>e. r = Err e \<and> v' = v))"
proof (cases rule: vec_try_shrink_to_cases [OF assms(1), of m h])
  case 1
  then show ?thesis using assms by (auto simp: min_def)
next
  case (2 k)
  then show ?thesis
    using assms vec_ok_shrunk [OF assms(1) 2(2,3)] by (auto simp: min_def)
next
  case (3 k)
  then show ?thesis using assms by auto
qed

text \<open>
  The boxed slice: after a successful shrink the standard conversion has nothing left to
  reallocate, so the give-back variant never aborts.
\<close>

lemma shrink_to_fit_exact:
  assumes "vec_ok v" and "vec_try_shrink_to_fit (v, h) = (Ok (), (v', h'))"
  shows "vec_into_boxed_slice (v', h') = (Ok (items v), h')"
proof (cases rule: vec_try_shrink_to_cases [OF assms(1), of "vlen v" h])
  case 1
  then show ?thesis
    using assms by (auto simp: vec_try_shrink_to_fit_def vec_into_boxed_slice_def)
next
  case (2 k)
  then show ?thesis
    using assms(2) by (auto simp: vec_try_shrink_to_fit_def vec_into_boxed_slice_def)
next
  case (3 k)
  then show ?thesis using assms(2) by (auto simp: vec_try_shrink_to_fit_def)
qed

text \<open>
  \<open>try_into_boxed_slice_give_back\<close> returns a box with exactly the elements of the vector, or the
  vector itself, unchanged, with the error: no element is lost and nothing aborts.\<close>

lemma boxed_slice_give_back_spec:
  assumes "vec_ok v" and "vec_try_into_boxed_slice_give_back (v, h) = (r, h')"
  shows "r = Ok (items v) \<or> (\<exists>e. r = Err (v, e))"
proof (cases rule: vec_try_shrink_to_cases [OF assms(1), of "vlen v" h])
  case 1
  then have "vec_into_boxed_slice (v, h) = (r, h')"
    using assms(2)
    by (simp add: vec_try_into_boxed_slice_give_back_def vec_try_shrink_to_fit_def)
  then show ?thesis
    using 1 by (auto simp: vec_into_boxed_slice_def)
next
  case (2 k)
  then have "vec_into_boxed_slice (Vec (items v) (max (vlen v) (vlen v)) (elem v), k) = (r, h')"
    using assms(2)
    by (simp add: vec_try_into_boxed_slice_give_back_def vec_try_shrink_to_fit_def)
  then show ?thesis by (auto simp: vec_into_boxed_slice_def)
next
  case (3 k)
  then show ?thesis
    using assms(2) by (auto simp: vec_try_into_boxed_slice_give_back_def vec_try_shrink_to_fit_def)
qed

theorem boxed_slice_give_back_spec_witness:
  "vec_ok (nat_vec [1, 2] 9) \<and>
   (fst (vec_try_into_boxed_slice_give_back (nat_vec [1, 2] 9, heap_with policy_nothing)) = Ok [1, 2] \<or>
    (\<exists>e. fst (vec_try_into_boxed_slice_give_back (nat_vec [1, 2] 9, heap_with policy_nothing)) =
       Err (nat_vec [1, 2] 9, e)))"
  using boxed_slice_give_back_spec [of "nat_vec [1, 2] 9" "heap_with policy_nothing"
      "fst (vec_try_into_boxed_slice_give_back (nat_vec [1, 2] 9, heap_with policy_nothing))"
      "snd (vec_try_into_boxed_slice_give_back (nat_vec [1, 2] 9, heap_with policy_nothing))"]
  by simp

end
