(* ===== verification/DequeOps.thy ===== *)
theory DequeOps
  imports VecProps
begin

text \<open>
  The bulk operations of \<^verbatim>\<open>rustyfill/src/alloc/vecdeque/vecdeque_.rs\<close> and
  \<^verbatim>\<open>try_extend.rs\<close>: construction from elements, slices and iterators, cloning, extension and
  resizing under the truncating guard. The source repeats the code of the vectors over
  \<open>push_back\<close>, with one error type of its own per trait; the loops of clones are therefore the ones of
  \<open>TryVec\<close>, and every operation is shown to be the vector's with the errors renamed. The
  guarantees of the vectors hold for the deques through these equations.
\<close>

section \<open>Operations\<close>

definition deque_truncate :: "nat \<Rightarrow> 'a deque \<Rightarrow> 'a deque" where
  "deque_truncate n v = (if n < vlen v then with_items (take n (items v)) v else v)"

definition with_deque_guard ::
    "('a dstate \<Rightarrow> ('a dstate, 'e, 'b) run) \<Rightarrow> 'a dstate \<Rightarrow> ('a dstate, 'e, 'b) run" where
  "with_deque_guard body s =
     (let len_before = vlen (fst s)
      in case body s of
           (Ok a, s') \<Rightarrow> (Ok a, s')
         | (r, (v, h)) \<Rightarrow> (r, (deque_truncate len_before v, h)))"

fun deque_push_clones ::
    "'a cloner \<Rightarrow> 'a list \<Rightarrow> 'a dstate \<Rightarrow> ('a dstate, try_clone_error, unit) run" where
  "deque_push_clones cl [] s = (Ok (), s)"
| "deque_push_clones cl (x # xs) (v, h) =
     (case cl x h of
        (Ok y, h') \<Rightarrow> and_then (deque_push_back y (v, h')) (\<lambda>_. deque_push_clones cl xs)
      | (Err e, h') \<Rightarrow> (Err e, (v, h'))
      | (Panic m, h') \<Rightarrow> (Panic m, (v, h'))
      | (UB, h') \<Rightarrow> (UB, (v, h')))"

fun deque_push_clones_at ::
    "'a cloner \<Rightarrow> nat list \<Rightarrow> 'a dstate \<Rightarrow> ('a dstate, try_clone_error, unit) run" where
  "deque_push_clones_at cl [] s = (Ok (), s)"
| "deque_push_clones_at cl (i # is) (v, h) =
     (if vlen v \<le> i then (Panic ''Out of bounds access'', (v, h))
      else case cl (items v ! i) h of
        (Ok y, h') \<Rightarrow> and_then (deque_push_back y (v, h')) (\<lambda>_. deque_push_clones_at cl is)
      | (Err e, h') \<Rightarrow> (Err e, (v, h'))
      | (Panic m, h') \<Rightarrow> (Panic m, (v, h'))
      | (UB, h') \<Rightarrow> (UB, (v, h')))"

fun deque_push_generated ::
    "('f \<Rightarrow> 'a option \<times> 'f) \<Rightarrow> nat \<Rightarrow> 'f \<Rightarrow> 'a dstate \<Rightarrow> ('a dstate, 'e, 'f) run" where
  "deque_push_generated f 0 st s = (Ok st, s)"
| "deque_push_generated f (Suc n) st s =
     (case f st of
        (Some y, st') \<Rightarrow> and_then (deque_push_back y s) (\<lambda>_. deque_push_generated f n st')
      | (None, st') \<Rightarrow> (Panic ''closure panicked'', s))"

definition deque_try_from_elem ::
    "layout \<Rightarrow> 'a cloner \<Rightarrow> 'a \<Rightarrow> nat \<Rightarrow> heap \<Rightarrow> (deque_clone_error, 'a deque) outcome \<times> heap" where
  "deque_try_from_elem l cl x n h =
     into_vec (and_then
       (if 0 < n then map_err_run DequeReserve (vec_try_reserve n (vec_new l, h))
        else (Ok (), (vec_new l, h)))
       (\<lambda>_ s. map_err_run DequeClone (deque_push_clones cl (replicate n x) s)))"

definition deque_try_from_elem_give_back ::
    "layout \<Rightarrow> 'a cloner \<Rightarrow> 'a \<Rightarrow> nat \<Rightarrow> heap \<Rightarrow>
     ('a \<times> deque_clone_error, 'a deque) outcome \<times> heap" where
  "deque_try_from_elem_give_back l cl x n h =
     (let (r, h') = deque_try_from_elem l cl x n h in (map_err (\<lambda>e. (x, e)) r, h'))"

fun deque_collect_loop :: "'a list \<Rightarrow> 'a dstate \<Rightarrow> ('a dstate, try_reserve_error, unit) run" where
  "deque_collect_loop [] s = (Ok (), s)"
| "deque_collect_loop (x # xs) s = and_then (deque_extend_push x s) (\<lambda>_. deque_collect_loop xs)"

definition deque_try_collect ::
    "layout \<Rightarrow> 'a iter \<Rightarrow> heap \<Rightarrow> (try_reserve_error, 'a deque) outcome \<times> heap" where
  "deque_try_collect l it h =
     (let (lower, upper) = size_hint it;
          capacity = (case upper of Some u \<Rightarrow> u | None \<Rightarrow> lower)
      in into_vec (and_then
           (if 0 < capacity then vec_try_reserve capacity (vec_new l, h) else (Ok (), (vec_new l, h)))
           (\<lambda>_. deque_collect_loop (rest it))))"

definition deque_try_from_slice ::
    "layout \<Rightarrow> 'a cloner \<Rightarrow> 'a list \<Rightarrow> heap \<Rightarrow> (deque_clone_error, 'a deque) outcome \<times> heap" where
  "deque_try_from_slice l cl xs h =
     into_vec (and_then
       (if xs \<noteq> [] then map_err_run DequeReserve (vec_try_reserve (length xs) (vec_new l, h))
        else (Ok (), (vec_new l, h)))
       (\<lambda>_ s. map_err_run DequeClone (deque_push_clones cl xs s)))"

definition deque_try_extend_from_slice_with_rollback ::
    "'a cloner \<Rightarrow> 'a list \<Rightarrow> 'a dstate \<Rightarrow> ('a dstate, deque_clone_error, unit) run" where
  "deque_try_extend_from_slice_with_rollback cl other s =
     (if other = [] then (Ok (), s)
      else and_then (map_err_run DequeReserve (vec_try_reserve (length other) s))
             (\<lambda>_. with_deque_guard (\<lambda>s'. map_err_run DequeClone (deque_push_clones cl other s'))))"

definition deque_try_extend_from_within ::
    "'a cloner \<Rightarrow> bound \<Rightarrow> bound \<Rightarrow> 'a dstate \<Rightarrow> ('a dstate, deque_within_error, unit) run" where
  "deque_try_extend_from_within cl lo hi s =
     (case range_start lo of
        None \<Rightarrow> (Err (DequeWithinReserve new_capacity_overflow), s)
      | Some start \<Rightarrow>
          (case range_end (vlen (fst s)) hi of
             None \<Rightarrow> (Err (DequeWithinReserve new_capacity_overflow), s)
           | Some stop \<Rightarrow>
               if stop \<le> start then (Ok (), s)
               else if vlen (fst s) < stop \<or> vlen (fst s) < start then (Err DequeWithinOutOfBounds, s)
               else and_then (map_err_run DequeWithinReserve (vec_try_reserve (stop - start) s))
                      (\<lambda>_. with_deque_guard
                         (\<lambda>s'. map_err_run DequeWithinClone (deque_push_clones_at cl [start..<stop] s')))))"

definition deque_try_resize ::
    "'a cloner \<Rightarrow> 'a \<Rightarrow> nat \<Rightarrow> 'a dstate \<Rightarrow> ('a dstate, deque_clone_error, unit) run" where
  "deque_try_resize cl x new_len s =
     (case s of (v, h) \<Rightarrow>
        if new_len \<le> vlen v then (Ok (), (deque_truncate new_len v, h))
        else let extra = new_len - vlen v
             in and_then (map_err_run DequeReserve (vec_try_reserve extra s))
                  (\<lambda>_. with_deque_guard
                     (\<lambda>s'. map_err_run DequeClone (deque_push_clones cl (replicate extra x) s'))))"

definition deque_try_resize_with ::
    "nat \<Rightarrow> ('f \<Rightarrow> 'a option \<times> 'f) \<Rightarrow> 'f \<Rightarrow> 'a dstate \<Rightarrow> ('a dstate, try_reserve_error, 'f) run" where
  "deque_try_resize_with new_len f st s =
     (case s of (v, h) \<Rightarrow>
        if new_len \<le> vlen v then (Ok st, (deque_truncate new_len v, h))
        else let extra = new_len - vlen v
             in and_then (vec_try_reserve extra s)
                  (\<lambda>_. with_deque_guard (deque_push_generated f extra st)))"

definition deque_try_clear :: "'a deque \<Rightarrow> 'a deque" where
  "deque_try_clear v = with_items [] v"

definition deque_try_clone :: "'a cloner \<Rightarrow> 'a deque cloner" where
  "deque_try_clone cl v h =
     into_vec (and_then
       (if items v \<noteq> [] then map_err_run CloneReserve (vec_try_reserve (vlen v) (vec_new (elem v), h))
        else (Ok (), (vec_new (elem v), h)))
       (\<lambda>_ s. deque_push_clones cl (items v) s))"

fun deque_clone_slice_loop ::
    "'a cloner \<Rightarrow> 'a list \<Rightarrow> 'a dstate \<Rightarrow> ('a dstate, 'a list \<times> deque_clone_error, unit) run" where
  "deque_clone_slice_loop cl [] s = (Ok (), s)"
| "deque_clone_slice_loop cl (x # xs) (v, h) =
     (case cl x h of
        (Ok y, h') \<Rightarrow> and_then (deque_push_back y (v, h')) (\<lambda>_. deque_clone_slice_loop cl xs)
      | (Err e, h') \<Rightarrow> (Err (x # xs, DequeClone e), (v, h'))
      | (Panic m, h') \<Rightarrow> (Panic m, (v, h'))
      | (UB, h') \<Rightarrow> (UB, (v, h')))"

definition deque_try_extend_from_slice ::
    "'a cloner \<Rightarrow> 'a list \<Rightarrow> 'a dstate \<Rightarrow> ('a dstate, 'a list \<times> deque_clone_error, unit) run" where
  "deque_try_extend_from_slice cl other s =
     (if other = [] then (Ok (), s)
      else and_then (map_err_run (\<lambda>e. (other, DequeReserve e)) (vec_try_reserve (length other) s))
             (\<lambda>_. deque_clone_slice_loop cl other))"

section \<open>The operations of the vectors under other names\<close>

text \<open>How the errors correspond.\<close>

fun deque_error :: "vec_clone_error \<Rightarrow> deque_clone_error" where
  "deque_error (VecReserve e) = DequeReserve e"
| "deque_error (VecClone e) = DequeClone e"

fun deque_within :: "vec_within_error \<Rightarrow> deque_within_error" where
  "deque_within (WithinReserve e) = DequeWithinReserve e"
| "deque_within WithinOutOfBounds = DequeWithinOutOfBounds"
| "deque_within (WithinClone e) = DequeWithinClone e"

lemma map_err_run_map_err_run: "map_err_run f (map_err_run g r) = map_err_run (\<lambda>e. f (g e)) r"
  by (cases r; cases "fst r") auto

lemma map_err_run_and_then:
  "map_err_run f (and_then r k) = and_then (map_err_run f r) (\<lambda>a s. map_err_run f (k a s))"
  by (cases r; cases "fst r") auto

lemma map_err_run_into_vec:
  "(let (q, h) = into_vec r in (map_err f q, h)) = into_vec (map_err_run f r)"
  by (cases r; cases "fst r") (auto simp: into_vec_def)

lemma map_err_run_if: "map_err_run f (if b then r else q) = (if b then map_err_run f r else map_err_run f q)"
  by simp

lemma deque_truncate_eq: "deque_truncate n v = vec_truncate n v"
  by (cases v) (auto simp: deque_truncate_def vec_truncate_def with_items_def)

lemma with_deque_guard_eq: "with_deque_guard = with_truncate_guard"
  unfolding with_deque_guard_def [abs_def] with_truncate_guard_def [abs_def] deque_truncate_eq ..

lemma guard_map_err:
  "with_truncate_guard (\<lambda>s. map_err_run f (body s)) s = map_err_run f (with_truncate_guard body s)"
  by (cases "body s"; cases "fst (body s)") (auto simp: with_truncate_guard_def split: prod.splits)

lemma deque_push_clones_eq: "deque_push_clones cl xs = push_clones cl xs"
proof (induction xs)
  case Nil
  show ?case by (intro ext) simp
next
  case (Cons x xs)
  show ?case
  proof
    fix s :: "'a dstate"
    show "deque_push_clones cl (x # xs) s = push_clones cl (x # xs) s"
      by (cases s) (simp add: Cons.IH deque_push_back_def split: prod.split outcome.split)
  qed
qed

lemma deque_push_clones_at_eq:
  "is = [] \<or> vlen (fst s) + length is \<le> cap (fst s) \<and> (\<forall>i\<in>set is. i < vlen (fst s)) \<Longrightarrow>
     deque_push_clones_at cl is s = push_clones_at cl is s"
proof (induction "is" arbitrary: s)
  case (Cons i "is")
  obtain v h where s: "s = (v, h)" by fastforce
  obtain r k where r: "cl (items v ! i) h = (r, k)" by fastforce
  have IH: "deque_push_clones_at cl is (with_items (items v @ [y]) v, k) =
      push_clones_at cl is (with_items (items v @ [y]) v, k)" for y
    using Cons.prems s by (intro Cons.IH) (auto simp: less_SucI)
  show ?case
    using Cons.prems s r IH by (cases r) (auto simp: deque_push_back_def vec_push_room)
qed simp

lemma deque_push_generated_eq: "deque_push_generated f n st = push_generated f n st"
proof (induction n arbitrary: st)
  case 0
  show ?case by (intro ext) simp
next
  case (Suc n)
  show ?case by (intro ext) (simp add: Suc.IH deque_push_back_def split: prod.split option.split)
qed

lemma deque_collect_loop_eq: "deque_collect_loop xs = collect_loop xs"
proof (induction xs)
  case Nil
  show ?case by (intro ext) simp
next
  case (Cons x xs)
  show ?case by (intro ext) (simp add: Cons.IH deque_extend_push_eq)
qed

lemma deque_clone_slice_loop_eq:
  "deque_clone_slice_loop cl xs s = map_err_run (\<lambda>(tl, e). (tl, deque_error e)) (clone_slice_loop cl xs s)"
proof (induction xs arbitrary: s)
  case (Cons x xs)
  obtain v h where s: "s = (v, h)" by fastforce
  obtain r k where r: "cl x h = (r, k)" by fastforce
  show ?case
  proof (cases r)
    case (Ok y)
    have "and_then (vec_push y (v, k)) (\<lambda>_. deque_clone_slice_loop cl xs) =
        map_err_run (\<lambda>(tl, e). (tl, deque_error e)) (and_then (vec_push y (v, k)) (\<lambda>_. clone_slice_loop cl xs))"
      using Cons.IH by (simp add: vec_push_def split: prod.splits outcome.splits)
    then show ?thesis by (simp add: s r Ok deque_push_back_def)
  qed (simp_all add: s r)
qed simp

section \<open>Every bulk operation is the vector's\<close>

lemmas deque_loops_eq = deque_push_clones_eq deque_push_generated_eq deque_collect_loop_eq with_deque_guard_eq
  deque_truncate_eq

lemmas err_pushes = map_err_run_and_then map_err_run_map_err_run map_err_run_if

lemma deque_try_clone_eq: "deque_try_clone = vec_try_clone"
  unfolding deque_try_clone_def [abs_def] vec_try_clone_def [abs_def] deque_loops_eq ..

lemma deque_try_collect_eq: "deque_try_collect = vec_try_collect"
  unfolding deque_try_collect_def [abs_def] vec_try_collect_def [abs_def] deque_loops_eq ..

lemma deque_try_resize_with_eq: "deque_try_resize_with = vec_try_resize_with"
  unfolding deque_try_resize_with_def [abs_def] vec_try_resize_with_def [abs_def] deque_loops_eq ..

lemma deque_try_rollback_eq:
  "deque_try_extend_from_slice_with_rollback cl xs s =
     map_err_run deque_error (vec_try_extend_from_slice_with_rollback cl xs s)"
  by (simp add: deque_try_extend_from_slice_with_rollback_def vec_try_extend_from_slice_with_rollback_def
      deque_loops_eq err_pushes flip: guard_map_err)

lemma deque_try_resize_eq:
  "deque_try_resize cl x n s = map_err_run deque_error (vec_try_resize cl x n s)"
  by (cases s) (simp add: deque_try_resize_def vec_try_resize_def deque_loops_eq err_pushes Let_def
      flip: guard_map_err)

lemma deque_try_from_elem_eq:
  "deque_try_from_elem l cl x n h =
     (let (r, h') = vec_try_from_elem l cl x n h in (map_err deque_error r, h'))"
  by (simp add: deque_try_from_elem_def vec_try_from_elem_def map_err_run_into_vec deque_loops_eq err_pushes)

lemma deque_try_extend_from_slice_eq:
  "deque_try_extend_from_slice cl xs s =
     map_err_run (\<lambda>(tl, e). (tl, deque_error e)) (vec_try_extend_from_slice cl xs s)"
  by (simp add: deque_try_extend_from_slice_def vec_try_extend_from_slice_def err_pushes
      flip: deque_clone_slice_loop_eq)

text \<open>The slice constructor of the vectors reserves also for an empty slice, which asks for nothing.\<close>

lemma deque_try_from_slice_eq:
  "deque_try_from_slice l cl xs h =
     (let (r, h') = vec_try_from_slice l cl xs h in (map_err deque_error r, h'))"
  by (simp add: deque_try_from_slice_def vec_try_from_slice_def map_err_run_into_vec deque_loops_eq
      err_pushes vec_try_reserve_def)

text \<open>Reading the growing deque by index stays in range once the room is reserved.\<close>

lemma deque_try_extend_from_within_eq:
  assumes "vec_ok v"
  shows "deque_try_extend_from_within cl lo hi (v, h) =
    map_err_run deque_within (vec_try_extend_from_within cl lo hi (v, h))"
proof -
  have loops: "and_then (map_err_run DequeWithinReserve (vec_try_reserve (stop - start) (v, h)))
        (\<lambda>_. with_truncate_guard (\<lambda>s. map_err_run DequeWithinClone (deque_push_clones_at cl [start..<stop] s))) =
      map_err_run deque_within
        (and_then (map_err_run WithinReserve (vec_try_reserve (stop - start) (v, h)))
          (\<lambda>_. with_truncate_guard (\<lambda>s. map_err_run WithinClone (push_clones_at cl [start..<stop] s))))"
    if "stop \<le> vlen v" for start stop
  proof (cases rule: vec_try_reserve_cases [OF assms, of "stop - start" h])
    case (1 w k)
    then have "deque_push_clones_at cl [start..<stop] (w, k) = push_clones_at cl [start..<stop] (w, k)"
      using that by (intro deque_push_clones_at_eq) auto
    with 1 show ?thesis
      by (cases "push_clones_at cl [start..<stop] (w, k)"; cases "fst (push_clones_at cl [start..<stop] (w, k))")
        (auto simp: with_truncate_guard_def split: prod.splits)
  next
    case (2 e k)
    then show ?thesis by simp
  qed
  show ?thesis
    by (auto simp: deque_try_extend_from_within_def vec_try_extend_from_within_def with_deque_guard_eq loops
        split: option.split)
qed

end
