(* ===== verification/BulkInsert.thy ===== *)
theory BulkInsert
  imports Extend
begin

text \<open>
  What the bulk insertions of the maps and sets share: the loop over items that stops at the first
  failure and hands back the item with those behind it, the clone of a pair, and the contract of such
  an extension, proved once for every container that inserts one item with give-back.
\<close>

section \<open>Loops with an early return\<close>

text \<open>\<open>for x in items { step(x)? }\<close>: an error \<open>e\<close> at \<open>x\<close>, with \<open>xs\<close> not yet visited, leaves the loop as
  \<open>wrap x xs e\<close>. A step may diverge (\<open>None\<close>).\<close>

fun each_by ::
    "('x \<Rightarrow> 's \<Rightarrow> ('s, 'e, 'o) run option) \<Rightarrow> ('x \<Rightarrow> 'x list \<Rightarrow> 'e \<Rightarrow> 'f) \<Rightarrow> 'x list \<Rightarrow> 's \<Rightarrow>
     ('s, 'f, unit) run option" where
  "each_by step wrap [] s = Some (Ok (), s)"
| "each_by step wrap (x # xs) s =
     (case step x s of
        None \<Rightarrow> None
      | Some (Ok _, s') \<Rightarrow> each_by step wrap xs s'
      | Some (Err e, s') \<Rightarrow> Some (Err (wrap x xs e), s')
      | Some (Panic m, s') \<Rightarrow> Some (Panic m, s')
      | Some (UB, s') \<Rightarrow> Some (UB, s'))"

lemma each_by_Err: "each_by step wrap xs s = Some (Err f, t) \<Longrightarrow> \<exists>x ys e. f = wrap x ys e"
proof (induction xs arbitrary: s)
  case (Cons x xs)
  then show ?case by (fastforce split: option.splits prod.splits outcome.splits)
qed simp

text \<open>A loop that panics does so in the step of one of its items, after those before it went well.\<close>

definition panics_in ::
    "('x \<Rightarrow> 's \<Rightarrow> ('s, 'e, 'o) run option) \<Rightarrow> 'x list \<Rightarrow> 's \<Rightarrow> string \<Rightarrow> 's \<Rightarrow> bool" where
  "panics_in step xs s m t \<longleftrightarrow> (\<exists>ys x zs s1. xs = ys @ x # zs \<and>
     each_by step (\<lambda>_ _ e. e) ys s = Some (Ok (), s1) \<and> step x s1 = Some (Panic m, t))"

lemma panics_in_here: "step x s = Some (Panic m, t) \<Longrightarrow> panics_in step (x # xs) s m t"
  unfolding panics_in_def by (intro exI [of _ "[]"] exI [of _ x] exI [of _ xs] exI [of _ s]) simp

lemma panics_in_later:
  assumes "step x s = Some (Ok a, s1)" and "panics_in step xs s1 m t"
  shows "panics_in step (x # xs) s m t"
proof -
  obtain ys y zs s2 where "xs = ys @ y # zs" "each_by step (\<lambda>_ _ e. e) ys s1 = Some (Ok (), s2)" "step y s2 = Some (Panic m, t)"
    using assms(2) by (auto simp: panics_in_def)
  then show ?thesis
    unfolding panics_in_def using assms(1)
    by (intro exI [of _ "x # ys"] exI [of _ y] exI [of _ zs] exI [of _ s2]) simp
qed

lemma each_by_Panic: "each_by step wrap xs s = Some (Panic m, t) \<Longrightarrow> panics_in step xs s m t"
proof (induction xs arbitrary: s)
  case (Cons x xs)
  then show ?case
    by (auto split: option.splits prod.splits outcome.splits intro: panics_in_here panics_in_later)
qed simp

text \<open>The same loop over a step that always returns.\<close>

fun each_run ::
    "('x \<Rightarrow> 's \<Rightarrow> ('s, 'e, 'o) run) \<Rightarrow> ('x \<Rightarrow> 'x list \<Rightarrow> 'e \<Rightarrow> 'f) \<Rightarrow> 'x list \<Rightarrow> 's \<Rightarrow> ('s, 'f, unit) run"
where
  "each_run step wrap [] s = (Ok (), s)"
| "each_run step wrap (x # xs) s =
     and_then (map_err_run (wrap x xs) (step x s)) (\<lambda>_. each_run step wrap xs)"

lemma each_by_run: "each_by (\<lambda>x s. Some (step x s)) wrap xs s = Some (each_run step wrap xs s)"
proof (induction xs arbitrary: s)
  case (Cons x xs)
  then show ?case by (cases "step x s"; cases "fst (step x s)") auto
qed simp

text \<open>The \<open>?\<close> operator on calls that may diverge.\<close>

definition opt_then :: "('s, 'e, 'a) run option \<Rightarrow> ('a \<Rightarrow> 's \<Rightarrow> ('s, 'e, 'b) run option) \<Rightarrow> ('s, 'e, 'b) run option"
where
  "opt_then r k =
     (case r of
        None \<Rightarrow> None
      | Some (Ok a, s) \<Rightarrow> k a s
      | Some (Err e, s) \<Rightarrow> Some (Err e, s)
      | Some (Panic m, s) \<Rightarrow> Some (Panic m, s)
      | Some (UB, s) \<Rightarrow> Some (UB, s))"

lemma opt_then_simps [simp]:
  "opt_then None k = None"
  "opt_then (Some (Ok a, s)) k = k a s"
  "opt_then (Some (Err e, s)) k = Some (Err e, s)"
  "opt_then (Some (Panic m, s)) k = Some (Panic m, s)"
  "opt_then (Some (UB, s)) k = Some (UB, s)"
  by (simp_all add: opt_then_def)

text \<open>\<open>try_extend\<close> over a source: the item an earlier failure handed back comes first, then the
  iterator; a failure hands back the item with the iterator as it is by then.\<close>

definition try_extend_by ::
    "('x \<Rightarrow> 's \<Rightarrow> ('s, 'x \<times> 'e, 'o) run option) \<Rightarrow> 'x source \<Rightarrow> 's \<Rightarrow> ('s, 'x resumable \<times> 'e, unit) run option"
where
  "try_extend_by ins src s =
     (let (head, it) = safe_into_iter src
      in opt_then
           (case head of
              Some x \<Rightarrow> each_by ins (\<lambda>_ _ (y, e). (resumable_new y it, e)) [x] s
            | None \<Rightarrow> Some (Ok (), s))
           (\<lambda>_. each_by ins (\<lambda>_ xs (y, e). (resumable_new y (Iter xs (hint it)), e)) (rest it)))"

text \<open>\<open>try_extend\<close> of the containers that reserve: the handed back item, a reservation for the items the
  iterator announces, and the loop.\<close>

definition table_extend ::
    "('x \<Rightarrow> 's \<Rightarrow> ('s, 'e, 'o) run) \<Rightarrow> (nat \<Rightarrow> 's \<Rightarrow> ('s, 'e, unit) run) \<Rightarrow> 'x source \<Rightarrow> 's \<Rightarrow>
     ('s, 'x resumable \<times> 'e, unit) run" where
  "table_extend one reserve src s =
     (let (head, it) = safe_into_iter src
      in and_then
           (case head of
              Some x \<Rightarrow> each_run one (\<lambda>y _ e. (resumable_new y it, e)) [x] s
            | None \<Rightarrow> (Ok (), s))
           (\<lambda>_ s1.
             let lower = fst (size_hint it)
             in and_then
                  (if 0 < lower
                   then map_err_run (\<lambda>e. (resumable_from_remainder it, e)) (reserve lower s1)
                   else (Ok (), s1))
                  (\<lambda>_. each_run one (\<lambda>y ys e. (resumable_new y (Iter ys (hint it)), e)) (rest it))))"

text \<open>\<open>try_collect\<close>: a reservation for the upper bound of the size hint, if it has one, and the loop.\<close>

definition table_collect ::
    "('x \<Rightarrow> 's \<Rightarrow> ('s, 'e, 'o) run) \<Rightarrow> (nat \<Rightarrow> 's \<Rightarrow> ('s, 'e, unit) run) \<Rightarrow> 'x iter \<Rightarrow> 's \<Rightarrow> ('s, 'e, unit) run"
where
  "table_collect one reserve it s =
     (let (lower, upper) = size_hint it;
          capacity = (case upper of Some u \<Rightarrow> u | None \<Rightarrow> lower)
      in and_then (if 0 < capacity then reserve capacity s else (Ok (), s))
           (\<lambda>_. each_run one (\<lambda>_ _ e. e) (rest it)))"

text \<open>What comes back from a failed extension starts with an item.\<close>

lemma try_extend_by_Err:
  assumes "try_extend_by ins src s = Some (Err (res, e), t)"
  shows "resumable_items res \<noteq> []"
proof -
  obtain head it where src: "safe_into_iter src = (head, it)" by fastforce
  let ?tail = "\<lambda>s1. each_by ins (\<lambda>_ xs (y, e). (resumable_new y (Iter xs (hint it)), e)) (rest it) s1"
  have tail: "resumable_items res \<noteq> []" if "?tail s1 = Some (Err (res, e), t)" for s1
    using each_by_Err [OF that] by (auto split: prod.splits)
  show ?thesis
  proof (cases head)
    case None
    then show ?thesis using assms tail by (simp add: try_extend_by_def src)
  next
    case (Some x)
    then show ?thesis
      using assms tail
      by (cases "ins x s") (auto simp: try_extend_by_def src split: prod.splits outcome.splits)
  qed
qed

lemma try_extend_by_Panic:
  assumes "try_extend_by ins src s = Some (Panic m, t)"
  shows "panics_in ins (source_items src) s m t"
proof -
  obtain head it where src: "safe_into_iter src = (head, it)" by fastforce
  show ?thesis
  proof (cases head)
    case None
    then show ?thesis
      using assms each_by_Panic by (fastforce simp: try_extend_by_def src source_items_def pending_def)
  next
    case (Some x)
    have items: "source_items src = x # rest it" using Some by (simp add: source_items_def pending_def src)
    show ?thesis
      using assms Some unfolding items
      by (cases "ins x s")
        (auto simp: try_extend_by_def src split: prod.splits outcome.splits
          dest: each_by_Panic intro: panics_in_here panics_in_later)
  qed
qed

section \<open>Clones of pairs\<close>

text \<open>The evaluation of \<open>(key.try_clone(), value.try_clone())\<close> and its match: the value is cloned also
  after the key's clone has failed, and the key's error is the one reported.\<close>

definition clone_pair ::
    "'k cloner \<Rightarrow> 'v cloner \<Rightarrow> 'k \<times> 'v \<Rightarrow> heap \<Rightarrow> (try_clone_error, 'k \<times> 'v) outcome \<times> heap" where
  "clone_pair clk clv kv h =
     (case clk (fst kv) h of
        (Panic m, h1) \<Rightarrow> (Panic m, h1)
      | (UB, h1) \<Rightarrow> (UB, h1)
      | (rk, h1) \<Rightarrow>
          (case clv (snd kv) h1 of
             (Panic m, h2) \<Rightarrow> (Panic m, h2)
           | (UB, h2) \<Rightarrow> (UB, h2)
           | (rv, h2) \<Rightarrow>
               ((case (rk, rv) of
                   (Ok k, Ok v) \<Rightarrow> Ok (k, v)
                 | (Err e, _) \<Rightarrow> Err e
                 | (_, Err e) \<Rightarrow> Err e), h2)))"

text \<open>Clones of pairs meet the contract of clones when those of keys and values do.\<close>

lemma clone_pair_cloneable:
  assumes "cloneable clk vk" and "cloneable clv vv"
  shows "cloneable (clone_pair clk clv) (map_prod vk vv)"
proof
  fix x h y h'
  assume run: "clone_pair clk clv x h = (Ok y, h')"
  show "map_prod vk vv y = map_prod vk vv x"
  proof (cases rule: cloneable.clone_cases [OF assms(1), of "fst x" h])
    case (1 k h1)
    then show ?thesis
      using run by (cases rule: cloneable.clone_cases [OF assms(2), of "snd x" h1])
        (cases x, auto simp: clone_pair_def)
  next
    case (2 e h1)
    then show ?thesis
      using run by (cases rule: cloneable.clone_cases [OF assms(2), of "snd x" h1]) (auto simp: clone_pair_def)
  qed
next
  fix x h
  show "clean (fst (clone_pair clk clv x h))"
  proof (cases rule: cloneable.clone_cases [OF assms(1), of "fst x" h])
    case (1 k h1)
    then show ?thesis
      by (cases rule: cloneable.clone_cases [OF assms(2), of "snd x" h1]) (auto simp: clone_pair_def)
  next
    case (2 e h1)
    then show ?thesis
      by (cases rule: cloneable.clone_cases [OF assms(2), of "snd x" h1]) (auto simp: clone_pair_def)
  qed
qed

section \<open>The contract of an extension\<close>

definition put_pair :: "'k \<times> 'v \<Rightarrow> ('k \<rightharpoonup> 'v) \<Rightarrow> ('k \<rightharpoonup> 'v)" where
  "put_pair kv m = m(fst kv \<mapsto> snd kv)"

lemma fold_put: "fold put_pair kvs m = m ++ map_of (rev kvs)"
  by (induction kvs arbitrary: m) (auto simp: put_pair_def fun_eq_iff map_add_def split: option.split)

text \<open>
  A container holds a content of type \<open>'m\<close>, \<open>upd x\<close> is what an item does to it, \<open>left e\<close> the items an
  error hands back. On \<open>Ok\<close> every item took effect, in order. On \<open>Err\<close> exactly the items before those
  handed back did. A panic is the abort for lack of memory, where the container may abort (\<open>ab\<close>).
\<close>

fun extended ::
    "bool \<Rightarrow> ('s \<Rightarrow> 'm \<Rightarrow> bool) \<Rightarrow> ('x \<Rightarrow> 'm \<Rightarrow> 'm) \<Rightarrow> 'm \<Rightarrow> 'x list \<Rightarrow> ('e \<Rightarrow> 'x list) \<Rightarrow> ('s, 'e, unit) run \<Rightarrow> bool"
where
  "extended ab holds upd m xs left (Ok _, s') \<longleftrightarrow> holds s' (fold upd xs m)"
| "extended ab holds upd m xs left (Err e, s') \<longleftrightarrow>
     (\<exists>ys. xs = ys @ left e \<and> holds s' (fold upd ys m))"
| "extended ab holds upd m xs left (Panic msg, s') \<longleftrightarrow> ab \<and> msg = ''memory allocation failed''"
| "extended ab holds upd m xs left (UB, s') \<longleftrightarrow> False"

lemma extended_Cons: "extended ab holds upd (upd x m) xs left r \<Longrightarrow> extended ab holds upd m (x # xs) left r"
proof (cases r; cases "fst r")
  fix q s' e
  assume r: "r = (q, s')" "fst r = Err e" and *: "extended ab holds upd (upd x m) xs left r"
  then obtain ys where "xs = ys @ left e" "holds s' (fold upd ys (upd x m))" by auto
  then show ?thesis using r by (auto intro!: exI [of _ "x # ys"])
qed auto

lemma extended_here: "holds s' m \<Longrightarrow> left e = xs \<Longrightarrow> extended ab holds upd m xs left (Err e, s')"
  by (auto intro!: exI [of _ "[]"])

lemma extended_more:
  "extended ab holds upd (fold upd zs m) xs left r \<Longrightarrow> extended ab holds upd m (zs @ xs) left r"
  by (induction zs arbitrary: m) (auto intro: extended_Cons)

text \<open>
  The interface of an insertion that gives back: it stores the item, or leaves the content and answers
  an error fit for the item (\<open>fits\<close>), or aborts. \<open>lim\<close> bounds the contents it is asked to serve, \<open>ab\<close> tells whether it may
  abort.
\<close>

locale insertion =
  fixes ins :: "'x \<Rightarrow> 's \<Rightarrow> ('s, 'e, 'o) run option"
    and holds :: "'s \<Rightarrow> 'm \<Rightarrow> bool" and upd :: "'x \<Rightarrow> 'm \<Rightarrow> 'm"
    and fits :: "'x \<Rightarrow> 'e \<Rightarrow> bool" and weight :: "'m \<Rightarrow> nat" and lim :: nat
    and ab :: bool
  assumes ins_outcome: "holds s m \<Longrightarrow> weight m < lim \<Longrightarrow>
      (\<exists>a s'. ins x s = Some (Ok a, s') \<and> holds s' (upd x m)) \<or>
      (\<exists>e s'. ins x s = Some (Err e, s') \<and> fits x e \<and> holds s' m) \<or>
      (\<exists>s'. ins x s = Some (Panic ''memory allocation failed'', s') \<and> ab)"
    and weight_upd: "weight (upd x m) \<le> Suc (weight m)"
begin

lemma ins_cases:
  assumes "holds s m" and "weight m < lim"
  obtains (Ok) a s' where "ins x s = Some (Ok a, s')" and "holds s' (upd x m)"
  | (Err) e s' where "ins x s = Some (Err e, s')" and "fits x e" and "holds s' m"
  | (Panic) s' where "ins x s = Some (Panic ''memory allocation failed'', s')" and "ab"
  using ins_outcome [OF assms, of x] by blast

lemma weight_fold: "weight (fold upd xs m) \<le> weight m + length xs"
proof (induction xs arbitrary: m)
  case (Cons x xs)
  show ?case using Cons.IH [of "upd x m"] weight_upd [of x m] by (simp del: fold.simps add: fold_Cons)
qed simp

lemma each_by_extended:
  assumes "holds s m" and "weight m + length xs \<le> lim"
    and "\<And>x xs e. fits x e \<Longrightarrow> left (wrap x xs e) = x # xs"
  shows "\<exists>r. each_by ins wrap xs s = Some r \<and> extended ab holds upd m xs left r"
  using assms(1,2)
proof (induction xs arbitrary: s m)
  case Nil
  then show ?case by simp
next
  case (Cons x xs)
  have room: "weight m < lim" using Cons.prems(2) by simp
  show ?case
  proof (cases rule: ins_cases [OF Cons.prems(1) room, of x])
    case (1 a s')
    then show ?thesis
      using Cons.IH [OF 1(2)] Cons.prems(2) weight_upd [of x m] by (auto intro: extended_Cons)
  next
    case (2 e s')
    then show ?thesis using assms(3) by (auto intro!: extended_here)
  qed auto
qed

end

text \<open>An insertion that cannot fail where \<open>holds\<close> is true extends from a source without failing.\<close>

locale sure_insertion =
  fixes ins :: "'x \<Rightarrow> 's \<Rightarrow> ('s, 'x \<times> 'e, 'o) run option"
    and holds :: "'s \<Rightarrow> 'm \<Rightarrow> bool" and upd :: "'x \<Rightarrow> 'm \<Rightarrow> 'm" and weight :: "'m \<Rightarrow> nat" and lim :: nat
  assumes ins_sure: "holds s m \<Longrightarrow> weight m < lim \<Longrightarrow> \<exists>a s'. ins x s = Some (Ok a, s') \<and> holds s' (upd x m)"
    and weight_upd: "weight (upd x m) \<le> Suc (weight m)"
begin

lemma each_by_sure:
  assumes "holds s m" and "weight m + length xs \<le> lim"
  shows "\<exists>t. each_by ins wrap xs s = Some (Ok (), t) \<and> holds t (fold upd xs m)"
  using assms
proof (induction xs arbitrary: s m)
  case (Cons x xs)
  obtain a s' where "ins x s = Some (Ok a, s')" "holds s' (upd x m)"
    using ins_sure [OF Cons.prems(1)] Cons.prems(2) by fastforce
  then show ?case using Cons.IH [of s' "upd x m"] Cons.prems(2) weight_upd [of x m] by simp
qed simp

lemma try_extend_sure:
  assumes "holds s m" and "weight m + length (source_items src) \<le> lim"
  shows "\<exists>t. try_extend_by ins src s = Some (Ok (), t) \<and> holds t (fold upd (source_items src) m)"
proof -
  obtain head it where src: "safe_into_iter src = (head, it)" by fastforce
  show ?thesis
  proof (cases head)
    case None
    then show ?thesis
      using each_by_sure [OF assms(1), of "rest it"] assms(2)
      by (simp add: try_extend_by_def source_items_def pending_def src)
  next
    case (Some x)
    have items: "source_items src = x # rest it" using Some by (simp add: source_items_def pending_def src)
    obtain a s' where one: "ins x s = Some (Ok a, s')" "holds s' (upd x m)"
      using ins_sure [OF assms(1)] assms(2) items by fastforce
    then show ?thesis
      using each_by_sure [OF one(2), of "rest it"] assms(2) weight_upd [of x m] Some
      by (simp add: try_extend_by_def src items)
  qed
qed

end

text \<open>An insertion whose error starts with the item it gives back extends from a source.\<close>

locale giving_insertion = insertion ins holds upd "\<lambda>x e. fst e = x" weight lim ab
  for ins :: "'x \<Rightarrow> 's \<Rightarrow> ('s, 'x \<times> 'e, 'o) run option"
    and holds :: "'s \<Rightarrow> 'm \<Rightarrow> bool" and upd :: "'x \<Rightarrow> 'm \<Rightarrow> 'm" and weight :: "'m \<Rightarrow> nat" and lim :: nat
    and ab :: bool
begin

lemma try_extend_extended:
  assumes "holds s m" and "weight m + length (source_items src) \<le> lim"
  shows "\<exists>r. try_extend_by ins src s = Some r \<and>
    extended ab holds upd m (source_items src) (\<lambda>e. resumable_items (fst e)) r"
proof -
  obtain head it where src: "safe_into_iter src = (head, it)" by fastforce
  have tail: "\<exists>r. each_by ins (\<lambda>_ xs (y, e). (resumable_new y (Iter xs (hint it)), e)) (rest it) t = Some r \<and>
      extended ab holds upd n (rest it) (\<lambda>e. resumable_items (fst e)) r"
    if "holds t n" "weight n + length (rest it) \<le> lim" for t n
    using that by (intro each_by_extended) (auto split: prod.splits)
  show ?thesis
  proof (cases head)
    case None
    then show ?thesis
      using tail [OF assms(1)] assms(2) by (simp add: try_extend_by_def source_items_def pending_def src)
  next
    case (Some x)
    have items: "source_items src = x # rest it" using Some by (simp add: source_items_def pending_def src)
    then have room: "weight m < lim" using assms(2) by simp
    show ?thesis
    proof (cases rule: ins_cases [OF assms(1) room, of x])
      case (1 a s')
      then show ?thesis
        using tail [OF 1(2)] assms(2) weight_upd [of x m] Some
        by (auto simp: try_extend_by_def src items intro: extended_Cons)
    next
      case (2 e s')
      then show ?thesis
        using Some by (auto simp: try_extend_by_def src items intro!: extended_here split: prod.splits)
    next
      case (3 s')
      then show ?thesis using Some by (simp add: try_extend_by_def src)
    qed
  qed
qed

text \<open>A retry with what was handed back completes the extension, in whatever state with the same content.\<close>

lemma try_extend_retry:
  assumes "holds s m" and "weight m + length (source_items src) \<le> lim"
    and "try_extend_by ins src s = Some (Err (res, e), s')"
    and "\<And>n. holds s' n \<Longrightarrow> holds s2 n" and "try_extend_by ins (Retry res) s2 = Some (Ok (), t)"
  shows "holds t (fold upd (source_items src) m)"
proof -
  obtain ys where ys: "source_items src = ys @ resumable_items res" "holds s' (fold upd ys m)"
    using try_extend_extended [OF assms(1,2)] assms(3) by auto
  have again: "source_items (Retry res) = resumable_items res"
    by (simp add: source_items_def resumable_items_def into_parts_def)
  have "weight (fold upd ys m) + length (source_items (Retry res)) \<le> lim"
    using assms(2) ys(1) weight_fold [of ys m] again by simp
  then show ?thesis
    using try_extend_extended [OF assms(4) [OF ys(2)], of "Retry res"] assms(5) ys(1) again by auto
qed

end

text \<open>
  The interface of a container that reserves: a round of its loops stores the item or answers an error
  and leaves the content, and so does a reservation, which never changes it. There is no abort.
\<close>

locale bulk_table =
  fixes one :: "'x \<Rightarrow> 's \<Rightarrow> ('s, 'e, 'o) run" and reserve :: "nat \<Rightarrow> 's \<Rightarrow> ('s, 'e, unit) run"
    and holds :: "'s \<Rightarrow> 'm \<Rightarrow> bool" and upd :: "'x \<Rightarrow> 'm \<Rightarrow> 'm"
  assumes one_outcome: "holds s m \<Longrightarrow>
      (\<exists>a s'. one x s = (Ok a, s') \<and> holds s' (upd x m)) \<or> (\<exists>e s'. one x s = (Err e, s') \<and> holds s' m)"
    and reserve_outcome: "holds s m \<Longrightarrow>
      (\<exists>s'. reserve n s = (Ok (), s') \<and> holds s' m) \<or> (\<exists>e s'. reserve n s = (Err e, s') \<and> holds s' m)"
begin

lemma each_run_extended:
  assumes "holds s m" and "\<And>x xs e. left (wrap x xs e) = x # xs"
  shows "extended False holds upd m xs left (each_run one wrap xs s)"
  using assms(1)
proof (induction xs arbitrary: s m)
  case (Cons x xs)
  then consider a s' where "one x s = (Ok a, s')" "holds s' (upd x m)" | e s' where "one x s = (Err e, s')" "holds s' m"
    using one_outcome [of s m x] by blast
  then show ?case
  proof cases
    case 1
    then show ?thesis using Cons.IH [OF 1(2)] by (auto intro: extended_Cons)
  next
    case 2
    then show ?thesis using assms(2) by (auto intro!: extended_here)
  qed
qed simp

lemma resuming_loop:
  "holds s m \<Longrightarrow> extended False holds upd m xs (\<lambda>e. resumable_items (fst e))
     (each_run one (\<lambda>y ys e. (resumable_new y (Iter ys g), e)) xs s)"
  by (rule each_run_extended) simp_all

lemma extend_tail:
  assumes "holds s m"
  shows "extended False holds upd m (rest it) (\<lambda>e. resumable_items (fst e))
    (and_then (if 0 < n then map_err_run (\<lambda>e. (resumable_from_remainder it, e)) (reserve n s) else (Ok (), s))
       (\<lambda>_. each_run one (\<lambda>y ys e. (resumable_new y (Iter ys (hint it)), e)) (rest it)))"
proof -
  consider s' where "reserve n s = (Ok (), s')" "holds s' m" | e s' where "reserve n s = (Err e, s')" "holds s' m"
    using reserve_outcome [OF assms, of n] by blast
  then show ?thesis
  proof cases
    case 1
    then show ?thesis using resuming_loop [OF 1(2)] resuming_loop [OF assms] by simp
  next
    case 2
    then show ?thesis using resuming_loop [OF assms] by (auto intro!: extended_here)
  qed
qed

lemma table_extend_extended:
  assumes "holds s m"
  shows "extended False holds upd m (source_items src) (\<lambda>e. resumable_items (fst e)) (table_extend one reserve src s)"
proof -
  obtain head it where src: "safe_into_iter src = (head, it)" by fastforce
  show ?thesis
  proof (cases head)
    case None
    then show ?thesis
      using extend_tail [OF assms] by (simp add: table_extend_def source_items_def pending_def src Let_def)
  next
    case (Some x)
    have items: "source_items src = x # rest it" using Some by (simp add: source_items_def pending_def src)
    consider a s' where "one x s = (Ok a, s')" "holds s' (upd x m)" | e s' where "one x s = (Err e, s')" "holds s' m"
      using one_outcome [OF assms, of x] by blast
    then show ?thesis
    proof cases
      case 1
      then have "table_extend one reserve src s =
          and_then (if 0 < fst (size_hint it)
            then map_err_run (\<lambda>e. (resumable_from_remainder it, e)) (reserve (fst (size_hint it)) s')
            else (Ok (), s'))
           (\<lambda>_. each_run one (\<lambda>y ys e. (resumable_new y (Iter ys (hint it)), e)) (rest it))"
        by (simp add: table_extend_def src Some Let_def)
      then show ?thesis
        using extended_Cons [OF extend_tail [OF 1(2), of it "fst (size_hint it)"]] by (simp only: items)
    next
      case 2
      then show ?thesis using Some by (auto simp: table_extend_def src items intro!: extended_here)
    qed
  qed
qed

lemma table_extend_retry:
  assumes "holds s m" and "table_extend one reserve src s = (Err (res, e), s')"
    and "\<And>n. holds s' n \<Longrightarrow> holds s2 n" and "table_extend one reserve (Retry res) s2 = (Ok (), t)"
  shows "holds t (fold upd (source_items src) m)"
proof -
  obtain ys where ys: "source_items src = ys @ resumable_items res" "holds s' (fold upd ys m)"
    using table_extend_extended [OF assms(1), of src] assms(2) by auto
  have "source_items (Retry res) = resumable_items res"
    by (simp add: source_items_def resumable_items_def into_parts_def)
  then show ?thesis
    using table_extend_extended [OF assms(3) [OF ys(2)], of "Retry res"] assms(4) ys(1) by simp
qed

text \<open>Collecting stores all items or fails.\<close>

lemma table_collect_extended:
  assumes "holds s m"
  obtains (Ok) s' where "table_collect one reserve it s = (Ok (), s')" and "holds s' (fold upd (rest it) m)"
  | (Err) e s' where "table_collect one reserve it s = (Err e, s')"
proof -
  let ?n = "case snd (size_hint it) of Some u \<Rightarrow> u | None \<Rightarrow> fst (size_hint it)"
  have run: "table_collect one reserve it s =
      and_then (if 0 < ?n then reserve ?n s else (Ok (), s)) (\<lambda>_. each_run one (\<lambda>_ _ e. e) (rest it))"
    by (simp add: table_collect_def case_prod_beta)
  have loop: "(\<exists>s'. each_run one (\<lambda>_ _ e. e) xs t = (Ok (), s') \<and> holds s' (fold upd xs n)) \<or>
      (\<exists>e s'. each_run one (\<lambda>_ _ e. e) xs t = (Err e, s'))" if "holds t n" for xs t n
    using that
  proof (induction xs arbitrary: t n)
    case (Cons x xs)
    consider a t' where "one x t = (Ok a, t')" "holds t' (upd x n)" | e t' where "one x t = (Err e, t')"
      using one_outcome [OF Cons.prems, of x] by blast
    then show ?case
    proof cases
      case 1
      then show ?thesis using Cons.IH [OF 1(2)] by simp
    qed simp
  qed simp
  consider t where "(if 0 < ?n then reserve ?n s else (Ok (), s)) = (Ok (), t)" "holds t m"
    | e t where "(if 0 < ?n then reserve ?n s else (Ok (), s)) = (Err e, t)"
    using reserve_outcome [OF assms, of ?n] assms by (cases "0 < ?n") auto
  then show thesis
  proof cases
    case 1
    then have "table_collect one reserve it s = each_run one (\<lambda>_ _ e. e) (rest it) t" using run by simp
    then show thesis using loop [OF 1(2), of "rest it"] that by auto
  next
    case 2
    then show thesis using run that(2) by simp
  qed
qed

end

text \<open>The vectors meet the interface: their round is \<open>extend_push\<close>.\<close>

interpretation vec_bulk: bulk_table extend_push vec_try_reserve "\<lambda>s xs. vec_ok (fst s) \<and> items (fst s) = xs"
    "\<lambda>x xs. xs @ [x]"
proof
  fix s :: "'a vstate" and xs x
  assume s: "vec_ok (fst s) \<and> items (fst s) = xs"
  obtain v h where v: "s = (v, h)" by fastforce
  with s have ok: "vec_ok v" by simp
  show "(\<exists>a s'. extend_push x s = (Ok a, s') \<and> vec_ok (fst s') \<and> items (fst s') = xs @ [x]) \<or>
      (\<exists>e s'. extend_push x s = (Err e, s') \<and> vec_ok (fst s') \<and> items (fst s') = xs)"
    by (cases rule: extend_push_cases [OF ok, of x h]) (use s v in auto)
next
  fix s :: "'a vstate" and xs n
  assume s: "vec_ok (fst s) \<and> items (fst s) = xs"
  obtain v h where v: "s = (v, h)" by fastforce
  with s have ok: "vec_ok v" by simp
  show "(\<exists>s'. vec_try_reserve n s = (Ok (), s') \<and> vec_ok (fst s') \<and> items (fst s') = xs) \<or>
      (\<exists>e s'. vec_try_reserve n s = (Err e, s') \<and> vec_ok (fst s') \<and> items (fst s') = xs)"
    by (cases rule: vec_try_reserve_cases [OF ok, of n h]) (use s v in auto)
qed

end
