(* ===== verification/BTreeNode.thy ===== *)
theory BTreeNode
  imports TryVec
begin

text \<open>
  The nodes of the standard library's B-tree as \<^verbatim>\<open>alloc/btrees/entry.rs\<close> sees them
  through its mirrored types, and the pointer surgery of
  \<^verbatim>\<open>alloc/btrees/entry/helpers.rs\<close>. The nodes live in an explicit store from
  addresses to nodes: parent links, shared edges and in-place mutation are those of the source.
  A node has fixed arrays of possibly uninitialised slots; reading an uninitialised slot, a
  dangling pointer or past an array is undefined behaviour, an array index out of range panics.
  The constants are the standard library's, with \<open>B = 6\<close>.
\<close>

section \<open>Nodes\<close>

definition CAPACITY :: nat where "CAPACITY = 11"

definition KV_IDX_CENTER :: nat where "KV_IDX_CENTER = 5"

definition EDGE_IDX_LEFT_OF_CENTER :: nat where "EDGE_IDX_LEFT_OF_CENTER = 5"

definition EDGE_IDX_RIGHT_OF_CENTER :: nat where "EDGE_IDX_RIGHT_OF_CENTER = 6"

type_synonym addr = nat

text \<open>
  \<open>LeafNode\<close> and \<open>InternalNode\<close> in one record: a leaf has no edge slots. Lengths and parent
  indices are \<open>u16\<close> in the source and never exceed 12.
\<close>

record ('k, 'v) node =
  n_parent :: "addr option"
  n_parent_idx :: "nat option"
  n_len :: nat
  n_keys :: "'k option list"
  n_vals :: "'v option list"
  n_edges :: "addr option list"

type_synonym ('k, 'v) nodes = "addr \<Rightarrow> ('k, 'v) node option"

datatype noderef = NodeRef (nr_height: nat) (nr_node: addr)

datatype handle = Handle (h_ref: noderef) (h_idx: nat)

text \<open>The contents of a node that was just allocated.\<close>

definition empty_leaf :: "('k, 'v) node" where
  "empty_leaf =
     \<lparr>n_parent = None, n_parent_idx = None, n_len = 0, n_keys = replicate CAPACITY None,
      n_vals = replicate CAPACITY None, n_edges = []\<rparr>"

definition empty_internal :: "('k, 'v) node" where
  "empty_internal = empty_leaf\<lparr>n_edges := replicate (CAPACITY + 1) None\<rparr>"

section \<open>Split geometry\<close>

datatype insertion_side = LeftSide nat | RightSide nat

definition splitpoint :: "nat \<Rightarrow> nat \<times> insertion_side" where
  "splitpoint edge_idx =
     (if edge_idx < EDGE_IDX_LEFT_OF_CENTER then (KV_IDX_CENTER - 1, LeftSide edge_idx)
      else if edge_idx = EDGE_IDX_LEFT_OF_CENTER then (KV_IDX_CENTER, LeftSide edge_idx)
      else if edge_idx = EDGE_IDX_RIGHT_OF_CENTER then (KV_IDX_CENTER, RightSide 0)
      else (KV_IDX_CENTER + 1, RightSide (edge_idx - (KV_IDX_CENTER + 2))))"

section \<open>Arrays of slots\<close>

text \<open>\<open>ptr::copy\<close> inside one array, and \<open>copy_nonoverlapping\<close> to the front of another.\<close>

definition ptr_copy :: "nat \<Rightarrow> nat \<Rightarrow> nat \<Rightarrow> 'a list \<Rightarrow> 'a list" where
  "ptr_copy src dst count xs = take dst xs @ take count (drop src xs) @ drop (dst + count) xs"

definition copy_front :: "'a list \<Rightarrow> nat \<Rightarrow> nat \<Rightarrow> 'a list \<Rightarrow> 'a list" where
  "copy_front from off count to = take count (drop off from) @ drop count to"

definition init_read :: "'a option list \<Rightarrow> nat \<Rightarrow> ('e, 'a) outcome" where
  "init_read xs i =
     (if i < length xs then case xs ! i of Some x \<Rightarrow> Ok x | None \<Rightarrow> UB
      else Panic ''index out of bounds'')"

section \<open>Infallible mutation\<close>

definition leaf_slice_insert :: "addr \<Rightarrow> nat \<Rightarrow> 'k \<Rightarrow> 'v \<Rightarrow> ('k, 'v) nodes \<Rightarrow> (('k, 'v) nodes, 'e, unit) run" where
  "leaf_slice_insert leaf idx key val ns =
     (case ns leaf of
        None \<Rightarrow> (UB, ns)
      | Some n \<Rightarrow>
          let len = n_len n; shift = len - idx
          in if idx < len \<and> CAPACITY \<le> len then (UB, ns)
             else if CAPACITY \<le> idx then (Panic ''index out of bounds'', ns)
             else
               let ks = (if idx < len then ptr_copy idx (idx + 1) shift (n_keys n) else n_keys n);
                   vs = (if idx < len then ptr_copy idx (idx + 1) shift (n_vals n) else n_vals n)
               in (Ok (), ns(leaf \<mapsto> n\<lparr>n_keys := ks[idx := Some key], n_vals := vs[idx := Some val],
                     n_len := len + 1\<rparr>)))"

definition copy_right_half_leaf ::
    "addr \<Rightarrow> addr \<Rightarrow> nat \<Rightarrow> ('k, 'v) nodes \<Rightarrow> (('k, 'v) nodes, 'e, unit) run" where
  "copy_right_half_leaf source right sp_idx ns =
     (case (ns source, ns right) of
        (Some sn, Some rn) \<Rightarrow>
          let old_len = n_len sn; new_right_len = old_len - sp_idx - 1
          in if CAPACITY < old_len then (UB, ns)
             else
               let rn' = (if 0 < new_right_len
                          then rn\<lparr>n_len := new_right_len,
                                 n_keys := copy_front (n_keys sn) (sp_idx + 1) new_right_len (n_keys rn),
                                 n_vals := copy_front (n_vals sn) (sp_idx + 1) new_right_len (n_vals rn)\<rparr>
                          else rn\<lparr>n_len := new_right_len\<rparr>)
               in (Ok (), ns(right \<mapsto> rn', source \<mapsto> sn\<lparr>n_len := sp_idx\<rparr>))
      | _ \<Rightarrow> (UB, ns))"

definition internal_insert_fit ::
    "addr \<Rightarrow> nat \<Rightarrow> 'k \<Rightarrow> 'v \<Rightarrow> addr \<Rightarrow> ('k, 'v) nodes \<Rightarrow> (('k, 'v) nodes, 'e, unit) run" where
  "internal_insert_fit internal edge_idx key val child ns =
     (case ns internal of
        None \<Rightarrow> (UB, ns)
      | Some n \<Rightarrow>
          let len = n_len n; shift = len - edge_idx
          in if 0 < shift \<and> CAPACITY \<le> len then (UB, ns)
             else if CAPACITY \<le> edge_idx then (Panic ''index out of bounds'', ns)
             else
               let ks = (if 0 < shift then ptr_copy edge_idx (edge_idx + 1) shift (n_keys n) else n_keys n);
                   vs = (if 0 < shift then ptr_copy edge_idx (edge_idx + 1) shift (n_vals n) else n_vals n);
                   es = (if 0 < shift then ptr_copy (edge_idx + 1) (edge_idx + 2) shift (n_edges n)
                         else n_edges n)
               in (Ok (), ns(internal \<mapsto>
                     n\<lparr>n_keys := ks[edge_idx := Some key], n_vals := vs[edge_idx := Some val],
                       n_edges := es[edge_idx + 1 := Some child], n_len := len + 1\<rparr>)))"

definition copy_right_half_internal ::
    "addr \<Rightarrow> addr \<Rightarrow> nat \<Rightarrow> ('k, 'v) nodes \<Rightarrow> (('k, 'v) nodes, 'e, unit) run" where
  "copy_right_half_internal source right sp_idx ns =
     (case (ns source, ns right) of
        (Some sn, Some rn) \<Rightarrow>
          let old_len = n_len sn; new_right_len = old_len - sp_idx - 1
          in if CAPACITY < old_len then (UB, ns)
             else
               let rn1 = (if 0 < new_right_len
                          then rn\<lparr>n_len := new_right_len,
                                 n_keys := copy_front (n_keys sn) (sp_idx + 1) new_right_len (n_keys rn),
                                 n_vals := copy_front (n_vals sn) (sp_idx + 1) new_right_len (n_vals rn)\<rparr>
                          else rn\<lparr>n_len := new_right_len\<rparr>);
                   rn2 = rn1\<lparr>n_edges :=
                           copy_front (n_edges sn) (sp_idx + 1) (new_right_len + 1) (n_edges rn1)\<rparr>
               in (Ok (), ns(right \<mapsto> rn2, source \<mapsto> sn\<lparr>n_len := sp_idx\<rparr>))
      | _ \<Rightarrow> (UB, ns))"

subsection \<open>Parent links\<close>

definition set_parent_link ::
    "addr \<Rightarrow> addr \<Rightarrow> nat \<Rightarrow> ('k, 'v) nodes \<Rightarrow> (('k, 'v) nodes, 'e, unit) run" where
  "set_parent_link child parent idx ns =
     (case ns child of
        None \<Rightarrow> (UB, ns)
      | Some n \<Rightarrow> (Ok (), ns(child \<mapsto> n\<lparr>n_parent := Some parent, n_parent_idx := Some idx\<rparr>)))"

fun relink_loop :: "addr \<Rightarrow> nat list \<Rightarrow> ('k, 'v) nodes \<Rightarrow> (('k, 'v) nodes, 'e, unit) run" where
  "relink_loop p [] ns = (Ok (), ns)"
| "relink_loop p (i # is) ns =
     (case ns p of
        None \<Rightarrow> (UB, ns)
      | Some n \<Rightarrow>
          and_then (init_read (n_edges n) i, ns) (\<lambda>child ns.
          and_then (set_parent_link child p i ns) (\<lambda>_. relink_loop p is)))"

text \<open>\<open>for i in start..=end\<close>\<close>

definition correct_parent_links ::
    "addr \<Rightarrow> nat \<Rightarrow> nat \<Rightarrow> ('k, 'v) nodes \<Rightarrow> (('k, 'v) nodes, 'e, unit) run" where
  "correct_parent_links internal start end = relink_loop internal [start..<Suc end]"

section \<open>Walking the tree\<close>

datatype ascend_result = AtParent handle | AtRoot noderef

definition ascend :: "('k, 'v) nodes \<Rightarrow> noderef \<Rightarrow> ('e, ascend_result) outcome" where
  "ascend ns r =
     (case ns (nr_node r) of
        None \<Rightarrow> UB
      | Some n \<Rightarrow>
          (case n_parent n of
             None \<Rightarrow> Ok (AtRoot r)
           | Some q \<Rightarrow>
               (case n_parent_idx n of
                  None \<Rightarrow> UB
                | Some i \<Rightarrow>
                    (case checked_add (nr_height r) 1 of
                       None \<Rightarrow> Panic ''tree height should be below usize::MAX''
                     | Some h \<Rightarrow> Ok (AtParent (Handle (NodeRef h q) i))))))"

text \<open>
  The standard library's search: a linear scan of the keys of a node, then down the edge it
  points to. It allocates nothing.
\<close>

datatype search_result = Found handle | GoDown handle

fun find_key_index :: "'k::linorder \<Rightarrow> 'k option list \<Rightarrow> nat \<Rightarrow> nat \<Rightarrow> ('e, bool \<times> nat) outcome" where
  "find_key_index key ks 0 i = Ok (False, i)"
| "find_key_index key ks (Suc rest) i =
     (case init_read ks i of
        Ok k \<Rightarrow> if k < key then find_key_index key ks rest (i + 1) else Ok (k = key, i)
      | Err e \<Rightarrow> Err e
      | Panic msg \<Rightarrow> Panic msg
      | UB \<Rightarrow> UB)"

fun search_tree :: "('k::linorder, 'v) nodes \<Rightarrow> 'k \<Rightarrow> nat \<Rightarrow> addr \<Rightarrow> ('e, search_result) outcome" where
  "search_tree ns key 0 p =
     (case ns p of
        None \<Rightarrow> UB
      | Some n \<Rightarrow>
          map_ok (\<lambda>(found, i). (if found then Found else GoDown) (Handle (NodeRef 0 p) i))
            (find_key_index key (n_keys n) (n_len n) 0))"
| "search_tree ns key (Suc h) p =
     (case ns p of
        None \<Rightarrow> UB
      | Some n \<Rightarrow>
          (case find_key_index key (n_keys n) (n_len n) 0 of
             Ok (True, i) \<Rightarrow> Ok (Found (Handle (NodeRef (Suc h) p) i))
           | Ok (False, i) \<Rightarrow>
               (case init_read (n_edges n) i of
                  Ok c \<Rightarrow> search_tree ns key h c
                | Err e \<Rightarrow> Err e
                | Panic msg \<Rightarrow> Panic msg
                | UB \<Rightarrow> UB)
           | Err e \<Rightarrow> Err e
           | Panic msg \<Rightarrow> Panic msg
           | UB \<Rightarrow> UB))"

end
