(* ===== verification/BTreeEntry.thy ===== *)
theory BTreeEntry
  imports BTreeNode
begin

text \<open>
  Fallible B-tree insertion (\<^verbatim>\<open>alloc/btrees/entry.rs\<close>,
  \<^verbatim>\<open>entry/scratch.rs\<close>): probe the split path, reserve every node it needs, then
  commit without allocating. The state is the map, the node store with the address of the next
  node the allocator hands out, the two thread-local scratch buffers and the heap. The probe
  loops follow parent links, so they are partial functions: \<open>None\<close> when they do not end.
\<close>

record node_layouts =
  leaf_l :: layout
  internal_l :: layout

record ('k, 'v) bstate =
  bt_root :: "noderef option"
  bt_length :: nat
  bt_nodes :: "('k, 'v) nodes"
  bt_next :: addr
  probe_buf :: "nat option"
  reserved_buf :: "nat option"
  bt_heap :: heap

definition on_nodes ::
    "(('k, 'v) nodes \<Rightarrow> (('k, 'v) nodes, 'e, 'a) run) \<Rightarrow> ('k, 'v) bstate \<Rightarrow> (('k, 'v) bstate, 'e, 'a) run" where
  "on_nodes f s = (case f (bt_nodes s) of (r, ns) \<Rightarrow> (r, s\<lparr>bt_nodes := ns\<rparr>))"

section \<open>Fallible node allocation\<close>

definition alloc_node ::
    "layout \<Rightarrow> ('k, 'v) node \<Rightarrow> ('k, 'v) bstate \<Rightarrow> (('k, 'v) bstate, alloc_error, addr) run" where
  "alloc_node l n s =
     (case alloc_box_uninit l (bt_heap s) of
        (r, h) \<Rightarrow>
          (map_ok (\<lambda>_. bt_next s) r,
           case r of
             Ok _ \<Rightarrow> s\<lparr>bt_heap := h, bt_nodes := (bt_nodes s)(bt_next s \<mapsto> n), bt_next := bt_next s + 1\<rparr>
           | _ \<Rightarrow> s\<lparr>bt_heap := h\<rparr>))"

definition try_new_leaf :: "node_layouts \<Rightarrow> ('k, 'v) bstate \<Rightarrow> (('k, 'v) bstate, alloc_error, addr) run" where
  "try_new_leaf L s = alloc_node (leaf_l L) empty_leaf s"

definition try_new_leaf_box :: "node_layouts \<Rightarrow> ('k, 'v) bstate \<Rightarrow> (('k, 'v) bstate, alloc_error, addr) run" where
  "try_new_leaf_box L s = alloc_node (leaf_l L) empty_leaf s"

definition try_new_internal_box ::
    "node_layouts \<Rightarrow> ('k, 'v) bstate \<Rightarrow> (('k, 'v) bstate, alloc_error, addr) run" where
  "try_new_internal_box L s = alloc_node (internal_l L) empty_internal s"

text \<open>Dropping a box that was never wired into the tree frees its node.\<close>

definition free_node :: "addr \<Rightarrow> ('k, 'v) bstate \<Rightarrow> ('k, 'v) bstate" where
  "free_node p s = s\<lparr>bt_nodes := (bt_nodes s)(p := None)\<rparr>"

section \<open>Scratch buffers\<close>

text \<open>
  \<open>CommitInternal\<close> is \<open>repr(C)\<close> of 40 bytes, a box is a pointer. A cached buffer is an empty
  vector, so its capacity is all there is to it.
\<close>

record commit_internal =
  ci_ptr :: addr
  ci_child_idx :: nat
  ci_will_split :: bool
  ci_sp_idx :: "nat option"

definition commit_internal_l :: layout where "commit_internal_l = Layout 40 8"

definition box_l :: layout where "box_l = Layout 8 8"

definition scratch_take :: "layout \<Rightarrow> nat \<Rightarrow> nat option \<Rightarrow> heap \<Rightarrow> (alloc_error, 'a vec) outcome \<times> heap" where
  "scratch_take l capacity cached h =
     (case cached of
        Some c \<Rightarrow>
          if capacity \<le> c then (Ok (Vec [] c l), h)
          else map_err_run (\<lambda>_. AllocError) (vec_try_with_capacity l capacity h)
      | None \<Rightarrow> map_err_run (\<lambda>_. AllocError) (vec_try_with_capacity l capacity h))"

definition probe_buffer_try_new ::
    "nat \<Rightarrow> ('k, 'v) bstate \<Rightarrow> (('k, 'v) bstate, alloc_error, commit_internal vec) run" where
  "probe_buffer_try_new capacity s =
     (case scratch_take commit_internal_l capacity (probe_buf s) (bt_heap s) of
        (r, h) \<Rightarrow> (r, s\<lparr>probe_buf := None, bt_heap := h\<rparr>))"

definition probe_buffer_drop :: "commit_internal vec \<Rightarrow> ('k, 'v) bstate \<Rightarrow> ('k, 'v) bstate" where
  "probe_buffer_drop v s = s\<lparr>probe_buf := Some (cap v)\<rparr>"

definition reserve_buffer_try_new ::
    "nat \<Rightarrow> ('k, 'v) bstate \<Rightarrow> (('k, 'v) bstate, alloc_error, addr vec) run" where
  "reserve_buffer_try_new capacity s =
     (case scratch_take box_l capacity (reserved_buf s) (bt_heap s) of
        (r, h) \<Rightarrow> (r, s\<lparr>reserved_buf := None, bt_heap := h\<rparr>))"

text \<open>The boxes still in the buffer are dropped with it.\<close>

definition reserve_buffer_drop :: "addr vec \<Rightarrow> ('k, 'v) bstate \<Rightarrow> ('k, 'v) bstate" where
  "reserve_buffer_drop v s = (fold free_node (items v) s)\<lparr>reserved_buf := Some (cap v)\<rparr>"

text \<open>\<open>Vec::with_capacity\<close>, which aborts the process when the request fails.\<close>

definition vec_with_capacity :: "layout \<Rightarrow> nat \<Rightarrow> heap \<Rightarrow> ('e, 'a vec) outcome \<times> heap" where
  "vec_with_capacity l n h =
     (if n * lsize l = 0 then (Ok (vec_new l), h)
      else if isize_max + 1 - lalign l < n * lsize l then (Panic ''capacity overflow'', h)
      else let (ok, h') = galloc h
           in (if ok then Ok (with_cap n (vec_new l)) else Panic ''memory allocation failed'', h'))"

text \<open>
  \<open>drain_to_pointers\<close> collects the raw pointers in a new vector. It runs after the reserve phase
  and allocates with the infallible constructor.
\<close>

fun push_all :: "'a list \<Rightarrow> 'a vstate \<Rightarrow> ('a vstate, 'e, unit) run" where
  "push_all [] s = (Ok (), s)"
| "push_all (x # xs) s = and_then (vec_push x s) (\<lambda>_. push_all xs)"

definition drain_to_pointers :: "addr vec \<Rightarrow> heap \<Rightarrow> ('e, addr vec \<times> addr vec) outcome \<times> heap" where
  "drain_to_pointers v h =
     (case vec_with_capacity box_l (vlen v) h of
        (Ok ptrs, h1) \<Rightarrow>
          (case push_all (items v) (ptrs, h1) of
             (r, (ptrs', h2)) \<Rightarrow> (map_ok (\<lambda>_. (ptrs', with_items [] v)) r, h2))
      | (Err e, h1) \<Rightarrow> (Err e, h1)
      | (Panic msg, h1) \<Rightarrow> (Panic msg, h1)
      | (UB, h1) \<Rightarrow> (UB, h1))"

section \<open>The commit plan\<close>

record commit_plan =
  cp_orig_leaf :: addr
  cp_leaf_sp :: nat
  cp_insert_right :: bool
  cp_insert_idx :: nat
  cp_internals :: "commit_internal vec"
  cp_new_root :: bool

text \<open>Pass 1: how many internal nodes the promotion climbs through.\<close>

partial_function (option) probe_count ::
    "('k, 'v) nodes \<Rightarrow> noderef \<Rightarrow> nat \<Rightarrow> (alloc_error, nat) outcome option" where
  "probe_count ns cur count =
     (case (ascend ns cur :: (alloc_error, ascend_result) outcome) of
        Ok (AtRoot _) \<Rightarrow> Some (Ok count)
      | Ok (AtParent p) \<Rightarrow>
          (case checked_add count 1 of
             None \<Rightarrow> Some (Panic ''height fits in usize'')
           | Some count' \<Rightarrow>
               (case ns (nr_node (h_ref p)) of
                  None \<Rightarrow> Some UB
                | Some n \<Rightarrow>
                    if n_len n < CAPACITY then Some (Ok count') else probe_count ns (h_ref p) count'))
      | Err e \<Rightarrow> Some (Err e)
      | Panic msg \<Rightarrow> Some (Panic msg)
      | UB \<Rightarrow> Some UB)"

text \<open>Pass 2: the same walk, recording each node. The answer is whether the root splits.\<close>

definition annotate :: "handle \<Rightarrow> ('k, 'v) node \<Rightarrow> commit_internal" where
  "annotate p n =
     (let will_split = CAPACITY \<le> n_len n
      in \<lparr>ci_ptr = nr_node (h_ref p), ci_child_idx = h_idx p, ci_will_split = will_split,
          ci_sp_idx = (if will_split then Some (fst (splitpoint (h_idx p))) else None)\<rparr>)"

partial_function (option) probe_record ::
    "('k, 'v) nodes \<Rightarrow> noderef \<Rightarrow> commit_internal vstate \<Rightarrow>
     (commit_internal vstate, alloc_error, bool) run option" where
  "probe_record ns cur v =
     (case (ascend ns cur :: (alloc_error, ascend_result) outcome) of
        Ok (AtRoot _) \<Rightarrow> Some (Ok True, v)
      | Ok (AtParent p) \<Rightarrow>
          (case ns (nr_node (h_ref p)) of
             None \<Rightarrow> Some (UB, v)
           | Some n \<Rightarrow>
               (case (vec_push (annotate p n) v :: (commit_internal vstate, alloc_error, unit) run) of
                  (Ok _, v') \<Rightarrow>
                    if CAPACITY \<le> n_len n then probe_record ns (h_ref p) v' else Some (Ok False, v')
                | (Err e, v') \<Rightarrow> Some (Err e, v')
                | (Panic msg, v') \<Rightarrow> Some (Panic msg, v')
                | (UB, v') \<Rightarrow> Some (UB, v')))
      | Err e \<Rightarrow> Some (Err e, v)
      | Panic msg \<Rightarrow> Some (Panic msg, v)
      | UB \<Rightarrow> Some (UB, v))"

declare probe_count.simps [code] probe_record.simps [code]

definition plan_build ::
    "handle \<Rightarrow> ('k, 'v) bstate \<Rightarrow> (('k, 'v) bstate, alloc_error, commit_plan) run option" where
  "plan_build leaf_edge s =
     (let (leaf_sp, leaf_side) = splitpoint (h_idx leaf_edge);
          (insert_right, insert_idx) =
            (case leaf_side of LeftSide i \<Rightarrow> (False, i) | RightSide i \<Rightarrow> (True, i))
      in case probe_count (bt_nodes s) (h_ref leaf_edge) 0 of
           None \<Rightarrow> None
         | Some q \<Rightarrow>
             (case and_then (q, s) probe_buffer_try_new of
                (Ok buf, s1) \<Rightarrow>
                  (case probe_record (bt_nodes s1) (h_ref leaf_edge) (buf, bt_heap s1) of
                     None \<Rightarrow> None
                   | Some (r, (buf', h)) \<Rightarrow>
                       Some (map_ok (\<lambda>new_root.
                               \<lparr>cp_orig_leaf = nr_node (h_ref leaf_edge), cp_leaf_sp = leaf_sp,
                                cp_insert_right = insert_right, cp_insert_idx = insert_idx,
                                cp_internals = buf', cp_new_root = new_root\<rparr>) r,
                             s1\<lparr>bt_heap := h\<rparr>))
              | (Err e, s1) \<Rightarrow> Some (Err e, s1)
              | (Panic msg, s1) \<Rightarrow> Some (Panic msg, s1)
              | (UB, s1) \<Rightarrow> Some (UB, s1)))"

end
