(* ===== verification/BTreeCommit.thy ===== *)
theory BTreeCommit
  imports BTreeEntry
begin

text \<open>
  The commit phase of \<^verbatim>\<open>alloc/btrees/entry.rs\<close>, the three phases put together, and
  the traits on top: \<open>TryBTreeMap\<close>, \<open>TryBTreeMapVacantEntry\<close>, \<open>TryBTreeMapEntry\<close> and
  \<open>TryBTreeSet\<close>. A reference to an entry is the handle of its slot.
\<close>

section \<open>Commit\<close>

text \<open>
  Placing a promotion in a node with room: insert the separator and the right child, then repair
  the parent links of the edges that moved. The source spells this out three times.
\<close>

definition insert_and_relink ::
    "addr \<Rightarrow> nat \<Rightarrow> 'k \<times> 'v \<Rightarrow> addr \<Rightarrow> ('k, 'v) nodes \<Rightarrow> (('k, 'v) nodes, 'e, unit) run" where
  "insert_and_relink p i kv child ns =
     (case ns p of
        None \<Rightarrow> (UB, ns)
      | Some pn \<Rightarrow>
          (case checked_add (n_len pn) 1 of
             None \<Rightarrow> (Panic ''node len below capacity'', ns)
           | Some new_len \<Rightarrow>
               and_then (internal_insert_fit p i (fst kv) (snd kv) child ns) (\<lambda>_.
                 correct_parent_links p (i + 1) new_len)))"

text \<open>One full node of the path: promote its centre, move its upper half, place the promotion.\<close>

definition split_internal ::
    "addr \<Rightarrow> nat \<Rightarrow> nat \<Rightarrow> addr \<Rightarrow> addr \<Rightarrow> 'k \<times> 'v \<Rightarrow> ('k, 'v) nodes \<Rightarrow> (('k, 'v) nodes, 'e, 'k \<times> 'v) run" where
  "split_internal p edge_idx sp_idx ri child kv ns =
     (case ns p of
        None \<Rightarrow> (UB, ns)
      | Some pn \<Rightarrow>
          and_then (init_read (n_keys pn) sp_idx, ns) (\<lambda>mk ns.
          and_then (init_read (n_vals pn) sp_idx, ns) (\<lambda>mv ns.
          and_then (copy_right_half_internal p ri sp_idx ns) (\<lambda>_ ns.
            case ns ri of
              None \<Rightarrow> (UB, ns)
            | Some rn \<Rightarrow>
                and_then (correct_parent_links ri 0 (n_len rn) ns) (\<lambda>_ ns.
                and_then (case snd (splitpoint edge_idx) of
                            LeftSide ii \<Rightarrow> insert_and_relink p ii kv child ns
                          | RightSide ii \<Rightarrow> insert_and_relink ri ii kv child ns) (\<lambda>_ ns.
                  (Ok (mk, mv), ns)))))))"

text \<open>
  The climb. \<open>None\<close>: a node absorbed the promotion; otherwise the promotion that is left over
  above the old root, with the reserved nodes that are left.
\<close>

fun promote ::
    "commit_internal list \<Rightarrow> addr list \<Rightarrow> noderef \<Rightarrow> noderef \<Rightarrow> 'k \<times> 'v \<Rightarrow> ('k, 'v) nodes \<Rightarrow>
     (('k, 'v) nodes, 'e, (addr list \<times> noderef \<times> noderef \<times> 'k \<times> 'v) option) run" where
  "promote [] ri left right kv ns = (Ok (Some (ri, left, right, kv)), ns)"
| "promote (ci # cis) ri left right kv ns =
     (if \<not> ci_will_split ci then
        map_ok_run (\<lambda>_. None) (insert_and_relink (ci_ptr ci) (ci_child_idx ci) kv (nr_node right) ns)
      else
        (case (ci_sp_idx ci, ri) of
           (None, _) \<Rightarrow> (Panic ''will_split implies sp_idx is set'', ns)
         | (Some sp, []) \<Rightarrow> (Panic ''an internal node was reserved per split'', ns)
         | (Some sp, r # ri') \<Rightarrow>
             and_then (split_internal (ci_ptr ci) (ci_child_idx ci) sp r (nr_node right) kv ns) (\<lambda>kv' ns.
               (case (checked_add (nr_height left) 1, checked_add (nr_height right) 1) of
                  (Some lh, Some rh) \<Rightarrow>
                    promote cis ri' (NodeRef lh (ci_ptr ci)) (NodeRef rh r) kv' ns
                | _ \<Rightarrow> (Panic ''tree height fits in usize'', ns)))))"

definition count_entry :: "('k, 'v) bstate \<Rightarrow> (('k, 'v) bstate, 'e, unit) run" where
  "count_entry s =
     (case checked_add (bt_length s) 1 of
        None \<Rightarrow> (Panic ''element count fits in usize'', s)
      | Some n \<Rightarrow> (Ok (), s\<lparr>bt_length := n\<rparr>))"

definition finish_commit :: "addr \<Rightarrow> nat \<Rightarrow> handle" where
  "finish_commit insert_node insert_idx = Handle (NodeRef 0 insert_node) insert_idx"

text \<open>The fresh root over the old root and the last promotion.\<close>

definition grow_root ::
    "addr \<Rightarrow> addr \<Rightarrow> 'k \<times> 'v \<Rightarrow> addr \<Rightarrow> ('k, 'v) nodes \<Rightarrow> (('k, 'v) nodes, 'e, unit) run" where
  "grow_root nr old_root kv right ns =
     (case ns nr of
        None \<Rightarrow> (UB, ns)
      | Some n \<Rightarrow>
          let n0 = n\<lparr>n_parent := None, n_len := 0, n_edges := (n_edges n)[0 := Some old_root]\<rparr>
          in and_then (set_parent_link old_root nr 0 (ns(nr \<mapsto> n0))) (\<lambda>_ ns.
               case ns nr of
                 None \<Rightarrow> (UB, ns)
               | Some n1 \<Rightarrow>
                   let len = n_len n1;
                       n2 = n1\<lparr>n_keys := (n_keys n1)[len := Some (fst kv)],
                               n_vals := (n_vals n1)[len := Some (snd kv)],
                               n_edges := (n_edges n1)[len + 1 := Some right], n_len := len + 1\<rparr>
                   in set_parent_link right nr 1 (ns(nr \<mapsto> n2))))"

definition commit_split ::
    "commit_plan \<Rightarrow> addr \<Rightarrow> addr list \<Rightarrow> 'k \<Rightarrow> 'v \<Rightarrow> ('k, 'v) bstate \<Rightarrow>
     (('k, 'v) bstate, 'e, handle) run" where
  "commit_split plan leaf_right reserved key value s =
     (let insert_node = (if cp_insert_right plan then leaf_right else cp_orig_leaf plan);
          done = (\<lambda>s. map_ok_run (\<lambda>_. finish_commit insert_node (cp_insert_idx plan)) (count_entry s))
      in case bt_nodes s (cp_orig_leaf plan) of
           None \<Rightarrow> (UB, s)
         | Some ln \<Rightarrow>
             and_then (init_read (n_keys ln) (cp_leaf_sp plan), s) (\<lambda>mk s.
             and_then (init_read (n_vals ln) (cp_leaf_sp plan), s) (\<lambda>mv s.
             and_then (on_nodes (copy_right_half_leaf (cp_orig_leaf plan) leaf_right (cp_leaf_sp plan)) s) (\<lambda>_ s.
             and_then (on_nodes (leaf_slice_insert insert_node (cp_insert_idx plan) key value) s) (\<lambda>_ s.
             and_then (on_nodes (promote (items (cp_internals plan)) reserved
                         (NodeRef 0 (cp_orig_leaf plan)) (NodeRef 0 leaf_right) (mk, mv)) s) (\<lambda>out s.
               (case out of
                  None \<Rightarrow> done s
                | Some ([], _) \<Rightarrow> (Panic ''a root node was reserved when new_root is set'', s)
                | Some (nr # _, left, right, kv) \<Rightarrow>
                    (case (checked_add (nr_height left) 1, bt_root s) of
                       (None, _) \<Rightarrow> (Panic ''tree height fits in usize'', s)
                     | (_, None) \<Rightarrow> (Panic ''root exists'', s)
                     | (Some new_height, Some old_root) \<Rightarrow>
                         and_then (on_nodes (grow_root nr (nr_node old_root) kv (nr_node right))
                                     (s\<lparr>bt_root := None\<rparr>)) (\<lambda>_ s.
                           done (s\<lparr>bt_root := Some (NodeRef new_height nr)\<rparr>))))))))))"

section \<open>Insertion\<close>

definition num_reserved :: "commit_plan \<Rightarrow> nat" where
  "num_reserved plan =
     length (filter ci_will_split (items (cp_internals plan))) + (if cp_new_root plan then 1 else 0)"

text \<open>
  \<open>for _ in 0..num_reserved\<close>: on failure the buffer is returned with the nodes it holds, for the
  caller to drop.
\<close>

fun reserve_internals ::
    "node_layouts \<Rightarrow> nat \<Rightarrow> addr vec \<Rightarrow> ('k, 'v) bstate \<Rightarrow> (('k, 'v) bstate, addr vec \<times> alloc_error, addr vec) run" where
  "reserve_internals L 0 buf s = (Ok buf, s)"
| "reserve_internals L (Suc n) buf s =
     (case try_new_internal_box L s of
        (Ok p, s1) \<Rightarrow>
          (case (vec_push p (buf, bt_heap s1) :: (addr vstate, alloc_error, unit) run) of
             (Ok _, (buf', h)) \<Rightarrow> reserve_internals L n buf' (s1\<lparr>bt_heap := h\<rparr>)
           | (Err e, (buf', h)) \<Rightarrow> (Err (buf', e), s1\<lparr>bt_heap := h\<rparr>)
           | (Panic msg, (buf', h)) \<Rightarrow> (Panic msg, s1\<lparr>bt_heap := h\<rparr>)
           | (UB, (buf', h)) \<Rightarrow> (UB, s1\<lparr>bt_heap := h\<rparr>))
      | (Err e, s1) \<Rightarrow> (Err (buf, e), s1)
      | (Panic msg, s1) \<Rightarrow> (Panic msg, s1)
      | (UB, s1) \<Rightarrow> (UB, s1))"

text \<open>
  Phases 2 and 3 of \<open>try_insert_with_split\<close>, once the plan is built. The locals are dropped in
  reverse order: the reserve buffer, the pending leaf, the plan.
\<close>

definition reserve_and_commit ::
    "node_layouts \<Rightarrow> commit_plan \<Rightarrow> 'k \<Rightarrow> 'v \<Rightarrow> ('k, 'v) bstate \<Rightarrow>
     (('k, 'v) bstate, 'k \<times> 'v \<times> alloc_error, handle) run" where
  "reserve_and_commit L plan key value s =
     (let drop_plan = probe_buffer_drop (cp_internals plan)
      in case try_new_leaf_box L s of
           (Err e, s1) \<Rightarrow> (Err (key, value, e), drop_plan s1)
         | (Panic msg, s1) \<Rightarrow> (Panic msg, s1)
         | (UB, s1) \<Rightarrow> (UB, s1)
         | (Ok leaf, s1) \<Rightarrow>
             (case reserve_buffer_try_new (num_reserved plan) s1 of
                (Err e, s2) \<Rightarrow> (Err (key, value, e), drop_plan (free_node leaf s2))
              | (Panic msg, s2) \<Rightarrow> (Panic msg, s2)
              | (UB, s2) \<Rightarrow> (UB, s2)
              | (Ok buf, s2) \<Rightarrow>
                  (case reserve_internals L (num_reserved plan) buf s2 of
                     (Err (buf', e), s3) \<Rightarrow>
                       (Err (key, value, e), drop_plan (free_node leaf (reserve_buffer_drop buf' s3)))
                   | (Panic msg, s3) \<Rightarrow> (Panic msg, s3)
                   | (UB, s3) \<Rightarrow> (UB, s3)
                   | (Ok buf', s3) \<Rightarrow>
                       (case drain_to_pointers buf' (bt_heap s3) of
                          (r, h) \<Rightarrow>
                            and_then (r, s3\<lparr>bt_heap := h\<rparr>) (\<lambda>(ptrs, emptied) s4.
                              case commit_split plan leaf (items ptrs) key value s4 of
                                (r', s5) \<Rightarrow> (r', reserve_buffer_drop emptied (drop_plan s5)))))))"

definition try_insert_with_split ::
    "node_layouts \<Rightarrow> handle \<Rightarrow> 'k \<Rightarrow> 'v \<Rightarrow> ('k, 'v) bstate \<Rightarrow>
     (('k, 'v) bstate, 'k \<times> 'v \<times> alloc_error, handle) run option" where
  "try_insert_with_split L leaf_edge key value s =
     map_option
       (\<lambda>r. and_then (map_err_run (\<lambda>e. (key, value, e)) r) (\<lambda>plan. reserve_and_commit L plan key value))
       (plan_build leaf_edge s)"

definition try_insert_into_existing ::
    "node_layouts \<Rightarrow> handle \<Rightarrow> 'k \<Rightarrow> 'v \<Rightarrow> ('k, 'v) bstate \<Rightarrow>
     (('k, 'v) bstate, 'k \<times> 'v \<times> alloc_error, handle) run option" where
  "try_insert_into_existing L leaf_edge key value s =
     (case bt_nodes s (nr_node (h_ref leaf_edge)) of
        None \<Rightarrow> Some (UB, s)
      | Some n \<Rightarrow>
          if n_len n < CAPACITY then
            Some (and_then (on_nodes (leaf_slice_insert (nr_node (h_ref leaf_edge)) (h_idx leaf_edge) key value) s)
              (\<lambda>_ s. map_ok_run (\<lambda>_. leaf_edge) (count_entry s)))
          else try_insert_with_split L leaf_edge key value s)"

definition try_insert_empty_map ::
    "node_layouts \<Rightarrow> 'k \<Rightarrow> 'v \<Rightarrow> ('k, 'v) bstate \<Rightarrow> (('k, 'v) bstate, 'k \<times> 'v \<times> alloc_error, handle) run" where
  "try_insert_empty_map L key value s =
     and_then (map_err_run (\<lambda>e. (key, value, e)) (try_new_leaf L s)) (\<lambda>leaf s.
       case bt_nodes s leaf of
         None \<Rightarrow> (UB, s)
       | Some n \<Rightarrow>
           (Ok (Handle (NodeRef 0 leaf) 0),
            s\<lparr>bt_nodes := (bt_nodes s)(leaf \<mapsto> n\<lparr>n_keys := (n_keys n)[0 := Some key],
                                            n_vals := (n_vals n)[0 := Some value], n_len := 1\<rparr>),
              bt_root := Some (NodeRef 0 leaf), bt_length := 1\<rparr>))"

definition try_insert_kv ::
    "node_layouts \<Rightarrow> handle option \<Rightarrow> 'k \<Rightarrow> 'v \<Rightarrow> ('k, 'v) bstate \<Rightarrow>
     (('k, 'v) bstate, 'k \<times> 'v \<times> alloc_error, handle) run option" where
  "try_insert_kv L handle key value s =
     (case handle of
        None \<Rightarrow> Some (try_insert_empty_map L key value s)
      | Some leaf_edge \<Rightarrow> try_insert_into_existing L leaf_edge key value s)"

section \<open>Entries\<close>

text \<open>The standard library's \<open>BTreeMap::entry\<close>: a search, without allocation.\<close>

datatype 'k entry = Occupied handle | Vacant (vacant_key: 'k) "handle option"

definition bt_entry :: "'k::linorder \<Rightarrow> ('k, 'v) bstate \<Rightarrow> ('e, 'k entry) outcome" where
  "bt_entry key s =
     (case bt_root s of
        None \<Rightarrow> Ok (Vacant key None)
      | Some r \<Rightarrow>
          map_ok (\<lambda>q. case q of Found hdl \<Rightarrow> Occupied hdl | GoDown hdl \<Rightarrow> Vacant key (Some hdl))
            (search_tree (bt_nodes s) key (nr_height r) (nr_node r)))"

text \<open>\<open>OccupiedEntry::insert\<close> swaps the value in its slot.\<close>

definition occupied_insert :: "handle \<Rightarrow> 'v \<Rightarrow> ('k, 'v) bstate \<Rightarrow> (('k, 'v) bstate, 'e, 'v) run" where
  "occupied_insert hdl value s =
     (case bt_nodes s (nr_node (h_ref hdl)) of
        None \<Rightarrow> (UB, s)
      | Some n \<Rightarrow>
          and_then (init_read (n_vals n) (h_idx hdl), s) (\<lambda>old s.
            (Ok old, s\<lparr>bt_nodes := (bt_nodes s)(nr_node (h_ref hdl) \<mapsto>
                         n\<lparr>n_vals := (n_vals n)[h_idx hdl := Some value]\<rparr>)\<rparr>)))"

definition vacant_try_insert_give_back ::
    "node_layouts \<Rightarrow> 'k \<Rightarrow> handle option \<Rightarrow> 'v \<Rightarrow> ('k, 'v) bstate \<Rightarrow>
     (('k, 'v) bstate, 'k \<times> 'v \<times> alloc_error, handle) run option" where
  "vacant_try_insert_give_back L key handle value s = try_insert_kv L handle key value s"

definition drop_pair :: "'k \<times> 'v \<times> 'e \<Rightarrow> 'e" where
  "drop_pair p = snd (snd p)"

definition vacant_try_insert ::
    "node_layouts \<Rightarrow> 'k \<Rightarrow> handle option \<Rightarrow> 'v \<Rightarrow> ('k, 'v) bstate \<Rightarrow>
     (('k, 'v) bstate, alloc_error, handle) run option" where
  "vacant_try_insert L key handle value s =
     map_option (map_err_run drop_pair) (vacant_try_insert_give_back L key handle value s)"

definition bt_try_insert_give_back ::
    "node_layouts \<Rightarrow> 'k::linorder \<Rightarrow> 'v \<Rightarrow> ('k, 'v) bstate \<Rightarrow>
     (('k, 'v) bstate, 'k \<times> 'v \<times> alloc_error, 'v option) run option" where
  "bt_try_insert_give_back L key value s =
     (case bt_entry key s of
        Ok (Occupied hdl) \<Rightarrow> Some (map_ok_run Some (occupied_insert hdl value s))
      | Ok (Vacant key' hdl) \<Rightarrow>
          map_option (map_ok_run (\<lambda>_. None)) (vacant_try_insert_give_back L key' hdl value s)
      | Err e \<Rightarrow> Some (Err e, s)
      | Panic msg \<Rightarrow> Some (Panic msg, s)
      | UB \<Rightarrow> Some (UB, s))"

definition bt_try_insert ::
    "node_layouts \<Rightarrow> 'k::linorder \<Rightarrow> 'v \<Rightarrow> ('k, 'v) bstate \<Rightarrow>
     (('k, 'v) bstate, alloc_error, 'v option) run option" where
  "bt_try_insert L key value s =
     (case bt_entry key s of
        Ok (Occupied hdl) \<Rightarrow> Some (map_ok_run Some (occupied_insert hdl value s))
      | Ok (Vacant key' hdl) \<Rightarrow> map_option (map_ok_run (\<lambda>_. None)) (vacant_try_insert L key' hdl value s)
      | Err e \<Rightarrow> Some (Err e, s)
      | Panic msg \<Rightarrow> Some (Panic msg, s)
      | UB \<Rightarrow> Some (UB, s))"

subsection \<open>Sets\<close>

definition set_try_insert ::
    "node_layouts \<Rightarrow> 'k::linorder \<Rightarrow> ('k, unit) bstate \<Rightarrow> (('k, unit) bstate, alloc_error, bool) run option" where
  "set_try_insert L x s = map_option (map_ok_run (\<lambda>prev. prev = None)) (bt_try_insert L x () s)"

definition set_try_insert_give_back ::
    "node_layouts \<Rightarrow> 'k::linorder \<Rightarrow> ('k, unit) bstate \<Rightarrow> (('k, unit) bstate, 'k \<times> alloc_error, bool) run option" where
  "set_try_insert_give_back L x s =
     map_option (\<lambda>r. map_err_run (\<lambda>(v, _, e). (v, e)) (map_ok_run (\<lambda>prev. prev = None) r))
       (bt_try_insert_give_back L x () s)"

subsection \<open>The entry methods\<close>

datatype 'e entry_with_error = EntryAlloc alloc_error | EntryClosure 'e

definition or_try_insert_give_back ::
    "node_layouts \<Rightarrow> 'k entry \<Rightarrow> 'v \<Rightarrow> ('k, 'v) bstate \<Rightarrow>
     (('k, 'v) bstate, 'k \<times> 'v \<times> alloc_error, handle) run option" where
  "or_try_insert_give_back L entry value s =
     (case entry of
        Occupied hdl \<Rightarrow> Some (Ok hdl, s)
      | Vacant key hdl \<Rightarrow> vacant_try_insert_give_back L key hdl value s)"

definition or_try_insert ::
    "node_layouts \<Rightarrow> 'k entry \<Rightarrow> 'v \<Rightarrow> ('k, 'v) bstate \<Rightarrow> (('k, 'v) bstate, alloc_error, handle) run option" where
  "or_try_insert L entry value s =
     map_option (map_err_run drop_pair) (or_try_insert_give_back L entry value s)"

text \<open>The closure runs first; it sees the key and may use the heap.\<close>

definition or_try_insert_with_key_give_back ::
    "node_layouts \<Rightarrow> 'k entry \<Rightarrow> ('k \<Rightarrow> heap \<Rightarrow> ('e, 'v) outcome \<times> heap) \<Rightarrow> ('k, 'v) bstate \<Rightarrow>
     (('k, 'v) bstate, 'k \<times> 'v option \<times> 'e entry_with_error, handle) run option" where
  "or_try_insert_with_key_give_back L entry f s =
     (case entry of
        Occupied hdl \<Rightarrow> Some (Ok hdl, s)
      | Vacant key hdl \<Rightarrow>
          (case f key (bt_heap s) of
             (Ok value, h) \<Rightarrow>
               map_option (map_err_run (\<lambda>(k, v, e). (k, Some v, EntryAlloc e)))
                 (vacant_try_insert_give_back L key hdl value (s\<lparr>bt_heap := h\<rparr>))
           | (Err e, h) \<Rightarrow> Some (Err (key, None, EntryClosure e), s\<lparr>bt_heap := h\<rparr>)
           | (Panic msg, h) \<Rightarrow> Some (Panic msg, s\<lparr>bt_heap := h\<rparr>)
           | (UB, h) \<Rightarrow> Some (UB, s\<lparr>bt_heap := h\<rparr>)))"

definition or_try_insert_with_give_back ::
    "node_layouts \<Rightarrow> 'k entry \<Rightarrow> (heap \<Rightarrow> ('e, 'v) outcome \<times> heap) \<Rightarrow> ('k, 'v) bstate \<Rightarrow>
     (('k, 'v) bstate, 'k \<times> 'v option \<times> 'e entry_with_error, handle) run option" where
  "or_try_insert_with_give_back L entry f s = or_try_insert_with_key_give_back L entry (\<lambda>_. f) s"

definition or_try_insert_with ::
    "node_layouts \<Rightarrow> 'k entry \<Rightarrow> (heap \<Rightarrow> ('e, 'v) outcome \<times> heap) \<Rightarrow> ('k, 'v) bstate \<Rightarrow>
     (('k, 'v) bstate, 'e entry_with_error, handle) run option" where
  "or_try_insert_with L entry f s =
     map_option (map_err_run drop_pair) (or_try_insert_with_give_back L entry f s)"

definition or_try_insert_with_key ::
    "node_layouts \<Rightarrow> 'k entry \<Rightarrow> ('k \<Rightarrow> heap \<Rightarrow> ('e, 'v) outcome \<times> heap) \<Rightarrow> ('k, 'v) bstate \<Rightarrow>
     (('k, 'v) bstate, 'e entry_with_error, handle) run option" where
  "or_try_insert_with_key L entry f s =
     map_option (map_err_run drop_pair) (or_try_insert_with_key_give_back L entry f s)"

end
