(* ===== verification/BTreeShape.thy ===== *)
theory BTreeShape
  imports BTreeCommit "HOL-Library.Multiset"
begin

text \<open>
  What the node store of \<open>BTreeNode\<close> represents. An abstract tree carries the address of each
  node; \<open>body_holds\<close> says that the store holds a tree, all links below its root included, and
  leaves the root's own link open, so that a subtree can be taken out and put back. The path from
  a node to the root is a list of frames. \<open>flat\<close> is the sequence of entries in order.
\<close>

section \<open>Trees\<close>

datatype ('k, 'v) btree =
  BT (baddr: addr) (bkvs: "('k \<times> 'v) list") (bkids: "('k, 'v) btree list")

fun addrs :: "('k, 'v) btree \<Rightarrow> addr list" where
  "addrs (BT a kvs ts) = a # concat (map addrs ts)"

abbreviation forest_addrs :: "('k, 'v) btree list \<Rightarrow> addr list" where
  "forest_addrs ts \<equiv> concat (map addrs ts)"

text \<open>Children and separators in turn; a leaf has separators only.\<close>

fun weave :: "'a list list \<Rightarrow> 'a list \<Rightarrow> 'a list" where
  "weave [] ks = ks"
| "weave (x # xs) [] = x @ concat xs"
| "weave (x # xs) (k # ks) = x @ k # weave xs ks"

fun flat :: "('k, 'v) btree \<Rightarrow> ('k \<times> 'v) list" where
  "flat (BT a kvs ts) = weave (map flat ts) kvs"

definition MIN_LEN :: nat where "MIN_LEN = 5"

text \<open>Balanced, and every node but the root between \<open>MIN_LEN\<close> and \<open>CAPACITY\<close> entries.\<close>

fun sub_shape :: "nat \<Rightarrow> ('k, 'v) btree \<Rightarrow> bool" where
  "sub_shape 0 (BT a kvs ts) \<longleftrightarrow> MIN_LEN \<le> length kvs \<and> length kvs \<le> CAPACITY \<and> ts = []"
| "sub_shape (Suc h) (BT a kvs ts) \<longleftrightarrow>
     MIN_LEN \<le> length kvs \<and> length kvs \<le> CAPACITY \<and> length ts = length kvs + 1 \<and>
     (\<forall>t \<in> set ts. sub_shape h t)"

fun root_shape :: "nat \<Rightarrow> ('k, 'v) btree \<Rightarrow> bool" where
  "root_shape 0 (BT a kvs ts) \<longleftrightarrow> 1 \<le> length kvs \<and> length kvs \<le> CAPACITY \<and> ts = []"
| "root_shape (Suc h) (BT a kvs ts) \<longleftrightarrow>
     1 \<le> length kvs \<and> length kvs \<le> CAPACITY \<and> length ts = length kvs + 1 \<and>
     (\<forall>t \<in> set ts. sub_shape h t)"

lemma sub_shape_root: "sub_shape h t \<Longrightarrow> root_shape h t"
  by (cases t; cases h) (auto simp: MIN_LEN_def)

lemma weave_split:
  assumes "length xs1 = length ks1 + 1" and "xs2 \<noteq> []"
  shows "weave (xs1 @ xs2) (ks1 @ k # ks2) = weave xs1 ks1 @ k # weave xs2 ks2"
  using assms
proof (induction ks1 arbitrary: xs1)
  case Nil
  then show ?case by (cases xs1) auto
next
  case (Cons a ks1)
  then show ?case by (cases xs1) auto
qed

lemma weave_insert:
  assumes "length xs1 = length ks1"
  shows "weave (xs1 @ (a @ k # b) # xs2) (ks1 @ ks2) = weave (xs1 @ a # b # xs2) (ks1 @ k # ks2)"
  using assms
proof (induction ks1 arbitrary: xs1)
  case Nil
  then show ?case by (cases ks2) auto
next
  case (Cons a ks1)
  then show ?case by (cases xs1) auto
qed

lemma weave_length:
  "length xs = length ks + 1 \<Longrightarrow> length ks \<le> length (weave xs ks)"
proof (induction ks arbitrary: xs)
  case (Cons k ks)
  then show ?case by (cases xs) fastforce+
qed simp

lemma weave_length_head: "length xs = length ks + 1 \<Longrightarrow> length (hd xs) + length ks \<le> length (weave xs ks)"
proof (induction ks arbitrary: xs)
  case Nil
  then show ?case by (cases xs) auto
next
  case (Cons k ks)
  then obtain x ys where xs: "xs = x # ys" and "length ys = length ks + 1" by (cases xs) auto
  with weave_length [of ys ks] show ?case by simp
qed

text \<open>A tree has more entries than levels below its root.\<close>

lemma sub_shape_height: "sub_shape h t \<Longrightarrow> h < length (flat t)"
proof (induction h arbitrary: t)
  case 0
  then show ?case by (cases t) (auto simp: MIN_LEN_def)
next
  case (Suc h)
  then obtain a kvs ts where t: "t = BT a kvs ts" by (cases t)
  with Suc.prems obtain u us where ts: "ts = u # us" by (cases ts) auto
  have "h < length (flat u)" using Suc t ts by auto
  moreover have "length (flat u) + length kvs \<le> length (flat t)"
    using weave_length_head [of "map flat ts" kvs] Suc.prems t ts by simp
  ultimately show ?case using Suc.prems t by (auto simp: MIN_LEN_def)
qed

lemma root_shape_height: "root_shape h t \<Longrightarrow> h < length (flat t)"
proof (cases h)
  case 0
  then show "root_shape h t \<Longrightarrow> ?thesis" by (cases t) auto
next
  case (Suc g)
  assume *: "root_shape h t"
  obtain a kvs ts where t: "t = BT a kvs ts" by (cases t)
  with * Suc obtain u us where ts: "ts = u # us" by (cases ts) auto
  have "g < length (flat u)" using * Suc t ts sub_shape_height [of g u] by auto
  moreover have "length (flat u) + length kvs \<le> length (flat t)"
    using weave_length_head [of "map flat ts" kvs] * Suc t ts by simp
  ultimately show ?thesis using * Suc t by auto
qed

section \<open>What the store holds\<close>

definition slots :: "'a option list \<Rightarrow> 'a list \<Rightarrow> bool" where
  "slots xs ys \<longleftrightarrow> length ys \<le> length xs \<and> take (length ys) xs = map Some ys"

definition node_body :: "('k, 'v) node \<Rightarrow> ('k \<times> 'v) list \<Rightarrow> addr list \<Rightarrow> bool" where
  "node_body n kvs es \<longleftrightarrow>
     n_len n = length kvs \<and> length (n_keys n) = CAPACITY \<and> length (n_vals n) = CAPACITY \<and>
     slots (n_keys n) (map fst kvs) \<and> slots (n_vals n) (map snd kvs) \<and>
     (es = [] \<or> length (n_edges n) = CAPACITY + 1) \<and> slots (n_edges n) es"

definition linked :: "('k, 'v) nodes \<Rightarrow> addr \<Rightarrow> addr \<Rightarrow> nat \<Rightarrow> bool" where
  "linked ns c a i \<longleftrightarrow> (\<exists>n. ns c = Some n \<and> n_parent n = Some a \<and> n_parent_idx n = Some i)"

definition unlinked :: "('k, 'v) nodes \<Rightarrow> addr \<Rightarrow> bool" where
  "unlinked ns c \<longleftrightarrow> (\<exists>n. ns c = Some n \<and> n_parent n = None)"

fun body_holds :: "('k, 'v) nodes \<Rightarrow> ('k, 'v) btree \<Rightarrow> bool"
  and kids_hold :: "('k, 'v) nodes \<Rightarrow> addr \<Rightarrow> nat \<Rightarrow> ('k, 'v) btree list \<Rightarrow> bool" where
  "body_holds ns (BT a kvs ts) \<longleftrightarrow>
     (\<exists>n. ns a = Some n \<and> node_body n kvs (map baddr ts)) \<and> kids_hold ns a 0 ts"
| "kids_hold ns a i [] \<longleftrightarrow> True"
| "kids_hold ns a i (t # ts) \<longleftrightarrow>
     linked ns (baddr t) a i \<and> body_holds ns t \<and> kids_hold ns a (Suc i) ts"

lemma kids_hold_append [simp]:
  "kids_hold ns a i (ts @ us) \<longleftrightarrow> kids_hold ns a i ts \<and> kids_hold ns a (i + length ts) us"
  by (induction ts arbitrary: i) auto

lemma kids_hold_bodies: "kids_hold ns a i ts \<Longrightarrow> t \<in> set ts \<Longrightarrow> body_holds ns t"
  by (induction ts arbitrary: i) auto

lemma baddr_in_addrs [simp]: "baddr t \<in> set (addrs t)"
  by (cases t) auto

lemma addrs_eq: "addrs t = baddr t # forest_addrs (bkids t)"
  by (cases t) auto

lemma body_holds_frame:
  "(\<And>x. x \<in> set (addrs t) \<Longrightarrow> ns' x = ns x) \<Longrightarrow> body_holds ns t \<Longrightarrow> body_holds ns' t"
  "(\<And>x. x \<in> set (forest_addrs ts) \<Longrightarrow> ns' x = ns x) \<Longrightarrow> kids_hold ns a i ts \<Longrightarrow> kids_hold ns' a i ts"
proof (induction ns t and ns a i ts rule: body_holds_kids_hold.induct)
  case (1 ns a kvs ts)
  have "kids_hold ns' a 0 ts"
  proof (rule "1.IH")
    show "ns' x = ns x" if "x \<in> set (forest_addrs ts)" for x
      by (rule "1.prems"(1)) (simp only: addrs.simps list.set that insert_iff simp_thms)
  qed (use "1.prems"(2) in simp)
  moreover have "ns' a = ns a" by (rule "1.prems"(1)) simp
  ultimately show ?case using "1.prems"(2) by simp
next
  case (3 ns a i t ts)
  have "ns' (baddr t) = ns (baddr t)" by (rule "3.prems"(1)) simp
  then have "linked ns' (baddr t) a i" using "3.prems"(2) by (simp add: linked_def)
  moreover have "body_holds ns' t"
  proof (rule "3.IH"(1))
    show "ns' x = ns x" if "x \<in> set (addrs t)" for x by (rule "3.prems"(1)) (simp only: that list.map concat.simps set_append Un_iff simp_thms)
  qed (use "3.prems"(2) in simp)
  moreover have "kids_hold ns' a (Suc i) ts"
  proof (rule "3.IH"(2))
    show "ns' x = ns x" if "x \<in> set (forest_addrs ts)" for x by (rule "3.prems"(1)) (simp only: that list.map concat.simps set_append Un_iff simp_thms)
  qed (use "3.prems"(2) in simp)
  ultimately show ?case by simp
qed simp

text \<open>The root's own link is not part of the body.\<close>

definition with_link :: "addr \<Rightarrow> nat \<Rightarrow> ('k, 'v) node \<Rightarrow> ('k, 'v) node" where
  "with_link a i n = n\<lparr>n_parent := Some a, n_parent_idx := Some i\<rparr>"

lemma node_body_with_link [simp]: "node_body (with_link a i n) kvs es = node_body n kvs es"
  by (simp add: node_body_def with_link_def)

lemma body_holds_relinked:
  assumes "body_holds ns t" and "ns (baddr t) = Some n" and "distinct (addrs t)"
  shows "body_holds (ns(baddr t \<mapsto> with_link a i n)) t"
proof (cases t)
  case (BT c kvs ts)
  have "kids_hold (ns(c \<mapsto> with_link a i n)) c 0 ts"
  proof (rule body_holds_frame(2))
    show "kids_hold ns c 0 ts" using assms(1) BT by simp
    show "(ns(c \<mapsto> with_link a i n)) x = ns x" if "x \<in> set (forest_addrs ts)" for x
      using that assms(3) BT by auto
  qed
  with assms BT show ?thesis by auto
qed

lemma body_holds_root: "body_holds ns t \<Longrightarrow> \<exists>n. ns (baddr t) = Some n"
  by (cases t) auto

text \<open>What a node stores, its link and its edges apart.\<close>

definition same_body :: "('k, 'v) nodes \<Rightarrow> ('k, 'v) nodes \<Rightarrow> addr \<Rightarrow> bool" where
  "same_body ns ns' x \<longleftrightarrow>
     map_option (\<lambda>n. (n_len n, n_keys n, n_vals n)) (ns' x) = map_option (\<lambda>n. (n_len n, n_keys n, n_vals n)) (ns x)"

lemma same_body_trans: "same_body ns ns1 x \<Longrightarrow> same_body ns1 ns2 x \<Longrightarrow> same_body ns ns2 x"
  by (simp add: same_body_def)

lemma same_body_eq: "ns' x = ns x \<Longrightarrow> same_body ns ns' x"
  by (simp add: same_body_def)

subsection \<open>Repairing links\<close>

lemma relink_loop_holds:
  assumes "ns p = Some n" and "distinct (p # forest_addrs ts)"
    and "\<And>t. t \<in> set ts \<Longrightarrow> body_holds ns t"
    and "i + length ts \<le> length (n_edges n)"
    and "\<And>j. j < length ts \<Longrightarrow> n_edges n ! (i + j) = Some (baddr (ts ! j))"
  shows "\<exists>ns'. (relink_loop p [i..<i + length ts] ns :: (('k, 'v) nodes, 'e, unit) run) = (Ok (), ns') \<and>
    kids_hold ns' p i ts \<and> (\<forall>x. x \<notin> baddr ` set ts \<longrightarrow> ns' x = ns x) \<and> (\<forall>x. same_body ns ns' x)"
  using assms
proof (induction ts arbitrary: i ns)
  case (Cons t ts)
  obtain c where c: "ns (baddr t) = Some c" using Cons.prems(3) [of t] body_holds_root by fastforce
  let ?ns1 = "ns(baddr t \<mapsto> with_link p i c)"
  have apart: "p \<noteq> baddr t" "\<And>u x. u \<in> set ts \<Longrightarrow> x \<in> set (addrs u) \<Longrightarrow> x \<notin> set (addrs t)"
    using Cons.prems(2) baddr_in_addrs [of t] by auto
  have edge: "(init_read (n_edges n) i :: ('e, addr) outcome) = Ok (baddr t)"
    using Cons.prems(4) Cons.prems(5) [of 0] by (simp add: init_read_def)
  have "\<exists>ns'. (relink_loop p [Suc i..<Suc i + length ts] ?ns1 :: (('k, 'v) nodes, 'e, unit) run) = (Ok (), ns') \<and>
      kids_hold ns' p (Suc i) ts \<and> (\<forall>x. x \<notin> baddr ` set ts \<longrightarrow> ns' x = ?ns1 x) \<and> (\<forall>x. same_body ?ns1 ns' x)"
  proof (rule Cons.IH)
    show "?ns1 p = Some n" using Cons.prems(1) apart(1) by simp
    show "distinct (p # forest_addrs ts)" using Cons.prems(2) by auto
    fix u assume u: "u \<in> set ts"
    show "body_holds ?ns1 u"
    proof (rule body_holds_frame(1))
      show "body_holds ns u" using Cons.prems(3) u by simp
      fix x assume "x \<in> set (addrs u)"
      then have "x \<notin> set (addrs t)" by (rule apart(2) [OF u])
      then show "?ns1 x = ns x" using baddr_in_addrs [of t] by auto
    qed
  next
    show "Suc i + length ts \<le> length (n_edges n)" using Cons.prems(4) by simp
    fix j assume "j < length ts"
    then show "n_edges n ! (Suc i + j) = Some (baddr (ts ! j))" using Cons.prems(5) [of "Suc j"] by simp
  qed
  then obtain ns' where ns':
    "(relink_loop p [Suc i..<Suc i + length ts] ?ns1 :: (('k, 'v) nodes, 'e, unit) run) = (Ok (), ns')"
    "kids_hold ns' p (Suc i) ts" "\<And>x. x \<notin> baddr ` set ts \<Longrightarrow> ns' x = ?ns1 x" "\<And>x. same_body ?ns1 ns' x" by blast
  have keep: "ns' x = ?ns1 x" if "x \<in> set (addrs t)" for x
  proof (rule ns'(3), rule)
    assume "x \<in> baddr ` set ts"
    then show False using that apart(2) baddr_in_addrs by blast
  qed
  have dt: "distinct (addrs t)" using Cons.prems(2) by simp
  have "body_holds ?ns1 t" using Cons.prems(3) [of t] c dt by (simp add: body_holds_relinked)
  then have "body_holds ns' t" by (rule body_holds_frame(1) [rotated]) (rule keep)
  moreover have "linked ns' (baddr t) p i" using keep [of "baddr t"] by (simp add: linked_def with_link_def)
  moreover have "[i..<i + length (t # ts)] = i # [Suc i..<Suc i + length ts]"
    using upt_conv_Cons [of i "i + length (t # ts)"] by simp
  moreover have "(set_parent_link (baddr t) p i ns :: (('k, 'v) nodes, 'e, unit) run) = (Ok (), ?ns1)"
    using c by (simp add: set_parent_link_def with_link_def)
  moreover have "same_body ns ns' x" for x
    using c ns'(4) [of x] by (auto simp: same_body_def with_link_def split: if_splits)
  ultimately show ?case
    using ns'(1-3) Cons.prems(1) edge by (intro exI [of _ ns']) auto
qed (auto intro: same_body_eq)

end
