(* ===== verification/BTreeSurgery.thy ===== *)
theory BTreeSurgery
  imports BTreeShape
begin

text \<open>
  What the pointer surgery of \<open>BTreeNode\<close> does to the tree a store holds: insertion into a leaf,
  insertion of a separator and a child, and the two splits. Each lemma also says which nodes are
  left alone.
\<close>

section \<open>Slots\<close>

abbreviation ins_at :: "nat \<Rightarrow> 'a \<Rightarrow> 'a list \<Rightarrow> 'a list" where
  "ins_at i y ys \<equiv> take i ys @ y # drop i ys"

lemma length_ptr_copy [simp]:
  "dst + c \<le> length xs \<Longrightarrow> src + c \<le> length xs \<Longrightarrow> length (ptr_copy src dst c xs) = length xs"
  by (simp add: ptr_copy_def)

lemma length_copy_front [simp]:
  "off + c \<le> length from \<Longrightarrow> c \<le> length to \<Longrightarrow> length (copy_front from off c to) = length to"
  by (simp add: copy_front_def)

lemma slots_take: "slots xs ys \<Longrightarrow> n \<le> length ys \<Longrightarrow> slots xs (take n ys)"
  by (auto simp: slots_def take_map min_absorb2 dest: arg_cong [where f = "take n"])

lemma slots_insert:
  assumes "slots xs ys" and "length ys < length xs" and "i \<le> length ys"
  shows "slots ((if i < length ys then ptr_copy i (i + 1) (length ys - i) xs else xs)[i := Some y])
    (ins_at i y ys)"
proof (cases "i < length ys")
  case True
  have pre: "take i xs = map Some (take i ys)" "take (length ys - i) (drop i xs) = map Some (drop i ys)"
    using assms(1,3) by (auto simp: slots_def take_map drop_map min_absorb1 min_absorb2 simp flip: drop_take
        dest: arg_cong [where f = "take i"] arg_cong [where f = "drop i"])
  have "take (i + 1) xs = take i xs @ [xs ! i]" using True assms(2) by (simp add: take_Suc_conv_app_nth)
  then have "(ptr_copy i (i + 1) (length ys - i) xs)[i := Some y] =
      take i xs @ Some y # take (length ys - i) (drop i xs) @ drop (Suc (length ys)) xs"
    using True assms(2) by (simp add: ptr_copy_def list_update_append)
  moreover have "Suc (length ys) - i = Suc (length ys - i)" using True by simp
  ultimately show ?thesis using True assms by (simp add: slots_def pre)
next
  case False
  with assms have "i = length ys" by simp
  with assms show ?thesis by (simp add: slots_def take_Suc_conv_app_nth)
qed

lemma slots_copy_front:
  assumes "slots from ys" and "n \<le> length ys" and "length ys - n \<le> length to"
  shows "slots (copy_front from n (length ys - n) to) (drop n ys)"
proof -
  have "take (length ys - n) (drop n from) = map Some (drop n ys)"
    using assms(1) by (simp add: slots_def drop_map flip: drop_take)
  with assms show ?thesis by (simp add: slots_def copy_front_def)
qed

lemma slots_read: "slots xs ys \<Longrightarrow> i < length ys \<Longrightarrow> init_read xs i = Ok (ys ! i)"
proof -
  assume s: "slots xs ys" and i: "i < length ys"
  then have "take (length ys) xs ! i = map Some ys ! i" by (simp add: slots_def)
  then have "xs ! i = Some (ys ! i)" using i by (simp only: nth_take nth_map)
  moreover have "i < length xs" using s i by (simp add: slots_def)
  ultimately show "init_read xs i = Ok (ys ! i)" by (simp add: init_read_def)
qed

lemma slots_nth: "slots xs ys \<Longrightarrow> i < length ys \<Longrightarrow> xs ! i = Some (ys ! i)"
  by (drule (1) slots_read) (auto simp: init_read_def split: if_splits option.splits)

section \<open>Insertion into a node with room\<close>

lemma ins_at_map: "map f (ins_at i y ys) = ins_at i (f y) (map f ys)"
  by (simp add: take_map drop_map)

lemma slots_insert_map:
  assumes "slots xs (map f kvs)" and "length kvs < length xs" and "i \<le> length kvs"
  shows "slots ((if i < length kvs then ptr_copy i (i + 1) (length kvs - i) xs else xs)[i := Some (f e)])
    (map f (ins_at i e kvs))"
  using slots_insert [of xs "map f kvs" i "f e"] assms by (simp only: length_map ins_at_map)

lemma leaf_slice_insert_node:
  assumes "ns p = Some n" and "node_body n kvs []" and "length kvs < CAPACITY" and "i \<le> length kvs"
  obtains n' where "(leaf_slice_insert p i k v ns :: (('k, 'v) nodes, 'e, unit) run) = (Ok (), ns(p \<mapsto> n'))"
    and "node_body n' (ins_at i (k, v) kvs) []" and "n_parent n' = n_parent n"
    and "n_parent_idx n' = n_parent_idx n"
proof -
  have l: "n_len n = length kvs" "length (n_keys n) = CAPACITY" "length (n_vals n) = CAPACITY"
    "slots (n_keys n) (map fst kvs)" "slots (n_vals n) (map snd kvs)"
    using assms(2) by (auto simp: node_body_def)
  let ?ks = "(if i < length kvs then ptr_copy i (i + 1) (length kvs - i) (n_keys n) else n_keys n)[i := Some k]"
  let ?vs = "(if i < length kvs then ptr_copy i (i + 1) (length kvs - i) (n_vals n) else n_vals n)[i := Some v]"
  let ?n = "n\<lparr>n_keys := ?ks, n_vals := ?vs, n_len := length kvs + 1\<rparr>"
  have "slots ?ks (map fst (ins_at i (k, v) kvs))" "slots ?vs (map snd (ins_at i (k, v) kvs))"
    using slots_insert_map [OF l(4), of i "(k, v)"] slots_insert_map [OF l(5), of i "(k, v)"] l(2,3) assms(3,4)
    by (simp_all only: fst_conv snd_conv)
  then have "node_body ?n (ins_at i (k, v) kvs) []"
    using l assms(3,4) by (simp add: node_body_def slots_def)
  moreover have "(leaf_slice_insert p i k v ns :: (('k, 'v) nodes, 'e, unit) run) = (Ok (), ns(p \<mapsto> ?n))"
    using assms l(1) by (simp add: leaf_slice_insert_def Let_def)
  ultimately show thesis using that [of ?n] by simp
qed

lemma internal_insert_fit_node:
  assumes "ns p = Some n" and "node_body n kvs es" and "length kvs < CAPACITY" and "i \<le> length kvs"
    and "length es = length kvs + 1"
  obtains n' where
    "(internal_insert_fit p i k v c ns :: (('k, 'v) nodes, 'e, unit) run) = (Ok (), ns(p \<mapsto> n'))"
    and "node_body n' (ins_at i (k, v) kvs) (ins_at (i + 1) c es)" and "n_parent n' = n_parent n"
    and "n_parent_idx n' = n_parent_idx n"
proof -
  have l: "n_len n = length kvs" "length (n_keys n) = CAPACITY" "length (n_vals n) = CAPACITY"
    "slots (n_keys n) (map fst kvs)" "slots (n_vals n) (map snd kvs)"
    "length (n_edges n) = CAPACITY + 1" "slots (n_edges n) es"
    using assms(2,5) by (auto simp: node_body_def)
  let ?ks = "(if i < length kvs then ptr_copy i (i + 1) (length kvs - i) (n_keys n) else n_keys n)[i := Some k]"
  let ?vs = "(if i < length kvs then ptr_copy i (i + 1) (length kvs - i) (n_vals n) else n_vals n)[i := Some v]"
  let ?es = "(if i < length kvs then ptr_copy (i + 1) (i + 2) (length kvs - i) (n_edges n)
    else n_edges n)[i + 1 := Some c]"
  let ?n = "n\<lparr>n_keys := ?ks, n_vals := ?vs, n_edges := ?es, n_len := length kvs + 1\<rparr>"
  have "slots ?ks (map fst (ins_at i (k, v) kvs))" "slots ?vs (map snd (ins_at i (k, v) kvs))"
    using slots_insert_map [OF l(4), of i "(k, v)"] slots_insert_map [OF l(5), of i "(k, v)"] l(2,3) assms(3,4)
    by (simp_all only: fst_conv snd_conv)
  moreover have "slots ?es (ins_at (i + 1) c es)"
  proof -
    have "length es - (i + 1) = length kvs - i" "i + 1 < length es \<longleftrightarrow> i < length kvs" "i + 1 + 1 = i + 2"
      "length es < length (n_edges n)" "i + 1 \<le> length es"
      using assms(3,4,5) l(6) by auto
    with slots_insert [OF l(7), of "i + 1" c] show ?thesis by (simp only: simp_thms)
  qed
  ultimately have "node_body ?n (ins_at i (k, v) kvs) (ins_at (i + 1) c es)"
    using l assms(3,4) by (simp add: node_body_def)
  moreover have "(internal_insert_fit p i k v c ns :: (('k, 'v) nodes, 'e, unit) run) = (Ok (), ns(p \<mapsto> ?n))"
    using assms l(1) by (simp add: internal_insert_fit_def Let_def)
  ultimately show thesis using that [of ?n] by simp
qed

subsection \<open>With the links of the children\<close>

definition same_link :: "('k, 'v) nodes \<Rightarrow> ('k, 'v) nodes \<Rightarrow> addr \<Rightarrow> bool" where
  "same_link ns ns' p \<longleftrightarrow>
     (\<exists>n n'. ns p = Some n \<and> ns' p = Some n' \<and> n_parent n' = n_parent n \<and> n_parent_idx n' = n_parent_idx n)"

lemma same_link_trans: "same_link ns ns1 p \<Longrightarrow> same_link ns1 ns2 p \<Longrightarrow> same_link ns ns2 p"
  by (auto simp: same_link_def)

lemma same_link_linked: "same_link ns ns' p \<Longrightarrow> linked ns' p a i = linked ns p a i"
  by (auto simp: same_link_def linked_def)

lemma same_link_unlinked: "same_link ns ns' p \<Longrightarrow> unlinked ns' p = unlinked ns p"
  by (auto simp: same_link_def unlinked_def)

lemma baddr_notin: "x \<notin> set (forest_addrs ts) \<Longrightarrow> x \<notin> baddr ` set ts"
  by (auto intro: baddr_in_addrs)

lemma set_forest_take_drop:
  "set (forest_addrs ts) = set (forest_addrs (take n ts)) \<union> set (forest_addrs (drop n ts))"
  by (metis append_take_drop_id concat_append map_append set_append)

lemma distinct_forest_take_drop:
  "distinct (forest_addrs ts) \<Longrightarrow> distinct (forest_addrs (take n ts)) \<and> distinct (forest_addrs (drop n ts)) \<and>
   set (forest_addrs (take n ts)) \<inter> set (forest_addrs (drop n ts)) = {}"
  by (metis append_take_drop_id concat_append distinct_append map_append)

lemma insert_and_relink_holds:
  assumes body: "body_holds ns (BT p kvs ts)" "body_holds ns r"
    and len: "length kvs < CAPACITY" "length ts = length kvs + 1" "i \<le> length kvs"
    and apart: "distinct (addrs (BT p kvs ts) @ addrs r)"
  shows "\<exists>ns'. (insert_and_relink p i kv (baddr r) ns :: (('k, 'v) nodes, 'e, unit) run) = (Ok (), ns') \<and>
    body_holds ns' (BT p (ins_at i kv kvs) (ins_at (i + 1) r ts)) \<and> same_link ns ns' p \<and>
    (\<forall>x. x \<notin> insert p (baddr ` set (r # drop (i + 1) ts)) \<longrightarrow> ns' x = ns x) \<and>
    (\<forall>x. x \<noteq> p \<longrightarrow> same_body ns ns' x)"
proof -
  obtain n where n: "ns p = Some n" "node_body n kvs (map baddr ts)" and kids: "kids_hold ns p 0 ts"
    using body(1) by auto
  obtain n' where fit:
      "(internal_insert_fit p i (fst kv) (snd kv) (baddr r) ns :: (('k, 'v) nodes, 'e, unit) run) = (Ok (), ns(p \<mapsto> n'))"
      "node_body n' (ins_at i (fst kv, snd kv) kvs) (ins_at (i + 1) (baddr r) (map baddr ts))"
      "n_parent n' = n_parent n" "n_parent_idx n' = n_parent_idx n"
    by (rule internal_insert_fit_node [where 'e = 'e and ns = ns and p = p and n = n and kvs = kvs and
          es = "map baddr ts" and i = i and k = "fst kv" and v = "snd kv" and c = "baddr r"])
      (simp_all only: n len length_map)
  let ?ns1 = "ns(p \<mapsto> n')"
  let ?us = "r # drop (i + 1) ts"
  have p: "p \<notin> set (forest_addrs ts)" "p \<notin> set (addrs r)" using apart by auto
  have slots': "slots (n_edges n') (map baddr (ins_at (i + 1) r ts))"
    using fit(2) by (simp only: node_body_def ins_at_map)
  have "\<exists>ns'. (relink_loop p [i + 1..<i + 1 + length ?us] ?ns1 :: (('k, 'v) nodes, 'e, unit) run) = (Ok (), ns') \<and>
      kids_hold ns' p (i + 1) ?us \<and> (\<forall>x. x \<notin> baddr ` set ?us \<longrightarrow> ns' x = ?ns1 x) \<and> (\<forall>x. same_body ?ns1 ns' x)"
  proof (rule relink_loop_holds)
    show "?ns1 p = Some n'" by simp
    show "distinct (p # forest_addrs ?us)"
      using apart distinct_forest_take_drop [of ts "i + 1"] set_forest_take_drop [of ts "i + 1"] by auto
    show "i + 1 + length ?us \<le> length (n_edges n')"
      using slots' len by (simp add: slots_def)
    fix j assume "j < length ?us"
    then show "n_edges n' ! (i + 1 + j) = Some (baddr (?us ! j))"
      using slots_nth [OF slots', of "i + 1 + j"] len by (cases j) (simp_all add: nth_append)
  next
    fix u assume "u \<in> set ?us"
    then have "body_holds ns u" and "u = r \<or> u \<in> set ts"
      using body(2) kids_hold_bodies [OF kids] by (auto dest: in_set_dropD)
    then show "body_holds ?ns1 u"
      using p by (intro body_holds_frame(1) [of u ?ns1 ns]) auto
  qed
  then obtain ns' where ns': "(relink_loop p [i + 1..<i + 1 + length ?us] ?ns1 :: (('k, 'v) nodes, 'e, unit) run) = (Ok (), ns')"
      "kids_hold ns' p (i + 1) ?us" "\<And>x. x \<notin> baddr ` set ?us \<Longrightarrow> ns' x = ?ns1 x" "\<And>x. same_body ?ns1 ns' x" by blast
  have pn: "ns' p = Some n'"
    using p baddr_notin [of p ts] by (subst ns'(3)) (auto dest: in_set_dropD)
  have "kids_hold ns' p 0 (take (i + 1) ts)"
  proof (rule body_holds_frame(2))
    have "kids_hold ns p 0 (take (i + 1) ts @ drop (i + 1) ts)" using kids by (simp only: append_take_drop_id)
    then show "kids_hold ns p 0 (take (i + 1) ts)" by (simp only: kids_hold_append)
    fix x assume x: "x \<in> set (forest_addrs (take (i + 1) ts))"
    then have "x \<notin> set (forest_addrs (drop (i + 1) ts))" "x \<in> set (forest_addrs ts)"
      using apart distinct_forest_take_drop [of ts "i + 1"] set_forest_take_drop [of ts "i + 1"] by auto
    then have "x \<notin> baddr ` set ?us" "x \<noteq> p"
      using baddr_notin [of x "drop (i + 1) ts"] apart baddr_in_addrs [of r] by auto
    then show "ns' x = ns x" using ns'(3) by simp
  qed
  moreover have "length (take (i + 1) ts) = i + 1" using len by simp
  ultimately have "kids_hold ns' p 0 (ins_at (i + 1) r ts)"
    using ns'(2) by (simp only: kids_hold_append add_0)
  then have "body_holds ns' (BT p (ins_at i kv kvs) (ins_at (i + 1) r ts))"
    using pn fit(2) by (simp only: body_holds.simps ins_at_map prod.collapse) blast
  moreover have "same_link ns ns' p" using n(1) pn fit(3,4) by (auto simp: same_link_def)
  moreover have "(insert_and_relink p i kv (baddr r) ns :: (('k, 'v) nodes, 'e, unit) run) = (Ok (), ns')"
  proof -
    have "n_len n = length kvs" "checked_add (length kvs) 1 = Some (length kvs + 1)"
      using n(2) len(1) by (auto simp: node_body_def CAPACITY_def usize_max_def)
    moreover have "Suc (length kvs + 1) = i + 1 + length ?us" using len by simp
    ultimately show ?thesis
      using n(1) fit(1) ns'(1) by (simp only: insert_and_relink_def correct_parent_links_def option.case and_then.simps)
  qed
  moreover have "\<forall>x. x \<notin> insert p (baddr ` set ?us) \<longrightarrow> ns' x = ns x" using ns'(3) by simp
  moreover have "\<forall>x. x \<noteq> p \<longrightarrow> same_body ns ns' x"
    using ns'(4) by (auto simp: same_body_def)
  ultimately show ?thesis by blast
qed

section \<open>Splitting\<close>

lemma take_ins_ge: "i \<le> s \<Longrightarrow> s \<le> length ys \<Longrightarrow> take (s + 1) (ins_at i y ys) = ins_at i y (take s ys)"
  by (simp add: min_absorb1 min_absorb2 Suc_diff_le take_drop)

lemma drop_ins_ge: "i \<le> s \<Longrightarrow> s \<le> length ys \<Longrightarrow> drop (s + 1) (ins_at i y ys) = drop s ys"
  by (simp add: min_absorb2 Suc_diff_le)

lemma take_ins_lt: "s \<le> i \<Longrightarrow> i \<le> length ys \<Longrightarrow> take s (ins_at i y ys) = take s ys"
  by (simp add: min_absorb1 min_absorb2)

lemma drop_ins_lt: "s \<le> i \<Longrightarrow> i \<le> length ys \<Longrightarrow> drop s (ins_at i y ys) = ins_at (i - s) y (drop s ys)"
  by (simp add: min_absorb2 drop_take)

lemma nth_ins_ge: "i \<le> s \<Longrightarrow> s < length ys \<Longrightarrow> ins_at i y ys ! (s + 1) = ys ! s"
  by (simp add: nth_append min_absorb2 Suc_diff_le)

lemma nth_ins_lt: "s < i \<Longrightarrow> i \<le> length ys \<Longrightarrow> ins_at i y ys ! s = ys ! s"
  by (simp add: nth_append min_absorb2)

text \<open>
  Where the \<open>CAPACITY + 1\<close> entries of an overfull node are cut: before or after the one in the
  middle. \<open>splitpoint\<close> cuts the full node so that the insertion makes it so.
\<close>

definition cut_at :: "nat \<Rightarrow> nat" where
  "cut_at i = (if i < 5 \<or> i = 6 then 5 else 6)"

lemma splitpoint_cases:
  obtains (left) sp where "splitpoint i = (sp, LeftSide i)" and "i \<le> sp" and "cut_at i = sp + 1"
  | (right) sp where "splitpoint i = (sp, RightSide (i - (sp + 1)))" and "sp < i" and "cut_at i = sp"
  by (cases "i < 5"; cases "i = 5"; cases "i = 6")
    (auto simp: splitpoint_def cut_at_def KV_IDX_CENTER_def EDGE_IDX_LEFT_OF_CENTER_def
      EDGE_IDX_RIGHT_OF_CENTER_def)

lemma cut_bounds: "5 \<le> cut_at i" "cut_at i \<le> 6"
  by (simp_all add: cut_at_def)

lemma splitpoint_bound: "splitpoint i = (sp, side) \<Longrightarrow> sp \<le> 6"
  by (auto simp: splitpoint_def KV_IDX_CENTER_def split: if_splits)

definition blank :: "('k, 'v) node \<Rightarrow> bool" where
  "blank m \<longleftrightarrow> length (n_keys m) = CAPACITY \<and> length (n_vals m) = CAPACITY"

definition blank_internal :: "('k, 'v) node \<Rightarrow> bool" where
  "blank_internal m \<longleftrightarrow> blank m \<and> length (n_edges m) = CAPACITY + 1"

lemma blank_empty [simp]: "blank empty_leaf" "blank_internal empty_internal"
  by (simp_all add: blank_def blank_internal_def empty_leaf_def empty_internal_def)

lemma copy_right_half_leaf_node:
  assumes "ns p = Some n" and "ns q = Some m" and "p \<noteq> q" and "node_body n kvs []"
    and "length kvs = CAPACITY" and "sp \<le> 6" and "blank m"
  obtains n' m' where
    "(copy_right_half_leaf p q sp ns :: (('k, 'v) nodes, 'e, unit) run) = (Ok (), ns(q \<mapsto> m', p \<mapsto> n'))"
    and "node_body n' (take sp kvs) []" and "node_body m' (drop (sp + 1) kvs) []"
    and "n_parent n' = n_parent n" and "n_parent_idx n' = n_parent_idx n"
proof -
  let ?c = "CAPACITY - sp - 1"
  let ?m = "m\<lparr>n_len := ?c, n_keys := copy_front (n_keys n) (sp + 1) ?c (n_keys m),
    n_vals := copy_front (n_vals n) (sp + 1) ?c (n_vals m)\<rparr>"
  let ?n = "n\<lparr>n_len := sp\<rparr>"
  have sp: "sp + 1 \<le> CAPACITY" "0 < ?c" "sp + 1 + ?c = CAPACITY" using assms(6) by (simp_all add: CAPACITY_def)
  have l: "n_len n = CAPACITY" "length (n_keys n) = CAPACITY" "length (n_vals n) = CAPACITY"
    "slots (n_keys n) (map fst kvs)" "slots (n_vals n) (map snd kvs)"
    using assms(4,5) by (auto simp: node_body_def)
  have "slots (copy_front (n_keys n) (sp + 1) ?c (n_keys m)) (map fst (drop (sp + 1) kvs))"
    "slots (copy_front (n_vals n) (sp + 1) ?c (n_vals m)) (map snd (drop (sp + 1) kvs))"
    using slots_copy_front [OF l(4), of "sp + 1" "n_keys m"] slots_copy_front [OF l(5), of "sp + 1" "n_vals m"]
      sp assms(5,7) by (simp_all add: drop_map blank_def)
  then have "node_body ?m (drop (sp + 1) kvs) []"
    using sp l assms(5,7) by (simp add: node_body_def blank_def) (simp add: slots_def)
  moreover have "node_body ?n (take sp kvs) []"
    using slots_take [OF l(4), of sp] slots_take [OF l(5), of sp] l sp assms(5)
    by (simp add: node_body_def take_map) (simp add: slots_def)
  moreover have "(copy_right_half_leaf p q sp ns :: (('k, 'v) nodes, 'e, unit) run) = (Ok (), ns(q \<mapsto> ?m, p \<mapsto> ?n))"
    using assms(1,2) l(1) sp(2) by (simp add: copy_right_half_leaf_def Let_def)
  ultimately show thesis using that [of ?m ?n] by simp
qed

lemma copy_right_half_internal_node:
  assumes "ns p = Some n" and "ns q = Some m" and "p \<noteq> q" and "node_body n kvs es"
    and "length kvs = CAPACITY" and "length es = CAPACITY + 1" and "sp \<le> 6" and "blank_internal m"
  obtains n' m' where
    "(copy_right_half_internal p q sp ns :: (('k, 'v) nodes, 'e, unit) run) = (Ok (), ns(q \<mapsto> m', p \<mapsto> n'))"
    and "node_body n' (take sp kvs) (take (sp + 1) es)" and "node_body m' (drop (sp + 1) kvs) (drop (sp + 1) es)"
    and "n_parent n' = n_parent n" and "n_parent_idx n' = n_parent_idx n"
proof -
  let ?c = "CAPACITY - sp - 1"
  let ?m = "m\<lparr>n_len := ?c, n_keys := copy_front (n_keys n) (sp + 1) ?c (n_keys m),
    n_vals := copy_front (n_vals n) (sp + 1) ?c (n_vals m),
    n_edges := copy_front (n_edges n) (sp + 1) (?c + 1) (n_edges m)\<rparr>"
  let ?n = "n\<lparr>n_len := sp\<rparr>"
  have sp: "sp + 1 \<le> CAPACITY" "0 < ?c" "sp + 1 + ?c = CAPACITY" using assms(7) by (simp_all add: CAPACITY_def)
  have l: "n_len n = CAPACITY" "length (n_keys n) = CAPACITY" "length (n_vals n) = CAPACITY"
    "slots (n_keys n) (map fst kvs)" "slots (n_vals n) (map snd kvs)"
    "length (n_edges n) = CAPACITY + 1" "slots (n_edges n) es"
    using assms(4,5,6) by (auto simp: node_body_def)
  have m: "length (n_keys m) = CAPACITY" "length (n_vals m) = CAPACITY" "length (n_edges m) = CAPACITY + 1"
    using assms(8) by (auto simp: blank_internal_def blank_def)
  have "slots (copy_front (n_keys n) (sp + 1) ?c (n_keys m)) (map fst (drop (sp + 1) kvs))"
    "slots (copy_front (n_vals n) (sp + 1) ?c (n_vals m)) (map snd (drop (sp + 1) kvs))"
    using slots_copy_front [OF l(4), of "sp + 1" "n_keys m"] slots_copy_front [OF l(5), of "sp + 1" "n_vals m"]
      sp assms(5) m by (simp_all add: drop_map)
  moreover have "slots (copy_front (n_edges n) (sp + 1) (?c + 1) (n_edges m)) (drop (sp + 1) es)"
  proof -
    have "length es - (sp + 1) = ?c + 1" using assms(6) sp by simp
    with slots_copy_front [OF l(7), of "sp + 1" "n_edges m"] sp m(3) assms(6) show ?thesis by simp
  qed
  ultimately have "node_body ?m (drop (sp + 1) kvs) (drop (sp + 1) es)"
    using sp l m assms(5) by (simp add: node_body_def)
  moreover have "node_body ?n (take sp kvs) (take (sp + 1) es)"
    using slots_take [OF l(4), of sp] slots_take [OF l(5), of sp] slots_take [OF l(7), of "sp + 1"] l sp assms(5,6)
    by (simp add: node_body_def take_map)
  moreover have "(copy_right_half_internal p q sp ns :: (('k, 'v) nodes, 'e, unit) run) = (Ok (), ns(q \<mapsto> ?m, p \<mapsto> ?n))"
    using assms(1,2) l(1) sp(2) by (simp add: copy_right_half_internal_def Let_def)
  ultimately show thesis using that [of ?m ?n] by simp
qed

end
