(* ===== verification/BTreeSplit.thy ===== *)
theory BTreeSplit
  imports BTreeSurgery
begin

text \<open>
  The splits on trees: a full node that takes in one more entry becomes two nodes around the
  entry in the middle. Then the climb of \<open>promote\<close> along the path to the root.
\<close>

section \<open>Splitting an internal node\<close>

lemma split_halves_hold:
  assumes body: "body_holds ns (BT p kvs ts)" "body_holds ns r"
    and len: "length kvs = CAPACITY" "length ts = CAPACITY + 1" "sp \<le> 6"
    and ri: "ns ri = Some m" "blank_internal m"
    and apart: "distinct (addrs (BT p kvs ts) @ addrs r @ [ri])"
  shows "\<exists>ns1 rn ns2.
    (copy_right_half_internal p ri sp ns :: (('k, 'v) nodes, 'e, unit) run) = (Ok (), ns1) \<and> ns1 ri = Some rn \<and>
    (correct_parent_links ri 0 (n_len rn) ns1 :: (('k, 'v) nodes, 'e, unit) run) = (Ok (), ns2) \<and>
    body_holds ns2 (BT p (take sp kvs) (take (sp + 1) ts)) \<and>
    body_holds ns2 (BT ri (drop (sp + 1) kvs) (drop (sp + 1) ts)) \<and> body_holds ns2 r \<and> same_link ns ns2 p \<and>
    (\<forall>x. x \<notin> {p, ri} \<union> baddr ` set ts \<longrightarrow> ns2 x = ns x) \<and>
    (\<forall>x. x \<notin> {p, ri} \<longrightarrow> same_body ns ns2 x)"
proof -
  obtain n where n: "ns p = Some n" "node_body n kvs (map baddr ts)" and kids: "kids_hold ns p 0 ts"
    using body(1) by auto
  have pri: "p \<noteq> ri" using apart by auto
  obtain n' m' where copy:
      "(copy_right_half_internal p ri sp ns :: (('k, 'v) nodes, 'e, unit) run) = (Ok (), ns(ri \<mapsto> m', p \<mapsto> n'))"
      "node_body n' (take sp kvs) (take (sp + 1) (map baddr ts))"
      "node_body m' (drop (sp + 1) kvs) (drop (sp + 1) (map baddr ts))"
      "n_parent n' = n_parent n" "n_parent_idx n' = n_parent_idx n"
    by (rule copy_right_half_internal_node [where 'e = 'e and ns = ns and p = p and n = n and q = ri and
          m = m and kvs = kvs and es = "map baddr ts" and sp = sp]) (simp_all only: n pri len ri length_map not_False_eq_True)
  let ?ns1 = "ns(ri \<mapsto> m', p \<mapsto> n')"
  let ?lo = "take (sp + 1) ts" and ?hi = "drop (sp + 1) ts"
  have parts: "set (forest_addrs ts) = set (forest_addrs ?lo) \<union> set (forest_addrs ?hi)"
    "distinct (forest_addrs ?hi)" "set (forest_addrs ?lo) \<inter> set (forest_addrs ?hi) = {}"
    using apart distinct_forest_take_drop [of ts "sp + 1"] set_forest_take_drop [of ts "sp + 1"] by auto
  have off: "p \<notin> set (forest_addrs ts)" "ri \<notin> set (forest_addrs ts)" "p \<notin> set (addrs r)" "ri \<notin> set (addrs r)"
    "set (addrs r) \<inter> set (forest_addrs ts) = {}"
    using apart by auto
  have same1: "?ns1 x = ns x" if "x \<in> set (forest_addrs ts) \<or> x \<in> set (addrs r)" for x
    using that off by auto
  have nlen: "n_len m' = length kvs - (sp + 1)" "slots (n_edges m') (drop (sp + 1) (map baddr ts))"
    using copy(3) by (auto simp: node_body_def)
  have "\<exists>ns2. (relink_loop ri [0..<0 + length ?hi] ?ns1 :: (('k, 'v) nodes, 'e, unit) run) = (Ok (), ns2) \<and>
      kids_hold ns2 ri 0 ?hi \<and> (\<forall>x. x \<notin> baddr ` set ?hi \<longrightarrow> ns2 x = ?ns1 x) \<and> (\<forall>x. same_body ?ns1 ns2 x)"
  proof (rule relink_loop_holds)
    show "?ns1 ri = Some m'" using pri by simp
    show "distinct (ri # forest_addrs ?hi)" using parts off by simp
    show "0 + length ?hi \<le> length (n_edges m')" using nlen(2) by (simp add: slots_def)
    show "n_edges m' ! (0 + j) = Some (baddr (?hi ! j))" if "j < length ?hi" for j
      using slots_nth [OF nlen(2), of j] that by simp
    show "body_holds ?ns1 u" if u: "u \<in> set ?hi" for u
    proof (rule body_holds_frame(1))
      show "body_holds ns u" using kids_hold_bodies [OF kids] u by (auto dest: in_set_dropD)
      show "?ns1 x = ns x" if "x \<in> set (addrs u)" for x
        using that u by (intro same1) (auto dest: in_set_dropD)
    qed
  qed
  then obtain ns2 where ns2: "(relink_loop ri [0..<0 + length ?hi] ?ns1 :: (('k, 'v) nodes, 'e, unit) run) = (Ok (), ns2)"
      "kids_hold ns2 ri 0 ?hi" "\<And>x. x \<notin> baddr ` set ?hi \<Longrightarrow> ns2 x = ?ns1 x" "\<And>x. same_body ?ns1 ns2 x" by blast
  have hi: "x \<notin> baddr ` set ?hi" if "x \<notin> set (forest_addrs ?hi)" for x
    using that by (rule baddr_notin)
  have at: "ns2 p = Some n'" "ns2 ri = Some m'"
    using ns2(3) [OF hi] parts(1) off(1,2) pri by auto
  have same2: "ns2 x = ns x" if "x \<in> set (forest_addrs ?lo) \<or> x \<in> set (addrs r)" for x
  proof -
    have "x \<notin> set (forest_addrs ?hi)" "x \<in> set (forest_addrs ts) \<or> x \<in> set (addrs r)"
      using that parts off(5) by auto
    with ns2(3) [OF hi] same1 show ?thesis by simp
  qed
  have "kids_hold ns2 p 0 ?lo"
  proof (rule body_holds_frame(2))
    have "kids_hold ns p 0 (?lo @ ?hi)" using kids by (simp only: append_take_drop_id)
    then show "kids_hold ns p 0 ?lo" by (simp only: kids_hold_append)
  qed (simp add: same2)
  then have "body_holds ns2 (BT p (take sp kvs) ?lo)"
    using at(1) copy(2) by (simp add: take_map)
  moreover have "body_holds ns2 (BT ri (drop (sp + 1) kvs) ?hi)"
    using at(2) copy(3) ns2(2) by (simp add: drop_map)
  moreover have "body_holds ns2 r" by (rule body_holds_frame(1) [OF _ body(2)]) (simp add: same2)
  moreover have "same_link ns ns2 p" using n(1) at(1) copy(4,5) by (auto simp: same_link_def)
  moreover have "?ns1 ri = Some m'" using pri by simp
  moreover have "(correct_parent_links ri 0 (n_len m') ?ns1 :: (('k, 'v) nodes, 'e, unit) run) = (Ok (), ns2)"
  proof -
    have "Suc (n_len m') = 0 + length ?hi" using nlen(1) len by (simp add: CAPACITY_def)
    then show ?thesis using ns2(1) by (simp only: correct_parent_links_def)
  qed
  moreover have "\<forall>x. x \<notin> {p, ri} \<union> baddr ` set ts \<longrightarrow> ns2 x = ns x"
  proof (intro allI impI)
    fix x assume "x \<notin> {p, ri} \<union> baddr ` set ts"
    moreover from this have "x \<notin> baddr ` set ?hi" by (auto dest: in_set_dropD)
    ultimately show "ns2 x = ns x" using ns2(3) by simp
  qed
  moreover have "\<forall>x. x \<notin> {p, ri} \<longrightarrow> same_body ns ns2 x"
    using ns2(4) by (auto simp: same_body_def)
  ultimately show ?thesis using copy(1) by blast
qed

lemma split_internal_holds:
  fixes kv :: "'k \<times> 'v"
  assumes body: "body_holds ns (BT p kvs ts)" "body_holds ns r"
    and len: "length kvs = CAPACITY" "length ts = CAPACITY + 1" "i \<le> CAPACITY"
    and ri: "ns ri = Some m" "blank_internal m"
    and apart: "distinct (addrs (BT p kvs ts) @ addrs r @ [ri])"
  defines "K \<equiv> ins_at i kv kvs" and "T \<equiv> ins_at (i + 1) r ts" and "c \<equiv> cut_at i"
  shows "\<exists>ns'. (split_internal p i (fst (splitpoint i)) ri (baddr r) kv ns :: (('k, 'v) nodes, 'e, 'k \<times> 'v) run) =
      (Ok (K ! c), ns') \<and>
    body_holds ns' (BT p (take c K) (take (c + 1) T)) \<and> body_holds ns' (BT ri (drop (c + 1) K) (drop (c + 1) T)) \<and>
    same_link ns ns' p \<and> (\<forall>x. x \<notin> {p, ri, baddr r} \<union> baddr ` set ts \<longrightarrow> ns' x = ns x) \<and>
    (\<forall>x. x \<notin> {p, ri} \<longrightarrow> same_body ns ns' x)"
proof -
  let ?sp = "fst (splitpoint i)"
  have sp: "?sp \<le> 6" "?sp < length kvs"
    using splitpoint_bound [of i ?sp "snd (splitpoint i)"] len(1) by (simp_all add: CAPACITY_def)
  obtain n where n: "ns p = Some n" "node_body n kvs (map baddr ts)" using body(1) by auto
  obtain ns1 rn ns2 where h:
    "(copy_right_half_internal p ri ?sp ns :: (('k, 'v) nodes, 'e, unit) run) = (Ok (), ns1)" "ns1 ri = Some rn"
    "(correct_parent_links ri 0 (n_len rn) ns1 :: (('k, 'v) nodes, 'e, unit) run) = (Ok (), ns2)"
    "body_holds ns2 (BT p (take ?sp kvs) (take (?sp + 1) ts))"
    "body_holds ns2 (BT ri (drop (?sp + 1) kvs) (drop (?sp + 1) ts))" "body_holds ns2 r" "same_link ns ns2 p"
    "\<And>x. x \<notin> {p, ri} \<union> baddr ` set ts \<Longrightarrow> ns2 x = ns x" "\<And>x. x \<notin> {p, ri} \<Longrightarrow> same_body ns ns2 x"
    using split_halves_hold [OF body len(1,2) sp(1) ri apart, where 'e = 'e] by blast
  have reads: "(init_read (n_keys n) ?sp :: ('e, 'k) outcome) = Ok (fst (kvs ! ?sp))"
    "(init_read (n_vals n) ?sp :: ('e, 'v) outcome) = Ok (snd (kvs ! ?sp))"
    using n(2) sp(2) slots_read [of "n_keys n" "map fst kvs" ?sp] slots_read [of "n_vals n" "map snd kvs" ?sp]
    by (simp_all add: node_body_def)
  let ?lo = "take (?sp + 1) ts" and ?hi = "drop (?sp + 1) ts"
  have parts: "set (forest_addrs ts) = set (forest_addrs ?lo) \<union> set (forest_addrs ?hi)"
    "distinct (forest_addrs ?lo)" "distinct (forest_addrs ?hi)"
    "set (forest_addrs ?lo) \<inter> set (forest_addrs ?hi) = {}"
    using apart distinct_forest_take_drop [of ts "?sp + 1"] set_forest_take_drop [of ts "?sp + 1"] by auto
  have off: "p \<notin> set (forest_addrs ts)" "ri \<notin> set (forest_addrs ts)" "p \<noteq> ri" "p \<notin> set (addrs r)"
    "ri \<notin> set (addrs r)" "distinct (addrs r)" "set (addrs r) \<inter> set (forest_addrs ts) = {}"
    using apart by auto
  show ?thesis
  proof (cases rule: splitpoint_cases [of i])
    case (left s)
    then have s: "?sp = s" and c: "c = s + 1" by (simp_all add: c_def)
    have "\<exists>ns'. (insert_and_relink p i kv (baddr r) ns2 :: (('k, 'v) nodes, 'e, unit) run) = (Ok (), ns') \<and>
      body_holds ns' (BT p (ins_at i kv (take s kvs)) (ins_at (i + 1) r (take (s + 1) ts))) \<and> same_link ns2 ns' p \<and>
      (\<forall>x. x \<notin> insert p (baddr ` set (r # drop (i + 1) (take (s + 1) ts))) \<longrightarrow> ns' x = ns2 x) \<and>
      (\<forall>x. x \<noteq> p \<longrightarrow> same_body ns2 ns' x)"
      using h(4,6) left(2) len sp parts off s
      by (intro insert_and_relink_holds) (auto simp: min_absorb2 CAPACITY_def)
    then obtain ns' where ns': "(insert_and_relink p i kv (baddr r) ns2 :: (('k, 'v) nodes, 'e, unit) run) = (Ok (), ns')"
      "body_holds ns' (BT p (ins_at i kv (take s kvs)) (ins_at (i + 1) r (take (s + 1) ts)))" "same_link ns2 ns' p"
      "\<And>x. x \<notin> insert p (baddr ` set (r # drop (i + 1) (take (s + 1) ts))) \<Longrightarrow> ns' x = ns2 x"
      "\<And>x. x \<noteq> p \<Longrightarrow> same_body ns2 ns' x" by blast
    have KT: "take c K = ins_at i kv (take s kvs)" "take (c + 1) T = ins_at (i + 1) r (take (s + 1) ts)"
      "K ! c = kvs ! s" "drop (c + 1) K = drop (s + 1) kvs" "drop (c + 1) T = drop (s + 1) ts"
      using left(2) len sp s take_ins_ge [of i s kvs kv] take_ins_ge [of "i + 1" "s + 1" ts r]
        nth_ins_ge [of i s kvs kv] drop_ins_ge [of i "s + 1" kvs kv] drop_ins_ge [of "i + 1" "s + 1" ts r]
      unfolding K_def T_def c by (simp_all only: add_le_mono1 le_SucI Suc_eq_plus1 length_map)
    have "body_holds ns' (BT ri (drop (s + 1) kvs) (drop (s + 1) ts))"
    proof (rule body_holds_frame(1))
      show "body_holds ns2 (BT ri (drop (s + 1) kvs) (drop (s + 1) ts))" using h(5) s by simp
      fix x assume x: "x \<in> set (addrs (BT ri (drop (s + 1) kvs) (drop (s + 1) ts)))"
      then have "x \<notin> set (forest_addrs ?lo)" "x \<noteq> p" "x \<notin> set (addrs r)" using parts off s by auto
      then have "x \<noteq> baddr r" "x \<notin> baddr ` set ?lo" using baddr_notin [of x ?lo] baddr_in_addrs [of r] by auto
      then show "ns' x = ns2 x" using \<open>x \<noteq> p\<close> s by (intro ns'(4)) (auto dest: in_set_dropD)
    qed
    moreover have "(split_internal p i ?sp ri (baddr r) kv ns :: (('k, 'v) nodes, 'e, 'k \<times> 'v) run) = (Ok (K ! c), ns')"
      using n(1) reads h(1-3) ns'(1) left(1) KT(3) s by (simp add: split_internal_def)
    moreover have "\<forall>x. x \<notin> {p, ri, baddr r} \<union> baddr ` set ts \<longrightarrow> ns' x = ns x"
    proof (intro allI impI)
      fix x assume x: "x \<notin> {p, ri, baddr r} \<union> baddr ` set ts"
      then have "ns' x = ns2 x" by (intro ns'(4)) (auto dest: in_set_dropD in_set_takeD)
      then show "ns' x = ns x" using h(8) x by simp
    qed
    ultimately show ?thesis
      using ns'(2) same_link_trans [OF h(7) ns'(3)] same_body_trans [OF h(9) ns'(5)] by (simp only: KT) blast
  next
    case (right s)
    then have s: "?sp = s" and c: "c = s" by (simp_all add: c_def)
    let ?i = "i - (s + 1)"
    have "\<exists>ns'. (insert_and_relink ri ?i kv (baddr r) ns2 :: (('k, 'v) nodes, 'e, unit) run) = (Ok (), ns') \<and>
      body_holds ns' (BT ri (ins_at ?i kv (drop (s + 1) kvs)) (ins_at (?i + 1) r (drop (s + 1) ts))) \<and> same_link ns2 ns' ri \<and>
      (\<forall>x. x \<notin> insert ri (baddr ` set (r # drop (?i + 1) (drop (s + 1) ts))) \<longrightarrow> ns' x = ns2 x) \<and>
      (\<forall>x. x \<noteq> ri \<longrightarrow> same_body ns2 ns' x)"
      using h(5,6) right(2) len sp parts off s
      by (intro insert_and_relink_holds) (auto simp: CAPACITY_def)
    then obtain ns' where ns': "(insert_and_relink ri ?i kv (baddr r) ns2 :: (('k, 'v) nodes, 'e, unit) run) = (Ok (), ns')"
      "body_holds ns' (BT ri (ins_at ?i kv (drop (s + 1) kvs)) (ins_at (?i + 1) r (drop (s + 1) ts)))" "same_link ns2 ns' ri"
      "\<And>x. x \<notin> insert ri (baddr ` set (r # drop (?i + 1) (drop (s + 1) ts))) \<Longrightarrow> ns' x = ns2 x"
      "\<And>x. x \<noteq> ri \<Longrightarrow> same_body ns2 ns' x" by blast
    have sub: "set (drop (?i + 1) (drop (s + 1) ts)) \<subseteq> set ?hi" unfolding s by (rule set_drop_subset)
    have i1: "i + 1 - (s + 1) = ?i + 1" using right(2) by simp
    have KT: "take c K = take s kvs" "take (c + 1) T = take (s + 1) ts"
      "K ! c = kvs ! s" "drop (c + 1) K = ins_at ?i kv (drop (s + 1) kvs)"
      "drop (c + 1) T = ins_at (?i + 1) r (drop (s + 1) ts)"
      using right(2) len take_ins_lt [of s i kvs kv] take_ins_lt [of "s + 1" "i + 1" ts r]
        nth_ins_lt [of s i kvs kv] drop_ins_lt [of "s + 1" i kvs kv] drop_ins_lt [of "s + 1" "i + 1" ts r]
      unfolding K_def T_def c i1 by simp_all
    have "body_holds ns' (BT p (take s kvs) (take (s + 1) ts))"
    proof (rule body_holds_frame(1))
      show "body_holds ns2 (BT p (take s kvs) (take (s + 1) ts))" using h(4) s by simp
      fix x assume x: "x \<in> set (addrs (BT p (take s kvs) (take (s + 1) ts)))"
      then have "x \<notin> set (forest_addrs ?hi)" "x \<noteq> ri" "x \<notin> set (addrs r)" using parts off s by auto
      then have "x \<noteq> baddr r" "x \<notin> baddr ` set ?hi" using baddr_notin [of x ?hi] baddr_in_addrs [of r] by auto
      then show "ns' x = ns2 x" using \<open>x \<noteq> ri\<close> sub by (intro ns'(4)) (auto simp del: drop_drop)
    qed
    moreover have "same_link ns2 ns' p"
    proof -
      have "p \<notin> baddr ` set ?hi" "p \<noteq> baddr r" using off parts(1) baddr_notin [of p ?hi] baddr_in_addrs [of r] by auto
      then have "ns' p = ns2 p" using off(3) sub by (intro ns'(4)) (auto simp del: drop_drop)
      with h(7) show ?thesis by (auto simp: same_link_def)
    qed
    moreover have "(split_internal p i ?sp ri (baddr r) kv ns :: (('k, 'v) nodes, 'e, 'k \<times> 'v) run) = (Ok (K ! c), ns')"
      using n(1) reads h(1-3) ns'(1) right(1) KT(3) s by (simp add: split_internal_def)
    moreover have "\<forall>x. x \<notin> {p, ri, baddr r} \<union> baddr ` set ts \<longrightarrow> ns' x = ns x"
    proof (intro allI impI)
      fix x assume x: "x \<notin> {p, ri, baddr r} \<union> baddr ` set ts"
      then have "ns' x = ns2 x" by (intro ns'(4)) (auto dest: in_set_dropD)
      then show "ns' x = ns x" using h(8) x by simp
    qed
    ultimately show ?thesis
      using ns'(2) same_link_trans [OF h(7)] same_body_trans [OF h(9) ns'(5)] by (simp only: KT) blast
  qed
qed

end
