(* ===== verification/BTreePath.thy ===== *)
theory BTreePath
  imports BTreeSplit
begin

text \<open>
  The path from a node up to the root, and the climb of \<open>promote\<close> along it: the plan recorded by
  the probe matches the path, and the climb turns the tree with an overfull hole into a tree.
\<close>

section \<open>Paths\<close>

text \<open>A node on the way to the root: what is left and right of the child we came from.\<close>

datatype ('k, 'v) frame =
  Frame (fr_addr: addr) (fr_lks: "('k \<times> 'v) list") (fr_rks: "('k \<times> 'v) list")
    (fr_lts: "('k, 'v) btree list") (fr_rts: "('k, 'v) btree list")

fun plug :: "('k, 'v) btree \<Rightarrow> ('k, 'v) frame list \<Rightarrow> ('k, 'v) btree" where
  "plug t [] = t"
| "plug t (Frame a lk rk lts rts # fs) = plug (BT a (lk @ rk) (lts @ t # rts)) fs"

fun plug_flat :: "('k \<times> 'v) list \<Rightarrow> ('k, 'v) frame list \<Rightarrow> ('k \<times> 'v) list" where
  "plug_flat xs [] = xs"
| "plug_flat xs (Frame a lk rk lts rts # fs) =
     plug_flat (weave (map flat lts @ xs # map flat rts) (lk @ rk)) fs"

fun path_addrs :: "('k, 'v) frame list \<Rightarrow> addr list" where
  "path_addrs [] = []"
| "path_addrs (Frame a lk rk lts rts # fs) = a # forest_addrs lts @ forest_addrs rts @ path_addrs fs"

fun path_holds :: "('k, 'v) nodes \<Rightarrow> addr \<Rightarrow> ('k, 'v) frame list \<Rightarrow> bool" where
  "path_holds ns c [] \<longleftrightarrow> unlinked ns c"
| "path_holds ns c (Frame a lk rk lts rts # fs) \<longleftrightarrow>
     linked ns c a (length lts) \<and>
     (\<exists>n. ns a = Some n \<and> node_body n (lk @ rk) (map baddr lts @ c # map baddr rts)) \<and>
     kids_hold ns a 0 lts \<and> kids_hold ns a (Suc (length lts)) rts \<and> path_holds ns a fs"

text \<open>The hole is at height \<open>h\<close>; the last frame is the root.\<close>

fun path_shape :: "nat \<Rightarrow> ('k, 'v) frame list \<Rightarrow> bool" where
  "path_shape h [] \<longleftrightarrow> True"
| "path_shape h (Frame a lk rk lts rts # fs) \<longleftrightarrow>
     length lts = length lk \<and> length rts = length rk \<and> length (lk @ rk) \<le> CAPACITY \<and>
     (if fs = [] then 1 else MIN_LEN) \<le> length (lk @ rk) \<and>
     (\<forall>t \<in> set (lts @ rts). sub_shape h t) \<and> path_shape (Suc h) fs"

definition tree_holds :: "('k, 'v) nodes \<Rightarrow> ('k, 'v) btree \<Rightarrow> bool" where
  "tree_holds ns t \<longleftrightarrow> body_holds ns t \<and> unlinked ns (baddr t)"

lemma flat_plug: "flat (plug t fs) = plug_flat (flat t) fs"
  by (induction t fs rule: plug.induct) auto

lemma tree_holds_plug:
  "tree_holds ns (plug t fs) \<longleftrightarrow> body_holds ns t \<and> path_holds ns (baddr t) fs"
proof (induction t fs rule: plug.induct)
  case (1 t)
  then show ?case by (simp add: tree_holds_def)
next
  case (2 t a lk rk lts rts fs)
  have "tree_holds ns (plug t (Frame a lk rk lts rts # fs)) \<longleftrightarrow>
      body_holds ns (BT a (lk @ rk) (lts @ t # rts)) \<and> path_holds ns a fs"
    using 2 by simp
  then show ?case by auto
qed

lemma mset_plug: "mset (addrs (plug t fs)) = mset (addrs t) + mset (path_addrs fs)"
  by (induction t fs rule: plug.induct) auto

lemma root_shape_plug:
  "(if fs = [] then root_shape h t else sub_shape h t) \<Longrightarrow> path_shape h fs \<Longrightarrow>
   root_shape (h + length fs) (plug t fs)"
proof (induction fs arbitrary: h t)
  case (Cons f fs)
  obtain a lk rk lts rts where f: "f = Frame a lk rk lts rts" by (cases f)
  have len: "length (lts @ t # rts) = length (lk @ rk) + 1" and sub: "\<forall>u \<in> set (lts @ t # rts). sub_shape h u"
    using Cons.prems f by auto
  have "if fs = [] then root_shape (Suc h) (BT a (lk @ rk) (lts @ t # rts))
      else sub_shape (Suc h) (BT a (lk @ rk) (lts @ t # rts))"
    using Cons.prems(2) f len sub by auto
  moreover have "path_shape (Suc h) fs" using Cons.prems(2) f by simp
  ultimately have "root_shape (Suc h + length fs) (plug (BT a (lk @ rk) (lts @ t # rts)) fs)"
    by (rule Cons.IH)
  then show ?case using f by simp
qed simp

lemma path_holds_frame:
  assumes "\<And>x. x \<in> set (path_addrs fs) \<Longrightarrow> ns' x = ns x" and "same_link ns ns' c" and "path_holds ns c fs"
  shows "path_holds ns' c fs"
  using assms
proof (induction fs arbitrary: c)
  case Nil
  then show ?case by (simp add: same_link_unlinked)
next
  case (Cons f fs)
  obtain a lk rk lts rts where f: "f = Frame a lk rk lts rts" by (cases f)
  have eq: "ns' a = ns a" using Cons.prems(1) f by simp
  have "path_holds ns' a fs"
  proof (rule Cons.IH)
    show "ns' x = ns x" if "x \<in> set (path_addrs fs)" for x using Cons.prems(1) f that by simp
    show "same_link ns ns' a" using eq Cons.prems(3) f by (auto simp: same_link_def)
    show "path_holds ns a fs" using Cons.prems(3) f by simp
  qed
  moreover have "kids_hold ns' a 0 lts" "kids_hold ns' a (Suc (length lts)) rts"
  proof -
    show "kids_hold ns' a 0 lts"
      by (rule body_holds_frame(2) [where ns = ns]) (use Cons.prems(3) f in \<open>auto intro!: Cons.prems(1)\<close>)
    show "kids_hold ns' a (Suc (length lts)) rts"
      by (rule body_holds_frame(2) [where ns = ns]) (use Cons.prems(3) f in \<open>auto intro!: Cons.prems(1)\<close>)
  qed
  ultimately show ?case using Cons.prems(2,3) f eq by (auto simp: same_link_linked)
qed

section \<open>The plan\<close>

text \<open>What the probe records for a path: it stops at the first node with room.\<close>

fun plan_of :: "('k, 'v) frame list \<Rightarrow> commit_internal list" where
  "plan_of [] = []"
| "plan_of (Frame a lk rk lts rts # fs) =
     (if CAPACITY \<le> length (lk @ rk)
      then \<lparr>ci_ptr = a, ci_child_idx = length lts, ci_will_split = True,
            ci_sp_idx = Some (fst (splitpoint (length lts)))\<rparr> # plan_of fs
      else [\<lparr>ci_ptr = a, ci_child_idx = length lts, ci_will_split = False, ci_sp_idx = None\<rparr>])"

definition all_full :: "('k, 'v) frame list \<Rightarrow> bool" where
  "all_full fs \<longleftrightarrow> (\<forall>f \<in> set fs. CAPACITY \<le> length (fr_lks f @ fr_rks f))"

lemma length_plan_of: "length (plan_of fs) \<le> length fs"
  by (induction fs rule: plan_of.induct) auto

lemma ascend_linked:
  "linked ns c a i \<Longrightarrow> h < usize_max \<Longrightarrow>
   (ascend ns (NodeRef h c) :: ('e, ascend_result) outcome) = Ok (AtParent (Handle (NodeRef (Suc h) a) i))"
  by (auto simp: ascend_def linked_def checked_add_def)

lemma ascend_unlinked:
  "unlinked ns c \<Longrightarrow> (ascend ns (NodeRef h c) :: ('e, ascend_result) outcome) = Ok (AtRoot (NodeRef h c))"
  by (auto simp: ascend_def unlinked_def)

lemma probe_count_path:
  assumes "path_holds ns c fs" and "h + length fs \<le> usize_max" and "k + length fs \<le> usize_max"
  shows "probe_count ns (NodeRef h c) k = Some (Ok (k + length (plan_of fs)))"
  using assms
proof (induction fs arbitrary: c h k)
  case Nil
  then show ?case by (subst probe_count.simps) (simp add: ascend_unlinked)
next
  case (Cons f fs)
  obtain a lk rk lts rts where f: "f = Frame a lk rk lts rts" by (cases f)
  obtain n where n: "ns a = Some n" "n_len n = length (lk @ rk)"
    using Cons.prems(1) f by (auto simp: node_body_def)
  have "(ascend ns (NodeRef h c) :: (alloc_error, ascend_result) outcome) = Ok (AtParent (Handle (NodeRef (Suc h) a) (length lts)))"
    using Cons.prems f by (intro ascend_linked) auto
  moreover have "probe_count ns (NodeRef (Suc h) a) (k + 1) = Some (Ok (k + 1 + length (plan_of fs)))"
    using Cons.prems f by (intro Cons.IH) auto
  ultimately show ?case
    using n f Cons.prems(3) by (subst probe_count.simps) (auto simp: checked_add_def)
qed

lemma probe_record_path:
  assumes "path_holds ns c fs" and "h + length fs \<le> usize_max"
    and "vlen v + length (plan_of fs) \<le> cap v"
  shows "probe_record ns (NodeRef h c) (v, hp) =
    Some (Ok (all_full fs), (with_items (items v @ plan_of fs) v, hp))"
  using assms
proof (induction fs arbitrary: c h v)
  case Nil
  then show ?case
    by (subst probe_record.simps) (cases v; simp add: ascend_unlinked all_full_def with_items_def)
next
  case (Cons f fs)
  obtain a lk rk lts rts where f: "f = Frame a lk rk lts rts" by (cases f)
  obtain n where n: "ns a = Some n" "n_len n = length (lk @ rk)"
    using Cons.prems(1) f by (auto simp: node_body_def)
  have up: "(ascend ns (NodeRef h c) :: (alloc_error, ascend_result) outcome) = Ok (AtParent (Handle (NodeRef (Suc h) a) (length lts)))"
    using Cons.prems f by (intro ascend_linked) auto
  let ?v = "with_items (items v @ [annotate (Handle (NodeRef (Suc h) a) (length lts)) n]) v"
  have push: "(vec_push (annotate (Handle (NodeRef (Suc h) a) (length lts)) n) (v, hp)
      :: (commit_internal vstate, alloc_error, unit) run) = (Ok (), (?v, hp))"
    using Cons.prems(3) f by (intro vec_push_room) (auto split: if_splits)
  show ?case
  proof (cases "CAPACITY \<le> length (lk @ rk)")
    case True
    then have "probe_record ns (NodeRef (Suc h) a) (?v, hp) =
        Some (Ok (all_full fs), (with_items (items ?v @ plan_of fs) ?v, hp))"
      using Cons.prems f by (intro Cons.IH) auto
    with True show ?thesis
      using n f up push by (subst probe_record.simps) (simp add: all_full_def annotate_def)
  next
    case False
    then show ?thesis
      using n f up push by (subst probe_record.simps) (simp add: all_full_def annotate_def)
  qed
qed

end
