(* ===== verification/BTreeClimb.thy ===== *)
theory BTreeClimb
  imports BTreePath
begin

text \<open>
  The climb of \<open>promote\<close> along the planned path: it ends with a tree, or with two halves of the
  old root when every node on the way was full. Then the fresh root.
\<close>

section \<open>The outcome of the climb\<close>

text \<open>
  \<open>climbed\<close> relates the store after the climb to what the climb started from: \<open>xs\<close> is the content
  of the hole, \<open>am\<close> the addresses involved, \<open>tp\<close> the address of the old root.
\<close>

fun climbed ::
    "('k, 'v) nodes \<Rightarrow> nat \<Rightarrow> addr \<Rightarrow> ('k \<times> 'v) list \<Rightarrow> addr multiset \<Rightarrow>
     (addr list \<times> noderef \<times> noderef \<times> 'k \<times> 'v) option \<Rightarrow> bool" where
  "climbed ns h tp xs am None \<longleftrightarrow>
     (\<exists>t. tree_holds ns t \<and> baddr t = tp \<and> root_shape h t \<and> flat t = xs \<and> mset (addrs t) = am)"
| "climbed ns h tp xs am (Some (rs, left, right, kv)) \<longleftrightarrow>
     (\<exists>nr m l r. rs = [nr] \<and> ns nr = Some m \<and> blank_internal m \<and>
        left = NodeRef h tp \<and> right = NodeRef h (baddr r) \<and> baddr l = tp \<and> tree_holds ns l \<and>
        body_holds ns r \<and> sub_shape h l \<and> sub_shape h r \<and> flat l @ kv # flat r = xs \<and>
        mset (addrs l) + mset (addrs r) + {#nr#} = am)"

definition splits :: "('k, 'v) frame list \<Rightarrow> nat" where
  "splits fs = length (filter ci_will_split (plan_of fs)) + (if all_full fs then 1 else 0)"

lemma splits_simps [simp]:
  "splits [] = 1"
  "CAPACITY \<le> length (lk @ rk) \<Longrightarrow> splits (Frame a lk rk lts rts # fs) = Suc (splits fs)"
  "\<not> CAPACITY \<le> length (lk @ rk) \<Longrightarrow> splits (Frame a lk rk lts rts # fs) = 0"
  by (auto simp: splits_def all_full_def)

lemma baddr_plug: "baddr (plug t fs) = (if fs = [] then baddr t else fr_addr (last fs))"
  by (induction t fs rule: plug.induct) auto

lemma promote_absorbed:
  assumes body: "body_holds ns l" "body_holds ns r" and path: "path_holds ns (baddr l) (Frame a lk rk lts rts # fs)"
    and shape: "sub_shape h l" "sub_shape h r" "path_shape h (Frame a lk rk lts rts # fs)"
    and room: "\<not> CAPACITY \<le> length (lk @ rk)"
    and apart: "distinct (addrs l @ addrs r @ path_addrs (Frame a lk rk lts rts # fs))"
  shows "\<exists>ns'. (insert_and_relink a (length lts) kv (baddr r) ns :: (('k, 'v) nodes, 'e, unit) run) = (Ok (), ns') \<and>
    climbed ns' (h + length (Frame a lk rk lts rts # fs)) (baddr (plug l (Frame a lk rk lts rts # fs)))
      (plug_flat (flat l @ kv # flat r) (Frame a lk rk lts rts # fs))
      (mset (addrs l @ addrs r @ path_addrs (Frame a lk rk lts rts # fs))) None \<and>
    (\<forall>x. x \<notin> set (addrs l @ addrs r @ path_addrs (Frame a lk rk lts rts # fs)) \<longrightarrow> ns' x = ns x) \<and>
    (\<forall>x. x \<noteq> a \<longrightarrow> same_body ns ns' x)"
proof -
  let ?P = "BT a (lk @ rk) (lts @ l # rts)"
  let ?t = "BT a (lk @ kv # rk) (lts @ l # r # rts)"
  have len: "length lts = length lk" "length rts = length rk" using shape(3) by auto
  have P: "body_holds ns ?P" using body(1) path by auto
  have "\<exists>ns'. (insert_and_relink a (length lts) kv (baddr r) ns :: (('k, 'v) nodes, 'e, unit) run) = (Ok (), ns') \<and>
      body_holds ns' (BT a (ins_at (length lts) kv (lk @ rk)) (ins_at (length lts + 1) r (lts @ l # rts))) \<and>
      same_link ns ns' a \<and> (\<forall>x. x \<notin> insert a (baddr ` set (r # drop (length lts + 1) (lts @ l # rts))) \<longrightarrow> ns' x = ns x) \<and>
      (\<forall>x. x \<noteq> a \<longrightarrow> same_body ns ns' x)"
    using P body(2) room len apart by (intro insert_and_relink_holds) auto
  then obtain ns' where ns': "(insert_and_relink a (length lts) kv (baddr r) ns :: (('k, 'v) nodes, 'e, unit) run) = (Ok (), ns')"
    "body_holds ns' ?t" "same_link ns ns' a" "\<And>x. x \<notin> insert a (baddr ` set (r # rts)) \<Longrightarrow> ns' x = ns x"
    "\<And>x. x \<noteq> a \<Longrightarrow> same_body ns ns' x"
    using len by auto
  have off: "x \<noteq> a" "x \<notin> baddr ` set (r # rts)" if "x \<notin> set (a # addrs r @ forest_addrs rts)" for x
    using that baddr_notin [of x rts] baddr_in_addrs [of r] by auto
  have "path_holds ns' a fs"
  proof (rule path_holds_frame)
    fix x assume "x \<in> set (path_addrs fs)"
    then have "x \<notin> set (a # addrs r @ forest_addrs rts)" using apart by auto
    with off [of x] show "ns' x = ns x" by (intro ns'(4)) auto
  qed (use ns'(3) path in auto)
  with ns'(2) have "tree_holds ns' (plug ?t fs)" by (simp add: tree_holds_plug)
  moreover have "root_shape (Suc h + length fs) (plug ?t fs)"
  proof (rule root_shape_plug)
    show "if fs = [] then root_shape (Suc h) ?t else sub_shape (Suc h) ?t"
      using shape room len by (auto simp: CAPACITY_def MIN_LEN_def)
    show "path_shape (Suc h) fs" using shape(3) by simp
  qed
  moreover have "flat (plug ?t fs) = plug_flat (flat l @ kv # flat r) (Frame a lk rk lts rts # fs)"
    using weave_insert [of "map flat lts" lk "flat l" kv "flat r" "map flat rts" rk] len
    by (simp add: flat_plug)
  moreover have "baddr (plug ?t fs) = baddr (plug l (Frame a lk rk lts rts # fs))"
    by (simp add: baddr_plug)
  moreover have "mset (addrs (plug ?t fs)) = mset (addrs l @ addrs r @ path_addrs (Frame a lk rk lts rts # fs))"
    by (simp add: mset_plug)
  moreover have "\<forall>x. x \<notin> set (addrs l @ addrs r @ path_addrs (Frame a lk rk lts rts # fs)) \<longrightarrow> ns' x = ns x"
  proof (intro allI impI)
    fix x assume "x \<notin> set (addrs l @ addrs r @ path_addrs (Frame a lk rk lts rts # fs))"
    then have "x \<notin> set (a # addrs r @ forest_addrs rts)" by auto
    with off [of x] show "ns' x = ns x" by (intro ns'(4)) auto
  qed
  ultimately show ?thesis using ns'(1,5) by (intro exI [of _ ns']) auto
qed

lemma cut_shapes:
  assumes "length K = CAPACITY + 1" and "length T = CAPACITY + 2" and "\<forall>t \<in> set T. sub_shape h t"
    and "5 \<le> c" and "c \<le> 6"
  shows "sub_shape (Suc h) (BT a (take c K) (take (c + 1) T))"
    and "sub_shape (Suc h) (BT b (drop (c + 1) K) (drop (c + 1) T))"
  using assms by (auto simp: CAPACITY_def MIN_LEN_def dest: in_set_takeD in_set_dropD)

lemma cut_flat:
  assumes "length K = CAPACITY + 1" and "length T = CAPACITY + 2" and "c \<le> 6"
  shows "flat (BT a (take c K) (take (c + 1) T)) @ K ! c # flat (BT b (drop (c + 1) K) (drop (c + 1) T)) =
    weave (map flat T) K"
proof -
  have "K = take c K @ K ! c # drop (c + 1) K"
    using assms(1,3) id_take_nth_drop [of c K] by (simp add: CAPACITY_def)
  then have "weave (map flat T) K =
      weave (map flat (take (c + 1) T) @ map flat (drop (c + 1) T)) (take c K @ K ! c # drop (c + 1) K)"
    by (metis append_take_drop_id map_append)
  also have "\<dots> = weave (map flat (take (c + 1) T)) (take c K) @ K ! c # weave (map flat (drop (c + 1) T)) (drop (c + 1) K)"
    using assms by (intro weave_split) (auto simp: CAPACITY_def)
  finally show ?thesis by simp
qed

text \<open>One split: the overfull node becomes two trees of the next level.\<close>

lemma promote_split:
  fixes kv :: "'k \<times> 'v"
  assumes body: "body_holds ns l" "body_holds ns r" and path: "path_holds ns (baddr l) (Frame a lk rk lts rts # fs)"
    and shape: "sub_shape h l" "sub_shape h r" "path_shape h (Frame a lk rk lts rts # fs)"
    and full: "CAPACITY \<le> length (lk @ rk)" and ri: "ns ri = Some m" "blank_internal m"
    and apart: "distinct (addrs l @ addrs r @ path_addrs (Frame a lk rk lts rts # fs) @ [ri])"
  obtains kv' ns' l' r' where
    "(split_internal a (length lts) (fst (splitpoint (length lts))) ri (baddr r) kv ns
       :: (('k, 'v) nodes, 'e, 'k \<times> 'v) run) = (Ok kv', ns')"
    and "baddr l' = a" and "baddr r' = ri" and "body_holds ns' l'" and "body_holds ns' r'" and "path_holds ns' a fs"
    and "sub_shape (Suc h) l'" and "sub_shape (Suc h) r'"
    and "plug_flat (flat l' @ kv' # flat r') fs = plug_flat (flat l @ kv # flat r) (Frame a lk rk lts rts # fs)"
    and "mset (addrs l' @ addrs r' @ path_addrs fs) =
      mset (addrs l @ addrs r @ path_addrs (Frame a lk rk lts rts # fs) @ [ri])"
    and "\<And>x. x \<notin> set (addrs l @ addrs r @ a # forest_addrs lts @ forest_addrs rts @ [ri]) \<Longrightarrow> ns' x = ns x"
    and "\<And>x. x \<notin> {a, ri} \<Longrightarrow> same_body ns ns' x"
proof -
  let ?K = "lk @ kv # rk" and ?T = "lts @ l # r # rts" and ?c = "cut_at (length lts)"
  have len: "length lts = length lk" "length rts = length rk" "length (lk @ rk) = CAPACITY"
    using shape(3) full by auto
  have P: "body_holds ns (BT a (lk @ rk) (lts @ l # rts))" using body(1) path by auto
  have "\<exists>ns'. (split_internal a (length lts) (fst (splitpoint (length lts))) ri (baddr r) kv ns
        :: (('k, 'v) nodes, 'e, 'k \<times> 'v) run) = (Ok (ins_at (length lts) kv (lk @ rk) ! ?c), ns') \<and>
      body_holds ns' (BT a (take ?c (ins_at (length lts) kv (lk @ rk)))
        (take (?c + 1) (ins_at (length lts + 1) r (lts @ l # rts)))) \<and>
      body_holds ns' (BT ri (drop (?c + 1) (ins_at (length lts) kv (lk @ rk)))
        (drop (?c + 1) (ins_at (length lts + 1) r (lts @ l # rts)))) \<and> same_link ns ns' a \<and>
      (\<forall>x. x \<notin> {a, ri, baddr r} \<union> baddr ` set (lts @ l # rts) \<longrightarrow> ns' x = ns x) \<and>
      (\<forall>x. x \<notin> {a, ri} \<longrightarrow> same_body ns ns' x)"
    using P body(2) len ri apart by (intro split_internal_holds [where m = m]) auto
  moreover have "ins_at (length lts) kv (lk @ rk) = ?K" "ins_at (length lts + 1) r (lts @ l # rts) = ?T"
    using len by auto
  ultimately obtain ns' where ns':
    "(split_internal a (length lts) (fst (splitpoint (length lts))) ri (baddr r) kv ns
       :: (('k, 'v) nodes, 'e, 'k \<times> 'v) run) = (Ok (?K ! ?c), ns')"
    "body_holds ns' (BT a (take ?c ?K) (take (?c + 1) ?T))" "body_holds ns' (BT ri (drop (?c + 1) ?K) (drop (?c + 1) ?T))"
    "same_link ns ns' a" "\<And>x. x \<notin> {a, ri, baddr r} \<union> baddr ` set (lts @ l # rts) \<Longrightarrow> ns' x = ns x"
    "\<And>x. x \<notin> {a, ri} \<Longrightarrow> same_body ns ns' x"
    by (simp only:) blast
  let ?l = "BT a (take ?c ?K) (take (?c + 1) ?T)" and ?r = "BT ri (drop (?c + 1) ?K) (drop (?c + 1) ?T)"
  have lenK: "length ?K = CAPACITY + 1" "length ?T = CAPACITY + 2" using len by auto
  have c: "5 \<le> ?c" "?c \<le> 6" by (rule cut_bounds)+
  have frame: "ns' x = ns x" if "x \<notin> set (addrs l @ addrs r @ a # forest_addrs lts @ forest_addrs rts @ [ri])" for x
  proof (rule ns'(5))
    have "x \<notin> baddr ` set lts" "x \<notin> baddr ` set rts" "x \<noteq> baddr l" "x \<noteq> baddr r" "x \<noteq> a" "x \<noteq> ri"
      using that baddr_notin [of x lts] baddr_notin [of x rts] baddr_in_addrs [of l] baddr_in_addrs [of r] by auto
    then show "x \<notin> {a, ri, baddr r} \<union> baddr ` set (lts @ l # rts)" by auto
  qed
  have "\<forall>t \<in> set ?T. sub_shape h t" using shape by auto
  with lenK c have "sub_shape (Suc h) ?l" "sub_shape (Suc h) ?r" by (simp_all only: cut_shapes)
  moreover have "path_holds ns' a fs"
  proof (rule path_holds_frame)
    show "ns' x = ns x" if "x \<in> set (path_addrs fs)" for x
      using that apart by (intro frame) auto
  qed (use ns'(4) path in auto)
  moreover have "mset (addrs ?l @ addrs ?r @ path_addrs fs) =
      mset (addrs l @ addrs r @ path_addrs (Frame a lk rk lts rts # fs) @ [ri])"
  proof -
    have "mset (forest_addrs ?T) = mset (forest_addrs (take (?c + 1) ?T)) + mset (forest_addrs (drop (?c + 1) ?T))"
      by (metis append_take_drop_id concat_append map_append mset_append)
    then show ?thesis by (simp add: ac_simps del: take_append drop_append)
  qed
  moreover have "flat ?l @ ?K ! ?c # flat ?r = weave (map flat lts @ (flat l @ kv # flat r) # map flat rts) (lk @ rk)"
    using weave_insert [of "map flat lts" lk "flat l" kv "flat r" "map flat rts" rk] len
      cut_flat [OF lenK c(2), of a ri] by (simp only: length_map map_append list.map append_Cons)
  ultimately show thesis
    using ns'(1-3) frame ns'(6) by (intro that [of "?K ! ?c" ns' ?l ?r]) (simp_all only: btree.sel plug_flat.simps simp_thms)
qed

section \<open>The climb\<close>

lemma promote_holds:
  assumes "body_holds ns l" and "body_holds ns r" and "path_holds ns (baddr l) fs"
    and "sub_shape h l" and "sub_shape h r" and "path_shape h fs" and "h + length fs \<le> usize_max"
    and "length rs = splits fs" and "\<And>q. q \<in> set rs \<Longrightarrow> \<exists>m. ns q = Some m \<and> blank_internal m"
    and "distinct (addrs l @ addrs r @ path_addrs fs @ rs)"
  shows "\<exists>out ns'. (promote (plan_of fs) rs (NodeRef h (baddr l)) (NodeRef h (baddr r)) kv ns
      :: (('k, 'v) nodes, 'e, _) run) = (Ok out, ns') \<and>
    climbed ns' (h + length fs) (baddr (plug l fs)) (plug_flat (flat l @ kv # flat r) fs)
      (mset (addrs l @ addrs r @ path_addrs fs @ rs)) out \<and> (out = None \<longleftrightarrow> \<not> all_full fs) \<and>
    (\<forall>x. x \<notin> set (addrs l @ addrs r @ path_addrs fs @ rs) \<longrightarrow> ns' x = ns x) \<and>
    (\<forall>x. x \<notin> set (path_addrs fs @ rs) \<longrightarrow> same_body ns ns' x) \<and>
    (\<forall>rs' rest. out = Some (rs', rest) \<longrightarrow> set rs' \<subseteq> set rs)"
  using assms
proof (induction fs arbitrary: ns l r h rs kv)
  case Nil
  obtain nr where rs: "rs = [nr]" using Nil.prems(8) by (cases rs) auto
  with Nil.prems(9) obtain m where "ns nr = Some m" "blank_internal m" by auto
  with Nil.prems rs have "climbed ns h (baddr l) (flat l @ kv # flat r) (mset (addrs l @ addrs r @ rs))
      (Some (rs, NodeRef h (baddr l), NodeRef h (baddr r), kv))"
    unfolding climbed.simps tree_holds_def
    by (intro exI [of _ nr] exI [of _ m] exI [of _ l] exI [of _ r]) auto
  then show ?case by (auto simp: all_full_def intro: same_body_eq)
next
  case (Cons f fs)
  obtain a lk rk lts rts where f: "f = Frame a lk rk lts rts" by (cases f)
  show ?case
  proof (cases "CAPACITY \<le> length (lk @ rk)")
    case False
    then have rs: "rs = []" and nf: "\<not> all_full (f # fs)"
      using Cons.prems(8) f by (auto simp: all_full_def)
    have "\<exists>ns'. (insert_and_relink a (length lts) kv (baddr r) ns :: (('k, 'v) nodes, 'e, unit) run) = (Ok (), ns') \<and>
        climbed ns' (h + length (f # fs)) (baddr (plug l (f # fs))) (plug_flat (flat l @ kv # flat r) (f # fs))
          (mset (addrs l @ addrs r @ path_addrs (f # fs))) None \<and>
        (\<forall>x. x \<notin> set (addrs l @ addrs r @ path_addrs (f # fs)) \<longrightarrow> ns' x = ns x) \<and>
        (\<forall>x. x \<noteq> a \<longrightarrow> same_body ns ns' x)"
      unfolding f using Cons.prems f rs False by (intro promote_absorbed) simp_all
    then show ?thesis using f rs nf False by auto
  next
    case True
    then obtain ri rs' where rs: "rs = ri # rs'" and len: "length rs' = splits fs"
      using Cons.prems(8) f by (cases rs) auto
    obtain m where m: "ns ri = Some m" "blank_internal m" using Cons.prems(9) rs by auto
    have apart: "distinct (addrs l @ addrs r @ path_addrs (Frame a lk rk lts rts # fs) @ [ri])"
      using Cons.prems(10) f rs by auto
    obtain kv' ns1 l' r' where s:
      "(split_internal a (length lts) (fst (splitpoint (length lts))) ri (baddr r) kv ns
         :: (('k, 'v) nodes, 'e, 'k \<times> 'v) run) = (Ok kv', ns1)"
      "baddr l' = a" "baddr r' = ri" "body_holds ns1 l'" "body_holds ns1 r'" "path_holds ns1 a fs"
      "sub_shape (Suc h) l'" "sub_shape (Suc h) r'"
      "plug_flat (flat l' @ kv' # flat r') fs = plug_flat (flat l @ kv # flat r) (Frame a lk rk lts rts # fs)"
      "mset (addrs l' @ addrs r' @ path_addrs fs) =
        mset (addrs l @ addrs r @ path_addrs (Frame a lk rk lts rts # fs) @ [ri])"
      "\<And>x. x \<notin> set (addrs l @ addrs r @ a # forest_addrs lts @ forest_addrs rts @ [ri]) \<Longrightarrow> ns1 x = ns x"
      "\<And>x. x \<notin> {a, ri} \<Longrightarrow> same_body ns ns1 x"
      by (rule promote_split [where 'e = 'e and kv = kv, OF Cons.prems(1,2) Cons.prems(3) [unfolded f] Cons.prems(4,5)
            Cons.prems(6) [unfolded f] True m apart]) (rule that)
    have all: "mset (addrs l' @ addrs r' @ path_addrs fs @ rs') = mset (addrs l @ addrs r @ path_addrs (f # fs) @ rs)"
      using s(10) f rs by (simp add: ac_simps)
    then have sets: "set (addrs l' @ addrs r' @ path_addrs fs @ rs') = set (addrs l @ addrs r @ path_addrs (f # fs) @ rs)"
      by (rule mset_eq_setD)
    have "\<exists>out ns'. (promote (plan_of fs) rs' (NodeRef (Suc h) (baddr l')) (NodeRef (Suc h) (baddr r')) kv' ns1
          :: (('k, 'v) nodes, 'e, _) run) = (Ok out, ns') \<and>
        climbed ns' (Suc h + length fs) (baddr (plug l' fs)) (plug_flat (flat l' @ kv' # flat r') fs)
          (mset (addrs l' @ addrs r' @ path_addrs fs @ rs')) out \<and> (out = None \<longleftrightarrow> \<not> all_full fs) \<and>
        (\<forall>x. x \<notin> set (addrs l' @ addrs r' @ path_addrs fs @ rs') \<longrightarrow> ns' x = ns1 x) \<and>
        (\<forall>x. x \<notin> set (path_addrs fs @ rs') \<longrightarrow> same_body ns1 ns' x) \<and>
        (\<forall>rs2 rest. out = Some (rs2, rest) \<longrightarrow> set rs2 \<subseteq> set rs')"
    proof (rule Cons.IH)
      show "distinct (addrs l' @ addrs r' @ path_addrs fs @ rs')"
        using Cons.prems(10) mset_eq_imp_distinct_iff [OF all] by simp
      show "\<exists>m. ns1 q = Some m \<and> blank_internal m" if "q \<in> set rs'" for q
      proof -
        have "ns1 q = ns q" using that Cons.prems(10) rs f by (intro s(11)) auto
        with Cons.prems(9) rs that show ?thesis by simp
      qed
      show "path_shape (Suc h) fs" "Suc h + length fs \<le> usize_max" using Cons.prems(6,7) f by simp_all
      show "path_holds ns1 (baddr l') fs" using s(2,6) by simp
    qed (fact s(4) s(5) s(7) s(8) len)+
    then obtain out ns' where p:
      "(promote (plan_of fs) rs' (NodeRef (Suc h) a) (NodeRef (Suc h) ri) kv' ns1
          :: (('k, 'v) nodes, 'e, _) run) = (Ok out, ns')"
      "climbed ns' (Suc h + length fs) (baddr (plug l' fs)) (plug_flat (flat l' @ kv' # flat r') fs)
          (mset (addrs l' @ addrs r' @ path_addrs fs @ rs')) out" "out = None \<longleftrightarrow> \<not> all_full fs"
      "\<And>x. x \<notin> set (addrs l' @ addrs r' @ path_addrs fs @ rs') \<Longrightarrow> ns' x = ns1 x"
      "\<And>x. x \<notin> set (path_addrs fs @ rs') \<Longrightarrow> same_body ns1 ns' x"
      "\<forall>rs2 rest. out = Some (rs2, rest) \<longrightarrow> set rs2 \<subseteq> set rs'"
      unfolding s(2,3) by blast
    have "(promote (plan_of (f # fs)) rs (NodeRef h (baddr l)) (NodeRef h (baddr r)) kv ns
        :: (('k, 'v) nodes, 'e, _) run) = (Ok out, ns')"
      using True f rs s(1) p(1) Cons.prems(7) by (simp add: checked_add_def)
    moreover have "baddr (plug l' fs) = baddr (plug l (f # fs))" using s(2) f by (simp add: baddr_plug)
    moreover have "all_full (f # fs) \<longleftrightarrow> all_full fs" using True f by (simp add: all_full_def)
    moreover have "ns' x = ns x" if x: "x \<notin> set (addrs l @ addrs r @ path_addrs (f # fs) @ rs)" for x
    proof -
      have "ns' x = ns1 x" using x unfolding sets [symmetric] by (rule p(4))
      also have "\<dots> = ns x" using x f rs by (intro s(11)) auto
      finally show ?thesis .
    qed
    moreover have "same_body ns ns' x" if "x \<notin> set (path_addrs (f # fs) @ rs)" for x
      using that f rs by (intro same_body_trans [OF s(12) p(5)]) auto
    moreover have "\<forall>rs2 rest. out = Some (rs2, rest) \<longrightarrow> set rs2 \<subseteq> set rs"
      using p(6) rs by auto
    ultimately show ?thesis
      using p(2,3) unfolding all s(9) f [symmetric]
      by (intro exI [of _ out] exI [of _ ns']) simp
  qed
qed

end
