(* ===== verification/BTreeInsert.thy ===== *)
theory BTreeInsert
  imports BTreeClimb
begin

text \<open>
  The commit phase as a whole: the leaf split, the climb, the fresh root. It cannot fail, keeps
  the tree well formed, adds the new entry where the leaf edge points, and answers its slot.
\<close>

section \<open>The slot of an entry\<close>

definition entry_at :: "('k, 'v) nodes \<Rightarrow> handle \<Rightarrow> 'k \<times> 'v \<Rightarrow> bool" where
  "entry_at ns e kv \<longleftrightarrow>
     (\<exists>n. ns (nr_node (h_ref e)) = Some n \<and> h_idx e < n_len n \<and>
        n_keys n ! h_idx e = Some (fst kv) \<and> n_vals n ! h_idx e = Some (snd kv))"

lemma entry_at_same_body:
  "same_body ns ns' (nr_node (h_ref e)) \<Longrightarrow> entry_at ns e kv \<Longrightarrow> entry_at ns' e kv"
  by (auto simp: entry_at_def same_body_def)

lemma entry_at_body:
  assumes "ns p = Some n" and "node_body n kvs es" and "i < length kvs"
  shows "entry_at ns (Handle (NodeRef h p) i) (kvs ! i)"
proof -
  have "n_keys n ! i = Some (map fst kvs ! i)" "n_vals n ! i = Some (map snd kvs ! i)"
    using assms slots_nth [of "n_keys n" "map fst kvs" i] slots_nth [of "n_vals n" "map snd kvs" i]
    by (simp_all only: node_body_def length_map)
  then show ?thesis using assms by (simp add: entry_at_def node_body_def)
qed

section \<open>Splitting the leaf\<close>

lemma split_leaf_holds:
  fixes k :: 'k and v :: 'v
  assumes "ns p = Some n" and "node_body n kvs []" and "length kvs = CAPACITY" and "i \<le> CAPACITY"
    and "ns q = Some m" and "blank m" and "p \<noteq> q"
  defines "K \<equiv> ins_at i (k, v) kvs" and "c \<equiv> cut_at i" and "sp \<equiv> fst (splitpoint i)"
    and "right \<equiv> (case snd (splitpoint i) of LeftSide j \<Rightarrow> False | RightSide j \<Rightarrow> True)"
    and "idx \<equiv> (case snd (splitpoint i) of LeftSide j \<Rightarrow> j | RightSide j \<Rightarrow> j)"
  shows "\<exists>ns1 ns'. (init_read (n_keys n) sp :: ('e, 'k) outcome) = Ok (fst (K ! c)) \<and>
    (init_read (n_vals n) sp :: ('e, 'v) outcome) = Ok (snd (K ! c)) \<and>
    (copy_right_half_leaf p q sp ns :: (('k, 'v) nodes, 'e, unit) run) = (Ok (), ns1) \<and>
    (leaf_slice_insert (if right then q else p) idx k v ns1 :: (('k, 'v) nodes, 'e, unit) run) = (Ok (), ns') \<and>
    body_holds ns' (BT p (take c K) []) \<and> body_holds ns' (BT q (drop (c + 1) K) []) \<and> same_link ns ns' p \<and>
    (\<forall>x. x \<notin> {p, q} \<longrightarrow> ns' x = ns x) \<and>
    entry_at ns' (Handle (NodeRef 0 (if right then q else p)) idx) (k, v)"
proof -
  have sp: "sp \<le> 6" "sp < length kvs"
    using splitpoint_bound [of i sp "snd (splitpoint i)"] assms(3) by (simp_all add: CAPACITY_def sp_def)
  obtain n' m' where copy:
    "(copy_right_half_leaf p q sp ns :: (('k, 'v) nodes, 'e, unit) run) = (Ok (), ns(q \<mapsto> m', p \<mapsto> n'))"
    "node_body n' (take sp kvs) []" "node_body m' (drop (sp + 1) kvs) []"
    "n_parent n' = n_parent n" "n_parent_idx n' = n_parent_idx n"
    by (rule copy_right_half_leaf_node [where 'e = 'e, OF assms(1,5,7,2,3) sp(1) assms(6)])
  let ?ns1 = "ns(q \<mapsto> m', p \<mapsto> n')"
  have reads: "(init_read (n_keys n) sp :: ('e, 'k) outcome) = Ok (fst (kvs ! sp))"
    "(init_read (n_vals n) sp :: ('e, 'v) outcome) = Ok (snd (kvs ! sp))"
    using assms(2) sp(2) slots_read [of "n_keys n" "map fst kvs" sp] slots_read [of "n_vals n" "map snd kvs" sp]
    by (simp_all add: node_body_def)
  have at: "?ns1 p = Some n'" "?ns1 q = Some m'" using assms(7) by auto
  show ?thesis
  proof (cases rule: splitpoint_cases [of i])
    case (left s)
    then have s: "sp = s" "c = s + 1" "right = False" "idx = i"
      by (simp_all add: sp_def c_def right_def idx_def)
    have len: "length (take sp kvs) < CAPACITY" "i \<le> length (take sp kvs)"
      using sp left(2) s(1) assms(3) by auto
    obtain n'' where ins:
      "(leaf_slice_insert p i k v ?ns1 :: (('k, 'v) nodes, 'e, unit) run) = (Ok (), ?ns1(p \<mapsto> n''))"
      "node_body n'' (ins_at i (k, v) (take sp kvs)) []" "n_parent n'' = n_parent n'" "n_parent_idx n'' = n_parent_idx n'"
      by (rule leaf_slice_insert_node [where 'e = 'e and ns = ?ns1 and k = k and v = v, OF at(1) copy(2) len]) (rule that)
    have KT: "take c K = ins_at i (k, v) (take sp kvs)" "K ! c = kvs ! sp" "drop (c + 1) K = drop (sp + 1) kvs"
      using left(2) sp take_ins_ge [of i s kvs "(k, v)"] nth_ins_ge [of i s kvs "(k, v)"]
        drop_ins_ge [of i "s + 1" kvs "(k, v)"]
      unfolding K_def s by simp_all
    have "entry_at (?ns1(p \<mapsto> n'')) (Handle (NodeRef 0 p) i) (ins_at i (k, v) (take sp kvs) ! i)"
      using ins(2) len(2) by (intro entry_at_body [where n = n'' and es = "[]"]) auto
    moreover have "ins_at i (k, v) (take sp kvs) ! i = (k, v)" using len(2) by (simp add: nth_append)
    ultimately have "entry_at (?ns1(p \<mapsto> n'')) (Handle (NodeRef 0 p) i) (k, v)" by simp
    moreover have "same_link ns (?ns1(p \<mapsto> n'')) p"
      using assms(1) copy(4,5) ins(3,4) by (simp add: same_link_def)
    ultimately show ?thesis
      using reads copy(1,3) ins(1,2) at(2) assms(7)
      by - (rule exI [of _ ?ns1], rule exI [of _ "?ns1(p \<mapsto> n'')"], simp add: KT(1,2) KT(3) [simplified] s(3,4))
  next
    case (right s)
    then have s: "sp = s" "c = s" "right = True" "idx = i - (s + 1)"
      by (simp_all add: sp_def c_def right_def idx_def)
    let ?i = "i - (s + 1)"
    have len: "length (drop (sp + 1) kvs) < CAPACITY" "?i \<le> length (drop (sp + 1) kvs)"
      using sp right(2) s(1) assms(3,4) by auto
    obtain m'' where ins:
      "(leaf_slice_insert q ?i k v ?ns1 :: (('k, 'v) nodes, 'e, unit) run) = (Ok (), ?ns1(q \<mapsto> m''))"
      "node_body m'' (ins_at ?i (k, v) (drop (sp + 1) kvs)) []"
      by (rule leaf_slice_insert_node [where 'e = 'e and ns = ?ns1 and k = k and v = v, OF at(2) copy(3) len]) (rule that)
    have KT: "take c K = take sp kvs" "K ! c = kvs ! sp" "drop (c + 1) K = ins_at ?i (k, v) (drop (sp + 1) kvs)"
      using right(2) assms(3,4) take_ins_lt [of s i kvs "(k, v)"] nth_ins_lt [of s i kvs "(k, v)"]
        drop_ins_lt [of "s + 1" i kvs "(k, v)"]
      unfolding K_def s by simp_all
    have "entry_at (?ns1(q \<mapsto> m'')) (Handle (NodeRef 0 q) ?i) (ins_at ?i (k, v) (drop (sp + 1) kvs) ! ?i)"
      using ins(2) len(2) by (intro entry_at_body [where n = m'' and es = "[]"]) auto
    moreover have "ins_at ?i (k, v) (drop (sp + 1) kvs) ! ?i = (k, v)" using len(2) by (simp add: nth_append)
    ultimately have "entry_at (?ns1(q \<mapsto> m'')) (Handle (NodeRef 0 q) ?i) (k, v)" by simp
    moreover have "same_link ns (?ns1(q \<mapsto> m'')) p"
      using assms(1,7) copy(4,5) by (simp add: same_link_def)
    ultimately show ?thesis
      using reads copy(1,2) ins(1,2) at(1) assms(7)
      by - (rule exI [of _ ?ns1], rule exI [of _ "?ns1(q \<mapsto> m'')"], simp add: KT(1,2) KT(3) [simplified] s(3,4))
  qed
qed

section \<open>The fresh root\<close>

lemma grow_root_holds:
  assumes "ns nr = Some m" and "blank_internal m" and "tree_holds ns l" and "body_holds ns r"
    and "distinct (addrs l @ addrs r @ [nr])"
  shows "\<exists>ns'. (grow_root nr (baddr l) kv (baddr r) ns :: (('k, 'v) nodes, 'e, unit) run) = (Ok (), ns') \<and>
    tree_holds ns' (BT nr [kv] [l, r]) \<and> (\<forall>x. x \<notin> {nr, baddr l, baddr r} \<longrightarrow> ns' x = ns x) \<and>
    (\<forall>x. x \<noteq> nr \<longrightarrow> same_body ns ns' x)"
proof -
  obtain ln rn where c: "ns (baddr l) = Some ln" "ns (baddr r) = Some rn"
    using assms(3,4) body_holds_root by (fastforce simp: tree_holds_def)
  have ap: "baddr l \<notin> set (addrs r)" "baddr r \<notin> set (addrs l)"
    using assms(5) by (auto simp: disjoint_iff)
  then have ne: "nr \<noteq> baddr l" "nr \<noteq> baddr r" "baddr l \<noteq> baddr r"
    using assms(5) by auto
  let ?m = "m\<lparr>n_parent := None, n_len := 1, n_keys := (n_keys m)[0 := Some (fst kv)],
    n_vals := (n_vals m)[0 := Some (snd kv)], n_edges := (n_edges m)[0 := Some (baddr l), 1 := Some (baddr r)]\<rparr>"
  let ?ns = "ns(baddr l \<mapsto> with_link nr 0 ln, nr \<mapsto> ?m, baddr r \<mapsto> with_link nr 1 rn)"
  have "(grow_root nr (baddr l) kv (baddr r) ns :: (('k, 'v) nodes, 'e, unit) run) = (Ok (), ?ns)"
    using assms(1) c ne by (auto simp: grow_root_def set_parent_link_def with_link_def fun_upd_twist Let_def)
  moreover have "body_holds ?ns l"
  proof (rule body_holds_frame(1))
    show "body_holds (ns(baddr l \<mapsto> with_link nr 0 ln)) l"
      using assms(3,5) c by (intro body_holds_relinked) (auto simp: tree_holds_def)
    show "?ns x = (ns(baddr l \<mapsto> with_link nr 0 ln)) x" if "x \<in> set (addrs l)" for x
      using that assms(5) ap by auto
  qed
  moreover have "body_holds ?ns r"
  proof (rule body_holds_frame(1))
    show "body_holds (ns(baddr r \<mapsto> with_link nr 1 rn)) r"
      using assms(4,5) c by (intro body_holds_relinked) auto
    show "?ns x = (ns(baddr r \<mapsto> with_link nr 1 rn)) x" if "x \<in> set (addrs r)" for x
      using that assms(5) ap by auto
  qed
  moreover have "node_body ?m [kv] [baddr l, baddr r]"
  proof -
    have "0 < length (n_keys m)" "0 < length (n_vals m)" "1 < length (n_edges m)"
      using assms(2) by (simp_all add: blank_internal_def blank_def CAPACITY_def)
    then show ?thesis
      using assms(2)
      by (cases "n_keys m"; cases "n_vals m"; cases "n_edges m"; cases "tl (n_edges m)")
        (auto simp: node_body_def slots_def blank_internal_def blank_def)
  qed
  moreover have "\<forall>x. x \<noteq> nr \<longrightarrow> same_body ns ?ns x"
    using c by (auto simp: same_body_def with_link_def)
  ultimately show ?thesis
    using ne by (intro exI [of _ ?ns]) (auto simp: tree_holds_def linked_def unlinked_def with_link_def)
qed

section \<open>Commit\<close>

text \<open>The child a frame comes from stands between its separators.\<close>

definition aligned :: "('k, 'v) frame list \<Rightarrow> bool" where
  "aligned fs \<longleftrightarrow> (\<forall>f \<in> set fs. length (fr_lts f) = length (fr_lks f))"

lemma root_shape_plugD:
  "root_shape (h + length fs) (plug t fs) \<Longrightarrow> aligned fs \<Longrightarrow>
   (if fs = [] then root_shape h t else sub_shape h t) \<and> path_shape h fs"
proof (induction fs arbitrary: h t)
  case (Cons f fs)
  obtain a lk rk lts rts where f: "f = Frame a lk rk lts rts" by (cases f)
  have "(if fs = [] then root_shape (Suc h) (BT a (lk @ rk) (lts @ t # rts))
      else sub_shape (Suc h) (BT a (lk @ rk) (lts @ t # rts))) \<and> path_shape (Suc h) fs"
    using Cons.prems f by (intro Cons.IH) (simp_all add: aligned_def)
  then show ?case using f Cons.prems(2) by (auto simp: aligned_def split: if_splits)
qed simp

lemma on_nodes_eq: "f (bt_nodes s) = (r, ns) \<Longrightarrow> on_nodes f s = (r, s\<lparr>bt_nodes := ns\<rparr>)"
  by (simp add: on_nodes_def)

lemma count_entry_eq:
  "bt_length s < usize_max \<Longrightarrow> count_entry s = (Ok (), s\<lparr>bt_length := bt_length s + 1\<rparr>)"
  by (simp add: count_entry_def checked_add_def)

text \<open>The fields a commit does not touch.\<close>

definition same_rest :: "('k, 'v) bstate \<Rightarrow> ('k, 'v) bstate \<Rightarrow> bool" where
  "same_rest s s' \<longleftrightarrow> bt_next s' = bt_next s \<and> probe_buf s' = probe_buf s \<and>
     reserved_buf s' = reserved_buf s \<and> bt_heap s' = bt_heap s"

lemma commit_split_holds:
  fixes k :: 'k and v :: 'v
  defines "right \<equiv> (\<lambda>i. case snd (splitpoint i) of LeftSide j \<Rightarrow> False | RightSide j \<Rightarrow> True)"
    and "idx \<equiv> (\<lambda>i. case snd (splitpoint i) of LeftSide j \<Rightarrow> j | RightSide j \<Rightarrow> j)"
  assumes t: "t = plug (BT p kvs []) fs" "tree_holds (bt_nodes s) t" "root_shape (length fs) t" "aligned fs"
    and apart: "distinct (addrs t @ q # rs)" and root: "bt_root s = Some (NodeRef (length fs) (baddr t))"
    and full: "length kvs = CAPACITY" "i \<le> CAPACITY"
    and q: "bt_nodes s q = Some m" "blank m"
    and rs: "length rs = splits fs" "\<And>r. r \<in> set rs \<Longrightarrow> \<exists>m. bt_nodes s r = Some m \<and> blank_internal m"
    and small: "bt_length s < usize_max" "length fs < usize_max"
    and plan: "cp_orig_leaf plan = p" "cp_leaf_sp plan = fst (splitpoint i)" "cp_insert_right plan = right i"
      "cp_insert_idx plan = idx i" "items (cp_internals plan) = plan_of fs"
  shows "\<exists>e s' t'. (commit_split plan q rs k v s :: (('k, 'v) bstate, 'e, handle) run) = (Ok e, s') \<and>
    tree_holds (bt_nodes s') t' \<and> root_shape (nr_height (the (bt_root s'))) t' \<and>
    bt_root s' = Some (NodeRef (nr_height (the (bt_root s'))) (baddr t')) \<and>
    flat t' = plug_flat (ins_at i (k, v) kvs) fs \<and> mset (addrs t') = mset (addrs t @ q # rs) \<and>
    bt_length s' = bt_length s + 1 \<and> same_rest s s' \<and>
    (\<forall>x. x \<notin> set (addrs t @ q # rs) \<longrightarrow> bt_nodes s' x = bt_nodes s x) \<and> entry_at (bt_nodes s') e (k, v)"
proof -
  let ?ns = "bt_nodes s" and ?K = "ins_at i (k, v) kvs" and ?c = "cut_at i"
  let ?l = "BT p (take ?c ?K) []" and ?r = "BT q (drop (?c + 1) ?K) []"
  let ?ins = "if right i then q else p"
  obtain n where n: "?ns p = Some n" "node_body n kvs []" and path: "path_holds ?ns p fs"
    using t(1,2) by (auto simp: tree_holds_plug)
  have ms: "mset (addrs t) = {#p#} + mset (path_addrs fs)" using t(1) by (simp add: mset_plug)
  have "mset (p # q # path_addrs fs @ rs) = mset (addrs t @ q # rs)" using ms by simp
  then have dist: "distinct (p # q # path_addrs fs @ rs)" and sets: "set (addrs t @ q # rs) = set (p # q # path_addrs fs @ rs)"
    using apart mset_eq_imp_distinct_iff mset_eq_setD by blast+
  have pq: "p \<noteq> q" using dist by auto
  obtain ns1 ns2 where lf: "(init_read (n_keys n) (fst (splitpoint i)) :: ('e, 'k) outcome) = Ok (fst (?K ! ?c))"
    "(init_read (n_vals n) (fst (splitpoint i)) :: ('e, 'v) outcome) = Ok (snd (?K ! ?c))"
    "(copy_right_half_leaf p q (fst (splitpoint i)) ?ns :: (('k, 'v) nodes, 'e, unit) run) = (Ok (), ns1)"
    "(leaf_slice_insert ?ins (idx i) k v ns1 :: (('k, 'v) nodes, 'e, unit) run) = (Ok (), ns2)"
    "body_holds ns2 ?l" "body_holds ns2 ?r" "same_link ?ns ns2 p" "\<And>x. x \<notin> {p, q} \<Longrightarrow> ns2 x = ?ns x"
    "entry_at ns2 (Handle (NodeRef 0 ?ins) (idx i)) (k, v)"
    using split_leaf_holds [OF n full q pq, where 'e = 'e and k = k and v = v] unfolding right_def idx_def by blast
  have lenK: "length ?K = CAPACITY + 1" using full by simp
  have c: "5 \<le> ?c" "?c \<le> 6" by (rule cut_bounds)+
  have shape: "sub_shape 0 ?l" "sub_shape 0 ?r"
    using lenK c by (simp_all add: MIN_LEN_def CAPACITY_def del: length_append take_append drop_append)
  have pshape: "path_shape 0 fs" using root_shape_plugD [of 0 fs "BT p kvs []"] t by simp
  have hole: "flat ?l @ ?K ! ?c # flat ?r = ?K"
    using id_take_nth_drop [of ?c ?K] lenK c by (simp add: CAPACITY_def del: length_append take_append drop_append)
  have "\<exists>out ns3. (promote (plan_of fs) rs (NodeRef 0 (baddr ?l)) (NodeRef 0 (baddr ?r)) (?K ! ?c) ns2
        :: (('k, 'v) nodes, 'e, _) run) = (Ok out, ns3) \<and>
      climbed ns3 (0 + length fs) (baddr (plug ?l fs)) (plug_flat (flat ?l @ ?K ! ?c # flat ?r) fs)
        (mset (addrs ?l @ addrs ?r @ path_addrs fs @ rs)) out \<and> (out = None \<longleftrightarrow> \<not> all_full fs) \<and>
      (\<forall>x. x \<notin> set (addrs ?l @ addrs ?r @ path_addrs fs @ rs) \<longrightarrow> ns3 x = ns2 x) \<and>
      (\<forall>x. x \<notin> set (path_addrs fs @ rs) \<longrightarrow> same_body ns2 ns3 x) \<and>
      (\<forall>rs' rest. out = Some (rs', rest) \<longrightarrow> set rs' \<subseteq> set rs)"
  proof (rule promote_holds)
    have "path_holds ns2 p fs"
    proof (rule path_holds_frame [OF _ lf(7) path])
      show "ns2 x = ?ns x" if "x \<in> set (path_addrs fs)" for x using that dist by (intro lf(8)) auto
    qed
    then show "path_holds ns2 (baddr ?l) fs" by simp
    show "\<exists>m. ns2 r = Some m \<and> blank_internal m" if "r \<in> set rs" for r
    proof -
      have "ns2 r = ?ns r" using that dist by (intro lf(8)) auto
      with rs(2) that show ?thesis by simp
    qed
    show "distinct (addrs ?l @ addrs ?r @ path_addrs fs @ rs)" using dist by simp
  qed (use lf(5,6) shape pshape rs(1) small(2) in simp_all)
  note climb = this
  obtain out ns3 where up: "(promote (plan_of fs) rs (NodeRef 0 p) (NodeRef 0 q) (?K ! ?c) ns2
        :: (('k, 'v) nodes, 'e, _) run) = (Ok out, ns3)"
      "climbed ns3 (length fs) (baddr t) (plug_flat ?K fs) (mset (addrs t @ q # rs)) out"
      "\<And>x. x \<notin> set (addrs t @ q # rs) \<Longrightarrow> ns3 x = ns2 x" "\<And>x. x \<notin> set (path_addrs fs @ rs) \<Longrightarrow> same_body ns2 ns3 x"
      "\<forall>rs' rest. out = Some (rs', rest) \<longrightarrow> set rs' \<subseteq> set rs"
  proof -
    have "baddr (plug ?l fs) = baddr t" using t(1) by (simp add: baddr_plug)
    moreover have "mset (addrs ?l @ addrs ?r @ path_addrs fs @ rs) = mset (addrs t @ q # rs)" using ms by simp
    moreover from this have "set (addrs ?l @ addrs ?r @ path_addrs fs @ rs) = set (addrs t @ q # rs)" by (rule mset_eq_setD)
    ultimately show thesis using that climb by (simp only: hole add_0 btree.sel) blast
  qed
  have frame3: "ns3 x = ?ns x" if "x \<notin> set (addrs t @ q # rs)" for x
  proof -
    have "x \<notin> {p, q}" using that unfolding sets by simp
    with up(3) [OF that] lf(8) show ?thesis by simp
  qed
  have ent: "entry_at ns3 (Handle (NodeRef 0 ?ins) (idx i)) (k, v)"
    using lf(9) dist by (intro entry_at_same_body [OF up(4)]) auto
  let ?s3 = "s\<lparr>bt_nodes := ns3\<rparr>"
  let ?e = "Handle (NodeRef 0 ?ins) (idx i)"
  let ?done = "\<lambda>s. map_ok_run (\<lambda>_. finish_commit ?ins (idx i)) (count_entry s) :: (('k, 'v) bstate, 'e, handle) run"
  have run: "(commit_split plan q rs k v s :: (('k, 'v) bstate, 'e, handle) run) =
      (case out of
         None \<Rightarrow> ?done ?s3
       | Some ([], _) \<Rightarrow> (Panic ''a root node was reserved when new_root is set'', ?s3)
       | Some (nr # _, left, right, kv) \<Rightarrow>
           (case (checked_add (nr_height left) 1, bt_root ?s3) of
              (None, _) \<Rightarrow> (Panic ''tree height fits in usize'', ?s3)
            | (_, None) \<Rightarrow> (Panic ''root exists'', ?s3)
            | (Some new_height, Some old_root) \<Rightarrow>
                and_then (on_nodes (grow_root nr (nr_node old_root) kv (nr_node right)) (?s3\<lparr>bt_root := None\<rparr>)) (\<lambda>_ s.
                  ?done (s\<lparr>bt_root := Some (NodeRef new_height nr)\<rparr>))))"
    using n(1) lf(1-4) up(1) unfolding commit_split_def plan
    by (simp add: on_nodes_def Let_def)
  show ?thesis
  proof (cases out)
    case None
    then obtain t' where "tree_holds ns3 t'" "baddr t' = baddr t" "root_shape (length fs) t'"
      "flat t' = plug_flat ?K fs" "mset (addrs t') = mset (addrs t @ q # rs)" using up(2) by auto
    with None show ?thesis
      using small(1) root frame3 ent
      by (intro exI [of _ ?e] exI [of _ "?s3\<lparr>bt_length := bt_length s + 1\<rparr>"] exI [of _ t'])
        (simp add: run count_entry_eq finish_commit_def same_rest_def)
  next
    case (Some o')
    then obtain nr nm l r kv where o': "o' = ([nr], NodeRef (length fs) (baddr t), NodeRef (length fs) (baddr r), kv)"
      "ns3 nr = Some nm" "blank_internal nm" "baddr l = baddr t" "tree_holds ns3 l" "body_holds ns3 r"
      "sub_shape (length fs) l" "sub_shape (length fs) r" "flat l @ kv # flat r = plug_flat ?K fs"
      "mset (addrs l) + mset (addrs r) + {#nr#} = mset (addrs t @ q # rs)"
      using up(2) by (cases o') auto
    have all: "mset (addrs l @ addrs r @ [nr]) = mset (addrs t @ q # rs)" using o'(10) by simp
    then have dl: "distinct (addrs l @ addrs r @ [nr])" and sl: "set (addrs l @ addrs r @ [nr]) = set (addrs t @ q # rs)"
      using apart mset_eq_imp_distinct_iff mset_eq_setD by blast+
    obtain ns4 where g: "(grow_root nr (baddr l) kv (baddr r) ns3 :: (('k, 'v) nodes, 'e, unit) run) = (Ok (), ns4)"
      "tree_holds ns4 (BT nr [kv] [l, r])" "\<And>x. x \<notin> {nr, baddr l, baddr r} \<Longrightarrow> ns4 x = ns3 x"
      "\<And>x. x \<noteq> nr \<Longrightarrow> same_body ns3 ns4 x"
      using grow_root_holds [OF o'(2,3,5,6) dl, where 'e = 'e and kv = kv] by blast
    have frame4: "ns4 x = ?ns x" if x: "x \<notin> set (addrs t @ q # rs)" for x
    proof -
      have "x \<notin> {nr, baddr l, baddr r}"
        using x baddr_in_addrs [of l] baddr_in_addrs [of r] unfolding sl [symmetric] by auto
      with g(3) frame3 [OF x] show ?thesis by simp
    qed
    have "nr \<in> set rs" using up(5) Some o'(1) by auto
    then have "nr \<noteq> ?ins" using dist by auto
    then have ent4: "entry_at ns4 ?e (k, v)" using ent by (intro entry_at_same_body [OF g(4)]) auto
    have rootsh: "root_shape (Suc (length fs)) (BT nr [kv] [l, r])" using o'(7,8) by (simp add: CAPACITY_def)
    have chk: "checked_add (length fs) (Suc 0) = Some (Suc (length fs))" using small(2) by (simp add: checked_add_def)
    let ?s' = "s\<lparr>bt_nodes := ns4, bt_root := Some (NodeRef (Suc (length fs)) nr), bt_length := bt_length s + 1\<rparr>"
    have "(commit_split plan q rs k v s :: (('k, 'v) bstate, 'e, handle) run) = (Ok ?e, ?s')"
      using small(1) root g(1) o'(4)
      by (simp add: run Some o'(1) chk on_nodes_def count_entry_eq finish_commit_def)
    then show ?thesis
      using g(2) rootsh o'(9,10) frame4 ent4
      by (intro exI [of _ ?e] exI [of _ ?s'] exI [of _ "BT nr [kv] [l, r]"]) (simp add: same_rest_def)
  qed
qed

end
