(* ===== verification/BTreeReserve.thy ===== *)
theory BTreeReserve
  imports BTreeInsert
begin

text \<open>
  The three phases together: the probe records the plan of the path, the reserve phase takes
  exactly the nodes the plan needs, the commit consumes them. A failure before the commit leaves
  the map and the node store as they were.
\<close>

section \<open>What a state of the map represents\<close>

definition bt_holds :: "('k, 'v) bstate \<Rightarrow> ('k \<times> 'v) list \<Rightarrow> bool" where
  "bt_holds s xs \<longleftrightarrow>
     (\<forall>a \<ge> bt_next s. bt_nodes s a = None) \<and> bt_length s = length xs \<and>
     (case bt_root s of
        None \<Rightarrow> xs = []
      | Some r \<Rightarrow>
          (\<exists>t. baddr t = nr_node r \<and> tree_holds (bt_nodes s) t \<and> root_shape (nr_height r) t \<and>
             distinct (addrs t) \<and> flat t = xs))"

definition same_map :: "('k, 'v) bstate \<Rightarrow> ('k, 'v) bstate \<Rightarrow> bool" where
  "same_map s s' \<longleftrightarrow>
     bt_root s' = bt_root s \<and> bt_length s' = bt_length s \<and> bt_nodes s' = bt_nodes s \<and> bt_next s \<le> bt_next s'"

lemma same_map_trans: "same_map s s1 \<Longrightarrow> same_map s1 s2 \<Longrightarrow> same_map s s2"
  by (auto simp: same_map_def)

lemma bt_holds_same_map: "bt_holds s xs \<Longrightarrow> same_map s s' \<Longrightarrow> bt_holds s' xs"
  by (auto simp: bt_holds_def same_map_def split: option.splits)

lemma body_holds_dom: "body_holds ns t \<Longrightarrow> x \<in> set (addrs t) \<Longrightarrow> ns x \<noteq> None"
  "kids_hold ns a i ts \<Longrightarrow> x \<in> set (forest_addrs ts) \<Longrightarrow> ns x \<noteq> None"
proof (induction ns t and ns a i ts rule: body_holds_kids_hold.induct)
  case (1 ns a kvs ts)
  then show ?case by (cases "x = a") auto
next
  case (3 ns a i t ts)
  then show ?case by (cases "x \<in> set (addrs t)") auto
qed simp

section \<open>Heights\<close>

lemma length_weave:
  "length xs = length ks + 1 \<Longrightarrow> length (weave xs ks) = sum_list (map length xs) + length ks"
proof (induction ks arbitrary: xs)
  case Nil
  then show ?case by (cases xs) (auto simp: length_concat)
next
  case (Cons k ks)
  then show ?case by (cases xs) auto
qed

lemma sum_list_ge: "(\<And>x. x \<in> set xs \<Longrightarrow> c \<le> f x) \<Longrightarrow> length xs * c \<le> sum_list (map f xs)" for c :: nat
  by (induction xs) (auto intro: add_le_mono)

lemma kids_entries:
  assumes "length ts = length kvs + 1" and "n \<le> length kvs"
    and "\<And>t. t \<in> set ts \<Longrightarrow> c \<le> length (flat t) + 1"
  shows "(n + 1) * c \<le> length (flat (BT a kvs ts)) + 1"
proof -
  have "(n + 1) * c \<le> length ts * c" using assms(1,2) by (intro mult_le_mono1) simp
  also have "\<dots> \<le> sum_list (map (\<lambda>t. length (flat t) + 1) ts)" by (rule sum_list_ge) (rule assms(3))
  also have "\<dots> = sum_list (map (length \<circ> flat) ts) + length ts" by (induction ts) simp_all
  finally show ?thesis using assms(1) length_weave [of "map flat ts" kvs] by simp
qed

lemma sub_shape_entries: "sub_shape h t \<Longrightarrow> 6 ^ Suc h \<le> length (flat t) + 1"
proof (induction h arbitrary: t)
  case 0
  then show ?case by (cases t) (simp add: MIN_LEN_def)
next
  case (Suc h)
  obtain a kvs ts where t: "t = BT a kvs ts" by (cases t)
  have "(MIN_LEN + 1) * 6 ^ Suc h \<le> length (flat (BT a kvs ts)) + 1"
    using Suc t by (intro kids_entries) auto
  then show ?case unfolding t by (simp add: MIN_LEN_def)
qed

lemma root_shape_entries: "root_shape h t \<Longrightarrow> 2 * 6 ^ h \<le> length (flat t) + 1"
proof (cases h)
  case 0
  then show "root_shape h t \<Longrightarrow> ?thesis" by (cases t) simp
next
  case (Suc g)
  assume *: "root_shape h t"
  obtain a kvs ts where t: "t = BT a kvs ts" by (cases t)
  have "(1 + 1) * 6 ^ Suc g \<le> length (flat (BT a kvs ts)) + 1"
    using * Suc t sub_shape_entries by (intro kids_entries) auto
  then show ?thesis unfolding t Suc by simp
qed

lemma height_small:
  assumes "root_shape h t" and "length (flat t) \<le> usize_max"
  shows "h < 64"
proof (rule ccontr)
  assume "\<not> h < 64"
  then have "(2::nat) ^ 64 \<le> 2 ^ h" by (intro power_increasing) simp_all
  also have "\<dots> \<le> 6 ^ h" by (rule power_mono) simp_all
  finally have "(2::nat) ^ 64 \<le> 6 ^ h" .
  with root_shape_entries [OF assms(1)] assms(2) show False by (simp add: usize_max_def)
qed

lemma splits_le: "splits fs \<le> length fs + 1"
  using le_trans [OF length_filter_le length_plan_of, of ci_will_split fs] by (auto simp: splits_def)

section \<open>Buffers and nodes\<close>

text \<open>With memory to spare nothing fails: the requests of an insertion are small.\<close>

lemma small_grow:
  assumes "n \<le> 65" and "0 < lsize l" and "lsize l \<le> 40" and "lalign l = 8"
  shows "grow_cap (vec_new l :: 'a vec) n \<noteq> None"
proof -
  let ?c = "max (min_non_zero_cap (lsize l)) n"
  have "?c \<le> 65" using assms(1) by (simp add: min_non_zero_cap_def)
  then have "?c * lsize l \<le> 65 * 40" using assms(3) by (intro mult_le_mono) simp_all
  then have "\<not> isize_max + 1 - lalign l < ?c * lsize l" using assms(4) by (simp add: isize_max_def)
  moreover have "n \<le> usize_max" using assms(1) by (simp add: usize_max_def)
  ultimately show ?thesis using assms(2) by (simp add: grow_cap_def Let_def vec_new_def checked_add_def)
qed

lemma scratch_take_cases:
  assumes "0 < lsize l" and "lsize l \<le> 40" and "lalign l = 8"
  obtains (ok) v h' where "(scratch_take l n c h :: (alloc_error, 'a vec) outcome \<times> heap) = (Ok v, h')"
      and "items v = []" and "n \<le> cap v" and "generous h \<Longrightarrow> generous h'"
  | (failed) h' where "(scratch_take l n c h :: (alloc_error, 'a vec) outcome \<times> heap) = (Err AllocError, h')"
      and "n \<le> 65 \<Longrightarrow> \<not> generous h"
proof (cases "\<exists>k. c = Some k \<and> n \<le> k")
  case True
  then obtain k where "c = Some k" "n \<le> k" by blast
  then show thesis by (intro ok [of "Vec [] k l" h]) (simp_all add: scratch_take_def)
next
  case False
  then have eq: "(scratch_take l n c h :: (alloc_error, 'a vec) outcome \<times> heap) = map_err_run (\<lambda>_. AllocError) (vec_try_with_capacity l n h :: (try_reserve_error, 'a vec) outcome \<times> heap)"
    by (auto simp: scratch_take_def split: option.splits)
  have v: "vec_ok (vec_new l :: 'a vec)" using assms by simp
  have live: "\<exists>c' h'. vec_try_reserve n (vec_new l :: 'a vec, h) = (Ok (), (with_cap c' (vec_new l), h')) \<and> generous h'"
    if "generous h" "grow_cap (vec_new l :: 'a vec) n \<noteq> None"
    using that by (rule vec_try_reserve_generous)
  show thesis
  proof (cases "n = 0")
    case True
    show thesis
      by (rule ok [of "vec_new l" h]) (simp_all add: eq [unfolded True] True vec_try_with_capacity_def into_vec_def)
  next
    case False
    show thesis
    proof (cases rule: vec_try_reserve_cases [OF v, of n h])
      case (1 v' h')
      have "generous h'" if "generous h"
      proof (cases "grow_cap (vec_new l :: 'a vec) n = None")
        case True
        then have "vec_try_reserve n (vec_new l :: 'a vec, h) = (Err new_capacity_overflow, (vec_new l, h))"
          using False assms(1) by (simp add: vec_try_reserve_def grow_amortized_def vec_new_def)
        then show ?thesis using 1 by simp
      next
        case False
        then show ?thesis using live [OF that] 1 by simp
      qed
      with 1 show thesis using False
        by (intro ok [of v' h']) (simp_all add: eq vec_try_with_capacity_def into_vec_def)
    next
      case (2 e h')
      have "\<not> generous h" if "n \<le> 65"
        using live [OF _ small_grow [OF that assms]] 2 by auto
      with 2 show thesis using False
        by (intro failed [of h']) (simp_all add: eq vec_try_with_capacity_def into_vec_def)
    qed
  qed
qed

lemma layouts_ok [simp]:
  "0 < lsize commit_internal_l" "lsize commit_internal_l \<le> 40" "lalign commit_internal_l = 8"
  "0 < lsize box_l" "lsize box_l \<le> 40" "lalign box_l = 8" "lsize box_l = 8"
  by (simp_all add: commit_internal_l_def box_l_def)

lemma alloc_node_cases:
  obtains (ok) h where "alloc_node l n s = (Ok (bt_next s),
      s\<lparr>bt_heap := h, bt_nodes := (bt_nodes s)(bt_next s \<mapsto> n), bt_next := bt_next s + 1\<rparr>)"
      and "generous (bt_heap s) \<Longrightarrow> generous h"
  | (failed) h where "alloc_node l n s = (Err AllocError, s\<lparr>bt_heap := h\<rparr>)" and "\<not> generous (bt_heap s)"
proof (cases rule: alloc_box_uninit_cases [of l "bt_heap s"])
  case (Ok h)
  then show thesis using alloc_box_generous [of "bt_heap s" l] by (intro ok [of h]) (auto simp: alloc_node_def)
next
  case (Err h)
  then show thesis using alloc_box_generous [of "bt_heap s" l] by (intro failed [of h]) (auto simp: alloc_node_def)
qed

text \<open>The store with the next \<open>n\<close> nodes handed out.\<close>

definition fresh_nodes :: "addr \<Rightarrow> nat \<Rightarrow> ('k, 'v) nodes \<Rightarrow> ('k, 'v) nodes" where
  "fresh_nodes a n ns = (\<lambda>x. if a \<le> x \<and> x < a + n then Some empty_internal else ns x)"

lemma fresh_nodes_0 [simp]: "fresh_nodes a 0 ns = ns"
  by (auto simp: fresh_nodes_def fun_eq_iff)

lemma fresh_nodes_Suc: "fresh_nodes (a + 1) n (ns(a \<mapsto> empty_internal)) = fresh_nodes a (Suc n) ns"
  by (auto simp: fresh_nodes_def fun_eq_iff)

lemma reserve_internals_cases:
  assumes "vlen buf + n \<le> cap buf"
  obtains (ok) h where "reserve_internals L n buf s = (Ok (with_items (items buf @ [bt_next s..<bt_next s + n]) buf),
      s\<lparr>bt_heap := h, bt_nodes := fresh_nodes (bt_next s) n (bt_nodes s), bt_next := bt_next s + n\<rparr>)"
      and "generous (bt_heap s) \<Longrightarrow> generous h"
  | (failed) j h where "j < n"
      and "reserve_internals L n buf s = (Err (with_items (items buf @ [bt_next s..<bt_next s + j]) buf, AllocError),
      s\<lparr>bt_heap := h, bt_nodes := fresh_nodes (bt_next s) j (bt_nodes s), bt_next := bt_next s + j\<rparr>)"
      and "\<not> generous (bt_heap s)"
  using assms
proof (induction n arbitrary: buf s thesis)
  case 0
  show thesis by (rule "0.prems"(1) [of "bt_heap s"]) (cases buf; simp add: with_items_def)+
next
  case (Suc n)
  show thesis
  proof (cases rule: alloc_node_cases [of "internal_l L" empty_internal s])
    case (failed h)
    show thesis
      by (rule Suc.prems(2) [of 0 h]) (use failed in \<open>cases buf; simp add: try_new_internal_box_def with_items_def\<close>)+
  next
    case (ok h)
    let ?s = "s\<lparr>bt_heap := h, bt_nodes := (bt_nodes s)(bt_next s \<mapsto> empty_internal), bt_next := bt_next s + 1\<rparr>"
    let ?buf = "with_items (items buf @ [bt_next s]) buf"
    have push: "(vec_push (bt_next s) (buf, h) :: (addr vstate, alloc_error, unit) run) = (Ok (), (?buf, h))"
      using Suc.prems(3) by (intro vec_push_room) simp
    then have step: "reserve_internals L (Suc n) buf s = reserve_internals L n ?buf ?s"
      using ok by (cases s) (simp add: try_new_internal_box_def)
    have upt: "[bt_next s..<Suc (bt_next s + j)] = bt_next s # [Suc (bt_next s)..<Suc (bt_next s + j)]" for j
      using upt_conv_Cons [of "bt_next s" "Suc (bt_next s + j)"] by (simp del: upt_Suc)
    have room: "vlen ?buf + n \<le> cap ?buf" using Suc.prems(3) by simp
    show thesis
    proof (rule Suc.IH [of ?buf ?s, OF _ _ room])
      fix h' assume "reserve_internals L n ?buf ?s = (Ok (with_items (items ?buf @ [bt_next ?s..<bt_next ?s + n]) ?buf),
        ?s\<lparr>bt_heap := h', bt_nodes := fresh_nodes (bt_next ?s) n (bt_nodes ?s), bt_next := bt_next ?s + n\<rparr>)"
        and "generous (bt_heap ?s) \<Longrightarrow> generous h'"
      then show thesis
        using fresh_nodes_Suc [of "bt_next s" n "bt_nodes s"] ok(2) by (intro Suc.prems(1) [of h']) (simp_all add: step upt del: upt_Suc reserve_internals.simps)
    next
      fix j h' assume "j < n" and "reserve_internals L n ?buf ?s =
        (Err (with_items (items ?buf @ [bt_next ?s..<bt_next ?s + j]) ?buf, AllocError),
        ?s\<lparr>bt_heap := h', bt_nodes := fresh_nodes (bt_next ?s) j (bt_nodes ?s), bt_next := bt_next ?s + j\<rparr>)"
        and "\<not> generous (bt_heap ?s)"
      then show thesis
        using fresh_nodes_Suc [of "bt_next s" j "bt_nodes s"] ok(2)
        by (intro Suc.prems(2) [of "Suc j" h']) (auto simp add: step upt simp del: upt_Suc reserve_internals.simps)
    qed
  qed
qed

lemma free_nodes: "fold free_node [a..<a + n] s = s\<lparr>bt_nodes := (\<lambda>x. if a \<le> x \<and> x < a + n then None else bt_nodes s x)\<rparr>"
proof (induction n)
  case (Suc n)
  then show ?case by (cases s) (auto simp: free_node_def fun_eq_iff)
next
  case 0
  then show ?case by (cases s) (auto simp: fun_eq_iff)
qed

lemma push_all_room:
  "vlen v + length xs \<le> cap v \<Longrightarrow>
   (push_all xs (v, h) :: ('a vstate, 'e, unit) run) = (Ok (), (with_items (items v @ xs) v, h))"
proof (induction xs arbitrary: v)
  case Nil
  then show ?case by (cases v) (simp add: with_items_def)
next
  case (Cons x xs)
  have "(vec_push x (v, h) :: ('a vstate, 'e, unit) run) = (Ok (), (with_items (items v @ [x]) v, h))"
    using Cons.prems by (intro vec_push_room) simp
  then show ?case using Cons by simp
qed

lemma drain_cases:
  assumes "vlen v \<le> 65"
  obtains (ok) ptrs h' where "(drain_to_pointers v h :: ('e, addr vec \<times> addr vec) outcome \<times> heap) = (Ok (ptrs, with_items [] v), h')"
      and "items ptrs = items v" and "generous h \<longrightarrow> generous h'"
  | (abort) h' where "(drain_to_pointers v h :: ('e, addr vec \<times> addr vec) outcome \<times> heap) = (Panic ''memory allocation failed'', h')"
      and "\<not> generous h"
proof (cases "vlen v = 0")
  case True
  then show thesis
    by (intro ok [of "vec_new box_l" h]) (simp_all add: drain_to_pointers_def vec_with_capacity_def)
next
  case False
  have small: "\<not> isize_max + 1 - 8 < vlen v * 8" using assms by (simp add: isize_max_def)
  obtain g h' where g: "galloc h = (g, h')" by (cases "galloc h")
  show thesis
  proof (cases g)
    case True
    have "(push_all (items v) (with_cap (vlen v) (vec_new box_l), h') :: (addr vstate, 'e, unit) run) =
        (Ok (), (with_items (items v) (with_cap (vlen v) (vec_new box_l)), h'))"
      using push_all_room [where 'e = 'e, of "with_cap (vlen v) (vec_new box_l)" "items v" h'] by simp
    with True g False small generous_galloc [of h] show thesis
      by (intro ok [of "with_items (items v) (with_cap (vlen v) (vec_new box_l))" h'])
        (simp_all add: drain_to_pointers_def vec_with_capacity_def)
  next
    case no: False
    with g False small generous_galloc [of h] show thesis
      by (intro abort [of h']) (auto simp: drain_to_pointers_def vec_with_capacity_def)
  qed
qed

end
