(* ===== verification/BTreeVacant.thy ===== *)
theory BTreeVacant
  imports BTreeReserve
begin

text \<open>
  Insertion at a leaf edge, from the edge to the answer: what \<open>try_insert_kv\<close> returns and leaves
  behind on every heap.
\<close>

section \<open>Content around a hole\<close>

lemma weave_mid:
  "length xs1 = length ks1 \<Longrightarrow> \<exists>A B. \<forall>y. weave (xs1 @ y # xs2) (ks1 @ ks2) = A @ y @ B"
proof (induction xs1 arbitrary: ks1)
  case Nil
  then show ?case by (cases ks2) (auto intro: exI [of _ "[]"])
next
  case (Cons x xs1)
  then obtain k ks where ks1: "ks1 = k # ks" "length xs1 = length ks" by (cases ks1) auto
  then obtain A B where "\<forall>y. weave (xs1 @ y # xs2) (ks @ ks2) = A @ y @ B" using Cons.IH by blast
  then show ?case using ks1(1) by (intro exI [of _ "x @ k # A"] exI [of _ B]) simp
qed

lemma plug_flat_mid: "aligned fs \<Longrightarrow> \<exists>A B. \<forall>ys. plug_flat ys fs = A @ ys @ B"
proof (induction fs)
  case Nil
  then show ?case by (auto intro: exI [of _ "[]"])
next
  case (Cons f fs)
  obtain a lk rk lts rts where f: "f = Frame a lk rk lts rts" by (cases f)
  obtain A B where ab: "\<forall>ys. plug_flat ys fs = A @ ys @ B" using Cons by (auto simp: aligned_def)
  obtain C D where cd: "\<forall>y. weave (map flat lts @ y # map flat rts) (lk @ rk) = C @ y @ D"
    using weave_mid [of "map flat lts" lk "map flat rts" rk] Cons.prems f by (auto simp: aligned_def)
  show ?case using ab cd f by (intro exI [of _ "A @ C"] exI [of _ "D @ B"]) simp
qed

lemma length_plug_flat_ins:
  assumes "aligned fs" and "i \<le> length kvs"
  shows "length (plug_flat (ins_at i e kvs) fs) = Suc (length (plug_flat kvs fs))"
proof -
  obtain A B where "\<forall>ys. plug_flat ys fs = A @ ys @ B" using plug_flat_mid [OF assms(1)] by blast
  then show ?thesis using assms(2) by simp
qed

lemma tree_holds_frame:
  "tree_holds ns t \<Longrightarrow> (\<And>x. x \<in> set (addrs t) \<Longrightarrow> ns' x = ns x) \<Longrightarrow> tree_holds ns' t"
  using body_holds_frame(1) [of t ns' ns] by (auto simp: tree_holds_def unlinked_def)

section \<open>What an insertion answers\<close>

fun inserted ::
    "('k, 'v) bstate \<Rightarrow> 'k \<Rightarrow> 'v \<Rightarrow> ('k \<times> 'v) list \<Rightarrow> (('k, 'v) bstate, 'k \<times> 'v \<times> alloc_error, handle) run \<Rightarrow> bool" where
  "inserted s k v ys (Ok e, s') \<longleftrightarrow> bt_holds s' ys \<and> entry_at (bt_nodes s') e (k, v) \<and>
     (generous (bt_heap s) \<longrightarrow> generous (bt_heap s'))"
| "inserted s k v ys (Err r, s') \<longleftrightarrow> r = (k, v, AllocError) \<and> same_map s s' \<and> \<not> generous (bt_heap s)"
| "inserted s k v ys (Panic msg, s') \<longleftrightarrow> msg = ''memory allocation failed'' \<and> \<not> generous (bt_heap s)"
| "inserted s k v ys (UB, s') \<longleftrightarrow> False"

lemma plan_build_cases:
  assumes "path_holds (bt_nodes s) p fs" and "length fs \<le> 65"
  obtains (ok) plan h where
      "plan_build (Handle (NodeRef 0 p) i) s = Some (Ok plan, s\<lparr>probe_buf := None, bt_heap := h\<rparr>)"
      and "cp_orig_leaf plan = p" and "cp_leaf_sp plan = fst (splitpoint i)"
      and "cp_insert_right plan = (case snd (splitpoint i) of LeftSide j \<Rightarrow> False | RightSide j \<Rightarrow> True)"
      and "cp_insert_idx plan = (case snd (splitpoint i) of LeftSide j \<Rightarrow> j | RightSide j \<Rightarrow> j)"
      and "items (cp_internals plan) = plan_of fs" and "num_reserved plan = splits fs"
      and "generous (bt_heap s) \<Longrightarrow> generous h"
  | (failed) h where "plan_build (Handle (NodeRef 0 p) i) s = Some (Err AllocError, s\<lparr>probe_buf := None, bt_heap := h\<rparr>)"
      and "\<not> generous (bt_heap s)"
proof -
  have low: "length fs \<le> usize_max" using assms(2) by (simp add: usize_max_def)
  have few: "length (plan_of fs) \<le> 65" using length_plan_of [of fs] assms(2) by simp
  have count: "probe_count (bt_nodes s) (NodeRef 0 p) 0 = Some (Ok (length (plan_of fs)))"
    using probe_count_path [OF assms(1), of 0 0] low by simp
  show thesis
  proof (cases rule: scratch_take_cases [where 'a = commit_internal, OF layouts_ok(1-3), of "length (plan_of fs)" "probe_buf s" "bt_heap s"])
    case (1 v h)
    note ok = 1
    have rec: "probe_record (bt_nodes s) (NodeRef 0 p) (v, h) =
        Some (Ok (all_full fs), (with_items (plan_of fs) v, h))"
      using probe_record_path [OF assms(1), of 0 v h] low ok by simp
    let ?plan = "\<lparr>cp_orig_leaf = p, cp_leaf_sp = fst (splitpoint i),
      cp_insert_right = (case snd (splitpoint i) of LeftSide j \<Rightarrow> False | RightSide j \<Rightarrow> True),
      cp_insert_idx = (case snd (splitpoint i) of LeftSide j \<Rightarrow> j | RightSide j \<Rightarrow> j),
      cp_internals = with_items (plan_of fs) v, cp_new_root = all_full fs\<rparr>"
    have "plan_build (Handle (NodeRef 0 p) i) s = Some (Ok ?plan, s\<lparr>probe_buf := None, bt_heap := h\<rparr>)"
      using count rec ok(1)
      by (cases "splitpoint i"; cases "snd (splitpoint i)") (simp_all add: plan_build_def probe_buffer_try_new_def)
    moreover have "num_reserved ?plan = splits fs" by (simp add: num_reserved_def splits_def)
    ultimately show thesis using ok(4) by (intro that(1) [of ?plan h]) simp_all
  next
    case (2 h)
    note failed = 2
    have "plan_build (Handle (NodeRef 0 p) i) s = Some (Err AllocError, s\<lparr>probe_buf := None, bt_heap := h\<rparr>)"
      using count failed
      by (cases "splitpoint i"; cases "snd (splitpoint i)") (simp_all add: plan_build_def probe_buffer_try_new_def)
    then show thesis using failed(2) [OF few] by (rule that(2))
  qed
qed

lemma reserve_and_commit_inserted:
  fixes s :: "('k, 'v) bstate"
  assumes h: "bt_holds s xs" "length xs < usize_max" and root: "bt_root s = Some (NodeRef (length fs) (baddr t))"
    and t: "t = plug (BT p kvs []) fs" "tree_holds (bt_nodes s) t" "root_shape (length fs) t" "aligned fs"
      "distinct (addrs t)" "flat t = xs"
    and full: "length kvs = CAPACITY" "i \<le> CAPACITY"
    and plan: "cp_orig_leaf plan = p" "cp_leaf_sp plan = fst (splitpoint i)"
      "cp_insert_right plan = (case snd (splitpoint i) of LeftSide j \<Rightarrow> False | RightSide j \<Rightarrow> True)"
      "cp_insert_idx plan = (case snd (splitpoint i) of LeftSide j \<Rightarrow> j | RightSide j \<Rightarrow> j)"
      "items (cp_internals plan) = plan_of fs" "num_reserved plan = splits fs"
  shows "inserted s k v (plug_flat (ins_at i (k, v) kvs) fs) (reserve_and_commit L plan k v s)"
proof -
  let ?q = "bt_next s" and ?n = "splits fs" and ?ns = "bt_nodes s"
  have fresh: "?ns a = None" if "?q \<le> a" for a using h(1) that by (simp add: bt_holds_def)
  have old: "x < ?q" if "x \<in> set (addrs t)" for x
  proof (rule ccontr)
    assume "\<not> x < ?q"
    then have "?ns x = None" by (intro fresh) simp
    with body_holds_dom(1) [of ?ns t x] t(2) that show False by (simp add: tree_holds_def)
  qed
  have small: "length fs < 64" using height_small [OF t(3)] t(6) h(2) by simp
  have n65: "?n \<le> 65" using splits_le [of fs] small by simp
  show ?thesis
  proof (cases rule: alloc_node_cases [of "leaf_l L" empty_leaf s])
    case (failed h1)
    then show ?thesis
      by (simp add: reserve_and_commit_def try_new_leaf_box_def probe_buffer_drop_def same_map_def)
  next
    case (ok h1)
    let ?s1 = "s\<lparr>bt_heap := h1, bt_nodes := ?ns(?q \<mapsto> empty_leaf), bt_next := ?q + 1\<rparr>"
    note leaf = ok
    show ?thesis
    proof (cases rule: scratch_take_cases [where 'a = addr, OF layouts_ok(4-6), of ?n "reserved_buf s" h1])
      case (2 h2)
      note failed = 2
      have "?ns(?q := None) = ?ns" using fresh [of ?q] by auto
      with leaf failed n65 show ?thesis
        by (auto simp: reserve_and_commit_def try_new_leaf_box_def reserve_buffer_try_new_def plan(6)
            probe_buffer_drop_def free_node_def same_map_def)
    next
      case (1 buf h2)
      note ok = 1 and ok' = 1
      let ?s2 = "?s1\<lparr>reserved_buf := None, bt_heap := h2\<rparr>"
      have buf: "vlen buf + ?n \<le> cap buf" using ok(2,3) by simp
      have to2: "reserve_buffer_try_new (num_reserved plan) ?s1 = (Ok buf, ?s2)"
        using ok(1) by (simp add: reserve_buffer_try_new_def plan(6))
      show ?thesis
      proof (cases rule: reserve_internals_cases [OF buf, of L ?s2])
        case (2 j h3)
        note failed = 2
        have "reserve_and_commit L plan k v s = (Err (k, v, AllocError), probe_buffer_drop (cp_internals plan)
            (free_node ?q (reserve_buffer_drop (with_items (items buf @ [bt_next ?s2..<bt_next ?s2 + j]) buf)
              (?s2\<lparr>bt_heap := h3, bt_nodes := fresh_nodes (bt_next ?s2) j (bt_nodes ?s2), bt_next := bt_next ?s2 + j\<rparr>))))"
          by (simp only: reserve_and_commit_def try_new_leaf_box_def Let_def leaf(1) to2 [unfolded plan(6)] failed(2) plan(6) prod.case outcome.case)
        then show ?thesis
          using ok(2,4) leaf(2) failed(3) fresh by (auto simp: free_nodes [of "Suc ?q" j, unfolded add_Suc] reserve_buffer_drop_def
              free_node_def probe_buffer_drop_def same_map_def fresh_nodes_def fun_eq_iff simp del: upt_Suc)
      next
        case (1 h3)
        note inner = 1
        let ?rs = "[?q + 1..<?q + 1 + ?n]"
        let ?buf = "with_items ?rs buf"
        let ?ns3 = "fresh_nodes (?q + 1) ?n (?ns(?q \<mapsto> empty_leaf))"
        let ?s3 = "?s2\<lparr>bt_heap := h3, bt_nodes := ?ns3, bt_next := ?q + 1 + ?n\<rparr>"
        have to3: "reserve_internals L (num_reserved plan) buf ?s2 = (Ok ?buf, ?s3)"
          using 1 ok(2) by (simp add: plan(6) del: upt_Suc)
        have hp: "bt_heap ?s3 = h3" by simp
        have few: "vlen ?buf \<le> 65" using n65 by simp
        consider (ok) ptrs h4 where "(drain_to_pointers ?buf h3 :: ('k \<times> 'v \<times> alloc_error, addr vec \<times> addr vec) outcome \<times> heap) =
              (Ok (ptrs, with_items [] ?buf), h4)" "items ptrs = items ?buf" "generous h3 \<longrightarrow> generous h4"
          | (abort) h4 where "(drain_to_pointers ?buf h3 :: ('k \<times> 'v \<times> alloc_error, addr vec \<times> addr vec) outcome \<times> heap) =
              (Panic ''memory allocation failed'', h4)" "\<not> generous h3"
          by (rule drain_cases [where 'e = "'k \<times> 'v \<times> alloc_error" and h = h3, OF few])
        then show ?thesis
        proof cases
          case (ok ptrs h4)
          note drained = ok
          let ?s4 = "?s3\<lparr>bt_heap := h4\<rparr>"
          have same: "?ns3 x = ?ns x" if "x < ?q" for x using that by (simp add: fresh_nodes_def)
          obtain e s' t' where c:
            "(commit_split plan ?q (items ptrs) k v ?s4 :: (('k, 'v) bstate, 'k \<times> 'v \<times> alloc_error, handle) run) = (Ok e, s')"
            "tree_holds (bt_nodes s') t'" "root_shape (nr_height (the (bt_root s'))) t'"
            "bt_root s' = Some (NodeRef (nr_height (the (bt_root s'))) (baddr t'))"
            "flat t' = plug_flat (ins_at i (k, v) kvs) fs" "mset (addrs t') = mset (addrs t @ ?q # ?rs)"
            "bt_length s' = bt_length ?s4 + 1" "same_rest ?s4 s'"
            "\<And>x. x \<notin> set (addrs t @ ?q # ?rs) \<Longrightarrow> bt_nodes s' x = bt_nodes ?s4 x" "entry_at (bt_nodes s') e (k, v)"
          proof -
            have "\<exists>e s' t'. (commit_split plan ?q ?rs k v ?s4 :: (('k, 'v) bstate, 'k \<times> 'v \<times> alloc_error, handle) run) = (Ok e, s') \<and>
                tree_holds (bt_nodes s') t' \<and> root_shape (nr_height (the (bt_root s'))) t' \<and>
                bt_root s' = Some (NodeRef (nr_height (the (bt_root s'))) (baddr t')) \<and>
                flat t' = plug_flat (ins_at i (k, v) kvs) fs \<and> mset (addrs t') = mset (addrs t @ ?q # ?rs) \<and>
                bt_length s' = bt_length ?s4 + 1 \<and> same_rest ?s4 s' \<and>
                (\<forall>x. x \<notin> set (addrs t @ ?q # ?rs) \<longrightarrow> bt_nodes s' x = bt_nodes ?s4 x) \<and> entry_at (bt_nodes s') e (k, v)"
            proof (rule commit_split_holds)
              show "tree_holds (bt_nodes ?s4) t"
                using old same by (intro tree_holds_frame [OF t(2)]) simp
              show "distinct (addrs t @ ?q # ?rs)" using t(5) old by (auto dest: old)
              show "bt_nodes ?s4 ?q = Some empty_leaf" by (simp add: fresh_nodes_def)
              show "\<exists>m. bt_nodes ?s4 r = Some m \<and> blank_internal m" if "r \<in> set ?rs" for r
                using that by (auto simp: fresh_nodes_def)
              show "bt_length ?s4 < usize_max" using h by (simp add: bt_holds_def)
              show "length fs < usize_max" using small by (simp add: usize_max_def)
            qed (use t root full plan in simp_all)
            then show thesis using that drained(2) by (simp only: vec_sel) blast
          qed
          let ?s' = "s'\<lparr>probe_buf := Some (cap (cp_internals plan)), reserved_buf := Some (cap buf)\<rparr>"
          have run: "reserve_and_commit L plan k v s = (Ok e, ?s')"
          proof -
            have "reserve_and_commit L plan k v s =
                (Ok e, reserve_buffer_drop (with_items [] ?buf) (probe_buffer_drop (cp_internals plan) s'))"
              using drained(1) c(1)
              by (simp only: reserve_and_commit_def try_new_leaf_box_def Let_def leaf(1) to2 to3 prod.case outcome.case
                  hp and_then.simps)
            then show ?thesis by (simp add: probe_buffer_drop_def reserve_buffer_drop_def)
          qed
          have "\<forall>a \<ge> bt_next ?s'. bt_nodes ?s' a = None"
          proof (intro allI impI)
            fix a assume a: "bt_next ?s' \<le> a"
            have "bt_next s' = ?q + 1 + ?n" using c(8) by (simp add: same_rest_def)
            with a have "?q + 1 + ?n \<le> a" by simp
            then have "a \<notin> set (addrs t @ ?q # ?rs)" "bt_nodes ?s4 a = None"
              using fresh [of a] by (auto simp: fresh_nodes_def dest: old)
            with c(9) show "bt_nodes ?s' a = None" by simp
          qed
          moreover have "distinct (addrs t')"
          proof -
            have "distinct (addrs t @ ?q # ?rs)" using t(5) by (auto dest: old)
            then show ?thesis using mset_eq_imp_distinct_iff [OF c(6)] by simp
          qed
          moreover have "bt_length s' = length (plug_flat (ins_at i (k, v) kvs) fs)"
            using c(7) h(1) t(6) length_plug_flat_ins [OF t(4), of i kvs "(k, v)"] full t(1)
            by (simp add: bt_holds_def flat_plug)
          moreover obtain r where "bt_root s' = Some r" "nr_node r = baddr t'" "root_shape (nr_height r) t'"
            using c(3,4) by (metis noderef.sel option.sel)
          ultimately have "bt_holds ?s' (plug_flat (ins_at i (k, v) kvs) fs)"
            using c(2,5) by (auto simp: bt_holds_def)
          moreover have "generous (bt_heap s) \<longrightarrow> generous (bt_heap ?s')"
            using c(8) drained(3) inner(2) ok'(4) leaf(2) by (simp add: same_rest_def)
          ultimately show ?thesis using run c(10) by simp
        next
          case (abort h4)
          then have "\<not> generous (bt_heap s)" using inner(2) ok'(4) leaf(2) by auto
          moreover have "reserve_and_commit L plan k v s = (Panic ''memory allocation failed'', ?s3\<lparr>bt_heap := h4\<rparr>)"
            using abort(1)
            by (simp only: reserve_and_commit_def try_new_leaf_box_def Let_def leaf(1) to2 to3 prod.case outcome.case
                  hp and_then.simps)
          ultimately show ?thesis by simp
        qed
      qed
    qed
  qed
qed

section \<open>At a leaf edge\<close>

text \<open>A leaf with room takes the entry in place.\<close>

lemma edge_insert_with_room:
  fixes s :: "('k, 'v) bstate"
  assumes h: "bt_holds s xs" "length xs < usize_max" and root: "bt_root s = Some (NodeRef (length fs) (baddr t))"
    and t: "t = plug (BT p kvs []) fs" "tree_holds (bt_nodes s) t" "root_shape (length fs) t" "aligned fs"
      "distinct (addrs t)" "flat t = xs"
    and room: "length kvs < CAPACITY" "i \<le> length kvs"
  shows "\<exists>q. try_insert_into_existing L (Handle (NodeRef 0 p) i) k v s = Some q \<and>
    inserted s k v (plug_flat (ins_at i (k, v) kvs) fs) q"
proof -
  let ?ns = "bt_nodes s" and ?t = "plug (BT p (ins_at i (k, v) kvs) []) fs"
  obtain n where n: "?ns p = Some n" "node_body n kvs []" and path: "path_holds ?ns p fs"
    using t(1,2) by (auto simp: tree_holds_plug)
  obtain n' where ins:
    "(leaf_slice_insert p i k v ?ns :: (('k, 'v) nodes, 'k \<times> 'v \<times> alloc_error, unit) run) = (Ok (), ?ns(p \<mapsto> n'))"
    "node_body n' (ins_at i (k, v) kvs) []" "n_parent n' = n_parent n" "n_parent_idx n' = n_parent_idx n"
    by (rule leaf_slice_insert_node [where 'e = "'k \<times> 'v \<times> alloc_error" and ns = ?ns and k = k and v = v, OF n room]) (rule that)
  let ?ns' = "?ns(p \<mapsto> n')"
  let ?s' = "s\<lparr>bt_nodes := ?ns', bt_length := bt_length s + 1\<rparr>"
  have ms: "mset (addrs t) = {#p#} + mset (path_addrs fs)" "mset (addrs ?t) = mset (addrs t)"
    using t(1) by (simp_all add: mset_plug)
  have "distinct (p # path_addrs fs)"
    using t(5) mset_eq_imp_distinct_iff [of "addrs t" "p # path_addrs fs"] ms(1) by simp
  then have "path_holds ?ns' p fs"
    using n(1) ins(3,4) by (intro path_holds_frame [OF _ _ path]) (auto simp: same_link_def)
  then have "tree_holds ?ns' ?t" using ins(2) by (simp add: tree_holds_plug)
  moreover have "root_shape (0 + length fs) ?t"
    using root_shape_plugD [of 0 fs "BT p kvs []"] t room
    by (intro root_shape_plug) (auto split: if_splits)
  moreover have "distinct (addrs ?t)" using mset_eq_imp_distinct_iff [OF ms(2)] t(5) by simp
  moreover have "bt_length s + 1 = length (flat ?t)"
    using h(1) t(1,6) length_plug_flat_ins [OF t(4) room(2), of "(k, v)"] by (simp add: bt_holds_def flat_plug)
  moreover have "baddr ?t = baddr t" using t(1) by (simp add: baddr_plug)
  moreover have "\<forall>a \<ge> bt_next s. ?ns' a = None" using h(1) n(1) by (auto simp: bt_holds_def)
  ultimately have "bt_holds ?s' (plug_flat (ins_at i (k, v) kvs) fs)"
    using root by (auto simp: bt_holds_def flat_plug)
  moreover have "entry_at ?ns' (Handle (NodeRef 0 p) i) (k, v)"
    using entry_at_body [of ?ns' p n' "ins_at i (k, v) kvs" "[]" i 0] ins(2) room(2) by (simp add: nth_append)
  moreover have "try_insert_into_existing L (Handle (NodeRef 0 p) i) k v s = Some (Ok (Handle (NodeRef 0 p) i), ?s')"
    using n room(1) ins(1) h
    by (simp add: try_insert_into_existing_def on_nodes_def count_entry_eq bt_holds_def node_body_def)
  ultimately show ?thesis by simp
qed

lemma insert_at_edge:
  fixes s :: "('k, 'v) bstate"
  assumes h: "bt_holds s xs" "length xs < usize_max" and root: "bt_root s = Some (NodeRef (length fs) (baddr t))"
    and t: "t = plug (BT p kvs []) fs" "tree_holds (bt_nodes s) t" "root_shape (length fs) t" "aligned fs"
      "distinct (addrs t)" "flat t = xs"
    and i: "i \<le> length kvs"
  shows "\<exists>q. try_insert_into_existing L (Handle (NodeRef 0 p) i) k v s = Some q \<and>
    inserted s k v (plug_flat (ins_at i (k, v) kvs) fs) q"
proof (cases "length kvs < CAPACITY")
  case True
  then show ?thesis using edge_insert_with_room [OF h root t] i by blast
next
  case False
  moreover have "length kvs \<le> CAPACITY"
    using root_shape_plugD [of 0 fs "BT p kvs []"] t by (auto split: if_splits)
  ultimately have full: "length kvs = CAPACITY" "i \<le> CAPACITY" using i by auto
  obtain n where n: "bt_nodes s p = Some n" "node_body n kvs []" and path: "path_holds (bt_nodes s) p fs"
    using t(1,2) by (auto simp: tree_holds_plug)
  have eq: "try_insert_into_existing L (Handle (NodeRef 0 p) i) k v s =
      try_insert_with_split L (Handle (NodeRef 0 p) i) k v s"
    using n full(1) by (simp add: try_insert_into_existing_def node_body_def)
  have low: "length fs \<le> 65" using height_small [OF t(3)] t(6) h(2) by simp
  show ?thesis
  proof (cases rule: plan_build_cases [OF path low, of i])
    case (1 plan hp)
    let ?s = "s\<lparr>probe_buf := None, bt_heap := hp\<rparr>"
    have same: "same_map s ?s" by (simp add: same_map_def)
    have "inserted ?s k v (plug_flat (ins_at i (k, v) kvs) fs) (reserve_and_commit L plan k v ?s)"
      using bt_holds_same_map [OF h(1) same] h(2) root t full 1(2-)
      by (intro reserve_and_commit_inserted) simp_all
    moreover have "inserted s k v ys q" if "inserted ?s k v ys q" for ys q
      using that 1(8) by (cases "(s, k, v, ys, q)" rule: inserted.cases) (auto simp: same_map_def)
    ultimately show ?thesis using 1(1) by (simp add: eq try_insert_with_split_def)
  next
    case (2 hp)
    then show ?thesis by (simp add: eq try_insert_with_split_def same_map_def)
  qed
qed

lemma insert_empty:
  fixes s :: "('k, 'v) bstate"
  assumes "bt_holds s xs" and "bt_root s = None"
  shows "inserted s k v [(k, v)] (try_insert_empty_map L k v s)"
proof (cases rule: alloc_node_cases [of "leaf_l L" empty_leaf s])
  case (failed h)
  then show ?thesis by (simp add: try_insert_empty_map_def try_new_leaf_def same_map_def)
next
  case (ok h)
  let ?e = "empty_leaf :: ('k, 'v) node"
  let ?n = "?e\<lparr>n_keys := (n_keys ?e)[0 := Some k], n_vals := (n_vals ?e)[0 := Some v], n_len := 1\<rparr>"
  let ?s = "s\<lparr>bt_heap := h, bt_nodes := (bt_nodes s)(bt_next s \<mapsto> ?n), bt_next := bt_next s + 1,
    bt_root := Some (NodeRef 0 (bt_next s)), bt_length := 1\<rparr>"
  have body: "node_body ?n [(k, v)] []"
    by (simp add: node_body_def slots_def empty_leaf_def CAPACITY_def numeral_eq_Suc)
  have "tree_holds (bt_nodes ?s) (BT (bt_next s) [(k, v)] [])"
    using body by (simp add: tree_holds_def unlinked_def) (simp add: empty_leaf_def)
  then have "bt_holds ?s [(k, v)]"
    using assms unfolding bt_holds_def
    by (auto intro!: exI [of _ "BT (bt_next s) [(k, v)] []"] simp: CAPACITY_def)
  moreover have "entry_at (bt_nodes ?s) (Handle (NodeRef 0 (bt_next s)) 0) (k, v)"
    using entry_at_body [of "bt_nodes ?s" "bt_next s" ?n "[(k, v)]" "[]" 0 0] body by simp
  moreover have "try_insert_empty_map L k v s = (Ok (Handle (NodeRef 0 (bt_next s)) 0), ?s)"
    using ok by (simp add: try_insert_empty_map_def try_new_leaf_def)
  ultimately show ?thesis using ok(2) by simp
qed

end
