(* ===== verification/BTreeSearch.thy ===== *)
theory BTreeSearch
  imports BTreeVacant
begin

text \<open>
  The search that \<open>BTreeMap::entry\<close> performs, on the store: it finds the entry of a key, or the
  leaf edge where the key belongs, and it does not get stuck.
\<close>

section \<open>One node\<close>

lemma find_key_index_spec:
  assumes "slots ks (map fst kvs)" and "sorted_wrt (<) (map fst kvs)" and "i + n = length kvs"
    and "\<forall>j < i. fst (kvs ! j) < key"
  shows "\<exists>j. (find_key_index key ks n i :: ('e, bool \<times> nat) outcome) = Ok (j < length kvs \<and> fst (kvs ! j) = key, j) \<and>
    j \<le> length kvs \<and> (\<forall>m < j. fst (kvs ! m) < key) \<and> (j < length kvs \<longrightarrow> key \<le> fst (kvs ! j))"
  using assms(3,4)
proof (induction n arbitrary: i)
  case 0
  then show ?case by (intro exI [of _ i]) simp
next
  case (Suc n)
  have read: "(init_read ks i :: ('e, 'a) outcome) = Ok (fst (kvs ! i))"
    using slots_read [OF assms(1), of i] Suc.prems(1) by simp
  show ?case
  proof (cases "fst (kvs ! i) < key")
    case True
    then have "\<forall>j < i + 1. fst (kvs ! j) < key" using Suc.prems(2) by (auto simp: less_Suc_eq)
    then have "\<exists>j. (find_key_index key ks n (i + 1) :: ('e, bool \<times> nat) outcome) =
          Ok (j < length kvs \<and> fst (kvs ! j) = key, j) \<and>
        j \<le> length kvs \<and> (\<forall>m < j. fst (kvs ! m) < key) \<and> (j < length kvs \<longrightarrow> key \<le> fst (kvs ! j))"
      using Suc.prems(1) by (intro Suc.IH) simp_all
    with True read show ?thesis by simp
  next
    case False
    with read Suc.prems show ?thesis by (intro exI [of _ i]) auto
  qed
qed

section \<open>The way down\<close>

text \<open>The part of a well-formed tree that the search relies on.\<close>

fun levelled :: "nat \<Rightarrow> ('k, 'v) btree \<Rightarrow> bool" where
  "levelled 0 (BT a kvs ts) \<longleftrightarrow> ts = []"
| "levelled (Suc h) (BT a kvs ts) \<longleftrightarrow> length ts = length kvs + 1 \<and> (\<forall>t \<in> set ts. levelled h t)"

lemma sub_shape_levelled: "sub_shape h t \<Longrightarrow> levelled h t"
  by (induction h t rule: sub_shape.induct) auto

lemma root_shape_levelled: "root_shape h t \<Longrightarrow> levelled h t"
  by (cases t; cases h) (auto intro: sub_shape_levelled)

lemma plug_append [simp]: "plug t (fs @ gs) = plug (plug t fs) gs"
  by (induction t fs rule: plug.induct) auto

lemma plug_flat_append [simp]: "plug_flat xs (fs @ gs) = plug_flat (plug_flat xs fs) gs"
  by (induction xs fs rule: plug_flat.induct) auto

text \<open>
  What the keys left and right of a hole tell: the content splits at the hole, and everything on
  its left is below the key, everything on its right above.
\<close>

definition between :: "'k::linorder \<Rightarrow> ('k \<times> 'v) list \<Rightarrow> ('k \<times> 'v) list \<Rightarrow> bool" where
  "between key A B \<longleftrightarrow> (\<forall>x \<in> set A. fst x < key) \<and> (\<forall>x \<in> set B. key < fst x)"

lemma weave_between:
  assumes "length xs1 = length ks1" and "length xs2 = length ks2"
    and "sorted_wrt (<) (map fst (weave (xs1 @ x # xs2) (ks1 @ ks2)))"
    and "\<forall>k \<in> set ks1. fst k < key" and "\<forall>k \<in> set ks2. key < fst k"
  shows "\<exists>A B. between key A B \<and> (\<forall>y. weave (xs1 @ y # xs2) (ks1 @ ks2) = A @ y @ B)"
  using assms
proof (induction xs1 arbitrary: ks1)
  case Nil
  show ?case
  proof (cases ks2)
    case Nil': Nil
    then show ?thesis using Nil by (intro exI [of _ "[]"] exI [of _ "[]"]) (auto simp: between_def)
  next
    case (Cons k ks)
    then have "\<forall>e \<in> set (weave xs2 ks). fst k < fst e" using Nil by (auto simp: sorted_wrt_append)
    then have "between key [] (k # weave xs2 ks)" using Nil.prems(5) Cons by (auto simp: between_def)
    then show ?thesis using Cons Nil by (intro exI [of _ "[]"] exI [of _ "k # weave xs2 ks"]) auto
  qed
next
  case (Cons z zs)
  then obtain k ks where ks1: "ks1 = k # ks" "length zs = length ks" by (cases ks1) auto
  have "\<exists>A B. between key A B \<and> (\<forall>y. weave (zs @ y # xs2) (ks @ ks2) = A @ y @ B)"
    using Cons.prems ks1 by (intro Cons.IH) (auto simp: sorted_wrt_append)
  then obtain A B where ab: "between key A B" "\<forall>y. weave (zs @ y # xs2) (ks @ ks2) = A @ y @ B" by blast
  have "\<forall>e \<in> set z. fst e < fst k" using Cons.prems(3) ks1 by (auto simp: sorted_wrt_append)
  then have "between key (z @ k # A) B"
    using ab(1) Cons.prems(4) ks1 by (fastforce simp: between_def)
  then show ?case using ab(2) ks1 by (intro exI [of _ "z @ k # A"] exI [of _ B]) auto
qed

lemma weave_leaf_sorted: "sorted_wrt (<) (map fst (weave xs ks)) \<Longrightarrow> length xs = length ks + 1 \<Longrightarrow>
  sorted_wrt (<) (map fst ks) \<and> (\<forall>x \<in> set xs. sorted_wrt (<) (map fst x)) \<and> set ks \<subseteq> set (weave xs ks)"
proof (induction xs ks rule: weave.induct)
  case (2 x xs)
  then show ?case by auto
next
  case (3 x xs k ks)
  then have ih: "sorted_wrt (<) (map fst ks)" "\<forall>x \<in> set xs. sorted_wrt (<) (map fst x)"
      "set ks \<subseteq> set (weave xs ks)"
    by (auto simp: sorted_wrt_append)
  moreover have "\<forall>e \<in> set (weave xs ks). fst k < fst e" using "3.prems" by (auto simp: sorted_wrt_append)
  ultimately show ?case using "3.prems" by (auto simp: sorted_wrt_append)
qed simp

lemma sorted_between:
  "sorted_wrt (<) (map fst (A @ kv # B)) \<Longrightarrow> fst kv = key \<Longrightarrow> between key A B"
  by (auto simp: between_def sorted_wrt_append)

lemma between_append:
  "between key A B \<Longrightarrow> between key C D \<Longrightarrow> between key (A @ C) (D @ B)"
  by (auto simp: between_def)

lemma between_split:
  assumes "sorted_wrt (<) (map fst kvs)" and "i \<le> length kvs" and "\<forall>m < i. fst (kvs ! m) < key"
    and "i < length kvs \<longrightarrow> key < fst (kvs ! i)"
  shows "between key (take i kvs) (drop i kvs)"
proof -
  have above: "key < fst (kvs ! m)" if m: "i \<le> m" "m < length kvs" for m
  proof (cases "m = i")
    case False
    then have "fst (kvs ! i) < fst (kvs ! m)"
      using sorted_wrt_nth_less [OF assms(1), of i m] m by simp
    then show ?thesis using assms(4) m by force
  qed (use assms(4) m in simp)
  have "key < fst x" if x: "x \<in> set (drop i kvs)" for x
  proof -
    obtain j where "j < length kvs - i" "x = kvs ! (i + j)" using x by (auto simp: in_set_conv_nth)
    then show ?thesis using above [of "i + j"] by simp
  qed
  then have "\<forall>x \<in> set (drop i kvs). key < fst x" by blast
  moreover have "\<forall>x \<in> set (take i kvs). fst x < key"
    using assms(3) by (metis in_set_conv_nth length_take min_less_iff_conj nth_take)
  ultimately show ?thesis by (simp add: between_def)
qed

text \<open>The separators of a node can be exchanged one at a time.\<close>

lemma weave_update:
  assumes "ts = [] \<or> length ts = length kvs + 1" and "i < length kvs"
  shows "\<exists>A B. \<forall>kv. flat (BT a (kvs[i := kv]) ts) = A @ kv # B"
proof (cases "ts = []")
  case True
  then show ?thesis using assms(2)
    by (intro exI [of _ "take i kvs"] exI [of _ "drop (Suc i) kvs"]) (simp add: upd_conv_take_nth_drop)
next
  case False
  let ?xs = "map flat ts"
  have "weave (take (i + 1) ?xs @ drop (i + 1) ?xs) (take i kvs @ kv # drop (Suc i) kvs) =
      weave (take (i + 1) ?xs) (take i kvs) @ kv # weave (drop (i + 1) ?xs) (drop (Suc i) kvs)" for kv
    using assms False by (intro weave_split) auto
  then have "flat (BT a (kvs[i := kv]) ts) =
      weave (take (i + 1) ?xs) (take i kvs) @ kv # weave (drop (i + 1) ?xs) (drop (Suc i) kvs)" for kv
    using assms(2) by (simp add: upd_conv_take_nth_drop)
  then show ?thesis by blast
qed

text \<open>
  Where the search of a tree of height \<open>h\<close> ends: at the entry of the key, or at the leaf edge
  where an entry of the key belongs.
\<close>

definition located :: "('k::linorder, 'v) btree \<Rightarrow> 'k \<Rightarrow> nat \<Rightarrow> search_result \<Rightarrow> bool" where
  "located t key h r \<longleftrightarrow>
     (case r of
        Found e \<Rightarrow>
          (\<exists>kvs ts fs A B. t = plug (BT (nr_node (h_ref e)) kvs ts) fs \<and>
             h = nr_height (h_ref e) + length fs \<and> h_idx e < length kvs \<and>
             fst (kvs ! h_idx e) = key \<and> aligned fs \<and> between key A B \<and>
             (\<forall>kv. flat (plug (BT (nr_node (h_ref e)) (kvs[h_idx e := kv]) ts) fs) = A @ kv # B))
      | GoDown e \<Rightarrow>
          (\<exists>p i kvs fs A B. e = Handle (NodeRef 0 p) i \<and> t = plug (BT p kvs []) fs \<and> length fs = h \<and>
             i \<le> length kvs \<and> aligned fs \<and> between key A B \<and> flat t = A @ B \<and>
             (\<forall>kv. plug_flat (ins_at i kv kvs) fs = A @ kv # B)))"

lemma found_located:
  assumes "ts = [] \<or> length ts = length kvs + 1" and "i < length kvs" and "fst (kvs ! i) = key"
    and "aligned fs" and "sorted_wrt (<) (map fst (flat (plug (BT a kvs ts) fs)))"
  shows "located (plug (BT a kvs ts) fs) key (h + length fs) (Found (Handle (NodeRef h a) i))"
proof -
  obtain A B where ab: "\<forall>kv. flat (BT a (kvs[i := kv]) ts) = A @ kv # B"
    using weave_update [OF assms(1,2), of a] by blast
  obtain C D where cd: "\<forall>ys. plug_flat ys fs = C @ ys @ D" using plug_flat_mid [OF assms(4)] by blast
  have eq: "flat (plug (BT a (kvs[i := kv]) ts) fs) = (C @ A) @ kv # (B @ D)" for kv
    using ab cd by (simp only: flat_plug append_assoc append_Cons)
  have "between key (C @ A) (B @ D)"
    using eq [of "kvs ! i"] assms(3,5) by (intro sorted_between [of _ "kvs ! i"]) (simp_all only: list_update_id)
  then show ?thesis using assms eq unfolding located_def by (fastforce simp only: search_result.case handle.sel noderef.sel)
qed

lemma search_holds:
  assumes "body_holds ns u" and "levelled h u" and "aligned fs" and "between key A B"
    and "\<forall>ys. plug_flat ys fs = A @ ys @ B" and "sorted_wrt (<) (map fst (flat (plug u fs)))"
  shows "\<exists>r. (search_tree ns key h (baddr u) :: ('e, search_result) outcome) = Ok r \<and>
    located (plug u fs) key (h + length fs) r"
  using assms
proof (induction h arbitrary: u fs A B)
  case 0
  then obtain a kvs where u: "u = BT a kvs []" by (cases u) auto
  obtain n where n: "ns a = Some n" "node_body n kvs []" using 0 u by auto
  have sorted: "sorted_wrt (<) (map fst kvs)" using 0 u by (simp add: flat_plug sorted_wrt_append)
  have "slots (n_keys n) (map fst kvs)" "n_len n = length kvs" using n(2) by (auto simp: node_body_def)
  then obtain i where i: "(find_key_index key (n_keys n) (n_len n) 0 :: ('e, bool \<times> nat) outcome) =
        Ok (i < length kvs \<and> fst (kvs ! i) = key, i)" "i \<le> length kvs"
      "\<forall>m < i. fst (kvs ! m) < key" "i < length kvs \<longrightarrow> key \<le> fst (kvs ! i)"
    using find_key_index_spec [where 'e = 'e, of "n_keys n" kvs 0 "n_len n" key, OF _ sorted] by auto
  show ?case
  proof (cases "i < length kvs \<and> fst (kvs ! i) = key")
    case True
    have "located (plug u fs) key (0 + length fs) (Found (Handle (NodeRef 0 a) i))"
      unfolding u by (rule found_located) (use True 0 u in auto)
    then show ?thesis using n(1) i(1) True u by simp
  next
    case False
    have "between key (take i kvs) (drop i kvs)"
      using sorted i False by (intro between_split) auto
    then have "between key (A @ take i kvs) (drop i kvs @ B)" by (rule between_append [OF "0.prems"(4)])
    moreover have "flat (plug u fs) = (A @ take i kvs) @ (drop i kvs @ B)"
      using "0.prems"(5) u by (simp add: flat_plug)
    moreover have "\<forall>kv. plug_flat (ins_at i kv kvs) fs = (A @ take i kvs) @ kv # (drop i kvs @ B)"
      using "0.prems"(5) by simp
    ultimately have "located (plug u fs) key (0 + length fs) (GoDown (Handle (NodeRef 0 a) i))"
      using "0.prems"(3) i(2) u unfolding located_def by (fastforce simp only: search_result.case add_0)
    then show ?thesis using n(1) i(1) False u by simp
  qed
next
  case (Suc h)
  obtain a kvs ts where u: "u = BT a kvs ts" by (cases u)
  have len: "length ts = length kvs + 1" and lev: "\<forall>t \<in> set ts. levelled h t" using Suc.prems(2) u by auto
  obtain n where n: "ns a = Some n" "node_body n kvs (map baddr ts)" and kids: "kids_hold ns a 0 ts"
    using Suc.prems(1) u by auto
  have fl: "sorted_wrt (<) (map fst (weave (map flat ts) kvs))"
    using Suc.prems(5,6) u by (simp add: flat_plug sorted_wrt_append)
  then have sorted: "sorted_wrt (<) (map fst kvs)" using weave_leaf_sorted [OF fl] len by simp
  have "slots (n_keys n) (map fst kvs)" "n_len n = length kvs" using n(2) by (auto simp: node_body_def)
  then obtain i where i: "(find_key_index key (n_keys n) (n_len n) 0 :: ('e, bool \<times> nat) outcome) =
        Ok (i < length kvs \<and> fst (kvs ! i) = key, i)" "i \<le> length kvs"
      "\<forall>m < i. fst (kvs ! m) < key" "i < length kvs \<longrightarrow> key \<le> fst (kvs ! i)"
    using find_key_index_spec [where 'e = 'e, of "n_keys n" kvs 0 "n_len n" key, OF _ sorted] by auto
  show ?case
  proof (cases "i < length kvs \<and> fst (kvs ! i) = key")
    case True
    have "located (plug u fs) key (Suc h + length fs) (Found (Handle (NodeRef (Suc h) a) i))"
      unfolding u by (rule found_located) (use True Suc.prems u len in auto)
    then show ?thesis using n(1) i(1) True u by simp
  next
    case False
    let ?c = "ts ! i" and ?f = "Frame a (take i kvs) (drop i kvs) (take i ts) (drop (i + 1) ts)"
    have it: "i < length ts" using i(2) len by simp
    have ts: "take i ts @ ?c # drop (i + 1) ts = ts" using it id_take_nth_drop [of i ts] by simp
    have plug: "plug ?c (?f # fs) = plug u fs" using ts u by simp
    have bt: "between key (take i kvs) (drop i kvs)" using sorted i False by (intro between_split) auto
    have "\<exists>C D. between key C D \<and>
        (\<forall>y. weave (map flat (take i ts) @ y # map flat (drop (i + 1) ts)) (take i kvs @ drop i kvs) = C @ y @ D)"
    proof (rule weave_between)
      have "map flat (take i ts) @ flat ?c # map flat (drop (i + 1) ts) = map flat ts"
        by (metis ts list.simps(9) map_append)
      then show "sorted_wrt (<) (map fst (weave (map flat (take i ts) @ flat ?c # map flat (drop (i + 1) ts))
          (take i kvs @ drop i kvs)))" using fl by simp
    qed (use bt it len in \<open>auto simp: between_def\<close>)
    then obtain C D where cd: "between key C D"
      "\<forall>y. weave (map flat (take i ts) @ y # map flat (drop (i + 1) ts)) (take i kvs @ drop i kvs) = C @ y @ D"
      by blast
    have "\<exists>r. (search_tree ns key h (baddr ?c) :: ('e, search_result) outcome) = Ok r \<and>
        located (plug ?c (?f # fs)) key (h + length (?f # fs)) r"
    proof (rule Suc.IH)
      show "body_holds ns ?c" using kids ts by (metis kids_hold.simps(2) kids_hold_append)
      show "levelled h ?c" using lev it by simp
      show "aligned (?f # fs)" using Suc.prems(3) it len by (simp add: aligned_def)
      show "between key (A @ C) (D @ B)" by (rule between_append [OF Suc.prems(4) cd(1)])
      show "\<forall>ys. plug_flat ys (?f # fs) = (A @ C) @ ys @ (D @ B)"
        using Suc.prems(5) cd(2) by (simp del: append_take_drop_id)
      show "sorted_wrt (<) (map fst (flat (plug ?c (?f # fs))))" using Suc.prems(6) plug by simp
    qed
    moreover have "(init_read (n_edges n) i :: ('e, addr) outcome) = Ok (baddr ?c)"
      using n(2) it slots_read [of "n_edges n" "map baddr ts" i] by (simp add: node_body_def)
    ultimately show ?thesis using n(1) i(1) False u plug by simp
  qed
qed

text \<open>The search from the root.\<close>

lemma search_root:
  assumes "body_holds ns t" and "root_shape h t" and "sorted_wrt (<) (map fst (flat t))"
  shows "\<exists>r. (search_tree ns key h (baddr t) :: ('e, search_result) outcome) = Ok r \<and> located t key h r"
  using search_holds [where 'e = 'e, of ns t h "[]" key "[]" "[]"] assms root_shape_levelled [of h t]
  by (simp add: aligned_def between_def)

end
