(* ===== verification/BTreeMap.thy ===== *)
theory BTreeMap
  imports BTreeSearch
begin

text \<open>
  The map as its client sees it: an entry is occupied or vacant as the content says, replacing the
  value of an occupied entry and filling a vacant one have their effect on the content.
\<close>

section \<open>Occupied entries\<close>

lemma slots_update: "slots xs ys \<Longrightarrow> i < length ys \<Longrightarrow> slots (xs[i := Some y]) (ys[i := y])"
  by (simp add: slots_def take_update_swap map_update)

lemma node_body_set_value:
  assumes "node_body n kvs es" and "i < length kvs"
  shows "node_body (n\<lparr>n_vals := (n_vals n)[i := Some v]\<rparr>) (kvs[i := (fst (kvs ! i), v)]) es"
proof -
  have "slots ((n_vals n)[i := Some v]) ((map snd kvs)[i := v])"
    using assms by (intro slots_update) (simp_all add: node_body_def)
  moreover have "(map fst kvs)[i := fst (kvs ! i)] = map fst kvs" using assms(2) by (simp add: map_update [symmetric])
  ultimately show ?thesis using assms by (simp add: node_body_def map_update)
qed

lemma root_shape_set_value:
  assumes "root_shape (h + length fs) (plug (BT a kvs ts) fs)" and "aligned fs" and "length kvs' = length kvs"
  shows "root_shape (h + length fs) (plug (BT a kvs' ts) fs)"
proof (rule root_shape_plug)
  have *: "(if fs = [] then root_shape h (BT a kvs ts) else sub_shape h (BT a kvs ts)) \<and> path_shape h fs"
    using assms(1,2) by (rule root_shape_plugD)
  then show "path_shape h fs" by simp
  show "if fs = [] then root_shape h (BT a kvs' ts) else sub_shape h (BT a kvs' ts)"
    using * assms(3) by (cases h) (auto split: if_splits)
qed

lemma occupied_insert_holds:
  fixes s :: "('k, 'v) bstate"
  assumes h: "bt_holds s xs" and root: "bt_root s = Some (NodeRef (h + length fs) (baddr t))"
    and t: "t = plug (BT p kvs ts) fs" "tree_holds (bt_nodes s) t" "root_shape (h + length fs) t" "aligned fs"
      "distinct (addrs t)" "flat t = xs"
    and i: "i < length kvs" and content: "\<forall>kv. flat (plug (BT p (kvs[i := kv]) ts) fs) = A @ kv # B"
  shows "\<exists>s'. (occupied_insert (Handle (NodeRef h p) i) v s :: (('k, 'v) bstate, 'e, 'v) run) = (Ok (snd (kvs ! i)), s') \<and>
    bt_holds s' (A @ (fst (kvs ! i), v) # B) \<and> bt_heap s' = bt_heap s"
proof -
  let ?ns = "bt_nodes s" and ?kvs = "kvs[i := (fst (kvs ! i), v)]"
  let ?t = "plug (BT p ?kvs ts) fs"
  obtain n where n: "?ns p = Some n" "node_body n kvs (map baddr ts)" and kids: "kids_hold ?ns p 0 ts"
      and path: "path_holds ?ns p fs"
    using t(1,2) by (auto simp: tree_holds_plug)
  let ?n = "n\<lparr>n_vals := (n_vals n)[i := Some v]\<rparr>"
  let ?ns' = "?ns(p \<mapsto> ?n)"
  have read: "(init_read (n_vals n) i :: ('e, 'v) outcome) = Ok (snd (kvs ! i))"
    using n(2) i slots_read [of "n_vals n" "map snd kvs" i] by (simp add: node_body_def)
  have ms: "mset (addrs t) = mset (p # forest_addrs ts @ path_addrs fs)" "mset (addrs ?t) = mset (addrs t)"
    using t(1) by (simp_all add: mset_plug)
  have apart: "distinct (p # forest_addrs ts @ path_addrs fs)"
    using t(5) mset_eq_imp_distinct_iff [OF ms(1)] by simp
  have "path_holds ?ns' p fs"
    using n(1) apart by (intro path_holds_frame [OF _ _ path]) (auto simp: same_link_def)
  moreover have "kids_hold ?ns' p 0 ts"
    using apart by (intro body_holds_frame(2) [OF _ kids]) auto
  ultimately have "tree_holds ?ns' ?t"
    using node_body_set_value [OF n(2) i] by (simp add: tree_holds_plug)
  moreover have "root_shape (h + length fs) ?t"
    using root_shape_set_value [of h fs p kvs ts ?kvs] t(1,3,4) by simp
  moreover have "distinct (addrs ?t)" using mset_eq_imp_distinct_iff [OF ms(2)] t(5) by simp
  moreover have "flat ?t = A @ (fst (kvs ! i), v) # B" using content by blast
  moreover have "length xs = length (A @ (fst (kvs ! i), v) # B)"
    using content [rule_format, of "kvs ! i"] t(1,6) by force
  moreover have "baddr ?t = baddr t" using t(1) by (simp add: baddr_plug)
  moreover have "\<forall>a \<ge> bt_next s. ?ns' a = None" using h n(1) by (auto simp: bt_holds_def)
  ultimately have "bt_holds (s\<lparr>bt_nodes := ?ns'\<rparr>) (A @ (fst (kvs ! i), v) # B)"
    using root h by (auto simp: bt_holds_def intro!: exI [of _ ?t])
  then show ?thesis using n(1) read by (simp add: occupied_insert_def)
qed

section \<open>Entries\<close>

definition bt_rep :: "('k::linorder, 'v) bstate \<Rightarrow> ('k \<times> 'v) list \<Rightarrow> bool" where
  "bt_rep s xs \<longleftrightarrow> bt_holds s xs \<and> sorted_wrt (<) (map fst xs)"

lemma sorted_insert_between:
  "sorted_wrt (<) (map fst (A @ B)) \<Longrightarrow> between k A B \<Longrightarrow> sorted_wrt (<) (map fst (A @ (k, v) # B))"
  by (auto simp: sorted_wrt_append between_def dest: order.strict_trans)

lemma map_of_between: "between k A B \<Longrightarrow> map_of (A @ B) k = None"
  by (auto simp: between_def map_of_eq_None_iff map_add_None)

lemma map_of_insert_between: "between k A B \<Longrightarrow> map_of (A @ (k, v) # B) = (map_of (A @ B))(k \<mapsto> v)"
proof (rule ext)
  fix x
  assume "between k A B"
  then have "map_of A k = None" by (auto simp: between_def map_of_eq_None_iff)
  then show "map_of (A @ (k, v) # B) x = ((map_of (A @ B))(k \<mapsto> v)) x"
    by (auto simp: map_add_def split: option.splits)
qed

text \<open>What an entry of a well-formed map is good for.\<close>

definition occupied_at :: "('k::linorder, 'v) bstate \<Rightarrow> 'k \<Rightarrow> handle \<Rightarrow> ('k \<times> 'v) list \<Rightarrow> 'v \<Rightarrow> ('k \<times> 'v) list \<Rightarrow> bool" where
  "occupied_at s k e A v B \<longleftrightarrow> entry_at (bt_nodes s) e (k, v) \<and>
     (\<forall>w. \<exists>s'. (occupied_insert e w s :: (('k, 'v) bstate, 'k \<times> 'v \<times> alloc_error, 'v) run) = (Ok v, s') \<and>
        bt_holds s' (A @ (k, w) # B) \<and> bt_heap s' = bt_heap s)"

definition vacant_at :: "('k::linorder, 'v) bstate \<Rightarrow> 'k \<Rightarrow> handle option \<Rightarrow> ('k \<times> 'v) list \<Rightarrow> ('k \<times> 'v) list \<Rightarrow> bool" where
  "vacant_at s k e A B \<longleftrightarrow>
     (\<forall>L w. \<exists>q. try_insert_kv L e k w s = Some q \<and> inserted s k w (A @ (k, w) # B) q)"

lemma bt_entry_cases:
  fixes s :: "('k::linorder, 'v) bstate"
  assumes "bt_rep s xs" and "length xs < usize_max"
  obtains (occupied) e A v B where "(bt_entry k s :: ('e, 'k entry) outcome) = Ok (Occupied e)"
      and "xs = A @ (k, v) # B" and "between k A B" and "occupied_at s k e A v B"
  | (vacant) e A B where "(bt_entry k s :: ('e, 'k entry) outcome) = Ok (Vacant k e)"
      and "xs = A @ B" and "between k A B" and "vacant_at s k e A B"
proof (cases "bt_root s")
  case None
  then have "xs = []" using assms(1) by (simp add: bt_rep_def bt_holds_def)
  moreover have "vacant_at s k None [] []"
    using insert_empty [of s xs] assms(1) None by (simp add: vacant_at_def bt_rep_def try_insert_kv_def)
  ultimately show thesis using None by (intro vacant [of None "[]" "[]"]) (simp_all add: bt_entry_def between_def)
next
  case (Some r)
  have h: "bt_holds s xs" and sorted: "sorted_wrt (<) (map fst xs)" using assms(1) by (simp_all add: bt_rep_def)
  obtain t where t: "baddr t = nr_node r" "tree_holds (bt_nodes s) t" "root_shape (nr_height r) t"
      "distinct (addrs t)" "flat t = xs"
    using h Some by (auto simp: bt_holds_def)
  obtain q where q: "(search_tree (bt_nodes s) k (nr_height r) (nr_node r) :: ('e, search_result) outcome) = Ok q"
      "located t k (nr_height r) q"
    using search_root [where 'e = 'e, of "bt_nodes s" t "nr_height r" k] t sorted by (auto simp: tree_holds_def)
  show thesis
  proof (cases q)
    case (Found e)
    obtain h p i where e: "e = Handle (NodeRef h p) i" by (metis handle.exhaust noderef.exhaust)
    obtain kvs ts fs A B where l: "t = plug (BT p kvs ts) fs" "nr_height r = h + length fs" "i < length kvs"
        "fst (kvs ! i) = k" "aligned fs" "between k A B" "\<forall>kv. flat (plug (BT p (kvs[i := kv]) ts) fs) = A @ kv # B"
      using q(2) Found e by (auto simp: located_def)
    let ?v = "snd (kvs ! i)"
    have kv: "kvs ! i = (k, ?v)" using l(4) by (metis prod.collapse)
    have root: "bt_root s = Some (NodeRef (h + length fs) (baddr t))" using Some t(1) l(2) by (cases r) simp
    obtain n where n: "bt_nodes s p = Some n" "node_body n kvs (map baddr ts)"
      using t(2) l(1) by (auto simp: tree_holds_plug)
    have "entry_at (bt_nodes s) e (k, ?v)"
      using entry_at_body [where ns = "bt_nodes s" and p = p and kvs = kvs, OF n l(3), of h] kv e by simp
    moreover have "\<exists>s'. (occupied_insert e w s :: (('k, 'v) bstate, 'k \<times> 'v \<times> alloc_error, 'v) run) = (Ok ?v, s') \<and>
        bt_holds s' (A @ (k, w) # B) \<and> bt_heap s' = bt_heap s" for w
      using occupied_insert_holds [OF h root l(1) t(2) _ l(5) t(4,5) l(3,7), of w] t(3) l(2,4) e by simp
    ultimately have "occupied_at s k e A ?v B" by (simp add: occupied_at_def)
    moreover have "xs = A @ (k, ?v) # B"
      using l(7) [rule_format, of "kvs ! i"] l(1) t(5) kv by simp
    ultimately show thesis using l(6) q(1) Some Found by (intro occupied) (simp_all add: bt_entry_def)
  next
    case (GoDown e)
    obtain p i kvs fs A B where l: "e = Handle (NodeRef 0 p) i" "t = plug (BT p kvs []) fs" "length fs = nr_height r"
        "i \<le> length kvs" "aligned fs" "between k A B" "flat t = A @ B"
        "\<forall>kv. plug_flat (ins_at i kv kvs) fs = A @ kv # B"
      using q(2) GoDown by (auto simp: located_def)
    have root: "bt_root s = Some (NodeRef (length fs) (baddr t))" using Some t(1) l(3) by (cases r) simp
    have "\<exists>q. try_insert_kv L (Some e) k w s = Some q \<and> inserted s k w (A @ (k, w) # B) q" for L w
      using insert_at_edge [OF h assms(2) root l(2) t(2) _ l(5) t(4,5) l(4), of L k w] t(3) l(1,3,8)
      by (simp add: try_insert_kv_def)
    then have "vacant_at s k (Some e) A B" by (simp add: vacant_at_def)
    then show thesis using l(6,7) t(5) q(1) Some GoDown by (intro vacant) (simp_all add: bt_entry_def)
  qed
qed

end
