(* ===== verification/BTreeProps.thy ===== *)
theory BTreeProps
  imports BTreeMap
begin

text \<open>
  The properties of the fallible B-tree insertions of
  \<^verbatim>\<open>alloc/btrees/entry.rs\<close> and
  \<^verbatim>\<open>alloc/btrees/map.rs\<close>, with their witnesses.
\<close>

section \<open>Maps of concrete runs\<close>

text \<open>The state of \<open>BTreeMap::new()\<close> on a thread that has no cached buffer.\<close>

definition bt_new :: "heap \<Rightarrow> ('k, 'v) bstate" where
  "bt_new h = \<lparr>bt_root = None, bt_length = 0, bt_nodes = (\<lambda>_. None), bt_next = 1,
    probe_buf = None, reserved_buf = None, bt_heap = h\<rparr>"

lemma bt_heap_new [simp]: "bt_heap (bt_new h) = h"
  by (simp add: bt_new_def)

lemma bt_rep_new: "bt_rep (bt_new h) []"
  by (simp add: bt_rep_def bt_holds_def bt_new_def)

text \<open>The layouts of the nodes of a map from \<open>u64\<close> to \<open>u64\<close>.\<close>

definition u64_nodes :: node_layouts where
  "u64_nodes = \<lparr>leaf_l = Layout 192 8, internal_l = Layout 288 8\<rparr>"

text \<open>A map of one full leaf with the keys 0 to 10, under a failure policy.\<close>

definition full_leaf :: "fail_policy \<Rightarrow> (int, int) bstate" where
  "full_leaf p =
     (bt_new (heap_with p))\<lparr>bt_root := Some (NodeRef 0 7), bt_length := 11, bt_next := 8,
       bt_nodes := [7 \<mapsto> \<lparr>n_parent = None, n_parent_idx = None, n_len = 11,
         n_keys = map Some [0..10], n_vals = map Some [0..10], n_edges = []\<rparr>]\<rparr>"

lemma full_leaf_rep: "bt_rep (full_leaf p) (map (\<lambda>i. (i, i)) [0..10])"
proof -
  let ?t = "BT 7 (map (\<lambda>i. (i, i)) [0..10]) [] :: (int, int) btree"
  have "tree_holds (bt_nodes (full_leaf p)) ?t"
    by (simp add: full_leaf_def tree_holds_def unlinked_def node_body_def slots_def CAPACITY_def comp_def)
  moreover have "root_shape 0 ?t" by (simp add: CAPACITY_def)
  ultimately have "bt_holds (full_leaf p) (map (\<lambda>i. (i, i)) [0..10])"
    by (auto simp: bt_holds_def full_leaf_def intro!: exI [of _ ?t])
  moreover have "map fst (map (\<lambda>i. (i, i)) [0..10]) = [0..10]" by (simp add: comp_def)
  ultimately show ?thesis by (simp only: bt_rep_def) simp
qed

section \<open>Insertion\<close>

text \<open>What an insertion through an entry tells about the map.\<close>

fun insert_answer ::
    "('k::linorder \<times> 'v) list \<Rightarrow> 'k \<Rightarrow> 'v \<Rightarrow> ('k, 'v) bstate \<Rightarrow>
     (('k, 'v) bstate, 'k \<times> 'v \<times> alloc_error, 'v option) run \<Rightarrow> bool" where
  "insert_answer xs k v s (Ok old, s') \<longleftrightarrow>
     old = map_of xs k \<and> (\<exists>ys. bt_rep s' ys \<and> map_of ys = (map_of xs)(k \<mapsto> v)) \<and>
     (generous (bt_heap s) \<longrightarrow> generous (bt_heap s'))"
| "insert_answer xs k v s (Err r, s') \<longleftrightarrow>
     r = (k, v, AllocError) \<and> map_of xs k = None \<and> same_map s s' \<and> \<not> generous (bt_heap s)"
| "insert_answer xs k v s (Panic msg, s') \<longleftrightarrow>
     msg = ''memory allocation failed'' \<and> map_of xs k = None \<and> \<not> generous (bt_heap s)"
| "insert_answer xs k v s (UB, s') \<longleftrightarrow> False"

lemma inserted_answer:
  assumes "inserted s k v (A @ (k, v) # B) q" and "between k A B" and "bt_rep s (A @ B)"
  shows "insert_answer (A @ B) k v s (map_ok_run (\<lambda>_. None) q)"
proof -
  obtain r s' where q: "q = (r, s')" by (cases q)
  show ?thesis
  proof (cases r)
    case (Ok e)
    then have "bt_rep s' (A @ (k, v) # B)" and "generous (bt_heap s) \<longrightarrow> generous (bt_heap s')"
      using assms q sorted_insert_between [of A B k v] by (auto simp: bt_rep_def)
    then show ?thesis using Ok q map_of_between [OF assms(2)] map_of_insert_between [OF assms(2), of v]
      by (simp del: map_of_append) blast
  qed (use assms(1) q map_of_between [OF assms(2)] in auto)
qed

lemma insert_give_back_answer:
  fixes s :: "('k::linorder, 'v) bstate"
  assumes "bt_rep s xs" and "length xs < usize_max"
  shows "\<exists>q. bt_try_insert_give_back L k v s = Some q \<and> insert_answer xs k v s q"
proof (cases rule: bt_entry_cases [where 'e = "'k \<times> 'v \<times> alloc_error", OF assms, of k])
  case (1 e A w B)
  then obtain s' where s': "(occupied_insert e v s :: (('k, 'v) bstate, 'k \<times> 'v \<times> alloc_error, 'v) run) = (Ok w, s')"
      "bt_holds s' (A @ (k, v) # B)" "bt_heap s' = bt_heap s"
    unfolding occupied_at_def by blast
  have "bt_rep s' (A @ (k, v) # B)" using s'(2) assms(1) 1(2) by (simp add: bt_rep_def)
  moreover have "map_of xs k = Some w" using 1(2,3) map_of_insert_between [OF 1(3), of w] by simp
  moreover have "map_of (A @ (k, v) # B) = (map_of xs)(k \<mapsto> v)"
    using map_of_insert_between [OF 1(3), of w] map_of_insert_between [OF 1(3), of v] 1(2) by simp
  ultimately have "insert_answer xs k v s (Ok (Some w), s')" using s'(3) by auto
  then show ?thesis using 1(1) s'(1) by (simp add: bt_try_insert_give_back_def)
next
  case (2 e A B)
  then obtain q where q: "try_insert_kv L e k v s = Some q" "inserted s k v (A @ (k, v) # B) q"
    unfolding vacant_at_def by blast
  have "insert_answer xs k v s (map_ok_run (\<lambda>_. None) q)"
    using inserted_answer [OF q(2) 2(3)] assms(1) 2(2) by simp
  then show ?thesis using 2(1) q(1) by (simp add: bt_try_insert_give_back_def vacant_try_insert_give_back_def)
qed

text \<open>Claim C1. Inserting into a well-formed map always returns, on every heap. \<open>Ok\<close> carries the
  previous value of the key, and the content is the old one with the key set; an allocation
  failure hands the pair back and leaves the map, its nodes and its length as they were; the only
  other outcome is the abort of the infallible pointer vector. Undefined behaviour is excluded.
\<close>

theorem btree_insert_spec:
  fixes s :: "('k::linorder, 'v) bstate"
  assumes "bt_rep s xs" and "length xs < usize_max"
  shows "\<exists>r s'. bt_try_insert_give_back L k v s = Some (r, s') \<and>
    (case r of
       Ok old \<Rightarrow> old = map_of xs k \<and> (\<exists>ys. bt_rep s' ys \<and> map_of ys = (map_of xs)(k \<mapsto> v))
     | Err e \<Rightarrow> e = (k, v, AllocError) \<and> map_of xs k = None \<and> same_map s s' \<and> bt_rep s' xs \<and>
         \<not> generous (bt_heap s)
     | Panic msg \<Rightarrow> msg = ''memory allocation failed'' \<and> map_of xs k = None \<and> \<not> generous (bt_heap s)
     | UB \<Rightarrow> False)"
proof -
  obtain r s' where q: "bt_try_insert_give_back L k v s = Some (r, s')" "insert_answer xs k v s (r, s')"
    using insert_give_back_answer [OF assms, of L k v] by auto
  then show ?thesis
    using assms(1) bt_holds_same_map [of s xs s'] by (cases r) (auto simp: bt_rep_def)
qed

theorem btree_insert_spec_witness:
  "\<exists>r s'. bt_try_insert_give_back u64_nodes 11 5 (full_leaf policy_fail_next_alloc) = Some (r, s') \<and>
    (case r of
       Ok old \<Rightarrow> old = map_of (map (\<lambda>i. (i, i)) [0..10]) 11 \<and>
         (\<exists>ys. bt_rep s' ys \<and> map_of ys = (map_of (map (\<lambda>i. (i, i)) [0..10]))(11 \<mapsto> 5))
     | Err e \<Rightarrow> e = (11, 5, AllocError) \<and> map_of (map (\<lambda>i. (i, i)) [0..10]) (11::int) = None \<and>
         same_map (full_leaf policy_fail_next_alloc) s' \<and> bt_rep s' (map (\<lambda>i. (i, i)) [0..10]) \<and>
         \<not> generous (bt_heap (full_leaf policy_fail_next_alloc))
     | Panic msg \<Rightarrow> msg = ''memory allocation failed'' \<and> map_of (map (\<lambda>i. (i, i)) [0..10]) (11::int) = None \<and>
         \<not> generous (bt_heap (full_leaf policy_fail_next_alloc))
     | UB \<Rightarrow> False)"
  by (rule btree_insert_spec [OF full_leaf_rep]) (simp add: usize_max_def)

text \<open>Claim C37. The entry API agrees with insertion: \<open>entry(k).or_try_insert(v)\<close> answers a reference to
  the slot of the key. When the key is present the slot holds its value and the map is untouched;
  otherwise it holds the new value and the map has the entry added. An allocation failure leaves
  the map as it was.
\<close>

theorem btree_entry_spec:
  fixes s :: "('k::linorder, 'v) bstate"
  assumes "bt_rep s xs" and "length xs < usize_max"
  shows "\<exists>e r s'. (bt_entry k s :: (alloc_error, 'k entry) outcome) = Ok e \<and> or_try_insert L e v s = Some (r, s') \<and>
    (case r of
       Ok slot \<Rightarrow>
         entry_at (bt_nodes s') slot (k, case map_of xs k of Some w \<Rightarrow> w | None \<Rightarrow> v) \<and>
         (case map_of xs k of
            Some w \<Rightarrow> s' = s
          | None \<Rightarrow> \<exists>ys. bt_rep s' ys \<and> map_of ys = (map_of xs)(k \<mapsto> v))
     | Err a \<Rightarrow> map_of xs k = None \<and> same_map s s' \<and> \<not> generous (bt_heap s)
     | Panic msg \<Rightarrow> msg = ''memory allocation failed'' \<and> map_of xs k = None \<and> \<not> generous (bt_heap s)
     | UB \<Rightarrow> False)"
proof (cases rule: bt_entry_cases [where 'e = alloc_error, OF assms, of k])
  case (1 e A w B)
  have "map_of xs k = Some w" using 1(2,3) map_of_insert_between [OF 1(3), of w] by simp
  moreover have "entry_at (bt_nodes s) e (k, w)" using 1(4) by (simp add: occupied_at_def)
  ultimately show ?thesis using 1(1) by (simp add: or_try_insert_def or_try_insert_give_back_def)
next
  case (2 e A B)
  obtain r s' where q: "try_insert_kv L e k v s = Some (r, s')" "inserted s k v (A @ (k, v) # B) (r, s')"
    using 2(4) unfolding vacant_at_def by (metis surj_pair)
  have none: "map_of xs k = None" using map_of_between [OF 2(3)] 2(2) by simp
  have run: "or_try_insert L (Vacant k e) v s = Some (map_err drop_pair r, s')"
    using q(1) by (simp add: or_try_insert_def or_try_insert_give_back_def vacant_try_insert_give_back_def)
  show ?thesis
  proof (cases r)
    case (Ok slot)
    then have "bt_rep s' (A @ (k, v) # B)"
      using assms(1) q(2) 2(2) sorted_insert_between [OF _ 2(3), of v] by (auto simp: bt_rep_def)
    moreover have "map_of (A @ (k, v) # B) = (map_of xs)(k \<mapsto> v)"
      using map_of_insert_between [OF 2(3), of v] 2(2) by simp
    ultimately have "\<exists>ys. bt_rep s' ys \<and> map_of ys = (map_of xs)(k \<mapsto> v)" by blast
    then show ?thesis using 2(1) run none Ok q(2) by simp
  qed (use 2(1) run none q(2) in auto)
qed

theorem btree_entry_spec_witness:
  "\<exists>e r s'. (bt_entry 5 (full_leaf policy_fail_all) :: (alloc_error, int entry) outcome) = Ok e \<and>
    or_try_insert u64_nodes e 99 (full_leaf policy_fail_all) = Some (r, s') \<and>
    (case r of
       Ok slot \<Rightarrow>
         entry_at (bt_nodes s') slot (5, case map_of (map (\<lambda>i. (i, i)) [0..10]) 5 of Some w \<Rightarrow> w | None \<Rightarrow> 99) \<and>
         (case map_of (map (\<lambda>i. (i, i)) [0..10]) 5 of
            Some w \<Rightarrow> s' = full_leaf policy_fail_all
          | None \<Rightarrow> \<exists>ys. bt_rep s' ys \<and> map_of ys = (map_of (map (\<lambda>i. (i, i)) [0..10]))(5 \<mapsto> 99))
     | Err a \<Rightarrow> map_of (map (\<lambda>i. (i, i)) [0..10]) (5::int) = None \<and> same_map (full_leaf policy_fail_all) s' \<and>
         \<not> generous (bt_heap (full_leaf policy_fail_all))
     | Panic msg \<Rightarrow> msg = ''memory allocation failed'' \<and> map_of (map (\<lambda>i. (i, i)) [0..10]) (5::int) = None \<and>
         \<not> generous (bt_heap (full_leaf policy_fail_all))
     | UB \<Rightarrow> False)"
  by (rule btree_entry_spec [OF full_leaf_rep]) (simp add: usize_max_def)

section \<open>Every run from the empty map\<close>

text \<open>
  A client that inserts a list of pairs, keeps going after a failed insertion, and collects the
  answers. An abort ends the run.
\<close>

fun insert_all ::
    "node_layouts \<Rightarrow> ('k::linorder \<times> 'v) list \<Rightarrow> ('k, 'v) bstate \<Rightarrow>
     (('k, 'v) bstate, alloc_error, bool list) run option" where
  "insert_all L [] s = Some (Ok [], s)"
| "insert_all L ((k, v) # kvs) s =
     (case bt_try_insert_give_back L k v s of
        None \<Rightarrow> None
      | Some (Ok _, s') \<Rightarrow> map_option (map_ok_run (Cons True)) (insert_all L kvs s')
      | Some (Err _, s') \<Rightarrow> map_option (map_ok_run (Cons False)) (insert_all L kvs s')
      | Some (Panic msg, s') \<Rightarrow> Some (Panic msg, s')
      | Some (UB, s') \<Rightarrow> Some (UB, s'))"

text \<open>The content after the insertions that succeeded.\<close>

fun stored :: "('k \<times> 'v) list \<Rightarrow> bool list \<Rightarrow> ('k \<rightharpoonup> 'v) \<Rightarrow> ('k \<rightharpoonup> 'v)" where
  "stored ((k, v) # kvs) (True # oks) m = stored kvs oks (m(k \<mapsto> v))"
| "stored (kv # kvs) (False # oks) m = stored kvs oks m"
| "stored kvs oks m = m"

lemma sorted_wrt_lt_distinct: "sorted_wrt (<) ks \<Longrightarrow> distinct ks" for ks :: "'k::linorder list"
  by (induction ks) auto

lemma length_map_of:
  fixes xs :: "('k::linorder \<times> 'v) list"
  assumes "sorted_wrt (<) (map fst xs)"
  shows "length xs = card (dom (map_of xs))"
proof -
  have "distinct (map fst xs)" using assms
    by (rule sorted_wrt_lt_distinct)
  then show ?thesis by (simp add: dom_map_of_conv_image_fst distinct_card flip: set_map)
qed

lemma bt_rep_height:
  assumes "bt_rep s xs" and "bt_root s = Some r"
  shows "2 * 6 ^ nr_height r \<le> length xs + 1"
proof -
  obtain t where "root_shape (nr_height r) t" "flat t = xs"
    using assms by (auto simp: bt_rep_def bt_holds_def)
  then show ?thesis using root_shape_entries [of "nr_height r" t] by simp
qed

lemma insert_all_rep:
  fixes s :: "('k::linorder, 'v) bstate"
  assumes "bt_rep s xs" and "length xs + length kvs < usize_max"
  shows "\<exists>r s'. (insert_all L kvs s :: (('k, 'v) bstate, alloc_error, bool list) run option) = Some (r, s') \<and>
    (case r of
       Ok oks \<Rightarrow> length oks = length kvs \<and> (\<exists>ys. bt_rep s' ys \<and> map_of ys = stored kvs oks (map_of xs)) \<and>
         (generous (bt_heap s) \<longrightarrow> list_all (\<lambda>b. b) oks)
     | Panic msg \<Rightarrow> msg = ''memory allocation failed'' \<and> \<not> generous (bt_heap s)
     | _ \<Rightarrow> False)"
  using assms
proof (induction kvs arbitrary: s xs)
  case Nil
  then show ?case by auto
next
  case (Cons kv kvs)
  obtain k v where kv: "kv = (k, v)" by (cases kv)
  obtain r s1 where q: "bt_try_insert_give_back L k v s = Some (r, s1)" "insert_answer xs k v s (r, s1)"
    using insert_give_back_answer [OF Cons.prems(1), of L k v] Cons.prems(2) by auto
  show ?case
  proof (cases r)
    case (Ok old)
    then obtain ys where ys: "bt_rep s1 ys" "map_of ys = (map_of xs)(k \<mapsto> v)"
        "generous (bt_heap s) \<longrightarrow> generous (bt_heap s1)" using q(2) by auto
    have "length ys \<le> length xs + 1"
      using ys Cons.prems(1) length_map_of [of ys] length_map_of [of xs]
      by (simp add: bt_rep_def card_insert_le_m1 card_insert_if finite_dom_map_of)
    then obtain r' s' where run: "insert_all L kvs s1 = Some (r', s')"
      and r': "case r' of
         Ok oks \<Rightarrow> length oks = length kvs \<and> (\<exists>zs. bt_rep s' zs \<and> map_of zs = stored kvs oks (map_of ys)) \<and>
           (generous (bt_heap s1) \<longrightarrow> list_all (\<lambda>b. b) oks)
       | Panic msg \<Rightarrow> msg = ''memory allocation failed'' \<and> \<not> generous (bt_heap s1)
       | _ \<Rightarrow> False"
      using Cons.IH [OF ys(1)] Cons.prems(2) by auto
    have "insert_all L (kv # kvs) s = Some (map_ok (Cons True) r', s')" using run q(1) Ok kv by simp
    then show ?thesis using r' ys(2,3) kv by (cases r') auto
  next
    case (Err e)
    then have "bt_rep s1 xs" using q(2) Cons.prems(1) bt_holds_same_map [of s xs s1] by (auto simp: bt_rep_def)
    then obtain r' s' where run: "insert_all L kvs s1 = Some (r', s')"
      and r': "case r' of
         Ok oks \<Rightarrow> length oks = length kvs \<and> (\<exists>zs. bt_rep s' zs \<and> map_of zs = stored kvs oks (map_of xs)) \<and>
           (generous (bt_heap s1) \<longrightarrow> list_all (\<lambda>b. b) oks)
       | Panic msg \<Rightarrow> msg = ''memory allocation failed'' \<and> \<not> generous (bt_heap s1)
       | _ \<Rightarrow> False"
      using Cons.IH [of s1 xs] Cons.prems(2) by auto
    have "insert_all L (kv # kvs) s = Some (map_ok (Cons False) r', s')" using run q(1) Err kv by simp
    moreover have "\<not> generous (bt_heap s)" using q(2) Err by simp
    ultimately show ?thesis using r' kv by (cases r') auto
  qed (use q kv in auto)
qed

text \<open>Claim C38. Whatever a client inserts into a new map, on whatever heap: unless the process aborts
  for lack of memory, each insertion returns, the map is well formed with the content of the
  insertions that succeeded, its length counts the keys, and a tree of height \<open>h\<close> has at least
  \<open>2 * 6 ^ h - 1\<close> entries, so that the search is logarithmic and heights fit in \<open>usize\<close>. With
  memory to spare every insertion succeeds.
\<close>

theorem btree_height_bound:
  fixes kvs :: "('k::linorder \<times> 'v) list"
  assumes "length kvs < usize_max"
  shows "\<exists>r s. insert_all L kvs (bt_new h) = Some (r, s) \<and>
    (case r of
       Ok oks \<Rightarrow> length oks = length kvs \<and> (\<exists>ys. bt_rep s ys \<and> map_of ys = stored kvs oks Map.empty) \<and>
         bt_length s = card (dom (stored kvs oks Map.empty)) \<and>
         (\<forall>t. bt_root s = Some t \<longrightarrow> 2 * 6 ^ nr_height t \<le> bt_length s + 1) \<and>
         (generous h \<longrightarrow> list_all (\<lambda>b. b) oks)
     | Panic msg \<Rightarrow> msg = ''memory allocation failed'' \<and> \<not> generous h
     | _ \<Rightarrow> False)"
proof -
  obtain r s where run: "insert_all L kvs (bt_new h) = Some (r, s)"
    and r: "case r of
       Ok oks \<Rightarrow> length oks = length kvs \<and> (\<exists>ys. bt_rep s ys \<and> map_of ys = stored kvs oks (map_of [])) \<and>
         (generous h \<longrightarrow> list_all (\<lambda>b. b) oks)
     | Panic msg \<Rightarrow> msg = ''memory allocation failed'' \<and> \<not> generous h
     | _ \<Rightarrow> False"
    using insert_all_rep [OF bt_rep_new [of h], of kvs L, unfolded bt_heap_new] assms by auto
  show ?thesis
  proof (cases r)
    case (Ok oks)
    then obtain ys where ys: "bt_rep s ys" "map_of ys = stored kvs oks Map.empty" using r by auto
    have "bt_length s = length ys" using ys(1) by (simp add: bt_rep_def bt_holds_def)
    moreover have "length ys = card (dom (stored kvs oks Map.empty))"
      using ys length_map_of [of ys] by (simp add: bt_rep_def)
    moreover have "length oks = length kvs" "generous h \<longrightarrow> list_all (\<lambda>b. b) oks" using r Ok by simp_all
    moreover have "2 * 6 ^ nr_height t \<le> bt_length s + 1" if "bt_root s = Some t" for t
      using bt_rep_height [OF ys(1) that] \<open>bt_length s = length ys\<close> by simp
    ultimately show ?thesis using run Ok ys by (intro exI [of _ r] exI [of _ s]) auto
  qed (use run r in auto)
qed

theorem btree_height_bound_witness:
  "\<exists>r s. insert_all u64_nodes (map (\<lambda>i. (i, i)) [0..<12]) (bt_new (heap_with policy_nothing)) = Some (r, s) \<and>
    (case r of
       Ok oks \<Rightarrow> length oks = length (map (\<lambda>i. (i, i)) [0..<12]) \<and>
         (\<exists>ys. bt_rep s ys \<and> map_of ys = stored (map (\<lambda>i. (i, i)) [0..<12]) oks Map.empty) \<and>
         bt_length s = card (dom (stored (map (\<lambda>i. (i, i)) [0..<12]) oks Map.empty)) \<and>
         (\<forall>t. bt_root s = Some t \<longrightarrow> 2 * 6 ^ nr_height t \<le> bt_length s + 1) \<and>
         (generous (heap_with policy_nothing) \<longrightarrow> list_all (\<lambda>b. b) oks)
     | Panic msg \<Rightarrow> msg = ''memory allocation failed'' \<and> \<not> generous (heap_with policy_nothing)
     | _ \<Rightarrow> False)"
  by (rule btree_height_bound) (simp add: usize_max_def)

section \<open>The abort\<close>

text \<open>The stages of an insertion of the key 11 into the full leaf.\<close>

lemma full_leaf_sel [simp]:
  "bt_root (full_leaf p) = Some (NodeRef 0 7)" "bt_heap (full_leaf p) = heap_with p"
  "probe_buf (full_leaf p) = None" "reserved_buf (full_leaf p) = None" "bt_next (full_leaf p) = 8"
  "bt_length (full_leaf p) = 11"
  "bt_nodes (full_leaf p) 7 = Some \<lparr>n_parent = None, n_parent_idx = None, n_len = 11,
     n_keys = map Some [0..10], n_vals = map Some [0..10], n_edges = []\<rparr>"
  by (simp_all add: full_leaf_def bt_new_def)

lemma full_leaf_scan: "(find_key_index (11::int) (map Some [0..10]) 11 0 :: ('e, bool \<times> nat) outcome) = Ok (False, 11)"
  by (simp add: eval_nat_numeral init_read_def upto.simps)

lemma full_leaf_entry: "bt_entry 11 (full_leaf p) = Ok (Vacant 11 (Some (Handle (NodeRef 0 7) 11)))"
  by (simp add: bt_entry_def full_leaf_scan)

definition full_plan :: commit_plan where
  "full_plan = \<lparr>cp_orig_leaf = 7, cp_leaf_sp = 6, cp_insert_right = True, cp_insert_idx = 4,
     cp_internals = vec_new commit_internal_l, cp_new_root = True\<rparr>"

lemma full_leaf_plan:
  "plan_build (Handle (NodeRef 0 7) 11) (full_leaf p) = Some (Ok full_plan, full_leaf p)"
  by (simp add: plan_build_def splitpoint_def EDGE_IDX_LEFT_OF_CENTER_def EDGE_IDX_RIGHT_OF_CENTER_def KV_IDX_CENTER_def
      probe_count.simps probe_record.simps ascend_def probe_buffer_try_new_def scratch_take_def vec_try_with_capacity_def
      into_vec_def full_plan_def)

lemma full_leaf_insert:
  "bt_try_insert_give_back L 11 v (full_leaf p) =
     Some (map_ok_run (\<lambda>_. None) (reserve_and_commit L full_plan 11 v (full_leaf p)))"
  by (simp add: bt_try_insert_give_back_def full_leaf_entry vacant_try_insert_give_back_def try_insert_kv_def
      try_insert_into_existing_def CAPACITY_def try_insert_with_split_def full_leaf_plan)

text \<open>The requests in order: the leaf, the buffer of reserved nodes, the root, the pointers.\<close>

lemma full_leaf_requests:
  fixes v :: int
  assumes 1: "galloc (heap_with p) = (g1, h1)" and 2: "galloc h1 = (g2, h2)" and 3: "galloc h2 = (g3, h3)"
    and 4: "galloc h3 = (g4, h4)"
  shows "\<not> g1 \<or> \<not> g2 \<or> \<not> g3 \<Longrightarrow>
      fst (reserve_and_commit u64_nodes full_plan 11 v (full_leaf p)) = Err (11, v, AllocError)"
    and "g1 \<and> g2 \<and> g3 \<and> \<not> g4 \<Longrightarrow>
      fst (reserve_and_commit u64_nodes full_plan 11 v (full_leaf p)) = Panic ''memory allocation failed''"
proof -
  let ?s = "full_leaf p" and ?leaf = "empty_leaf :: (int, int) node" and ?root = "empty_internal :: (int, int) node"
  let ?s1 = "?s\<lparr>bt_heap := h1, bt_nodes := (bt_nodes ?s)(8 \<mapsto> ?leaf), bt_next := 9\<rparr>"
  let ?s2 = "?s1\<lparr>reserved_buf := None, bt_heap := h2\<rparr>"
  let ?s3 = "?s2\<lparr>bt_heap := h3, bt_nodes := (bt_nodes ?s2)(9 \<mapsto> ?root), bt_next := 10\<rparr>"
  let ?buf = "\<lambda>xs. Vec xs 4 box_l :: addr vec"
  have leaf: "try_new_leaf_box u64_nodes ?s = (if g1 then (Ok 8, ?s1) else (Err AllocError, ?s\<lparr>bt_heap := h1\<rparr>))"
    using 1 by (simp add: try_new_leaf_box_def alloc_node_def alloc_box_uninit_def u64_nodes_def)
  have plan: "num_reserved full_plan = Suc 0" "cp_internals full_plan = vec_new commit_internal_l"
    by (simp_all add: num_reserved_def full_plan_def)
  have "scratch_take box_l (Suc 0) None h1 = (if g2 then Ok (?buf []) else Err AllocError, h2)"
    using 2 by (simp add: scratch_take_def vec_try_with_capacity_def into_vec_def vec_try_reserve_def grow_amortized_def
        grow_cap_def vec_new_def checked_add_def usize_max_def isize_max_def box_l_def min_non_zero_cap_def with_cap_def)
  then have buf: "reserve_buffer_try_new (Suc 0) ?s1 = (if g2 then Ok (?buf []) else Err AllocError, ?s2)"
    by (simp add: reserve_buffer_try_new_def)
  have push: "(vec_push 9 (?buf [], h3) :: (addr vstate, alloc_error, unit) run) = (Ok (), (?buf [9], h3))"
    by (simp add: vec_push_def with_items_def)
  have root: "reserve_internals u64_nodes (Suc 0) (?buf []) ?s2 =
      (if g3 then (Ok (?buf [9]), ?s3) else (Err (?buf [], AllocError), ?s2\<lparr>bt_heap := h3\<rparr>))"
    using 3 push by (simp add: try_new_internal_box_def alloc_node_def alloc_box_uninit_def u64_nodes_def)
  have drain: "(drain_to_pointers (?buf [9]) h3 :: (int \<times> int \<times> alloc_error, addr vec \<times> addr vec) outcome \<times> heap) =
      (Panic ''memory allocation failed'', h4)" if "\<not> g4"
    using 4 that by (simp add: drain_to_pointers_def vec_with_capacity_def box_l_def isize_max_def)
  note stages = reserve_and_commit_def Let_def plan leaf buf root if_True if_False prod.case outcome.case fst_conv
  show "fst (reserve_and_commit u64_nodes full_plan 11 v ?s) = Err (11, v, AllocError)"
    if "\<not> g1 \<or> \<not> g2 \<or> \<not> g3"
    using that by (cases g1; cases g2; cases g3) (simp_all only: stages simp_thms)
  show "fst (reserve_and_commit u64_nodes full_plan 11 v ?s) = Panic ''memory allocation failed''"
    if "g1 \<and> g2 \<and> g3 \<and> \<not> g4"
  proof -
    have "bt_heap ?s3 = h3" by simp
    with that drain show ?thesis by (simp only: stages simp_thms and_then.simps)
  qed
qed

text \<open>The commit is not allocation free: with a full root leaf, the failure of the first,
  second or third request of an insertion gives the pair back, the failure of the fourth, the
  vector of raw pointers, aborts the process.
\<close>

lemma btree_commit_aborts:
  "map_option fst (bt_try_insert_give_back u64_nodes 11 v (full_leaf (policy_fail_nth_alloc 1))) = Some (Err (11, v, AllocError)) \<and>
   map_option fst (bt_try_insert_give_back u64_nodes 11 v (full_leaf (policy_fail_nth_alloc 2))) = Some (Err (11, v, AllocError)) \<and>
   map_option fst (bt_try_insert_give_back u64_nodes 11 v (full_leaf (policy_fail_nth_alloc 3))) = Some (Err (11, v, AllocError)) \<and>
   map_option fst (bt_try_insert_give_back u64_nodes 11 v (full_leaf (policy_fail_nth_alloc 4))) =
     Some (Panic ''memory allocation failed'') \<and>
   map_option fst (bt_try_insert_give_back u64_nodes 11 v (full_leaf policy_nothing)) = Some (Ok None)"
proof -
  have run: "map_option fst (bt_try_insert_give_back u64_nodes 11 v (full_leaf p)) =
      Some (map_ok (\<lambda>_. None) (fst (reserve_and_commit u64_nodes full_plan 11 v (full_leaf p))))" for p
    by (cases "reserve_and_commit u64_nodes full_plan 11 v (full_leaf p)") (simp add: full_leaf_insert)
  note requests = full_leaf_requests [OF prod.collapse [symmetric] prod.collapse [symmetric]
      prod.collapse [symmetric] prod.collapse [symmetric]]
  note heap = heap_with_def galloc_def policy_fail_nth_alloc_def check_should_fail_alloc_def system_request_def
  have 1: "fst (reserve_and_commit u64_nodes full_plan 11 v (full_leaf (policy_fail_nth_alloc 1))) = Err (11, v, AllocError)"
    by (rule requests(1)) (simp add: heap)
  have 2: "fst (reserve_and_commit u64_nodes full_plan 11 v (full_leaf (policy_fail_nth_alloc 2))) = Err (11, v, AllocError)"
    by (rule requests(1)) (simp add: heap)
  have 3: "fst (reserve_and_commit u64_nodes full_plan 11 v (full_leaf (policy_fail_nth_alloc 3))) = Err (11, v, AllocError)"
    by (rule requests(1)) (simp add: heap)
  have 4: "fst (reserve_and_commit u64_nodes full_plan 11 v (full_leaf (policy_fail_nth_alloc 4))) =
      Panic ''memory allocation failed''"
    by (rule requests(2)) (simp add: heap)
  obtain q where q: "bt_try_insert_give_back u64_nodes 11 v (full_leaf policy_nothing) = Some q"
      "insert_answer (map (\<lambda>i. (i, i)) [0..10]) 11 v (full_leaf policy_nothing) q"
    using insert_give_back_answer [OF full_leaf_rep [of policy_nothing], of u64_nodes 11 v] by (auto simp: usize_max_def)
  have "map_of (map (\<lambda>i. (i, i)) [0..10]) (11::int) = None" by (auto simp: map_of_eq_None_iff)
  then have "fst q = Ok None"
    using q(2) generous_heap_with by (cases "fst q"; cases q) (simp_all del: generous_heap_with)
  moreover have "map_option fst (bt_try_insert_give_back u64_nodes 11 v (full_leaf policy_nothing)) = Some (fst q)"
    using q(1) by simp
  ultimately show ?thesis by (simp only: run 1 2 3 4 map_ok.simps)
qed

end
