(* ===== verification/BTreeExtend.thy ===== *)
theory BTreeExtend
  imports BTreeProps BulkInsert
begin

text \<open>
  Extension of the B-tree maps and sets (\<^verbatim>\<open>rustyfill/src/alloc/btrees/entry_try_extend.rs\<close>). A
  source is the one of \<open>Extend\<close>: an iterator, or a resumable that an earlier failure handed back. A
  clone sees and changes only the heap of the map's state. The maps and the sets meet the interface
  \<open>giving_insertion\<close>, from which the contract of their extension and of its retry follows.
\<close>

section \<open>Operations\<close>

datatype btree_clone_error = BTreeClone try_clone_error | BTreeAlloc alloc_error

text \<open>One insertion of the loops: the pair and the error come back apart.\<close>

definition bt_insert_item ::
    "node_layouts \<Rightarrow> 'k::linorder \<times> 'v \<Rightarrow> ('k, 'v) bstate \<Rightarrow>
     (('k, 'v) bstate, ('k \<times> 'v) \<times> alloc_error, 'v option) run option" where
  "bt_insert_item L kv s =
     map_option (map_err_run (\<lambda>(k, v, e). ((k, v), e))) (bt_try_insert_give_back L (fst kv) (snd kv) s)"

definition bt_try_extend ::
    "node_layouts \<Rightarrow> ('k::linorder \<times> 'v) source \<Rightarrow> ('k, 'v) bstate \<Rightarrow>
     (('k, 'v) bstate, ('k \<times> 'v) resumable \<times> alloc_error, unit) run option" where
  "bt_try_extend L = try_extend_by (bt_insert_item L)"

text \<open>One round of the slice loop: clone, then insert.\<close>

definition cloned_then ::
    "'x cloner \<Rightarrow> ('x \<Rightarrow> ('k, 'v) bstate \<Rightarrow> (('k, 'v) bstate, 'x \<times> alloc_error, 'o) run option) \<Rightarrow>
     'x \<Rightarrow> ('k, 'v) bstate \<Rightarrow> (('k, 'v) bstate, btree_clone_error, 'o) run option" where
  "cloned_then cl ins x s =
     (case cl x (bt_heap s) of
        (Ok y, h') \<Rightarrow> map_option (map_err_run (\<lambda>e. BTreeAlloc (snd e))) (ins y (s\<lparr>bt_heap := h'\<rparr>))
      | (Err e, h') \<Rightarrow> Some (Err (BTreeClone e), s\<lparr>bt_heap := h'\<rparr>)
      | (Panic m, h') \<Rightarrow> Some (Panic m, s\<lparr>bt_heap := h'\<rparr>)
      | (UB, h') \<Rightarrow> Some (UB, s\<lparr>bt_heap := h'\<rparr>))"

definition bt_try_extend_from_slice ::
    "node_layouts \<Rightarrow> 'k::linorder cloner \<Rightarrow> 'v cloner \<Rightarrow> ('k \<times> 'v) list \<Rightarrow> ('k, 'v) bstate \<Rightarrow>
     (('k, 'v) bstate, ('k \<times> 'v) list \<times> btree_clone_error, unit) run option" where
  "bt_try_extend_from_slice L clk clv other s =
     each_by (cloned_then (clone_pair clk clv) (bt_insert_item L)) (\<lambda>x xs e. (x # xs, e)) other s"

definition set_try_extend ::
    "node_layouts \<Rightarrow> 'k::linorder source \<Rightarrow> ('k, unit) bstate \<Rightarrow>
     (('k, unit) bstate, 'k resumable \<times> alloc_error, unit) run option" where
  "set_try_extend L = try_extend_by (set_try_insert_give_back L)"

definition set_try_extend_from_slice ::
    "node_layouts \<Rightarrow> 'k::linorder cloner \<Rightarrow> 'k list \<Rightarrow> ('k, unit) bstate \<Rightarrow>
     (('k, unit) bstate, 'k list \<times> btree_clone_error, unit) run option" where
  "set_try_extend_from_slice L cl other s =
     each_by (cloned_then cl (set_try_insert_give_back L)) (\<lambda>x xs e. (x # xs, e)) other s"

section \<open>The content of a map\<close>

definition bt_map :: "('k::linorder, 'v) bstate \<Rightarrow> ('k \<rightharpoonup> 'v) \<Rightarrow> bool" where
  "bt_map s m \<longleftrightarrow> (\<exists>xs. bt_rep s xs \<and> map_of xs = m)"

definition bt_set :: "('k::linorder, unit) bstate \<Rightarrow> 'k set \<Rightarrow> bool" where
  "bt_set s A \<longleftrightarrow> bt_map s (\<lambda>k. if k \<in> A then Some () else None)"

abbreviation keys_held :: "('k \<rightharpoonup> 'v) \<Rightarrow> nat" where
  "keys_held m \<equiv> card (dom m)"

lemma keys_held_put: "keys_held (put_pair kv m) \<le> Suc (keys_held m)"
  by (simp add: put_pair_def card_insert_le_m1 card_insert_if)

lemma bt_map_same: "bt_map s m \<Longrightarrow> same_map s s' \<Longrightarrow> bt_map s' m"
  by (auto simp: bt_map_def bt_rep_def dest: bt_holds_same_map)

lemma bt_map_heap [simp]: "bt_map s m \<Longrightarrow> bt_map (s\<lparr>bt_heap := h\<rparr>) m"
  by (erule bt_map_same) (simp add: same_map_def)

lemma bt_set_heap [simp]: "bt_set s A \<Longrightarrow> bt_set (s\<lparr>bt_heap := h\<rparr>) A"
  by (simp add: bt_set_def)

lemma insert_map_cases:
  assumes "bt_map s m" and "keys_held m < usize_max"
  obtains (Ok) s' where "bt_try_insert_give_back L k v s = Some (Ok (m k), s')" and "bt_map s' (m(k \<mapsto> v))"
  | (Err) s' where "bt_try_insert_give_back L k v s = Some (Err (k, v, AllocError), s')" and "bt_map s' m"
  | (Panic) s' where "bt_try_insert_give_back L k v s = Some (Panic ''memory allocation failed'', s')"
proof -
  obtain xs where xs: "bt_rep s xs" "map_of xs = m" using assms(1) by (auto simp: bt_map_def)
  then have "length xs < usize_max" using assms(2) length_map_of [of xs] by (simp add: bt_rep_def)
  then obtain r s' where q: "bt_try_insert_give_back L k v s = Some (r, s')" "insert_answer xs k v s (r, s')"
    using insert_give_back_answer [OF xs(1), of L k v] by auto
  show thesis
  proof (cases r)
    case (Ok old)
    then show thesis using q xs(2) by (intro that(1) [of s']) (auto simp: bt_map_def)
  next
    case (Err e)
    then show thesis using q bt_map_same [OF assms(1), of s'] by (intro that(2) [of s']) auto
  qed (use q that(3) in auto)
qed

section \<open>Maps and sets meet the interface of insertions\<close>

interpretation bt_ins: giving_insertion "bt_insert_item L" bt_map put_pair keys_held usize_max True
proof
  fix s :: "('a, 'b) bstate" and m x
  assume "bt_map s m" "keys_held m < usize_max"
  then show "(\<exists>a s'. bt_insert_item L x s = Some (Ok a, s') \<and> bt_map s' (put_pair x m)) \<or>
      (\<exists>e s'. bt_insert_item L x s = Some (Err e, s') \<and> fst e = x \<and> bt_map s' m) \<or>
      (\<exists>s'. bt_insert_item L x s = Some (Panic ''memory allocation failed'', s') \<and> True)"
    by (cases rule: insert_map_cases [of s m L "fst x" "snd x"]) (auto simp: bt_insert_item_def put_pair_def)
qed (rule keys_held_put)

text \<open>With memory to spare no insertion fails.\<close>

definition roomy_map :: "('k::linorder, 'v) bstate \<Rightarrow> ('k \<rightharpoonup> 'v) \<Rightarrow> bool" where
  "roomy_map s m \<longleftrightarrow> bt_map s m \<and> generous (bt_heap s)"

interpretation bt_sure: sure_insertion "bt_insert_item L" roomy_map put_pair keys_held usize_max
proof
  fix s :: "('a, 'b) bstate" and m x
  assume s: "roomy_map s m" "keys_held m < usize_max"
  then obtain xs where xs: "bt_rep s xs" "map_of xs = m" by (auto simp: roomy_map_def bt_map_def)
  then have "length xs < usize_max" using s(2) length_map_of [of xs] by (simp add: bt_rep_def)
  then obtain r s' where q: "bt_try_insert_give_back L (fst x) (snd x) s = Some (r, s')"
      "insert_answer xs (fst x) (snd x) s (r, s')"
    using insert_give_back_answer [OF xs(1), of L "fst x" "snd x"] by auto
  then show "\<exists>a s'. bt_insert_item L x s = Some (Ok a, s') \<and> roomy_map s' (put_pair x m)"
    using s(1) xs(2) by (cases r) (auto simp: bt_insert_item_def roomy_map_def bt_map_def put_pair_def)
qed (rule keys_held_put)

lemma unit_map_insert:
  "(\<lambda>k. if k = x \<or> k \<in> A then Some () else None) = (\<lambda>k. if k \<in> A then Some () else None)(x \<mapsto> ())"
  by auto

interpretation set_ins: giving_insertion "set_try_insert_give_back L" bt_set insert card usize_max True
proof
  fix s :: "('a, unit) bstate" and A :: "'a set" and x
  have dom: "dom (\<lambda>k. if k \<in> A then Some () else None) = A" by (auto split: if_splits)
  assume "bt_set s A" "card A < usize_max"
  then have "bt_map s (\<lambda>k. if k \<in> A then Some () else None)"
      "keys_held (\<lambda>k. if k \<in> A then Some () else None) < usize_max" by (simp_all add: bt_set_def dom)
  then show "(\<exists>a s'. set_try_insert_give_back L x s = Some (Ok a, s') \<and> bt_set s' (insert x A)) \<or>
      (\<exists>e s'. set_try_insert_give_back L x s = Some (Err e, s') \<and> fst e = x \<and> bt_set s' A) \<or>
      (\<exists>s'. set_try_insert_give_back L x s = Some (Panic ''memory allocation failed'', s') \<and> True)"
    by (cases rule: insert_map_cases [of s _ L x "()"])
      (auto simp: set_try_insert_give_back_def bt_set_def unit_map_insert)
qed (simp add: card_insert_le_m1 card_insert_if)

text \<open>Clones that show the same value make the rounds of the slice loops insertions as well.\<close>

lemma cloned_then_insertion:
  assumes "giving_insertion ins holds upd weight lim ab" and "cloneable cl (\<lambda>x. x)"
    and heap: "\<And>s m h. holds s m \<Longrightarrow> holds (s\<lparr>bt_heap := h\<rparr>) m"
  shows "insertion (cloned_then cl ins) holds upd (\<lambda>_ _. True) weight lim ab"
proof -
  have step: "insertion ins holds upd (\<lambda>x e. fst e = x) weight lim ab"
    using assms(1) by (rule giving_insertion.axioms)
  show ?thesis
  proof
    fix s m x
    assume s: "holds s m" "weight m < lim"
    show "(\<exists>a s'. cloned_then cl ins x s = Some (Ok a, s') \<and> holds s' (upd x m)) \<or>
        (\<exists>e s'. cloned_then cl ins x s = Some (Err e, s') \<and> True \<and> holds s' m) \<or>
        (\<exists>s'. cloned_then cl ins x s = Some (Panic ''memory allocation failed'', s') \<and> ab)"
    proof (cases rule: cloneable.clone_cases [OF assms(2), of x "bt_heap s"])
      case (1 y h')
      then show ?thesis
        by (cases rule: insertion.ins_cases [OF step heap [OF s(1)] s(2), of x h'])
          (auto simp: cloned_then_def)
    next
      case (2 e h')
      then show ?thesis using heap [OF s(1)] by (auto simp: cloned_then_def)
    qed
  qed (rule insertion.weight_upd [OF step])
qed

lemma bt_extend_from_slice_extended:
  assumes "cloneable clk (\<lambda>k. k)" and "cloneable clv (\<lambda>v. v)"
    and "bt_map s m" and "keys_held m + length kvs \<le> usize_max"
  shows "\<exists>r. bt_try_extend_from_slice L clk clv kvs s = Some r \<and> extended True bt_map put_pair m kvs fst r"
proof -
  have "cloneable (clone_pair clk clv) (\<lambda>kv. kv)"
    using clone_pair_cloneable [OF assms(1,2)] by (simp add: map_prod.identity [unfolded id_def])
  from cloned_then_insertion [OF bt_ins.giving_insertion_axioms this bt_map_heap]
  show ?thesis
    unfolding bt_try_extend_from_slice_def by (rule insertion.each_by_extended) (use assms in auto)
qed

lemma set_extend_from_slice_extended:
  assumes "cloneable cl (\<lambda>k. k)" and "bt_set s A" and "card A + length xs \<le> usize_max"
  shows "\<exists>r. set_try_extend_from_slice L cl xs s = Some r \<and> extended True bt_set insert A xs fst r"
  unfolding set_try_extend_from_slice_def
  by (rule insertion.each_by_extended [OF cloned_then_insertion [OF set_ins.giving_insertion_axioms assms(1) bt_set_heap]])
    (use assms in auto)

lemma set_try_extend_extended:
  "bt_set s A \<Longrightarrow> card A + length (source_items src) \<le> usize_max \<Longrightarrow>
   \<exists>r. set_try_extend L src s = Some r \<and>
     extended True bt_set insert A (source_items src) (\<lambda>e. resumable_items (fst e)) r"
  unfolding set_try_extend_def by (rule set_ins.try_extend_extended)

section \<open>Properties\<close>

lemma panicking_insertion:
  assumes "try_extend_by (bt_insert_item L) src s = Some (Panic msg, s')"
  shows "\<exists>ys k v zs s1. source_items src = ys @ (k, v) # zs \<and>
    each_by (bt_insert_item L) (\<lambda>_ _ e. e) ys s = Some (Ok (), s1) \<and>
    bt_try_insert_give_back L k v s1 = Some (Panic msg, s')"
proof -
  obtain ys kv zs s1 where at: "source_items src = ys @ kv # zs"
      "each_by (bt_insert_item L) (\<lambda>_ _ e. e) ys s = Some (Ok (), s1)" "bt_insert_item L kv s1 = Some (Panic msg, s')"
    using try_extend_by_Panic [OF assms] by (auto simp: panics_in_def)
  obtain q where q: "bt_try_insert_give_back L (fst kv) (snd kv) s1 = Some (q, s')" "map_err (\<lambda>(k, v, e). ((k, v), e)) q = Panic msg"
    using at(3) by (auto simp: bt_insert_item_def map_err_run_def)
  have "q = Panic msg" using q(2) by (cases q) auto
  then show ?thesis using at(1,2) q(1) by (cases kv) auto
qed

lemma resumed_extension:
  fixes s :: "('k::linorder, 'v) bstate"
  assumes "bt_map s m" and "keys_held m + length (source_items src) \<le> usize_max"
    and "extended True bt_map put_pair m (source_items src) (\<lambda>e. resumable_items (fst e)) (Err (res, e), s')"
    and "generous h"
  shows "\<exists>t. try_extend_by (bt_insert_item L) (Retry res) (s'\<lparr>bt_heap := h\<rparr>) = Some (Ok (), t)"
proof -
  obtain ys where ys: "source_items src = ys @ resumable_items res" "bt_map s' (fold put_pair ys m)"
    using assms(3) by auto
  have again: "source_items (Retry res) = resumable_items res"
    by (simp add: source_items_def resumable_items_def into_parts_def)
  have "keys_held (fold put_pair ys m) + length (source_items (Retry res)) \<le> usize_max"
    using assms(2) ys(1) bt_ins.weight_fold [of ys m] again by simp
  moreover have "roomy_map (s'\<lparr>bt_heap := h\<rparr>) (fold put_pair ys m)"
    using ys(2) assms(4) by (simp add: roomy_map_def)
  ultimately show ?thesis using bt_sure.try_extend_sure by blast
qed

text \<open>Claim C35. Extending a B-tree map returns, on every heap, and is \<open>Ok\<close> on a heap with memory to
  spare. \<open>Ok\<close> leaves the map with all pairs of the source, later ones over earlier ones. A failed
  allocation leaves it with a first part of the pairs and hands back exactly the others, starting with
  the one that did not fit; resuming from what was handed back succeeds once there is memory to spare,
  and whenever it succeeds the map is as if nothing had failed. The only other outcome is the abort of
  the infallible pointer vector inside the insertion, with give-back, of one of the pairs, after those
  before it were inserted.\<close>

theorem btree_extend_spec:
  fixes s :: "('k::linorder, 'v) bstate"
  assumes "bt_rep s xs" and "length xs + length (source_items src) \<le> usize_max"
  shows "\<exists>r s'. bt_try_extend L src s = Some (r, s') \<and>
    (case r of
       Ok _ \<Rightarrow> bt_map s' (map_of xs ++ map_of (rev (source_items src)))
     | Err (res, e) \<Rightarrow> \<not> generous (bt_heap s) \<and> resumable_items res \<noteq> [] \<and>
         (\<exists>ys. source_items src = ys @ resumable_items res \<and> bt_map s' (map_of xs ++ map_of (rev ys))) \<and>
         (\<forall>h. generous h \<longrightarrow> (\<exists>t. bt_try_extend L (Retry res) (s'\<lparr>bt_heap := h\<rparr>) = Some (Ok (), t))) \<and>
         (\<forall>h t. bt_try_extend L (Retry res) (s'\<lparr>bt_heap := h\<rparr>) = Some (Ok (), t) \<longrightarrow>
            bt_map t (map_of xs ++ map_of (rev (source_items src))))
     | Panic msg \<Rightarrow> msg = ''memory allocation failed'' \<and> \<not> generous (bt_heap s) \<and>
         (\<exists>ys k v zs s1. source_items src = ys @ (k, v) # zs \<and>
            each_by (bt_insert_item L) (\<lambda>_ _ e. e) ys s = Some (Ok (), s1) \<and>
            bt_try_insert_give_back L k v s1 = Some (Panic msg, s'))
     | UB \<Rightarrow> False)"
proof -
  have s: "bt_map s (map_of xs)" "keys_held (map_of xs) + length (source_items src) \<le> usize_max"
    using assms length_map_of [of xs] by (auto simp: bt_map_def bt_rep_def)
  obtain r s' where run: "try_extend_by (bt_insert_item L) src s = Some (r, s')"
      and ext: "extended True bt_map put_pair (map_of xs) (source_items src) (\<lambda>e. resumable_items (fst e)) (r, s')"
    using bt_ins.try_extend_extended [OF s, of L] by auto
  have sure: "r = Ok ()" if "generous (bt_heap s)"
    using bt_sure.try_extend_sure [of s "map_of xs" src L] s run that by (auto simp: roomy_map_def)
  show ?thesis
  proof (cases r)
    case (Err re)
    obtain res e where re: "re = (res, e)" by fastforce
    have "bt_map t (map_of xs ++ map_of (rev (source_items src)))"
      if "try_extend_by (bt_insert_item L) (Retry res) (s'\<lparr>bt_heap := h\<rparr>) = Some (Ok (), t)" for h t
      using bt_ins.try_extend_retry [OF s run [unfolded Err re] _ that] by (simp add: fold_put)
    moreover have "\<exists>t. try_extend_by (bt_insert_item L) (Retry res) (s'\<lparr>bt_heap := h\<rparr>) = Some (Ok (), t)"
      if "generous h" for h
      using resumed_extension [OF s ext [unfolded Err re] that] by blast
    ultimately show ?thesis
      using run ext sure Err re try_extend_by_Err [of "bt_insert_item L" src s res e s']
      by (auto simp: bt_try_extend_def fold_put)
  next
    case (Panic msg)
    then show ?thesis
      using run ext sure panicking_insertion [of L src s msg s']
      by (cases "generous (bt_heap s)") (simp_all add: bt_try_extend_def)
  qed (use run ext in \<open>auto simp: bt_try_extend_def fold_put\<close>)
qed

theorem btree_extend_spec_witness:
  "\<exists>res s' t. bt_try_extend u64_nodes (Plain (Iter [(11, 5), (12, 6)] (\<lambda>_. (0, None)))) (full_leaf (policy_fail_nth_alloc 1)) =
       Some (Err (res, AllocError), s') \<and>
     resumable_items res = [(11, 5), (12, 6)] \<and> bt_map s' (map_of (map (\<lambda>i. (i, i)) [0..10])) \<and>
     bt_try_extend u64_nodes (Retry res) (s'\<lparr>bt_heap := heap_with policy_nothing\<rparr>) = Some (Ok (), t) \<and>
     bt_map t (map_of (map (\<lambda>i. (i, i)) [0..10]) ++ map_of [(12, 6), (11, 5)])"
proof -
  let ?src = "Plain (Iter [(11, 5), (12, 6)] (\<lambda>_. (0, None))) :: (int \<times> int) source"
  let ?s = "full_leaf (policy_fail_nth_alloc 1)" and ?xs = "map (\<lambda>i. (i, i)) [0..10] :: (int \<times> int) list"
  let ?res = "resumable_new (11, 5) (Iter [(12, 6)] (\<lambda>_. (0, None))) :: (int \<times> int) resumable"
  have items: "source_items ?src = [(11, 5), (12, 6)]" by (simp add: source_items_def pending_def)
  obtain s' where "bt_try_insert_give_back u64_nodes 11 5 ?s = Some (Err (11, 5, AllocError), s')"
    using btree_commit_aborts [of 5] by (auto simp: map_option_case split: option.splits)
  then have run: "bt_try_extend u64_nodes ?src ?s = Some (Err (?res, AllocError), s')"
    by (simp add: bt_try_extend_def try_extend_by_def bt_insert_item_def map_err_run_def)
  have left: "resumable_items ?res = [(11, 5), (12, 6)]"
    by (simp add: resumable_items_def resumable_new_def into_parts_def pending_def)
  have "length ?xs + length (source_items ?src) \<le> usize_max" by (simp add: items usize_max_def)
  from btree_extend_spec [OF full_leaf_rep [of "policy_fail_nth_alloc 1"] this, of u64_nodes]
  have after: "bt_map s' (map_of ?xs)"
    "\<forall>h. generous h \<longrightarrow> (\<exists>t. bt_try_extend u64_nodes (Retry ?res) (s'\<lparr>bt_heap := h\<rparr>) = Some (Ok (), t))"
    "\<forall>h t. bt_try_extend u64_nodes (Retry ?res) (s'\<lparr>bt_heap := h\<rparr>) = Some (Ok (), t) \<longrightarrow>
       bt_map t (map_of ?xs ++ map_of [(12, 6), (11, 5)])"
    by (simp_all add: run left items)
  then obtain t where "bt_try_extend u64_nodes (Retry ?res) (s'\<lparr>bt_heap := heap_with policy_nothing\<rparr>) = Some (Ok (), t)"
    using generous_heap_with by blast
  then show ?thesis using run left after(1,3) by blast
qed

end
