(* ===== verification/SlotKey.thy ===== *)
theory SlotKey
  imports Prelude
begin

unbundle bit_operations_syntax

text \<open>
  Keys of slot maps (\<^verbatim>\<open>rustyfill/src/collections/slotmap/key.rs\<close>): a 32-bit slot index and
  a 32-bit version whose lowest bit is always set, with the 64-bit encoding for foreign code.
\<close>

type_synonym u32 = "32 word"

datatype key_data = KeyData (key_idx: u32) (version_raw: u32)

definition DANGLING_SENTINEL :: u32 where
  "DANGLING_SENTINEL = - 1"

definition MAX_SLOTS_LEN :: nat where
  "MAX_SLOTS_LEN = unat DANGLING_SENTINEL - 1"

text \<open>A release build: the \<open>debug_assert\<close> on a zero version is not compiled in.\<close>

definition key_new :: "u32 \<Rightarrow> u32 \<Rightarrow> key_data" where
  "key_new i v = KeyData i (v OR 1)"

definition key_null :: key_data where
  "key_null = key_new (- 1) 1"

definition key_is_null :: "key_data \<Rightarrow> bool" where
  "key_is_null k \<longleftrightarrow> key_idx k = - 1"

definition as_ffi :: "key_data \<Rightarrow> 64 word" where
  "as_ffi k = push_bit 32 (ucast (version_raw k)) OR ucast (key_idx k)"

definition from_ffi :: "64 word \<Rightarrow> key_data" where
  "from_ffi value =
     (let idx = value AND 0xFFFFFFFF;
          version = drop_bit 32 value OR 1
      in key_new (ucast idx) (ucast version))"

text \<open>
  A key that safe code can hold: it went through \<open>KeyData::new\<close>, so its version is odd.
\<close>

definition key_ok :: "key_data \<Rightarrow> bool" where
  "key_ok k \<longleftrightarrow> odd (version_raw k)"

lemma odd_or_one [simp]: "odd (v OR 1 :: 'a::len word)"
  by (simp add: even_or_iff)

lemma odd_or_one_same: "odd v \<Longrightarrow> v OR 1 = (v :: 'a::len word)"
  by (rule bit_eqI) (auto simp: bit_or_iff bit_1_iff even_iff_mod_2_eq_zero bit_0)

lemma key_new_ok [simp]: "key_ok (key_new i v)"
  by (simp add: key_ok_def key_new_def)

lemma key_new_sel [simp]: "key_idx (key_new i v) = i" "version_raw (key_new i v) = v OR 1"
  by (simp_all add: key_new_def)

lemma key_new_of_key: "key_ok k \<Longrightarrow> key_new (key_idx k) (version_raw k) = k"
  by (cases k) (simp add: key_ok_def key_new_def odd_or_one_same)

lemma key_eqI: "key_idx k = key_idx l \<Longrightarrow> version_raw k = version_raw l \<Longrightarrow> k = l"
  by (rule key_data.expand) simp

lemma key_eqI_unat:
  "unat (key_idx k) = unat (key_idx l) \<Longrightarrow> version_raw k = version_raw l \<Longrightarrow> k = l"
  by (rule key_eqI) (simp_all add: word_unat_eq_iff)

lemma unat_of_nat_small: "n < 2 ^ 32 \<Longrightarrow> unat (of_nat n :: u32) = n"
  by (simp add: unsigned_of_nat take_bit_nat_eq_self)

lemma unat_dangling [simp]: "unat DANGLING_SENTINEL = 2 ^ 32 - 1"
  by (simp add: DANGLING_SENTINEL_def unsigned_minus_1_eq_mask mask_eq_exp_minus_1)

lemma MAX_SLOTS_LEN_eq: "MAX_SLOTS_LEN = 2 ^ 32 - 2"
  by (simp add: MAX_SLOTS_LEN_def)

lemma ffi_version: "ucast (drop_bit 32 (push_bit 32 (ucast v) OR ucast i :: 64 word)) = (v :: u32)"
  for i :: u32
  by (rule bit_word_eqI) (auto simp: bit_simps dest: bit_imp_le_length)

lemma ffi_idx: "ucast ((push_bit 32 (ucast v) OR ucast i :: 64 word) AND 0xFFFFFFFF) = (i :: u32)"
  for v :: u32
proof -
  have m: "(0xFFFFFFFF :: 64 word) = mask 32" by (simp add: mask_eq_exp_minus_1)
  show ?thesis
    unfolding m by (rule bit_word_eqI) (auto simp: bit_simps)
qed

text \<open>The foreign encoding is lossless: every key survives \<open>as_ffi\<close> followed by \<open>from_ffi\<close>, so two
  different keys never share a handle.\<close>

lemma ffi_round_trip:
  assumes "key_ok k"
  shows "from_ffi (as_ffi k) = k"
proof -
  have "ucast (drop_bit 32 (as_ffi k) OR 1 :: 64 word) = version_raw k OR 1"
    unfolding as_ffi_def
    by (simp only: unsigned_or_eq ffi_version) simp
  then show ?thesis
    using assms unfolding from_ffi_def Let_def as_ffi_def ffi_idx
    by (cases k) (simp add: key_new_def key_ok_def odd_or_one_same)
qed

end
