(* ===== verification/SlotMap.thy ===== *)
theory SlotMap
  imports SlotKey TryVec
begin

text \<open>
  The slot map (\<^verbatim>\<open>rustyfill/src/collections/slotmap/basic.rs\<close>): a vector of versioned
  slots, a free list threaded through the vacant ones, and an element count. A slot is a union
  of a value and a free-list link; reading the field that was not written is undefined
  behaviour, so every \<open>unsafe\<close> read of the source is a branch of the model. The state of an
  allocating operation is the map and the heap.
\<close>

section \<open>Slots\<close>

datatype 'v slot_union = UValue 'v | UNext u32

datatype 'v slot = Slot (slot_u: "'v slot_union") (slot_version: u32)

definition slot_occupied :: "'v slot \<Rightarrow> bool" where
  "slot_occupied s \<longleftrightarrow> slot_version s mod 2 \<noteq> 0"

text \<open>The two union reads.\<close>

fun read_value :: "'v slot_union \<Rightarrow> ('e, 'v) outcome" where
  "read_value (UValue v) = Ok v"
| "read_value (UNext n) = UB"

fun read_next :: "'v slot_union \<Rightarrow> ('e, u32) outcome" where
  "read_next (UNext n) = Ok n"
| "read_next (UValue v) = UB"

datatype 'v slot_content = Occupied 'v | Vacant u32

definition slot_get :: "'v slot \<Rightarrow> ('e, 'v slot_content) outcome" where
  "slot_get s =
     (if slot_occupied s then map_ok Occupied (read_value (slot_u s))
      else map_ok Vacant (read_next (slot_u s)))"

definition slot_try_clone ::
    "('v \<Rightarrow> heap \<Rightarrow> ('e, 'v) outcome \<times> heap) \<Rightarrow> 'v slot \<Rightarrow> heap \<Rightarrow> ('e, 'v slot) outcome \<times> heap" where
  "slot_try_clone cl s h =
     and_then (slot_get s, h) (\<lambda>c h.
       case c of
         Occupied value \<Rightarrow>
           and_then (cl value h) (\<lambda>value' h'. (Ok (Slot (UValue value') (slot_version s)), h'))
       | Vacant next_free \<Rightarrow> (Ok (Slot (UNext next_free) (slot_version s)), h))"

section \<open>The map\<close>

record 'v slotmap =
  slots :: "'v slot vec"
  free_head :: u32
  num_elems :: u32

type_synonym 'v sm_state = "'v slotmap \<times> heap"

datatype 'e insert_error = InsReserve try_reserve_error | InsClosure 'e

text \<open>Checked arithmetic on the \<open>u32\<close> fields.\<close>

definition u32_checked_add :: "u32 \<Rightarrow> u32 \<Rightarrow> u32 option" where
  "u32_checked_add a b = (if unat a + unat b < 2 ^ 32 then Some (a + b) else None)"

definition u32_checked_sub :: "u32 \<Rightarrow> u32 \<Rightarrow> u32 option" where
  "u32_checked_sub a b = (if unat b \<le> unat a then Some (a - b) else None)"

text \<open>Bounds-checked access to the slots, and a write to one slot.\<close>

definition slot_at :: "'v slotmap \<Rightarrow> nat \<Rightarrow> 'v slot option" where
  "slot_at m i = (if i < vlen (slots m) then Some (items (slots m) ! i) else None)"

definition set_slot :: "nat \<Rightarrow> 'v slot \<Rightarrow> 'v slotmap \<Rightarrow> 'v slotmap" where
  "set_slot i s m = m\<lparr>slots := with_items ((items (slots m))[i := s]) (slots m)\<rparr>"

definition on_slots ::
    "('v slot vstate \<Rightarrow> ('v slot vstate, 'e, 'a) run) \<Rightarrow> 'v sm_state \<Rightarrow> ('v sm_state, 'e, 'a) run" where
  "on_slots f s = (case s of (m, h) \<Rightarrow> case f (slots m, h) of (r, (sl, h')) \<Rightarrow> (r, (m\<lparr>slots := sl\<rparr>, h')))"

text \<open>The two updates of the element count, with their \<open>expect\<close>.\<close>

definition count_up :: "'v slotmap \<Rightarrow> ('v slotmap, 'e, unit) run" where
  "count_up m =
     (case u32_checked_add (num_elems m) 1 of
        Some n \<Rightarrow> (Ok (), m\<lparr>num_elems := n\<rparr>)
      | None \<Rightarrow> (Panic ''element count below MAX_SLOTS_LEN'', m))"

definition count_down :: "'v slotmap \<Rightarrow> ('v slotmap, 'e, unit) run" where
  "count_down m =
     (case u32_checked_sub (num_elems m) 1 of
        Some n \<Rightarrow> (Ok (), m\<lparr>num_elems := n\<rparr>)
      | None \<Rightarrow> (Panic ''at least one element present'', m))"

subsection \<open>Construction and capacity\<close>

definition sm_try_with_capacity_and_key ::
    "layout \<Rightarrow> nat \<Rightarrow> heap \<Rightarrow> (try_reserve_error, 'v slotmap) outcome \<times> heap" where
  "sm_try_with_capacity_and_key l capacity h =
     (if MAX_SLOTS_LEN - 1 \<le> capacity then (Err new_capacity_overflow, h)
      else case checked_add capacity 1 of
        None \<Rightarrow> (Panic ''capacity below MAX_SLOTS_LEN'', h)
      | Some n \<Rightarrow>
          and_then (vec_try_with_capacity l n h) (\<lambda>v h1.
            case vec_try_push (Slot (UNext 0) 0) (v, h1) of
              (r, (v', h2)) \<Rightarrow>
                (map_ok (\<lambda>_. \<lparr>slots = v', free_head = 1, num_elems = 0\<rparr>) r, h2)))"

definition sm_len :: "'v slotmap \<Rightarrow> nat" where
  "sm_len m = unat (num_elems m)"

definition sm_is_empty :: "'v slotmap \<Rightarrow> bool" where
  "sm_is_empty m \<longleftrightarrow> num_elems m = 0"

definition sm_capacity :: "'v slotmap \<Rightarrow> nat" where
  "sm_capacity m = cap (slots m) - 1"

definition sm_try_reserve :: "nat \<Rightarrow> 'v sm_state \<Rightarrow> ('v sm_state, try_reserve_error, unit) run" where
  "sm_try_reserve additional s =
     (case checked_add (sm_len (fst s)) additional of
        None \<Rightarrow> (Err new_capacity_overflow, s)
      | Some tot \<Rightarrow>
          if MAX_SLOTS_LEN - 1 \<le> tot then (Err new_capacity_overflow, s)
          else let needed = tot - (vlen (slots (fst s)) - 1)
               in on_slots (vec_try_reserve needed) s)"

definition sm_contains_key :: "'v slotmap \<Rightarrow> key_data \<Rightarrow> bool" where
  "sm_contains_key m k =
     (case slot_at m (unat (key_idx k)) of
        None \<Rightarrow> False
      | Some s \<Rightarrow> slot_version s = version_raw k)"

subsection \<open>Insertion\<close>

text \<open>
  The closure gets the key and the heap and may fail or panic. On the fast path the fields are
  written in the order of the source: link read, value, version, count.
\<close>

definition insert_inner ::
    "(key_data \<Rightarrow> heap \<Rightarrow> ('e, 'v) outcome \<times> heap) \<Rightarrow> 'v sm_state \<Rightarrow>
     ('v sm_state, 'e insert_error, key_data) run" where
  "insert_inner f s =
     (case s of (m, h) \<Rightarrow>
        case slot_at m (unat (free_head m)) of
          Some slot \<Rightarrow>
            let occupied_version = slot_version slot OR 1;
                kd = key_new (free_head m) occupied_version;
                (r, h') = f kd h
            in and_then (map_err InsClosure r, (m, h')) (\<lambda>value _.
               and_then (read_next (slot_u slot), (m, h')) (\<lambda>next _.
                 let m1 = set_slot (unat (free_head m)) (Slot (UValue value) occupied_version)
                            (m\<lparr>free_head := next\<rparr>);
                     (c, m2) = count_up m1
                 in (map_ok (\<lambda>_. kd) c, (m2, h'))))
        | None \<Rightarrow>
            if MAX_SLOTS_LEN \<le> vlen (slots m) then (Err (InsReserve new_capacity_overflow), s)
            else
              let idx = of_nat (vlen (slots m)); version = 1; kd = key_new idx version
              in and_then (map_err_run InsReserve (on_slots (vec_try_reserve 1) s)) (\<lambda>_ (m1, h1).
                 let (r, h2) = f kd h1
                 in and_then (map_err InsClosure r, (m1, h2)) (\<lambda>value s2.
                    and_then (on_slots (vec_push (Slot (UValue value) version)) s2) (\<lambda>_ (m3, h3).
                      case u32_checked_add (key_idx kd) 1 of
                        None \<Rightarrow> (Panic ''slot index below MAX_SLOTS_LEN'', (m3, h3))
                      | Some fh \<Rightarrow>
                          let (c, m4) = count_up (m3\<lparr>free_head := fh\<rparr>)
                          in (map_ok (\<lambda>_. kd) c, (m4, h3))))))"

definition sm_try_insert_with_key ::
    "(key_data \<Rightarrow> heap \<Rightarrow> ('e, 'v) outcome \<times> heap) \<Rightarrow> 'v sm_state \<Rightarrow>
     ('v sm_state, 'e insert_error, key_data) run" where
  "sm_try_insert_with_key f s = insert_inner f s"

text \<open>\<open>unreachable!\<close> is a panic.\<close>

definition sm_try_insert :: "'v \<Rightarrow> 'v sm_state \<Rightarrow> ('v sm_state, try_reserve_error, key_data) run" where
  "sm_try_insert value s =
     (case insert_inner (\<lambda>_ h. (Ok value :: (unit, 'v) outcome, h)) s of
        (Err (InsReserve r), s') \<Rightarrow> (Err r, s')
      | (Err (InsClosure _), s') \<Rightarrow> (Panic ''infallible closure reported an error'', s')
      | (Ok k, s') \<Rightarrow> (Ok k, s')
      | (Panic msg, s') \<Rightarrow> (Panic msg, s')
      | (UB, s') \<Rightarrow> (UB, s'))"

subsection \<open>Removal\<close>

definition remove_from_slot :: "nat \<Rightarrow> 'v slotmap \<Rightarrow> ('v slotmap, 'e, 'v) run" where
  "remove_from_slot idx m =
     (case slot_at m idx of
        None \<Rightarrow> (UB, m)
      | Some slot \<Rightarrow>
          and_then (read_value (slot_u slot), m) (\<lambda>value m.
            let m1 = set_slot idx (Slot (UNext (free_head m)) (slot_version slot)) m
            in and_then (count_down (m1\<lparr>free_head := of_nat idx\<rparr>)) (\<lambda>_ m2.
                 (Ok value,
                  set_slot idx (Slot (UNext (free_head m)) (slot_version slot + 1)) m2))))"

definition sm_remove :: "key_data \<Rightarrow> 'v slotmap \<Rightarrow> ('v slotmap, 'e, 'v option) run" where
  "sm_remove k m =
     (if sm_contains_key m k then map_ok_run Some (remove_from_slot (unat (key_idx k)) m)
      else (Ok None, m))"

definition sm_detach :: "key_data \<Rightarrow> 'v slotmap \<Rightarrow> ('v slotmap, 'e, 'v option) run" where
  "sm_detach k m =
     (if sm_contains_key m k then
        case slot_at m (unat (key_idx k)) of
          None \<Rightarrow> (UB, m)
        | Some slot \<Rightarrow>
            and_then (read_value (slot_u slot), m) (\<lambda>value m.
            and_then (count_down (set_slot (unat (key_idx k))
                (Slot (UNext DANGLING_SENTINEL) (slot_version slot + 1)) m)) (\<lambda>_ m1.
              (Ok (Some value), m1)))
      else (Ok None, m))"

definition sm_reattach :: "key_data \<Rightarrow> 'v \<Rightarrow> 'v slotmap \<Rightarrow> ('v slotmap, 'e, unit) run" where
  "sm_reattach k value m =
     (case slot_at m (unat (key_idx k)) of
        None \<Rightarrow> (Panic ''key is not detached'', m)
      | Some slot \<Rightarrow>
          if slot_version slot = version_raw k + 1 then
            and_then (read_next (slot_u slot), m) (\<lambda>next m.
              if next = DANGLING_SENTINEL then
                count_up (set_slot (unat (key_idx k)) (Slot (UValue value) (slot_version slot - 1)) m)
              else (Panic ''key is not detached'', m))
          else (Panic ''key is not detached'', m))"

subsection \<open>Access\<close>

definition sm_get :: "'v slotmap \<Rightarrow> key_data \<Rightarrow> ('e, 'v option) outcome" where
  "sm_get m k =
     (case slot_at m (unat (key_idx k)) of
        None \<Rightarrow> Ok None
      | Some slot \<Rightarrow>
          if slot_version slot = version_raw k then map_ok Some (read_value (slot_u slot))
          else Ok None)"

text \<open>A write through the reference that \<open>get_mut\<close> returns; \<open>None\<close> when there is none.\<close>

definition sm_get_mut_set :: "key_data \<Rightarrow> 'v \<Rightarrow> 'v slotmap \<Rightarrow> ('v slotmap, 'e, 'v option) run" where
  "sm_get_mut_set k value m =
     (case slot_at m (unat (key_idx k)) of
        None \<Rightarrow> (Ok None, m)
      | Some slot \<Rightarrow>
          if slot_version slot = version_raw k then
            and_then (read_value (slot_u slot), m) (\<lambda>old m.
              (Ok (Some old), set_slot (unat (key_idx k)) (Slot (UValue value) (slot_version slot)) m))
          else (Ok None, m))"

definition sm_index :: "'v slotmap \<Rightarrow> key_data \<Rightarrow> ('e, 'v) outcome" where
  "sm_index m k =
     (case sm_get m k of
        Ok (Some r) \<Rightarrow> Ok r
      | Ok None \<Rightarrow> Panic ''invalid SlotMap key used''
      | Err e \<Rightarrow> Err e
      | Panic msg \<Rightarrow> Panic msg
      | UB \<Rightarrow> UB)"

text \<open>
  \<open>get_disjoint_mut\<close> flips the lowest version bit of every slot it has taken, so that a second
  key for the same slot fails \<open>contains_key\<close>; the flips are undone before it returns. A mutable
  reference is the index of the slot it points into.
\<close>

definition flip_version :: "nat \<Rightarrow> 'v slotmap \<Rightarrow> 'v slotmap" where
  "flip_version i m =
     (case slot_at m i of
        None \<Rightarrow> m
      | Some s \<Rightarrow> set_slot i (Slot (slot_u s) (slot_version s XOR 1)) m)"

fun disjoint_loop :: "key_data list \<Rightarrow> 'v slotmap \<Rightarrow> ('v slotmap, 'e, nat list) run" where
  "disjoint_loop [] m = (Ok [], m)"
| "disjoint_loop (k # ks) m =
     (if \<not> sm_contains_key m k then (Ok [], m)
      else let i = unat (key_idx k)
           in case slot_at m i of
             None \<Rightarrow> (UB, m)
           | Some s \<Rightarrow>
               and_then (read_value (slot_u s), flip_version i m) (\<lambda>_ m1.
               and_then (disjoint_loop ks m1) (\<lambda>ptrs m2. (Ok (i # ptrs), m2))))"

definition sm_get_disjoint_mut ::
    "key_data list \<Rightarrow> 'v slotmap \<Rightarrow> ('v slotmap, 'e, nat list option) run" where
  "sm_get_disjoint_mut ks m =
     and_then (disjoint_loop ks m) (\<lambda>ptrs m1.
       (Ok (if length ptrs = length ks then Some ptrs else None),
        fold flip_version (map (\<lambda>k. unat (key_idx k)) (take (length ptrs) ks)) m1))"

end
