(* ===== verification/SlotInv.thy ===== *)
theory SlotInv
  imports SlotMap
begin

text \<open>
  The invariant of the slot map, stated on the list of slots: the sentinel, the agreement of
  version parity and union field, the element count, and the free list, which runs from the
  free head through distinct vacant slots to the end of the vector. One lemma per way the
  source writes a slot (fill, free, detach, reattach, push, overwrite) says that the invariant
  survives and what happens to the abstract contents, a partial map from keys to values.
\<close>

section \<open>Well-formed slots and the free list\<close>

definition slot_wf :: "'v slot \<Rightarrow> bool" where
  "slot_wf s = (case slot_u s of UValue _ \<Rightarrow> odd (slot_version s) | UNext _ \<Rightarrow> even (slot_version s))"

fun chain :: "'v slot list \<Rightarrow> nat \<Rightarrow> nat list \<Rightarrow> bool" where
  "chain sl h [] = (h = length sl)"
| "chain sl h (i # is) =
     (h = i \<and> 0 < i \<and> i < length sl \<and>
      (case slot_u (sl ! i) of UNext n \<Rightarrow> chain sl (unat n) is | UValue _ \<Rightarrow> False))"

definition slots_ok :: "'v slot list \<Rightarrow> nat \<Rightarrow> nat \<Rightarrow> nat list \<Rightarrow> bool" where
  "slots_ok sl fh c fs \<longleftrightarrow>
     sl \<noteq> [] \<and> sl ! 0 = Slot (UNext 0) 0 \<and> length sl \<le> MAX_SLOTS_LEN \<and>
     (\<forall>s \<in> set sl. slot_wf s) \<and> c = length (filter slot_occupied sl) \<and>
     distinct fs \<and> chain sl fh fs \<and>
     (\<forall>i. 0 < i \<and> i < length sl \<and> \<not> slot_occupied (sl ! i) \<longrightarrow>
        i \<in> set fs \<or> slot_u (sl ! i) = UNext DANGLING_SENTINEL)"

definition slotmap_ok :: "'v slotmap \<Rightarrow> bool" where
  "slotmap_ok m \<longleftrightarrow> vec_ok (slots m) \<and>
     (\<exists>fs. slots_ok (items (slots m)) (unat (free_head m)) (unat (num_elems m)) fs)"

lemma slot_occupied_odd [simp]: "slot_occupied s = odd (slot_version s)"
  by (simp add: slot_occupied_def odd_iff_mod_2_eq_one even_iff_mod_2_eq_zero)

lemma slot_wf_simps [simp]:
  "slot_wf (Slot (UValue v) w) = odd w" "slot_wf (Slot (UNext n) w) = even w"
  by (simp_all add: slot_wf_def)

lemma slot_wf_cases:
  assumes "slot_wf s"
  obtains (full) v w where "s = Slot (UValue v) w" and "odd w"
  | (empty) n w where "s = Slot (UNext n) w" and "even w"
  using assms by (cases s; cases "slot_u s") (auto simp: slot_wf_def)

lemma chain_upd [simp]: "i \<notin> set is \<Longrightarrow> chain (sl[i := s]) h is = chain sl h is"
  by (induction sl h "is" rule: chain.induct) (auto split: slot_union.splits)

lemma chain_vacant:
  "chain sl h is \<Longrightarrow> j \<in> set is \<Longrightarrow> 0 < j \<and> j < length sl \<and> (\<exists>n. slot_u (sl ! j) = UNext n)"
  by (induction sl h "is" rule: chain.induct) (auto split: slot_union.splits)

lemma chain_head: "chain sl h is \<Longrightarrow> h \<le> length sl"
  by (cases "is") auto

lemma chain_next:
  "chain sl h is \<Longrightarrow> j \<in> set is \<Longrightarrow> slot_u (sl ! j) = UNext n \<Longrightarrow> unat n \<le> length sl"
  by (induction sl h "is" rule: chain.induct) (auto split: slot_union.splits dest: chain_head)

lemma slots_ok_wf: "slots_ok sl fh c fs \<Longrightarrow> i < length sl \<Longrightarrow> slot_wf (sl ! i)"
  by (simp add: slots_ok_def)

lemma slots_ok_max: "slots_ok sl fh c fs \<Longrightarrow> length sl \<le> 2 ^ 32 - 2"
  by (simp add: slots_ok_def MAX_SLOTS_LEN_eq)

lemma slots_ok_head: "slots_ok sl fh c fs \<Longrightarrow> fh \<le> length sl"
  by (auto simp: slots_ok_def dest: chain_head)

lemma slots_ok_count: "slots_ok sl fh c fs \<Longrightarrow> c < length sl"
proof -
  assume "slots_ok sl fh c fs"
  then have "c = length (filter slot_occupied sl)" "sl \<noteq> []" "\<not> slot_occupied (sl ! 0)"
    by (auto simp: slots_ok_def)
  then show "c < length sl"
    using length_filter_less [of "sl ! 0" sl slot_occupied] by auto
qed

lemma slots_ok_occupied_pos: "slots_ok sl fh c fs \<Longrightarrow> odd (slot_version (sl ! i)) \<Longrightarrow> 0 < i"
  by (cases i) (auto simp: slots_ok_def)

lemma slots_ok_not_dangling:
  assumes "slots_ok sl fh c fs" and "slot_u (sl ! j) = UNext DANGLING_SENTINEL"
  shows "j \<notin> set fs"
  using assms chain_next [of sl fh fs j DANGLING_SENTINEL] slots_ok_max [OF assms(1)]
  by (auto simp: slots_ok_def)

section \<open>The writes of the source\<close>

lemma wf_update: "\<forall>s \<in> set sl. slot_wf s \<Longrightarrow> slot_wf t \<Longrightarrow> \<forall>s \<in> set (sl[i := t]). slot_wf s"
  using set_update_subset_insert [of sl i t] by auto

lemma slots_ok_update:
  assumes ok: "slots_ok sl fh c fs" and i: "0 < i" "i < length sl" and wf: "slot_wf s"
    and count: "c' = length (filter slot_occupied (sl[i := s]))"
    and free: "distinct fs'" "chain (sl[i := s]) fh' fs'"
    and rest: "\<And>j. j \<noteq> i \<Longrightarrow> j \<in> set fs \<Longrightarrow> j \<in> set fs'"
    and here: "odd (slot_version s) \<or> i \<in> set fs' \<or> slot_u s = UNext DANGLING_SENTINEL"
  shows "slots_ok (sl[i := s]) fh' c' fs'"
proof -
  have "sl \<noteq> []" "sl ! 0 = Slot (UNext 0) 0" "length sl \<le> MAX_SLOTS_LEN" "\<forall>s \<in> set sl. slot_wf s"
    and leak: "\<And>j. 0 < j \<Longrightarrow> j < length sl \<Longrightarrow> even (slot_version (sl ! j)) \<Longrightarrow>
      j \<in> set fs \<or> slot_u (sl ! j) = UNext DANGLING_SENTINEL"
    using ok unfolding slots_ok_def by auto
  moreover have "\<forall>s \<in> set (sl[i := s]). slot_wf s"
    by (rule wf_update) fact+
  moreover have "j \<in> set fs' \<or> slot_u (sl[i := s] ! j) = UNext DANGLING_SENTINEL"
    if "0 < j" "j < length sl" "even (slot_version (sl[i := s] ! j))" for j
    using that leak [of j] rest [of j] here i by (cases "j = i") auto
  ultimately show ?thesis
    using i count free unfolding slots_ok_def by simp
qed

lemma slots_ok_vacant:
  assumes "slots_ok sl fh c fs" and "i < length sl" and "slot_u (sl ! i) = UNext n"
  shows "even (slot_version (sl ! i))"
  using slots_ok_wf [OF assms(1,2)] assms(3) by (cases "sl ! i") (simp add: slot_wf_def)

lemma slots_ok_occupied:
  assumes ok: "slots_ok sl fh c fs" and i: "i < length sl" and occ: "odd (slot_version (sl ! i))"
  obtains v where "slot_u (sl ! i) = UValue v" and "0 < i" and "i \<notin> set fs"
proof -
  obtain v where u: "slot_u (sl ! i) = UValue v"
    using slots_ok_wf [OF ok i] occ by (cases "sl ! i"; cases "slot_u (sl ! i)") (auto simp: slot_wf_def)
  have "chain sl fh fs" using ok by (simp add: slots_ok_def)
  then have "i \<notin> set fs" using chain_vacant [of sl fh fs i] u by auto
  then show ?thesis using that u slots_ok_occupied_pos [OF ok occ] by blast
qed

lemma slots_ok_fill:
  assumes ok: "slots_ok sl i c fs" and i: "i < length sl" and w: "odd w"
  obtains n fs' where "slot_u (sl ! i) = UNext n" and "fs = i # fs'"
    and "slots_ok (sl[i := Slot (UValue v) w]) (unat n) (Suc c) fs'"
proof -
  have parts: "chain sl i fs" "distinct fs" "c = length (filter slot_occupied sl)"
    using ok by (simp_all add: slots_ok_def)
  then obtain fs' where fs: "fs = i # fs'" using i by (cases fs) auto
  then obtain n where n: "slot_u (sl ! i) = UNext n" and ch: "chain sl (unat n) fs'" "0 < i"
    using parts by (auto split: slot_union.splits)
  have "slots_ok (sl[i := Slot (UValue v) w]) (unat n) (Suc c) fs'"
    by (rule slots_ok_update [OF ok \<open>0 < i\<close> i])
      (use fs ch parts w i slots_ok_vacant [OF ok i n] in \<open>auto simp: filter_list_update_add\<close>)
  then show ?thesis using that n fs by blast
qed

lemma slots_ok_release:
  assumes ok: "slots_ok sl fh c fs" and i: "i < length sl" and occ: "odd (slot_version (sl ! i))"
    and w: "even w"
  shows "length (filter slot_occupied (sl[i := Slot u w])) = c - 1" and "0 < c"
proof -
  have "Suc (length (filter slot_occupied (sl[i := Slot u w]))) = c"
    using ok i occ w filter_list_update_remove [of i sl slot_occupied "Slot u w"]
    by (simp add: slots_ok_def)
  then show "length (filter slot_occupied (sl[i := Slot u w])) = c - 1" and "0 < c" by auto
qed

lemma slots_ok_free:
  assumes ok: "slots_ok sl fh c fs" and i: "i < length sl" and occ: "odd (slot_version (sl ! i))"
    and w: "even w"
  shows "slots_ok (sl[i := Slot (UNext (of_nat fh)) w]) i (c - 1) (i # fs)"
proof -
  obtain v where v: "slot_u (sl ! i) = UValue v" "0 < i" "i \<notin> set fs"
    using slots_ok_occupied [OF ok i occ] .
  have "fh < 2 ^ 32"
    using slots_ok_head [OF ok] slots_ok_max [OF ok] by simp
  then have fh: "unat (of_nat fh :: u32) = fh" by (rule unat_of_nat_small)
  have "distinct fs" "chain sl fh fs" using ok by (simp_all add: slots_ok_def)
  then show ?thesis
    by (intro slots_ok_update [OF ok v(2) i])
      (use fh v i w slots_ok_release [OF ok i occ w] in auto)
qed

lemma slots_ok_detach:
  assumes ok: "slots_ok sl fh c fs" and i: "i < length sl" and occ: "odd (slot_version (sl ! i))"
    and w: "even w"
  shows "slots_ok (sl[i := Slot (UNext DANGLING_SENTINEL) w]) fh (c - 1) fs"
proof -
  obtain v where v: "slot_u (sl ! i) = UValue v" "0 < i" "i \<notin> set fs"
    using slots_ok_occupied [OF ok i occ] .
  have "distinct fs" "chain sl fh fs" using ok by (simp_all add: slots_ok_def)
  then show ?thesis
    by (intro slots_ok_update [OF ok v(2) i])
      (use v i w slots_ok_release [OF ok i occ w] in auto)
qed

lemma slots_ok_reattach:
  assumes ok: "slots_ok sl fh c fs" and i: "i < length sl"
    and u: "slot_u (sl ! i) = UNext DANGLING_SENTINEL" and w: "odd w"
  shows "slots_ok (sl[i := Slot (UValue v) w]) fh (Suc c) fs"
proof -
  have pos: "0 < i"
    using ok u by (cases i) (auto simp: slots_ok_def DANGLING_SENTINEL_def)
  have parts: "distinct fs" "chain sl fh fs" "c = length (filter slot_occupied sl)"
    using ok by (simp_all add: slots_ok_def)
  show ?thesis
    by (rule slots_ok_update [OF ok pos i])
      (use parts w i slots_ok_vacant [OF ok i u] slots_ok_not_dangling [OF ok u]
        in \<open>auto simp: filter_list_update_add\<close>)
qed

lemma slots_ok_overwrite:
  assumes ok: "slots_ok sl fh c fs" and i: "i < length sl" and occ: "odd (slot_version (sl ! i))"
  shows "slots_ok (sl[i := Slot (UValue v) (slot_version (sl ! i))]) fh c fs"
proof -
  obtain v' where v: "slot_u (sl ! i) = UValue v'" "0 < i" "i \<notin> set fs"
    using slots_ok_occupied [OF ok i occ] .
  have parts: "distinct fs" "chain sl fh fs" "c = length (filter slot_occupied sl)"
    using ok by (simp_all add: slots_ok_def)
  show ?thesis
    by (rule slots_ok_update [OF ok v(2) i])
      (use parts v i occ in \<open>auto simp: filter_list_update_in\<close>)
qed

lemma slots_ok_push:
  assumes ok: "slots_ok sl (length sl) c fs" and room: "length sl < MAX_SLOTS_LEN" and w: "odd w"
  shows "slots_ok (sl @ [Slot (UValue v) w]) (Suc (length sl)) (Suc c) []"
proof -
  have "fs = []" using ok by (cases fs) (auto simp: slots_ok_def)
  then have "sl \<noteq> []" "sl ! 0 = Slot (UNext 0) 0" "\<forall>s \<in> set sl. slot_wf s"
      "c = length (filter slot_occupied sl)"
    and leak: "\<And>j. 0 < j \<Longrightarrow> j < length sl \<Longrightarrow> even (slot_version (sl ! j)) \<Longrightarrow>
      slot_u (sl ! j) = UNext DANGLING_SENTINEL"
    using ok unfolding slots_ok_def by auto
  moreover have "(sl @ [Slot (UValue v) w]) ! 0 = Slot (UNext 0) 0"
    using \<open>sl \<noteq> []\<close> \<open>sl ! 0 = Slot (UNext 0) 0\<close> by (simp add: nth_append)
  moreover have "slot_u ((sl @ [Slot (UValue v) w]) ! j) = UNext DANGLING_SENTINEL"
    if "0 < j" "j < Suc (length sl)" "even (slot_version ((sl @ [Slot (UValue v) w]) ! j))" for j
    using that leak [of j] w by (cases "j = length sl") (auto simp: nth_append)
  ultimately show ?thesis
    using room w unfolding slots_ok_def by simp
qed

section \<open>The abstract contents\<close>

definition lview :: "'v slot list \<Rightarrow> key_data \<Rightarrow> 'v option" where
  "lview sl k =
     (let i = unat (key_idx k)
      in if i < length sl \<and> slot_version (sl ! i) = version_raw k then
           (case slot_u (sl ! i) of UValue v \<Rightarrow> Some v | UNext _ \<Rightarrow> None)
         else None)"

definition sm_view :: "'v slotmap \<Rightarrow> key_data \<Rightarrow> 'v option" where
  "sm_view m = lview (items (slots m))"

lemma lview_update_value:
  assumes i: "i < length sl" and key: "unat (key_idx kd) = i" "version_raw kd = w"
    and old: "\<And>k. unat (key_idx k) = i \<Longrightarrow> k \<noteq> kd \<Longrightarrow> lview sl k = None"
  shows "lview (sl[i := Slot (UValue v) w]) = (lview sl)(kd \<mapsto> v)"
proof (rule ext)
  fix k
  show "lview (sl[i := Slot (UValue v) w]) k = ((lview sl)(kd \<mapsto> v)) k"
  proof (cases "unat (key_idx k) = i")
    case True
    have "version_raw k = w \<longleftrightarrow> k = kd"
      using True key by (auto intro: key_eqI_unat)
    then show ?thesis
      using True i old [OF True] key by (auto simp: lview_def Let_def)
  next
    case False
    then have "k \<noteq> kd" using key by auto
    then show ?thesis using False by (auto simp: lview_def Let_def nth_list_update)
  qed
qed

lemma lview_update_vacant:
  assumes "i < length sl" and "unat (key_idx k) = i" and "slot_version (sl ! i) = version_raw k"
  shows "lview (sl[i := Slot (UNext n) w]) = (lview sl)(k := None)"
proof (rule ext)
  fix l
  show "lview (sl[i := Slot (UNext n) w]) l = ((lview sl)(k := None)) l"
  proof (cases "unat (key_idx l) = i")
    case True
    have "lview sl l = None" if "l \<noteq> k"
    proof -
      have "version_raw l \<noteq> version_raw k"
        using that True assms(2) by (auto dest: key_eqI_unat)
      then show ?thesis using True assms by (auto simp: lview_def Let_def)
    qed
    then show ?thesis using True assms by (auto simp: lview_def Let_def)
  next
    case False
    then have "l \<noteq> k" using assms by auto
    then show ?thesis using False by (auto simp: lview_def Let_def nth_list_update)
  qed
qed

lemma lview_vacant_slot: "slot_u (sl ! unat (key_idx k)) = UNext n \<Longrightarrow> lview sl k = None"
  by (auto simp: lview_def Let_def)

lemma lview_push:
  assumes "unat (key_idx kd) = length sl" and "version_raw kd = w"
  shows "lview (sl @ [Slot (UValue v) w]) = (lview sl)(kd \<mapsto> v)"
proof (rule ext)
  fix k
  have "unat (key_idx k) = length sl \<and> version_raw k = w \<longleftrightarrow> k = kd"
    using assms by (auto intro: key_eqI_unat)
  then show "lview (sl @ [Slot (UValue v) w]) k = ((lview sl)(kd \<mapsto> v)) k"
    using assms by (auto simp: lview_def Let_def nth_append less_Suc_eq)
qed

lemma contains_key_view:
  assumes "slotmap_ok m" and "key_ok k"
  shows "sm_contains_key m k \<longleftrightarrow> sm_view m k \<noteq> None"
proof -
  obtain fs where ok: "slots_ok (items (slots m)) (unat (free_head m)) (unat (num_elems m)) fs"
    using assms(1) by (auto simp: slotmap_ok_def)
  show ?thesis
    using assms(2) slots_ok_wf [OF ok, of "unat (key_idx k)"]
    by (auto simp: sm_contains_key_def slot_at_def sm_view_def lview_def Let_def key_ok_def
        slot_wf_def split: slot_union.splits)
qed

end
