(* ===== verification/SlotOps.thy ===== *)
theory SlotOps
  imports SlotInv
begin

text \<open>
  Every operation of the slot map against the invariant and the abstract contents of
  \<^verbatim>\<open>SlotInv\<close>: which slot it writes, that it neither panics nor reaches undefined behaviour,
  and what it does to the partial map from keys to values.
\<close>

section \<open>The invariant on the record\<close>

abbreviation slot_list :: "'v slotmap \<Rightarrow> 'v slot list" where
  "slot_list m \<equiv> items (slots m)"

lemma slotmap_okE:
  assumes "slotmap_ok m"
  obtains fs where "vec_ok (slots m)"
    and "slots_ok (slot_list m) (unat (free_head m)) (unat (num_elems m)) fs"
  using assms by (auto simp: slotmap_ok_def)

lemma slotmap_okI:
  "vec_ok (slots m) \<Longrightarrow> slots_ok (slot_list m) fh c fs \<Longrightarrow> unat (free_head m) = fh \<Longrightarrow>
   unat (num_elems m) = c \<Longrightarrow> slotmap_ok m"
  by (auto simp: slotmap_ok_def)

lemma set_slot_sel [simp]:
  "slot_list (set_slot i s m) = (slot_list m)[i := s]"
  "free_head (set_slot i s m) = free_head m" "num_elems (set_slot i s m) = num_elems m"
  by (simp_all add: set_slot_def)

lemma vec_ok_set_slot [simp]: "vec_ok (slots m) \<Longrightarrow> vec_ok (slots (set_slot i s m))"
  by (simp add: set_slot_def vec_ok_def)

lemma unat_plus_one: "unat n + 1 < 2 ^ 32 \<Longrightarrow> unat (n + 1 :: u32) = unat n + 1"
  by (subst unat_add_lem [THEN iffD1]) simp_all

lemma unat_minus_one: "0 < unat (n :: u32) \<Longrightarrow> unat (n - 1) = unat n - 1"
  by (simp add: unat_sub word_le_nat_alt Suc_leI)

lemma count_up_ok:
  assumes "slots_ok sl fh (unat n) fs"
  shows "num_elems m = n \<Longrightarrow> count_up m = (Ok (), m\<lparr>num_elems := n + 1\<rparr>)"
    and "unat (n + 1) = Suc (unat n)"
  using slots_ok_count [OF assms] slots_ok_max [OF assms] unat_plus_one [of n]
  by (simp_all add: count_up_def u32_checked_add_def)

lemma count_down_ok:
  assumes "0 < unat n"
  shows "num_elems m = n \<Longrightarrow> count_down m = (Ok (), m\<lparr>num_elems := n - 1\<rparr>)"
    and "unat (n - 1) = unat n - 1"
  using assms unat_minus_one [of n]
  by (simp_all add: count_down_def u32_checked_sub_def)

section \<open>Insertion\<close>

lemma insert_reuses:
  assumes ok: "slotmap_ok m" and i: "unat (free_head m) < vlen (slots m)"
    and w: "w = slot_version (slot_list m ! unat (free_head m)) OR 1"
    and f: "f (key_new (free_head m) w) h = (Ok v, h')"
  obtains n where "slot_u (slot_list m ! unat (free_head m)) = UNext n"
    and "insert_inner f (m, h) = (Ok (key_new (free_head m) w),
          ((set_slot (unat (free_head m)) (Slot (UValue v) w) m)
             \<lparr>free_head := n, num_elems := num_elems m + 1\<rparr>, h'))"
    and "slotmap_ok ((set_slot (unat (free_head m)) (Slot (UValue v) w) m)
             \<lparr>free_head := n, num_elems := num_elems m + 1\<rparr>)"
    and "unat (num_elems m + 1) = Suc (unat (num_elems m))"
proof -
  obtain fs where vok: "vec_ok (slots m)"
    and sok: "slots_ok (slot_list m) (unat (free_head m)) (unat (num_elems m)) fs"
    using ok by (rule slotmap_okE)
  have "odd w" using w by simp
  from slots_ok_fill [OF sok i this, of v] obtain n fs' where
    n: "slot_u (slot_list m ! unat (free_head m)) = UNext n"
    and sok': "slots_ok ((slot_list m)[unat (free_head m) := Slot (UValue v) w]) (unat n)
        (Suc (unat (num_elems m))) fs'"
    by blast
  note up = count_up_ok [OF sok]
  let ?m = "set_slot (unat (free_head m)) (Slot (UValue v) w) m"
  have "insert_inner f (m, h) = (Ok (key_new (free_head m) w),
          (?m\<lparr>free_head := n, num_elems := num_elems m + 1\<rparr>, h'))"
    using i n f w by (simp add: insert_inner_def slot_at_def Let_def up(1) set_slot_def)
  moreover have "slotmap_ok (?m\<lparr>free_head := n, num_elems := num_elems m + 1\<rparr>)"
    using vok sok' up(2) by (intro slotmap_okI [where fs = fs']) simp_all
  ultimately show ?thesis using that n up(2) by blast
qed

lemma insert_pushes:
  assumes ok: "slotmap_ok m" and i: "\<not> unat (free_head m) < vlen (slots m)"
    and room: "vlen (slots m) < MAX_SLOTS_LEN"
    and res: "vec_try_reserve 1 (slots m, h) = (Ok (), (sl, h1))"
    and f: "f (key_new (of_nat (vlen (slots m))) 1) h1 = (Ok v, h')"
  defines "m' \<equiv> \<lparr>slots = with_items (slot_list m @ [Slot (UValue v) 1]) sl,
      free_head = of_nat (Suc (vlen (slots m))), num_elems = num_elems m + 1\<rparr>"
  shows "insert_inner f (m, h) = (Ok (key_new (of_nat (vlen (slots m))) 1), (m', h'))"
    and "slotmap_ok m'" and "unat (num_elems m + 1) = Suc (unat (num_elems m))"
    and "unat (of_nat (vlen (slots m)) :: u32) = vlen (slots m)"
proof -
  obtain fs where vok: "vec_ok (slots m)"
    and sok: "slots_ok (slot_list m) (unat (free_head m)) (unat (num_elems m)) fs"
    using ok by (rule slotmap_okE)
  have fh: "unat (free_head m) = vlen (slots m)"
    using slots_ok_head [OF sok] i by simp
  have big: "Suc (vlen (slots m)) < 2 ^ 32"
    using room by (simp add: MAX_SLOTS_LEN_eq)
  show idx: "unat (of_nat (vlen (slots m)) :: u32) = vlen (slots m)"
    using big by (intro unat_of_nat_small) simp
  have idx': "unat (of_nat (Suc (vlen (slots m))) :: u32) = Suc (vlen (slots m))"
    using big by (intro unat_of_nat_small) simp
  have sl: "items sl = slot_list m" "vlen (slots m) < cap sl" "vec_ok sl"
    using vok res by (cases rule: vec_try_reserve_cases [OF vok, of 1 h]; simp)+
  note up = count_up_ok [OF sok]
  show "unat (num_elems m + 1) = Suc (unat (num_elems m))" by (rule up(2))
  have nxt: "u32_checked_add (of_nat (vlen (slots m))) 1 = Some (of_nat (Suc (vlen (slots m))))"
    using big idx by (simp add: u32_checked_add_def add.commute)
  have cnt: "count_up \<lparr>slots = x, free_head = y, num_elems = num_elems m\<rparr> =
      (Ok (), \<lparr>slots = x, free_head = y, num_elems = num_elems m + 1\<rparr>)" for x and y
    by (subst up(1)) simp_all
  have rec: "m\<lparr>slots := x, free_head := y\<rparr> = \<lparr>slots = x, free_head = y, num_elems = num_elems m\<rparr>" for x y
    by (cases m) simp
  show "insert_inner f (m, h) = (Ok (key_new (of_nat (vlen (slots m))) 1), (m', h'))"
    using i room res f sl nxt
    by (simp add: insert_inner_def slot_at_def on_slots_def Let_def vec_push_room rec cnt m'_def)
  show "slotmap_ok m'"
    using sl slots_ok_push [OF sok [unfolded fh] room, of 1 v] up(2) idx'
    by (intro slotmap_okI [where fs = "[]"])
      (simp_all add: m'_def vec_ok_with_items)
qed

lemma insert_full:
  assumes "slotmap_ok m" and "\<not> unat (free_head m) < vlen (slots m)"
    and "\<not> vlen (slots m) < MAX_SLOTS_LEN"
  shows "insert_inner f (m, h) = (Err (InsReserve new_capacity_overflow), (m, h))"
  using assms by (simp add: insert_inner_def slot_at_def)

text \<open>
  All outcomes of an insertion whose closure returns: a fresh key bound to the closure's value,
  a failed reservation that leaves the map as it was, or the closure's own error, which leaves
  everything but the spare capacity as it was.
\<close>

definition same_contents :: "'v slotmap \<Rightarrow> 'v slotmap \<Rightarrow> bool" where
  "same_contents m' m \<longleftrightarrow>
     slot_list m' = slot_list m \<and> free_head m' = free_head m \<and> num_elems m' = num_elems m"

lemma same_contents_view: "same_contents m' m \<Longrightarrow> sm_view m' = sm_view m"
  by (simp add: same_contents_def sm_view_def)

lemma same_contents_ok: "same_contents m' m \<Longrightarrow> vec_ok (slots m') \<Longrightarrow> slotmap_ok m \<Longrightarrow> slotmap_ok m'"
  by (auto simp: same_contents_def slotmap_ok_def)

lemma insert_inner_cases [consumes 1]:
  assumes ok: "slotmap_ok m" and clean: "\<And>k h. clean (fst (f k h))"
  obtains (inserted) k v m' h1 h' where "insert_inner f (m, h) = (Ok k, (m', h'))"
      and "f k h1 = (Ok v, h')" and "key_ok k" and "slotmap_ok m'"
      and "sm_view m k = None" and "sm_view m' = (sm_view m)(k \<mapsto> v)" and "sm_len m' = Suc (sm_len m)"
      and "slot_list m' = (slot_list m)[unat (key_idx k) := Slot (UValue v) (version_raw k)] \<and>
           unat (key_idx k) < vlen (slots m) \<and>
           version_raw k = slot_version (slot_list m ! unat (key_idx k)) OR 1 \<and>
           (\<exists>n. slot_u (slot_list m ! unat (key_idx k)) = UNext n) \<or>
           slot_list m' = slot_list m @ [Slot (UValue v) 1] \<and> unat (key_idx k) = vlen (slots m)"
  | (reserve) e h' where "insert_inner f (m, h) = (Err (InsReserve e), (m, h'))"
  | (refused) e k m' h1 h' where "insert_inner f (m, h) = (Err (InsClosure e), (m', h'))"
      and "f k h1 = (Err e, h')" and "same_contents m' m" and "slotmap_ok m'"
proof (cases "unat (free_head m) < vlen (slots m)")
  case fast: True
  let ?i = "unat (free_head m)" and ?w = "slot_version (slot_list m ! unat (free_head m)) OR 1"
  obtain r h' where f: "f (key_new (free_head m) ?w) h = (r, h')"
    by (cases "f (key_new (free_head m) ?w) h")
  then have "clean r" using clean by (metis fst_conv)
  then show ?thesis
  proof (cases rule: clean_cases)
    case (Ok v)
    with f have fv: "f (key_new (free_head m) ?w) h = (Ok v, h')" by simp
    obtain n where n: "slot_u (slot_list m ! ?i) = UNext n"
      and run: "insert_inner f (m, h) = (Ok (key_new (free_head m) ?w),
          ((set_slot ?i (Slot (UValue v) ?w) m)\<lparr>free_head := n, num_elems := num_elems m + 1\<rparr>, h'))"
      and ok': "slotmap_ok
          ((set_slot ?i (Slot (UValue v) ?w) m)\<lparr>free_head := n, num_elems := num_elems m + 1\<rparr>)"
      and len: "unat (num_elems m + 1) = Suc (unat (num_elems m))"
      using insert_reuses [where m = m and f = f and h = h and w = ?w and v = v and h' = h', OF ok fast _ fv]
      by auto
    have none: "lview (slot_list m) k = None" if "unat (key_idx k) = ?i" for k
      using that n by (intro lview_vacant_slot [of _ _ n]) simp
    have "lview ((slot_list m)[?i := Slot (UValue v) ?w]) =
        (lview (slot_list m))(key_new (free_head m) ?w \<mapsto> v)"
      using fast none by (intro lview_update_value) auto
    then show ?thesis
      using inserted [OF run fv _ ok'] none len n fast by (auto simp: sm_view_def sm_len_def)
  next
    case (Err e)
    then have "insert_inner f (m, h) = (Err (InsClosure e), (m, h'))"
      using fast f by (simp add: insert_inner_def slot_at_def Let_def)
    then show ?thesis
      using refused [of e m h' _ h] f Err ok by (auto simp: same_contents_def)
  qed
next
  case slow: False
  show ?thesis
  proof (cases "vlen (slots m) < MAX_SLOTS_LEN")
    case room: True
    obtain fs where vok: "vec_ok (slots m)"
      and sok: "slots_ok (slot_list m) (unat (free_head m)) (unat (num_elems m)) fs"
      using ok by (rule slotmap_okE)
    show ?thesis
    proof (cases rule: vec_try_reserve_cases [OF vok, of 1 h])
      case (1 sl h1)
      let ?k = "key_new (of_nat (vlen (slots m))) 1"
      obtain r h' where f: "f ?k h1 = (r, h')" by (cases "f ?k h1")
      then have "clean r" using clean by (metis fst_conv)
      then show ?thesis
      proof (cases rule: clean_cases)
        case (Ok v)
        with f have fv: "f ?k h1 = (Ok v, h')" by simp
        note push = insert_pushes [where m = m and f = f and h = h and v = v, OF ok slow room 1(1) fv]
        have none: "lview (slot_list m) ?k = None"
          using push(4) by (simp add: lview_def Let_def)
        have "lview (slot_list m @ [Slot (UValue v) 1]) = (lview (slot_list m))(?k \<mapsto> v)"
          using push(4) by (intro lview_push) simp_all
        then show ?thesis
          using inserted [OF push(1) fv _ push(2)] none push(3,4) by (auto simp: sm_view_def sm_len_def)
      next
        case (Err e)
        then have "insert_inner f (m, h) = (Err (InsClosure e), (m\<lparr>slots := sl\<rparr>, h'))"
          using slow room 1(1) f by (simp add: insert_inner_def slot_at_def on_slots_def Let_def)
        moreover have "same_contents (m\<lparr>slots := sl\<rparr>) m"
          using 1 by (simp add: same_contents_def)
        ultimately show ?thesis
          using refused [of e "m\<lparr>slots := sl\<rparr>" h' ?k h1] f Err ok 1 same_contents_ok [of "m\<lparr>slots := sl\<rparr>" m]
          by auto
      qed
    next
      case (2 e h1)
      then show ?thesis
        using slow room reserve [of e h1]
        by (simp add: insert_inner_def slot_at_def on_slots_def Let_def)
    qed
  next
    case False
    then show ?thesis using insert_full [OF ok slow] reserve by blast
  qed
qed

section \<open>Removal, detaching and reattaching\<close>

lemma slot_of_key:
  assumes ok: "slotmap_ok m" and key: "sm_view m k = Some v"
  obtains "unat (key_idx k) < vlen (slots m)" and "0 < unat (key_idx k)"
    and "slot_list m ! unat (key_idx k) = Slot (UValue v) (version_raw k)" and "odd (version_raw k)"
    and "sm_contains_key m k"
proof -
  obtain fs where sok: "slots_ok (slot_list m) (unat (free_head m)) (unat (num_elems m)) fs"
    using ok by (rule slotmap_okE)
  have i: "unat (key_idx k) < vlen (slots m)" "slot_list m ! unat (key_idx k) = Slot (UValue v) (version_raw k)"
    using key by (cases "slot_list m ! unat (key_idx k)";
        auto simp: sm_view_def lview_def Let_def split: if_splits slot_union.splits)+
  then have "odd (version_raw k)" using slots_ok_wf [OF sok i(1)] by simp
  moreover then have "0 < unat (key_idx k)"
    using slots_ok_occupied_pos [OF sok, of "unat (key_idx k)"] i by simp
  ultimately show ?thesis using that i by (simp add: sm_contains_key_def slot_at_def)
qed

lemma remove_from_slot_ok:
  assumes ok: "slotmap_ok m" and i: "i < vlen (slots m)" and s: "slot_list m ! i = Slot (UValue v) w"
  defines "m' \<equiv> set_slot i (Slot (UNext (free_head m)) (w + 1)) m
      \<lparr>free_head := of_nat i, num_elems := num_elems m - 1\<rparr>"
  shows "remove_from_slot i m = (Ok v, m')" and "slotmap_ok m'"
    and "Suc (sm_len m') = sm_len m"
proof -
  obtain fs where vok: "vec_ok (slots m)"
    and sok: "slots_ok (slot_list m) (unat (free_head m)) (unat (num_elems m)) fs"
    using ok by (rule slotmap_okE)
  have occ: "odd (slot_version (slot_list m ! i))"
    using slots_ok_wf [OF sok i] s by simp
  have w: "even (w + 1)" using occ s by simp
  have pos: "0 < unat (num_elems m)"
    using slots_ok_release(2) [OF sok i occ w] .
  note down = count_down_ok [OF pos]
  have idx: "unat (of_nat i :: u32) = i"
    using slots_ok_max [OF sok] i by (intro unat_of_nat_small) simp
  show "remove_from_slot i m = (Ok v, m')"
    using i s by (simp add: remove_from_slot_def slot_at_def Let_def down(1) set_slot_def m'_def)
  show "slotmap_ok m'"
    using vok slots_ok_free [OF sok i occ w] down(2) idx
    by (intro slotmap_okI [where fs = "i # fs"]) (simp_all add: m'_def)
  show "Suc (sm_len m') = sm_len m"
    using down(2) pos by (simp add: sm_len_def m'_def)
qed

lemma remove_present:
  assumes ok: "slotmap_ok m" and key: "sm_view m k = Some v"
  obtains m' where "sm_remove k m = (Ok (Some v), m')" and "slotmap_ok m'"
    and "sm_view m' = (sm_view m)(k := None)" and "Suc (sm_len m') = sm_len m"
    and "slot_list m' = (slot_list m)[unat (key_idx k) := Slot (UNext (free_head m)) (version_raw k + 1)]"
proof -
  obtain i: "unat (key_idx k) < vlen (slots m)"
    and s: "slot_list m ! unat (key_idx k) = Slot (UValue v) (version_raw k)"
    and c: "sm_contains_key m k"
    using ok key by (rule slot_of_key)
  note rem = remove_from_slot_ok [OF ok i s]
  have "lview ((slot_list m)[unat (key_idx k) := Slot (UNext (free_head m)) (version_raw k + 1)]) =
      (lview (slot_list m))(k := None)"
    using i s by (intro lview_update_vacant) simp_all
  then show ?thesis
    using that [OF _ rem(2)] rem(3) c by (simp add: sm_remove_def sm_view_def rem(1))
qed

lemma remove_absent:
  assumes "slotmap_ok m" and "key_ok k" and "sm_view m k = None"
  shows "sm_remove k m = (Ok None, m)"
  using contains_key_view [OF assms(1,2)] assms(3) by (simp add: sm_remove_def)

lemma detach_present:
  assumes ok: "slotmap_ok m" and key: "sm_view m k = Some v"
  obtains m' where "sm_detach k m = (Ok (Some v), m')" and "slotmap_ok m'"
    and "sm_view m' = (sm_view m)(k := None)" and "Suc (sm_len m') = sm_len m"
    and "slot_list m' = (slot_list m)[unat (key_idx k) := Slot (UNext DANGLING_SENTINEL) (version_raw k + 1)]"
proof -
  obtain i: "unat (key_idx k) < vlen (slots m)"
    and s: "slot_list m ! unat (key_idx k) = Slot (UValue v) (version_raw k)"
    and odd: "odd (version_raw k)" and c: "sm_contains_key m k"
    using ok key by (rule slot_of_key)
  obtain fs where vok: "vec_ok (slots m)"
    and sok: "slots_ok (slot_list m) (unat (free_head m)) (unat (num_elems m)) fs"
    using ok by (rule slotmap_okE)
  have occ: "odd (slot_version (slot_list m ! unat (key_idx k)))" using s odd by simp
  have w: "even (version_raw k + 1)" using odd by simp
  have pos: "0 < unat (num_elems m)"
    using slots_ok_release(2) [OF sok i occ w] .
  note down = count_down_ok [OF pos]
  let ?m = "set_slot (unat (key_idx k)) (Slot (UNext DANGLING_SENTINEL) (version_raw k + 1)) m
      \<lparr>num_elems := num_elems m - 1\<rparr>"
  have run: "sm_detach k m = (Ok (Some v), ?m)"
    using i s c by (simp add: sm_detach_def slot_at_def down(1))
  have "slotmap_ok ?m"
    using vok slots_ok_detach [OF sok i occ w] down(2)
    by (intro slotmap_okI [where fs = fs]) simp_all
  moreover have "sm_view ?m = (sm_view m)(k := None)"
    using i s by (simp add: sm_view_def lview_update_vacant)
  moreover have "Suc (sm_len ?m) = sm_len m"
    using down(2) pos by (simp add: sm_len_def)
  ultimately show ?thesis using that [of ?m] by (simp add: run)
qed

lemma detach_absent:
  assumes "slotmap_ok m" and "key_ok k" and "sm_view m k = None"
  shows "sm_detach k m = (Ok None, m)"
  using contains_key_view [OF assms(1,2)] assms(3) by (simp add: sm_detach_def)

text \<open>A key is detached when its slot carries the next even version and the dangling link.\<close>

definition detached :: "'v slotmap \<Rightarrow> key_data \<Rightarrow> bool" where
  "detached m k \<longleftrightarrow> slot_at m (unat (key_idx k)) = Some (Slot (UNext DANGLING_SENTINEL) (version_raw k + 1))"

lemma reattach_detached:
  assumes ok: "slotmap_ok m" and k: "key_ok k" and det: "detached m k"
  obtains m' where "sm_reattach k v m = (Ok (), m')" and "slotmap_ok m'"
    and "sm_view m' = (sm_view m)(k \<mapsto> v)" and "sm_len m' = Suc (sm_len m)"
    and "slot_list m' = (slot_list m)[unat (key_idx k) := Slot (UValue v) (version_raw k)]"
proof -
  have i: "unat (key_idx k) < vlen (slots m)"
    and s: "slot_list m ! unat (key_idx k) = Slot (UNext DANGLING_SENTINEL) (version_raw k + 1)"
    using det by (auto simp: detached_def slot_at_def split: if_splits)
  obtain fs where vok: "vec_ok (slots m)"
    and sok: "slots_ok (slot_list m) (unat (free_head m)) (unat (num_elems m)) fs"
    using ok by (rule slotmap_okE)
  note up = count_up_ok [OF sok]
  have w: "odd (version_raw k)" using k by (simp add: key_ok_def)
  let ?m = "set_slot (unat (key_idx k)) (Slot (UValue v) (version_raw k)) m\<lparr>num_elems := num_elems m + 1\<rparr>"
  have run: "sm_reattach k v m = (Ok (), ?m)"
    using i s by (simp add: sm_reattach_def slot_at_def up(1))
  have "slotmap_ok ?m"
    using vok slots_ok_reattach [OF sok i _ w] s up(2)
    by (intro slotmap_okI [where fs = fs]) simp_all
  moreover have "lview ((slot_list m)[unat (key_idx k) := Slot (UValue v) (version_raw k)]) =
      (lview (slot_list m))(k \<mapsto> v)"
    using i s
    by (intro lview_update_value) (auto intro: lview_vacant_slot [where n = DANGLING_SENTINEL])
  ultimately show ?thesis
    using that [of ?m] up(2) by (simp add: sm_view_def sm_len_def run)
qed

lemma reattach_not_detached:
  assumes ok: "slotmap_ok m" and k: "key_ok k" and det: "\<not> detached m k"
  shows "sm_reattach k v m = (Panic ''key is not detached'', m)"
proof (cases "unat (key_idx k) < vlen (slots m)")
  case True
  obtain fs where sok: "slots_ok (slot_list m) (unat (free_head m)) (unat (num_elems m)) fs"
    using ok by (rule slotmap_okE)
  have "slot_wf (slot_list m ! unat (key_idx k))" using slots_ok_wf [OF sok True] .
  then show ?thesis
    using True k det
    by (cases rule: slot_wf_cases) (auto simp: sm_reattach_def slot_at_def detached_def key_ok_def)
next
  case False
  then show ?thesis by (simp add: sm_reattach_def slot_at_def)
qed

section \<open>Access\<close>

lemma get_view:
  assumes "slotmap_ok m" and "key_ok k"
  shows "sm_get m k = Ok (sm_view m k)"
proof (cases "unat (key_idx k) < vlen (slots m)")
  case True
  obtain fs where sok: "slots_ok (slot_list m) (unat (free_head m)) (unat (num_elems m)) fs"
    using assms(1) by (rule slotmap_okE)
  have "slot_wf (slot_list m ! unat (key_idx k))" using slots_ok_wf [OF sok True] .
  then show ?thesis
    using True assms(2)
    by (cases rule: slot_wf_cases)
      (auto simp: sm_get_def slot_at_def sm_view_def lview_def Let_def key_ok_def)
next
  case False
  then show ?thesis by (simp add: sm_get_def slot_at_def sm_view_def lview_def)
qed

lemma get_mut_present:
  assumes ok: "slotmap_ok m" and key: "sm_view m k = Some old"
  obtains m' where "sm_get_mut_set k v m = (Ok (Some old), m')" and "slotmap_ok m'"
    and "sm_view m' = (sm_view m)(k \<mapsto> v)" and "sm_len m' = sm_len m"
proof -
  obtain i: "unat (key_idx k) < vlen (slots m)"
    and s: "slot_list m ! unat (key_idx k) = Slot (UValue old) (version_raw k)"
    and odd: "odd (version_raw k)"
    using ok key by (rule slot_of_key)
  obtain fs where vok: "vec_ok (slots m)"
    and sok: "slots_ok (slot_list m) (unat (free_head m)) (unat (num_elems m)) fs"
    using ok by (rule slotmap_okE)
  let ?m = "set_slot (unat (key_idx k)) (Slot (UValue v) (version_raw k)) m"
  have run: "sm_get_mut_set k v m = (Ok (Some old), ?m)"
    using i s by (simp add: sm_get_mut_set_def slot_at_def)
  have "slotmap_ok ?m"
    using vok slots_ok_overwrite [OF sok i, of v] s odd
    by (intro slotmap_okI [where fs = fs]) simp_all
  moreover have "lview ((slot_list m)[unat (key_idx k) := Slot (UValue v) (version_raw k)]) =
      (lview (slot_list m))(k \<mapsto> v)"
  proof (rule lview_update_value [OF i refl refl])
    fix l
    assume l: "unat (key_idx l) = unat (key_idx k)" "l \<noteq> k"
    then have "version_raw l \<noteq> version_raw k" by (auto dest: key_eqI_unat)
    then show "lview (slot_list m) l = None" using l s by (simp add: lview_def)
  qed
  ultimately show ?thesis
    using that [of ?m] by (simp add: sm_view_def sm_len_def run)
qed

section \<open>Reservation\<close>

lemma reserve_cases [consumes 1]:
  assumes ok: "slotmap_ok m"
  obtains (reserved) m' h' where "sm_try_reserve n (m, h) = (Ok (), (m', h'))"
      and "same_contents m' m" and "slotmap_ok m'" and "sm_len m + n < MAX_SLOTS_LEN - 1"
      and "sm_len m + n + 1 \<le> cap (slots m')"
  | (failed) e h' where "sm_try_reserve n (m, h) = (Err e, (m, h'))"
proof -
  obtain fs where vok: "vec_ok (slots m)"
    and sok: "slots_ok (slot_list m) (unat (free_head m)) (unat (num_elems m)) fs"
    using ok by (rule slotmap_okE)
  have pos: "0 < vlen (slots m)" using sok by (simp add: slots_ok_def)
  consider (no) "sm_len m + n > usize_max \<or> MAX_SLOTS_LEN - 1 \<le> sm_len m + n"
    | (yes) "sm_len m + n \<le> usize_max" "sm_len m + n < MAX_SLOTS_LEN - 1"
    by linarith
  then show ?thesis
  proof cases
    case no
    then have "sm_try_reserve n (m, h) = (Err new_capacity_overflow, (m, h))"
      by (auto simp: sm_try_reserve_def checked_add_def)
    then show ?thesis using failed by blast
  next
    case yes
    let ?n = "sm_len m + n - (vlen (slots m) - 1)"
    show ?thesis
    proof (cases rule: vec_try_reserve_cases [OF vok, of ?n h])
      case (1 sl h1)
      then have "sm_try_reserve n (m, h) = (Ok (), (m\<lparr>slots := sl\<rparr>, h1))"
        using yes by (simp add: sm_try_reserve_def checked_add_def on_slots_def)
      moreover have "same_contents (m\<lparr>slots := sl\<rparr>) m"
        using 1 by (simp add: same_contents_def)
      moreover have "sm_len m + n + 1 \<le> cap sl" using 1 pos by simp
      ultimately show ?thesis
        using reserved 1 yes ok same_contents_ok [of "m\<lparr>slots := sl\<rparr>" m] by simp
    next
      case (2 e h1)
      then have "sm_try_reserve n (m, h) = (Err e, (m, h1))"
        using yes by (simp add: sm_try_reserve_def checked_add_def on_slots_def)
      then show ?thesis by (rule failed)
    qed
  qed
qed

end
