(* ===== verification/SlotIter.thy ===== *)
theory SlotIter
  imports SlotOps
begin

text \<open>
  The loops over a slot map (\<^verbatim>\<open>basic.rs\<close>): the iterators, draining and clearing,
  \<open>retain\<close>, \<open>get_disjoint_mut\<close>. Iterators are state machines stepped by \<open>next\<close>.
\<close>

section \<open>Iterators\<close>

datatype 'v slot_iter = SlotIter (iter_slots: "(nat \<times> 'v slot) list") (num_left: nat)

definition sm_iter :: "'v slotmap \<Rightarrow> 'v slot_iter" where
  "sm_iter m = SlotIter (drop 1 (List.enumerate 0 (slot_list m))) (sm_len m)"

fun iter_scan :: "(nat \<times> 'v slot) list \<Rightarrow> nat \<Rightarrow> ('e, (key_data \<times> 'v) option) outcome \<times> 'v slot_iter" where
  "iter_scan [] n = (Ok None, SlotIter [] n)"
| "iter_scan ((idx, slot) # xs) n =
     (case slot_get slot of
        Ok (Occupied v) \<Rightarrow>
          let kd = key_new (of_nat idx) (slot_version slot)
          in if n = 0 then (Panic ''remaining count positive'', SlotIter xs n)
             else (Ok (Some (kd, v)), SlotIter xs (n - 1))
      | Ok (Vacant _) \<Rightarrow> iter_scan xs n
      | Err e \<Rightarrow> (Err e, SlotIter xs n)
      | Panic msg \<Rightarrow> (Panic msg, SlotIter xs n)
      | UB \<Rightarrow> (UB, SlotIter xs n))"

definition sm_iter_next :: "'v slot_iter \<Rightarrow> ('e, (key_data \<times> 'v) option) outcome \<times> 'v slot_iter" where
  "sm_iter_next it = iter_scan (iter_slots it) (num_left it)"

definition sm_iter_size_hint :: "'v slot_iter \<Rightarrow> nat \<times> nat option" where
  "sm_iter_size_hint it = (num_left it, Some (num_left it))"

text \<open>Calling \<open>next\<close> \<open>n\<close> times, with the answers in order.\<close>

fun next_times :: "nat \<Rightarrow> 'v slot_iter \<Rightarrow> ('e, (key_data \<times> 'v) option) outcome list \<times> 'v slot_iter" where
  "next_times 0 it = ([], it)"
| "next_times (Suc n) it =
     (let (r, it') = sm_iter_next it; (rs, it'') = next_times n it' in (r # rs, it''))"

text \<open>What the iterators are meant to show: the occupied slots in index order.\<close>

fun entries_of :: "(nat \<times> 'v slot) list \<Rightarrow> (key_data \<times> 'v) list" where
  "entries_of [] = []"
| "entries_of ((i, s) # xs) =
     (case slot_u s of
        UValue v \<Rightarrow> (key_new (of_nat i) (slot_version s), v) # entries_of xs
      | UNext _ \<Rightarrow> entries_of xs)"

definition entries :: "'v slotmap \<Rightarrow> (key_data \<times> 'v) list" where
  "entries m = entries_of (drop 1 (List.enumerate 0 (slot_list m)))"

lemma slot_get_wf: "slot_wf s \<Longrightarrow>
    slot_get s = Ok (case slot_u s of UValue v \<Rightarrow> Occupied v | UNext n \<Rightarrow> Vacant n)"
  by (cases rule: slot_wf_cases) (auto simp: slot_get_def)

lemma iter_scan_entries:
  fixes xs :: "(nat \<times> 'v slot) list"
  assumes "\<forall>(i, s) \<in> set xs. slot_wf s" and "n = length (entries_of xs)"
  shows "\<exists>ys. (iter_scan xs n :: ('e, (key_data \<times> 'v) option) outcome \<times> 'v slot_iter) =
      (Ok (case entries_of xs of [] \<Rightarrow> None | e # es \<Rightarrow> Some e), SlotIter ys (n - 1)) \<and>
      entries_of ys = tl (entries_of xs) \<and> (\<forall>(i, s) \<in> set ys. slot_wf s)"
  using assms
proof (induction xs)
  case (Cons p xs)
  then show ?case
    by (cases p; cases "slot_u (snd p)") (auto simp: slot_get_wf Let_def)
qed simp

lemma next_times_entries:
  fixes xs :: "(nat \<times> 'v slot) list"
  assumes "\<forall>(i, s) \<in> set xs. slot_wf s"
  shows "\<exists>ys. (next_times (length (entries_of xs)) (SlotIter xs (length (entries_of xs)))
        :: ('e, (key_data \<times> 'v) option) outcome list \<times> 'v slot_iter) =
      (map (\<lambda>e. Ok (Some e)) (entries_of xs), SlotIter ys 0) \<and> entries_of ys = [] \<and>
      (\<forall>(i, s) \<in> set ys. slot_wf s)"
  using assms
proof (induction "length (entries_of xs)" arbitrary: xs)
  case 0
  then show ?case by auto
next
  case (Suc n)
  then obtain e es where es: "entries_of xs = e # es" "n = length es"
    by (cases "entries_of xs") auto
  then obtain ys where ys: "(iter_scan xs (Suc n) :: ('e, (key_data \<times> 'v) option) outcome \<times> 'v slot_iter)
        = (Ok (Some e), SlotIter ys n)"
      "entries_of ys = es" "\<forall>(i, s) \<in> set ys. slot_wf s"
    using iter_scan_entries [OF Suc.prems refl] by auto
  obtain zs where "(next_times n (SlotIter ys n) :: ('e, (key_data \<times> 'v) option) outcome list \<times> 'v slot_iter)
        = (map (\<lambda>e. Ok (Some e)) es, SlotIter zs 0)" "entries_of zs = []" "\<forall>(i, s) \<in> set zs. slot_wf s"
    using Suc.hyps(1) [of ys] es ys by auto
  then show ?case
    using ys es by (auto simp: sm_iter_next_def)
qed

section \<open>Draining\<close>

function drain_next ::
    "'v slotmap \<Rightarrow> nat \<Rightarrow> ('e, (key_data \<times> 'v) option) outcome \<times> 'v slotmap \<times> nat" where
  "drain_next m cur =
     (if cur < vlen (slots m) then
        let slot = slot_list m ! cur
        in if slot_occupied slot then
             (case remove_from_slot cur m of
                (r, m') \<Rightarrow>
                  (map_ok (\<lambda>v. Some (key_new (of_nat cur) (slot_version slot), v)) r, m', cur + 1))
           else drain_next m (cur + 1)
      else (Ok None, m, cur))"
  by pat_completeness auto
termination by (relation "measure (\<lambda>(m, cur). vlen (slots m) - cur)") auto

declare drain_next.simps [simp del]

text \<open>
  Dropping the iterator runs it to the end (\<open>for_each\<close>); the result lists what it yielded.
\<close>

lemma remove_from_slot_length: "remove_from_slot i m = (r, m') \<Longrightarrow> vlen (slots m') = vlen (slots m)"
  by (cases "slot_u (slot_list m ! i)"; cases "u32_checked_sub (num_elems m) 1")
    (auto simp: remove_from_slot_def slot_at_def count_down_def Let_def set_slot_def split: if_splits)

lemma drain_next_progress:
  "drain_next m cur = (r, m', cur') \<Longrightarrow>
   vlen (slots m') = vlen (slots m) \<and> cur \<le> cur' \<and> (r \<noteq> Ok None \<longrightarrow> cur < cur' \<and> cur' \<le> vlen (slots m))"
proof (induction m cur rule: drain_next.induct)
  case (1 m cur)
  show ?case
  proof (cases "cur < vlen (slots m)")
    case True
    show ?thesis
    proof (cases "slot_occupied (slot_list m ! cur)")
      case occ: True
      then show ?thesis
        using 1(2) True remove_from_slot_length [of cur m]
        by (subst (asm) drain_next.simps) (auto simp: Let_def split: prod.splits)
    next
      case False
      then have "drain_next m (cur + 1) = (r, m', cur')"
        using 1(2) True by (subst (asm) drain_next.simps) simp
      then show ?thesis using 1(1) [OF True refl] False True by auto
    qed
  next
    case False
    then show ?thesis using 1(2) by (subst (asm) drain_next.simps) auto
  qed
qed

function drain_rest :: "'v slotmap \<Rightarrow> nat \<Rightarrow> ('e, (key_data \<times> 'v) list) outcome \<times> 'v slotmap" where
  "drain_rest m cur =
     (case drain_next m cur of
        (Ok None, m', _) \<Rightarrow> (Ok [], m')
      | (Ok (Some e), m', cur') \<Rightarrow> (let (r, m'') = drain_rest m' cur' in (map_ok (\<lambda>es. e # es) r, m''))
      | (Err e, m', _) \<Rightarrow> (Err e, m')
      | (Panic msg, m', _) \<Rightarrow> (Panic msg, m')
      | (UB, m', _) \<Rightarrow> (UB, m'))"
  by pat_completeness auto
termination
  by (relation "measure (\<lambda>(m, cur). vlen (slots m) - cur)") (auto dest!: drain_next_progress [OF sym])

declare drain_rest.simps [simp del]

definition sm_drain :: "'v slotmap \<Rightarrow> 'v slotmap \<times> nat" where
  "sm_drain m = (m, 1)"

definition sm_clear :: "'v slotmap \<Rightarrow> ('e, unit) outcome \<times> 'v slotmap" where
  "sm_clear m = (case sm_drain m of (m1, cur) \<Rightarrow> case drain_rest m1 cur of (r, m') \<Rightarrow> (map_ok (\<lambda>_. ()) r, m'))"

text \<open>The entries from a cursor on, and the slots before it already vacant.\<close>

definition entries_from :: "'v slotmap \<Rightarrow> nat \<Rightarrow> (key_data \<times> 'v) list" where
  "entries_from m cur = entries_of (drop cur (List.enumerate 0 (slot_list m)))"

definition vacant_upto :: "'v slotmap \<Rightarrow> nat \<Rightarrow> bool" where
  "vacant_upto m n \<longleftrightarrow> (\<forall>i < n. i < vlen (slots m) \<longrightarrow> \<not> slot_occupied (slot_list m ! i))"

lemma entries_from_end: "vlen (slots m) \<le> cur \<Longrightarrow> entries_from m cur = []"
  by (simp add: entries_from_def)

lemma drop_enumerate:
  "i < length xs \<Longrightarrow> drop i (List.enumerate 0 xs) = (i, xs ! i) # drop (Suc i) (List.enumerate 0 xs)"
  by (subst Cons_nth_drop_Suc [symmetric]) (simp_all add: nth_enumerate_eq)

lemma entries_from_step:
  "cur < vlen (slots m) \<Longrightarrow> entries_from m cur =
     (case slot_u (slot_list m ! cur) of
        UValue v \<Rightarrow> (key_new (of_nat cur) (slot_version (slot_list m ! cur)), v) # entries_from m (Suc cur)
      | UNext _ \<Rightarrow> entries_from m (Suc cur))"
  by (simp add: entries_from_def drop_enumerate split: slot_union.splits)

lemma entries_from_upd: "entries_from m' (Suc i) = entries_from m (Suc i)"
  if "slot_list m' = (slot_list m)[i := s]"
proof -
  have "drop (Suc i) (List.enumerate 0 ((slot_list m)[i := s])) = drop (Suc i) (List.enumerate 0 (slot_list m))"
    by (rule nth_equalityI) (auto simp: nth_enumerate_eq)
  then show ?thesis using that by (simp add: entries_from_def)
qed

lemma slotmap_wf: "slotmap_ok m \<Longrightarrow> i < vlen (slots m) \<Longrightarrow> slot_wf (slot_list m ! i)"
  by (erule slotmap_okE) (rule slots_ok_wf)

lemma vacant_upto_Suc:
  "vacant_upto m (Suc i) \<longleftrightarrow> vacant_upto m i \<and> (i < vlen (slots m) \<longrightarrow> even (slot_version (slot_list m ! i)))"
  by (auto simp: vacant_upto_def less_Suc_eq)

lemma drain_next_spec:
  fixes m :: "'v slotmap"
  assumes "slotmap_ok m" and "0 < cur" and "vacant_upto m cur"
  shows "\<exists>m' cur'. (drain_next m cur :: ('e, (key_data \<times> 'v) option) outcome \<times> 'v slotmap \<times> nat) =
      (Ok (case entries_from m cur of [] \<Rightarrow> None | e # es \<Rightarrow> Some e), m', cur') \<and>
    slotmap_ok m' \<and> 0 < cur' \<and> vacant_upto m' cur' \<and> vlen (slots m') = vlen (slots m) \<and>
    entries_from m' cur' = tl (entries_from m cur) \<and>
    (entries_from m cur = [] \<longrightarrow> vacant_upto m' (vlen (slots m)))"
  using assms
proof (induction m cur rule: drain_next.induct)
  case (1 m cur)
  show ?case
  proof (cases "cur < vlen (slots m)")
    case inside: True
    have "slot_wf (slot_list m ! cur)" using slotmap_wf [OF 1(2) inside] .
    then show ?thesis
    proof (cases rule: slot_wf_cases)
      case (full v w)
      note rem = remove_from_slot_ok [OF 1(2) inside full(1)]
      let ?m = "set_slot cur (Slot (UNext (free_head m)) (w + 1)) m
          \<lparr>free_head := of_nat cur, num_elems := num_elems m - 1\<rparr>"
      have "(drain_next m cur :: ('e, (key_data \<times> 'v) option) outcome \<times> 'v slotmap \<times> nat) =
          (Ok (Some (key_new (of_nat cur) w, v)), ?m, cur + 1)"
        using inside full by (subst drain_next.simps) (simp add: Let_def rem(1))
      moreover have "vacant_upto ?m (cur + 1)"
        using 1(4) full inside by (auto simp: vacant_upto_def less_Suc_eq)
      moreover have "entries_from ?m (Suc cur) = entries_from m (Suc cur)"
        by (rule entries_from_upd) simp
      ultimately show ?thesis
        using rem(2) full inside by (auto simp: entries_from_step)
    next
      case (empty n w)
      have "vacant_upto m (cur + 1)" using 1(4) empty by (simp add: vacant_upto_Suc)
      moreover have "(drain_next m cur :: ('e, (key_data \<times> 'v) option) outcome \<times> 'v slotmap \<times> nat) =
          drain_next m (cur + 1)"
        using inside empty by (subst drain_next.simps) simp
      moreover have "entries_from m cur = entries_from m (Suc cur)"
        using inside empty by (simp add: entries_from_step)
      ultimately show ?thesis using 1(1) [OF inside refl] 1(2) empty by simp
    qed
  next
    case False
    then show ?thesis
      using 1(2-4) by (subst drain_next.simps) (auto simp: entries_from_end vacant_upto_def)
  qed
qed

lemma drain_rest_spec:
  fixes m :: "'v slotmap"
  assumes "slotmap_ok m" and "0 < cur" and "vacant_upto m cur"
  shows "\<exists>m'. (drain_rest m cur :: ('e, (key_data \<times> 'v) list) outcome \<times> 'v slotmap) =
      (Ok (entries_from m cur), m') \<and>
    slotmap_ok m' \<and> vlen (slots m') = vlen (slots m) \<and> vacant_upto m' (vlen (slots m'))"
  using assms
proof (induction "entries_from m cur" arbitrary: m cur)
  case Nil
  then obtain m' cur' where "(drain_next m cur :: ('e, (key_data \<times> 'v) option) outcome \<times> 'v slotmap \<times> nat)
      = (Ok None, m', cur')" "slotmap_ok m'" "vlen (slots m') = vlen (slots m)"
      "vacant_upto m' (vlen (slots m))"
    using drain_next_spec [OF Nil.prems, where 'e = 'e] by auto
  then show ?case using Nil.hyps by (subst drain_rest.simps) simp
next
  case (Cons e es)
  then obtain m1 cur1 where step: "(drain_next m cur :: ('e, (key_data \<times> 'v) option) outcome \<times> 'v slotmap \<times> nat)
      = (Ok (Some e), m1, cur1)" and 1: "slotmap_ok m1" "0 < cur1" "vacant_upto m1 cur1"
      "vlen (slots m1) = vlen (slots m)" "entries_from m1 cur1 = es"
    using drain_next_spec [OF Cons.prems, where 'e = 'e] by (auto split: list.splits)
  then obtain m' where "(drain_rest m1 cur1 :: ('e, (key_data \<times> 'v) list) outcome \<times> 'v slotmap) = (Ok es, m')"
      "slotmap_ok m'" "vlen (slots m') = vlen (slots m1)" "vacant_upto m' (vlen (slots m'))"
    using Cons.hyps(1) [of m1 cur1] by auto
  then show ?case
    using 1 Cons.hyps(2) [symmetric] by (subst drain_rest.simps) (simp add: step)
qed

lemma all_vacant:
  assumes "slotmap_ok m" and "vacant_upto m (vlen (slots m))"
  shows "sm_view m = Map.empty" and "sm_len m = 0"
proof -
  have wf: "even (slot_version (slot_list m ! i)) \<and> slot_wf (slot_list m ! i)" if "i < vlen (slots m)" for i
    using that assms slotmap_wf [OF assms(1)] by (simp add: vacant_upto_def)
  show "sm_view m = Map.empty"
  proof (rule ext)
    fix k
    show "sm_view m k = None"
      using wf [of "unat (key_idx k)"]
      by (auto simp: sm_view_def lview_def Let_def slot_wf_def split: slot_union.splits)
  qed
  obtain fs where "slots_ok (slot_list m) (unat (free_head m)) (unat (num_elems m)) fs"
    using assms(1) by (rule slotmap_okE)
  then have "unat (num_elems m) = length (filter slot_occupied (slot_list m))"
    by (simp add: slots_ok_def)
  moreover have "filter slot_occupied (slot_list m) = []"
    using wf by (auto simp: filter_empty_conv in_set_conv_nth)
  ultimately show "sm_len m = 0" by (simp add: sm_len_def)
qed

lemma vacant_upto_sentinel: "slotmap_ok m \<Longrightarrow> vacant_upto m 1"
  by (erule slotmap_okE) (auto simp: vacant_upto_def slots_ok_def)

section \<open>Entries and the abstract contents\<close>

lemma entries_from_map:
  assumes "slotmap_ok m" and "0 < cur"
  shows "map_of (entries_from m cur) k = (if cur \<le> unat (key_idx k) then sm_view m k else None)"
    and "\<forall>e \<in> set (entries_from m cur). key_ok (fst e) \<and> cur \<le> unat (key_idx (fst e))"
    and "distinct (map fst (entries_from m cur))"
proof (induction "vlen (slots m) - cur" arbitrary: cur)
  case 0
  {
    case 1
    then show ?case using 0 by (auto simp: entries_from_end sm_view_def lview_def)
  next
    case 2
    then show ?case using 0 by (simp add: entries_from_end)
  next
    case 3
    then show ?case using 0 by (simp add: entries_from_end)
  }
next
  case (Suc n)
  have inside: "cur < vlen (slots m)" "n = vlen (slots m) - Suc cur" using Suc.hyps(4) by auto
  obtain fs where sok: "slots_ok (slot_list m) (unat (free_head m)) (unat (num_elems m)) fs"
    using assms(1) by (rule slotmap_okE)
  have idx: "unat (of_nat cur :: u32) = cur"
    using inside slots_ok_max [OF sok] by (intro unat_of_nat_small) simp
  have wf: "slot_wf (slot_list m ! cur)" using slotmap_wf [OF assms(1) inside(1)] .
  have key: "unat (key_idx k) = cur \<and> version_raw k = w \<longleftrightarrow> k = key_new (of_nat cur) w"
    if "odd w" for w k
    using that idx by (auto simp: odd_or_one_same intro: key_eqI_unat)
  note IH = Suc.hyps(1-3) [OF inside(2)]
  {
    case 1
    show ?case
      using wf
    proof (cases rule: slot_wf_cases)
      case (full v w)
      then show ?thesis
        using inside IH(1) key [OF full(2), of k] idx
        by (cases "unat (key_idx k) = cur")
          (auto simp: entries_from_step sm_view_def lview_def Let_def odd_or_one_same)
    next
      case (empty x w)
      then show ?thesis
        using inside IH(1)
        by (cases "unat (key_idx k) = cur")
          (auto simp: entries_from_step sm_view_def lview_def Let_def)
    qed
  next
    case 2
    show ?case
      using wf inside IH(2) idx
      by (cases rule: slot_wf_cases) (auto simp: entries_from_step)
  next
    case 3
    show ?case
      using wf inside IH(2,3) idx
      by (cases rule: slot_wf_cases) (force simp: entries_from_step)+
  }
qed

lemma entries_from_one: "entries m = entries_from m 1"
  by (simp add: entries_def entries_from_def)

lemma entries_length: "slotmap_ok m \<Longrightarrow> length (entries m) = sm_len m"
proof -
  assume "slotmap_ok m"
  then obtain fs where sok: "slots_ok (slot_list m) (unat (free_head m)) (unat (num_elems m)) fs"
    by (rule slotmap_okE)
  have gen: "\<forall>s \<in> set xs. slot_wf s \<Longrightarrow> length (entries_of (List.enumerate n xs)) = length (filter slot_occupied xs)"
    for n and xs :: "'a slot list"
    by (induction xs arbitrary: n) (auto simp: slot_wf_def split: slot_union.splits)
  obtain s ss where ss: "slot_list m = s # ss" using sok by (cases "slot_list m") (auto simp: slots_ok_def)
  then have "s = Slot (UNext 0) 0" "\<forall>s \<in> set ss. slot_wf s" using sok by (auto simp: slots_ok_def)
  then show ?thesis
    using gen [of ss 1] ss sok by (simp add: entries_def sm_len_def slots_ok_def)
qed

section \<open>Retaining\<close>

text \<open>
  The closure sees the key and a mutable reference, and carries its own state \<open>'f\<close>: it answers
  whether to keep the entry and what it wrote through the reference.
\<close>

type_synonym ('f, 'v) retainer = "key_data \<Rightarrow> 'v \<Rightarrow> 'f \<Rightarrow> (bool \<times> 'v) \<times> 'f"

fun retain_loop :: "('f, 'v) retainer \<Rightarrow> nat list \<Rightarrow> 'f \<Rightarrow> 'v slotmap \<Rightarrow> ('v slotmap, 'e, 'f) run" where
  "retain_loop f [] st m = (Ok st, m)"
| "retain_loop f (i # is) st m =
     (case slot_at m i of
        None \<Rightarrow> (UB, m)
      | Some slot \<Rightarrow>
          (case slot_get slot of
             Ok (Occupied v) \<Rightarrow>
               let key = key_new (of_nat i) (slot_version slot);
                   ((keep, v'), st') = f key v st;
                   m1 = set_slot i (Slot (UValue v') (slot_version slot)) m
               in if keep then retain_loop f is st' m1
                  else and_then (remove_from_slot i m1) (\<lambda>_. retain_loop f is st')
           | Ok (Vacant _) \<Rightarrow> retain_loop f is st m
           | Err e \<Rightarrow> (Err e, m)
           | Panic msg \<Rightarrow> (Panic msg, m)
           | UB \<Rightarrow> (UB, m)))"

definition sm_retain :: "('f, 'v) retainer \<Rightarrow> 'f \<Rightarrow> 'v slotmap \<Rightarrow> ('v slotmap, 'e, 'f) run" where
  "sm_retain f st m = retain_loop f [1..<vlen (slots m)] st m"

text \<open>What one entry becomes, for a closure whose answers do not depend on its state.\<close>

definition retained :: "(key_data \<Rightarrow> 'v \<Rightarrow> bool \<times> 'v) \<Rightarrow> key_data \<Rightarrow> 'v option \<Rightarrow> 'v option" where
  "retained g k x =
     (case x of None \<Rightarrow> None | Some v \<Rightarrow> (case g k v of (keep, v') \<Rightarrow> if keep then Some v' else None))"

lemma slot_key:
  assumes "slotmap_ok m" and "i < vlen (slots m)" and "slot_list m ! i = Slot (UValue v) w"
  shows "unat (key_idx (key_new (of_nat i) w)) = i" and "version_raw (key_new (of_nat i) w) = w"
    and "sm_view m (key_new (of_nat i) w) = Some v"
    and "unat (key_idx k) = i \<Longrightarrow> k \<noteq> key_new (of_nat i) w \<Longrightarrow> sm_view m k = None"
proof -
  obtain fs where sok: "slots_ok (slot_list m) (unat (free_head m)) (unat (num_elems m)) fs"
    using assms(1) by (rule slotmap_okE)
  have idx: "unat (of_nat i :: u32) = i"
    using assms(2) slots_ok_max [OF sok] by (intro unat_of_nat_small) simp
  have odd: "odd w" using slotmap_wf [OF assms(1,2)] assms(3) by simp
  show 1: "unat (key_idx (key_new (of_nat i) w)) = i" using idx by simp
  show 2: "version_raw (key_new (of_nat i) w) = w" using odd by (simp add: odd_or_one_same)
  show "sm_view m (key_new (of_nat i) w) = Some v"
    using assms 1 2 by (simp add: sm_view_def lview_def Let_def)
  assume k: "unat (key_idx k) = i" "k \<noteq> key_new (of_nat i) w"
  then have "version_raw k \<noteq> w" using 1 2 key_eqI_unat [of k "key_new (of_nat i) w"] by auto
  then show "sm_view m k = None" using assms k by (simp add: sm_view_def lview_def Let_def)
qed

lemma retain_loop_spec:
  fixes f :: "('f, 'v) retainer" and m :: "'v slotmap"
  assumes pure: "\<And>k v st. fst (f k v st) = g k v"
    and "slotmap_ok m" and "\<forall>i \<in> set js. i < vlen (slots m)" and "distinct js"
  shows "\<exists>m' st'. (retain_loop f js st m :: ('v slotmap, 'e, 'f) run) = (Ok st', m') \<and> slotmap_ok m' \<and>
    (\<forall>k. sm_view m' k =
       (if unat (key_idx k) \<in> set js then retained g k (sm_view m k) else sm_view m k))"
  using assms(2-4)
proof (induction js arbitrary: m st)
  case (Cons i js)
  have i: "i < vlen (slots m)" using Cons.prems by simp
  have "slot_wf (slot_list m ! i)" using slotmap_wf [OF Cons.prems(1) i] .
  then show ?case
  proof (cases rule: slot_wf_cases)
    case (full v w)
    let ?k = "key_new (of_nat i) w"
    note key = slot_key [OF Cons.prems(1) i full(1)]
    obtain keep v' st' where fk: "f ?k v st = ((keep, v'), st')" by (metis prod.collapse)
    then have g: "g ?k v = (keep, v')" using pure [of ?k v st] by simp
    let ?m1 = "set_slot i (Slot (UValue v') w) m"
    have set1: "(sm_get_mut_set ?k v' m :: ('v slotmap, 'e, 'v option) run) = (Ok (Some v), ?m1)"
      unfolding sm_get_mut_set_def slot_at_def key(1,2) using i full by simp
    obtain m1 where m1: "(sm_get_mut_set ?k v' m :: ('v slotmap, 'e, 'v option) run) = (Ok (Some v), m1)"
        "slotmap_ok m1" "sm_view m1 = (sm_view m)(?k \<mapsto> v')"
      by (rule get_mut_present [OF Cons.prems(1) key(3)])
    then have m1': "slotmap_ok ?m1" "sm_view ?m1 = (sm_view m)(?k \<mapsto> v')"
      using set1 by auto
    show ?thesis
    proof (cases keep)
      case True
      obtain m' st2 where "(retain_loop f js st' ?m1 :: ('v slotmap, 'e, 'f) run) = (Ok st2, m')"
          "slotmap_ok m'" "\<forall>k. sm_view m' k =
            (if unat (key_idx k) \<in> set js then retained g k (sm_view ?m1 k) else sm_view ?m1 k)"
        using Cons.IH [OF m1'(1), of st'] Cons.prems by auto
      then show ?thesis
        using i full fk True m1'(2) key g Cons.prems(3)
        by (auto simp: slot_at_def slot_get_def retained_def)
    next
      case False
      have s1: "slot_list ?m1 ! i = Slot (UValue v') w" and i1: "i < vlen (slots ?m1)"
        using i by simp_all
      note rem = remove_from_slot_ok [OF m1'(1) i1 s1]
      let ?m2 = "set_slot i (Slot (UNext (free_head ?m1)) (w + 1)) ?m1
          \<lparr>free_head := of_nat i, num_elems := num_elems ?m1 - 1\<rparr>"
      have "lview ((slot_list ?m1)[i := Slot (UNext (free_head ?m1)) (w + 1)]) =
          (lview (slot_list ?m1))(?k := None)"
        by (rule lview_update_vacant [OF i1 key(1)]) (use i key(2) in simp)
      then have view2: "sm_view ?m2 = (sm_view ?m1)(?k := None)"
        by (simp add: sm_view_def)
      obtain m' st2 where "(retain_loop f js st' ?m2 :: ('v slotmap, 'e, 'f) run) = (Ok st2, m')"
          "slotmap_ok m'" "\<forall>k. sm_view m' k =
            (if unat (key_idx k) \<in> set js then retained g k (sm_view ?m2 k) else sm_view ?m2 k)"
        using Cons.IH [OF rem(2), of st'] Cons.prems by auto
      then show ?thesis
        using i full fk False view2 m1'(2) key g Cons.prems(3)
        by (auto simp: slot_at_def slot_get_def retained_def rem(1))
    qed
  next
    case (empty n w)
    then have "sm_view m k = None" if "unat (key_idx k) = i" for k
      using that by (auto simp: sm_view_def intro: lview_vacant_slot)
    then show ?thesis
      using Cons.IH [of m st] Cons.prems empty by (auto simp: slot_at_def slot_get_def retained_def)
  qed
qed simp

section \<open>Disjoint references\<close>

text \<open>The map with the versions of some slots flipped, as the loop leaves it between its steps.\<close>

definition flip_slot :: "'v slot \<Rightarrow> 'v slot" where
  "flip_slot s = Slot (slot_u s) (slot_version s XOR 1)"

lemma flip_slot_twice [simp]: "flip_slot (flip_slot s) = s"
  by (cases s) (simp add: flip_slot_def bit_simps xor.assoc)

lemma flip_slot_sel [simp]: "slot_u (flip_slot s) = slot_u s" "slot_version (flip_slot s) = slot_version s XOR 1"
  by (simp_all add: flip_slot_def)

lemma even_xor_one [simp]: "even (v XOR 1 :: 'a::len word) \<longleftrightarrow> odd v"
  by (simp add: even_xor_iff)

lemma flip_version_in:
  "i < vlen (slots m) \<Longrightarrow> flip_version i m = set_slot i (flip_slot (slot_list m ! i)) m"
  by (simp add: flip_version_def slot_at_def flip_slot_def)

lemma slotmap_eqI:
  assumes "slot_list m = slot_list m'" and "cap (slots m) = cap (slots m')"
    and "elem (slots m) = elem (slots m')" and "free_head m = free_head m'" and "num_elems m = num_elems m'"
  shows "m = m'"
  using assms by (cases m; cases m'; cases "slots m"; cases "slots m'") auto

lemma fold_flip:
  assumes "\<forall>i \<in> set is. i < vlen (slots m)" and "distinct is"
  shows "vlen (slots (fold flip_version is m)) = vlen (slots m)"
    and "j < vlen (slots m) \<Longrightarrow> slot_list (fold flip_version is m) ! j =
      (if j \<in> set is then flip_slot (slot_list m ! j) else slot_list m ! j)"
    and "cap (slots (fold flip_version is m)) = cap (slots m)"
    and "elem (slots (fold flip_version is m)) = elem (slots m)"
    and "free_head (fold flip_version is m) = free_head m"
    and "num_elems (fold flip_version is m) = num_elems m"
  using assms
proof (induction "is" arbitrary: m)
  case (Cons i "is")
  {
    case 1
    then show ?case using Cons.IH(1) [of "flip_version i m"] by (simp add: flip_version_in)
  next
    case 2
    then show ?case
      using Cons.IH(2) [of "flip_version i m"] by (auto simp: flip_version_in nth_list_update)
  next
    case 3
    then show ?case using Cons.IH(3) [of "flip_version i m"] by (simp add: flip_version_in set_slot_def)
  next
    case 4
    then show ?case using Cons.IH(4) [of "flip_version i m"] by (simp add: flip_version_in set_slot_def)
  next
    case 5
    then show ?case using Cons.IH(5) [of "flip_version i m"] by (simp add: flip_version_in)
  next
    case 6
    then show ?case using Cons.IH(6) [of "flip_version i m"] by (simp add: flip_version_in)
  }
qed simp_all

lemma fold_flip_twice:
  assumes "\<forall>i \<in> set is. i < vlen (slots m)" and "distinct is"
  shows "fold flip_version is (fold flip_version is m) = m"
proof (rule slotmap_eqI)
  let ?m = "fold flip_version is m"
  note 1 = fold_flip [OF assms]
  have in2: "\<forall>i \<in> set is. i < vlen (slots ?m)" using assms(1) 1(1) by simp
  note 2 = fold_flip [OF in2 assms(2)]
  show "slot_list (fold flip_version is ?m) = slot_list m"
    by (rule nth_equalityI) (simp_all add: 1(1,2) 2(1,2))
qed (use fold_flip [OF assms] fold_flip [of "is" "fold flip_version is m"] assms in simp_all)

text \<open>
  The keys the loop accepts before it stops: present, and of a slot not taken before.
\<close>

fun accepted :: "'v slotmap \<Rightarrow> nat set \<Rightarrow> key_data list \<Rightarrow> nat list" where
  "accepted m taken [] = []"
| "accepted m taken (k # ks) =
     (if sm_view m k \<noteq> None \<and> unat (key_idx k) \<notin> taken
      then unat (key_idx k) # accepted m (insert (unat (key_idx k)) taken) ks else [])"

lemma accepted_props:
  assumes "slotmap_ok m"
  shows "distinct (accepted m taken ks)" and "set (accepted m taken ks) \<inter> taken = {}"
    and "\<forall>i \<in> set (accepted m taken ks). i < vlen (slots m)"
    and "accepted m taken ks = map (\<lambda>k. unat (key_idx k)) (take (length (accepted m taken ks)) ks)"
proof (induction ks arbitrary: taken)
  case (Cons k ks)
  have i: "unat (key_idx k) < vlen (slots m)" if "sm_view m k \<noteq> None"
    using that slot_of_key [OF assms] by (metis not_Some_eq)
  {
    case 1
    show ?case
      using Cons.IH(1,2) [of "insert (unat (key_idx k)) taken"] by auto
  next
    case 2
    show ?case using Cons.IH(2) [of "insert (unat (key_idx k)) taken"] by auto
  next
    case 3
    show ?case using Cons.IH(3) [of "insert (unat (key_idx k)) taken"] i by auto
  next
    case 4
    show ?case using Cons.IH(4) [of "insert (unat (key_idx k)) taken"] by auto
  }
qed simp_all

lemma accepted_all:
  "length (accepted m taken ks) = length ks \<longleftrightarrow>
   (\<forall>k \<in> set ks. sm_view m k \<noteq> None \<and> unat (key_idx k) \<notin> taken) \<and> distinct (map key_idx ks)"
proof (induction ks arbitrary: taken)
  case (Cons k ks)
  then show ?case
    using Cons.IH [of "insert (unat (key_idx k)) taken"] by (auto simp: image_iff word_unat_eq_iff)
qed simp

lemma disjoint_loop_spec:
  fixes m :: "'v slotmap"
  assumes ok: "slotmap_ok m" and "\<forall>k \<in> set ks. key_ok k"
    and "\<forall>i \<in> set don. i < vlen (slots m) \<and> odd (slot_version (slot_list m ! i))" and "distinct don"
  shows "(disjoint_loop ks (fold flip_version don m) :: ('v slotmap, 'e, nat list) run) =
    (Ok (accepted m (set don) ks), fold flip_version (accepted m (set don) ks) (fold flip_version don m))"
  using assms(2-4)
proof (induction ks arbitrary: don)
  case (Cons k ks)
  let ?i = "unat (key_idx k)" and ?m = "fold flip_version don m"
  have "\<forall>i \<in> set don. i < vlen (slots m)" using Cons.prems(2) by simp
  note ff = fold_flip [OF this Cons.prems(3)]
  have odd: "odd (version_raw k)" using Cons.prems(1) by (simp add: key_ok_def)
  show ?case
  proof (cases "sm_view m k \<noteq> None \<and> ?i \<notin> set don")
    case True
    then obtain v where v: "sm_view m k = Some v" by auto
    obtain i: "?i < vlen (slots m)" and s: "slot_list m ! ?i = Slot (UValue v) (version_raw k)"
      using ok v by (rule slot_of_key)
    have s': "slot_at ?m ?i = Some (Slot (UValue v) (version_raw k))"
      using i s ff(1,2) True by (simp add: slot_at_def)
    have "fold flip_version (don @ [?i]) m = flip_version ?i ?m" by simp
    moreover have "(disjoint_loop ks (fold flip_version (don @ [?i]) m) :: ('v slotmap, 'e, nat list) run) =
        (Ok (accepted m (set (don @ [?i])) ks),
         fold flip_version (accepted m (set (don @ [?i])) ks) (fold flip_version (don @ [?i]) m))"
      using Cons.prems i s odd True by (intro Cons.IH) auto
    ultimately show ?thesis
      using True s' by (simp add: sm_contains_key_def Let_def)
  next
    case False
    have "\<not> sm_contains_key ?m k"
    proof (cases "?i < vlen (slots m)")
      case inside: True
      show ?thesis
      proof (cases "?i \<in> set don")
        case True
        then have "even (slot_version (slot_list m ! ?i) XOR 1)" using Cons.prems(2) by simp
        then have "slot_version (slot_list m ! ?i) XOR 1 \<noteq> version_raw k" using odd by metis
        then show ?thesis
          using inside True ff(1,2) by (simp add: sm_contains_key_def slot_at_def)
      next
        case out: False
        then have "\<not> sm_contains_key m k"
          using False contains_key_view [OF ok] Cons.prems(1) by auto
        then show ?thesis
          using inside out ff(1,2) by (simp add: sm_contains_key_def slot_at_def)
      qed
    next
      case False
      then show ?thesis using ff(1) by (simp add: sm_contains_key_def slot_at_def)
    qed
    then show ?thesis using False by auto
  qed
qed simp

end
