(* ===== verification/SlotProps.thy ===== *)
theory SlotProps
  imports SlotIter
begin

text \<open>
  The slot map as a store with keys of its own choosing. The interface a client relies on is the
  locale \<open>keyed_store\<close>: an insertion answers a fresh key or leaves the contents alone, a removal
  answers what was stored. The client lemmas (inserting and removing whole lists) are proved
  inside it; the interpretation discharges its laws for the model of \<^verbatim>\<open>basic.rs\<close>. Then the
  properties of the slot map.
\<close>

section \<open>Stores that choose their keys\<close>

text \<open>A client that inserts a list and stops at the first failure, and one that removes a list.\<close>

fun ins_each :: "('v \<Rightarrow> 's \<Rightarrow> ('s, 'e, 'k) run) \<Rightarrow> 'v list \<Rightarrow> 's \<Rightarrow> ('s, 'e, 'k list) run" where
  "ins_each ins [] s = (Ok [], s)"
| "ins_each ins (v # vs) s =
     and_then (ins v s) (\<lambda>k s1. and_then (ins_each ins vs s1) (\<lambda>ks s2. (Ok (k # ks), s2)))"

fun rem_each :: "('k \<Rightarrow> 's \<Rightarrow> ('s, 'e, 'v option) run) \<Rightarrow> 'k list \<Rightarrow> 's \<Rightarrow> ('s, 'e, 'v option list) run" where
  "rem_each rem [] s = (Ok [], s)"
| "rem_each rem (k # ks) s =
     and_then (rem k s) (\<lambda>x s1. and_then (rem_each rem ks s1) (\<lambda>xs s2. (Ok (x # xs), s2)))"

locale key_removal =
  fixes inv :: "'s \<Rightarrow> bool" and view :: "'s \<Rightarrow> 'k \<Rightarrow> 'v option" and valid :: "'k \<Rightarrow> bool"
    and rem :: "'k \<Rightarrow> 's \<Rightarrow> ('s, 'f, 'v option) run"
  assumes rem_law: "inv s \<Longrightarrow> valid k \<Longrightarrow>
      \<exists>s'. rem k s = (Ok (view s k), s') \<and> inv s' \<and> view s' = (view s)(k := None)"
begin

lemma rem_each_spec:
  assumes "inv s" and "\<forall>k \<in> set ks. valid k" and "distinct ks"
  shows "\<exists>s'. rem_each rem ks s = (Ok (map (view s) ks), s') \<and> inv s' \<and>
    view s' = view s |` (- set ks)"
  using assms
proof (induction ks arbitrary: s)
  case Nil
  then show ?case by (auto simp: restrict_map_def)
next
  case (Cons k ks)
  then obtain s1 where s1: "rem k s = (Ok (view s k), s1)" "inv s1" "view s1 = (view s)(k := None)"
    using rem_law [of s k] by auto
  have "\<exists>s'. rem_each rem ks s1 = (Ok (map (view s1) ks), s') \<and> inv s' \<and> view s' = view s1 |` (- set ks)"
    using Cons.prems by (intro Cons.IH s1(2)) auto
  then obtain s2 where s2: "rem_each rem ks s1 = (Ok (map (view s1) ks), s2)" "inv s2"
      "view s2 = view s1 |` (- set ks)" by blast
  have "map (view s1) ks = map (view s) ks" using s1(3) Cons.prems(3) by auto
  then show ?case
    using s1 s2 by (auto simp: restrict_map_def fun_eq_iff)
qed

end

locale keyed_store = key_removal inv view valid rem
  for inv :: "'s \<Rightarrow> bool" and view :: "'s \<Rightarrow> 'k \<Rightarrow> 'v option" and valid :: "'k \<Rightarrow> bool"
    and rem :: "'k \<Rightarrow> 's \<Rightarrow> ('s, 'f, 'v option) run" +
  fixes ins :: "'v \<Rightarrow> 's \<Rightarrow> ('s, 'e, 'k) run"
  assumes ins_law: "inv s \<Longrightarrow>
      (\<exists>k s'. ins v s = (Ok k, s') \<and> inv s' \<and> valid k \<and> view s k = None \<and> view s' = (view s)(k \<mapsto> v)) \<or>
      (\<exists>e s'. ins v s = (Err e, s') \<and> inv s' \<and> view s' = view s)"
begin

lemma ins_each_spec:
  assumes "inv s" and "ins_each ins vs s = (r, s')"
  shows "\<exists>ks. inv s' \<and> distinct ks \<and> (\<forall>k \<in> set ks. valid k \<and> view s k = None) \<and>
    length ks \<le> length vs \<and> view s' = view s ++ map_of (zip ks vs) \<and>
    (r = Ok ks \<and> length ks = length vs \<or> (\<exists>e. r = Err e))"
  using assms
proof (induction vs arbitrary: s r s')
  case Nil
  then show ?case by (intro exI [of _ "[]"]) auto
next
  case (Cons v vs)
  from ins_law [OF Cons.prems(1), of v]
  show ?case
  proof (elim disjE exE conjE)
    fix k s1
    assume step: "ins v s = (Ok k, s1)" "inv s1" "valid k" "view s k = None" "view s1 = (view s)(k \<mapsto> v)"
    obtain q s2 where tail: "ins_each ins vs s1 = (q, s2)" by (cases "ins_each ins vs s1")
    from Cons.IH [OF step(2) this] obtain ks where ks: "inv s2" "distinct ks"
      "\<forall>l \<in> set ks. valid l \<and> view s1 l = None" "length ks \<le> length vs"
      "view s2 = view s1 ++ map_of (zip ks vs)" "q = Ok ks \<and> length ks = length vs \<or> (\<exists>e. q = Err e)"
      by blast
    have fresh: "k \<notin> set ks" and old: "\<forall>l \<in> set ks. view s l = None"
      using ks(3) step(5) by (auto split: if_splits)
    have "map_of (zip ks vs) k = None"
      using fresh by (auto simp: map_of_eq_None_iff dest: set_zip_leftD)
    then have total: "view s2 = view s ++ map_of (zip (k # ks) (v # vs))"
      using ks(5) step(5) by (auto simp: map_add_def fun_eq_iff split: option.splits)
    have end_state: "s' = s2" and res: "r = Ok (k # ks) \<and> length ks = length vs \<or> (\<exists>e. r = Err e)"
      using Cons.prems(2) step(1) tail ks(6) by auto
    show ?thesis
      unfolding end_state
    proof (intro exI [of _ "k # ks"] conjI)
      show "view s2 = view s ++ map_of (zip (k # ks) (v # vs))" by (rule total)
    qed (use ks step(3,4) fresh old res in auto)
  next
    fix e s1
    assume "ins v s = (Err e, s1)" "inv s1" "view s1 = view s"
    then show ?thesis using Cons.prems(2) by (intro exI [of _ "[]"]) auto
  qed
qed

lemma ins_rem_each:
  assumes "inv s" and "ins_each ins vs s = (Ok ks, s1)"
  shows "\<exists>s2. rem_each rem ks s1 = (Ok (map Some vs), s2) \<and> inv s2 \<and> view s2 = view s"
proof -
  obtain ls where ls: "inv s1" "distinct ls" "\<forall>k \<in> set ls. valid k \<and> view s k = None"
      "view s1 = view s ++ map_of (zip ls vs)" "ks = ls" "length ls = length vs"
    using ins_each_spec [OF assms] by auto
  obtain s2 where s2: "rem_each rem ks s1 = (Ok (map (view s1) ks), s2)" "inv s2"
      "view s2 = view s1 |` (- set ks)"
    using rem_each_spec [of s1 ks] ls by auto
  have "map (view s1) ks = map Some vs"
    using ls by (auto intro!: nth_equalityI simp: map_add_def map_of_zip_nth)
  moreover have "view s2 = view s"
  proof (rule ext)
    fix k
    have "map_of (zip ls vs) k = None \<longleftrightarrow> k \<notin> set ls"
      using ls(6) by (rule map_of_zip_is_None)
    then show "view s2 k = view s k"
      using s2(3) ls(3-5) by (cases "k \<in> set ls") (auto simp: map_add_def split: option.splits)
  qed
  ultimately show ?thesis using s2 by auto
qed

end

text \<open>The slot map under the invariant, with the heap in the state.\<close>

definition sm_inv :: "'v sm_state \<Rightarrow> bool" where
  "sm_inv s \<longleftrightarrow> slotmap_ok (fst s)"

definition sm_contents :: "'v sm_state \<Rightarrow> key_data \<Rightarrow> 'v option" where
  "sm_contents s = sm_view (fst s)"

definition sm_remove_run :: "key_data \<Rightarrow> 'v sm_state \<Rightarrow> ('v sm_state, 'e, 'v option) run" where
  "sm_remove_run k s = (case s of (m, h) \<Rightarrow> case sm_remove k m of (r, m') \<Rightarrow> (r, (m', h)))"

lemma try_insert_cases [consumes 1]:
  assumes ok: "slotmap_ok m"
  obtains (inserted) k m' h' where "sm_try_insert v (m, h) = (Ok k, (m', h'))"
      and "key_ok k" and "slotmap_ok m'" and "sm_view m k = None" and "sm_view m' = (sm_view m)(k \<mapsto> v)"
      and "sm_len m' = Suc (sm_len m)"
      and "slot_list m' = (slot_list m)[unat (key_idx k) := Slot (UValue v) (version_raw k)] \<and>
           unat (key_idx k) < vlen (slots m) \<and>
           version_raw k = slot_version (slot_list m ! unat (key_idx k)) OR 1 \<and>
           (\<exists>n. slot_u (slot_list m ! unat (key_idx k)) = UNext n) \<or>
           slot_list m' = slot_list m @ [Slot (UValue v) 1] \<and> unat (key_idx k) = vlen (slots m)"
  | (failed) e h' where "sm_try_insert v (m, h) = (Err e, (m, h'))"
proof -
  let ?f = "\<lambda>_ h. (Ok v :: (unit, 'a) outcome, h) :: (unit, 'a) outcome \<times> heap"
  show ?thesis
  proof (cases rule: insert_inner_cases [OF ok, of ?f h])
    case 1
    then show ?case by simp
  next
    case (2 k w m' h1 h')
    then have "w = v" by simp
    then show ?thesis using 2 inserted [of k m' h'] by (simp add: sm_try_insert_def)
  next
    case (3 e h')
    then show ?thesis using failed [of e h'] by (simp add: sm_try_insert_def)
  next
    case (4 e k m' h1 h')
    then show ?thesis by simp
  qed
qed

interpretation slot_store: keyed_store sm_inv sm_contents key_ok sm_remove_run sm_try_insert
proof
  fix s :: "'a sm_state" and k
  assume "sm_inv s" and k: "key_ok k"
  then have ok: "slotmap_ok (fst s)" by (simp add: sm_inv_def)
  show "\<exists>s'. (sm_remove_run k s :: ('a sm_state, 'b, 'a option) run) = (Ok (sm_contents s k), s') \<and> sm_inv s' \<and>
      sm_contents s' = (sm_contents s)(k := None)"
  proof (cases "sm_view (fst s) k")
    case None
    then show ?thesis
      using ok by (cases s) (auto simp: sm_remove_run_def sm_inv_def sm_contents_def remove_absent [OF _ k])
  next
    case (Some v)
    obtain m' where "(sm_remove k (fst s) :: ('a slotmap, 'b, 'a option) run) = (Ok (Some v), m')" "slotmap_ok m'"
        "sm_view m' = (sm_view (fst s))(k := None)"
      by (rule remove_present [OF ok Some])
    then show ?thesis
      using Some by (cases s) (auto simp: sm_remove_run_def sm_inv_def sm_contents_def)
  qed
next
  fix s :: "'a sm_state" and v
  assume "sm_inv s"
  then have ok: "slotmap_ok (fst s)" by (simp add: sm_inv_def)
  show "(\<exists>k s'. sm_try_insert v s = (Ok k, s') \<and> sm_inv s' \<and> key_ok k \<and> sm_contents s k = None \<and>
        sm_contents s' = (sm_contents s)(k \<mapsto> v)) \<or>
      (\<exists>e s'. sm_try_insert v s = (Err e, s') \<and> sm_inv s' \<and> sm_contents s' = sm_contents s)"
    using ok
    by (cases s; cases rule: try_insert_cases [OF ok, of v "snd s"])
      (auto simp: sm_inv_def sm_contents_def)
qed

section \<open>A concrete map\<close>

text \<open>The sentinel, two entries and one free slot between them.\<close>

definition sample_map :: "nat slotmap" where
  "sample_map = \<lparr>slots = Vec [Slot (UNext 0) 0, Slot (UValue 10) 1, Slot (UNext 4) 2, Slot (UValue 20) 3]
       8 (Layout 16 8), free_head = 2, num_elems = 2\<rparr>"

lemma sample_map_ok [simp]: "slotmap_ok sample_map"
proof (rule slotmap_okI [where fs = "[2]"])
  show "vec_ok (slots sample_map)"
    by (simp add: sample_map_def vec_ok_def isize_max_def usize_max_def)
  show "slots_ok (slot_list sample_map) 2 2 [2]"
  proof -
    have "i \<in> set [2] \<or> slot_u (slot_list sample_map ! i) = UNext DANGLING_SENTINEL"
      if "0 < i \<and> i < vlen (slots sample_map) \<and> \<not> slot_occupied (slot_list sample_map ! i)" for i
    proof -
      from that have "i = 1 \<or> i = 2 \<or> i = 3" by (auto simp: sample_map_def)
      then show ?thesis using that by (auto simp: sample_map_def)
    qed
    moreover have "chain (slot_list sample_map) 2 [2]" by (simp add: sample_map_def)
    ultimately show ?thesis
      unfolding slots_ok_def by (auto simp: sample_map_def MAX_SLOTS_LEN_eq)
  qed
qed (simp_all add: sample_map_def)

lemma sample_map_view:
  "sm_view sample_map (KeyData 1 1) = Some 10" "sm_view sample_map (KeyData 3 3) = Some 20"
  "sm_view sample_map (KeyData 2 3) = None"
  by (simp_all add: sample_map_def sm_view_def lview_def Let_def)

lemma sample_keys [simp]: "key_ok (KeyData 1 1)" "key_ok (KeyData 3 3)" "key_ok (KeyData 2 3)"
  by (simp_all add: key_ok_def)

section \<open>Properties\<close>

text \<open>A new slot map satisfies the invariant, holds nothing, and has room for the capacity asked
  for; construction answers a map or an error and never panics.\<close>

lemma slotmap_new_spec:
  assumes "0 < lalign l"
    and "sm_try_with_capacity_and_key l c h = (r, h' :: heap)"
  shows "(\<exists>m :: 'v slotmap. r = Ok m \<and> slotmap_ok m \<and> sm_view m = Map.empty \<and> sm_len m = 0 \<and>
      c \<le> sm_capacity m) \<or> (\<exists>e. r = Err e)"
proof (cases "MAX_SLOTS_LEN - 1 \<le> c")
  case True
  then show ?thesis using assms(2) by (auto simp: sm_try_with_capacity_and_key_def)
next
  case False
  then have add: "checked_add c 1 = Some (c + 1)"
    by (simp add: MAX_SLOTS_LEN_eq usize_max_def)
  have ok: "vec_ok (vec_new l :: 'v slot vec)" using assms(1) by simp
  show ?thesis
  proof (cases rule: vec_try_reserve_cases [OF ok, of "c + 1" h])
    case (1 v h1)
    then have "(vec_try_with_capacity l (c + 1) h :: (try_reserve_error, 'v slot vec) outcome \<times> heap) = (Ok v, h1)"
      by (simp add: vec_try_with_capacity_def into_vec_def)
    moreover have "vec_try_push (Slot (UNext 0) 0) (v, h1) = (Ok (), (with_items [Slot (UNext 0) 0] v, h1))"
      using 1 by (simp add: vec_try_push_def vec_try_reserve_room vec_push_room)
    moreover define m :: "'v slotmap" where
      "m = \<lparr>slots = with_items [Slot (UNext 0) 0] v, free_head = 1, num_elems = 0\<rparr>"
    ultimately have "r = Ok m"
      using assms(2) False unfolding sm_try_with_capacity_and_key_def add by simp
    moreover have mok: "slotmap_ok m"
      by (rule slotmap_okI [where fs = "[]" and fh = 1 and c = 0])
        (use 1 in \<open>simp_all add: m_def vec_ok_with_items slots_ok_def MAX_SLOTS_LEN_eq\<close>)
    moreover have "sm_view m = Map.empty" "sm_len m = 0"
      using all_vacant [OF mok] by (simp_all add: vacant_upto_def m_def)
    ultimately show ?thesis using 1 by (auto simp: sm_capacity_def m_def)
  next
    case (2 e h1)
    then have "(vec_try_with_capacity l (c + 1) h :: (try_reserve_error, 'v slot vec) outcome \<times> heap) = (Err e, h1)"
      by (simp add: vec_try_with_capacity_def into_vec_def)
    then show ?thesis
      using assms(2) False unfolding sm_try_with_capacity_and_key_def add by auto
  qed
qed

text \<open>Claim C3.
  Insertion with a closure: on success a fresh, valid key that was bound to nothing is bound to the
  closure's value and every other entry is untouched; a failed reservation leaves the very same
  map; a failing closure leaves the same slots, free list and count. Nothing panics and no union
  field is misread.\<close>

theorem slotmap_insert_spec:
  assumes "slotmap_ok m" and "\<forall>k h. clean (fst (f k h))"
    and "sm_try_insert_with_key f (m, h) = (r, (m', h'))"
  shows "slotmap_ok m' \<and>
    ((\<exists>k v h1. r = Ok k \<and> f k h1 = (Ok v, h') \<and> key_ok k \<and> sm_view m k = None \<and>
        sm_view m' = (sm_view m)(k \<mapsto> v) \<and> sm_len m' = sm_len m + 1) \<or>
     (\<exists>e. r = Err (InsReserve e) \<and> m' = m) \<or>
     (\<exists>e k h1. r = Err (InsClosure e) \<and> f k h1 = (Err e, h') \<and> same_contents m' m))"
proof -
  show ?thesis
  proof (cases rule: insert_inner_cases [where f = f and h = h, OF assms(1)])
    case (1 k h)
    then show ?case using assms(2) by simp
  next
    case (2 k v m1 h1 h2)
    then show ?thesis using assms(3) by (auto simp: sm_try_insert_with_key_def)
  next
    case (3 e h2)
    then show ?thesis using assms(1,3) by (auto simp: sm_try_insert_with_key_def)
  next
    case (4 e k m1 h1 h2)
    then show ?thesis using assms(3) by (auto simp: sm_try_insert_with_key_def)
  qed
qed

theorem slotmap_insert_spec_witness:
  "slotmap_ok (fst (snd (sm_try_insert_with_key (\<lambda>k h. (Ok 30 :: (unit, nat) outcome, h))
     (sample_map, heap_with policy_nothing))))"
proof -
  let ?f = "\<lambda>k h. (Ok 30 :: (unit, nat) outcome, h :: heap)"
  let ?r = "sm_try_insert_with_key ?f (sample_map, heap_with policy_nothing)"
  show ?thesis
    using slotmap_insert_spec [of sample_map ?f "heap_with policy_nothing" "fst ?r" "fst (snd ?r)" "snd (snd ?r)"]
    by simp
qed

text \<open>Claim C4.
  Access and removal implement the partial map: for every key that safe code can hold, \<open>get\<close> and
  \<open>contains_key\<close> answer the abstract contents, \<open>remove\<close> returns exactly the stored value, deletes
  only that key, decrements the length when it removed something, and keeps the invariant.\<close>

theorem slotmap_access_spec:
  fixes m :: "'v slotmap"
  assumes "slotmap_ok m" and "key_ok k"
  shows "sm_get m k = Ok (sm_view m k) \<and> (sm_contains_key m k \<longleftrightarrow> sm_view m k \<noteq> None) \<and>
    (\<exists>m'. (sm_remove k m :: ('v slotmap, 'e, 'v option) run) = (Ok (sm_view m k), m') \<and> slotmap_ok m' \<and>
      sm_view m' = (sm_view m)(k := None) \<and>
      sm_len m = sm_len m' + (if sm_view m k = None then 0 else 1))"
proof (intro conjI)
  show "sm_get m k = Ok (sm_view m k)" by (rule get_view [OF assms])
  show "sm_contains_key m k \<longleftrightarrow> sm_view m k \<noteq> None" by (rule contains_key_view [OF assms])
  show "\<exists>m'. (sm_remove k m :: ('v slotmap, 'e, 'v option) run) = (Ok (sm_view m k), m') \<and> slotmap_ok m' \<and>
      sm_view m' = (sm_view m)(k := None) \<and> sm_len m = sm_len m' + (if sm_view m k = None then 0 else 1)"
  proof (cases "sm_view m k")
    case None
    then have "(sm_view m)(k := None) = sm_view m" by auto
    then show ?thesis using assms(1) None by (simp add: remove_absent [OF assms None])
  next
    case (Some v)
    obtain m' where "(sm_remove k m :: ('v slotmap, 'e, 'v option) run) = (Ok (Some v), m')" "slotmap_ok m'"
        "sm_view m' = (sm_view m)(k := None)" "Suc (sm_len m') = sm_len m"
      by (rule remove_present [OF assms(1) Some])
    then show ?thesis using Some by auto
  qed
qed

theorem slotmap_access_spec_witness:
  "sm_get sample_map (KeyData 3 3) = Ok (Some 20) \<and> sm_get sample_map (KeyData 2 3) = Ok None \<and>
   (\<exists>m'. sm_remove (KeyData 3 3) sample_map = (Ok (Some 20), m') \<and> slotmap_ok m')"
  using slotmap_access_spec [OF sample_map_ok sample_keys(2)] slotmap_access_spec [OF sample_map_ok sample_keys(3)]
  by (auto simp: sample_map_view)

text \<open>A store as a client sees it: inserting a list of values under the keys the map chooses and then
  removing those keys gives back the values in order and restores the contents, whatever the
  allocator did in between.\<close>

lemma slotmap_insert_remove_each:
  fixes s :: "'v sm_state"
  assumes "sm_inv s" and "ins_each sm_try_insert vs s = (Ok ks, s1)"
  shows "\<exists>s2. (rem_each sm_remove_run ks s1 :: ('v sm_state, 'e, 'v option list) run) = (Ok (map Some vs), s2) \<and>
    sm_inv s2 \<and> sm_contents s2 = sm_contents s"
  by (rule slot_store.ins_rem_each [OF assms])

text \<open>Detaching takes the value out and keeps the slot reserved: no other operation can reuse it before
  \<open>reattach\<close>, which brings back exactly this key, with the new value, and restores the length.
  Reattaching a key that is not detached panics and changes nothing.\<close>

lemma slotmap_detach_reattach:
  fixes m :: "'v slotmap"
  assumes "slotmap_ok m" and "key_ok k"
  shows "(case sm_view m k of
      None \<Rightarrow> (sm_detach k m :: ('v slotmap, 'e, 'v option) run) = (Ok None, m)
    | Some v \<Rightarrow> \<exists>m1. (sm_detach k m :: ('v slotmap, 'e, 'v option) run) = (Ok (Some v), m1) \<and>
        slotmap_ok m1 \<and> sm_view m1 = (sm_view m)(k := None) \<and> Suc (sm_len m1) = sm_len m \<and> detached m1 k) \<and>
    (if detached m k then
       \<exists>m2. (sm_reattach k w m :: ('v slotmap, 'e, unit) run) = (Ok (), m2) \<and> slotmap_ok m2 \<and>
         sm_view m2 = (sm_view m)(k \<mapsto> w) \<and> sm_len m2 = Suc (sm_len m)
     else (sm_reattach k w m :: ('v slotmap, 'e, unit) run) = (Panic ''key is not detached'', m))"
proof (rule conjI)
  show "case sm_view m k of
      None \<Rightarrow> (sm_detach k m :: ('v slotmap, 'e, 'v option) run) = (Ok None, m)
    | Some v \<Rightarrow> \<exists>m1. (sm_detach k m :: ('v slotmap, 'e, 'v option) run) = (Ok (Some v), m1) \<and>
        slotmap_ok m1 \<and> sm_view m1 = (sm_view m)(k := None) \<and> Suc (sm_len m1) = sm_len m \<and> detached m1 k"
  proof (cases "sm_view m k")
    case None
    then show ?thesis by (simp add: detach_absent [OF assms None])
  next
    case (Some v)
    obtain m1 where "(sm_detach k m :: ('v slotmap, 'e, 'v option) run) = (Ok (Some v), m1)" "slotmap_ok m1"
      "sm_view m1 = (sm_view m)(k := None)" "Suc (sm_len m1) = sm_len m"
      "slot_list m1 = (slot_list m)[unat (key_idx k) := Slot (UNext DANGLING_SENTINEL) (version_raw k + 1)]"
      by (rule detach_present [OF assms(1) Some])
    moreover have "unat (key_idx k) < vlen (slots m)" by (rule slot_of_key [OF assms(1) Some])
    ultimately show ?thesis using Some by (auto simp: detached_def slot_at_def)
  qed
  show "if detached m k then
       \<exists>m2. (sm_reattach k w m :: ('v slotmap, 'e, unit) run) = (Ok (), m2) \<and> slotmap_ok m2 \<and>
         sm_view m2 = (sm_view m)(k \<mapsto> w) \<and> sm_len m2 = Suc (sm_len m)
     else (sm_reattach k w m :: ('v slotmap, 'e, unit) run) = (Panic ''key is not detached'', m)"
  proof (cases "detached m k")
    case True
    obtain m2 where "(sm_reattach k w m :: ('v slotmap, 'e, unit) run) = (Ok (), m2)" "slotmap_ok m2"
      "sm_view m2 = (sm_view m)(k \<mapsto> w)" "sm_len m2 = Suc (sm_len m)"
      by (rule reattach_detached [OF assms True])
    then show ?thesis using True by auto
  next
    case False
    then show ?thesis by (simp add: reattach_not_detached [OF assms False])
  qed
qed

text \<open>Claim C12.
  \<open>get_disjoint_mut\<close> answers references exactly when all keys are present and no two share a slot;
  the references then point to different slots, and the version bits it flips while checking are
  all restored: the map is left exactly as it was, also when it answers \<open>None\<close>.\<close>

theorem slotmap_disjoint_spec:
  fixes m :: "'v slotmap"
  assumes "slotmap_ok m" and "\<forall>k \<in> set ks. key_ok k"
  shows "\<exists>r. (sm_get_disjoint_mut ks m :: ('v slotmap, 'e, nat list option) run) = (Ok r, m) \<and>
    (r \<noteq> None \<longleftrightarrow> (\<forall>k \<in> set ks. sm_view m k \<noteq> None) \<and> distinct (map key_idx ks)) \<and>
    (\<forall>ptrs. r = Some ptrs \<longrightarrow> ptrs = map (\<lambda>k. unat (key_idx k)) ks \<and> distinct ptrs)"
proof -
  let ?p = "accepted m {} ks"
  have loop: "(disjoint_loop ks m :: ('v slotmap, 'e, nat list) run) = (Ok ?p, fold flip_version ?p m)"
    using disjoint_loop_spec [OF assms, of "[]"] by simp
  note acc = accepted_props [OF assms(1), of "{}" ks]
  have undone: "fold flip_version ?p (fold flip_version ?p m) = m"
    by (rule fold_flip_twice [OF acc(3) acc(1)])
  have run: "(sm_get_disjoint_mut ks m :: ('v slotmap, 'e, nat list option) run) =
      (Ok (if length ?p = length ks then Some ?p else None), m)"
    using undone by (simp add: sm_get_disjoint_mut_def loop flip: acc(4))
  have "?p = map (\<lambda>k. unat (key_idx k)) ks" if "length ?p = length ks"
    using acc(4) that by simp
  then show ?thesis
    using run acc(1) accepted_all [of m "{}" ks] by auto
qed

theorem slotmap_disjoint_spec_witness:
  "\<exists>r. (sm_get_disjoint_mut [KeyData 1 1, KeyData 3 3] sample_map :: (nat slotmap, unit, nat list option) run)
     = (Ok r, sample_map) \<and> r \<noteq> None"
  using slotmap_disjoint_spec [OF sample_map_ok, of "[KeyData 1 1, KeyData 3 3]", where 'e = unit]
  by (auto simp: sample_map_view)

text \<open>\<open>retain\<close> with a closure whose answers do not depend on its own state keeps exactly the entries it
  accepts, each with the value it wrote, and neither panics nor touches another entry, although
  it edits the free list under the running loop.\<close>

lemma slotmap_retain_spec:
  fixes m :: "'v slotmap" and f :: "('f, 'v) retainer"
  assumes "slotmap_ok m" and "\<forall>k v st. fst (f k v st) = g k v"
  shows "\<exists>m' st'. (sm_retain f st m :: ('v slotmap, 'e, 'f) run) = (Ok st', m') \<and> slotmap_ok m' \<and>
    (\<forall>k. sm_view m' k = retained g k (sm_view m k))"
proof -
  have pure: "\<And>k v st. fst (f k v st) = g k v" using assms(2) by blast
  obtain m' st' where m': "(sm_retain f st m :: ('v slotmap, 'e, 'f) run) = (Ok st', m')" "slotmap_ok m'"
      "\<forall>k. sm_view m' k = (if unat (key_idx k) \<in> set [1..<vlen (slots m)] then retained g k (sm_view m k)
        else sm_view m k)"
    using retain_loop_spec [where f = f and g = g and m = m and js = "[1..<vlen (slots m)]" and st = st and 'e = 'e,
        OF pure assms(1)]
    by (auto simp: sm_retain_def)
  have "sm_view m' k = retained g k (sm_view m k)" for k
  proof (cases "sm_view m k")
    case None
    then show ?thesis using m'(3) by (simp add: retained_def)
  next
    case (Some v)
    obtain "unat (key_idx k) < vlen (slots m)" "0 < unat (key_idx k)"
      by (rule slot_of_key [OF assms(1) Some])
    then show ?thesis using m'(3) by auto
  qed
  then show ?thesis using m' by blast
qed

text \<open>The iterators: calling \<open>next\<close> \<open>len\<close> times yields the entries, each present key exactly once with
  its value, in slot order; the remaining count is exact, so its \<open>expect\<close> never fires, and the
  next call ends the iteration.\<close>

lemma slotmap_iter_spec:
  fixes m :: "'v slotmap"
  assumes "slotmap_ok m"
  shows "\<exists>it. (next_times (sm_len m) (sm_iter m) :: ('e, (key_data \<times> 'v) option) outcome list \<times> 'v slot_iter)
      = (map (\<lambda>e. Ok (Some e)) (entries m), it) \<and>
    sm_iter_size_hint it = (0, Some 0) \<and>
    (fst (sm_iter_next it) :: ('e, (key_data \<times> 'v) option) outcome) = Ok None \<and>
    distinct (map fst (entries m)) \<and> map_of (entries m) = sm_view m"
proof -
  obtain fs where sok: "slots_ok (slot_list m) (unat (free_head m)) (unat (num_elems m)) fs"
    using assms by (rule slotmap_okE)
  let ?xs = "drop 1 (List.enumerate 0 (slot_list m))"
  have "\<forall>(i, s) \<in> set ?xs. slot_wf s"
    using sok by (auto simp: slots_ok_def in_set_enumerate_eq dest!: in_set_dropD)
  from next_times_entries [OF this, where 'e = 'e] obtain ys where
    ys: "(next_times (sm_len m) (sm_iter m) :: ('e, (key_data \<times> 'v) option) outcome list \<times> 'v slot_iter)
      = (map (\<lambda>e. Ok (Some e)) (entries m), SlotIter ys 0)" "entries_of ys = []" "\<forall>(i, s) \<in> set ys. slot_wf s"
    using entries_length [OF assms] by (auto simp: sm_iter_def entries_def)
  have "(fst (sm_iter_next (SlotIter ys 0)) :: ('e, (key_data \<times> 'v) option) outcome) = Ok None"
    using iter_scan_entries [OF ys(3), of 0, where 'e = 'e] ys(2) by (auto simp: sm_iter_next_def)
  moreover have "map_of (entries m) = sm_view m"
  proof (rule ext)
    fix k
    have "sm_view m k = None" if "unat (key_idx k) < 1"
      using that slot_of_key [OF assms, of k] by (metis less_one not_Some_eq not_less_zero)
    then show "map_of (entries m) k = sm_view m k"
      using entries_from_map(1) [OF assms, of 1 k] by (auto simp: entries_from_one)
  qed
  ultimately show ?thesis
    using ys entries_from_map(3) [OF assms, of 1]
    by (auto simp: sm_iter_size_hint_def entries_from_one)
qed

text \<open>Draining yields every entry once and, when the iterator is dropped, leaves an empty map that
  still satisfies the invariant and keeps its slots; \<open>clear\<close> is a drain dropped at once.\<close>

lemma slotmap_drain_spec:
  fixes m :: "'v slotmap"
  assumes "slotmap_ok m"
  shows "\<exists>m'. (drain_rest (fst (sm_drain m)) (snd (sm_drain m)) :: ('e, (key_data \<times> 'v) list) outcome \<times> 'v slotmap)
      = (Ok (entries m), m') \<and> (sm_clear m :: ('e, unit) outcome \<times> 'v slotmap) = (Ok (), m') \<and>
    slotmap_ok m' \<and> sm_view m' = Map.empty \<and> sm_len m' = 0 \<and> vlen (slots m') = vlen (slots m)"
proof -
  have "0 < (1 :: nat)" by simp
  from drain_rest_spec [OF assms this vacant_upto_sentinel [OF assms], where 'e = 'e] obtain m' where
    m': "(drain_rest m 1 :: ('e, (key_data \<times> 'v) list) outcome \<times> 'v slotmap) = (Ok (entries m), m')"
      "slotmap_ok m'" "vlen (slots m') = vlen (slots m)" "vacant_upto m' (vlen (slots m'))"
    by (auto simp: entries_from_one)
  then show ?thesis
    using all_vacant [OF m'(2,4)] by (auto simp: sm_drain_def sm_clear_def)
qed

end
