(* ===== verification/SlotStale.thy ===== *)
theory SlotStale
  imports SlotProps
begin

text \<open>
  Slot maps over time: how one slot moves under any operation on single keys, why a removed key
  stays dead, and what a reservation promises to later insertions.
\<close>

section \<open>Operations as steps\<close>

datatype 'v sm_op =
    OpInsert 'v
  | OpRemove key_data
  | OpDetach key_data
  | OpReattach key_data 'v
  | OpWrite key_data 'v
  | OpReserve nat

fun sm_step :: "'v sm_op \<Rightarrow> 'v sm_state \<Rightarrow> 'v sm_state" where
  "sm_step (OpInsert v) s = snd (sm_try_insert v s)"
| "sm_step (OpRemove k) (m, h) = (snd (sm_remove k m :: ('v slotmap, unit, 'v option) run), h)"
| "sm_step (OpDetach k) (m, h) = (snd (sm_detach k m :: ('v slotmap, unit, 'v option) run), h)"
| "sm_step (OpReattach k v) (m, h) = (snd (sm_reattach k v m :: ('v slotmap, unit, unit) run), h)"
| "sm_step (OpWrite k v) (m, h) = (snd (sm_get_mut_set k v m :: ('v slotmap, unit, 'v option) run), h)"
| "sm_step (OpReserve n) s = snd (sm_try_reserve n s)"

fun op_ok :: "'v sm_op \<Rightarrow> bool" where
  "op_ok (OpRemove k) = key_ok k"
| "op_ok (OpDetach k) = key_ok k"
| "op_ok (OpReattach k v) = key_ok k"
| "op_ok (OpWrite k v) = key_ok k"
| "op_ok _ = True"

text \<open>The moves of one slot.\<close>

inductive slot_move :: "'v slot \<Rightarrow> 'v slot \<Rightarrow> bool" where
  stay: "slot_move s s"
| overwrite: "slot_move (Slot (UValue v) w) (Slot (UValue v') w)"
| fill: "slot_move (Slot (UNext n) w) (Slot (UValue v) (w OR 1))"
| release: "n \<noteq> DANGLING_SENTINEL \<Longrightarrow> slot_move (Slot (UValue v) w) (Slot (UNext n) (w + 1))"
| park: "slot_move (Slot (UValue v) w) (Slot (UNext DANGLING_SENTINEL) (w + 1))"
| unpark: "slot_move (Slot (UNext DANGLING_SENTINEL) w) (Slot (UValue v) (w - 1))"

definition map_moves :: "'v slotmap \<Rightarrow> 'v slotmap \<Rightarrow> bool" where
  "map_moves m m' \<longleftrightarrow> vlen (slots m) \<le> vlen (slots m') \<and>
     (\<forall>i < vlen (slots m). slot_move (slot_list m ! i) (slot_list m' ! i))"

lemma map_moves_refl [simp]: "slot_list m' = slot_list m \<Longrightarrow> map_moves m m'"
  by (simp add: map_moves_def slot_move.stay)

lemma map_moves_upd:
  assumes "slot_list m' = (slot_list m)[i := t]" and "i < vlen (slots m)" and "slot_move (slot_list m ! i) t"
  shows "map_moves m m'"
  using assms by (auto simp: map_moves_def nth_list_update slot_move.stay)

lemma free_head_not_dangling: "slotmap_ok m \<Longrightarrow> free_head m \<noteq> DANGLING_SENTINEL"
proof
  assume ok: "slotmap_ok m" and d: "free_head m = DANGLING_SENTINEL"
  obtain fs where sok: "slots_ok (slot_list m) (unat (free_head m)) (unat (num_elems m)) fs"
    using ok by (rule slotmap_okE)
  show False using slots_ok_head [OF sok] slots_ok_max [OF sok] d by simp
qed

lemma insert_moves:
  assumes ok: "slotmap_ok m"
  shows "slotmap_ok (fst (snd (sm_try_insert v (m, h)))) \<and> map_moves m (fst (snd (sm_try_insert v (m, h))))"
proof (cases rule: try_insert_cases [OF ok, of v h])
  case (1 k m' h')
  have "map_moves m m'"
    using 1(7)
  proof (elim disjE conjE exE)
    fix n
    assume upd: "slot_list m' = (slot_list m)[unat (key_idx k) := Slot (UValue v) (version_raw k)]"
      and i: "unat (key_idx k) < vlen (slots m)"
      and w: "version_raw k = slot_version (slot_list m ! unat (key_idx k)) OR 1"
      and n: "slot_u (slot_list m ! unat (key_idx k)) = UNext n"
    show ?thesis
      using slot_move.fill [of n "slot_version (slot_list m ! unat (key_idx k))" v] n w
      by (intro map_moves_upd [OF upd i]) (cases "slot_list m ! unat (key_idx k)"; simp)
  next
    assume "slot_list m' = slot_list m @ [Slot (UValue v) 1]"
    then show ?thesis by (auto simp: map_moves_def nth_append slot_move.stay)
  qed
  then show ?thesis using 1 by simp
next
  case (2 e h')
  then show ?thesis using ok by simp
qed

lemma step_moves:
  assumes ok: "slotmap_ok m" and op: "op_ok op"
  shows "slotmap_ok (fst (sm_step op (m, h))) \<and> map_moves m (fst (sm_step op (m, h)))"
proof (cases op)
  case (OpInsert v)
  then show ?thesis using insert_moves [OF ok, of v h] by simp
next
  case (OpReserve n)
  then show ?thesis
    by (cases rule: reserve_cases [OF ok, of n h]) (use ok in \<open>auto simp: same_contents_def\<close>)
next
  case (OpRemove k)
  show ?thesis
  proof (cases "sm_view m k")
    case None
    then show ?thesis using OpRemove op ok by (simp add: remove_absent)
  next
    case (Some v)
    obtain i: "unat (key_idx k) < vlen (slots m)" and s: "slot_list m ! unat (key_idx k) = Slot (UValue v) (version_raw k)"
      by (rule slot_of_key [OF ok Some])
    obtain m' where m': "(sm_remove k m :: ('a slotmap, unit, 'a option) run) = (Ok (Some v), m')" "slotmap_ok m'"
      "slot_list m' = (slot_list m)[unat (key_idx k) := Slot (UNext (free_head m)) (version_raw k + 1)]"
      by (rule remove_present [OF ok Some])
    have "map_moves m m'"
      by (rule map_moves_upd [OF m'(3) i]) (simp add: s slot_move.release free_head_not_dangling [OF ok])
    then show ?thesis using m' OpRemove by simp
  qed
next
  case (OpDetach k)
  show ?thesis
  proof (cases "sm_view m k")
    case None
    then show ?thesis using OpDetach op ok by (simp add: detach_absent)
  next
    case (Some v)
    obtain i: "unat (key_idx k) < vlen (slots m)" and s: "slot_list m ! unat (key_idx k) = Slot (UValue v) (version_raw k)"
      by (rule slot_of_key [OF ok Some])
    obtain m' where m': "(sm_detach k m :: ('a slotmap, unit, 'a option) run) = (Ok (Some v), m')" "slotmap_ok m'"
      "slot_list m' = (slot_list m)[unat (key_idx k) := Slot (UNext DANGLING_SENTINEL) (version_raw k + 1)]"
      by (rule detach_present [OF ok Some])
    have "map_moves m m'" by (rule map_moves_upd [OF m'(3) i]) (simp add: s slot_move.park)
    then show ?thesis using m' OpDetach by simp
  qed
next
  case (OpReattach k v)
  then have k: "key_ok k" using op by simp
  show ?thesis
  proof (cases "detached m k")
    case True
    obtain m' where m': "(sm_reattach k v m :: ('a slotmap, unit, unit) run) = (Ok (), m')" "slotmap_ok m'"
      "slot_list m' = (slot_list m)[unat (key_idx k) := Slot (UValue v) (version_raw k)]"
      by (rule reattach_detached [OF ok k True])
    have i: "unat (key_idx k) < vlen (slots m)"
      and s: "slot_list m ! unat (key_idx k) = Slot (UNext DANGLING_SENTINEL) (version_raw k + 1)"
      using True by (auto simp: detached_def slot_at_def split: if_splits)
    have "map_moves m m'"
      using slot_move.unpark [of "version_raw k + 1" v]
      by (intro map_moves_upd [OF m'(3) i]) (simp add: s)
    then show ?thesis using m' OpReattach by simp
  next
    case False
    then show ?thesis using OpReattach ok by (simp add: reattach_not_detached [OF ok k])
  qed
next
  case (OpWrite k v)
  then have k: "key_ok k" using op by simp
  show ?thesis
  proof (cases "sm_view m k")
    case None
    then have "(sm_get m k :: (unit, 'a option) outcome) = Ok None" using get_view [OF ok k] by simp
    then have "(sm_get_mut_set k v m :: ('a slotmap, unit, 'a option) run) = (Ok None, m)"
      by (cases "slot_u (slot_list m ! unat (key_idx k))")
        (auto simp: sm_get_def sm_get_mut_set_def slot_at_def split: if_splits)
    then show ?thesis using OpWrite ok by simp
  next
    case (Some old)
    obtain i: "unat (key_idx k) < vlen (slots m)" and s: "slot_list m ! unat (key_idx k) = Slot (UValue old) (version_raw k)"
      by (rule slot_of_key [OF ok Some])
    have run: "(sm_get_mut_set k v m :: ('a slotmap, unit, 'a option) run) =
        (Ok (Some old), set_slot (unat (key_idx k)) (Slot (UValue v) (version_raw k)) m)"
      using i s by (simp add: sm_get_mut_set_def slot_at_def)
    obtain m' where m': "(sm_get_mut_set k v m :: ('a slotmap, unit, 'a option) run) = (Ok (Some old), m')" "slotmap_ok m'"
      by (rule get_mut_present [OF ok Some])
    have "slot_move (slot_list m ! unat (key_idx k)) (Slot (UValue v) (version_raw k))"
      unfolding s by (rule slot_move.overwrite)
    then have "map_moves m (set_slot (unat (key_idx k)) (Slot (UValue v) (version_raw k)) m)"
      by (intro map_moves_upd [OF _ i]) simp_all
    then show ?thesis using m' run OpWrite by simp
  qed
qed

section \<open>Stale keys\<close>

text \<open>
  How far the version of a slot has moved past a key, counted modulo \<open>2 ^ 32\<close>: at least one step,
  at most as many as there were operations, and not a slot parked right after the key was removed,
  the only one that a \<open>reattach\<close> could bring back to the key.
\<close>

definition past_key :: "key_data \<Rightarrow> nat \<Rightarrow> 'v slot \<Rightarrow> bool" where
  "past_key k n s \<longleftrightarrow> 1 \<le> unat (slot_version s - version_raw k) \<and> unat (slot_version s - version_raw k) \<le> n \<and>
     (slot_u s = UNext DANGLING_SENTINEL \<longrightarrow> unat (slot_version s - version_raw k) \<noteq> 1)"

lemma past_key_move:
  assumes "past_key k n s" and "slot_move s t" and "slot_wf s" and "n + 1 < 2 ^ 32"
  shows "past_key k (n + 1) t"
proof -
  let ?d = "slot_version s - version_raw k"
  have d: "1 \<le> unat ?d" "unat ?d \<le> n" using assms(1) by (simp_all add: past_key_def)
  have up: "unat (slot_version s + 1 - version_raw k) = unat ?d + 1"
  proof -
    have eq: "slot_version s + 1 - version_raw k = ?d + 1" by simp
    show ?thesis unfolding eq using unat_plus_one [of ?d] d assms(4) by simp
  qed
  have down: "unat (slot_version s - 1 - version_raw k) = unat ?d - 1"
  proof -
    have eq: "slot_version s - 1 - version_raw k = ?d - 1" by simp
    show ?thesis unfolding eq using unat_minus_one [of ?d] d by simp
  qed
  show ?thesis
    using assms(2)
  proof cases
    case (fill n' w v)
    then have "w OR 1 = w + 1" using assms(3) by (simp add: or_one_eq)
    then show ?thesis using fill d up by (simp add: past_key_def)
  next
    case (unpark w v)
    then show ?thesis using assms(1) d down by (auto simp: past_key_def)
  qed (use assms(1) d up in \<open>auto simp: past_key_def\<close>)
qed

lemma past_key_run:
  assumes "slotmap_ok m" and "\<forall>op \<in> set ops. op_ok op" and "i < vlen (slots m)"
    and "past_key k n (slot_list m ! i)" and "n + length ops < 2 ^ 32"
  shows "slotmap_ok (fst (fold sm_step ops (m, h))) \<and>
    i < vlen (slots (fst (fold sm_step ops (m, h)))) \<and>
    past_key k (n + length ops) (slot_list (fst (fold sm_step ops (m, h))) ! i)"
  using assms
proof (induction ops arbitrary: m h n)
  case (Cons op ops)
  obtain m1 h1 where step: "sm_step op (m, h) = (m1, h1)" by (cases "sm_step op (m, h)")
  have m1: "slotmap_ok m1" "map_moves m m1"
    using step_moves [OF Cons.prems(1), of op h] Cons.prems(2) step by auto
  have i: "i < vlen (slots m1)" using m1(2) Cons.prems(3) by (simp add: map_moves_def)
  have "past_key k (n + 1) (slot_list m1 ! i)"
    using m1(2) Cons.prems(3-5) slotmap_wf [OF Cons.prems(1,3)]
    by (intro past_key_move [of k n "slot_list m ! i"]) (simp_all add: map_moves_def)
  then show ?case
    using Cons.IH [OF m1(1) _ i, of "n + 1" h1] Cons.prems(2,5) step by simp
qed simp

text \<open>Claim C5.
  A removed key stays dead: after \<open>remove\<close> returned its value, no sequence of fewer than
  \<open>2 ^ 32 - 2\<close> insertions, removals, detachments, reattachments (of any key, this one included),
  writes and reservations, succeeding or failing, makes the old key valid again.\<close>

theorem slotmap_stale_key:
  fixes m :: "'v slotmap"
  assumes "slotmap_ok m" and "sm_view m k = Some v"
    and "(sm_remove k m :: ('v slotmap, unit, 'v option) run) = (r, m1)"
    and "\<forall>op \<in> set ops. op_ok op" and "length ops < 2 ^ 32 - 2"
  shows "sm_view (fst (fold sm_step ops (m1, h))) k = None"
proof -
  obtain i: "unat (key_idx k) < vlen (slots m)" by (rule slot_of_key [OF assms(1,2)])
  obtain m' where m': "(sm_remove k m :: ('v slotmap, unit, 'v option) run) = (Ok (Some v), m')" "slotmap_ok m'"
    "slot_list m' = (slot_list m)[unat (key_idx k) := Slot (UNext (free_head m)) (version_raw k + 1)]"
    by (rule remove_present [OF assms(1,2)])
  then have m1: "m1 = m'" using assms(3) by simp
  have "past_key k 1 (slot_list m1 ! unat (key_idx k))"
    using m' m1 i free_head_not_dangling [OF assms(1)] by (simp add: past_key_def)
  moreover have "unat (key_idx k) < vlen (slots m1)" using m' m1 i by simp
  ultimately have "past_key k (1 + length ops) (slot_list (fst (fold sm_step ops (m1, h))) ! unat (key_idx k))"
    using past_key_run [of m1 ops "unat (key_idx k)" k 1 h] assms(4,5) m' m1 by auto
  then show ?thesis by (auto simp: past_key_def sm_view_def lview_def Let_def)
qed

theorem slotmap_stale_key_witness:
  "sm_view (fst (fold sm_step [OpInsert 5, OpReattach (KeyData 3 3) 6]
     (snd (sm_remove (KeyData 3 3) sample_map :: (nat slotmap, unit, nat option) run), heap_with policy_nothing)))
     (KeyData 3 3) = None"
  using slotmap_stale_key [OF sample_map_ok sample_map_view(2) prod.collapse [symmetric],
      of "[OpInsert 5, OpReattach (KeyData 3 3) 6]" "heap_with policy_nothing"]
  by simp

section \<open>Reservations\<close>

text \<open>No slot is parked: every vacant slot is on the free list.\<close>

definition none_detached :: "'v slotmap \<Rightarrow> bool" where
  "none_detached m \<longleftrightarrow> (\<forall>s \<in> set (slot_list m). slot_u s \<noteq> UNext DANGLING_SENTINEL)"

lemma full_length:
  assumes ok: "slotmap_ok m" and none: "none_detached m" and fh: "\<not> unat (free_head m) < vlen (slots m)"
  shows "vlen (slots m) = Suc (sm_len m)"
proof -
  obtain fs where sok: "slots_ok (slot_list m) (unat (free_head m)) (unat (num_elems m)) fs"
    using ok by (rule slotmap_okE)
  have fs: "fs = []" using sok fh by (cases fs) (auto simp: slots_ok_def)
  obtain s ss where ss: "slot_list m = s # ss" using sok by (cases "slot_list m") (auto simp: slots_ok_def)
  have "odd (slot_version (slot_list m ! Suc i))" if "i < length ss" for i
    using that sok none fs ss nth_mem [of "Suc i" "slot_list m"]
    by (auto simp: slots_ok_def none_detached_def)
  then have "\<forall>t \<in> set ss. slot_occupied t" using ss by (auto simp: in_set_conv_nth)
  then have "filter slot_occupied ss = ss" by (simp add: filter_id_conv)
  moreover have "\<not> slot_occupied s" "sm_len m = length (filter slot_occupied (slot_list m))"
    using sok ss by (auto simp: slots_ok_def sm_len_def)
  ultimately show ?thesis using ss by simp
qed

lemma insert_with_room:
  assumes ok: "slotmap_ok m" and none: "none_detached m" and room: "sm_len m + 1 < cap (slots m)"
    and small: "sm_len m + 1 < MAX_SLOTS_LEN"
  obtains k m' where "sm_try_insert v (m, h) = (Ok k, (m', h))" and "slotmap_ok m'" and "none_detached m'"
    and "sm_len m' = Suc (sm_len m)" and "cap (slots m') = cap (slots m)"
proof -
  let ?f = "\<lambda>_ h. (Ok v :: (unit, 'a) outcome, h) :: (unit, 'a) outcome \<times> heap"
  show ?thesis
  proof (cases "unat (free_head m) < vlen (slots m)")
    case True
    have fv: "?f (key_new (free_head m) (slot_version (slot_list m ! unat (free_head m)) OR 1)) h = (Ok v, h)"
      by simp
    obtain n where "insert_inner ?f (m, h) = (Ok (key_new (free_head m) (slot_version (slot_list m ! unat (free_head m)) OR 1)),
          ((set_slot (unat (free_head m)) (Slot (UValue v) (slot_version (slot_list m ! unat (free_head m)) OR 1)) m)
             \<lparr>free_head := n, num_elems := num_elems m + 1\<rparr>, h))"
      "slotmap_ok ((set_slot (unat (free_head m)) (Slot (UValue v) (slot_version (slot_list m ! unat (free_head m)) OR 1)) m)
             \<lparr>free_head := n, num_elems := num_elems m + 1\<rparr>)"
      "unat (num_elems m + 1) = Suc (unat (num_elems m))"
      using insert_reuses [where f = ?f and h = h and v = v and h' = h, OF ok True refl] by auto
    moreover have "none_detached (set_slot (unat (free_head m))
        (Slot (UValue v) (slot_version (slot_list m ! unat (free_head m)) OR 1)) m
             \<lparr>free_head := n, num_elems := num_elems m + 1\<rparr>)"
      using none by (auto simp: none_detached_def dest!: set_update_subset_insert [THEN subsetD])
    ultimately show ?thesis using that by (auto simp: sm_try_insert_def sm_len_def set_slot_def)
  next
    case False
    have len: "vlen (slots m) = Suc (sm_len m)" by (rule full_length [OF ok none False])
    have res: "vec_try_reserve 1 (slots m, h) = (Ok (), (slots m, h))"
      using len room by (intro vec_try_reserve_room) simp
    have "vlen (slots m) < MAX_SLOTS_LEN" using len small by simp
    note push = insert_pushes [where f = ?f and v = v and h' = h, OF ok False this res refl]
    have "none_detached \<lparr>slots = with_items (slot_list m @ [Slot (UValue v) 1]) (slots m),
        free_head = of_nat (Suc (vlen (slots m))), num_elems = num_elems m + 1\<rparr>"
      using none by (auto simp: none_detached_def)
    then show ?thesis
      using that push by (auto simp: sm_try_insert_def sm_len_def)
  qed
qed

lemma ins_each_with_room:
  assumes "slotmap_ok m" and "none_detached m" and "sm_len m + length vs < cap (slots m)"
    and "sm_len m + length vs < MAX_SLOTS_LEN"
  shows "\<exists>ks m'. ins_each sm_try_insert vs (m, h) = (Ok ks, (m', h))"
  using assms
proof (induction vs arbitrary: m)
  case (Cons v vs)
  obtain k m1 where 1: "sm_try_insert v (m, h) = (Ok k, (m1, h))" "slotmap_ok m1" "none_detached m1"
      "sm_len m1 = Suc (sm_len m)" "cap (slots m1) = cap (slots m)"
    using insert_with_room [OF Cons.prems(1,2), of v h] Cons.prems(3,4) by auto
  then obtain ks m2 where "ins_each sm_try_insert vs (m1, h) = (Ok ks, (m2, h))"
    using Cons.IH [OF 1(2,3)] Cons.prems(3,4) by auto
  then show ?case using 1 by auto
qed simp

text \<open>Claim C13.
  What a reservation promises: if no slot is detached, then after \<open>try_reserve(n)\<close> succeeds the next
  \<open>n\<close> insertions succeed without a single request to the allocator.\<close>

theorem slotmap_reserve_promise:
  assumes "slotmap_ok m" and "none_detached m"
    and "sm_try_reserve (length vs) (m, h) = (Ok (), (m1, h1))"
  shows "\<exists>ks m2. ins_each sm_try_insert vs (m1, h1) = (Ok ks, (m2, h1))"
proof (cases rule: reserve_cases [OF assms(1), of "length vs" h])
  case (1 m' h')
  then have "m1 = m'" "none_detached m1" "sm_len m1 = sm_len m"
    using assms by (auto simp: same_contents_def none_detached_def sm_len_def)
  then show ?thesis using ins_each_with_room [of m1 vs h1] 1 by auto
next
  case (2 e h')
  then show ?thesis using assms(3) by simp
qed

theorem slotmap_reserve_promise_witness:
  "\<exists>ks m2. ins_each sm_try_insert [1, 2, 3] (sample_map, heap_with policy_fail_all) =
     (Ok ks, (m2, heap_with policy_fail_all))"
proof -
  have "none_detached sample_map" by (auto simp: none_detached_def sample_map_def DANGLING_SENTINEL_def)
  moreover have "sm_try_reserve (length [1, 2, 3 :: nat]) (sample_map, heap_with policy_fail_all) =
      (Ok (), (sample_map, heap_with policy_fail_all))"
    by (simp add: sm_try_reserve_def sample_map_def sm_len_def checked_add_def usize_max_def MAX_SLOTS_LEN_eq
        on_slots_def vec_try_reserve_def)
  ultimately show ?thesis
    using slotmap_reserve_promise [OF sample_map_ok, of "[1, 2, 3]"] by blast
qed

text \<open>
  The promise fails once a slot is detached: \<open>try_reserve\<close> counts the detached slot as reusable, so
  it can succeed without reserving anything, and the insertion it was for then needs memory and
  fails.\<close>

lemma slotmap_reserve_ignores_detached:
  "\<exists>(m :: nat slotmap) h e. slotmap_ok m \<and> sm_try_reserve 1 (m, h) = (Ok (), (m, h)) \<and>
     sm_try_insert 5 (m, h) = (Err e, (m, h))"
proof -
  define m :: "nat slotmap" where
    "m = \<lparr>slots = Vec [Slot (UNext 0) 0, Slot (UNext DANGLING_SENTINEL) 2] 2 (Layout 16 8),
        free_head = 2, num_elems = 0\<rparr>"
  let ?h = "heap_with policy_fail_all"
  have "slotmap_ok m"
    by (rule slotmap_okI [where fs = "[]"])
      (auto simp: m_def slots_ok_def MAX_SLOTS_LEN_eq vec_ok_def isize_max_def usize_max_def less_Suc_eq)
  moreover have "sm_try_reserve 1 (m, ?h) = (Ok (), (m, ?h))"
    by (simp add: sm_try_reserve_def m_def sm_len_def checked_add_def usize_max_def MAX_SLOTS_LEN_eq
        on_slots_def vec_try_reserve_def)
  moreover have "\<exists>e. sm_try_insert 5 (m, ?h) = (Err e, (m, ?h))"
    by (simp add: sm_try_insert_def insert_inner_def slot_at_def m_def on_slots_def vec_try_reserve_def
        grow_amortized_def grow_cap_def min_non_zero_cap_def checked_add_def usize_max_def isize_max_def
        MAX_SLOTS_LEN_eq Let_def exhausted_grealloc)
  ultimately show ?thesis by blast
qed

end
