(* ===== verification/SecondaryMap.thy ===== *)
theory SecondaryMap
  imports VecProps SlotIter
begin

text \<open>
  The secondary map (\<^verbatim>\<open>rustyfill/src/collections/slotmap/secondary.rs\<close>): values attached to the
  keys of a slot map, found by the index of the key and guarded by its version. A slot that is
  occupied under an older version is overwritten, an insertion under a version older than the
  slot's is dropped.
\<close>

section \<open>Slots and versions\<close>

definition is_older_version :: "u32 \<Rightarrow> u32 \<Rightarrow> bool" where
  "is_older_version a b = (let diff = a - b in 2 ^ 31 \<le> unat diff)"

datatype 'v sec_slot = SecOccupied (sec_value: 'v) (sec_stamp: u32) | SecVacant

definition sec_new_occupied :: "u32 \<Rightarrow> 'v \<Rightarrow> 'v sec_slot" where
  "sec_new_occupied version v = SecOccupied v (version OR 1)"

definition sec_new_vacant :: "'v sec_slot" where
  "sec_new_vacant = SecVacant"

fun sec_version :: "'v sec_slot \<Rightarrow> u32" where
  "sec_version (SecOccupied v w) = w"
| "sec_version SecVacant = 0"

text \<open>\<open>unreachable_unchecked\<close> on a vacant slot is undefined behaviour.\<close>

fun sec_get_unchecked :: "'v sec_slot \<Rightarrow> ('e, 'v) outcome" where
  "sec_get_unchecked (SecOccupied v w) = Ok v"
| "sec_get_unchecked SecVacant = UB"

fun sec_into_option :: "'v sec_slot \<Rightarrow> 'v option" where
  "sec_into_option (SecOccupied v w) = Some v"
| "sec_into_option SecVacant = None"

fun sec_slot_try_clone :: "'v cloner \<Rightarrow> 'v sec_slot cloner" where
  "sec_slot_try_clone cl (SecOccupied v w) h = (let (r, h') = cl v h in (map_ok (\<lambda>v'. SecOccupied v' w) r, h'))"
| "sec_slot_try_clone cl SecVacant h = (Ok SecVacant, h)"

datatype secmap_error = SecReserve try_reserve_error

section \<open>The map\<close>

record 'v secmap =
  sec_slots :: "'v sec_slot vec"
  sec_num :: nat

type_synonym 'v sec_state = "'v secmap \<times> heap"

definition sec_at :: "'v secmap \<Rightarrow> nat \<Rightarrow> 'v sec_slot option" where
  "sec_at m i = (if i < vlen (sec_slots m) then Some (items (sec_slots m) ! i) else None)"

definition sec_set :: "nat \<Rightarrow> 'v sec_slot \<Rightarrow> 'v secmap \<Rightarrow> 'v secmap" where
  "sec_set i s m = m\<lparr>sec_slots := with_items ((items (sec_slots m))[i := s]) (sec_slots m)\<rparr>"

definition sec_count_up :: "'v secmap \<Rightarrow> ('v secmap, 'e, unit) run" where
  "sec_count_up m =
     (case checked_add (sec_num m) 1 of
        Some n \<Rightarrow> (Ok (), m\<lparr>sec_num := n\<rparr>)
      | None \<Rightarrow> (Panic ''element count below MAX_SLOTS_LEN'', m))"

definition sec_count_down :: "'v secmap \<Rightarrow> ('v secmap, 'e, unit) run" where
  "sec_count_down m =
     (if sec_num m = 0 then (Panic ''at least one element present'', m)
      else (Ok (), m\<lparr>sec_num := sec_num m - 1\<rparr>))"

definition sec_try_with_capacity :: "layout \<Rightarrow> nat \<Rightarrow> heap \<Rightarrow> (secmap_error, 'v secmap) outcome \<times> heap" where
  "sec_try_with_capacity l capacity h =
     (if MAX_SLOTS_LEN - 1 \<le> capacity then (Err (SecReserve new_capacity_overflow), h)
      else case checked_add capacity 1 of
        None \<Rightarrow> (Panic ''capacity below MAX_SLOTS_LEN'', h)
      | Some n \<Rightarrow>
          and_then (map_err_run SecReserve (vec_try_with_capacity l n h)) (\<lambda>v h1.
            case vec_try_push sec_new_vacant (v, h1) of
              (r, (v', h2)) \<Rightarrow>
                (map_ok (\<lambda>_. \<lparr>sec_slots = v', sec_num = 0\<rparr>) (map_err SecReserve r), h2)))"

definition sec_len :: "'v secmap \<Rightarrow> nat" where
  "sec_len m = sec_num m"

definition sec_is_empty :: "'v secmap \<Rightarrow> bool" where
  "sec_is_empty m \<longleftrightarrow> sec_num m = 0"

definition sec_capacity :: "'v secmap \<Rightarrow> nat" where
  "sec_capacity m = cap (sec_slots m) - 1"

definition on_sec_slots ::
    "('v sec_slot vstate \<Rightarrow> ('v sec_slot vstate, 'e, 'a) run) \<Rightarrow> 'v sec_state \<Rightarrow> ('v sec_state, 'e, 'a) run" where
  "on_sec_slots f s =
     (case s of (m, h) \<Rightarrow> case f (sec_slots m, h) of (r, (sl, h')) \<Rightarrow> (r, (m\<lparr>sec_slots := sl\<rparr>, h')))"

definition sec_try_set_capacity :: "nat \<Rightarrow> 'v sec_state \<Rightarrow> ('v sec_state, secmap_error, unit) run" where
  "sec_try_set_capacity new_capacity s =
     (if MAX_SLOTS_LEN - 1 \<le> new_capacity then (Err (SecReserve new_capacity_overflow), s)
      else case checked_add new_capacity 1 of
        None \<Rightarrow> (Panic ''capacity below MAX_SLOTS_LEN'', s)
      | Some target \<Rightarrow>
          if cap (sec_slots (fst s)) < target then
            let needed = target - vlen (sec_slots (fst s))
            in map_err_run SecReserve (on_sec_slots (vec_try_reserve needed) s)
          else (Ok (), s))"

definition sec_contains_key :: "'v secmap \<Rightarrow> key_data \<Rightarrow> bool" where
  "sec_contains_key m k =
     (case sec_at m (unat (key_idx k)) of
        None \<Rightarrow> False
      | Some s \<Rightarrow> sec_version s = version_raw k)"

definition sec_get :: "'v secmap \<Rightarrow> key_data \<Rightarrow> ('e, 'v option) outcome" where
  "sec_get m k =
     (case sec_at m (unat (key_idx k)) of
        None \<Rightarrow> Ok None
      | Some s \<Rightarrow>
          if sec_version s = version_raw k then map_ok Some (sec_get_unchecked s) else Ok None)"

definition sec_index :: "'v secmap \<Rightarrow> key_data \<Rightarrow> ('e, 'v) outcome" where
  "sec_index m k =
     (case sec_get m k of
        Ok (Some r) \<Rightarrow> Ok r
      | Ok None \<Rightarrow> Panic ''invalid SecondaryMap key used''
      | Err e \<Rightarrow> Err e
      | Panic msg \<Rightarrow> Panic msg
      | UB \<Rightarrow> UB)"

subsection \<open>Entries\<close>

text \<open>An entry borrows the map; it is the key with how its slot stood.\<close>

datatype sec_entry = EntOccupied key_data | EntVacant key_data

definition sec_try_entry :: "key_data \<Rightarrow> 'v sec_state \<Rightarrow> ('v sec_state, secmap_error, sec_entry option) run" where
  "sec_try_entry k s =
     (if key_is_null k then (Ok None, s)
      else
        let idx = unat (key_idx k)
        in if MAX_SLOTS_LEN - 1 \<le> idx then (Err (SecReserve new_capacity_overflow), s)
           else case checked_add idx 1 of
             None \<Rightarrow> (Panic ''slot index below MAX_SLOTS_LEN'', s)
           | Some target_len \<Rightarrow>
               and_then
                 (if vlen (sec_slots (fst s)) < target_len then
                    map_ok_run (\<lambda>_. ()) (map_err_run SecReserve
                      (on_sec_slots (vec_try_resize_with target_len (\<lambda>st. (Some sec_new_vacant, st)) ()) s))
                  else (Ok (), s))
                 (\<lambda>_ (m, h).
                    case sec_at m idx of
                      None \<Rightarrow> (Panic ''index out of bounds'', (m, h))
                    | Some slot \<Rightarrow>
                        (Ok (if version_raw k = sec_version slot then Some (EntOccupied k)
                             else if is_older_version (version_raw k) (sec_version slot) then None
                             else Some (EntVacant k)),
                         (m, h))))"

text \<open>\<open>OccupiedEntry::get_mut\<close> and the writes through it; the slot access is unchecked.\<close>

definition occ_get :: "key_data \<Rightarrow> 'v secmap \<Rightarrow> ('e, 'v) outcome" where
  "occ_get k m = (case sec_at m (unat (key_idx k)) of None \<Rightarrow> UB | Some s \<Rightarrow> sec_get_unchecked s)"

definition occ_write :: "key_data \<Rightarrow> 'v \<Rightarrow> 'v secmap \<Rightarrow> ('v secmap, 'e, unit) run" where
  "occ_write k v m =
     (case sec_at m (unat (key_idx k)) of
        Some (SecOccupied _ w) \<Rightarrow> (Ok (), sec_set (unat (key_idx k)) (SecOccupied v w) m)
      | _ \<Rightarrow> (UB, m))"

definition occ_insert :: "key_data \<Rightarrow> 'v \<Rightarrow> 'v secmap \<Rightarrow> ('v secmap, 'e, 'v) run" where
  "occ_insert k v m =
     and_then (occ_get k m, m) (\<lambda>old m. and_then (occ_write k v m) (\<lambda>_ m'. (Ok old, m')))"

definition occ_remove :: "key_data \<Rightarrow> 'v secmap \<Rightarrow> ('v secmap, 'e, 'v) run" where
  "occ_remove k m =
     (case sec_at m (unat (key_idx k)) of
        None \<Rightarrow> (UB, m)
      | Some slot \<Rightarrow>
          and_then (sec_count_down m) (\<lambda>_ m1.
            let m2 = sec_set (unat (key_idx k)) sec_new_vacant m1
            in (sec_get_unchecked slot, m2)))"

definition vac_insert :: "key_data \<Rightarrow> 'v \<Rightarrow> 'v secmap \<Rightarrow> ('v secmap, 'e, 'v) run" where
  "vac_insert k v m =
     (case sec_at m (unat (key_idx k)) of
        None \<Rightarrow> (UB, m)
      | Some slot \<Rightarrow>
          let m1 = sec_set (unat (key_idx k)) (sec_new_occupied (version_raw k) v) m
          in case slot of
               SecOccupied _ _ \<Rightarrow> (Ok v, m1)
             | SecVacant \<Rightarrow> and_then (sec_count_up m1) (\<lambda>_ m2. (Ok v, m2)))"

fun ent_or_insert_with :: "sec_entry \<Rightarrow> (unit \<Rightarrow> 'v) \<Rightarrow> 'v secmap \<Rightarrow> ('v secmap, 'e, 'v) run" where
  "ent_or_insert_with (EntOccupied k) d m = (occ_get k m, m)"
| "ent_or_insert_with (EntVacant k) d m = vac_insert k (d ()) m"

definition ent_or_insert :: "sec_entry \<Rightarrow> 'v \<Rightarrow> 'v secmap \<Rightarrow> ('v secmap, 'e, 'v) run" where
  "ent_or_insert e v m = ent_or_insert_with e (\<lambda>_. v) m"

fun ent_key :: "sec_entry \<Rightarrow> key_data" where
  "ent_key (EntOccupied k) = k"
| "ent_key (EntVacant k) = k"

fun ent_and_modify :: "sec_entry \<Rightarrow> ('v \<Rightarrow> 'v) \<Rightarrow> 'v secmap \<Rightarrow> ('v secmap, 'e, sec_entry) run" where
  "ent_and_modify (EntOccupied k) f m =
     and_then (occ_get k m, m) (\<lambda>v m. and_then (occ_write k (f v) m) (\<lambda>_ m'. (Ok (EntOccupied k), m')))"
| "ent_and_modify (EntVacant k) f m = (Ok (EntVacant k), m)"

definition occ_remove_entry :: "key_data \<Rightarrow> 'v secmap \<Rightarrow> ('v secmap, 'e, key_data \<times> 'v) run" where
  "occ_remove_entry k m = map_ok_run (\<lambda>v. (k, v)) (occ_remove k m)"

subsection \<open>Insertion and removal\<close>

definition sec_lift :: "('v secmap \<Rightarrow> ('v secmap, 'e, 'a) run) \<Rightarrow> 'v sec_state \<Rightarrow> ('v sec_state, 'e, 'a) run" where
  "sec_lift f s = (case s of (m, h) \<Rightarrow> case f m of (r, m') \<Rightarrow> (r, (m', h)))"

definition sec_try_insert_give_back ::
    "key_data \<Rightarrow> 'v \<Rightarrow> 'v sec_state \<Rightarrow> ('v sec_state, 'v \<times> try_reserve_error, 'v option) run" where
  "sec_try_insert_give_back k v s =
     (case sec_try_entry k s of
        (Ok None, s') \<Rightarrow> (Ok None, s')
      | (Ok (Some (EntOccupied e)), s') \<Rightarrow> map_ok_run Some (sec_lift (occ_insert e v) s')
      | (Ok (Some (EntVacant e)), s') \<Rightarrow> map_ok_run (\<lambda>_. None) (sec_lift (vac_insert e v) s')
      | (Err (SecReserve src), s') \<Rightarrow> (Err (v, src), s')
      | (Panic msg, s') \<Rightarrow> (Panic msg, s')
      | (UB, s') \<Rightarrow> (UB, s'))"

definition sec_try_insert ::
    "key_data \<Rightarrow> 'v \<Rightarrow> 'v sec_state \<Rightarrow> ('v sec_state, try_reserve_error, 'v option) run" where
  "sec_try_insert k v s = map_err_run snd (sec_try_insert_give_back k v s)"

definition sec_remove :: "key_data \<Rightarrow> 'v secmap \<Rightarrow> ('v secmap, 'e, 'v option) run" where
  "sec_remove k m =
     (case sec_at m (unat (key_idx k)) of
        None \<Rightarrow> (Ok None, m)
      | Some slot \<Rightarrow>
          if sec_version slot = version_raw k then
            and_then (sec_count_down m) (\<lambda>_ m1.
              (Ok (sec_into_option slot), sec_set (unat (key_idx k)) sec_new_vacant m1))
          else (Ok None, m))"

text \<open>\<open>Extend\<close> discards the result of every insertion, errors included; a panic ends the loop.\<close>

fun sec_extend :: "(key_data \<times> 'v) list \<Rightarrow> 'v sec_state \<Rightarrow> ('v sec_state, 'e, unit) run" where
  "sec_extend [] s = (Ok (), s)"
| "sec_extend ((k, v) # kvs) s =
     (case sec_try_insert k v s of
        (Ok _, s') \<Rightarrow> sec_extend kvs s'
      | (Err _, s') \<Rightarrow> sec_extend kvs s'
      | (Panic msg, s') \<Rightarrow> (Panic msg, s')
      | (UB, s') \<Rightarrow> (UB, s'))"

subsection \<open>Loops\<close>

fun sec_retain_loop ::
    "('f, 'v) retainer \<Rightarrow> nat list \<Rightarrow> 'f \<Rightarrow> 'v secmap \<Rightarrow> ('v secmap, 'e, 'f) run" where
  "sec_retain_loop f [] st m = (Ok st, m)"
| "sec_retain_loop f (i # js) st m =
     (case sec_at m i of
        Some (SecOccupied v w) \<Rightarrow>
          let key = key_new (of_nat i) w; ((keep, v'), st') = f key v st;
              m1 = sec_set i (SecOccupied v' w) m
          in if keep then sec_retain_loop f js st' m1
             else and_then (sec_count_down m1) (\<lambda>_ m2. sec_retain_loop f js st' (sec_set i sec_new_vacant m2))
      | _ \<Rightarrow> sec_retain_loop f js st m)"

definition sec_retain :: "('f, 'v) retainer \<Rightarrow> 'f \<Rightarrow> 'v secmap \<Rightarrow> ('v secmap, 'e, 'f) run" where
  "sec_retain f st m = sec_retain_loop f [0..<vlen (sec_slots m)] st m"

function sec_drain_next ::
    "'v secmap \<Rightarrow> nat \<Rightarrow> ('e, (key_data \<times> 'v) option) outcome \<times> 'v secmap \<times> nat" where
  "sec_drain_next m cur =
     (if cur < vlen (sec_slots m) then
        (case items (sec_slots m) ! cur of
           SecOccupied v w \<Rightarrow>
             (case sec_count_down (sec_set cur sec_new_vacant m) of
                (r, m') \<Rightarrow> (map_ok (\<lambda>_. Some (key_new (of_nat cur) w, v)) r, m', cur + 1))
         | SecVacant \<Rightarrow> sec_drain_next m (cur + 1))
      else (Ok None, m, cur))"
  by pat_completeness auto
termination by (relation "measure (\<lambda>(m, cur). vlen (sec_slots m) - cur)") auto

declare sec_drain_next.simps [simp del]

lemma sec_drain_next_progress:
  "sec_drain_next m cur = (r, m', cur') \<Longrightarrow>
   vlen (sec_slots m') = vlen (sec_slots m) \<and> cur \<le> cur' \<and>
   (r \<noteq> Ok None \<longrightarrow> cur < cur' \<and> cur' \<le> vlen (sec_slots m))"
proof (induction m cur rule: sec_drain_next.induct)
  case (1 m cur)
  show ?case
  proof (cases "cur < vlen (sec_slots m)")
    case inside: True
    show ?thesis
    proof (cases "items (sec_slots m) ! cur")
      case (SecOccupied v w)
      then show ?thesis
        using 1(2) inside
        by (subst (asm) sec_drain_next.simps)
          (auto simp: sec_count_down_def sec_set_def split: if_splits prod.splits)
    next
      case SecVacant
      then have "sec_drain_next m (cur + 1) = (r, m', cur')"
        using 1(2) inside by (subst (asm) sec_drain_next.simps) simp
      then show ?thesis using 1(1) [OF inside SecVacant] inside by auto
    qed
  next
    case False
    then show ?thesis using 1(2) by (subst (asm) sec_drain_next.simps) auto
  qed
qed

function sec_drain_rest :: "'v secmap \<Rightarrow> nat \<Rightarrow> ('e, (key_data \<times> 'v) list) outcome \<times> 'v secmap" where
  "sec_drain_rest m cur =
     (case sec_drain_next m cur of
        (Ok None, m', _) \<Rightarrow> (Ok [], m')
      | (Ok (Some e), m', cur') \<Rightarrow> (let (r, m'') = sec_drain_rest m' cur' in (map_ok (\<lambda>es. e # es) r, m''))
      | (Err e, m', _) \<Rightarrow> (Err e, m')
      | (Panic msg, m', _) \<Rightarrow> (Panic msg, m')
      | (UB, m', _) \<Rightarrow> (UB, m'))"
  by pat_completeness auto
termination
  by (relation "measure (\<lambda>(m, cur). vlen (sec_slots m) - cur)") (auto dest!: sec_drain_next_progress [OF sym])

declare sec_drain_rest.simps [simp del]

definition sec_drain :: "'v secmap \<Rightarrow> 'v secmap \<times> nat" where
  "sec_drain m = (m, 1)"

definition sec_clear :: "'v secmap \<Rightarrow> ('e, unit) outcome \<times> 'v secmap" where
  "sec_clear m =
     (case sec_drain m of (m1, cur) \<Rightarrow> case sec_drain_rest m1 cur of (r, m') \<Rightarrow> (map_ok (\<lambda>_. ()) r, m'))"

text \<open>The iterator starts at index 0: unlike the draining one it does not skip the sentinel.\<close>

datatype 'v sec_iter = SecIter (sec_iter_slots: "(nat \<times> 'v sec_slot) list") (sec_num_left: nat)

definition sec_iter :: "'v secmap \<Rightarrow> 'v sec_iter" where
  "sec_iter m = SecIter (List.enumerate 0 (items (sec_slots m))) (sec_num m)"

definition sec_into_iter :: "'v secmap \<Rightarrow> 'v sec_iter" where
  "sec_into_iter m = SecIter (drop 1 (List.enumerate 0 (items (sec_slots m)))) (sec_len m)"

fun sec_iter_scan ::
    "(nat \<times> 'v sec_slot) list \<Rightarrow> nat \<Rightarrow> ('e, (key_data \<times> 'v) option) outcome \<times> 'v sec_iter" where
  "sec_iter_scan [] n = (Ok None, SecIter [] n)"
| "sec_iter_scan ((idx, SecOccupied v w) # xs) n =
     (if n = 0 then (Panic ''remaining count positive'', SecIter xs n)
      else (Ok (Some (key_new (of_nat idx) w, v)), SecIter xs (n - 1)))"
| "sec_iter_scan ((idx, SecVacant) # xs) n = sec_iter_scan xs n"

definition sec_iter_next :: "'v sec_iter \<Rightarrow> ('e, (key_data \<times> 'v) option) outcome \<times> 'v sec_iter" where
  "sec_iter_next it = sec_iter_scan (sec_iter_slots it) (sec_num_left it)"

text \<open>
  \<open>PartialEq\<close>: equal lengths, and every entry of the left map is found with an equal value in the
  right one. \<open>Iterator::all\<close> stops at the first entry that fails.
\<close>

fun sec_all_found :: "nat \<Rightarrow> 'v sec_iter \<Rightarrow> 'v secmap \<Rightarrow> ('e, bool) outcome" where
  "sec_all_found 0 it other =
     (case fst (sec_iter_next it :: ('e, (key_data \<times> 'v) option) outcome \<times> 'v sec_iter) of
        Ok None \<Rightarrow> Ok True | Ok (Some _) \<Rightarrow> Ok False | Err e \<Rightarrow> Err e | Panic msg \<Rightarrow> Panic msg | UB \<Rightarrow> UB)"
| "sec_all_found (Suc n) it other =
     (case (sec_iter_next it :: ('e, (key_data \<times> 'v) option) outcome \<times> 'v sec_iter) of
        (Ok None, _) \<Rightarrow> Ok True
      | (Ok (Some (k, v)), it') \<Rightarrow>
          (case (sec_get other k :: ('e, 'v option) outcome) of
             Ok (Some ov) \<Rightarrow> if v = ov then sec_all_found n it' other else Ok False
           | Ok None \<Rightarrow> Ok False
           | Err e \<Rightarrow> Err e | Panic msg \<Rightarrow> Panic msg | UB \<Rightarrow> UB)
      | (Err e, _) \<Rightarrow> Err e
      | (Panic msg, _) \<Rightarrow> Panic msg
      | (UB, _) \<Rightarrow> UB)"

text \<open>As many steps as the iterator has slots are enough.\<close>

definition sec_eq :: "'v secmap \<Rightarrow> 'v secmap \<Rightarrow> ('e, bool) outcome" where
  "sec_eq m other =
     (if sec_len m \<noteq> sec_len other then Ok False
      else sec_all_found (vlen (sec_slots m)) (sec_iter m) other)"

definition sec_try_clone :: "'v cloner \<Rightarrow> 'v secmap \<Rightarrow> heap \<Rightarrow> (try_clone_error, 'v secmap) outcome \<times> heap" where
  "sec_try_clone cl m h =
     (case vec_try_clone (sec_slot_try_clone cl) (sec_slots m) h of
        (r, h') \<Rightarrow> (map_ok (\<lambda>sl. \<lparr>sec_slots = sl, sec_num = sec_num m\<rparr>) r, h'))"

definition sec_iter_size_hint :: "'v sec_iter \<Rightarrow> nat \<times> nat option" where
  "sec_iter_size_hint it = (sec_num_left it, Some (sec_num_left it))"

definition sec_keys_next :: "'v sec_iter \<Rightarrow> ('e, key_data option) outcome \<times> 'v sec_iter" where
  "sec_keys_next it = (case sec_iter_next it of (r, it') \<Rightarrow> (map_ok (map_option fst) r, it'))"

definition sec_values_next :: "'v sec_iter \<Rightarrow> ('e, 'v option) outcome \<times> 'v sec_iter" where
  "sec_values_next it = (case sec_iter_next it of (r, it') \<Rightarrow> (map_ok (map_option snd) r, it'))"

definition sec_drain_size_hint :: "'v secmap \<Rightarrow> nat \<times> nat option" where
  "sec_drain_size_hint m = (sec_len m, Some (sec_len m))"

section \<open>Further construction and access\<close>

definition sec_try_new :: "layout \<Rightarrow> heap \<Rightarrow> (secmap_error, 'v secmap) outcome \<times> heap" where
  "sec_try_new l h = sec_try_with_capacity l 0 h"

definition sec_default :: "layout \<Rightarrow> heap \<Rightarrow> ('e, 'v secmap) outcome \<times> heap" where
  "sec_default l h =
     (case sec_try_with_capacity l 0 h of
        (r, h') \<Rightarrow> (expect ''SecondaryMap::default panicked: failed to allocate sentinel slot'' r, h'))"

definition sec_from_iter :: "layout \<Rightarrow> (key_data \<times> 'v) list \<Rightarrow> heap \<Rightarrow> ('e, 'v secmap) outcome \<times> heap" where
  "sec_from_iter l kvs h =
     (case sec_try_new l h of
        (Ok m, h') \<Rightarrow>
          (case sec_extend kvs (m, h') of (r, (m', h'')) \<Rightarrow> (map_ok (\<lambda>_. m') r, h''))
      | (Err e, h') \<Rightarrow> (Panic ''SecondaryMap::from_iter panicked: failed to allocate sentinel slot'', h')
      | (Panic msg, h') \<Rightarrow> (Panic msg, h')
      | (UB, h') \<Rightarrow> (UB, h'))"

text \<open>A write through the reference that \<open>get_mut\<close> or \<open>index_mut\<close> returns, with the old value.\<close>

definition sec_get_mut_set :: "key_data \<Rightarrow> 'v \<Rightarrow> 'v secmap \<Rightarrow> ('v secmap, 'e, 'v option) run" where
  "sec_get_mut_set k v m =
     (case sec_at m (unat (key_idx k)) of
        None \<Rightarrow> (Ok None, m)
      | Some slot \<Rightarrow>
          if sec_version slot = version_raw k then
            (case slot of
               SecOccupied old w \<Rightarrow> (Ok (Some old), sec_set (unat (key_idx k)) (SecOccupied v w) m)
             | SecVacant \<Rightarrow> (UB, m))
          else (Ok None, m))"

definition sec_index_mut_set :: "key_data \<Rightarrow> 'v \<Rightarrow> 'v secmap \<Rightarrow> ('v secmap, 'e, 'v) run" where
  "sec_index_mut_set k v m =
     (case sec_get_mut_set k v m of
        (Ok (Some old), m') \<Rightarrow> (Ok old, m')
      | (Ok None, m') \<Rightarrow> (Panic ''invalid SecondaryMap key used'', m')
      | (Err e, m') \<Rightarrow> (Err e, m')
      | (Panic msg, m') \<Rightarrow> (Panic msg, m')
      | (UB, m') \<Rightarrow> (UB, m'))"

end
