(* ===== verification/SecondaryProps.thy ===== *)
theory SecondaryProps
  imports SecondaryMap SlotProps
begin

text \<open>
  The secondary map against its abstract contents, a partial map from keys to values in which no
  two keys share an index: insertion by version order, lookup, removal, clearing, comparison and
  cloning.
\<close>

section \<open>Invariant and contents\<close>

abbreviation sec_list :: "'v secmap \<Rightarrow> 'v sec_slot list" where
  "sec_list m \<equiv> items (sec_slots m)"

fun sec_wf :: "'v sec_slot \<Rightarrow> bool" where
  "sec_wf (SecOccupied v w) = odd w"
| "sec_wf SecVacant = True"

fun sec_occ :: "'v sec_slot \<Rightarrow> bool" where
  "sec_occ (SecOccupied v w) = True"
| "sec_occ SecVacant = False"

definition sec_ok :: "'v secmap \<Rightarrow> bool" where
  "sec_ok m \<longleftrightarrow> vec_ok (sec_slots m) \<and> sec_list m \<noteq> [] \<and> vlen (sec_slots m) < MAX_SLOTS_LEN \<and>
     (\<forall>s \<in> set (sec_list m). sec_wf s) \<and> sec_num m = length (filter sec_occ (sec_list m))"

definition sec_view :: "'v secmap \<Rightarrow> key_data \<Rightarrow> 'v option" where
  "sec_view m k =
     (let i = unat (key_idx k)
      in if i < vlen (sec_slots m) \<and> sec_version (sec_list m ! i) = version_raw k
         then sec_into_option (sec_list m ! i) else None)"

text \<open>The version stored at a key's index; 0 where there is nothing.\<close>

definition stamp_at :: "'v secmap \<Rightarrow> key_data \<Rightarrow> u32" where
  "stamp_at m k = (case sec_at m (unat (key_idx k)) of None \<Rightarrow> 0 | Some s \<Rightarrow> sec_version s)"

lemma sec_set_sel [simp]:
  "sec_list (sec_set i s m) = (sec_list m)[i := s]" "sec_num (sec_set i s m) = sec_num m"
  by (simp_all add: sec_set_def)

lemma sec_occ_version: "sec_wf s \<Longrightarrow> sec_occ s \<longleftrightarrow> odd (sec_version s)"
  by (cases s) auto

lemma sec_at_in [simp]: "i < vlen (sec_slots m) \<Longrightarrow> sec_at m i = Some (sec_list m ! i)"
  by (simp add: sec_at_def)

lemma sec_ok_wf: "sec_ok m \<Longrightarrow> i < vlen (sec_slots m) \<Longrightarrow> sec_wf (sec_list m ! i)"
  by (simp add: sec_ok_def)

lemma sec_ok_small: "sec_ok m \<Longrightarrow> vlen (sec_slots m) < 2 ^ 32 - 2"
  by (simp add: sec_ok_def MAX_SLOTS_LEN_eq)

lemma sec_ok_num: "sec_ok m \<Longrightarrow> sec_num m \<le> vlen (sec_slots m)"
  by (simp add: sec_ok_def)

lemma sec_ok_upd:
  assumes "sec_ok m" and "i < vlen (sec_slots m)" and "sec_wf s"
    and "n = length (filter sec_occ ((sec_list m)[i := s]))"
  shows "sec_ok ((sec_set i s m)\<lparr>sec_num := n\<rparr>)"
proof -
  have "\<forall>t \<in> set ((sec_list m)[i := s]). sec_wf t"
    using assms set_update_subset_insert [of "sec_list m" i s] by (auto simp: sec_ok_def)
  moreover have "vec_ok (with_items ((sec_list m)[i := s]) (sec_slots m))"
    using assms(1) by (intro vec_ok_with_items) (auto simp: sec_ok_def vec_ok_def)
  ultimately show ?thesis using assms by (simp add: sec_ok_def sec_set_def)
qed

lemma sec_view_upd:
  assumes "i < vlen (sec_slots m)"
  shows "sec_view ((sec_set i s m)\<lparr>sec_num := n\<rparr>) k =
    (if unat (key_idx k) = i then (if sec_version s = version_raw k then sec_into_option s else None)
     else sec_view m k)"
  using assms by (auto simp: sec_view_def Let_def)

lemma sec_view_key:
  assumes "sec_view m k = Some v"
  shows "unat (key_idx k) < vlen (sec_slots m)" and "sec_list m ! unat (key_idx k) = SecOccupied v (version_raw k)"
  using assms by (cases "sec_list m ! unat (key_idx k)"; auto simp: sec_view_def Let_def split: if_splits)+

lemma sec_contains_view:
  assumes "sec_ok m" and "key_ok k"
  shows "sec_contains_key m k \<longleftrightarrow> sec_view m k \<noteq> None"
  using assms
  by (cases "sec_list m ! unat (key_idx k)")
    (auto simp: sec_contains_key_def sec_at_def sec_view_def Let_def key_ok_def)

lemma sec_get_view:
  assumes "key_ok k"
  shows "sec_get m k = Ok (sec_view m k)"
  using assms
  by (cases "sec_list m ! unat (key_idx k)")
    (auto simp: sec_get_def sec_at_def sec_view_def Let_def key_ok_def)

section \<open>Entries\<close>

lemma gen_prefix_const: "gen_prefix (\<lambda>st. (Some x, st)) n st = (replicate n x, Some st)"
  by (induction n) auto

lemma grow_const_cases [consumes 2]:
  assumes "vec_ok v" and "vlen v < n"
  obtains (grown) w h' where
      "vec_try_resize_with n (\<lambda>st. (Some x, st)) st (v, h) = (Ok st, (w, h'))"
      and "items w = items v @ replicate (n - vlen v) x" and "vec_ok w"
  | (failed) e h' where "vec_try_resize_with n (\<lambda>st. (Some x, st)) st (v, h) = (Err e, (v, h'))"
proof (cases rule: vec_try_reserve_cases [OF assms(1), of "n - vlen v" h])
  case (1 w k)
  have room: "vlen w + (n - vlen v) \<le> cap w" using 1 by simp
  have "vec_try_resize_with n (\<lambda>st. (Some x, st)) st (v, h) =
      (Ok st, (with_items (items w @ replicate (n - vlen v) x) w, k))"
    using 1 assms(2)
    by (simp add: vec_try_resize_with_def gen_prefix_const with_truncate_guard_def Let_def
        push_generated_room [OF room])
  then show ?thesis
    using 1 room assms(2)
    by (intro grown [of "with_items (items w @ replicate (n - vlen v) x) w" k])
      (auto intro!: vec_ok_with_items)
next
  case (2 e k)
  then show ?thesis
    using assms(2) by (intro failed [of e k]) (simp add: vec_try_resize_with_def)
qed

lemma try_entry_cases [consumes 2]:
  assumes ok: "sec_ok m" and live: "\<not> key_is_null k"
  obtains (rejected) e h' where "sec_try_entry k (m, h) = (Err e, (m, h'))"
  | (entered) m1 h1 where
      "sec_try_entry k (m, h) =
        (Ok (if version_raw k = stamp_at m k then Some (EntOccupied k)
             else if is_older_version (version_raw k) (stamp_at m k) then None else Some (EntVacant k)), (m1, h1))"
      and "sec_ok m1" and "sec_view m1 = sec_view m" and "unat (key_idx k) < vlen (sec_slots m1)"
      and "sec_version (sec_list m1 ! unat (key_idx k)) = stamp_at m k" and "sec_num m1 = sec_num m"
proof -
  let ?i = "unat (key_idx k)"
  show ?thesis
  proof (cases "MAX_SLOTS_LEN - 1 \<le> ?i")
    case True
    then show ?thesis using live by (intro rejected [of _ h]) (simp add: sec_try_entry_def)
  next
    case False
    then have small: "Suc ?i < MAX_SLOTS_LEN" by simp
    then have add: "checked_add ?i 1 = Some (Suc ?i)"
      by (simp add: MAX_SLOTS_LEN_eq usize_max_def)
    show ?thesis
    proof (cases "?i < vlen (sec_slots m)")
      case True
      then have "sec_try_entry k (m, h) =
        (Ok (if version_raw k = stamp_at m k then Some (EntOccupied k)
             else if is_older_version (version_raw k) (stamp_at m k) then None else Some (EntVacant k)), (m, h))"
        using live False unfolding sec_try_entry_def Let_def add by (simp add: stamp_at_def)
      then show ?thesis using entered ok True by (simp add: stamp_at_def)
    next
      case short: False
      have vok: "vec_ok (sec_slots m)" using ok by (simp add: sec_ok_def)
      have lt: "vlen (sec_slots m) < Suc ?i" using short by simp
      show ?thesis
      proof (cases rule: grow_const_cases [OF vok lt, where x = sec_new_vacant and st = "()" and h = h])
        case (1 w h')
        let ?m = "m\<lparr>sec_slots := w\<rparr>"
        have last: "sec_list ?m ! ?i = SecVacant" "?i < vlen (sec_slots ?m)"
          using 1 short by (simp_all add: nth_append sec_new_vacant_def)
        have st: "stamp_at m k = 0" using short by (simp add: stamp_at_def sec_at_def)
        have "sec_try_entry k (m, h) =
          (Ok (if version_raw k = stamp_at m k then Some (EntOccupied k)
               else if is_older_version (version_raw k) (stamp_at m k) then None else Some (EntVacant k)), (?m, h'))"
          using live False short last 1 unfolding sec_try_entry_def Let_def add st
          by (simp add: on_sec_slots_def)
        moreover have "sec_ok ?m"
          using ok 1 small by (auto simp: sec_ok_def sec_new_vacant_def)
        moreover have "sec_view ?m = sec_view m"
          using 1 by (auto simp: fun_eq_iff sec_view_def Let_def nth_append sec_new_vacant_def)
        ultimately show ?thesis using entered [of ?m h'] last st by simp
      next
        case (2 e h')
        then have "sec_try_entry k (m, h) = (Err (SecReserve e), (m, h'))"
          using live False short unfolding sec_try_entry_def Let_def add by (simp add: on_sec_slots_def)
        then show ?thesis by (rule rejected)
      qed
    qed
  qed
qed

section \<open>The count\<close>

lemma sec_count_occupy:
  assumes "sec_ok m" and "i < vlen (sec_slots m)" and "sec_list m ! i = SecVacant"
  shows "length (filter sec_occ ((sec_list m)[i := SecOccupied v w])) = Suc (sec_num m)"
  using assms filter_list_update_add [of i "sec_list m" sec_occ "SecOccupied v w"]
  by (simp add: sec_ok_def)

lemma sec_count_keep:
  assumes "sec_ok m" and "i < vlen (sec_slots m)" and "sec_list m ! i = SecOccupied v' w'"
  shows "length (filter sec_occ ((sec_list m)[i := SecOccupied v w])) = sec_num m"
  using assms filter_list_update_in [of i "sec_list m" sec_occ "SecOccupied v w"]
  by (simp add: sec_ok_def)

lemma sec_count_release:
  assumes "sec_ok m" and "i < vlen (sec_slots m)" and "sec_list m ! i = SecOccupied v w"
  shows "length (filter sec_occ ((sec_list m)[i := SecVacant])) = sec_num m - 1" and "0 < sec_num m"
proof -
  have "Suc (length (filter sec_occ ((sec_list m)[i := SecVacant]))) = sec_num m"
    using assms filter_list_update_remove [of i "sec_list m" sec_occ SecVacant]
    by (simp add: sec_ok_def)
  then show "length (filter sec_occ ((sec_list m)[i := SecVacant])) = sec_num m - 1" and "0 < sec_num m"
    by auto
qed

lemma sec_count_up_ok:
  "sec_ok m \<Longrightarrow> sec_num m' = sec_num m \<Longrightarrow> sec_count_up m' = (Ok (), m'\<lparr>sec_num := Suc (sec_num m)\<rparr>)"
  using sec_ok_num [of m] sec_ok_small [of m]
  by (auto simp: sec_count_up_def usize_max_def checked_add_def)

lemma sec_set_num: "(sec_set i s m)\<lparr>sec_num := sec_num m\<rparr> = sec_set i s m"
  by (simp add: sec_set_def)

lemma sec_set_num_swap: "sec_set i s (m\<lparr>sec_num := n\<rparr>) = (sec_set i s m)\<lparr>sec_num := n\<rparr>"
  by (simp add: sec_set_def)

section \<open>Writing and removing one entry\<close>

text \<open>The contents after a value was stored under a key: it replaces whatever the index held.\<close>

definition put :: "key_data \<Rightarrow> 'v \<Rightarrow> (key_data \<Rightarrow> 'v option) \<Rightarrow> key_data \<Rightarrow> 'v option" where
  "put k v c = (\<lambda>l. if key_idx l = key_idx k then (if l = k then Some v else None) else c l)"

lemma sec_view_put:
  assumes "key_ok k" and "unat (key_idx k) < vlen (sec_slots m)"
  shows "sec_view ((sec_set (unat (key_idx k)) (SecOccupied v (version_raw k)) m)\<lparr>sec_num := n\<rparr>) =
    put k v (sec_view m)"
  using assms
  by (auto simp: fun_eq_iff sec_view_upd put_def word_unat_eq_iff [symmetric] dest: key_eqI)

lemma occ_insert_ok:
  assumes ok: "sec_ok m" and k: "key_ok k" and i: "unat (key_idx k) < vlen (sec_slots m)"
    and st: "sec_version (sec_list m ! unat (key_idx k)) = version_raw k"
  obtains old m' where "sec_view m k = Some old" and "occ_insert k v m = (Ok old, m')"
    and "sec_ok m'" and "sec_view m' = put k v (sec_view m)" and "sec_num m' = sec_num m"
proof -
  obtain old where s: "sec_list m ! unat (key_idx k) = SecOccupied old (version_raw k)"
    using st k by (cases "sec_list m ! unat (key_idx k)") (auto simp: key_ok_def)
  let ?m = "sec_set (unat (key_idx k)) (SecOccupied v (version_raw k)) m"
  have run: "occ_insert k v m = (Ok old, ?m)"
    using i s by (simp add: occ_insert_def occ_get_def occ_write_def)
  have "sec_ok ?m"
    using sec_ok_upd [OF ok i, of "SecOccupied v (version_raw k)" "sec_num m"] sec_count_keep [OF ok i s] k
    by (simp add: key_ok_def sec_set_num)
  moreover have "sec_view ?m = put k v (sec_view m)"
    using sec_view_put [OF k i, where v = v and n = "sec_num m"] by (simp add: sec_set_num)
  moreover have "sec_view m k = Some old" using i s by (simp add: sec_view_def Let_def)
  ultimately show ?thesis using that [of old ?m] by (simp add: run)
qed

lemma vac_insert_ok:
  assumes ok: "sec_ok m" and k: "key_ok k" and i: "unat (key_idx k) < vlen (sec_slots m)"
  obtains m' where "vac_insert k v m = (Ok v, m')" and "sec_ok m'" and "sec_view m' = put k v (sec_view m)"
    and "sec_num m' = sec_num m + (if sec_list m ! unat (key_idx k) = SecVacant then 1 else 0)"
proof -
  have w: "version_raw k OR 1 = version_raw k" using k by (simp add: key_ok_def odd_or_one_same)
  let ?s = "SecOccupied v (version_raw k)"
  let ?n = "sec_num m + (if sec_list m ! unat (key_idx k) = SecVacant then 1 else 0)"
  let ?m = "(sec_set (unat (key_idx k)) ?s m)\<lparr>sec_num := ?n\<rparr>"
  have run: "vac_insert k v m = (Ok v, ?m)"
    using i by (cases "sec_list m ! unat (key_idx k)")
      (simp_all add: vac_insert_def sec_new_occupied_def w sec_set_num sec_count_up_ok [OF ok])
  have "?n = length (filter sec_occ ((sec_list m)[unat (key_idx k) := ?s]))"
    by (cases "sec_list m ! unat (key_idx k)")
      (use sec_count_keep [OF ok i] sec_count_occupy [OF ok i] in \<open>auto\<close>)
  then have "sec_ok ?m" using k by (intro sec_ok_upd [OF ok i]) (simp_all add: key_ok_def)
  moreover have "sec_view ?m = put k v (sec_view m)" by (rule sec_view_put [OF k i])
  ultimately show ?thesis using that [of ?m] by (simp add: run)
qed

lemma sec_remove_present:
  assumes ok: "sec_ok m" and key: "sec_view m k = Some v"
  obtains m' where "sec_remove k m = (Ok (Some v), m')" and "sec_ok m'"
    and "sec_view m' = (sec_view m)(k := None)" and "Suc (sec_num m') = sec_num m"
proof -
  note i = sec_view_key [OF key]
  note rel = sec_count_release [OF ok i]
  let ?m = "(sec_set (unat (key_idx k)) SecVacant m)\<lparr>sec_num := sec_num m - 1\<rparr>"
  have run: "sec_remove k m = (Ok (Some v), ?m)"
    using i rel by (simp add: sec_remove_def sec_count_down_def sec_new_vacant_def sec_set_num_swap)
  have "sec_ok ?m" by (rule sec_ok_upd [OF ok i(1)]) (simp_all add: rel)
  moreover have "sec_view ?m = (sec_view m)(k := None)"
  proof (rule ext)
    fix l
    have "sec_view m l = None" if "unat (key_idx l) = unat (key_idx k)" "l \<noteq> k"
      using that i by (auto simp: sec_view_def Let_def dest: key_eqI_unat)
    then show "sec_view ?m l = ((sec_view m)(k := None)) l"
      using i by (auto simp: sec_view_upd)
  qed
  ultimately show ?thesis using that [of ?m] rel(2) by (simp add: run)
qed

lemma sec_remove_absent:
  assumes "sec_ok m" and "key_ok k" and "sec_view m k = None"
  shows "sec_remove k m = (Ok None, m)"
  using sec_contains_view [OF assms(1,2)] assms(3)
  by (auto simp: sec_remove_def sec_contains_key_def split: option.splits)

text \<open>The secondary map removes keys as the slot map does.\<close>

interpretation sec_store: key_removal sec_ok sec_view key_ok sec_remove
proof
  fix m :: "'a secmap" and k
  assume ok: "sec_ok m" and k: "key_ok k"
  show "\<exists>m'. (sec_remove k m :: ('a secmap, 'b, 'a option) run) = (Ok (sec_view m k), m') \<and> sec_ok m' \<and>
      sec_view m' = (sec_view m)(k := None)"
  proof (cases "sec_view m k")
    case None
    then have "(sec_view m)(k := None) = sec_view m" by auto
    then show ?thesis using ok None by (simp add: sec_remove_absent [OF ok k None])
  next
    case (Some v)
    obtain m' where "(sec_remove k m :: ('a secmap, 'b, 'a option) run) = (Ok (Some v), m')" "sec_ok m'"
        "sec_view m' = (sec_view m)(k := None)"
      by (rule sec_remove_present [OF ok Some])
    then show ?thesis using Some by auto
  qed
qed

section \<open>Entries in slot order\<close>

fun sec_entries_of :: "(nat \<times> 'v sec_slot) list \<Rightarrow> (key_data \<times> 'v) list" where
  "sec_entries_of [] = []"
| "sec_entries_of ((i, SecOccupied v w) # xs) = (key_new (of_nat i) w, v) # sec_entries_of xs"
| "sec_entries_of ((i, SecVacant) # xs) = sec_entries_of xs"

definition sec_entries_from :: "'v secmap \<Rightarrow> nat \<Rightarrow> (key_data \<times> 'v) list" where
  "sec_entries_from m cur = sec_entries_of (drop cur (List.enumerate 0 (sec_list m)))"

lemma sec_entries_from_end: "vlen (sec_slots m) \<le> cur \<Longrightarrow> sec_entries_from m cur = []"
  by (simp add: sec_entries_from_def)

lemma sec_entries_from_step:
  assumes "cur < vlen (sec_slots m)"
  shows "sec_entries_from m cur =
    (case sec_list m ! cur of SecOccupied v w \<Rightarrow> (key_new (of_nat cur) w, v) # sec_entries_from m (Suc cur)
     | SecVacant \<Rightarrow> sec_entries_from m (Suc cur))"
  using assms Cons_nth_drop_Suc [of cur "List.enumerate 0 (sec_list m)"]
  by (cases "sec_list m ! cur")
    (simp_all add: sec_entries_from_def nth_enumerate_eq flip: Cons_nth_drop_Suc)

lemma sec_entries_in:
  "(k, v) \<in> set (sec_entries_of xs) \<longleftrightarrow> (\<exists>i w. (i, SecOccupied v w) \<in> set xs \<and> k = key_new (of_nat i) w)"
  by (induction xs rule: sec_entries_of.induct) auto

lemma sec_entries_from_view:
  assumes "sec_ok m"
  shows "(k, v) \<in> set (sec_entries_from m cur) \<longleftrightarrow> sec_view m k = Some v \<and> cur \<le> unat (key_idx k)"
proof
  assume "(k, v) \<in> set (sec_entries_from m cur)"
  then obtain i w where iw: "(i, SecOccupied v w) \<in> set (drop cur (List.enumerate 0 (sec_list m)))"
      "k = key_new (of_nat i) w"
    by (auto simp: sec_entries_from_def sec_entries_in)
  from iw(1) obtain j where j: "cur + j < vlen (sec_slots m)" "i = cur + j" "sec_list m ! i = SecOccupied v w"
    by (force simp: in_set_conv_nth nth_enumerate_eq)
  have "unat (of_nat i :: u32) = i"
    using j sec_ok_small [OF assms] by (intro unat_of_nat_small) simp
  moreover have "w OR 1 = w" using sec_ok_wf [OF assms j(1)] j(2,3) by (simp add: odd_or_one_same)
  ultimately show "sec_view m k = Some v \<and> cur \<le> unat (key_idx k)"
    using iw j by (simp add: sec_view_def Let_def)
next
  assume "sec_view m k = Some v \<and> cur \<le> unat (key_idx k)"
  then have v: "sec_view m k = Some v" and c: "cur \<le> unat (key_idx k)" by auto
  note i = sec_view_key [OF v]
  have "odd (version_raw k)" using sec_ok_wf [OF assms i(1)] i(2) by simp
  then have "k = key_new (of_nat (unat (key_idx k))) (version_raw k)"
    by (simp add: key_new_of_key key_ok_def)
  moreover have "(unat (key_idx k), SecOccupied v (version_raw k)) \<in> set (drop cur (List.enumerate 0 (sec_list m)))"
    unfolding in_set_conv_nth using i c
    by (intro exI [of _ "unat (key_idx k) - cur"]) (simp add: nth_enumerate_eq)
  ultimately show "(k, v) \<in> set (sec_entries_from m cur)"
    unfolding sec_entries_from_def sec_entries_in by blast
qed

lemma sec_entries_length: "length (sec_entries_of xs) = length (filter sec_occ (map snd xs))"
  by (induction xs rule: sec_entries_of.induct) auto

lemma sec_entries_num: "sec_ok m \<Longrightarrow> length (sec_entries_from m 0) = sec_num m"
  by (simp add: sec_entries_from_def sec_entries_length sec_ok_def)

lemma sec_entries_distinct:
  assumes "sec_ok m"
  shows "distinct (map fst (sec_entries_from m cur))"
proof (cases "cur \<le> vlen (sec_slots m)")
  case False
  then show ?thesis by (simp add: sec_entries_from_end)
next
  case True
  then show ?thesis
  proof (induction rule: inc_induct)
    case base
    then show ?case by (simp add: sec_entries_from_end)
  next
    case (step n)
    have "(key_new (of_nat n) w, u) \<notin> set (sec_entries_from m (Suc n))" for w u
      using sec_entries_from_view [OF assms, of "key_new (of_nat n) w" u "Suc n"] step.hyps
        unat_of_nat_small [of n] sec_ok_small [OF assms] by simp
    then show ?case
      using step.hyps step.IH by (auto simp: sec_entries_from_step split: sec_slot.splits)
  qed
qed

lemma sec_dom:
  assumes "sec_ok m"
  shows "dom (sec_view m) = fst ` set (sec_entries_from m 0)" and "card (dom (sec_view m)) = sec_num m"
proof -
  show d: "dom (sec_view m) = fst ` set (sec_entries_from m 0)"
    using sec_entries_from_view [OF assms, of _ _ 0] by force
  show "card (dom (sec_view m)) = sec_num m"
    using distinct_card [OF sec_entries_distinct [OF assms, of 0]] sec_entries_num [OF assms]
    by (simp add: d)
qed

section \<open>Draining\<close>

lemma sec_drain_next_spec:
  fixes m :: "'v secmap"
  assumes "sec_ok m"
  shows "\<exists>m' cur'. (sec_drain_next m cur :: ('e, (key_data \<times> 'v) option) outcome \<times> 'v secmap \<times> nat) =
      (Ok (case sec_entries_from m cur of [] \<Rightarrow> None | e # es \<Rightarrow> Some e), m', cur') \<and>
    sec_ok m' \<and> cur \<le> cur' \<and> vlen (sec_slots m') = vlen (sec_slots m) \<and>
    sec_entries_from m' cur' = tl (sec_entries_from m cur) \<and>
    (\<forall>j < vlen (sec_slots m). sec_list m' ! j = (if cur \<le> j \<and> j < cur' then SecVacant else sec_list m ! j)) \<and>
    (sec_entries_from m cur = [] \<longrightarrow> vlen (sec_slots m) \<le> cur')"
  using assms
proof (induction m cur rule: sec_drain_next.induct)
  case (1 m cur)
  show ?case
  proof (cases "cur < vlen (sec_slots m)")
    case inside: True
    show ?thesis
    proof (cases "sec_list m ! cur")
      case occ: (SecOccupied v w)
      let ?m = "(sec_set cur SecVacant m)\<lparr>sec_num := sec_num m - 1\<rparr>"
      note rel = sec_count_release [OF 1(2) inside occ]
      have "(sec_drain_next m cur :: ('e, (key_data \<times> 'v) option) outcome \<times> 'v secmap \<times> nat) =
          (Ok (Some (key_new (of_nat cur) w, v)), ?m, cur + 1)"
        using inside occ rel
        by (subst sec_drain_next.simps) (simp add: sec_count_down_def sec_new_vacant_def)
      moreover have "sec_ok ?m" by (rule sec_ok_upd [OF 1(2) inside]) (simp_all add: rel)
      moreover have "sec_entries_from ?m (Suc cur) = sec_entries_from m (Suc cur)"
        by (simp add: sec_entries_from_def enumerate_eq_zip drop_zip)
      ultimately show ?thesis
        using inside occ by (auto simp: sec_entries_from_step nth_list_update less_Suc_eq)
    next
      case vac: SecVacant
      have "(sec_drain_next m cur :: ('e, (key_data \<times> 'v) option) outcome \<times> 'v secmap \<times> nat) =
          sec_drain_next m (cur + 1)"
        using inside vac by (subst sec_drain_next.simps) simp
      moreover have "sec_entries_from m cur = sec_entries_from m (Suc cur)"
        using inside vac by (simp add: sec_entries_from_step)
      moreover have "cur \<le> j \<Longrightarrow> \<not> Suc cur \<le> j \<Longrightarrow> sec_list m ! j = SecVacant" for j
        using vac by (cases "j = cur") auto
      ultimately show ?thesis using 1(1) [OF inside vac 1(2)]
        by (elim ex_forward) auto
    qed
  next
    case False
    then show ?thesis
      using 1(2) by (subst sec_drain_next.simps) (auto simp: sec_entries_from_end)
  qed
qed

lemma sec_drain_rest_spec:
  fixes m :: "'v secmap"
  assumes "sec_ok m"
  shows "\<exists>m'. (sec_drain_rest m cur :: ('e, (key_data \<times> 'v) list) outcome \<times> 'v secmap) =
      (Ok (sec_entries_from m cur), m') \<and>
    sec_ok m' \<and> vlen (sec_slots m') = vlen (sec_slots m) \<and>
    (\<forall>j < vlen (sec_slots m). sec_list m' ! j = (if cur \<le> j then SecVacant else sec_list m ! j))"
  using assms
proof (induction "sec_entries_from m cur" arbitrary: m cur)
  case Nil
  then obtain m' cur' where "(sec_drain_next m cur :: ('e, (key_data \<times> 'v) option) outcome \<times> 'v secmap \<times> nat)
      = (Ok None, m', cur')" "sec_ok m'" "vlen (sec_slots m') = vlen (sec_slots m)" "vlen (sec_slots m) \<le> cur'"
      "\<forall>j < vlen (sec_slots m). sec_list m' ! j = (if cur \<le> j \<and> j < cur' then SecVacant else sec_list m ! j)"
    using sec_drain_next_spec [OF Nil.prems, where 'e = 'e and cur = cur] by auto
  then show ?case using Nil.hyps by (subst sec_drain_rest.simps) simp
next
  case (Cons e es)
  then obtain m1 cur1 where step: "(sec_drain_next m cur :: ('e, (key_data \<times> 'v) option) outcome \<times> 'v secmap \<times> nat)
      = (Ok (Some e), m1, cur1)" and 1: "sec_ok m1" "cur \<le> cur1"
      "vlen (sec_slots m1) = vlen (sec_slots m)" "sec_entries_from m1 cur1 = es"
      "\<forall>j < vlen (sec_slots m). sec_list m1 ! j = (if cur \<le> j \<and> j < cur1 then SecVacant else sec_list m ! j)"
    using sec_drain_next_spec [OF Cons.prems, where 'e = 'e and cur = cur] by (auto split: list.splits)
  then obtain m' where "(sec_drain_rest m1 cur1 :: ('e, (key_data \<times> 'v) list) outcome \<times> 'v secmap) = (Ok es, m')"
      "sec_ok m'" "vlen (sec_slots m') = vlen (sec_slots m1)"
      "\<forall>j < vlen (sec_slots m1). sec_list m' ! j = (if cur1 \<le> j then SecVacant else sec_list m1 ! j)"
    using Cons.hyps(1) [of m1 cur1] by auto
  then show ?case
    using 1 Cons.hyps(2) [symmetric] by (subst sec_drain_rest.simps) (simp add: step)
qed

section \<open>Comparison\<close>

lemma sec_ok_key: "sec_ok m \<Longrightarrow> sec_view m k = Some v \<Longrightarrow> key_ok k"
  using sec_view_key [of m k v] sec_ok_wf [of m "unat (key_idx k)"] by (simp add: key_ok_def)

lemma sec_iter_scan_entries:
  assumes "length (sec_entries_of xs) \<le> n"
  shows "\<exists>ys. (sec_iter_scan xs n :: ('e, (key_data \<times> 'v) option) outcome \<times> 'v sec_iter) =
      (Ok (case sec_entries_of xs of [] \<Rightarrow> None | e # es \<Rightarrow> Some e),
       SecIter ys (if sec_entries_of xs = [] then n else n - 1)) \<and>
    sec_entries_of ys = tl (sec_entries_of xs) \<and> length ys \<le> length xs \<and> (xs \<noteq> [] \<longrightarrow> length ys < length xs)"
  using assms
  by (induction xs n rule: sec_iter_scan.induct) auto

lemma sec_all_found_spec:
  fixes other :: "'v secmap"
  assumes "length (sec_entries_of xs) \<le> n" and "length xs \<le> fuel"
    and "\<forall>(k, v) \<in> set (sec_entries_of xs). key_ok k"
  shows "(sec_all_found fuel (SecIter xs n) other :: ('e, bool) outcome) =
    Ok (\<forall>(k, v) \<in> set (sec_entries_of xs). sec_view other k = Some v)"
  using assms
proof (induction fuel arbitrary: xs n)
  case 0
  then show ?case by (simp add: sec_iter_next_def)
next
  case (Suc fuel)
  obtain ys where ys: "(sec_iter_scan xs n :: ('e, (key_data \<times> 'v) option) outcome \<times> 'v sec_iter) =
      (Ok (case sec_entries_of xs of [] \<Rightarrow> None | e # es \<Rightarrow> Some e),
       SecIter ys (if sec_entries_of xs = [] then n else n - 1))"
      "sec_entries_of ys = tl (sec_entries_of xs)" "xs \<noteq> [] \<longrightarrow> length ys < length xs"
    using sec_iter_scan_entries [OF Suc.prems(1), where 'e = 'e] by auto
  show ?case
  proof (cases "sec_entries_of xs")
    case Nil
    then show ?thesis using ys(1) by (simp add: sec_iter_next_def)
  next
    case (Cons e es)
    obtain k v where e: "e = (k, v)" by (cases e)
    have k: "key_ok k" using Suc.prems(3) Cons e by auto
    have "xs \<noteq> []" using Cons by auto
    then have "(sec_all_found fuel (SecIter ys (n - 1)) other :: ('e, bool) outcome) =
        Ok (\<forall>(k, v) \<in> set es. sec_view other k = Some v)"
      using Suc.IH [of ys "n - 1"] Suc.prems ys(2,3) Cons by auto
    then show ?thesis
      using ys(1) Cons e by (cases "sec_view other k") (auto simp: sec_iter_next_def sec_get_view [OF k])
  qed
qed

lemma map_le_same_card:
  assumes "m \<subseteq>\<^sub>m n" and "finite (dom n)" and "card (dom m) = card (dom n)"
  shows "m = n"
proof -
  have "dom m = dom n" using assms by (intro card_subset_eq map_le_implies_dom_le) auto
  then show ?thesis using assms(1) by (intro map_le_antisym) (auto simp: map_le_def)
qed

section \<open>Retaining\<close>

lemma sec_slot_key:
  assumes "sec_ok m" and "i < vlen (sec_slots m)" and "sec_list m ! i = SecOccupied v w"
  shows "unat (key_idx (key_new (of_nat i) w)) = i" and "version_raw (key_new (of_nat i) w) = w"
    and "sec_view m (key_new (of_nat i) w) = Some v"
    and "unat (key_idx k) = i \<Longrightarrow> k \<noteq> key_new (of_nat i) w \<Longrightarrow> sec_view m k = None"
proof -
  show 1: "unat (key_idx (key_new (of_nat i) w)) = i"
    using assms(2) sec_ok_small [OF assms(1)] by (simp add: unat_of_nat_small)
  show 2: "version_raw (key_new (of_nat i) w) = w"
    using sec_ok_wf [OF assms(1,2)] assms(3) by (simp add: odd_or_one_same)
  show "sec_view m (key_new (of_nat i) w) = Some v" using assms 1 2 by (simp add: sec_view_def Let_def)
  assume k: "unat (key_idx k) = i" "k \<noteq> key_new (of_nat i) w"
  then have "version_raw k \<noteq> w" using 1 2 key_eqI_unat [of k "key_new (of_nat i) w"] by auto
  then show "sec_view m k = None" using assms k by (simp add: sec_view_def Let_def)
qed

text \<open>One round of the loop at an occupied slot.\<close>

lemma sec_retain_step:
  fixes m :: "'v secmap"
  assumes ok: "sec_ok m" and i: "i < vlen (sec_slots m)" and occ: "sec_list m ! i = SecOccupied v w"
  defines "k \<equiv> key_new (of_nat i) w"
  shows "sec_ok (sec_set i (SecOccupied v' w) m)"
    and "sec_view (sec_set i (SecOccupied v' w) m) = (sec_view m)(k \<mapsto> v')"
    and "\<exists>m2. (sec_count_down (sec_set i (SecOccupied v' w) m) :: ('v secmap, 'e, unit) run) = (Ok (), m2) \<and>
      sec_ok (sec_set i SecVacant m2) \<and> vlen (sec_slots m2) = vlen (sec_slots m) \<and>
      sec_view (sec_set i SecVacant m2) = (sec_view m)(k := None)"
proof -
  note key = sec_slot_key [OF ok i occ]
  let ?s = "SecOccupied v' w"
  let ?m1 = "sec_set i ?s m"
  have w: "sec_wf ?s" using sec_ok_wf [OF ok i] occ by simp
  show ok1: "sec_ok ?m1"
    using sec_ok_upd [OF ok i w, of "sec_num m"] sec_count_keep [OF ok i occ, of v' w] by (simp add: sec_set_num)
  show "sec_view ?m1 = (sec_view m)(k \<mapsto> v')"
  proof (rule ext)
    fix l
    have upd: "sec_view ?m1 l =
        (if unat (key_idx l) = i then (if w = version_raw l then Some v' else None) else sec_view m l)"
      using sec_view_upd [OF i, where s = ?s and n = "sec_num m" and k = l] by (simp add: sec_set_num)
    have "l = k \<longleftrightarrow> unat (key_idx l) = i \<and> w = version_raw l"
      using key(1,2) key_eqI_unat [of l k] by (auto simp: k_def)
    then show "sec_view ?m1 l = ((sec_view m)(k \<mapsto> v')) l"
      using key(4) [of l] by (simp add: upd k_def)
  qed
  have i1: "i < vlen (sec_slots ?m1)" and occ1: "sec_list ?m1 ! i = ?s" using i by auto
  note rel = sec_count_release [OF ok1 i1 occ1]
  let ?m2 = "?m1\<lparr>sec_num := sec_num m - 1\<rparr>"
  have "sec_ok (sec_set i SecVacant ?m2)"
    using sec_ok_upd [OF ok1 i1, of SecVacant "sec_num m - 1"] rel by (simp add: sec_set_num_swap)
  moreover have "sec_view (sec_set i SecVacant ?m2) = (sec_view m)(k := None)"
  proof (rule ext)
    fix l
    have "sec_set i SecVacant ?m2 = (sec_set i SecVacant m)\<lparr>sec_num := sec_num m - 1\<rparr>"
      by (simp add: sec_set_def)
    then show "sec_view (sec_set i SecVacant ?m2) l = ((sec_view m)(k := None)) l"
      using sec_view_upd [OF i, where s = SecVacant and n = "sec_num m - 1" and k = l] key(1,2) key(4) [of l] by (auto simp: k_def)
  qed
  moreover have "(sec_count_down ?m1 :: ('v secmap, 'e, unit) run) = (Ok (), ?m2)"
    using rel(2) by (simp add: sec_count_down_def)
  ultimately show "\<exists>m2. (sec_count_down ?m1 :: ('v secmap, 'e, unit) run) = (Ok (), m2) \<and>
      sec_ok (sec_set i SecVacant m2) \<and> vlen (sec_slots m2) = vlen (sec_slots m) \<and>
      sec_view (sec_set i SecVacant m2) = (sec_view m)(k := None)"
    by (intro exI [of _ ?m2]) simp
qed

lemma sec_retain_loop_spec:
  fixes f :: "('f, 'v) retainer" and m :: "'v secmap"
  assumes pure: "\<And>k v st. fst (f k v st) = g k v"
    and "sec_ok m" and "\<forall>i \<in> set js. i < vlen (sec_slots m)" and "distinct js"
  shows "\<exists>m' st'. (sec_retain_loop f js st m :: ('v secmap, 'e, 'f) run) = (Ok st', m') \<and> sec_ok m' \<and>
    (\<forall>k. sec_view m' k =
       (if unat (key_idx k) \<in> set js then retained g k (sec_view m k) else sec_view m k))"
  using assms(2-4)
proof (induction js arbitrary: m st)
  case (Cons i js)
  have i: "i < vlen (sec_slots m)" using Cons.prems by simp
  show ?case
  proof (cases "sec_list m ! i")
    case occ: (SecOccupied v w)
    let ?k = "key_new (of_nat i) w"
    note key = sec_slot_key [OF Cons.prems(1) i occ]
    obtain keep v' st' where fk: "f ?k v st = ((keep, v'), st')" by (metis prod.collapse)
    then have g: "g ?k v = (keep, v')" using pure [of ?k v st] by simp
    note step = sec_retain_step(1,2) [OF Cons.prems(1) i occ, of v']
      sec_retain_step(3) [OF Cons.prems(1) i occ, of v', where 'e = 'e]
    show ?thesis
    proof (cases keep)
      case True
      obtain m' st2 where "(sec_retain_loop f js st' (sec_set i (SecOccupied v' w) m) :: ('v secmap, 'e, 'f) run) = (Ok st2, m')"
          "sec_ok m'" "\<forall>k. sec_view m' k =
            (if unat (key_idx k) \<in> set js then retained g k (((sec_view m)(?k \<mapsto> v')) k) else ((sec_view m)(?k \<mapsto> v')) k)"
        using Cons.IH [OF step(1), of st'] Cons.prems step(2) by auto
      then show ?thesis
        using i occ fk True key g Cons.prems(3) by (auto simp: retained_def)
    next
      case False
      obtain m2 where m2: "(sec_count_down (sec_set i (SecOccupied v' w) m) :: ('v secmap, 'e, unit) run) = (Ok (), m2)"
          "sec_ok (sec_set i SecVacant m2)" "vlen (sec_slots m2) = vlen (sec_slots m)"
          "sec_view (sec_set i SecVacant m2) = (sec_view m)(?k := None)"
        using step(3) by auto
      obtain m' st2 where "(sec_retain_loop f js st' (sec_set i SecVacant m2) :: ('v secmap, 'e, 'f) run) = (Ok st2, m')"
          "sec_ok m'" "\<forall>k. sec_view m' k =
            (if unat (key_idx k) \<in> set js then retained g k (((sec_view m)(?k := None)) k) else ((sec_view m)(?k := None)) k)"
        using Cons.IH [OF m2(2), of st'] Cons.prems m2(3,4) by auto
      then show ?thesis
        using i occ fk False m2(1) key g Cons.prems(3) by (auto simp: retained_def sec_new_vacant_def)
    qed
  next
    case SecVacant
    then have "sec_view m k = None" if "unat (key_idx k) = i" for k
      using that by (simp add: sec_view_def Let_def)
    then show ?thesis
      using Cons.IH [of m st] Cons.prems SecVacant by (auto simp: retained_def)
  qed
qed simp

section \<open>Clones\<close>

context cloneable
begin

lemma sec_slot_cloneable: "cloneable (sec_slot_try_clone cl) (map_sec_slot view)"
proof
  fix s h t h'
  assume "sec_slot_try_clone cl s h = (Ok t, h')"
  then show "map_sec_slot view t = map_sec_slot view s"
    by (cases s; cases rule: clone_cases [of "sec_value s" h]) auto
next
  fix s h
  show "clean (fst (sec_slot_try_clone cl s h))"
    by (cases s; cases rule: clone_cases [of "sec_value s" h]) auto
qed

end

interpretation sec_slot_copy: cloneable "sec_slot_try_clone copy_try_clone" "map_sec_slot (\<lambda>x. x)"
  by (rule copy.sec_slot_cloneable)

lemma sec_slot_view [simp]:
  "sec_version (map_sec_slot f s) = sec_version s" "sec_occ (map_sec_slot f s) = sec_occ s"
  "sec_wf (map_sec_slot f s) = sec_wf s" "sec_into_option (map_sec_slot f s) = map_option f (sec_into_option s)"
  by (cases s; simp)+

text \<open>Everything the map's invariant and contents depend on survives the view.\<close>

lemma same_view_list:
  assumes "map (map_sec_slot f) ys = map (map_sec_slot f) xs"
  shows "length ys = length xs" and "length (filter sec_occ ys) = length (filter sec_occ xs)"
    and "(\<forall>s \<in> set ys. sec_wf s) \<longleftrightarrow> (\<forall>s \<in> set xs. sec_wf s)"
    and "i < length xs \<Longrightarrow> map_sec_slot f (ys ! i) = map_sec_slot f (xs ! i)"
proof -
  show len: "length ys = length xs" using assms by (metis length_map)
  have occ: "length (filter sec_occ zs) = length (filter sec_occ (map (map_sec_slot f) zs))" for zs
    by (induction zs) auto
  show "length (filter sec_occ ys) = length (filter sec_occ xs)" using occ [of xs] occ [of ys] assms by simp
  have wf: "(\<forall>s \<in> set zs. sec_wf s) \<longleftrightarrow> (\<forall>s \<in> set (map (map_sec_slot f) zs). sec_wf s)" for zs
    by simp
  show "(\<forall>s \<in> set ys. sec_wf s) \<longleftrightarrow> (\<forall>s \<in> set xs. sec_wf s)"
    using wf [of xs] wf [of ys] assms by simp
  show "i < length xs \<Longrightarrow> map_sec_slot f (ys ! i) = map_sec_slot f (xs ! i)"
    using assms len by (metis nth_map)
qed

section \<open>A concrete map\<close>

definition sample_sec :: "nat secmap" where
  "sample_sec = \<lparr>sec_slots = Vec [SecVacant, SecOccupied 10 1, SecVacant, SecOccupied 20 5] 8 (Layout 16 8),
     sec_num = 2\<rparr>"

lemma sample_sec_ok [simp]: "sec_ok sample_sec"
  by (simp add: sample_sec_def sec_ok_def vec_ok_def isize_max_def usize_max_def MAX_SLOTS_LEN_eq)

lemma sample_sec_view:
  "sec_view sample_sec (KeyData 1 1) = Some 10" "sec_view sample_sec (KeyData 3 5) = Some 20"
  "sec_view sample_sec (KeyData 3 3) = None" "stamp_at sample_sec (KeyData 3 3) = 5"
  "stamp_at sample_sec (KeyData 1 1) = 1"
  by (simp_all add: sample_sec_def sec_view_def stamp_at_def sec_at_def Let_def)

section \<open>Properties\<close>

text \<open>What an insertion can do.\<close>

lemma sec_insert_outcome:
  fixes m :: "'v secmap"
  assumes "sec_ok m" and "key_ok k" and "\<not> key_is_null k"
    and "sec_try_insert_give_back k v (m, h) = (r, (m', h'))"
  shows "sec_ok m' \<and>
    ((\<exists>e. r = Err (v, e) \<and> m' = m) \<or>
     (if version_raw k = stamp_at m k then r = Ok (sec_view m k) \<and> sec_view m k \<noteq> None \<and> sec_view m' = put k v (sec_view m)
      else if is_older_version (version_raw k) (stamp_at m k) then r = Ok None \<and> sec_view m' = sec_view m
      else r = Ok None \<and> sec_view m' = put k v (sec_view m)))"
proof (cases rule: try_entry_cases [OF assms(1,3), of h])
  case (1 e h1)
  then show ?thesis using assms(1,4) by (cases e) (auto simp: sec_try_insert_give_back_def)
next
  case (2 m1 h1)
  note entry = this
  show ?thesis
  proof (cases "version_raw k = stamp_at m k")
    case True
    have st: "sec_version (sec_list m1 ! unat (key_idx k)) = version_raw k" using entry(5) True by simp
    obtain old m2 where "sec_view m1 k = Some old"
      "(occ_insert k v m1 :: ('v secmap, 'v \<times> try_reserve_error, 'v) run) = (Ok old, m2)"
      "sec_ok m2" "sec_view m2 = put k v (sec_view m1)"
      by (rule occ_insert_ok [OF entry(2) assms(2) entry(4) st])
    then show ?thesis
      using assms(4) entry True by (auto simp: sec_try_insert_give_back_def sec_lift_def)
  next
    case differ: False
    show ?thesis
    proof (cases "is_older_version (version_raw k) (stamp_at m k)")
      case True
      then show ?thesis using assms(4) entry differ by (auto simp: sec_try_insert_give_back_def)
    next
      case False
      obtain m2 where "(vac_insert k v m1 :: ('v secmap, 'v \<times> try_reserve_error, 'v) run) = (Ok v, m2)"
        "sec_ok m2" "sec_view m2 = put k v (sec_view m1)"
        by (rule vac_insert_ok [OF entry(2) assms(2) entry(4)])
      then show ?thesis
        using assms(4) entry differ False by (auto simp: sec_try_insert_give_back_def sec_lift_def)
    qed
  qed
qed

text \<open>Claim C39.
  Insertion into a secondary map follows the version order. A failed growth hands the value back
  and leaves the map as it was. Otherwise: the key's own version replaces the value and returns the
  old one; an older version is dropped without a trace; any other version takes over the slot, and
  whatever the index held under another key is gone.\<close>

theorem sec_insert_spec:
  fixes m :: "'v secmap"
  assumes "sec_ok m" and "key_ok k" and "\<not> key_is_null k"
    and "sec_try_insert_give_back k v (m, h) = (r, (m', h'))"
  shows "sec_ok m' \<and>
    ((\<exists>e. r = Err (v, e) \<and> m' = m) \<or>
     (if version_raw k = stamp_at m k then r = Ok (sec_view m k) \<and> sec_view m k \<noteq> None \<and> sec_view m' = put k v (sec_view m)
      else if is_older_version (version_raw k) (stamp_at m k) then r = Ok None \<and> sec_view m' = sec_view m
      else r = Ok None \<and> sec_view m' = put k v (sec_view m)))"
  by (rule sec_insert_outcome [OF assms])

theorem sec_insert_spec_witness:
  "sec_view (fst (snd (sec_try_insert_give_back (KeyData 3 3) 7 (sample_sec, heap_with policy_nothing)))) =
     sec_view sample_sec \<or>
   (\<exists>e. fst (sec_try_insert_give_back (KeyData 3 3) 7 (sample_sec, heap_with policy_nothing)) = Err (7, e))"
proof -
  let ?r = "sec_try_insert_give_back (KeyData 3 3) 7 (sample_sec, heap_with policy_nothing)"
  show ?thesis
    using sec_insert_spec [of sample_sec "KeyData 3 3" 7 "heap_with policy_nothing" "fst ?r" "fst (snd ?r)" "snd (snd ?r)"]
    by (simp add: key_ok_def key_is_null_def sample_sec_view is_older_version_def) blast
qed

text \<open>Lookup and removal: \<open>get\<close> and \<open>contains_key\<close> answer the contents, \<open>remove\<close> returns exactly the stored
  value and deletes only that key, for every key that safe code can hold; the unchecked slot reads
  behind them never meet a vacant slot.\<close>

lemma sec_access_spec:
  fixes m :: "'v secmap"
  assumes "sec_ok m" and "key_ok k"
  shows "(sec_get m k :: ('e, 'v option) outcome) = Ok (sec_view m k) \<and> (sec_contains_key m k \<longleftrightarrow> sec_view m k \<noteq> None) \<and>
    (\<exists>m'. (sec_remove k m :: ('v secmap, 'e, 'v option) run) = (Ok (sec_view m k), m') \<and> sec_ok m' \<and>
      sec_view m' = (sec_view m)(k := None))"
  using sec_get_view [OF assms(2)] sec_contains_view [OF assms] sec_store.rem_law [OF assms] by blast

text \<open>A vacant slot counts as version 0, so a key whose version is past half the range, which the slot
  map hands out after enough reuses, is taken for older than nothing at all: inserting it into a
  map that holds nothing at its index answers \<open>Ok(None)\<close>, as for a new entry, and stores nothing.\<close>

lemma sec_insert_drops_late_versions:
  fixes m :: "'v secmap"
  assumes "sec_ok m" and "key_ok k" and "\<not> key_is_null k"
    and "stamp_at m k = 0" and "2 ^ 31 \<le> unat (version_raw k)"
    and "sec_try_insert k v (m, h) = (Ok r, (m', h'))"
  shows "r = None \<and> sec_view m' = sec_view m \<and> sec_view m' k = None"
proof -
  obtain q where run: "sec_try_insert_give_back k v (m, h) = (q, (m', h'))" "q = Ok r"
    using assms(6) by (cases "sec_try_insert_give_back k v (m, h)") (auto simp: sec_try_insert_def)
  have "is_older_version (version_raw k) (stamp_at m k)" "version_raw k \<noteq> stamp_at m k"
    using assms(4,5) by (auto simp: is_older_version_def)
  moreover have "sec_view m k = None"
    using assms(2,4) by (cases "sec_list m ! unat (key_idx k)")
      (auto simp: sec_view_def Let_def stamp_at_def sec_at_def key_ok_def)
  ultimately show ?thesis
    using sec_insert_outcome [OF assms(1-3) run(1)] run(2) by auto
qed

text \<open>Draining yields every entry whose key has an index other than 0, each once and in slot order, and
  dropping the iterator leaves exactly the rest; the count stays right throughout. A map filled
  under the keys of a slot map, whose indices start at 1, is therefore empty after \<open>clear\<close>.\<close>

lemma sec_drain_spec:
  fixes m :: "'v secmap"
  assumes "sec_ok m"
  shows "\<exists>es m'. (sec_drain_rest (fst (sec_drain m)) (snd (sec_drain m)) :: ('e, (key_data \<times> 'v) list) outcome \<times> 'v secmap) =
      (Ok es, m') \<and> (sec_clear m :: ('e, unit) outcome \<times> 'v secmap) = (Ok (), m') \<and>
    sec_ok m' \<and> distinct (map fst es) \<and>
    (\<forall>k v. (k, v) \<in> set es \<longleftrightarrow> sec_view m k = Some v \<and> key_idx k \<noteq> 0) \<and>
    sec_view m' = (\<lambda>k. if key_idx k = 0 then sec_view m k else None) \<and>
    (sec_is_empty m' \<longleftrightarrow> (\<forall>k. key_idx k = 0 \<longrightarrow> sec_view m k = None))"
proof -
  obtain m' where m': "(sec_drain_rest m 1 :: ('e, (key_data \<times> 'v) list) outcome \<times> 'v secmap) =
      (Ok (sec_entries_from m 1), m')" "sec_ok m'" "vlen (sec_slots m') = vlen (sec_slots m)"
      "\<forall>j < vlen (sec_slots m). sec_list m' ! j = (if 1 \<le> j then SecVacant else sec_list m ! j)"
    using sec_drain_rest_spec [OF assms, where 'e = 'e and cur = 1] by auto
  have idx: "1 \<le> unat (key_idx k) \<longleftrightarrow> key_idx k \<noteq> 0" for k
    by (simp add: Suc_le_eq unat_gt_0)
  have view: "sec_view m' = (\<lambda>k. if key_idx k = 0 then sec_view m k else None)"
    using m'(3,4) idx by (fastforce simp: fun_eq_iff sec_view_def Let_def)
  have "sec_is_empty m' \<longleftrightarrow> dom (sec_view m') = {}"
    using sec_dom(1) [OF m'(2)] sec_entries_num [OF m'(2)] by (auto simp: sec_is_empty_def)
  also have "\<dots> \<longleftrightarrow> (\<forall>k. key_idx k = 0 \<longrightarrow> sec_view m k = None)"
    by (simp add: view fun_eq_iff)
  finally show ?thesis
    using m' view sec_entries_distinct [OF assms, of 1] sec_entries_from_view [OF assms, of _ _ 1]
    by (intro exI [of _ "sec_entries_from m 1"] exI [of _ m'])
      (simp add: sec_drain_def sec_clear_def idx [unfolded One_nat_def])
qed

text \<open>Two secondary maps compare equal exactly when they hold the same contents, whatever their slot
  vectors look like.\<close>

lemma sec_eq_spec:
  fixes m other :: "'v secmap"
  assumes "sec_ok m" and "sec_ok other"
  shows "(sec_eq m other :: ('e, bool) outcome) = Ok (sec_view m = sec_view other)"
proof (cases "sec_num m = sec_num other")
  case False
  then have "sec_view m \<noteq> sec_view other" using sec_dom(2) assms by metis
  then show ?thesis using False by (simp add: sec_eq_def sec_len_def)
next
  case True
  have "(sec_eq m other :: ('e, bool) outcome) =
      Ok (\<forall>(k, v) \<in> set (sec_entries_from m 0). sec_view other k = Some v)"
    using True sec_all_found_spec [of "List.enumerate 0 (sec_list m)" "sec_num m" "vlen (sec_slots m)" other, where 'e = 'e]
      sec_entries_num [OF assms(1)] sec_entries_from_view [OF assms(1), of _ _ 0] sec_ok_key [OF assms(1)]
    by (fastforce simp: sec_eq_def sec_len_def sec_iter_def sec_entries_from_def)
  also have "(\<forall>(k, v) \<in> set (sec_entries_from m 0). sec_view other k = Some v) \<longleftrightarrow>
      sec_view m \<subseteq>\<^sub>m sec_view other"
    by (auto simp: map_le_def Ball_def split_paired_All sec_entries_from_view [OF assms(1)])
  also have "\<dots> \<longleftrightarrow> sec_view m = sec_view other"
    using sec_dom [OF assms(1)] sec_dom [OF assms(2)] True
    by (auto intro: map_le_same_card)
  finally show ?thesis .
qed

text \<open>Cloning a secondary map gives a map with the same keys, whose values are clones of the values,
  or an error; the original is only read. The clone is well formed again.\<close>

lemma sec_clone_spec:
  fixes m :: "'v secmap"
  assumes "sec_ok m" and "cloneable cl view" and "sec_try_clone cl m h = (r, h')"
  shows "(\<exists>e. r = Err e) \<or>
    (\<exists>c. r = Ok c \<and> sec_ok c \<and> sec_len c = sec_len m \<and>
       (\<forall>k. map_option view (sec_view c k) = map_option view (sec_view m k)))"
proof -
  note slot = cloneable.sec_slot_cloneable [OF assms(2)]
  show ?thesis
  proof (cases rule: cloneable.vec_clone_cases [OF slot, of "sec_slots m" h])
    case (1 w h1)
    note same = same_view_list [OF 1(2)]
    let ?c = "\<lparr>sec_slots = w, sec_num = sec_num m\<rparr>"
    have "vec_ok w"
      using 1(3) assms(1) by (simp add: sec_ok_def vec_ok_def)
    then have "sec_ok ?c"
      using assms(1) same(1-3) by (auto simp: sec_ok_def)
    moreover have "map_option view (sec_view ?c k) = map_option view (sec_view m k)" for k
    proof (cases "unat (key_idx k) < vlen (sec_slots m)")
      case True
      have "map_sec_slot view (items w ! unat (key_idx k)) = map_sec_slot view (sec_list m ! unat (key_idx k))"
        using same(4) True by simp
      from arg_cong [OF this, of sec_version] arg_cong [OF this, of sec_into_option]
      show ?thesis using True same(1) by (simp add: sec_view_def Let_def)
    next
      case False
      then show ?thesis using same(1) by (simp add: sec_view_def Let_def)
    qed
    moreover have "r = Ok ?c" using 1(1) assms(3) by (simp add: sec_try_clone_def)
    ultimately show ?thesis by (auto simp: sec_len_def)
  next
    case (2 e h1)
    then show ?thesis using assms(3) by (auto simp: sec_try_clone_def)
  qed
qed

text \<open>\<open>retain\<close> asks about every entry once, keeps exactly the accepted ones with the values the closure
  wrote through its reference, and keeps the count in step (for closures whose answers do not depend
  on their own state).\<close>

lemma sec_retain_spec:
  fixes m :: "'v secmap" and f :: "('f, 'v) retainer"
  assumes "sec_ok m" and "\<forall>k v st. fst (f k v st) = g k v"
  shows "\<exists>m' st'. (sec_retain f st m :: ('v secmap, 'e, 'f) run) = (Ok st', m') \<and> sec_ok m' \<and>
    (\<forall>k. sec_view m' k = retained g k (sec_view m k))"
proof -
  have pure: "\<And>k v st. fst (f k v st) = g k v" using assms(2) by blast
  obtain m' st' where m': "(sec_retain f st m :: ('v secmap, 'e, 'f) run) = (Ok st', m')" "sec_ok m'"
      "\<forall>k. sec_view m' k = (if unat (key_idx k) \<in> set [0..<vlen (sec_slots m)] then retained g k (sec_view m k)
        else sec_view m k)"
    using sec_retain_loop_spec [where f = f and g = g and m = m and js = "[0..<vlen (sec_slots m)]" and st = st and 'e = 'e,
        OF pure assms(1)]
    by (auto simp: sec_retain_def)
  have "sec_view m' k = retained g k (sec_view m k)" for k
    using m'(3) sec_view_key(1) [of m k] by (cases "sec_view m k") (auto simp: retained_def)
  then show ?thesis using m' by blast
qed

end
