(* ===== verification/Report.thy ===== *)
theory Report
  imports Deque
begin

text \<open>
  Error reports (\<^verbatim>\<open>rustyfill-errors/src/report.rs\<close>, \<^verbatim>\<open>frame/item.rs\<close>,
  \<^verbatim>\<open>frame/attachment.rs\<close>, \<^verbatim>\<open>frame/frame.rs\<close>): a head frame held inline,
  a deque of peers, and below each frame a tree of type-erased child frames. Contexts and
  attachments of every type are values of one type \<open>'p\<close>; a downcast to a Rust type is a predicate
  on them. The memory layouts that the compiler gives to the types of a \<open>Report<C>\<close> are a
  parameter. A method that consumes and returns a report is a function on the report and the heap.
\<close>

section \<open>Items\<close>

datatype item_kind = KindContext | KindPrintableAttachment | KindOpaqueAttachment

type_synonym location = "string \<times> nat \<times> nat"

record 'p context_frame =
  cf_context :: 'p
  cf_segment :: "string option"
  cf_location :: location

definition context_frame_new :: "'p \<Rightarrow> location \<Rightarrow> 'p context_frame" where
  "context_frame_new c loc = \<lparr>cf_context = c, cf_segment = None, cf_location = loc\<rparr>"

definition cf_attach_segment :: "string \<Rightarrow> 'p context_frame \<Rightarrow> 'p context_frame" where
  "cf_attach_segment segment cf = cf\<lparr>cf_segment := Some segment\<rparr>"

text \<open>\<open>Box<dyn ItemImpl>\<close>: the concrete type behind the trait object is the constructor.\<close>

datatype 'p item =
    ContextItem "'p context_frame"
  | PrintableAttachment 'p
  | OpaqueAttachment 'p

fun item_kind_of :: "'p item \<Rightarrow> item_kind" where
  "item_kind_of (ContextItem cf) = KindContext"
| "item_kind_of (PrintableAttachment a) = KindPrintableAttachment"
| "item_kind_of (OpaqueAttachment a) = KindOpaqueAttachment"

fun as_any :: "'p item \<Rightarrow> 'p" where
  "as_any (ContextItem cf) = cf_context cf"
| "as_any (PrintableAttachment a) = a"
| "as_any (OpaqueAttachment a) = a"

fun is_printable :: "'p item \<Rightarrow> bool" where
  "is_printable (ContextItem cf) = False"
| "is_printable (PrintableAttachment a) = True"
| "is_printable (OpaqueAttachment a) = False"

section \<open>Frames\<close>

datatype 'p dframe =
  DFrame (df_context: "'p item") (df_attachments: "'p item vec") (df_children: "'p dframe vec")
    (df_lost_attachments: nat) (df_lost_children: nat)

record 'p sframe =
  sf_context :: "'p context_frame"
  sf_attachments :: "'p item vec"
  sf_children :: "'p dframe vec"
  sf_lost_attachments :: nat
  sf_lost_children :: nat

record layouts =
  item_l :: layout
  dframe_l :: layout
  sframe_l :: layout
  context_l :: layout
  iframe_l :: layout

definition sframe_new :: "layouts \<Rightarrow> 'p context_frame \<Rightarrow> 'p sframe" where
  "sframe_new L cf =
     \<lparr>sf_context = cf, sf_attachments = vec_new (item_l L), sf_children = vec_new (dframe_l L),
      sf_lost_attachments = 0, sf_lost_children = 0\<rparr>"

definition sf_attach_segment :: "string \<Rightarrow> 'p sframe \<Rightarrow> 'p sframe" where
  "sf_attach_segment segment sf = sf\<lparr>sf_context := cf_attach_segment segment (sf_context sf)\<rparr>"

definition sframe_from :: "layouts \<Rightarrow> 'p \<Rightarrow> location \<Rightarrow> 'p sframe" where
  "sframe_from L c loc = sframe_new L (context_frame_new c loc)"

text \<open>\<open>DynamicFrame::from_static\<close> boxes the context; on failure it rebuilds the static frame.\<close>

definition from_static :: "layouts \<Rightarrow> 'p sframe \<Rightarrow> heap \<Rightarrow> ('p sframe \<times> alloc_error, 'p dframe) outcome \<times> heap" where
  "from_static L sf h =
     (case box_try_new_give_back (context_l L) (sf_context sf) h of
        (Ok boxed, h') \<Rightarrow>
          (Ok (DFrame (ContextItem boxed) (sf_attachments sf) (sf_children sf)
             (sf_lost_attachments sf) (sf_lost_children sf)), h')
      | (Err (ctx, e), h') \<Rightarrow>
          (Err (\<lparr>sf_context = ctx, sf_attachments = sf_attachments sf, sf_children = sf_children sf,
             sf_lost_attachments = sf_lost_attachments sf, sf_lost_children = sf_lost_children sf\<rparr>, e), h')
      | (Panic msg, h') \<Rightarrow> (Panic msg, h')
      | (UB, h') \<Rightarrow> (UB, h'))"

section \<open>The report\<close>

record 'p report =
  head :: "'p sframe"
  peers :: "'p sframe deque"
  lost_peers :: nat
  capacity :: "nat option"

type_synonym 'p rstate = "'p report \<times> heap"

definition report_new :: "layouts \<Rightarrow> 'p \<Rightarrow> location \<Rightarrow> 'p report" where
  "report_new L c loc =
     \<lparr>head = sframe_new L (context_frame_new c loc), peers = vec_new (sframe_l L), lost_peers = 0,
      capacity = None\<rparr>"

definition report_with_segment :: "layouts \<Rightarrow> 'p \<Rightarrow> string \<Rightarrow> location \<Rightarrow> 'p report" where
  "report_with_segment L c segment loc =
     \<lparr>head = sframe_new L (cf_attach_segment segment (context_frame_new c loc)),
      peers = vec_new (sframe_l L), lost_peers = 0, capacity = None\<rparr>"

definition report_with_capacity :: "nat \<Rightarrow> 'p report \<Rightarrow> 'p report" where
  "report_with_capacity n r = r\<lparr>capacity := Some n\<rparr>"

definition report_attach_segment :: "string \<Rightarrow> 'p report \<Rightarrow> 'p report" where
  "report_attach_segment segment r = r\<lparr>head := sf_attach_segment segment (head r)\<rparr>"

definition current_context :: "'p report \<Rightarrow> 'p" where
  "current_context r = cf_context (sf_context (head r))"

definition peer_count :: "'p report \<Rightarrow> nat" where
  "peer_count r = saturating_add 1 (vlen (peers r))"

text \<open>\<open>PeerIter\<close>: the head first, then the peers from the front.\<close>

record 'p peer_iter =
  pi_head :: "'p sframe option"
  pi_peers :: "'p sframe list"

definition current_contexts :: "'p report \<Rightarrow> 'p peer_iter" where
  "current_contexts r = \<lparr>pi_head = Some (head r), pi_peers = items (peers r)\<rparr>"

definition peer_iter_next :: "'p peer_iter \<Rightarrow> 'p option \<times> 'p peer_iter" where
  "peer_iter_next it =
     (case pi_head it of
        Some sf \<Rightarrow> (Some (cf_context (sf_context sf)), it\<lparr>pi_head := None\<rparr>)
      | None \<Rightarrow>
          (case pi_peers it of
             [] \<Rightarrow> (None, it)
           | sf # sfs \<Rightarrow> (Some (cf_context (sf_context sf)), it\<lparr>pi_peers := sfs\<rparr>)))"

subsection \<open>Attachments\<close>

definition lose_attachment :: "'p report \<Rightarrow> 'p report" where
  "lose_attachment r =
     r\<lparr>head := (head r)\<lparr>sf_lost_attachments := saturating_add (sf_lost_attachments (head r)) 1\<rparr>\<rparr>"

definition set_attachments :: "'p item vec \<Rightarrow> 'p report \<Rightarrow> 'p report" where
  "set_attachments v r = r\<lparr>head := (head r)\<lparr>sf_attachments := v\<rparr>\<rparr>"

text \<open>The body that \<open>attach\<close> and \<open>attach_opaque\<close> share, for a boxed item of layout \<open>l\<close>.\<close>

definition attach_item :: "layout \<Rightarrow> 'p item \<Rightarrow> 'p rstate \<Rightarrow> ('p rstate, 'e, unit) run" where
  "attach_item l a s =
     (case s of (r, h) \<Rightarrow>
        case box_try_new_give_back l a h of
          (Ok b, h1) \<Rightarrow>
            (case vec_try_push_give_back b (sf_attachments (head r), h1) of
               (Ok _, (v, h2)) \<Rightarrow> (Ok (), (set_attachments v r, h2))
             | (Err _, (v, h2)) \<Rightarrow> (Ok (), (lose_attachment (set_attachments v r), h2))
             | (Panic msg, (v, h2)) \<Rightarrow> (Panic msg, (set_attachments v r, h2))
             | (UB, (v, h2)) \<Rightarrow> (UB, (set_attachments v r, h2)))
        | (Err _, h1) \<Rightarrow> (Ok (), (lose_attachment r, h1))
        | (Panic msg, h1) \<Rightarrow> (Panic msg, (r, h1))
        | (UB, h1) \<Rightarrow> (UB, (r, h1)))"

definition report_attach :: "layout \<Rightarrow> 'p \<Rightarrow> 'p rstate \<Rightarrow> ('p rstate, 'e, unit) run" where
  "report_attach l a = attach_item l (PrintableAttachment a)"

definition report_attach_opaque :: "layout \<Rightarrow> 'p \<Rightarrow> 'p rstate \<Rightarrow> ('p rstate, 'e, unit) run" where
  "report_attach_opaque l a = attach_item l (OpaqueAttachment a)"

text \<open>The lossless forms reserve first, then box, then push within the reserved room.\<close>

definition try_attach_item ::
    "layout \<Rightarrow> 'p item \<Rightarrow> 'p rstate \<Rightarrow> ('p rstate, 'p item, unit) run" where
  "try_attach_item l a s =
     (case s of (r, h) \<Rightarrow>
        case vec_try_reserve 1 (sf_attachments (head r), h) of
          (Ok _, (v, h1)) \<Rightarrow>
            (case box_try_new_give_back l a h1 of
               (Ok b, h2) \<Rightarrow>
                 (case vec_push b (v, h2) of (q, (v', h3)) \<Rightarrow> (q, (set_attachments v' r, h3)))
             | (Err (a', _), h2) \<Rightarrow> (Err a', (set_attachments v r, h2))
             | (Panic msg, h2) \<Rightarrow> (Panic msg, (set_attachments v r, h2))
             | (UB, h2) \<Rightarrow> (UB, (set_attachments v r, h2)))
        | (Err _, (v, h1)) \<Rightarrow> (Err a, (set_attachments v r, h1))
        | (Panic msg, (v, h1)) \<Rightarrow> (Panic msg, (set_attachments v r, h1))
        | (UB, (v, h1)) \<Rightarrow> (UB, (set_attachments v r, h1)))"

definition report_try_attach :: "layout \<Rightarrow> 'p \<Rightarrow> 'p rstate \<Rightarrow> ('p rstate, 'p, unit) run" where
  "report_try_attach l a s = map_err_run as_any (try_attach_item l (PrintableAttachment a) s)"

definition report_try_attach_opaque :: "layout \<Rightarrow> 'p \<Rightarrow> 'p rstate \<Rightarrow> ('p rstate, 'p, unit) run" where
  "report_try_attach_opaque l a s = map_err_run as_any (try_attach_item l (OpaqueAttachment a) s)"

subsection \<open>Pushing peers\<close>

definition evict_peer :: "'p report \<Rightarrow> 'p report" where
  "evict_peer r =
     r\<lparr>peers := snd (deque_pop_back (peers r)), lost_peers := saturating_add (lost_peers r) 1\<rparr>"

text \<open>\<open>while self.peer_count() >= cap\<close>: \<open>None\<close> when the loop does not end.\<close>

partial_function (option) evict_to :: "nat \<Rightarrow> 'p report \<Rightarrow> 'p report option" where
  "evict_to n r = (if n \<le> peer_count r then evict_to n (evict_peer r) else Some r)"

definition on_peers ::
    "('p sframe dstate \<Rightarrow> ('p sframe dstate, 'e, 'a) run) \<Rightarrow> 'p rstate \<Rightarrow> ('p rstate, 'e, 'a) run" where
  "on_peers f s = (case s of (r, h) \<Rightarrow> case f (peers r, h) of (q, (v, h')) \<Rightarrow> (q, (r\<lparr>peers := v\<rparr>, h')))"

text \<open>The push after the evictions: one more eviction and a second attempt when it fails.\<close>

definition push_evicting :: "'p sframe \<Rightarrow> 'p rstate \<Rightarrow> ('p rstate, 'e, unit) run" where
  "push_evicting sf s =
     (case on_peers (deque_try_push_front_give_back sf) s of
        (Ok _, s') \<Rightarrow> (Ok (), s')
      | (Err (recovered, _), (r', h')) \<Rightarrow>
          expect_run ''pop_back followed by push_front should succeed''
            (on_peers (deque_try_push_front_give_back recovered) (evict_peer r', h'))
      | (Panic msg, s') \<Rightarrow> (Panic msg, s')
      | (UB, s') \<Rightarrow> (UB, s'))"

definition report_push :: "'p sframe \<Rightarrow> 'p rstate \<Rightarrow> ('p rstate, 'e, unit) run option" where
  "report_push sf s =
     (case s of (r, h) \<Rightarrow>
        map_option
          (\<lambda>r1. push_evicting sf (if vlen (peers r1) = usize_max then evict_peer r1 else r1, h))
          (case capacity r of Some n \<Rightarrow> evict_to n r | None \<Rightarrow> Some r))"

definition report_try_push :: "'p sframe \<Rightarrow> 'p rstate \<Rightarrow> ('p rstate, 'p sframe, unit) run" where
  "report_try_push sf s =
     (case s of (r, h) \<Rightarrow>
        if vlen (peers r) = usize_max then (Err sf, s)
        else if (case capacity r of Some n \<Rightarrow> n \<le> peer_count r | None \<Rightarrow> False) then (Err sf, s)
        else map_err_run fst (on_peers (deque_try_push_front_give_back sf) s))"

end
