(* ===== verification/ReportChange.thy ===== *)
theory ReportChange
  imports Report
begin

text \<open>
  Changing the context of a report (\<^verbatim>\<open>rustyfill-errors/src/report.rs\<close>,
  \<open>change_context\<close> and \<open>try_change_context\<close>): the head and the peers are boxed, type-erased and
  become the children of a new head. The lossy form evicts and counts what it cannot keep; the
  lossless form boxes everything first and rebuilds the report when a box cannot be had. Also the
  chaining helpers of \<^verbatim>\<open>result_ext.rs\<close>. The layouts \<open>L\<close> are those of the old
  report's types, \<open>L'\<close> those of the new one's.
\<close>

section \<open>The lossy form\<close>

definition lose_child :: "'p sframe \<Rightarrow> 'p sframe" where
  "lose_child sf = sf\<lparr>sf_lost_children := saturating_add (sf_lost_children sf) 1\<rparr>"

definition pop_child :: "'p sframe \<Rightarrow> 'p sframe" where
  "pop_child sf = sf\<lparr>sf_children := snd (deque_pop_back (sf_children sf))\<rparr>"

definition push_child ::
    "'p dframe \<Rightarrow> 'p sframe \<times> heap \<Rightarrow> ('p sframe \<times> heap, 'p dframe \<times> try_reserve_error, unit) run" where
  "push_child df s =
     (case s of (sf, h) \<Rightarrow>
        case deque_try_push_front_give_back df (sf_children sf, h) of
          (q, (v, h')) \<Rightarrow> (q, (sf\<lparr>sf_children := v\<rparr>, h')))"

text \<open>The closure \<open>demote_and_push\<close>, with the new head as its captured state.\<close>

function demote_and_push :: "layouts \<Rightarrow> 'p sframe \<Rightarrow> 'p sframe \<times> heap \<Rightarrow> ('p sframe \<times> heap, 'e, unit) run" where
  "demote_and_push L sf (nh, h) =
     (case from_static L sf h of
        (Ok df, h1) \<Rightarrow>
          (case push_child df (nh, h1) of
             (Ok _, s') \<Rightarrow> (Ok (), s')
           | (Err (dropped, _), (nh1, h2)) \<Rightarrow>
               expect_run ''eviction guarantees space'' (push_child dropped (lose_child (pop_child nh1), h2))
           | (Panic msg, s') \<Rightarrow> (Panic msg, s')
           | (UB, s') \<Rightarrow> (UB, s'))
      | (Err (recovered, _), h1) \<Rightarrow>
          if items (sf_children nh) \<noteq> [] then demote_and_push L recovered (lose_child (pop_child nh), h1)
          else (Ok (), (lose_child nh, h1))
      | (Panic msg, h1) \<Rightarrow> (Panic msg, (nh, h1))
      | (UB, h1) \<Rightarrow> (UB, (nh, h1)))"
  by pat_completeness auto
termination
  by (relation "measure (\<lambda>(L, sf, nh, h). vlen (sf_children nh))")
    (auto simp: pop_child_def lose_child_def deque_pop_back.simps)

declare demote_and_push.simps [simp del]

text \<open>\<open>while let Some(sf) = peers.pop_back()\<close>\<close>

function demote_all ::
    "layouts \<Rightarrow> 'p sframe deque \<Rightarrow> 'p sframe \<times> heap \<Rightarrow> ('p sframe \<times> heap, 'e, unit) run" where
  "demote_all L ps s =
     (case deque_pop_back ps of
        (None, _) \<Rightarrow> (Ok (), s)
      | (Some sf, ps') \<Rightarrow> and_then (demote_and_push L sf s) (\<lambda>_. demote_all L ps'))"
  by pat_completeness auto
termination
  by (relation "measure (\<lambda>(L, ps, s). vlen ps)") (auto simp: deque_pop_back.simps split: if_splits)

declare demote_all.simps [simp del]

definition change_context ::
    "layouts \<Rightarrow> layouts \<Rightarrow> 'p \<Rightarrow> location \<Rightarrow> 'p rstate \<Rightarrow> ('e, 'p report) outcome \<times> heap" where
  "change_context L L' c loc s =
     (case s of (r, h) \<Rightarrow>
        let new_head = (sframe_new L' (context_frame_new c loc))\<lparr>sf_lost_children := lost_peers r\<rparr>;
            total = saturating_add (vlen (peers r)) 1;
            (_, (children, h1)) = vec_try_reserve total (sf_children new_head, h)
        in case and_then (demote_all L (peers r) (new_head\<lparr>sf_children := children\<rparr>, h1))
                  (\<lambda>_. demote_and_push L (head r)) of
             (q, (nh, h')) \<Rightarrow>
               (map_ok (\<lambda>_. \<lparr>head = nh, peers = vec_new (sframe_l L'), lost_peers = 0,
                  capacity = capacity r\<rparr>) q, h'))"

section \<open>The lossless form\<close>

datatype 'p change_context_error = ChangeContextError (cce_report: "'p report") (cce_context: 'p)

text \<open>\<open>IntermediateFrame\<close>: a frame whose context is boxed but not yet erased.\<close>

record 'p iframe =
  if_context :: "'p context_frame"
  if_attachments :: "'p item vec"
  if_children :: "'p dframe vec"
  if_lost_attachments :: nat
  if_lost_children :: nat

definition into_dynamic :: "'p iframe \<Rightarrow> 'p dframe" where
  "into_dynamic f =
     DFrame (ContextItem (if_context f)) (if_attachments f) (if_children f) (if_lost_attachments f)
       (if_lost_children f)"

definition recover_static :: "'p iframe \<Rightarrow> 'p sframe" where
  "recover_static f =
     \<lparr>sf_context = if_context f, sf_attachments = if_attachments f, sf_children = if_children f,
      sf_lost_attachments = if_lost_attachments f, sf_lost_children = if_lost_children f\<rparr>"

definition with_boxed :: "'p context_frame \<Rightarrow> 'p sframe \<Rightarrow> 'p iframe" where
  "with_boxed boxed sf =
     \<lparr>if_context = boxed, if_attachments = sf_attachments sf, if_children = sf_children sf,
      if_lost_attachments = sf_lost_attachments sf, if_lost_children = sf_lost_children sf\<rparr>"

text \<open>
  Boxing one frame and pushing it onto the intermediates, whose capacity was reserved. On failure
  the static frame is put together again from the recovered context.
\<close>

definition box_frame ::
    "layouts \<Rightarrow> 'p sframe \<Rightarrow> 'p iframe vec \<times> heap \<Rightarrow> ('p iframe vec \<times> heap, 'p sframe, unit) run" where
  "box_frame L sf s =
     (case s of (inters, h) \<Rightarrow>
        case box_try_new_give_back (context_l L) (sf_context sf) h of
          (Ok boxed, h1) \<Rightarrow>
            expect_run ''capacity was reserved'' (vec_try_push_give_back (with_boxed boxed sf) (inters, h1))
        | (Err (ctx, _), h1) \<Rightarrow> (Err (sf\<lparr>sf_context := ctx\<rparr>), (inters, h1))
        | (Panic msg, h1) \<Rightarrow> (Panic msg, (inters, h1))
        | (UB, h1) \<Rightarrow> (UB, (inters, h1)))"

text \<open>
  The boxing loop over the peers, from the back. The error is the frame that could not be boxed;
  the peers that were not reached stay in the deque.
\<close>

function box_peers ::
    "layouts \<Rightarrow> ('p sframe deque \<times> 'p iframe vec) \<times> heap \<Rightarrow>
     (('p sframe deque \<times> 'p iframe vec) \<times> heap, 'p sframe, unit) run" where
  "box_peers L ((ps, inters), h) =
     (case deque_pop_back ps of
        (None, _) \<Rightarrow> (Ok (), ((ps, inters), h))
      | (Some sf, ps') \<Rightarrow>
          (case box_frame L sf (inters, h) of
             (Ok _, (inters', h')) \<Rightarrow> box_peers L ((ps', inters'), h')
           | (Err sf', (inters', h')) \<Rightarrow> (Err sf', ((ps', inters'), h'))
           | (Panic msg, (inters', h')) \<Rightarrow> (Panic msg, ((ps', inters'), h'))
           | (UB, (inters', h')) \<Rightarrow> (UB, ((ps', inters'), h'))))"
  by pat_completeness auto
termination
  by (relation "measure (\<lambda>(L, (ps, inters), h). vlen ps)") (auto simp: deque_pop_back.simps split: if_splits)

declare box_peers.simps [simp del]

text \<open>
  \<open>recover_report\<close> discards the outcome of every push: a frame whose push failed would be lost.
\<close>

definition push_back_ignoring :: "'p sframe \<Rightarrow> 'p sframe dstate \<Rightarrow> 'p sframe dstate" where
  "push_back_ignoring sf s = snd (deque_try_push_back_give_back sf s)"

definition recover_report ::
    "'p iframe list \<Rightarrow> 'p sframe option \<Rightarrow> 'p sframe deque \<Rightarrow> 'p sframe \<Rightarrow> nat \<Rightarrow> nat option \<Rightarrow> heap \<Rightarrow>
     'p report \<times> heap" where
  "recover_report inters trailing remaining head_frame lost cap_opt h =
     (let s1 = (case trailing of Some sf \<Rightarrow> push_back_ignoring sf (remaining, h) | None \<Rightarrow> (remaining, h));
          (ps, h') = fold (\<lambda>f. push_back_ignoring (recover_static f)) (rev inters) s1
      in (\<lparr>head = head_frame, peers = ps, lost_peers = lost, capacity = cap_opt\<rparr>, h'))"

text \<open>The demotion loop: within the reserved room.\<close>

fun push_children :: "'p dframe list \<Rightarrow> 'p sframe \<times> heap \<Rightarrow> ('p sframe \<times> heap, 'e, unit) run" where
  "push_children [] s = (Ok (), s)"
| "push_children (df # dfs) s =
     and_then (expect_run ''children capacity was reserved'' (push_child df s)) (\<lambda>_. push_children dfs)"

definition try_change_context ::
    "layouts \<Rightarrow> layouts \<Rightarrow> 'p \<Rightarrow> location \<Rightarrow> 'p rstate \<Rightarrow> ('p change_context_error, 'p report) outcome \<times> heap" where
  "try_change_context L L' c loc s =
     (case s of (r, h) \<Rightarrow>
        let total = saturating_add (vlen (peers r)) 1;
            new_head = (sframe_new L' (context_frame_new c loc))\<lparr>sf_lost_children := lost_peers r\<rparr>;
            new_ctx = cf_context (sf_context new_head);
            unchanged = \<lparr>head = head r, peers = peers r, lost_peers = lost_peers r, capacity = capacity r\<rparr>
        in case vec_try_reserve total (sf_children new_head, h) of
          (Err _, (_, h1)) \<Rightarrow> (Err (ChangeContextError unchanged new_ctx), h1)
        | (Panic msg, (_, h1)) \<Rightarrow> (Panic msg, h1)
        | (UB, (_, h1)) \<Rightarrow> (UB, h1)
        | (Ok _, (children, h1)) \<Rightarrow>
            (case vec_try_with_capacity (iframe_l L) total h1 of
               (Err _, h2) \<Rightarrow> (Err (ChangeContextError unchanged new_ctx), h2)
             | (Panic msg, h2) \<Rightarrow> (Panic msg, h2)
             | (UB, h2) \<Rightarrow> (UB, h2)
             | (Ok inters, h2) \<Rightarrow>
                 (case box_peers L ((peers r, inters), h2) of
                    (Err sf, ((ps, inters'), h3)) \<Rightarrow>
                      (case recover_report (items inters') (Some sf) ps (head r) (lost_peers r) (capacity r) h3 of
                         (r', h4) \<Rightarrow> (Err (ChangeContextError r' new_ctx), h4))
                  | (Panic msg, (_, h3)) \<Rightarrow> (Panic msg, h3)
                  | (UB, (_, h3)) \<Rightarrow> (UB, h3)
                  | (Ok _, ((ps, inters'), h3)) \<Rightarrow>
                      (case box_frame L (head r) (inters', h3) of
                         (Err sf, (inters'', h4)) \<Rightarrow>
                           (case recover_report (items inters'') None ps sf (lost_peers r) (capacity r) h4 of
                              (r', h5) \<Rightarrow> (Err (ChangeContextError r' new_ctx), h5))
                       | (Panic msg, (_, h4)) \<Rightarrow> (Panic msg, h4)
                       | (UB, (_, h4)) \<Rightarrow> (UB, h4)
                       | (Ok _, (inters'', h4)) \<Rightarrow>
                           (case push_children (map into_dynamic (rev (items inters'')))
                                   (new_head\<lparr>sf_children := children\<rparr>, h4) of
                              (q, (nh, h5)) \<Rightarrow>
                                (map_ok (\<lambda>_. \<lparr>head = nh, peers = vec_new (sframe_l L'), lost_peers = 0,
                                   capacity = capacity r\<rparr>) q, h5))))))"

section \<open>Results with a report\<close>

text \<open>
  \<^verbatim>\<open>result_ext.rs\<close>: every helper leaves a value alone and works on the report of an
  error. A closure that makes the attachment or the new context runs only then; here it is a
  function of the unit value or, for \<open>change_context_adaptive\<close>, of the report it may also change.
\<close>

type_synonym ('t, 'p) rresult = "'p report + 't"

definition on_report ::
    "('p rstate \<Rightarrow> ('e, 'p report) outcome \<times> heap) \<Rightarrow> ('t, 'p) rresult \<Rightarrow> heap \<Rightarrow>
     ('e, ('t, 'p) rresult) outcome \<times> heap" where
  "on_report f res h =
     (case res of
        Inr v \<Rightarrow> (Ok (Inr v), h)
      | Inl r \<Rightarrow> (case f (r, h) of (q, h') \<Rightarrow> (map_ok Inl q, h')))"

definition returning :: "('p rstate, 'e, unit) run \<Rightarrow> ('e, 'p report) outcome \<times> heap" where
  "returning q = (case q of (x, (r, h)) \<Rightarrow> (map_ok (\<lambda>_. r) x, h))"

definition ext_attach_lazy ::
    "layout \<Rightarrow> (unit \<Rightarrow> 'p) \<Rightarrow> ('t, 'p) rresult \<Rightarrow> heap \<Rightarrow> ('e, ('t, 'p) rresult) outcome \<times> heap" where
  "ext_attach_lazy l f = on_report (\<lambda>s. returning (report_attach l (f ()) s))"

definition ext_attach ::
    "layout \<Rightarrow> 'p \<Rightarrow> ('t, 'p) rresult \<Rightarrow> heap \<Rightarrow> ('e, ('t, 'p) rresult) outcome \<times> heap" where
  "ext_attach l a = on_report (\<lambda>s. returning (report_attach l a s))"

definition ext_attach_opaque_lazy ::
    "layout \<Rightarrow> (unit \<Rightarrow> 'p) \<Rightarrow> ('t, 'p) rresult \<Rightarrow> heap \<Rightarrow> ('e, ('t, 'p) rresult) outcome \<times> heap" where
  "ext_attach_opaque_lazy l f = on_report (\<lambda>s. returning (report_attach_opaque l (f ()) s))"

definition ext_attach_opaque ::
    "layout \<Rightarrow> 'p \<Rightarrow> ('t, 'p) rresult \<Rightarrow> heap \<Rightarrow> ('e, ('t, 'p) rresult) outcome \<times> heap" where
  "ext_attach_opaque l a = on_report (\<lambda>s. returning (report_attach_opaque l a s))"

definition ext_change_context ::
    "layouts \<Rightarrow> layouts \<Rightarrow> 'p \<Rightarrow> location \<Rightarrow> ('t, 'p) rresult \<Rightarrow> heap \<Rightarrow> ('e, ('t, 'p) rresult) outcome \<times> heap" where
  "ext_change_context L L' c loc = on_report (change_context L L' c loc)"

definition ext_change_context_lazy ::
    "layouts \<Rightarrow> layouts \<Rightarrow> (unit \<Rightarrow> 'p) \<Rightarrow> location \<Rightarrow> ('t, 'p) rresult \<Rightarrow> heap \<Rightarrow>
     ('e, ('t, 'p) rresult) outcome \<times> heap" where
  "ext_change_context_lazy L L' f loc = on_report (change_context L L' (f ()) loc)"

definition ext_change_context_adaptive ::
    "layouts \<Rightarrow> layouts \<Rightarrow> ('p report \<Rightarrow> 'p \<times> 'p report) \<Rightarrow> location \<Rightarrow> ('t, 'p) rresult \<Rightarrow> heap \<Rightarrow>
     ('e, ('t, 'p) rresult) outcome \<times> heap" where
  "ext_change_context_adaptive L L' f loc =
     on_report (\<lambda>(r, h). case f r of (c, original) \<Rightarrow> change_context L L' c loc (original, h))"

end
