(* ===== verification/ReportProps.thy ===== *)
theory ReportProps
  imports ReportChange "HOL-Library.Sublist"
begin

text \<open>
  What the operations on error reports promise: attachments and peers are stored, given back or
  counted, and a change of context keeps the newest frames (the lossy form) or everything (the
  lossless form).
\<close>

section \<open>Well-formed reports\<close>

definition sframe_ok :: "'p sframe \<Rightarrow> bool" where
  "sframe_ok sf \<longleftrightarrow> vec_ok (sf_attachments sf) \<and> vec_ok (sf_children sf)"

definition report_ok :: "'p report \<Rightarrow> bool" where
  "report_ok r \<longleftrightarrow> sframe_ok (head r) \<and> vec_ok (peers r) \<and> (\<forall>sf \<in> set (items (peers r)). sframe_ok sf) \<and>
     lost_peers r \<le> usize_max"

definition layouts_ok :: "layouts \<Rightarrow> bool" where
  "layouts_ok L \<longleftrightarrow> 0 < lalign (item_l L) \<and> 0 < lalign (dframe_l L) \<and> 0 < lalign (sframe_l L) \<and>
     0 < lalign (iframe_l L)"

lemma saturating_add_assoc1: "saturating_add (saturating_add a n) 1 = saturating_add a (Suc n)"
  by (simp add: saturating_add_def)

lemma saturating_add_0 [simp]: "a \<le> usize_max \<Longrightarrow> saturating_add a 0 = a"
  by (simp add: saturating_add_def)

lemma sframe_new_ok: "layouts_ok L \<Longrightarrow> sframe_ok (sframe_new L cf)"
  by (simp add: sframe_ok_def sframe_new_def layouts_ok_def)

lemma report_new_ok: "layouts_ok L \<Longrightarrow> report_ok (report_new L c loc)"
  by (simp add: report_ok_def report_new_def sframe_new_ok) (simp add: layouts_ok_def)

section \<open>Pushing at the front\<close>

lemma front_cases:
  assumes "vec_ok v"
  obtains (Ok) w h' where "deque_try_push_front_give_back x (v, h) = (Ok (), (w, h'))"
      and "items w = x # items v" and "vec_ok w"
  | (Err) e h' where "deque_try_push_front_give_back x (v, h) = (Err (x, e), (v, h'))"
proof (cases rule: dfront.push_cases [OF assms, of x h])
  case (1 w h')
  from arg_cong [OF 1(2), of rev] have "items w = x # items v" by simp
  then show ?thesis using 1 Ok by blast
qed (use Err in blast)

text \<open>What the allocator answers when one more element is asked for, and the heap after the question.\<close>

definition grants_one :: "'a vec \<Rightarrow> heap \<Rightarrow> bool" where
  "grants_one v h \<longleftrightarrow> fst (vec_try_reserve 1 (v, h)) = Ok ()"

definition asked_one :: "'a vec \<Rightarrow> heap \<Rightarrow> heap" where
  "asked_one v h = snd (snd (vec_try_reserve 1 (v, h)))"

lemma grants_one_room: "vlen v < cap v \<Longrightarrow> grants_one v h"
  by (simp add: grants_one_def vec_try_reserve_def)

lemma front_granted:
  assumes "vec_ok v" and "grants_one v h"
  obtains w where "deque_try_push_front_give_back x (v, h) = (Ok (), (w, asked_one v h))" and "items w = x # items v"
    and "vec_ok w" and "0 < cap w" and "cap v \<le> cap w" and "elem w = elem v"
proof (cases rule: vec_try_reserve_cases [OF assms(1), of 1 h])
  case (1 u h')
  have "cap v \<le> cap u" using 1(1) by (cases "cap v - vlen v < 1") (auto simp: vec_try_reserve_def grow_amortized_def
        grow_cap_def Let_def max_def split: option.splits if_splits prod.splits)
  then show thesis
    using 1 that [of "with_items (x # items u) u"]
    by (simp add: deque_try_push_front_give_back_def deque_push_front_room asked_one_def vec_ok_with_items)
next
  case (2 e h')
  then show thesis using assms(2) by (simp add: grants_one_def)
qed

lemma front_refused:
  assumes "vec_ok v" and "\<not> grants_one v h"
  obtains e where "deque_try_push_front_give_back x (v, h) = (Err (x, e), (v, asked_one v h))"
proof (cases rule: vec_try_reserve_cases [OF assms(1), of 1 h])
  case (1 u h')
  then show thesis using assms(2) by (simp add: grants_one_def)
next
  case (2 e h')
  then show thesis using that by (simp add: deque_try_push_front_give_back_def asked_one_def)
qed

lemma front_room:
  assumes "vec_ok v" and "0 < vec_spare v"
  obtains w where "deque_try_push_front_give_back x (v, h) = (Ok (), (w, h))" and "items w = x # items v"
    and "vec_ok w" and "vec_spare w = vec_spare v - 1"
proof -
  obtain w where w: "deque_try_push_front_give_back x (v, h) = (Ok (), (w, h))" "vec_spare w = vec_spare v - 1"
      "rev (items w) = rev (items v) @ [x]" "vec_ok w"
    using dfront.push_spare [OF assms, of x h] by blast
  from arg_cong [OF w(3), of rev] have "items w = x # items v" by simp
  then show ?thesis using w that by blast
qed

section \<open>Attachments\<close>

lemma attach_item_cases:
  fixes r :: "'p report"
  assumes "report_ok r"
  obtains (stored) v h' where "(attach_item l a (r, h) :: ('p rstate, 'e, unit) run) = (Ok (), (set_attachments v r, h'))"
      and "items v = items (sf_attachments (head r)) @ [a]" and "vec_ok v"
  | (lost) h' where "(attach_item l a (r, h) :: ('p rstate, 'e, unit) run) = (Ok (), (lose_attachment r, h'))"
proof (cases rule: box_give_back_cases [of l a h])
  case (Ok h1)
  have ok: "vec_ok (sf_attachments (head r))" using assms by (simp add: report_ok_def sframe_ok_def)
  show ?thesis
  proof (cases rule: vpush.push_cases [OF ok, of a h1])
    case (1 v h2)
    then show ?thesis
      using Ok stored by (simp add: attach_item_def)
  next
    case (2 e h2)
    have "set_attachments (sf_attachments (head r)) r = r" by (simp add: set_attachments_def)
    then show ?thesis
      using 2 Ok lost [of h2] by (simp add: attach_item_def)
  qed
next
  case (Err h1)
  then show ?thesis using lost by (simp add: attach_item_def)
qed

lemma try_attach_item_cases:
  assumes "report_ok r"
  obtains (stored) v h' where "try_attach_item l a (r, h) = (Ok (), (set_attachments v r, h'))"
      and "items v = items (sf_attachments (head r)) @ [a]" and "vec_ok v"
  | (given_back) v h' where "try_attach_item l a (r, h) = (Err a, (set_attachments v r, h'))"
      and "items v = items (sf_attachments (head r))" and "vec_ok v"
proof -
  have ok: "vec_ok (sf_attachments (head r))" using assms by (simp add: report_ok_def sframe_ok_def)
  show ?thesis
  proof (cases rule: vec_try_reserve_cases [OF ok, of 1 h])
    case (1 v h1)
    note res = this
    show ?thesis
    proof (cases rule: box_give_back_cases [of l a h1])
      case (Ok h2)
      then show ?thesis
        using res by (intro stored [of "with_items (items v @ [a]) v" h2])
          (auto simp: try_attach_item_def vec_push_room intro: vec_ok_with_items)
    next
      case (Err h2)
      then show ?thesis using res by (intro given_back [of v h2]) (auto simp: try_attach_item_def)
    qed
  next
    case (2 e h1)
    then show ?thesis using ok by (intro given_back [of _ h1]) (auto simp: try_attach_item_def)
  qed
qed

section \<open>Eviction\<close>

lemma evict_to_unfold:
  "evict_to n r = (if n \<le> peer_count r then evict_to n (evict_peer r) else Some r)"
  by (rule evict_to.simps)

lemma pop_back_items: "items (snd (deque_pop_back v)) = butlast (items v)"
  by (simp add: deque_pop_back.simps)

lemma pop_back_room:
  "vec_ok v \<Longrightarrow> items v \<noteq> [] \<Longrightarrow> 0 < vec_spare (snd (deque_pop_back v))"
  by (cases "items v" rule: rev_cases) (auto simp: deque_pop_back.simps vec_ok_def)

lemma pop_back_ok: "vec_ok v \<Longrightarrow> vec_ok (snd (deque_pop_back v))"
  by (auto simp: deque_pop_back.simps vec_ok_def)

text \<open>For a cap of at least 2 the loop ends and leaves room for one more peer below the cap.\<close>

lemma evict_to_ends:
  assumes "2 \<le> n" and "n \<le> usize_max" and "lost_peers r \<le> usize_max"
  shows "evict_to n r = Some (r\<lparr>peers := with_items (take (n - 2) (items (peers r))) (peers r),
    lost_peers := saturating_add (lost_peers r) (vlen (peers r) - (n - 2))\<rparr>)"
  using assms(3)
proof (induction "vlen (peers r) - (n - 2)" arbitrary: r)
  case 0
  then have "\<not> n \<le> peer_count r" using assms by (auto simp: peer_count_def saturating_add_def)
  then show ?case
    using 0 by (subst evict_to_unfold) (simp add: with_items_def)
next
  case (Suc k)
  then have more: "n - 2 < vlen (peers r)" by simp
  then have "n \<le> peer_count r" using assms by (auto simp: peer_count_def saturating_add_def)
  then have "evict_to n r = evict_to n (evict_peer r)" by (subst evict_to_unfold) simp
  also have "\<dots> = Some ((evict_peer r)\<lparr>peers := with_items (take (n - 2) (items (peers (evict_peer r)))) (peers (evict_peer r)),
      lost_peers := saturating_add (lost_peers (evict_peer r)) (vlen (peers (evict_peer r)) - (n - 2))\<rparr>)"
    using Suc.hyps(2) by (intro Suc.hyps(1)) (auto simp: evict_peer_def pop_back_items saturating_add_le)
  also have "\<dots> = Some (r\<lparr>peers := with_items (take (n - 2) (items (peers r))) (peers r),
      lost_peers := saturating_add (lost_peers r) (vlen (peers r) - (n - 2))\<rparr>)"
  proof -
    have "saturating_add (saturating_add (lost_peers r) 1) (vlen (peers r) - 1 - (n - 2)) =
        saturating_add (lost_peers r) (vlen (peers r) - (n - 2))"
      using more by (simp add: saturating_add_def)
    moreover have "items (peers r) \<noteq> []" using more by auto
    ultimately show ?thesis
      using more by (simp add: evict_peer_def deque_pop_back.simps take_butlast)
  qed
  finally show ?case .
qed

text \<open>For a smaller cap it does not.\<close>

lemma evict_to_stuck:
  assumes "n \<le> 1"
  shows "evict_to n r = None"
proof -
  have "evict_to n r = Some r' \<Longrightarrow> \<not> n \<le> peer_count r'" for r'
    by (rule evict_to.raw_induct [where P = "\<lambda>n r r'. \<not> n \<le> peer_count r'"]) (auto split: if_splits)
  moreover have "n \<le> peer_count r'" for r' :: "'a report"
    using assms by (simp add: peer_count_def saturating_add_def usize_max_def)
  ultimately show ?thesis by (cases "evict_to n r") auto
qed

text \<open>The push proper, after the evictions.\<close>

lemma push_after_eviction:
  fixes r :: "'p report"
  assumes ok: "report_ok r"
  obtains (pushed) v where
      "(push_evicting sf (r, h) :: ('p rstate, 'e, unit) run) = (Ok (), (r\<lparr>peers := v\<rparr>, asked_one (peers r) h))"
      and "items v = sf # items (peers r)" and "vec_ok v" and "grants_one (peers r) h"
  | (evicted) v h' where "(push_evicting sf (r, h) :: ('p rstate, 'e, unit) run) = (Ok (), ((evict_peer r)\<lparr>peers := v\<rparr>, h'))"
      and "items v = sf # butlast (items (peers r))" and "vec_ok v" and "\<not> grants_one (peers r) h"
      and "items (peers r) = [] \<Longrightarrow> grants_one (peers r) (asked_one (peers r) h)"
  | (aborted) h' where "(push_evicting sf (r, h) :: ('p rstate, 'e, unit) run) =
        (Panic ''pop_back followed by push_front should succeed'', (evict_peer r, h'))"
      and "items (peers r) = []" and "\<not> grants_one (peers r) h" and "\<not> grants_one (peers r) (asked_one (peers r) h)"
proof -
  have v: "vec_ok (peers r)" using ok by (simp add: report_ok_def)
  show ?thesis
  proof (cases "grants_one (peers r) h")
    case True
    obtain w where "deque_try_push_front_give_back sf (peers r, h) = (Ok (), (w, asked_one (peers r) h))"
        "items w = sf # items (peers r)" "vec_ok w"
      by (rule front_granted [OF v True])
    then show ?thesis using True by (intro pushed [of w]) (auto simp: push_evicting_def on_peers_def)
  next
    case False
    let ?h1 = "asked_one (peers r) h"
    obtain e where e: "deque_try_push_front_give_back sf (peers r, h) = (Err (sf, e), (peers r, ?h1))"
      by (rule front_refused [OF v False])
    let ?p = "snd (deque_pop_back (peers r))"
    have run: "(push_evicting sf (r, h) :: ('p rstate, 'e, unit) run) =
        expect_run ''pop_back followed by push_front should succeed''
        (on_peers (deque_try_push_front_give_back sf) (evict_peer r, ?h1))"
      using e by (simp add: push_evicting_def on_peers_def)
    show ?thesis
    proof (cases "items (peers r) = []")
      case ne: False
      obtain w where "deque_try_push_front_give_back sf (?p, ?h1) = (Ok (), (w, ?h1))"
          "items w = sf # items ?p" "vec_ok w"
        by (rule front_room [OF pop_back_ok [OF v] pop_back_room [OF v ne]])
      then show ?thesis
        using ne False by (intro evicted [of w ?h1]) (auto simp: run on_peers_def evict_peer_def pop_back_items)
    next
      case True
      have p: "?p = peers r" using True by (simp add: deque_pop_back.simps)
      show ?thesis
      proof (cases "grants_one (peers r) ?h1")
        case again: True
        obtain w where "deque_try_push_front_give_back sf (peers r, ?h1) = (Ok (), (w, asked_one (peers r) ?h1))"
            "items w = sf # items (peers r)" "vec_ok w"
          by (rule front_granted [OF v again])
        then show ?thesis
          using True p False again by (intro evicted [of w]) (auto simp: run on_peers_def evict_peer_def)
      next
        case again: False
        obtain e' where "deque_try_push_front_give_back sf (peers r, ?h1) = (Err (sf, e'), (peers r, asked_one (peers r) ?h1))"
          by (rule front_refused [OF v again])
        then show ?thesis
          using True p False again by (intro aborted) (auto simp: run on_peers_def evict_peer_def)
      qed
    qed
  qed
qed

lemma report_ok_peers:
  "report_ok r \<Longrightarrow> vec_ok v \<Longrightarrow> (\<forall>sf \<in> set (items v). sframe_ok sf) \<Longrightarrow> n \<le> usize_max \<Longrightarrow>
   report_ok (r\<lparr>peers := v, lost_peers := n\<rparr>)"
  by (simp add: report_ok_def)

lemma evict_peer_eq:
  "evict_peer r = r\<lparr>peers := with_items (butlast (items (peers r))) (peers r), lost_peers := saturating_add (lost_peers r) 1\<rparr>"
proof (cases "items (peers r) = []")
  case True
  then have "with_items [] (peers r) = peers r" by (cases "peers r") (simp add: with_items_def)
  then show ?thesis using True by (simp add: evict_peer_def deque_pop_back.simps)
qed (simp add: evict_peer_def deque_pop_back.simps)

lemma evict_ok: "report_ok r \<Longrightarrow> report_ok (evict_peer r)"
  unfolding evict_peer_def by (intro report_ok_peers pop_back_ok)
    (auto simp: report_ok_def saturating_add_le pop_back_items dest: in_set_butlastD)

text \<open>The report that keeps its newest \<open>n\<close> peers and counts the others.\<close>

definition keep_peers :: "nat \<Rightarrow> 'p report \<Rightarrow> 'p report" where
  "keep_peers n r = r\<lparr>peers := with_items (take n (items (peers r))) (peers r),
     lost_peers := saturating_add (lost_peers r) (vlen (peers r) - n)\<rparr>"

lemma keep_peers_sel [simp]:
  "items (peers (keep_peers n r)) = take n (items (peers r))" "cap (peers (keep_peers n r)) = cap (peers r)"
  "head (keep_peers n r) = head r" "capacity (keep_peers n r) = capacity r"
  "lost_peers (keep_peers n r) = saturating_add (lost_peers r) (vlen (peers r) - n)"
  by (simp_all add: keep_peers_def)

lemma keep_peers_ok: "report_ok r \<Longrightarrow> report_ok (keep_peers n r)"
  unfolding keep_peers_def by (intro report_ok_peers)
    (auto simp: report_ok_def saturating_add_le intro!: vec_ok_with_items dest: vec_ok_lenD in_set_takeD)

lemma evict_keep:
  assumes "0 < n" and "n \<le> vlen (peers r)"
  shows "evict_peer (keep_peers n r) = keep_peers (n - 1) r"
proof -
  have "Suc (vlen (peers r) - n) = vlen (peers r) - (n - 1)" using assms by simp
  then have "saturating_add (saturating_add (lost_peers r) (vlen (peers r) - n)) 1 =
      saturating_add (lost_peers r) (vlen (peers r) - (n - 1))"
    by (simp only: saturating_add_assoc1)
  then show ?thesis
    using assms by (simp add: evict_peer_eq keep_peers_def butlast_take)
qed

text \<open>How many peers the capacity cap lets stay beside the new one.\<close>

definition room_left :: "'p report \<Rightarrow> nat" where
  "room_left r = (case capacity r of None \<Rightarrow> vlen (peers r) | Some c \<Rightarrow> min (vlen (peers r)) (c - 2))"

lemma room_left_le: "room_left r \<le> vlen (peers r)"
  by (auto simp: room_left_def split: option.splits)

lemma evictions:
  assumes "report_ok r" and "\<forall>c. capacity r = Some c \<longrightarrow> 2 \<le> c \<and> c \<le> usize_max"
  shows "(case capacity r of Some n \<Rightarrow> evict_to n r | None \<Rightarrow> Some r) = Some (keep_peers (room_left r) r)"
proof (cases "capacity r")
  case None
  have "r\<lparr>peers := with_items (items (peers r)) (peers r), lost_peers := lost_peers r\<rparr> = r"
    by (simp add: with_items_def)
  then show ?thesis using None assms(1) by (simp add: room_left_def report_ok_def keep_peers_def)
next
  case (Some c)
  moreover have "take (min (vlen (peers r)) (c - 2)) (items (peers r)) = take (c - 2) (items (peers r))"
    by (simp add: min_def)
  moreover have "vlen (peers r) - min (vlen (peers r)) (c - 2) = vlen (peers r) - (c - 2)" by simp
  ultimately show ?thesis
    using assms evict_to_ends [of c r] by (simp add: room_left_def report_ok_def keep_peers_def)
qed

text \<open>The guard against a deque of \<open>usize::MAX\<close> peers evicts one more.\<close>

definition peers_kept :: "'p report \<Rightarrow> nat" where
  "peers_kept r = (if room_left r = usize_max then usize_max - 1 else room_left r)"

lemma peers_kept_le: "peers_kept r \<le> room_left r" "peers_kept r \<le> vlen (peers r)"
  using room_left_le [of r] by (auto simp: peers_kept_def)

lemma push_start:
  assumes "report_ok r" and "\<forall>c. capacity r = Some c \<longrightarrow> 2 \<le> c \<and> c \<le> usize_max"
  shows "report_push sf (r, h) = Some (push_evicting sf (keep_peers (peers_kept r) r, h))"
proof (cases "room_left r = usize_max")
  case True
  moreover have "vlen (peers r) \<le> usize_max" using assms(1) by (auto simp: report_ok_def vec_ok_def)
  ultimately have "vlen (peers r) = usize_max" using room_left_le [of r] by simp
  then show ?thesis
    using True evict_keep [of usize_max r]
    by (simp add: report_push_def evictions [OF assms] usize_max_def peers_kept_def)
next
  case False
  then show ?thesis
    using room_left_le [of r] by (simp add: report_push_def evictions [OF assms] peers_kept_def)
qed

section \<open>Properties of reports\<close>

text \<open>The lossy attachments: the value is stored as the last attachment of the head frame, or it is
  dropped and counted; nothing else of the report changes and the call never panics, whatever the
  allocator does. Attaching an opaque value is the same with another kind of item.\<close>

lemma attach_spec:
  fixes r :: "'p report" and q :: "('e, unit) outcome"
  assumes "report_ok r"
    and "(q, (r', h')) \<in> {report_attach l a (r, h), report_attach_opaque l a (r, h)}"
  shows "q = Ok () \<and> report_ok r' \<and>
    ((\<exists>v. r' = set_attachments v r \<and> map as_any (items v) = map as_any (items (sf_attachments (head r))) @ [a]) \<or>
     r' = lose_attachment r)"
proof -
  have "q = Ok () \<and> report_ok r' \<and>
      ((\<exists>v. r' = set_attachments v r \<and> map as_any (items v) = map as_any (items (sf_attachments (head r))) @ [a]) \<or>
       r' = lose_attachment r)"
    if "attach_item l x (r, h) = (q, (r', h'))" and "as_any x = a" for x
    using attach_item_cases [OF assms(1), of l x h, where 'e = 'e]
  proof cases
    case (1 v k)
    then show ?thesis
      using that assms(1)
      by (auto simp: report_ok_def set_attachments_def sframe_ok_def)
  next
    case (2 k)
    then show ?thesis
      using that assms(1)
      by (auto simp: report_ok_def lose_attachment_def sframe_ok_def)
  qed
  then show ?thesis
    using assms(2) by (auto simp: report_attach_def report_attach_opaque_def)
qed

definition sample_layouts :: layouts where
  "sample_layouts = \<lparr>item_l = Layout 16 8, dframe_l = Layout 88 8, sframe_l = Layout 128 8,
     context_l = Layout 48 8, iframe_l = Layout 80 8\<rparr>"

lemma sample_layouts_ok [simp]: "layouts_ok sample_layouts"
  by (simp add: layouts_ok_def sample_layouts_def)

definition here :: location where
  "here = (''main.rs'', 1, 1)"

definition sample_report :: "nat report" where
  "sample_report = report_new sample_layouts 7 here"

lemma sample_report_ok [simp]: "report_ok sample_report"
  by (simp add: sample_report_def report_new_ok)

text \<open>The lossless attachments: the value is stored, or it is handed back and the report holds exactly
  what it held before (at most the spare capacity of the attachments grew).\<close>

lemma try_attach_spec:
  fixes r :: "'p report"
  assumes "report_ok r"
    and "(q, (r', h')) \<in> {report_try_attach l a (r, h), report_try_attach_opaque l a (r, h)}"
  shows "\<exists>v. r' = set_attachments v r \<and> report_ok r' \<and>
    (q = Ok () \<and> map as_any (items v) = map as_any (items (sf_attachments (head r))) @ [a] \<or>
     q = Err a \<and> items v = items (sf_attachments (head r)))"
proof -
  have "\<exists>v. r' = set_attachments v r \<and> report_ok r' \<and>
      (q = Ok () \<and> map as_any (items v) = map as_any (items (sf_attachments (head r))) @ [a] \<or>
       q = Err a \<and> items v = items (sf_attachments (head r)))"
    if "map_err_run as_any (try_attach_item l x (r, h)) = (q, (r', h'))" and "as_any x = a" for x
    using try_attach_item_cases [OF assms(1), of l x h]
  proof cases
    case (1 v k)
    then show ?thesis
      using that assms(1) by (intro exI [of _ v]) (auto simp: report_ok_def set_attachments_def sframe_ok_def)
  next
    case (2 v k)
    then show ?thesis
      using that assms(1) by (intro exI [of _ v]) (auto simp: report_ok_def set_attachments_def sframe_ok_def)
  qed
  then show ?thesis
    using assms(2) by (auto simp: report_try_attach_def report_try_attach_opaque_def)
qed

text \<open>Claim C11.
  Pushing a peer when there is no capacity cap or one of at least 2 returns. The newest old peers that
  the cap lets stay are kept. If the deque has room or the allocator grows it, the frame is in front of them
  and the evicted peers are counted exactly. If it refuses, one more peer is evicted and counted and the push
  succeeds; with no peer left to evict one is counted that never was, and the second attempt succeeds or,
  when the allocator refuses again, panics. The head is untouched and the cap holds.\<close>

theorem report_push_spec:
  fixes r :: "'p report"
  assumes "report_ok r" and "sframe_ok sf" and "\<forall>c. capacity r = Some c \<longrightarrow> 2 \<le> c \<and> c \<le> usize_max"
  defines "n \<equiv> peers_kept r" and "kept \<equiv> with_items (take (peers_kept r) (items (peers r))) (peers r)"
  shows "\<exists>q r' h'. (report_push sf (r, h) :: ('p rstate, 'e, unit) run option) = Some (q, (r', h')) \<and>
    report_ok r' \<and> head r' = head r \<and> capacity r' = capacity r \<and>
    (\<forall>c. q = Ok () \<and> capacity r = Some c \<longrightarrow> peer_count r' \<le> c) \<and>
    (n < cap (peers r) \<longrightarrow> grants_one kept h) \<and>
    (if grants_one kept h then
       q = Ok () \<and> items (peers r') = sf # take n (items (peers r)) \<and>
       lost_peers r' = saturating_add (lost_peers r) (vlen (peers r) - n)
     else if 0 < n then
       q = Ok () \<and> items (peers r') = sf # take (n - 1) (items (peers r)) \<and>
       lost_peers r' = saturating_add (lost_peers r) (vlen (peers r) - (n - 1))
     else if grants_one kept (asked_one kept h) then
       q = Ok () \<and> items (peers r') = [sf] \<and>
       lost_peers r' = saturating_add (lost_peers r) (Suc (vlen (peers r)))
     else q = Panic ''pop_back followed by push_front should succeed'' \<and> items (peers r') = [])"
proof -
  have le: "n \<le> vlen (peers r)" "n \<le> room_left r" using peers_kept_le [of r] by (simp_all add: n_def)
  have run: "(report_push sf (r, h) :: ('p rstate, 'e, unit) run option) = Some (push_evicting sf (keep_peers n r, h))"
    unfolding n_def by (rule push_start [OF assms(1,3)])
  have k: "peers (keep_peers n r) = kept" by (simp add: kept_def n_def keep_peers_def)
  have items_kept: "items kept = take n (items (peers r))" by (simp add: kept_def n_def)
  have capped: "saturating_add 1 (Suc j) \<le> c" if "capacity r = Some c" "j \<le> n" for c j
    using le that assms(3) by (auto simp: room_left_def saturating_add_def)
  have ok: "report_ok (s\<lparr>peers := v\<rparr>)"
    if "report_ok s" "vec_ok v" "set (items v) \<subseteq> insert sf (set (items (peers s)))" for s v
    using that assms(2) by (auto simp: report_ok_def)
  note kept_ok = keep_peers_ok [OF assms(1), of n]
  have room: "n < cap (peers r) \<longrightarrow> grants_one kept h"
    using le by (auto simp: kept_def n_def intro!: grants_one_room)
  show ?thesis
  proof (cases rule: push_after_eviction [OF kept_ok, of sf h, where 'e = 'e])
    case (1 v)
    have "report_ok ((keep_peers n r)\<lparr>peers := v\<rparr>)" using 1 by (intro ok [OF kept_ok]) auto
    then show ?thesis
      unfolding run 1(1) using le 1(2,4) room capped [of _ n] by (auto simp: peer_count_def k items_kept)
  next
    case (2 v h')
    show ?thesis
    proof (cases "n = 0")
      case True
      have "report_ok ((evict_peer (keep_peers 0 r))\<lparr>peers := v\<rparr>)"
        using 2(2,3) by (intro ok evict_ok keep_peers_ok assms(1)) (auto simp: True)
      then show ?thesis
        unfolding run 2(1) using True 2(2,4,5) room capped [of _ 0]
        by (auto simp: peer_count_def evict_peer_def saturating_add_assoc1 [simplified] k [symmetric])
    next
      case False
      then have ev: "evict_peer (keep_peers n r) = keep_peers (n - 1) r" using le by (intro evict_keep) auto
      have items: "items v = sf # take (n - 1) (items (peers r))" using 2(2) le by (simp add: butlast_take)
      have "report_ok ((keep_peers (n - 1) r)\<lparr>peers := v\<rparr>)"
        using 2(3) by (intro ok keep_peers_ok assms(1)) (auto simp: items)
      then show ?thesis
        unfolding run 2(1) ev using 2(4) room False le items capped [of _ "n - 1"] by (auto simp: peer_count_def k)
    qed
  next
    case (3 h')
    have "n = 0" using 3(2) le by auto
    then show ?thesis
      unfolding run 3(1) using 3(2-4) evict_ok [OF kept_ok] room
      by (auto simp: evict_peer_def pop_back_items k [symmetric])
  qed
qed

theorem report_push_spec_witness:
  "\<exists>r' h'. (report_push (sframe_from sample_layouts 8 here) (report_with_capacity 2 sample_report, heap_with policy_nothing)
      :: (nat rstate, unit, unit) run option) = Some (Ok (), (r', h')) \<and> head r' = head sample_report \<and>
    items (peers r') = [sframe_from sample_layouts 8 here]"
proof -
  have "report_ok (report_with_capacity 2 sample_report)"
    using sample_report_ok by (simp add: report_ok_def report_with_capacity_def)
  moreover have "sframe_ok (sframe_from sample_layouts (8 :: nat) here)"
    by (simp add: sframe_from_def sframe_new_ok)
  moreover have kept: "peers_kept (report_with_capacity 2 sample_report) = 0"
    by (simp add: peers_kept_def room_left_def report_with_capacity_def usize_max_def)
  moreover have "grants_one (with_items [] (peers (report_with_capacity 2 sample_report))) (heap_with policy_nothing)"
    by (simp add: report_with_capacity_def sample_report_def report_new_def sample_layouts_def grants_one_def vec_new_def
        vec_try_reserve_def grow_amortized_def grow_cap_def checked_add_def usize_max_def isize_max_def
        min_non_zero_cap_def galloc_def heap_with_def policy_nothing_def check_should_fail_alloc_def system_request_def)
  ultimately show ?thesis
    using report_push_spec [of "report_with_capacity 2 sample_report" "sframe_from sample_layouts 8 here"
        "heap_with policy_nothing", where 'e = unit]
    by (auto simp: report_with_capacity_def usize_max_def kept)
qed

text \<open>Claim C40.
  With a capacity cap of 0 or 1 a push never returns: the head alone reaches the cap, so the
  eviction loop goes on popping an empty deque.\<close>

theorem report_push_diverges:
  assumes "capacity r = Some n" and "n \<le> 1"
  shows "report_push sf (r, h) = None"
  using assms by (simp add: report_push_def evict_to_stuck)

theorem report_push_diverges_witness:
  "report_push (sframe_from sample_layouts 8 here) (report_with_capacity 1 sample_report, heap_with policy_nothing) = None"
  by (rule report_push_diverges [of _ 1]) (simp_all add: report_with_capacity_def)

text \<open>The lossless push evicts nothing: the frame becomes the newest peer, or it is handed back with
  the report exactly as it was. It is handed back without a request when the cap is reached.\<close>

lemma report_try_push_spec:
  fixes r :: "'p report"
  assumes "report_ok r" and "sframe_ok sf" and "report_try_push sf (r, h) = (q, (r', h'))"
  shows "report_ok r' \<and>
    (q = Ok () \<and> (\<exists>v. r' = r\<lparr>peers := v\<rparr> \<and> items v = sf # items (peers r)) \<or> q = Err sf \<and> r' = r) \<and>
    ((\<exists>c. capacity r = Some c \<and> c \<le> peer_count r) \<longrightarrow> q = Err sf \<and> h' = h)"
proof (cases "vlen (peers r) = usize_max \<or> (\<exists>c. capacity r = Some c \<and> c \<le> peer_count r)")
  case True
  then show ?thesis using assms by (auto simp: report_try_push_def split: option.splits if_splits)
next
  case False
  have v: "vec_ok (peers r)" using assms(1) by (simp add: report_ok_def)
  have run: "report_try_push sf (r, h) = map_err_run fst (on_peers (deque_try_push_front_give_back sf) (r, h))"
    using False by (auto simp: report_try_push_def split: option.splits)
  show ?thesis
  proof (cases rule: front_cases [OF v, of sf h])
    case (1 w k)
    have "report_ok (r\<lparr>peers := w\<rparr>)" using assms(1,2) 1 by (auto simp: report_ok_def)
    then show ?thesis using False assms(3) 1 by (auto simp: run on_peers_def)
  next
    case (2 e k)
    then show ?thesis using False assms(1,3) by (auto simp: run on_peers_def)
  qed
qed

end
