(* ===== verification/ContextProps.thy ===== *)
theory ContextProps
  imports ReportProps VecProps
begin

text \<open>
  Changing the context of a report. The specification is the list of the report's frames from the
  newest to the oldest, type-erased: the lossy form keeps a prefix of it as the children of the new
  head and counts the rest, the lossless form keeps all of it or gives the report back.
\<close>

section \<open>Erased frames\<close>

definition erase :: "'p sframe \<Rightarrow> 'p dframe" where
  "erase sf = DFrame (ContextItem (sf_context sf)) (sf_attachments sf) (sf_children sf)
     (sf_lost_attachments sf) (sf_lost_children sf)"

text \<open>The static frames of a report, newest first.\<close>

definition all_frames :: "'p report \<Rightarrow> 'p sframe list" where
  "all_frames r = head r # items (peers r)"

lemma from_static_cases:
  obtains (boxed) h' where "from_static L sf h = (Ok (erase sf), h')"
  | (refused) e h' where "from_static L sf h = (Err (sf, e), h')"
proof (cases rule: box_give_back_cases [of "context_l L" "sf_context sf" h])
  case (Ok h')
  then show ?thesis by (intro boxed) (simp add: from_static_def erase_def)
next
  case (Err h')
  then show ?thesis by (intro refused) (simp add: from_static_def)
qed

lemma pop_child_sel [simp]:
  "items (sf_children (pop_child nh)) = butlast (items (sf_children nh))"
  "sf_lost_children (pop_child nh) = sf_lost_children nh"
  "sf_children (lose_child nh) = sf_children nh"
  "sf_lost_children (lose_child nh) = saturating_add (sf_lost_children nh) 1"
  by (simp_all add: pop_child_def lose_child_def pop_back_items)

text \<open>What demotion may change of the new head: its children and their count.\<close>

definition same_head :: "'p sframe \<Rightarrow> 'p sframe \<Rightarrow> bool" where
  "same_head nh nh' \<longleftrightarrow> sf_context nh' = sf_context nh \<and> sf_attachments nh' = sf_attachments nh \<and>
     sf_lost_attachments nh' = sf_lost_attachments nh"

lemma same_head_simps [simp]:
  "same_head nh nh" "same_head nh (lose_child nh') = same_head nh nh'" "same_head nh (pop_child nh') = same_head nh nh'"
  "same_head nh (nh'\<lparr>sf_children := v\<rparr>) = same_head nh nh'" "same_head (lose_child nh) nh' = same_head nh nh'"
  "same_head (pop_child nh) nh' = same_head nh nh'" "same_head (nh\<lparr>sf_children := v\<rparr>) nh' = same_head nh nh'"
  by (simp_all add: same_head_def lose_child_def pop_child_def)

lemma same_head_trans: "same_head a b \<Longrightarrow> same_head b c \<Longrightarrow> same_head a c"
  by (simp add: same_head_def)

text \<open>\<open>asks k h h'\<close>: the heap \<open>h'\<close> is \<open>h\<close> after some requests, of which the allocator refused \<open>k\<close>.\<close>

inductive asks :: "nat \<Rightarrow> heap \<Rightarrow> heap \<Rightarrow> bool" where
  none: "asks 0 h h"
| alloc: "galloc h = (ok, h1) \<Longrightarrow> asks k h1 h' \<Longrightarrow> asks (if ok then k else Suc k) h h'"
| realloc: "grealloc h = (ok, h1) \<Longrightarrow> asks k h1 h' \<Longrightarrow> asks (if ok then k else Suc k) h h'"

lemma asks_trans: "asks j h h1 \<Longrightarrow> asks k h1 h2 \<Longrightarrow> asks (j + k) h h2"
proof (induction rule: asks.induct)
  case (alloc h ok h1 j h')
  then show ?case using asks.alloc [of h ok h1 "j + k" h2] by (cases ok) simp_all
next
  case (realloc h ok h1 j h')
  then show ?case using asks.realloc [of h ok h1 "j + k" h2] by (cases ok) simp_all
qed simp

lemma asks_generous: "asks k h h' \<Longrightarrow> generous h \<Longrightarrow> k = 0"
proof (induction rule: asks.induct)
  case (alloc h ok h1 k h')
  then show ?case using generous_galloc [of h] by simp
next
  case (realloc h ok h1 k h')
  then show ?case using generous_grealloc [of h] by simp
qed simp

text \<open>A vector of at most \<open>n\<close> elements can grow without an overflow of its capacity.\<close>

definition growable :: "layout \<Rightarrow> nat \<Rightarrow> bool" where
  "growable l n \<longleftrightarrow> lsize l \<noteq> 0 \<and> n < usize_max \<and>
     max (min_non_zero_cap (lsize l)) (2 * n + 1) * lsize l \<le> isize_max + 1 - lalign l"

lemma growable_grow:
  assumes "growable (elem v) n" and "cap v = vlen v" and "vlen v \<le> n"
  shows "grow_cap v 1 \<noteq> None"
proof -
  have "max (min_non_zero_cap (lsize (elem v))) (max (cap v * 2) (vlen v + 1)) * lsize (elem v)
      \<le> max (min_non_zero_cap (lsize (elem v))) (2 * n + 1) * lsize (elem v)"
    using assms(2,3) by (intro mult_right_mono) auto
  then have "max (min_non_zero_cap (lsize (elem v))) (max (cap v * 2) (vlen v + 1)) * lsize (elem v)
      \<le> isize_max + 1 - lalign (elem v)"
    using assms(1) unfolding growable_def by linarith
  moreover have "checked_add (vlen v) 1 = Some (vlen v + 1)" "lsize (elem v) \<noteq> 0"
    using assms by (auto simp: growable_def checked_add_def)
  ultimately show ?thesis unfolding grow_cap_def by (auto simp: checked_add_def Let_def not_less)
qed

lemma reserve_asks: "\<exists>k. asks k h (snd (snd (vec_try_reserve n (v, h))))"
proof -
  obtain g h1 where g: "(if cap v = 0 then galloc h else grealloc h) = (g, h1)" by fastforce
  then have "\<exists>k. asks k h h1"
    using asks.alloc [OF _ asks.none, of h g h1] asks.realloc [OF _ asks.none, of h g h1] by (auto split: if_splits)
  then show ?thesis
    using g asks.none [of h]
    by (auto simp: vec_try_reserve_def grow_amortized_def Let_def simp del: if_split_asm split: option.splits if_split)
qed

lemma asked_one_asks:
  "asks (if grants_one v h \<or> grow_cap v 1 = None then 0 else 1) h (asked_one v h)"
proof (cases "cap v - vlen v < 1 \<and> grow_cap v 1 \<noteq> None")
  case True
  then obtain c where c: "grow_cap v 1 = Some c" by auto
  obtain g h1 where g: "(if cap v = 0 then galloc h else grealloc h) = (g, h1)" by fastforce
  have "asks (if g then 0 else Suc 0) h h1"
    using g asks.alloc [OF _ asks.none, of h g h1] asks.realloc [OF _ asks.none, of h g h1] by (auto split: if_splits)
  moreover have "grants_one v h = g" "asked_one v h = h1"
    using True c g by (auto simp: grants_one_def asked_one_def vec_try_reserve_def grow_amortized_def)
  ultimately show ?thesis using c by (cases g) simp_all
next
  case False
  then show ?thesis
    by (auto simp: grants_one_def asked_one_def vec_try_reserve_def grow_amortized_def intro: asks.none)
qed

lemma from_static_asks:
  obtains (boxed) h' where "from_static L sf h = (Ok (erase sf), h')" and "asks 0 h h'"
  | (refused) e h' where "from_static L sf h = (Err (sf, e), h')" and "asks 1 h h'"
proof -
  obtain ok h1 where g: "galloc h = (ok, h1)" by fastforce
  have "asks (if ok then 0 else 1) h h1" using asks.alloc [OF g asks.none] by (simp split: if_splits)
  then show thesis
    using g that asks.none [of h]
    by (cases ok; cases "lsize (context_l L) = 0")
      (auto simp: from_static_def box_try_new_give_back_def alloc_box_uninit_def erase_def)
qed

text \<open>
  The state of the demotion after the frames \<open>ds\<close> (newest first): a prefix of them is kept, and the
  counter, which started at \<open>l\<close>, is the number of the others, but for \<open>x\<close> that never existed.
\<close>

definition uncounted :: "nat \<Rightarrow> 'p sframe list \<Rightarrow> 'p sframe \<Rightarrow> nat" where
  "uncounted x ds nh = length ds - vlen (sf_children nh) + x"

definition demoted :: "nat \<Rightarrow> nat \<Rightarrow> 'p sframe list \<Rightarrow> 'p sframe \<Rightarrow> bool" where
  "demoted l x ds nh \<longleftrightarrow> vec_ok (sf_children nh) \<and> vlen (sf_children nh) \<le> length ds \<and>
     items (sf_children nh) = take (vlen (sf_children nh)) (map erase ds) \<and>
     sf_lost_children nh = saturating_add l (uncounted x ds nh)"

lemma pop_child_cap [simp]:
  "cap (sf_children (pop_child nh)) = cap (sf_children nh)" "elem (sf_children (pop_child nh)) = elem (sf_children nh)"
  by (simp_all add: pop_child_def deque_pop_back.simps)

lemma demoted_lose:
  assumes "demoted l x ds nh" and "items (sf_children nh) \<noteq> []"
  shows "demoted l x ds (lose_child (pop_child nh))"
    and "uncounted x ds (lose_child (pop_child nh)) = Suc (uncounted x ds nh)"
proof -
  let ?n = "vlen (sf_children nh)"
  have n: "0 < ?n" "?n \<le> length ds" using assms by (auto simp: demoted_def)
  have "length ds - (?n - 1) = Suc (length ds - ?n)" using n by arith
  then show more: "uncounted x ds (lose_child (pop_child nh)) = Suc (uncounted x ds nh)"
    unfolding uncounted_def pop_child_sel length_butlast by simp
  have "butlast (take ?n (map erase ds)) = take (?n - 1) (map erase ds)"
    using n by (simp add: butlast_take)
  then have cut: "butlast (items (sf_children nh)) = take (?n - 1) (map erase ds)"
    using assms(1) by (simp add: demoted_def)
  have ok: "vec_ok (sf_children (pop_child nh))"
    using assms(1) by (simp add: pop_child_def demoted_def pop_back_ok)
  have len: "length (take (?n - 1) (map erase ds)) = ?n - 1" using n by simp
  have lost: "sf_lost_children (lose_child (pop_child nh)) = saturating_add l (Suc (uncounted x ds nh))"
    using assms(1) by (simp add: demoted_def saturating_add_assoc1 [simplified])
  show "demoted l x ds (lose_child (pop_child nh))"
    unfolding demoted_def more lost unfolding pop_child_sel cut len
    by (intro conjI ok refl) (use n in simp)
qed

lemma demoted_push:
  assumes "demoted l x ds nh" and "items w = erase sf # items (sf_children nh)" and "vec_ok w"
  shows "demoted l x (sf # ds) (nh\<lparr>sf_children := w\<rparr>)" and "uncounted x (sf # ds) (nh\<lparr>sf_children := w\<rparr>) = uncounted x ds nh"
  using assms by (auto simp: demoted_def uncounted_def)

lemma demoted_drop:
  assumes "demoted l x ds nh" and "items (sf_children nh) = []"
  shows "demoted l x (sf # ds) (lose_child nh)" and "uncounted x (sf # ds) (lose_child nh) = Suc (uncounted x ds nh)"
  using assms by (auto simp: demoted_def uncounted_def saturating_add_assoc1 [simplified])

lemma demoted_more_lost:
  "demoted l x ds nh \<Longrightarrow> demoted l (Suc x) ds (lose_child nh)" "uncounted (Suc x) ds (lose_child nh) = Suc (uncounted x ds nh)"
  by (auto simp: demoted_def uncounted_def saturating_add_assoc1 [simplified])

lemma pop_child_empty: "items (sf_children nh) = [] \<Longrightarrow> pop_child nh = nh"
  by (simp add: pop_child_def deque_pop_back.simps)

lemma push_child_granted:
  fixes nh :: "'p sframe"
  assumes "demoted l x ds nh" and "grants_one (sf_children nh) h"
  obtains nh' where "push_child (erase sf) (nh, h) = (Ok (), (nh', asked_one (sf_children nh) h))"
    and "demoted l x (sf # ds) nh'" and "uncounted x (sf # ds) nh' = uncounted x ds nh" and "same_head nh nh'"
    and "cap (sf_children nh) \<le> cap (sf_children nh')" and "0 < cap (sf_children nh')"
    and "elem (sf_children nh') = elem (sf_children nh)"
proof -
  have v: "vec_ok (sf_children nh)" using assms(1) by (simp add: demoted_def)
  obtain w where w: "deque_try_push_front_give_back (erase sf) (sf_children nh, h) =
        (Ok (), (w, asked_one (sf_children nh) h))" "items w = erase sf # items (sf_children nh)" "vec_ok w"
      "0 < cap w" "cap (sf_children nh) \<le> cap w" "elem w = elem (sf_children nh)"
    by (rule front_granted [OF v assms(2)])
  show thesis
    by (rule that [of "nh\<lparr>sf_children := w\<rparr>"]) (use w demoted_push [OF assms(1) w(2,3)] in \<open>auto simp: push_child_def\<close>)
qed

text \<open>With \<open>n\<close> frames in all, a refused push is a refused request: the children have room or can grow.\<close>

definition fits :: "nat \<Rightarrow> 'p sframe \<Rightarrow> bool" where
  "fits n nh \<longleftrightarrow> n \<le> cap (sf_children nh) \<or> growable (elem (sf_children nh)) n"

lemma refused_request:
  assumes "fits n nh" and "demoted l x ds nh" and "length ds < n" and "\<not> grants_one (sf_children nh) h"
  shows "asks 1 h (asked_one (sf_children nh) h)"
proof -
  have full: "\<not> vlen (sf_children nh) < cap (sf_children nh)" using assms(4) grants_one_room by blast
  moreover have "vlen (sf_children nh) \<le> length ds" "vec_ok (sf_children nh)" using assms(2) by (simp_all add: demoted_def)
  ultimately have "growable (elem (sf_children nh)) n" "cap (sf_children nh) = vlen (sf_children nh)"
    using assms(1,3) by (auto simp: fits_def vec_ok_def)
  then have "grow_cap (sf_children nh) 1 \<noteq> None"
    using assms(3) \<open>vlen (sf_children nh) \<le> length ds\<close> by (intro growable_grow [of _ n]) auto
  then show ?thesis using asked_one_asks [of "sf_children nh" h] assms(4) by (simp split: if_splits)
qed

text \<open>
  One demotion. Each frame that is lost, and each that is counted without being lost, costs a refused
  request. Only a push to children without capacity counts one too many (\<open>x\<close>), or panics after a second
  refusal.
\<close>

definition demotion ::
    "nat \<Rightarrow> nat \<Rightarrow> nat \<Rightarrow> 'p sframe list \<Rightarrow> 'p sframe list \<Rightarrow> 'p sframe \<times> heap \<Rightarrow> ('p sframe \<times> heap, 'e, unit) run \<Rightarrow> bool"
where
  "demotion n l x ds ds' s t \<longleftrightarrow>
     (case s of (nh, h) \<Rightarrow> case t of (q, (nh', h')) \<Rightarrow>
        same_head nh nh' \<and> cap (sf_children nh) \<le> cap (sf_children nh') \<and> elem (sf_children nh') = elem (sf_children nh) \<and>
        (\<exists>k x'. asks k h h' \<and>
          (q = Ok () \<and> demoted l x' ds' nh' \<and> x' \<le> 1 \<and> (x' = 1 \<longrightarrow> 0 < cap (sf_children nh')) \<and>
             (x' = x \<or> cap (sf_children nh) = 0) \<and> (fits n nh \<longrightarrow> uncounted x' ds' nh' \<le> uncounted x ds nh + k) \<or>
           q = Panic ''eviction guarantees space'' \<and> cap (sf_children nh) = 0 \<and> (fits n nh \<longrightarrow> 2 \<le> k))))"

lemma demotion_ok:
  assumes "same_head nh nh'" and "cap (sf_children nh) \<le> cap (sf_children nh')"
    and "elem (sf_children nh') = elem (sf_children nh)" and "asks k h h'" and "demoted l x' ds' nh'" and "x' \<le> 1"
    and "x' = 1 \<longrightarrow> 0 < cap (sf_children nh')" and "x' = x \<or> cap (sf_children nh) = 0"
    and "fits n nh \<longrightarrow> uncounted x' ds' nh' \<le> uncounted x ds nh + k"
  shows "demotion n l x ds ds' (nh, h) (Ok (), (nh', h'))"
  unfolding demotion_def prod.case using assms by blast

lemma demotion_panic:
  assumes "same_head nh nh'" and "cap (sf_children nh) \<le> cap (sf_children nh')"
    and "elem (sf_children nh') = elem (sf_children nh)" and "asks k h h'"
    and "cap (sf_children nh) = 0" and "fits n nh \<longrightarrow> 2 \<le> k"
  shows "demotion n l x ds ds' (nh, h) (Panic ''eviction guarantees space'', (nh', h'))"
  unfolding demotion_def prod.case using assms by blast

lemma demotion_after:
  assumes "asks 1 h h1" and "uncounted x ds (lose_child (pop_child nh)) = Suc (uncounted x ds nh)"
    and "demotion n l x ds ds' (lose_child (pop_child nh), h1) t"
  shows "demotion n l x ds ds' (nh, h) t"
proof -
  obtain q nh' h' where t: "t = (q, (nh', h'))" by (metis prod.exhaust)
  have f: "fits n (lose_child (pop_child nh)) = fits n nh" by (simp add: fits_def)
  have same: "same_head nh nh'" "cap (sf_children nh) \<le> cap (sf_children nh')"
    "elem (sf_children nh') = elem (sf_children nh)"
    using assms(3) by (simp_all add: t demotion_def)
  obtain k x' where k: "asks k h1 h'" and *: "q = Ok () \<and> demoted l x' ds' nh' \<and> x' \<le> 1 \<and>
      (x' = 1 \<longrightarrow> 0 < cap (sf_children nh')) \<and> (x' = x \<or> cap (sf_children nh) = 0) \<and>
      (fits n nh \<longrightarrow> uncounted x' ds' nh' \<le> Suc (uncounted x ds nh) + k) \<or>
    q = Panic ''eviction guarantees space'' \<and> cap (sf_children nh) = 0 \<and> (fits n nh \<longrightarrow> 2 \<le> k)"
    using assms(2,3) by (auto simp: t demotion_def f)
  have "asks (1 + k) h h'" by (rule asks_trans [OF assms(1) k])
  then show ?thesis
    unfolding t using * same
    by (elim disjE conjE) (auto intro: demotion_ok [where k = "1 + k"] demotion_panic [where k = "1 + k"])
qed

lemma demote_and_push_spec:
  fixes nh :: "'p sframe"
  assumes "demoted l x ds nh" and "x \<le> 1" and "x = 1 \<longrightarrow> 0 < cap (sf_children nh)" and "length ds < n"
  shows "demotion n l x ds (sf # ds) (nh, h) (demote_and_push L sf (nh, h) :: ('p sframe \<times> heap, 'e, unit) run)"
  using assms
proof (induction "vlen (sf_children nh)" arbitrary: nh h rule: less_induct)
  case less
  show ?case
  proof (cases rule: from_static_asks [of L sf h])
    case (boxed h1)
    let ?v = "sf_children nh"
    show ?thesis
    proof (cases "grants_one ?v h1")
      case True
      obtain nh' where "push_child (erase sf) (nh, h1) = (Ok (), (nh', asked_one ?v h1))"
          "demoted l x (sf # ds) nh'" "uncounted x (sf # ds) nh' = uncounted x ds nh" "same_head nh nh'"
          "cap ?v \<le> cap (sf_children nh')" "0 < cap (sf_children nh')" "elem (sf_children nh') = elem ?v"
        by (rule push_child_granted [OF less.prems(1) True])
      moreover have "asks 0 h (asked_one ?v h1)"
        using asks_trans [OF boxed(2) asked_one_asks [of ?v h1]] True by simp
      ultimately show ?thesis
        using boxed(1) less.prems(2) by (auto simp: demote_and_push.simps intro!: demotion_ok [where k = 0])
    next
      case False
      let ?h2 = "asked_one ?v h1"
      have v: "vec_ok ?v" using less.prems(1) by (simp add: demoted_def)
      obtain e where "deque_try_push_front_give_back (erase sf) (?v, h1) = (Err (erase sf, e), (?v, ?h2))"
        by (rule front_refused [OF v False])
      then have run: "(demote_and_push L sf (nh, h) :: ('p sframe \<times> heap, 'e, unit) run) =
          expect_run ''eviction guarantees space'' (push_child (erase sf) (lose_child (pop_child nh), ?h2))"
        using boxed(1) by (simp add: demote_and_push.simps push_child_def)
      obtain k where k: "asks k h ?h2" "fits n nh \<longrightarrow> k = 1"
        using asks_trans [OF boxed(2) refused_request [OF _ less.prems(1,4) False]] asks_trans [OF boxed(2) asked_one_asks [of ?v h1]]
        by (cases "fits n nh") auto
      show ?thesis
      proof (cases "items ?v = []")
        case ne: False
        have d: "demoted l x ds (lose_child (pop_child nh))" by (rule demoted_lose(1) [OF less.prems(1) ne])
        have room: "vlen (sf_children (lose_child (pop_child nh))) < cap (sf_children (lose_child (pop_child nh)))"
          using v ne by (cases "items ?v" rule: rev_cases) (auto simp: vec_ok_def)
        have same: "asked_one (sf_children (pop_child nh)) ?h2 = ?h2"
          using room by (simp add: asked_one_def vec_try_reserve_def)
        obtain nh' where "push_child (erase sf) (lose_child (pop_child nh), ?h2) = (Ok (), (nh', ?h2))"
            "demoted l x (sf # ds) nh'" "uncounted x (sf # ds) nh' = Suc (uncounted x ds nh)"
            "same_head nh nh'" "cap ?v \<le> cap (sf_children nh')" "0 < cap (sf_children nh')"
            "elem (sf_children nh') = elem ?v"
          by (rule push_child_granted [OF d, of ?h2 sf])
            (use grants_one_room [OF room] in \<open>auto simp: same demoted_lose(2) [OF less.prems(1) ne]\<close>)
        then show ?thesis
          using k less.prems(2) by (auto simp: run intro!: demotion_ok [where k = k])
      next
        case True
        have p: "pop_child nh = nh" by (rule pop_child_empty [OF True])
        have "\<not> vlen ?v < cap ?v" using False grants_one_room by blast
        then have cap0: "cap ?v = 0" using True by simp
        then have x0: "x = 0" using less.prems(2,3) by (cases "x = 1") auto
        have d: "demoted l (Suc 0) ds (lose_child nh)" using demoted_more_lost(1) [OF less.prems(1)] x0 by simp
        have u: "uncounted (Suc 0) ds (lose_child nh) = Suc (uncounted 0 ds nh)" by (rule demoted_more_lost(2))
        show ?thesis
        proof (cases "grants_one ?v ?h2")
          case again: True
          obtain nh' where "push_child (erase sf) (lose_child nh, ?h2) = (Ok (), (nh', asked_one ?v ?h2))"
              "demoted l (Suc 0) (sf # ds) nh'" "uncounted (Suc 0) (sf # ds) nh' = Suc (uncounted 0 ds nh)"
              "same_head nh nh'" "cap ?v \<le> cap (sf_children nh')" "0 < cap (sf_children nh')"
              "elem (sf_children nh') = elem ?v"
            by (rule push_child_granted [OF d, of ?h2]) (use again u in auto)
          moreover have "asks k h (asked_one ?v ?h2)"
            using asks_trans [OF k(1) asked_one_asks [of ?v ?h2]] again by simp
          ultimately show ?thesis
            using k(2) cap0 by (auto simp: run p x0 intro!: demotion_ok [where k = k])
        next
          case again: False
          obtain e' where e': "deque_try_push_front_give_back (erase sf) (?v, ?h2) = (Err (erase sf, e'), (?v, asked_one ?v ?h2))"
            by (rule front_refused [OF v again])
          obtain j where j: "asks j h (asked_one ?v ?h2)" "fits n nh \<longrightarrow> j = 2"
            using asks_trans [OF k(1) refused_request [OF _ less.prems(1,4) again]]
              asks_trans [OF k(1) asked_one_asks [of ?v ?h2]] k(2)
            by (cases "fits n nh") (auto simp: numeral_2_eq_2)
          show ?thesis
            using e' j cap0 by (auto simp: run p push_child_def lose_child_def same_head_def intro!: demotion_panic [where k = j])
        qed
      qed
    qed
  next
    case (refused e h1)
    show ?thesis
    proof (cases "items (sf_children nh) = []")
      case True
      then show ?thesis
        using refused demoted_drop [OF less.prems(1) True] less.prems(2,3)
        by (auto simp: demote_and_push.simps intro!: demotion_ok [where k = 1])
    next
      case False
      let ?nh = "lose_child (pop_child nh)"
      have "vlen (sf_children ?nh) < vlen (sf_children nh)" using False by simp
      from less.hyps [OF this demoted_lose(1) [OF less.prems(1) False] less.prems(2) _ less.prems(4), of h1]
      have "demotion n l x ds (sf # ds) (?nh, h1) (demote_and_push L sf (?nh, h1) :: ('p sframe \<times> heap, 'e, unit) run)"
        using less.prems(3) by simp
      moreover have "(demote_and_push L sf (nh, h) :: ('p sframe \<times> heap, 'e, unit) run) = demote_and_push L sf (?nh, h1)"
        using refused False by (simp add: demote_and_push.simps [of L sf nh h])
      moreover have "fits n ?nh = fits n nh" by (simp add: fits_def)
      ultimately show ?thesis
        using demotion_after [OF refused(2)] demoted_lose(2) [OF less.prems(1) False] by simp
    qed
  qed
qed

lemma demotion_trans:
  fixes nh :: "'p sframe" and q :: "('e, unit) outcome"
  assumes "demotion n l x ds ds1 (nh, h) (q, s1)"
    and "\<And>x1. q = Ok () \<Longrightarrow> demoted l x1 ds1 (fst s1) \<Longrightarrow> x1 \<le> 1 \<Longrightarrow> x1 = 1 \<longrightarrow> 0 < cap (sf_children (fst s1)) \<Longrightarrow>
      demotion n l x1 ds1 ds2 s1 (f s1)"
  shows "demotion n l x ds ds2 (nh, h) (and_then (q, s1) (\<lambda>_. f))"
proof -
  obtain nh1 h1 where s1: "s1 = (nh1, h1)" by fastforce
  have one: "same_head nh nh1" "cap (sf_children nh) \<le> cap (sf_children nh1)" "elem (sf_children nh1) = elem (sf_children nh)"
    using assms(1) by (simp_all add: s1 demotion_def)
  have f: "fits n nh \<Longrightarrow> fits n nh1" using one by (auto simp: fits_def)
  consider (ok) j x1 where "asks j h h1" "q = Ok ()" "demoted l x1 ds1 nh1" "x1 \<le> 1" "x1 = 1 \<longrightarrow> 0 < cap (sf_children nh1)"
      "x1 = x \<or> cap (sf_children nh) = 0" "fits n nh \<longrightarrow> uncounted x1 ds1 nh1 \<le> uncounted x ds nh + j"
    | (panic) j where "asks j h h1" "q = Panic ''eviction guarantees space''" "cap (sf_children nh) = 0" "fits n nh \<longrightarrow> 2 \<le> j"
    using assms(1) unfolding s1 demotion_def prod.case by blast
  then show ?thesis
  proof cases
    case panic
    then show ?thesis using one by (auto simp: s1 intro!: demotion_panic [where k = j])
  next
    case ok
    obtain q2 nh2 h2 where run: "f (nh1, h1) = (q2, (nh2, h2))" by (metis prod.exhaust)
    have "demotion n l x1 ds1 ds2 (nh1, h1) (q2, (nh2, h2))"
      using assms(2) [OF ok(2), of x1] ok by (simp add: s1 run)
    then have two: "same_head nh1 nh2" "cap (sf_children nh1) \<le> cap (sf_children nh2)" "elem (sf_children nh2) = elem (sf_children nh1)"
      and "\<exists>k x'. asks k h1 h2 \<and>
        (q2 = Ok () \<and> demoted l x' ds2 nh2 \<and> x' \<le> 1 \<and> (x' = 1 \<longrightarrow> 0 < cap (sf_children nh2)) \<and>
           (x' = x1 \<or> cap (sf_children nh1) = 0) \<and> (fits n nh1 \<longrightarrow> uncounted x' ds2 nh2 \<le> uncounted x1 ds1 nh1 + k) \<or>
         q2 = Panic ''eviction guarantees space'' \<and> cap (sf_children nh1) = 0 \<and> (fits n nh1 \<longrightarrow> 2 \<le> k))"
      by (simp_all add: demotion_def)
    then obtain k x' where k: "asks k h1 h2" and res:
        "q2 = Ok () \<and> demoted l x' ds2 nh2 \<and> x' \<le> 1 \<and> (x' = 1 \<longrightarrow> 0 < cap (sf_children nh2)) \<and>
           (x' = x1 \<or> cap (sf_children nh1) = 0) \<and> (fits n nh1 \<longrightarrow> uncounted x' ds2 nh2 \<le> uncounted x1 ds1 nh1 + k) \<or>
         q2 = Panic ''eviction guarantees space'' \<and> cap (sf_children nh1) = 0 \<and> (fits n nh1 \<longrightarrow> 2 \<le> k)"
      by blast
    have same: "same_head nh nh2" "cap (sf_children nh) \<le> cap (sf_children nh2)" "elem (sf_children nh2) = elem (sf_children nh)"
      using same_head_trans [OF one(1) two(1)] one two by simp_all
    have asks: "asks (j + k) h h2" by (rule asks_trans [OF ok(1) k])
    have q: "and_then (q, s1) (\<lambda>_. f) = (q2, (nh2, h2))" by (simp add: s1 ok(2) run)
    from res consider (ended) "q2 = Ok ()" "demoted l x' ds2 nh2" "x' \<le> 1" "x' = 1 \<longrightarrow> 0 < cap (sf_children nh2)"
        "x' = x1 \<or> cap (sf_children nh1) = 0" "fits n nh1 \<longrightarrow> uncounted x' ds2 nh2 \<le> uncounted x1 ds1 nh1 + k"
      | (panic) "q2 = Panic ''eviction guarantees space''" "cap (sf_children nh1) = 0" "fits n nh1 \<longrightarrow> 2 \<le> k"
      by metis
    then show ?thesis
    proof cases
      case ended
      have "x' = x \<or> cap (sf_children nh) = 0" using ended(5) ok(6) one(2) by auto
      moreover have "fits n nh \<longrightarrow> uncounted x' ds2 nh2 \<le> uncounted x ds nh + (j + k)"
        using ended(6) ok(7) f by fastforce
      ultimately show ?thesis unfolding q ended(1) by (rule demotion_ok [OF same asks ended(2-4)])
    next
      case panic
      have "cap (sf_children nh) = 0" "fits n nh \<longrightarrow> 2 \<le> j + k" using panic one(2) f by auto
      then show ?thesis unfolding q panic(1) by (rule demotion_panic [OF same asks])
    qed
  qed
qed

lemma demote_all_spec:
  fixes nh :: "'p sframe"
  assumes "demoted l x ds nh" and "x \<le> 1" and "x = 1 \<longrightarrow> 0 < cap (sf_children nh)" and "length (items ps) + length ds \<le> n"
  shows "demotion n l x ds (items ps @ ds) (nh, h) (demote_all L ps (nh, h) :: ('p sframe \<times> heap, 'e, unit) run)"
  using assms
proof (induction "vlen ps" arbitrary: ps x ds nh h)
  case 0
  have "demotion n l x ds ds (nh, h) (Ok () :: ('e, unit) outcome, (nh, h))"
    using 0 by (intro demotion_ok [OF _ _ _ asks.none]) auto
  then show ?case using 0 by (simp add: demote_all.simps deque_pop_back.simps)
next
  case (Suc m)
  then have ne: "items ps \<noteq> []" by auto
  let ?ps = "with_items (butlast (items ps)) ps" and ?sf = "last (items ps)"
  have split: "butlast (items ps) @ ?sf # ds = items ps @ ds"
    using append_butlast_last_id [OF ne] by (metis append.assoc append_Cons append_Nil)
  have m: "m = vlen ?ps" "length (items ?ps) + length (?sf # ds) \<le> n" "length ds < n"
    using Suc.hyps(2) Suc.prems(4) ne by (auto simp: Suc_le_eq)
  obtain q nh1 h1 where one: "(demote_and_push L ?sf (nh, h) :: ('p sframe \<times> heap, 'e, unit) run) = (q, (nh1, h1))"
    by (metis prod.exhaust)
  have run: "(demote_all L ps (nh, h) :: ('p sframe \<times> heap, 'e, unit) run) = and_then (q, (nh1, h1)) (\<lambda>_. demote_all L ?ps)"
    using ne one by (simp add: demote_all.simps [of L ps] deque_pop_back.simps)
  have "demotion n l x ds (?sf # ds) (nh, h) (q, (nh1, h1))"
    using demote_and_push_spec [OF Suc.prems(1-3) m(3), of ?sf h L, where 'e = 'e] by (simp add: one)
  from demotion_trans [OF this, of "items ps @ ds" "demote_all L ?ps"] show ?case
    unfolding run using Suc.hyps(1) [OF m(1) _ _ _ m(2), of _ nh1 h1] by (simp add: split)
qed

section \<open>Without memory pressure\<close>

lemma from_static_generous:
  assumes "generous h"
  shows "\<exists>h'. from_static L sf h = (Ok (erase sf), h') \<and> generous h'"
proof -
  obtain h' where "alloc_box_uninit (context_l L) h = (Ok (), h')" "generous h'"
    using alloc_box_generous [OF assms] by blast
  then show ?thesis by (simp add: from_static_def box_try_new_give_back_def erase_def)
qed

definition roomy :: "nat \<Rightarrow> 'p sframe \<Rightarrow> bool" where
  "roomy n nh \<longleftrightarrow> vec_ok (sf_children nh) \<and> n \<le> vec_spare (sf_children nh)"

lemma demote_and_push_roomy:
  fixes nh :: "'p sframe"
  assumes "generous h" and "roomy (Suc n) nh"
  shows "\<exists>w h'. (demote_and_push L sf (nh, h) :: ('p sframe \<times> heap, 'e, unit) run) = (Ok (), (nh\<lparr>sf_children := w\<rparr>, h')) \<and>
    generous h' \<and> roomy n (nh\<lparr>sf_children := w\<rparr>) \<and> items w = erase sf # items (sf_children nh)"
proof -
  obtain h1 where h1: "from_static L sf h = (Ok (erase sf), h1)" "generous h1"
    using from_static_generous [OF assms(1)] by blast
  have v: "vec_ok (sf_children nh)" "0 < vec_spare (sf_children nh)" using assms(2) by (auto simp: roomy_def)
  obtain w where "deque_try_push_front_give_back (erase sf) (sf_children nh, h1) = (Ok (), (w, h1))"
      "items w = erase sf # items (sf_children nh)" "vec_ok w" "vec_spare w = vec_spare (sf_children nh) - 1"
    by (rule front_room [OF v])
  then show ?thesis
    using h1 assms(2) by (auto simp: demote_and_push.simps push_child_def roomy_def)
qed

lemma demote_all_roomy:
  fixes nh :: "'p sframe"
  assumes "generous h" and "roomy (vlen ps + n) nh"
  shows "\<exists>w h'. (demote_all L ps (nh, h) :: ('p sframe \<times> heap, 'e, unit) run) = (Ok (), (nh\<lparr>sf_children := w\<rparr>, h')) \<and>
    generous h' \<and> roomy n (nh\<lparr>sf_children := w\<rparr>) \<and> items w = map erase (items ps) @ items (sf_children nh)"
  using assms
proof (induction "vlen ps" arbitrary: ps nh h)
  case 0
  then have "nh\<lparr>sf_children := sf_children nh\<rparr> = nh" by simp
  then show ?case using 0 by (auto simp: demote_all.simps deque_pop_back.simps intro!: exI [of _ "sf_children nh"])
next
  case (Suc k)
  then have ne: "items ps \<noteq> []" by auto
  let ?ps = "with_items (butlast (items ps)) ps" and ?sf = "last (items ps)"
  have pop: "deque_pop_back ps = (Some ?sf, ?ps)" using ne by (simp add: deque_pop_back.simps)
  have "roomy (Suc (k + n)) nh" using Suc.prems(2) by (simp flip: Suc.hyps(2))
  from demote_and_push_roomy [OF Suc.prems(1) this, where 'e = 'e] obtain w h1 where one:
    "(demote_and_push L ?sf (nh, h) :: ('p sframe \<times> heap, 'e, unit) run) = (Ok (), (nh\<lparr>sf_children := w\<rparr>, h1))"
    "generous h1" "roomy (k + n) (nh\<lparr>sf_children := w\<rparr>)" "items w = erase ?sf # items (sf_children nh)"
    by blast
  have k: "k = vlen ?ps" using Suc.hyps(2) by simp
  have "roomy (vlen ?ps + n) (nh\<lparr>sf_children := w\<rparr>)" unfolding k [symmetric] by (rule one(3))
  from Suc.hyps(1) [OF k one(2) this] obtain w' h' where
    "(demote_all L ?ps (nh\<lparr>sf_children := w\<rparr>, h1) :: ('p sframe \<times> heap, 'e, unit) run) = (Ok (), (nh\<lparr>sf_children := w'\<rparr>, h'))"
    "generous h'" "roomy n (nh\<lparr>sf_children := w'\<rparr>)" "items w' = map erase (items ?ps) @ items w"
    by auto
  moreover have "map erase (butlast (items ps)) @ erase ?sf # cs = map erase (items ps) @ cs" for cs
    using append_butlast_last_id [OF ne] by (metis append.assoc append_Cons append_Nil list.map map_append)
  ultimately show ?case
    using one by (auto simp: demote_all.simps [of L ps] pop)
qed

section \<open>Boxing and recovery\<close>

definition boxed :: "'p sframe \<Rightarrow> 'p iframe" where
  "boxed sf = with_boxed (sf_context sf) sf"

lemma boxed_back [simp]: "recover_static (boxed sf) = sf" "into_dynamic (boxed sf) = erase sf"
  by (simp_all add: boxed_def with_boxed_def recover_static_def into_dynamic_def erase_def)

lemma box_frame_cases:
  assumes "vec_ok v" and "0 < vec_spare v"
  obtains (boxed) h' where "box_frame L sf (v, h) = (Ok (), (with_items (items v @ [boxed sf]) v, h'))"
  | (refused) h' where "box_frame L sf (v, h) = (Err sf, (v, h'))"
proof (cases rule: box_give_back_cases [of "context_l L" "sf_context sf" h])
  case (Ok h')
  then show ?thesis
    using assms by (intro boxed [of h'])
      (simp add: box_frame_def boxed_def vec_try_push_give_back_def vec_try_reserve_room vec_push_room)
next
  case (Err h')
  then show ?thesis by (intro refused [of h']) (simp add: box_frame_def)
qed

lemma box_peers_spec:
  assumes "vec_ok v" and "vlen ps \<le> vec_spare v"
  shows "\<exists>h'. box_peers L ((ps, v), h) =
      (Ok (), ((with_items [] ps, with_items (items v @ map boxed (rev (items ps))) v), h')) \<or>
    (\<exists>as sf bs. items ps = as @ sf # bs \<and> box_peers L ((ps, v), h) =
      (Err sf, ((with_items as ps, with_items (items v @ map boxed (rev bs)) v), h')))"
  using assms
proof (induction "vlen ps" arbitrary: ps v h)
  case 0
  moreover have "with_items [] ps = ps" using 0 by (cases ps) (simp add: with_items_def)
  moreover have "with_items (items v) v = v" by (simp add: with_items_def)
  ultimately show ?case by (simp add: box_peers.simps deque_pop_back.simps)
next
  case (Suc k)
  then have ne: "items ps \<noteq> []" by auto
  let ?ps = "with_items (butlast (items ps)) ps" and ?sf = "last (items ps)"
  have pop: "deque_pop_back ps = (Some ?sf, ?ps)" using ne by (simp add: deque_pop_back.simps)
  have split: "items ps = butlast (items ps) @ [?sf]" using ne by simp
  have spare: "0 < vec_spare v" using Suc by linarith
  show ?case
  proof (cases rule: box_frame_cases [OF Suc.prems(1) spare, of L ?sf h])
    case (1 h1)
    let ?v = "with_items (items v @ [boxed ?sf]) v"
    have k: "k = vlen ?ps" using Suc.hyps(2) by simp
    have v: "vec_ok ?v" using Suc.prems(1) spare by (intro vec_ok_with_items) auto
    have "vlen ?ps \<le> vec_spare ?v"
      unfolding k [symmetric] using Suc.prems(2) by (simp flip: Suc.hyps(2))
    from Suc.hyps(1) [OF k v this, of h1] obtain h' where h': "box_peers L ((?ps, ?v), h1) =
        (Ok (), ((with_items [] ps, with_items (items v @ boxed ?sf # map boxed (rev (butlast (items ps)))) v), h')) \<or>
      (\<exists>as sf bs. butlast (items ps) = as @ sf # bs \<and> box_peers L ((?ps, ?v), h1) =
        (Err sf, ((with_items as ps, with_items (items v @ boxed ?sf # map boxed (rev bs)) v), h')))"
      by auto
    have run: "box_peers L ((ps, v), h) = box_peers L ((?ps, ?v), h1)"
      using pop 1 by (simp add: box_peers.simps [of L ps])
    have "boxed ?sf # map boxed (rev (butlast (items ps))) = map boxed (rev (items ps))"
      by (subst (3) split) simp
    moreover have "\<exists>bs'. items ps = as @ sf # bs' \<and> boxed ?sf # map boxed (rev bs) = map boxed (rev bs')"
      if "butlast (items ps) = as @ sf # bs" for as sf bs
      using that by (intro exI [of _ "bs @ [?sf]"]) (subst split, simp)
    ultimately show ?thesis unfolding run using h' by metis
  next
    case (2 h1)
    have "box_peers L ((ps, v), h) = (Err ?sf, ((?ps, v), h1))"
      using pop 2 by (simp add: box_peers.simps [of L ps])
    moreover have "with_items (items v) v = v" by (simp add: with_items_def)
    ultimately show ?thesis using split by (intro exI [of _ h1]) (metis append_Nil2 list.simps(8) rev.simps(1))
  qed
qed

lemma push_back_ignoring_room:
  "0 < vec_spare v \<Longrightarrow> push_back_ignoring sf (v, h) = (with_items (items v @ [sf]) v, h)"
  by (simp add: push_back_ignoring_def push_back_is_push vec_try_push_give_back_def vec_try_reserve_room vec_push_room)

lemma push_back_all_room:
  assumes "length fs \<le> vec_spare v"
  shows "fold (\<lambda>f. push_back_ignoring (recover_static f)) fs (v, h) =
    (with_items (items v @ map recover_static fs) v, h)"
  using assms
proof (induction fs arbitrary: v)
  case Nil
  then show ?case by (simp add: with_items_def)
next
  case (Cons f fs)
  then show ?case
    using Cons.IH [of "with_items (items v @ [recover_static f]) v"]
    by (simp add: push_back_ignoring_room)
qed

text \<open>Recovery after a failure while the peers were boxed, and after the head failed.\<close>

lemma recover_trailing:
  assumes "vec_ok ps" and "items ps = as @ sf # bs"
  shows "recover_report (map boxed (rev bs)) (Some sf) (with_items as ps) hd_frame l c h =
    (\<lparr>head = hd_frame, peers = ps, lost_peers = l, capacity = c\<rparr>, h)"
proof -
  have len: "length as + Suc (length bs) \<le> cap ps" using assms by (auto simp: vec_ok_def)
  have "with_items (as @ sf # bs) ps = ps" using assms(2) by (cases ps) (simp add: with_items_def)
  then show ?thesis
    using len by (simp add: recover_report_def push_back_ignoring_room push_back_all_room rev_map o_def)
qed

lemma recover_head:
  assumes "vec_ok ps"
  shows "recover_report (map boxed (rev (items ps))) None (with_items [] ps) hd_frame l c h =
    (\<lparr>head = hd_frame, peers = ps, lost_peers = l, capacity = c\<rparr>, h)"
proof -
  have "with_items (items ps) ps = ps" by (simp add: with_items_def)
  then show ?thesis
    using assms by (simp add: recover_report_def push_back_all_room rev_map o_def vec_ok_def)
qed

lemma push_children_room:
  fixes nh :: "'p sframe"
  assumes "roomy (length dfs) nh"
  shows "\<exists>w. (push_children dfs (nh, h) :: ('p sframe \<times> heap, 'e, unit) run) = (Ok (), (nh\<lparr>sf_children := w\<rparr>, h)) \<and>
    vec_ok w \<and> items w = rev dfs @ items (sf_children nh)"
  using assms
proof (induction dfs arbitrary: nh)
  case Nil
  then show ?case by (auto simp: roomy_def intro!: exI [of _ "sf_children nh"])
next
  case (Cons df dfs)
  have v: "vec_ok (sf_children nh)" "0 < vec_spare (sf_children nh)" using Cons.prems by (auto simp: roomy_def)
  obtain w where "deque_try_push_front_give_back df (sf_children nh, h) = (Ok (), (w, h))"
      "items w = df # items (sf_children nh)" "vec_ok w" "vec_spare w = vec_spare (sf_children nh) - 1"
    by (rule front_room [OF v])
  then show ?case
    using Cons.IH [of "nh\<lparr>sf_children := w\<rparr>"] Cons.prems by (auto simp: push_child_def roomy_def)
qed

section \<open>Properties\<close>

definition fresh_head :: "layouts \<Rightarrow> 'p \<Rightarrow> location \<Rightarrow> 'p report \<Rightarrow> 'p sframe" where
  "fresh_head L c loc r = (sframe_new L (context_frame_new c loc))\<lparr>sf_lost_children := lost_peers r\<rparr>"

lemma fresh_head_sel [simp]:
  "cf_context (sf_context (fresh_head L c loc r)) = c" "sf_attachments (fresh_head L c loc r) = vec_new (item_l L)"
  "sf_children (fresh_head L c loc r) = vec_new (dframe_l L)" "sf_lost_children (fresh_head L c loc r) = lost_peers r"
  by (simp_all add: fresh_head_def sframe_new_def context_frame_new_def)

lemma vec_new_items [simp]: "items (vec_new l) = []"
  by (simp add: vec_new_def)

text \<open>The request made up front for the children of the new head, and the condition under which a child
  that finds no room is a request the allocator refused and not a capacity that overflowed.\<close>

definition children_reserved :: "layouts \<Rightarrow> 'p report \<Rightarrow> heap \<Rightarrow> bool" where
  "children_reserved L' r h \<longleftrightarrow>
     fst (vec_try_reserve (saturating_add (vlen (peers r)) 1) (vec_new (dframe_l L') :: 'p dframe vec, h)) = Ok ()"

definition children_fit :: "layouts \<Rightarrow> 'p report \<Rightarrow> heap \<Rightarrow> bool" where
  "children_fit L' r h \<longleftrightarrow> length (all_frames r) \<le> usize_max \<and>
     (children_reserved L' r h \<or> growable (dframe_l L') (length (all_frames r)))"

lemma vec_new_sel [simp]: "elem (vec_new l) = l" "cap (vec_new l) = (if lsize l = 0 then usize_max else 0)"
  by (simp_all add: vec_new_def)

lemma reserved_start:
  assumes "vec_ok v0" and "items v0 = []" and "vec_try_reserve n (v0, h) = (x, (v, h1))"
  shows "vec_ok v \<and> items v = [] \<and> elem v = elem v0 \<and> (x = Ok () \<longrightarrow> n \<le> cap v)"
proof (cases rule: vec_try_reserve_cases [OF assms(1), of n h])
  case (1 w h')
  then show ?thesis using assms(2,3) by auto
next
  case (2 e h')
  then show ?thesis using assms by auto
qed

lemma change_context_start:
  fixes r :: "'p report" and q :: "('e, 'p report) outcome"
  assumes "report_ok r" and "layouts_ok L'" and "change_context L L' c loc (r, h) = (q, h')"
  obtains j nh1 h1 p nh where "same_head (fresh_head L' c loc r) nh" and "asks j h h1"
    and "demotion (length (all_frames r)) (lost_peers r) 0 [] (all_frames r) (nh1, h1) (p :: ('e, unit) outcome, (nh, h'))"
    and "q = map_ok (\<lambda>_. \<lparr>head = nh, peers = vec_new (sframe_l L'), lost_peers = 0, capacity = capacity r\<rparr>) p"
    and "children_reserved L' r h \<longrightarrow> 0 < cap (sf_children nh1)"
    and "children_fit L' r h \<longrightarrow> fits (length (all_frames r)) nh1"
    and "items (sf_children nh1) = []"
proof -
  let ?nh = "fresh_head L' c loc r" and ?n = "length (all_frames r)" and ?total = "saturating_add (vlen (peers r)) 1"
  obtain x v h1 where res: "vec_try_reserve ?total (sf_children ?nh, h) = (x, (v, h1))"
    by (metis prod.collapse)
  have new: "vec_ok (sf_children ?nh)" using assms(2) by (simp add: layouts_ok_def)
  have v: "vec_ok v" "items v = []" "elem v = dframe_l L'" "x = Ok () \<longrightarrow> ?total \<le> cap v"
    using reserved_start [OF new _ res] by simp_all
  have total: "0 < ?total" "?n \<le> usize_max \<Longrightarrow> ?total = ?n"
    by (auto simp: saturating_add_def usize_max_def all_frames_def)
  have granted: "children_reserved L' r h \<longleftrightarrow> x = Ok ()" using res by (simp add: children_reserved_def)
  let ?nh1 = "?nh\<lparr>sf_children := v\<rparr>"
  obtain j where j: "asks j h h1" using reserve_asks [of h ?total "sf_children ?nh"] res by auto
  have start: "demoted (lost_peers r) 0 [] ?nh1" using v assms(1) by (simp add: demoted_def uncounted_def report_ok_def)
  obtain q1 s1 where one: "(demote_all L (peers r) (?nh1, h1) :: ('p sframe \<times> heap, 'e, unit) run) = (q1, s1)" by (metis prod.exhaust)
  obtain p nh h2 where two: "(and_then (q1, s1) (\<lambda>_. demote_and_push L (head r)) :: ('p sframe \<times> heap, 'e, unit) run) = (p, (nh, h2))"
    by (metis prod.exhaust)
  have "demotion ?n (lost_peers r) 0 [] (items (peers r)) (?nh1, h1) (q1, s1)"
    using demote_all_spec [OF start, of "peers r" ?n h1 L, where 'e = 'e] by (simp add: one all_frames_def)
  moreover have "demotion ?n (lost_peers r) y (items (peers r)) (all_frames r) s1
      (demote_and_push L (head r) s1 :: ('p sframe \<times> heap, 'e, unit) run)"
    if "demoted (lost_peers r) y (items (peers r)) (fst s1)" "y \<le> 1" "y = 1 \<longrightarrow> 0 < cap (sf_children (fst s1))" for y
    using demote_and_push_spec [OF that, of ?n "head r" "snd s1" L, where 'e = 'e] by (simp add: all_frames_def)
  ultimately have dem: "demotion ?n (lost_peers r) 0 [] (all_frames r) (?nh1, h1) (p, (nh, h2))"
    using demotion_trans [of ?n "lost_peers r" 0 "[]" "items (peers r)" ?nh1 h1 q1 s1 "all_frames r" "demote_and_push L (head r)"]
    by (simp add: two)
  have run: "(q, h') = (map_ok (\<lambda>_. \<lparr>head = nh, peers = vec_new (sframe_l L'), lost_peers = 0, capacity = capacity r\<rparr>) p, h2)"
    using assms(3) res one two by (simp add: change_context_def Let_def fresh_head_def)
  show thesis
  proof (rule that)
    show "same_head ?nh nh" using dem by (simp add: demotion_def)
    show "asks j h h1" by (rule j)
    show "demotion ?n (lost_peers r) 0 [] (all_frames r) (?nh1, h1) (p, (nh, h'))" using dem run by simp
    show "q = map_ok (\<lambda>_. \<lparr>head = nh, peers = vec_new (sframe_l L'), lost_peers = 0, capacity = capacity r\<rparr>) p"
      using run by simp
    show "children_reserved L' r h \<longrightarrow> 0 < cap (sf_children ?nh1)" using granted v(4) total(1) by auto
    show "children_fit L' r h \<longrightarrow> fits ?n ?nh1"
      using granted v(3,4) total(2) by (auto simp: children_fit_def fits_def)
    show "items (sf_children ?nh1) = []" using v(2) by simp
  qed
qed

lemma change_context_keeps_newest:
  fixes r :: "'p report" and q :: "('e, 'p report) outcome"
  assumes "report_ok r" and "layouts_ok L'" and "change_context L L' c loc (r, h) = (q, h')"
  shows "(\<exists>r' m x. q = Ok r' \<and> m \<le> length (all_frames r) \<and> report_ok r' \<and> current_context r' = c \<and>
      items (peers r') = [] \<and> lost_peers r' = 0 \<and> capacity r' = capacity r \<and> items (sf_attachments (head r')) = [] \<and>
      items (sf_children (head r')) = take m (map erase (all_frames r)) \<and>
      sf_lost_children (head r') = saturating_add (lost_peers r) (length (all_frames r) - m + x) \<and>
      x \<le> 1 \<and> (children_reserved L' r h \<longrightarrow> x = 0) \<and>
      (children_fit L' r h \<longrightarrow> (\<exists>k. asks k h h' \<and> length (all_frames r) - m + x \<le> k))) \<or>
    (q = Panic ''eviction guarantees space'' \<and> \<not> children_reserved L' r h \<and>
      (children_fit L' r h \<longrightarrow> (\<exists>k \<ge> 2. asks k h h')))"
proof -
  let ?n = "length (all_frames r)"
  obtain j nh1 h1 p nh where same: "same_head (fresh_head L' c loc r) nh" and j: "asks j h h1"
      and dem: "demotion ?n (lost_peers r) 0 [] (all_frames r) (nh1, h1) (p :: ('e, unit) outcome, (nh, h'))"
      and q: "q = map_ok (\<lambda>_. \<lparr>head = nh, peers = vec_new (sframe_l L'), lost_peers = 0, capacity = capacity r\<rparr>) p"
      and res: "children_reserved L' r h \<longrightarrow> 0 < cap (sf_children nh1)"
      and fit: "children_fit L' r h \<longrightarrow> fits ?n nh1"
      and empty: "items (sf_children nh1) = []"
    by (rule change_context_start [OF assms])
  have "uncounted 0 [] nh1 = 0" by (simp add: uncounted_def)
  then consider (ok) k x where "asks k h1 h'" "p = Ok ()" "demoted (lost_peers r) x (all_frames r) nh" "x \<le> 1"
        "x = 0 \<or> cap (sf_children nh1) = 0" "fits ?n nh1 \<longrightarrow> uncounted x (all_frames r) nh \<le> k"
      | (panic) k where "asks k h1 h'" "p = Panic ''eviction guarantees space''" "cap (sf_children nh1) = 0" "fits ?n nh1 \<longrightarrow> 2 \<le> k"
    using dem unfolding demotion_def prod.case by (metis add_0)
  then show ?thesis
  proof cases
    case ok
    let ?r = "\<lparr>head = nh, peers = vec_new (sframe_l L'), lost_peers = 0, capacity = capacity r\<rparr>"
    have "report_ok ?r" using ok(3) same assms(2)
      by (simp add: report_ok_def sframe_ok_def demoted_def same_head_def layouts_ok_def)
    moreover have "\<exists>k. asks k h h' \<and> uncounted x (all_frames r) nh \<le> k" if "children_fit L' r h"
      using asks_trans [OF j ok(1)] ok(6) fit that by (metis trans_le_add2)
    ultimately show ?thesis
      using ok same q res by (intro disjI1 exI [of _ ?r] exI [of _ "vlen (sf_children nh)"] exI [of _ x])
        (auto simp: demoted_def uncounted_def same_head_def current_context_def)
  next
    case panic
    have "\<exists>k \<ge> 2. asks k h h'" if "children_fit L' r h"
      using asks_trans [OF j panic(1)] panic(4) fit that by (metis trans_le_add2)
    then show ?thesis using panic q res by auto
  qed
qed

text \<open>Claim C8.
  Changing the context keeps the newest frames. When the call returns, the new head has the new
  context and no attachments, and its children are the type-erased head and peers from the newest to
  the oldest, cut off where memory ran out; the capacity cap is carried over and no peers remain. The
  count of lost children is the peers lost before and the frames cut off, one more at most, and exact
  when the children were reserved up front. Every frame that is lost and every one overcounted is a
  request the allocator refused (unless the capacity of the children would overflow), so with memory to
  spare all frames are kept. The only other outcome is the panic of the push that follows an eviction:
  only when the children could not be reserved, and after two refused requests.\<close>

theorem change_context_spec:
  fixes r :: "'p report" and q :: "('e, 'p report) outcome"
  assumes "report_ok r" and "layouts_ok L'" and "change_context L L' c loc (r, h) = (q, h')"
  shows "(\<exists>r' m x. q = Ok r' \<and> m \<le> length (all_frames r) \<and> report_ok r' \<and> current_context r' = c \<and>
      items (peers r') = [] \<and> lost_peers r' = 0 \<and> capacity r' = capacity r \<and> items (sf_attachments (head r')) = [] \<and>
      items (sf_children (head r')) = take m (map erase (all_frames r)) \<and>
      sf_lost_children (head r') = saturating_add (lost_peers r) (length (all_frames r) - m + x) \<and>
      x \<le> 1 \<and> (children_reserved L' r h \<longrightarrow> x = 0) \<and>
      (children_fit L' r h \<longrightarrow> (\<exists>k. asks k h h' \<and> length (all_frames r) - m + x \<le> k))) \<or>
    (q = Panic ''eviction guarantees space'' \<and> \<not> children_reserved L' r h \<and>
      (children_fit L' r h \<longrightarrow> (\<exists>k \<ge> 2. asks k h h')))"
  using assms by (rule change_context_keeps_newest)

theorem change_context_spec_witness:
  "\<exists>r'. fst (change_context sample_layouts sample_layouts 9 here (sample_report, heap_with policy_nothing)
      :: (unit, nat report) outcome \<times> heap) = Ok r' \<and>
    current_context r' = 9 \<and> items (sf_children (head r')) = [erase (head sample_report)] \<and>
    sf_lost_children (head r') = lost_peers sample_report"
proof -
  let ?h = "heap_with policy_nothing"
  let ?q = "change_context sample_layouts sample_layouts 9 here (sample_report, ?h) :: (unit, nat report) outcome \<times> heap"
  have frames: "all_frames sample_report = [head sample_report]"
    by (simp add: all_frames_def sample_report_def report_new_def vec_new_def)
  have fit: "children_fit sample_layouts sample_report ?h"
    by (simp add: children_fit_def frames growable_def sample_layouts_def min_non_zero_cap_def usize_max_def isize_max_def)
  have none: "asks k ?h h' \<Longrightarrow> k = 0" for k h' by (erule asks_generous) simp
  have le: "lost_peers sample_report \<le> usize_max" using sample_report_ok by (simp add: report_ok_def)
  show ?thesis
    using change_context_spec [OF sample_report_ok sample_layouts_ok prod.collapse [symmetric],
        of sample_layouts 9 here ?h, where 'e = unit] fit
  proof (elim disjE exE conjE)
    fix r' m x
    assume *: "fst ?q = Ok r'" "m \<le> length (all_frames sample_report)" "current_context r' = 9"
      "items (sf_children (head r')) = take m (map erase (all_frames sample_report))"
      "sf_lost_children (head r') = saturating_add (lost_peers sample_report) (length (all_frames sample_report) - m + x)"
      and "children_fit sample_layouts sample_report ?h \<longrightarrow> (\<exists>k. asks k ?h (snd ?q) \<and> length (all_frames sample_report) - m + x \<le> k)"
    then have "length (all_frames sample_report) - m + x = 0" using fit none by fastforce
    then show ?thesis using * le by (auto simp: frames)
  next
    assume "children_fit sample_layouts sample_report ?h \<longrightarrow> (\<exists>k \<ge> 2. asks k ?h (snd ?q))"
    then show ?thesis using fit none by fastforce
  qed
qed

lemma change_context_keeps_all:
  fixes r :: "'p report"
  assumes "report_ok r" and "layouts_ok L'" and "generous h" and "length (all_frames r) \<le> usize_max"
    and "grow_cap (vec_new (dframe_l L') :: 'p dframe vec) (length (all_frames r)) \<noteq> None"
  shows "\<exists>r' h'. (change_context L L' c loc (r, h) :: ('e, 'p report) outcome \<times> heap) = (Ok r', h') \<and>
    items (sf_children (head r')) = map erase (all_frames r) \<and> sf_lost_children (head r') = lost_peers r"
proof -
  let ?nh = "fresh_head L' c loc r"
  have total: "saturating_add (vlen (peers r)) 1 = length (all_frames r)"
    using assms(4) by (simp add: saturating_add_def all_frames_def)
  obtain k h1 where res: "vec_try_reserve (length (all_frames r)) (sf_children ?nh, h) = (Ok (), (with_cap k (vec_new (dframe_l L')), h1))"
      "generous h1"
    using vec_try_reserve_generous [OF assms(3,5)] by auto
  have new: "vec_ok (vec_new (dframe_l L') :: 'p dframe vec)" using assms(2) by (simp add: layouts_ok_def)
  have "vec_ok (with_cap k (vec_new (dframe_l L')) :: 'p dframe vec) \<and> length (all_frames r) \<le> k"
    using res(1) by (cases rule: vec_try_reserve_cases [OF new, of "length (all_frames r)" h]) auto
  then have "roomy (vlen (peers r) + 1) (?nh\<lparr>sf_children := with_cap k (vec_new (dframe_l L'))\<rparr>)"
    by (simp add: roomy_def all_frames_def)
  from demote_all_roomy [OF res(2) this, where 'e = 'e and L = L] obtain w h2 where all:
    "(demote_all L (peers r) (?nh\<lparr>sf_children := with_cap k (vec_new (dframe_l L'))\<rparr>, h1) :: ('p sframe \<times> heap, 'e, unit) run)
      = (Ok (), (?nh\<lparr>sf_children := w\<rparr>, h2))" "generous h2" "roomy 1 (?nh\<lparr>sf_children := w\<rparr>)" "items w = map erase (items (peers r))"
    by auto
  have one: "roomy (Suc 0) (?nh\<lparr>sf_children := w\<rparr>)" using all(3) by simp
  from demote_and_push_roomy [OF all(2) one, where 'e = 'e and L = L and sf = "head r"] obtain w' h3 where
    "(demote_and_push L (head r) (?nh\<lparr>sf_children := w\<rparr>, h2) :: ('p sframe \<times> heap, 'e, unit) run)
      = (Ok (), (?nh\<lparr>sf_children := w'\<rparr>, h3))" "items w' = erase (head r) # items w"
    by auto
  then show ?thesis
    using res(1) all(1,4) total
    by (simp add: change_context_def Let_def fresh_head_def all_frames_def)
qed

text \<open>With memory to spare nothing is lost: every frame becomes a child of the new head, the old head
  first and the oldest peer last, and only the peers lost before are counted.\<close>

lemma change_context_complete:
  fixes r :: "'p report"
  assumes "report_ok r" and "layouts_ok L'" and "generous h" and "length (all_frames r) \<le> usize_max"
    and "grow_cap (vec_new (dframe_l L') :: 'p dframe vec) (length (all_frames r)) \<noteq> None"
  shows "\<exists>r' h'. (change_context L L' c loc (r, h) :: ('e, 'p report) outcome \<times> heap) = (Ok r', h') \<and>
    items (sf_children (head r')) = map erase (all_frames r) \<and> sf_lost_children (head r') = lost_peers r"
  using assms by (rule change_context_keeps_all)

text \<open>
  Losing memory is not always survived: when the first frame can be boxed but the empty deque of
  children cannot grow, there is no child to evict, and the second push, which must succeed by its
  \<open>expect\<close>, panics.\<close>

lemma change_context_panics:
  "fst (change_context sample_layouts sample_layouts 9 here
      (sample_report, (heap_with policy_nothing)\<lparr>sys_grants := (\<lambda>n. n = 1)\<rparr>) :: (unit, nat report) outcome \<times> heap) =
    Panic ''eviction guarantees space''"
  by (simp add: change_context_def Let_def sample_report_def report_new_def sframe_new_def context_frame_new_def
      sample_layouts_def heap_with_def policy_nothing_def vec_try_reserve_def vec_new_def grow_amortized_def grow_cap_def
      galloc_def check_should_fail_alloc_def system_request_def saturating_add_def usize_max_def isize_max_def
      min_non_zero_cap_def checked_add_def demote_all.simps demote_and_push.simps deque_pop_back.simps from_static_def
      box_try_new_give_back_def alloc_box_uninit_def push_child_def deque_try_push_front_give_back_def pop_child_def
      lose_child_def)

text \<open>Claim C7.
  The lossless change of context never panics. Either it answers a report whose head has the new
  context and all frames of the old report as children, from the oldest peer to the old head, or it
  gives back the new context and exactly the old report, whichever allocation failed.\<close>

theorem try_change_context_spec:
  fixes r :: "'p report"
  assumes "report_ok r" and "layouts_ok L" and "layouts_ok L'" and "length (all_frames r) \<le> usize_max"
    and "try_change_context L L' c loc (r, h) = (q, h')"
  shows "q = Err (ChangeContextError r c) \<or>
    (\<exists>r'. q = Ok r' \<and> report_ok r' \<and> current_context r' = c \<and> items (peers r') = [] \<and> lost_peers r' = 0 \<and>
      capacity r' = capacity r \<and> sf_lost_children (head r') = lost_peers r \<and>
      items (sf_children (head r')) = rev (map erase (all_frames r)))"
proof -
  let ?nh = "fresh_head L' c loc r" and ?n = "length (all_frames r)"
  have n: "saturating_add (vlen (peers r)) 1 = ?n" "?n = Suc (vlen (peers r))"
    using assms(4) by (simp_all add: saturating_add_def all_frames_def)
  have same: "\<lparr>head = head r, peers = peers r, lost_peers = lost_peers r, capacity = capacity r\<rparr> = r" by simp
  have ps: "vec_ok (peers r)" using assms(1) by (simp add: report_ok_def)
  note defs = try_change_context_def Let_def n(1) [simplified] fresh_head_def [symmetric]
  have new: "vec_ok (vec_new (dframe_l L') :: 'p dframe vec)" using assms(3) by (simp add: layouts_ok_def)
  show ?thesis
  proof (cases rule: vec_try_reserve_cases [OF new, of ?n h])
    case (2 e h1)
    then show ?thesis using assms(5) by (auto simp: defs same)
  next
    case (1 v h1)
    note kids = this
    have room: "roomy ?n (?nh\<lparr>sf_children := v\<rparr>)" using kids by (simp add: roomy_def)
    show ?thesis
    proof (cases rule: new_reserve_cases [where 'a = "'p iframe", of ?n "iframe_l L" h1])
      case (failed e w h2)
      then have "(vec_try_with_capacity (iframe_l L) ?n h1 :: (try_reserve_error, 'p iframe vec) outcome \<times> heap) = (Err e, h2)"
        using n by (simp add: vec_try_with_capacity_def into_vec_def)
      then show ?thesis using assms(5) kids by (auto simp: defs same)
    next
      case (reserved w h2)
      then have cap: "vec_try_with_capacity (iframe_l L) ?n h1 = (Ok w, h2)" and w: "vec_ok w" "items w = []" "?n \<le> cap w"
        using n assms(2) by (simp_all add: vec_try_with_capacity_def into_vec_def layouts_ok_def)
      have spare: "vlen (peers r) \<le> vec_spare w" using w n by simp
      show ?thesis
        using box_peers_spec [OF w(1) spare, of L h2]
      proof (elim exE disjE conjE)
        fix h3 as sf bs
        assume split: "items (peers r) = as @ sf # bs" and failed: "box_peers L ((peers r, w), h2) =
          (Err sf, ((with_items as (peers r), with_items (items w @ map boxed (rev bs)) w), h3))"
        have "recover_report (map boxed (rev bs)) (Some sf) (with_items as (peers r)) (head r) (lost_peers r) (capacity r) h3
            = (r, h3)"
          using recover_trailing [OF ps split] by (simp add: same)
        then show ?thesis using assms(5) kids(1) cap w(2) failed by (auto simp: defs)
      next
        fix h3
        let ?w = "with_items (map boxed (rev (items (peers r)))) w"
        assume "box_peers L ((peers r, w), h2) =
          (Ok (), ((with_items [] (peers r), with_items (items w @ map boxed (rev (items (peers r)))) w), h3))"
        then have boxes: "box_peers L ((peers r, w), h2) = (Ok (), ((with_items [] (peers r), ?w), h3))"
          using w(2) by simp
        have w': "vec_ok ?w" "0 < vec_spare ?w" using w n by (auto intro!: vec_ok_with_items)
        show ?thesis
        proof (cases rule: box_frame_cases [OF w', of L "head r" h3])
          case (1 h4)
          let ?all = "map into_dynamic (rev (map boxed (rev (items (peers r))) @ [boxed (head r)]))"
          have all: "?all = map erase (all_frames r)" by (simp add: all_frames_def rev_map o_def)
          obtain x where x: "(push_children (map erase (all_frames r)) (?nh\<lparr>sf_children := v\<rparr>, h4)
              :: ('p sframe \<times> heap, 'p change_context_error, unit) run) = (Ok (), (?nh\<lparr>sf_children := x\<rparr>, h4))"
              "vec_ok x" "items x = rev (map erase (all_frames r)) @ items v"
            using push_children_room [of "map erase (all_frames r)" "?nh\<lparr>sf_children := v\<rparr>" h4] room by auto
          let ?r = "\<lparr>head = ?nh\<lparr>sf_children := x\<rparr>, peers = vec_new (sframe_l L'), lost_peers = 0, capacity = capacity r\<rparr>"
          have "q = Ok ?r" using assms(5) kids(1) cap boxes 1 x(1) by (simp add: defs all [simplified])
          moreover have "report_ok ?r"
            using x(2) assms(3) by (simp add: report_ok_def sframe_ok_def layouts_ok_def)
          ultimately show ?thesis using x kids(3) by (simp add: current_context_def)
        next
          case (2 h4)
          then show ?thesis
            using assms(5) kids(1) cap boxes recover_head [OF ps] by (auto simp: defs same)
        qed
      qed
    qed
  qed
qed

theorem try_change_context_spec_witness:
  "fst (try_change_context sample_layouts sample_layouts 9 here (sample_report, heap_with policy_fail_all)) =
     Err (ChangeContextError sample_report 9) \<or>
   (\<exists>r'. fst (try_change_context sample_layouts sample_layouts 9 here (sample_report, heap_with policy_fail_all)) = Ok r' \<and>
     current_context r' = 9)"
proof -
  let ?q = "try_change_context sample_layouts sample_layouts 9 here (sample_report, heap_with policy_fail_all)"
  have "length (all_frames sample_report) \<le> usize_max"
    by (simp add: all_frames_def sample_report_def report_new_def usize_max_def)
  then show ?thesis
    using try_change_context_spec [OF sample_report_ok sample_layouts_ok sample_layouts_ok, of 9 here "heap_with policy_fail_all"
        "fst ?q" "snd ?q"] by auto
qed

end
