(* ===== verification/Frames.thy ===== *)
theory Frames
  imports ReportChange
begin

text \<open>
  Walking and searching a report (\<^verbatim>\<open>rustyfill-errors/src/report.rs\<close>, sections Search and
  Iteration; \<^verbatim>\<open>frame/frame.rs\<close>, search helpers). The depth-first iterators keep an explicit
  stack of child iterators; growing it can fail, and then the frame whose children could not be
  entered stays pending. An iterator over a slice or a deque is the list of what it has not yielded.
\<close>

section \<open>Searching by type\<close>

text \<open>A type is a predicate \<open>t\<close> on erased values; \<open>downcast\<close> answers the value when it holds.\<close>

definition downcast :: "('p \<Rightarrow> bool) \<Rightarrow> 'p item \<Rightarrow> 'p option" where
  "downcast t x = (if t (as_any x) then Some (as_any x) else None)"

text \<open>The loop \<open>for x in xs { if let Some(r) = f(x) { return Some(r) } }\<close>.\<close>

fun first_some :: "('a \<Rightarrow> 'b option) \<Rightarrow> 'a list \<Rightarrow> 'b option" where
  "first_some f [] = None"
| "first_some f (x # xs) = (case f x of Some r \<Rightarrow> Some r | None \<Rightarrow> first_some f xs)"

lemma first_some_cong [fundef_cong]:
  "xs = ys \<Longrightarrow> (\<And>x. x \<in> set ys \<Longrightarrow> f x = g x) \<Longrightarrow> first_some f xs = first_some g ys"
  by (induction xs arbitrary: ys) (auto split: option.splits)

fun df_contains :: "('p \<Rightarrow> bool) \<Rightarrow> 'p dframe \<Rightarrow> bool" where
  "df_contains t (DFrame c atts (Vec kids k l) la lc) =
     (t (as_any c) \<or> list_ex (\<lambda>x. t (as_any x)) (items atts) \<or> list_ex (df_contains t) kids)"

fun df_downcast_ref :: "('p \<Rightarrow> bool) \<Rightarrow> 'p dframe \<Rightarrow> 'p option" where
  "df_downcast_ref t (DFrame c atts (Vec kids k l) la lc) =
     (case downcast t c of Some r \<Rightarrow> Some r
      | None \<Rightarrow> (case first_some (downcast t) (items atts) of Some r \<Rightarrow> Some r
          | None \<Rightarrow> first_some (df_downcast_ref t) (rev kids)))"

definition sf_contains :: "('p \<Rightarrow> bool) \<Rightarrow> 'p sframe \<Rightarrow> bool" where
  "sf_contains t sf \<longleftrightarrow>
     list_ex (\<lambda>x. t (as_any x)) (items (sf_attachments sf)) \<or> list_ex (df_contains t) (items (sf_children sf))"

definition sf_downcast_ref :: "('p \<Rightarrow> bool) \<Rightarrow> 'p sframe \<Rightarrow> 'p option" where
  "sf_downcast_ref t sf =
     (case first_some (downcast t) (items (sf_attachments sf)) of Some r \<Rightarrow> Some r
      | None \<Rightarrow> first_some (df_downcast_ref t) (rev (items (sf_children sf))))"

definition sf_own :: "('p \<Rightarrow> bool) \<Rightarrow> 'p sframe \<Rightarrow> 'p option" where
  "sf_own t sf = downcast t (ContextItem (sf_context sf))"

definition report_contains :: "('p \<Rightarrow> bool) \<Rightarrow> 'p report \<Rightarrow> bool" where
  "report_contains t r \<longleftrightarrow>
     t (cf_context (sf_context (head r))) \<or> sf_contains t (head r) \<or>
     list_ex (\<lambda>p. t (cf_context (sf_context p)) \<or> sf_contains t p) (items (peers r))"

definition report_downcast_ref :: "('p \<Rightarrow> bool) \<Rightarrow> 'p report \<Rightarrow> 'p option" where
  "report_downcast_ref t r =
     (case sf_own t (head r) of Some x \<Rightarrow> Some x
      | None \<Rightarrow> (case sf_downcast_ref t (head r) of Some x \<Rightarrow> Some x
          | None \<Rightarrow> first_some
              (\<lambda>p. case sf_own t p of Some x \<Rightarrow> Some x | None \<Rightarrow> sf_downcast_ref t p) (items (peers r))))"

section \<open>Walking\<close>

datatype 'p frame_ref = FStatic "'p sframe" | FDynamic "'p dframe" | FLost nat

fun frame_kind :: "'p frame_ref \<Rightarrow> item_kind option" where
  "frame_kind (FStatic sf) = Some KindContext"
| "frame_kind (FDynamic df) = Some (item_kind_of (df_context df))"
| "frame_kind (FLost n) = None"

fun frame_downcast_ref :: "('p \<Rightarrow> bool) \<Rightarrow> 'p frame_ref \<Rightarrow> 'p option" where
  "frame_downcast_ref t (FStatic sf) = sf_own t sf"
| "frame_downcast_ref t (FDynamic df) = downcast t (df_context df)"
| "frame_downcast_ref t (FLost n) = None"

text \<open>\<open>StackEntry\<close>: the rest of a parent's children, and how many the parent lost.\<close>

type_synonym 'p stack_entry = "'p dframe list \<times> nat"

text \<open>An item of the iterators: a frame or the error of growing the stack, with the depth.\<close>

type_synonym 'p walk_item = "(try_reserve_error + 'p frame_ref) \<times> nat"

text \<open>The fields that \<open>Frames\<close> and \<open>ChronoFrames\<close> share; each adds its own flag.\<close>

record 'p walk =
  w_peers :: "'p sframe list"
  w_head :: "'p sframe"
  w_stack :: "'p stack_entry vec"
  w_lost_peers :: nat
  w_lost_emitted :: bool
  w_pending :: "'p frame_ref option"
  w_stalled :: bool
  w_auto_unstall :: bool

record 'p frames = "'p walk" +
  head_remaining :: bool

record 'p chrono = "'p walk" +
  peers_remaining :: bool

fun children_of :: "'p frame_ref \<Rightarrow> 'p stack_entry option" where
  "children_of (FStatic sf) = Some (items (sf_children sf), sf_lost_children sf)"
| "children_of (FDynamic df) = Some (items (df_children df), df_lost_children df)"
| "children_of (FLost n) = None"

text \<open>
  The first half of \<open>next\<close>: clear the stall, and enter the children of the pending frame. The
  answer is an item to yield at once, or nothing when the iteration goes on.
\<close>

definition retry_pending ::
    "('p, 'z) walk_scheme \<times> heap \<Rightarrow> (('p, 'z) walk_scheme \<times> heap, 'e, 'p walk_item option) run" where
  "retry_pending s =
     (case s of (w, h) \<Rightarrow>
        let w0 = w\<lparr>w_stalled := False\<rparr>
        in case w_pending w0 of
             None \<Rightarrow> (Ok None, (w0, h))
           | Some f \<Rightarrow>
               let w1 = w0\<lparr>w_pending := None\<rparr>
               in case children_of f of
                    None \<Rightarrow> (Panic ''internal error: entered unreachable code'', (w1, h))
                  | Some (kids, lost) \<Rightarrow>
                      if kids = [] then (Ok None, (w1, h))
                      else case vec_try_push_give_back (kids, lost) (w_stack w1, h) of
                          (Ok _, (st, h')) \<Rightarrow> (Ok None, (w1\<lparr>w_stack := st\<rparr>, h'))
                        | (Err (_, e), (st, h')) \<Rightarrow>
                            let w2 = w1\<lparr>w_stack := st\<rparr>
                            in if w_auto_unstall w2 then (Ok (Some (Inl e, vlen st)), (w2, h'))
                               else (Ok (Some (Inl e, vlen st)),
                                     (w2\<lparr>w_pending := Some f, w_stalled := True\<rparr>, h'))
                        | (Panic msg, (st, h')) \<Rightarrow> (Panic msg, (w1\<lparr>w_stack := st\<rparr>, h'))
                        | (UB, (st, h')) \<Rightarrow> (UB, (w1\<lparr>w_stack := st\<rparr>, h')))"

text \<open>Yield a frame; its children become pending when it has some.\<close>

definition yield_frame ::
    "'p frame_ref \<Rightarrow> 'p dframe vec \<Rightarrow> nat \<Rightarrow> ('p, 'z) walk_scheme \<Rightarrow> 'p walk_item option \<times> ('p, 'z) walk_scheme" where
  "yield_frame f kids depth w =
     (Some (Inr f, depth), if items kids \<noteq> [] then w\<lparr>w_pending := Some f\<rparr> else w)"

text \<open>The loop over the stack: pop exhausted entries until one yields.\<close>

function walk_stack :: "('p, 'z) walk_scheme \<Rightarrow> 'p walk_item option \<times> ('p, 'z) walk_scheme" where
  "walk_stack w =
     (if items (w_stack w) = [] then (None, w)
      else
        let rest = butlast (items (w_stack w)); depth = vlen (w_stack w)
        in case last (items (w_stack w)) of
             (df # dfs, n) \<Rightarrow>
               yield_frame (FDynamic df) (df_children df) depth
                 (w\<lparr>w_stack := with_items (rest @ [(dfs, n)]) (w_stack w)\<rparr>)
           | ([], n) \<Rightarrow>
               let w' = w\<lparr>w_stack := with_items rest (w_stack w)\<rparr>
               in if 0 < n then (Some (Inr (FLost n), depth), w') else walk_stack w')"
  by pat_completeness auto
termination
  by (relation "measure (\<lambda>w. vlen (w_stack w))") auto

declare walk_stack.simps [simp del]

definition emit_lost :: "('p, 'z) walk_scheme \<Rightarrow> 'p walk_item option \<times> ('p, 'z) walk_scheme" where
  "emit_lost w =
     (if \<not> w_lost_emitted w \<and> 0 < w_lost_peers w
      then (Some (Inr (FLost (w_lost_peers w)), 0), w\<lparr>w_lost_emitted := True\<rparr>)
      else (None, w))"

subsection \<open>Most recent first\<close>

definition report_frames :: "layout \<Rightarrow> 'p report \<Rightarrow> 'p frames" where
  "report_frames l r =
     \<lparr>w_peers = items (peers r), w_head = head r, w_stack = vec_new l, w_lost_peers = lost_peers r,
      w_lost_emitted = False, w_pending = None, w_stalled = False, w_auto_unstall = False,
      head_remaining = True\<rparr>"

definition frames_advance :: "'p frames \<Rightarrow> 'p walk_item option \<times> 'p frames" where
  "frames_advance w =
     (if head_remaining w then
        yield_frame (FStatic (w_head w)) (sf_children (w_head w)) 0 (w\<lparr>head_remaining := False\<rparr>)
      else case walk_stack w of
          (Some it, w') \<Rightarrow> (Some it, w')
        | (None, w') \<Rightarrow>
            (case w_peers w' of
               p # ps \<Rightarrow> yield_frame (FStatic p) (sf_children p) 0 (w'\<lparr>w_peers := ps\<rparr>)
             | [] \<Rightarrow> emit_lost w'))"

definition next_with ::
    "(('p, 'z) walk_scheme \<Rightarrow> 'p walk_item option \<times> ('p, 'z) walk_scheme) \<Rightarrow> ('p, 'z) walk_scheme \<times> heap \<Rightarrow>
     (('p, 'z) walk_scheme \<times> heap, 'e, 'p walk_item option) run" where
  "next_with advance s =
     and_then (retry_pending s) (\<lambda>out (w, h).
       case out of
         Some it \<Rightarrow> (Ok (Some it), (w, h))
       | None \<Rightarrow> (case advance w of (it, w') \<Rightarrow> (Ok it, (w', h))))"

definition frames_next :: "'p frames \<times> heap \<Rightarrow> ('p frames \<times> heap, 'e, 'p walk_item option) run" where
  "frames_next = next_with frames_advance"

subsection \<open>Oldest first\<close>

definition report_frames_chronological :: "layout \<Rightarrow> 'p report \<Rightarrow> 'p chrono" where
  "report_frames_chronological l r =
     \<lparr>w_peers = rev (items (peers r)), w_head = head r, w_stack = vec_new l, w_lost_peers = lost_peers r,
      w_lost_emitted = False, w_pending = None, w_stalled = False, w_auto_unstall = False,
      peers_remaining = True\<rparr>"

definition chrono_advance :: "'p chrono \<Rightarrow> 'p walk_item option \<times> 'p chrono" where
  "chrono_advance w =
     (case walk_stack w of
        (Some it, w') \<Rightarrow> (Some it, w')
      | (None, w') \<Rightarrow>
          if peers_remaining w' then
            (case w_peers w' of
               p # ps \<Rightarrow> yield_frame (FStatic p) (sf_children p) 0 (w'\<lparr>w_peers := ps\<rparr>)
             | [] \<Rightarrow>
                 yield_frame (FStatic (w_head w')) (sf_children (w_head w')) 0 (w'\<lparr>peers_remaining := False\<rparr>))
          else emit_lost w')"

definition chrono_next :: "'p chrono \<times> heap \<Rightarrow> ('p chrono \<times> heap, 'e, 'p walk_item option) run" where
  "chrono_next = next_with chrono_advance"

subsection \<open>Stalls\<close>

definition walk_unstall :: "('p, 'z) walk_scheme \<Rightarrow> bool \<times> ('p, 'z) walk_scheme" where
  "walk_unstall w =
     (if w_stalled w then (w_pending w \<noteq> None, w\<lparr>w_stalled := False, w_pending := None\<rparr>) else (False, w))"

definition walk_set_auto_unstall :: "bool \<Rightarrow> ('p, 'z) walk_scheme \<Rightarrow> ('p, 'z) walk_scheme" where
  "walk_set_auto_unstall auto w = w\<lparr>w_auto_unstall := auto\<rparr>"

end
