(* ===== verification/FramesProps.thy ===== *)
theory FramesProps
  imports Frames ContextProps
begin

text \<open>
  The iterators over a report refine the list of its frames: each has a list of what remains to be
  visited, and a call of \<open>next\<close> takes its first element off, or reports the failed allocation and
  leaves the list alone. The search operations answer the first match of a list of payloads.
\<close>

section \<open>The walk as a list\<close>

fun dwalk :: "nat \<Rightarrow> 'p dframe \<Rightarrow> ('p frame_ref \<times> nat) list" where
  "dwalk d (DFrame c atts (Vec kids k l) la lc) =
     (FDynamic (DFrame c atts (Vec kids k l) la lc), d) #
       (if kids = [] then []
        else concat (map (dwalk (Suc d)) kids) @ (if 0 < lc then [(FLost lc, Suc d)] else []))"

text \<open>The children of one parent at depth \<open>d\<close>, then the marker for those it lost.\<close>

definition entry_walk :: "nat \<Rightarrow> 'p stack_entry \<Rightarrow> ('p frame_ref \<times> nat) list" where
  "entry_walk d e = concat (map (dwalk d) (fst e)) @ (if 0 < snd e then [(FLost (snd e), d)] else [])"

definition kids_walk :: "nat \<Rightarrow> 'p frame_ref \<Rightarrow> ('p frame_ref \<times> nat) list" where
  "kids_walk d f = (case children_of f of None \<Rightarrow> [] | Some e \<Rightarrow> if fst e = [] then [] else entry_walk d e)"

definition swalk :: "'p sframe \<Rightarrow> ('p frame_ref \<times> nat) list" where
  "swalk sf = (FStatic sf, 0) # kids_walk 1 (FStatic sf)"

definition lost_walk :: "nat \<Rightarrow> ('p frame_ref \<times> nat) list" where
  "lost_walk n = (if 0 < n then [(FLost n, 0)] else [])"

definition report_walk :: "'p report \<Rightarrow> ('p frame_ref \<times> nat) list" where
  "report_walk r = concat (map swalk (head r # items (peers r))) @ lost_walk (lost_peers r)"

definition report_walk_chronological :: "'p report \<Rightarrow> ('p frame_ref \<times> nat) list" where
  "report_walk_chronological r =
     concat (map swalk (rev (items (peers r)) @ [head r])) @ lost_walk (lost_peers r)"

lemma dwalk_eq: "dwalk d df = (FDynamic df, d) # kids_walk (Suc d) (FDynamic df)"
  by (cases "(d, df)" rule: dwalk.cases) (simp add: kids_walk_def entry_walk_def)

lemma entry_walk_simps [simp]:
  "entry_walk d (df # dfs, n) = dwalk d df @ entry_walk d (dfs, n)"
  "entry_walk d ([], n) = (if 0 < n then [(FLost n, d)] else [])"
  by (simp_all add: entry_walk_def)

lemma kids_walk_none [simp]:
  "items (sf_children sf) = [] \<Longrightarrow> kids_walk d (FStatic sf) = []"
  "items (df_children df) = [] \<Longrightarrow> kids_walk d (FDynamic df) = []"
  by (simp_all add: kids_walk_def)

section \<open>What remains of a walk\<close>

text \<open>The stack from the top (the last entry) down; entry \<open>i\<close> holds frames of depth \<open>i + 1\<close>.\<close>

fun stack_walk_from :: "nat \<Rightarrow> 'p stack_entry list \<Rightarrow> ('p frame_ref \<times> nat) list" where
  "stack_walk_from i [] = []"
| "stack_walk_from i (e # es) = stack_walk_from (Suc i) es @ entry_walk (Suc i) e"

lemma stack_walk_snoc: "stack_walk_from i (es @ [e]) = entry_walk (Suc (i + length es)) e @ stack_walk_from i es"
  by (induction es arbitrary: i) auto

definition below :: "('p, 'z) walk_scheme \<Rightarrow> ('p frame_ref \<times> nat) list" where
  "below w = (case w_pending w of None \<Rightarrow> [] | Some f \<Rightarrow> kids_walk (Suc (vlen (w_stack w))) f) @
     stack_walk_from 0 (items (w_stack w))"

definition lost_left :: "('p, 'z) walk_scheme \<Rightarrow> ('p frame_ref \<times> nat) list" where
  "lost_left w = (if w_lost_emitted w then [] else lost_walk (w_lost_peers w))"

definition frames_left :: "'p frames \<Rightarrow> ('p frame_ref \<times> nat) list" where
  "frames_left w =
     below w @ (if head_remaining w then swalk (w_head w) else []) @ concat (map swalk (w_peers w)) @ lost_left w"

definition chrono_left :: "'p chrono \<Rightarrow> ('p frame_ref \<times> nat) list" where
  "chrono_left w =
     below w @ (if peers_remaining w then concat (map swalk (w_peers w @ [w_head w])) else []) @ lost_left w"

text \<open>The pending frame has children; a walk whose head is still to come has not entered any.\<close>

definition walk_ok :: "('p, 'z) walk_scheme \<Rightarrow> bool" where
  "walk_ok w \<longleftrightarrow> vec_ok (w_stack w) \<and>
     (case w_pending w of None \<Rightarrow> True | Some f \<Rightarrow> \<exists>e. children_of f = Some e \<and> fst e \<noteq> [])"

definition frames_ok :: "'p frames \<Rightarrow> bool" where
  "frames_ok w \<longleftrightarrow> walk_ok w \<and> (head_remaining w \<longrightarrow> w_pending w = None \<and> items (w_stack w) = [])"

section \<open>The steps\<close>

text \<open>Entering the pending frame moves its children onto the stack and changes nothing else.\<close>

lemma retry_cases:
  fixes w :: "('p, 'z) walk_scheme"
  assumes "walk_ok w"
  obtains (entered) st h' where
      "(retry_pending (w, h) :: (('p, 'z) walk_scheme \<times> heap, 'e, 'p walk_item option) run) =
        (Ok None, (w\<lparr>w_stalled := False, w_pending := None, w_stack := st\<rparr>, h'))"
      and "vec_ok st" and "stack_walk_from 0 (items st) = below w"
      and "w_pending w = None \<Longrightarrow> st = w_stack w"
  | (stalled) f e h' where "w_pending w = Some f"
      and "(retry_pending (w, h) :: (('p, 'z) walk_scheme \<times> heap, 'e, 'p walk_item option) run) =
        (Ok (Some (Inl e, vlen (w_stack w))),
         (w\<lparr>w_stalled := \<not> w_auto_unstall w, w_pending := (if w_auto_unstall w then None else Some f)\<rparr>, h'))"
proof (cases "w_pending w")
  case None
  then show ?thesis
    using assms by (intro entered [of "w_stack w" h]) (auto simp: retry_pending_def walk_ok_def below_def)
next
  case (Some f)
  then obtain kids lost where f: "children_of f = Some (kids, lost)" "kids \<noteq> []"
    using assms by (auto simp: walk_ok_def)
  have v: "vec_ok (w_stack w)" using assms by (simp add: walk_ok_def)
  show ?thesis
  proof (cases rule: vpush.push_cases [OF v, of "(kids, lost)" h])
    case (1 st h')
    then show ?thesis
      using Some f by (intro entered [of st h'])
        (auto simp: retry_pending_def below_def kids_walk_def stack_walk_snoc)
  next
    case (2 e h')
    then show ?thesis
      using Some f by (intro stalled [of f e h']) (auto simp: retry_pending_def)
  qed
qed

lemma yield_frame_below:
  assumes "w_pending w = None" and "children_of f = Some (items kids, n)"
  shows "kids_walk (Suc (vlen (w_stack w))) f @ stack_walk_from 0 (items (w_stack w)) = below (snd (yield_frame f kids d w))"
  using assms by (auto simp: yield_frame_def below_def kids_walk_def)

lemma yield_frame_ok:
  "walk_ok w \<Longrightarrow> children_of f = Some (items kids, n) \<Longrightarrow> walk_ok (snd (yield_frame f kids d w))"
  by (auto simp: yield_frame_def walk_ok_def)

text \<open>Fields that the stack loop and the yields leave alone.\<close>

definition same_walk :: "('p, 'z) walk_scheme \<Rightarrow> ('p, 'z) walk_scheme \<Rightarrow> bool" where
  "same_walk w w' \<longleftrightarrow> w' = w\<lparr>w_stack := w_stack w', w_pending := w_pending w'\<rparr>"

lemma walk_stack_spec:
  fixes w :: "('p, 'z) walk_scheme"
  assumes "walk_ok w" and "w_pending w = None" and "walk_stack w = (it, w')"
  shows "walk_ok w' \<and> same_walk w w' \<and>
    (case it of
       None \<Rightarrow> below w = [] \<and> items (w_stack w') = [] \<and> w_pending w' = None
     | Some x \<Rightarrow> \<exists>f d. x = (Inr f, d) \<and> below w = (f, d) # below w')"
  using assms
proof (induction "vlen (w_stack w)" arbitrary: w rule: less_induct)
  case less
  show ?case
  proof (cases "items (w_stack w)" rule: rev_cases)
    case Nil
    then show ?thesis
      using less.prems by (auto simp: walk_stack.simps [of w] below_def same_walk_def)
  next
    case (snoc rest e)
    have ok: "vec_ok (with_items xs (w_stack w))" if "length xs \<le> vlen (w_stack w)" for xs
      using less.prems(1) that by (auto simp: walk_ok_def vec_ok_def)
    obtain kids n where e: "e = (kids, n)" by (cases e)
    show ?thesis
    proof (cases kids)
      case (Cons df dfs)
      let ?w = "w\<lparr>w_stack := with_items (rest @ [(dfs, n)]) (w_stack w)\<rparr>"
      have "walk_ok ?w" using less.prems ok snoc by (simp add: walk_ok_def)
      moreover have "(it, w') = yield_frame (FDynamic df) (df_children df) (Suc (length rest)) ?w"
        using less.prems(3) snoc e Cons by (simp add: walk_stack.simps [of w] Let_def)
      moreover have "kids_walk (Suc (vlen (w_stack ?w))) (FDynamic df) @ stack_walk_from 0 (items (w_stack ?w)) =
          below (snd (yield_frame (FDynamic df) (df_children df) (Suc (length rest)) ?w))"
        by (rule yield_frame_below [where n = "df_lost_children df"]) (simp_all add: less.prems)
      ultimately show ?thesis
        using yield_frame_ok [of ?w "FDynamic df" "df_children df" "df_lost_children df" "Suc (length rest)"]
          snoc e Cons less.prems(2)
        by (auto simp: yield_frame_def below_def stack_walk_snoc dwalk_eq same_walk_def split: if_splits)
    next
      case Nil
      let ?w = "w\<lparr>w_stack := with_items rest (w_stack w)\<rparr>"
      have w1: "walk_ok ?w" "w_pending ?w = None" using less.prems ok snoc by (simp_all add: walk_ok_def)
      have b: "below w = (if 0 < n then [(FLost n, Suc (length rest))] else []) @ below ?w"
        using snoc e Nil less.prems(2) by (simp add: below_def stack_walk_snoc)
      show ?thesis
      proof (cases "0 < n")
        case True
        then show ?thesis
          using less.prems(3) snoc e Nil w1 b by (auto simp: walk_stack.simps [of w] Let_def same_walk_def)
      next
        case False
        then have "walk_stack ?w = (it, w')"
          using less.prems(3) snoc e Nil by (simp add: walk_stack.simps [of w] Let_def)
        moreover have "vlen (w_stack ?w) < vlen (w_stack w)" using snoc by simp
        ultimately have "walk_ok w' \<and> same_walk ?w w' \<and>
            (case it of
               None \<Rightarrow> below ?w = [] \<and> items (w_stack w') = [] \<and> w_pending w' = None
             | Some x \<Rightarrow> \<exists>f d. x = (Inr f, d) \<and> below ?w = (f, d) # below w')"
          using less.hyps [of ?w] w1 by blast
        moreover have "same_walk ?w w' \<longleftrightarrow> same_walk w w'" by (simp add: same_walk_def)
        moreover have "below w = below ?w" using b False by simp
        ultimately show ?thesis by (cases it) auto
      qed
    qed
  qed
qed

lemma emit_lost_left:
  "emit_lost w = (it, w') \<Longrightarrow>
   (case it of None \<Rightarrow> w' = w \<and> lost_left w = []
    | Some x \<Rightarrow> \<exists>f d. x = (Inr f, d) \<and> lost_left w = [(f, d)] \<and> w' = w\<lparr>w_lost_emitted := True\<rparr>)"
  by (auto simp: emit_lost_def lost_left_def lost_walk_def split: if_splits)

section \<open>The interface of a walker\<close>

text \<open>The items that carry a frame, without the errors.\<close>

definition delivered :: "'p walk_item list \<Rightarrow> ('p frame_ref \<times> nat) list" where
  "delivered xs = List.map_filter (\<lambda>(x, d). case x of Inl e \<Rightarrow> None | Inr f \<Rightarrow> Some (f, d)) xs"

lemma delivered_simps [simp]:
  "delivered [] = []" "delivered ((Inr f, d) # xs) = (f, d) # delivered xs"
  "delivered ((Inl e, d) # xs) = delivered xs"
  by (simp_all add: delivered_def)

text \<open>A client that calls \<open>next\<close> up to \<open>n\<close> times, until it answers \<open>None\<close>.\<close>

fun walk_items ::
    "('s \<Rightarrow> ('s, 'e, 'p walk_item option) run) \<Rightarrow> nat \<Rightarrow> 's \<Rightarrow> ('s, 'e, 'p walk_item list) run" where
  "walk_items nxt 0 s = (Ok [], s)"
| "walk_items nxt (Suc n) s =
     and_then (nxt s) (\<lambda>out s'.
       case out of
         None \<Rightarrow> (Ok [], s')
       | Some x \<Rightarrow> map_ok_run (\<lambda>xs. x # xs) (walk_items nxt n s'))"

locale walker =
  fixes advance :: "('p, 'z) walk_scheme \<Rightarrow> 'p walk_item option \<times> ('p, 'z) walk_scheme"
    and left :: "('p, 'z) walk_scheme \<Rightarrow> ('p frame_ref \<times> nat) list"
    and inv :: "('p, 'z) walk_scheme \<Rightarrow> bool"
  assumes inv_walk: "inv w \<Longrightarrow> walk_ok w"
    and advance_law: "inv w \<Longrightarrow> w_pending w = None \<Longrightarrow> advance w = (it, w') \<Longrightarrow>
      inv w' \<and> w_auto_unstall w' = w_auto_unstall w \<and>
      (case it of
         None \<Rightarrow> left w = [] \<and> left w' = []
       | Some x \<Rightarrow> \<exists>f d. x = (Inr f, d) \<and> left w = (f, d) # left w')"
    and enter_law: "inv w \<Longrightarrow> vec_ok st \<Longrightarrow> stack_walk_from 0 (items st) = below w \<Longrightarrow>
      (w_pending w = None \<Longrightarrow> st = w_stack w) \<Longrightarrow>
      inv (w\<lparr>w_stalled := b, w_pending := None, w_stack := st\<rparr>) \<and>
      left (w\<lparr>w_stalled := b, w_pending := None, w_stack := st\<rparr>) = left w"
    and stall_law: "inv w \<Longrightarrow> w_pending w = Some f \<Longrightarrow>
      inv (w\<lparr>w_stalled := b, w_pending := None\<rparr>) \<and> inv (w\<lparr>w_stalled := b, w_pending := Some f\<rparr>) \<and>
      left (w\<lparr>w_stalled := b, w_pending := Some f\<rparr>) = left w \<and>
      left w = kids_walk (Suc (vlen (w_stack w))) f @ left (w\<lparr>w_stalled := b, w_pending := None\<rparr>)"
begin

text \<open>
  One call: the next frame, the end, or an error that leaves the walk where it was, except that a
  walker that discards on errors goes on without the children of the pending frame.
\<close>

lemma next_step:
  assumes "inv w" and "(next_with advance (w, h) :: (('p, 'z) walk_scheme \<times> heap, 'e, 'p walk_item option) run) = (q, (w', h'))"
  shows "inv w' \<and> w_auto_unstall w' = w_auto_unstall w \<and>
    ((q = Ok None \<and> left w = [] \<and> left w' = []) \<or>
     (\<exists>f d. q = Ok (Some (Inr f, d)) \<and> left w = (f, d) # left w') \<or>
     (\<exists>e f. q = Ok (Some (Inl e, vlen (w_stack w))) \<and> w_pending w = Some f \<and>
        (if w_auto_unstall w then left w = kids_walk (Suc (vlen (w_stack w))) f @ left w'
         else left w' = left w \<and> w_stalled w' \<and> w_pending w' = Some f \<and> w_stack w' = w_stack w)))"
proof (cases rule: retry_cases [OF inv_walk [OF assms(1)], of h, where 'e = 'e])
  case (1 st h1)
  let ?w = "w\<lparr>w_stalled := False, w_pending := None, w_stack := st\<rparr>"
  note enter = enter_law [OF assms(1) 1(2-4), of False]
  obtain it w2 where adv: "advance ?w = (it, w2)" by (cases "advance ?w")
  have "(q, (w', h')) = (Ok it, (w2, h1))" using assms(2) 1(1) adv by (simp add: next_with_def)
  then show ?thesis
    using advance_law [OF _ _ adv] enter by (cases it) auto
next
  case (2 f e h1)
  then have "q = Ok (Some (Inl e, vlen (w_stack w)))" and
    w': "w' = w\<lparr>w_stalled := \<not> w_auto_unstall w, w_pending := (if w_auto_unstall w then None else Some f)\<rparr>"
    using assms(2) by (auto simp: next_with_def)
  then show ?thesis
    using stall_law [OF assms(1) 2(1), of "\<not> w_auto_unstall w"] 2(1) by auto
qed

text \<open>Any number of calls: no panic, and no frame is skipped, repeated or reordered.\<close>

lemma next_many:
  assumes "inv w" and "\<not> w_auto_unstall w"
  shows "\<exists>xs w' h'. (walk_items (next_with advance) n (w, h) :: (('p, 'z) walk_scheme \<times> heap, 'e, 'p walk_item list) run) =
      (Ok xs, (w', h')) \<and> inv w' \<and> left w = delivered xs @ left w' \<and> (length xs < n \<longrightarrow> left w' = [])"
  using assms
proof (induction n arbitrary: w h)
  case 0
  then show ?case by simp
next
  case (Suc n)
  obtain q w1 h1 where one: "(next_with advance (w, h) :: (('p, 'z) walk_scheme \<times> heap, 'e, 'p walk_item option) run) = (q, (w1, h1))"
    by (metis prod.collapse)
  note step = next_step [OF Suc.prems(1) one]
  from step have inv1: "inv w1" "\<not> w_auto_unstall w1" using Suc.prems(2) by auto
  obtain xs w2 h2 where rest: "(walk_items (next_with advance) n (w1, h1) :: (('p, 'z) walk_scheme \<times> heap, 'e, 'p walk_item list) run) =
      (Ok xs, (w2, h2))" "inv w2" "left w1 = delivered xs @ left w2" "length xs < n \<longrightarrow> left w2 = []"
    using Suc.IH [OF inv1, of h1] by blast
  from step show ?case
  proof (elim conjE disjE exE)
    assume "q = Ok None" "left w = []" "left w1 = []"
    then show ?thesis using one inv1 by auto
  next
    fix f d
    assume "q = Ok (Some (Inr f, d))" "left w = (f, d) # left w1"
    then show ?thesis using one rest by auto
  next
    fix e f
    assume "q = Ok (Some (Inl e, vlen (w_stack w)))" "if w_auto_unstall w
        then left w = kids_walk (Suc (vlen (w_stack w))) f @ left w1
        else left w1 = left w \<and> w_stalled w1 \<and> w_pending w1 = Some f \<and> w_stack w1 = w_stack w"
    then show ?thesis using one rest Suc.prems(2) by auto
  qed
qed

end

lemma same_walk_sel:
  assumes "same_walk w w'"
  shows "w_peers w' = w_peers w" "w_head w' = w_head w" "w_lost_peers w' = w_lost_peers w"
    "w_lost_emitted w' = w_lost_emitted w" "w_auto_unstall w' = w_auto_unstall w" "lost_left w' = lost_left w"
  by (subst assms [unfolded same_walk_def], simp add: lost_left_def)+

lemma same_walk_flags:
  "same_walk (w :: 'p frames) w' \<Longrightarrow> head_remaining w' = head_remaining w"
  "same_walk (v :: 'p chrono) v' \<Longrightarrow> peers_remaining v' = peers_remaining v"
  by (subst same_walk_def [THEN iffD1], assumption, simp)+

section \<open>Both iterators are walkers\<close>

text \<open>Yielding a static frame from a walk with nothing below.\<close>

lemma yield_static:
  fixes w :: "('p, 'z) walk_scheme"
  assumes "walk_ok w" and "w_pending w = None" and "items (w_stack w) = []"
    and "yield_frame (FStatic sf) (sf_children sf) 0 w = (it, w')"
  shows "it = Some (Inr (FStatic sf), 0)" and "walk_ok w'" and "swalk sf = (FStatic sf, 0) # below w'"
    and "w' = w\<lparr>w_pending := w_pending w'\<rparr>"
  using assms by (auto simp: yield_frame_def walk_ok_def swalk_def below_def split: if_splits)

lemma frames_advance_law:
  fixes w :: "'p frames"
  assumes ok: "frames_ok w" and pend: "w_pending w = None" and adv: "frames_advance w = (it, w')"
  shows "frames_ok w' \<and> w_auto_unstall w' = w_auto_unstall w \<and>
    (case it of
       None \<Rightarrow> frames_left w = [] \<and> frames_left w' = []
     | Some x \<Rightarrow> \<exists>f d. x = (Inr f, d) \<and> frames_left w = (f, d) # frames_left w')"
proof (cases "head_remaining w")
  case True
  let ?w = "w\<lparr>head_remaining := False\<rparr>"
  have empty: "items (w_stack w) = []" using ok True by (simp add: frames_ok_def)
  have "walk_ok ?w" using ok by (simp add: frames_ok_def walk_ok_def)
  note y = yield_static [OF this, where it = it and w' = w' and sf = "w_head w"]
  have "yield_frame (FStatic (w_head w)) (sf_children (w_head w)) 0 ?w = (it, w')"
    using adv True by (simp add: frames_advance_def)
  note y = y [simplified, OF pend empty this]
  have "head_remaining w' = False" "w_peers w' = w_peers w" "lost_left w' = lost_left w" "w_auto_unstall w' = w_auto_unstall w"
    by (subst y(4), simp add: lost_left_def)+
  then show ?thesis
    using y pend empty True by (auto simp: frames_ok_def frames_left_def below_def)
next
  case False
  have wok: "walk_ok w" using ok by (simp add: frames_ok_def)
  obtain x w1 where st: "walk_stack w = (x, w1)" by (cases "walk_stack w")
  note spec = walk_stack_spec [OF wok pend st]
  have same: "same_walk w w1" using spec by simp
  note eqs = same_walk_sel [OF same] same_walk_flags(1) [OF same]
  show ?thesis
  proof (cases x)
    case (Some y)
    then have "it = Some y" "w' = w1" using adv False st by (auto simp: frames_advance_def)
    then show ?thesis using spec Some False eqs by (auto simp: frames_ok_def frames_left_def)
  next
    case None
    then have b: "below w = []" "items (w_stack w1) = []" "w_pending w1 = None" "walk_ok w1" using spec by auto
    show ?thesis
    proof (cases "w_peers w")
      case (Cons p ps)
      let ?w = "w1\<lparr>w_peers := ps\<rparr>"
      have y0: "yield_frame (FStatic p) (sf_children p) 0 ?w = (it, w')"
        using adv False st None Cons eqs by (simp add: frames_advance_def)
      have "walk_ok ?w" using b by (simp add: walk_ok_def)
      note y = yield_static [OF this _ _ y0, simplified, OF b(3,2)]
      have "head_remaining w' = False" "w_peers w' = ps" "lost_left w' = lost_left w" "w_auto_unstall w' = w_auto_unstall w"
        using eqs False by (subst y(4), simp add: lost_left_def)+
      then show ?thesis using y b Cons False by (auto simp: frames_ok_def frames_left_def)
    next
      case Nil
      then have "emit_lost w1 = (it, w')" using adv False st None eqs by (simp add: frames_advance_def)
      from emit_lost_left [OF this] show ?thesis
        using b Nil False eqs by (cases it)
          (auto simp: frames_ok_def frames_left_def below_def lost_left_def walk_ok_def)
    qed
  qed
qed

lemma chrono_advance_law:
  fixes w :: "'p chrono"
  assumes ok: "walk_ok w" and pend: "w_pending w = None" and adv: "chrono_advance w = (it, w')"
  shows "walk_ok w' \<and> w_auto_unstall w' = w_auto_unstall w \<and>
    (case it of
       None \<Rightarrow> chrono_left w = [] \<and> chrono_left w' = []
     | Some x \<Rightarrow> \<exists>f d. x = (Inr f, d) \<and> chrono_left w = (f, d) # chrono_left w')"
proof -
  obtain x w1 where st: "walk_stack w = (x, w1)" by (cases "walk_stack w")
  note spec = walk_stack_spec [OF ok pend st]
  have same: "same_walk w w1" using spec by simp
  note eqs = same_walk_sel [OF same] same_walk_flags(2) [OF same]
  show ?thesis
  proof (cases x)
    case (Some y)
    then have "it = Some y" "w' = w1" using adv st by (auto simp: chrono_advance_def)
    then show ?thesis using spec Some eqs by (auto simp: chrono_left_def)
  next
    case None
    then have b: "below w = []" "items (w_stack w1) = []" "w_pending w1 = None" "walk_ok w1" using spec by auto
    show ?thesis
    proof (cases "peers_remaining w")
      case True
      define sf where "sf = hd (w_peers w @ [w_head w])"
      define u where "u = (case w_peers w of p # ps \<Rightarrow> w1\<lparr>w_peers := ps\<rparr> | [] \<Rightarrow> w1\<lparr>peers_remaining := False\<rparr>)"
      have y0: "yield_frame (FStatic sf) (sf_children sf) 0 u = (it, w')"
        using adv st None True eqs by (simp add: chrono_advance_def sf_def u_def split: list.splits)
      have "walk_ok u" "w_pending u = None" "items (w_stack u) = []"
        using b by (simp_all add: walk_ok_def u_def split: list.splits)
      note y = yield_static [OF this y0]
      have "peers_remaining w' = peers_remaining u" "w_peers w' = w_peers u" "lost_left w' = lost_left u"
          "w_auto_unstall w' = w_auto_unstall u" "w_head w' = w_head u"
        by (subst y(4), simp add: lost_left_def)+
      then show ?thesis
        using y b True eqs by (auto simp: chrono_left_def sf_def u_def lost_left_def split: list.splits)
    next
      case False
      then have "emit_lost w1 = (it, w')" using adv st None eqs by (simp add: chrono_advance_def)
      from emit_lost_left [OF this] show ?thesis
        using b False eqs by (cases it) (auto simp: chrono_left_def below_def lost_left_def walk_ok_def)
    qed
  qed
qed

lemma walk_ok_entered: "vec_ok st \<Longrightarrow> walk_ok (w\<lparr>w_stalled := b, w_pending := None, w_stack := st\<rparr>)"
  by (simp add: walk_ok_def)

interpretation recent: walker frames_advance frames_left frames_ok
proof
  fix w :: "'p frames" and st b
  assume "frames_ok w" "vec_ok st" "stack_walk_from 0 (items st) = below w" "w_pending w = None \<Longrightarrow> st = w_stack w"
  then show "frames_ok (w\<lparr>w_stalled := b, w_pending := None, w_stack := st\<rparr>) \<and>
      frames_left (w\<lparr>w_stalled := b, w_pending := None, w_stack := st\<rparr>) = frames_left w"
    by (auto simp: frames_ok_def walk_ok_entered frames_left_def lost_left_def) (simp_all add: below_def)
next
  fix w :: "'p frames" and f b
  assume "frames_ok w" "w_pending w = Some f"
  then show "frames_ok (w\<lparr>w_stalled := b, w_pending := None\<rparr>) \<and> frames_ok (w\<lparr>w_stalled := b, w_pending := Some f\<rparr>) \<and>
      frames_left (w\<lparr>w_stalled := b, w_pending := Some f\<rparr>) = frames_left w \<and>
      frames_left w = kids_walk (Suc (vlen (w_stack w))) f @ frames_left (w\<lparr>w_stalled := b, w_pending := None\<rparr>)"
    by (simp add: frames_ok_def walk_ok_def frames_left_def lost_left_def below_def)
next
  fix w w' :: "'p frames" and it
  assume "frames_ok w" "w_pending w = None" "frames_advance w = (it, w')"
  then show "frames_ok w' \<and> w_auto_unstall w' = w_auto_unstall w \<and>
      (case it of
         None \<Rightarrow> frames_left w = [] \<and> frames_left w' = []
       | Some x \<Rightarrow> \<exists>f d. x = (Inr f, d) \<and> frames_left w = (f, d) # frames_left w')"
    by (rule frames_advance_law)
qed (simp add: frames_ok_def)

interpretation chronological: walker chrono_advance chrono_left walk_ok
proof
  fix w :: "'p chrono" and st b
  assume "walk_ok w" "vec_ok st" "stack_walk_from 0 (items st) = below w" "w_pending w = None \<Longrightarrow> st = w_stack w"
  then show "walk_ok (w\<lparr>w_stalled := b, w_pending := None, w_stack := st\<rparr>) \<and>
      chrono_left (w\<lparr>w_stalled := b, w_pending := None, w_stack := st\<rparr>) = chrono_left w"
    by (auto simp: walk_ok_entered chrono_left_def lost_left_def) (simp_all add: below_def)
next
  fix w :: "'p chrono" and f b
  assume "walk_ok w" "w_pending w = Some f"
  then show "walk_ok (w\<lparr>w_stalled := b, w_pending := None\<rparr>) \<and> walk_ok (w\<lparr>w_stalled := b, w_pending := Some f\<rparr>) \<and>
      chrono_left (w\<lparr>w_stalled := b, w_pending := Some f\<rparr>) = chrono_left w \<and>
      chrono_left w = kids_walk (Suc (vlen (w_stack w))) f @ chrono_left (w\<lparr>w_stalled := b, w_pending := None\<rparr>)"
    by (simp add: walk_ok_def chrono_left_def lost_left_def below_def)
next
  fix w w' :: "'p chrono" and it
  assume "walk_ok w" "w_pending w = None" "chrono_advance w = (it, w')"
  then show "walk_ok w' \<and> w_auto_unstall w' = w_auto_unstall w \<and>
      (case it of
         None \<Rightarrow> chrono_left w = [] \<and> chrono_left w' = []
       | Some x \<Rightarrow> \<exists>f d. x = (Inr f, d) \<and> chrono_left w = (f, d) # chrono_left w')"
    by (rule chrono_advance_law)
qed

lemma frames_start:
  assumes "0 < lalign l"
  shows "frames_ok (report_frames l r)" and "frames_left (report_frames l r) = report_walk r"
  using assms
  by (simp_all add: report_frames_def frames_ok_def walk_ok_def frames_left_def below_def report_walk_def lost_left_def)

lemma chrono_start:
  assumes "0 < lalign l"
  shows "walk_ok (report_frames_chronological l r)"
    and "chrono_left (report_frames_chronological l r) = report_walk_chronological r"
  using assms
  by (simp_all add: report_frames_chronological_def walk_ok_def chrono_left_def below_def
      report_walk_chronological_def lost_left_def)

section \<open>Properties of the iterators\<close>

text \<open>Claim C9.
  However often \<open>next\<close> is called and whatever the allocator does, the depth-first iterators never
  panic and the frames they yield are, in order and with their depths, the beginning of the walk of
  the report: head or oldest peer first, each frame followed by its children and the marker for the
  children it lost, the lost peers last. An error item stands for no frame, and once \<open>None\<close> was
  answered every frame had been yielded.\<close>

theorem frames_spec:
  assumes "0 < lalign l"
  shows "\<exists>xs w' h' ys v' k'.
    (walk_items frames_next n (report_frames l r, h) :: ('p frames \<times> heap, 'e, 'p walk_item list) run) = (Ok xs, (w', h')) \<and>
    delivered xs = take (length (delivered xs)) (report_walk r) \<and>
    (length xs < n \<longrightarrow> delivered xs = report_walk r) \<and>
    (walk_items chrono_next n (report_frames_chronological l r, h) :: ('p chrono \<times> heap, 'e, 'p walk_item list) run) =
      (Ok ys, (v', k')) \<and>
    delivered ys = take (length (delivered ys)) (report_walk_chronological r) \<and>
    (length ys < n \<longrightarrow> delivered ys = report_walk_chronological r)"
proof -
  have auto: "\<not> w_auto_unstall (report_frames l r)" "\<not> w_auto_unstall (report_frames_chronological l r)"
    by (simp_all add: report_frames_def report_frames_chronological_def)
  obtain xs w' h' where
    "(walk_items frames_next n (report_frames l r, h) :: ('p frames \<times> heap, 'e, 'p walk_item list) run) = (Ok xs, (w', h'))"
    "report_walk r = delivered xs @ frames_left w'" "length xs < n \<longrightarrow> frames_left w' = []"
    using recent.next_many [OF frames_start(1) [OF assms] auto(1), where 'e = 'e, folded frames_next_def]
    unfolding frames_start(2) [OF assms] by blast
  moreover obtain ys v' k' where
    "(walk_items chrono_next n (report_frames_chronological l r, h) :: ('p chrono \<times> heap, 'e, 'p walk_item list) run) =
      (Ok ys, (v', k'))"
    "report_walk_chronological r = delivered ys @ chrono_left v'" "length ys < n \<longrightarrow> chrono_left v' = []"
    using chronological.next_many [OF chrono_start(1) [OF assms] auto(2), where 'e = 'e, folded chrono_next_def]
    unfolding chrono_start(2) [OF assms] by blast
  ultimately show ?thesis by (intro exI conjI) (assumption | simp)+
qed

theorem frames_spec_witness:
  "\<exists>xs w' h'. (walk_items frames_next 5 (report_frames (Layout 40 8) sample_report, heap_with policy_fail_all)
      :: (nat frames \<times> heap, unit, nat walk_item list) run) = (Ok xs, (w', h')) \<and>
    delivered xs = take (length (delivered xs)) (report_walk sample_report)"
  using frames_spec [of "Layout 40 8" 5 sample_report "heap_with policy_fail_all", where 'e = unit] by auto

text \<open>An error of \<open>next\<close> loses nothing: the iterator stays where it was and the next call tries again.
  Giving up on the stalled frame with \<open>unstall\<close> skips exactly its children.\<close>

lemma frames_stall_spec:
  fixes w :: "'p frames" and q :: "('e, 'p walk_item option) outcome"
  assumes "frames_ok w" and "\<not> w_auto_unstall w" and "frames_next (w, h) = (q, (w', h'))"
    and "q = Ok (Some (Inl e, d))"
  shows "frames_left w' = frames_left w \<and> d = vlen (w_stack w) \<and>
    (\<exists>f. w_pending w' = Some f \<and> fst (walk_unstall w') \<and>
       frames_left w = kids_walk (Suc d) f @ frames_left (snd (walk_unstall w')))"
proof -
  have step: "frames_ok w'" "frames_left w' = frames_left w" "d = vlen (w_stack w)" "w_stalled w'" "w_stack w' = w_stack w"
    and "\<exists>f. w_pending w' = Some f"
    using recent.next_step [OF assms(1) assms(3) [unfolded frames_next_def]] assms(2,4) by auto
  then obtain f where f: "w_pending w' = Some f" by blast
  show ?thesis
    using recent.stall_law [OF step(1) f, of False] step f by (auto simp: walk_unstall_def)
qed

text \<open>A report with one child under its head, about to be entered without memory.\<close>

definition parent_report :: "nat report" where
  "parent_report = sample_report\<lparr>head := (head sample_report)\<lparr>sf_children := Vec [erase (head sample_report)] 4 (Layout 88 8)\<rparr>\<rparr>"

definition entering_walk :: "nat frames" where
  "entering_walk = (report_frames (Layout 40 8) parent_report)\<lparr>head_remaining := False, w_pending := Some (FStatic (head parent_report))\<rparr>"

lemma entering_walk_ok: "frames_ok entering_walk"
  by (simp add: frames_ok_def walk_ok_def entering_walk_def report_frames_def parent_report_def)

lemma entering_walk_stalls:
  "(fst (frames_next (entering_walk, heap_with policy_fail_all)) :: (unit, nat walk_item option) outcome) =
    Ok (Some (Inl (new_alloc (Layout 160 8)), 0))"
  by (simp add: frames_next_def next_with_def retry_pending_def entering_walk_def report_frames_def parent_report_def Let_def
      vec_try_push_give_back_def vec_try_reserve_def vec_new_def grow_amortized_def grow_cap_def checked_add_def
      usize_max_def isize_max_def min_non_zero_cap_def exhausted_galloc)

section \<open>Searching\<close>

text \<open>The payloads of a frame in the order in which \<open>downcast_ref\<close> looks at them: last child first.\<close>

fun df_payloads :: "'p dframe \<Rightarrow> 'p list" where
  "df_payloads (DFrame c atts (Vec kids k l) la lc) =
     as_any c # map as_any (items atts) @ concat (map df_payloads (rev kids))"

definition sf_payloads :: "'p sframe \<Rightarrow> 'p list" where
  "sf_payloads sf = cf_context (sf_context sf) # map as_any (items (sf_attachments sf)) @
     concat (map df_payloads (rev (items (sf_children sf))))"

definition search_order :: "'p report \<Rightarrow> 'p list" where
  "search_order r = concat (map sf_payloads (head r # items (peers r)))"

lemma find_append: "List.find t (xs @ ys) = (case List.find t xs of Some x \<Rightarrow> Some x | None \<Rightarrow> List.find t ys)"
  by (induction xs) auto

lemma first_some_find:
  assumes "\<And>x. x \<in> set xs \<Longrightarrow> f x = List.find t (g x)"
  shows "first_some f xs = List.find t (concat (map g xs))"
  using assms by (induction xs) (auto simp: find_append split: option.splits)

lemma first_some_items: "first_some (downcast t) xs = List.find t (map as_any xs)"
  by (induction xs) (auto simp: downcast_def)

lemma df_downcast_find: "df_downcast_ref t df = List.find t (df_payloads df)"
proof (induction df rule: df_payloads.induct)
  case (1 c atts kids k l la lc)
  have "first_some (df_downcast_ref t) (rev kids) = List.find t (concat (map df_payloads (rev kids)))"
    using 1 by (intro first_some_find) (auto simp: downcast_def first_some_items)
  then show ?case by (auto simp: downcast_def first_some_items find_append split: option.splits)
qed

lemma df_contains_payloads: "df_contains t df \<longleftrightarrow> (\<exists>x \<in> set (df_payloads df). t x)"
  by (induction t df rule: df_contains.induct) (auto simp: list_ex_iff)

lemma sf_search:
  "(case sf_own t sf of Some x \<Rightarrow> Some x | None \<Rightarrow> sf_downcast_ref t sf) = List.find t (sf_payloads sf)"
  by (auto simp: sf_own_def sf_downcast_ref_def sf_payloads_def downcast_def first_some_items find_append
      first_some_find [of _ _ _ df_payloads] df_downcast_find split: option.splits)

text \<open>\<open>downcast_ref\<close> answers the first value of the type in the search order: head before peers, in a
  frame the context, the attachments in the order they were attached, and then the children from
  the back of the deque, each searched the same way. \<open>contains\<close> holds exactly when it answers one.\<close>

lemma search_spec:
  "report_downcast_ref t r = List.find t (search_order r) \<and>
   (report_contains t r \<longleftrightarrow> report_downcast_ref t r \<noteq> None)"
proof -
  have ref: "report_downcast_ref t r = List.find t (search_order r)"
  proof -
    have "report_downcast_ref t r = (case (case sf_own t (head r) of Some x \<Rightarrow> Some x | None \<Rightarrow> sf_downcast_ref t (head r)) of
        Some x \<Rightarrow> Some x
      | None \<Rightarrow> first_some (\<lambda>p. case sf_own t p of Some x \<Rightarrow> Some x | None \<Rightarrow> sf_downcast_ref t p) (items (peers r)))"
      by (simp add: report_downcast_ref_def split: option.splits)
    also have "first_some (\<lambda>p. case sf_own t p of Some x \<Rightarrow> Some x | None \<Rightarrow> sf_downcast_ref t p) (items (peers r)) =
        List.find t (concat (map sf_payloads (items (peers r))))"
      by (rule first_some_find) (rule sf_search)
    finally have "report_downcast_ref t r = List.find t (search_order r)"
      by (simp add: sf_search search_order_def find_append)
    then show ?thesis .
  qed
  have "report_contains t r \<longleftrightarrow> (\<exists>x \<in> set (search_order r). t x)"
    by (auto simp: report_contains_def sf_contains_def list_ex_iff df_contains_payloads search_order_def sf_payloads_def)
  then show ?thesis using ref by (auto simp: find_None_iff)
qed

text \<open>After a change of context the search prefers the oldest frame: the children stand newest first and
  are searched from the back, so with an old head and one old peer of the same type it is the peer,
  pushed earlier, that is found.\<close>

lemma downcast_finds_oldest:
  assumes "report_ok r" and "layouts_ok L'" and "generous h"
    and "items (peers r) = [p]"
    and "grow_cap (vec_new (dframe_l L') :: 'p dframe vec) 2 \<noteq> None"
    and "t (cf_context (sf_context (head r)))" and "t (cf_context (sf_context p))" and "\<not> t c"
  shows "\<exists>r' h'. (change_context L L' c loc (r, h) :: ('e, 'p report) outcome \<times> heap) = (Ok r', h') \<and>
    report_downcast_ref t r' = Some (cf_context (sf_context p))"
proof -
  have frames: "all_frames r = [head r, p]" using assms(4) by (simp add: all_frames_def)
  have "length (all_frames r) = 2" by (simp add: frames)
  then have "length (all_frames r) \<le> usize_max" "grow_cap (vec_new (dframe_l L') :: 'p dframe vec) (length (all_frames r)) \<noteq> None"
    using assms(5) by (simp_all add: usize_max_def)
  from change_context_keeps_all [OF assms(1-3) this, of L c loc, where 'e = 'e]
  obtain r' h' where run: "(change_context L L' c loc (r, h) :: ('e, 'p report) outcome \<times> heap) = (Ok r', h')"
      and kids: "items (sf_children (head r')) = [erase (head r), erase p]"
    by (auto simp: frames)
  from change_context_keeps_newest [OF assms(1,2) run]
  have "cf_context (sf_context (head r')) = c" "items (sf_attachments (head r')) = []"
    by (auto simp: current_context_def)
  then have "report_downcast_ref t r' = Some (cf_context (sf_context p))"
    using kids assms(7,8)
    by (cases "sf_children p") (simp add: report_downcast_ref_def sf_own_def sf_downcast_ref_def downcast_def erase_def df_downcast_find)
  then show ?thesis using run by blast
qed

definition two_frames :: "nat report" where
  "two_frames = sample_report\<lparr>peers := Vec [sframe_from sample_layouts 8 here] 4 (Layout 128 8)\<rparr>"

end
