(* ===== verification/RawTable.thy ===== *)
theory RawTable
  imports Allocator
begin

text \<open>
  The interface of hashbrown's \<open>RawTable\<close>, on which the concurrent hash map and the interner are
  built. The crate is third-party code, so its operations are a parameter: a record of functions on
  an unknown type of tables. \<open>table_laws\<close> states what its documentation promises, over the view of
  a table as a finite map from buckets to the hash an entry was stored under and the entry. A small
  table of slots shows that the laws can hold.
\<close>

section \<open>Operations\<close>

type_synonym bucket = nat

record ('t, 'e) raw_ops =
  rt_new :: 't
  rt_len :: "'t \<Rightarrow> nat"
  rt_capacity :: "'t \<Rightarrow> nat"
  rt_buckets :: "'t \<Rightarrow> bucket list"
  rt_read :: "bucket \<Rightarrow> 't \<Rightarrow> 'e option"
  rt_write :: "bucket \<Rightarrow> 'e \<Rightarrow> 't \<Rightarrow> 't"
  rt_find :: "u64 \<Rightarrow> ('e \<Rightarrow> bool) \<Rightarrow> 't \<Rightarrow> bucket option"
  rt_find_or_slot :: "u64 \<Rightarrow> ('e \<Rightarrow> bool) \<Rightarrow> ('e \<Rightarrow> u64) \<Rightarrow> 't \<Rightarrow> bucket + bucket"
  rt_insert_in_slot :: "u64 \<Rightarrow> bucket \<Rightarrow> 'e \<Rightarrow> 't \<Rightarrow> 't"
  rt_insert_no_grow :: "u64 \<Rightarrow> 'e \<Rightarrow> 't \<Rightarrow> 't"
  rt_remove :: "bucket \<Rightarrow> 't \<Rightarrow> 't"
  rt_try_reserve :: "nat \<Rightarrow> ('e \<Rightarrow> u64) \<Rightarrow> 't \<times> heap \<Rightarrow> ('t \<times> heap, hashbrown_reserve_error, unit) run"

section \<open>Documented behaviour\<close>

text \<open>The stored entries by bucket, each with the hash it was stored under.\<close>

type_synonym 'e stored = "bucket \<Rightarrow> (u64 \<times> 'e) option"

text \<open>A table may be rebuilt when it grows: all entries survive, each under the hash given by the hasher.\<close>

definition rebuilt :: "('e \<Rightarrow> u64) \<Rightarrow> 'e stored \<Rightarrow> 'e stored \<Rightarrow> bool" where
  "rebuilt hasher m m' \<longleftrightarrow>
     (\<exists>f. bij_betw f (dom m) (dom m') \<and> (\<forall>b h e. m b = Some (h, e) \<longrightarrow> m' (f b) = Some (hasher e, e)))"

definition finds :: "u64 \<Rightarrow> ('e \<Rightarrow> bool) \<Rightarrow> 'e stored \<Rightarrow> bucket option \<Rightarrow> bool" where
  "finds h eq m r \<longleftrightarrow>
     (case r of
        Some b \<Rightarrow> \<exists>h' e. m b = Some (h', e) \<and> eq e
      | None \<Rightarrow> \<forall>b e. m b = Some (h, e) \<longrightarrow> \<not> eq e)"

definition laws_contents :: "('t, 'e) raw_ops \<Rightarrow> ('t \<Rightarrow> 'e stored) \<Rightarrow> bool" where
  "laws_contents R ent \<longleftrightarrow>
     ent (rt_new R) = Map.empty \<and>
     (\<forall>t. distinct (rt_buckets R t) \<and> set (rt_buckets R t) = dom (ent t) \<and> rt_len R t = card (dom (ent t))) \<and>
     (\<forall>t b. rt_read R b t = map_option snd (ent t b))"

definition laws_search :: "('t, 'e) raw_ops \<Rightarrow> ('t \<Rightarrow> 'e stored) \<Rightarrow> bool" where
  "laws_search R ent \<longleftrightarrow>
     (\<forall>t h eq. finds h eq (ent t) (rt_find R h eq t)) \<and>
     (\<forall>t h eq hasher. rt_len R t < rt_capacity R t \<longrightarrow>
        (case rt_find_or_slot R h eq hasher t of
           Inl b \<Rightarrow> finds h eq (ent t) (Some b)
         | Inr s \<Rightarrow> finds h eq (ent t) None \<and> ent t s = None))"

definition laws_update :: "('t, 'e) raw_ops \<Rightarrow> ('t \<Rightarrow> 'e stored) \<Rightarrow> bool" where
  "laws_update R ent \<longleftrightarrow>
     (\<forall>t b e h e0. ent t b = Some (h, e0) \<longrightarrow> ent (rt_write R b e t) = (ent t)(b \<mapsto> (h, e))) \<and>
     (\<forall>t b. ent t b \<noteq> None \<longrightarrow> ent (rt_remove R b t) = (ent t)(b := None)) \<and>
     (\<forall>t h eq hasher s e. rt_len R t < rt_capacity R t \<longrightarrow> rt_find_or_slot R h eq hasher t = Inr s \<longrightarrow>
        ent (rt_insert_in_slot R h s e t) = (ent t)(s \<mapsto> (h, e))) \<and>
     (\<forall>t h e. rt_len R t < rt_capacity R t \<longrightarrow>
        (\<exists>b. ent t b = None \<and> ent (rt_insert_no_grow R h e t) = (ent t)(b \<mapsto> (h, e)) \<and>
           rt_capacity R t \<le> rt_capacity R (rt_insert_no_grow R h e t)))"

definition laws_reserve :: "('t, 'e) raw_ops \<Rightarrow> ('t \<Rightarrow> 'e stored) \<Rightarrow> bool" where
  "laws_reserve R ent \<longleftrightarrow>
     (\<forall>n hasher t h r t' h'. rt_try_reserve R n hasher (t, h) = (r, (t', h')) \<longrightarrow>
        (case r of
           Ok _ \<Rightarrow> rt_len R t + n \<le> rt_capacity R t' \<and> (ent t' = ent t \<or> rebuilt hasher (ent t) (ent t'))
         | Err _ \<Rightarrow> t' = t
         | _ \<Rightarrow> False))"

definition table_laws :: "('t, 'e) raw_ops \<Rightarrow> ('t \<Rightarrow> 'e stored) \<Rightarrow> bool" where
  "table_laws R ent \<longleftrightarrow> laws_contents R ent \<and> laws_search R ent \<and> laws_update R ent \<and> laws_reserve R ent"

text \<open>A search compares an entry only when the tag of the hash it is stored under, which the table keeps in its
  control bytes, is that of the hash searched for. (hashbrown's tag is the top seven bits.)\<close>

definition tagged_search :: "('t, 'e) raw_ops \<Rightarrow> ('t \<Rightarrow> 'e stored) \<Rightarrow> (u64 \<Rightarrow> u64) \<Rightarrow> bool" where
  "tagged_search R ent tag \<longleftrightarrow>
     (\<forall>t h eq b h' e. rt_find R h eq t = Some b \<longrightarrow> ent t b = Some (h', e) \<longrightarrow> tag h' = tag h)"

lemma table_new: "table_laws R ent \<Longrightarrow> ent (rt_new R) = Map.empty"
  by (simp add: table_laws_def laws_contents_def)

lemma table_buckets:
  "table_laws R ent \<Longrightarrow> distinct (rt_buckets R t) \<and> set (rt_buckets R t) = dom (ent t)"
  by (simp add: table_laws_def laws_contents_def)

lemma table_finite: "table_laws R ent \<Longrightarrow> finite (dom (ent t))"
  by (metis List.finite_set table_buckets)

lemma table_len: "table_laws R ent \<Longrightarrow> rt_len R t = card (dom (ent t))"
  by (simp add: table_laws_def laws_contents_def)

lemma table_read: "table_laws R ent \<Longrightarrow> rt_read R b t = map_option snd (ent t b)"
  by (simp add: table_laws_def laws_contents_def)

lemma table_find: "table_laws R ent \<Longrightarrow> finds h eq (ent t) (rt_find R h eq t)"
  by (simp add: table_laws_def laws_search_def)

lemma table_slot_cases:
  assumes "table_laws R ent" and "rt_len R t < rt_capacity R t"
  obtains (found) b where "rt_find_or_slot R h eq hasher t = Inl b" and "finds h eq (ent t) (Some b)"
  | (slot) s where "rt_find_or_slot R h eq hasher t = Inr s" and "finds h eq (ent t) None" and "ent t s = None"
      and "\<And>e. ent (rt_insert_in_slot R h s e t) = (ent t)(s \<mapsto> (h, e))"
proof -
  have search: "case rt_find_or_slot R h eq hasher t of
        Inl b \<Rightarrow> finds h eq (ent t) (Some b)
      | Inr s \<Rightarrow> finds h eq (ent t) None \<and> ent t s = None"
    using assms unfolding table_laws_def laws_search_def by blast
  have insert: "\<forall>s e. rt_find_or_slot R h eq hasher t = Inr s \<longrightarrow>
      ent (rt_insert_in_slot R h s e t) = (ent t)(s \<mapsto> (h, e))"
    using assms unfolding table_laws_def laws_update_def by blast
  show thesis
    by (cases "rt_find_or_slot R h eq hasher t") (use search insert in \<open>auto intro: found slot\<close>)
qed

lemma table_write: "table_laws R ent \<Longrightarrow> ent t b = Some (h, e0) \<Longrightarrow> ent (rt_write R b e t) = (ent t)(b \<mapsto> (h, e))"
  unfolding table_laws_def laws_update_def by blast

lemma table_remove: "table_laws R ent \<Longrightarrow> ent t b \<noteq> None \<Longrightarrow> ent (rt_remove R b t) = (ent t)(b := None)"
  unfolding table_laws_def laws_update_def by blast

lemma table_insert_no_grow:
  "table_laws R ent \<Longrightarrow> rt_len R t < rt_capacity R t \<Longrightarrow>
   \<exists>b. ent t b = None \<and> ent (rt_insert_no_grow R h e t) = (ent t)(b \<mapsto> (h, e)) \<and>
     rt_capacity R t \<le> rt_capacity R (rt_insert_no_grow R h e t)"
  unfolding table_laws_def laws_update_def by blast

lemma table_reserve_cases:
  assumes "table_laws R ent"
  obtains (ok) t' h' where "rt_try_reserve R n hasher (t, h) = (Ok (), (t', h'))"
      and "rt_len R t + n \<le> rt_capacity R t'" and "ent t' = ent t \<or> rebuilt hasher (ent t) (ent t')"
  | (failed) e h' where "rt_try_reserve R n hasher (t, h) = (Err e, (t, h'))"
proof -
  obtain r t' h' where run: "rt_try_reserve R n hasher (t, h) = (r, (t', h'))" by (metis surj_pair)
  then have "case r of
      Ok _ \<Rightarrow> rt_len R t + n \<le> rt_capacity R t' \<and> (ent t' = ent t \<or> rebuilt hasher (ent t) (ent t'))
    | Err _ \<Rightarrow> t' = t
    | _ \<Rightarrow> False"
    using assms unfolding table_laws_def laws_reserve_def by blast
  then show thesis using run by (cases r) (auto intro: ok failed)
qed

lemma rebuilt_card: "rebuilt hasher m m' \<Longrightarrow> card (dom m') = card (dom m)"
  unfolding rebuilt_def by (metis bij_betw_same_card)

lemma reserved_len:
  assumes "table_laws R ent" and "ent t' = ent t \<or> rebuilt hasher (ent t) (ent t')"
  shows "rt_len R t' = rt_len R t"
  using assms(2) table_len [OF assms(1)] rebuilt_card by metis

text \<open>A rebuild keeps every entry once when the stored hashes are those of the hasher.\<close>

lemma rebuilt_ran:
  assumes "rebuilt hasher m m'" and "\<And>b h e. m b = Some (h, e) \<Longrightarrow> h = hasher e"
  shows "ran m' = ran m"
proof -
  obtain f where f: "bij_betw f (dom m) (dom m')" "\<And>b h e. m b = Some (h, e) \<Longrightarrow> m' (f b) = Some (hasher e, e)"
    using assms(1) by (auto simp: rebuilt_def)
  show ?thesis
  proof
    show "ran m \<subseteq> ran m'" using f(2) assms(2) by (fastforce simp: ran_def)
    show "ran m' \<subseteq> ran m"
    proof
      fix x assume "x \<in> ran m'"
      then obtain b' where b': "m' b' = Some x" by (auto simp: ran_def)
      then have "b' \<in> f ` dom m" using f(1) by (auto simp: bij_betw_def)
      then obtain b h e where b: "m b = Some (h, e)" "f b = b'" by auto
      then have "x = (h, e)" using f(2) [OF b(1)] b' assms(2) [OF b(1)] by simp
      then show "x \<in> ran m" using b(1) by (auto simp: ran_def)
    qed
  qed
qed

section \<open>A table that obeys the laws\<close>

text \<open>A list of slots. It grows by the slots asked for, and rehashes every entry when it grows.\<close>

type_synonym 'e slot_table = "(u64 \<times> 'e) option list"

fun first_index :: "('a \<Rightarrow> bool) \<Rightarrow> 'a list \<Rightarrow> nat option" where
  "first_index P [] = None"
| "first_index P (x # xs) = (if P x then Some 0 else map_option Suc (first_index P xs))"

definition slot_entries :: "'e slot_table \<Rightarrow> 'e stored" where
  "slot_entries t b = (if b < length t then t ! b else None)"

definition slot_match :: "u64 \<Rightarrow> ('e \<Rightarrow> bool) \<Rightarrow> (u64 \<times> 'e) option \<Rightarrow> bool" where
  "slot_match h eq s = (case s of Some (h', e) \<Rightarrow> h' = h \<and> eq e | None \<Rightarrow> False)"

definition slot_reserve ::
    "nat \<Rightarrow> ('e \<Rightarrow> u64) \<Rightarrow> 'e slot_table \<times> heap \<Rightarrow> ('e slot_table \<times> heap, hashbrown_reserve_error, unit) run" where
  "slot_reserve n hasher s =
     (case s of (t, h) \<Rightarrow>
        if n \<le> length (filter (\<lambda>x. x = None) t) then (Ok (), (t, h))
        else let (ok, h') = galloc h
             in if ok then (Ok (), (map (map_option (\<lambda>(_, e). (hasher e, e))) t @ replicate n None, h'))
                else (Err (HbAllocError (Layout (length t + n) 1)), (t, h')))"

definition slot_ops :: "('e slot_table, 'e) raw_ops" where
  "slot_ops = \<lparr>
     rt_new = [],
     rt_len = (\<lambda>t. length (filter (\<lambda>x. x \<noteq> None) t)),
     rt_capacity = length,
     rt_buckets = (\<lambda>t. filter (\<lambda>b. t ! b \<noteq> None) [0..<length t]),
     rt_read = (\<lambda>b t. map_option snd (slot_entries t b)),
     rt_write = (\<lambda>b e t. case slot_entries t b of Some (h, _) \<Rightarrow> t[b := Some (h, e)] | None \<Rightarrow> t),
     rt_find = (\<lambda>h eq t. first_index (slot_match h eq) t),
     rt_find_or_slot = (\<lambda>h eq hasher t.
       case first_index (slot_match h eq) t of
         Some b \<Rightarrow> Inl b
       | None \<Rightarrow> Inr (the (first_index (\<lambda>x. x = None) t))),
     rt_insert_in_slot = (\<lambda>h s e t. t[s := Some (h, e)]),
     rt_insert_no_grow = (\<lambda>h e t. t[the (first_index (\<lambda>x. x = None) t) := Some (h, e)]),
     rt_remove = (\<lambda>b t. t[b := None]),
     rt_try_reserve = slot_reserve\<rparr>"

lemma first_index_Some: "first_index P xs = Some i \<Longrightarrow> i < length xs \<and> P (xs ! i)"
  by (induction xs arbitrary: i) (auto split: if_splits)

lemma first_index_None: "first_index P xs = None \<Longrightarrow> \<forall>i < length xs. \<not> P (xs ! i)"
  by (induction xs) (auto split: if_splits simp: nth_Cons split: nat.splits)

lemma first_index_exists: "length (filter (\<lambda>x. \<not> P x) xs) < length xs \<Longrightarrow> first_index P xs \<noteq> None"
  by (induction xs) auto

lemma slot_entries_upd: "b < length t \<Longrightarrow> slot_entries (t[b := x]) = (slot_entries t)(b := x)"
  by (auto simp: slot_entries_def fun_eq_iff)

lemma slot_dom: "dom (slot_entries t) = set (filter (\<lambda>b. t ! b \<noteq> None) [0..<length t])"
  by (auto simp: slot_entries_def split: if_splits)

lemma slot_count: "length (filter (\<lambda>x. x \<noteq> None) t) = card (dom (slot_entries t))"
proof -
  have "length (filter (\<lambda>x. x \<noteq> None) t) = length (filter (\<lambda>x. x \<noteq> None) (map (\<lambda>i. t ! i) [0..<length t]))"
    by (simp add: map_nth)
  also have "\<dots> = length (filter (\<lambda>b. t ! b \<noteq> None) [0..<length t])" by (simp add: filter_map comp_def)
  also have "\<dots> = card (set (filter (\<lambda>b. t ! b \<noteq> None) [0..<length t]))"
    by (rule distinct_card [symmetric]) simp
  finally show ?thesis by (simp only: slot_dom)
qed

lemma slot_vacancy:
  "length (filter (\<lambda>x. x \<noteq> None) t) < length t \<Longrightarrow>
   \<exists>s. first_index (\<lambda>x. x = None) t = Some s \<and> s < length t \<and> t ! s = None"
  using first_index_exists [of "\<lambda>x. x = None" t] first_index_Some [of "\<lambda>x. x = None" t] by auto

lemma slot_grown:
  "slot_entries (map (map_option (\<lambda>(_, e). (hasher e, e))) t @ replicate n None) =
   (\<lambda>b. map_option (\<lambda>(_, e). (hasher e, e)) (slot_entries t b))"
  by (auto simp: slot_entries_def fun_eq_iff nth_append)

lemma slot_find: "finds h eq (slot_entries t) (first_index (slot_match h eq) t)"
  using first_index_Some [of "slot_match h eq" t] first_index_None [of "slot_match h eq" t]
  by (auto simp: finds_def slot_match_def slot_entries_def split: option.splits)

lemma slot_laws_contents: "laws_contents slot_ops slot_entries"
proof -
  have "slot_entries [] = Map.empty" by (auto simp: slot_entries_def)
  then show ?thesis unfolding laws_contents_def slot_ops_def raw_ops.simps slot_count slot_dom by simp
qed

lemma slot_laws_search: "laws_search slot_ops slot_entries"
  unfolding laws_search_def slot_ops_def raw_ops.simps
proof (intro conjI allI impI)
  show "finds h eq (slot_entries t) (first_index (slot_match h eq) t)" for t :: "'a slot_table" and h eq
    by (rule slot_find)
  fix t :: "'a slot_table" and h eq
  assume "length (filter (\<lambda>x. x \<noteq> None) t) < length t"
  then have "slot_entries t (the (first_index (\<lambda>x. x = None) t)) = None"
    using slot_vacancy [of t] by (auto simp: slot_entries_def)
  then show "case (case first_index (slot_match h eq) t of
        None \<Rightarrow> Inr (the (first_index (\<lambda>x. x = None) t)) | Some b \<Rightarrow> Inl b) of
      Inl b \<Rightarrow> finds h eq (slot_entries t) (Some b)
    | Inr s \<Rightarrow> finds h eq (slot_entries t) None \<and> slot_entries t s = None"
    using slot_find [of h eq t] by (cases "first_index (slot_match h eq) t") simp_all
qed

lemma slot_put_vacant:
  assumes "length (filter (\<lambda>x. x \<noteq> None) t) < length t"
  shows "slot_entries (t[the (first_index (\<lambda>x. x = None) t) := x]) =
      (slot_entries t)(the (first_index (\<lambda>x. x = None) t) := x)"
    and "slot_entries t (the (first_index (\<lambda>x. x = None) t)) = None"
  using slot_vacancy [OF assms] slot_entries_upd [of _ t x] by (auto simp: slot_entries_def)

lemma slot_laws_update: "laws_update slot_ops slot_entries"
  unfolding laws_update_def slot_ops_def raw_ops.simps
proof (intro conjI allI impI)
  have inside: "b < length t" if "slot_entries t b \<noteq> None" for b and t :: "'a slot_table"
    using that by (auto simp: slot_entries_def split: if_splits)
  fix t :: "'a slot_table" and b h e e0
  assume "slot_entries t b = Some (h, e0)"
  then show "slot_entries (case slot_entries t b of None \<Rightarrow> t | Some (h, _) \<Rightarrow> t[b := Some (h, e)]) = (slot_entries t)(b \<mapsto> (h, e))"
    using inside [of t b] by (simp add: slot_entries_upd)
next
  fix t :: "'a slot_table" and b
  assume "slot_entries t b \<noteq> None"
  then have "b < length t" by (auto simp: slot_entries_def split: if_splits)
  then show "slot_entries (t[b := None]) = (slot_entries t)(b := None)" by (rule slot_entries_upd)
next
  fix t :: "'a slot_table" and h eq s e
  assume room: "length (filter (\<lambda>x. x \<noteq> None) t) < length t"
    and "(case first_index (slot_match h eq) t of None \<Rightarrow> Inr (the (first_index (\<lambda>x. x = None) t)) | Some b \<Rightarrow> Inl b) = Inr s"
  then have "s = the (first_index (\<lambda>x. x = None) t)" by (auto split: option.splits)
  then show "slot_entries (t[s := Some (h, e)]) = (slot_entries t)(s \<mapsto> (h, e))"
    using slot_put_vacant(1) [OF room] by simp
next
  fix t :: "'a slot_table" and h e
  assume room: "length (filter (\<lambda>x. x \<noteq> None) t) < length t"
  let ?b = "the (first_index (\<lambda>x. x = None) t)"
  show "\<exists>b. slot_entries t b = None \<and> slot_entries (t[?b := Some (h, e)]) = (slot_entries t)(b \<mapsto> (h, e)) \<and>
      length t \<le> length (t[?b := Some (h, e)])"
    using slot_put_vacant [OF room] by (intro exI [of _ ?b]) simp
qed

lemma slot_rebuilt:
  "rebuilt hasher (slot_entries t) (\<lambda>b. map_option (\<lambda>(_, e). (hasher e, e)) (slot_entries t b))"
  unfolding rebuilt_def by (rule exI [of _ id]) (auto simp: dom_def)

lemma slot_laws_reserve: "laws_reserve slot_ops slot_entries"
  unfolding laws_reserve_def slot_ops_def raw_ops.simps
proof (intro allI impI)
  fix n hasher and t :: "'a slot_table" and h r t' h'
  assume run: "slot_reserve n hasher (t, h) = (r, (t', h'))"
  have room: "length (filter (\<lambda>x. x \<noteq> None) t) + length (filter (\<lambda>x. x = None) t) = length t"
    by (induction t) auto
  show "case r of
      Ok _ \<Rightarrow> length (filter (\<lambda>x. x \<noteq> None) t) + n \<le> length t' \<and>
        (slot_entries t' = slot_entries t \<or> rebuilt hasher (slot_entries t) (slot_entries t'))
    | Err _ \<Rightarrow> t' = t
    | _ \<Rightarrow> False"
  proof (cases "n \<le> length (filter (\<lambda>x. x = None) t)")
    case True
    then show ?thesis using run room by (auto simp: slot_reserve_def)
  next
    case False
    obtain ok g where g: "galloc h = (ok, g)" by (cases "galloc h")
    have "length (filter (\<lambda>x. x \<noteq> None) t) \<le> length t" by (rule length_filter_le)
    then show ?thesis using run False g slot_rebuilt [of hasher t]
      by (cases ok) (auto simp: slot_reserve_def slot_grown)
  qed
qed

lemma slot_table_laws: "table_laws slot_ops slot_entries"
  by (simp add: table_laws_def slot_laws_contents slot_laws_search slot_laws_update slot_laws_reserve)

lemma slot_tagged_search: "tagged_search slot_ops slot_entries (\<lambda>h. h)"
  using first_index_Some
  by (fastforce simp: tagged_search_def slot_ops_def slot_entries_def slot_match_def split: option.splits if_splits)

end
