(* ===== verification/CHashMap.thy ===== *)
theory CHashMap
  imports RawTable TryClone
begin

unbundle bit_operations_syntax

text \<open>
  The concurrent hash map (\<^verbatim>\<open>collections/chashmap/map.rs\<close>, \<^verbatim>\<open>entry.rs\<close>,
  \<^verbatim>\<open>shard.rs\<close>, \<^verbatim>\<open>refs/one.rs\<close>): an array of shards, each a table behind a
  reader-writer lock. The state is the map with the state of every lock, so that guards which
  outlive a call are visible: an operation that needs a lock held by somebody else waits, and
  returns \<open>None\<close>. An operation that runs takes its locks one after the other and is one step;
  threads interleave such steps. The tables are those of \<open>RawTable\<close>, the parameter \<open>R\<close>.
\<close>

section \<open>Shards and locks\<close>

text \<open>\<open>ReadBy n\<close> is held by \<open>n + 1\<close> readers.\<close>

datatype lock = Unlocked | ReadBy nat | Written

record 't shard =
  sh_lock :: lock
  sh_table :: 't

record ('k, 't) chashmap =
  cm_shards :: "'t shard list"
  cm_hash :: "'k \<Rightarrow> u64"
  cm_shift :: nat

type_synonym ('k, 't) cstate = "('k, 't) chashmap \<times> heap"

fun acquire_read :: "lock \<Rightarrow> lock option" where
  "acquire_read Unlocked = Some (ReadBy 0)"
| "acquire_read (ReadBy n) = Some (ReadBy (Suc n))"
| "acquire_read Written = None"

fun acquire_write :: "lock \<Rightarrow> lock option" where
  "acquire_write Unlocked = Some Written"
| "acquire_write _ = None"

fun release :: "lock \<Rightarrow> lock" where
  "release (ReadBy (Suc n)) = ReadBy n"
| "release _ = Unlocked"

definition set_lock :: "nat \<Rightarrow> lock \<Rightarrow> ('k, 't) chashmap \<Rightarrow> ('k, 't) chashmap" where
  "set_lock i l m = m\<lparr>cm_shards := (cm_shards m)[i := (cm_shards m ! i)\<lparr>sh_lock := l\<rparr>]\<rparr>"

definition table_of :: "nat \<Rightarrow> ('k, 't) chashmap \<Rightarrow> 't" where
  "table_of i m = sh_table (cm_shards m ! i)"

definition lock_of :: "nat \<Rightarrow> ('k, 't) chashmap \<Rightarrow> lock" where
  "lock_of i m = sh_lock (cm_shards m ! i)"

definition set_table :: "nat \<Rightarrow> 't \<Rightarrow> ('k, 't) chashmap \<Rightarrow> ('k, 't) chashmap" where
  "set_table i t m = m\<lparr>cm_shards := (cm_shards m)[i := (cm_shards m ! i)\<lparr>sh_table := t\<rparr>]\<rparr>"

definition shard_new :: "('t, 'e) raw_ops \<Rightarrow> 't shard" where
  "shard_new R = \<lparr>sh_lock = Unlocked, sh_table = rt_new R\<rparr>"

text \<open>\<open>read_table\<close> and \<open>write_table\<close> block; \<open>try_write_table\<close> does not.\<close>

definition take_lock ::
    "(lock \<Rightarrow> lock option) \<Rightarrow> nat \<Rightarrow> ('k, 't) cstate \<Rightarrow> (('k, 't) cstate, 'e, unit) run option" where
  "take_lock acquire i s =
     (case s of (m, h) \<Rightarrow>
        if length (cm_shards m) \<le> i then Some (Panic ''index out of bounds'', s)
        else map_option (\<lambda>l. (Ok (), (set_lock i l m, h))) (acquire (lock_of i m)))"

definition unlock :: "nat \<Rightarrow> ('k, 't) cstate \<Rightarrow> ('k, 't) cstate" where
  "unlock i s = (case s of (m, h) \<Rightarrow> (set_lock i (release (lock_of i m)) m, h))"

text \<open>Sequencing of calls that may wait, and the drop of a guard when a call is over.\<close>

fun wait_then :: "('s, 'e, 'a) run option \<Rightarrow> ('a \<Rightarrow> 's \<Rightarrow> ('s, 'e, 'b) run option) \<Rightarrow> ('s, 'e, 'b) run option" where
  "wait_then None f = None"
| "wait_then (Some (Ok a, s)) f = f a s"
| "wait_then (Some (Err e, s)) f = Some (Err e, s)"
| "wait_then (Some (Panic msg, s)) f = Some (Panic msg, s)"
| "wait_then (Some (UB, s)) f = Some (UB, s)"

definition released ::
    "nat \<Rightarrow> (('k, 't) cstate, 'e, 'a) run \<Rightarrow> (('k, 't) cstate, 'e, 'a) run" where
  "released i r = (fst r, unlock i (snd r))"

section \<open>Shard index\<close>

definition fast_shard_index :: "nat \<Rightarrow> u64 \<Rightarrow> nat" where
  "fast_shard_index shift hash = unat (drop_bit shift (push_bit 7 hash))"

definition shard_index_internal :: "nat \<Rightarrow> u64 \<Rightarrow> nat" where
  "shard_index_internal shift hash = fast_shard_index shift (hash XOR drop_bit 32 hash)"

definition shard_of :: "'k \<Rightarrow> ('k, 't) chashmap \<Rightarrow> nat" where
  "shard_of key m = shard_index_internal (cm_shift m) (cm_hash m key)"

section \<open>Guards\<close>

text \<open>\<open>Ref\<close> and \<open>RefMut\<close> hold the lock of their shard and point to an entry of its table.\<close>

datatype guard = Ref (g_shard: nat) (g_bucket: bucket) | RefMut (g_shard: nat) (g_bucket: bucket)

definition guard_pair :: "('t, 'k \<times> 'v) raw_ops \<Rightarrow> guard \<Rightarrow> ('k, 't) chashmap \<Rightarrow> ('e, 'k \<times> 'v) outcome" where
  "guard_pair R g m = (case rt_read R (g_bucket g) (table_of (g_shard g) m) of Some kv \<Rightarrow> Ok kv | None \<Rightarrow> UB)"

definition drop_guard :: "guard \<Rightarrow> ('k, 't) cstate \<Rightarrow> ('k, 't) cstate" where
  "drop_guard g s = unlock (g_shard g) s"

text \<open>A write through \<open>value_mut\<close>.\<close>

definition guard_write ::
    "('t, 'k \<times> 'v) raw_ops \<Rightarrow> guard \<Rightarrow> 'v \<Rightarrow> ('k, 't) cstate \<Rightarrow> (('k, 't) cstate, 'e, unit) run" where
  "guard_write R g v s =
     and_then (guard_pair R g (fst s), s) (\<lambda>(k, _) (m, h).
       (Ok (), (set_table (g_shard g) (rt_write R (g_bucket g) (k, v) (table_of (g_shard g) m)) m, h)))"

definition guard_downgrade :: "guard \<Rightarrow> ('k, 't) cstate \<Rightarrow> guard \<times> ('k, 't) cstate" where
  "guard_downgrade g s = (case s of (m, h) \<Rightarrow> (Ref (g_shard g) (g_bucket g), (set_lock (g_shard g) (ReadBy 0) m, h)))"

section \<open>Entries\<close>

datatype 'k centry = COccupied nat bucket | CVacant nat 'k u64 bucket

definition cocc_get :: "('t, 'k \<times> 'v) raw_ops \<Rightarrow> nat \<Rightarrow> bucket \<Rightarrow> ('k, 't) chashmap \<Rightarrow> ('e, 'k \<times> 'v) outcome" where
  "cocc_get R i b m = (case rt_read R b (table_of i m) of Some kv \<Rightarrow> Ok kv | None \<Rightarrow> UB)"

definition centry_key :: "('t, 'k \<times> 'v) raw_ops \<Rightarrow> 'k centry \<Rightarrow> ('k, 't) chashmap \<Rightarrow> ('e, 'k) outcome" where
  "centry_key R e m =
     (case e of
        COccupied i b \<Rightarrow> map_ok fst (cocc_get R i b m)
      | CVacant i key hash slot \<Rightarrow> Ok key)"

definition cocc_insert ::
    "('t, 'k \<times> 'v) raw_ops \<Rightarrow> nat \<Rightarrow> bucket \<Rightarrow> 'v \<Rightarrow> ('k, 't) cstate \<Rightarrow> (('k, 't) cstate, 'e, 'v) run" where
  "cocc_insert R i b v s =
     (case s of (m, h) \<Rightarrow>
        and_then (cocc_get R i b m, s) (\<lambda>(k, old) (m, h).
          (Ok old, (set_table i (rt_write R b (k, v) (table_of i m)) m, h))))"

definition cocc_remove_entry ::
    "('t, 'k \<times> 'v) raw_ops \<Rightarrow> nat \<Rightarrow> bucket \<Rightarrow> ('k, 't) cstate \<Rightarrow> (('k, 't) cstate, 'e, 'k \<times> 'v) run" where
  "cocc_remove_entry R i b s =
     released i (case s of (m, h) \<Rightarrow>
        and_then (cocc_get R i b m, s) (\<lambda>kv (m, h).
          (Ok kv, (set_table i (rt_remove R b (table_of i m)) m, h))))"

definition cocc_remove ::
    "('t, 'k \<times> 'v) raw_ops \<Rightarrow> nat \<Rightarrow> bucket \<Rightarrow> ('k, 't) cstate \<Rightarrow> (('k, 't) cstate, 'e, 'v) run" where
  "cocc_remove R i b s = map_ok_run snd (cocc_remove_entry R i b s)"

definition cvac_insert ::
    "('t, 'k \<times> 'v) raw_ops \<Rightarrow> nat \<Rightarrow> 'k \<Rightarrow> u64 \<Rightarrow> bucket \<Rightarrow> 'v \<Rightarrow> ('k, 't) cstate \<Rightarrow> guard \<times> ('k, 't) cstate" where
  "cvac_insert R i key hash slot v s =
     (case s of (m, h) \<Rightarrow>
        (RefMut i slot, (set_table i (rt_insert_in_slot R hash slot (key, v) (table_of i m)) m, h)))"

definition centry_insert ::
    "('t, 'k \<times> 'v) raw_ops \<Rightarrow> 'k centry \<Rightarrow> 'v \<Rightarrow> ('k, 't) cstate \<Rightarrow> (('k, 't) cstate, 'e, guard) run" where
  "centry_insert R e v s =
     (case e of
        COccupied i b \<Rightarrow> map_ok_run (\<lambda>_. RefMut i b) (cocc_insert R i b v s)
      | CVacant i key hash slot \<Rightarrow> (case cvac_insert R i key hash slot v s of (g, s') \<Rightarrow> (Ok g, s')))"

definition centry_or_insert ::
    "('t, 'k \<times> 'v) raw_ops \<Rightarrow> 'k centry \<Rightarrow> 'v \<Rightarrow> ('k, 't) cstate \<Rightarrow> (('k, 't) cstate, 'e, guard) run" where
  "centry_or_insert R e v s =
     (case e of
        COccupied i b \<Rightarrow> (Ok (RefMut i b), s)
      | CVacant i key hash slot \<Rightarrow> (case cvac_insert R i key hash slot v s of (g, s') \<Rightarrow> (Ok g, s')))"

definition centry_or_insert_with ::
    "('t, 'k \<times> 'v) raw_ops \<Rightarrow> 'k centry \<Rightarrow> (heap \<Rightarrow> 'v \<times> heap) \<Rightarrow> ('k, 't) cstate \<Rightarrow> (('k, 't) cstate, 'e, guard) run" where
  "centry_or_insert_with R e f s =
     (case e of
        COccupied i b \<Rightarrow> (Ok (RefMut i b), s)
      | CVacant i key hash slot \<Rightarrow>
          (case s of (m, h) \<Rightarrow> case f h of (v, h') \<Rightarrow>
             case cvac_insert R i key hash slot v (m, h') of (g, s') \<Rightarrow> (Ok g, s')))"

definition centry_and_modify ::
    "('t, 'k \<times> 'v) raw_ops \<Rightarrow> 'k centry \<Rightarrow> ('v \<Rightarrow> 'v) \<Rightarrow> ('k, 't) cstate \<Rightarrow> (('k, 't) cstate, 'e, 'k centry) run" where
  "centry_and_modify R e f s =
     (case e of
        COccupied i b \<Rightarrow>
          (case s of (m, h) \<Rightarrow>
             and_then (cocc_get R i b m, s) (\<lambda>(k, v) s. map_ok_run (\<lambda>_. e) (cocc_insert R i b (f v) s)))
      | CVacant i key hash slot \<Rightarrow> (Ok e, s))"

section \<open>Obtaining an entry\<close>

definition entry_under_lock ::
    "('t, 'k \<times> 'v) raw_ops \<Rightarrow> 'k \<Rightarrow> ('k, 't) cstate \<Rightarrow> (('k, 't) cstate, 'k \<times> try_reserve_error, 'k centry) run" where
  "entry_under_lock R key s =
     (case s of (m, h) \<Rightarrow>
        let hash = cm_hash m key; i = shard_of key m; hasher = (\<lambda>kv. cm_hash m (fst kv))
        in case rt_try_reserve R 1 hasher (table_of i m, h) of
             (r, (t, h')) \<Rightarrow>
               let s' = (set_table i t m, h')
               in case r of
                    Ok _ \<Rightarrow>
                      (Ok (case rt_find_or_slot R hash (\<lambda>kv. fst kv = key) hasher t of
                             Inl b \<Rightarrow> COccupied i b
                           | Inr slot \<Rightarrow> CVacant i key hash slot), s')
                  | Err e \<Rightarrow> released i (Err (key, try_reserve_error_from_hashbrown e), s')
                  | Panic msg \<Rightarrow> released i (Panic msg, s')
                  | UB \<Rightarrow> released i (UB, s'))"

definition do_entry_give_back ::
    "('t, 'k \<times> 'v) raw_ops \<Rightarrow> 'k \<Rightarrow> ('k, 't) cstate \<Rightarrow>
     (('k, 't) cstate, 'k \<times> try_reserve_error, 'k centry) run option" where
  "do_entry_give_back R key s =
     wait_then (take_lock acquire_write (shard_of key (fst s)) s) (\<lambda>_ s. Some (entry_under_lock R key s))"

definition do_entry ::
    "('t, 'k \<times> 'v) raw_ops \<Rightarrow> 'k \<Rightarrow> ('k, 't) cstate \<Rightarrow> (('k, 't) cstate, try_reserve_error, 'k centry) run option" where
  "do_entry R key s = map_option (map_err_run snd) (do_entry_give_back R key s)"

datatype nonblock_error = NonblockReserve try_reserve_error | NonblockLocked

definition do_entry_nonblock ::
    "('t, 'k \<times> 'v) raw_ops \<Rightarrow> 'k \<Rightarrow> ('k, 't) cstate \<Rightarrow> (('k, 't) cstate, nonblock_error, 'k centry option) run" where
  "do_entry_nonblock R key s =
     (case take_lock acquire_write (shard_of key (fst s)) s of
        None \<Rightarrow> (Err NonblockLocked, s)
      | Some r \<Rightarrow>
          and_then r (\<lambda>_ s. map_ok_run Some (map_err_run (\<lambda>p. NonblockReserve (snd p)) (entry_under_lock R key s))))"

definition try_entry ::
    "('t, 'k \<times> 'v) raw_ops \<Rightarrow> 'k \<Rightarrow> ('k, 't) cstate \<Rightarrow> (('k, 't) cstate, try_reserve_error, 'k centry) run option" where
  "try_entry R key s = do_entry R key s"

definition try_entry_give_back ::
    "('t, 'k \<times> 'v) raw_ops \<Rightarrow> 'k \<Rightarrow> ('k, 't) cstate \<Rightarrow>
     (('k, 't) cstate, 'k \<times> try_reserve_error, 'k centry) run option" where
  "try_entry_give_back R key s = do_entry_give_back R key s"

definition try_entry_nonblock ::
    "('t, 'k \<times> 'v) raw_ops \<Rightarrow> 'k \<Rightarrow> ('k, 't) cstate \<Rightarrow> (('k, 't) cstate, nonblock_error, 'k centry option) run" where
  "try_entry_nonblock R key s = do_entry_nonblock R key s"

end
