(* ===== verification/CHashOps.thy ===== *)
theory CHashOps
  imports CHashMap
begin

text \<open>
  The operations of the concurrent hash map on top of entries: insertion, lookup, removal, capacity,
  iteration by closure, construction and cloning (\<^verbatim>\<open>collections/chashmap/map.rs\<close>).
\<close>

section \<open>Insertion\<close>

text \<open>An occupied entry and the guard of a vacant one are dropped before the call returns.\<close>

definition place_value ::
    "('t, 'k \<times> 'v) raw_ops \<Rightarrow> 'k centry \<Rightarrow> 'v \<Rightarrow> ('k, 't) cstate \<Rightarrow> (('k, 't) cstate, 'e, 'v option) run" where
  "place_value R e v s =
     (case e of
        COccupied i b \<Rightarrow> released i (map_ok_run Some (cocc_insert R i b v s))
      | CVacant i key hash slot \<Rightarrow>
          (case cvac_insert R i key hash slot v s of (g, s') \<Rightarrow> (Ok None, drop_guard g s')))"

definition ch_try_insert ::
    "('t, 'k \<times> 'v) raw_ops \<Rightarrow> 'k \<Rightarrow> 'v \<Rightarrow> ('k, 't) cstate \<Rightarrow> (('k, 't) cstate, try_reserve_error, 'v option) run option" where
  "ch_try_insert R key v s = wait_then (try_entry R key s) (\<lambda>e s. Some (place_value R e v s))"

definition ch_try_insert_give_back ::
    "('t, 'k \<times> 'v) raw_ops \<Rightarrow> 'k \<Rightarrow> 'v \<Rightarrow> ('k, 't) cstate \<Rightarrow>
     (('k, 't) cstate, 'k \<times> 'v \<times> try_reserve_error, 'v option) run option" where
  "ch_try_insert_give_back R key v s =
     wait_then (map_option (map_err_run (\<lambda>(k, e). (k, v, e))) (try_entry_give_back R key s))
       (\<lambda>e s. Some (place_value R e v s))"

datatype insert_unique_error = UniqueReserve try_reserve_error | KeyAlreadyExists

definition ch_try_insert_unique ::
    "('t, 'k \<times> 'v) raw_ops \<Rightarrow> 'k \<Rightarrow> 'v \<Rightarrow> ('k, 't) cstate \<Rightarrow>
     (('k, 't) cstate, 'k \<times> 'v \<times> insert_unique_error, unit) run option" where
  "ch_try_insert_unique R key v s =
     wait_then (map_option (map_err_run (\<lambda>(k, e). (k, v, UniqueReserve e))) (try_entry_give_back R key s))
       (\<lambda>e s.
          case e of
            COccupied i b \<Rightarrow>
              Some (released i (and_then (centry_key R e (fst s), s) (\<lambda>k s. (Err (k, v, KeyAlreadyExists), s))))
          | CVacant i k hash slot \<Rightarrow>
              (case cvac_insert R i k hash slot v s of (g, s') \<Rightarrow> Some (Ok (), drop_guard g s')))"

section \<open>Lookup\<close>

text \<open>The guard of the lock goes into the reference, or is dropped when the key is absent.\<close>

definition lookup_with ::
    "(lock \<Rightarrow> lock option) \<Rightarrow> (nat \<Rightarrow> bucket \<Rightarrow> guard) \<Rightarrow> ('t, 'k \<times> 'v) raw_ops \<Rightarrow> 'k \<Rightarrow> ('k, 't) cstate \<Rightarrow>
     (('k, 't) cstate, 'e, guard option) run option" where
  "lookup_with acquire mk R key s =
     (let i = shard_of key (fst s)
      in wait_then (take_lock acquire i s) (\<lambda>_ s.
           Some (case rt_find R (cm_hash (fst s) key) (\<lambda>kv. fst kv = key) (table_of i (fst s)) of
                   Some b \<Rightarrow> (Ok (Some (mk i b)), s)
                 | None \<Rightarrow> released i (Ok None, s))))"

definition ch_get ::
    "('t, 'k \<times> 'v) raw_ops \<Rightarrow> 'k \<Rightarrow> ('k, 't) cstate \<Rightarrow> (('k, 't) cstate, 'e, guard option) run option" where
  "ch_get R key s = lookup_with acquire_read Ref R key s"

definition ch_get_mut ::
    "('t, 'k \<times> 'v) raw_ops \<Rightarrow> 'k \<Rightarrow> ('k, 't) cstate \<Rightarrow> (('k, 't) cstate, 'e, guard option) run option" where
  "ch_get_mut R key s = lookup_with acquire_write RefMut R key s"

definition ch_contains_key ::
    "('t, 'k \<times> 'v) raw_ops \<Rightarrow> 'k \<Rightarrow> ('k, 't) cstate \<Rightarrow> (('k, 't) cstate, 'e, bool) run option" where
  "ch_contains_key R key s =
     wait_then (ch_get R key s) (\<lambda>g s.
       Some (case g of Some g \<Rightarrow> (Ok True, drop_guard g s) | None \<Rightarrow> (Ok False, s)))"

section \<open>Removal\<close>

definition ch_remove_entry ::
    "('t, 'k \<times> 'v) raw_ops \<Rightarrow> 'k \<Rightarrow> ('k, 't) cstate \<Rightarrow> (('k, 't) cstate, 'e, ('k \<times> 'v) option) run option" where
  "ch_remove_entry R key s =
     (let i = shard_of key (fst s)
      in wait_then (take_lock acquire_write i s) (\<lambda>_ s.
           Some (case rt_find R (cm_hash (fst s) key) (\<lambda>kv. fst kv = key) (table_of i (fst s)) of
                   Some b \<Rightarrow> map_ok_run Some (cocc_remove_entry R i b s)
                 | None \<Rightarrow> released i (Ok None, s))))"

definition ch_remove ::
    "('t, 'k \<times> 'v) raw_ops \<Rightarrow> 'k \<Rightarrow> ('k, 't) cstate \<Rightarrow> (('k, 't) cstate, 'e, 'v option) run option" where
  "ch_remove R key s = map_option (map_ok_run (map_option snd)) (ch_remove_entry R key s)"

section \<open>All shards in turn\<close>

text \<open>\<open>for i in 0..shard_count\<close>, with the lock of shard \<open>i\<close> held during its step.\<close>

fun each_shard ::
    "(lock \<Rightarrow> lock option) \<Rightarrow> (nat \<Rightarrow> 'a \<Rightarrow> ('k, 't) cstate \<Rightarrow> (('k, 't) cstate, 'e, 'a) run) \<Rightarrow> nat list \<Rightarrow> 'a \<Rightarrow>
     ('k, 't) cstate \<Rightarrow> (('k, 't) cstate, 'e, 'a) run option" where
  "each_shard acquire f [] a s = Some (Ok a, s)"
| "each_shard acquire f (i # is) a s =
     wait_then (take_lock acquire i s) (\<lambda>_ s.
       wait_then (Some (released i (f i a s))) (\<lambda>a. each_shard acquire f is a))"

definition shard_count :: "('k, 't) chashmap \<Rightarrow> nat" where
  "shard_count m = length (cm_shards m)"

definition add_checked :: "string \<Rightarrow> nat \<Rightarrow> nat \<Rightarrow> ('e, nat) outcome" where
  "add_checked msg a b = (case checked_add a b of Some c \<Rightarrow> Ok c | None \<Rightarrow> Panic msg)"

definition ch_len :: "('t, 'k \<times> 'v) raw_ops \<Rightarrow> ('k, 't) cstate \<Rightarrow> (('k, 't) cstate, 'e, nat) run option" where
  "ch_len R s =
     each_shard acquire_read
       (\<lambda>i count s. (add_checked ''overflowing on length add is impossible'' count (rt_len R (table_of i (fst s))), s))
       [0..<shard_count (fst s)] 0 s"

definition ch_is_empty :: "('t, 'k \<times> 'v) raw_ops \<Rightarrow> ('k, 't) cstate \<Rightarrow> (('k, 't) cstate, 'e, bool) run option" where
  "ch_is_empty R s = map_option (map_ok_run (\<lambda>n. n = 0)) (ch_len R s)"

definition ch_capacity :: "('t, 'k \<times> 'v) raw_ops \<Rightarrow> ('k, 't) cstate \<Rightarrow> (('k, 't) cstate, 'e, nat) run option" where
  "ch_capacity R s =
     each_shard acquire_read
       (\<lambda>i n s. (add_checked ''overflowing on cap add is impossible'' n (rt_capacity R (table_of i (fst s))), s))
       [0..<shard_count (fst s)] 0 s"

definition table_items :: "('t, 'e) raw_ops \<Rightarrow> 't \<Rightarrow> 'e list" where
  "table_items R t = List.map_filter (\<lambda>b. rt_read R b t) (rt_buckets R t)"

definition ch_visit_all ::
    "('t, 'k \<times> 'v) raw_ops \<Rightarrow> ('k \<Rightarrow> 'v \<Rightarrow> 'a \<Rightarrow> 'a) \<Rightarrow> 'a \<Rightarrow> ('k, 't) cstate \<Rightarrow> (('k, 't) cstate, 'e, 'a) run option" where
  "ch_visit_all R f a s =
     each_shard acquire_read
       (\<lambda>i a s. (Ok (fold (\<lambda>kv. f (fst kv) (snd kv)) (table_items R (table_of i (fst s))) a), s))
       [0..<shard_count (fst s)] a s"

section \<open>Capacity\<close>

definition div_ceil :: "nat \<Rightarrow> nat \<Rightarrow> nat" where
  "div_ceil a b = (if a mod b = 0 then a div b else a div b + 1)"

definition reserve_shard ::
    "('t, 'k \<times> 'v) raw_ops \<Rightarrow> nat \<Rightarrow> nat \<Rightarrow> ('k, 't) cstate \<Rightarrow> (('k, 't) cstate, try_reserve_error, unit) run" where
  "reserve_shard R n i s =
     (case s of (m, h) \<Rightarrow>
        case rt_try_reserve R n (\<lambda>kv. cm_hash m (fst kv)) (table_of i m, h) of
          (r, (t, h')) \<Rightarrow> (map_err try_reserve_error_from_hashbrown r, (set_table i t m, h')))"

definition ch_try_reserve ::
    "('t, 'k \<times> 'v) raw_ops \<Rightarrow> nat \<Rightarrow> ('k, 't) cstate \<Rightarrow> (('k, 't) cstate, try_reserve_error, unit) run option" where
  "ch_try_reserve R additional s =
     (let per_shard = div_ceil additional (shard_count (fst s))
      in if per_shard = 0 then Some (Ok (), s)
         else each_shard acquire_write (\<lambda>i _. reserve_shard R per_shard i) [0..<shard_count (fst s)] () s)"

text \<open>Shrinking moves the entries into a fresh table reserved for exactly their number.\<close>

fun copy_entries ::
    "('t, 'k \<times> 'v) raw_ops \<Rightarrow> ('k \<Rightarrow> u64) \<Rightarrow> ('k \<times> 'v) list \<Rightarrow> 't \<Rightarrow> ('e, 't) outcome" where
  "copy_entries R hf [] t = Ok t"
| "copy_entries R hf (kv # kvs) t =
     (if rt_len R t < rt_capacity R t then copy_entries R hf kvs (rt_insert_no_grow R (hf (fst kv)) kv t)
      else Panic ''try_insert_no_grow should not fail because we reserved sufficient space'')"

definition shrink_shard ::
    "('t, 'k \<times> 'v) raw_ops \<Rightarrow> nat \<Rightarrow> ('k, 't) cstate \<Rightarrow> (('k, 't) cstate, try_reserve_error, unit) run" where
  "shrink_shard R i s =
     (case s of (m, h) \<Rightarrow>
        let old = table_of i m
        in case rt_try_reserve R (rt_len R old) (\<lambda>kv. cm_hash m (fst kv)) (rt_new R, h) of
             (r, (t, h')) \<Rightarrow>
               and_then (map_err try_reserve_error_from_hashbrown r, (m, h')) (\<lambda>_ (m, h).
               and_then (copy_entries R (cm_hash m) (table_items R old) t, (m, h)) (\<lambda>t (m, h).
                 (Ok (), (set_table i t m, h)))))"

definition ch_try_shrink_to_fit ::
    "('t, 'k \<times> 'v) raw_ops \<Rightarrow> ('k, 't) cstate \<Rightarrow> (('k, 't) cstate, try_reserve_error, unit) run option" where
  "ch_try_shrink_to_fit R s =
     each_shard acquire_write (\<lambda>i _. shrink_shard R i) [0..<shard_count (fst s)] () s"

section \<open>Construction\<close>

function trailing_zeros :: "nat \<Rightarrow> nat" where
  "trailing_zeros n = (if n = 0 \<or> odd n then 0 else Suc (trailing_zeros (n div 2)))"
  by auto
termination by (relation "measure id") auto

declare trailing_zeros.simps [simp del]

definition is_power_of_two :: "nat \<Rightarrow> bool" where
  "is_power_of_two n \<longleftrightarrow> n = 2 ^ trailing_zeros n"

datatype with_hasher_error = WithHasherReserve try_reserve_error | WithHasherInvalidShards

datatype 'd construction_error = ConsReserve try_reserve_error | HasherDefault 'd | ConsInvalidShards

fun construction_error_from :: "with_hasher_error \<Rightarrow> 'd construction_error" where
  "construction_error_from (WithHasherReserve e) = ConsReserve e"
| "construction_error_from WithHasherInvalidShards = ConsInvalidShards"

text \<open>\<open>shard_l\<close> is the layout of a shard. A new map is nobody else's, so its locks never wait.\<close>

definition try_with_capacity_and_hasher_and_shards ::
    "('t, 'k \<times> 'v) raw_ops \<Rightarrow> layout \<Rightarrow> nat \<Rightarrow> ('k \<Rightarrow> u64) \<Rightarrow> nat \<Rightarrow> heap \<Rightarrow>
     (with_hasher_error, ('k, 't) chashmap) outcome option \<times> heap" where
  "try_with_capacity_and_hasher_and_shards R shard_l capacity hasher count h =
     (if count < 2 \<or> \<not> is_power_of_two count then (Some (Err WithHasherInvalidShards), h)
      else if isize_max + 1 - lalign shard_l < count * lsize shard_l
      then (Some (Err (WithHasherReserve new_capacity_overflow)), h)
      else
        (case galloc h of
           (False, h') \<Rightarrow>
             (Some (Err (WithHasherReserve (new_alloc (Layout (count * lsize shard_l) (lalign shard_l))))), h')
         | (True, h') \<Rightarrow>
             let m = \<lparr>cm_shards = replicate count (shard_new R), cm_hash = hasher, cm_shift = 64 - trailing_zeros count\<rparr>
             in if 0 < capacity then
                  (case ch_try_reserve R capacity (m, h') of
                     None \<Rightarrow> (None, h')
                   | Some (r, (m', h'')) \<Rightarrow> (Some (map_err WithHasherReserve (map_ok (\<lambda>_. m') r)), h''))
                else (Some (Ok m), h')))"

definition try_with_hasher ::
    "('t, 'k \<times> 'v) raw_ops \<Rightarrow> layout \<Rightarrow> ('k \<Rightarrow> u64) \<Rightarrow> heap \<Rightarrow> (with_hasher_error, ('k, 't) chashmap) outcome option \<times> heap" where
  "try_with_hasher R shard_l hasher h = try_with_capacity_and_hasher_and_shards R shard_l 0 hasher 32 h"

definition try_with_capacity_and_hasher ::
    "('t, 'k \<times> 'v) raw_ops \<Rightarrow> layout \<Rightarrow> nat \<Rightarrow> ('k \<Rightarrow> u64) \<Rightarrow> heap \<Rightarrow>
     (with_hasher_error, ('k, 't) chashmap) outcome option \<times> heap" where
  "try_with_capacity_and_hasher R shard_l capacity hasher h =
     try_with_capacity_and_hasher_and_shards R shard_l capacity hasher 32 h"

definition try_with_hasher_and_shards ::
    "('t, 'k \<times> 'v) raw_ops \<Rightarrow> layout \<Rightarrow> ('k \<Rightarrow> u64) \<Rightarrow> nat \<Rightarrow> heap \<Rightarrow>
     (with_hasher_error, ('k, 't) chashmap) outcome option \<times> heap" where
  "try_with_hasher_and_shards R shard_l hasher count h =
     try_with_capacity_and_hasher_and_shards R shard_l 0 hasher count h"

text \<open>The hasher of the other constructors is made by \<open>S::try_default()\<close>, an argument here.\<close>

definition try_with_capacity_and_shards ::
    "('t, 'k \<times> 'v) raw_ops \<Rightarrow> layout \<Rightarrow> (heap \<Rightarrow> ('d, 'k \<Rightarrow> u64) outcome \<times> heap) \<Rightarrow> nat \<Rightarrow> nat \<Rightarrow> heap \<Rightarrow>
     ('d construction_error, ('k, 't) chashmap) outcome option \<times> heap" where
  "try_with_capacity_and_shards R shard_l try_default capacity count h =
     (case try_default h of
        (Ok hasher, h') \<Rightarrow>
          (case try_with_capacity_and_hasher_and_shards R shard_l capacity hasher count h' of
             (r, h'') \<Rightarrow> (map_option (map_err construction_error_from) r, h''))
      | (Err e, h') \<Rightarrow> (Some (Err (HasherDefault e)), h')
      | (Panic msg, h') \<Rightarrow> (Some (Panic msg), h')
      | (UB, h') \<Rightarrow> (Some UB, h'))"

definition try_with_shards ::
    "('t, 'k \<times> 'v) raw_ops \<Rightarrow> layout \<Rightarrow> (heap \<Rightarrow> ('d, 'k \<Rightarrow> u64) outcome \<times> heap) \<Rightarrow> nat \<Rightarrow> heap \<Rightarrow>
     ('d construction_error, ('k, 't) chashmap) outcome option \<times> heap" where
  "try_with_shards R shard_l try_default count h = try_with_capacity_and_shards R shard_l try_default 0 count h"

definition ch_from_static :: "'t shard list \<Rightarrow> ('k \<Rightarrow> u64) \<Rightarrow> ('e, ('k, 't) chashmap) outcome" where
  "ch_from_static shards hasher =
     (if 2 \<le> length shards \<and> is_power_of_two (length shards) then
        Ok \<lparr>cm_shards = shards, cm_hash = hasher, cm_shift = 64 - trailing_zeros (length shards)\<rparr>
      else Panic ''static shard count must be a power of two and >= 2'')"

section \<open>Cloning\<close>

text \<open>The entries of one shard, cloned and inserted into the copy while the shard is read-locked.\<close>

fun clone_entries ::
    "('t, 'k \<times> 'v) raw_ops \<Rightarrow> 'k cloner \<Rightarrow> 'v cloner \<Rightarrow> ('k \<times> 'v) list \<Rightarrow> ('k, 't) cstate \<Rightarrow>
     (('k, 't) cstate, try_clone_error, unit) run option" where
  "clone_entries R ck cv [] s = Some (Ok (), s)"
| "clone_entries R ck cv (kv # kvs) (out, h) =
     (case ck (fst kv) h of
        (Ok k, h1) \<Rightarrow>
          (case cv (snd kv) h1 of
             (Ok v, h2) \<Rightarrow>
               wait_then (map_option (map_err_run CloneReserve) (ch_try_insert R k v (out, h2)))
                 (\<lambda>_. clone_entries R ck cv kvs)
           | (Err e, h2) \<Rightarrow> Some (Err e, (out, h2))
           | (Panic msg, h2) \<Rightarrow> Some (Panic msg, (out, h2))
           | (UB, h2) \<Rightarrow> Some (UB, (out, h2)))
      | (Err e, h1) \<Rightarrow> Some (Err e, (out, h1))
      | (Panic msg, h1) \<Rightarrow> Some (Panic msg, (out, h1))
      | (UB, h1) \<Rightarrow> Some (UB, (out, h1)))"

fun clone_shards ::
    "('t, 'k \<times> 'v) raw_ops \<Rightarrow> 'k cloner \<Rightarrow> 'v cloner \<Rightarrow> ('k, 't) chashmap \<Rightarrow> nat list \<Rightarrow> ('k, 't) cstate \<Rightarrow>
     (('k, 't) cstate, try_clone_error, unit) run option" where
  "clone_shards R ck cv m [] s = Some (Ok (), s)"
| "clone_shards R ck cv m (i # is) s =
     (case acquire_read (lock_of i m) of
        None \<Rightarrow> None
      | Some _ \<Rightarrow>
          wait_then (clone_entries R ck cv (table_items R (table_of i m)) s) (\<lambda>_. clone_shards R ck cv m is))"

definition ch_try_clone ::
    "('t, 'k \<times> 'v) raw_ops \<Rightarrow> layout \<Rightarrow> ('k \<Rightarrow> u64) cloner \<Rightarrow> 'k cloner \<Rightarrow> 'v cloner \<Rightarrow> ('k, 't) chashmap \<Rightarrow> heap \<Rightarrow>
     (try_clone_error, ('k, 't) chashmap) outcome option \<times> heap" where
  "ch_try_clone R shard_l ch ck cv m h =
     (case ch (cm_hash m) h of
        (Ok hasher, h1) \<Rightarrow>
          (case try_with_hasher_and_shards R shard_l hasher (shard_count m) h1 of
             (Some (Ok out), h2) \<Rightarrow>
               (case clone_shards R ck cv m [0..<shard_count m] (out, h2) of
                  None \<Rightarrow> (None, h2)
                | Some (r, (out', h3)) \<Rightarrow> (Some (map_ok (\<lambda>_. out') r), h3))
           | (Some (Err (WithHasherReserve e)), h2) \<Rightarrow> (Some (Err (CloneReserve e)), h2)
           | (Some (Err WithHasherInvalidShards), h2) \<Rightarrow>
               (Some (Err (CloneOther ''shard count must be a power of two and >= 2'')), h2)
           | (Some (Panic msg), h2) \<Rightarrow> (Some (Panic msg), h2)
           | (Some UB, h2) \<Rightarrow> (Some UB, h2)
           | (None, h2) \<Rightarrow> (None, h2))
      | (Err e, h1) \<Rightarrow> (Some (Err e), h1)
      | (Panic msg, h1) \<Rightarrow> (Some (Panic msg), h1)
      | (UB, h1) \<Rightarrow> (Some UB, h1))"

end
