(* ===== verification/CHashInv.thy ===== *)
theory CHashInv
  imports CHashOps
begin

text \<open>
  What a concurrent hash map represents: a shard stands for the part of a finite map whose keys have
  its index, every key in one bucket under its own hash. The lemmas say what each operation on a
  table does to the map of its shard.
\<close>

section \<open>One shard\<close>

definition holds :: "('t \<Rightarrow> ('k \<times> 'v) stored) \<Rightarrow> ('k \<Rightarrow> u64) \<Rightarrow> 't \<Rightarrow> ('k \<rightharpoonup> 'v) \<Rightarrow> bool" where
  "holds ent hash t M \<longleftrightarrow>
     (\<forall>b h k v. ent t b = Some (h, (k, v)) \<longrightarrow> h = hash k \<and> M k = Some v) \<and>
     (\<forall>k v. M k = Some v \<longrightarrow> (\<exists>b. ent t b = Some (hash k, (k, v)))) \<and>
     (\<forall>b b' h h' k v v'. ent t b = Some (h, (k, v)) \<longrightarrow> ent t b' = Some (h', (k, v')) \<longrightarrow> b = b')"

lemma holds_entry: "holds ent hash t M \<Longrightarrow> ent t b = Some (h, (k, v)) \<Longrightarrow> h = hash k \<and> M k = Some v"
  unfolding holds_def by blast

lemma holds_bucket: "holds ent hash t M \<Longrightarrow> M k = Some v \<Longrightarrow> \<exists>b. ent t b = Some (hash k, (k, v))"
  unfolding holds_def by blast

lemma holds_unique:
  "holds ent hash t M \<Longrightarrow> ent t b = Some (h, (k, v)) \<Longrightarrow> ent t b' = Some (h', (k, v')) \<Longrightarrow> b = b'"
  unfolding holds_def by blast

lemma holds_new: "table_laws R ent \<Longrightarrow> holds ent hash (rt_new R) Map.empty"
  by (simp add: holds_def table_new)

lemma holds_same: "ent t' = ent t \<Longrightarrow> holds ent hash t M \<Longrightarrow> holds ent hash t' M"
  by (simp add: holds_def)

lemma holds_rebuilt:
  assumes "rebuilt (\<lambda>kv. hash (fst kv)) (ent t) (ent t')" and h: "holds ent hash t M"
  shows "holds ent hash t' M"
proof -
  obtain f where bij: "bij_betw f (dom (ent t)) (dom (ent t'))"
    and f: "\<forall>b h e. ent t b = Some (h, e) \<longrightarrow> ent t' (f b) = Some (hash (fst e), e)"
    using assms(1) unfolding rebuilt_def by blast
  have origin: "\<exists>c. b = f c \<and> ent t c = Some (hash k, (k, v)) \<and> h = hash k"
    if b: "ent t' b = Some (h, (k, v))" for b h k v
  proof -
    have "b \<in> f ` dom (ent t)" using bij b by (auto simp: bij_betw_def)
    then obtain c h0 kv where c: "b = f c" "ent t c = Some (h0, kv)" by auto
    have "ent t' b = Some (hash (fst kv), kv)" using f c by blast
    then have kv: "kv = (k, v)" "h = hash k" using b by auto
    moreover have "h0 = hash k" using holds_entry [OF h, of c h0 k v] c(2) kv(1) by simp
    ultimately show ?thesis using c by (intro exI [of _ c]) simp
  qed
  show ?thesis
    unfolding holds_def
  proof (intro conjI allI impI)
    fix b h k v
    assume b: "ent t' b = Some (h, (k, v))"
    show "h = hash k" using origin [OF b] by blast
    show "M k = Some v" using origin [OF b] holds_entry [OF h] by blast
  next
    fix k v
    assume "M k = Some v"
    then obtain b where "ent t b = Some (hash k, (k, v))" using holds_bucket [OF h] by blast
    then have "ent t' (f b) = Some (hash k, (k, v))" using f by fastforce
    then show "\<exists>b. ent t' b = Some (hash k, (k, v))" by blast
  next
    fix b b' h h' k v v'
    assume b: "ent t' b = Some (h, (k, v))" and b': "ent t' b' = Some (h', (k, v'))"
    obtain c c' where "b = f c" "b' = f c'" "ent t c = Some (hash k, (k, v))" "ent t c' = Some (hash k, (k, v'))"
      using origin [OF b] origin [OF b'] by blast
    then show "b = b'" using holds_unique [OF assms(2)] by blast
  qed
qed

lemma holds_reserved:
  "ent t' = ent t \<or> rebuilt (\<lambda>kv. hash (fst kv)) (ent t) (ent t') \<Longrightarrow> holds ent hash t M \<Longrightarrow> holds ent hash t' M"
  using holds_same holds_rebuilt by metis

lemma holds_found:
  assumes "holds ent hash t M" and "finds (hash k) (\<lambda>kv. fst kv = k) (ent t) (Some b)"
  obtains v where "ent t b = Some (hash k, (k, v))" and "M k = Some v"
proof -
  obtain h v where b: "ent t b = Some (h, (k, v))" using assms(2) by (auto simp: finds_def)
  then have "h = hash k" "M k = Some v" using holds_entry [OF assms(1) b] by simp_all
  then show thesis using b that by blast
qed

lemma holds_absent:
  assumes "holds ent hash t M" and "finds (hash k) (\<lambda>kv. fst kv = k) (ent t) None"
  shows "M k = None"
proof (rule ccontr)
  assume "M k \<noteq> None"
  then obtain v where "M k = Some v" by blast
  then obtain b where "ent t b = Some (hash k, (k, v))" using holds_bucket [OF assms(1)] by blast
  then show False using assms(2) by (auto simp: finds_def)
qed

lemma holds_put:
  assumes h: "holds ent hash t M" and t': "ent t' = (ent t)(b \<mapsto> (hash k, (k, v)))"
    and at: "(\<exists>w. ent t b = Some (hash k, (k, w))) \<or> ent t b = None \<and> M k = None"
  shows "holds ent hash t' (M(k \<mapsto> v))"
proof -
  have other: "k' \<noteq> k \<and> h = hash k' \<and> M k' = Some w" if c: "c \<noteq> b" "ent t c = Some (h, (k', w))" for c h k' w
  proof -
    have entry: "h = hash k'" "M k' = Some w" using holds_entry [OF h c(2)] by simp_all
    moreover have "k' \<noteq> k"
    proof
      assume "k' = k"
      then have "\<forall>w'. ent t b \<noteq> Some (hash k, (k, w'))" "M k \<noteq> None"
        using holds_unique [OF h c(2)] c(1) entry by blast+
      then show False using at by (elim disjE exE conjE) simp_all
    qed
    ultimately show ?thesis by simp
  qed
  show ?thesis
    unfolding holds_def t'
  proof (intro conjI allI impI)
    fix c h' k' w
    assume "((ent t)(b \<mapsto> (hash k, (k, v)))) c = Some (h', (k', w))"
    then show "h' = hash k'" "(M(k \<mapsto> v)) k' = Some w" using other [of c h' k' w] by (auto split: if_splits)
  next
    fix k' w
    assume kw: "(M(k \<mapsto> v)) k' = Some w"
    show "\<exists>c. ((ent t)(b \<mapsto> (hash k, (k, v)))) c = Some (hash k', (k', w))"
    proof (cases "k' = k")
      case True
      then show ?thesis using kw by (intro exI [of _ b]) simp
    next
      case False
      then obtain c where c: "ent t c = Some (hash k', (k', w))" using kw holds_bucket [OF h, of k' w] by auto
      then have "c \<noteq> b" using at False by auto
      then show ?thesis using c by (intro exI [of _ c]) simp
    qed
  next
    fix c c' h h' k' w w'
    assume "((ent t)(b \<mapsto> (hash k, (k, v)))) c = Some (h, (k', w))"
      "((ent t)(b \<mapsto> (hash k, (k, v)))) c' = Some (h', (k', w'))"
    then show "c = c'" using holds_unique [OF assms(1), of c h k' w c' h' w'] other [of c h k' w] other [of c' h' k' w']
      by (auto split: if_splits)
  qed
qed

lemma holds_remove:
  assumes h: "holds ent hash t M" and at: "ent t b = Some (hash k, (k, v))" and t': "ent t' = (ent t)(b := None)"
  shows "holds ent hash t' (M(k := None))"
proof -
  have other: "k' \<noteq> k \<and> h = hash k' \<and> M k' = Some w" if c: "c \<noteq> b" "ent t c = Some (h, (k', w))" for c h k' w
    using c(1) holds_unique [OF h c(2), of b "hash k" v] at holds_entry [OF h c(2)] by blast
  show ?thesis
    unfolding holds_def t'
  proof (intro conjI allI impI)
    fix c h' k' w
    assume "((ent t)(b := None)) c = Some (h', (k', w))"
    then show "h' = hash k'" "(M(k := None)) k' = Some w" using other [of c h' k' w] by (auto split: if_splits)
  next
    fix k' w
    assume "(M(k := None)) k' = Some w"
    then have kw: "k' \<noteq> k" "M k' = Some w" by (auto split: if_splits)
    then obtain c where c: "ent t c = Some (hash k', (k', w))" using holds_bucket [OF h] by blast
    then have "c \<noteq> b" using at kw by auto
    then show "\<exists>c. ((ent t)(b := None)) c = Some (hash k', (k', w))" using c by (intro exI [of _ c]) simp
  next
    fix c c' h h' k' w w'
    assume "((ent t)(b := None)) c = Some (h, (k', w))" "((ent t)(b := None)) c' = Some (h', (k', w'))"
    then show "c = c'" using holds_unique [OF assms(1)] by (auto split: if_splits)
  qed
qed

section \<open>The map\<close>

definition geometry :: "('k, 't) chashmap \<Rightarrow> bool" where
  "geometry m \<longleftrightarrow> (\<exists>k. 1 \<le> k \<and> k \<le> 63 \<and> length (cm_shards m) = 2 ^ k \<and> cm_shift m = 64 - k)"

lemma drop_bit_bound: "k \<le> 64 \<Longrightarrow> unat (drop_bit (64 - k) (w :: u64)) < 2 ^ k"
proof -
  assume k: "k \<le> 64"
  have "unat w < 2 ^ 64" using unsigned_less [of w] by simp
  also have "\<dots> = 2 ^ k * 2 ^ (64 - k)" using k by (simp only: power_add [symmetric] le_add_diff_inverse)
  finally have "unat w div 2 ^ (64 - k) < 2 ^ k" by (rule less_mult_imp_div_less)
  then show ?thesis unfolding unat_drop_bit_eq by (simp only: drop_bit_eq_div)
qed

lemma shard_of_bound: "geometry m \<Longrightarrow> shard_of key m < length (cm_shards m)"
  unfolding geometry_def shard_of_def shard_index_internal_def fast_shard_index_def
  by (elim exE conjE) (simp only: drop_bit_bound)

definition chm_rep :: "('t \<Rightarrow> ('k \<times> 'v) stored) \<Rightarrow> ('k, 't) chashmap \<Rightarrow> ('k \<rightharpoonup> 'v) \<Rightarrow> bool" where
  "chm_rep ent m M \<longleftrightarrow>
     geometry m \<and>
     (\<forall>i < length (cm_shards m).
        holds ent (cm_hash m) (table_of i m) (\<lambda>k. if shard_of k m = i then M k else None))"

definition locks :: "('k, 't) chashmap \<Rightarrow> lock list" where
  "locks m = map sh_lock (cm_shards m)"

text \<open>
  What the operations keep: the hasher, the number of shards, whose locks are held, and the table of
  every shard whose lock is held by somebody else.
\<close>

definition same_frame :: "('k, 't) chashmap \<Rightarrow> ('k, 't) chashmap \<Rightarrow> bool" where
  "same_frame m m' \<longleftrightarrow>
     cm_hash m' = cm_hash m \<and> cm_shift m' = cm_shift m \<and> locks m' = locks m \<and>
     (\<forall>i < length (cm_shards m). lock_of i m \<noteq> Unlocked \<longrightarrow> table_of i m' = table_of i m)"

lemma set_fields [simp]:
  "cm_hash (set_lock i l m) = cm_hash m" "cm_shift (set_lock i l m) = cm_shift m"
  "cm_hash (set_table i t m) = cm_hash m" "cm_shift (set_table i t m) = cm_shift m"
  "length (cm_shards (set_lock i l m)) = length (cm_shards m)"
  "length (cm_shards (set_table i t m)) = length (cm_shards m)"
  "shard_of key (set_lock i l m) = shard_of key m" "shard_of key (set_table i t m) = shard_of key m"
  by (simp_all add: set_lock_def set_table_def shard_of_def)

lemma table_of_set [simp]:
  "j < length (cm_shards m) \<Longrightarrow> table_of j (set_lock i l m) = table_of j m"
  "j < length (cm_shards m) \<Longrightarrow> table_of j (set_table i t m) = (if j = i then t else table_of j m)"
  by (cases "j = i"; simp add: table_of_def set_lock_def set_table_def)+

lemma lock_of_set [simp]:
  "i < length (cm_shards m) \<Longrightarrow> lock_of i (set_lock i l m) = l"
  "j < length (cm_shards m) \<Longrightarrow> lock_of j (set_table i t m) = lock_of j m"
  by (simp add: lock_of_def set_lock_def) (cases "j = i"; simp add: lock_of_def set_table_def)

lemma geometry_set [simp]:
  "geometry (set_lock i l m) \<longleftrightarrow> geometry m" "geometry (set_table i t m) \<longleftrightarrow> geometry m"
  by (simp_all add: geometry_def)

lemma locks_set [simp]:
  "i < length (cm_shards m) \<Longrightarrow> locks (set_lock i l m) = (locks m)[i := l]"
  "i < length (cm_shards m) \<Longrightarrow> locks (set_table i t m) = locks m"
  by (simp_all add: locks_def set_lock_def set_table_def map_update)
    (metis list_update_id length_map map_update nth_map)

lemma locks_nth: "i < length (cm_shards m) \<Longrightarrow> locks m ! i = lock_of i m"
  by (simp add: locks_def lock_of_def)

lemma set_lock_set_table: "set_lock i l (set_table i t m) = set_table i t (set_lock i l m)"
  by (cases "i < length (cm_shards m)"; cases "cm_shards m ! i")
    (simp_all add: set_lock_def set_table_def list_update_beyond)

lemma set_lock_twice: "i < length (cm_shards m) \<Longrightarrow> set_lock i l (set_lock i l' m) = set_lock i l m"
  by (simp add: set_lock_def)

lemma set_lock_same: "i < length (cm_shards m) \<Longrightarrow> lock_of i m = l \<Longrightarrow> set_lock i l m = m"
  by (cases m; cases "cm_shards m ! i") (auto simp: set_lock_def lock_of_def list_update_same_conv)

lemma chm_rep_set_lock [simp]: "chm_rep ent (set_lock i l m) M \<longleftrightarrow> chm_rep ent m M"
  by (simp add: chm_rep_def)

lemma chm_rep_shard: "chm_rep ent m M \<Longrightarrow> i < length (cm_shards m) \<Longrightarrow>
    holds ent (cm_hash m) (table_of i m) (\<lambda>k. if shard_of k m = i then M k else None)"
  by (simp add: chm_rep_def)

lemma chm_rep_set_table:
  assumes "chm_rep ent m M" and "holds ent (cm_hash m) t (\<lambda>k. if shard_of k m = i then M' k else None)"
    and "\<And>k. shard_of k m \<noteq> i \<Longrightarrow> M' k = M k"
  shows "chm_rep ent (set_table i t m) M'"
proof -
  have "(\<lambda>k. if shard_of k m = j then M k else None) = (\<lambda>k. if shard_of k m = j then M' k else None)" if "j \<noteq> i" for j
    using assms(3) that by auto
  then show ?thesis using assms(1,2) by (auto simp: chm_rep_def)
qed

lemma part_upd: "(\<lambda>k'. if shard_of k' m = shard_of k m then (M(k := x)) k' else None) =
    (\<lambda>k'. if shard_of k' m = shard_of k m then M k' else None)(k := x)"
  by auto

end
