(* ===== verification/CHashStep.thy ===== *)
theory CHashStep
  imports CHashInv
begin

text \<open>
  How the operations of the concurrent hash map act on the map it represents: what an entry is
  obtained as, and what a lock taken and released by a call leaves behind.
\<close>

section \<open>Locks of a call\<close>

lemma release_read: "acquire_read l = Some l' \<Longrightarrow> release l' = l"
  by (cases l) auto

lemma release_write: "acquire_write l = Some l' \<Longrightarrow> release l' = l"
  by (cases l) auto

lemma acquire_write_iff: "acquire_write l = (if l = Unlocked then Some Written else None)"
  by (cases l) auto

lemma acquire_read_none: "acquire_read l = None \<longleftrightarrow> l = Written"
  by (cases l) auto

lemma set_table_same [simp]: "set_table i (table_of i m) m = m"
  by (cases m) (simp add: set_table_def table_of_def)

lemma set_table_twice [simp]: "set_table i t (set_table i t' m) = set_table i t m"
  by (cases "i < length (cm_shards m)"; cases "cm_shards m ! i")
    (simp_all add: set_table_def list_update_beyond)

lemma take_lock_cases:
  assumes "i < length (cm_shards m)"
  shows "take_lock acquire i (m, h) = map_option (\<lambda>l. (Ok (), (set_lock i l m, h))) (acquire (lock_of i m))"
  using assms by (simp add: take_lock_def)

lemma unlock_taken:
  assumes "i < length (cm_shards m)" and "release l = lock_of i m"
  shows "unlock i (set_table i t (set_lock i l m), h) = (set_table i t m, h)"
  using assms by (simp add: unlock_def set_lock_set_table set_lock_twice set_lock_same)

lemma unlock_only:
  assumes "i < length (cm_shards m)" and "release l = lock_of i m"
  shows "unlock i (set_lock i l m, h) = (m, h)"
  using assms by (simp add: unlock_def set_lock_twice set_lock_same)

lemma same_frame_set_table:
  "i < length (cm_shards m) \<Longrightarrow> lock_of i m = Unlocked \<Longrightarrow> same_frame m (set_table i t m)"
  by (auto simp: same_frame_def)

lemma same_frame_refl [simp]: "same_frame m m"
  by (simp add: same_frame_def)

lemma same_frame_shards: "same_frame m m' \<Longrightarrow> length (cm_shards m') = length (cm_shards m)"
  unfolding same_frame_def locks_def by (metis length_map)

lemma same_frame_lock: "same_frame m m' \<Longrightarrow> i < length (cm_shards m) \<Longrightarrow> lock_of i m' = lock_of i m"
  using same_frame_shards [of m m'] locks_nth [of i m] locks_nth [of i m'] by (simp add: same_frame_def)

lemma same_frame_trans: "same_frame m m' \<Longrightarrow> same_frame m' m'' \<Longrightarrow> same_frame m m''"
  using same_frame_shards [of m m'] same_frame_lock [of m m'] by (simp add: same_frame_def)

lemma chm_rep_lock_table [simp]:
  "chm_rep ent (set_table i t (set_lock i l m)) M \<longleftrightarrow> chm_rep ent (set_table i t m) M"
  by (simp flip: set_lock_set_table)

section \<open>One key\<close>

text \<open>What the tables of the shards do to the map, key by key.\<close>

lemma rep_put:
  assumes rep: "chm_rep ent (set_table (shard_of k m) t m) M" and i: "shard_of k m < length (cm_shards m)"
    and t': "ent t' = (ent t)(b \<mapsto> (cm_hash m k, (k, v)))"
    and at: "(\<exists>w. ent t b = Some (cm_hash m k, (k, w))) \<or> ent t b = None \<and> M k = None"
  shows "chm_rep ent (set_table (shard_of k m) t' m) (M(k \<mapsto> v))"
proof -
  let ?i = "shard_of k m"
  have "holds ent (cm_hash m) t (\<lambda>k'. if shard_of k' m = ?i then M k' else None)"
    using chm_rep_shard [OF rep, of ?i] i by simp
  then have "holds ent (cm_hash m) t' (\<lambda>k'. if shard_of k' m = ?i then (M(k \<mapsto> v)) k' else None)"
    unfolding part_upd by (rule holds_put [where t = t and b = b and ent = ent and hash = "cm_hash m" and k = k and v = v, OF _ t']) (use at in auto)
  then have "chm_rep ent (set_table ?i t' (set_table ?i t m)) (M(k \<mapsto> v))"
    by (intro chm_rep_set_table [OF rep]) auto
  then show ?thesis by simp
qed

lemma rep_delete:
  assumes rep: "chm_rep ent m M" and at: "ent (table_of (shard_of k m) m) b = Some (cm_hash m k, (k, v))"
    and t': "ent t' = (ent (table_of (shard_of k m) m))(b := None)" and i: "shard_of k m < length (cm_shards m)"
  shows "chm_rep ent (set_table (shard_of k m) t' m) (M(k := None))"
proof -
  have "holds ent (cm_hash m) t' (\<lambda>k'. if shard_of k' m = shard_of k m then (M(k := None)) k' else None)"
    unfolding part_upd by (rule holds_remove [OF chm_rep_shard [OF rep i] at t'])
  then show ?thesis by (intro chm_rep_set_table [OF rep]) auto
qed

text \<open>A search under the lock of the key's shard decides whether the key is in the map.\<close>

lemma rep_search:
  assumes "table_laws R ent" and rep: "chm_rep ent m M" and i: "shard_of k m < length (cm_shards m)"
  obtains (present) b v where "rt_find R (cm_hash m k) (\<lambda>kv. fst kv = k) (table_of (shard_of k m) m) = Some b"
      and "ent (table_of (shard_of k m) m) b = Some (cm_hash m k, (k, v))" and "M k = Some v"
  | (absent) "rt_find R (cm_hash m k) (\<lambda>kv. fst kv = k) (table_of (shard_of k m) m) = None" and "M k = None"
proof -
  let ?r = "rt_find R (cm_hash m k) (\<lambda>kv. fst kv = k) (table_of (shard_of k m) m)"
  note shard = chm_rep_shard [OF rep i]
  have finds: "finds (cm_hash m k) (\<lambda>kv. fst kv = k) (ent (table_of (shard_of k m) m)) ?r"
    by (rule table_find [OF assms(1)])
  show thesis
  proof (cases ?r)
    case None
    then show thesis using holds_absent [OF shard, of k] finds absent by simp
  next
    case (Some b)
    then obtain v where "ent (table_of (shard_of k m) m) b = Some (cm_hash m k, (k, v))"
      "(if shard_of k m = shard_of k m then M k else None) = Some v"
      using holds_found [OF shard, of k b] finds by metis
    then show thesis using present Some by simp
  qed
qed

section \<open>Obtaining an entry\<close>

lemma rep_reserved:
  assumes rep: "chm_rep ent m M" and i: "i < length (cm_shards m)"
    and "ent t = ent (table_of i m) \<or> rebuilt (\<lambda>kv. cm_hash m (fst kv)) (ent (table_of i m)) (ent t)"
  shows "chm_rep ent (set_table i t m) M"
  by (rule chm_rep_set_table [OF rep]) (use holds_reserved [OF assms(3) chm_rep_shard [OF rep i]] in simp_all)

lemma entry_under_lock_cases:
  assumes laws: "table_laws R ent" and rep: "chm_rep ent m M"
  obtains (occupied) b v t h' where
      "entry_under_lock R k (m, h) = (Ok (COccupied (shard_of k m) b), (set_table (shard_of k m) t m, h'))"
      and "ent t b = Some (cm_hash m k, (k, v))" and "M k = Some v"
      and "chm_rep ent (set_table (shard_of k m) t m) M"
  | (vacant) slot t h' where
      "entry_under_lock R k (m, h) =
         (Ok (CVacant (shard_of k m) k (cm_hash m k) slot), (set_table (shard_of k m) t m, h'))"
      and "ent t slot = None" and "M k = None"
      and "\<And>e. ent (rt_insert_in_slot R (cm_hash m k) slot e t) = (ent t)(slot \<mapsto> (cm_hash m k, e))"
      and "chm_rep ent (set_table (shard_of k m) t m) M"
  | (failed) e h' where "entry_under_lock R k (m, h) = (Err (k, e), unlock (shard_of k m) (m, h'))"
proof -
  let ?i = "shard_of k m" and ?hasher = "\<lambda>kv. cm_hash m (fst kv)"
  have i: "?i < length (cm_shards m)" using rep shard_of_bound by (auto simp: chm_rep_def)
  show thesis
  proof (rule table_reserve_cases [OF laws, of 1 ?hasher "table_of ?i m" h])
    fix e h'
    assume "rt_try_reserve R 1 ?hasher (table_of ?i m, h) = (Err e, (table_of ?i m, h'))"
    then have "entry_under_lock R k (m, h) = (Err (k, try_reserve_error_from_hashbrown e), unlock ?i (m, h'))"
      by (simp add: entry_under_lock_def released_def Let_def)
    then show thesis by (rule failed)
  next
    fix t h'
    assume run: "rt_try_reserve R 1 ?hasher (table_of ?i m, h) = (Ok (), (t, h'))"
      and room: "rt_len R (table_of ?i m) + 1 \<le> rt_capacity R t"
      and kept: "ent t = ent (table_of ?i m) \<or> rebuilt ?hasher (ent (table_of ?i m)) (ent t)"
    have rep': "chm_rep ent (set_table ?i t m) M" by (rule rep_reserved [OF rep i kept])
    have shard: "holds ent (cm_hash m) t (\<lambda>k'. if shard_of k' m = ?i then M k' else None)"
      using chm_rep_shard [OF rep', of ?i] i by simp
    have space: "rt_len R t < rt_capacity R t" using room reserved_len [OF laws kept] by simp
    show thesis
    proof (rule table_slot_cases [OF laws space, of "cm_hash m k" "\<lambda>kv. fst kv = k" ?hasher])
      fix b
      assume b: "rt_find_or_slot R (cm_hash m k) (\<lambda>kv. fst kv = k) ?hasher t = Inl b"
        and finds: "finds (cm_hash m k) (\<lambda>kv. fst kv = k) (ent t) (Some b)"
      obtain v where "ent t b = Some (cm_hash m k, (k, v))" "M k = Some v"
        by (rule holds_found [OF shard finds]) (use that in simp)
      then show thesis using occupied rep' run b by (simp add: entry_under_lock_def Let_def)
    next
      fix s
      assume s: "rt_find_or_slot R (cm_hash m k) (\<lambda>kv. fst kv = k) ?hasher t = Inr s"
        and finds: "finds (cm_hash m k) (\<lambda>kv. fst kv = k) (ent t) None"
        and "ent t s = None" "\<And>e. ent (rt_insert_in_slot R (cm_hash m k) s e t) = (ent t)(s \<mapsto> (cm_hash m k, e))"
      then show thesis using vacant rep' run holds_absent [OF shard finds] by (simp add: entry_under_lock_def Let_def)
    qed
  qed
qed

lemma place_occupied:
  assumes laws: "table_laws R ent" and i: "i < length (cm_shards m)" and at: "ent t b = Some (hk, (k, v))"
    and l: "release l = lock_of i m"
  shows "place_value R (COccupied i b) w (set_table i t (set_lock i l m), h) =
    (Ok (Some v), (set_table i (rt_write R b (k, w) t) m, h))"
proof -
  have "rt_read R b (table_of i (set_table i t (set_lock i l m))) = Some (k, v)"
    using table_read [OF laws] at i by simp
  then show ?thesis
    using unlock_taken [OF i l] i by (simp add: place_value_def released_def cocc_insert_def cocc_get_def)
qed

lemma place_vacant:
  assumes i: "i < length (cm_shards m)" and l: "release l = lock_of i m"
  shows "place_value R (CVacant i k hk slot) w (set_table i t (set_lock i l m), h) =
    (Ok None, (set_table i (rt_insert_in_slot R hk slot (k, w) t) m, h))"
  using i unlock_taken [OF i l] by (simp add: place_value_def cvac_insert_def drop_guard_def)

lemma do_entry_waits:
  assumes "shard_of k m < length (cm_shards m)" and "lock_of (shard_of k m) m \<noteq> Unlocked"
  shows "do_entry_give_back R k (m, h) = None"
  using assms by (simp add: do_entry_give_back_def take_lock_cases acquire_write_iff)

lemma do_entry_runs:
  assumes "shard_of k m < length (cm_shards m)" and "lock_of (shard_of k m) m = Unlocked"
  shows "do_entry_give_back R k (m, h) = Some (entry_under_lock R k (set_lock (shard_of k m) Written m, h))"
  using assms by (simp add: do_entry_give_back_def take_lock_cases acquire_write_iff)

section \<open>Insertion\<close>

text \<open>An entry obtained on a free shard is either filled, or was never obtained.\<close>

lemma entry_placed_cases:
  fixes M :: "'k \<rightharpoonup> 'v"
  assumes laws: "table_laws R ent" and rep: "chm_rep ent m M" and free: "lock_of (shard_of k m) m = Unlocked"
  obtains (old) i b w m1 m2 h' where "do_entry_give_back R k (m, h) = Some (Ok (COccupied i b), (m1, h'))"
      and "M k = Some w" and "\<And>v. place_value R (COccupied i b) v (m1, h') =
        ((Ok (Some w) :: ('k \<times> 'v \<times> try_reserve_error, _) outcome), (m2 v, h'))"
      and "\<And>v. chm_rep ent (m2 v) (M(k \<mapsto> v))" and "\<And>v. same_frame m (m2 v)"
      and "rt_read R b (table_of i m1) = Some (k, w)"
      and "chm_rep ent (fst (unlock i (m1, h'))) M" and "same_frame m (fst (unlock i (m1, h')))"
  | (fresh) i slot m1 m2 h' where
      "do_entry_give_back R k (m, h) = Some (Ok (CVacant i k (cm_hash m k) slot), (m1, h'))"
      and "M k = None" and "\<And>v. place_value R (CVacant i k (cm_hash m k) slot) v (m1, h') =
        ((Ok None :: ('k \<times> 'v \<times> try_reserve_error, _) outcome), (m2 v, h'))"
      and "\<And>v. chm_rep ent (m2 v) (M(k \<mapsto> v))" and "\<And>v. same_frame m (m2 v)"
  | (failed) e h' where "do_entry_give_back R k (m, h) = Some (Err (k, e), (m, h'))"
proof -
  let ?i = "shard_of k m" and ?m = "set_lock (shard_of k m) Written m"
  have i: "?i < length (cm_shards m)" using rep shard_of_bound by (auto simp: chm_rep_def)
  have l: "release Written = lock_of ?i m" using free by simp
  have "chm_rep ent ?m M" using rep by simp
  then show thesis
  proof (rule entry_under_lock_cases [OF laws, of ?m M k h])
    fix b v t h'
    assume run: "entry_under_lock R k (?m, h) = (Ok (COccupied (shard_of k ?m) b), set_table (shard_of k ?m) t ?m, h')"
      and at: "ent t b = Some (cm_hash ?m k, k, v)" and "M k = Some v"
      and rep': "chm_rep ent (set_table (shard_of k ?m) t ?m) M"
    have put: "chm_rep ent (set_table ?i (rt_write R b (k, w) t) m) (M(k \<mapsto> w))" for w
      by (rule rep_put [where t = t and b = b]) (use rep' i at table_write [OF laws, of t b] in simp_all)
    have unl: "unlock ?i (set_table ?i t ?m, h') = (set_table ?i t m, h')" by (rule unlock_taken [OF i l])
    show thesis
    proof (rule old)
      show "do_entry_give_back R k (m, h) = Some (Ok (COccupied ?i b), (set_table ?i t ?m, h'))"
        using do_entry_runs [OF i free, of R h] run by simp
      show "place_value R (COccupied ?i b) w (set_table ?i t ?m, h') =
          (Ok (Some v), (set_table ?i (rt_write R b (k, w) t) m, h'))" for w
        by (rule place_occupied [OF laws i _ l]) (use at in simp)
      show "rt_read R b (table_of ?i (set_table ?i t ?m)) = Some (k, v)" using table_read [OF laws] at i by simp
      show "chm_rep ent (fst (unlock ?i (set_table ?i t ?m, h'))) M"
        "same_frame m (fst (unlock ?i (set_table ?i t ?m, h')))"
        using rep' same_frame_set_table [OF i free] by (simp_all add: unl)
    qed (use put same_frame_set_table [OF i free] \<open>M k = Some v\<close> in simp_all)
  next
    fix slot t h'
    assume run: "entry_under_lock R k (?m, h) =
        (Ok (CVacant (shard_of k ?m) k (cm_hash ?m k) slot), set_table (shard_of k ?m) t ?m, h')"
      and at: "ent t slot = None" "M k = None"
      and ins: "\<And>e. ent (rt_insert_in_slot R (cm_hash ?m k) slot e t) = (ent t)(slot \<mapsto> (cm_hash ?m k, e))"
      and rep': "chm_rep ent (set_table (shard_of k ?m) t ?m) M"
    have put: "chm_rep ent (set_table ?i (rt_insert_in_slot R (cm_hash m k) slot (k, w) t) m) (M(k \<mapsto> w))" for w
      by (rule rep_put [where t = t and b = slot]) (use rep' i at ins in simp_all)
    show thesis
    proof (rule fresh)
      show "do_entry_give_back R k (m, h) = Some (Ok (CVacant ?i k (cm_hash m k) slot), (set_table ?i t ?m, h'))"
        using do_entry_runs [OF i free, of R h] run by simp
      show "place_value R (CVacant ?i k (cm_hash m k) slot) w (set_table ?i t ?m, h') =
          (Ok None, (set_table ?i (rt_insert_in_slot R (cm_hash m k) slot (k, w) t) m, h'))" for w
        by (rule place_vacant [OF i l])
    qed (use put same_frame_set_table [OF i free] at in simp_all)
  next
    fix e h'
    assume "entry_under_lock R k (?m, h) = (Err (k, e), unlock (shard_of k ?m) (?m, h'))"
    then show thesis
      using failed do_entry_runs [OF i free, of R h] unlock_only [OF i l] by simp
  qed
qed

end
