(* ===== verification/CHashWalk.thy ===== *)
theory CHashWalk
  imports CHashStep
begin

text \<open>
  The operations that visit every shard in turn: what a loop over the shards keeps, the entries of
  the whole map as a list, and the move of a shard's entries into a fresh table.
\<close>

section \<open>Entries of a table\<close>

lemma table_items_alt:
  assumes "table_laws R ent"
  shows "table_items R t = map (\<lambda>b. snd (the (ent t b))) (rt_buckets R t)"
proof -
  have "List.map_filter (\<lambda>b. map_option snd (ent t b)) bs = map (\<lambda>b. snd (the (ent t b))) bs"
    if "set bs \<subseteq> dom (ent t)" for bs
    using that by (induction bs) (auto simp: map_filter_simps)
  then show ?thesis using table_buckets [OF assms, of t] by (simp add: table_items_def table_read [OF assms])
qed

lemma table_items_len: "table_laws R ent \<Longrightarrow> length (table_items R t) = rt_len R t"
  using table_buckets [of R ent t] distinct_card [of "rt_buckets R t"] table_len [of R ent t]
  by (simp add: table_items_alt)

lemma table_items_mem:
  assumes "table_laws R ent" and "holds ent hash t M"
  shows "(k, v) \<in> set (table_items R t) \<longleftrightarrow> M k = Some v"
proof
  assume "(k, v) \<in> set (table_items R t)"
  then obtain b where "b \<in> dom (ent t)" "(k, v) = snd (the (ent t b))"
    using table_buckets [OF assms(1), of t] by (auto simp: table_items_alt [OF assms(1)])
  then obtain h where "ent t b = Some (h, (k, v))" by auto
  then show "M k = Some v" using holds_entry [OF assms(2)] by blast
next
  assume "M k = Some v"
  then obtain b where "ent t b = Some (hash k, (k, v))" using holds_bucket [OF assms(2)] by blast
  then show "(k, v) \<in> set (table_items R t)"
    using table_buckets [OF assms(1), of t] by (force simp: table_items_alt [OF assms(1)])
qed

lemma table_items_distinct:
  assumes "table_laws R ent" and "holds ent hash t M"
  shows "distinct (map fst (table_items R t))"
proof -
  have "inj_on (\<lambda>b. fst (snd (the (ent t b)))) (dom (ent t))"
  proof (rule inj_onI)
    fix b b'
    assume b: "b \<in> dom (ent t)" "b' \<in> dom (ent t)" "fst (snd (the (ent t b))) = fst (snd (the (ent t b')))"
    obtain h k v h' k' v' where "ent t b = Some (h, (k, v))" "ent t b' = Some (h', (k', v'))"
      using b(1,2) by (metis domD surj_pair)
    then show "b = b'" using b(3) holds_unique [OF assms(2), of b h k v b' h' v'] by simp
  qed
  then show ?thesis
    using table_buckets [OF assms(1), of t] by (simp add: table_items_alt [OF assms(1)] distinct_map comp_def)
qed

section \<open>Entries of the map\<close>

definition all_items :: "('t, 'k \<times> 'v) raw_ops \<Rightarrow> ('k, 't) chashmap \<Rightarrow> ('k \<times> 'v) list" where
  "all_items R m = concat (map (\<lambda>i. table_items R (table_of i m)) [0..<length (cm_shards m)])"

lemma shard_items_mem:
  "table_laws R ent \<Longrightarrow> chm_rep ent m M \<Longrightarrow> i < length (cm_shards m) \<Longrightarrow>
   (k, v) \<in> set (table_items R (table_of i m)) \<longleftrightarrow> shard_of k m = i \<and> M k = Some v"
  using table_items_mem [of R ent, OF _ chm_rep_shard [of ent m M i]] by auto

lemma all_items_mem:
  assumes "table_laws R ent" and "chm_rep ent m M"
  shows "(k, v) \<in> set (all_items R m) \<longleftrightarrow> M k = Some v"
proof -
  have "shard_of k m < length (cm_shards m)" using assms(2) shard_of_bound by (auto simp: chm_rep_def)
  then show ?thesis using shard_items_mem [OF assms] by (auto simp: all_items_def)
qed

lemma all_items_distinct:
  assumes laws: "table_laws R ent" and rep: "chm_rep ent m M"
  shows "distinct (map fst (all_items R m))"
proof -
  let ?keys = "\<lambda>i. map fst (table_items R (table_of i m))"
  have "distinct (concat (map ?keys ns))" if "set ns \<subseteq> {..<length (cm_shards m)}" "distinct ns" for ns
    using that
  proof (induction ns)
    case (Cons i js)
    have "set (?keys i) \<inter> set (concat (map ?keys js)) = {}"
      using Cons.prems shard_items_mem [OF laws rep] by (fastforce dest: subsetD)
    moreover have "distinct (?keys i)"
      using Cons.prems table_items_distinct [OF laws chm_rep_shard [OF rep]] by simp
    ultimately show ?case using Cons by simp
  qed simp
  from this [of "[0..<length (cm_shards m)]"]
  have "distinct (concat (map ?keys [0..<length (cm_shards m)]))" by (simp add: lessThan_atLeast0)
  then show ?thesis by (simp add: all_items_def map_concat comp_def)
qed

lemma all_items_map:
  assumes "table_laws R ent" and "chm_rep ent m M"
  shows "map_of (all_items R m) = M"
proof
  fix k
  show "map_of (all_items R m) k = M k"
  proof (cases "M k")
    case None
    then have "k \<notin> fst ` set (all_items R m)" using all_items_mem [OF assms, of k] by auto
    then show ?thesis using None by (simp add: map_of_eq_None_iff)
  next
    case (Some v)
    then show ?thesis using all_items_mem [OF assms, of k v] all_items_distinct [OF assms] by simp
  qed
qed

lemma all_items_card:
  assumes "table_laws R ent" and "chm_rep ent m M"
  shows "length (all_items R m) = card (dom M)"
proof -
  have "dom M = set (map fst (all_items R m))"
    using all_items_map [OF assms] by (metis dom_map_of_conv_image_fst set_map)
  then show ?thesis using distinct_card [OF all_items_distinct [OF assms]] by simp
qed

section \<open>Loops over the shards\<close>

text \<open>
  A loop that writes: a property of the map that each step keeps is kept by the loop, what a step
  establishes for its table holds at the end, and no other table changes.
\<close>

lemma each_shard_write:
  assumes step: "\<And>i m h. P m \<Longrightarrow> i < length (cm_shards m) \<Longrightarrow>
      \<exists>r t h'. f i () (set_lock i Written m, h) = (r, (set_table i t (set_lock i Written m), h')) \<and> clean r \<and>
        P (set_table i t m) \<and> (is_ok r \<longrightarrow> Q t)"
    and "P m" and "set is \<subseteq> {..<length (cm_shards m)}"
  shows "case each_shard acquire_write f is () (m, h) of
      None \<Rightarrow> \<exists>i \<in> set is. lock_of i m \<noteq> Unlocked
    | Some (r, (m', h')) \<Rightarrow>
        clean r \<and> P m' \<and> same_frame m m' \<and>
        (\<forall>j < length (cm_shards m). j \<notin> set is \<longrightarrow> table_of j m' = table_of j m) \<and>
        (is_ok r \<longrightarrow> (\<forall>i \<in> set is. lock_of i m = Unlocked \<and> Q (table_of i m')))"
  using assms(2,3)
proof (induction "is" arbitrary: m h)
  case (Cons i js)
  have i: "i < length (cm_shards m)" using Cons.prems by simp
  show ?case
  proof (cases "lock_of i m = Unlocked")
    case False
    then show ?thesis using i by (simp add: take_lock_cases acquire_write_iff)
  next
    case True
    obtain r t h' where st: "f i () (set_lock i Written m, h) = (r, (set_table i t (set_lock i Written m), h'))"
      "clean r" "P (set_table i t m)" "is_ok r \<longrightarrow> Q t"
      using step [OF Cons.prems(1) i] by blast
    let ?m = "set_table i t m"
    have rel: "released i (f i () (set_lock i Written m, h)) = (r, (?m, h'))"
      using unlock_taken [OF i, of Written] True st(1) by (simp add: released_def)
    have run: "each_shard acquire_write f (i # js) () (m, h) =
        wait_then (Some (r, (?m, h'))) (\<lambda>a. each_shard acquire_write f js a)"
      using True i rel by (simp add: take_lock_cases acquire_write_iff)
    have frame: "same_frame m ?m" by (rule same_frame_set_table [OF i True])
    show ?thesis
      using st(2)
    proof (cases r rule: clean_cases)
      case (Err e)
      then show ?thesis using run frame st(3) by simp
    next
      case (Ok u)
      have locks: "lock_of j ?m = lock_of j m" if "j < length (cm_shards m)" for j using that by simp
      have "set js \<subseteq> {..<length (cm_shards ?m)}" using Cons.prems by simp
      note IH = Cons.IH [OF st(3) this, of h']
      have eq: "each_shard acquire_write f (i # js) () (m, h) = each_shard acquire_write f js () (?m, h')"
        using run Ok by simp
      have inside: "j < length (cm_shards m)" if "j \<in> set js" for j using Cons.prems that by auto
      show ?thesis
      proof (cases "each_shard acquire_write f js () (?m, h')")
        case None
        then show ?thesis using IH eq inside locks by auto
      next
        case (Some res)
        obtain r' m' h'' where res: "res = (r', (m', h''))" by (metis surj_pair)
        have own: "table_of i m' = t" if "i \<notin> set js" using IH Some res i that by simp
        have "Q (table_of i m')" if "is_ok r'"
          using IH Some res own st(4) Ok that by (cases "i \<in> set js") auto
        moreover have "\<forall>j < length (cm_shards m). j \<notin> set (i # js) \<longrightarrow> table_of j m' = table_of j m"
          using IH Some res by auto
        moreover have "is_ok r' \<longrightarrow> (\<forall>j \<in> set js. lock_of j m = Unlocked \<and> Q (table_of j m'))"
          using IH Some res inside locks by auto
        ultimately show ?thesis using IH Some res eq True same_frame_trans [OF frame] by auto
      qed
    qed
  qed
qed simp

text \<open>A loop that reads leaves the map as it is, and folds over the tables.\<close>

fun fold_outcome :: "('a \<Rightarrow> 'b \<Rightarrow> ('e, 'b) outcome) \<Rightarrow> 'a list \<Rightarrow> 'b \<Rightarrow> ('e, 'b) outcome" where
  "fold_outcome f [] b = Ok b"
| "fold_outcome f (x # xs) b = (case f x b of Ok c \<Rightarrow> fold_outcome f xs c | r \<Rightarrow> r)"

lemma each_shard_read:
  assumes "set is \<subseteq> {..<length (cm_shards m)}" and "\<forall>i \<in> set is. lock_of i m \<noteq> Written"
    and step: "\<And>i a l. i < length (cm_shards m) \<Longrightarrow>
      f i a (set_lock i l m, h) = (g (table_of i m) a, (set_lock i l m, h))"
  shows "each_shard acquire_read f is a (m, h) =
    Some (fold_outcome (\<lambda>i a. g (table_of i m) a) is a, (m, h))"
  using assms(1,2)
proof (induction "is" arbitrary: a)
  case (Cons i js)
  have i: "i < length (cm_shards m)" using Cons.prems by simp
  obtain l where l: "acquire_read (lock_of i m) = Some l" using Cons.prems acquire_read_none [of "lock_of i m"] by auto
  have "released i (f i a (set_lock i l m, h)) = (g (table_of i m) a, (m, h))"
    using unlock_only [OF i, of l] release_read [OF l] step [OF i] by (simp add: released_def)
  then show ?case
    using Cons l i by (cases "g (table_of i m) a") (simp_all add: take_lock_cases)
qed simp

lemma each_shard_read_waits:
  assumes "set is \<subseteq> {..<length (cm_shards m)}" and "i \<in> set is" and "lock_of i m = Written"
    and step: "\<And>i a l. i < length (cm_shards m) \<Longrightarrow> \<exists>b. f i a (set_lock i l m, h) = (Ok b, (set_lock i l m, h))"
  shows "each_shard acquire_read f is a (m, h) = None"
  using assms(1,2)
proof (induction "is" arbitrary: a)
  case (Cons j js)
  have j: "j < length (cm_shards m)" using Cons.prems by simp
  show ?case
  proof (cases "acquire_read (lock_of j m)")
    case None
    then show ?thesis using j by (simp add: take_lock_cases)
  next
    case (Some l)
    then have "i \<in> set js" using Cons.prems assms(3) by auto
    obtain b where "f j a (set_lock j l m, h) = (Ok b, (set_lock j l m, h))" using step [OF j] by blast
    then have "released j (f j a (set_lock j l m, h)) = (Ok b, (m, h))"
      using unlock_only [OF j, of l] release_read [OF Some] by (simp add: released_def)
    then show ?thesis using Some j Cons \<open>i \<in> set js\<close> by (simp add: take_lock_cases)
  qed
qed simp

section \<open>Moving the entries of a shard\<close>

lemma copy_entries_spec:
  fixes R :: "('t, 'k \<times> 'v) raw_ops"
  assumes laws: "table_laws R ent"
  shows "holds ent hash t N \<Longrightarrow> distinct (map fst kvs) \<Longrightarrow> fst ` set kvs \<inter> dom N = {} \<Longrightarrow>
    rt_len R t + length kvs \<le> rt_capacity R t \<Longrightarrow>
    \<exists>t'. copy_entries R hash kvs t = (Ok t' :: ('e, 't) outcome) \<and> holds ent hash t' (N ++ map_of kvs)"
proof (induction kvs arbitrary: t N)
  case (Cons kv kvs)
  obtain k v where kv: "kv = (k, v)" by (cases kv)
  have room: "rt_len R t < rt_capacity R t" using Cons.prems by simp
  let ?t = "rt_insert_no_grow R (hash k) (k, v) t"
  obtain b where b: "ent t b = None" "ent ?t = (ent t)(b \<mapsto> (hash k, (k, v)))" "rt_capacity R t \<le> rt_capacity R ?t"
    using table_insert_no_grow [OF laws room] by blast
  have fresh: "N k = None" "k \<notin> fst ` set kvs" using Cons.prems kv by (auto simp: dom_def)
  have len: "rt_len R ?t = Suc (rt_len R t)"
    using b table_len [OF laws] table_finite [OF laws, of t] by (simp add: domIff)
  have "holds ent hash ?t (N(k \<mapsto> v))"
    by (rule holds_put [where t = t and b = b and ent = ent and hash = hash and k = k and v = v, OF Cons.prems(1)])
      (use b fresh in simp_all)
  then obtain t' where "copy_entries R hash kvs ?t = (Ok t' :: ('e, 't) outcome)" "holds ent hash t' (N(k \<mapsto> v) ++ map_of kvs)"
    using Cons.IH [of ?t "N(k \<mapsto> v)"] Cons.prems fresh len b(3) kv by (auto simp del: fun_upd_apply)
  moreover have "N(k \<mapsto> v) ++ map_of kvs = N ++ map_of (kv # kvs)"
    using fresh kv by (simp add: map_add_upd_left map_of_eq_None_iff dom_map_of_conv_image_fst)
  ultimately show ?case using room kv by (simp del: map_of.simps)
qed simp

lemma table_items_map:
  assumes "table_laws R ent" and "holds ent hash t M"
  shows "map_of (table_items R t) = M"
proof
  fix k
  show "map_of (table_items R t) k = M k"
  proof (cases "M k")
    case None
    then have "k \<notin> fst ` set (table_items R t)" using table_items_mem [OF assms, of k] by auto
    then show ?thesis using None by (simp add: map_of_eq_None_iff)
  next
    case (Some v)
    then show ?thesis using table_items_mem [OF assms, of k v] table_items_distinct [OF assms] by simp
  qed
qed

lemma shrink_shard_step:
  fixes R :: "('t, 'k \<times> 'v) raw_ops"
  assumes laws: "table_laws R ent" and rep: "chm_rep ent m M" and i: "i < length (cm_shards m)"
  shows "\<exists>r t h'. shrink_shard R i (set_lock i Written m, h) = (r, (set_table i t (set_lock i Written m), h')) \<and>
    clean r \<and> chm_rep ent (set_table i t m) M"
proof -
  let ?old = "table_of i m" and ?m = "set_lock i Written m" and ?hasher = "\<lambda>kv. cm_hash m (fst kv)"
  note shard = chm_rep_shard [OF rep i]
  have same: "set_table i ?old ?m = ?m" using set_table_same [of i ?m] i by simp
  show ?thesis
  proof (rule table_reserve_cases [OF laws, of "rt_len R ?old" ?hasher "rt_new R" h])
    fix e h'
    assume "rt_try_reserve R (rt_len R ?old) ?hasher (rt_new R, h) = (Err e, (rt_new R, h'))"
    then show ?thesis using i rep same by (intro exI [of _ "Err (try_reserve_error_from_hashbrown e)"] exI [of _ ?old] exI [of _ h'])
        (simp add: shrink_shard_def Let_def)
  next
    fix t h'
    assume run: "rt_try_reserve R (rt_len R ?old) ?hasher (rt_new R, h) = (Ok (), (t, h'))"
      and room: "rt_len R (rt_new R) + rt_len R ?old \<le> rt_capacity R t"
      and kept: "ent t = ent (rt_new R) \<or> rebuilt ?hasher (ent (rt_new R)) (ent t)"
    have "holds ent (cm_hash m) t Map.empty" by (rule holds_reserved [OF kept holds_new [OF laws]])
    moreover have "rt_len R t + length (table_items R ?old) \<le> rt_capacity R t"
      using room reserved_len [OF laws kept] by (simp add: table_items_len [OF laws])
    ultimately obtain t' where t': "copy_entries R (cm_hash m) (table_items R ?old) t = (Ok t' :: (try_reserve_error, 't) outcome)"
      "holds ent (cm_hash m) t' (Map.empty ++ map_of (table_items R ?old))"
      using copy_entries_spec [OF laws] table_items_distinct [OF laws shard] by fastforce
    have "chm_rep ent (set_table i t' m) M"
      by (rule chm_rep_set_table [OF rep]) (use t'(2) table_items_map [OF laws shard] in simp_all)
    then show ?thesis using run t'(1) i
      by (intro exI [of _ "Ok ()"] exI [of _ t'] exI [of _ h']) (simp add: shrink_shard_def Let_def)
  qed
qed

lemma reserve_shard_step:
  assumes laws: "table_laws R ent" and rep: "chm_rep ent m M" and i: "i < length (cm_shards m)"
  shows "\<exists>r t h'. reserve_shard R n i (set_lock i Written m, h) = (r, (set_table i t (set_lock i Written m), h')) \<and>
    clean r \<and> chm_rep ent (set_table i t m) M \<and> (is_ok r \<longrightarrow> rt_len R t + n \<le> rt_capacity R t)"
proof (rule table_reserve_cases [OF laws, of n "\<lambda>kv. cm_hash m (fst kv)" "table_of i m" h])
  fix e h'
  assume "rt_try_reserve R n (\<lambda>kv. cm_hash m (fst kv)) (table_of i m, h) = (Err e, (table_of i m, h'))"
  then show ?thesis using i rep
    by (intro exI [of _ "Err (try_reserve_error_from_hashbrown e)"] exI [of _ "table_of i m"] exI [of _ h'])
      (simp add: reserve_shard_def)
next
  fix t h'
  assume "rt_try_reserve R n (\<lambda>kv. cm_hash m (fst kv)) (table_of i m, h) = (Ok (), (t, h'))"
    and "rt_len R (table_of i m) + n \<le> rt_capacity R t"
    and kept: "ent t = ent (table_of i m) \<or> rebuilt (\<lambda>kv. cm_hash m (fst kv)) (ent (table_of i m)) (ent t)"
  then show ?thesis using i rep_reserved [OF rep i kept] reserved_len [OF laws kept]
    by (intro exI [of _ "Ok ()"] exI [of _ t] exI [of _ h']) (simp add: reserve_shard_def)
qed

end
