(* ===== verification/CHashExample.thy ===== *)
theory CHashExample
  imports CHashWalk
begin

text \<open>A map of two shards with one binding, on the list tables, and what it represents.\<close>

definition ch_example :: "(int, (int \<times> nat) slot_table) chashmap" where
  "ch_example = \<lparr>
     cm_shards = [\<lparr>sh_lock = Unlocked, sh_table = []\<rparr>, \<lparr>sh_lock = Unlocked, sh_table = [Some (2 ^ 56, (1, 7))]\<rparr>],
     cm_hash = (\<lambda>k. word_of_int (k * 2 ^ 56)),
     cm_shift = 63\<rparr>"

lemma ch_example_shards: "shard_of 1 ch_example = 1" "shard_of 2 ch_example = 0" "shard_of 3 ch_example = 1"
  by code_simp+

lemma ch_example_free: "\<forall>i < length (cm_shards ch_example). lock_of i ch_example = Unlocked"
  by (simp add: lock_of_def ch_example_def less_Suc_eq)

lemma ch_example_rep: "chm_rep slot_entries ch_example [1 \<mapsto> 7]"
proof -
  have geo: "geometry ch_example"
    unfolding geometry_def by (rule exI [of _ 1]) (simp add: ch_example_def)
  have none: "(\<lambda>k. if shard_of k ch_example = 0 then [1 \<mapsto> (7 :: nat)] k else None) = Map.empty"
    using ch_example_shards(1) by auto
  have one: "(\<lambda>k. if shard_of k ch_example = 1 then [1 \<mapsto> (7 :: nat)] k else None) = [1 \<mapsto> 7]"
    using ch_example_shards(1) by auto
  have e0: "slot_entries (table_of 0 ch_example) = Map.empty"
    by (simp add: table_of_def ch_example_def slot_entries_def fun_eq_iff)
  have e1: "slot_entries (table_of 1 ch_example) = [0 \<mapsto> (2 ^ 56, (1, 7))]"
    by (auto simp: table_of_def ch_example_def slot_entries_def fun_eq_iff)
  have h: "cm_hash ch_example 1 = 2 ^ 56" by (simp add: ch_example_def)
  have "holds slot_entries (cm_hash ch_example) (table_of 0 ch_example) Map.empty"
    by (simp add: holds_def e0)
  moreover have "holds slot_entries (cm_hash ch_example) (table_of 1 ch_example) [1 \<mapsto> 7]"
    unfolding holds_def e1 using h by (auto split: if_splits)
  moreover have "length (cm_shards ch_example) = 2" by (simp add: ch_example_def)
  ultimately show ?thesis
    unfolding chm_rep_def using geo none one by (auto simp: less_2_cases_iff)
qed

end
