(* ===== verification/CHashProps.thy ===== *)
theory CHashProps
  imports CHashExample
begin

text \<open>
  What the concurrent hash map promises: each operation, once it gets its lock, is the operation of a
  finite map, gives the lock back, and touches no shard that somebody else has locked; a failed
  reservation gives the key and the value back and changes nothing.
\<close>

lemma chm_rep_bound: "chm_rep ent m M \<Longrightarrow> shard_of k m < length (cm_shards m)"
  by (auto simp: chm_rep_def shard_of_bound)

section \<open>Insertion\<close>

text \<open>Claim C14. Inserting a key waits exactly when the lock of the key's shard is held; otherwise it
  returns the old value of the key in a map that binds the key to the new value, or hands the key and
  the value back with the map unchanged. Locks, and the tables of locked shards, are left alone.\<close>

theorem chash_insert_spec:
  assumes "table_laws R ent" and "chm_rep ent m M"
  shows "case ch_try_insert_give_back R k v (m, h) of
      None \<Rightarrow> lock_of (shard_of k m) m \<noteq> Unlocked
    | Some (r, (m', h')) \<Rightarrow>
        lock_of (shard_of k m) m = Unlocked \<and> same_frame m m' \<and>
        (case r of
           Ok old \<Rightarrow> old = M k \<and> chm_rep ent m' (M(k \<mapsto> v))
         | Err (k', v', e) \<Rightarrow> k' = k \<and> v' = v \<and> m' = m
         | _ \<Rightarrow> False)"
proof (cases "lock_of (shard_of k m) m = Unlocked")
  case False
  then show ?thesis
    by (simp add: ch_try_insert_give_back_def try_entry_give_back_def do_entry_waits [OF chm_rep_bound [OF assms(2)]])
next
  case True
  show ?thesis
    by (rule entry_placed_cases [OF assms True, of h])
      (simp_all add: ch_try_insert_give_back_def try_entry_give_back_def True)
qed

theorem chash_insert_spec_witness:
  "\<exists>m' h'. ch_try_insert_give_back slot_ops 1 9 (ch_example, heap_with policy_nothing) = Some (Ok (Some 7), (m', h')) \<and>
    chm_rep slot_entries m' [1 \<mapsto> 9]"
proof -
  let ?s = "(ch_example, heap_with policy_nothing)"
  have "map_option fst (ch_try_insert_give_back slot_ops 1 9 ?s) = Some (Ok (Some 7))" by code_simp
  then obtain m' h' where run: "ch_try_insert_give_back slot_ops 1 9 ?s = Some (Ok (Some 7), (m', h'))" by auto
  then show ?thesis
    using chash_insert_spec [OF slot_table_laws ch_example_rep, of 1 9 "heap_with policy_nothing"] by simp
qed

lemma insert_unique_cases:
  fixes M :: "'k \<rightharpoonup> 'v"
  assumes "table_laws R ent" and "chm_rep ent m M" and "lock_of (shard_of k m) m = Unlocked"
  obtains (inserted) m' h' where "ch_try_insert_unique R k v (m, h) = Some (Ok (), (m', h'))" and "M k = None"
      and "chm_rep ent m' (M(k \<mapsto> v))" and "same_frame m m'"
  | (exists) m' h' where "ch_try_insert_unique R k v (m, h) = Some (Err (k, v, KeyAlreadyExists), (m', h'))"
      and "M k \<noteq> None" and "chm_rep ent m' M" and "same_frame m m'"
  | (failed) e h' where "ch_try_insert_unique R k v (m, h) = Some (Err (k, v, UniqueReserve e), (m, h'))"
proof (rule entry_placed_cases [OF assms, of h])
  fix i b w m1 m2 h'
  assume *: "do_entry_give_back R k (m, h) = Some (Ok (COccupied i b), m1, h')" "M k = Some w"
    "rt_read R b (table_of i m1) = Some (k, w)"
    "chm_rep ent (fst (unlock i (m1, h'))) M" "same_frame m (fst (unlock i (m1, h')))"
  obtain m2 where u: "unlock i (m1, h') = (m2, h')" by (simp add: unlock_def)
  have "ch_try_insert_unique R k v (m, h) = Some (Err (k, v, KeyAlreadyExists), (m2, h'))"
    using * u by (simp add: ch_try_insert_unique_def try_entry_give_back_def centry_key_def cocc_get_def released_def)
  then show thesis by (rule exists) (use * u in simp_all)
next
  fix i slot m1 m2 h'
  assume *: "do_entry_give_back R k (m, h) = Some (Ok (CVacant i k (cm_hash m k) slot), m1, h')" "M k = None"
    "\<And>v. place_value R (CVacant i k (cm_hash m k) slot) v (m1, h') =
      (Ok None :: ('k \<times> 'v \<times> try_reserve_error, 'v option) outcome, m2 v, h')"
    "\<And>v. chm_rep ent (m2 v) (M(k \<mapsto> v))" "\<And>v. same_frame m (m2 v)"
  obtain g s where g: "cvac_insert R i k (cm_hash m k) slot v (m1, h') = (g, s)" by (metis surj_pair)
  then have "drop_guard g s = (m2 v, h')" using *(3) [of v] by (simp add: place_value_def)
  then have "ch_try_insert_unique R k v (m, h) = Some (Ok (), (m2 v, h'))"
    using *(1) g by (simp add: ch_try_insert_unique_def try_entry_give_back_def)
  then show thesis by (rule inserted) (use * in simp_all)
next
  fix e h'
  assume "do_entry_give_back R k (m, h) = Some (Err (k, e), m, h')"
  then show thesis by (intro failed) (simp add: ch_try_insert_unique_def try_entry_give_back_def)
qed

text \<open>Inserting a key that must be new binds it, or gives the key and the value back: with
  \<open>KeyAlreadyExists\<close> exactly when the map has the key, whose binding then stays.\<close>

lemma chash_insert_unique_spec:
  assumes "table_laws R ent" and "chm_rep ent m M"
  shows "case ch_try_insert_unique R k v (m, h) of
      None \<Rightarrow> lock_of (shard_of k m) m \<noteq> Unlocked
    | Some (r, (m', h')) \<Rightarrow>
        lock_of (shard_of k m) m = Unlocked \<and> same_frame m m' \<and>
        (case r of
           Ok _ \<Rightarrow> M k = None \<and> chm_rep ent m' (M(k \<mapsto> v))
         | Err (k', v', UniqueReserve e) \<Rightarrow> k' = k \<and> v' = v \<and> m' = m
         | Err (k', v', KeyAlreadyExists) \<Rightarrow> k' = k \<and> v' = v \<and> M k \<noteq> None \<and> chm_rep ent m' M
         | _ \<Rightarrow> False)"
proof (cases "lock_of (shard_of k m) m = Unlocked")
  case False
  then show ?thesis
    by (simp add: ch_try_insert_unique_def try_entry_give_back_def do_entry_waits [OF chm_rep_bound [OF assms(2)]])
next
  case True
  show ?thesis by (rule insert_unique_cases [OF assms True, of v h]) (simp_all add: True)
qed

section \<open>Lookup and removal\<close>

lemma lookup_cases:
  assumes "table_laws R ent" and rep: "chm_rep ent m M"
    and acq: "acquire (lock_of (shard_of k m) m) = Some l" and rel: "release l = lock_of (shard_of k m) m"
    and mk: "\<And>b. g_shard (mk (shard_of k m) b) = shard_of k m \<and> g_bucket (mk (shard_of k m) b) = b"
  obtains (present) b v where "lookup_with acquire mk R k (m, h) =
        Some ((Ok (Some (mk (shard_of k m) b)) :: (unit, _) outcome), (set_lock (shard_of k m) l m, h))"
      and "ent (table_of (shard_of k m) m) b = Some (cm_hash m k, (k, v))" and "M k = Some v"
      and "guard_pair R (mk (shard_of k m) b) (set_lock (shard_of k m) l m) = (Ok (k, v) :: (unit, _) outcome)"
      and "drop_guard (mk (shard_of k m) b) (set_lock (shard_of k m) l m, h) = (m, h)"
  | (absent) "lookup_with acquire mk R k (m, h) = Some ((Ok None :: (unit, _) outcome), (m, h))" and "M k = None"
proof -
  note i = chm_rep_bound [OF rep, of k]
  show thesis
  proof (rule rep_search [OF assms(1) rep i])
    fix b v
    assume found: "rt_find R (cm_hash m k) (\<lambda>kv. fst kv = k) (table_of (shard_of k m) m) = Some b"
      "ent (table_of (shard_of k m) m) b = Some (cm_hash m k, k, v)" "M k = Some v"
    show thesis
      by (rule present [OF _ found(2,3)])
        (use found acq i mk unlock_only [OF i rel] table_read [OF assms(1)] in
          \<open>simp_all add: lookup_with_def take_lock_cases Let_def guard_pair_def drop_guard_def\<close>)
  next
    assume "rt_find R (cm_hash m k) (\<lambda>kv. fst kv = k) (table_of (shard_of k m) m) = None" "M k = None"
    then show thesis
      by (intro absent)
        (use acq i unlock_only [OF i rel] in \<open>simp_all add: lookup_with_def take_lock_cases Let_def released_def\<close>)
  qed
qed

lemma lookup_waits:
  assumes "chm_rep ent m M" and "acquire (lock_of (shard_of k m) m) = None"
  shows "lookup_with acquire mk R k (m, h) = None"
  using assms chm_rep_bound [OF assms(1), of k] by (simp add: lookup_with_def take_lock_cases Let_def)

text \<open>\<open>get\<close> and \<open>get_mut\<close> return a guard on the key's entry exactly when the map has the key;
  they wait exactly when the lock cannot be shared, or not be had at all; dropping the guard restores
  the state before the call. \<open>contains_key\<close> answers membership and leaves nothing locked.\<close>

lemma chash_lookup_spec:
  assumes "table_laws R ent" and "chm_rep ent m M"
  shows "(case (ch_get R k (m, h) :: (_, unit, _) run option) of
        None \<Rightarrow> lock_of (shard_of k m) m = Written
      | Some (Ok None, s) \<Rightarrow> lock_of (shard_of k m) m \<noteq> Written \<and> M k = None \<and> s = (m, h)
      | Some (Ok (Some g), s) \<Rightarrow> lock_of (shard_of k m) m \<noteq> Written \<and> drop_guard g s = (m, h) \<and>
          (\<exists>v. M k = Some v \<and> guard_pair R g (fst s) = (Ok (k, v) :: (unit, 'k \<times> 'v) outcome))
      | _ \<Rightarrow> False) \<and>
    (case (ch_get_mut R k (m, h) :: (_, unit, _) run option) of
        None \<Rightarrow> lock_of (shard_of k m) m \<noteq> Unlocked
      | Some (Ok None, s) \<Rightarrow> lock_of (shard_of k m) m = Unlocked \<and> M k = None \<and> s = (m, h)
      | Some (Ok (Some g), s) \<Rightarrow> lock_of (shard_of k m) m = Unlocked \<and> drop_guard g s = (m, h) \<and>
          (\<exists>v. M k = Some v \<and> guard_pair R g (fst s) = (Ok (k, v) :: (unit, 'k \<times> 'v) outcome))
      | _ \<Rightarrow> False) \<and>
    ch_contains_key R k (m, h) =
      (if lock_of (shard_of k m) m = Written then None else Some ((Ok (M k \<noteq> None) :: (unit, _) outcome), (m, h)))"
proof (intro conjI)
  let ?l = "lock_of (shard_of k m) m"
  have rd: "\<exists>l. acquire_read ?l = Some l \<and> release l = ?l" if "?l \<noteq> Written"
    using that release_read [of ?l] acquire_read_none [of ?l] by blast
  show "case (ch_get R k (m, h) :: (_, unit, _) run option) of
        None \<Rightarrow> ?l = Written
      | Some (Ok None, s) \<Rightarrow> ?l \<noteq> Written \<and> M k = None \<and> s = (m, h)
      | Some (Ok (Some g), s) \<Rightarrow> ?l \<noteq> Written \<and> drop_guard g s = (m, h) \<and>
          (\<exists>v. M k = Some v \<and> guard_pair R g (fst s) = (Ok (k, v) :: (unit, 'k \<times> 'v) outcome))
      | _ \<Rightarrow> False"
  proof (cases "?l = Written")
    case True
    then show ?thesis by (simp add: ch_get_def lookup_waits [OF assms(2)])
  next
    case False
    then obtain l where l: "acquire_read ?l = Some l" "release l = ?l" using rd by blast
    show ?thesis
      by (rule lookup_cases [where acquire = acquire_read and mk = Ref and h = h, OF assms l]) (simp_all add: ch_get_def False)
  qed
  show "case (ch_get_mut R k (m, h) :: (_, unit, _) run option) of
        None \<Rightarrow> ?l \<noteq> Unlocked
      | Some (Ok None, s) \<Rightarrow> ?l = Unlocked \<and> M k = None \<and> s = (m, h)
      | Some (Ok (Some g), s) \<Rightarrow> ?l = Unlocked \<and> drop_guard g s = (m, h) \<and>
          (\<exists>v. M k = Some v \<and> guard_pair R g (fst s) = (Ok (k, v) :: (unit, 'k \<times> 'v) outcome))
      | _ \<Rightarrow> False"
  proof (cases "?l = Unlocked")
    case False
    then show ?thesis by (simp add: ch_get_mut_def acquire_write_iff lookup_waits [OF assms(2)])
  next
    case True
    then have l: "acquire_write ?l = Some Written" "release Written = ?l" by simp_all
    show ?thesis
      by (rule lookup_cases [where acquire = acquire_write and mk = RefMut and h = h, OF assms l]) (simp_all add: ch_get_mut_def True)
  qed
  show "ch_contains_key R k (m, h) = (if ?l = Written then None else Some ((Ok (M k \<noteq> None) :: (unit, _) outcome), (m, h)))"
  proof (cases "?l = Written")
    case True
    then show ?thesis by (simp add: ch_contains_key_def ch_get_def lookup_waits [OF assms(2)])
  next
    case False
    then obtain l where l: "acquire_read ?l = Some l" "release l = ?l" using rd by blast
    show ?thesis
      by (rule lookup_cases [where acquire = acquire_read and mk = Ref and h = h, OF assms l]) (simp_all add: ch_contains_key_def ch_get_def False)
  qed
qed

lemma remove_entry_cases:
  assumes laws: "table_laws R ent" and rep: "chm_rep ent m M" and free: "lock_of (shard_of k m) m = Unlocked"
  shows "\<exists>m'. ch_remove_entry R k (m, h) = Some ((Ok (map_option (\<lambda>v. (k, v)) (M k)) :: (unit, _) outcome), (m', h)) \<and>
    chm_rep ent m' (M(k := None)) \<and> same_frame m m'"
proof -
  note i = chm_rep_bound [OF rep, of k]
  have l: "release Written = lock_of (shard_of k m) m" using free by simp
  show ?thesis
  proof (rule rep_search [OF laws rep i])
    fix b v
    assume found: "rt_find R (cm_hash m k) (\<lambda>kv. fst kv = k) (table_of (shard_of k m) m) = Some b"
      "ent (table_of (shard_of k m) m) b = Some (cm_hash m k, k, v)" "M k = Some v"
    let ?t = "rt_remove R b (table_of (shard_of k m) m)"
    have "ent ?t = (ent (table_of (shard_of k m) m))(b := None)"
      by (rule table_remove [OF laws]) (simp add: found)
    then have rep': "chm_rep ent (set_table (shard_of k m) ?t m) (M(k := None))"
      by (rule rep_delete [OF rep found(2) _ i])
    have "ch_remove_entry R k (m, h) = Some (Ok (Some (k, v)), (set_table (shard_of k m) ?t m, h))"
      using found free i unlock_taken [OF i l] table_read [OF laws]
      by (simp add: ch_remove_entry_def Let_def take_lock_cases acquire_write_iff cocc_remove_entry_def
          cocc_get_def released_def)
    then show ?thesis using rep' found same_frame_set_table [OF i free] by auto
  next
    assume "rt_find R (cm_hash m k) (\<lambda>kv. fst kv = k) (table_of (shard_of k m) m) = None" "M k = None"
    then show ?thesis
      using free i unlock_only [OF i l] rep
      by (intro exI [of _ m])
        (simp add: ch_remove_entry_def Let_def take_lock_cases acquire_write_iff released_def fun_upd_idem)
  qed
qed

text \<open>Removing a key waits exactly when the lock of its shard is held; otherwise it returns the
  key's entry, if there was one, and leaves the map without the key.\<close>

lemma chash_remove_spec:
  assumes "table_laws R ent" and "chm_rep ent m M"
  shows "case ch_remove_entry R k (m, h) of
      None \<Rightarrow> lock_of (shard_of k m) m \<noteq> Unlocked
    | Some (r, (m', h')) \<Rightarrow>
        lock_of (shard_of k m) m = Unlocked \<and> r = (Ok (map_option (\<lambda>v. (k, v)) (M k)) :: (unit, _) outcome) \<and>
        chm_rep ent m' (M(k := None)) \<and> same_frame m m' \<and> h' = h"
proof (cases "lock_of (shard_of k m) m = Unlocked")
  case True
  then show ?thesis using remove_entry_cases [OF assms True, of h] by auto
next
  case False
  then show ?thesis using chm_rep_bound [OF assms(2), of k]
    by (simp add: ch_remove_entry_def Let_def take_lock_cases acquire_write_iff)
qed

section \<open>Operations on every shard\<close>

lemma fold_outcome_add:
  "n + sum_list (map g xs) \<le> usize_max \<Longrightarrow> fold_outcome (\<lambda>i a. add_checked msg a (g i)) xs n = Ok (n + sum_list (map g xs))"
  by (induction xs arbitrary: n) (simp_all add: add_checked_def checked_add_def add.assoc)

text \<open>When no shard is locked for writing, \<open>len\<close> returns the number of keys, \<open>is_empty\<close> whether there is none, and \<open>visit_all\<close> runs its closure over every binding of the map exactly once;
  the map and its locks stay as they were.\<close>

lemma chash_visit_spec:
  assumes "table_laws R ent" and "chm_rep ent m M"
    and "\<forall>i < length (cm_shards m). lock_of i m \<noteq> Written" and "card (dom M) \<le> usize_max"
  shows "ch_len R (m, h) = Some ((Ok (card (dom M)) :: (unit, _) outcome), (m, h)) \<and>
    ch_is_empty R (m, h) = Some ((Ok (card (dom M) = 0) :: (unit, _) outcome), (m, h)) \<and>
    (\<exists>kvs. distinct (map fst kvs) \<and> map_of kvs = M \<and>
      ch_visit_all R f a (m, h) = Some ((Ok (fold (\<lambda>kv. f (fst kv) (snd kv)) kvs a) :: (unit, _) outcome), (m, h)))"
proof (intro conjI)
  let ?is = "[0..<length (cm_shards m)]"
  have total: "sum_list (map (\<lambda>i. rt_len R (table_of i m)) ?is) = card (dom M)"
    using all_items_card [OF assms(1,2)] by (simp add: all_items_def length_concat comp_def table_items_len [OF assms(1)])
  have free: "\<forall>i \<in> set ?is. lock_of i m \<noteq> Written" "set ?is \<subseteq> {..<length (cm_shards m)}" using assms(3) by auto
  have "ch_len R (m, h) = Some ((fold_outcome (\<lambda>i a. add_checked ''overflowing on length add is impossible'' a
      (rt_len R (table_of i m))) ?is 0 :: (unit, _) outcome), (m, h))"
    unfolding ch_len_def shard_count_def fst_conv by (rule each_shard_read [OF free(2,1)]) simp
  then show len: "ch_len R (m, h) = Some ((Ok (card (dom M)) :: (unit, _) outcome), (m, h))"
    using assms(4) by (simp add: fold_outcome_add total)
  show "ch_is_empty R (m, h) = Some ((Ok (card (dom M) = 0) :: (unit, _) outcome), (m, h))"
    by (simp add: ch_is_empty_def len)
  have "fold_outcome (\<lambda>i a. Ok (fold (\<lambda>kv. f (fst kv) (snd kv)) (table_items R (table_of i m)) a)) ns b =
      (Ok (fold (\<lambda>kv. f (fst kv) (snd kv)) (concat (map (\<lambda>i. table_items R (table_of i m)) ns)) b) :: (unit, _) outcome)" for ns b
    by (induction ns arbitrary: b) auto
  moreover have "ch_visit_all R f a (m, h) =
      Some ((fold_outcome (\<lambda>i a. Ok (fold (\<lambda>kv. f (fst kv) (snd kv)) (table_items R (table_of i m)) a)) ?is a ::
        (unit, _) outcome), (m, h))"
    unfolding ch_visit_all_def shard_count_def fst_conv by (rule each_shard_read [OF free(2,1)]) simp
  ultimately have "ch_visit_all R f a (m, h) =
      Some ((Ok (fold (\<lambda>kv. f (fst kv) (snd kv)) (all_items R m) a) :: (unit, _) outcome), (m, h))"
    by (simp add: all_items_def)
  then show "\<exists>kvs. distinct (map fst kvs) \<and> map_of kvs = M \<and>
      ch_visit_all R f a (m, h) = Some ((Ok (fold (\<lambda>kv. f (fst kv) (snd kv)) kvs a) :: (unit, _) outcome), (m, h))"
    using all_items_distinct [OF assms(1,2)] all_items_map [OF assms(1,2)] by blast
qed

lemma div_ceil_zero: "0 < b \<Longrightarrow> div_ceil a b = 0 \<longleftrightarrow> a = 0"
  by (cases "a = 0") (auto simp: div_ceil_def div_eq_0_iff)

lemma reserve_keeps:
  assumes "table_laws R ent" and "chm_rep ent m M"
  shows "case ch_try_reserve R n (m, h) of
      None \<Rightarrow> \<exists>i < length (cm_shards m). lock_of i m \<noteq> Unlocked
    | Some (r, (m', h')) \<Rightarrow>
        clean r \<and> chm_rep ent m' M \<and> same_frame m m' \<and>
        (is_ok r \<and> 0 < n \<longrightarrow> (\<forall>i < length (cm_shards m).
          rt_len R (table_of i m') + div_ceil n (length (cm_shards m)) \<le> rt_capacity R (table_of i m')))"
proof -
  let ?is = "[0..<length (cm_shards m)]" and ?n = "div_ceil n (length (cm_shards m))"
  have "0 < length (cm_shards m)" using assms(2) by (auto simp: chm_rep_def geometry_def)
  note zero = div_ceil_zero [OF this]
  have "case each_shard acquire_write (\<lambda>i _. reserve_shard R ?n i) ?is () (m, h) of
      None \<Rightarrow> \<exists>i \<in> set ?is. lock_of i m \<noteq> Unlocked
    | Some (r, (m', h')) \<Rightarrow>
        clean r \<and> chm_rep ent m' M \<and> same_frame m m' \<and>
        (\<forall>j < length (cm_shards m). j \<notin> set ?is \<longrightarrow> table_of j m' = table_of j m) \<and>
        (is_ok r \<longrightarrow> (\<forall>i \<in> set ?is. lock_of i m = Unlocked \<and>
           rt_len R (table_of i m') + ?n \<le> rt_capacity R (table_of i m')))"
    by (rule each_shard_write) (use assms(2) reserve_shard_step [OF assms(1)] in auto)
  then show ?thesis
    using assms(2) zero by (auto simp: ch_try_reserve_def shard_count_def Let_def split: option.splits)
qed

lemma shrink_keeps:
  assumes "table_laws R ent" and "chm_rep ent m M"
  shows "case ch_try_shrink_to_fit R (m, h) of
      None \<Rightarrow> \<exists>i < length (cm_shards m). lock_of i m \<noteq> Unlocked
    | Some (r, (m', h')) \<Rightarrow> clean r \<and> chm_rep ent m' M \<and> same_frame m m'"
proof -
  let ?is = "[0..<length (cm_shards m)]"
  have "case each_shard acquire_write (\<lambda>i _. shrink_shard R i) ?is () (m, h) of
      None \<Rightarrow> \<exists>i \<in> set ?is. lock_of i m \<noteq> Unlocked
    | Some (r, (m', h')) \<Rightarrow>
        clean r \<and> chm_rep ent m' M \<and> same_frame m m' \<and>
        (\<forall>j < length (cm_shards m). j \<notin> set ?is \<longrightarrow> table_of j m' = table_of j m) \<and>
        (is_ok r \<longrightarrow> (\<forall>i \<in> set ?is. lock_of i m = Unlocked \<and> True))"
    by (rule each_shard_write) (use assms(2) shrink_shard_step [OF assms(1)] in auto)
  then show ?thesis by (auto simp: ch_try_shrink_to_fit_def shard_count_def split: option.splits)
qed

text \<open>Claim C16. Reserving and shrinking keep the bindings whichever reservation fails, and wait only for a
  held lock; after a successful reservation every shard has room for its share of the new keys.\<close>

theorem chash_resize_spec:
  assumes "table_laws R ent" and "chm_rep ent m M"
  shows "(case ch_try_reserve R n (m, h) of
        None \<Rightarrow> \<exists>i < length (cm_shards m). lock_of i m \<noteq> Unlocked
      | Some (r, (m', h')) \<Rightarrow>
          clean r \<and> chm_rep ent m' M \<and> same_frame m m' \<and>
          (is_ok r \<and> 0 < n \<longrightarrow> (\<forall>i < length (cm_shards m).
            rt_len R (table_of i m') + div_ceil n (length (cm_shards m)) \<le> rt_capacity R (table_of i m')))) \<and>
    (case ch_try_shrink_to_fit R (m, h) of
        None \<Rightarrow> \<exists>i < length (cm_shards m). lock_of i m \<noteq> Unlocked
      | Some (r, (m', h')) \<Rightarrow> clean r \<and> chm_rep ent m' M \<and> same_frame m m')"
  using reserve_keeps [OF assms, of n h] shrink_keeps [OF assms, of h] by (rule conjI)

theorem chash_resize_spec_witness:
  "\<exists>m' h'. ch_try_reserve slot_ops 3 (ch_example, heap_with policy_nothing) = Some (Ok (), (m', h')) \<and>
    chm_rep slot_entries m' [1 \<mapsto> 7] \<and> rt_len slot_ops (table_of 1 m') + 2 \<le> rt_capacity slot_ops (table_of 1 m')"
proof -
  let ?s = "(ch_example, heap_with policy_nothing)"
  have "map_option fst (ch_try_reserve slot_ops 3 ?s) = Some (Ok ())" by code_simp
  then obtain m' h' where run: "ch_try_reserve slot_ops 3 ?s = Some (Ok (), (m', h'))" by auto
  moreover have "length (cm_shards ch_example) = 2" by (simp add: ch_example_def)
  moreover have "div_ceil 3 2 = 2" by code_simp
  ultimately show ?thesis
    using chash_resize_spec [OF slot_table_laws ch_example_rep, of 3 "heap_with policy_nothing"] by simp
qed

end
