(* ===== verification/CHashGuards.thy ===== *)
theory CHashGuards
  imports CHashProps
begin

text \<open>
  Threads share the map through guards. A state is the map, the heap and the guards that are alive in
  any thread; a step is one call that returns, or the drop, the downgrade or a write through a guard.
  In every reachable state a guard points to a live entry of the map, a mutable guard is alone on its
  shard, and the map still represents a finite map.
\<close>

type_synonym ('k, 't) gstate = "('k, 't) chashmap \<times> heap \<times> guard list"

inductive ch_step :: "('t, 'k \<times> 'v) raw_ops \<Rightarrow> ('k, 't) gstate \<Rightarrow> ('k, 't) gstate \<Rightarrow> bool" for R where
  step_insert: "ch_try_insert_give_back R k v (m, h) = Some (r, (m', h')) \<Longrightarrow> ch_step R (m, h, gs) (m', h', gs)"
| step_insert_unique: "ch_try_insert_unique R k v (m, h) = Some (r, (m', h')) \<Longrightarrow> ch_step R (m, h, gs) (m', h', gs)"
| step_remove: "ch_remove_entry R k (m, h) = Some ((r :: (unit, _) outcome), (m', h')) \<Longrightarrow> ch_step R (m, h, gs) (m', h', gs)"
| step_reserve: "ch_try_reserve R n (m, h) = Some (r, (m', h')) \<Longrightarrow> ch_step R (m, h, gs) (m', h', gs)"
| step_shrink: "ch_try_shrink_to_fit R (m, h) = Some (r, (m', h')) \<Longrightarrow> ch_step R (m, h, gs) (m', h', gs)"
| step_get: "ch_get R k (m, h) = Some ((Ok g :: (unit, _) outcome), (m', h')) \<Longrightarrow>
    ch_step R (m, h, gs) (m', h', (case g of Some g \<Rightarrow> g # gs | None \<Rightarrow> gs))"
| step_get_mut: "ch_get_mut R k (m, h) = Some ((Ok g :: (unit, _) outcome), (m', h')) \<Longrightarrow>
    ch_step R (m, h, gs) (m', h', (case g of Some g \<Rightarrow> g # gs | None \<Rightarrow> gs))"
| step_write: "RefMut i b \<in> set gs \<Longrightarrow> guard_write R (RefMut i b) v (m, h) = ((r :: (unit, _) outcome), (m', h')) \<Longrightarrow>
    ch_step R (m, h, gs) (m', h', gs)"
| step_drop: "g \<in> set gs \<Longrightarrow> drop_guard g (m, h) = (m', h') \<Longrightarrow> ch_step R (m, h, gs) (m', h', remove1 g gs)"
| step_downgrade: "RefMut i b \<in> set gs \<Longrightarrow> guard_downgrade (RefMut i b) (m, h) = (g, (m', h')) \<Longrightarrow>
    ch_step R (m, h, gs) (m', h', g # remove1 (RefMut i b) gs)"

section \<open>The invariant\<close>

definition guards_at :: "nat \<Rightarrow> guard list \<Rightarrow> guard list" where
  "guards_at i gs = filter (\<lambda>g. g_shard g = i) gs"

fun lock_fits :: "nat \<Rightarrow> lock \<Rightarrow> guard list \<Rightarrow> bool" where
  "lock_fits i Unlocked gs = (gs = [])"
| "lock_fits i (ReadBy n) gs = (length gs = Suc n \<and> (\<forall>g \<in> set gs. is_Ref g))"
| "lock_fits i Written gs = (\<exists>b. gs = [RefMut i b])"

definition guards_ok :: "('t \<Rightarrow> 'e stored) \<Rightarrow> ('k, 't) chashmap \<Rightarrow> guard list \<Rightarrow> bool" where
  "guards_ok ent m gs \<longleftrightarrow>
     (\<forall>i < length (cm_shards m). lock_fits i (lock_of i m) (guards_at i gs)) \<and>
     (\<forall>g \<in> set gs. g_shard g < length (cm_shards m) \<and> ent (table_of (g_shard g) m) (g_bucket g) \<noteq> None)"

lemma guards_at_mem [simp]: "g \<in> set (guards_at i gs) \<longleftrightarrow> g \<in> set gs \<and> g_shard g = i"
  by (auto simp: guards_at_def)

lemma guards_at_Cons [simp]: "guards_at i (g # gs) = (if g_shard g = i then g # guards_at i gs else guards_at i gs)"
  by (simp add: guards_at_def)

lemma guards_at_remove [simp]:
  "guards_at i (remove1 g gs) = (if g_shard g = i then remove1 g (guards_at i gs) else guards_at i gs)"
  by (induction gs) (auto simp: guards_at_def remove1_filter_not)

lemma guards_okD:
  assumes "guards_ok ent m gs" and "g \<in> set gs"
  shows "g_shard g < length (cm_shards m)" "ent (table_of (g_shard g) m) (g_bucket g) \<noteq> None"
    "lock_fits (g_shard g) (lock_of (g_shard g) m) (guards_at (g_shard g) gs)"
  using assms by (auto simp: guards_ok_def)

lemma guard_locked:
  assumes "guards_ok ent m gs" and "g \<in> set gs"
  shows "lock_of (g_shard g) m \<noteq> Unlocked"
proof
  assume "lock_of (g_shard g) m = Unlocked"
  then have "guards_at (g_shard g) gs = []" using guards_okD(3) [OF assms] by simp
  moreover have "g \<in> set (guards_at (g_shard g) gs)" using assms(2) by simp
  ultimately show False by (metis empty_iff empty_set)
qed

lemma guard_exclusive:
  assumes "guards_ok ent m gs" and "RefMut i b \<in> set gs"
  shows "i < length (cm_shards m)" "lock_of i m = Written" "guards_at i gs = [RefMut i b]"
proof -
  note g = guards_okD [OF assms]
  show "i < length (cm_shards m)" using g(1) by simp
  have mem: "RefMut i b \<in> set (guards_at i gs)" using assms(2) by simp
  have "lock_fits i (lock_of i m) (guards_at i gs)" using g(3) by simp
  then have "lock_of i m = Written \<and> guards_at i gs = [RefMut i b]"
    using mem by (cases "lock_of i m") (auto simp del: guards_at_mem)
  then show "lock_of i m = Written" "guards_at i gs = [RefMut i b]" by simp_all
qed

lemma guards_ok_frame:
  assumes frame: "same_frame m m'" and ok: "guards_ok ent m gs"
  shows "guards_ok ent m' gs"
  using ok guard_locked [OF ok] frame same_frame_shards [OF frame] same_frame_lock [OF frame]
  by (auto simp: guards_ok_def same_frame_def)

text \<open>Only the lock of one shard and the guards on it change.\<close>

lemma guards_ok_lock:
  assumes ok: "guards_ok ent m gs" and i: "i < length (cm_shards m)"
    and fits: "lock_fits i l (guards_at i gs')"
    and others: "\<And>j. j \<noteq> i \<Longrightarrow> guards_at j gs' = guards_at j gs"
    and live: "\<And>g. g \<in> set gs' \<Longrightarrow> g_shard g < length (cm_shards m) \<and> ent (table_of (g_shard g) m) (g_bucket g) \<noteq> None"
  shows "guards_ok ent (set_lock i l m) gs'"
proof -
  have "lock_of j (set_lock i l m) = lock_of j m" if "j \<noteq> i" for j
    using that by (simp add: lock_of_def set_lock_def)
  then show ?thesis using ok fits others live i by (auto simp: guards_ok_def) (metis lock_of_set(1))
qed

section \<open>Steps keep the invariant\<close>

lemma fits_acquire:
  "acquire_read l = Some l' \<Longrightarrow> lock_fits i l gs \<Longrightarrow> lock_fits i l' (Ref i b # gs)"
  "acquire_write l = Some l' \<Longrightarrow> lock_fits i l gs \<Longrightarrow> lock_fits i l' (RefMut i b # gs)"
  by (cases l; auto)+

lemma fits_release: "g \<in> set gs \<Longrightarrow> lock_fits i l gs \<Longrightarrow> lock_fits i (release l) (remove1 g gs)"
proof (cases l)
  case (ReadBy n)
  assume g: "g \<in> set gs" "lock_fits i l gs"
  then have len: "length (remove1 g gs) = n" "\<forall>x \<in> set (remove1 g gs). is_Ref x"
    using ReadBy by (auto simp: length_remove1 dest: notin_set_remove1)
  then show ?thesis using ReadBy by (cases n) auto
qed auto

lemma guards_ok_acquired:
  assumes ok: "guards_ok ent m gs" and g: "g_shard g < length (cm_shards m)"
    and "ent (table_of (g_shard g) m) (g_bucket g) \<noteq> None"
    and "lock_fits (g_shard g) l (g # guards_at (g_shard g) gs)"
  shows "guards_ok ent (set_lock (g_shard g) l m) (g # gs)"
  by (rule guards_ok_lock [OF ok g]) (use assms guards_okD [OF ok] in auto)

lemma guards_ok_dropped:
  assumes ok: "guards_ok ent m gs" and g: "g \<in> set gs"
  shows "guards_ok ent (fst (drop_guard g (m, h))) (remove1 g gs)"
proof -
  have "guards_ok ent (set_lock (g_shard g) (release (lock_of (g_shard g) m)) m) (remove1 g gs)"
  proof (rule guards_ok_lock [OF ok guards_okD(1) [OF ok g]])
    show "lock_fits (g_shard g) (release (lock_of (g_shard g) m)) (guards_at (g_shard g) (remove1 g gs))"
      using fits_release [OF _ guards_okD(3) [OF ok g]] g by simp
    show "g_shard g' < length (cm_shards m) \<and> ent (table_of (g_shard g') m) (g_bucket g') \<noteq> None"
      if "g' \<in> set (remove1 g gs)" for g'
      using guards_okD(1,2) [OF ok] that set_remove1_subset [of g gs] by blast
  qed simp
  then show ?thesis by (simp add: drop_guard_def unlock_def)
qed

lemma guards_ok_downgraded:
  assumes ok: "guards_ok ent m gs" and g: "RefMut i b \<in> set gs"
  shows "guards_ok ent (set_lock i (ReadBy 0) m) (Ref i b # remove1 (RefMut i b) gs)"
proof (rule guards_ok_lock [OF ok guard_exclusive(1) [OF ok g]])
  show "lock_fits i (ReadBy 0) (guards_at i (Ref i b # remove1 (RefMut i b) gs))"
    using guard_exclusive(3) [OF ok g] by simp
  show "g_shard g' < length (cm_shards m) \<and> ent (table_of (g_shard g') m) (g_bucket g') \<noteq> None"
    if "g' \<in> set (Ref i b # remove1 (RefMut i b) gs)" for g'
    using guards_okD(1,2) [OF ok g] guards_okD(1,2) [OF ok] that set_remove1_subset [of "RefMut i b" gs] by fastforce
qed simp

text \<open>A write through a mutable guard replaces the value of its key.\<close>

lemma guard_write_spec:
  assumes laws: "table_laws R ent" and rep: "chm_rep ent m M" and ok: "guards_ok ent m gs" and g: "RefMut i b \<in> set gs"
  shows "\<exists>k w t. guard_write R (RefMut i b) v (m, h) = ((Ok () :: (unit, _) outcome), (set_table i t m, h)) \<and>
    M k = Some w \<and> chm_rep ent (set_table i t m) (M(k \<mapsto> v)) \<and> guards_ok ent (set_table i t m) gs"
proof -
  have i: "i < length (cm_shards m)" by (rule guard_exclusive(1) [OF ok g])
  obtain hk k w where at: "ent (table_of i m) b = Some (hk, (k, w))"
    using guards_okD(2) [OF ok g] by auto
  have "hk = cm_hash m k \<and> (if shard_of k m = i then M k else None) = Some w"
    by (rule holds_entry [OF chm_rep_shard [OF rep i] at])
  then have k: "hk = cm_hash m k" "shard_of k m = i" "M k = Some w" by (auto split: if_splits)
  let ?t = "rt_write R b (k, v) (table_of i m)"
  have t: "ent ?t = (ent (table_of i m))(b \<mapsto> (hk, (k, v)))" by (rule table_write [OF laws at])
  have "chm_rep ent (set_table (shard_of k m) ?t m) (M(k \<mapsto> v))"
    by (rule rep_put [where t = "table_of i m" and b = b]) (use rep i t at k in simp_all)
  moreover have "guards_ok ent (set_table i ?t m) gs" using ok t by (auto simp: guards_ok_def)
  ultimately show ?thesis using k table_read [OF laws] at
    by (intro exI [of _ k] exI [of _ w] exI [of _ ?t]) (simp add: guard_write_def guard_pair_def)
qed

lemma get_keeps:
  assumes laws: "table_laws R ent" and rep: "chm_rep ent m M" and ok: "guards_ok ent m gs"
    and acq: "\<And>l l'. acquire l = Some l' \<Longrightarrow> release l' = l"
    and fits: "\<And>i l l' gs b. acquire l = Some l' \<Longrightarrow> lock_fits i l gs \<Longrightarrow> lock_fits i l' (mk i b # gs)"
    and mk: "\<And>i b. g_shard (mk i b) = i \<and> g_bucket (mk i b) = b"
    and run: "lookup_with acquire mk R k (m, h) = Some ((Ok g :: (unit, _) outcome), (m', h'))"
  shows "chm_rep ent m' M \<and> guards_ok ent m' (case g of Some g \<Rightarrow> g # gs | None \<Rightarrow> gs)"
proof (cases "acquire (lock_of (shard_of k m) m)")
  case None
  then show ?thesis using run by (simp add: lookup_waits [OF rep])
next
  case (Some l)
  note i = chm_rep_bound [OF rep, of k]
  show ?thesis
  proof (rule lookup_cases [where acquire = acquire and mk = mk and h = h and k = k, OF laws rep Some acq [OF Some] mk])
    fix b v
    assume *: "lookup_with acquire mk R k (m, h) =
        Some ((Ok (Some (mk (shard_of k m) b)) :: (unit, _) outcome), set_lock (shard_of k m) l m, h)"
      "ent (table_of (shard_of k m) m) b = Some (cm_hash m k, k, v)"
    have "guards_ok ent (set_lock (g_shard (mk (shard_of k m) b)) l m) (mk (shard_of k m) b # gs)"
      by (rule guards_ok_acquired [OF ok]) (use i mk * fits [OF Some] ok in \<open>simp_all add: guards_ok_def\<close>)
    then show ?thesis using run * rep mk by auto
  next
    assume "lookup_with acquire mk R k (m, h) = Some ((Ok None :: (unit, _) outcome), m, h)"
    then show ?thesis using run rep ok by auto
  qed
qed

lemma insert_keeps:
  assumes "table_laws R ent" and "chm_rep ent m M" and "ch_try_insert_give_back R k v (m, h) = Some (r, (m', h'))"
  shows "(\<exists>M'. chm_rep ent m' M') \<and> same_frame m m'"
proof (cases "lock_of (shard_of k m) m = Unlocked")
  case False
  then show ?thesis using assms(3)
    by (simp add: ch_try_insert_give_back_def try_entry_give_back_def do_entry_waits [OF chm_rep_bound [OF assms(2)]])
next
  case True
  show ?thesis
    by (rule entry_placed_cases [OF assms(1,2) True, of h])
      (use assms(2,3) in \<open>auto simp: ch_try_insert_give_back_def try_entry_give_back_def\<close>)
qed

lemma insert_unique_keeps:
  assumes "table_laws R ent" and "chm_rep ent m M" and "ch_try_insert_unique R k v (m, h) = Some (r, (m', h'))"
  shows "(\<exists>M'. chm_rep ent m' M') \<and> same_frame m m'"
proof (cases "lock_of (shard_of k m) m = Unlocked")
  case False
  then show ?thesis using assms(3)
    by (simp add: ch_try_insert_unique_def try_entry_give_back_def do_entry_waits [OF chm_rep_bound [OF assms(2)]])
next
  case True
  show ?thesis
    by (rule insert_unique_cases [OF assms(1,2) True, of v h]) (use assms(2,3) in auto)
qed

lemma remove_keeps:
  assumes "table_laws R ent" and "chm_rep ent m M"
    and "ch_remove_entry R k (m, h) = Some ((r :: (unit, _) outcome), (m', h'))"
  shows "(\<exists>M'. chm_rep ent m' M') \<and> same_frame m m'"
proof (cases "lock_of (shard_of k m) m = Unlocked")
  case True
  then show ?thesis using remove_entry_cases [OF assms(1,2) True, of h] assms(3) by auto
next
  case False
  then show ?thesis using chm_rep_bound [OF assms(2), of k] assms(3)
    by (simp add: ch_remove_entry_def Let_def take_lock_cases acquire_write_iff)
qed

lemma ch_step_inv:
  assumes step: "ch_step R (m, h, gs) (m', h', gs')" and laws: "table_laws R ent"
    and rep: "chm_rep ent m M" and ok: "guards_ok ent m gs"
  shows "\<exists>M'. chm_rep ent m' M' \<and> guards_ok ent m' gs'"
proof -
  note moved = guards_ok_frame [OF _ ok]
  show ?thesis
    using step
  proof cases
    case (step_insert k v r)
    then show ?thesis using insert_keeps [OF laws rep, of k v h] moved by auto
  next
    case (step_insert_unique k v r)
    then show ?thesis using insert_unique_keeps [OF laws rep, of k v h] moved by auto
  next
    case (step_remove k r)
    then show ?thesis using remove_keeps [OF laws rep, of k h] moved by auto
  next
    case (step_reserve n r)
    then show ?thesis using reserve_keeps [OF laws rep, of n h] moved by auto
  next
    case (step_shrink r)
    then show ?thesis using shrink_keeps [OF laws rep, of h] moved by auto
  next
    case (step_get k g)
    have "chm_rep ent m' M \<and> guards_ok ent m' (case g of Some g \<Rightarrow> g # gs | None \<Rightarrow> gs)"
      by (rule get_keeps [where acquire = acquire_read and mk = Ref and k = k, OF laws rep ok])
        (use step_get(2) in \<open>simp_all add: ch_get_def release_read fits_acquire(1)\<close>)
    then show ?thesis using step_get(1) by auto
  next
    case (step_get_mut k g)
    have "chm_rep ent m' M \<and> guards_ok ent m' (case g of Some g \<Rightarrow> g # gs | None \<Rightarrow> gs)"
      by (rule get_keeps [where acquire = acquire_write and mk = RefMut and k = k, OF laws rep ok])
        (use step_get_mut(2) in \<open>simp_all add: ch_get_mut_def release_write fits_acquire(2)\<close>)
    then show ?thesis using step_get_mut(1) by auto
  next
    case (step_write i b v r)
    then show ?thesis using guard_write_spec [OF laws rep ok, of i b v h] by auto
  next
    case (step_drop g)
    then show ?thesis using guards_ok_dropped [OF ok, of g h] rep
      by (auto simp: drop_guard_def unlock_def)
  next
    case (step_downgrade i b g)
    then show ?thesis using guards_ok_downgraded [OF ok, of i b] rep
      by (auto simp: guard_downgrade_def)
  qed
qed

text \<open>Claim C2. Whatever the threads do, from a map with no lock held: the map represents a finite map,
  every guard that is alive points to an entry of it, and a mutable guard is the only guard on its shard.\<close>

theorem chash_guards_safe:
  assumes "(ch_step R)\<^sup>*\<^sup>* (m, h, []) (m', h', gs)" and "table_laws R ent" and "chm_rep ent m M"
    and "\<forall>i < length (cm_shards m). lock_of i m = Unlocked"
  shows "\<exists>M'. chm_rep ent m' M' \<and>
    (\<forall>g \<in> set gs. \<exists>k v. guard_pair R g m' = (Ok (k, v) :: (unit, _) outcome) \<and> M' k = Some v) \<and>
    (\<forall>i b. RefMut i b \<in> set gs \<longrightarrow> filter (\<lambda>g. g_shard g = i) gs = [RefMut i b])"
proof -
  have start: "guards_ok ent m []" using assms(4) by (simp add: guards_ok_def guards_at_def)
  have "\<exists>M'. chm_rep ent (fst s) M' \<and> guards_ok ent (fst s) (snd (snd s))"
    if "(ch_step R)\<^sup>*\<^sup>* (m, h, []) s" for s
    using that
  proof (induction rule: rtranclp_induct)
    case base
    then show ?case using assms(3) start by auto
  next
    case (step s s')
    obtain m1 h1 g1 m2 h2 g2 where "s = (m1, h1, g1)" "s' = (m2, h2, g2)" by (metis surj_pair)
    then show ?case using step ch_step_inv [OF _ assms(2)] by fastforce
  qed
  from this [OF assms(1)] obtain M' where rep: "chm_rep ent m' M'" and ok: "guards_ok ent m' gs" by auto
  have "\<exists>k v. guard_pair R g m' = (Ok (k, v) :: (unit, _) outcome) \<and> M' k = Some v" if g: "g \<in> set gs" for g
  proof -
    obtain hk k v where at: "ent (table_of (g_shard g) m') (g_bucket g) = Some (hk, (k, v))"
      using guards_okD(2) [OF ok g] by auto
    have "M' k = Some v"
      using holds_entry [OF chm_rep_shard [OF rep guards_okD(1) [OF ok g]] at] by (auto split: if_splits)
    then show ?thesis using at table_read [OF assms(2)] by (simp add: guard_pair_def)
  qed
  then show ?thesis using rep guard_exclusive(3) [OF ok] by (auto simp: guards_at_def)
qed

theorem chash_guards_safe_witness:
  "\<exists>m' h'. (ch_step slot_ops)\<^sup>*\<^sup>* (ch_example, heap_with policy_nothing, []) (m', h', [RefMut 1 0]) \<and>
    (\<exists>k v. guard_pair slot_ops (RefMut 1 0) m' = (Ok (k, v) :: (unit, int \<times> nat) outcome))"
proof -
  let ?r = "ch_get_mut slot_ops 1 (ch_example, heap_with policy_nothing) :: (_, unit, _) run option"
  have "map_option fst ?r = Some (Ok (Some (RefMut 1 0)))" by code_simp
  then obtain m' h' where run: "?r = Some (Ok (Some (RefMut 1 0)), (m', h'))" by auto
  have steps: "(ch_step slot_ops)\<^sup>*\<^sup>* (ch_example, heap_with policy_nothing, []) (m', h', [RefMut 1 0])"
    using step_get_mut [OF run, of "[]"] by (simp add: r_into_rtranclp)
  then show ?thesis
    using chash_guards_safe [OF steps slot_table_laws ch_example_rep ch_example_free] by auto
qed

end
