(* ===== verification/CHashNew.thy ===== *)
theory CHashNew
  imports CHashGuards
begin

text \<open>
  Construction of a concurrent hash map: which shard counts are accepted, and what a new map is.
\<close>

lemma trailing_zeros_power [simp]: "trailing_zeros (2 ^ k) = k"
  by (induction k) (simp_all add: trailing_zeros.simps)

lemma is_power_of_two_iff: "is_power_of_two n \<longleftrightarrow> (\<exists>k. n = 2 ^ k)"
  unfolding is_power_of_two_def by (metis trailing_zeros_power)

lemma accepted_count:
  assumes "2 \<le> n" and "is_power_of_two n" and "n \<le> usize_max"
  obtains k where "1 \<le> k" and "k \<le> 63" and "n = 2 ^ k"
proof -
  obtain k where k: "n = 2 ^ k" using assms(2) is_power_of_two_iff by blast
  have "1 \<le> k" using assms(1) k by (cases k) auto
  moreover have "(2 :: nat) ^ k < 2 ^ 64" using assms(3) k by (simp add: usize_max_def)
  then have "k < 64" by (rule power_less_imp_less_exp [rotated]) simp
  ultimately show thesis using that k by simp
qed

lemma new_map_rep:
  fixes hasher :: "'k \<Rightarrow> u64" and R :: "('t, 'k \<times> 'v) raw_ops"
  assumes laws: "table_laws R ent" and k: "1 \<le> k" "k \<le> 63"
  defines "m \<equiv> \<lparr>cm_shards = replicate (2 ^ k) (shard_new R), cm_hash = hasher, cm_shift = 64 - k\<rparr>"
  shows "chm_rep ent m Map.empty" and "\<forall>i < length (cm_shards m). lock_of i m = Unlocked"
  using k holds_new [OF laws, of hasher]
  by (auto simp: chm_rep_def geometry_def m_def table_of_def lock_of_def shard_new_def)

text \<open>Construction accepts exactly the shard counts that are powers of two from 2 on, and never
  waits or panics. A constructed map is empty, has the shards asked for with every lock free and the given
  hasher, and the shard index of any key is within its array of shards.\<close>

lemma chash_new_spec:
  assumes "table_laws R ent" and "count \<le> usize_max"
  shows "case fst (try_with_capacity_and_hasher_and_shards R shard_l capacity hasher count h) of
      Some (Ok m) \<Rightarrow>
        2 \<le> count \<and> (\<exists>k. count = 2 ^ k) \<and> chm_rep ent m Map.empty \<and> cm_hash m = hasher \<and>
        length (cm_shards m) = count \<and> (\<forall>i < count. lock_of i m = Unlocked) \<and> (\<forall>key. shard_of key m < count)
    | Some (Err WithHasherInvalidShards) \<Rightarrow> count < 2 \<or> (\<forall>k. count \<noteq> 2 ^ k)
    | Some (Err (WithHasherReserve e)) \<Rightarrow> 2 \<le> count \<and> (\<exists>k. count = 2 ^ k)
    | _ \<Rightarrow> False"
proof (cases "count < 2 \<or> \<not> is_power_of_two count")
  case True
  then show ?thesis using is_power_of_two_iff
    by (auto simp: try_with_capacity_and_hasher_and_shards_def)
next
  case False
  then obtain k where k: "1 \<le> k" "k \<le> 63" "count = 2 ^ k"
    using accepted_count [OF _ _ assms(2)] by (auto simp: not_less)
  let ?m = "\<lparr>cm_shards = replicate (2 ^ k) (shard_new R), cm_hash = hasher, cm_shift = 64 - k\<rparr>"
  have rep: "chm_rep ent ?m Map.empty" and free: "\<forall>i < length (cm_shards ?m). lock_of i ?m = Unlocked"
    using new_map_rep [OF assms(1) k(1,2)] by blast+
  have two: "2 \<le> count" "\<exists>j. count = 2 ^ j" using False k by (auto simp: not_less)
  have made: "2 \<le> count \<and> (\<exists>j. count = 2 ^ j) \<and> chm_rep ent m Map.empty \<and> cm_hash m = hasher \<and>
      length (cm_shards m) = count \<and> (\<forall>i < count. lock_of i m = Unlocked) \<and> (\<forall>key. shard_of key m < count)"
    if rep': "chm_rep ent m Map.empty" and frame: "same_frame ?m m" for m
  proof -
    have len: "length (cm_shards m) = count" using same_frame_shards [OF frame] k by simp
    moreover have "\<forall>i < count. lock_of i m = Unlocked" using free same_frame_lock [OF frame] k by simp
    moreover have "\<forall>key. shard_of key m < count" using chm_rep_bound [OF rep'] len by metis
    ultimately show ?thesis using two rep' frame by (simp add: same_frame_def)
  qed
  obtain ok h1 where g: "galloc h = (ok, h1)" by (cases "galloc h")
  have reserve: "case ch_try_reserve R capacity (?m, h1) of
      None \<Rightarrow> False
    | Some (r, (m', h')) \<Rightarrow> clean r \<and> chm_rep ent m' Map.empty \<and> same_frame ?m m'"
    using reserve_keeps [OF assms(1) rep, of capacity h1] free by (auto split: option.splits)
  show ?thesis
  proof (cases "ch_try_reserve R capacity (?m, h1)")
    case None
    then show ?thesis using reserve by simp
  next
    case (Some res)
    obtain r m' h' where res: "res = (r, (m', h'))" by (metis surj_pair)
    then have "clean r" and m': "chm_rep ent m' Map.empty" "same_frame ?m m'" using reserve Some by auto
    then show ?thesis
      using False two k g Some res made [OF m'] made [OF rep]
      by (cases r rule: clean_cases; cases ok)
        (auto simp: try_with_capacity_and_hasher_and_shards_def Let_def)
  qed
qed

end
