(* ===== verification/Counted.thy ===== *)
theory Counted
  imports TryClone
begin

text \<open>
  Reference counting: \<^verbatim>\<open>alloc/arc/arc_.rs\<close> and \<^verbatim>\<open>alloc/rc/rc_.rs\<close>. The two files are
  the same operations on the same block (\<open>ArcInner\<close>, \<open>RcInner\<close>: two counters and the data) and differ
  in how a counter is bumped, so the operations are written once over the bump and named twice. Blocks
  live in a store; a strong handle is an address, a weak one an address or the dangling sentinel. The
  drops, \<open>try_unwrap\<close> and \<open>get_mut\<close> are those of the standard library.
\<close>

section \<open>Blocks and handles\<close>

text \<open>\<open>counted\<close> is the block; its data is absent before initialisation and after it was dropped.\<close>

record 'a counted =
  strong_count :: nat
  weak_count :: nat
  c_data :: "'a option"

record 'a cstore =
  cells :: "nat \<Rightarrow> 'a counted option"
  next_cell :: nat

type_synonym 'a counted_state = "'a cstore \<times> heap"

datatype weak = Dangling | WeakTo nat

definition max_refcount :: nat where
  "max_refcount = isize_max"

text \<open>The compare-and-swap loops of \<open>Arc\<close>, with the closures of \<open>fetch_update\<close>.\<close>

definition arc_bump :: "nat \<Rightarrow> nat option" where
  "arc_bump cur = (case checked_add cur 1 of Some n \<Rightarrow> (if n < max_refcount then Some n else None) | None \<Rightarrow> None)"

definition arc_upgrade_bump :: "nat \<Rightarrow> nat option" where
  "arc_upgrade_bump cur = (if cur = 0 then None else if max_refcount \<le> cur then None else checked_add cur 1)"

text \<open>The plain counters of \<open>Rc\<close>.\<close>

definition rc_bump :: "nat \<Rightarrow> nat option" where
  "rc_bump cur = (if max_refcount \<le> cur then None else checked_add cur 1)"

definition put_cell :: "nat \<Rightarrow> 'a counted \<Rightarrow> 'a cstore \<Rightarrow> 'a cstore" where
  "put_cell a c st = st\<lparr>cells := (cells st)(a \<mapsto> c)\<rparr>"

definition free_cell :: "nat \<Rightarrow> 'a cstore \<Rightarrow> 'a cstore" where
  "free_cell a st = st\<lparr>cells := (cells st)(a := None)\<rparr>"

section \<open>Construction\<close>

definition new_cell :: "'a option \<Rightarrow> 'a cstore \<Rightarrow> nat \<times> 'a cstore" where
  "new_cell x st =
     (let a = next_cell st
      in (a, st\<lparr>cells := (cells st)(a \<mapsto> \<lparr>strong_count = 1, weak_count = 1, c_data = x\<rparr>), next_cell := Suc a\<rparr>))"

definition counted_try_new_uninit :: "layout \<Rightarrow> 'a counted_state \<Rightarrow> ('a counted_state, alloc_error, nat) run" where
  "counted_try_new_uninit l s =
     (case s of (st, h) \<Rightarrow>
        case alloc_box_uninit l h of
          (r, h') \<Rightarrow> and_then (r, (st, h')) (\<lambda>_ (st, h). case new_cell None st of (a, st') \<Rightarrow> (Ok a, (st', h))))"

definition counted_try_new_zeroed :: "layout \<Rightarrow> 'a \<Rightarrow> 'a counted_state \<Rightarrow> ('a counted_state, alloc_error, nat) run" where
  "counted_try_new_zeroed l zeros s =
     (case s of (st, h) \<Rightarrow>
        case alloc_box_zeroed l h of
          (r, h') \<Rightarrow> and_then (r, (st, h')) (\<lambda>_ (st, h). case new_cell (Some zeros) st of (a, st') \<Rightarrow> (Ok a, (st', h))))"

definition counted_try_new :: "layout \<Rightarrow> 'a \<Rightarrow> 'a counted_state \<Rightarrow> ('a counted_state, alloc_error, nat) run" where
  "counted_try_new l x s =
     (case s of (st, h) \<Rightarrow>
        case alloc_box_uninit l h of
          (r, h') \<Rightarrow> and_then (r, (st, h')) (\<lambda>_ (st, h). case new_cell (Some x) st of (a, st') \<Rightarrow> (Ok a, (st', h))))"

definition counted_try_new_give_back ::
    "layout \<Rightarrow> 'a \<Rightarrow> 'a counted_state \<Rightarrow> ('a counted_state, 'a \<times> alloc_error, nat) run" where
  "counted_try_new_give_back l x s =
     (case s of (st, h) \<Rightarrow>
        case alloc_box_uninit l h of
          (Ok _, h') \<Rightarrow> (case new_cell (Some x) st of (a, st') \<Rightarrow> (Ok a, (st', h')))
        | (Err e, h') \<Rightarrow> (Err (x, e), (st, h'))
        | (Panic msg, h') \<Rightarrow> (Panic msg, (st, h'))
        | (UB, h') \<Rightarrow> (UB, (st, h')))"

section \<open>Counting\<close>

text \<open>Reading a block that is gone is undefined behaviour.\<close>

definition with_cell :: "nat \<Rightarrow> 'a counted_state \<Rightarrow> ('a counted \<Rightarrow> ('a counted_state, 'e, 'b) run) \<Rightarrow> ('a counted_state, 'e, 'b) run" where
  "with_cell a s f = (case cells (fst s) a of Some c \<Rightarrow> f c | None \<Rightarrow> (UB, s))"

definition strong_try_clone ::
    "(nat \<Rightarrow> nat option) \<Rightarrow> string \<Rightarrow> nat \<Rightarrow> 'a counted_state \<Rightarrow> ('a counted_state, try_clone_error, nat) run" where
  "strong_try_clone bump msg a s =
     with_cell a s (\<lambda>c.
       case bump (strong_count c) of
         Some n \<Rightarrow> (Ok a, (put_cell a (c\<lparr>strong_count := n\<rparr>) (fst s), snd s))
       | None \<Rightarrow> (Err (CloneOther msg), s))"

definition weak_try_clone ::
    "(nat \<Rightarrow> nat option) \<Rightarrow> string \<Rightarrow> weak \<Rightarrow> 'a counted_state \<Rightarrow> ('a counted_state, try_clone_error, weak) run" where
  "weak_try_clone bump msg w s =
     (case w of
        Dangling \<Rightarrow> (Ok Dangling, s)
      | WeakTo a \<Rightarrow>
          with_cell a s (\<lambda>c.
            case bump (weak_count c) of
              Some n \<Rightarrow> (Ok (WeakTo a), (put_cell a (c\<lparr>weak_count := n\<rparr>) (fst s), snd s))
            | None \<Rightarrow> (Err (CloneOther msg), s)))"

datatype downgrade_error = TryDowngradeError
datatype upgrade_error = TryUpgradeError

definition counted_try_downgrade ::
    "(nat \<Rightarrow> nat option) \<Rightarrow> nat \<Rightarrow> 'a counted_state \<Rightarrow> ('a counted_state, downgrade_error, weak) run" where
  "counted_try_downgrade bump a s =
     with_cell a s (\<lambda>c.
       case bump (weak_count c) of
         Some n \<Rightarrow> (Ok (WeakTo a), (put_cell a (c\<lparr>weak_count := n\<rparr>) (fst s), snd s))
       | None \<Rightarrow> (Err TryDowngradeError, s))"

definition counted_try_upgrade ::
    "(nat \<Rightarrow> nat option) \<Rightarrow> weak \<Rightarrow> 'a counted_state \<Rightarrow> ('a counted_state, upgrade_error, nat option) run" where
  "counted_try_upgrade bump w s =
     (case w of
        Dangling \<Rightarrow> (Ok None, s)
      | WeakTo a \<Rightarrow>
          with_cell a s (\<lambda>c.
            case bump (strong_count c) of
              Some n \<Rightarrow> (Ok (Some a), (put_cell a (c\<lparr>strong_count := n\<rparr>) (fst s), snd s))
            | None \<Rightarrow> (if strong_count c = 0 then (Ok None, s) else (Err TryUpgradeError, s))))"

section \<open>Handles of the standard library\<close>

definition counted_deref :: "nat \<Rightarrow> 'a counted_state \<Rightarrow> ('e, 'a) outcome" where
  "counted_deref a s =
     (case cells (fst s) a of Some c \<Rightarrow> (case c_data c of Some x \<Rightarrow> Ok x | None \<Rightarrow> UB) | None \<Rightarrow> UB)"

definition weak_release :: "nat \<Rightarrow> 'a counted \<Rightarrow> 'a cstore \<Rightarrow> 'a cstore" where
  "weak_release a c st =
     (if weak_count c \<le> 1 then free_cell a st else put_cell a (c\<lparr>weak_count := weak_count c - 1\<rparr>) st)"

definition strong_drop :: "nat \<Rightarrow> 'a counted_state \<Rightarrow> ('a counted_state, 'e, unit) run" where
  "strong_drop a s =
     with_cell a s (\<lambda>c.
       (Ok (),
        (if strong_count c \<le> 1 then weak_release a (c\<lparr>strong_count := 0, c_data := None\<rparr>) (fst s)
         else put_cell a (c\<lparr>strong_count := strong_count c - 1\<rparr>) (fst s),
         snd s)))"

definition weak_drop :: "weak \<Rightarrow> 'a counted_state \<Rightarrow> ('a counted_state, 'e, unit) run" where
  "weak_drop w s =
     (case w of
        Dangling \<Rightarrow> (Ok (), s)
      | WeakTo a \<Rightarrow> with_cell a s (\<lambda>c. (Ok (), (weak_release a c (fst s), snd s))))"

text \<open>\<open>try_unwrap\<close>: the value of a unique strong handle, whose implicit weak reference is given up.\<close>

definition counted_try_unwrap :: "nat \<Rightarrow> 'a counted_state \<Rightarrow> ('a counted_state, nat, 'a) run" where
  "counted_try_unwrap a s =
     with_cell a s (\<lambda>c.
       if strong_count c = 1 then
         (case c_data c of
            Some x \<Rightarrow> (Ok x, (weak_release a (c\<lparr>strong_count := 0, c_data := None\<rparr>) (fst s), snd s))
          | None \<Rightarrow> (UB, s))
       else (Err a, s))"

text \<open>The handle that is not unique keeps its count when the clone of the data fails, and is dropped otherwise.\<close>

definition counted_unwrap_or_try_clone ::
    "'a cloner \<Rightarrow> nat \<Rightarrow> 'a counted_state \<Rightarrow> ('a counted_state, nat \<times> try_clone_error, 'a) run" where
  "counted_unwrap_or_try_clone cl a s =
     (case counted_try_unwrap a s of
        (Ok x, s') \<Rightarrow> (Ok x, s')
      | (Err a, (st, h)) \<Rightarrow>
          and_then (counted_deref a (st, h), (st, h)) (\<lambda>x (st, h).
            case cl x h of
              (Ok y, h') \<Rightarrow> and_then (strong_drop a (st, h')) (\<lambda>_ s. (Ok y, s))
            | (Err e, h') \<Rightarrow> (Err (a, e), (st, h'))
            | (Panic msg, h') \<Rightarrow> (Panic msg, (st, h'))
            | (UB, h') \<Rightarrow> (UB, (st, h')))
      | (Panic msg, s') \<Rightarrow> (Panic msg, s')
      | (UB, s') \<Rightarrow> (UB, s'))"

datatype 'd default_error = DefaultAlloc alloc_error | DefaultOther 'd

text \<open>\<open>try_default\<close> allocates before it asks for the value; a failing default frees the block again.\<close>

definition counted_try_default ::
    "layout \<Rightarrow> (heap \<Rightarrow> ('d default_error, 'a) outcome \<times> heap) \<Rightarrow> 'a counted_state \<Rightarrow>
     ('a counted_state, 'd default_error, nat) run" where
  "counted_try_default l dflt s =
     and_then (map_err_run DefaultAlloc (counted_try_new_uninit l s)) (\<lambda>a (st, h).
       case dflt h of
         (Ok x, h') \<Rightarrow>
           with_cell a (st, h') (\<lambda>c. (Ok a, (put_cell a (c\<lparr>c_data := Some x\<rparr>) st, h')))
       | (Err e, h') \<Rightarrow> and_then (strong_drop a (st, h')) (\<lambda>_ s. (Err e, s))
       | (Panic msg, h') \<Rightarrow> (Panic msg, (st, h'))
       | (UB, h') \<Rightarrow> (UB, (st, h')))"

section \<open>The operations of \<open>Arc\<close> and of \<open>Rc\<close>\<close>

definition arc_try_new :: "layout \<Rightarrow> 'a \<Rightarrow> 'a counted_state \<Rightarrow> ('a counted_state, alloc_error, nat) run" where
  "arc_try_new = counted_try_new"

definition arc_try_new_give_back ::
    "layout \<Rightarrow> 'a \<Rightarrow> 'a counted_state \<Rightarrow> ('a counted_state, 'a \<times> alloc_error, nat) run" where
  "arc_try_new_give_back = counted_try_new_give_back"

definition arc_try_new_uninit :: "layout \<Rightarrow> 'a counted_state \<Rightarrow> ('a counted_state, alloc_error, nat) run" where
  "arc_try_new_uninit = counted_try_new_uninit"

definition arc_try_new_zeroed :: "layout \<Rightarrow> 'a \<Rightarrow> 'a counted_state \<Rightarrow> ('a counted_state, alloc_error, nat) run" where
  "arc_try_new_zeroed = counted_try_new_zeroed"

definition arc_unwrap_or_try_clone ::
    "'a cloner \<Rightarrow> nat \<Rightarrow> 'a counted_state \<Rightarrow> ('a counted_state, nat \<times> try_clone_error, 'a) run" where
  "arc_unwrap_or_try_clone = counted_unwrap_or_try_clone"

definition arc_try_clone :: "nat \<Rightarrow> 'a counted_state \<Rightarrow> ('a counted_state, try_clone_error, nat) run" where
  "arc_try_clone = strong_try_clone arc_bump ''Arc strong refcount exceeded''"

definition arc_weak_try_clone :: "weak \<Rightarrow> 'a counted_state \<Rightarrow> ('a counted_state, try_clone_error, weak) run" where
  "arc_weak_try_clone = weak_try_clone arc_bump ''Arc weak refcount exceeded''"

definition arc_try_downgrade :: "nat \<Rightarrow> 'a counted_state \<Rightarrow> ('a counted_state, downgrade_error, weak) run" where
  "arc_try_downgrade = counted_try_downgrade arc_bump"

definition arc_try_upgrade :: "weak \<Rightarrow> 'a counted_state \<Rightarrow> ('a counted_state, upgrade_error, nat option) run" where
  "arc_try_upgrade = counted_try_upgrade arc_upgrade_bump"

definition arc_try_default ::
    "layout \<Rightarrow> (heap \<Rightarrow> ('d default_error, 'a) outcome \<times> heap) \<Rightarrow> 'a counted_state \<Rightarrow>
     ('a counted_state, 'd default_error, nat) run" where
  "arc_try_default = counted_try_default"

definition rc_try_new :: "layout \<Rightarrow> 'a \<Rightarrow> 'a counted_state \<Rightarrow> ('a counted_state, alloc_error, nat) run" where
  "rc_try_new = counted_try_new"

definition rc_try_new_give_back ::
    "layout \<Rightarrow> 'a \<Rightarrow> 'a counted_state \<Rightarrow> ('a counted_state, 'a \<times> alloc_error, nat) run" where
  "rc_try_new_give_back = counted_try_new_give_back"

definition rc_try_new_uninit :: "layout \<Rightarrow> 'a counted_state \<Rightarrow> ('a counted_state, alloc_error, nat) run" where
  "rc_try_new_uninit = counted_try_new_uninit"

definition rc_try_new_zeroed :: "layout \<Rightarrow> 'a \<Rightarrow> 'a counted_state \<Rightarrow> ('a counted_state, alloc_error, nat) run" where
  "rc_try_new_zeroed = counted_try_new_zeroed"

definition rc_unwrap_or_try_clone ::
    "'a cloner \<Rightarrow> nat \<Rightarrow> 'a counted_state \<Rightarrow> ('a counted_state, nat \<times> try_clone_error, 'a) run" where
  "rc_unwrap_or_try_clone = counted_unwrap_or_try_clone"

definition rc_try_clone :: "nat \<Rightarrow> 'a counted_state \<Rightarrow> ('a counted_state, try_clone_error, nat) run" where
  "rc_try_clone = strong_try_clone rc_bump ''Rc strong refcount exceeded''"

definition rc_weak_try_clone :: "weak \<Rightarrow> 'a counted_state \<Rightarrow> ('a counted_state, try_clone_error, weak) run" where
  "rc_weak_try_clone = weak_try_clone rc_bump ''Rc weak refcount exceeded''"

definition rc_try_downgrade :: "nat \<Rightarrow> 'a counted_state \<Rightarrow> ('a counted_state, downgrade_error, weak) run" where
  "rc_try_downgrade = counted_try_downgrade rc_bump"

text \<open>\<open>Rc\<close> looks at a count of 0 before the limit.\<close>

definition rc_upgrade_bump :: "nat \<Rightarrow> nat option" where
  "rc_upgrade_bump cur = (if cur = 0 then None else rc_bump cur)"

definition rc_try_upgrade :: "weak \<Rightarrow> 'a counted_state \<Rightarrow> ('a counted_state, upgrade_error, nat option) run" where
  "rc_try_upgrade = counted_try_upgrade rc_upgrade_bump"

definition rc_try_default ::
    "layout \<Rightarrow> (heap \<Rightarrow> ('d default_error, 'a) outcome \<times> heap) \<Rightarrow> 'a counted_state \<Rightarrow>
     ('a counted_state, 'd default_error, nat) run" where
  "rc_try_default = counted_try_default"

end
