(* ===== verification/CHashIter.thy ===== *)
theory CHashIter
  imports CHashWalk Counted
begin

text \<open>
  The iterators of the concurrent hash map (\<^verbatim>\<open>collections/chashmap/iter.rs\<close>). An iterator
  locks one shard at a time and shares the lock's guard, through an \<open>Arc\<close> of \<open>Counted\<close>, with every item
  it yields; both the allocation of the \<open>Arc\<close> and its clones may fail, and the iterator then stalls so
  that the next call tries again. The two iterators differ in the lock they take. The guard in an \<open>Arc\<close> is
  the index of its shard; the lock is released when the last handle goes.
\<close>

section \<open>State\<close>

datatype iter_error = IterAlloc alloc_error | IterClone try_clone_error

record locked_iter =
  li_arc :: nat
  li_raw :: "bucket list"
  li_pending :: "bucket option"

record chm_iter =
  it_shard :: nat
  it_current :: "locked_iter option"
  it_auto :: bool

text \<open>An item, \<open>RefMulti\<close> or \<open>RefMutMulti\<close>: its handle on the guard and its entry.\<close>

datatype multi = Multi (mu_arc: nat) (mu_bucket: bucket)

text \<open>The map, the blocks of the shared guards, and the heap.\<close>

type_synonym ('k, 't) iworld = "('k, 't) chashmap \<times> nat cstore \<times> heap"

definition iter_new :: chm_iter where
  "iter_new = \<lparr>it_shard = 0, it_current = None, it_auto = False\<rparr>"

definition set_auto_unstall :: "bool \<Rightarrow> chm_iter \<Rightarrow> chm_iter" where
  "set_auto_unstall auto it = it\<lparr>it_auto := auto\<rparr>"

text \<open>The drop of a handle: the last one drops the guard, which releases the lock.\<close>

definition drop_shared :: "nat \<Rightarrow> ('k, 't) iworld \<Rightarrow> ('e, unit) outcome \<times> ('k, 't) iworld" where
  "drop_shared a w =
     (case w of (m, st, h) \<Rightarrow>
        (case cells st a of
           None \<Rightarrow> (UB, w)
         | Some c \<Rightarrow>
             (let m' = (if strong_count c \<le> 1
                        then case c_data c of Some i \<Rightarrow> set_lock i (release (lock_of i m)) m | None \<Rightarrow> m
                        else m)
              in case strong_drop a (st, h) of (r, (st', h')) \<Rightarrow> (r, (m', st', h')))))"

text \<open>The key and the value an item points to, and the write through a mutable one.\<close>

definition multi_pair :: "('t, 'k \<times> 'v) raw_ops \<Rightarrow> multi \<Rightarrow> ('k, 't) iworld \<Rightarrow> ('k \<times> 'v) option" where
  "multi_pair R x w =
     (case w of (m, st, h) \<Rightarrow>
        Option.bind (cells st (mu_arc x)) (\<lambda>c.
          Option.bind (c_data c) (\<lambda>i. rt_read R (mu_bucket x) (table_of i m))))"

definition multi_write :: "('t, 'k \<times> 'v) raw_ops \<Rightarrow> multi \<Rightarrow> 'v \<Rightarrow> ('k, 't) iworld \<Rightarrow> ('k, 't) iworld" where
  "multi_write R x v w =
     (case w of (m, st, h) \<Rightarrow>
        (case Option.bind (cells st (mu_arc x)) c_data of
           Some i \<Rightarrow>
             (case rt_read R (mu_bucket x) (table_of i m) of
                Some (k, _) \<Rightarrow> (set_table i (rt_write R (mu_bucket x) (k, v) (table_of i m)) m, st, h)
              | None \<Rightarrow> w)
         | None \<Rightarrow> w))"

section \<open>One round of \<open>next\<close>\<close>

text \<open>A round waits for a lock, goes on with the loop, or returns.\<close>

datatype ('k, 't) round =
    Blocked
  | Again chm_iter "('k, 't) iworld"
  | Return "(iter_error, multi option) outcome" chm_iter "('k, 't) iworld"

definition advance_shard :: "chm_iter \<Rightarrow> ('k, 't) iworld \<Rightarrow> ('k, 't) round" where
  "advance_shard it w =
     (case checked_add (it_shard it) 1 of
        Some i \<Rightarrow> Again (it\<lparr>it_shard := i\<rparr>) w
      | None \<Rightarrow> Return (Panic ''shard_idx below shard count'') it w)"

text \<open>The lazy initialisation: the shard locked and its guard shared, or an early end of the round.\<close>

definition iter_open ::
    "('t, 'k \<times> 'v) raw_ops \<Rightarrow> layout \<Rightarrow> (lock \<Rightarrow> lock option) \<Rightarrow> chm_iter \<Rightarrow> ('k, 't) iworld \<Rightarrow>
     locked_iter \<times> ('k, 't) iworld + ('k, 't) round" where
  "iter_open R L acquire it w =
     (case w of (m, st, h) \<Rightarrow>
        let i = it_shard it
        in if length (cm_shards m) \<le> i then Inr (Return (Ok None) it w)
           else case acquire (lock_of i m) of
               None \<Rightarrow> Inr Blocked
             | Some l \<Rightarrow>
                 let m1 = set_lock i l m; m2 = set_lock i (release l) m1
                 in if rt_len R (table_of i m1) = 0 then Inr (advance_shard it (m2, st, h))
                    else case arc_try_new L i (st, h) of
                        (Ok a, (st', h')) \<Rightarrow>
                          Inl (\<lparr>li_arc = a, li_raw = rt_buckets R (table_of i m1), li_pending = None\<rparr>, (m1, st', h'))
                      | (Err e, (st', h')) \<Rightarrow>
                          Inr (if it_auto it then advance_shard it (m2, st', h')
                               else Return (Err (IterAlloc AllocError)) it (m2, st', h'))
                      | (Panic msg, (st', h')) \<Rightarrow> Inr (Return (Panic msg) it (m2, st', h'))
                      | (UB, (st', h')) \<Rightarrow> Inr (Return UB it (m2, st', h')))"

text \<open>The pending bucket first, then those of the raw iterator.\<close>

definition take_bucket :: "locked_iter \<Rightarrow> (bucket \<times> locked_iter) option" where
  "take_bucket li =
     (case li_pending li of
        Some b \<Rightarrow> Some (b, li\<lparr>li_pending := None\<rparr>)
      | None \<Rightarrow> (case li_raw li of [] \<Rightarrow> None | b # bs \<Rightarrow> Some (b, li\<lparr>li_raw := bs\<rparr>)))"

definition iter_yield :: "chm_iter \<Rightarrow> locked_iter \<Rightarrow> ('k, 't) iworld \<Rightarrow> ('k, 't) round" where
  "iter_yield it li w =
     (case take_bucket li of
        None \<Rightarrow>
          (case drop_shared (li_arc li) w of
             (Ok _, w') \<Rightarrow> advance_shard (it\<lparr>it_current := None\<rparr>) w'
           | (r, w') \<Rightarrow> Return (map_ok (\<lambda>_. None) r) (it\<lparr>it_current := None\<rparr>) w')
      | Some (b, li') \<Rightarrow>
          (case w of (m, st, h) \<Rightarrow>
             (case arc_try_clone (li_arc li) (st, h) of
                (Ok a, (st', h')) \<Rightarrow> Return (Ok (Some (Multi a b))) (it\<lparr>it_current := Some li'\<rparr>) (m, st', h')
              | (Err e, (st', h')) \<Rightarrow>
                  (if it_auto it then Again (it\<lparr>it_current := Some li'\<rparr>) (m, st', h')
                   else Return (Err (IterClone e)) (it\<lparr>it_current := Some (li'\<lparr>li_pending := Some b\<rparr>)\<rparr>) (m, st', h'))
              | (Panic msg, (st', h')) \<Rightarrow> Return (Panic msg) (it\<lparr>it_current := Some li'\<rparr>) (m, st', h')
              | (UB, (st', h')) \<Rightarrow> Return UB (it\<lparr>it_current := Some li'\<rparr>) (m, st', h'))))"

definition iter_round ::
    "('t, 'k \<times> 'v) raw_ops \<Rightarrow> layout \<Rightarrow> (lock \<Rightarrow> lock option) \<Rightarrow> chm_iter \<Rightarrow> ('k, 't) iworld \<Rightarrow> ('k, 't) round" where
  "iter_round R L acquire it w =
     (case it_current it of
        Some li \<Rightarrow> iter_yield it li w
      | None \<Rightarrow>
          (case iter_open R L acquire it w of
             Inl (li, w') \<Rightarrow> iter_yield (it\<lparr>it_current := Some li\<rparr>) li w'
           | Inr r \<Rightarrow> r))"

section \<open>The loop\<close>

definition shards_left :: "chm_iter \<Rightarrow> ('k, 't) iworld \<Rightarrow> nat" where
  "shards_left it w = length (cm_shards (fst w)) - it_shard it"

definition buckets_left :: "('t, 'k \<times> 'v) raw_ops \<Rightarrow> chm_iter \<Rightarrow> ('k, 't) iworld \<Rightarrow> nat" where
  "buckets_left R it w =
     (case it_current it of
        Some li \<Rightarrow> Suc (length (li_raw li) + (if li_pending li = None then 0 else 1))
      | None \<Rightarrow> (if it_shard it < length (cm_shards (fst w))
                 then Suc (Suc (length (rt_buckets R (table_of (it_shard it) (fst w))))) else 0))"

lemma shard_count_set_lock [simp]: "length (cm_shards (set_lock i l m)) = length (cm_shards m)"
  by (simp add: set_lock_def)

lemma drop_shared_count: "drop_shared a w = (r, w') \<Longrightarrow> length (cm_shards (fst w')) = length (cm_shards (fst w))"
  by (auto simp: drop_shared_def Let_def split: prod.splits option.splits if_splits)

lemma advance_shard_Again [simp]:
  "advance_shard it w = Again it' w' \<longleftrightarrow> it' = it\<lparr>it_shard := Suc (it_shard it)\<rparr> \<and> w' = w \<and> it_shard it < usize_max"
  by (auto simp: advance_shard_def split: option.splits)

lemma take_bucket_shorter:
  "take_bucket li = Some (b, li') \<Longrightarrow>
     length (li_raw li') + (if li_pending li' = None then 0 else 1) <
     length (li_raw li) + (if li_pending li = None then 0 else 1)"
  by (auto simp: take_bucket_def split: option.splits list.splits)

lemma iter_yield_less:
  fixes w :: "('a, 'b) iworld"
  assumes "iter_yield it li w = Again it' w'" and "it_current it = Some li"
  shows "shards_left it' w' < shards_left it w \<or>
    shards_left it' w' = shards_left it w \<and> buckets_left R it' w' < buckets_left R it w"
proof (cases "take_bucket li")
  case None
  then have run: "(drop_shared (li_arc li) w :: (iter_error, unit) outcome \<times> ('a, 'b) iworld) = (Ok (), w')"
      and it': "it' = it\<lparr>it_current := None, it_shard := Suc (it_shard it)\<rparr>"
    using assms(1) by (auto simp: iter_yield_def split: prod.splits outcome.splits)
  from drop_shared_count [OF run]
  show ?thesis using it' assms(2) by (auto simp: shards_left_def buckets_left_def)
next
  case (Some bl)
  obtain b li' where bl: "bl = (b, li')" by fastforce
  have "it' = it\<lparr>it_current := Some li'\<rparr>" and "fst w' = fst w"
    using assms(1) Some bl by (auto simp: iter_yield_def split: prod.splits outcome.splits if_splits)
  then show ?thesis
    using take_bucket_shorter [of li b li'] Some bl assms(2) by (auto simp: shards_left_def buckets_left_def)
qed

lemma iter_open_count:
  "iter_open R L acquire it w = Inl (li, w') \<Longrightarrow>
     length (cm_shards (fst w')) = length (cm_shards (fst w)) \<and> it_shard it < length (cm_shards (fst w)) \<and>
     li_raw li = rt_buckets R (table_of (it_shard it) (fst w)) \<and> li_pending li = None"
  by (auto simp: iter_open_def Let_def split: prod.splits outcome.splits option.splits if_splits)

lemma iter_open_less:
  "iter_open R L acquire it w = Inr (Again it' w') \<Longrightarrow> it_current it = None \<Longrightarrow> shards_left it' w' < shards_left it w"
  by (auto simp: iter_open_def Let_def shards_left_def split: prod.splits outcome.splits option.splits if_splits)

lemma iter_round_less:
  assumes "iter_round R L acquire it w = Again it' w'"
  shows "shards_left it' w' < shards_left it w \<or>
    shards_left it' w' = shards_left it w \<and> buckets_left R it' w' < buckets_left R it w"
proof (cases "it_current it")
  case (Some li)
  then show ?thesis using assms iter_yield_less [of it li w it' w' R] by (simp add: iter_round_def)
next
  case None
  show ?thesis
  proof (cases "iter_open R L acquire it w")
    case (Inl lw)
    obtain li w1 where lw: "lw = (li, w1)" by (cases lw)
    let ?it = "it\<lparr>it_current := Some li\<rparr>"
    have "iter_yield ?it li w1 = Again it' w'" using assms None Inl lw by (simp add: iter_round_def)
    note less = iter_yield_less [OF this, of R]
    have "shards_left ?it w1 = shards_left it w" and "buckets_left R ?it w1 < buckets_left R it w"
      using iter_open_count [OF Inl [unfolded lw]] None by (simp_all add: shards_left_def buckets_left_def)
    with less show ?thesis by auto
  next
    case (Inr r)
    then show ?thesis
      using assms None iter_open_less [of R L acquire it w it' w'] by (simp add: iter_round_def)
  qed
qed

function chm_next ::
    "('t, 'k \<times> 'v) raw_ops \<Rightarrow> layout \<Rightarrow> (lock \<Rightarrow> lock option) \<Rightarrow> chm_iter \<Rightarrow> ('k, 't) iworld \<Rightarrow>
     ((iter_error, multi option) outcome \<times> chm_iter \<times> ('k, 't) iworld) option" where
  "chm_next R L acquire it w =
     (case iter_round R L acquire it w of
        Blocked \<Rightarrow> None
      | Again it' w' \<Rightarrow> chm_next R L acquire it' w'
      | Return r it' w' \<Rightarrow> Some (r, it', w'))"
  by auto
termination
  by (relation "measures [\<lambda>(R, L, acquire, it, w). shards_left it w, \<lambda>(R, L, acquire, it, w). buckets_left R it w]")
    (auto dest: iter_round_less)

declare chm_next.simps [simp del]

text \<open>\<open>Iter::next\<close> and \<open>IterMut::next\<close>.\<close>

definition ch_iter_next ::
    "('t, 'k \<times> 'v) raw_ops \<Rightarrow> layout \<Rightarrow> chm_iter \<Rightarrow> ('k, 't) iworld \<Rightarrow>
     ((iter_error, multi option) outcome \<times> chm_iter \<times> ('k, 't) iworld) option" where
  "ch_iter_next R L = chm_next R L acquire_read"

definition ch_iter_mut_next ::
    "('t, 'k \<times> 'v) raw_ops \<Rightarrow> layout \<Rightarrow> chm_iter \<Rightarrow> ('k, 't) iworld \<Rightarrow>
     ((iter_error, multi option) outcome \<times> chm_iter \<times> ('k, 't) iworld) option" where
  "ch_iter_mut_next R L = chm_next R L acquire_write"

section \<open>Stalling\<close>

text \<open>\<open>unstall\<close> discards what the iterator is stalled on and tells whether it did.\<close>

definition iter_unstall :: "('k, 't) chashmap \<Rightarrow> chm_iter \<Rightarrow> bool \<times> chm_iter" where
  "iter_unstall m it =
     (case it_current it of
        Some li \<Rightarrow> (li_pending li \<noteq> None, it\<lparr>it_current := Some (li\<lparr>li_pending := None\<rparr>)\<rparr>)
      | None \<Rightarrow>
          (if it_shard it < length (cm_shards m) then (True, it\<lparr>it_shard := Suc (it_shard it)\<rparr>) else (False, it)))"

end
