(* ===== verification/CHashIterProps.thy ===== *)
theory CHashIterProps
  imports CHashIter CHashExample
begin

text \<open>
  What the iterators of the concurrent map guarantee: they visit exactly what is left to visit, in
  order; an error loses nothing, so that a retry goes on where it failed; and what \<open>unstall\<close> discards.
\<close>

section \<open>What is left to visit\<close>

definition shard_buckets :: "('t, 'e) raw_ops \<Rightarrow> ('k, 't) chashmap \<Rightarrow> nat \<Rightarrow> (nat \<times> bucket) list" where
  "shard_buckets R m i = map (Pair i) (rt_buckets R (table_of i m))"

definition later_shards :: "('t, 'e) raw_ops \<Rightarrow> ('k, 't) chashmap \<Rightarrow> nat \<Rightarrow> (nat \<times> bucket) list" where
  "later_shards R m i = concat (map (shard_buckets R m) [i..<length (cm_shards m)])"

definition in_shard :: "locked_iter \<Rightarrow> bucket list" where
  "in_shard li = (case li_pending li of Some b \<Rightarrow> [b] | None \<Rightarrow> []) @ li_raw li"

definition remaining :: "('t, 'e) raw_ops \<Rightarrow> chm_iter \<Rightarrow> ('k, 't) chashmap \<Rightarrow> (nat \<times> bucket) list" where
  "remaining R it m =
     (case it_current it of
        Some li \<Rightarrow> map (Pair (it_shard it)) (in_shard li) @ later_shards R m (Suc (it_shard it))
      | None \<Rightarrow> later_shards R m (it_shard it))"

lemma later_shards_step:
  "i < length (cm_shards m) \<Longrightarrow> later_shards R m i = shard_buckets R m i @ later_shards R m (Suc i)"
  by (simp add: later_shards_def upt_conv_Cons)

lemma later_shards_end: "length (cm_shards m) \<le> i \<Longrightarrow> later_shards R m i = []"
  by (simp add: later_shards_def)

text \<open>Calls of the iterator change locks, but no table.\<close>

definition same_tables :: "('k, 't) chashmap \<Rightarrow> ('k, 't) chashmap \<Rightarrow> bool" where
  "same_tables m m' \<longleftrightarrow>
     length (cm_shards m') = length (cm_shards m) \<and> (\<forall>j < length (cm_shards m). table_of j m' = table_of j m)"

lemma same_tables_refl [simp]: "same_tables m m"
  by (simp add: same_tables_def)

lemma same_tables_lock [simp]: "same_tables m (set_lock i l m)"
  by (simp add: same_tables_def)

lemma same_tables_trans: "same_tables m m1 \<Longrightarrow> same_tables m1 m2 \<Longrightarrow> same_tables m m2"
  by (simp add: same_tables_def)

lemma same_tables_later:
  assumes "same_tables m m'"
  shows "later_shards R m' i = later_shards R m i"
proof -
  have "map (shard_buckets R m') [i..<length (cm_shards m')] = map (shard_buckets R m) [i..<length (cm_shards m)]"
    using assms by (auto simp: same_tables_def shard_buckets_def)
  then show ?thesis by (simp add: later_shards_def)
qed

lemma same_tables_remaining: "same_tables m m' \<Longrightarrow> remaining R it m' = remaining R it m"
  by (simp add: remaining_def same_tables_later split: option.split)

text \<open>The handle of a current shard is alive and points to that shard.\<close>

definition shares :: "nat cstore \<Rightarrow> nat \<Rightarrow> nat \<Rightarrow> bool" where
  "shares st a i \<longleftrightarrow> (\<exists>c. cells st a = Some c \<and> c_data c = Some i \<and> 1 \<le> strong_count c)"

definition iter_ok :: "chm_iter \<Rightarrow> ('k, 't) iworld \<Rightarrow> bool" where
  "iter_ok it w \<longleftrightarrow>
     length (cm_shards (fst w)) \<le> usize_max \<and>
     (case it_current it of
        Some li \<Rightarrow> it_shard it < length (cm_shards (fst w)) \<and> shares (fst (snd w)) (li_arc li) (it_shard it)
      | None \<Rightarrow> True)"

lemma iter_ok_new: "length (cm_shards m) \<le> usize_max \<Longrightarrow> iter_ok iter_new (m, st, h)"
  by (simp add: iter_ok_def iter_new_def)

section \<open>One round\<close>

lemma take_bucket_cases:
  obtains (empty) "take_bucket li = None" and "in_shard li = []"
  | (bucket) b li' where "take_bucket li = Some (b, li')" and "in_shard li = b # in_shard li'"
      and "li_arc li' = li_arc li" and "in_shard (li'\<lparr>li_pending := Some b\<rparr>) = in_shard li"
proof (cases "li_pending li")
  case (Some b)
  then show thesis
    by (intro bucket [of b "li\<lparr>li_pending := None\<rparr>"]) (simp_all add: take_bucket_def in_shard_def)
next
  case None
  show thesis
  proof (cases "li_raw li")
    case Nil
    with None show thesis by (intro empty) (simp_all add: take_bucket_def in_shard_def)
  next
    case (Cons b bs)
    with None show thesis
      by (intro bucket [of b "li\<lparr>li_raw := bs\<rparr>"]) (simp_all add: take_bucket_def in_shard_def)
  qed
qed

lemma arc_try_clone_shared:
  assumes "shares st a i"
  obtains (Ok) st' where "arc_try_clone a (st, h) = (Ok a, (st', h))" and "shares st' a i"
  | (Err) e where "arc_try_clone a (st, h) = (Err e, (st, h))"
proof -
  obtain c where c: "cells st a = Some c" "c_data c = Some i" "1 \<le> strong_count c"
    using assms by (auto simp: shares_def)
  show thesis
  proof (cases "arc_bump (strong_count c)")
    case None
    then show thesis using c by (intro Err) (simp add: arc_try_clone_def strong_try_clone_def with_cell_def)
  next
    case (Some n)
    then have "n = Suc (strong_count c)" by (auto simp: arc_bump_def checked_add_def split: if_splits)
    then show thesis using c Some
      by (intro Ok [of "put_cell a (c\<lparr>strong_count := n\<rparr>) st"])
        (simp_all add: arc_try_clone_def strong_try_clone_def with_cell_def shares_def put_cell_def)
  qed
qed

lemma lock_of_set_other [simp]: "j \<noteq> i \<Longrightarrow> lock_of j (set_lock i l m) = lock_of j m"
  by (simp add: lock_of_def set_lock_def)

lemma drop_shared_ok:
  fixes m :: "('k, 't) chashmap"
  assumes "shares st a i"
  obtains m' st' where "(drop_shared a (m, st, h) :: ('e, unit) outcome \<times> ('k, 't) iworld) = (Ok (), (m', st', h))"
    and "same_tables m m'" and "\<And>j. j \<noteq> i \<Longrightarrow> lock_of j m' = lock_of j m"
proof -
  obtain c where c: "cells st a = Some c" "c_data c = Some i" "1 \<le> strong_count c"
    using assms by (auto simp: shares_def)
  let ?m = "if strong_count c \<le> 1 then set_lock i (release (lock_of i m)) m else m"
  obtain st' where "(strong_drop a (st, h) :: ('e, unit) outcome \<times> _) = (Ok (), (st', h))"
    using c by (auto simp: strong_drop_def with_cell_def Let_def)
  then have "(drop_shared a (m, st, h) :: ('e, unit) outcome \<times> ('k, 't) iworld) = (Ok (), (?m, st', h))"
    using c by (simp add: drop_shared_def)
  then show thesis by (rule that) auto
qed

text \<open>What a round may answer.\<close>

fun round_ok ::
    "('t, 'k \<times> 'v) raw_ops \<Rightarrow> (lock \<Rightarrow> lock option) \<Rightarrow> chm_iter \<Rightarrow> ('k, 't) chashmap \<Rightarrow> ('k, 't) round \<Rightarrow> bool"
where
  "round_ok R acquire it m Blocked \<longleftrightarrow>
     it_current it = None \<and> it_shard it < length (cm_shards m) \<and> acquire (lock_of (it_shard it) m) = None"
| "round_ok R acquire it m (Again it' w') \<longleftrightarrow>
     iter_ok it' w' \<and> same_tables m (fst w') \<and> it_auto it' = it_auto it \<and>
     it_shard it \<le> it_shard it' \<and> (it_current it' = None \<longrightarrow> it_shard it < it_shard it') \<and>
     (\<forall>j > it_shard it. lock_of j (fst w') = lock_of j m) \<and>
     (\<exists>skipped. remaining R it m = skipped @ remaining R it' (fst w') \<and> (\<not> it_auto it \<longrightarrow> skipped = []))"
| "round_ok R acquire it m (Return r it' w') \<longleftrightarrow>
     iter_ok it' w' \<and> same_tables m (fst w') \<and> it_auto it' = it_auto it \<and>
     (case r of
        Ok None \<Rightarrow> remaining R it m = []
      | Ok (Some (Multi a b)) \<Rightarrow>
          (\<exists>i. remaining R it m = (i, b) # remaining R it' (fst w') \<and> shares (fst (snd w')) a i)
      | Err e \<Rightarrow> \<not> it_auto it \<and> remaining R it' (fst w') = remaining R it m
      | Panic msg \<Rightarrow> False
      | UB \<Rightarrow> False)"

lemma iter_yield_ok:
  assumes ok: "iter_ok it (m, st, h)" and cur: "it_current it = Some li"
  shows "round_ok R acquire it m (iter_yield it li (m, st, h))"
proof (cases rule: take_bucket_cases [of li])
  case empty
  have sh: "shares st (li_arc li) (it_shard it)" and idx: "it_shard it < length (cm_shards m)"
    and small: "length (cm_shards m) \<le> usize_max" using ok cur by (simp_all add: iter_ok_def)
  obtain m' st' where drop: "(drop_shared (li_arc li) (m, st, h) :: (iter_error, unit) outcome \<times> ('a, 'b) iworld) = (Ok (), (m', st', h))"
      "same_tables m m'" "\<And>j. j \<noteq> it_shard it \<Longrightarrow> lock_of j m' = lock_of j m"
    by (rule drop_shared_ok [OF sh, of m h]) (rule that)
  let ?it = "it\<lparr>it_current := None, it_shard := Suc (it_shard it)\<rparr>"
  have run: "iter_yield it li (m, st, h) = Again ?it (m', st', h)"
    using empty(1) drop(1) idx small by (simp add: iter_yield_def advance_shard_def checked_add_def)
  have "remaining R it m = remaining R ?it m" using cur empty(2) by (simp add: remaining_def)
  then show ?thesis
    using run drop(2,3) same_tables_remaining [OF drop(2), of R ?it] small
    by (auto simp: iter_ok_def same_tables_def intro!: exI [of _ "[]"])
next
  case (bucket b li')
  have sh: "shares st (li_arc li) (it_shard it)" and idx: "it_shard it < length (cm_shards m)"
    and small: "length (cm_shards m) \<le> usize_max" using ok cur by (simp_all add: iter_ok_def)
  have rem: "remaining R it m = (it_shard it, b) # remaining R (it\<lparr>it_current := Some li'\<rparr>) m"
    using cur bucket(2) by (simp add: remaining_def)
  show ?thesis
  proof (cases rule: arc_try_clone_shared [OF sh, of h])
    case (1 st')
    then show ?thesis
      using bucket rem small idx by (simp add: iter_yield_def iter_ok_def)
  next
    case (2 e)
    then show ?thesis
      using bucket rem small idx sh cur by (auto simp: iter_yield_def iter_ok_def remaining_def)
  qed
qed

lemma iter_open_cases:
  assumes "table_laws R ent" and "length (cm_shards m) \<le> usize_max" and "it_current it = None"
  obtains (opened) li m' st' h' where "iter_open R L acquire it (m, st, h) = Inl (li, (m', st', h'))"
      and "same_tables m m'" and "iter_ok (it\<lparr>it_current := Some li\<rparr>) (m', st', h')"
      and "\<And>j. j > it_shard it \<Longrightarrow> lock_of j m' = lock_of j m"
      and "remaining R (it\<lparr>it_current := Some li\<rparr>) m' = remaining R it m"
  | (stop) r where "iter_open R L acquire it (m, st, h) = Inr r" and "round_ok R acquire it m r"
proof (cases "it_shard it < length (cm_shards m)")
  case False
  then show thesis
    using assms by (intro stop [of "Return (Ok None) it (m, st, h)"])
      (simp_all add: iter_open_def iter_ok_def remaining_def later_shards_end)
next
  case idx: True
  let ?i = "it_shard it"
  let ?next = "it\<lparr>it_shard := Suc ?i\<rparr>"
  have adv: "advance_shard it w = Again ?next w" for w :: "('b, 'a) iworld"
    using idx assms(2) by (simp add: advance_shard_def checked_add_def)
  show thesis
  proof (cases "acquire (lock_of ?i m)")
    case None
    then show thesis using idx assms(3) by (intro stop [of Blocked]) (auto simp: iter_open_def)
  next
    case (Some l)
    let ?m1 = "set_lock ?i l m" let ?m2 = "set_lock ?i (release l) ?m1"
    have locks: "lock_of j ?m1 = lock_of j m" "lock_of j ?m2 = lock_of j m" if "?i < j" for j
      using that by (simp_all add: lock_of_def set_lock_def)
    have same: "same_tables m ?m1" "same_tables m ?m2"
      using same_tables_trans [OF same_tables_lock same_tables_lock] by simp_all
    have rem: "remaining R it m = shard_buckets R m ?i @ remaining R ?next m"
      using assms(3) later_shards_step [OF idx] by (simp add: remaining_def)
    show thesis
    proof (cases "rt_len R (table_of ?i m) = 0")
      case True
      then have "rt_buckets R (table_of ?i m) = []"
        using table_buckets [OF assms(1), of "table_of ?i m"] table_len [OF assms(1), of "table_of ?i m"]
          table_finite [OF assms(1), of "table_of ?i m"] by simp
      then have "remaining R ?next ?m2 = remaining R it m"
        using same_tables_remaining [OF same(2)] rem by (simp add: shard_buckets_def)
      then show thesis
        using True Some idx same assms(2,3) adv locks
        by (intro stop [of "Again ?next (?m2, st, h)"]) (simp_all add: iter_open_def iter_ok_def Let_def)
    next
      case False
      show thesis
      proof (cases rule: alloc_box_uninit_cases [of L h])
        case (Ok h')
        let ?st = "snd (new_cell (Some ?i) st)"
        let ?li = "\<lparr>li_arc = next_cell st, li_raw = rt_buckets R (table_of ?i m), li_pending = None\<rparr>"
        have "arc_try_new L ?i (st, h) = (Ok (next_cell st), (?st, h'))"
          using Ok by (simp add: arc_try_new_def counted_try_new_def new_cell_def Let_def)
        then have "iter_open R L acquire it (m, st, h) = Inl (?li, (?m1, ?st, h'))"
          using False Some idx by (simp add: iter_open_def Let_def)
        moreover have "shares ?st (next_cell st) ?i" by (simp add: shares_def new_cell_def Let_def)
        moreover have "remaining R (it\<lparr>it_current := Some ?li\<rparr>) ?m1 = remaining R it m"
          using same_tables_later [OF same(1)] rem assms(3)
          by (simp add: remaining_def in_shard_def shard_buckets_def)
        ultimately show thesis
          using same(1) idx assms(2) locks by (intro opened) (simp_all add: iter_ok_def)
      next
        case (Err h')
        have fail: "arc_try_new L ?i (st, h) = (Err AllocError, (st, h'))"
          using Err by (simp add: arc_try_new_def counted_try_new_def)
        show thesis
        proof (cases "it_auto it")
          case True
          then show thesis
            using fail False Some idx same assms(2,3) adv locks rem same_tables_remaining [OF same(2), of R ?next]
            by (intro stop [of "Again ?next (?m2, st, h')"])
              (auto simp: iter_open_def iter_ok_def Let_def intro!: exI [of _ "shard_buckets R m ?i"])
        next
          case manual: False
          then show thesis
            using fail False Some idx same assms(2,3) same_tables_remaining [OF same(2), of R it]
            by (intro stop [of "Return (Err (IterAlloc AllocError)) it (?m2, st, h')"])
              (simp_all add: iter_open_def iter_ok_def Let_def)
        qed
      qed
    qed
  qed
qed

lemma round_ok_transfer:
  assumes same: "same_tables m m1" and rem: "remaining R it1 m1 = remaining R it m" and auto: "it_auto it1 = it_auto it"
    and idx: "it_shard it1 = it_shard it" and locks: "\<And>j. j > it_shard it \<Longrightarrow> lock_of j m1 = lock_of j m"
    and "round_ok R acquire it1 m1 r" and "r \<noteq> Blocked"
  shows "round_ok R acquire it m r"
  using assms
  by (cases r) (auto intro: same_tables_trans split: outcome.splits option.splits multi.splits)

lemma iter_round_ok:
  assumes laws: "table_laws R ent" and ok: "iter_ok it (m, st, h)"
  shows "round_ok R acquire it m (iter_round R L acquire it (m, st, h))"
proof (cases "it_current it")
  case (Some li)
  then show ?thesis using iter_yield_ok [OF ok Some] by (simp add: iter_round_def)
next
  case None
  have small: "length (cm_shards m) \<le> usize_max" using ok by (simp add: iter_ok_def)
  show ?thesis
  proof (cases rule: iter_open_cases [OF laws small None, of L acquire st h])
    case (1 li m' st' h')
    let ?it = "it\<lparr>it_current := Some li\<rparr>"
    have "round_ok R acquire ?it m' (iter_yield ?it li (m', st', h'))"
      using 1(3) by (rule iter_yield_ok) simp
    moreover have "iter_yield ?it li (m', st', h') \<noteq> Blocked"
      by (auto simp: iter_yield_def advance_shard_def split: prod.splits option.splits outcome.splits)
    ultimately have "round_ok R acquire it m (iter_yield ?it li (m', st', h'))"
      using 1(2,4,5) by (intro round_ok_transfer [of m m' R ?it it acquire]) simp_all
    then show ?thesis using 1(1) None by (simp add: iter_round_def)
  next
    case (2 r)
    then show ?thesis using None by (simp add: iter_round_def)
  qed
qed

section \<open>A call of \<open>next\<close>\<close>

text \<open>What a call answers: the next entry left with a handle on its shard, the end, or an error that
  changes nothing; or it waits for a lock. An iterator that unstalls by itself may skip entries.\<close>

definition next_ok ::
    "('t, 'k \<times> 'v) raw_ops \<Rightarrow> (lock \<Rightarrow> lock option) \<Rightarrow> chm_iter \<Rightarrow> ('k, 't) chashmap \<Rightarrow>
     ((iter_error, multi option) outcome \<times> chm_iter \<times> ('k, 't) iworld) option \<Rightarrow> bool" where
  "next_ok R acquire it m q \<longleftrightarrow>
     (case q of
        None \<Rightarrow> \<exists>i \<ge> it_shard it. i < length (cm_shards m) \<and> acquire (lock_of i m) = None \<and>
          (it_current it \<noteq> None \<longrightarrow> it_shard it < i)
      | Some (r, it', w') \<Rightarrow>
          iter_ok it' w' \<and> same_tables m (fst w') \<and> it_auto it' = it_auto it \<and>
          (\<exists>skipped. (\<not> it_auto it \<longrightarrow> skipped = []) \<and>
            (case r of
               Ok None \<Rightarrow> remaining R it m = skipped
             | Ok (Some (Multi a b)) \<Rightarrow>
                 (\<exists>i. remaining R it m = skipped @ (i, b) # remaining R it' (fst w') \<and> shares (fst (snd w')) a i)
             | Err e \<Rightarrow> \<not> it_auto it \<and> remaining R it' (fst w') = remaining R it m
             | Panic msg \<Rightarrow> False
             | UB \<Rightarrow> False)))"

text \<open>A round that goes on composes with what the rest of the call answers.\<close>

lemma next_ok_after_round:
  assumes again: "round_ok R acquire it m (Again it' w')" and rest: "next_ok R acquire it' (fst w') q"
  shows "next_ok R acquire it m q"
proof (cases q)
  case None
  then obtain i where i: "it_shard it' \<le> i" "i < length (cm_shards (fst w'))" "acquire (lock_of i (fst w')) = None"
      "it_current it' \<noteq> None \<longrightarrow> it_shard it' < i"
    using rest by (auto simp: next_ok_def)
  have "it_shard it < i" using again i(1,4) by (cases "it_current it'") auto
  moreover from this have "lock_of i (fst w') = lock_of i m" using again by simp
  moreover have "i < length (cm_shards m)" using again i(2) by (simp add: same_tables_def)
  ultimately show ?thesis using i(3) None by (auto simp: next_ok_def intro!: exI [of _ i])
next
  case (Some p)
  obtain r it'' w'' where p: "p = (r, it'', w'')" by (cases p)
  obtain s1 where s1: "remaining R it m = s1 @ remaining R it' (fst w')" "\<not> it_auto it \<longrightarrow> s1 = []"
    using again by auto
  have frame: "same_tables m (fst w')" "it_auto it' = it_auto it" using again by simp_all
  obtain s2 where s2: "\<not> it_auto it' \<longrightarrow> s2 = []" and
    res: "case r of Ok None \<Rightarrow> remaining R it' (fst w') = s2
             | Ok (Some (Multi a b)) \<Rightarrow>
                 (\<exists>i. remaining R it' (fst w') = s2 @ (i, b) # remaining R it'' (fst w'') \<and> shares (fst (snd w'')) a i)
             | Err e \<Rightarrow> \<not> it_auto it' \<and> remaining R it'' (fst w'') = remaining R it' (fst w')
             | Panic msg \<Rightarrow> False
             | UB \<Rightarrow> False"
    and ok: "iter_ok it'' w''" "same_tables (fst w') (fst w'')" "it_auto it'' = it_auto it'"
    using rest Some p by (auto simp: next_ok_def)
  have "\<not> it_auto it \<longrightarrow> s1 @ s2 = []" using s1(2) s2 frame(2) by simp
  moreover have "case r of Ok None \<Rightarrow> remaining R it m = s1 @ s2
             | Ok (Some (Multi a b)) \<Rightarrow>
                 (\<exists>i. remaining R it m = (s1 @ s2) @ (i, b) # remaining R it'' (fst w'') \<and> shares (fst (snd w'')) a i)
             | Err e \<Rightarrow> \<not> it_auto it \<and> remaining R it'' (fst w'') = remaining R it m
             | Panic msg \<Rightarrow> False
             | UB \<Rightarrow> False"
    using res s1 frame(2) by (auto split: outcome.splits option.splits multi.splits)
  ultimately show ?thesis
    using ok frame same_tables_trans [OF frame(1) ok(2)] unfolding next_ok_def Some p by auto
qed

lemma chm_next_ok:
  assumes "table_laws R ent" and "iter_ok it w"
  shows "next_ok R acquire it (fst w) (chm_next R L acquire it w)"
  using assms
proof (induction R L acquire it w rule: chm_next.induct)
  case (1 R L acquire it w)
  obtain m st h where w: "w = (m, st, h)" by (cases w)
  have round: "round_ok R acquire it m (iter_round R L acquire it w)"
    using iter_round_ok [OF 1(2)] 1(3) w by simp
  have m: "fst w = m" using w by simp
  show ?case
  proof (cases "iter_round R L acquire it w")
    case Blocked
    then have "chm_next R L acquire it w = None" by (subst chm_next.simps) simp
    then show ?thesis using round Blocked m by (auto simp: next_ok_def)
  next
    case (Return r it' w')
    then have run: "chm_next R L acquire it w = Some (r, it', w')" by (subst chm_next.simps) simp
    have "round_ok R acquire it m (Return r it' w')" using round Return by simp
    then show ?thesis
      by (auto simp: run m next_ok_def split: outcome.splits option.splits multi.splits)
  next
    case (Again it' w')
    then have run: "chm_next R L acquire it w = chm_next R L acquire it' w'" by (subst chm_next.simps) simp
    have again: "round_ok R acquire it m (Again it' w')" using round Again by simp
    have "next_ok R acquire it' (fst w') (chm_next R L acquire it' w')"
      using 1(1) [OF Again] 1(2) again by simp
    then show ?thesis unfolding run m by (rule next_ok_after_round [OF again])
  qed
qed

section \<open>Properties\<close>

text \<open>An item reads the entry of its bucket.\<close>

lemma multi_reads:
  assumes "table_laws R ent" and "shares st a i"
  shows "multi_pair R (Multi a b) (m, st, h) = map_option snd (ent (table_of i m) b)"
  using assms(2) table_read [OF assms(1)] by (auto simp: shares_def multi_pair_def)

text \<open>Every occupied bucket of every shard is left to visit at first, once.\<close>

lemma remaining_new: "remaining R iter_new m = later_shards R m 0"
  by (simp add: remaining_def iter_new_def)

lemma later_shards_set:
  assumes "table_laws R ent"
  shows "(i, b) \<in> set (later_shards R m k) \<longleftrightarrow> k \<le> i \<and> i < length (cm_shards m) \<and> ent (table_of i m) b \<noteq> None"
  using table_buckets [OF assms] by (force simp: later_shards_def shard_buckets_def domIff)

lemma later_shards_distinct:
  assumes "table_laws R ent"
  shows "distinct (later_shards R m k)"
proof (induction "length (cm_shards m) - k" arbitrary: k)
  case 0
  then show ?case by (simp add: later_shards_end)
next
  case (Suc n)
  have "distinct (shard_buckets R m k)"
    using table_buckets [OF assms, of "table_of k m"] by (simp add: shard_buckets_def distinct_map inj_on_def)
  moreover have "set (shard_buckets R m k) \<inter> set (later_shards R m (Suc k)) = {}"
    using later_shards_set [OF assms, of _ _ m "Suc k"] by (auto simp: shard_buckets_def)
  ultimately show ?case
    using Suc.hyps(2) Suc.hyps(1) [of "Suc k"] later_shards_step [of k m R] by simp
qed

text \<open>Claim C15. An iterator of the concurrent map that does not unstall by itself visits every entry
  exactly once: at first every occupied bucket of every shard is left, once; a call of \<open>next\<close> answers
  the first entry left together with a live handle on the lock guard of its shard, or the end, only when
  nothing is left, or an error, after which exactly the same entries are left, so that the next call
  tries again. It waits only for a shard that another guard keeps from being read, and it changes no table.
  The same holds of \<open>IterMut\<close> and the write locks.\<close>
theorem chash_iter_spec:
  assumes "table_laws R ent" and "iter_ok it (m, st, h)" and "\<not> it_auto it"
    and "(acquire, nxt) \<in> {(acquire_read, ch_iter_next), (acquire_write, ch_iter_mut_next)}"
  shows "distinct (remaining R iter_new m) \<and>
    (\<forall>i b. (i, b) \<in> set (remaining R iter_new m) \<longleftrightarrow> i < length (cm_shards m) \<and> ent (table_of i m) b \<noteq> None) \<and>
    (case nxt R L it (m, st, h) of
       None \<Rightarrow> \<exists>i \<ge> it_shard it. i < length (cm_shards m) \<and> acquire (lock_of i m) = None
     | Some (r, it', (m', st', h')) \<Rightarrow>
         iter_ok it' (m', st', h') \<and> \<not> it_auto it' \<and> same_tables m m' \<and>
         (case r of
            Ok None \<Rightarrow> remaining R it m = []
          | Ok (Some (Multi a b)) \<Rightarrow> \<exists>i. remaining R it m = (i, b) # remaining R it' m' \<and> shares st' a i
          | Err e \<Rightarrow> remaining R it' m' = remaining R it m
          | Panic msg \<Rightarrow> False
          | UB \<Rightarrow> False))"
proof -
  have run: "nxt R L it (m, st, h) = chm_next R L acquire it (m, st, h)"
    using assms(4) by (auto simp: ch_iter_next_def ch_iter_mut_next_def)
  have "next_ok R acquire it m (chm_next R L acquire it (m, st, h))"
    using chm_next_ok [OF assms(1,2), of acquire L] by simp
  then have call: "case chm_next R L acquire it (m, st, h) of
       None \<Rightarrow> \<exists>i \<ge> it_shard it. i < length (cm_shards m) \<and> acquire (lock_of i m) = None
     | Some (r, it', (m', st', h')) \<Rightarrow>
         iter_ok it' (m', st', h') \<and> \<not> it_auto it' \<and> same_tables m m' \<and>
         (case r of
            Ok None \<Rightarrow> remaining R it m = []
          | Ok (Some (Multi a b)) \<Rightarrow> \<exists>i. remaining R it m = (i, b) # remaining R it' m' \<and> shares st' a i
          | Err e \<Rightarrow> remaining R it' m' = remaining R it m
          | Panic msg \<Rightarrow> False
          | UB \<Rightarrow> False)"
    using assms(3) unfolding next_ok_def
    by (auto split: option.splits prod.splits outcome.splits multi.splits)
  have "\<forall>i b. (i, b) \<in> set (remaining R iter_new m) \<longleftrightarrow> i < length (cm_shards m) \<and> ent (table_of i m) b \<noteq> None"
    using later_shards_set [OF assms(1), of _ _ m 0] by (simp add: remaining_new)
  moreover have "distinct (remaining R iter_new m)"
    using later_shards_distinct [OF assms(1)] by (simp add: remaining_new)
  ultimately show ?thesis unfolding run using call by blast
qed

lemma bump_example: "arc_bump (Suc 0) = Some 2"
  by (simp add: arc_bump_def checked_add_def max_refcount_def isize_max_def usize_max_def)

lemma chash_iter_spec_witness:
  "\<exists>it' m' st' h'. ch_iter_next slot_ops (Layout 16 8) iter_new
        (ch_example, \<lparr>cells = Map.empty, next_cell = 0\<rparr>, heap_with policy_nothing) =
      Some (Ok (Some (Multi 0 0)), it', (m', st', h')) \<and>
    remaining slot_ops iter_new ch_example = (1, 0) # remaining slot_ops it' m' \<and> shares st' 0 1"
proof -
  let ?st = "\<lparr>cells = Map.empty, next_cell = 0\<rparr>"
    and ?st1 = "\<lparr>cells = [0 \<mapsto> \<lparr>strong_count = Suc 0, weak_count = Suc 0, c_data = Some (Suc 0)\<rparr>],
                next_cell = Suc 0\<rparr>"
    and ?h = "heap_with policy_nothing"
  let ?r = "ch_iter_next slot_ops (Layout 16 8) iter_new (ch_example, ?st, ?h)"
  obtain h1 where "(alloc_box_uninit (Layout 16 8) ?h) = (Ok (), h1)"
    using alloc_box_generous [OF generous_heap_with] by blast
  then have first_alloc: "arc_try_new (Layout 16 8) (Suc 0) (?st, ?h) = (Ok 0, (?st1, h1))"
    by (simp add: arc_try_new_def counted_try_new_def new_cell_def)
  have guard_clone: "arc_try_clone 0 (?st1, h1) = (Ok 0, (put_cell 0 \<lparr>strong_count = 2, weak_count = Suc 0, c_data = Some (Suc 0)\<rparr> ?st1, h1))"
    using bump_example by (simp add: arc_try_clone_def strong_try_clone_def with_cell_def)
  have "2 \<le> usize_max" by (simp add: usize_max_def)
  then have small: "Suc 0 \<le> usize_max" "Suc (Suc 0) \<le> usize_max" by linarith+
  have "map_option fst ?r = Some (Ok (Some (Multi 0 0)))"
    by (simp add: ch_iter_next_def chm_next.simps iter_round_def iter_open_def iter_new_def ch_example_def lock_of_def
        set_lock_def table_of_def Let_def slot_ops_def advance_shard_def checked_add_def iter_yield_def take_bucket_def
        small first_alloc guard_clone)
  then obtain it' m' st' h' where run: "?r = Some (Ok (Some (Multi 0 0)), it', (m', st', h'))" by auto
  have all: "remaining slot_ops iter_new ch_example = [(1, 0)]" by code_simp
  have "iter_ok iter_new (ch_example, ?st, ?h)" by (rule iter_ok_new) (simp add: ch_example_def small)
  moreover have "\<not> it_auto iter_new" by (simp add: iter_new_def)
  ultimately show ?thesis
    using chash_iter_spec [OF slot_table_laws, of iter_new ch_example ?st ?h acquire_read ch_iter_next "Layout 16 8"] run all
    by auto
qed

text \<open>The comment in \<open>unstall\<close> calls its advance harmless when the iterator is only between shards; but
  then it answers that it unstalled and discards every entry of the next shard.\<close>

lemma unstall_skips_shard:
  assumes "it_current it = None" and "it_shard it < length (cm_shards m)"
  shows "fst (iter_unstall m it) \<and>
    remaining R it m = shard_buckets R m (it_shard it) @ remaining R (snd (iter_unstall m it)) m"
  using assms later_shards_step by (simp add: iter_unstall_def remaining_def)

text \<open>With a pending entry it discards exactly that one.\<close>

lemma unstall_drops_pending:
  assumes "it_current it = Some li" and "li_pending li = Some b"
  shows "fst (iter_unstall m it) \<and> remaining R it m = (it_shard it, b) # remaining R (snd (iter_unstall m it)) m"
  using assms by (simp add: iter_unstall_def remaining_def in_shard_def)

end
