(* ===== verification/CountedProps.thy ===== *)
theory CountedProps
  imports Counted "HOL-Library.Multiset"
begin

text \<open>
  Handles and counters: whatever sequence of operations runs, the counters of a block are the numbers
  of its handles, so a strong handle can always be read, an upgrade answers whether a strong handle is
  left, and a block is freed with its last handle. The argument is made once, over the two ways a
  counter may be bumped, and holds for \<open>Arc\<close> and for \<open>Rc\<close>.
\<close>

section \<open>Steps of the owners of handles\<close>

datatype handle = StrongH nat | WeakH weak

type_synonym 'a owned_state = "'a counted_state \<times> handle multiset"

inductive handle_step ::
    "(nat \<Rightarrow> nat option) \<Rightarrow> (nat \<Rightarrow> nat option) \<Rightarrow> layout \<Rightarrow> 'a owned_state \<Rightarrow> 'a owned_state \<Rightarrow> bool"
  for bump up l where
  h_new: "counted_try_new l x s = (Ok a, s') \<Longrightarrow> handle_step bump up l (s, hs) (s', add_mset (StrongH a) hs)"
| h_new_back: "counted_try_new_give_back l x s = (Ok a, s') \<Longrightarrow> handle_step bump up l (s, hs) (s', add_mset (StrongH a) hs)"
| h_clone: "StrongH a \<in># hs \<Longrightarrow> strong_try_clone bump msg a s = (Ok b, s') \<Longrightarrow>
    handle_step bump up l (s, hs) (s', add_mset (StrongH b) hs)"
| h_clone_weak: "WeakH w \<in># hs \<Longrightarrow> weak_try_clone bump msg w s = (Ok w', s') \<Longrightarrow>
    handle_step bump up l (s, hs) (s', add_mset (WeakH w') hs)"
| h_downgrade: "StrongH a \<in># hs \<Longrightarrow> counted_try_downgrade bump a s = (Ok w, s') \<Longrightarrow>
    handle_step bump up l (s, hs) (s', add_mset (WeakH w) hs)"
| h_upgrade: "WeakH w \<in># hs \<Longrightarrow> counted_try_upgrade up w s = (Ok (Some a), s') \<Longrightarrow>
    handle_step bump up l (s, hs) (s', add_mset (StrongH a) hs)"
| h_drop: "StrongH a \<in># hs \<Longrightarrow> strong_drop a s = ((Ok () :: (unit, unit) outcome), s') \<Longrightarrow>
    handle_step bump up l (s, hs) (s', hs - {#StrongH a#})"
| h_drop_weak: "WeakH w \<in># hs \<Longrightarrow> weak_drop w s = ((Ok () :: (unit, unit) outcome), s') \<Longrightarrow>
    handle_step bump up l (s, hs) (s', hs - {#WeakH w#})"
| h_unwrap: "StrongH a \<in># hs \<Longrightarrow> counted_unwrap_or_try_clone cl a s = (Ok x, s') \<Longrightarrow>
    handle_step bump up l (s, hs) (s', hs - {#StrongH a#})"
| h_unwrap_failed: "StrongH a \<in># hs \<Longrightarrow> counted_unwrap_or_try_clone cl a s = (Err (b, e), s') \<Longrightarrow>
    handle_step bump up l (s, hs) (s', hs)"

section \<open>Counters count handles\<close>

definition cell_ok :: "handle multiset \<Rightarrow> nat \<Rightarrow> 'a counted option \<Rightarrow> bool" where
  "cell_ok hs a co =
     (case co of
        None \<Rightarrow> count hs (StrongH a) = 0 \<and> count hs (WeakH (WeakTo a)) = 0
      | Some c \<Rightarrow>
          strong_count c = count hs (StrongH a) \<and>
          weak_count c = count hs (WeakH (WeakTo a)) + (if 0 < strong_count c then 1 else 0) \<and>
          0 < weak_count c \<and> (c_data c \<noteq> None \<longleftrightarrow> 0 < strong_count c))"

definition handles_ok :: "'a cstore \<Rightarrow> handle multiset \<Rightarrow> bool" where
  "handles_ok st hs \<longleftrightarrow> (\<forall>a. cell_ok hs a (cells st a)) \<and> (\<forall>a \<ge> next_cell st. cells st a = None)"

lemma cell_ok_counts:
  "count hs' (StrongH a) = count hs (StrongH a) \<Longrightarrow> count hs' (WeakH (WeakTo a)) = count hs (WeakH (WeakTo a)) \<Longrightarrow>
   cell_ok hs' a co = cell_ok hs a co"
  by (simp only: cell_ok_def)

lemma handles_ok_cell: "handles_ok st hs \<Longrightarrow> cell_ok hs a (cells st a)"
  by (simp add: handles_ok_def)

lemma strong_cell:
  assumes "handles_ok st hs" and "StrongH a \<in># hs"
  obtains c x where "cells st a = Some c" and "c_data c = Some x" and "strong_count c = count hs (StrongH a)"
    and "0 < strong_count c" and "weak_count c = Suc (count hs (WeakH (WeakTo a)))"
proof -
  have "cell_ok hs a (cells st a)" by (rule handles_ok_cell [OF assms(1)])
  then obtain c where c: "cells st a = Some c" "strong_count c = count hs (StrongH a)"
    "weak_count c = count hs (WeakH (WeakTo a)) + (if 0 < strong_count c then 1 else 0)"
    "c_data c \<noteq> None \<longleftrightarrow> 0 < strong_count c"
    using assms(2) by (auto simp: cell_ok_def simp flip: count_greater_zero_iff split: option.splits)
  moreover have "0 < strong_count c" using c(2) assms(2) by simp
  ultimately show thesis using that by auto
qed

lemma weak_cell:
  assumes "handles_ok st hs" and "WeakH (WeakTo a) \<in># hs"
  obtains c where "cells st a = Some c" and "strong_count c = count hs (StrongH a)"
    and "weak_count c = count hs (WeakH (WeakTo a)) + (if 0 < strong_count c then 1 else 0)"
    and "c_data c \<noteq> None \<longleftrightarrow> 0 < strong_count c"
  using handles_ok_cell [OF assms(1), of a] assms(2) that by (auto simp: cell_ok_def simp flip: count_greater_zero_iff split: option.splits)

text \<open>One block and the handles to it change; the other blocks stay.\<close>

lemma handles_ok_change:
  assumes "handles_ok st hs" and "cell_ok hs' a (cells st' a)"
    and "\<And>b. b \<noteq> a \<Longrightarrow> cells st' b = cells st b" and "next_cell st' = next_cell st"
    and "\<And>b. b \<noteq> a \<Longrightarrow> count hs' (StrongH b) = count hs (StrongH b) \<and> count hs' (WeakH (WeakTo b)) = count hs (WeakH (WeakTo b))"
    and "a < next_cell st"
  shows "handles_ok st' hs'"
proof -
  have "cell_ok hs' b (cells st' b)" for b
    using assms(2) handles_ok_cell [OF assms(1), of b] assms(3) [of b] assms(5) [of b]
    by (cases "b = a") (simp_all add: cell_ok_counts [of hs' b hs])
  then show ?thesis using assms(1,3,4,6) by (auto simp: handles_ok_def)
qed

lemma cell_below: "handles_ok st hs \<Longrightarrow> cells st a = Some c \<Longrightarrow> a < next_cell st"
  unfolding handles_ok_def by (metis not_le option.distinct(1))

section \<open>The contract of the two counters\<close>

locale refcounted =
  fixes bump up :: "nat \<Rightarrow> nat option"
  assumes bump_suc: "bump n = Some m \<Longrightarrow> m = Suc n"
    and bump_room: "Suc n < max_refcount \<Longrightarrow> bump n \<noteq> None"
    and up_suc: "up n = Some m \<Longrightarrow> m = Suc n"
    and up_zero: "up 0 = None"
    and up_room: "0 < n \<Longrightarrow> n < max_refcount \<Longrightarrow> up n \<noteq> None"
begin

lemma new_ok:
  assumes "handles_ok st hs"
  shows "handles_ok (snd (new_cell (Some x) st)) (add_mset (StrongH (fst (new_cell (Some x) st))) hs)"
proof -
  let ?a = "next_cell st"
  have fresh: "cells st ?a = None" using assms by (simp add: handles_ok_def)
  then have "count hs (StrongH ?a) = 0" "count hs (WeakH (WeakTo ?a)) = 0"
    using handles_ok_cell [OF assms, of ?a] by (simp_all add: cell_ok_def)
  then have "cell_ok (add_mset (StrongH ?a) hs) b (cells (snd (new_cell (Some x) st)) b)" for b
    using handles_ok_cell [OF assms, of b]
    by (cases "b = ?a")
      (simp add: new_cell_def Let_def cell_ok_def,
       simp add: new_cell_def Let_def cell_ok_counts [of "add_mset (StrongH ?a) hs" b hs])
  then show ?thesis using assms by (simp add: handles_ok_def new_cell_def Let_def)
qed

lemma strong_added:
  assumes "handles_ok st hs" and "cells st a = Some c" and "0 < strong_count c"
  shows "handles_ok (put_cell a (c\<lparr>strong_count := Suc (strong_count c)\<rparr>) st) (add_mset (StrongH a) hs)"
  by (rule handles_ok_change [OF assms(1), of _ a])
    (use handles_ok_cell [OF assms(1), of a] assms(2,3) cell_below [OF assms(1,2)] in
      \<open>simp_all add: put_cell_def cell_ok_def\<close>)

lemma weak_added:
  assumes "handles_ok st hs" and "cells st a = Some c"
  shows "handles_ok (put_cell a (c\<lparr>weak_count := Suc (weak_count c)\<rparr>) st) (add_mset (WeakH (WeakTo a)) hs)"
  by (rule handles_ok_change [OF assms(1), of _ a])
    (use handles_ok_cell [OF assms(1), of a] assms(2) cell_below [OF assms(1,2)] in
      \<open>simp_all add: put_cell_def cell_ok_def\<close>)

lemma strong_removed:
  assumes ok: "handles_ok st hs" and a: "StrongH a \<in># hs" and run: "strong_drop a (st, h) = (Ok (), (st', h'))"
  shows "handles_ok st' (hs - {#StrongH a#})"
proof (rule strong_cell [OF ok a])
  fix c x
  assume c: "cells st a = Some c" "strong_count c = count hs (StrongH a)" "0 < strong_count c"
    "weak_count c = Suc (count hs (WeakH (WeakTo a)))"
  have st': "st' = (if strong_count c \<le> 1 then weak_release a (c\<lparr>strong_count := 0, c_data := None\<rparr>) st
      else put_cell a (c\<lparr>strong_count := strong_count c - 1\<rparr>) st)"
    using run c(1) by (auto simp: strong_drop_def with_cell_def)
  show ?thesis
    by (rule handles_ok_change [OF ok, of _ a])
      (use c handles_ok_cell [OF ok, of a] cell_below [OF ok c(1)] in
        \<open>auto simp: st' weak_release_def put_cell_def free_cell_def cell_ok_def simp flip: count_greater_zero_iff split: if_splits\<close>)
qed

lemma weak_removed:
  assumes ok: "handles_ok st hs" and w: "WeakH w \<in># hs" and run: "weak_drop w (st, h) = (Ok (), (st', h'))"
  shows "handles_ok st' (hs - {#WeakH w#})"
proof (cases w)
  case Dangling
  then have "st' = st" using run by (simp add: weak_drop_def)
  then show ?thesis using ok Dangling by (simp add: handles_ok_def cell_ok_counts [of "hs - {#WeakH Dangling#}" _ hs])
next
  case (WeakTo a)
  have w': "WeakH (WeakTo a) \<in># hs" using w WeakTo by simp
  show ?thesis
  proof (rule weak_cell [OF ok w'])
    fix c
    assume c: "cells st a = Some c" "strong_count c = count hs (StrongH a)"
      "weak_count c = count hs (WeakH (WeakTo a)) + (if 0 < strong_count c then 1 else 0)"
      "c_data c \<noteq> None \<longleftrightarrow> 0 < strong_count c"
    have st': "st' = weak_release a c st" using run c(1) WeakTo by (simp add: weak_drop_def with_cell_def)
    show ?thesis
      by (rule handles_ok_change [OF ok, of _ a])
        (use c w' WeakTo cell_below [OF ok c(1)] in
          \<open>auto simp: st' weak_release_def put_cell_def free_cell_def cell_ok_def simp flip: count_greater_zero_iff split: if_splits\<close>)
  qed
qed

lemma unwrap_cases:
  assumes ok: "handles_ok st hs" and a: "StrongH a \<in># hs" and run: "counted_unwrap_or_try_clone cl a (st, h) = (r, (st', h'))"
  shows "case r of
      Ok x \<Rightarrow> handles_ok st' (hs - {#StrongH a#})
    | Err (b, e) \<Rightarrow> b = a \<and> st' = st
    | _ \<Rightarrow> st' = st"
proof (rule strong_cell [OF ok a])
  fix c x
  assume c: "cells st a = Some c" "c_data c = Some x" "strong_count c = count hs (StrongH a)" "0 < strong_count c"
  define dropped where "dropped = (if strong_count c \<le> 1 then weak_release a (c\<lparr>strong_count := 0, c_data := None\<rparr>) st
      else put_cell a (c\<lparr>strong_count := strong_count c - 1\<rparr>) st)"
  have drop: "strong_drop a (st, g) = ((Ok () :: (nat \<times> try_clone_error, unit) outcome), (dropped, g))" for g
    using c(1) by (simp add: strong_drop_def with_cell_def dropped_def)
  note removed = strong_removed [OF ok a drop]
  show ?thesis
  proof (cases "strong_count c = 1")
    case True
    then have "r = Ok x \<and> st' = dropped"
      using run c by (auto simp: counted_unwrap_or_try_clone_def counted_try_unwrap_def with_cell_def dropped_def)
    then show ?thesis using removed by simp
  next
    case False
    obtain q g where q: "cl x h = (q, g)" by (cases "cl x h")
    show ?thesis
      using run c False q drop removed
      by (cases q) (auto simp: counted_unwrap_or_try_clone_def counted_try_unwrap_def with_cell_def counted_deref_def)
  qed
qed

lemma step_ok:
  assumes "handle_step bump up l ((st, h), hs) ((st', h'), hs')" and ok: "handles_ok st hs"
  shows "handles_ok st' hs'"
  using assms(1)
proof cases
  case (h_new x a)
  then show ?thesis using new_ok [OF ok, of x]
    by (cases rule: alloc_box_uninit_cases [of l h]) (auto simp: counted_try_new_def split: prod.splits)
next
  case (h_new_back x a)
  then show ?thesis using new_ok [OF ok, of x]
    by (cases rule: alloc_box_uninit_cases [of l h]) (auto simp: counted_try_new_give_back_def split: prod.splits)
next
  case (h_clone a msg b)
  then obtain c where c: "cells st a = Some c" "0 < strong_count c" using strong_cell [OF ok, of a] by metis
  then show ?thesis using h_clone strong_added [OF ok c] bump_suc
    by (auto simp: strong_try_clone_def with_cell_def split: option.splits)
next
  case (h_clone_weak w msg w')
  show ?thesis
  proof (cases w)
    case Dangling
    then show ?thesis using h_clone_weak ok
      by (simp add: weak_try_clone_def handles_ok_def cell_ok_counts [of "add_mset (WeakH Dangling) hs" _ hs])
  next
    case (WeakTo a)
    then obtain c where c: "cells st a = Some c" using h_clone_weak weak_cell [OF ok, of a] by metis
    then show ?thesis using h_clone_weak WeakTo weak_added [OF ok c] bump_suc
      by (auto simp: weak_try_clone_def with_cell_def split: option.splits)
  qed
next
  case (h_downgrade a w)
  then obtain c where c: "cells st a = Some c" using strong_cell [OF ok, of a] by metis
  then show ?thesis using h_downgrade weak_added [OF ok c] bump_suc
    by (auto simp: counted_try_downgrade_def with_cell_def split: option.splits)
next
  case (h_upgrade w a)
  then obtain b where w: "w = WeakTo b" by (cases w) (auto simp: counted_try_upgrade_def)
  then obtain c where c: "cells st b = Some c" using h_upgrade weak_cell [OF ok, of b] by metis
  then obtain n where n: "up (strong_count c) = Some n" "a = b" "st' = put_cell a (c\<lparr>strong_count := n\<rparr>) st"
    using h_upgrade w by (auto simp: counted_try_upgrade_def with_cell_def split: option.splits if_splits)
  then have "0 < strong_count c" using up_zero by (cases "strong_count c") auto
  then show ?thesis using h_upgrade n up_suc strong_added [OF ok c] by auto
next
  case (h_drop a)
  then show ?thesis using strong_removed [OF ok] by auto
next
  case (h_drop_weak w)
  then show ?thesis using weak_removed [OF ok] by auto
next
  case (h_unwrap a cl x)
  then show ?thesis using unwrap_cases [OF ok] by fastforce
next
  case (h_unwrap_failed a cl b e)
  then show ?thesis using unwrap_cases [OF ok] ok by fastforce
qed

lemma upgrade_answers:
  assumes ok: "handles_ok (fst s) hs" and w: "WeakH (WeakTo a) \<in># hs"
  shows "case fst (counted_try_upgrade up (WeakTo a) s) of
      Ok None \<Rightarrow> StrongH a \<notin># hs
    | Ok (Some b) \<Rightarrow> b = a \<and> StrongH a \<in># hs
    | Err e \<Rightarrow> max_refcount \<le> count hs (StrongH a)
    | _ \<Rightarrow> False"
proof (rule weak_cell [OF ok w])
  fix c
  assume c: "cells (fst s) a = Some c" "strong_count c = count hs (StrongH a)"
  have limit: "max_refcount \<le> strong_count c" if "up (strong_count c) = None" "0 < strong_count c"
    using up_room [OF that(2)] that(1) by (metis not_le)
  show ?thesis
    using c up_zero limit
    by (cases "up (strong_count c)"; cases "strong_count c = 0")
      (auto simp: counted_try_upgrade_def with_cell_def simp flip: count_greater_zero_iff)
qed

lemma reachable_ok:
  assumes "(handle_step bump up l)\<^sup>*\<^sup>* ((st, h), {#}) (s, hs)" and "\<forall>a. cells st a = None"
  shows "handles_ok (fst s) hs"
proof -
  have "handles_ok (fst (fst p)) (snd p)" if "(handle_step bump up l)\<^sup>*\<^sup>* ((st, h), {#}) p" for p
    using that
  proof (induction rule: rtranclp_induct)
    case base
    then show ?case using assms(2) by (simp add: handles_ok_def cell_ok_def)
  next
    case (step p q)
    then show ?case using step_ok [of l "fst (fst p)" "snd (fst p)" "snd p" "fst (fst q)" "snd (fst q)" "snd q"] by simp
  qed
  from this [OF assms(1)] show ?thesis by simp
qed

end

text \<open>Both files provide the contract.\<close>

lemma max_refcount_checked: "n < max_refcount \<Longrightarrow> checked_add n (Suc 0) = Some (Suc n)"
  by (simp add: checked_add_def max_refcount_def isize_max_def usize_max_def)

interpretation arc: refcounted arc_bump arc_upgrade_bump
proof unfold_locales
  show "m = Suc n" if "arc_bump n = Some m" for n m
    using that by (auto simp: arc_bump_def checked_add_def split: if_splits)
  show "arc_bump n \<noteq> None" if "Suc n < max_refcount" for n
    using that by (simp add: arc_bump_def max_refcount_checked)
  show "m = Suc n" if "arc_upgrade_bump n = Some m" for n m
    using that by (auto simp: arc_upgrade_bump_def checked_add_def split: if_splits)
  show "arc_upgrade_bump 0 = None" by (simp add: arc_upgrade_bump_def)
  show "arc_upgrade_bump n \<noteq> None" if "0 < n" "n < max_refcount" for n
    using that max_refcount_checked [of n] by (simp add: arc_upgrade_bump_def)
qed

interpretation rc: refcounted rc_bump rc_upgrade_bump
proof unfold_locales
  show "m = Suc n" if "rc_bump n = Some m" for n m
    using that by (auto simp: rc_bump_def checked_add_def split: if_splits)
  show "rc_bump n \<noteq> None" if "Suc n < max_refcount" for n
    using that max_refcount_checked [of n] by (simp add: rc_bump_def)
  show "m = Suc n" if "rc_upgrade_bump n = Some m" for n m
    using that by (auto simp: rc_upgrade_bump_def rc_bump_def checked_add_def split: if_splits)
  show "rc_upgrade_bump 0 = None" by (simp add: rc_upgrade_bump_def)
  show "rc_upgrade_bump n \<noteq> None" if "0 < n" "n < max_refcount" for n
    using that max_refcount_checked [of n] by (simp add: rc_upgrade_bump_def rc_bump_def)
qed

text \<open>Claim C17. Whatever the owners of \<open>Arc\<close> (or \<open>Rc\<close>) handles do, starting without any: a strong handle
  always reads a value; an upgrade of a weak handle answers the block exactly when a strong handle is left, and
  errs only at the limit; and a block is allocated exactly as long as a handle of either kind is left.\<close>

theorem refcount_safe:
  assumes "(bump, up) = (arc_bump, arc_upgrade_bump) \<or> (bump, up) = (rc_bump, rc_upgrade_bump)"
    and "(handle_step bump up l)\<^sup>*\<^sup>* ((st, h), {#}) (s, hs)" and "\<forall>a. cells st a = None"
  shows "(\<forall>a. StrongH a \<in># hs \<longrightarrow> (\<exists>x. counted_deref a s = (Ok x :: (unit, _) outcome))) \<and>
    (\<forall>a. WeakH (WeakTo a) \<in># hs \<longrightarrow>
      (case fst (counted_try_upgrade up (WeakTo a) s) of
         Ok None \<Rightarrow> StrongH a \<notin># hs
       | Ok (Some b) \<Rightarrow> b = a \<and> StrongH a \<in># hs
       | Err e \<Rightarrow> max_refcount \<le> count hs (StrongH a)
       | _ \<Rightarrow> False)) \<and>
    (\<forall>a. cells (fst s) a \<noteq> None \<longleftrightarrow> StrongH a \<in># hs \<or> WeakH (WeakTo a) \<in># hs)"
proof -
  have ok: "handles_ok (fst s) hs"
    using assms arc.reachable_ok [of l st h s hs] rc.reachable_ok [of l st h s hs] by blast
  have deref: "\<exists>x. counted_deref a s = (Ok x :: (unit, _) outcome)" if "StrongH a \<in># hs" for a
    by (rule strong_cell [OF ok that]) (simp add: counted_deref_def)
  have live: "cells (fst s) a \<noteq> None \<longleftrightarrow> StrongH a \<in># hs \<or> WeakH (WeakTo a) \<in># hs" for a
    using handles_ok_cell [OF ok, of a]
    by (auto simp: cell_ok_def simp flip: count_greater_zero_iff split: option.splits if_splits)
  show ?thesis
    using deref live arc.upgrade_answers [OF ok] rc.upgrade_answers [OF ok] assms(1) by blast
qed

theorem refcount_safe_witness:
  "\<exists>s. (handle_step arc_bump arc_upgrade_bump (Layout 24 8))\<^sup>*\<^sup>*
      ((\<lparr>cells = Map.empty, next_cell = 0\<rparr>, heap_with policy_nothing), {#})
      (s, {#WeakH (WeakTo 0), StrongH 0#}) \<and>
    (\<exists>x. counted_deref 0 s = (Ok (x :: int) :: (unit, _) outcome))"
proof -
  let ?s0 = "(\<lparr>cells = Map.empty, next_cell = 0\<rparr>, heap_with policy_nothing) :: int counted_state"
  obtain h1 where h1: "alloc_box_uninit (Layout 24 8) (heap_with policy_nothing) = (Ok (), h1)"
    using alloc_box_generous [OF generous_heap_with] by blast
  let ?c = "\<lparr>strong_count = 1, weak_count = 1, c_data = Some 5\<rparr> :: int counted"
  let ?s1 = "(\<lparr>cells = [0 \<mapsto> ?c], next_cell = 1\<rparr>, h1)"
  let ?s2 = "(\<lparr>cells = [0 \<mapsto> ?c\<lparr>weak_count := 2\<rparr>], next_cell = 1\<rparr>, h1)"
  have new: "counted_try_new (Layout 24 8) 5 ?s0 = (Ok 0, ?s1)"
    using h1 by (simp add: counted_try_new_def new_cell_def)
  have "arc_bump 1 = Some 2"
    by (simp add: arc_bump_def checked_add_def usize_max_def max_refcount_def isize_max_def)
  then have down: "counted_try_downgrade arc_bump 0 ?s1 = (Ok (WeakTo 0), ?s2)"
    by (simp add: counted_try_downgrade_def with_cell_def put_cell_def)
  have steps: "(handle_step arc_bump arc_upgrade_bump (Layout 24 8))\<^sup>*\<^sup>* (?s0, {#}) (?s2, {#WeakH (WeakTo 0), StrongH 0#})"
    using h_new [OF new, of arc_bump arc_upgrade_bump "{#}"]
      h_downgrade [OF _ down, of "{#StrongH 0#}" arc_upgrade_bump "Layout 24 8"]
    by (auto intro: rtranclp_trans)
  have "\<exists>x. counted_deref 0 ?s2 = (Ok x :: (unit, _) outcome)"
    using refcount_safe [OF disjI1 [OF refl] steps] by auto
  then show ?thesis using steps by blast
qed

end
