(* ===== verification/Interner.thy ===== *)
theory Interner
  imports CHashOps Counted
begin

text \<open>
  The interner (\<^verbatim>\<open>collections/interner/mod.rs\<close>): four global concurrent maps from the hash of
  a string-like value to a weak handle on its shared copy. A value of any of the four kinds is a
  \<open>'b\<close>; \<open>hb\<close> is its hash and \<open>own\<close> its \<open>try_to_owned\<close>. The blocks of one kind are a store of
  \<open>Counted\<close>. A call that takes the lock of a shard gives it back, so what is visible of the lock is
  that the call waits while somebody else holds it.
\<close>

section \<open>Values and state\<close>

type_synonym 'b owner = "'b \<Rightarrow> heap \<Rightarrow> (to_owned_error, 'b) outcome \<times> heap"

datatype 'b intern = Owned 'b | Shared nat

datatype kind = KStr | KOsStr | KCStr | KPath

type_synonym 't intern_map = "(u64, 't) chashmap"
type_synonym ('b, 't) istate = "'t intern_map \<times> 'b counted_state"

record ('b, 't) interner =
  in_map :: "kind \<Rightarrow> 't intern_map"
  in_store :: "kind \<Rightarrow> 'b cstore"
  in_calls :: u64

fun is_shared :: "'b intern \<Rightarrow> bool" where
  "is_shared (Shared _) = True"
| "is_shared (Owned _) = False"

fun is_owned :: "'b intern \<Rightarrow> bool" where
  "is_owned (Owned _) = True"
| "is_owned (Shared _) = False"

definition from_owned :: "'b \<Rightarrow> 'b intern" where
  "from_owned x = Owned x"

definition from_arc :: "nat \<Rightarrow> 'b intern" where
  "from_arc a = Shared a"

fun intern_ptr_eq :: "'b intern \<Rightarrow> 'b intern \<Rightarrow> bool" where
  "intern_ptr_eq (Shared a) (Shared b) = (a = b)"
| "intern_ptr_eq _ _ = False"

definition intern_deref :: "'b intern \<Rightarrow> 'b counted_state \<Rightarrow> ('e, 'b) outcome" where
  "intern_deref i s = (case i of Owned x \<Rightarrow> Ok x | Shared a \<Rightarrow> counted_deref a s)"

definition intern_eq :: "'b intern \<Rightarrow> 'b intern \<Rightarrow> 'b counted_state \<Rightarrow> ('e, bool) outcome" where
  "intern_eq i j s =
     (case (i, j) of
        (Shared a, Shared b) \<Rightarrow>
          (if a = b then Ok True
           else (case (counted_deref a s, counted_deref b s) of (Ok x, Ok y) \<Rightarrow> Ok (x = y) | _ \<Rightarrow> UB))
      | _ \<Rightarrow> (case (intern_deref i s, intern_deref j s) of (Ok x, Ok y) \<Rightarrow> Ok (x = y) | _ \<Rightarrow> UB))"

definition intern_try_clone ::
    "'b cloner \<Rightarrow> 'b intern \<Rightarrow> 'b counted_state \<Rightarrow> ('b counted_state, try_clone_error, 'b intern) run" where
  "intern_try_clone cl i s =
     (case i of
        Owned x \<Rightarrow> (case s of (st, h) \<Rightarrow> case cl x h of (r, h') \<Rightarrow> (map_ok Owned r, (st, h')))
      | Shared a \<Rightarrow> map_ok_run Shared (arc_try_clone a s))"

section \<open>One shard under its lock\<close>

text \<open>\<open>f\<close> runs on the table, the store and the heap while the lock is held.\<close>

definition under_lock ::
    "(lock \<Rightarrow> lock option) \<Rightarrow> nat \<Rightarrow> ('t \<times> 'b counted_state \<Rightarrow> ('t \<times> 'b counted_state, 'e, 'a) run) \<Rightarrow>
     ('b, 't) istate \<Rightarrow> (('b, 't) istate, 'e, 'a) run option" where
  "under_lock acquire i f s =
     (case s of (m, c) \<Rightarrow>
        if length (cm_shards m) \<le> i then Some (Panic ''index out of bounds'', s)
        else if acquire (lock_of i m) = None then None
        else (case f (table_of i m, c) of (r, (t, c')) \<Rightarrow> Some (r, (set_table i t m, c'))))"

text \<open>The closure of \<open>find\<close>: upgrade the weak handle, compare, and drop the upgraded handle.\<close>

definition weak_holds :: "'b counted_state \<Rightarrow> 'b \<Rightarrow> u64 \<times> weak \<Rightarrow> bool" where
  "weak_holds c x kv =
     (case arc_try_upgrade (snd kv) c of
        (Ok (Some a), c') \<Rightarrow> (counted_deref a c' :: (unit, 'b) outcome) = Ok x
      | _ \<Rightarrow> False)"

definition intern_fast ::
    "('t, u64 \<times> weak) raw_ops \<Rightarrow> u64 \<Rightarrow> 'b \<Rightarrow> 't \<times> 'b counted_state \<Rightarrow>
     ('t \<times> 'b counted_state, to_owned_error, nat option) run" where
  "intern_fast R hash x s =
     (case s of (t, c) \<Rightarrow>
        case rt_find R hash (weak_holds c x) t of
          None \<Rightarrow> (Ok None, s)
        | Some b \<Rightarrow>
            (case rt_read R b t of
               None \<Rightarrow> (UB, s)
             | Some (_, w) \<Rightarrow>
                 (case arc_try_upgrade w c of
                    (Ok (Some a), c') \<Rightarrow> (Ok (Some a), (t, c'))
                  | (Ok None, c') \<Rightarrow> (Ok None, (t, c'))
                  | (Err _, c') \<Rightarrow> (Ok None, (t, c'))
                  | (Panic msg, c') \<Rightarrow> (Panic msg, (t, c'))
                  | (UB, c') \<Rightarrow> (UB, (t, c')))))"

definition create_new_arc ::
    "layout \<Rightarrow> 'b owner \<Rightarrow> 'b \<Rightarrow> 'b counted_state \<Rightarrow> ('b counted_state, to_owned_error, nat) run" where
  "create_new_arc l own x c =
     (case c of (st, h) \<Rightarrow>
        case own x h of
          (r, h') \<Rightarrow> and_then (r, (st, h')) (\<lambda>y c. map_err_run (\<lambda>_. OwnAlloc AllocError) (arc_try_new l y c)))"

text \<open>The two ends of the slow path: a dead entry gets a new weak handle, or a new entry is made.\<close>

definition replace_stale ::
    "('t, u64 \<times> weak) raw_ops \<Rightarrow> layout \<Rightarrow> 'b owner \<Rightarrow> 'b \<Rightarrow> bucket \<Rightarrow> u64 \<times> weak \<Rightarrow> 't \<times> 'b counted_state \<Rightarrow>
     ('t \<times> 'b counted_state, to_owned_error, nat) run" where
  "replace_stale R l own x b kv s =
     (case s of (t, c) \<Rightarrow>
        case create_new_arc l own x c of
          (Ok a, c') \<Rightarrow>
            (case arc_try_downgrade a c' of
               (Ok w, c'') \<Rightarrow>
                 (case weak_drop (snd kv) c'' of
                    (r, c3) \<Rightarrow> and_then (r, (rt_write R b (fst kv, w) t, c3)) (\<lambda>_ s. (Ok a, s)))
             | (_, c'') \<Rightarrow> (Ok a, (t, c'')))
        | (Err e, c') \<Rightarrow> (Err e, (t, c'))
        | (Panic msg, c') \<Rightarrow> (Panic msg, (t, c'))
        | (UB, c') \<Rightarrow> (UB, (t, c')))"

definition insert_new ::
    "('t, u64 \<times> weak) raw_ops \<Rightarrow> layout \<Rightarrow> 'b owner \<Rightarrow> u64 \<Rightarrow> 'b \<Rightarrow> 't \<times> 'b counted_state \<Rightarrow>
     ('t \<times> 'b counted_state, to_owned_error, nat) run" where
  "insert_new R l own hash x s =
     (case s of (t, c) \<Rightarrow>
        case create_new_arc l own x c of
          (Ok a, c') \<Rightarrow>
            (case expect_run ''fresh Arc has weak count 0'' (arc_try_downgrade a c') of
               (r, c'') \<Rightarrow> and_then (r, (t, c'')) (\<lambda>w (t, c). (Ok a, (rt_insert_no_grow R hash (hash, w) t, c))))
        | (Err e, c') \<Rightarrow> (Err e, (t, c'))
        | (Panic msg, c') \<Rightarrow> (Panic msg, (t, c'))
        | (UB, c') \<Rightarrow> (UB, (t, c')))"

definition intern_slow ::
    "('t, u64 \<times> weak) raw_ops \<Rightarrow> layout \<Rightarrow> 'b owner \<Rightarrow> (u64 \<Rightarrow> u64) \<Rightarrow> u64 \<Rightarrow> 'b \<Rightarrow> 't \<times> 'b counted_state \<Rightarrow>
     ('t \<times> 'b counted_state, to_owned_error, nat) run" where
  "intern_slow R l own hash_one hash x s =
     (case s of (t, (st, h)) \<Rightarrow>
        case rt_try_reserve R 1 (\<lambda>kv. hash_one (fst kv)) (t, h) of
          (r, (t, h)) \<Rightarrow>
            and_then (map_err (\<lambda>e. OwnReserve (try_reserve_error_from_hashbrown e)) r, (t, (st, h))) (\<lambda>_ (t, c).
              case rt_find R hash (weak_holds c x) t of
                None \<Rightarrow> insert_new R l own hash x (t, c)
              | Some b \<Rightarrow>
                  (case rt_read R b t of
                     None \<Rightarrow> (UB, (t, c))
                   | Some kv \<Rightarrow>
                       (case arc_try_upgrade (snd kv) c of
                          (Ok (Some a), c') \<Rightarrow> (Ok a, (t, c'))
                        | (_, c') \<Rightarrow> replace_stale R l own x b kv (t, c')))))"

section \<open>Interning\<close>

definition do_intern_with_key ::
    "('t, u64 \<times> weak) raw_ops \<Rightarrow> layout \<Rightarrow> 'b owner \<Rightarrow> ('b \<Rightarrow> u64) \<Rightarrow> 'b \<Rightarrow> ('b, 't) istate \<Rightarrow>
     (('b, 't) istate, to_owned_error, nat) run option" where
  "do_intern_with_key R l own hb x s =
     (let hash = hb x; i = shard_index_internal (cm_shift (fst s)) hash
      in wait_then (under_lock acquire_read i (intern_fast R hash x) s) (\<lambda>hit s.
           case hit of
             Some a \<Rightarrow> Some (Ok a, s)
           | None \<Rightarrow> under_lock acquire_write i (intern_slow R l own (cm_hash (fst s)) hash x) s))"

section \<open>Pruning\<close>

definition prune_interval :: nat where
  "prune_interval = 1024"

fun prune_buckets ::
    "('t, u64 \<times> weak) raw_ops \<Rightarrow> bucket list \<Rightarrow> 't \<times> 'b counted_state \<Rightarrow> ('t \<times> 'b counted_state, 'e, unit) run" where
  "prune_buckets R [] s = (Ok (), s)"
| "prune_buckets R (b # bs) (t, c) =
     (case rt_read R b t of
        None \<Rightarrow> (UB, (t, c))
      | Some (_, w) \<Rightarrow>
          (case arc_try_upgrade w c of
             (Ok (Some a), c') \<Rightarrow>
               (case strong_drop a c' of (r, c'') \<Rightarrow> and_then (r, (t, c'')) (\<lambda>_. prune_buckets R bs))
           | (Panic msg, c') \<Rightarrow> (Panic msg, (t, c'))
           | (UB, c') \<Rightarrow> (UB, (t, c'))
           | (_, c') \<Rightarrow>
               (case weak_drop w c' of
                  (r, c'') \<Rightarrow> and_then (r, (rt_remove R b t, c'')) (\<lambda>_. prune_buckets R bs))))"

fun prune_shards ::
    "('t, u64 \<times> weak) raw_ops \<Rightarrow> nat list \<Rightarrow> ('b, 't) istate \<Rightarrow> (('b, 't) istate, 'e, unit) run" where
  "prune_shards R [] s = (Ok (), s)"
| "prune_shards R (i # is) s =
     (case under_lock acquire_write i (\<lambda>(t, c). prune_buckets R (rt_buckets R t) (t, c)) s of
        None \<Rightarrow> prune_shards R is s
      | Some r \<Rightarrow> and_then r (\<lambda>_. prune_shards R is))"

definition prune_unlocked_shards ::
    "('t, u64 \<times> weak) raw_ops \<Rightarrow> ('b, 't) istate \<Rightarrow> (('b, 't) istate, 'e, unit) run" where
  "prune_unlocked_shards R s = prune_shards R [0..<length (cm_shards (fst s))] s"

section \<open>The four interners\<close>

type_synonym ('b, 't) interner_state = "('b, 't) interner \<times> heap"

definition on_kind ::
    "kind \<Rightarrow> (('b, 't) istate \<Rightarrow> (('b, 't) istate, 'e, 'a) run option) \<Rightarrow> ('b, 't) interner_state \<Rightarrow>
     (('b, 't) interner_state, 'e, 'a) run option" where
  "on_kind k f s =
     (case s of (n, h) \<Rightarrow>
        case f (in_map n k, (in_store n k, h)) of
          None \<Rightarrow> None
        | Some (r, (m, (st, h'))) \<Rightarrow>
            Some (r, (n\<lparr>in_map := (in_map n)(k := m), in_store := (in_store n)(k := st)\<rparr>, h')))"

fun prune_kinds ::
    "('t, u64 \<times> weak) raw_ops \<Rightarrow> kind list \<Rightarrow> ('b, 't) interner_state \<Rightarrow> (('b, 't) interner_state, 'e, unit) run option" where
  "prune_kinds R [] s = Some (Ok (), s)"
| "prune_kinds R (k # ks) s =
     wait_then (on_kind k (\<lambda>s. Some (prune_unlocked_shards R s)) s) (\<lambda>_. prune_kinds R ks)"

definition maybe_prune_all_maps ::
    "('t, u64 \<times> weak) raw_ops \<Rightarrow> ('b, 't) interner_state \<Rightarrow> (('b, 't) interner_state, 'e, unit) run option" where
  "maybe_prune_all_maps R s =
     (case s of (n, h) \<Rightarrow>
        let prev_total = in_calls n; s' = (n\<lparr>in_calls := prev_total + 1\<rparr>, h)
        in if unat prev_total mod prune_interval \<noteq> 0 then Some (Ok (), s')
           else prune_kinds R [KStr, KOsStr, KCStr, KPath] s')"

definition intern_value ::
    "('t, u64 \<times> weak) raw_ops \<Rightarrow> layout \<Rightarrow> 'b owner \<Rightarrow> ('b \<Rightarrow> u64) \<Rightarrow> kind \<Rightarrow> 'b \<Rightarrow> ('b, 't) interner_state \<Rightarrow>
     (('b, 't) interner_state, to_owned_error, 'b intern) run option" where
  "intern_value R l own hb k x s =
     wait_then (maybe_prune_all_maps R s) (\<lambda>_ s.
       map_option (map_ok_run from_arc) (on_kind k (do_intern_with_key R l own hb x) s))"

definition intern_owned ::
    "('t, u64 \<times> weak) raw_ops \<Rightarrow> layout \<Rightarrow> 'b owner \<Rightarrow> ('b \<Rightarrow> u64) \<Rightarrow> kind \<Rightarrow> 'b \<Rightarrow> ('b, 't) interner_state \<Rightarrow>
     (('b, 't) interner_state, to_owned_error, 'b intern) run option" where
  "intern_owned R l own hb k owned s =
     wait_then (maybe_prune_all_maps R s) (\<lambda>_ s.
       map_option (map_ok_run from_arc) (on_kind k (do_intern_with_key R l own hb owned) s))"

definition intern_promote ::
    "('t, u64 \<times> weak) raw_ops \<Rightarrow> layout \<Rightarrow> 'b owner \<Rightarrow> ('b \<Rightarrow> u64) \<Rightarrow> kind \<Rightarrow> 'b intern \<Rightarrow> ('b, 't) interner_state \<Rightarrow>
     (('b, 't) interner_state, to_owned_error, 'b intern) run option" where
  "intern_promote R l own hb k i s =
     (case i of
        Shared a \<Rightarrow> Some (Ok i, s)
      | Owned owned \<Rightarrow>
          wait_then (maybe_prune_all_maps R s) (\<lambda>_ s.
            case on_kind k (do_intern_with_key R l own hb owned) s of
              None \<Rightarrow> None
            | Some (Ok a, s') \<Rightarrow> Some (Ok (Shared a), s')
            | Some (Err _, s') \<Rightarrow> Some (Ok (Owned owned), s')
            | Some (Panic msg, s') \<Rightarrow> Some (Panic msg, s')
            | Some (UB, s') \<Rightarrow> Some (UB, s')))"

end
