(* ===== verification/InternProps.thy ===== *)
theory InternProps
  imports Interner CHashStep CountedProps
begin

text \<open>
  What the interner promises: an interned value reads as the value, nothing else is touched, and a
  failure leaves every block as it was. Interning a value again gives the same block as long as every
  entry is filed under the hash of its value, which the rehash at the growth of a table destroys.
\<close>

section \<open>Entries of a table\<close>

text \<open>Every entry holds a weak handle to an allocated block.\<close>

definition entries_ok :: "'b cstore \<Rightarrow> (u64 \<times> weak) stored \<Rightarrow> bool" where
  "entries_ok st m \<longleftrightarrow> (\<forall>b h k w. m b = Some (h, (k, w)) \<longrightarrow> (\<exists>a. w = WeakTo a \<and> cells st a \<noteq> None))"

definition store_ok :: "'b cstore \<Rightarrow> bool" where
  "store_ok st \<longleftrightarrow>
     (\<forall>a \<ge> next_cell st. cells st a = None) \<and>
     (\<forall>a c. cells st a = Some c \<longrightarrow> (c_data c \<noteq> None \<longleftrightarrow> 0 < strong_count c))"

definition intern_inv :: "('t \<Rightarrow> (u64 \<times> weak) stored) \<Rightarrow> 't intern_map \<Rightarrow> 'b cstore \<Rightarrow> bool" where
  "intern_inv ent m st \<longleftrightarrow>
     geometry m \<and> store_ok st \<and> (\<forall>i < length (cm_shards m). entries_ok st (ent (table_of i m)))"

definition own_ok :: "'b owner \<Rightarrow> bool" where
  "own_ok own \<longleftrightarrow> (\<forall>x h. case fst (own x h) of Ok y \<Rightarrow> y = x | Err _ \<Rightarrow> True | _ \<Rightarrow> False)"

text \<open>A block that can be upgraded, with its value.\<close>

definition live :: "'b cstore \<Rightarrow> nat \<Rightarrow> 'b \<Rightarrow> bool" where
  "live st a x \<longleftrightarrow> (\<exists>c. cells st a = Some c \<and> 0 < strong_count c \<and> strong_count c < max_refcount \<and> c_data c = Some x)"

definition bump_strong :: "nat \<Rightarrow> 'b cstore \<Rightarrow> 'b cstore" where
  "bump_strong a st = (case cells st a of Some c \<Rightarrow> put_cell a (c\<lparr>strong_count := Suc (strong_count c)\<rparr>) st | None \<Rightarrow> st)"

lemma upgrade_live:
  assumes "live st a x"
  shows "arc_try_upgrade (WeakTo a) (st, h) = (Ok (Some a), (bump_strong a st, h))"
    and "counted_deref a (bump_strong a st, h) = Ok x"
proof -
  obtain c where c: "cells st a = Some c" "0 < strong_count c" "strong_count c < max_refcount" "c_data c = Some x"
    using assms by (auto simp: live_def)
  have "arc_upgrade_bump (strong_count c) = Some (Suc (strong_count c))"
    using c max_refcount_checked [of "strong_count c"] by (simp add: arc_upgrade_bump_def)
  then show "arc_try_upgrade (WeakTo a) (st, h) = (Ok (Some a), (bump_strong a st, h))"
    using c by (simp add: arc_try_upgrade_def counted_try_upgrade_def with_cell_def bump_strong_def)
  show "counted_deref a (bump_strong a st, h) = Ok x"
    using c by (simp add: counted_deref_def bump_strong_def put_cell_def)
qed

lemma upgrade_dead:
  assumes "store_ok st" and "cells st a \<noteq> None" and "\<nexists>x. live st a x"
  shows "arc_try_upgrade (WeakTo a) (st, h) \<in> {(Ok None, (st, h)), (Err TryUpgradeError, (st, h))}"
proof -
  obtain c where c: "cells st a = Some c" using assms(2) by blast
  then have "\<not> (0 < strong_count c \<and> strong_count c < max_refcount)"
    using assms(1,3) by (auto simp: store_ok_def live_def)
  then have "arc_upgrade_bump (strong_count c) = None" by (auto simp: arc_upgrade_bump_def)
  then show ?thesis using c by (simp add: arc_try_upgrade_def counted_try_upgrade_def with_cell_def)
qed

lemma weak_holds_iff:
  assumes "store_ok st" and "cells st a \<noteq> None"
  shows "weak_holds (st, h) x (k, WeakTo a) \<longleftrightarrow> live st a x"
proof (cases "\<exists>y. live st a y")
  case True
  then obtain y where y: "live st a y" by blast
  then show ?thesis using upgrade_live [OF y, of h] by (auto simp: weak_holds_def live_def)
next
  case False
  then show ?thesis using upgrade_dead [OF assms, of h] by (auto simp: weak_holds_def)
qed

lemma bump_strong_keeps:
  assumes "store_ok st" and "live st a x"
  shows "store_ok (bump_strong a st)" and "entries_ok st m \<Longrightarrow> entries_ok (bump_strong a st) m"
    and "b \<noteq> a \<Longrightarrow> cells (bump_strong a st) b = cells st b"
proof -
  obtain c where c: "cells st a = Some c" "0 < strong_count c" using assms(2) by (auto simp: live_def)
  have eq: "bump_strong a st = put_cell a (c\<lparr>strong_count := Suc (strong_count c)\<rparr>) st"
    using c by (simp add: bump_strong_def)
  have "a < next_cell st" using assms(1) c(1) by (metis not_le option.distinct(1) store_ok_def)
  then show "store_ok (bump_strong a st)" using assms(1) c unfolding eq by (auto simp: store_ok_def put_cell_def)
  show "entries_ok st m \<Longrightarrow> entries_ok (bump_strong a st) m" unfolding eq entries_ok_def put_cell_def by fastforce
  show "b \<noteq> a \<Longrightarrow> cells (bump_strong a st) b = cells st b" by (simp add: eq put_cell_def)
qed

text \<open>A table that was reserved holds the same entries.\<close>

lemma reserved_entries:
  assumes "ent t' = ent t \<or> rebuilt hasher (ent t) (ent t')" and "ent t' b = Some (h, e)"
  shows "\<exists>b h. ent t b = Some (h, e)"
proof (cases "ent t' = ent t")
  case False
  then obtain f where f: "bij_betw f (dom (ent t)) (dom (ent t'))"
    "\<forall>b h e. ent t b = Some (h, e) \<longrightarrow> ent t' (f b) = Some (hasher e, e)"
    using assms(1) unfolding rebuilt_def by blast
  have "b \<in> f ` dom (ent t)" using f(1) assms(2) by (auto simp: bij_betw_def)
  then obtain c where "b = f c" "c \<in> dom (ent t)" by blast
  then show ?thesis using f(2) assms(2) by fastforce
qed (use assms(2) in auto)

lemma entries_ok_reserved:
  "ent t' = ent t \<or> rebuilt hasher (ent t) (ent t') \<Longrightarrow> entries_ok st (ent t) \<Longrightarrow> entries_ok st (ent t')"
  unfolding entries_ok_def using reserved_entries [of ent t' t hasher] by blast

section \<open>The two paths\<close>

lemma search_cases:
  assumes laws: "table_laws R ent" and st: "store_ok st" and t: "entries_ok st (ent t)"
  obtains (hit) b hb k a where "rt_find R hash (weak_holds (st, h) x) t = Some b" and "ent t b = Some (hb, (k, WeakTo a))"
      and "live st a x"
  | (miss) "rt_find R hash (weak_holds (st, h) x) t = None"
      and "\<And>b k a. ent t b = Some (hash, (k, WeakTo a)) \<Longrightarrow> \<not> live st a x"
proof -
  have finds: "finds hash (weak_holds (st, h) x) (ent t) (rt_find R hash (weak_holds (st, h) x) t)"
    by (rule table_find [OF laws])
  have entry: "\<exists>a. w = WeakTo a \<and> cells st a \<noteq> None" if "ent t b = Some (hb, (k, w))" for b hb k w
    using t that unfolding entries_ok_def by blast
  show thesis
  proof (cases "rt_find R hash (weak_holds (st, h) x) t")
    case None
    have "\<not> live st a x" if at: "ent t b = Some (hash, (k, WeakTo a))" for b k a
    proof -
      have "cells st a \<noteq> None" using entry [OF at] by simp
      moreover have "\<not> weak_holds (st, h) x (k, WeakTo a)" using finds None at by (auto simp: finds_def)
      ultimately show ?thesis using weak_holds_iff [OF st] by blast
    qed
    then show thesis using miss None by blast
  next
    case (Some b)
    then obtain hb k w where at: "ent t b = Some (hb, (k, w))" "weak_holds (st, h) x (k, w)"
      using finds by (auto simp: finds_def)
    obtain a where a: "w = WeakTo a" "cells st a \<noteq> None" using entry [OF at(1)] by blast
    then show thesis using hit [OF Some] at weak_holds_iff [OF st a(2)] by blast
  qed
qed

lemma intern_fast_cases:
  assumes "table_laws R ent" and "store_ok st" and "entries_ok st (ent t)"
  obtains (hit) b hb k a where "intern_fast R hash x (t, (st, h)) = (Ok (Some a), (t, (bump_strong a st, h)))"
      and "rt_find R hash (weak_holds (st, h) x) t = Some b" and "ent t b = Some (hb, (k, WeakTo a))" and "live st a x"
  | (miss) "intern_fast R hash x (t, (st, h)) = (Ok None, (t, (st, h)))"
      and "rt_find R hash (weak_holds (st, h) x) t = None"
proof (rule search_cases [OF assms, of hash h x])
  fix b hb k a
  assume *: "rt_find R hash (weak_holds (st, h) x) t = Some b" "ent t b = Some (hb, (k, WeakTo a))" "live st a x"
  then show thesis
    by (intro hit) (simp_all add: intern_fast_def table_read [OF assms(1)] upgrade_live(1))
next
  assume "rt_find R hash (weak_holds (st, h) x) t = None"
  then show thesis by (intro miss) (simp_all add: intern_fast_def)
qed

text \<open>A new block with one strong handle and the weak handle of the table.\<close>

definition fresh_block :: "'b \<Rightarrow> 'b cstore \<Rightarrow> 'b cstore" where
  "fresh_block x st =
     st\<lparr>cells := (cells st)(next_cell st \<mapsto> \<lparr>strong_count = 1, weak_count = 2, c_data = Some x\<rparr>),
        next_cell := Suc (next_cell st)\<rparr>"

lemma create_cases:
  assumes "own_ok own"
  obtains (ok) h' where "create_new_arc l own x (st, h) =
      (Ok (next_cell st), (snd (new_cell (Some x) st), h'))"
  | (failed) e h' where "create_new_arc l own x (st, h) = (Err e, (st, h'))"
proof -
  obtain r g where r: "own x h = (r, g)" by (cases "own x h")
  have own: "case r of Ok y \<Rightarrow> y = x | Err _ \<Rightarrow> True | _ \<Rightarrow> False" using assms r unfolding own_ok_def by (metis fst_conv)
  show thesis
  proof (cases r)
    case (Ok y)
    then have "y = x" using own by simp
    then show thesis using ok failed r Ok
      by (cases rule: alloc_box_uninit_cases [of l g])
        (simp_all add: create_new_arc_def arc_try_new_def counted_try_new_def new_cell_def Let_def)
  qed (use own failed r in \<open>simp_all add: create_new_arc_def\<close>)
qed

lemma arc_bump_one: "arc_bump 1 = Some 2"
  by (simp add: arc_bump_def checked_add_def usize_max_def max_refcount_def isize_max_def)

lemma insert_new_cases:
  assumes "own_ok own"
  obtains (ok) h' where "insert_new R l own hash x (t, (st, h)) =
      (Ok (next_cell st), (rt_insert_no_grow R hash (hash, WeakTo (next_cell st)) t, (fresh_block x st, h')))"
  | (failed) e h' where "insert_new R l own hash x (t, (st, h)) = (Err e, (t, (st, h')))"
proof (rule create_cases [OF assms, of l x st h])
  fix h'
  assume c: "create_new_arc l own x (st, h) = (Ok (next_cell st), (snd (new_cell (Some x) st), h'))"
  have "arc_try_downgrade (next_cell st) (snd (new_cell (Some x) st), h') =
      (Ok (WeakTo (next_cell st)), (fresh_block x st, h'))"
    using arc_bump_one
    by (simp add: arc_try_downgrade_def counted_try_downgrade_def with_cell_def new_cell_def Let_def put_cell_def fresh_block_def)
  then show thesis using c by (intro ok) (simp add: insert_new_def)
next
  fix e h'
  assume "create_new_arc l own x (st, h) = (Err e, (st, h'))"
  then show thesis by (intro failed) (simp add: insert_new_def)
qed

lemma fresh_block_ok:
  assumes "store_ok st"
  shows "store_ok (fresh_block x st)" and "entries_ok st m \<Longrightarrow> entries_ok (fresh_block x st) m"
    and "counted_deref (next_cell st) (fresh_block x st, h) = Ok x"
    and "b \<noteq> next_cell st \<Longrightarrow> cells (fresh_block x st) b = cells st b"
  using assms by (auto simp: store_ok_def entries_ok_def fresh_block_def counted_deref_def)
    (metis Suc_leD)+

lemma intern_slow_cases:
  assumes laws: "table_laws R ent" and st: "store_ok st" and t: "entries_ok st (ent t)" and own: "own_ok own"
  obtains (hit) t' h' b hb k a where
      "intern_slow R l own hone hash x (t, (st, h)) = (Ok a, (t', (bump_strong a st, h')))" and "live st a x"
      and "ent t' = ent t \<or> rebuilt (\<lambda>kv. hone (fst kv)) (ent t) (ent t')" and "ent t' b = Some (hb, (k, WeakTo a))"
      and "rt_find R hash (weak_holds (st, h') x) t' = Some b"
  | (fresh) t1 t' h' b where
      "intern_slow R l own hone hash x (t, (st, h)) = (Ok (next_cell st), (t', (fresh_block x st, h')))"
      and "ent t1 = ent t \<or> rebuilt (\<lambda>kv. hone (fst kv)) (ent t) (ent t1)"
      and "ent t' = (ent t1)(b \<mapsto> (hash, (hash, WeakTo (next_cell st))))" and "ent t1 b = None"
      and "\<And>b k a. ent t1 b = Some (hash, (k, WeakTo a)) \<Longrightarrow> \<not> live st a x"
  | (failed) e t' h' where "intern_slow R l own hone hash x (t, (st, h)) = (Err e, (t', (st, h')))"
      and "ent t' = ent t \<or> rebuilt (\<lambda>kv. hone (fst kv)) (ent t) (ent t')"
proof (rule table_reserve_cases [OF laws, of 1 "\<lambda>kv. hone (fst kv)" t h])
  fix e h'
  assume "rt_try_reserve R 1 (\<lambda>kv. hone (fst kv)) (t, h) = (Err e, (t, h'))"
  then show thesis by (intro failed [of "OwnReserve (try_reserve_error_from_hashbrown e)" t h']) (simp_all add: intern_slow_def)
next
  fix t1 g
  assume run: "rt_try_reserve R 1 (\<lambda>kv. hone (fst kv)) (t, h) = (Ok (), (t1, g))"
    and room: "rt_len R t + 1 \<le> rt_capacity R t1"
    and kept: "ent t1 = ent t \<or> rebuilt (\<lambda>kv. hone (fst kv)) (ent t) (ent t1)"
  have t1: "entries_ok st (ent t1)" by (rule entries_ok_reserved [OF kept t])
  show thesis
  proof (rule search_cases [OF laws st t1, of hash g x])
    fix b hb k a
    assume *: "rt_find R hash (weak_holds (st, g) x) t1 = Some b" "ent t1 b = Some (hb, (k, WeakTo a))" "live st a x"
    then have "intern_slow R l own hone hash x (t, (st, h)) = (Ok a, (t1, (bump_strong a st, g)))"
      using run by (simp add: intern_slow_def table_read [OF laws] upgrade_live(1))
    then show thesis using hit * kept by blast
  next
    assume none: "rt_find R hash (weak_holds (st, g) x) t1 = None"
      and free: "\<And>b k a. ent t1 b = Some (hash, (k, WeakTo a)) \<Longrightarrow> \<not> live st a x"
    have eq: "intern_slow R l own hone hash x (t, (st, h)) = insert_new R l own hash x (t1, (st, g))"
      using run none by (simp add: intern_slow_def)
    have space: "rt_len R t1 < rt_capacity R t1" using room reserved_len [OF laws kept] by simp
    obtain b where b: "ent t1 b = None"
      "ent (rt_insert_no_grow R hash (hash, WeakTo (next_cell st)) t1) = (ent t1)(b \<mapsto> (hash, (hash, WeakTo (next_cell st))))"
      using table_insert_no_grow [OF laws space] by blast
    show thesis
    proof (rule insert_new_cases [OF own, of R l hash x t1 st g])
      fix h'
      assume "insert_new R l own hash x (t1, (st, g)) =
        (Ok (next_cell st), (rt_insert_no_grow R hash (hash, WeakTo (next_cell st)) t1, (fresh_block x st, h')))"
      then show thesis using fresh eq kept b free by simp
    next
      fix e h'
      assume "insert_new R l own hash x (t1, (st, g)) = (Err e, (t1, (st, h')))"
      then show thesis using failed eq kept by simp
    qed
  qed
qed

section \<open>Interning\<close>

definition intern_shard :: "('b \<Rightarrow> u64) \<Rightarrow> 'b \<Rightarrow> 't intern_map \<Rightarrow> nat" where
  "intern_shard hb x m = shard_index_internal (cm_shift m) (hb x)"

lemma intern_shard_bound: "intern_inv ent m st \<Longrightarrow> intern_shard hb x m < length (cm_shards m)"
  unfolding intern_inv_def geometry_def intern_shard_def shard_index_internal_def fast_shard_index_def
  by (elim exE conjE) (simp only: drop_bit_bound)

lemma intern_run:
  fixes x :: 'b and hb :: "'b \<Rightarrow> u64"
  assumes inv: "intern_inv ent m st"
  defines "i \<equiv> intern_shard hb x m"
  shows "do_intern_with_key R l own hb x (m, (st, h)) =
    (if lock_of i m = Written then None
     else case intern_fast R (hb x) x (table_of i m, (st, h)) of
       (Ok (Some a), (t, c)) \<Rightarrow> Some (Ok a, (set_table i t m, c))
     | (Ok None, (t, c)) \<Rightarrow>
         (if lock_of i m = Unlocked then
            (case intern_slow R l own (cm_hash m) (hb x) x (t, c) of (r, (t', c')) \<Rightarrow> Some (r, (set_table i t' m, c')))
          else None)
     | (Err e, (t, c)) \<Rightarrow> Some (Err e, (set_table i t m, c))
     | (Panic msg, (t, c)) \<Rightarrow> Some (Panic msg, (set_table i t m, c))
     | (UB, (t, c)) \<Rightarrow> Some (UB, (set_table i t m, c)))"
proof -
  have i: "i < length (cm_shards m)" using intern_shard_bound [OF inv] by (simp add: i_def)
  obtain r t c where f: "intern_fast R (hb x) x (table_of i m, (st, h)) = (r, (t, c))" by (metis surj_pair)
  show ?thesis
  proof (cases r)
    case (Ok found)
    then show ?thesis using f i
      by (cases found) (auto simp: do_intern_with_key_def under_lock_def Let_def acquire_read_none acquire_write_iff
          intern_shard_def [symmetric] i_def [symmetric] split: prod.splits)
  qed (use f i in \<open>auto simp: do_intern_with_key_def under_lock_def Let_def acquire_read_none
        intern_shard_def [symmetric] i_def [symmetric]\<close>)
qed

lemma intern_inv_set:
  assumes "intern_inv ent m st" and "store_ok st'" and "entries_ok st' (ent t)"
    and "\<And>m. entries_ok st m \<Longrightarrow> entries_ok st' m"
  shows "intern_inv ent (set_table i t m) st'"
  using assms by (auto simp: intern_inv_def)

text \<open>Every way an interning can end.\<close>

lemma intern_cases:
  fixes x :: 'b and hb :: "'b \<Rightarrow> u64"
  assumes laws: "table_laws R ent" and inv: "intern_inv ent m st" and own: "own_ok own"
  defines "i \<equiv> intern_shard hb x m"
  obtains (waits) "do_intern_with_key R l own hb x (m, (st, h)) = None" and "lock_of i m \<noteq> Unlocked"
  | (hit) b hk k a where "do_intern_with_key R l own hb x (m, (st, h)) = Some (Ok a, (m, (bump_strong a st, h)))"
      and "rt_find R (hb x) (weak_holds (st, h) x) (table_of i m) = Some b"
      and "ent (table_of i m) b = Some (hk, (k, WeakTo a))" and "live st a x"
  | (late) t h' b hk k a where
      "do_intern_with_key R l own hb x (m, (st, h)) = Some (Ok a, (set_table i t m, (bump_strong a st, h')))"
      and "ent t = ent (table_of i m) \<or> rebuilt (\<lambda>kv. cm_hash m (fst kv)) (ent (table_of i m)) (ent t)"
      and "ent t b = Some (hk, (k, WeakTo a))" and "live st a x" and "lock_of i m = Unlocked"
      and "rt_find R (hb x) (weak_holds (st, h') x) t = Some b"
      and "\<And>b k a. ent (table_of i m) b = Some (hb x, (k, WeakTo a)) \<Longrightarrow> \<not> live st a x"
  | (fresh) t1 t h' b where
      "do_intern_with_key R l own hb x (m, (st, h)) = Some (Ok (next_cell st), (set_table i t m, (fresh_block x st, h')))"
      and "ent t1 = ent (table_of i m) \<or> rebuilt (\<lambda>kv. cm_hash m (fst kv)) (ent (table_of i m)) (ent t1)"
      and "ent t = (ent t1)(b \<mapsto> (hb x, (hb x, WeakTo (next_cell st))))" and "ent t1 b = None" and "lock_of i m = Unlocked"
      and "\<And>b k a. ent (table_of i m) b = Some (hb x, (k, WeakTo a)) \<Longrightarrow> \<not> live st a x"
  | (failed) e t h' where "do_intern_with_key R l own hb x (m, (st, h)) = Some (Err e, (set_table i t m, (st, h')))"
      and "ent t = ent (table_of i m) \<or> rebuilt (\<lambda>kv. cm_hash m (fst kv)) (ent (table_of i m)) (ent t)"
      and "lock_of i m = Unlocked"
proof -
  have i: "i < length (cm_shards m)" using intern_shard_bound [OF inv] by (simp add: i_def)
  have st: "store_ok st" and t: "entries_ok st (ent (table_of i m))" using inv i by (auto simp: intern_inv_def)
  note run = intern_run [OF inv, where hb = hb and x = x, folded i_def]
  show thesis
  proof (cases "lock_of i m = Written")
    case True
    then show thesis using waits run by simp
  next
    case False
    show thesis
    proof (rule intern_fast_cases [OF laws st t, of "hb x" x h])
      fix b hk k a
      assume "intern_fast R (hb x) x (table_of i m, (st, h)) = (Ok (Some a), (table_of i m, (bump_strong a st, h)))"
        and "rt_find R (hb x) (weak_holds (st, h) x) (table_of i m) = Some b"
        "ent (table_of i m) b = Some (hk, (k, WeakTo a))" "live st a x"
      then show thesis using hit run False by simp
    next
      assume miss: "intern_fast R (hb x) x (table_of i m, (st, h)) = (Ok None, (table_of i m, (st, h)))"
        and none: "rt_find R (hb x) (weak_holds (st, h) x) (table_of i m) = None"
      have free: "\<not> live st a x" if "ent (table_of i m) b = Some (hb x, (k, WeakTo a))" for b k a
        by (rule search_cases [OF laws st t, of "hb x" h x]) (use none that in auto)
      show thesis
      proof (cases "lock_of i m = Unlocked")
        case False
        then show thesis using waits run miss \<open>lock_of i m \<noteq> Written\<close> by simp
      next
        case True
        have eq: "do_intern_with_key R l own hb x (m, (st, h)) =
            (case intern_slow R l own (cm_hash m) (hb x) x (table_of i m, (st, h)) of
               (r, (t', c')) \<Rightarrow> Some (r, (set_table i t' m, c')))"
          using run miss True by simp
        show thesis
          by (rule intern_slow_cases [OF laws st t own, of l "cm_hash m" "hb x" x h])
            (use late fresh failed eq True free in \<open>auto split: prod.splits\<close>)
      qed
    qed
  qed
qed

lemma intern_inv_hit:
  assumes "intern_inv ent m st" and "live st a x"
  shows "intern_inv ent m (bump_strong a st)"
proof -
  have st: "store_ok st" using assms(1) by (simp add: intern_inv_def)
  show ?thesis using assms(1) bump_strong_keeps(1,2) [OF st assms(2)] by (simp add: intern_inv_def)
qed

lemma entries_ok_shard: "intern_inv ent m st \<Longrightarrow> i < length (cm_shards m) \<Longrightarrow> entries_ok st (ent (table_of i m))"
  by (simp add: intern_inv_def)

text \<open>Claim C18. Interning never panics and touches one block at most. It waits only for a held lock; it
  returns a strong handle that reads as the value, either one more handle to a block that was live or the
  first one to a new block; or it fails and leaves every block as it was. The tables keep their invariant.\<close>

theorem intern_spec:
  assumes "table_laws R ent" and "intern_inv ent m st" and "own_ok own"
  shows "case do_intern_with_key R l own hb x (m, (st, h)) of
      None \<Rightarrow> lock_of (shard_index_internal (cm_shift m) (hb x)) m \<noteq> Unlocked
    | Some (r, (m', (st', h'))) \<Rightarrow>
        intern_inv ent m' st' \<and> same_frame m m' \<and>
        (case r of
           Ok a \<Rightarrow> counted_deref a (st', h') = (Ok x :: (unit, _) outcome) \<and>
             (live st a x \<and> st' = bump_strong a st \<or> cells st a = None \<and> st' = fresh_block x st)
         | Err e \<Rightarrow> st' = st
         | _ \<Rightarrow> False)"
proof -
  let ?i = "intern_shard hb x m"
  have i: "?i < length (cm_shards m)" by (rule intern_shard_bound [OF assms(2)])
  have st: "store_ok st" using assms(2) by (simp add: intern_inv_def)
  have t: "entries_ok st (ent (table_of ?i m))" by (rule entries_ok_shard [OF assms(2) i])
  have unused: "cells st (next_cell st) = None" using st by (simp add: store_ok_def)
  show ?thesis
  proof (rule intern_cases [where hb = hb and x = x and l = l and h = h, OF assms])
    assume "do_intern_with_key R l own hb x (m, (st, h)) = None" "lock_of ?i m \<noteq> Unlocked"
    then show ?thesis by (simp add: intern_shard_def)
  next
    fix b hk k a
    assume run: "do_intern_with_key R l own hb x (m, (st, h)) = Some (Ok a, (m, (bump_strong a st, h)))" and "live st a x"
    then show ?thesis using upgrade_live(2) [of st a x h] intern_inv_hit [OF assms(2)] by simp
  next
    fix t h' b hk k a
    assume run: "do_intern_with_key R l own hb x (m, (st, h)) = Some (Ok a, (set_table ?i t m, (bump_strong a st, h')))"
      and kept: "ent t = ent (table_of ?i m) \<or> rebuilt (\<lambda>kv. cm_hash m (fst kv)) (ent (table_of ?i m)) (ent t)"
      and a: "live st a x" and free: "lock_of ?i m = Unlocked"
    have "intern_inv ent (set_table ?i t m) (bump_strong a st)"
      by (rule intern_inv_set [OF assms(2)])
        (use bump_strong_keeps(1,2) [OF st a] entries_ok_reserved [OF kept \<open>entries_ok st (ent (table_of ?i m))\<close>] in auto)
    then show ?thesis using run upgrade_live(2) [OF a, of h'] same_frame_set_table [OF i free] a by simp
  next
    fix t1 t h' b
    assume run: "do_intern_with_key R l own hb x (m, (st, h)) =
        Some (Ok (next_cell st), (set_table ?i t m, (fresh_block x st, h')))"
      and kept: "ent t1 = ent (table_of ?i m) \<or> rebuilt (\<lambda>kv. cm_hash m (fst kv)) (ent (table_of ?i m)) (ent t1)"
      and put: "ent t = (ent t1)(b \<mapsto> (hb x, (hb x, WeakTo (next_cell st))))" and free: "lock_of ?i m = Unlocked"
    have "entries_ok (fresh_block x st) (ent t1)"
      by (rule fresh_block_ok(2) [OF st entries_ok_reserved [OF kept \<open>entries_ok st (ent (table_of ?i m))\<close>]])
    then have "entries_ok (fresh_block x st) (ent t)" by (auto simp: put entries_ok_def fresh_block_def)
    then have "intern_inv ent (set_table ?i t m) (fresh_block x st)"
      by (intro intern_inv_set [OF assms(2)]) (use fresh_block_ok(1,2) [OF st] in auto)
    then show ?thesis using run fresh_block_ok(3) [OF st, of x h'] same_frame_set_table [OF i free] unused by simp
  next
    fix e t h'
    assume run: "do_intern_with_key R l own hb x (m, (st, h)) = Some (Err e, (set_table ?i t m, (st, h')))"
      and kept: "ent t = ent (table_of ?i m) \<or> rebuilt (\<lambda>kv. cm_hash m (fst kv)) (ent (table_of ?i m)) (ent t)"
      and free: "lock_of ?i m = Unlocked"
    have "intern_inv ent (set_table ?i t m) st"
      by (rule intern_inv_set [OF assms(2) st entries_ok_reserved [OF kept t]]) simp
    then show ?thesis using run same_frame_set_table [OF i free] by simp
  qed
qed

section \<open>Sharing\<close>

text \<open>Every live entry is filed under the hash of its value, in the shard of that hash, and no value has
  two live blocks.\<close>

definition deduplicated :: "('t \<Rightarrow> (u64 \<times> weak) stored) \<Rightarrow> ('b \<Rightarrow> u64) \<Rightarrow> 't intern_map \<Rightarrow> 'b cstore \<Rightarrow> bool" where
  "deduplicated ent hb m st \<longleftrightarrow>
     (\<forall>i < length (cm_shards m). \<forall>b hk k a y.
        ent (table_of i m) b = Some (hk, (k, WeakTo a)) \<longrightarrow> live st a y \<longrightarrow>
        hk = hb y \<and>
        (\<forall>b' hk' k' a'. ent (table_of i m) b' = Some (hk', (k', WeakTo a')) \<longrightarrow> live st a' y \<longrightarrow> a' = a))"

lemma live_bumped: "live (bump_strong a st) c y \<Longrightarrow> live st a x \<Longrightarrow> live st c y"
  by (auto simp: live_def bump_strong_def put_cell_def split: if_splits)

lemma live_fresh: "live (fresh_block x st) c y \<Longrightarrow> c \<noteq> next_cell st \<Longrightarrow> live st c y"
  by (auto simp: live_def fresh_block_def)

lemma live_value: "live st a x \<Longrightarrow> live st a y \<Longrightarrow> y = x"
  by (auto simp: live_def)

text \<open>When the entries of the value's shard are filed right and point to one block, interning answers it.\<close>

lemma intern_again:
  assumes laws: "table_laws R ent" and inv: "intern_inv ent m st" and own: "own_ok own"
    and lock: "lock_of (intern_shard hb x m) m \<noteq> Written"
    and at: "ent (table_of (intern_shard hb x m) m) bkt = Some (hb x, (key, WeakTo a))" "live st a x"
    and one: "\<And>b hk k c. ent (table_of (intern_shard hb x m) m) b = Some (hk, (k, WeakTo c)) \<Longrightarrow> live st c x \<Longrightarrow> c = a"
  shows "do_intern_with_key R l own hb x (m, (st, h)) = Some (Ok a, (m, (bump_strong a st, h)))"
proof -
  let ?i = "intern_shard hb x m"
  have i: "?i < length (cm_shards m)" by (rule intern_shard_bound [OF inv])
  have st: "store_ok st" and t: "entries_ok st (ent (table_of ?i m))"
    using inv entries_ok_shard [OF inv i] by (simp_all add: intern_inv_def)
  note run = intern_run [OF inv, where hb = hb and x = x]
  show ?thesis
  proof (rule intern_fast_cases [OF laws st t, of "hb x" x h])
    fix b hk k c
    assume "intern_fast R (hb x) x (table_of ?i m, (st, h)) = (Ok (Some c), (table_of ?i m, (bump_strong c st, h)))"
      "ent (table_of ?i m) b = Some (hk, (k, WeakTo c))" "live st c x"
    then show ?thesis using run lock one [of b hk k c] by simp
  next
    assume "rt_find R (hb x) (weak_holds (st, h) x) (table_of ?i m) = None"
    then have "\<not> weak_holds (st, h) x (key, WeakTo a)"
      using table_find [OF laws, of "hb x" "weak_holds (st, h) x" "table_of ?i m"] at(1) by (auto simp: finds_def)
    moreover have "cells st a \<noteq> None" using at(2) by (auto simp: live_def)
    ultimately show ?thesis using at(2) weak_holds_iff [OF st] by blast
  qed
qed

text \<open>Claim C19. Interning a value twice in a row gives the same block, if the live entries of the map are
  filed under the hashes of their values and the block is not at the limit of its counter.\<close>

theorem intern_twice:
  assumes "table_laws R ent" and "intern_inv ent m st" and "own_ok own" and "deduplicated ent hb m st"
    and "do_intern_with_key R l own hb x (m, (st, h)) = Some (Ok a, (m', (st', h')))" and "live st' a x"
  shows "do_intern_with_key R l own hb x (m', (st', h')) = Some (Ok a, (m', (bump_strong a st', h')))"
proof -
  let ?i = "intern_shard hb x m"
  have i: "?i < length (cm_shards m)" by (rule intern_shard_bound [OF assms(2)])
  have st: "store_ok st" using assms(2) by (simp add: intern_inv_def)
  have filed: "hk = hb y" if "ent (table_of ?i m) b = Some (hk, (k, WeakTo c))" "live st c y" for b hk k c y
    using assms(4) i that unfolding deduplicated_def by blast
  have single: "c' = c" if "ent (table_of ?i m) b = Some (hk, (k, WeakTo c))" "live st c y"
    "ent (table_of ?i m) b' = Some (hk', (k', WeakTo c'))" "live st c' y" for b b' hk hk' k k' c c' y
    using assms(4) i that unfolding deduplicated_def by blast
  show ?thesis
  proof (rule intern_cases [where hb = hb and x = x and l = l and h = h, OF assms(1-3)])
    fix b hk k c
    assume run: "do_intern_with_key R l own hb x (m, (st, h)) = Some (Ok c, (m, (bump_strong c st, h)))"
      and at: "ent (table_of ?i m) b = Some (hk, (k, WeakTo c))" "live st c x"
    have eq: "c = a" "m' = m" "st' = bump_strong a st" "h' = h" using run assms(5) by auto
    have "lock_of ?i m \<noteq> Written" using run intern_run [OF assms(2), where hb = hb and x = x and R = R and l = l and own = own and h = h] by auto
    show ?thesis
      unfolding eq(2,4)
    proof (rule intern_again [OF assms(1) _ assms(3), where bkt = b and key = k])
      show "intern_inv ent m st'" unfolding eq(3) by (rule intern_inv_hit [OF assms(2)]) (use at(2) eq(1) in simp)
      show "lock_of ?i m \<noteq> Written" by fact
      show "ent (table_of ?i m) b = Some (hb x, (k, WeakTo a))" using at filed [OF at] eq(1) by simp
      show "live st' a x" by fact
      show "c' = a" if "ent (table_of ?i m) b' = Some (hk', (k', WeakTo c'))" "live st' c' x" for b' hk' k' c'
      proof -
        have "live (bump_strong a st) c' x" using that(2) by (simp only: eq(3))
        moreover have "live st a x" using at(2) by (simp only: eq(1))
        ultimately have "live st c' x" by (rule live_bumped)
        then show ?thesis using single [OF at that(1)] eq(1) by blast
      qed
    qed
  next
    fix t g b hk k c
    assume kept: "ent t = ent (table_of ?i m) \<or> rebuilt (\<lambda>kv. cm_hash m (fst kv)) (ent (table_of ?i m)) (ent t)"
      and at: "ent t b = Some (hk, (k, WeakTo c))" "live st c x"
      and none: "\<And>b k a. ent (table_of ?i m) b = Some (hb x, (k, WeakTo a)) \<Longrightarrow> \<not> live st a x"
    obtain b' hk' where "ent (table_of ?i m) b' = Some (hk', (k, WeakTo c))"
      using reserved_entries [OF kept at(1)] by blast
    then have False using filed [OF _ at(2)] none at(2) by metis
    then show ?thesis ..
  next
    fix t1 t g b
    assume run: "do_intern_with_key R l own hb x (m, (st, h)) =
        Some (Ok (next_cell st), (set_table ?i t m, (fresh_block x st, g)))"
      and kept: "ent t1 = ent (table_of ?i m) \<or> rebuilt (\<lambda>kv. cm_hash m (fst kv)) (ent (table_of ?i m)) (ent t1)"
      and put: "ent t = (ent t1)(b \<mapsto> (hb x, (hb x, WeakTo (next_cell st))))"
      and free: "lock_of ?i m = Unlocked"
      and none: "\<And>b k a. ent (table_of ?i m) b = Some (hb x, (k, WeakTo a)) \<Longrightarrow> \<not> live st a x"
    have eq: "a = next_cell st" "m' = set_table ?i t m" "st' = fresh_block x st" "h' = g" using run assms(5) by auto
    have shard: "intern_shard hb x m' = ?i" by (simp add: eq intern_shard_def)
    have one: "c = a" if "ent t b' = Some (hk, (k, WeakTo c))" "live st' c x" for b' hk k c
    proof (rule ccontr)
      assume "c \<noteq> a"
      then have "ent t1 b' = Some (hk, (k, WeakTo c))" "live st c x"
        using that eq live_fresh by (auto simp: put split: if_splits)
      moreover obtain b2 hk2 where "ent (table_of ?i m) b2 = Some (hk2, (k, WeakTo c))"
        using reserved_entries [OF kept calculation(1)] by blast
      ultimately show False using filed [of b2 hk2 k c x] none by metis
    qed
    have "entries_ok (fresh_block x st) (ent t1)"
      by (rule fresh_block_ok(2) [OF st entries_ok_reserved [OF kept entries_ok_shard [OF assms(2) i]]])
    then have "entries_ok st' (ent t)" by (auto simp: eq put entries_ok_def fresh_block_def)
    then have "intern_inv ent m' st'"
      unfolding eq by (intro intern_inv_set [OF assms(2)]) (use fresh_block_ok(1,2) [OF st] in auto)
    moreover have "lock_of (intern_shard hb x m') m' \<noteq> Written"
      unfolding shard using free i by (simp add: eq(2))
    moreover have "ent (table_of (intern_shard hb x m') m') b = Some (hb x, (hb x, WeakTo a))"
      unfolding shard using i by (simp add: eq put)
    moreover have "c = a" if "ent (table_of (intern_shard hb x m') m') b' = Some (hk, (k, WeakTo c))" "live st' c x"
      for b' hk k c
    proof -
      have "table_of (intern_shard hb x m') m' = t" unfolding shard using i by (simp add: eq(2))
      then show ?thesis using one that by metis
    qed
    ultimately show ?thesis by (rule intern_again [OF assms(1) _ assms(3) _ _ assms(6)])
  next
    fix e t g
    assume "do_intern_with_key R l own hb x (m, (st, h)) = Some (Err e, (set_table ?i t m, (st, g)))"
    then show ?thesis using assms(5) by simp
  qed (use assms(5) in simp)
qed

end
