(* ===== verification/InternSplit.thy ===== *)
theory InternSplit
  imports InternProps
begin

text \<open>
  The growth of a table against the sharing of interned values. The slow path reserves with a hasher
  that hashes the stored key, which is itself the hash of the value; a growing table files its entries
  under the hash of the hash, where no later search for the value looks.
\<close>

section \<open>Interning on a full list table\<close>

lemma first_index_miss: "\<forall>s \<in> set t. \<not> P s \<Longrightarrow> first_index P t = None"
  by (induction t) auto

lemma first_index_append: "\<forall>s \<in> set t. \<not> P s \<Longrightarrow> P y \<Longrightarrow> first_index P (t @ [y]) = Some (length t)"
  by (induction t) auto

definition misses :: "'b cstore \<Rightarrow> u64 \<Rightarrow> 'b \<Rightarrow> (u64 \<times> weak) slot_table \<Rightarrow> bool" where
  "misses st hash x t \<longleftrightarrow> (\<forall>g. \<forall>s \<in> set t. \<not> slot_match hash (weak_holds (st, g) x) s)"

definition rehashed :: "(u64 \<Rightarrow> u64) \<Rightarrow> (u64 \<times> weak) slot_table \<Rightarrow> (u64 \<times> weak) slot_table" where
  "rehashed hone t = map (map_option (\<lambda>(_, e). (hone (fst e), e))) t"

lemma intern_full_table:
  assumes inv: "intern_inv slot_entries m st" and lock: "lock_of (intern_shard hb x m) m = Unlocked"
    and t: "table_of (intern_shard hb x m) m = t" and full: "\<forall>s \<in> set t. s \<noteq> None"
    and miss: "misses st (hb x) x t" "misses st (hb x) x (rehashed (cm_hash m) t)"
    and own: "\<And>z g. own z g = (Ok z, g)" and h: "generous h"
  shows "\<exists>h'. do_intern_with_key slot_ops l own hb x (m, (st, h)) =
      Some (Ok (next_cell st),
        (set_table (intern_shard hb x m) (rehashed (cm_hash m) t @ [Some (hb x, (hb x, WeakTo (next_cell st)))]) m,
         (fresh_block x st, h'))) \<and> generous h'"
proof -
  let ?hasher = "\<lambda>kv :: u64 \<times> weak. cm_hash m (fst kv)"
  obtain h1 where h1: "galloc h = (True, h1)" "generous h1" using generous_galloc [OF h] by (metis prod.collapse)
  obtain h2 where h2: "alloc_box_uninit l h1 = (Ok (), h2)" "generous h2" using alloc_box_generous [OF h1(2)] by blast
  have fast: "intern_fast slot_ops (hb x) x (t, (st, h)) = (Ok None, (t, (st, h)))"
    using miss(1) first_index_miss [of t "slot_match (hb x) (weak_holds (st, h) x)"]
    by (simp add: intern_fast_def slot_ops_def misses_def)
  have none: "filter (\<lambda>s. s = None) t = []" using full by (simp add: filter_empty_conv)
  have grown: "map (map_option (\<lambda>(_, e). (?hasher e, e))) t = rehashed (cm_hash m) t"
    by (simp add: rehashed_def)
  have reserve: "rt_try_reserve slot_ops 1 ?hasher (t, h) = (Ok (), (rehashed (cm_hash m) t @ [None], h1))"
    using none h1(1) grown by (simp add: slot_ops_def slot_reserve_def)
  have find: "rt_find slot_ops (hb x) (weak_holds (st, h1) x) (rehashed (cm_hash m) t @ [None]) = None"
    using miss(2) by (auto simp: slot_ops_def misses_def slot_match_def intro!: first_index_miss)
  have full': "\<forall>s \<in> set (rehashed (cm_hash m) t). s \<noteq> None" using full by (auto simp: rehashed_def)
  have put: "rt_insert_no_grow slot_ops (hb x) e (rehashed (cm_hash m) t @ [None]) =
      rehashed (cm_hash m) t @ [Some (hb x, e)]" for e
    using first_index_append [of "rehashed (cm_hash m) t" "\<lambda>s. s = None"] full' by (simp add: slot_ops_def)
  have create: "create_new_arc l own x (st, h1) = (Ok (next_cell st), (snd (new_cell (Some x) st), h2))"
    using h2(1) own by (simp add: create_new_arc_def arc_try_new_def counted_try_new_def new_cell_def Let_def)
  have down: "arc_try_downgrade (next_cell st) (snd (new_cell (Some x) st), h2) =
      (Ok (WeakTo (next_cell st)), (fresh_block x st, h2))"
    using arc_bump_one
    by (simp add: arc_try_downgrade_def counted_try_downgrade_def with_cell_def new_cell_def Let_def put_cell_def fresh_block_def)
  have slow: "intern_slow slot_ops l own (cm_hash m) (hb x) x (t, (st, h)) =
      (Ok (next_cell st),
       (rehashed (cm_hash m) t @ [Some (hb x, (hb x, WeakTo (next_cell st)))], (fresh_block x st, h2)))"
    using reserve find create down put by (simp add: intern_slow_def insert_new_def)
  show ?thesis
    using intern_run [OF inv, where hb = hb and x = x and R = slot_ops and l = l and own = own and h = h]
      fast slow lock h2(2) by (simp add: t)
qed

section \<open>Entries filed under another hash\<close>

text \<open>No entry that holds \<open>x\<close> is filed, now or after a rehash, where a search for \<open>x\<close> looks.\<close>

definition misfiled ::
    "('t \<Rightarrow> (u64 \<times> weak) stored) \<Rightarrow> (u64 \<Rightarrow> u64) \<Rightarrow> ('b \<Rightarrow> u64) \<Rightarrow> 'b \<Rightarrow> 't intern_map \<Rightarrow> 'b cstore \<Rightarrow> bool" where
  "misfiled ent tag hb x m st \<longleftrightarrow>
     (\<forall>b hk k c. ent (table_of (intern_shard hb x m) m) b = Some (hk, (k, WeakTo c)) \<longrightarrow> live st c x \<longrightarrow>
        tag hk \<noteq> tag (hb x) \<and> tag (cm_hash m k) \<noteq> tag (hb x))"

definition misfiled_entry :: "(u64 \<Rightarrow> u64) \<Rightarrow> ('b \<Rightarrow> u64) \<Rightarrow> 't intern_map \<Rightarrow> 'b \<Rightarrow> u64 \<Rightarrow> u64 \<Rightarrow> bool" where
  "misfiled_entry tag hb m x hk k \<longleftrightarrow> tag hk \<noteq> tag (hb x) \<and> tag (cm_hash m k) \<noteq> tag (hb x)"

lemma rebuilt_entry:
  assumes "rebuilt (\<lambda>kv. hone (fst kv)) n n'" and "n' b = Some (hk, (k, w))"
  shows "\<exists>b' hk'. n b' = Some (hk', (k, w)) \<and> hk = hone k"
proof -
  obtain f where f: "bij_betw f (dom n) (dom n')" "\<And>b h e. n b = Some (h, e) \<Longrightarrow> n' (f b) = Some (hone (fst e), e)"
    using assms(1) by (auto simp: rebuilt_def)
  have "b \<in> f ` dom n" using f(1) assms(2) by (auto simp: bij_betw_def)
  then obtain b' h' e' where at: "n b' = Some (h', e')" "b = f b'" by auto
  have "Some (hk, (k, w)) = Some (hone (fst e'), e')" using f(2) [OF at(1)] assms(2) at(2) by metis
  then have eq: "hk = hone (fst e')" "e' = (k, w)" by (simp_all only: option.inject prod.inject)
  show ?thesis using at(1) unfolding eq by auto
qed

text \<open>Then interning \<open>x\<close> makes another block, or fails for lack of memory.\<close>

lemma misfiled_interning:
  assumes laws: "table_laws R ent" and tags: "tagged_search R ent tag" and inv: "intern_inv ent m st" and own: "own_ok own"
    and lock: "lock_of (intern_shard hb x m) m = Unlocked" and mis: "misfiled ent tag hb x m st"
  obtains (fresh) m' h' where "do_intern_with_key R l own hb x (m, (st, h)) = Some (Ok (next_cell st), (m', (fresh_block x st, h')))"
  | (failed) e s' where "do_intern_with_key R l own hb x (m, (st, h)) = Some (Err e, s')"
proof (rule intern_cases [where hb = hb and x = x and l = l and h = h, OF laws inv own])
  fix b hk k c
  assume "rt_find R (hb x) (weak_holds (st, h) x) (table_of (intern_shard hb x m) m) = Some b"
    "ent (table_of (intern_shard hb x m) m) b = Some (hk, (k, WeakTo c))" "live st c x"
  then show thesis using tags mis unfolding tagged_search_def misfiled_def by blast
next
  fix t g b hk k c
  assume kept: "ent t = ent (table_of (intern_shard hb x m) m) \<or>
      rebuilt (\<lambda>kv. cm_hash m (fst kv)) (ent (table_of (intern_shard hb x m) m)) (ent t)"
    and at: "ent t b = Some (hk, (k, WeakTo c))" "live st c x" "rt_find R (hb x) (weak_holds (st, g) x) t = Some b"
  have "tag hk \<noteq> tag (hb x)"
  proof (cases "ent t = ent (table_of (intern_shard hb x m) m)")
    case True
    then show ?thesis using mis at(1,2) unfolding misfiled_def by simp
  next
    case False
    then have rebuilt: "rebuilt (\<lambda>kv. cm_hash m (fst kv)) (ent (table_of (intern_shard hb x m) m)) (ent t)"
      using kept by blast
    obtain b' hk' where "ent (table_of (intern_shard hb x m) m) b' = Some (hk', (k, WeakTo c))" "hk = cm_hash m k"
      using rebuilt_entry [OF rebuilt at(1)] by auto
    then show ?thesis using mis at(2) unfolding misfiled_def by blast
  qed
  then show thesis using tags at(1,3) unfolding tagged_search_def by blast
qed (use lock fresh failed in auto)

text \<open>A value that is not in its shard yet, whose insertion makes the table of the shard grow.\<close>

lemma growing_interning:
  assumes laws: "table_laws R ent" and inv: "intern_inv ent m st" and own: "own_ok own"
    and i: "i = intern_shard hb y m" and lock: "lock_of i m = Unlocked"
    and new: "\<And>b hk k c. ent (table_of i m) b = Some (hk, (k, WeakTo c)) \<Longrightarrow> \<not> live st c y"
    and grow: "rt_try_reserve R 1 (\<lambda>kv. cm_hash m (fst kv)) (table_of i m, h) = (Ok (), (t1, g))"
    and kept: "rebuilt (\<lambda>kv. cm_hash m (fst kv)) (ent (table_of i m)) (ent t1)"
  obtains (fresh) t2 b h' where "do_intern_with_key R l own hb y (m, (st, h)) =
      Some (Ok (next_cell st), (set_table i t2 m, (fresh_block y st, h')))"
      and "ent t2 = (ent t1)(b \<mapsto> (hb y, (hb y, WeakTo (next_cell st))))"
  | (failed) e h' where "do_intern_with_key R l own hb y (m, (st, h)) = Some (Err e, (set_table i t1 m, (st, h')))"
proof -
  have bound: "i < length (cm_shards m)" unfolding i by (rule intern_shard_bound [OF inv])
  have st: "store_ok st" and t: "entries_ok st (ent (table_of i m))"
    using inv entries_ok_shard [OF inv bound] by (simp_all add: intern_inv_def)
  have t1: "entries_ok st (ent t1)" by (rule entries_ok_reserved [OF disjI2 [OF kept] t])
  have new1: "\<not> live st c y" if "ent t1 b = Some (hk, (k, WeakTo c))" for b hk k c
    using rebuilt_entry [OF kept that] new by blast
  have fast: "intern_fast R (hb y) y (table_of i m, (st, h)) = (Ok None, (table_of i m, (st, h)))"
    by (rule intern_fast_cases [OF laws st t, of "hb y" y h]) (use new in blast)+
  have none: "rt_find R (hb y) (weak_holds (st, g) y) t1 = None"
    by (rule search_cases [OF laws st t1, of "hb y" g y]) (use new1 in blast)+
  have slow: "intern_slow R l own (cm_hash m) (hb y) y (table_of i m, (st, h)) = insert_new R l own (hb y) y (t1, (st, g))"
    using grow none by (simp add: intern_slow_def)
  have run: "do_intern_with_key R l own hb y (m, (st, h)) =
      (case insert_new R l own (hb y) y (t1, (st, g)) of (r, (t', c')) \<Rightarrow> Some (r, (set_table i t' m, c')))"
    using intern_run [OF inv, where hb = hb and x = y and R = R and l = l and own = own and h = h] fast slow lock
    by (simp flip: i)
  have "rt_len R (table_of i m) + 1 \<le> rt_capacity R t1"
    by (rule table_reserve_cases [OF laws, of 1 "\<lambda>kv. cm_hash m (fst kv)" "table_of i m" h]) (use grow in auto)
  then have space: "rt_len R t1 < rt_capacity R t1" using reserved_len [OF laws disjI2 [OF kept]] by simp
  obtain b where "ent (rt_insert_no_grow R (hb y) (hb y, WeakTo (next_cell st)) t1) =
      (ent t1)(b \<mapsto> (hb y, (hb y, WeakTo (next_cell st))))"
    using table_insert_no_grow [OF laws space] by blast
  then show thesis
    by (cases rule: insert_new_cases [OF own, of R l "hb y" y t1 st g]) (use run that in auto)
qed

text \<open>Claim C20. Over every table that obeys the laws and searches by the tags of its hashes: let \<open>x\<close> be interned,
  so that interning it again answers its block, and let the interning of another value \<open>y\<close> of the same shard
  make the table grow and rehash. When the hash of the stored hash of \<open>x\<close> has another tag than the hash of \<open>x\<close>, then
  after that interning, even a failed one, interning \<open>x\<close> answers a second block (or fails for lack of memory),
  while the first block is still live and reads as \<open>x\<close>. So equal values stop being shared.\<close>

theorem intern_growth_splits:
  fixes x y :: 'b
  assumes "table_laws R ent" and "tagged_search R ent tag" and "intern_inv ent m st" and "own_ok own"
    and "i = intern_shard hb x m" and "intern_shard hb y m = i" and "lock_of i m = Unlocked" and "x \<noteq> y"
    and "ent (table_of i m) bkt = Some (hb x, (hb x, WeakTo a))" and "live st a x"
    and "\<And>b hk k c. ent (table_of i m) b = Some (hk, (k, WeakTo c)) \<Longrightarrow>
      \<not> live st c y \<and> (live st c x \<longrightarrow> c = a \<and> k = hb x)"
    and "rt_try_reserve R 1 (\<lambda>kv. cm_hash m (fst kv)) (table_of i m, h) = (Ok (), (t1, g))"
    and "rebuilt (\<lambda>kv. cm_hash m (fst kv)) (ent (table_of i m)) (ent t1)"
    and "tag (cm_hash m (hb x)) \<noteq> tag (hb x)"
  shows "do_intern_with_key R l own hb x (m, (st, h)) = Some (Ok a, (m, (bump_strong a st, h))) \<and>
    (\<exists>q s2 r s3.
       do_intern_with_key R l own hb y (m, (st, h)) = Some (q, s2) \<and> (q = Ok (next_cell st) \<or> (\<exists>e. q = Err e)) \<and>
       do_intern_with_key R l own hb x s2 = Some (r, s3) \<and>
       ((\<exists>c. r = Ok c \<and> c \<noteq> a \<and> counted_deref a (snd s3) = (Ok x :: (unit, _) outcome) \<and>
           counted_deref c (snd s3) = (Ok x :: (unit, _) outcome)) \<or> (\<exists>e. r = Err e)))"
proof -
  have i: "i < length (cm_shards m)" unfolding assms(5) by (rule intern_shard_bound [OF assms(3)])
  have st: "store_ok st" and t: "entries_ok st (ent (table_of i m))"
    using assms(3) entries_ok_shard [OF assms(3) i] by (simp_all add: intern_inv_def)
  have before: "do_intern_with_key R l own hb x (m, (st, h)) = Some (Ok a, (m, (bump_strong a st, h)))"
  proof (rule intern_again [OF assms(1,3,4), where hb = hb and x = x, folded assms(5)])
    show "lock_of i m \<noteq> Written" using assms(7) by simp
    show "ent (table_of i m) bkt = Some (hb x, (hb x, WeakTo a))" by (rule assms(9))
    show "live st a x" by (rule assms(10))
    show "c = a" if "ent (table_of i m) b = Some (hk, (k, WeakTo c))" "live st c x" for b hk k c
      using assms(11) [OF that(1)] that(2) by blast
  qed
  have old: "misfiled_entry tag hb m x hk k" if "ent t1 b = Some (hk, (k, WeakTo c))" "live st c x" for b hk k c
    using rebuilt_entry [OF assms(13) that(1)] assms(11,14) that(2) by (auto simp: misfiled_entry_def)
  have a: "a < next_cell st" using st assms(10) by (metis live_def not_le option.distinct(1) store_ok_def)
  have split: "\<exists>r s3. do_intern_with_key R l own hb x (set_table i t2 m, (st2, h2)) = Some (r, s3) \<and>
      ((\<exists>c. r = Ok c \<and> c \<noteq> a \<and> counted_deref a (snd s3) = (Ok x :: (unit, _) outcome) \<and>
          counted_deref c (snd s3) = (Ok x :: (unit, _) outcome)) \<or> (\<exists>e. r = Err e))"
    if ok: "store_ok st2" "entries_ok st2 (ent t2)" "\<And>n. entries_ok st n \<Longrightarrow> entries_ok st2 n" "a < next_cell st2" "live st2 a x"
      and mis: "\<And>b hk k c. ent t2 b = Some (hk, (k, WeakTo c)) \<Longrightarrow> live st2 c x \<Longrightarrow> misfiled_entry tag hb m x hk k"
    for t2 st2 h2
  proof -
    have inv2: "intern_inv ent (set_table i t2 m) st2" by (rule intern_inv_set [OF assms(3) ok(1-3)])
    have sh: "intern_shard hb x (set_table i t2 m) = i" using assms(5) by (simp add: intern_shard_def)
    have mis2: "misfiled ent tag hb x (set_table i t2 m) st2"
      using mis i by (auto simp: misfiled_def sh misfiled_entry_def)
    have lock: "lock_of (intern_shard hb x (set_table i t2 m)) (set_table i t2 m) = Unlocked"
      unfolding sh using assms(7) i by simp
    show ?thesis
    proof (rule misfiled_interning [OF assms(1,2) inv2 assms(4) lock mis2, of l h2])
      fix m3 h3
      assume "do_intern_with_key R l own hb x (set_table i t2 m, (st2, h2)) = Some (Ok (next_cell st2), (m3, (fresh_block x st2, h3)))"
      moreover have "counted_deref a (fresh_block x st2, h3) = (Ok x :: (unit, _) outcome)"
        using ok(4,5) by (auto simp: counted_deref_def fresh_block_def live_def)
      moreover have "counted_deref (next_cell st2) (fresh_block x st2, h3) = (Ok x :: (unit, _) outcome)"
        by (rule fresh_block_ok(3) [OF ok(1)])
      ultimately show ?thesis using ok(4) by auto
    qed auto
  qed
  have t1: "entries_ok st (ent t1)" by (rule entries_ok_reserved [OF disjI2 [OF assms(13)] t])
  show ?thesis
  proof (rule growing_interning [OF assms(1,3,4) assms(6) [symmetric] assms(7) _ assms(12,13), of l])
    fix t2 b h'
    assume run: "do_intern_with_key R l own hb y (m, (st, h)) = Some (Ok (next_cell st), (set_table i t2 m, (fresh_block y st, h')))"
      and t2: "ent t2 = (ent t1)(b \<mapsto> (hb y, (hb y, WeakTo (next_cell st))))"
    have "entries_ok (fresh_block y st) (ent t2)"
      using fresh_block_ok(2) [OF st t1, of y] by (auto simp: t2 entries_ok_def fresh_block_def)
    moreover have "live (fresh_block y st) a x" using assms(10) a by (simp add: live_def fresh_block_def)
    moreover have "misfiled_entry tag hb m x hk k"
      if "ent t2 b' = Some (hk, (k, WeakTo c))" "live (fresh_block y st) c x" for b' hk k c
    proof -
      have "c \<noteq> next_cell st" using that(2) assms(8) by (auto simp: live_def fresh_block_def)
      then show ?thesis using that old live_fresh [OF that(2)] by (auto simp: t2 split: if_splits)
    qed
    ultimately show ?thesis
      using split [of "fresh_block y st" t2 h'] fresh_block_ok(1,2) [OF st] a before run by (auto simp: fresh_block_def)
  next
    fix e h'
    assume "do_intern_with_key R l own hb y (m, (st, h)) = Some (Err e, (set_table i t1 m, (st, h')))"
    then show ?thesis using split [of st t1 h'] st t1 a assms(10) old before by blast
  qed (use assms(11) in blast)
qed

text \<open>On the list table, which grows at every insertion, all three calls succeed.\<close>

lemma slot_growth_splits:
  fixes x y :: 'b
  assumes "intern_inv slot_entries m st" and "\<forall>a. cells st a = None" and "next_cell st = 0"
    and "intern_shard hb y m = intern_shard hb x m" and "table_of (intern_shard hb x m) m = []"
    and "lock_of (intern_shard hb x m) m = Unlocked" and "x \<noteq> y"
    and "hb y \<noteq> hb x" and "cm_hash m (hb x) \<noteq> hb x"
    and "\<And>z g. own z g = (Ok z, g)" and "generous h"
  shows "\<exists>s1 s2 s3.
    do_intern_with_key slot_ops l own hb x (m, (st, h)) = Some (Ok 0, s1) \<and>
    do_intern_with_key slot_ops l own hb y s1 = Some (Ok 1, s2) \<and>
    do_intern_with_key slot_ops l own hb x s2 = Some (Ok 2, s3) \<and>
    counted_deref 0 (snd s3) = (Ok x :: (unit, _) outcome) \<and> counted_deref 2 (snd s3) = (Ok x :: (unit, _) outcome)"
proof -
  let ?i = "intern_shard hb x m" and ?hone = "cm_hash m"
  have own: "own_ok own" using assms(10) by (simp add: own_ok_def)
  have i: "?i < length (cm_shards m)" by (rule intern_shard_bound [OF assms(1)])
  let ?st1 = "fresh_block x st" and ?t1 = "[Some (hb x, (hb x, WeakTo 0))]"
  let ?st2 = "fresh_block y ?st1" and ?t2 = "[Some (?hone (hb x), (hb x, WeakTo 0)), Some (hb y, (hb y, WeakTo 1))]"
  let ?st3 = "fresh_block x ?st2"
  let ?m1 = "set_table ?i ?t1 m" let ?m2 = "set_table ?i ?t2 ?m1"
  obtain h1 where r1: "do_intern_with_key slot_ops l own hb x (m, (st, h)) = Some (Ok 0, (?m1, (?st1, h1)))" "generous h1"
    using intern_full_table [where own = own and l = l, OF assms(1,6,5) _ _ _ assms(10,11)] assms(3)
    by (auto simp: misses_def rehashed_def)
  have not_y: "\<not> weak_holds (?st1, g) y (k, WeakTo 0)" for g k
    using assms(2,3,7) by (auto simp: weak_holds_def arc_try_upgrade_def counted_try_upgrade_def with_cell_def
        fresh_block_def counted_deref_def put_cell_def split: option.splits if_splits)
  have not_x: "\<not> weak_holds (?st2, g) x (k, WeakTo 1)" for g k
    using assms(2,3,7) by (auto simp: weak_holds_def arc_try_upgrade_def counted_try_upgrade_def with_cell_def
        fresh_block_def counted_deref_def put_cell_def split: option.splits if_splits)
  have inv1: "intern_inv slot_entries ?m1 ?st1"
    by (rule intern_inv_set [OF assms(1)])
      (use assms(1,3) fresh_block_ok(1,2) [of st] in
        \<open>auto simp: intern_inv_def entries_ok_def slot_entries_def fresh_block_def split: if_splits\<close>)
  have sh1: "intern_shard hb y ?m1 = ?i" "intern_shard hb x ?m1 = ?i" "intern_shard hb x ?m2 = ?i"
    using assms(4) by (simp_all add: intern_shard_def)
  obtain h2 where r2: "do_intern_with_key slot_ops l own hb y (?m1, (?st1, h1)) = Some (Ok 1, (?m2, (?st2, h2)))" "generous h2"
    using intern_full_table [where own = own and l = l and x = y and hb = hb, OF inv1 _ _ _ _ _ assms(10) r1(2), of ?t1]
      i assms(3,6) not_y sh1 assms(8) by (auto simp: misses_def rehashed_def slot_match_def fresh_block_def)
  have inv2: "intern_inv slot_entries ?m2 ?st2"
    by (rule intern_inv_set [OF inv1])
      (use inv1 assms(3) fresh_block_ok(1,2) [of ?st1] in
        \<open>auto simp: intern_inv_def entries_ok_def slot_entries_def fresh_block_def nth_Cons' split: if_splits\<close>)
  have next2: "next_cell ?st2 = 2" using assms(3) by (simp add: fresh_block_def)
  have "misses ?st2 (hb x) x ?t2" "misses ?st2 (hb x) x (rehashed ?hone ?t2)"
    using assms(8,9) not_x by (auto simp: misses_def rehashed_def slot_match_def)
  then obtain h3 where r3: "do_intern_with_key slot_ops l own hb x (?m2, (?st2, h2)) =
      Some (Ok 2, (set_table ?i (rehashed ?hone ?t2 @ [Some (hb x, (hb x, WeakTo 2))]) ?m2, (?st3, h3)))"
    using intern_full_table [where own = own and l = l and x = x and hb = hb, OF inv2 _ _ _ _ _ assms(10) r2(2), of ?t2]
      i assms(6) unfolding sh1 next2 by auto
  have "counted_deref 0 (?st3, h3) = (Ok x :: (unit, _) outcome)" "counted_deref 2 (?st3, h3) = (Ok x :: (unit, _) outcome)"
    using assms(3) by (simp_all add: counted_deref_def fresh_block_def)
  then show ?thesis using r1(1) r2(1) r3 by (metis snd_conv)
qed

section \<open>An empty interner\<close>

definition empty_interner :: "(u64 \<times> weak) slot_table intern_map" where
  "empty_interner = \<lparr>cm_shards = [shard_new slot_ops, shard_new slot_ops], cm_hash = (\<lambda>k. k + 16), cm_shift = 63\<rparr>"

definition empty_store :: "int cstore" where
  "empty_store = \<lparr>cells = Map.empty, next_cell = 0\<rparr>"

definition plain_owner :: "int owner" where
  "plain_owner x h = (Ok x, h)"

definition int_hash :: "int \<Rightarrow> u64" where
  "int_hash x = word_of_int x"

lemma empty_interner_inv: "intern_inv slot_entries empty_interner empty_store"
proof -
  have "geometry empty_interner" unfolding geometry_def by (rule exI [of _ 1]) (simp add: empty_interner_def)
  moreover have "\<forall>i < length (cm_shards empty_interner). table_of i empty_interner = []"
    by (simp add: empty_interner_def table_of_def shard_new_def slot_ops_def less_Suc_eq)
  ultimately show ?thesis by (simp add: intern_inv_def store_ok_def empty_store_def entries_ok_def slot_entries_def)
qed

lemma plain_owner_ok: "own_ok plain_owner"
  by (simp add: own_ok_def plain_owner_def)

lemma empty_interner_shard:
  "intern_shard int_hash 1 empty_interner = 0" "intern_shard int_hash 2 empty_interner = 0"
  by code_simp+

lemma empty_interner_fields:
  "table_of 0 empty_interner = []" "lock_of 0 empty_interner = Unlocked" "cm_hash empty_interner k = k + 16"
  "int_hash 1 = 1" "int_hash 2 = 2"
  by (simp_all add: empty_interner_def table_of_def lock_of_def shard_new_def slot_ops_def int_hash_def)

lemma first_interning:
  "\<exists>h'. do_intern_with_key slot_ops (Layout 24 8) plain_owner int_hash 1
      (empty_interner, (empty_store, heap_with policy_nothing)) =
    Some (Ok 0, (set_table 0 [Some (1, (1, WeakTo 0))] empty_interner, (fresh_block 1 empty_store, h'))) \<and> generous h'"
  using intern_full_table [where hb = int_hash and x = 1 and own = plain_owner and l = "Layout 24 8" and t = "[]",
      OF empty_interner_inv _ _ _ _ _ _ generous_heap_with]
  by (auto simp: empty_interner_shard empty_interner_fields empty_store_def plain_owner_def misses_def rehashed_def)

theorem intern_growth_splits_witness:
  "\<exists>m st h s2 s3. do_intern_with_key slot_ops (Layout 24 8) plain_owner int_hash 1
      (empty_interner, (empty_store, heap_with policy_nothing)) = Some (Ok 0, (m, (st, h))) \<and>
    do_intern_with_key slot_ops (Layout 24 8) plain_owner int_hash 1 (m, (st, h)) = Some (Ok 0, (m, (bump_strong 0 st, h))) \<and>
    do_intern_with_key slot_ops (Layout 24 8) plain_owner int_hash 2 (m, (st, h)) = Some (Ok 1, s2) \<and>
    do_intern_with_key slot_ops (Layout 24 8) plain_owner int_hash 1 s2 = Some (Ok 2, s3) \<and>
    counted_deref 0 (snd s3) = (Ok 1 :: (unit, _) outcome) \<and> counted_deref 2 (snd s3) = (Ok 1 :: (unit, _) outcome)"
proof -
  let ?m = "set_table 0 [Some (1, (1, WeakTo 0))] empty_interner" and ?st = "fresh_block 1 empty_store"
  obtain h where run: "do_intern_with_key slot_ops (Layout 24 8) plain_owner int_hash 1
      (empty_interner, (empty_store, heap_with policy_nothing)) = Some (Ok 0, (?m, (?st, h)))" and h: "generous h"
    using first_interning by blast
  have inv: "intern_inv slot_entries ?m ?st"
    by (rule intern_inv_set [OF empty_interner_inv])
      (use empty_interner_inv fresh_block_ok(1,2) [of empty_store] in
        \<open>auto simp: intern_inv_def entries_ok_def slot_entries_def fresh_block_def empty_store_def split: if_splits\<close>)
  obtain g where g: "galloc h = (True, g)" using generous_galloc [OF h] by (metis prod.collapse)
  have t: "table_of 0 ?m = [Some (1, (1, WeakTo 0))]" by (simp add: empty_interner_def)
  have grow: "rt_try_reserve slot_ops 1 (\<lambda>kv. cm_hash ?m (fst kv)) (table_of 0 ?m, h) =
      (Ok (), ([Some (17, (1, WeakTo 0)), None], g))"
    using g by (simp add: t slot_ops_def slot_reserve_def empty_interner_fields)
  have grown: "slot_entries [Some (17, (1, WeakTo 0)), None] =
      (\<lambda>b. map_option (\<lambda>(_, e). (cm_hash ?m (fst e), e)) (slot_entries (table_of 0 ?m) b))"
    using slot_grown [of "\<lambda>kv. cm_hash ?m (fst kv)" "table_of 0 ?m" 1] by (simp add: t empty_interner_fields)
  have kept: "rebuilt (\<lambda>kv. cm_hash ?m (fst kv)) (slot_entries (table_of 0 ?m)) (slot_entries [Some (17, (1, WeakTo 0)), None])"
    unfolding grown by (rule slot_rebuilt)
  have live: "live ?st 0 1" "\<not> live ?st 0 2"
    by (simp_all add: live_def fresh_block_def empty_store_def max_refcount_def isize_max_def)
  have "intern_shard int_hash 1 ?m = 0" "intern_shard int_hash 2 ?m = 0"
    using empty_interner_shard by (simp_all add: intern_shard_def)
  moreover have "lock_of 0 ?m = Unlocked" by (simp add: lock_of_def empty_interner_def shard_new_def set_table_def)
  moreover have "slot_entries (table_of 0 ?m) 0 = Some (int_hash 1, (int_hash 1, WeakTo 0))"
    by (simp add: t slot_entries_def empty_interner_fields)
  moreover have "\<not> live ?st c 2 \<and> (live ?st c 1 \<longrightarrow> c = 0 \<and> k = int_hash 1)"
    if "slot_entries (table_of 0 ?m) b = Some (hk, (k, WeakTo c))" for b hk k c
    using that live by (auto simp: t slot_entries_def empty_interner_fields split: if_splits)
  ultimately have "do_intern_with_key slot_ops (Layout 24 8) plain_owner int_hash 1 (?m, (?st, h)) =
      Some (Ok 0, (?m, (bump_strong 0 ?st, h))) \<and>
    (\<exists>q s2 r s3. do_intern_with_key slot_ops (Layout 24 8) plain_owner int_hash 2 (?m, (?st, h)) = Some (q, s2) \<and>
       (q = Ok (next_cell ?st) \<or> (\<exists>e. q = Err e)) \<and>
       do_intern_with_key slot_ops (Layout 24 8) plain_owner int_hash 1 s2 = Some (r, s3) \<and>
       ((\<exists>c. r = Ok c \<and> c \<noteq> 0 \<and> counted_deref 0 (snd s3) = (Ok 1 :: (unit, _) outcome) \<and>
           counted_deref c (snd s3) = (Ok 1 :: (unit, _) outcome)) \<or> (\<exists>e. r = Err e)))"
    by (intro intern_growth_splits [where x = 1 and y = 2 and a = 0 and bkt = 0 and i = 0 and tag = "\<lambda>h. h",
          OF slot_table_laws slot_tagged_search inv plain_owner_ok _ _ _ _ _ live(1) _ grow kept])
      (auto simp: empty_interner_fields)
  moreover obtain s1 s2 s3 where
    "do_intern_with_key slot_ops (Layout 24 8) plain_owner int_hash 1
      (empty_interner, (empty_store, heap_with policy_nothing)) = Some (Ok 0, s1)"
    "do_intern_with_key slot_ops (Layout 24 8) plain_owner int_hash 2 s1 = Some (Ok 1, s2)"
    "do_intern_with_key slot_ops (Layout 24 8) plain_owner int_hash 1 s2 = Some (Ok 2, s3)"
    using slot_growth_splits [where hb = int_hash and x = 1 and y = 2 and own = plain_owner and l = "Layout 24 8",
      OF empty_interner_inv _ _ _ _ _ _ _ _ _ generous_heap_with]
    by (fastforce simp: empty_interner_shard empty_interner_fields empty_store_def plain_owner_def)
  ultimately show ?thesis using run by fastforce
qed

theorem intern_spec_witness:
  "\<exists>m' st' h'. do_intern_with_key slot_ops (Layout 24 8) plain_owner int_hash 1
      (empty_interner, (empty_store, heap_with policy_nothing)) = Some (Ok 0, (m', (st', h'))) \<and>
    counted_deref 0 (st', h') = (Ok 1 :: (unit, _) outcome)"
proof -
  obtain h' where run: "do_intern_with_key slot_ops (Layout 24 8) plain_owner int_hash 1
      (empty_interner, (empty_store, heap_with policy_nothing)) =
    Some (Ok 0, (set_table 0 [Some (1, (1, WeakTo 0))] empty_interner, (fresh_block 1 empty_store, h')))"
    using first_interning by blast
  then show ?thesis
    using intern_spec [OF slot_table_laws empty_interner_inv plain_owner_ok,
        where l = "Layout 24 8" and hb = int_hash and x = 1 and h = "heap_with policy_nothing"]
    by auto
qed

theorem intern_twice_witness:
  "\<exists>s1 s2. do_intern_with_key slot_ops (Layout 24 8) plain_owner int_hash 1
      (empty_interner, (empty_store, heap_with policy_nothing)) = Some (Ok 0, s1) \<and>
    do_intern_with_key slot_ops (Layout 24 8) plain_owner int_hash 1 s1 = Some (Ok 0, s2)"
proof -
  obtain h' where run: "do_intern_with_key slot_ops (Layout 24 8) plain_owner int_hash 1
      (empty_interner, (empty_store, heap_with policy_nothing)) =
    Some (Ok 0, (set_table 0 [Some (1, (1, WeakTo 0))] empty_interner, (fresh_block 1 empty_store, h')))"
    using first_interning by blast
  have "deduplicated slot_entries int_hash empty_interner empty_store"
    by (simp add: deduplicated_def live_def empty_store_def)
  moreover have "live (fresh_block 1 empty_store) 0 1"
    by (simp add: live_def fresh_block_def empty_store_def max_refcount_def isize_max_def)
  ultimately show ?thesis
    using intern_twice [OF slot_table_laws empty_interner_inv plain_owner_ok _ run] run by blast
qed

end
