(* ===== verification/LinkedList.thy ===== *)
theory LinkedList
  imports Extend
begin

text \<open>
  Fallible linked lists: \<^verbatim>\<open>rustyfill/src/alloc/linked_list/mod.rs\<close>. A list is the standard
  library's doubly linked one: nodes in a store, with the addresses of the next and the previous node,
  and a header with the two ends and the length. An address is a number that is never used twice;
  following an address without a node is undefined behaviour.
\<close>

section \<open>Nodes and the list header\<close>

datatype 'a lnode = LNode (next_node: "nat option") (prev_node: "nat option") (node_element: 'a)

record 'a llist =
  nodes :: "nat \<rightharpoonup> 'a lnode"
  fresh :: nat
  list_head :: "nat option"
  list_tail :: "nat option"
  list_len :: nat

type_synonym 'a lstate = "'a llist \<times> heap"

definition llist_new :: "'a llist" where
  "llist_new = \<lparr>nodes = Map.empty, fresh = 0, list_head = None, list_tail = None, list_len = 0\<rparr>"

definition set_next :: "nat \<Rightarrow> nat option \<Rightarrow> 'a llist \<Rightarrow> 'a llist option" where
  "set_next a q s =
     (case nodes s a of
        None \<Rightarrow> None
      | Some n \<Rightarrow> Some (s\<lparr>nodes := (nodes s)(a \<mapsto> LNode q (prev_node n) (node_element n))\<rparr>))"

definition set_prev :: "nat \<Rightarrow> nat option \<Rightarrow> 'a llist \<Rightarrow> 'a llist option" where
  "set_prev a p s =
     (case nodes s a of
        None \<Rightarrow> None
      | Some n \<Rightarrow> Some (s\<lparr>nodes := (nodes s)(a \<mapsto> LNode (next_node n) p (node_element n))\<rparr>))"

section \<open>Pushing\<close>

definition try_alloc_node ::
    "layout \<Rightarrow> 'a \<Rightarrow> 'a lstate \<Rightarrow> ('a lstate, 'a \<times> alloc_error, nat) run" where
  "try_alloc_node l x st =
     (case st of (s, h) \<Rightarrow>
        case box_try_new_give_back l (LNode None None x) h of
          (Ok n, h') \<Rightarrow> (Ok (fresh s), (s\<lparr>nodes := (nodes s)(fresh s \<mapsto> n), fresh := fresh s + 1\<rparr>, h'))
        | (Err (n, e), h') \<Rightarrow> (Err (node_element n, e), (s, h'))
        | (Panic m, h') \<Rightarrow> (Panic m, (s, h'))
        | (UB, h') \<Rightarrow> (UB, (s, h')))"

text \<open>The end of both splices: the length grows, checked.\<close>

definition grow_len :: "'a llist \<Rightarrow> ('e, unit) outcome \<times> 'a llist" where
  "grow_len s =
     (case checked_add (list_len s) 1 of
        None \<Rightarrow> (Panic ''linked list length overflow'', s)
      | Some n \<Rightarrow> (Ok (), s\<lparr>list_len := n\<rparr>))"

definition splice_front :: "nat \<Rightarrow> 'a llist \<Rightarrow> ('e, unit) outcome \<times> 'a llist" where
  "splice_front node s =
     (case Option.bind (set_next node (list_head s) s) (set_prev node None) of
        None \<Rightarrow> (UB, s)
      | Some s1 \<Rightarrow>
          (case (case list_head s1 of
                   None \<Rightarrow> Some (s1\<lparr>list_tail := Some node\<rparr>)
                 | Some f \<Rightarrow> set_prev f (Some node) s1) of
             None \<Rightarrow> (UB, s1)
           | Some s2 \<Rightarrow> grow_len (s2\<lparr>list_head := Some node\<rparr>)))"

definition splice_back :: "nat \<Rightarrow> 'a llist \<Rightarrow> ('e, unit) outcome \<times> 'a llist" where
  "splice_back node s =
     (case Option.bind (set_next node None s) (set_prev node (list_tail s)) of
        None \<Rightarrow> (UB, s)
      | Some s1 \<Rightarrow>
          (case (case list_tail s1 of
                   None \<Rightarrow> Some (s1\<lparr>list_head := Some node\<rparr>)
                 | Some b \<Rightarrow> set_next b (Some node) s1) of
             None \<Rightarrow> (UB, s1)
           | Some s2 \<Rightarrow> grow_len (s2\<lparr>list_tail := Some node\<rparr>)))"

definition on_list ::
    "('a llist \<Rightarrow> ('e, unit) outcome \<times> 'a llist) \<Rightarrow> 'a lstate \<Rightarrow> ('a lstate, 'e, unit) run" where
  "on_list f st = (case f (fst st) of (r, s) \<Rightarrow> (r, (s, snd st)))"

definition try_push_front_mut_give_back ::
    "layout \<Rightarrow> 'a \<Rightarrow> 'a lstate \<Rightarrow> ('a lstate, 'a \<times> alloc_error, unit) run" where
  "try_push_front_mut_give_back l x st =
     and_then (try_alloc_node l x st) (\<lambda>node. on_list (splice_front node))"

definition try_push_back_mut_give_back ::
    "layout \<Rightarrow> 'a \<Rightarrow> 'a lstate \<Rightarrow> ('a lstate, 'a \<times> alloc_error, unit) run" where
  "try_push_back_mut_give_back l x st =
     and_then (try_alloc_node l x st) (\<lambda>node. on_list (splice_back node))"

definition llist_try_push_front :: "layout \<Rightarrow> 'a \<Rightarrow> 'a lstate \<Rightarrow> ('a lstate, alloc_error, unit) run" where
  "llist_try_push_front l x st = map_err_run snd (try_push_front_mut_give_back l x st)"

definition llist_try_push_back :: "layout \<Rightarrow> 'a \<Rightarrow> 'a lstate \<Rightarrow> ('a lstate, alloc_error, unit) run" where
  "llist_try_push_back l x st = map_err_run snd (try_push_back_mut_give_back l x st)"

text \<open>\<open>LinkedList::pop_back\<close> of the standard library: unlink the last node and free it.\<close>

definition pop_back :: "'a llist \<Rightarrow> ('e, 'a option) outcome \<times> 'a llist" where
  "pop_back s =
     (case list_tail s of
        None \<Rightarrow> (Ok None, s)
      | Some t \<Rightarrow>
          (case nodes s t of
             None \<Rightarrow> (UB, s)
           | Some n \<Rightarrow>
               let s1 = s\<lparr>nodes := (nodes s)(t := None), list_tail := prev_node n\<rparr> in
               (case (case prev_node n of
                        None \<Rightarrow> Some (s1\<lparr>list_head := None\<rparr>)
                      | Some p \<Rightarrow> set_next p None s1) of
                  None \<Rightarrow> (UB, s1)
                | Some s2 \<Rightarrow> (Ok (Some (node_element n)), s2\<lparr>list_len := list_len s2 - 1\<rparr>))))"

section \<open>The truncate guard\<close>

text \<open>Dropping the guard pops until the length is back; a list whose length does not go down is popped
  for ever.\<close>

partial_function (option) pop_down_to :: "nat \<Rightarrow> 'a llist \<Rightarrow> (bool \<times> 'a llist) option" where
  "pop_down_to len_before s =
     (if len_before < list_len s then
        (case (pop_back s :: (unit, 'a option) outcome \<times> 'a llist) of
           (Ok _, s') \<Rightarrow> pop_down_to len_before s'
         | (_, s') \<Rightarrow> Some (False, s'))
      else Some (True, s))"

declare pop_down_to.simps [code]

text \<open>A fallible body under the guard: forgotten on \<open>Ok\<close>, dropped otherwise.\<close>

definition with_list_guard ::
    "('a lstate \<Rightarrow> ('a lstate, 'e, unit) run) \<Rightarrow> 'a lstate \<Rightarrow> ('a lstate, 'e, unit) run option" where
  "with_list_guard body st =
     (case body st of
        (Ok _, st') \<Rightarrow> Some (Ok (), st')
      | (r, (s, h)) \<Rightarrow>
          (case pop_down_to (list_len (fst st)) s of
             None \<Rightarrow> None
           | Some (ok, s') \<Rightarrow> Some (if ok then r else UB, (s', h))))"

section \<open>Bulk operations\<close>

datatype llist_clone_error = LAlloc alloc_error | LClone try_clone_error

text \<open>Clone each item and push it; with what is left of the slice at the first failure.\<close>

fun push_back_clones ::
    "layout \<Rightarrow> 'a cloner \<Rightarrow> 'a list \<Rightarrow> 'a lstate \<Rightarrow> ('a lstate, 'a list \<times> llist_clone_error, unit) run"
where
  "push_back_clones l cl [] st = (Ok (), st)"
| "push_back_clones l cl (x # xs) (s, h) =
     (case cl x h of
        (Ok y, h') \<Rightarrow>
          and_then (map_err_run (\<lambda>(_, e). (x # xs, LAlloc e)) (try_push_back_mut_give_back l y (s, h')))
            (\<lambda>_. push_back_clones l cl xs)
      | (Err e, h') \<Rightarrow> (Err (x # xs, LClone e), (s, h'))
      | (Panic m, h') \<Rightarrow> (Panic m, (s, h'))
      | (UB, h') \<Rightarrow> (UB, (s, h')))"

definition llist_try_extend_from_slice ::
    "layout \<Rightarrow> 'a cloner \<Rightarrow> 'a list \<Rightarrow> 'a lstate \<Rightarrow> ('a lstate, 'a list \<times> llist_clone_error, unit) run"
where
  "llist_try_extend_from_slice l cl xs st = push_back_clones l cl xs st"

definition llist_try_extend_from_slice_with_rollback ::
    "layout \<Rightarrow> 'a cloner \<Rightarrow> 'a list \<Rightarrow> 'a lstate \<Rightarrow> ('a lstate, llist_clone_error, unit) run option"
where
  "llist_try_extend_from_slice_with_rollback l cl xs st =
     (if xs = [] then Some (Ok (), st)
      else with_list_guard (\<lambda>st. map_err_run snd (push_back_clones l cl xs st)) st)"

definition llist_try_from_slice ::
    "layout \<Rightarrow> 'a cloner \<Rightarrow> 'a list \<Rightarrow> heap \<Rightarrow> (llist_clone_error, 'a llist) outcome \<times> heap" where
  "llist_try_from_slice l cl xs h =
     (case push_back_clones l cl xs (llist_new, h) of
        (r, (s, h')) \<Rightarrow> (map_err snd (map_ok (\<lambda>_. s) r), h'))"

text \<open>The iterator reads \<open>len\<close> nodes from the head on.\<close>

fun iter_nodes :: "nat \<Rightarrow> nat option \<Rightarrow> (nat \<rightharpoonup> 'a lnode) \<Rightarrow> ('e, 'a list) outcome" where
  "iter_nodes 0 p m = Ok []"
| "iter_nodes (Suc n) None m = Ok []"
| "iter_nodes (Suc n) (Some a) m =
     (case m a of None \<Rightarrow> UB | Some nd \<Rightarrow> map_ok ((#) (node_element nd)) (iter_nodes n (next_node nd) m))"

definition llist_iter :: "'a llist \<Rightarrow> ('e, 'a list) outcome" where
  "llist_iter s = iter_nodes (list_len s) (list_head s) (nodes s)"

text \<open>\<open>try_clone\<close> reports a failed push as \<open>Other\<close>.\<close>

definition llist_try_clone :: "layout \<Rightarrow> 'a cloner \<Rightarrow> 'a llist cloner" where
  "llist_try_clone l cl s h =
     (case llist_iter s of
        Ok xs \<Rightarrow>
          (case push_back_clones l cl xs (llist_new, h) of
             (r, (s', h')) \<Rightarrow>
               (map_err (\<lambda>(_, e). case e of LAlloc _ \<Rightarrow> CloneOther ''allocation failed'' | LClone e \<Rightarrow> e)
                  (map_ok (\<lambda>_. s') r), h'))
      | Err e \<Rightarrow> (Err e, h)
      | Panic m \<Rightarrow> (Panic m, h)
      | UB \<Rightarrow> (UB, h))"

definition llist_try_default :: "heap \<Rightarrow> (unit, 'a llist) outcome \<times> heap" where
  "llist_try_default h = (Ok llist_new, h)"

section \<open>Iterator-driven extension\<close>

fun llist_extend_loop ::
    "layout \<Rightarrow> 'a list \<Rightarrow> ('a list \<Rightarrow> nat \<times> nat option) \<Rightarrow> 'a lstate \<Rightarrow>
     ('a lstate, ('a \<times> 'a iter) \<times> alloc_error, unit) run" where
  "llist_extend_loop l [] g st = (Ok (), st)"
| "llist_extend_loop l (x # xs) g st =
     and_then (map_err_run (\<lambda>(y, e). ((y, Iter xs g), e)) (try_push_back_mut_give_back l x st))
       (\<lambda>_. llist_extend_loop l xs g)"

definition llist_try_extend ::
    "layout \<Rightarrow> 'a source \<Rightarrow> 'a lstate \<Rightarrow> ('a lstate, 'a resumable \<times> alloc_error, unit) run" where
  "llist_try_extend l src st =
     (let (head, it) = safe_into_iter src
      in map_err_run (\<lambda>((y, it), e). (resumable_new y it, e))
        (and_then
           (case head of
              Some x \<Rightarrow> map_err_run (\<lambda>(y, e). ((y, it), e)) (try_push_back_mut_give_back l x st)
            | None \<Rightarrow> (Ok (), st))
           (\<lambda>_. llist_extend_loop l (rest it) (hint it))))"

definition llist_try_collect ::
    "layout \<Rightarrow> 'a iter \<Rightarrow> heap \<Rightarrow> ('a option \<times> 'a iter \<times> alloc_error, 'a llist) outcome \<times> heap" where
  "llist_try_collect l it h =
     (case llist_extend_loop l (rest it) (hint it) (llist_new, h) of
        (r, (s, h')) \<Rightarrow> (map_err (\<lambda>((y, it), e). (Some y, it, e)) (map_ok (\<lambda>_. s) r), h'))"

end
