(* ===== verification/LinkedProps.thy ===== *)
theory LinkedProps
  imports LinkedList
begin

text \<open>
  What the nodes of a linked list represent: a segment of nodes linked in both directions, with its
  addresses and elements. Pushing at either end adds one node to the segment, popping removes the last
  one, and the truncate guard brings back the very list it was made for.
\<close>

section \<open>Segments of nodes\<close>

text \<open>\<open>seg m i p j t ps\<close>: from entry \<open>i\<close>, behind node \<open>p\<close>, the nodes \<open>ps\<close> lead to \<open>j\<close>, the last one being \<open>t\<close>.\<close>

fun seg :: "(nat \<rightharpoonup> 'a lnode) \<Rightarrow> nat option \<Rightarrow> nat option \<Rightarrow> nat option \<Rightarrow> nat option \<Rightarrow>
    (nat \<times> 'a) list \<Rightarrow> bool" where
  "seg m i p j t [] \<longleftrightarrow> i = j \<and> p = t"
| "seg m i p j t ((a, x) # ps) \<longleftrightarrow>
     i = Some a \<and> (\<exists>n. m a = Some (LNode n p x) \<and> seg m n (Some a) j t ps)"

lemma seg_append:
  "seg m i p j t (ps @ qs) \<longleftrightarrow> (\<exists>k u. seg m i p k u ps \<and> seg m k u j t qs)"
proof (induction ps arbitrary: i p)
  case (Cons q ps)
  obtain a x where "q = (a, x)" by fastforce
  with Cons.IH show ?case by simp blast
qed simp

lemma seg_frame: "a \<notin> fst ` set ps \<Longrightarrow> seg (m(a := n)) i p j t ps \<longleftrightarrow> seg m i p j t ps"
  by (induction ps arbitrary: i p) auto

text \<open>The list represents the nodes \<open>ps\<close>: it has no others, and new addresses are free.\<close>

definition nodes_of :: "'a llist \<Rightarrow> (nat \<times> 'a) list \<Rightarrow> bool" where
  "nodes_of s ps \<longleftrightarrow>
     seg (nodes s) (list_head s) None None (list_tail s) ps \<and> distinct (map fst ps) \<and>
     dom (nodes s) = fst ` set ps \<and> (\<forall>a\<in>dom (nodes s). a < fresh s) \<and>
     list_len s = length ps \<and> length ps \<le> usize_max"

lemma nodes_of_new [simp]: "nodes_of llist_new []"
  by (simp add: nodes_of_def llist_new_def)

lemma nodes_of_nth:
  assumes "seg m i p j t ps"
  shows "iter_nodes (length ps) i m = Ok (map snd ps)"
  using assms by (induction ps arbitrary: i p) auto

lemma llist_iter_nodes: "nodes_of s ps \<Longrightarrow> (llist_iter s :: ('e, 'a list) outcome) = Ok (map snd ps)"
  by (auto simp: llist_iter_def nodes_of_def nodes_of_nth)

section \<open>Splicing\<close>

definition with_node :: "'a \<Rightarrow> 'a llist \<Rightarrow> 'a llist" where
  "with_node x s = s\<lparr>nodes := (nodes s)(fresh s \<mapsto> LNode None None x), fresh := fresh s + 1\<rparr>"

lemma splice_front_nodes:
  assumes "nodes_of s ps" and "length ps < usize_max"
  shows "\<exists>s'. (splice_front (fresh s) (with_node x s) :: ('e, unit) outcome \<times> 'a llist) = (Ok (), s') \<and>
    nodes_of s' ((fresh s, x) # ps)"
proof -
  let ?a = "fresh s"
  have seg: "seg (nodes s) (list_head s) None None (list_tail s) ps" and dom: "dom (nodes s) = fst ` set ps"
    and fr: "\<forall>a\<in>dom (nodes s). a < fresh s" and dist: "distinct (map fst ps)" and len: "list_len s = length ps"
    using assms(1) by (simp_all add: nodes_of_def)
  have a: "?a \<notin> fst ` set ps" using dom fr by auto
  show ?thesis
  proof (cases ps)
    case Nil
    with seg dom a len show ?thesis
      by (auto simp: splice_front_def with_node_def set_next_def set_prev_def grow_len_def checked_add_def
          usize_max_def nodes_of_def)
  next
    case (Cons q qs)
    obtain b y where q: "q = (b, y)" by fastforce
    with seg Cons obtain n where n: "list_head s = Some b" "nodes s b = Some (LNode n None y)"
      "seg (nodes s) n (Some b) None (list_tail s) qs" by auto
    have ab: "?a \<noteq> b" and bq: "b \<notin> fst ` set qs" "?a \<notin> fst ` set qs"
      using a dist Cons q by auto
    let ?m = "(nodes s)(?a \<mapsto> LNode (Some b) None x, b \<mapsto> LNode n (Some ?a) y)"
    have run: "(splice_front ?a (with_node x s) :: ('e, unit) outcome \<times> 'a llist) =
        (Ok (), s\<lparr>nodes := ?m, fresh := fresh s + 1, list_head := Some ?a, list_len := list_len s + 1\<rparr>)"
      using n(1,2) ab assms(2) len
      by (simp add: splice_front_def with_node_def set_next_def set_prev_def grow_len_def checked_add_def)
    have "seg ?m n (Some b) None (list_tail s) qs"
      using n(3) bq by (simp add: seg_frame)
    then have "nodes_of (s\<lparr>nodes := ?m, fresh := fresh s + 1, list_head := Some ?a, list_len := list_len s + 1\<rparr>)
        ((?a, x) # ps)"
      using Cons q ab a dist dom fr len assms(2) by (auto simp: nodes_of_def)
    with run show ?thesis by blast
  qed
qed

lemma splice_back_nodes:
  assumes "nodes_of s ps" and "length ps < usize_max"
  shows "\<exists>s'. (splice_back (fresh s) (with_node x s) :: ('e, unit) outcome \<times> 'a llist) = (Ok (), s') \<and>
    nodes_of s' (ps @ [(fresh s, x)])"
proof -
  let ?a = "fresh s"
  have seg: "seg (nodes s) (list_head s) None None (list_tail s) ps" and dom: "dom (nodes s) = fst ` set ps"
    and fr: "\<forall>a\<in>dom (nodes s). a < fresh s" and dist: "distinct (map fst ps)" and len: "list_len s = length ps"
    using assms(1) by (simp_all add: nodes_of_def)
  have a: "?a \<notin> fst ` set ps" using dom fr by auto
  show ?thesis
  proof (cases ps rule: rev_cases)
    case Nil
    with seg dom a len show ?thesis
      by (auto simp: splice_back_def with_node_def set_next_def set_prev_def grow_len_def checked_add_def
          usize_max_def nodes_of_def)
  next
    case (snoc qs q)
    obtain b y where q: "q = (b, y)" by fastforce
    with seg snoc obtain u where u: "list_tail s = Some b" "nodes s b = Some (LNode None u y)"
      "seg (nodes s) (list_head s) None (Some b) u qs" by (auto simp: seg_append)
    have ab: "?a \<noteq> b" and bq: "b \<notin> fst ` set qs" "?a \<notin> fst ` set qs"
      using a dist snoc q by auto
    let ?m = "(nodes s)(?a \<mapsto> LNode None (Some b) x, b \<mapsto> LNode (Some ?a) u y)"
    have run: "(splice_back ?a (with_node x s) :: ('e, unit) outcome \<times> 'a llist) =
        (Ok (), s\<lparr>nodes := ?m, fresh := fresh s + 1, list_tail := Some ?a, list_len := list_len s + 1\<rparr>)"
      using u(1,2) ab assms(2) len
      by (simp add: splice_back_def with_node_def set_next_def set_prev_def grow_len_def checked_add_def)
    have "seg ?m (list_head s) None (Some b) u qs"
      using u(3) bq by (simp add: seg_frame)
    then have "nodes_of (s\<lparr>nodes := ?m, fresh := fresh s + 1, list_tail := Some ?a, list_len := list_len s + 1\<rparr>)
        (ps @ [(?a, x)])"
      using snoc q ab a dist dom fr len assms(2) by (auto simp: nodes_of_def seg_append)
    with run show ?thesis by blast
  qed
qed

lemma pop_back_nodes:
  assumes "nodes_of s (ps @ [(b, y)])"
  shows "\<exists>s'. (pop_back s :: ('e, 'a option) outcome \<times> 'a llist) = (Ok (Some y), s') \<and> nodes_of s' ps"
proof -
  have seg: "seg (nodes s) (list_head s) None None (list_tail s) (ps @ [(b, y)])"
    and dom: "dom (nodes s) = fst ` set (ps @ [(b, y)])"
    and fr: "\<forall>a\<in>dom (nodes s). a < fresh s" and dist: "distinct (map fst (ps @ [(b, y)]))"
    and len: "list_len s = length ps + 1" "length ps < usize_max"
    using assms by (auto simp: nodes_of_def)
  obtain u where u: "list_tail s = Some b" "nodes s b = Some (LNode None u y)"
    "seg (nodes s) (list_head s) None (Some b) u ps" using seg by (auto simp: seg_append)
  have bp: "b \<notin> fst ` set ps" using dist by auto
  show ?thesis
  proof (cases ps rule: rev_cases)
    case Nil
    then have "(nodes s)(b := None) = Map.empty" using dom by (auto simp: fun_eq_iff dom_def split: if_splits)
    with Nil u len show ?thesis by (simp add: pop_back_def nodes_of_def)
  next
    case (snoc qs q)
    obtain c z where q: "q = (c, z)" by fastforce
    with u(3) snoc obtain v where v: "u = Some c" "nodes s c = Some (LNode (Some b) v z)"
      "seg (nodes s) (list_head s) None (Some c) v qs" by (auto simp: seg_append)
    have cb: "c \<noteq> b" "c \<notin> fst ` set qs" "b \<notin> fst ` set qs" using bp dist snoc q by auto
    let ?m = "(nodes s)(b := None, c \<mapsto> LNode None v z)"
    have run: "(pop_back s :: ('e, 'a option) outcome \<times> 'a llist) =
        (Ok (Some y), s\<lparr>nodes := ?m, list_tail := Some c, list_len := list_len s - 1\<rparr>)"
      using u(1,2) v(1,2) cb(1) by (simp add: pop_back_def set_next_def)
    have "seg ?m (list_head s) None (Some c) v qs" using v(3) cb by (simp add: seg_frame)
    then have "nodes_of (s\<lparr>nodes := ?m, list_tail := Some c, list_len := list_len s - 1\<rparr>) ps"
      using snoc q cb dom fr len dist by (auto simp: nodes_of_def seg_append)
    with run show ?thesis by blast
  qed
qed

section \<open>Pushing\<close>

lemma try_alloc_node_cases:
  obtains (Ok) h' where "try_alloc_node l x (s, h) = (Ok (fresh s), (with_node x s, h'))"
  | (Err) h' where "try_alloc_node l x (s, h) = (Err (x, AllocError), (s, h'))"
  by (cases rule: box_give_back_cases [of l "LNode None None x" h])
    (auto simp: try_alloc_node_def with_node_def)

lemma push_back_cases [consumes 2]:
  assumes "nodes_of s ps" and "length ps < usize_max"
  obtains (Ok) s' h' where "try_push_back_mut_give_back l x (s, h) = (Ok (), (s', h'))"
      and "nodes_of s' (ps @ [(fresh s, x)])"
  | (Err) h' where "try_push_back_mut_give_back l x (s, h) = (Err (x, AllocError), (s, h'))"
proof (cases rule: try_alloc_node_cases [of l x s h])
  case (Ok k)
  with splice_back_nodes [OF assms, where x = x and 'e = "'a \<times> alloc_error"] show thesis
    using that(1) by (auto simp: try_push_back_mut_give_back_def on_list_def)
next
  case (Err k)
  then show thesis using that(2) by (auto simp: try_push_back_mut_give_back_def)
qed

lemma push_front_cases [consumes 2]:
  assumes "nodes_of s ps" and "length ps < usize_max"
  obtains (Ok) s' h' where "try_push_front_mut_give_back l x (s, h) = (Ok (), (s', h'))"
      and "nodes_of s' ((fresh s, x) # ps)"
  | (Err) h' where "try_push_front_mut_give_back l x (s, h) = (Err (x, AllocError), (s, h'))"
proof (cases rule: try_alloc_node_cases [of l x s h])
  case (Ok k)
  with splice_front_nodes [OF assms, where x = x and 'e = "'a \<times> alloc_error"] show thesis
    using that(1) by (auto simp: try_push_front_mut_give_back_def on_list_def)
next
  case (Err k)
  then show thesis using that(2) by (auto simp: try_push_front_mut_give_back_def)
qed

section \<open>The guard\<close>

lemma pop_down_nodes:
  assumes "nodes_of s (ps @ qs)"
  shows "\<exists>s'. pop_down_to (length ps) s = Some (True, s') \<and> nodes_of s' ps"
  using assms
proof (induction qs arbitrary: s rule: rev_induct)
  case Nil
  then show ?case by (subst pop_down_to.simps) (simp add: nodes_of_def)
next
  case (snoc q qs)
  obtain b y where q: "q = (b, y)" by fastforce
  obtain s1 where s1: "(pop_back s :: (unit, 'a option) outcome \<times> 'a llist) = (Ok (Some y), s1)"
    "nodes_of s1 (ps @ qs)"
    using pop_back_nodes [where ps = "ps @ qs"] snoc.prems q by fastforce
  have "length ps < list_len s" using snoc.prems by (simp add: nodes_of_def)
  then have "pop_down_to (length ps) s = pop_down_to (length ps) s1"
    by (subst pop_down_to.simps) (simp add: s1(1))
  with snoc.IH [OF s1(2)] show ?case by simp
qed

section \<open>Bulk operations\<close>

context cloneable
begin

text \<open>A clone loop appends the clones up to its first failure, which it reports with the rest.\<close>

lemma push_back_clones_nodes:
  assumes "nodes_of s ps" and "length ps + length xs \<le> usize_max"
    and "push_back_clones l cl xs (s, h) = (r, (s', h'))"
  shows "\<exists>qs. nodes_of s' (ps @ qs) \<and>
    (r = Ok () \<and> map (\<lambda>q. view (snd q)) qs = map view xs \<or>
     (\<exists>n e. n < length xs \<and> r = Err (drop n xs, e) \<and> map (\<lambda>q. view (snd q)) qs = map view (take n xs)))"
  using assms
proof (induction xs arbitrary: s ps h)
  case Nil
  then show ?case by (intro exI [of _ "[]"]) auto
next
  case (Cons x xs)
  show ?case
  proof (cases rule: clone_cases [of x h])
    case (Ok y k)
    show ?thesis
    proof (cases rule: push_back_cases [OF Cons.prems(1), where x = y and l = l and h = k])
      case 1
      then show ?case using Cons.prems(2) by simp
    next
      case (2 s1 k1)
      then have "push_back_clones l cl xs (s1, k1) = (r, (s', h'))"
        using Ok Cons.prems(3) by simp
      from Cons.IH [OF 2(2) _ this] Cons.prems(2) obtain qs where
        qs: "nodes_of s' ((ps @ [(fresh s, y)]) @ qs)" "r = Ok () \<and> map (\<lambda>q. view (snd q)) qs = map view xs \<or>
          (\<exists>n e. n < length xs \<and> r = Err (drop n xs, e) \<and> map (\<lambda>q. view (snd q)) qs = map view (take n xs))"
        by auto
      let ?qs = "(fresh s, y) # qs"
      have "r = Ok () \<and> map (\<lambda>q. view (snd q)) ?qs = map view (x # xs) \<or>
          (\<exists>n e. n < length (x # xs) \<and> r = Err (drop n (x # xs), e) \<and>
            map (\<lambda>q. view (snd q)) ?qs = map view (take n (x # xs)))"
        using qs(2)
      proof (elim disjE exE conjE)
        fix n e
        assume "n < length xs" "r = Err (drop n xs, e)" "map (\<lambda>q. view (snd q)) qs = map view (take n xs)"
        then show ?thesis using Ok(2) by (intro disjI2 exI [of _ "Suc n"] exI [of _ e]) simp
      qed (use Ok(2) in simp)
      with qs(1) show ?thesis by (intro exI [of _ ?qs]) simp
    next
      case (3 k1)
      then have "r = Err (x # xs, LAlloc AllocError)" "s' = s" using Ok Cons.prems(3) by auto
      with Cons.prems(1) show ?thesis
        by (intro exI [of _ "[]"] conjI disjI2 exI [of _ 0] exI [of _ "LAlloc AllocError"]) auto
    qed
  next
    case (Err e k)
    then have "r = Err (x # xs, LClone e)" "s' = s" using Cons.prems(3) by auto
    with Cons.prems(1) show ?thesis
      by (intro exI [of _ "[]"] conjI disjI2 exI [of _ 0] exI [of _ "LClone e"]) auto
  qed
qed

lemma extend_with_rollback_nodes:
  assumes "nodes_of s ps" and "length ps + length xs \<le> usize_max"
  obtains (Ok) s' h' qs where
      "llist_try_extend_from_slice_with_rollback l cl xs (s, h) = Some (Ok (), (s', h'))"
      and "nodes_of s' (ps @ qs)" and "map (\<lambda>q. view (snd q)) qs = map view xs"
  | (Err) e s' h' where
      "llist_try_extend_from_slice_with_rollback l cl xs (s, h) = Some (Err e, (s', h'))"
      and "nodes_of s' ps"
proof (cases "xs = []")
  case True
  then show thesis
    using that(1) [of s h "[]"] assms(1) by (simp add: llist_try_extend_from_slice_with_rollback_def)
next
  case False
  obtain r s1 h1 where run: "push_back_clones l cl xs (s, h) = (r, (s1, h1))" by (metis surj_pair)
  obtain qs where qs: "nodes_of s1 (ps @ qs)" and r: "r = Ok () \<and> map (\<lambda>q. view (snd q)) qs = map view xs \<or>
      (\<exists>n e. n < length xs \<and> r = Err (drop n xs, e) \<and> map (\<lambda>q. view (snd q)) qs = map view (take n xs))"
    using push_back_clones_nodes [OF assms run] by blast
  from r show thesis
  proof (elim disjE exE conjE)
    assume "r = Ok ()" "map (\<lambda>q. view (snd q)) qs = map view xs"
    with run qs False show thesis
      by (intro that(1) [of s1 h1 qs])
        (simp_all add: llist_try_extend_from_slice_with_rollback_def with_list_guard_def)
  next
    fix n e
    assume "r = Err (drop n xs, e)"
    moreover obtain s2 where "pop_down_to (list_len s) s1 = Some (True, s2)" "nodes_of s2 ps"
      using pop_down_nodes [OF qs] assms(1) by (auto simp: nodes_of_def)
    ultimately show thesis
      using run False
      by (intro that(2) [of e s2 h1])
        (simp_all add: llist_try_extend_from_slice_with_rollback_def with_list_guard_def)
  qed
qed

text \<open>A clone has its own nodes and the same elements.\<close>

lemma llist_clone_nodes:
  assumes "nodes_of s ps" and "llist_try_clone l cl s h = (r, h')"
  shows "(\<exists>s' qs. r = Ok s' \<and> nodes_of s' qs \<and> map (\<lambda>q. view (snd q)) qs = map (\<lambda>p. view (snd p)) ps) \<or>
    (\<exists>e. r = Err e)"
proof -
  obtain q s1 h1 where run: "push_back_clones l cl (map snd ps) (llist_new, h) = (q, (s1, h1))"
    by (metis surj_pair)
  have "length ([]::(nat \<times> 'a) list) + length (map snd ps) \<le> usize_max"
    using assms(1) by (simp add: nodes_of_def)
  from push_back_clones_nodes [OF nodes_of_new this run] show ?thesis
    using assms(2) run llist_iter_nodes [OF assms(1), where 'e = try_clone_error]
    by (auto simp: llist_try_clone_def comp_def)
qed

end

section \<open>Extension from an iterator\<close>

lemma llist_extend_loop_nodes:
  assumes "nodes_of s ps" and "length ps + length xs \<le> usize_max"
    and "llist_extend_loop l xs g (s, h) = (r, (s', h'))"
  shows "\<exists>qs. nodes_of s' (ps @ qs) \<and>
    (r = Ok () \<and> map snd qs = xs \<or>
     (\<exists>y it. r = Err ((y, it), AllocError) \<and> map snd qs @ y # rest it = xs))"
  using assms
proof (induction xs arbitrary: s ps h)
  case Nil
  then show ?case by (intro exI [of _ "[]"]) auto
next
  case (Cons x xs)
  show ?case
  proof (cases rule: push_back_cases [OF Cons.prems(1), where x = x and l = l and h = h])
    case 1
    then show ?case using Cons.prems(2) by simp
  next
    case (2 s1 k)
    then have "llist_extend_loop l xs g (s1, k) = (r, (s', h'))" using Cons.prems(3) by simp
    from Cons.IH [OF 2(2) _ this] Cons.prems(2) obtain qs where
      "nodes_of s' ((ps @ [(fresh s, x)]) @ qs)" "r = Ok () \<and> map snd qs = xs \<or>
        (\<exists>y it. r = Err ((y, it), AllocError) \<and> map snd qs @ y # rest it = xs)" by auto
    then show ?thesis by (intro exI [of _ "(fresh s, x) # qs"]) auto
  next
    case (3 k)
    with Cons.prems show ?thesis by (intro exI [of _ "[]"]) auto
  qed
qed

text \<open>\<open>try_extend\<close> stores the items in order; on a failed allocation the items stored and those in the
  \<open>Resumable\<close> make up the source, so that none is lost.\<close>

lemma llist_extend_nodes:
  assumes "nodes_of s ps" and "length ps + length (source_items src) \<le> usize_max"
    and "llist_try_extend l src (s, h) = (r, (s', h'))"
  shows "\<exists>qs. nodes_of s' (ps @ qs) \<and>
    (r = Ok () \<and> map snd qs = source_items src \<or>
     (\<exists>res. r = Err (res, AllocError) \<and> map snd qs @ resumable_items res = source_items src))"
proof -
  obtain hd' it where src: "safe_into_iter src = (hd', it)" by fastforce
  have loop: "\<exists>qs. nodes_of s2 (us @ qs) \<and>
      (q = Ok () \<and> map snd qs = rest it \<or>
       (\<exists>y it'. q = Err ((y, it'), AllocError) \<and> map snd qs @ y # rest it' = rest it))"
    if "nodes_of s1 us" "length us + length (rest it) \<le> usize_max"
      "llist_extend_loop l (rest it) (hint it) (s1, k) = (q, (s2, k'))" for s1 us k q s2 k'
    using llist_extend_loop_nodes [OF that] .
  note defs = llist_try_extend_def src Let_def source_items_def pending_def resumable_items_def
    into_parts_def resumable_new_def map_err_run_def
  show ?thesis
  proof (cases hd')
    case None
    obtain q where q: "llist_extend_loop l (rest it) (hint it) (s, h) = (q, (s', h'))"
      "r = map_err (\<lambda>((y, it), e). (resumable_new y it, e)) q"
      using assms(3) None by (cases "llist_extend_loop l (rest it) (hint it) (s, h)") (auto simp: defs)
    from loop [OF assms(1) _ q(1)] assms(2) None q(2) show ?thesis
      by (auto simp: defs)
  next
    case (Some x)
    show ?thesis
    proof (cases rule: push_back_cases [OF assms(1), where x = x and l = l and h = h])
      case 1
      then show ?case using assms(2) Some by (simp add: defs)
    next
      case (2 s1 k)
      obtain q where q: "llist_extend_loop l (rest it) (hint it) (s1, k) = (q, (s', h'))"
        "r = map_err (\<lambda>((y, it), e). (resumable_new y it, e)) q"
        using assms(3) Some 2(1) by (cases "llist_extend_loop l (rest it) (hint it) (s1, k)") (auto simp: defs)
      from loop [OF 2(2) _ q(1)] assms(2) Some obtain qs where
        "nodes_of s' ((ps @ [(fresh s, x)]) @ qs)" "q = Ok () \<and> map snd qs = rest it \<or>
         (\<exists>y it'. q = Err ((y, it'), AllocError) \<and> map snd qs @ y # rest it' = rest it)"
        by (auto simp: defs)
      then show ?thesis using Some q(2)
        by (intro exI [of _ "(fresh s, x) # qs"]) (auto simp: defs)
    next
      case (3 k)
      with assms Some show ?thesis by (intro exI [of _ "[]"]) (auto simp: defs)
    qed
  qed
qed

section \<open>Properties\<close>

text \<open>Claim C30. Both pushes splice one new node into the chain, at its address, with every other node's
  address and element untouched and the links, ends and length right, or give the value back with the
  list as it was, when the one allocation fails.\<close>

theorem linked_push_spec:
  assumes "nodes_of s ps" and "length ps < usize_max"
    and "try_push_front_mut_give_back l x (s, h) = (r, (s', h'))"
    and "try_push_back_mut_give_back l x (s, h) = (q, (t', k'))"
  shows "(r = Ok () \<and> nodes_of s' ((fresh s, x) # ps) \<or> r = Err (x, AllocError) \<and> s' = s) \<and>
    (q = Ok () \<and> nodes_of t' (ps @ [(fresh s, x)]) \<or> q = Err (x, AllocError) \<and> t' = s)"
proof
  show "r = Ok () \<and> nodes_of s' ((fresh s, x) # ps) \<or> r = Err (x, AllocError) \<and> s' = s"
    by (cases rule: push_front_cases [OF assms(1,2), where x = x and l = l and h = h])
      (use assms(3) in auto)
  show "q = Ok () \<and> nodes_of t' (ps @ [(fresh s, x)]) \<or> q = Err (x, AllocError) \<and> t' = s"
    by (cases rule: push_back_cases [OF assms(1,2), where x = x and l = l and h = h])
      (use assms(4) in auto)
qed

theorem linked_push_spec_witness:
  "fst (try_push_front_mut_give_back (Layout 24 8) (7::nat) (llist_new, heap_with policy_fail_all)) \<in> {Ok (), Err (7, AllocError)}"
proof -
  obtain r s' h' q t' k' where
    "try_push_front_mut_give_back (Layout 24 8) (7::nat) (llist_new, heap_with policy_fail_all) = (r, (s', h'))"
    "try_push_back_mut_give_back (Layout 24 8) (7::nat) (llist_new, heap_with policy_fail_all) = (q, (t', k'))"
    by (metis surj_pair)
  with linked_push_spec [OF nodes_of_new _ this] show ?thesis
    by (auto simp: usize_max_def)
qed

text \<open>Claim C31. \<open>try_extend_from_slice_with_rollback\<close> returns, and either appends clones of the whole
  slice behind the nodes of the list, or leaves exactly these nodes, at their addresses: the guard
  frees all the others and nothing dangles.\<close>

theorem linked_rollback_spec:
  assumes "cloneable cl view" and "nodes_of s ps" and "length ps + length xs \<le> usize_max"
  shows "\<exists>r s' h' qs. llist_try_extend_from_slice_with_rollback l cl xs (s, h) = Some (r, (s', h')) \<and>
    nodes_of s' (ps @ qs) \<and>
    (r = Ok () \<and> map (\<lambda>q. view (snd q)) qs = map view xs \<or> (\<exists>e. r = Err e) \<and> qs = [])"
proof (cases rule: cloneable.extend_with_rollback_nodes [OF assms, of l h])
  case (1 s' h' qs)
  then show ?thesis by blast
next
  case (2 e s' h')
  then show ?thesis by (intro exI [of _ "Err e"] exI [of _ s'] exI [of _ h'] exI [of _ "[]"]) simp
qed

theorem linked_rollback_spec_witness:
  "\<exists>r s' h' qs. llist_try_extend_from_slice_with_rollback (Layout 24 8) copy_try_clone [1, 2::nat]
      (llist_new, heap_with policy_fail_all) = Some (r, (s', h')) \<and> nodes_of s' ([] @ qs)"
  using linked_rollback_spec [OF copy.cloneable_axioms nodes_of_new, of "[1, 2::nat]" "Layout 24 8"
      "heap_with policy_fail_all"]
  by (fastforce simp: usize_max_def)

end
