(* ===== verification/BinHeap.thy ===== *)
theory BinHeap
  imports Extend "HOL-Library.Multiset"
begin

text \<open>
  Fallible binary heaps: \<^verbatim>\<open>rustyfill/src/alloc/binary_heap/mod.rs\<close>. A heap is a vector ordered as the
  standard library's max-heap; the sifting that the crate relies on is written out, with a swap for each
  move of the hole. The order of the elements is a linear order.
\<close>

section \<open>The standard heap\<close>

definition swap :: "nat \<Rightarrow> nat \<Rightarrow> 'a list \<Rightarrow> 'a list" where
  "swap i j xs = xs[i := xs ! j, j := xs ! i]"

definition parent :: "nat \<Rightarrow> nat" where
  "parent i = (i - 1) div 2"

function sift_up :: "nat \<Rightarrow> ('a::linorder) list \<Rightarrow> 'a list" where
  "sift_up pos xs =
     (if pos = 0 then xs
      else if xs ! pos \<le> xs ! parent pos then xs
      else sift_up (parent pos) (swap pos (parent pos) xs))"
  by pat_completeness auto

termination
  by (relation "measure fst") (auto simp: parent_def)

function sift_down :: "nat \<Rightarrow> ('a::linorder) list \<Rightarrow> 'a list" where
  "sift_down pos xs =
     (let child = 2 * pos + 1 in
      if child + 2 \<le> length xs then
        (let c = (if xs ! child \<le> xs ! (child + 1) then child + 1 else child) in
         if xs ! c \<le> xs ! pos then xs else sift_down c (swap pos c xs))
      else if child + 1 = length xs \<and> xs ! pos < xs ! child then swap pos child xs
      else xs)"
  by pat_completeness auto

termination
  by (relation "measure (\<lambda>(pos, xs). length xs - pos)") (auto simp: swap_def)

declare sift_up.simps [simp del] sift_down.simps [simp del]

fun rebuild_from :: "nat \<Rightarrow> ('a::linorder) list \<Rightarrow> 'a list" where
  "rebuild_from 0 xs = xs"
| "rebuild_from (Suc n) xs = rebuild_from n (sift_down n xs)"

definition rebuild :: "('a::linorder) list \<Rightarrow> 'a list" where
  "rebuild xs = rebuild_from (length xs div 2) xs"

fun log2_fast :: "nat \<Rightarrow> nat" where
  "log2_fast n = (if n < 2 then 0 else log2_fast (n div 2) + 1)"

declare log2_fast.simps [simp del]

definition better_to_rebuild :: "nat \<Rightarrow> nat \<Rightarrow> bool" where
  "better_to_rebuild start len =
     (let tail_len = len - start in
      if start < tail_len then True
      else if len \<le> 2048 then 2 * len < tail_len * log2_fast start
      else 2 * len < tail_len * 11)"

definition rebuild_tail :: "nat \<Rightarrow> ('a::linorder) list \<Rightarrow> 'a list" where
  "rebuild_tail start xs =
     (if start = length xs then xs
      else if better_to_rebuild start (length xs) then rebuild xs
      else fold sift_up [start..<length xs] xs)"

text \<open>\<open>BinaryHeap::push\<close> and \<open>append\<close>, which first moves the larger heap into \<open>self\<close>.\<close>

definition bh_push :: "('a::linorder) \<Rightarrow> 'a vstate \<Rightarrow> ('a vstate, 'e, unit) run" where
  "bh_push x s =
     and_then (vec_push x s) (\<lambda>_ (v, h). (Ok (), (with_items (sift_up (vlen v - 1) (items v)) v, h)))"

type_synonym 'a bh_pair = "('a vec \<times> 'a vec) \<times> heap"

definition bh_append :: "('a::linorder) bh_pair \<Rightarrow> ('a bh_pair, 'e, unit) run" where
  "bh_append s =
     (case s of ((v0, w0), h) \<Rightarrow>
        let (v, w) = (if vlen v0 < vlen w0 then (w0, v0) else (v0, w0)) in
        case vec_append w (v, h) of
          (Ok w', (v', h')) \<Rightarrow> (Ok (), ((with_items (rebuild_tail (vlen v) (items v')) v', w'), h'))
        | (r, (v', h')) \<Rightarrow> (map_ok (\<lambda>_. ()) r, ((v', w), h')))"

section \<open>Fallible heaps\<close>

datatype bh_clone_error = BhReserve try_reserve_error | BhClone try_clone_error

definition bh_try_with_capacity :: "layout \<Rightarrow> nat \<Rightarrow> heap \<Rightarrow> (try_reserve_error, 'a vec) outcome \<times> heap" where
  "bh_try_with_capacity l capacity h =
     into_vec (if 0 < capacity then vec_try_reserve capacity (vec_new l, h) else (Ok (), (vec_new l, h)))"

definition bh_try_push :: "('a::linorder) \<Rightarrow> 'a vstate \<Rightarrow> ('a vstate, try_reserve_error, unit) run" where
  "bh_try_push x s = and_then (vec_try_reserve 1 s) (\<lambda>_. bh_push x)"

definition bh_try_push_give_back ::
    "('a::linorder) \<Rightarrow> 'a vstate \<Rightarrow> ('a vstate, 'a \<times> try_reserve_error, unit) run" where
  "bh_try_push_give_back x s =
     and_then (map_err_run (\<lambda>e. (x, e)) (vec_try_reserve 1 s)) (\<lambda>_. bh_push x)"

text \<open>\<open>try_append\<close> swaps the two heaps before it reserves.\<close>

definition bh_try_append :: "('a::linorder) bh_pair \<Rightarrow> ('a bh_pair, try_reserve_error, unit) run" where
  "bh_try_append s =
     (case s of ((v0, w0), h) \<Rightarrow>
        let extra = vlen w0 in
        if extra = 0 then (Ok (), s)
        else
          let (v, w) = (if vlen v0 < vlen w0 then (w0, v0) else (v0, w0)) in
          case vec_try_reserve extra (v, h) of
            (Ok _, (v', h')) \<Rightarrow> bh_append ((v', w), h')
          | (r, (v', h')) \<Rightarrow> (r, ((v', w), h')))"

text \<open>Clone each element and push it; on a failure, how many were pushed.\<close>

fun bh_push_clones ::
    "('a::linorder) cloner \<Rightarrow> 'a list \<Rightarrow> 'a vstate \<Rightarrow> ('a vstate, 'a list \<times> try_clone_error, unit) run"
where
  "bh_push_clones cl [] s = (Ok (), s)"
| "bh_push_clones cl (x # xs) (v, h) =
     (case cl x h of
        (Ok y, h') \<Rightarrow> and_then (bh_push y (v, h')) (\<lambda>_. bh_push_clones cl xs)
      | (Err e, h') \<Rightarrow> (Err (x # xs, e), (v, h'))
      | (Panic m, h') \<Rightarrow> (Panic m, (v, h'))
      | (UB, h') \<Rightarrow> (UB, (v, h')))"

definition bh_try_from_slice ::
    "layout \<Rightarrow> ('a::linorder) cloner \<Rightarrow> 'a list \<Rightarrow> heap \<Rightarrow> (bh_clone_error, 'a vec) outcome \<times> heap" where
  "bh_try_from_slice l cl xs h =
     into_vec (and_then
       (map_err_run BhReserve
         (if xs \<noteq> [] then vec_try_reserve (length xs) (vec_new l, h) else (Ok (), (vec_new l, h))))
       (\<lambda>_ s. map_err_run (\<lambda>(_, e). BhClone e) (bh_push_clones cl xs s)))"

definition bh_try_clone :: "('a::linorder) cloner \<Rightarrow> 'a vec cloner" where
  "bh_try_clone cl v h =
     into_vec (and_then
       (map_err_run CloneReserve
         (if items v \<noteq> [] then vec_try_reserve (vlen v) (vec_new (elem v), h)
          else (Ok (), (vec_new (elem v), h))))
       (\<lambda>_ s. map_err_run snd (bh_push_clones cl (items v) s)))"

definition bh_try_extend_from_slice ::
    "('a::linorder) cloner \<Rightarrow> 'a list \<Rightarrow> 'a vstate \<Rightarrow> ('a vstate, 'a list \<times> bh_clone_error, unit) run" where
  "bh_try_extend_from_slice cl xs s =
     (if xs = [] then (Ok (), s)
      else and_then (map_err_run (\<lambda>e. (xs, BhReserve e)) (vec_try_reserve (length xs) s))
        (\<lambda>_ s. map_err_run (\<lambda>(ys, e). (ys, BhClone e)) (bh_push_clones cl xs s)))"

section \<open>Iterator-driven operations\<close>

definition bh_extend_push :: "('a::linorder) \<Rightarrow> 'a vstate \<Rightarrow> ('a vstate, try_reserve_error, unit) run" where
  "bh_extend_push x s =
     and_then (if vlen (fst s) = cap (fst s) then vec_try_reserve 1 s else (Ok (), s)) (\<lambda>_. bh_push x)"

fun bh_extend_loop ::
    "('a::linorder) list \<Rightarrow> ('a list \<Rightarrow> nat \<times> nat option) \<Rightarrow> 'a vstate \<Rightarrow>
     ('a vstate, 'a resumable \<times> try_reserve_error, unit) run" where
  "bh_extend_loop [] g s = (Ok (), s)"
| "bh_extend_loop (x # xs) g s =
     and_then (map_err_run (\<lambda>e. (resumable_new x (Iter xs g), e)) (bh_extend_push x s))
       (\<lambda>_. bh_extend_loop xs g)"

definition bh_try_extend ::
    "('a::linorder) source \<Rightarrow> 'a vstate \<Rightarrow> ('a vstate, 'a resumable \<times> try_reserve_error, unit) run" where
  "bh_try_extend src s =
     (let (head, it) = safe_into_iter src
      in and_then
           (case head of
              Some x \<Rightarrow> map_err_run (\<lambda>e. (resumable_new x it, e)) (bh_extend_push x s)
            | None \<Rightarrow> (Ok (), s))
           (\<lambda>_ s1.
             let lower = fst (size_hint it)
             in and_then
                  (if 0 < lower
                   then map_err_run (\<lambda>e. (resumable_from_remainder it, e)) (vec_try_reserve lower s1)
                   else (Ok (), s1))
                  (\<lambda>_. bh_extend_loop (rest it) (hint it))))"

text \<open>\<open>try_collect\<close> reserves the upper bound of the hint, or the lower one; what it has taken is dropped
  on a failure.\<close>

definition bh_try_collect ::
    "layout \<Rightarrow> ('a::linorder) iter \<Rightarrow> heap \<Rightarrow> (try_reserve_error, 'a vec) outcome \<times> heap" where
  "bh_try_collect l it h =
     (let (lower, upper) = size_hint it;
          capacity = (case upper of None \<Rightarrow> lower | Some u \<Rightarrow> u)
      in into_vec (and_then
           (if 0 < capacity then vec_try_reserve capacity (vec_new l, h) else (Ok (), (vec_new l, h)))
           (\<lambda>_ s. map_err_run snd (bh_extend_loop (rest it) (hint it) s))))"

end
