(* ===== verification/BinHeapProps.thy ===== *)
theory BinHeapProps
  imports BinHeap
begin

text \<open>
  The order of the binary heap and what the fallible operations promise: a heap is seen as the multiset
  of its elements, with the maximum at the root.
\<close>

section \<open>The order\<close>

definition heap_upto :: "nat \<Rightarrow> ('a::linorder) list \<Rightarrow> bool" where
  "heap_upto n xs \<longleftrightarrow> (\<forall>i<n. 0 < i \<longrightarrow> xs ! i \<le> xs ! parent i)"

abbreviation heap_ordered :: "('a::linorder) list \<Rightarrow> bool" where
  "heap_ordered xs \<equiv> heap_upto (length xs) xs"

lemma parent_less: "0 < i \<Longrightarrow> parent i < i"
  by (simp add: parent_def)

lemma parent_below [simp]: "i < n \<Longrightarrow> parent i < n"
  by (simp add: parent_def)

lemma heap_upto_append: "heap_upto (length xs) xs \<Longrightarrow> heap_upto (length xs) (xs @ ys)"
  by (simp add: heap_upto_def nth_append)

lemma root_is_maximum:
  assumes "heap_ordered xs" and "x \<in> set xs"
  shows "x \<le> xs ! 0"
proof -
  have "i < length xs \<Longrightarrow> xs ! i \<le> xs ! 0" for i
  proof (induction i rule: less_induct)
    case (less i)
    show ?case
    proof (cases "i = 0")
      case False
      then have "parent i < i" by (simp add: parent_less)
      with less False have "xs ! parent i \<le> xs ! 0" "xs ! i \<le> xs ! parent i"
        using assms(1) by (auto simp: heap_upto_def)
      then show ?thesis by simp
    qed simp
  qed
  with assms(2) show ?thesis by (auto simp: in_set_conv_nth)
qed

section \<open>Sifting\<close>

lemma swap_props:
  "length (swap i j xs) = length xs"
  "i < length xs \<Longrightarrow> j < length xs \<Longrightarrow> mset (swap i j xs) = mset xs"
  "i < length xs \<Longrightarrow> j < length xs \<Longrightarrow> k < length xs \<Longrightarrow>
    swap i j xs ! k = (if k = j then xs ! i else if k = i then xs ! j else xs ! k)"
  by (auto simp: swap_def mset_swap nth_list_update)

lemma sift_up_mset:
  "pos < length xs \<Longrightarrow> mset (sift_up pos xs) = mset xs \<and> length (sift_up pos xs) = length xs"
proof (induction pos xs rule: sift_up.induct)
  case (1 pos xs)
  show ?case
  proof (cases "pos = 0 \<or> xs ! pos \<le> xs ! parent pos")
    case True
    then show ?thesis by (subst (1 2) sift_up.simps) auto
  next
    case False
    then have "parent pos < length xs" using 1(2) parent_less [of pos] by simp
    with 1 False show ?thesis by (subst (1 2) sift_up.simps) (simp add: swap_props)
  qed
qed

text \<open>Everything is in order but the hole, whose children are not above its parent.\<close>

definition hole_up :: "nat \<Rightarrow> nat \<Rightarrow> ('a::linorder) list \<Rightarrow> bool" where
  "hole_up n pos xs \<longleftrightarrow>
     (\<forall>i<n. 0 < i \<and> i \<noteq> pos \<longrightarrow> xs ! i \<le> xs ! parent i) \<and>
     (\<forall>i<n. 0 < i \<and> 0 < pos \<and> parent i = pos \<longrightarrow> xs ! i \<le> xs ! parent pos)"

lemma hole_up_swap:
  assumes "hole_up n pos xs" and "0 < pos" "pos < n" "n \<le> length xs" and "xs ! parent pos < xs ! pos"
  shows "hole_up n (parent pos) (swap pos (parent pos) xs)"
proof -
  let ?q = "parent pos" and ?ys = "swap pos (parent pos) xs"
  have q: "?q < pos" using assms(2) by (rule parent_less)
  have nth: "?ys ! k = (if k = ?q then xs ! pos else if k = pos then xs ! ?q else xs ! k)" if "k < n" for k
    using that q assms(3,4) by (intro swap_props(3)) auto
  have ord: "xs ! i \<le> xs ! parent i" if "i < n" "0 < i" "i \<noteq> pos" for i
    using assms(1) that by (auto simp: hole_up_def)
  have child: "xs ! i \<le> xs ! ?q" if "i < n" "0 < i" "parent i = pos" for i
    using assms(1,2) that by (auto simp: hole_up_def)
  have pn: "parent i < n" if "i < n" "0 < i" for i using that parent_less [of i] by simp
  have 1: "?ys ! i \<le> ?ys ! parent i" if i: "i < n" "0 < i" "i \<noteq> ?q" for i
  proof -
    consider "i = pos" | "i \<noteq> pos" "parent i = ?q" | "i \<noteq> pos" "parent i = pos"
      | "i \<noteq> pos" "parent i \<noteq> ?q" "parent i \<noteq> pos" by blast
    then show ?thesis
    proof cases
      case 1
      then show ?thesis using nth [OF i(1)] nth [of ?q] q assms(3,5) by simp
    next
      case 2
      then show ?thesis
        using nth [OF i(1)] nth [of "parent i"] pn [OF i(1,2)] ord [OF i(1,2)] i(3) assms(5) by auto
    next
      case 3
      then show ?thesis
        using nth [OF i(1)] nth [of "parent i"] pn [OF i(1,2)] child [OF i(1,2)] i(3) q by auto
    next
      case 4
      then show ?thesis
        using nth [OF i(1)] nth [of "parent i"] pn [OF i(1,2)] ord [OF i(1,2)] i(3) by auto
    qed
  qed
  have 2: "?ys ! i \<le> ?ys ! parent ?q" if i: "i < n" "0 < i" "0 < ?q" "parent i = ?q" for i
  proof -
    have pq: "parent ?q < ?q" using i(3) by (rule parent_less)
    have "i \<noteq> ?q" using i(2,4) parent_less [of i] by auto
    have "?ys ! parent ?q = xs ! parent ?q" using nth [of "parent ?q"] pq q assms(3) by auto
    moreover have "xs ! ?q \<le> xs ! parent ?q" using ord [of ?q] i(3) q assms(3) by auto
    moreover have "?ys ! i \<le> xs ! ?q"
      using nth [OF i(1)] ord [OF i(1,2)] i(4) \<open>i \<noteq> ?q\<close> by auto
    ultimately show ?thesis by simp
  qed
  from 1 2 show ?thesis by (auto simp: hole_up_def)
qed

lemma sift_up_heap:
  assumes "hole_up n pos xs" and "pos < n" "n \<le> length xs"
  shows "heap_upto n (sift_up pos xs)"
  using assms
proof (induction pos xs rule: sift_up.induct)
  case (1 pos xs)
  show ?case
  proof (cases "pos = 0 \<or> xs ! pos \<le> xs ! parent pos")
    case True
    then have "sift_up pos xs = xs" by (subst sift_up.simps) auto
    with True 1(2) show ?thesis by (auto simp: hole_up_def heap_upto_def)
  next
    case False
    then have "sift_up pos xs = sift_up (parent pos) (swap pos (parent pos) xs)"
      by (subst sift_up.simps) simp
    with 1 False hole_up_swap [of n pos xs] parent_less [of pos] show ?thesis
      by (simp add: swap_props(1) not_le)
  qed
qed

lemma sift_up_last:
  assumes "heap_upto n xs" and "n < length xs"
  shows "heap_upto (Suc n) (sift_up n xs)"
proof (rule sift_up_heap)
  show "hole_up (Suc n) n xs"
    unfolding hole_up_def
  proof (intro conjI allI impI)
    fix i
    assume "i < Suc n" "0 < i \<and> i \<noteq> n"
    with assms(1) show "xs ! i \<le> xs ! parent i" by (simp add: heap_upto_def)
  next
    fix i
    assume "i < Suc n" "0 < i \<and> 0 < n \<and> parent i = n"
    with parent_less [of i] show "xs ! i \<le> xs ! parent n" by simp
  qed
qed (use assms in auto)

lemma sift_up_tail:
  assumes "heap_upto start xs" and "start \<le> length xs"
  shows "heap_ordered (fold sift_up [start..<length xs] xs) \<and>
    mset (fold sift_up [start..<length xs] xs) = mset xs"
proof -
  have "heap_upto m (fold sift_up [start..<m] xs) \<and> mset (fold sift_up [start..<m] xs) = mset xs \<and>
      length (fold sift_up [start..<m] xs) = length xs" if "start \<le> m" "m \<le> length xs" for m
    using that
  proof (induction m rule: nat_induct_at_least)
    case base
    then show ?case using assms(1) by simp
  next
    case (Suc m)
    let ?ys = "fold sift_up [start..<m] xs"
    have ys: "heap_upto m ?ys" "mset ?ys = mset xs" "m < length ?ys" "length ?ys = length xs"
      using Suc by simp_all
    from sift_up_last [OF ys(1,3)] sift_up_mset [OF ys(3)] ys Suc.hyps show ?case by simp
  qed
  from this [of "length xs"] assms(2) show ?thesis by auto
qed

text \<open>Downwards: from \<open>lo\<close> on everything is in order but the children of the hole, which are not above
  the hole's parent.\<close>

definition heap_from :: "nat \<Rightarrow> ('a::linorder) list \<Rightarrow> bool" where
  "heap_from lo xs \<longleftrightarrow> (\<forall>i<length xs. 0 < i \<and> lo \<le> parent i \<longrightarrow> xs ! i \<le> xs ! parent i)"

definition hole_down :: "nat \<Rightarrow> nat \<Rightarrow> ('a::linorder) list \<Rightarrow> bool" where
  "hole_down lo pos xs \<longleftrightarrow> lo \<le> pos \<and>
     (\<forall>i<length xs. 0 < i \<and> lo \<le> parent i \<and> parent i \<noteq> pos \<longrightarrow> xs ! i \<le> xs ! parent i) \<and>
     (\<forall>i<length xs. 0 < i \<and> parent i = pos \<and> 0 < pos \<and> lo \<le> parent pos \<longrightarrow> xs ! i \<le> xs ! parent pos)"

lemma children: "0 < i \<and> parent i = pos \<longleftrightarrow> i = 2 * pos + 1 \<or> i = 2 * pos + 2"
  unfolding parent_def by linarith

lemma hole_down_done:
  assumes "hole_down lo pos xs"
    and "\<And>i. i < length xs \<Longrightarrow> i = 2 * pos + 1 \<or> i = 2 * pos + 2 \<Longrightarrow> xs ! i \<le> xs ! pos"
  shows "heap_from lo xs"
  unfolding heap_from_def
proof (intro allI impI)
  fix i
  assume i: "i < length xs" "0 < i \<and> lo \<le> parent i"
  show "xs ! i \<le> xs ! parent i"
  proof (cases "parent i = pos")
    case True
    with i children [of i pos] assms(2) show ?thesis by auto
  next
    case False
    with i assms(1) show ?thesis by (auto simp: hole_down_def)
  qed
qed

lemma hole_down_swap:
  assumes "hole_down lo pos xs" and c: "c < length xs" "0 < c" "parent c = pos"
    and above: "xs ! pos < xs ! c"
    and best: "\<And>i. i < length xs \<Longrightarrow> 0 < i \<Longrightarrow> parent i = pos \<Longrightarrow> xs ! i \<le> xs ! c"
  shows "hole_down lo c (swap pos c xs)"
proof -
  let ?ys = "swap pos c xs"
  have pc: "pos < c" using c parent_less [of c] by simp
  have nth: "?ys ! k = (if k = c then xs ! pos else if k = pos then xs ! c else xs ! k)" if "k < length xs" for k
    using that pc c by (intro swap_props(3)) auto
  have lo: "lo \<le> pos" using assms(1) by (simp add: hole_down_def)
  have ord: "xs ! i \<le> xs ! parent i" if "i < length xs" "0 < i" "lo \<le> parent i" "parent i \<noteq> pos" for i
    using assms(1) that by (auto simp: hole_down_def)
  have up: "xs ! i \<le> xs ! parent pos" if "i < length xs" "0 < i" "parent i = pos" "0 < pos" "lo \<le> parent pos" for i
    using assms(1) that by (auto simp: hole_down_def)
  have pn: "parent i < length xs" if "i < length xs" "0 < i" for i using that parent_less [of i] by simp
  have 1: "?ys ! i \<le> ?ys ! parent i" if i: "i < length xs" "0 < i" "lo \<le> parent i" "parent i \<noteq> c" for i
  proof -
    consider "i = c" | "i \<noteq> c" "parent i = pos" | "i = pos" | "i \<noteq> c" "i \<noteq> pos" "parent i \<noteq> pos" by blast
    then show ?thesis
    proof cases
      case 1
      then show ?thesis using nth [OF i(1)] nth [of pos] c pc above by auto
    next
      case 2
      then have "i \<noteq> pos" using i(2) parent_less [of i] by auto
      with 2 show ?thesis using nth [OF i(1)] nth [of pos] best [OF i(1,2)] pc c(1) by auto
    next
      case 3
      then have "parent i \<noteq> pos" using i(2) parent_less [of i] by auto
      with 3 show ?thesis
        using nth [OF i(1)] nth [OF pn [OF i(1,2)]] up [OF c] i pc by auto
    next
      case 4
      then show ?thesis
        using nth [OF i(1)] nth [OF pn [OF i(1,2)]] ord [OF i(1,2,3)] i(4) by auto
    qed
  qed
  have 2: "?ys ! i \<le> ?ys ! parent c" if i: "i < length xs" "0 < i" "parent i = c" for i
  proof -
    have "c < i" using i parent_less [of i] by simp
    then have "?ys ! i = xs ! i" "?ys ! parent c = xs ! c"
      using nth [OF i(1)] nth [of pos] c pc by auto
    moreover have "xs ! i \<le> xs ! parent i" using ord [OF i(1,2)] i(3) lo pc by auto
    ultimately show ?thesis using i(3) by simp
  qed
  from 1 2 lo pc show ?thesis by (auto simp: hole_down_def swap_props(1))
qed

lemma sift_down_heap:
  assumes "hole_down lo pos xs" and "pos < length xs"
  shows "heap_from lo (sift_down pos xs) \<and> mset (sift_down pos xs) = mset xs \<and>
    length (sift_down pos xs) = length xs"
  using assms
proof (induction pos xs rule: sift_down.induct)
  case (1 pos xs)
  let ?child = "2 * pos + 1"
  have par: "parent ?child = pos" "parent (?child + 1) = pos" by (simp_all add: parent_def)
  consider "?child + 2 \<le> length xs" | "?child + 1 = length xs" | "length xs < ?child + 1" by linarith
  then show ?case
  proof cases
    case 1
    define c where "c = (if xs ! ?child \<le> xs ! (?child + 1) then ?child + 1 else ?child)"
    have c: "c < length xs" "0 < c" "parent c = pos" using par 1 by (auto simp: c_def)
    have best: "xs ! i \<le> xs ! c" if "0 < i" "parent i = pos" for i
      using children [of i pos] that by (auto simp: c_def)
    have step: "sift_down pos xs = (if xs ! c \<le> xs ! pos then xs else sift_down c (swap pos c xs))"
      using 1 by (subst sift_down.simps) (simp only: Let_def c_def if_True)
    show ?thesis
    proof (cases "xs ! c \<le> xs ! pos")
      case True
      moreover have "heap_from lo xs"
        using "1.prems"(1)
      proof (rule hole_down_done)
        fix i
        assume "i = 2 * pos + 1 \<or> i = 2 * pos + 2"
        with children [of i pos] best [of i] True show "xs ! i \<le> xs ! pos" by auto
      qed
      ultimately show ?thesis by (simp add: step)
    next
      case False
      moreover have "hole_down lo c (swap pos c xs)"
        using "1.prems"(1) c best False by (intro hole_down_swap) auto
      ultimately show ?thesis
        using "1.IH" [OF refl 1 c_def False] c "1.prems"(2) by (simp add: swap_props step)
    qed
  next
    case 2
    show ?thesis
    proof (cases "xs ! pos < xs ! ?child")
      case True
      have only: "i = ?child" if "i < length xs" "0 < i" "parent i = pos" for i
        using children [of i pos] 2 that by auto
      have "hole_down lo ?child (swap pos ?child xs)"
        using "1.prems"(1)
      proof (rule hole_down_swap)
        show "xs ! i \<le> xs ! ?child" if "i < length xs" "0 < i" "parent i = pos" for i
          using only [OF that] by simp
      qed (use 2 par True in auto)
      then have "heap_from lo (swap pos ?child xs)"
        by (rule hole_down_done) (use 2 in \<open>simp add: swap_props(1)\<close>)
      moreover have "sift_down pos xs = swap pos ?child xs"
        using 2 True by (subst sift_down.simps) (simp add: Let_def)
      ultimately show ?thesis using 2 "1.prems"(2) by (simp add: swap_props)
    next
      case False
      then have "sift_down pos xs = xs" using 2 by (subst sift_down.simps) (simp add: Let_def)
      moreover have "heap_from lo xs"
        using "1.prems"(1) False 2 by (intro hole_down_done) auto
      ultimately show ?thesis by simp
    qed
  next
    case 3
    then have "sift_down pos xs = xs" by (subst sift_down.simps) (simp add: Let_def)
    moreover have "heap_from lo xs"
      using "1.prems"(1) 3 by (intro hole_down_done) auto
    ultimately show ?thesis by simp
  qed
qed

lemma rebuild_from_heap:
  assumes "heap_from n xs" and "n \<le> length xs"
  shows "heap_from 0 (rebuild_from n xs) \<and> mset (rebuild_from n xs) = mset xs"
  using assms
proof (induction n arbitrary: xs)
  case (Suc n)
  have "\<not> n \<le> parent n" if "0 < n" using parent_less [OF that] by simp
  then have "hole_down n n xs"
    using Suc.prems(1) by (auto simp: hole_down_def heap_from_def Suc_le_eq)
  from sift_down_heap [OF this] Suc.prems(2) obtain ys where
    ys: "sift_down n xs = ys" "heap_from n ys" "mset ys = mset xs" "length ys = length xs" by auto
  with Suc.IH [of ys] Suc.prems(2) show ?case by simp
qed simp

lemma rebuild_heap: "heap_ordered (rebuild xs) \<and> mset (rebuild xs) = mset xs"
proof -
  have "heap_from (length xs div 2) xs" by (auto simp: heap_from_def parent_def)
  from rebuild_from_heap [OF this] show ?thesis
    by (auto simp: rebuild_def heap_upto_def heap_from_def)
qed

lemma rebuild_tail_heap:
  assumes "heap_upto start xs" and "start \<le> length xs"
  shows "heap_ordered (rebuild_tail start xs) \<and> mset (rebuild_tail start xs) = mset xs"
  using assms sift_up_tail [OF assms] rebuild_heap [of xs] by (auto simp: rebuild_tail_def)

section \<open>The operations\<close>

lemma bh_push_room:
  assumes "vlen v < cap v" and "heap_ordered (items v)" and "vec_ok v"
  shows "\<exists>w. (bh_push x (v, h) :: ('a::linorder vstate, 'e, unit) run) = (Ok (), (w, h)) \<and> vec_ok w \<and>
    cap w = cap v \<and> elem w = elem v \<and> heap_ordered (items w) \<and> mset (items w) = add_mset x (mset (items v))"
proof -
  let ?xs = "items v @ [x]"
  have len: "vlen v < length ?xs" by simp
  have "heap_upto (vlen v) ?xs"
    using assms(2) by (rule heap_upto_append)
  from sift_up_last [OF this len] sift_up_mset [OF len]
  have "heap_upto (length ?xs) (sift_up (vlen v) ?xs)" "mset (sift_up (vlen v) ?xs) = mset ?xs"
    "length (sift_up (vlen v) ?xs) = length ?xs" by simp_all
  then show ?thesis
    using assms(1,3) by (simp add: bh_push_def vec_push_room vec_ok_with_items)
qed

text \<open>A heap: well-formed storage in heap order.\<close>

definition bh_ok :: "('a::linorder) vec \<Rightarrow> bool" where
  "bh_ok v \<longleftrightarrow> vec_ok v \<and> heap_ordered (items v)"

lemma bh_try_push_cases [consumes 1]:
  assumes "bh_ok v"
  obtains (Ok) w h' where "bh_try_push_give_back x (v, h) = (Ok (), (w, h'))" and "bh_ok w"
      and "mset (items w) = add_mset x (mset (items v))"
  | (Err) e h' where "bh_try_push_give_back x (v, h) = (Err (x, e), (v, h'))"
proof -
  have v: "vec_ok v" using assms by (simp add: bh_ok_def)
  then show thesis
  proof (cases rule: vec_try_reserve_cases [of v 1 h])
    case (reserved u k)
    then have "vlen u < cap u" "heap_ordered (items u)" using assms by (simp_all add: bh_ok_def)
    from bh_push_room [OF this reserved(2), where x = x and h = k and 'e = "'a \<times> try_reserve_error"]
    obtain w where "(bh_push x (u, k) :: ('a vstate, 'a \<times> try_reserve_error, unit) run) = (Ok (), (w, k))"
      "bh_ok w" "mset (items w) = add_mset x (mset (items u))"
      by (auto simp: bh_ok_def)
    with reserved show thesis by (intro that(1) [of w k]) (simp_all add: bh_try_push_give_back_def)
  next
    case (failed e k)
    then show thesis by (intro that(2)) (simp add: bh_try_push_give_back_def)
  qed
qed

text \<open>The append: both heaps together on \<open>Ok\<close>, and on a failed reservation the heaps as they stand after
  the swap.\<close>

lemma bh_try_append_cases:
  assumes "bh_ok v" and "bh_ok w" and "bh_try_append ((v, w), h) = (r, ((v', w'), h'))"
  shows "(r = Ok () \<and> bh_ok v' \<and> items w' = [] \<and> mset (items v') = mset (items v) + mset (items w)) \<or>
    (\<exists>e. r = Err e) \<and> (if vlen v < vlen w then v' = w \<and> w' = v else v' = v \<and> w' = w)"
proof (cases "vlen w = 0")
  case True
  with assms show ?thesis by (auto simp: bh_try_append_def)
next
  case False
  define a b where "a = (if vlen v < vlen w then w else v)" and "b = (if vlen v < vlen w then v else w)"
  have ab: "bh_ok a" "bh_ok b" "vlen b \<le> vlen w" "vlen b \<le> vlen a"
    "mset (items a) + mset (items b) = mset (items v) + mset (items w)"
    using assms(1,2) by (auto simp: a_def b_def)
  have run: "bh_try_append ((v, w), h) = (case vec_try_reserve (vlen w) (a, h) of
      (Ok _, (a', h')) \<Rightarrow> bh_append ((a', b), h') | (r, (a', h')) \<Rightarrow> (r, ((a', b), h')))"
  proof (cases "vlen v < vlen w")
    case True
    then have ab: "a = w" "b = v" by (simp_all add: a_def b_def)
    show ?thesis unfolding ab using True False by (simp add: bh_try_append_def)
  next
    case le: False
    then have ab: "a = v" "b = w" by (simp_all add: a_def b_def)
    show ?thesis unfolding ab using le False by (simp add: bh_try_append_def)
  qed
  have va: "vec_ok a" using ab(1) by (simp add: bh_ok_def)
  show ?thesis
  proof (cases rule: vec_try_reserve_cases [OF va, of "vlen w" h])
    case (1 u k)
    let ?xs = "items u @ items b"
    have room: "vlen u + vlen b \<le> cap u" using 1(3,5) ab(3) by simp
    have noswap: "\<not> vlen u < vlen b" using 1(3) ab(4) by simp
    have heap: "heap_ordered (rebuild_tail (vlen u) ?xs) \<and> mset (rebuild_tail (vlen u) ?xs) = mset ?xs"
      using ab(1) 1(3) by (intro rebuild_tail_heap heap_upto_append) (simp_all add: bh_ok_def)
    then have len: "length (rebuild_tail (vlen u) ?xs) = length ?xs" by (metis size_mset)
    have "(bh_append ((u, b), k) :: ('a bh_pair, try_reserve_error, unit) run) =
        (Ok (), ((with_items (rebuild_tail (vlen u) ?xs) u, with_items [] b), k))"
      by (simp add: bh_append_def noswap vec_append_room [OF room])
    then have "r = Ok ()" "v' = with_items (rebuild_tail (vlen u) ?xs) u" "w' = with_items [] b"
      using assms(3) run 1(1) by auto
    with heap len room 1(2,3) ab(5) show ?thesis
      by (auto simp: bh_ok_def vec_ok_with_items)
  next
    case (2 e k)
    with assms(3) run show ?thesis by (auto simp: a_def b_def)
  qed
qed

section \<open>Properties\<close>

text \<open>Claim C33. \<open>try_push_give_back\<close> on a heap either adds the value, keeps the heap order, so that the
  root is the maximum, and the other elements, or gives the value back with the heap untouched.\<close>

theorem heap_push_spec:
  assumes "bh_ok v" and "bh_try_push_give_back x (v, h) = (r, (v', h'))"
  shows "r = Ok () \<and> bh_ok v' \<and> mset (items v') = add_mset x (mset (items v)) \<and>
      items v' ! 0 = Max (insert x (set (items v))) \<or>
    (\<exists>e. r = Err (x, e)) \<and> v' = v"
proof (cases rule: bh_try_push_cases [OF assms(1), of x h])
  case (1 w k)
  then have w: "r = Ok ()" "v' = w" using assms(2) by auto
  have set: "set (items w) = insert x (set (items v))"
    using 1(3) by (metis set_mset_add_mset_insert set_mset_mset)
  then have ne: "items w \<noteq> []" by auto
  have "y \<le> items w ! 0" if "y \<in> insert x (set (items v))" for y
    using root_is_maximum [of "items w" y] 1(2) set that by (simp add: bh_ok_def)
  moreover have "items w ! 0 \<in> insert x (set (items v))" using ne set nth_mem [of 0 "items w"] by simp
  ultimately have "Max (insert x (set (items v))) = items w ! 0" by (intro Max_eqI) auto
  with w 1 show ?thesis by simp
next
  case (2 e k)
  with assms(2) show ?thesis by auto
qed

theorem heap_push_spec_witness:
  "fst (bh_try_push_give_back (5::nat) (vec_new (Layout 8 8), heap_with policy_fail_all)) \<noteq> UB"
proof -
  have "bh_ok (vec_new (Layout 8 8) :: nat vec)" by (simp add: bh_ok_def heap_upto_def)
  from heap_push_spec [OF this, of 5 "heap_with policy_fail_all"] show ?thesis
    by (cases "bh_try_push_give_back (5::nat) (vec_new (Layout 8 8), heap_with policy_fail_all)") auto
qed

text \<open>Claim C32. \<open>try_append\<close> moves all elements into \<open>self\<close>, in heap order, or fails. When it fails and
  the other heap was the longer one, the two heaps have changed places: \<open>self\<close> holds what \<open>other\<close> held
  and the other way round, although \<open>other\<close> is promised to be left untouched.\<close>

theorem heap_append_swaps:
  assumes "bh_ok v" and "bh_ok w" and "bh_try_append ((v, w), h) = (r, ((v', w'), h'))"
  shows "(r = Ok () \<and> bh_ok v' \<and> items w' = [] \<and> mset (items v') = mset (items v) + mset (items w)) \<or>
    (\<exists>e. r = Err e) \<and> (if vlen v < vlen w then v' = w \<and> w' = v else v' = v \<and> w' = w)"
  using assms by (rule bh_try_append_cases)

theorem heap_append_swaps_witness:
  "\<exists>e h'. bh_try_append ((Vec [] 0 (Layout 8 8), Vec [1::nat] 1 (Layout 8 8)), heap_with policy_fail_all) =
     (Err e, ((Vec [1] 1 (Layout 8 8), Vec [] 0 (Layout 8 8)), h'))"
proof -
  let ?v = "Vec [] 0 (Layout 8 8) :: nat vec" and ?w = "Vec [1::nat] 1 (Layout 8 8)"
  let ?h = "heap_with policy_fail_all"
  have ok: "bh_ok ?v" "bh_ok ?w"
    by (simp_all add: bh_ok_def heap_upto_def vec_ok_def usize_max_def isize_max_def)
  obtain r v' w' h' where run: "bh_try_append ((?v, ?w), ?h) = (r, ((v', w'), h'))" by (metis surj_pair)
  have "r \<noteq> Ok ()"
    using run exhausted_grealloc [of ?h]
    by (cases "grow_cap ?w 1") (auto simp: bh_try_append_def vec_try_reserve_def grow_amortized_def)
  with heap_append_swaps [OF ok run] run show ?thesis by auto
qed

end
