(* ===== verification/HashTable.thy ===== *)
theory HashTable
  imports BulkInsert "HOL-Library.AList"
begin

text \<open>
  Fallible hash maps and hash sets (\<^verbatim>\<open>rustyfill/src/std/hashmap/hashmap_.rs\<close>,
  \<^verbatim>\<open>hashset_.rs\<close> and their \<^verbatim>\<open>try_extend.rs\<close>) over the standard library's \<open>HashMap\<close>. The standard
  map is its entries in iteration order, the number of entries it can still take without growing, the
  number of slots that removed entries left behind, and its hasher; a set is a map to the unit type. The
  table sizes of the library are a parameter \<open>G\<close>, which answers a request for \<open>n\<close> entries with the
  capacity and the layout of the new table, or with \<open>None\<close> when the size overflows. The iteration
  order after a growth is unspecified; here it stays, and no statement depends on it.
\<close>

section \<open>The standard hash map\<close>

record ('k, 'v, 's) hmap =
  hm_items :: "('k \<times> 'v) list"
  hm_left :: nat
  hm_graves :: nat
  hm_hasher :: 's

type_synonym table_sizes = "nat \<Rightarrow> (nat \<times> layout) option"

type_synonym ('k, 'v, 's) mstate = "('k, 'v, 's) hmap \<times> heap"

definition hm_with_hasher :: "'s \<Rightarrow> ('k, 'v, 's) hmap" where
  "hm_with_hasher hs = \<lparr>hm_items = [], hm_left = 0, hm_graves = 0, hm_hasher = hs\<rparr>"

definition hm_len :: "('k, 'v, 's) hmap \<Rightarrow> nat" where
  "hm_len m = length (hm_items m)"

definition hm_capacity :: "('k, 'v, 's) hmap \<Rightarrow> nat" where
  "hm_capacity m = hm_len m + hm_left m"

text \<open>\<open>try_reserve\<close>: nothing to do, a rehash in place when half of the table are graves, or a new table.\<close>

definition hm_try_reserve ::
    "table_sizes \<Rightarrow> nat \<Rightarrow> ('k, 'v, 's) mstate \<Rightarrow> (('k, 'v, 's) mstate, try_reserve_error, unit) run" where
  "hm_try_reserve G n s =
     (case s of (m, h) \<Rightarrow>
        if n \<le> hm_left m then (Ok (), s)
        else case checked_add (hm_len m) n of
            None \<Rightarrow> (Err new_capacity_overflow, s)
          | Some need \<Rightarrow>
              let full = hm_capacity m + hm_graves m
              in if need \<le> full div 2
                 then (Ok (), (m\<lparr>hm_left := full - hm_len m, hm_graves := 0\<rparr>, h))
                 else case G (max need (full + 1)) of
                     None \<Rightarrow> (Err new_capacity_overflow, s)
                   | Some (c, l) \<Rightarrow>
                       let (ok, h') = galloc h
                       in if ok then (Ok (), (m\<lparr>hm_left := c - hm_len m, hm_graves := 0\<rparr>, h'))
                          else (Err (new_alloc l), (m, h')))"

text \<open>\<open>insert\<close>: the value of a present key is replaced (the key stays); a new key takes a free slot, and
  without one the table grows or the process aborts.\<close>

definition hm_insert ::
    "table_sizes \<Rightarrow> 'k \<Rightarrow> 'v \<Rightarrow> ('k, 'v, 's) mstate \<Rightarrow> (('k, 'v, 's) mstate, 'e, 'v option) run" where
  "hm_insert G k v s =
     (case map_of (hm_items (fst s)) k of
        Some old \<Rightarrow> (Ok (Some old), map_prod (hm_items_update (AList.update k v)) id s)
      | None \<Rightarrow>
          (case (if hm_left (fst s) = 0 then hm_try_reserve G 1 s else (Ok (), s)) of
             (Ok _, (m, h)) \<Rightarrow>
               (Ok None, (m\<lparr>hm_items := AList.update k v (hm_items m), hm_left := hm_left m - 1\<rparr>, h))
           | (_, s') \<Rightarrow> (Panic ''memory allocation failed'', s')))"

section \<open>Errors\<close>

datatype hash_new_error = NewReserve try_reserve_error | NewDefault try_default_error

datatype hash_clone_error = HashReserve try_reserve_error | HashClone try_clone_error

datatype hash_unique_error = HashUniqueReserve try_reserve_error | HashKeyAlreadyExists

text \<open>The fallible default of the hasher.\<close>

type_synonym 's hasher_default = "heap \<Rightarrow> (try_default_error, 's) outcome \<times> heap"

section \<open>Maps: construction and insertion\<close>

definition hm_try_new :: "'s hasher_default \<Rightarrow> heap \<Rightarrow> (hash_new_error, ('k, 'v, 's) hmap) outcome \<times> heap" where
  "hm_try_new D h = (let (r, h') = D h in (map_ok hm_with_hasher (map_err NewDefault r), h'))"

definition hm_try_default :: "'s hasher_default \<Rightarrow> heap \<Rightarrow> (try_default_error, ('k, 'v, 's) hmap) outcome \<times> heap" where
  "hm_try_default D h = (let (r, h') = D h in (map_ok hm_with_hasher r, h'))"

text \<open>A constructor returns its map in the outcome.\<close>

definition into_map :: "(('k, 'v, 's) mstate, 'e, unit) run \<Rightarrow> ('e, ('k, 'v, 's) hmap) outcome \<times> heap" where
  "into_map r = (case r of (out, (m, h)) \<Rightarrow> (map_ok (\<lambda>_. m) out, h))"

text \<open>\<open>let mut map = Self::try_new()?\<close>, and then the rest of the constructor on it.\<close>

definition on_new ::
    "'s hasher_default \<Rightarrow> (('k, 'v, 's) mstate \<Rightarrow> (('k, 'v, 's) mstate, try_reserve_error, unit) run) \<Rightarrow>
     heap \<Rightarrow> (hash_new_error, ('k, 'v, 's) hmap) outcome \<times> heap" where
  "on_new D body h =
     (case hm_try_new D h of
        (Ok m, h') \<Rightarrow> into_map (map_err_run NewReserve (body (m, h')))
      | (Err e, h') \<Rightarrow> (Err e, h')
      | (Panic msg, h') \<Rightarrow> (Panic msg, h')
      | (UB, h') \<Rightarrow> (UB, h'))"

definition reserve_some ::
    "table_sizes \<Rightarrow> nat \<Rightarrow> ('k, 'v, 's) mstate \<Rightarrow> (('k, 'v, 's) mstate, try_reserve_error, unit) run" where
  "reserve_some G n s = (if 0 < n then hm_try_reserve G n s else (Ok (), s))"

definition hm_try_with_capacity ::
    "table_sizes \<Rightarrow> 's hasher_default \<Rightarrow> nat \<Rightarrow> heap \<Rightarrow> (hash_new_error, ('k, 'v, 's) hmap) outcome \<times> heap" where
  "hm_try_with_capacity G D n = on_new D (reserve_some G n)"

definition hm_try_with_capacity_and_hasher ::
    "table_sizes \<Rightarrow> nat \<Rightarrow> 's \<Rightarrow> heap \<Rightarrow> (try_reserve_error, ('k, 'v, 's) hmap) outcome \<times> heap" where
  "hm_try_with_capacity_and_hasher G n hs h = into_map (reserve_some G n (hm_with_hasher hs, h))"

text \<open>An entry obtained after the reservation: occupied with its value, or vacant.\<close>

definition hm_try_entry ::
    "table_sizes \<Rightarrow> 'k \<Rightarrow> ('k, 'v, 's) mstate \<Rightarrow> (('k, 'v, 's) mstate, try_reserve_error, 'v option) run" where
  "hm_try_entry G k s =
     and_then (hm_try_reserve G 1 s) (\<lambda>_ t. (Ok (map_of (hm_items (fst t)) k), t))"

definition entry_insert ::
    "table_sizes \<Rightarrow> 'k \<Rightarrow> 'v option \<Rightarrow> 'v \<Rightarrow> ('k, 'v, 's) mstate \<Rightarrow> (('k, 'v, 's) mstate, 'e, 'v option) run" where
  "entry_insert G k entry v s =
     (case entry of
        Some _ \<Rightarrow> hm_insert G k v s
      | None \<Rightarrow> map_ok_run (\<lambda>_. None) (hm_insert G k v s))"

definition hm_fallible_insert ::
    "table_sizes \<Rightarrow> 'k \<Rightarrow> 'v \<Rightarrow> ('k, 'v, 's) mstate \<Rightarrow> (('k, 'v, 's) mstate, try_reserve_error, 'v option) run" where
  "hm_fallible_insert G k v s = and_then (hm_try_entry G k s) (\<lambda>entry. entry_insert G k entry v)"

definition hm_insert_give_back ::
    "table_sizes \<Rightarrow> 'k \<Rightarrow> 'v \<Rightarrow> ('k, 'v, 's) mstate \<Rightarrow>
     (('k, 'v, 's) mstate, 'k \<times> 'v \<times> try_reserve_error, 'v option) run" where
  "hm_insert_give_back G k v s =
     and_then (map_err_run (\<lambda>e. (k, v, e)) (hm_try_reserve G 1 s))
       (\<lambda>_ t. entry_insert G k (map_of (hm_items (fst t)) k) v t)"

definition hm_try_insert_unique ::
    "table_sizes \<Rightarrow> 'k \<Rightarrow> 'v \<Rightarrow> ('k, 'v, 's) mstate \<Rightarrow>
     (('k, 'v, 's) mstate, 'k \<times> 'v \<times> hash_unique_error, unit) run" where
  "hm_try_insert_unique G k v s =
     (if map_of (hm_items (fst s)) k \<noteq> None then (Err (k, v, HashKeyAlreadyExists), s)
      else and_then (map_err_run (\<lambda>e. (k, v, HashUniqueReserve e)) (hm_try_reserve G 1 s))
             (\<lambda>_ t. case map_of (hm_items (fst t)) k of
                Some _ \<Rightarrow> (Panic ''key appeared between contains_key and entry'', t)
              | None \<Rightarrow> map_ok_run (\<lambda>_. ()) (entry_insert G k None v t)))"

section \<open>Maps: shrinking, bulk construction, cloning, extension\<close>

text \<open>Every entry of \<open>drain\<close> is inserted in the new map, which has the room; \<open>self\<close> is replaced at the end.\<close>

fun insert_drained ::
    "table_sizes \<Rightarrow> ('k \<times> 'v) list \<Rightarrow> ('k, 'v, 's) mstate \<Rightarrow> (('k, 'v, 's) mstate, 'e, unit) run" where
  "insert_drained G [] s = (Ok (), s)"
| "insert_drained G ((k, v) # kvs) s = and_then (hm_insert G k v s) (\<lambda>_. insert_drained G kvs)"

definition hm_try_shrink_to ::
    "table_sizes \<Rightarrow> 's cloner \<Rightarrow> nat \<Rightarrow> ('k, 'v, 's) mstate \<Rightarrow> (('k, 'v, 's) mstate, hash_clone_error, unit) run"
where
  "hm_try_shrink_to G cls min_capacity s =
     (case s of (m, h) \<Rightarrow>
        let target = max (hm_len m) min_capacity
        in if hm_capacity m \<le> target then (Ok (), s)
           else case cls (hm_hasher m) h of
               (Ok hs, h1) \<Rightarrow>
                 (case map_err_run HashReserve (hm_try_reserve G target (hm_with_hasher hs, h1)) of
                    (Ok _, s2) \<Rightarrow>
                      (case insert_drained G (hm_items m) s2 of
                         (Ok _, s3) \<Rightarrow> (Ok (), s3)
                       | (r, (_, h3)) \<Rightarrow> (r, (m\<lparr>hm_items := []\<rparr>, h3)))
                  | (r, (_, h2)) \<Rightarrow> (r, (m, h2)))
             | (Err e, h1) \<Rightarrow> (Err (HashClone e), (m, h1))
             | (Panic msg, h1) \<Rightarrow> (Panic msg, (m, h1))
             | (UB, h1) \<Rightarrow> (UB, (m, h1)))"

definition hm_try_shrink_to_fit ::
    "table_sizes \<Rightarrow> 's cloner \<Rightarrow> ('k, 'v, 's) mstate \<Rightarrow> (('k, 'v, 's) mstate, hash_clone_error, unit) run" where
  "hm_try_shrink_to_fit G cls s = hm_try_shrink_to G cls (hm_len (fst s)) s"

text \<open>One round of the collecting and extending loops: reserve one more place when the map is full.\<close>

definition hm_put_one ::
    "table_sizes \<Rightarrow> 'k \<times> 'v \<Rightarrow> ('k, 'v, 's) mstate \<Rightarrow> (('k, 'v, 's) mstate, try_reserve_error, 'v option) run" where
  "hm_put_one G kv s =
     and_then (if hm_len (fst s) = hm_capacity (fst s) then hm_try_reserve G 1 s else (Ok (), s))
       (\<lambda>_. hm_insert G (fst kv) (snd kv))"

definition collect_items ::
    "table_sizes \<Rightarrow> ('k \<times> 'v) iter \<Rightarrow> ('k, 'v, 's) mstate \<Rightarrow> (('k, 'v, 's) mstate, try_reserve_error, unit) run" where
  "collect_items G = table_collect (hm_put_one G) (hm_try_reserve G)"

definition hm_try_collect ::
    "table_sizes \<Rightarrow> 's hasher_default \<Rightarrow> ('k \<times> 'v) iter \<Rightarrow> heap \<Rightarrow>
     (hash_new_error, ('k, 'v, 's) hmap) outcome \<times> heap" where
  "hm_try_collect G D it = on_new D (collect_items G it)"

definition hm_try_collect_with_hasher ::
    "table_sizes \<Rightarrow> ('k \<times> 'v) iter \<Rightarrow> 's \<Rightarrow> heap \<Rightarrow> (try_reserve_error, ('k, 'v, 's) hmap) outcome \<times> heap" where
  "hm_try_collect_with_hasher G it hs h = into_map (collect_items G it (hm_with_hasher hs, h))"

text \<open>Clone a pair and insert it, in a map that has the room.\<close>

definition clone_insert ::
    "table_sizes \<Rightarrow> ('k \<times> 'v) cloner \<Rightarrow> 'k \<times> 'v \<Rightarrow> ('k, 'v, 's) mstate \<Rightarrow>
     (('k, 'v, 's) mstate, try_clone_error, 'v option) run" where
  "clone_insert G cl kv s =
     (case s of (m, h) \<Rightarrow>
        (case cl kv h of
           (Ok (k, v), h') \<Rightarrow> hm_insert G k v (m, h')
         | (Err e, h') \<Rightarrow> (Err e, (m, h'))
         | (Panic msg, h') \<Rightarrow> (Panic msg, (m, h'))
         | (UB, h') \<Rightarrow> (UB, (m, h'))))"

definition hm_try_clone ::
    "table_sizes \<Rightarrow> 's cloner \<Rightarrow> 'k cloner \<Rightarrow> 'v cloner \<Rightarrow> ('k, 'v, 's) hmap cloner" where
  "hm_try_clone G cls clk clv m h =
     (case cls (hm_hasher m) h of
        (Ok hs, h1) \<Rightarrow>
          into_map (and_then
            (if hm_items m \<noteq> [] then map_err_run CloneReserve (hm_try_reserve G (hm_len m) (hm_with_hasher hs, h1))
             else (Ok (), (hm_with_hasher hs, h1)))
            (\<lambda>_. each_run (clone_insert G (clone_pair clk clv)) (\<lambda>_ _ e. e) (hm_items m)))
      | (Err e, h1) \<Rightarrow> (Err e, h1)
      | (Panic msg, h1) \<Rightarrow> (Panic msg, h1)
      | (UB, h1) \<Rightarrow> (UB, h1))"

definition hm_try_extend_from_slice ::
    "table_sizes \<Rightarrow> 'k cloner \<Rightarrow> 'v cloner \<Rightarrow> ('k \<times> 'v) list \<Rightarrow> ('k, 'v, 's) mstate \<Rightarrow>
     (('k, 'v, 's) mstate, ('k \<times> 'v) list \<times> hash_clone_error, unit) run" where
  "hm_try_extend_from_slice G clk clv other s =
     (if other = [] then (Ok (), s)
      else and_then (map_err_run (\<lambda>e. (other, HashReserve e)) (hm_try_reserve G (length other) s))
             (\<lambda>_. each_run (clone_insert G (clone_pair clk clv)) (\<lambda>x xs e. (x # xs, HashClone e)) other))"

definition hm_try_extend ::
    "table_sizes \<Rightarrow> ('k \<times> 'v) source \<Rightarrow> ('k, 'v, 's) mstate \<Rightarrow>
     (('k, 'v, 's) mstate, ('k \<times> 'v) resumable \<times> try_reserve_error, unit) run" where
  "hm_try_extend G = table_extend (hm_put_one G) (hm_try_reserve G)"

section \<open>Sets\<close>

text \<open>The standard set is a map to the unit type; an insertion tells whether the value is new.\<close>

type_synonym ('k, 's) hset = "('k, unit, 's) hmap"

type_synonym ('k, 's) setstate = "('k, 's) hset \<times> heap"

definition hs_insert ::
    "table_sizes \<Rightarrow> 'k \<Rightarrow> ('k, 's) setstate \<Rightarrow> (('k, 's) setstate, 'e, bool) run" where
  "hs_insert G x s = map_ok_run (\<lambda>old. old = None) (hm_insert G x () s)"

definition hs_try_new :: "'s hasher_default \<Rightarrow> heap \<Rightarrow> (hash_new_error, ('k, 's) hset) outcome \<times> heap" where
  "hs_try_new D h = (let (r, h') = D h in (map_ok hm_with_hasher (map_err NewDefault r), h'))"

definition hs_try_with_capacity ::
    "table_sizes \<Rightarrow> 's hasher_default \<Rightarrow> nat \<Rightarrow> heap \<Rightarrow> (hash_new_error, ('k, 's) hset) outcome \<times> heap" where
  "hs_try_with_capacity G D n = on_new D (reserve_some G n)"

definition hs_try_with_capacity_and_hasher ::
    "table_sizes \<Rightarrow> nat \<Rightarrow> 's \<Rightarrow> heap \<Rightarrow> (try_reserve_error, ('k, 's) hset) outcome \<times> heap" where
  "hs_try_with_capacity_and_hasher G n hs h = into_map (reserve_some G n (hm_with_hasher hs, h))"

definition hs_try_insert ::
    "table_sizes \<Rightarrow> 'k \<Rightarrow> ('k, 's) setstate \<Rightarrow> (('k, 's) setstate, try_reserve_error, bool) run" where
  "hs_try_insert G x s = and_then (hm_try_reserve G 1 s) (\<lambda>_. hs_insert G x)"

definition hs_try_insert_give_back ::
    "table_sizes \<Rightarrow> 'k \<Rightarrow> ('k, 's) setstate \<Rightarrow> (('k, 's) setstate, 'k \<times> try_reserve_error, bool) run" where
  "hs_try_insert_give_back G x s =
     and_then (map_err_run (\<lambda>e. (x, e)) (hm_try_reserve G 1 s)) (\<lambda>_. hs_insert G x)"

definition hs_try_shrink_to ::
    "table_sizes \<Rightarrow> 's cloner \<Rightarrow> nat \<Rightarrow> ('k, 's) setstate \<Rightarrow> (('k, 's) setstate, hash_clone_error, unit) run" where
  "hs_try_shrink_to G cls min_capacity s = hm_try_shrink_to G cls min_capacity s"

definition hs_try_shrink_to_fit ::
    "table_sizes \<Rightarrow> 's cloner \<Rightarrow> ('k, 's) setstate \<Rightarrow> (('k, 's) setstate, hash_clone_error, unit) run" where
  "hs_try_shrink_to_fit G cls s = hs_try_shrink_to G cls (hm_len (fst s)) s"

definition hs_put_one ::
    "table_sizes \<Rightarrow> 'k \<Rightarrow> ('k, 's) setstate \<Rightarrow> (('k, 's) setstate, try_reserve_error, bool) run" where
  "hs_put_one G x s =
     and_then (if hm_len (fst s) = hm_capacity (fst s) then hm_try_reserve G 1 s else (Ok (), s))
       (\<lambda>_. hs_insert G x)"

definition collect_values ::
    "table_sizes \<Rightarrow> 'k iter \<Rightarrow> ('k, 's) setstate \<Rightarrow> (('k, 's) setstate, try_reserve_error, unit) run" where
  "collect_values G = table_collect (hs_put_one G) (hm_try_reserve G)"

definition hs_try_collect ::
    "table_sizes \<Rightarrow> 's hasher_default \<Rightarrow> 'k iter \<Rightarrow> heap \<Rightarrow> (hash_new_error, ('k, 's) hset) outcome \<times> heap" where
  "hs_try_collect G D it = on_new D (collect_values G it)"

definition hs_try_collect_with_hasher ::
    "table_sizes \<Rightarrow> 'k iter \<Rightarrow> 's \<Rightarrow> heap \<Rightarrow> (try_reserve_error, ('k, 's) hset) outcome \<times> heap" where
  "hs_try_collect_with_hasher G it hs h = into_map (collect_values G it (hm_with_hasher hs, h))"

definition hs_clone_insert ::
    "table_sizes \<Rightarrow> 'k cloner \<Rightarrow> 'k \<Rightarrow> ('k, 's) setstate \<Rightarrow> (('k, 's) setstate, try_clone_error, bool) run" where
  "hs_clone_insert G cl x s =
     (case s of (m, h) \<Rightarrow>
        (case cl x h of
           (Ok y, h') \<Rightarrow> hs_insert G y (m, h')
         | (Err e, h') \<Rightarrow> (Err e, (m, h'))
         | (Panic msg, h') \<Rightarrow> (Panic msg, (m, h'))
         | (UB, h') \<Rightarrow> (UB, (m, h'))))"

definition hs_try_clone :: "table_sizes \<Rightarrow> 's cloner \<Rightarrow> 'k cloner \<Rightarrow> ('k, 's) hset cloner" where
  "hs_try_clone G cls cl m h =
     (case cls (hm_hasher m) h of
        (Ok hs, h1) \<Rightarrow>
          into_map (and_then
            (if hm_items m \<noteq> [] then map_err_run CloneReserve (hm_try_reserve G (hm_len m) (hm_with_hasher hs, h1))
             else (Ok (), (hm_with_hasher hs, h1)))
            (\<lambda>_. each_run (hs_clone_insert G cl) (\<lambda>_ _ e. e) (map fst (hm_items m))))
      | (Err e, h1) \<Rightarrow> (Err e, h1)
      | (Panic msg, h1) \<Rightarrow> (Panic msg, h1)
      | (UB, h1) \<Rightarrow> (UB, h1))"

definition hs_try_extend_from_slice ::
    "table_sizes \<Rightarrow> 'k cloner \<Rightarrow> 'k list \<Rightarrow> ('k, 's) setstate \<Rightarrow>
     (('k, 's) setstate, 'k list \<times> hash_clone_error, unit) run" where
  "hs_try_extend_from_slice G cl other s =
     (if other = [] then (Ok (), s)
      else and_then (map_err_run (\<lambda>e. (other, HashReserve e)) (hm_try_reserve G (length other) s))
             (\<lambda>_. each_run (hs_clone_insert G cl) (\<lambda>x xs e. (x # xs, HashClone e)) other))"

definition hs_try_extend ::
    "table_sizes \<Rightarrow> 'k source \<Rightarrow> ('k, 's) setstate \<Rightarrow>
     (('k, 's) setstate, 'k resumable \<times> try_reserve_error, unit) run" where
  "hs_try_extend G = table_extend (hs_put_one G) (hm_try_reserve G)"

end
