(* ===== verification/HashTableProps.thy ===== *)
theory HashTableProps
  imports HashTable
begin

text \<open>
  What the fallible hash maps and sets guarantee, for all table sizes that meet the requests: no panic,
  failed operations leave the content, extensions meet the contract of \<open>BulkInsert\<close>, and shrinking
  loses nothing.
\<close>

section \<open>Table sizes\<close>

definition sizes_ok :: "table_sizes \<Rightarrow> bool" where
  "sizes_ok G \<longleftrightarrow> (\<forall>n c l. G n = Some (c, l) \<longrightarrow> n \<le> c)"

text \<open>A table with a slot for every entry asked for.\<close>

definition exact_sizes :: table_sizes where
  "exact_sizes n = (if 8 * n \<le> isize_max then Some (n, Layout (8 * n) 8) else None)"

lemma exact_sizes_ok: "sizes_ok exact_sizes"
  by (simp add: sizes_ok_def exact_sizes_def)

section \<open>Contents\<close>

definition hm_holds :: "('k, 'v, 's) mstate \<Rightarrow> ('k \<rightharpoonup> 'v) \<Rightarrow> bool" where
  "hm_holds s m \<longleftrightarrow> distinct (map fst (hm_items (fst s))) \<and> map_of (hm_items (fst s)) = m"

definition hs_holds :: "('k, 's) setstate \<Rightarrow> 'k set \<Rightarrow> bool" where
  "hs_holds s A \<longleftrightarrow> distinct (map fst (hm_items (fst s))) \<and> fst ` set (hm_items (fst s)) = A"

lemma hm_holds_heap: "hm_holds (m, h) c \<longleftrightarrow> hm_holds (m, h') c"
  by (simp add: hm_holds_def)

lemma hm_holds_new [simp]: "hm_holds (hm_with_hasher hs, h) Map.empty"
  by (simp add: hm_holds_def hm_with_hasher_def)

lemma hm_try_reserve_cases:
  assumes "sizes_ok G"
  obtains (Ok) m' h' where "hm_try_reserve G n (m, h) = (Ok (), (m', h'))" and "hm_items m' = hm_items m"
      and "hm_hasher m' = hm_hasher m" and "n \<le> hm_left m'"
  | (Err) e h' where "hm_try_reserve G n (m, h) = (Err e, (m, h'))"
proof -
  let ?full = "hm_capacity m + hm_graves m" and ?need = "hm_len m + n"
  consider "n \<le> hm_left m" | "\<not> n \<le> hm_left m" "usize_max < ?need"
    | "\<not> n \<le> hm_left m" "?need \<le> usize_max" "?need \<le> ?full div 2"
    | "\<not> n \<le> hm_left m" "?need \<le> usize_max" "\<not> ?need \<le> ?full div 2" by linarith
  then show thesis
  proof cases
    case 1
    then show thesis by (intro Ok [of m h]) (simp_all add: hm_try_reserve_def)
  next
    case 2
    then show thesis by (intro Err) (simp add: hm_try_reserve_def checked_add_def)
  next
    case 3
    then show thesis by (intro Ok [of "m\<lparr>hm_left := ?full - hm_len m, hm_graves := 0\<rparr>" h])
        (auto simp: hm_try_reserve_def checked_add_def Let_def)
  next
    case 4
    show thesis
    proof (cases "G (max ?need (?full + 1))")
      case None
      with 4 show thesis by (intro Err) (simp add: hm_try_reserve_def checked_add_def Let_def)
    next
      case (Some cl)
      obtain c l where cl: "cl = (c, l)" by fastforce
      obtain ok h' where g: "galloc h = (ok, h')" by fastforce
      have "max ?need (?full + 1) \<le> c" using assms Some unfolding sizes_ok_def cl by blast
      then have "hm_len m + n \<le> c" by simp
      then have room: "n \<le> c - hm_len m" by arith
      show thesis
      proof (cases ok)
        case True
        with 4 Some cl g room show thesis
          by (intro Ok [of "m\<lparr>hm_left := c - hm_len m, hm_graves := 0\<rparr>" h'])
            (simp_all add: hm_try_reserve_def checked_add_def Let_def)
      next
        case False
        with 4 Some cl g show thesis by (intro Err) (simp add: hm_try_reserve_def checked_add_def Let_def)
      qed
    qed
  qed
qed

lemma hm_insert_room:
  assumes "0 < hm_left m" and "hm_holds (m, h) c"
  obtains m' where "(hm_insert G k v (m, h) :: (('k, 'v, 's) mstate, 'e, 'v option) run) = (Ok (c k), (m', h))"
    and "hm_holds (m', h) (put_pair (k, v) c)" and "hm_left m - 1 \<le> hm_left m'" and "hm_hasher m' = hm_hasher m"
proof -
  let ?m = "m\<lparr>hm_items := AList.update k v (hm_items m), hm_left := (if c k = None then hm_left m - 1 else hm_left m)\<rparr>"
  have "hm_insert G k v (m, h) = (Ok (c k), (?m, h))"
    using assms by (auto simp: hm_insert_def hm_holds_def split: option.split)
  then show thesis
    using assms by (intro that [of ?m]) (auto simp: hm_holds_def put_pair_def update_conv' distinct_update)
qed

lemma put_fst_snd [simp]: "put_pair (fst x, snd x) = put_pair x"
  by simp

lemma hm_put_one_cases:
  assumes "sizes_ok G" and "hm_holds s c"
  obtains (Ok) s' where "hm_put_one G x s = (Ok (c (fst x)), s')" and "hm_holds s' (put_pair x c)"
  | (Err) e s' where "hm_put_one G x s = (Err e, s')" and "hm_holds s' c"
proof -
  obtain m h where s: "s = (m, h)" by fastforce
  show thesis
  proof (cases "hm_left m = 0")
    case True
    show thesis
    proof (cases rule: hm_try_reserve_cases [OF assms(1), of 1 m h])
      case (1 m1 h1)
      have "hm_holds (m1, h1) c" using assms(2) 1(2) s by (simp add: hm_holds_def)
      from hm_insert_room [OF _ this] 1(4) obtain m2 where
        "(hm_insert G (fst x) (snd x) (m1, h1) :: (_, try_reserve_error, _) run) = (Ok (c (fst x)), (m2, h1))"
        "hm_holds (m2, h1) (put_pair x c)" by (metis put_fst_snd less_le_trans zero_less_one)
      then show thesis using 1(1) True s by (intro Ok [of "(m2, h1)"]) (simp_all add: hm_put_one_def hm_capacity_def)
    next
      case (2 e h1)
      then show thesis using True s assms(2) hm_holds_heap [of m h c h1]
        by (intro Err) (auto simp: hm_put_one_def hm_capacity_def)
    qed
  next
    case False
    then have "0 < hm_left m" by simp
    from hm_insert_room [OF this assms(2) [unfolded s]] obtain m2 where
      "(hm_insert G (fst x) (snd x) (m, h) :: (_, try_reserve_error, _) run) = (Ok (c (fst x)), (m2, h))"
      "hm_holds (m2, h) (put_pair x c)" by (metis put_fst_snd)
    then show thesis using False s by (intro Ok [of "(m2, h)"]) (simp_all add: hm_put_one_def hm_capacity_def)
  qed
qed

lemma reserve_holds:
  assumes "sizes_ok G" and "hm_holds s c"
  obtains (Ok) s' where "hm_try_reserve G n s = (Ok (), s')" and "hm_holds s' c" and "n \<le> hm_left (fst s')"
      and "hm_hasher (fst s') = hm_hasher (fst s)"
  | (Err) e s' where "hm_try_reserve G n s = (Err e, s')" and "hm_holds s' c" and "fst s' = fst s"
proof -
  obtain m h where s: "s = (m, h)" by fastforce
  show thesis
    by (cases rule: hm_try_reserve_cases [OF assms(1), of n m h])
      (use assms(2) s that in \<open>auto simp: hm_holds_def\<close>)
qed

section \<open>Extension and collection\<close>

text \<open>Maps and sets meet the interface of the containers that reserve.\<close>

lemma map_table:
  assumes "sizes_ok G"
  shows "bulk_table (hm_put_one G) (hm_try_reserve G) hm_holds put_pair"
proof
  fix s :: "('a, 'b, 'c) mstate" and c x
  assume "hm_holds s c"
  then show "(\<exists>a s'. hm_put_one G x s = (Ok a, s') \<and> hm_holds s' (put_pair x c)) \<or>
      (\<exists>e s'. hm_put_one G x s = (Err e, s') \<and> hm_holds s' c)"
    by (cases rule: hm_put_one_cases [OF assms, of s c x]) auto
next
  fix s :: "('a, 'b, 'c) mstate" and c n
  assume "hm_holds s c"
  then show "(\<exists>s'. hm_try_reserve G n s = (Ok (), s') \<and> hm_holds s' c) \<or>
      (\<exists>e s'. hm_try_reserve G n s = (Err e, s') \<and> hm_holds s' c)"
    by (cases rule: reserve_holds [OF assms, of s c n]) auto
qed

lemma hs_put_one_eq: "hs_put_one G x s = map_ok_run (\<lambda>old. old = None) (hm_put_one G (x, ()) s)"
proof -
  have run: "and_then r (\<lambda>_. hs_insert G x) = map_ok_run (\<lambda>old. old = None) (and_then r (\<lambda>_. hm_insert G x ()))"
    for r :: "(('a, 'b) setstate, try_reserve_error, unit) run"
    by (cases r; cases "fst r") (auto simp: hs_insert_def)
  show ?thesis unfolding hs_put_one_def hm_put_one_def fst_conv snd_conv by (rule run)
qed

definition unit_map :: "'k set \<Rightarrow> 'k \<rightharpoonup> unit" where
  "unit_map A k = (if k \<in> A then Some () else None)"

lemma unit_map_put: "unit_map (insert x A) = put_pair (x, ()) (unit_map A)"
  by (auto simp: unit_map_def put_pair_def fun_eq_iff)

lemma hs_holds_map: "hs_holds s A \<longleftrightarrow> hm_holds s (unit_map A)"
proof -
  have "m = unit_map A \<longleftrightarrow> dom m = A" for m :: "'a \<rightharpoonup> unit"
    by (auto simp: fun_eq_iff unit_map_def dom_def split: if_splits) (metis not_None_eq)+
  then have "map_of xs = unit_map A \<longleftrightarrow> fst ` set xs = A" for xs :: "('a \<times> unit) list"
    by (simp add: dom_map_of_conv_image_fst)
  then show ?thesis by (simp add: hs_holds_def hm_holds_def)
qed

lemma set_table:
  assumes "sizes_ok G"
  shows "bulk_table (hs_put_one G) (hm_try_reserve G) hs_holds insert"
proof
  fix s :: "('a, 'b) setstate" and A x
  assume "hs_holds s A"
  then have "hm_holds s (unit_map A)" by (simp add: hs_holds_map)
  then show "(\<exists>a s'. hs_put_one G x s = (Ok a, s') \<and> hs_holds s' (insert x A)) \<or>
      (\<exists>e s'. hs_put_one G x s = (Err e, s') \<and> hs_holds s' A)"
    by (cases rule: hm_put_one_cases [OF assms, of s _ "(x, ())"])
      (auto simp: hs_put_one_eq hs_holds_map unit_map_put)
next
  fix s :: "('a, 'b) setstate" and A n
  assume "hs_holds s A"
  then have "hm_holds s (unit_map A)" by (simp add: hs_holds_map)
  then show "(\<exists>s'. hm_try_reserve G n s = (Ok (), s') \<and> hs_holds s' A) \<or>
      (\<exists>e s'. hm_try_reserve G n s = (Err e, s') \<and> hs_holds s' A)"
    by (cases rule: reserve_holds [OF assms, of s _ n]) (auto simp: hs_holds_map)
qed

lemma hash_extend_extended:
  assumes "sizes_ok G"
  shows "hm_holds s c \<Longrightarrow>
      extended False hm_holds put_pair c (source_items src) (\<lambda>e. resumable_items (fst e)) (hm_try_extend G src s)"
    and "hs_holds t A \<Longrightarrow>
      extended False hs_holds insert A (source_items xsrc) (\<lambda>e. resumable_items (fst e)) (hs_try_extend G xsrc t)"
  using bulk_table.table_extend_extended [OF map_table [OF assms]]
    bulk_table.table_extend_extended [OF set_table [OF assms]]
  by (simp_all add: hm_try_extend_def hs_try_extend_def)

section \<open>Insertion\<close>

lemma hm_insert_give_back_cases:
  assumes "sizes_ok G" and "hm_holds s c"
  obtains (Ok) s' where "hm_insert_give_back G k v s = (Ok (c k), s')" and "hm_holds s' (put_pair (k, v) c)"
  | (Err) e s' where "hm_insert_give_back G k v s = (Err (k, v, e), s')" and "fst s' = fst s"
proof (cases rule: reserve_holds [OF assms, of 1])
  case (1 s1)
  obtain m h where m: "s1 = (m, h)" by fastforce
  have "0 < hm_left m" using 1(3) m by simp
  from hm_insert_room [OF this 1(2) [unfolded m]] obtain m2 where
    "(hm_insert G k v (m, h) :: (_, 'a \<times> 'b \<times> try_reserve_error, _) run) = (Ok (c k), (m2, h))"
    "hm_holds (m2, h) (put_pair (k, v) c)" by metis
  then show thesis using 1 m
    by (intro Ok [of "(m2, h)"])
      (auto simp: hm_insert_give_back_def entry_insert_def hm_holds_def split: option.split)
next
  case (2 e s')
  then show thesis by (intro Err [of e s']) (simp_all add: hm_insert_give_back_def)
qed

lemma hm_try_insert_unique_cases:
  assumes "sizes_ok G" and "hm_holds s c"
  obtains (Ok) s' where "hm_try_insert_unique G k v s = (Ok (), s')" and "c k = None" and "hm_holds s' (put_pair (k, v) c)"
  | (Present) "hm_try_insert_unique G k v s = (Err (k, v, HashKeyAlreadyExists), s)" and "c k \<noteq> None"
  | (Err) e s' where "hm_try_insert_unique G k v s = (Err (k, v, HashUniqueReserve e), s')" and "fst s' = fst s"
proof (cases "c k")
  case None
  then have free: "map_of (hm_items (fst s)) k = None" using assms(2) by (simp add: hm_holds_def)
  show thesis
  proof (cases rule: reserve_holds [OF assms, of 1])
    case (1 s1)
    obtain m h where m: "s1 = (m, h)" by fastforce
    have "0 < hm_left m" using 1(3) m by simp
    from hm_insert_room [OF this 1(2) [unfolded m]] obtain m2 where
      "(hm_insert G k v (m, h) :: (_, 'a \<times> 'b \<times> hash_unique_error, _) run) = (Ok (c k), (m2, h))"
      "hm_holds (m2, h) (put_pair (k, v) c)" by metis
    then show thesis using 1 m None free
      by (intro Ok [of "(m2, h)"]) (auto simp: hm_try_insert_unique_def entry_insert_def hm_holds_def)
  next
    case (2 e s')
    then show thesis using free by (intro Err [of e s']) (simp_all add: hm_try_insert_unique_def)
  qed
next
  case (Some old)
  then show thesis using assms(2) by (intro Present) (auto simp: hm_try_insert_unique_def hm_holds_def)
qed

section \<open>Loops into reserved room\<close>

lemma clone_loop_extended:
  assumes "cloneable cl (\<lambda>x. x)" and "length xs \<le> hm_left (fst s)" and "hm_holds s c"
    and "\<And>x xs e. left (wrap x xs e) = x # xs"
  shows "extended False hm_holds put_pair c xs left (each_run (clone_insert G cl) wrap xs s)"
  using assms(2,3)
proof (induction xs arbitrary: s c)
  case (Cons x xs)
  obtain m h where s: "s = (m, h)" by fastforce
  show ?case
  proof (cases rule: cloneable.clone_cases [OF assms(1), of x h])
    case (1 y h1)
    have "hm_holds (m, h1) c" using Cons.prems(2) s hm_holds_heap by metis
    moreover have "0 < hm_left m" using Cons.prems(1) s by simp
    ultimately obtain m2 where m2:
      "(hm_insert G (fst x) (snd x) (m, h1) :: (_, try_clone_error, _) run) = (Ok (c (fst x)), (m2, h1))"
      "hm_holds (m2, h1) (put_pair x c)" "hm_left m - 1 \<le> hm_left m2" by (metis hm_insert_room put_fst_snd)
    then have "extended False hm_holds put_pair (put_pair x c) xs left (each_run (clone_insert G cl) wrap xs (m2, h1))"
      using Cons.prems(1) s by (intro Cons.IH) auto
    moreover have "clone_insert G cl x s = (Ok (c (fst x)), (m2, h1))"
      using 1 m2(1) s by (cases x) (simp add: clone_insert_def)
    ultimately show ?thesis by (simp add: extended_Cons)
  next
    case (2 e h1)
    then have "clone_insert G cl x s = (Err e, (m, h1))" using s by (simp add: clone_insert_def)
    then show ?thesis
      using Cons.prems(2) s assms(4) hm_holds_heap [of m h c h1] by (auto intro!: extended_here)
  qed
qed simp

lemma insert_drained_room:
  assumes "length kvs \<le> hm_left m" and "hm_holds (m, h) c"
  shows "\<exists>m'. (insert_drained G kvs (m, h) :: (('k, 'v, 's) mstate, 'e, unit) run) = (Ok (), (m', h)) \<and> hm_holds (m', h) (fold put_pair kvs c) \<and>
    hm_hasher m' = hm_hasher m"
  using assms
proof (induction kvs arbitrary: m c)
  case (Cons kv kvs)
  obtain k v where kv: "kv = (k, v)" by fastforce
  have "0 < hm_left m" using Cons.prems(1) by simp
  from hm_insert_room [OF this Cons.prems(2)] obtain m2 where m2:
    "(hm_insert G k v (m, h) :: (('k, 'v, 's) mstate, 'e, _) run) = (Ok (c k), (m2, h))" "hm_holds (m2, h) (put_pair (k, v) c)"
    "hm_left m - 1 \<le> hm_left m2" "hm_hasher m2 = hm_hasher m" by metis
  then have "length kvs \<le> hm_left m2" using Cons.prems(1) by simp
  from Cons.IH [OF this m2(2)] m2 kv show ?case by auto
qed simp

section \<open>Shrinking and cloning\<close>

lemma fold_put_new:
  assumes "distinct (map fst kvs)"
  shows "fold put_pair kvs Map.empty = map_of kvs"
proof -
  have "map_of (rev kvs) = map_of kvs"
    using assms by (intro ext) (metis map_of_eq_None_iff map_of_is_SomeI map_of_SomeD not_None_eq set_rev rev_map distinct_rev)
  then show ?thesis by (simp add: fold_put)
qed

lemma hm_try_shrink_to_cases:
  fixes m :: "('k, 'v, 's) hmap"
  assumes "sizes_ok G" and "cloneable cls view" and "hm_holds (m, h) c"
  obtains (Kept) "hm_try_shrink_to G cls n (m, h) = (Ok (), (m, h))" and "hm_capacity m \<le> max (hm_len m) n"
  | (Rebuilt) m' h' where "hm_try_shrink_to G cls n (m, h) = (Ok (), (m', h'))" and "hm_holds (m', h') c"
      and "view (hm_hasher m') = view (hm_hasher m)" and "\<not> hm_capacity m \<le> max (hm_len m) n"
  | (Err) e h' where "hm_try_shrink_to G cls n (m, h) = (Err e, (m, h'))"
proof (cases "hm_capacity m \<le> max (hm_len m) n")
  case True
  then show thesis by (intro Kept) (simp_all add: hm_try_shrink_to_def)
next
  case False
  let ?t = "max (hm_len m) n"
  show thesis
  proof (cases rule: cloneable.clone_cases [OF assms(2), of "hm_hasher m" h])
    case (1 hs h1)
    have new: "hm_holds (hm_with_hasher hs, h1) (Map.empty :: 'k \<rightharpoonup> 'v)" by simp
    show thesis
    proof (cases rule: reserve_holds [OF assms(1) new, where n = ?t])
      case (1 s2)
      obtain m2 h2 where m2: "s2 = (m2, h2)" by fastforce
      have "length (hm_items m) \<le> hm_left m2" using 1(3) m2 by (simp add: hm_len_def)
      from insert_drained_room [OF this 1(2) [unfolded m2]] obtain m3 where m3:
        "(insert_drained G (hm_items m) (m2, h2) :: (_, hash_clone_error, _) run) = (Ok (), (m3, h2))"
        "hm_holds (m3, h2) (fold put_pair (hm_items m) Map.empty)" "hm_hasher m3 = hm_hasher m2" by blast
      have "fold put_pair (hm_items m) Map.empty = c" using assms(3) fold_put_new by (auto simp: hm_holds_def)
      then show thesis
        using False 1 m2 m3 \<open>cls (hm_hasher m) h = (Ok hs, h1)\<close> \<open>view hs = view (hm_hasher m)\<close>
        by (intro Rebuilt [of m3 h2]) (simp_all add: hm_try_shrink_to_def Let_def hm_with_hasher_def)
    next
      case (2 e s')
      then show thesis
        using False \<open>cls (hm_hasher m) h = (Ok hs, h1)\<close>
        by (intro Err [of "HashReserve e" "snd s'"]) (cases s', simp add: hm_try_shrink_to_def Let_def)
    qed
  next
    case (2 e h1)
    then show thesis using False by (intro Err [of "HashClone e" h1]) (simp add: hm_try_shrink_to_def Let_def)
  qed
qed

lemma hm_extend_from_slice_extended:
  assumes "sizes_ok G" and "cloneable clk (\<lambda>k. k)" and "cloneable clv (\<lambda>v. v)" and "hm_holds s c"
  shows "extended False hm_holds put_pair c xs fst (hm_try_extend_from_slice G clk clv xs s)"
proof (cases "xs = []")
  case True
  then show ?thesis using assms(4) by (simp add: hm_try_extend_from_slice_def)
next
  case False
  have pairs: "cloneable (clone_pair clk clv) (\<lambda>kv. kv)"
    using clone_pair_cloneable [OF assms(2,3)] by (simp add: map_prod.identity [unfolded id_def])
  show ?thesis
  proof (cases rule: reserve_holds [OF assms(1,4), of "length xs"])
    case (1 s')
    have "extended False hm_holds put_pair c xs fst
        (each_run (clone_insert G (clone_pair clk clv)) (\<lambda>x xs e. (x # xs, HashClone e)) xs s')"
      by (rule clone_loop_extended [OF pairs 1(3,2)]) simp
    then show ?thesis using False 1(1) by (simp add: hm_try_extend_from_slice_def)
  next
    case (2 e s')
    then show ?thesis using False by (auto simp: hm_try_extend_from_slice_def intro!: extended_here)
  qed
qed

section \<open>Properties\<close>

text \<open>Claim C36. Shrinking a hash map loses nothing. On \<open>Ok\<close> the map has the same entries and a hasher that
  shows the same value, and it is the same map when it had no capacity to give back. On an error, be it
  of the hasher's clone or of the reservation, the map is exactly the one before: the entries are only
  drained once the new table has room for all of them. No insertion into the new table panics.\<close>

theorem hash_shrink_spec:
  assumes "sizes_ok G" and "cloneable cls view" and "hm_holds (m, h) c"
    and "hm_try_shrink_to G cls n (m, h) = (r, (m', h'))"
  shows "(r = Ok () \<and> hm_holds (m', h') c \<and> view (hm_hasher m') = view (hm_hasher m) \<and>
      (hm_capacity m \<le> max (hm_len m) n \<longrightarrow> m' = m)) \<or>
    ((\<exists>e. r = Err e) \<and> m' = m)"
proof (cases rule: hm_try_shrink_to_cases [OF assms(1-3), of n])
  case 1
  then have "r = Ok ()" "m' = m" using assms(4) by simp_all
  then show ?thesis using assms(3) hm_holds_heap [of m h c h'] by simp
next
  case (2 m1 h1)
  then have "r = Ok ()" "m' = m1" "h' = h1" using assms(4) by simp_all
  then show ?thesis using 2(2-4) by simp
next
  case (3 e h1)
  then have "r = Err e" "m' = m" using assms(4) by simp_all
  then show ?thesis by simp
qed

theorem hash_shrink_spec_witness:
  "\<exists>e h'. hm_try_shrink_to exact_sizes copy_try_clone 0
      (\<lparr>hm_items = [(1::nat, 7::nat), (2, 8)], hm_left = 5, hm_graves = 0, hm_hasher = ()\<rparr>, heap_with policy_fail_all) =
    (Err e, (\<lparr>hm_items = [(1, 7), (2, 8)], hm_left = 5, hm_graves = 0, hm_hasher = ()\<rparr>, h'))"
proof -
  let ?m = "\<lparr>hm_items = [(1::nat, 7::nat), (2, 8)], hm_left = 5, hm_graves = 0, hm_hasher = ()\<rparr>"
  let ?h = "heap_with policy_fail_all"
  have "hm_holds (?m, ?h) (map_of [(1, 7), (2, 8)])" by (simp add: hm_holds_def)
  note spec = hash_shrink_spec [OF exact_sizes_ok copy.cloneable_axioms this]
  obtain r m' h' where run: "hm_try_shrink_to exact_sizes copy_try_clone 0 (?m, ?h) = (r, (m', h'))"
    by (metis surj_pair)
  have "hm_try_reserve exact_sizes 2 (hm_with_hasher (), ?h) =
      (Err (new_alloc (Layout 16 8)), (hm_with_hasher () :: (nat, nat, unit) hmap, ?h))"
    by (simp add: hm_try_reserve_def hm_with_hasher_def hm_len_def hm_capacity_def exact_sizes_def checked_add_def
        exhausted_galloc usize_max_def isize_max_def)
  then have "fst (hm_try_shrink_to exact_sizes copy_try_clone 0 (?m, ?h)) \<noteq> Ok ()"
    by (simp add: hm_try_shrink_to_def hm_capacity_def hm_len_def copy_try_clone_def numeral_2_eq_2)
  with spec [OF run] run show ?thesis by auto
qed

end
