(* ===== verification/Utf8.thy ===== *)
theory Utf8
  imports Prelude
begin

text \<open>
  The encoding of strings that the standard library's \<open>str\<close> and \<open>String\<close> promise: characters are
  Unicode scalar values, a string is their UTF-8 encoding, and a byte index may only fall between two
  characters. The reference is the list of the characters.
\<close>

section \<open>Encoding\<close>

type_synonym byte = "8 word"

text \<open>\<open>char\<close>: a code point that is not a surrogate.\<close>

definition scalar :: "nat \<Rightarrow> bool" where
  "scalar c = (c < 0x110000 \<and> \<not> (0xD800 \<le> c \<and> c < 0xE000))"

definition len_utf8 :: "nat \<Rightarrow> nat" where
  "len_utf8 c = (if c < 0x80 then 1 else if c < 0x800 then 2 else if c < 0x10000 then 3 else 4)"

text \<open>A continuation byte holds the low six bits of its argument.\<close>

definition cont :: "nat \<Rightarrow> byte" where
  "cont c = word_of_nat (0x80 + c mod 64)"

definition encode_utf8 :: "nat \<Rightarrow> byte list" where
  "encode_utf8 c =
     (if c < 0x80 then [word_of_nat c]
      else if c < 0x800 then [word_of_nat (0xC0 + c div 64), cont c]
      else if c < 0x10000 then [word_of_nat (0xE0 + c div 4096), cont (c div 64), cont c]
      else [word_of_nat (0xF0 + c div 262144), cont (c div 4096), cont (c div 64), cont c])"

definition str_bytes :: "nat list \<Rightarrow> byte list" where
  "str_bytes cs = concat (map encode_utf8 cs)"

text \<open>\<open>is_char_boundary\<close>: a byte that is at least \<open>-0x40\<close> as a signed number starts a character.\<close>

definition is_utf8_char_boundary :: "byte \<Rightarrow> bool" where
  "is_utf8_char_boundary b = (-0x40 \<le> sint b)"

definition is_char_boundary :: "byte list \<Rightarrow> nat \<Rightarrow> bool" where
  "is_char_boundary bs index =
     (index = 0 \<or>
      (if length bs \<le> index then index = length bs else is_utf8_char_boundary (bs ! index)))"

section \<open>Decoding\<close>

definition is_cont :: "byte \<Rightarrow> bool" where
  "is_cont b = (0x80 \<le> unat b \<and> unat b < 0xC0)"

definition cont_bits :: "byte \<Rightarrow> nat" where
  "cont_bits b = unat b - 0x80"

text \<open>The validation of \<open>from_utf8\<close>, yielding the characters: every character is in its shortest form
  and a scalar value.\<close>

definition checked_char :: "nat \<Rightarrow> nat \<Rightarrow> nat option" where
  "checked_char n c = (if scalar c \<and> len_utf8 c = n then Some c else None)"

definition decode_one :: "byte list \<Rightarrow> (nat \<times> byte list) option" where
  "decode_one bs =
     (case bs of
        [] \<Rightarrow> None
      | a # r \<Rightarrow>
          if unat a < 0x80 then Some (unat a, r)
          else if unat a < 0xC0 then None
          else if unat a < 0xE0 then
            (case r of
               b # r' \<Rightarrow>
                 if is_cont b
                 then map_option (\<lambda>c. (c, r')) (checked_char 2 ((unat a - 0xC0) * 64 + cont_bits b))
                 else None
             | [] \<Rightarrow> None)
          else if unat a < 0xF0 then
            (case r of
               b # c # r' \<Rightarrow>
                 if is_cont b \<and> is_cont c
                 then map_option (\<lambda>c. (c, r'))
                   (checked_char 3 ((unat a - 0xE0) * 4096 + cont_bits b * 64 + cont_bits c))
                 else None
             | _ \<Rightarrow> None)
          else
            (case r of
               b # c # d # r' \<Rightarrow>
                 if is_cont b \<and> is_cont c \<and> is_cont d
                 then map_option (\<lambda>c. (c, r'))
                   (checked_char 4
                     ((unat a - 0xF0) * 262144 + cont_bits b * 4096 + cont_bits c * 64 + cont_bits d))
                 else None
             | _ \<Rightarrow> None))"

lemma decode_one_shrinks: "decode_one bs = Some (c, r) \<Longrightarrow> length r < length bs"
  by (auto simp: decode_one_def split: list.splits if_splits)

function decode_utf8 :: "byte list \<Rightarrow> nat list option" where
  "decode_utf8 bs =
     (if bs = [] then Some []
      else case decode_one bs of
          None \<Rightarrow> None
        | Some (c, r) \<Rightarrow> map_option ((#) c) (decode_utf8 r))"
  by pat_completeness auto

termination
  by (relation "measure length") (use decode_one_shrinks in auto)

declare decode_utf8.simps [simp del]

definition from_utf8_ok :: "byte list \<Rightarrow> bool" where
  "from_utf8_ok bs = (decode_utf8 bs \<noteq> None)"

section \<open>Facts\<close>

lemma byte_nat [simp]: "n < 256 \<Longrightarrow> unat (word_of_nat n :: byte) = n"
  by (simp add: unat_of_nat)

lemma unat_cont [simp]: "unat (cont c) = 0x80 + c mod 64"
  unfolding cont_def by (rule byte_nat) (use mod_less_divisor [of 64 c] in simp)

lemma is_cont_cont [simp]: "is_cont (cont c)" "cont_bits (cont c) = c mod 64"
  using mod_less_divisor [of 64 c] by (simp_all add: is_cont_def cont_bits_def)

lemma length_encode [simp]: "length (encode_utf8 c) = len_utf8 c"
  by (simp add: encode_utf8_def len_utf8_def)

lemma len_utf8_pos [simp]: "0 < len_utf8 c" "encode_utf8 c \<noteq> []"
  by (simp_all add: len_utf8_def encode_utf8_def)

lemma str_bytes_simps [simp]:
  "str_bytes [] = []" "str_bytes (c # cs) = encode_utf8 c @ str_bytes cs"
  "str_bytes (cs @ ds) = str_bytes cs @ str_bytes ds"
  by (simp_all add: str_bytes_def)

lemma str_bytes_Nil [simp]: "str_bytes cs = [] \<longleftrightarrow> cs = []"
  by (cases cs) simp_all

lemma boundary_unat: "is_utf8_char_boundary b \<longleftrightarrow> \<not> is_cont b"
proof -
  have eq: "sint b = (if unat b < 0x80 then int (unat b) else int (unat b) - 256)"
  proof -
    have u: "0 \<le> uint b" "uint b < 256" using uint_bounded [of b] by auto
    have "bit (uint b) 7 \<longleftrightarrow> 128 \<le> uint b"
    proof -
      have "uint b div 128 = (if 128 \<le> uint b then 1 else 0)" using u by auto
      then show ?thesis by (simp add: bit_iff_odd)
    qed
    moreover have "take_bit 8 (uint b) = uint b" using u by (simp add: take_bit_int_eq_self)
    ultimately have "sint b = uint b - 256 * of_bool (128 \<le> uint b)"
      by (simp add: sint_uint signed_take_bit_eq_take_bit_minus)
    moreover have i: "int (unat b) = uint b" by simp
    moreover from i have "unat b < 128 \<longleftrightarrow> \<not> 128 \<le> uint b" by linarith
    ultimately show ?thesis by (simp del: uint_nat)
  qed
  have less: "unat b < 256" using unsigned_less [of b, where ?'a = nat] by simp
  show ?thesis
  proof (cases "unat b < 0x80")
    case True
    then have "sint b = int (unat b)" using eq by (simp only: if_True)
    with True show ?thesis unfolding is_utf8_char_boundary_def is_cont_def by linarith
  next
    case False
    then have "sint b = int (unat b) - 256" using eq by (simp only: if_False)
    with False less show ?thesis unfolding is_utf8_char_boundary_def is_cont_def by linarith
  qed
qed

text \<open>Only the first byte of a character is not a continuation byte.\<close>

lemma encode_shape:
  assumes "scalar c"
  obtains a r where "encode_utf8 c = a # r" "\<not> is_cont a" "list_all is_cont r"
proof -
  have c: "c < 0x110000" using assms by (simp add: scalar_def)
  consider "c < 0x80" | "0x80 \<le> c" "c < 0x800" | "0x800 \<le> c" "c < 0x10000" | "0x10000 \<le> c"
    by linarith
  then show thesis
  proof cases
    case 1
    have "unat (word_of_nat c :: byte) = c" using 1 by (intro byte_nat) simp
    with 1 show thesis by (intro that) (auto simp: encode_utf8_def is_cont_def)
  next
    case 2
    then have "c div 64 < 32" by (simp add: div_less_iff_less_mult)
    then have "unat (word_of_nat (0xC0 + c div 64) :: byte) = 0xC0 + c div 64" by (intro byte_nat) simp
    then have "\<not> is_cont (word_of_nat (0xC0 + c div 64))" unfolding is_cont_def by linarith
    with 2 show thesis by (intro that) (auto simp: encode_utf8_def)
  next
    case 3
    then have "c div 4096 < 16" by (simp add: div_less_iff_less_mult)
    then have "unat (word_of_nat (0xE0 + c div 4096) :: byte) = 0xE0 + c div 4096" by (intro byte_nat) simp
    then have "\<not> is_cont (word_of_nat (0xE0 + c div 4096))" unfolding is_cont_def by linarith
    with 3 show thesis by (intro that) (auto simp: encode_utf8_def)
  next
    case 4
    with c have "c div 262144 < 5" by (simp add: div_less_iff_less_mult)
    then have "unat (word_of_nat (0xF0 + c div 262144) :: byte) = 0xF0 + c div 262144" by (intro byte_nat) simp
    then have "\<not> is_cont (word_of_nat (0xF0 + c div 262144))" unfolding is_cont_def by linarith
    with 4 show thesis by (intro that) (auto simp: encode_utf8_def)
  qed
qed

lemma div_mod_join:
  fixes c :: nat
  shows "c div 64 * 64 + c mod 64 = c"
    and "c div 4096 * 4096 + c div 64 mod 64 * 64 + c mod 64 = c"
    and "c div 262144 * 262144 + c div 4096 mod 64 * 4096 + c div 64 mod 64 * 64 + c mod 64 = c"
proof -
  have d: "c div 4096 = c div 64 div 64" "c div 262144 = c div 64 div 64 div 64"
    by (simp_all add: div_mult2_eq [symmetric])
  show j: "c div 64 * 64 + c mod 64 = c" by simp
  show k: "c div 4096 * 4096 + c div 64 mod 64 * 64 + c mod 64 = c"
    using div_mult_mod_eq [of "c div 64" 64] j unfolding d by linarith
  show "c div 262144 * 262144 + c div 4096 mod 64 * 4096 + c div 64 mod 64 * 64 + c mod 64 = c"
    using div_mult_mod_eq [of "c div 64 div 64" 64] k unfolding d by linarith
qed

lemma decode_one_encode:
  assumes "scalar c"
  shows "decode_one (encode_utf8 c @ r) = Some (c, r)"
proof -
  have c: "c < 0x110000" using assms by (simp add: scalar_def)
  have ok: "checked_char (len_utf8 c) c = Some c" using assms by (simp add: checked_char_def)
  consider "c < 0x80" | "0x80 \<le> c" "c < 0x800" | "0x800 \<le> c" "c < 0x10000" | "0x10000 \<le> c"
    by linarith
  then show ?thesis
  proof cases
    case 1
    have "unat (word_of_nat c :: byte) = c" using 1 by (intro byte_nat) simp
    with 1 show ?thesis by (simp add: encode_utf8_def decode_one_def)
  next
    case 2
    then have b: "c div 64 < 32" by (simp add: div_less_iff_less_mult)
    then have "unat (word_of_nat (0xC0 + c div 64) :: byte) = 0xC0 + c div 64" by (intro byte_nat) simp
    moreover have "checked_char 2 c = Some c" using ok 2 by (simp add: len_utf8_def)
    ultimately show ?thesis using 2 b
      by (simp add: encode_utf8_def decode_one_def div_mod_join del: of_nat_add)
  next
    case 3
    then have b: "c div 4096 < 16" by (simp add: div_less_iff_less_mult)
    then have "unat (word_of_nat (0xE0 + c div 4096) :: byte) = 0xE0 + c div 4096" by (intro byte_nat) simp
    moreover have "checked_char 3 c = Some c" using ok 3 by (simp add: len_utf8_def)
    ultimately show ?thesis using 3 b
      by (simp add: encode_utf8_def decode_one_def div_mod_join del: of_nat_add)
  next
    case 4
    with c have b: "c div 262144 < 5" by (simp add: div_less_iff_less_mult)
    then have "unat (word_of_nat (0xF0 + c div 262144) :: byte) = 0xF0 + c div 262144" by (intro byte_nat) simp
    moreover have "checked_char 4 c = Some c" using ok 4 by (simp add: len_utf8_def)
    ultimately show ?thesis using 4 b
      by (simp add: encode_utf8_def decode_one_def div_mod_join del: of_nat_add)
  qed
qed

lemma decode_str_bytes: "list_all scalar cs \<Longrightarrow> decode_utf8 (str_bytes cs) = Some cs"
proof (induction cs)
  case (Cons c cs)
  then show ?case
    by (subst decode_utf8.simps) (simp add: decode_one_encode)
qed (simp add: decode_utf8.simps)

text \<open>Conversely, what decodes is the encoding of the characters found.\<close>

lemma byteI: "unat b = n \<Longrightarrow> word_of_nat n = (b :: byte)"
  by auto

lemma cont_join: "is_cont b \<Longrightarrow> c mod 64 = cont_bits b \<Longrightarrow> cont c = b"
  unfolding cont_def is_cont_def cont_bits_def by (rule byteI) linarith

lemma cont_bits_less: "is_cont b \<Longrightarrow> cont_bits b < 64"
  unfolding is_cont_def cont_bits_def by linarith

lemma checked_charD: "checked_char n c = Some d \<Longrightarrow> d = c \<and> scalar c \<and> len_utf8 c = n"
  by (auto simp: checked_char_def split: if_splits)

lemma join_parts:
  fixes x y :: nat
  assumes "y < 64"
  shows "(x * 64 + y) div 64 = x" "(x * 64 + y) mod 64 = y"
  using assms by simp_all

lemma decode_one_inv:
  assumes "decode_one bs = Some (c, r)"
  shows "scalar c \<and> bs = encode_utf8 c @ r"
proof -
  obtain a s where bs: "bs = a # s" using assms by (cases bs) (simp_all add: decode_one_def)
  consider (one) "unat a < 0x80" | (bad) "0x80 \<le> unat a" "unat a < 0xC0"
    | (two) "0xC0 \<le> unat a" "unat a < 0xE0" | (three) "0xE0 \<le> unat a" "unat a < 0xF0"
    | (four) "0xF0 \<le> unat a" by linarith
  then show ?thesis
  proof cases
    case one
    with assms bs show ?thesis
      by (auto simp: decode_one_def encode_utf8_def scalar_def)
  next
    case bad
    with assms bs show ?thesis by (auto simp: decode_one_def)
  next
    case two
    then obtain b where s: "s = b # r" and b: "is_cont b"
      and c: "checked_char 2 ((unat a - 0xC0) * 64 + cont_bits b) = Some c"
      using assms bs by (auto simp: decode_one_def split: list.splits if_splits)
    note c = checked_charD [OF c]
    then have range: "0x80 \<le> c" "c < 0x800" by (auto simp: len_utf8_def split: if_splits)
    have parts: "c div 64 = unat a - 0xC0" "c mod 64 = cont_bits b"
      using c cont_bits_less [OF b] by simp_all
    have "word_of_nat (0xC0 + c div 64) = a" unfolding parts using two by (intro byteI) simp
    with range parts cont_join [OF b] c show ?thesis by (simp add: bs s encode_utf8_def)
  next
    case three
    then obtain b d where s: "s = b # d # r" and b: "is_cont b" and d: "is_cont d"
      and c: "checked_char 3 ((unat a - 0xE0) * 4096 + cont_bits b * 64 + cont_bits d) = Some c"
      using assms bs by (auto simp: decode_one_def split: list.splits if_splits)
    note c = checked_charD [OF c]
    then have range: "0x800 \<le> c" "c < 0x10000" by (auto simp: len_utf8_def split: if_splits)
    have eq: "c = ((unat a - 0xE0) * 64 + cont_bits b) * 64 + cont_bits d" using c by simp
    have m: "c div 64 = (unat a - 0xE0) * 64 + cont_bits b" "c mod 64 = cont_bits d"
      by (subst eq, rule join_parts [OF cont_bits_less [OF d]])+
    have "c div 4096 = c div 64 div 64" by (simp add: div_mult2_eq [symmetric])
    then have n: "c div 4096 = unat a - 0xE0" "c div 64 mod 64 = cont_bits b"
      using m(1) cont_bits_less [OF b] by simp_all
    have "word_of_nat (0xE0 + c div 4096) = a" unfolding n using three by (intro byteI) simp
    with range m n cont_join [OF b] cont_join [OF d] c show ?thesis by (simp add: bs s encode_utf8_def)
  next
    case four
    then obtain b d e where s: "s = b # d # e # r" and b: "is_cont b" and d: "is_cont d" and e: "is_cont e"
      and c: "checked_char 4 ((unat a - 0xF0) * 262144 + cont_bits b * 4096 + cont_bits d * 64 + cont_bits e) = Some c"
      using assms bs by (auto simp: decode_one_def split: list.splits if_splits)
    note c = checked_charD [OF c]
    then have range: "0x10000 \<le> c" by (auto simp: len_utf8_def split: if_splits)
    have eq: "c = (((unat a - 0xF0) * 64 + cont_bits b) * 64 + cont_bits d) * 64 + cont_bits e" using c by simp
    have m: "c div 64 = ((unat a - 0xF0) * 64 + cont_bits b) * 64 + cont_bits d" "c mod 64 = cont_bits e"
      by (subst eq, rule join_parts [OF cont_bits_less [OF e]])+
    have "c div 4096 = c div 64 div 64" "c div 262144 = c div 64 div 64 div 64"
      by (simp_all add: div_mult2_eq [symmetric])
    moreover have "c div 64 div 64 = (unat a - 0xF0) * 64 + cont_bits b" "c div 64 mod 64 = cont_bits d"
      by (subst m(1), rule join_parts [OF cont_bits_less [OF d]])+
    ultimately have n: "c div 262144 = unat a - 0xF0" "c div 4096 mod 64 = cont_bits b" "c div 64 mod 64 = cont_bits d"
      using cont_bits_less [OF b] by simp_all
    have "word_of_nat (0xF0 + c div 262144) = a" unfolding n using four by (intro byteI) simp
    with range m n cont_join [OF b] cont_join [OF d] cont_join [OF e] c show ?thesis
      by (simp add: bs s encode_utf8_def)
  qed
qed

lemma decode_utf8_inv: "decode_utf8 bs = Some cs \<Longrightarrow> list_all scalar cs \<and> bs = str_bytes cs"
proof (induction bs arbitrary: cs rule: decode_utf8.induct)
  case (1 bs)
  show ?case
  proof (cases "bs = []")
    case True
    with "1.prems" show ?thesis by (simp add: decode_utf8.simps)
  next
    case False
    with "1.prems" obtain c r ds where d: "decode_one bs = Some (c, r)" "decode_utf8 r = Some ds" "cs = c # ds"
      by (subst (asm) decode_utf8.simps) (auto split: option.splits)
    with "1.IH" [OF False] decode_one_inv [OF d(1)] show ?thesis by simp
  qed
qed

lemma from_utf8_ok_iff: "from_utf8_ok bs \<longleftrightarrow> (\<exists>cs. list_all scalar cs \<and> bs = str_bytes cs)"
  using decode_utf8_inv decode_str_bytes by (auto simp: from_utf8_ok_def)

lemma encode_head: "scalar c \<Longrightarrow> \<not> is_cont ((encode_utf8 c @ r) ! 0)"
  by (erule encode_shape) simp

text \<open>The boundaries are the positions between characters.\<close>

lemma char_boundary_str:
  assumes "list_all scalar cs"
  shows "is_char_boundary (str_bytes cs) i \<longleftrightarrow> (\<exists>k\<le>length cs. i = length (str_bytes (take k cs)))"
  using assms
proof (induction cs arbitrary: i)
  case Nil
  then show ?case by (auto simp: is_char_boundary_def)
next
  case (Cons c cs)
  obtain a r where e: "encode_utf8 c = a # r" "\<not> is_cont a" "list_all is_cont r"
    using Cons.prems encode_shape by auto
  have split: "(\<exists>k\<le>length (c # cs). i = length (str_bytes (take k (c # cs)))) \<longleftrightarrow>
      i = 0 \<or> len_utf8 c \<le> i \<and> (\<exists>k\<le>length cs. i - len_utf8 c = length (str_bytes (take k cs)))"
  proof
    assume "\<exists>k\<le>length (c # cs). i = length (str_bytes (take k (c # cs)))"
    then obtain k where k: "k \<le> length (c # cs)" "i = length (str_bytes (take k (c # cs)))" by blast
    then show "i = 0 \<or> len_utf8 c \<le> i \<and> (\<exists>k\<le>length cs. i - len_utf8 c = length (str_bytes (take k cs)))"
      by (cases k) auto
  next
    assume "i = 0 \<or> len_utf8 c \<le> i \<and> (\<exists>k\<le>length cs. i - len_utf8 c = length (str_bytes (take k cs)))"
    then show "\<exists>k\<le>length (c # cs). i = length (str_bytes (take k (c # cs)))"
    proof
      assume "i = 0"
      then show ?thesis by (intro exI [of _ 0]) simp
    next
      assume "len_utf8 c \<le> i \<and> (\<exists>k\<le>length cs. i - len_utf8 c = length (str_bytes (take k cs)))"
      then obtain k where "len_utf8 c \<le> i" "k \<le> length cs" "i - len_utf8 c = length (str_bytes (take k cs))"
        by blast
      moreover from this have "i = len_utf8 c + length (str_bytes (take k cs))" by linarith
      ultimately show ?thesis by (intro exI [of _ "Suc k"]) (simp only: take_Suc_Cons str_bytes_simps
          length_append length_encode list.size(4), simp)
    qed
  qed
  have len: "len_utf8 c = Suc (length r)" using length_encode [of c] e(1) by simp
  consider "i = 0" | "0 < i" "i < len_utf8 c" | "len_utf8 c \<le> i" by linarith
  then show ?case
  proof cases
    case 2
    then obtain j where j: "i = Suc j" "j < length r" using len by (cases i) auto
    then have "is_cont (str_bytes (c # cs) ! i)" "i < length (str_bytes (c # cs))"
      using e by (auto simp: nth_append list_all_length)
    with 2 show ?thesis unfolding split by (auto simp: is_char_boundary_def boundary_unat)
  next
    case 3
    then have "str_bytes (c # cs) ! i = str_bytes cs ! (i - len_utf8 c)" by (simp add: nth_append)
    moreover have "is_utf8_char_boundary (str_bytes cs ! 0)" if ne: "cs \<noteq> []"
    proof -
      obtain d ds where "cs = d # ds" using ne by (cases cs) auto
      with Cons.prems encode_head [of d "str_bytes ds"] show ?thesis by (simp add: boundary_unat)
    qed
    ultimately have "is_char_boundary (str_bytes (c # cs)) i \<longleftrightarrow> is_char_boundary (str_bytes cs) (i - len_utf8 c)"
      using 3 len_utf8_pos(1) [of c] by (cases "i = len_utf8 c") (auto simp: is_char_boundary_def)
    with 3 Cons show ?thesis unfolding split using len_utf8_pos(1) [of c] by auto
  qed (simp add: split is_char_boundary_def)
qed

end
