(* ===== verification/Strings.thy ===== *)
theory Strings
  imports TryVec Utf8
begin

text \<open>
  Fallible strings: \<^verbatim>\<open>rustyfill/src/alloc/string/string_.rs\<close> and \<^verbatim>\<open>str_.rs\<close>. A \<open>String\<close> is a
  vector of bytes, whose content is kept valid UTF-8; a string slice argument is given by its
  characters. The state of an operation is the vector and the heap.
\<close>

section \<open>The standard string\<close>

type_synonym sstate = "byte vstate"

definition byte_layout :: layout where
  "byte_layout = Layout 1 1"

definition string_new :: "byte vec" where
  "string_new = vec_new byte_layout"

text \<open>\<open>String::push_str\<close>, \<open>push\<close>, \<open>insert_str\<close> and \<open>insert\<close> of the standard library grow infallibly and
  panic at an index that is not a boundary.\<close>

definition append_bytes :: "byte list \<Rightarrow> sstate \<Rightarrow> (sstate, 'e, unit) run" where
  "append_bytes bs s =
     (case (if cap (fst s) - vlen (fst s) < length bs then grow_amortized (length bs) s else (Ok (), s)) of
        (Ok _, (v, h)) \<Rightarrow> (Ok (), (with_items (items v @ bs) v, h))
      | (_, s') \<Rightarrow> (Panic ''memory allocation failed'', s'))"

definition push_str :: "nat list \<Rightarrow> sstate \<Rightarrow> (sstate, 'e, unit) run" where
  "push_str cs s = append_bytes (str_bytes cs) s"

definition push_char :: "nat \<Rightarrow> sstate \<Rightarrow> (sstate, 'e, unit) run" where
  "push_char c s = append_bytes (encode_utf8 c) s"

definition insert_bytes :: "nat \<Rightarrow> byte list \<Rightarrow> sstate \<Rightarrow> (sstate, 'e, unit) run" where
  "insert_bytes idx bs s =
     (if \<not> is_char_boundary (items (fst s)) idx
      then (Panic ''assertion failed: self.is_char_boundary(idx)'', s)
      else case (if cap (fst s) - vlen (fst s) < length bs then grow_amortized (length bs) s else (Ok (), s)) of
          (Ok _, (v, h)) \<Rightarrow> (Ok (), (with_items (take idx (items v) @ bs @ drop idx (items v)) v, h))
        | (_, s') \<Rightarrow> (Panic ''memory allocation failed'', s'))"

section \<open>Fallible strings\<close>

datatype string_error = StringReserve try_reserve_error | InvalidCharBoundary nat

definition string_try_with_capacity :: "nat \<Rightarrow> heap \<Rightarrow> (try_reserve_error, byte vec) outcome \<times> heap" where
  "string_try_with_capacity capacity h =
     into_vec (if 0 < capacity then vec_try_reserve capacity (string_new, h) else (Ok (), (string_new, h)))"

text \<open>Reserve the length of the slice, unless it is empty, and copy it into a new string.\<close>

definition copied_str :: "nat list \<Rightarrow> heap \<Rightarrow> (try_reserve_error, byte vec) outcome \<times> heap" where
  "copied_str cs h =
     into_vec (and_then
       (if str_bytes cs \<noteq> [] then vec_try_reserve (length (str_bytes cs)) (string_new, h)
        else (Ok (), (string_new, h)))
       (\<lambda>_. push_str cs))"

definition string_try_from_str :: "nat list \<Rightarrow> heap \<Rightarrow> (try_reserve_error, byte vec) outcome \<times> heap" where
  "string_try_from_str cs h = copied_str cs h"

definition string_try_push :: "nat \<Rightarrow> sstate \<Rightarrow> (sstate, try_reserve_error, unit) run" where
  "string_try_push c s = and_then (vec_try_reserve (len_utf8 c) s) (\<lambda>_. push_char c)"

definition string_try_push_str :: "nat list \<Rightarrow> sstate \<Rightarrow> (sstate, try_reserve_error, unit) run" where
  "string_try_push_str cs s =
     (if str_bytes cs = [] then (Ok (), s)
      else and_then (vec_try_reserve (length (str_bytes cs)) s) (\<lambda>_. push_str cs))"

text \<open>Formatted arguments, as \<open>fmt::write\<close> runs them: pieces handed to the writer, or an argument whose
  own formatting fails.\<close>

datatype fmt_event = WriteStr "nat list" | FormatFails

fun fmt_write :: "fmt_event list \<Rightarrow> sstate \<Rightarrow> (sstate, unit, unit) run" where
  "fmt_write [] s = (Ok (), s)"
| "fmt_write (WriteStr cs # es) s =
     and_then (map_err_run (\<lambda>_. ()) (string_try_push_str cs s)) (\<lambda>_. fmt_write es)"
| "fmt_write (FormatFails # es) s = (Err (), s)"

definition string_try_write_fmt :: "fmt_event list \<Rightarrow> sstate \<Rightarrow> (sstate, try_reserve_error, unit) run" where
  "string_try_write_fmt es s =
     (let len_before = vlen (fst s)
      in map_err_run (\<lambda>_. new_alloc (Layout (max len_before 1) 1)) (fmt_write es s))"

definition string_try_insert :: "nat \<Rightarrow> nat \<Rightarrow> sstate \<Rightarrow> (sstate, string_error, unit) run" where
  "string_try_insert idx c s =
     (if \<not> is_char_boundary (items (fst s)) idx then (Err (InvalidCharBoundary idx), s)
      else and_then (map_err_run StringReserve (vec_try_reserve (len_utf8 c) s))
        (\<lambda>_. insert_bytes idx (encode_utf8 c)))"

definition string_try_insert_str :: "nat \<Rightarrow> nat list \<Rightarrow> sstate \<Rightarrow> (sstate, string_error, unit) run" where
  "string_try_insert_str idx cs s =
     (if str_bytes cs = [] then (Ok (), s)
      else if \<not> is_char_boundary (items (fst s)) idx then (Err (InvalidCharBoundary idx), s)
      else and_then (map_err_run StringReserve (vec_try_reserve (length (str_bytes cs)) s))
        (\<lambda>_. insert_bytes idx (str_bytes cs)))"

text \<open>\<open>try_shrink_to\<close> takes the bytes out of the string, shrinks them as a vector and checks them again
  when it puts them back: a string that is not valid UTF-8 would panic here and be left empty.\<close>

definition string_try_shrink_to :: "nat \<Rightarrow> sstate \<Rightarrow> (sstate, try_reserve_error, unit) run" where
  "string_try_shrink_to min_capacity s =
     (case vec_try_shrink_to min_capacity s of (result, (v, h)) \<Rightarrow>
        if clean result \<and> \<not> from_utf8_ok (items v)
        then (Panic ''called Result::unwrap() on an Err value'', (string_new, h))
        else (result, (v, h)))"

definition string_try_shrink_to_fit :: "sstate \<Rightarrow> (sstate, try_reserve_error, unit) run" where
  "string_try_shrink_to_fit s = string_try_shrink_to (vlen (fst s)) s"

definition string_try_into_boxed_str :: "sstate \<Rightarrow> (try_reserve_error, byte list) outcome \<times> heap" where
  "string_try_into_boxed_str s =
     (case string_try_shrink_to_fit s of
        (Ok _, s') \<Rightarrow> vec_into_boxed_slice s'
      | (Err e, (_, h')) \<Rightarrow> (Err e, h')
      | (Panic m, (_, h')) \<Rightarrow> (Panic m, h')
      | (UB, (_, h')) \<Rightarrow> (UB, h'))"

definition string_try_into_boxed_str_give_back ::
    "sstate \<Rightarrow> (byte vec \<times> try_reserve_error, byte list) outcome \<times> heap" where
  "string_try_into_boxed_str_give_back s =
     (case string_try_shrink_to_fit s of
        (Ok _, s') \<Rightarrow> vec_into_boxed_slice s'
      | (Err e, (v', h')) \<Rightarrow> (Err (v', e), h')
      | (Panic m, (_, h')) \<Rightarrow> (Panic m, h')
      | (UB, (_, h')) \<Rightarrow> (UB, h'))"

text \<open>Cloning reserves the length and copies the bytes.\<close>

definition string_try_clone :: "byte vec cloner" where
  "string_try_clone v h =
     (let (r, (w, h')) = and_then
        (if items v \<noteq> [] then vec_try_reserve (vlen v) (string_new, h) else (Ok (), (string_new, h)))
        (\<lambda>_. append_bytes (items v))
      in (map_err CloneReserve (map_ok (\<lambda>_. w) r), h'))"

definition string_try_default :: "heap \<Rightarrow> (unit, byte vec) outcome \<times> heap" where
  "string_try_default h = (Ok string_new, h)"

section \<open>String slices\<close>

datatype str_error = StrReserve try_reserve_error

definition str_try_to_string :: "nat list \<Rightarrow> heap \<Rightarrow> (str_error, byte vec) outcome \<times> heap" where
  "str_try_to_string cs h = (let (r, h') = copied_str cs h in (map_err StrReserve r, h'))"

definition checked_mul :: "nat \<Rightarrow> nat \<Rightarrow> nat option" where
  "checked_mul a b = (if a * b \<le> usize_max then Some (a * b) else None)"

fun push_repeated :: "nat \<Rightarrow> nat list \<Rightarrow> sstate \<Rightarrow> (sstate, 'e, unit) run" where
  "push_repeated 0 cs s = (Ok (), s)"
| "push_repeated (Suc n) cs s = and_then (push_str cs s) (\<lambda>_. push_repeated n cs)"

definition str_try_repeat :: "nat list \<Rightarrow> nat \<Rightarrow> heap \<Rightarrow> (str_error, byte vec) outcome \<times> heap" where
  "str_try_repeat cs n h =
     (let len = length (str_bytes cs) in
      if len = 0 \<or> n = 0 then (Ok string_new, h)
      else case checked_mul len n of
          None \<Rightarrow> (Err (StrReserve new_capacity_overflow), h)
        | Some total_len \<Rightarrow>
            into_vec (and_then (map_err_run StrReserve (vec_try_reserve total_len (string_new, h)))
              (\<lambda>_. push_repeated n cs)))"

definition str_try_to_owned :: "nat list \<Rightarrow> heap \<Rightarrow> (to_owned_error, byte vec) outcome \<times> heap" where
  "str_try_to_owned cs h = (let (r, h') = copied_str cs h in (map_err OwnReserve r, h'))"

text \<open>\<open>Box<str>\<close> allocates exactly its length.\<close>

definition box_str_try_clone :: "byte list cloner" where
  "box_str_try_clone bs h =
     (if bs = [] then (Ok [], h)
      else if isize_max < length bs then (Err (CloneReserve new_capacity_overflow), h)
      else let (ok, h') = galloc h in
        (if ok then Ok bs else Err (CloneReserve (new_alloc (Layout (length bs) 1))), h'))"

end
