(* ===== verification/StringProps.thy ===== *)
theory StringProps
  imports Strings VecProps
begin

text \<open>
  Strings against the list of their characters: every operation keeps the bytes valid UTF-8, insertion
  and appending do to the characters what they say, failures leave the string alone, and the check of
  the bytes that shrinking repeats never panics.
\<close>

section \<open>What a string holds\<close>

definition holds_str :: "byte vec \<Rightarrow> nat list \<Rightarrow> bool" where
  "holds_str v cs \<longleftrightarrow>
     vec_ok v \<and> elem v = byte_layout \<and> list_all scalar cs \<and> items v = str_bytes cs"

lemma holds_str_new [simp]: "holds_str string_new []"
  by (simp add: holds_str_def string_new_def byte_layout_def)

lemma holds_str_utf8: "holds_str v cs \<Longrightarrow> from_utf8_ok (items v)"
  using from_utf8_ok_iff by (auto simp: holds_str_def)

lemma string_reserve_cases [consumes 1]:
  assumes "holds_str v cs"
  obtains (reserved) v' h' where "vec_try_reserve n (v, h) = (Ok (), (v', h'))"
      and "holds_str v' cs" and "items v' = items v" and "vlen v + n \<le> cap v'"
  | (failed) e h' where "vec_try_reserve n (v, h) = (Err e, (v, h'))"
proof -
  have "vec_ok v" using assms by (simp add: holds_str_def)
  then show thesis
  proof (cases rule: vec_try_reserve_cases [of v n h])
    case (reserved v' h')
    with assms that(1) show thesis by (simp add: holds_str_def)
  qed (rule that(2))
qed

lemma append_bytes_room:
  "vlen v + length bs \<le> cap v \<Longrightarrow>
   append_bytes bs (v, h) = (Ok (), (with_items (items v @ bs) v, h))"
  by (auto simp: append_bytes_def)

lemma insert_bytes_room:
  "vlen v + length bs \<le> cap v \<Longrightarrow> is_char_boundary (items v) idx \<Longrightarrow>
   insert_bytes idx bs (v, h) = (Ok (), (with_items (take idx (items v) @ bs @ drop idx (items v)) v, h))"
  by (auto simp: insert_bytes_def)

lemma holds_str_appended:
  assumes "holds_str v cs" and "list_all scalar new" and "vlen v + length (str_bytes new) \<le> cap v"
  shows "holds_str (with_items (items v @ str_bytes new) v) (cs @ new)"
  using assms by (simp add: holds_str_def vec_ok_with_items)

section \<open>Appending\<close>

lemma reserve_append:
  assumes "holds_str v cs" and "list_all scalar new"
  obtains (appended) v' h' where
      "and_then (vec_try_reserve (length (str_bytes new)) (v, h)) (\<lambda>_. push_str new) = (Ok (), (v', h'))"
      and "holds_str v' (cs @ new)"
  | (failed) e h' where
      "and_then (vec_try_reserve (length (str_bytes new)) (v, h)) (\<lambda>_. push_str new) = (Err e, (v, h'))"
proof (cases rule: string_reserve_cases [OF assms(1), of "length (str_bytes new)" h])
  case (1 v' h')
  then show thesis
    using that(1) [of "with_items (items v' @ str_bytes new) v'" h'] holds_str_appended [OF 1(2) assms(2)]
    by (simp add: push_str_def append_bytes_room)
next
  case (2 e h')
  then show thesis using that(2) [of e h'] by simp
qed

lemma string_try_push_str_cases [consumes 2]:
  assumes "holds_str v cs" and "list_all scalar new"
  obtains (appended) v' h' where "string_try_push_str new (v, h) = (Ok (), (v', h'))"
      and "holds_str v' (cs @ new)"
  | (failed) e h' where "string_try_push_str new (v, h) = (Err e, (v, h'))"
proof (cases "str_bytes new = []")
  case True
  then show thesis using that(1) [of v h] assms by (simp add: string_try_push_str_def)
next
  case False
  show thesis
    by (cases rule: reserve_append [OF assms, of h])
      (use False that in \<open>auto simp: string_try_push_str_def\<close>)
qed

lemma push_char_str: "push_char c = push_str [c]"
  by (simp add: push_char_def push_str_def fun_eq_iff)

lemma string_try_push_cases [consumes 2]:
  assumes "holds_str v cs" and "scalar c"
  obtains (appended) v' h' where "string_try_push c (v, h) = (Ok (), (v', h'))"
      and "holds_str v' (cs @ [c])"
  | (failed) e h' where "string_try_push c (v, h) = (Err e, (v, h'))"
proof (cases rule: reserve_append [OF assms(1), of "[c]" h])
  case 1
  then show ?case using assms(2) by simp
next
  case (2 v' h')
  then show ?thesis using that(1) [of v' h'] by (simp add: string_try_push_def push_char_str)
next
  case (3 e h')
  then show ?thesis using that(2) [of e h'] by (simp add: string_try_push_def push_char_str)
qed

text \<open>The text of formatted arguments up to the first argument that fails.\<close>

fun fmt_pieces :: "fmt_event list \<Rightarrow> nat list list" where
  "fmt_pieces [] = []"
| "fmt_pieces (WriteStr cs # es) = cs # fmt_pieces es"
| "fmt_pieces (FormatFails # es) = []"

lemma fmt_write_spec:
  assumes "holds_str v cs" and "\<forall>p\<in>set (fmt_pieces es). list_all scalar p"
    and "fmt_write es (v, h) = (r, (v', h'))"
  shows "r = Ok () \<and> FormatFails \<notin> set es \<and> holds_str v' (cs @ concat (fmt_pieces es)) \<or>
    r = Err () \<and> (\<exists>k. holds_str v' (cs @ concat (take k (fmt_pieces es))))"
  using assms
proof (induction es "(v, h)" arbitrary: v h cs rule: fmt_write.induct)
  case (2 p es v h)
  note outer = 2
  have p: "list_all scalar p" using 2(3) by simp
  show ?case
  proof (cases rule: string_try_push_str_cases [OF 2(2) p, of h])
    case (1 w k)
    then have "r = Ok () \<and> FormatFails \<notin> set es \<and> holds_str v' ((cs @ p) @ concat (fmt_pieces es)) \<or>
        r = Err () \<and> (\<exists>k. holds_str v' ((cs @ p) @ concat (take k (fmt_pieces es))))"
      using outer(1) [where cs = "cs @ p" and v = w and h = k] outer(3,4) by simp
    moreover have "holds_str v' ((cs @ p) @ concat (take k ps)) \<Longrightarrow>
        holds_str v' (cs @ concat (take (Suc k) (p # ps)))" for k ps by simp
    ultimately show ?thesis by (auto simp del: take_Suc_Cons)
  next
    case (2 e k)
    then have "r = Err () \<and> v' = v" using outer(4) by simp
    moreover have "holds_str v (cs @ concat (take 0 (fmt_pieces (WriteStr p # es))))"
      using outer(2) by simp
    ultimately show ?thesis by blast
  qed
qed (auto intro: exI [of _ 0])

lemma string_write_fmt_holds:
  assumes "holds_str v cs" and "\<forall>p\<in>set (fmt_pieces es). list_all scalar p"
    and "string_try_write_fmt es (v, h) = (r, (v', h'))"
  shows "r = Ok () \<and> FormatFails \<notin> set es \<and> holds_str v' (cs @ concat (fmt_pieces es)) \<or>
    (\<exists>e. r = Err e \<and> is_alloc e) \<and> (\<exists>k. holds_str v' (cs @ concat (take k (fmt_pieces es))))"
proof -
  obtain q where q: "fmt_write es (v, h) = (q, (v', h'))"
    "r = map_err (\<lambda>_. new_alloc (Layout (max (vlen v) 1) 1)) q"
    using assms(3) by (cases "fmt_write es (v, h)") (auto simp: string_try_write_fmt_def map_err_run_def)
  from fmt_write_spec [OF assms(1,2) q(1)] q(2) show ?thesis
    by (auto simp: is_alloc_def new_alloc_def error_kind_def)
qed

section \<open>Insertion\<close>

lemma holds_str_inserted:
  assumes "holds_str v cs" and "list_all scalar new" and "k \<le> length cs"
    and "vlen v + length (str_bytes new) \<le> cap v" and i: "i = length (str_bytes (take k cs))"
  shows "holds_str (with_items (take i (items v) @ str_bytes new @ drop i (items v)) v)
    (take k cs @ new @ drop k cs)"
proof -
  have "items v = str_bytes (take k cs) @ str_bytes (drop k cs)"
    using assms(1) by (simp add: holds_str_def flip: str_bytes_simps(3))
  then have "take i (items v) @ str_bytes new @ drop i (items v) = str_bytes (take k cs @ new @ drop k cs)"
    and "length (take i (items v) @ str_bytes new @ drop i (items v)) \<le> cap v"
    using assms(4) i by simp_all
  moreover from this(2) have "vec_ok (with_items (take i (items v) @ str_bytes new @ drop i (items v)) v)"
    using assms(1) by (intro vec_ok_with_items) (simp_all only: holds_str_def)
  moreover have "list_all scalar (take k cs @ new @ drop k cs)"
    using assms(1,2) by (auto simp: holds_str_def list_all_iff dest: in_set_takeD in_set_dropD)
  ultimately show ?thesis using assms(1) by (simp add: holds_str_def)
qed

lemma reserve_insert:
  assumes "holds_str v cs" and "list_all scalar new" and "k \<le> length cs"
    and i: "i = length (str_bytes (take k cs))"
    and r: "and_then (map_err_run StringReserve (vec_try_reserve (length (str_bytes new)) (v, h)))
      (\<lambda>_. insert_bytes i (str_bytes new)) = (r, (v', h'))"
  shows "r = Ok () \<and> holds_str v' (take k cs @ new @ drop k cs) \<or> (\<exists>e. r = Err (StringReserve e)) \<and> v' = v"
proof (cases rule: string_reserve_cases [OF assms(1), of "length (str_bytes new)" h])
  case (1 w k')
  have "is_char_boundary (items w) i"
    using 1(2) assms(3) i by (auto simp: holds_str_def char_boundary_str)
  with 1 r have "r = Ok ()" "v' = with_items (take i (items w) @ str_bytes new @ drop i (items w)) w"
    by (simp_all add: insert_bytes_room)
  with holds_str_inserted [OF 1(2) assms(2,3) _ i] 1(3,4) show ?thesis by simp
next
  case (2 e k')
  with r show ?thesis by auto
qed

lemma string_insert_holds:
  assumes "holds_str v cs" and "list_all scalar new"
    and "string_try_insert_str i new (v, h) = (r, (v', h'))"
  shows "new = [] \<and> r = Ok () \<and> v' = v \<or>
    new \<noteq> [] \<and> (\<nexists>k. k \<le> length cs \<and> i = length (str_bytes (take k cs))) \<and>
      r = Err (InvalidCharBoundary i) \<and> v' = v \<or>
    (\<exists>k\<le>length cs. i = length (str_bytes (take k cs)) \<and>
      (r = Ok () \<and> holds_str v' (take k cs @ new @ drop k cs) \<or>
       (\<exists>e. r = Err (StringReserve e)) \<and> v' = v))"
proof -
  have b: "is_char_boundary (items v) i \<longleftrightarrow> (\<exists>k\<le>length cs. i = length (str_bytes (take k cs)))"
    using assms(1) char_boundary_str by (simp add: holds_str_def)
  consider "new = []" | "new \<noteq> []" "\<not> is_char_boundary (items v) i"
    | "new \<noteq> []" "is_char_boundary (items v) i" by blast
  then show ?thesis
  proof cases
    case 1
    with assms(3) show ?thesis by (simp add: string_try_insert_str_def)
  next
    case 2
    with assms(3) b show ?thesis by (auto simp: string_try_insert_str_def)
  next
    case 3
    with b obtain k where k: "k \<le> length cs" "i = length (str_bytes (take k cs))" by blast
    have "r = Ok () \<and> holds_str v' (take k cs @ new @ drop k cs) \<or> (\<exists>e. r = Err (StringReserve e)) \<and> v' = v"
      using assms(3) 3 by (intro reserve_insert [OF assms(1,2) k]) (simp add: string_try_insert_str_def)
    with k show ?thesis by blast
  qed
qed

lemma string_insert_char:
  "string_try_insert i c s = string_try_insert_str i [c] s"
  by (simp add: string_try_insert_def string_try_insert_str_def)

section \<open>Shrinking and any sequence of operations\<close>

lemma string_shrink_cases [consumes 1]:
  assumes "holds_str v cs"
  obtains (kept) v' h' where "string_try_shrink_to m (v, h) = (Ok (), (v', h'))" "holds_str v' cs"
  | (failed) e h' where "string_try_shrink_to m (v, h) = (Err e, (v, h'))"
proof -
  have v: "vec_ok v" and e: "elem v = byte_layout" using assms by (simp_all add: holds_str_def)
  have u: "from_utf8_ok (items v)" using assms by (rule holds_str_utf8)
  show thesis
  proof (cases rule: vec_try_shrink_to_cases [OF v, of m h])
    case 1
    with u show thesis by (intro that(1) [of v h]) (simp_all add: string_try_shrink_to_def assms)
  next
    case (2 k)
    let ?w = "Vec (items v) (max (vlen v) m) (elem v)"
    have "holds_str ?w cs"
      using assms vec_ok_shrunk [OF v 2(2,3)] by (simp only: holds_str_def vec.sel simp_thms)
    moreover have "string_try_shrink_to m (v, h) = (Ok (), (?w, k))"
      using 2(1) u by (simp add: string_try_shrink_to_def)
    ultimately show thesis by (rule that(1) [rotated])
  next
    case (3 k)
    with u show thesis by (intro that(2)) (simp_all add: string_try_shrink_to_def)
  qed
qed

datatype string_op =
    OpPush nat
  | OpPushStr "nat list"
  | OpWriteFmt "fmt_event list"
  | OpInsert nat nat
  | OpInsertStr nat "nat list"
  | OpShrinkTo nat
  | OpShrinkToFit

fun op_chars :: "string_op \<Rightarrow> nat set" where
  "op_chars (OpPush c) = {c}"
| "op_chars (OpPushStr cs) = set cs"
| "op_chars (OpWriteFmt es) = (\<Union>p\<in>set (fmt_pieces es). set p)"
| "op_chars (OpInsert i c) = {c}"
| "op_chars (OpInsertStr i cs) = set cs"
| "op_chars _ = {}"

fun run_op :: "string_op \<Rightarrow> sstate \<Rightarrow> (sstate, unit, unit) run" where
  "run_op (OpPush c) s = map_err_run (\<lambda>_. ()) (string_try_push c s)"
| "run_op (OpPushStr cs) s = map_err_run (\<lambda>_. ()) (string_try_push_str cs s)"
| "run_op (OpWriteFmt es) s = map_err_run (\<lambda>_. ()) (string_try_write_fmt es s)"
| "run_op (OpInsert i c) s = map_err_run (\<lambda>_. ()) (string_try_insert i c s)"
| "run_op (OpInsertStr i cs) s = map_err_run (\<lambda>_. ()) (string_try_insert_str i cs s)"
| "run_op (OpShrinkTo m) s = map_err_run (\<lambda>_. ()) (string_try_shrink_to m s)"
| "run_op OpShrinkToFit s = map_err_run (\<lambda>_. ()) (string_try_shrink_to_fit s)"

fun run_ops :: "string_op list \<Rightarrow> sstate \<Rightarrow> (unit, unit) outcome list \<times> sstate" where
  "run_ops [] s = ([], s)"
| "run_ops (x # xs) s =
     (case run_op x s of (r, s') \<Rightarrow> case run_ops xs s' of (rs, s'') \<Rightarrow> (r # rs, s''))"

lemma insert_str_holds:
  assumes "holds_str v cs" and "list_all scalar new"
    and "string_try_insert_str i new (v, h) = (r, (v', h'))"
  shows "clean r \<and> (\<exists>cs'. holds_str v' cs')"
  using string_insert_holds [OF assms] assms(1) by auto

lemma run_op_holds:
  assumes "holds_str v cs" and "\<forall>c\<in>op_chars x. scalar c" and "run_op x (v, h) = (r, (v', h'))"
  shows "clean r \<and> (\<exists>cs'. holds_str v' cs')"
proof (cases x)
  case (OpPush c)
  with assms(2) have ok: "scalar c" by simp
  show ?thesis
    by (cases rule: string_try_push_cases [OF assms(1) ok, of h])
      (use assms(1,3) OpPush in \<open>auto simp: string_try_shrink_to_fit_def\<close>)
next
  case (OpPushStr new)
  with assms(2) have ok: "list_all scalar new" by (simp add: list_all_iff)
  show ?thesis
    by (cases rule: string_try_push_str_cases [OF assms(1) ok, of h])
      (use assms(1,3) OpPushStr in \<open>auto simp: string_try_shrink_to_fit_def\<close>)
next
  case (OpWriteFmt es)
  then have "\<forall>p\<in>set (fmt_pieces es). list_all scalar p" using assms(2) by (simp add: list_all_iff)
  moreover obtain q where "string_try_write_fmt es (v, h) = (q, (v', h'))" "r = map_err (\<lambda>_. ()) q"
    using assms(3) OpWriteFmt by (cases "string_try_write_fmt es (v, h)") (auto simp: map_err_run_def)
  ultimately show ?thesis using string_write_fmt_holds [OF assms(1), of es h q v' h'] by auto
next
  case (OpInsert i c)
  obtain q where "string_try_insert_str i [c] (v, h) = (q, (v', h'))" "r = map_err (\<lambda>_. ()) q"
    using assms(3) OpInsert string_insert_char [of i c "(v, h)"]
    by (cases "string_try_insert_str i [c] (v, h)") (auto simp: map_err_run_def)
  with insert_str_holds [OF assms(1), of "[c]"] assms(2) OpInsert show ?thesis by simp
next
  case (OpInsertStr i new)
  obtain q where "string_try_insert_str i new (v, h) = (q, (v', h'))" "r = map_err (\<lambda>_. ()) q"
    using assms(3) OpInsertStr by (cases "string_try_insert_str i new (v, h)") (auto simp: map_err_run_def)
  with insert_str_holds [OF assms(1), of new] assms(2) OpInsertStr show ?thesis
    by (simp add: list_all_iff)
next
  case (OpShrinkTo m)
  show ?thesis
    by (cases rule: string_shrink_cases [OF assms(1), of m h])
      (use assms(1,3) OpShrinkTo in \<open>auto simp: string_try_shrink_to_fit_def\<close>)
next
  case OpShrinkToFit
  show ?thesis
    by (cases rule: string_shrink_cases [OF assms(1), of "vlen v" h])
      (use assms(1,3) OpShrinkToFit in \<open>auto simp: string_try_shrink_to_fit_def\<close>)
qed

lemma run_ops_holds:
  assumes "holds_str v cs" and "\<forall>x\<in>set ops. \<forall>c\<in>op_chars x. scalar c"
    and "run_ops ops (v, h) = (rs, (v', h'))"
  shows "list_all clean rs \<and> (\<exists>cs'. holds_str v' cs')"
  using assms
proof (induction ops arbitrary: v cs h rs)
  case (Cons x xs)
  obtain r w k where x: "run_op x (v, h) = (r, (w, k))" by (metis surj_pair)
  obtain qs where xs: "run_ops xs (w, k) = (qs, (v', h'))" "rs = r # qs"
    using Cons.prems(3) x by (auto split: prod.splits)
  have "clean r \<and> (\<exists>cs'. holds_str w cs')"
    using run_op_holds [OF Cons.prems(1) _ x] Cons.prems(2) by simp
  with Cons.IH [OF _ _ xs(1)] Cons.prems(2) xs(2) show ?case by auto
qed auto

section \<open>Copies\<close>

text \<open>A clone shows the same bytes: strings are cloneable in the sense of \<open>TryClone\<close>.\<close>

lemma string_clone_cases:
  obtains (Ok) w h' where "string_try_clone v h = (Ok w, h')" and "items w = items v"
  | (Err) e h' where "string_try_clone v h = (Err e, h')"
proof (cases "items v = []")
  case True
  then show thesis
    using that(1) [of string_new h]
    by (simp add: string_try_clone_def append_bytes_def string_new_def with_items_def vec_new_def byte_layout_def)
next
  case False
  show thesis
  proof (cases rule: string_reserve_cases [OF holds_str_new, of "vlen v" h])
    case (1 w k)
    then have "(append_bytes (items v) (w, k) :: (sstate, try_reserve_error, unit) run) =
        (Ok (), (with_items (items v) w, k))"
      by (simp add: append_bytes_room string_new_def)
    with 1 False show thesis
      using that(1) [of "with_items (items v) w" k] by (simp add: string_try_clone_def)
  next
    case (2 e k)
    with False show thesis using that(2) [of "CloneReserve e" k] by (simp add: string_try_clone_def)
  qed
qed

interpretation string_clone: cloneable string_try_clone items
proof
  fix v w :: "byte vec" and h h'
  assume "string_try_clone v h = (Ok w, h')"
  then show "items w = items v" by (cases rule: string_clone_cases [of v h]) auto
next
  fix v :: "byte vec" and h
  show "clean (fst (string_try_clone v h))" by (cases rule: string_clone_cases [of v h]) auto
qed

text \<open>Repetition.\<close>

lemma push_repeated_room:
  assumes "holds_str v cs" and "list_all scalar new" and "vlen v + n * length (str_bytes new) \<le> cap v"
  shows "\<exists>v'. (push_repeated n new (v, h) :: (sstate, 'e, unit) run) = (Ok (), (v', h)) \<and>
    holds_str v' (cs @ concat (replicate n new))"
  using assms
proof (induction n arbitrary: v cs)
  case (Suc n)
  let ?w = "with_items (items v @ str_bytes new) v"
  have room: "vlen v + length (str_bytes new) \<le> cap v" using Suc.prems(3) by simp
  have w: "holds_str ?w (cs @ new)" by (rule holds_str_appended [OF Suc.prems(1,2) room])
  have "vlen ?w + n * length (str_bytes new) \<le> cap ?w" using Suc.prems(3) by simp
  from Suc.IH [OF w Suc.prems(2) this] show ?case
    using room by (simp add: push_str_def append_bytes_room)
qed auto

text \<open>\<open>try_repeat\<close> returns the slice repeated or an error; a length beyond \<open>usize\<close> is a capacity
  overflow that asks the allocator for nothing.\<close>

lemma str_repeat_spec:
  assumes "list_all scalar cs" and "str_try_repeat cs n h = (r, h')"
  shows "(\<exists>v. r = Ok v \<and> holds_str v (concat (replicate n cs))) \<or> (\<exists>e. r = Err e)"
    and "usize_max < length (str_bytes cs) * n \<Longrightarrow> r = Err (StrReserve new_capacity_overflow) \<and> h' = h"
proof -
  let ?len = "length (str_bytes cs)"
  show "usize_max < ?len * n \<Longrightarrow> r = Err (StrReserve new_capacity_overflow) \<and> h' = h"
    using assms(2) by (auto simp: str_try_repeat_def checked_mul_def Let_def split: if_splits)
  show "(\<exists>v. r = Ok v \<and> holds_str v (concat (replicate n cs))) \<or> (\<exists>e. r = Err e)"
  proof (cases "?len = 0 \<or> n = 0")
    case True
    then have "concat (replicate n cs) = []" by auto
    with True assms(2) show ?thesis by (auto simp: str_try_repeat_def Let_def)
  next
    case False
    show ?thesis
    proof (cases "?len * n \<le> usize_max")
      case True
      show ?thesis
      proof (cases rule: string_reserve_cases [OF holds_str_new, of "?len * n" h])
        case (1 w k)
        then have "vlen w + n * ?len \<le> cap w" by (simp add: string_new_def mult.commute)
        from push_repeated_room [where 'e = str_error, OF 1(2) assms(1) this, of k] 1(1) False True assms(2) show ?thesis
          by (auto simp: str_try_repeat_def checked_mul_def into_vec_def Let_def)
      next
        case (2 e k)
        with False True assms(2) show ?thesis
          by (auto simp: str_try_repeat_def checked_mul_def into_vec_def Let_def)
      qed
    next
      case over: False
      with False assms(2) show ?thesis by (auto simp: str_try_repeat_def checked_mul_def Let_def)
    qed
  qed
qed

section \<open>Properties\<close>

text \<open>Formatting into a string appends the pieces of the arguments in order: on \<open>Ok\<close> all of
  them, and then no argument has failed; on an error, which is always reported as a failed
  allocation, even when an argument's own formatting failed, a whole number of pieces.\<close>

lemma string_write_fmt_spec:
  assumes "holds_str v cs" and "\<forall>p\<in>set (fmt_pieces es). list_all scalar p"
    and "string_try_write_fmt es (v, h) = (r, (v', h'))"
  shows "r = Ok () \<and> FormatFails \<notin> set es \<and> holds_str v' (cs @ concat (fmt_pieces es)) \<or>
    (\<exists>e. r = Err e \<and> is_alloc e) \<and> (\<exists>k. holds_str v' (cs @ concat (take k (fmt_pieces es))))"
  using assms by (rule string_write_fmt_holds)



text \<open>Claim C23. Whatever sequence of operations is run on a new string, on whatever heap: no operation
  panics, the bytes are valid UTF-8 throughout, and the conversion to a boxed \<open>str\<close>, which skips the
  check, returns exactly these bytes or gives the string back.\<close>

theorem string_ops_safe:
  assumes "\<forall>x\<in>set ops. \<forall>c\<in>op_chars x. scalar c"
    and "run_ops ops (string_new, h) = (rs, (v, h'))"
  shows "list_all clean rs \<and> from_utf8_ok (items v) \<and>
    (fst (string_try_into_boxed_str_give_back (v, h')) = Ok (items v) \<or>
     (\<exists>e. fst (string_try_into_boxed_str_give_back (v, h')) = Err (v, e)))"
proof -
  obtain cs where cs: "list_all clean rs" "holds_str v cs"
    using run_ops_holds [OF holds_str_new assms] by blast
  have v: "vec_ok v" using cs(2) by (simp add: holds_str_def)
  have "from_utf8_ok (items v)" using cs(2) by (rule holds_str_utf8)
  moreover have "string_try_shrink_to_fit (v, h') = vec_try_shrink_to_fit (v, h')"
    using calculation v
    by (cases rule: vec_try_shrink_to_cases [OF v, of "vlen v" h'])
      (simp_all add: string_try_shrink_to_fit_def string_try_shrink_to_def vec_try_shrink_to_fit_def)
  then have "string_try_into_boxed_str_give_back (v, h') = vec_try_into_boxed_slice_give_back (v, h')"
    by (simp add: string_try_into_boxed_str_give_back_def vec_try_into_boxed_slice_give_back_def)
  moreover have "fst (vec_try_into_boxed_slice_give_back (v, h')) = Ok (items v) \<or>
      (\<exists>e. fst (vec_try_into_boxed_slice_give_back (v, h')) = Err (v, e))"
    using boxed_slice_give_back_spec [OF v] by (metis prod.collapse)
  ultimately show ?thesis using cs(1) by simp
qed

theorem string_ops_safe_witness:
  "list_all clean (fst (run_ops [OpPush 233, OpInsert 1 97, OpShrinkToFit] (string_new, heap_with policy_nothing)))"
proof -
  let ?ops = "[OpPush 233, OpInsert 1 97, OpShrinkToFit]"
  obtain rs v h where "run_ops ?ops (string_new, heap_with policy_nothing) = (rs, (v, h))"
    by (metis surj_pair)
  with string_ops_safe [of ?ops "heap_with policy_nothing" rs v h] show ?thesis
    by (simp add: scalar_def)
qed

end
