(* ===== verification/Slices.thy ===== *)
theory Slices
  imports VecProps Strings
begin

text \<open>
  Fallible slices and boxed slices: \<^verbatim>\<open>rustyfill/src/alloc/vec/slice_.rs\<close>, with the initialisation
  guard it shares with the arrays of \<^verbatim>\<open>try_clone.rs\<close>.
\<close>

section \<open>Slices\<close>

definition slice_try_to_vec ::
    "layout \<Rightarrow> 'a cloner \<Rightarrow> 'a list \<Rightarrow> heap \<Rightarrow> (vec_clone_error, 'a vec) outcome \<times> heap" where
  "slice_try_to_vec l cl xs h =
     into_vec (and_then
       (map_err_run VecReserve
         (if xs \<noteq> [] then vec_try_reserve (length xs) (vec_new l, h) else (Ok (), (vec_new l, h))))
       (\<lambda>_ s. map_err_run VecClone (push_clones cl xs s)))"

fun push_clones_times :: "nat \<Rightarrow> 'a cloner \<Rightarrow> 'a list \<Rightarrow> 'a vstate \<Rightarrow> ('a vstate, try_clone_error, unit) run"
where
  "push_clones_times 0 cl xs s = (Ok (), s)"
| "push_clones_times (Suc n) cl xs s = and_then (push_clones cl xs s) (\<lambda>_. push_clones_times n cl xs)"

definition slice_try_repeat_clone ::
    "layout \<Rightarrow> 'a cloner \<Rightarrow> 'a list \<Rightarrow> nat \<Rightarrow> heap \<Rightarrow> (vec_clone_error, 'a vec) outcome \<times> heap" where
  "slice_try_repeat_clone l cl xs n h =
     (let len = length xs in
      if len = 0 \<or> n = 0 then (Ok (vec_new l), h)
      else case checked_mul len n of
          None \<Rightarrow> (Err (VecReserve new_capacity_overflow), h)
        | Some total_len \<Rightarrow>
            into_vec (and_then (map_err_run VecReserve (vec_try_reserve total_len (vec_new l, h)))
              (\<lambda>_ s. map_err_run VecClone (push_clones_times n cl xs s))))"

text \<open>The conversion of a clone error, \<open>TryToOwnedError::from\<close>.\<close>

fun owned_of_clone :: "try_clone_error \<Rightarrow> to_owned_error" where
  "owned_of_clone (CloneReserve e) = OwnReserve e"
| "owned_of_clone (CloneAlloc e) = OwnAlloc e"
| "owned_of_clone (CloneOther m) = OwnOther m"

definition slice_try_to_owned ::
    "layout \<Rightarrow> 'a cloner \<Rightarrow> 'a list \<Rightarrow> heap \<Rightarrow> (to_owned_error, 'a vec) outcome \<times> heap" where
  "slice_try_to_owned l cl xs h =
     into_vec (and_then
       (map_err_run OwnReserve
         (if xs \<noteq> [] then vec_try_reserve (length xs) (vec_new l, h) else (Ok (), (vec_new l, h))))
       (\<lambda>_ s. map_err_run owned_of_clone (push_clones cl xs s)))"

section \<open>Boxed slices\<close>

text \<open>The clone of a boxed slice allocates exactly its length and fills it under the guard; the result
  carries what the guard dropped, as for arrays. An empty slice or one of zero-sized elements is made
  up without a single call of the clone.\<close>

definition box_slice_try_clone ::
    "layout \<Rightarrow> 'a cloner \<Rightarrow> 'a list \<Rightarrow> heap \<Rightarrow> (try_clone_error, 'a list) outcome \<times> 'a list \<times> heap" where
  "box_slice_try_clone l cl xs h =
     (if xs = [] \<or> lsize l = 0 then (Ok xs, [], h)
      else if isize_max + 1 - lalign l < length xs * lsize l
      then (Err (CloneReserve new_capacity_overflow), [], h)
      else case galloc h of
          (False, h') \<Rightarrow> (Err (CloneReserve (new_alloc (Layout (length xs * lsize l) (lalign l)))), [], h')
        | (True, h') \<Rightarrow>
            (case array_clone_loop cl 0 xs ((replicate (length xs) None, 0), h') of
               (Ok _, ((slots, n), h'')) \<Rightarrow>
                 (if list_all (\<lambda>s. s \<noteq> None) slots
                  then (Ok (List.map_filter (\<lambda>s. s) slots), [], h'') else (UB, [], h''))
             | (Err e, (g, h'')) \<Rightarrow> (Err e, guard_drops g, h'')
             | (Panic m, (g, h'')) \<Rightarrow> (Panic m, guard_drops g, h'')
             | (UB, (g, h'')) \<Rightarrow> (UB, [], h'')))"

section \<open>The guarded loop\<close>

lemma array_clone_loop_run:
  assumes "length ds + length xs \<le> usize_max"
  shows "array_clone_loop cl (length ds) xs ((map Some ds @ replicate (length xs) None, length ds), h) =
    (case clone_prefix cl xs h of (ys, r, h') \<Rightarrow>
      (r, ((map Some (ds @ ys) @ replicate (length xs - length ys) None, length ds + length ys), h')))"
  using assms
proof (induction xs arbitrary: ds h)
  case (Cons x xs)
  obtain r k where r: "cl x h = (r, k)" by fastforce
  show ?case
  proof (cases r)
    case (Ok y)
    have upd: "(map Some ds @ None # replicate (length xs) None)[length ds := Some y] =
        map Some (ds @ [y]) @ replicate (length xs) None"
      by (simp add: list_update_append)
    have "array_clone_loop cl (length (ds @ [y])) xs
        ((map Some (ds @ [y]) @ replicate (length xs) None, length (ds @ [y])), k) =
      (case clone_prefix cl xs k of (ys, r, h') \<Rightarrow>
        (r, ((map Some ((ds @ [y]) @ ys) @ replicate (length xs - length ys) None, length (ds @ [y]) + length ys), h')))"
      using Cons.prems by (intro Cons.IH) simp
    then show ?thesis
      using Cons.prems by (simp add: r Ok upd checked_add_def case_prod_beta)
  qed (simp_all add: r)
qed simp

lemma guard_drops_prefix: "guard_drops (map Some ys @ zs, length ys) = ys"
  by (simp add: guard_drops_def map_filter_def comp_def)

lemma map_filter_Some: "List.map_filter (\<lambda>s. s) (map Some ys) = ys"
  by (simp add: map_filter_def comp_def)

text \<open>Filling a buffer under the guard: all clones, or an error with exactly the clones made dropped.\<close>

lemma guarded_clones:
  assumes "length xs \<le> usize_max"
  shows "array_clone_loop cl 0 xs ((replicate (length xs) None, 0), h) =
    (case clone_prefix cl xs h of (ys, r, h') \<Rightarrow>
      (r, ((map Some ys @ replicate (length xs - length ys) None, length ys), h')))"
  using array_clone_loop_run [of "[]" xs cl h] assms by simp

context cloneable
begin

lemma clone_prefix_cases:
  obtains (Ok) ys h' where "clone_prefix cl xs h = (ys, Ok (), h')" and "map view ys = map view xs"
  | (Err) ys e h' where "clone_prefix cl xs h = (ys, Err e, h')" and "length ys < length xs"
      and "map view ys = map view (take (length ys) xs)"
proof (induction xs arbitrary: h thesis)
  case Nil
  then show ?case by simp
next
  case (Cons x xs)
  show ?case
  proof (cases rule: clone_cases [of x h])
    case (Ok y k)
    show ?thesis
    proof (rule Cons.IH [of k])
      fix ys h'
      assume "clone_prefix cl xs k = (ys, Ok (), h')" "map view ys = map view xs"
      with Ok show ?thesis by (intro Cons.prems(1) [of "y # ys" h']) simp_all
    next
      fix ys e h'
      assume "clone_prefix cl xs k = (ys, Err e, h')" "length ys < length xs"
        "map view ys = map view (take (length ys) xs)"
      with Ok show ?thesis by (intro Cons.prems(2) [of "y # ys" e h']) simp_all
    qed
  next
    case (Err e k)
    then show ?thesis by (intro Cons.prems(2) [of "[]" e k]) simp_all
  qed
qed

lemma array_clone_cases:
  assumes "length xs \<le> usize_max"
  obtains (Ok) ys h' where "array_try_clone cl xs h = (Ok ys, [], h')" and "map view ys = map view xs"
  | (Err) e ys h' where "array_try_clone cl xs h = (Err e, ys, h')" and "length ys < length xs"
      and "map view ys = map view (take (length ys) xs)"
proof (cases rule: clone_prefix_cases [of xs h])
  case (Ok ys k)
  then have "length ys = length xs" using map_eq_imp_length_eq by blast
  with Ok assms show thesis
    by (intro that(1) [of ys k]) (simp_all add: array_try_clone_def guarded_clones map_filter_Some list_all_iff)
next
  case (Err ys e k)
  with assms show thesis
    by (intro that(2) [of e ys k]) (simp_all add: array_try_clone_def guarded_clones guard_drops_prefix)
qed

lemma box_slice_clone_cases:
  assumes "length xs \<le> usize_max"
  obtains (Ok) ys h' where "box_slice_try_clone l cl xs h = (Ok ys, [], h')" and "map view ys = map view xs"
  | (Refused) e h' where "box_slice_try_clone l cl xs h = (Err (CloneReserve e), [], h')"
      and "isize_max + 1 - lalign l < length xs * lsize l \<or> \<not> fst (galloc h)"
  | (Err) e ys h' where "box_slice_try_clone l cl xs h = (Err e, ys, h')"
      and "clone_prefix cl xs (snd (galloc h)) = (ys, Err e, h')"
proof -
  consider "xs = [] \<or> lsize l = 0" | "\<not> (xs = [] \<or> lsize l = 0)" "isize_max + 1 - lalign l < length xs * lsize l"
    | k where "\<not> (xs = [] \<or> lsize l = 0)" "\<not> isize_max + 1 - lalign l < length xs * lsize l" "galloc h = (False, k)"
    | k where "\<not> (xs = [] \<or> lsize l = 0)" "\<not> isize_max + 1 - lalign l < length xs * lsize l" "galloc h = (True, k)"
    by (cases "galloc h") (metis (full_types))
  then show thesis
  proof cases
    case 1
    then show thesis by (intro that(1) [of xs h]) (simp_all add: box_slice_try_clone_def)
  next
    case 2
    then show thesis by (intro that(2)) (simp_all add: box_slice_try_clone_def)
  next
    case (3 k)
    then show thesis by (intro that(2) [of _ k]) (simp_all add: box_slice_try_clone_def)
  next
    case (4 k)
    show thesis
    proof (cases rule: clone_prefix_cases [of xs k])
      case (Ok ys k')
      then have "length ys = length xs" using map_eq_imp_length_eq by blast
      with Ok 4 assms show thesis
        by (intro that(1) [of ys k'])
          (simp_all add: box_slice_try_clone_def guarded_clones map_filter_Some list_all_iff)
    next
      case (Err ys e k')
      with 4 assms show thesis
        by (intro that(3) [of e ys k']) (simp_all add: box_slice_try_clone_def guarded_clones guard_drops_prefix)
    qed
  qed
qed

end

section \<open>Properties\<close>

text \<open>Claim C34. Cloning a boxed slice of elements that occupy memory returns clones of all of them; or it
  is refused by the reservation before any clone was made; or a clone fails and exactly the clones made
  before it are dropped. Nothing uninitialised is read or dropped. But a
  slice of zero-sized elements is copied out of nothing: the elements' own \<open>try_clone\<close> is never called,
  so that even a clone that always fails is ignored and the call succeeds.\<close>

theorem box_slice_clone_spec:
  assumes "cloneable cl view" and "length xs \<le> usize_max"
  shows "(\<exists>r dropped h'. box_slice_try_clone l cl xs h = (r, dropped, h') \<and>
      ((\<exists>ys. r = Ok ys \<and> map view ys = map view xs \<and> dropped = []) \<or>
       (\<exists>e. r = Err (CloneReserve e)) \<and> dropped = [] \<and>
         (isize_max + 1 - lalign l < length xs * lsize l \<or> \<not> fst (galloc h)) \<or>
       (\<exists>e. r = Err e \<and> clone_prefix cl xs (snd (galloc h)) = (dropped, Err e, h')))) \<and>
    (lsize l = 0 \<longrightarrow> (\<forall>cl'. box_slice_try_clone l cl' xs h = (Ok xs, [], h)))"
proof
  show "\<exists>r dropped h'. box_slice_try_clone l cl xs h = (r, dropped, h') \<and>
      ((\<exists>ys. r = Ok ys \<and> map view ys = map view xs \<and> dropped = []) \<or>
       (\<exists>e. r = Err (CloneReserve e)) \<and> dropped = [] \<and>
         (isize_max + 1 - lalign l < length xs * lsize l \<or> \<not> fst (galloc h)) \<or>
       (\<exists>e. r = Err e \<and> clone_prefix cl xs (snd (galloc h)) = (dropped, Err e, h')))"
    by (cases rule: cloneable.box_slice_clone_cases [OF assms, of l h]) auto
qed (simp add: box_slice_try_clone_def)

theorem box_slice_clone_spec_witness:
  "box_slice_try_clone (Layout 0 1) (\<lambda>x h. (Err (CloneOther ''never''), h)) [(), ()] (heap_with policy_nothing) =
     (Ok [(), ()], [], heap_with policy_nothing)"
proof -
  have "cloneable (\<lambda>x h. (Err (CloneOther ''never''), h)) (\<lambda>x::unit. x)"
    by unfold_locales auto
  from box_slice_clone_spec [OF this, of "[(), ()]" "Layout 0 1" "heap_with policy_nothing"] show ?thesis
    by (simp add: usize_max_def)
qed

end
