(* ===== verification/OsStrings.thy ===== *)
theory OsStrings
  imports Slices
begin

text \<open>
  Platform strings and C strings (\<^verbatim>\<open>std/ffi/os_string.rs\<close>, \<^verbatim>\<open>os_str.rs\<close>, \<^verbatim>\<open>alloc/ffi/c_string.rs\<close>,
  \<^verbatim>\<open>c_str.rs\<close>). On Unix an \<open>OsString\<close> is a vector of arbitrary bytes and an \<open>OsStr\<close> a slice of them; a
  \<open>CString\<close> is a boxed slice of bytes that ends with its only nul.
\<close>

section \<open>\<open>OsString\<close>\<close>

definition os_try_with_capacity :: "nat \<Rightarrow> heap \<Rightarrow> (try_reserve_error, byte vec) outcome \<times> heap" where
  "os_try_with_capacity capacity h =
     into_vec (if 0 < capacity then vec_try_reserve capacity (string_new, h) else (Ok (), (string_new, h)))"

text \<open>Reserve the length of the slice, unless it is empty, and copy it into a new string.\<close>

definition copied_bytes :: "byte list \<Rightarrow> heap \<Rightarrow> (try_reserve_error, byte vec) outcome \<times> heap" where
  "copied_bytes bs h =
     into_vec (and_then
       (if bs \<noteq> [] then vec_try_reserve (length bs) (string_new, h) else (Ok (), (string_new, h)))
       (\<lambda>_. append_bytes bs))"

definition os_try_from_os_str :: "byte list \<Rightarrow> heap \<Rightarrow> (try_reserve_error, byte vec) outcome \<times> heap" where
  "os_try_from_os_str s h = copied_bytes s h"

definition os_try_from_str :: "nat list \<Rightarrow> heap \<Rightarrow> (try_reserve_error, byte vec) outcome \<times> heap" where
  "os_try_from_str s h = copied_bytes (str_bytes s) h"

definition os_try_push :: "byte list \<Rightarrow> sstate \<Rightarrow> (sstate, try_reserve_error, unit) run" where
  "os_try_push bs s =
     and_then (if bs \<noteq> [] then vec_try_reserve (length bs) s else (Ok (), s)) (\<lambda>_. append_bytes bs)"

definition os_try_push_str :: "nat list \<Rightarrow> sstate \<Rightarrow> (sstate, try_reserve_error, unit) run" where
  "os_try_push_str cs s =
     and_then (if str_bytes cs \<noteq> [] then vec_try_reserve (length (str_bytes cs)) s else (Ok (), s))
       (\<lambda>_. append_bytes (str_bytes cs))"

text \<open>The bytes are taken out of the string, shrunk as a vector and put back.\<close>

definition os_try_shrink_to :: "nat \<Rightarrow> sstate \<Rightarrow> (sstate, try_reserve_error, unit) run" where
  "os_try_shrink_to min_capacity s = vec_try_shrink_to min_capacity s"

definition os_try_shrink_to_fit :: "sstate \<Rightarrow> (sstate, try_reserve_error, unit) run" where
  "os_try_shrink_to_fit s = os_try_shrink_to (vlen (fst s)) s"

definition os_try_into_string :: "byte vec \<Rightarrow> (byte vec, byte vec) outcome" where
  "os_try_into_string v = (if from_utf8_ok (items v) then Ok v else Err v)"

definition os_try_into_boxed_osstr :: "sstate \<Rightarrow> (try_reserve_error, byte list) outcome \<times> heap" where
  "os_try_into_boxed_osstr s =
     (case s of (v, h) \<Rightarrow>
        if items v = [] then (Ok [], h)
        else if cap v = vlen v then vec_into_boxed_slice s
        else case vec_try_shrink_to_fit s of
            (Ok _, s') \<Rightarrow> vec_into_boxed_slice s'
          | (Err e, (_, h')) \<Rightarrow> (Err e, h')
          | (Panic m, (_, h')) \<Rightarrow> (Panic m, h')
          | (UB, (_, h')) \<Rightarrow> (UB, h'))"

definition os_try_into_boxed_osstr_give_back ::
    "sstate \<Rightarrow> (byte vec \<times> try_reserve_error, byte list) outcome \<times> heap" where
  "os_try_into_boxed_osstr_give_back s =
     (case s of (v, h) \<Rightarrow>
        if items v = [] then (Ok [], h)
        else if cap v = vlen v then vec_into_boxed_slice s
        else case vec_try_shrink_to_fit s of
            (Ok _, s') \<Rightarrow> vec_into_boxed_slice s'
          | (Err e, (v', h')) \<Rightarrow> (Err (v', e), h')
          | (Panic m, (_, h')) \<Rightarrow> (Panic m, h')
          | (UB, (_, h')) \<Rightarrow> (UB, h'))"

definition os_try_clone :: "byte vec cloner" where
  "os_try_clone v h = (let (r, h') = copied_bytes (items v) h in (map_err CloneReserve r, h'))"

definition os_try_default :: "heap \<Rightarrow> (unit, byte vec) outcome \<times> heap" where
  "os_try_default h = (Ok string_new, h)"

section \<open>\<open>OsStr\<close>\<close>

definition osstr_try_to_os_string :: "byte list \<Rightarrow> heap \<Rightarrow> (try_reserve_error, byte vec) outcome \<times> heap" where
  "osstr_try_to_os_string s h = copied_bytes s h"

text \<open>\<open>make_ascii_uppercase\<close> and \<open>make_ascii_lowercase\<close> of a byte.\<close>

definition to_ascii_uppercase :: "byte \<Rightarrow> byte" where
  "to_ascii_uppercase b = (if 97 \<le> b \<and> b \<le> 122 then b - 32 else b)"

definition to_ascii_lowercase :: "byte \<Rightarrow> byte" where
  "to_ascii_lowercase b = (if 65 \<le> b \<and> b \<le> 90 then b + 32 else b)"

definition map_items :: "('a \<Rightarrow> 'a) \<Rightarrow> ('e, 'a vec) outcome \<times> heap \<Rightarrow> ('e, 'a vec) outcome \<times> heap" where
  "map_items f r = (map_ok (\<lambda>v. with_items (map f (items v)) v) (fst r), snd r)"

definition osstr_try_to_ascii_uppercase :: "byte list \<Rightarrow> heap \<Rightarrow> (try_reserve_error, byte vec) outcome \<times> heap" where
  "osstr_try_to_ascii_uppercase s h = map_items to_ascii_uppercase (osstr_try_to_os_string s h)"

definition osstr_try_to_ascii_lowercase :: "byte list \<Rightarrow> heap \<Rightarrow> (try_reserve_error, byte vec) outcome \<times> heap" where
  "osstr_try_to_ascii_lowercase s h = map_items to_ascii_lowercase (osstr_try_to_os_string s h)"

definition osstr_try_to_owned :: "byte list \<Rightarrow> heap \<Rightarrow> (to_owned_error, byte vec) outcome \<times> heap" where
  "osstr_try_to_owned s h = (let (r, h') = copied_bytes s h in (map_err OwnReserve r, h'))"

text \<open>A boxed slice allocates exactly its length.\<close>

definition box_osstr_try_clone :: "byte list cloner" where
  "box_osstr_try_clone bs h =
     (if bs = [] then (Ok [], h)
      else if isize_max < length bs then (Err (CloneReserve new_capacity_overflow), h)
      else let (ok, h') = galloc h
        in (if ok then Ok bs else Err (CloneReserve (new_alloc (Layout (length bs) 1))), h'))"

definition box_osstr_try_default :: "heap \<Rightarrow> (unit, byte list) outcome \<times> heap" where
  "box_osstr_try_default h = (Ok [], h)"

section \<open>\<open>CString\<close>\<close>

datatype cstring_error = CStringReserve try_reserve_error | Nul nat

text \<open>\<open>CString::from_vec_with_nul_unchecked\<close> turns the vector into a boxed slice, which reallocates
  infallibly when there is spare capacity.\<close>

definition from_vec_with_nul_unchecked :: "sstate \<Rightarrow> ('e, byte list) outcome \<times> heap" where
  "from_vec_with_nul_unchecked s = vec_into_boxed_slice s"

text \<open>The position of the first nul byte.\<close>

fun nul_position :: "byte list \<Rightarrow> nat option" where
  "nul_position [] = None"
| "nul_position (b # bs) = (if b = 0 then Some 0 else map_option Suc (nul_position bs))"

definition cstring_try_new :: "sstate \<Rightarrow> (cstring_error, byte list) outcome \<times> heap" where
  "cstring_try_new s =
     (case s of (buf, h) \<Rightarrow>
        case nul_position (items buf) of
          Some idx \<Rightarrow> (Err (Nul idx), h)
        | None \<Rightarrow>
            (case and_then (map_err_run CStringReserve (vec_try_reserve 1 s)) (\<lambda>_. vec_push 0) of
               (Ok _, s') \<Rightarrow> from_vec_with_nul_unchecked s'
             | (Err e, (_, h')) \<Rightarrow> (Err e, h')
             | (Panic m, (_, h')) \<Rightarrow> (Panic m, h')
             | (UB, (_, h')) \<Rightarrow> (UB, h')))"

definition cstring_try_new_give_back :: "sstate \<Rightarrow> (byte vec \<times> cstring_error, byte list) outcome \<times> heap" where
  "cstring_try_new_give_back s =
     (case s of (buf, h) \<Rightarrow>
        case nul_position (items buf) of
          Some idx \<Rightarrow> (Err (buf, Nul idx), h)
        | None \<Rightarrow>
            (case vec_try_reserve 1 s of
               (Ok _, s1) \<Rightarrow>
                 (case (vec_push 0 s1 :: (sstate, unit, unit) run) of
                    (Ok _, s') \<Rightarrow> from_vec_with_nul_unchecked s'
                  | (Err e, (_, h')) \<Rightarrow> (UB, h')
                  | (Panic m, (_, h')) \<Rightarrow> (Panic m, h')
                  | (UB, (_, h')) \<Rightarrow> (UB, h'))
             | (Err e, (buf', h')) \<Rightarrow> (Err (buf', CStringReserve e), h')
             | (Panic m, (_, h')) \<Rightarrow> (Panic m, h')
             | (UB, (_, h')) \<Rightarrow> (UB, h')))"

text \<open>\<open>CString::into_bytes_with_nul\<close> hands out the boxed slice as a vector of the same capacity.\<close>

definition into_bytes_with_nul :: "byte list \<Rightarrow> byte vec" where
  "into_bytes_with_nul bs = Vec bs (length bs) byte_layout"

definition cstring_try_into_boxed_cstr :: "byte list \<Rightarrow> heap \<Rightarrow> (cstring_error, byte list) outcome \<times> heap" where
  "cstring_try_into_boxed_cstr bs h =
     (case map_err_run CStringReserve (vec_try_shrink_to_fit (into_bytes_with_nul bs, h)) of
        (Ok _, s') \<Rightarrow> vec_into_boxed_slice s'
      | (Err e, (_, h')) \<Rightarrow> (Err e, h')
      | (Panic m, (_, h')) \<Rightarrow> (Panic m, h')
      | (UB, (_, h')) \<Rightarrow> (UB, h'))"

definition cstring_try_into_boxed_cstr_give_back ::
    "byte list \<Rightarrow> heap \<Rightarrow> (byte list \<times> cstring_error, byte list) outcome \<times> heap" where
  "cstring_try_into_boxed_cstr_give_back bs h =
     (case vec_try_shrink_to_fit (into_bytes_with_nul bs, h) of
        (Ok _, s') \<Rightarrow> vec_into_boxed_slice s'
      | (Err e, (v, h')) \<Rightarrow>
          (let (r, h'') = (from_vec_with_nul_unchecked (v, h') :: (unit, byte list) outcome \<times> heap)
           in (case r of Ok c \<Rightarrow> Err (c, CStringReserve e) | Err _ \<Rightarrow> UB | Panic m \<Rightarrow> Panic m | UB \<Rightarrow> UB, h''))
      | (Panic m, (_, h')) \<Rightarrow> (Panic m, h')
      | (UB, (_, h')) \<Rightarrow> (UB, h'))"

text \<open>\<open>try_to_vec\<close> of the bytes, whose clones never fail, and then the box.\<close>

definition byte_clone :: "byte cloner" where
  "byte_clone b h = (Ok b, h)"

definition with_nul_copied ::
    "(vec_clone_error \<Rightarrow> 'e) \<Rightarrow> byte list \<Rightarrow> heap \<Rightarrow> ('e, byte list) outcome \<times> heap" where
  "with_nul_copied err bs h =
     (case slice_try_to_vec byte_layout byte_clone bs h of
        (Ok v, h') \<Rightarrow> from_vec_with_nul_unchecked (v, h')
      | (Err e, h') \<Rightarrow> (Err (err e), h')
      | (Panic m, h') \<Rightarrow> (Panic m, h')
      | (UB, h') \<Rightarrow> (UB, h'))"

definition cstring_try_clone :: "byte list cloner" where
  "cstring_try_clone =
     with_nul_copied (\<lambda>e. case e of VecReserve r \<Rightarrow> CloneReserve r | VecClone c \<Rightarrow> c)"

text \<open>\<open>CString::new\<close> of the empty string allocates its nul byte infallibly.\<close>

definition cstring_try_default :: "heap \<Rightarrow> (unit, byte list) outcome \<times> heap" where
  "cstring_try_default h = (let (ok, h') = galloc h in (if ok then Ok [0] else Panic ''memory allocation failed'', h'))"

section \<open>\<open>CStr\<close>\<close>

definition cstr_try_to_owned :: "byte list \<Rightarrow> heap \<Rightarrow> (to_owned_error, byte list) outcome \<times> heap" where
  "cstr_try_to_owned =
     with_nul_copied (\<lambda>e. case e of VecReserve r \<Rightarrow> OwnReserve r | VecClone c \<Rightarrow> owned_of_clone c)"

definition box_cstr_try_clone :: "byte list cloner" where
  "box_cstr_try_clone bs h =
     (if isize_max < length bs then (Err (CloneReserve new_capacity_overflow), h)
      else let (ok, h') = galloc h
        in (if ok then Ok bs else Err (CloneReserve (new_alloc (Layout (length bs) 1))), h'))"

definition box_cstr_try_default :: "heap \<Rightarrow> (try_default_error, byte list) outcome \<times> heap" where
  "box_cstr_try_default h = (let (ok, h') = galloc h in (if ok then Ok [0] else Err (DefaultNoMemory AllocError), h'))"

end
