(* ===== verification/OsStringProps.thy ===== *)
theory OsStringProps
  imports OsStrings StringProps
begin

text \<open>
  What the platform and C string operations promise: copies are exact or fail with nothing made, and the
  one place where a fallible constructor still allocates infallibly.
\<close>

section \<open>Copies\<close>

lemma vec_ok_bytes [simp]: "vec_ok string_new"
  by (simp add: string_new_def byte_layout_def)

lemma with_items_self [simp]: "with_items (items v) v = v"
  by (cases v) (simp add: with_items_def)

lemma append_bytes_Nil [simp]: "append_bytes [] s = (Ok (), s)"
  by (cases s) (simp add: append_bytes_def)

lemma items_string_new [simp]: "items string_new = []"
  by (simp add: string_new_def)

lemma copied_bytes_cases:
  obtains (copied) v h' where "copied_bytes bs h = (Ok v, h')" and "items v = bs" and "vec_ok v"
  | (failed) e h' where "copied_bytes bs h = (Err e, h')"
proof (cases "bs = []")
  case True
  then show thesis
    using copied [of string_new h] by (simp add: copied_bytes_def into_vec_def)
next
  case False
  have ok: "vec_ok string_new" by simp
  show thesis
  proof (cases rule: vec_try_reserve_cases [OF ok, of "length bs" h])
    case (1 v' h')
    then show thesis
      using False copied [of "with_items (items v' @ bs) v'" h']
      by (simp add: copied_bytes_def append_bytes_room vec_ok_with_items into_vec_def string_new_def)
  next
    case (2 e h')
    then show thesis using False failed [of e h'] by (simp add: copied_bytes_def into_vec_def)
  qed
qed

lemma os_try_clone_exact: "fst (os_try_clone v h) = Ok w \<Longrightarrow> items w = items v"
  by (cases rule: copied_bytes_cases [of "items v" h]) (auto simp: os_try_clone_def)

text \<open>A string is handed over as a string exactly when its bytes are UTF-8; otherwise it comes back.\<close>

lemma os_into_string_utf8:
  "os_try_into_string v = (if \<exists>cs. list_all scalar cs \<and> items v = str_bytes cs then Ok v else Err v)"
  by (simp add: os_try_into_string_def from_utf8_ok_iff)

text \<open>A conversion into a boxed slice that gives back either succeeds with all bytes or returns the string.\<close>

lemma os_into_boxed_give_back:
  assumes "vec_ok v" and "os_try_into_boxed_osstr_give_back (v, h) = (r, h')"
  shows "r = Ok (items v) \<or> (\<exists>e. r = Err (v, e))"
proof (cases "items v = [] \<or> cap v = vlen v")
  case True
  then show ?thesis
    using assms(2) by (auto simp: os_try_into_boxed_osstr_give_back_def vec_into_boxed_slice_def split: if_splits)
next
  case False
  then show ?thesis
    using assms(2) by (cases rule: vec_try_shrink_to_cases [OF assms(1), of "vlen v" h])
      (auto simp: os_try_into_boxed_osstr_give_back_def vec_into_boxed_slice_def vec_try_shrink_to_fit_def)
qed

section \<open>C strings\<close>

lemma nul_position_Some:
  "nul_position bs = Some i \<Longrightarrow> i < length bs \<and> bs ! i = 0 \<and> 0 \<notin> set (take i bs)"
  by (induction bs arbitrary: i) (auto split: if_splits)

lemma nul_position_None: "nul_position bs = None \<longleftrightarrow> 0 \<notin> set bs"
  by (induction bs) auto

definition c_string :: "byte list \<Rightarrow> bool" where
  "c_string c \<longleftrightarrow> (\<exists>bs. c = bs @ [0] \<and> 0 \<notin> set bs)"

text \<open>A boxed C string has no spare capacity, so that turning it into another box never allocates.\<close>

lemma cstring_into_boxed:
  "cstring_try_into_boxed_cstr bs h = (Ok bs, h)" "cstring_try_into_boxed_cstr_give_back bs h = (Ok bs, h)"
  by (simp_all add: cstring_try_into_boxed_cstr_def cstring_try_into_boxed_cstr_give_back_def into_bytes_with_nul_def
      vec_try_shrink_to_fit_def vec_try_shrink_to_def vec_into_boxed_slice_def)

text \<open>Claim C25. \<open>CString::try_new\<close> rejects a buffer with a nul byte, with the position of the first one,
  before it touches the allocator; otherwise it answers the C string of the bytes or a failed reservation.
  But it can still abort: the terminated buffer becomes a boxed slice, and when spare capacity is left and
  the allocator refuses to give it back, the process aborts although the reservation succeeded.\<close>
theorem cstring_new_spec:
  assumes "vec_ok v" and "elem v = byte_layout"
  shows "case nul_position (items v) of
      Some i \<Rightarrow> i < vlen v \<and> items v ! i = 0 \<and> 0 \<notin> set (take i (items v)) \<and> cstring_try_new (v, h) = (Err (Nul i), h)
    | None \<Rightarrow>
        0 \<notin> set (items v) \<and>
        (case fst (cstring_try_new (v, h)) of
           Ok c \<Rightarrow> c = items v @ [0] \<and> c_string c
         | Err e \<Rightarrow> \<exists>r. e = CStringReserve r
         | Panic m \<Rightarrow> cap v \<noteq> Suc (vlen v)
         | UB \<Rightarrow> False) \<and>
        (Suc (vlen v) < cap v \<and> \<not> fst (grealloc h) \<longrightarrow>
           fst (cstring_try_new (v, h)) = Panic ''memory allocation failed'')"
proof (cases "nul_position (items v)")
  case (Some i)
  then show ?thesis using nul_position_Some [OF Some] by (simp add: cstring_try_new_def)
next
  case None
  have size: "lsize byte_layout \<noteq> 0" by (simp add: byte_layout_def)
  have nul: "0 \<notin> set (items v)" using None by (simp add: nul_position_None)
  have box: "(case fst (from_vec_with_nul_unchecked (with_items (items w @ [0]) w, k) :: (cstring_error, byte list) outcome \<times> heap) of
        Ok c \<Rightarrow> c = items w @ [0]
      | Err e \<Rightarrow> \<exists>r. e = CStringReserve r
      | Panic m \<Rightarrow> Suc (vlen w) < cap w
      | UB \<Rightarrow> False)" for w :: "byte vec" and k
    by (auto simp: from_vec_with_nul_unchecked_def vec_into_boxed_slice_def Let_def split: prod.splits)
  show ?thesis
  proof (cases "cap v - vlen v < 1")
    case False
    then have run: "cstring_try_new (v, h) = from_vec_with_nul_unchecked (with_items (items v @ [0]) v, h)"
      using None by (simp add: cstring_try_new_def vec_try_reserve_room vec_push_room)
    have "fst (cstring_try_new (v, h)) = Panic ''memory allocation failed''"
      if "Suc (vlen v) < cap v" and "\<not> fst (grealloc h)"
      unfolding run using that assms(2) size
      by (auto simp: from_vec_with_nul_unchecked_def vec_into_boxed_slice_def Let_def split: prod.splits)
    then show ?thesis
      using None nul box [of v h] unfolding run by (auto simp: c_string_def split: outcome.splits)
  next
    case full: True
    then have spare: "\<not> Suc (vlen v) < cap v" "cap v \<noteq> Suc (vlen v)" by linarith+
    show ?thesis
    proof (cases rule: vec_try_reserve_cases [OF assms(1), of 1 h])
      case (1 w k)
      then have "cstring_try_new (v, h) = from_vec_with_nul_unchecked (with_items (items w @ [0]) w, k)"
        using None by (simp add: cstring_try_new_def vec_push_room)
      then show ?thesis using None nul box [of w k] 1(3) spare by (auto simp: c_string_def split: outcome.splits)
    next
      case (2 e k)
      then show ?thesis using None nul spare by (simp add: cstring_try_new_def)
    qed
  qed
qed

theorem cstring_new_spec_witness:
  "fst (cstring_try_new (Vec [97] 8 byte_layout, heap_with policy_fail_all_realloc)) = Panic ''memory allocation failed''"
proof -
  let ?v = "Vec [97 :: byte] 8 byte_layout"
  have "vec_ok ?v" by (simp add: vec_ok_def byte_layout_def isize_max_def usize_max_def)
  moreover have "\<not> fst (grealloc (heap_with policy_fail_all_realloc))" by code_simp
  ultimately show ?thesis using cstring_new_spec [of ?v "heap_with policy_fail_all_realloc"] by simp
qed

end
