(* ===== verification/Paths.thy ===== *)
theory Paths
  imports OsStrings Extend
begin

text \<open>
  Paths: \<^verbatim>\<open>rustyfill/src/std/path/path_buf.rs\<close> and \<^verbatim>\<open>path.rs\<close>. A path is the bytes of an \<open>OsStr\<close>. How
  bytes split into components belongs to the platform and the standard library: it is a record of the
  functions the code calls, and the record of Unix is given in full below.
\<close>

section \<open>The standard library's view of a path\<close>

datatype prefix =
    Verbatim "byte list"
  | VerbatimUNC "byte list" "byte list"
  | VerbatimDisk byte
  | UNC "byte list" "byte list"
  | DeviceNS "byte list"
  | Disk byte

text \<open>A prefix component also holds the bytes it was parsed from.\<close>

datatype component =
    Prefix prefix "byte list"
  | RootDir
  | CurDir
  | ParentDir
  | Normal "byte list"

record platform =
  components :: "byte list \<Rightarrow> component list"
  is_separator :: "byte \<Rightarrow> bool"
  main_separator :: "byte list"
  is_absolute :: "byte list \<Rightarrow> bool"
  has_root :: "byte list \<Rightarrow> bool"
  file_name_at :: "byte list \<Rightarrow> (byte list \<times> nat) option"
  is_cygwin :: bool

text \<open>\<open>file_name_at\<close> is \<open>file_name\<close> with the index just past it in the path.\<close>

definition file_name :: "platform \<Rightarrow> byte list \<Rightarrow> byte list option" where
  "file_name P bs = map_option fst (file_name_at P bs)"

fun component_os_str :: "platform \<Rightarrow> component \<Rightarrow> byte list" where
  "component_os_str P (Prefix p raw) = raw"
| "component_os_str P RootDir = main_separator P"
| "component_os_str P CurDir = [46]"
| "component_os_str P ParentDir = [46, 46]"
| "component_os_str P (Normal bs) = bs"

subsection \<open>Unix\<close>

fun split_at :: "'a \<Rightarrow> 'a list \<Rightarrow> 'a list list" where
  "split_at sep [] = [[]]"
| "split_at sep (c # cs) =
     (if c = sep then [] # split_at sep cs else (c # hd (split_at sep cs)) # List.tl (split_at sep cs))"

fun join_with :: "'a list \<Rightarrow> 'a list list \<Rightarrow> 'a list" where
  "join_with sep [] = []"
| "join_with sep [p] = p"
| "join_with sep (p # ps) = p @ sep @ join_with sep ps"

definition slash :: byte where
  "slash = 47"

definition unix_has_root :: "byte list \<Rightarrow> bool" where
  "unix_has_root bs = (case bs of [] \<Rightarrow> False | b # _ \<Rightarrow> b = slash)"

text \<open>An empty piece or a dot yields no component, except for a dot at the very front.\<close>

definition piece_component :: "byte list \<Rightarrow> component option" where
  "piece_component p =
     (if p = [] \<or> p = [46] then None else if p = [46, 46] then Some ParentDir else Some (Normal p))"

definition unix_components :: "byte list \<Rightarrow> component list" where
  "unix_components bs =
     (if unix_has_root bs then [RootDir] else if hd (split_at slash bs) = [46] then [CurDir] else []) @
     List.map_filter piece_component (split_at slash bs)"

text \<open>The file name is the last piece that is not skipped, unless that is \<open>..\<close>.\<close>

definition unix_file_name_at :: "byte list \<Rightarrow> (byte list \<times> nat) option" where
  "unix_file_name_at bs =
     (let kept = rev (dropWhile (\<lambda>p. piece_component p = None) (rev (split_at slash bs)))
      in if kept = [] then None
         else case piece_component (last kept) of
             Some (Normal p) \<Rightarrow> Some (p, length (join_with [slash] kept))
           | _ \<Rightarrow> None)"

definition unix :: platform where
  "unix = \<lparr>components = unix_components, is_separator = (\<lambda>b. b = slash), main_separator = [slash],
     is_absolute = unix_has_root, has_root = unix_has_root, file_name_at = unix_file_name_at, is_cygwin = False\<rparr>"

section \<open>Prefixes\<close>

fun prefix_len :: "prefix \<Rightarrow> nat" where
  "prefix_len (Verbatim x) = saturating_add 4 (length x)"
| "prefix_len (VerbatimUNC x y) =
     (let len = saturating_add 8 (length x)
      in if 0 < length y then saturating_add (saturating_add len 1) (length y) else len)"
| "prefix_len (VerbatimDisk _) = 6"
| "prefix_len (UNC x y) =
     (let len = saturating_add 2 (length x)
      in if 0 < length y then saturating_add (saturating_add len 1) (length y) else len)"
| "prefix_len (DeviceNS x) = saturating_add 4 (length x)"
| "prefix_len (Disk _) = 2"

fun prefix_is_drive :: "prefix \<Rightarrow> bool" where
  "prefix_is_drive (Disk _) = True"
| "prefix_is_drive _ = False"

fun prefix_is_verbatim :: "prefix \<Rightarrow> bool" where
  "prefix_is_verbatim (Verbatim _) = True"
| "prefix_is_verbatim (VerbatimDisk _) = True"
| "prefix_is_verbatim (VerbatimUNC _ _) = True"
| "prefix_is_verbatim _ = False"

section \<open>Normalising a verbatim push\<close>

definition component_layout :: layout where
  "component_layout = Layout 56 8"

fun append_normalized :: "component list \<Rightarrow> component vstate \<Rightarrow> (component vstate, try_reserve_error, unit) run" where
  "append_normalized [] s = (Ok (), s)"
| "append_normalized (c # cs) (buf, h) =
     (case c of
        RootDir \<Rightarrow> and_then (vec_try_push c (vec_truncate 1 buf, h)) (\<lambda>_. append_normalized cs)
      | CurDir \<Rightarrow> append_normalized cs (buf, h)
      | ParentDir \<Rightarrow>
          (case rev (items buf) of
             Normal _ # _ \<Rightarrow> append_normalized cs (with_items (butlast (items buf)) buf, h)
           | _ \<Rightarrow> append_normalized cs (buf, h))
      | _ \<Rightarrow> and_then (vec_try_push c (buf, h)) (\<lambda>_. append_normalized cs))"

definition sep_after :: "component \<Rightarrow> bool" where
  "sep_after c =
     (case c of
        RootDir \<Rightarrow> False
      | Prefix p raw \<Rightarrow> \<not> prefix_is_drive p \<and> 0 < prefix_len p
      | _ \<Rightarrow> True)"

fun render_loop :: "platform \<Rightarrow> bool \<Rightarrow> component list \<Rightarrow> sstate \<Rightarrow> (sstate, try_reserve_error, unit) run" where
  "render_loop P need_sep [] s = (Ok (), s)"
| "render_loop P need_sep (c # cs) s =
     and_then
       (and_then (if need_sep \<and> c \<noteq> RootDir then os_try_push (main_separator P) s else (Ok (), s))
         (\<lambda>_. os_try_push (component_os_str P c)))
       (\<lambda>_. render_loop P (sep_after c) cs)"

definition render_components :: "platform \<Rightarrow> component list \<Rightarrow> heap \<Rightarrow> (try_reserve_error, byte vec) outcome \<times> heap" where
  "render_components P cs h = into_vec (render_loop P False cs (string_new, h))"

definition push_verbatim_normalized ::
    "platform \<Rightarrow> byte list \<Rightarrow> sstate \<Rightarrow> (sstate, try_reserve_error, unit) run" where
  "push_verbatim_normalized P path s =
     (case s of (target, h) \<Rightarrow>
        case vec_try_collect component_layout (Iter (components P (items target)) (\<lambda>_. (0, None))) h of
          (Ok buf, h1) \<Rightarrow>
            (case append_normalized (components P path) (buf, h1) of
               (Ok _, (buf', h2)) \<Rightarrow>
                 (case render_components P (items buf') h2 of
                    (Ok out, h3) \<Rightarrow> (Ok (), (out, h3))
                  | (r, h3) \<Rightarrow> (map_ok (\<lambda>_. ()) r, (target, h3)))
             | (r, (_, h2)) \<Rightarrow> (r, (target, h2)))
        | (r, h1) \<Rightarrow> (map_ok (\<lambda>_. ()) r, (target, h1)))"

definition truncate_to_prefix :: "nat \<Rightarrow> byte vec \<Rightarrow> byte vec" where
  "truncate_to_prefix plen target = vec_truncate plen target"

section \<open>Pushing\<close>

fun first_prefix :: "component list \<Rightarrow> prefix option" where
  "first_prefix [] = None"
| "first_prefix (Prefix p raw # cs) = Some p"
| "first_prefix (_ # cs) = first_prefix cs"

definition starts_with_prefix :: "component list \<Rightarrow> bool" where
  "starts_with_prefix cs = (case cs of Prefix p raw # _ \<Rightarrow> True | _ \<Rightarrow> False)"

definition need_separator :: "platform \<Rightarrow> byte list \<Rightarrow> bool" where
  "need_separator P bs =
     (case first_prefix (components P bs) of
        Some p \<Rightarrow>
          \<not> (0 < prefix_len p \<and> prefix_len p = length bs \<and> prefix_is_drive p) \<and> bs \<noteq> [] \<and> \<not> is_separator P (last bs)
      | None \<Rightarrow> bs \<noteq> [] \<and> \<not> is_separator P (last bs))"

definition need_clear :: "platform \<Rightarrow> byte list \<Rightarrow> bool" where
  "need_clear P path =
     (if is_cygwin P then starts_with_prefix (components P path)
      else is_absolute P path \<or> starts_with_prefix (components P path))"

definition inner_push :: "platform \<Rightarrow> byte list \<Rightarrow> sstate \<Rightarrow> (sstate, try_reserve_error, unit) run" where
  "inner_push P path s =
     (case s of (target, h) \<Rightarrow>
        let need_sep = need_separator P (items target)
        in if need_clear P path then os_try_push path (with_items [] target, h)
           else case first_prefix (components P (items target)) of
               Some p \<Rightarrow>
                 if prefix_is_verbatim p \<and> path \<noteq> [] then push_verbatim_normalized P path s
                 else os_try_push path s
             | None \<Rightarrow>
                 if has_root P path then os_try_push path (truncate_to_prefix 0 target, h)
                 else if need_sep then and_then (os_try_push (main_separator P) s) (\<lambda>_. os_try_push path)
                 else os_try_push path s)"

section \<open>\<open>PathBuf\<close>\<close>

datatype set_extension_error = SetExtReserve try_reserve_error | NoFileStem | SetExtSeparator

datatype add_extension_error = AddExtReserve try_reserve_error | AddExtSeparator

definition path_buf_new :: "byte vec" where
  "path_buf_new = string_new"

definition path_buf_try_from_path :: "byte list \<Rightarrow> heap \<Rightarrow> (try_reserve_error, byte vec) outcome \<times> heap" where
  "path_buf_try_from_path p h = copied_bytes p h"

definition path_buf_try_push :: "platform \<Rightarrow> byte list \<Rightarrow> sstate \<Rightarrow> (sstate, try_reserve_error, unit) run" where
  "path_buf_try_push P path s = inner_push P path s"

text \<open>\<open>file_stem\<close>: the name up to its last dot, or all of it when it has none or only a leading one.\<close>

definition stem_of :: "byte list \<Rightarrow> byte list" where
  "stem_of name =
     (let before = rev (List.tl (dropWhile (\<lambda>b. b \<noteq> 46) (rev name)))
      in if name = [46, 46] \<or> 46 \<notin> set name \<or> before = [] then name else before)"

text \<open>\<open>PathBuf::set_extension\<close> of the standard library, which grows infallibly.\<close>

definition std_set_extension :: "platform \<Rightarrow> byte list \<Rightarrow> sstate \<Rightarrow> (sstate, 'e, bool) run" where
  "std_set_extension P ext s =
     (case s of (v, h) \<Rightarrow>
        case file_name_at P (items v) of
          None \<Rightarrow> (Ok False, s)
        | Some (name, stop) \<Rightarrow>
            let v' = vec_truncate (stop - length name + length (stem_of name)) v
            in map_ok_run (\<lambda>_. True)
                 (if ext = [] then (Ok (), (v', h)) else append_bytes (46 # ext) (v', h)))"

definition path_buf_try_set_extension ::
    "platform \<Rightarrow> byte list \<Rightarrow> sstate \<Rightarrow> (sstate, set_extension_error, unit) run" where
  "path_buf_try_set_extension P ext s =
     (if file_name_at P (items (fst s)) = None then (Err NoFileStem, s)
      else if (\<exists>b \<in> set ext. is_separator P b) then (Err SetExtSeparator, s)
      else and_then
        (if ext \<noteq> [] then
           case checked_add (length ext) 1 of
             None \<Rightarrow> (Err (SetExtReserve new_capacity_overflow), s)
           | Some needed \<Rightarrow> map_err_run SetExtReserve (vec_try_reserve needed s)
         else (Ok (), s))
        (\<lambda>_ s'. map_ok_run (\<lambda>_. ()) (std_set_extension P ext s')))"

definition path_buf_try_add_extension ::
    "platform \<Rightarrow> byte list \<Rightarrow> sstate \<Rightarrow> (sstate, add_extension_error, bool) run" where
  "path_buf_try_add_extension P ext s =
     (if (\<exists>b \<in> set ext. is_separator P b) then (Err AddExtSeparator, s)
      else case file_name_at P (items (fst s)) of
          None \<Rightarrow> (Ok False, s)
        | Some (name, stop) \<Rightarrow>
            if ext = [] then (Ok True, s)
            else let bytes_to_truncate = vlen (fst s) - stop
                 in case checked_add (length ext) 1 of
                     None \<Rightarrow> (Err (AddExtReserve new_capacity_overflow), s)
                   | Some n \<Rightarrow>
                       let needed = n - bytes_to_truncate
                       in and_then
                            (if 0 < needed then map_err_run AddExtReserve (vec_try_reserve needed s) else (Ok (), s))
                            (\<lambda>_ (v, h). map_ok_run (\<lambda>_. True)
                               (and_then (append_bytes [46] (vec_truncate stop v, h)) (\<lambda>_. append_bytes ext))))"

definition path_buf_try_into_boxed_path :: "sstate \<Rightarrow> (try_reserve_error, byte list) outcome \<times> heap" where
  "path_buf_try_into_boxed_path s =
     (case os_try_shrink_to_fit s of
        (Ok _, s') \<Rightarrow> vec_into_boxed_slice s'
      | (Err e, (_, h')) \<Rightarrow> (Err e, h')
      | (Panic m, (_, h')) \<Rightarrow> (Panic m, h')
      | (UB, (_, h')) \<Rightarrow> (UB, h'))"

definition path_buf_try_into_boxed_path_give_back ::
    "sstate \<Rightarrow> (byte vec \<times> try_reserve_error, byte list) outcome \<times> heap" where
  "path_buf_try_into_boxed_path_give_back s =
     (case os_try_shrink_to_fit s of
        (Ok _, s') \<Rightarrow> vec_into_boxed_slice s'
      | (Err e, (p, h')) \<Rightarrow> (Err (p, e), h')
      | (Panic m, (_, h')) \<Rightarrow> (Panic m, h')
      | (UB, (_, h')) \<Rightarrow> (UB, h'))"

definition path_buf_try_clone :: "byte vec cloner" where
  "path_buf_try_clone v h = (let (r, h') = copied_bytes (items v) h in (map_err CloneReserve r, h'))"

definition path_buf_try_default :: "heap \<Rightarrow> (unit, byte vec) outcome \<times> heap" where
  "path_buf_try_default h = (Ok path_buf_new, h)"

section \<open>\<open>Path\<close>\<close>

datatype with_added_extension_error = WithExtReserve try_reserve_error | WithExtSeparator

fun with_added_of :: "add_extension_error \<Rightarrow> with_added_extension_error" where
  "with_added_of (AddExtReserve r) = WithExtReserve r"
| "with_added_of AddExtSeparator = WithExtSeparator"

definition path_try_to_path_buf :: "byte list \<Rightarrow> heap \<Rightarrow> (try_reserve_error, byte vec) outcome \<times> heap" where
  "path_try_to_path_buf p h = copied_bytes p h"

text \<open>Continue with the new vector as the state; an error drops it.\<close>

definition with_new ::
    "('e, 'a vec) outcome \<times> heap \<Rightarrow> ('a vstate \<Rightarrow> ('a vstate, 'e, 'b) run) \<Rightarrow> ('e, 'a vec) outcome \<times> heap" where
  "with_new r f =
     (case r of
        (Ok v, h) \<Rightarrow> into_vec (map_ok_run (\<lambda>_. ()) (f (v, h)))
      | (Err e, h) \<Rightarrow> (Err e, h)
      | (Panic m, h) \<Rightarrow> (Panic m, h)
      | (UB, h) \<Rightarrow> (UB, h))"

definition path_try_join ::
    "platform \<Rightarrow> byte list \<Rightarrow> byte list \<Rightarrow> heap \<Rightarrow> (try_reserve_error, byte vec) outcome \<times> heap" where
  "path_try_join P base child h = with_new (path_try_to_path_buf base h) (inner_push P child)"

definition path_try_with_added_extension ::
    "platform \<Rightarrow> byte list \<Rightarrow> byte list \<Rightarrow> heap \<Rightarrow> (with_added_extension_error, byte vec) outcome \<times> heap" where
  "path_try_with_added_extension P p ext h =
     with_new (case path_try_to_path_buf p h of (r, h') \<Rightarrow> (map_err WithExtReserve r, h'))
       (\<lambda>s. map_err_run with_added_of (path_buf_try_add_extension P ext s))"

definition box_path_try_clone :: "byte list cloner" where
  "box_path_try_clone bs h = box_osstr_try_clone bs h"

definition path_try_to_owned :: "byte list \<Rightarrow> heap \<Rightarrow> (to_owned_error, byte vec) outcome \<times> heap" where
  "path_try_to_owned p h = (let (r, h') = copied_bytes p h in (map_err OwnReserve r, h'))"

end
