(* ===== verification/PathProps.thy ===== *)
theory PathProps
  imports Paths OsStringProps
begin

text \<open>
  What the path operations do on Unix, over the components of the paths; what a failure leaves behind;
  and where a prefix makes them differ from the standard library.
\<close>

section \<open>Byte strings\<close>

lemma os_try_push_cases [consumes 1]:
  assumes "vec_ok v"
  obtains (pushed) v' h' where "os_try_push bs (v, h) = (Ok (), (v', h'))"
      and "items v' = items v @ bs" and "vec_ok v'"
  | (failed) e h' where "os_try_push bs (v, h) = (Err e, (v, h'))"
proof (cases "bs = []")
  case True
  then show thesis
    using pushed [of v h] append_bytes_room [of v "[]" h] assms by (simp add: os_try_push_def vec_ok_lenD with_items_def)
next
  case False
  show thesis
  proof (cases rule: vec_try_reserve_cases [OF assms, of "length bs" h])
    case (1 v' h')
    then show thesis
      using False pushed [of "with_items (items v' @ bs) v'" h']
      by (simp add: os_try_push_def append_bytes_room vec_ok_with_items)
  next
    case (2 e h')
    then show thesis using False failed [of e h'] by (simp add: os_try_push_def)
  qed
qed

lemma os_try_push_room:
  "vlen v + length bs \<le> cap v \<Longrightarrow> os_try_push bs (v, h) = (Ok (), (with_items (items v @ bs) v, h))"
  by (simp add: os_try_push_def vec_try_reserve_room append_bytes_room)

section \<open>Pieces of a path\<close>

lemma split_at_not_Nil [simp]: "split_at sep xs \<noteq> []"
  by (induction xs) auto

lemma split_at_sep: "split_at sep (xs @ sep # ys) = split_at sep xs @ split_at sep ys"
  by (induction xs) auto

lemma split_at_append:
  "split_at sep (xs @ ys) =
    butlast (split_at sep xs) @ (last (split_at sep xs) @ hd (split_at sep ys)) # List.tl (split_at sep ys)"
proof (induction xs)
  case Nil
  then show ?case by simp
next
  case (Cons x xs)
  obtain p ps where "split_at sep xs = p # ps" by (cases "split_at sep xs") auto
  with Cons show ?case by (cases ps) auto
qed

lemma split_at_none: "sep \<notin> set xs \<Longrightarrow> split_at sep xs = [xs]"
  by (induction xs) auto

lemma split_at_free: "p \<in> set (split_at sep xs) \<Longrightarrow> sep \<notin> set p"
proof (induction xs arbitrary: p)
  case (Cons x xs)
  then show ?case
    by (cases "split_at sep xs") (auto split: if_splits)
qed simp

lemma join_with_Cons: "ps \<noteq> [] \<Longrightarrow> join_with sep (p # ps) = p @ sep @ join_with sep ps"
  by (cases ps) auto

lemma join_split [simp]: "join_with [sep] (split_at sep xs) = xs"
proof (induction xs)
  case (Cons x xs)
  then show ?case
    by (cases "split_at sep xs"; cases "List.tl (split_at sep xs)") (auto simp: join_with_Cons)
qed simp

lemma split_join:
  "ps \<noteq> [] \<Longrightarrow> \<forall>p \<in> set ps. sep \<notin> set p \<Longrightarrow> split_at sep (join_with [sep] ps) = ps"
  by (induction ps rule: induct_list012) (simp_all add: split_at_none split_at_sep)

lemma join_with_append:
  "ps \<noteq> [] \<Longrightarrow> qs \<noteq> [] \<Longrightarrow> join_with sep (ps @ qs) = join_with sep ps @ sep @ join_with sep qs"
  by (induction ps rule: induct_list012) (auto simp: join_with_Cons)

text \<open>A suffix without separators only changes the last piece.\<close>

lemma split_at_suffix:
  "sep \<notin> set ys \<Longrightarrow> split_at sep (xs @ ys) = butlast (split_at sep xs) @ [last (split_at sep xs) @ ys]"
  by (simp add: split_at_append split_at_none)

section \<open>Components on Unix\<close>

abbreviation pieces :: "byte list \<Rightarrow> byte list list" where
  "pieces \<equiv> split_at slash"

lemma piece_component_ne [simp]:
  "piece_component p \<noteq> Some CurDir" "piece_component p \<noteq> Some (Prefix q r)" "piece_component p \<noteq> Some RootDir"
  by (simp_all add: piece_component_def)

lemma map_filter_append [simp]: "List.map_filter f (xs @ ys) = List.map_filter f xs @ List.map_filter f ys"
  by (simp add: List.map_filter_def)

lemma map_filter_pieces:
  "c \<in> set (List.map_filter piece_component ps) \<Longrightarrow> c = ParentDir \<or> (\<exists>p. c = Normal p)"
  by (auto simp: List.map_filter_def piece_component_def split: if_splits)

lemma unix_no_prefix [simp]: "first_prefix (unix_components bs) = None" "\<not> starts_with_prefix (unix_components bs)"
proof -
  have none: "first_prefix cs = None" if "\<forall>c \<in> set cs. c = ParentDir \<or> (\<exists>p. c = Normal p)" for cs
    using that by (induction cs) auto
  have "first_prefix (List.map_filter piece_component ps) = None" for ps
    using map_filter_pieces by (intro none) blast
  then show "first_prefix (unix_components bs) = None" by (simp add: unix_components_def)
  have "\<not> starts_with_prefix (List.map_filter piece_component ps)" for ps
    using map_filter_pieces [of _ ps]
    by (cases "List.map_filter piece_component ps") (fastforce simp: starts_with_prefix_def)+
  then show "\<not> starts_with_prefix (unix_components bs)" by (simp add: unix_components_def starts_with_prefix_def)
qed

definition unix_joined :: "byte list \<Rightarrow> byte list \<Rightarrow> byte list" where
  "unix_joined base child =
     (if unix_has_root child then child
      else if base = [] \<or> last base = slash then base @ child
      else base @ slash # child)"

lemma unix_has_root_append: "xs \<noteq> [] \<Longrightarrow> unix_has_root (xs @ ys) = unix_has_root xs"
  by (cases xs) (auto simp: unix_has_root_def)

text \<open>The components of a joined path are those of the base and then those of the child, less its
  leading dot.\<close>

lemma filter_cur_dir:
  "\<not> unix_has_root child \<Longrightarrow>
   filter (\<lambda>c. c \<noteq> CurDir) (unix_components child) = List.map_filter piece_component (pieces child)"
proof -
  assume "\<not> unix_has_root child"
  moreover have "filter (\<lambda>c. c \<noteq> CurDir) (List.map_filter piece_component ps) = List.map_filter piece_component ps" for ps
    using map_filter_pieces [of _ ps] by (fastforce intro!: filter_True)
  ultimately show ?thesis by (simp add: unix_components_def)
qed

lemma components_joined:
  assumes "\<not> unix_has_root child" and "base \<noteq> []"
  shows "unix_components (unix_joined base child) =
    unix_components base @ filter (\<lambda>c. c \<noteq> CurDir) (unix_components child)"
proof -
  obtain b0 where b0: "unix_joined base child = b0 @ slash # child"
      and base: "base = b0 \<or> base = b0 @ [slash]"
  proof (cases "last base = slash")
    case True
    then have "base = butlast base @ [slash]" using assms(2) append_butlast_last_id by metis
    then show thesis
      using that [of "butlast base"] assms True by (metis unix_joined_def append.assoc append_Cons append_Nil)
  next
    case False
    then show thesis using that [of base] assms by (simp add: unix_joined_def)
  qed
  have "pieces base = pieces b0 \<or> pieces base = pieces b0 @ [[]]" using base by (auto simp: split_at_sep)
  then have parts: "List.map_filter piece_component (pieces base) = List.map_filter piece_component (pieces b0)"
      and front: "hd (pieces base) = hd (pieces b0)"
    by (auto simp: List.map_filter_def piece_component_def)
  have root: "unix_has_root (b0 @ slash # child) = unix_has_root base"
    using base assms(2) unix_has_root_append [of base] b0
    by (metis append.assoc append_Cons append_Nil)
  show ?thesis
    unfolding b0 filter_cur_dir [OF assms(1)]
    by (simp add: unix_components_def root split_at_sep parts front)
qed

section \<open>Pushing\<close>

lemma unix_simps [simp]:
  "components unix = unix_components" "is_separator unix b = (b = slash)" "main_separator unix = [slash]"
  "is_absolute unix = unix_has_root" "has_root unix = unix_has_root" "file_name_at unix = unix_file_name_at"
  "is_cygwin unix = False"
  by (simp_all add: unix_def)

lemma inner_push_unix:
  "inner_push unix child (v, h) =
     (if unix_has_root child then os_try_push child (with_items [] v, h)
      else if items v \<noteq> [] \<and> last (items v) \<noteq> slash
      then and_then (os_try_push [slash] (v, h)) (\<lambda>_. os_try_push child)
      else os_try_push child (v, h))"
  by (simp add: inner_push_def need_clear_def need_separator_def Let_def)

lemma inner_push_unix_cases [consumes 1]:
  assumes "vec_ok v"
  obtains (pushed) v' h' where "inner_push unix child (v, h) = (Ok (), (v', h'))"
      and "items v' = unix_joined (items v) child" and "vec_ok v'"
  | (failed) e v' h' where "inner_push unix child (v, h) = (Err e, (v', h'))" and "vec_ok v'"
      and "if unix_has_root child then items v' = [] else items v' = items v \<or> items v' = items v @ [slash]"
proof -
  consider (root) "unix_has_root child"
    | (sep) "\<not> unix_has_root child" "items v \<noteq> [] \<and> last (items v) \<noteq> slash"
    | (plain) "\<not> unix_has_root child" "\<not> (items v \<noteq> [] \<and> last (items v) \<noteq> slash)" by blast
  then show thesis
  proof cases
    case root
    have ok: "vec_ok (with_items [] v)" using assms by (simp add: vec_ok_with_items)
    show thesis
      by (cases rule: os_try_push_cases [OF ok, of child h])
        (use root ok that in \<open>auto simp: inner_push_unix unix_joined_def\<close>)
  next
    case plain
    then show thesis
      by (cases rule: os_try_push_cases [OF assms, of child h])
        (use that assms in \<open>auto simp: inner_push_unix unix_joined_def\<close>)
  next
    case sep
    show thesis
    proof (cases rule: os_try_push_cases [OF assms, of "[slash]" h])
      case (1 v1 h1)
      show thesis
        by (cases rule: os_try_push_cases [OF 1(3), of child h1])
          (use 1 sep that in \<open>auto simp: inner_push_unix unix_joined_def\<close>)
    next
      case (2 e h1)
      then show thesis using sep that(2) [of e v h1] assms by (simp add: inner_push_unix)
    qed
  qed
qed

text \<open>Claim C26. On Unix \<open>PathBuf::try_push\<close> joins paths as \<open>PathBuf::push\<close> does: on success an absolute
  path replaces the old one, and a relative path appends its components, less a leading dot, to those of
  the old path. It never panics. A failure is not free of effects, although the module promises to
  reserve before it mutates: after a failed push of an absolute path the old path is gone, and after a
  failed push of a relative one a separator may have been added.\<close>
theorem path_push_spec:
  assumes "vec_ok v" and "path_buf_try_push unix child (v, h) = (r, (v', h'))"
  shows "vec_ok v' \<and>
    (case r of
       Ok _ \<Rightarrow>
         items v' = unix_joined (items v) child \<and>
         unix_components (items v') =
           (if unix_has_root child \<or> items v = [] then unix_components child
            else unix_components (items v) @ filter (\<lambda>c. c \<noteq> CurDir) (unix_components child))
     | Err e \<Rightarrow> if unix_has_root child then items v' = [] else items v' = items v \<or> items v' = items v @ [slash]
     | Panic m \<Rightarrow> False
     | UB \<Rightarrow> False)"
proof (cases rule: inner_push_unix_cases [OF assms(1), of child h])
  case (1 w k)
  then have "items v' = unix_joined (items v) child" and "r = Ok ()" and "vec_ok v'"
    using assms(2) by (simp_all add: path_buf_try_push_def)
  then show ?thesis using components_joined [of child "items v"] by (auto simp: unix_joined_def)
next
  case (2 e w k)
  then have "r = Err e" and "v' = w" using assms(2) by (simp_all add: path_buf_try_push_def)
  with 2 show ?thesis by simp
qed

lemma path_example_ok: "vec_ok (Vec [97] 8 byte_layout)"
  by (simp add: vec_ok_def byte_layout_def isize_max_def usize_max_def)

theorem path_push_spec_witness:
  "\<exists>v' h'. path_buf_try_push unix [46, slash, 98] (Vec [97] 8 byte_layout, heap_with policy_nothing) = (Ok (), (v', h')) \<and>
     items v' = [97, slash, 46, slash, 98] \<and> unix_components (items v') = [Normal [97], Normal [98]]"
proof -
  let ?s = "(Vec [97] 8 byte_layout, heap_with policy_nothing)"
  have root: "\<not> unix_has_root [46, slash, 98]" by code_simp
  then obtain v' h' where run: "path_buf_try_push unix [46, slash, 98] ?s = (Ok (), (v', h'))"
    by (auto simp: path_buf_try_push_def inner_push_unix os_try_push_room slash_def)
  have "unix_joined [97] [46, slash, 98] = [97, slash, 46, slash, 98]" by code_simp
  moreover have "unix_components [97] @ filter (\<lambda>c. c \<noteq> CurDir) (unix_components [46, slash, 98]) = [Normal [97], Normal [98]]"
    by code_simp
  ultimately show ?thesis
    using path_push_spec [OF path_example_ok run] run root by (intro exI [of _ v'] exI [of _ h']) auto
qed

section \<open>Prefixes\<close>

text \<open>What \<open>PathBuf::push\<close> of the standard library makes of a path whose prefix is not verbatim.\<close>

definition std_joined :: "platform \<Rightarrow> byte list \<Rightarrow> byte list \<Rightarrow> byte list" where
  "std_joined P base child =
     (if need_clear P child then child
      else if has_root P child
      then take (case first_prefix (components P base) of Some p \<Rightarrow> prefix_len p | None \<Rightarrow> 0) base @ child
      else if need_separator P base then base @ main_separator P @ child
      else base @ child)"

text \<open>Claim C27. On a platform with prefixes, such as Windows, a relative path pushed onto a path with a
  prefix that is not verbatim is glued to it without a separator, where the standard library separates
  them; a path with a root but no prefix is glued to the whole old path, where the standard library keeps
  the prefix alone.\<close>
theorem path_push_glues:
  assumes "vec_ok v" and "first_prefix (components P (items v)) = Some p" and "\<not> prefix_is_verbatim p"
    and "\<not> need_clear P child" and "path_buf_try_push P child (v, h) = (Ok (), (v', h'))"
  shows "items v' = items v @ child \<and>
    (\<not> has_root P child \<and> need_separator P (items v) \<longrightarrow>
       std_joined P (items v) child = items v @ main_separator P @ child) \<and>
    (has_root P child \<longrightarrow> std_joined P (items v) child = take (prefix_len p) (items v) @ child)"
proof -
  have "path_buf_try_push P child (v, h) = os_try_push child (v, h)"
    using assms(2-4) by (simp add: path_buf_try_push_def inner_push_def Let_def)
  moreover have "items v' = items v @ child"
    by (cases rule: os_try_push_cases [OF assms(1), of child h]) (use assms(5) calculation in auto)
  ultimately show ?thesis using assms(2,4) by (simp add: std_joined_def)
qed

text \<open>A platform of drive letters: \<open>C:\\a\<close>.\<close>

definition drive_platform :: platform where
  "drive_platform = \<lparr>
     components = (\<lambda>bs. case bs of
        d # c # tail \<Rightarrow>
          if c = 58 then Prefix (Disk d) [d, c] # (if tail \<noteq> [] \<and> hd tail = 92 then [RootDir, Normal (List.tl tail)] else [Normal tail])
          else [Normal bs]
      | _ \<Rightarrow> [Normal bs]),
     is_separator = (\<lambda>b. b = 92), main_separator = [92],
     is_absolute = (\<lambda>bs. 3 \<le> length bs \<and> bs ! 1 = 58 \<and> bs ! 2 = 92),
     has_root = (\<lambda>bs. bs \<noteq> [] \<and> hd bs = 92), file_name_at = (\<lambda>_. None), is_cygwin = False\<rparr>"

theorem path_push_glues_witness:
  "\<exists>v' h'. path_buf_try_push drive_platform [98] (Vec [67, 58, 92, 97] 8 byte_layout, heap_with policy_nothing) = (Ok (), (v', h')) \<and>
     items v' = [67, 58, 92, 97, 98] \<and> std_joined drive_platform [67, 58, 92, 97] [98] = [67, 58, 92, 97, 92, 98]"
proof -
  let ?v = "Vec [67, 58, 92, 97] 8 byte_layout" let ?s = "(?v, heap_with policy_nothing)"
  have ok: "vec_ok ?v" by (simp add: vec_ok_def byte_layout_def isize_max_def usize_max_def)
  have facts: "first_prefix (components drive_platform (items ?v)) = Some (Disk 67)" "\<not> need_clear drive_platform [98]"
    "\<not> has_root drive_platform [98]" "need_separator drive_platform (items ?v)" "main_separator drive_platform = [92]"
    by code_simp+
  then obtain v' h' where run: "path_buf_try_push drive_platform [98] ?s = (Ok (), (v', h'))"
    by (auto simp: path_buf_try_push_def inner_push_def os_try_push_room)
  show ?thesis
    using path_push_glues [OF ok facts(1) _ facts(2) run] run facts(3-5) by (intro exI [of _ v'] exI [of _ h']) simp
qed

section \<open>Extensions\<close>

lemma piece_Normal: "piece_component p = Some (Normal q) \<longleftrightarrow> q = p \<and> p \<noteq> [] \<and> p \<noteq> [46] \<and> p \<noteq> [46, 46]"
  by (auto simp: piece_component_def)

lemma map_filter_None: "\<forall>x \<in> set xs. f x = None \<Longrightarrow> List.map_filter f xs = []"
  by (simp add: List.map_filter_def)

lemma unix_file_name_cases:
  assumes "unix_file_name_at bs = Some (name, stop)"
  obtains ks skipped where "pieces bs = ks @ name # skipped" and "\<forall>p \<in> set skipped. piece_component p = None"
    and "piece_component name = Some (Normal name)" and "take stop bs = join_with [slash] (ks @ [name])"
    and "stop \<le> length bs"
proof -
  let ?none = "\<lambda>p. piece_component p = None"
  let ?t = "rev (takeWhile ?none (rev (pieces bs)))"
  define kept where "kept = rev (dropWhile ?none (rev (pieces bs)))"
  have split: "pieces bs = kept @ ?t" by (simp add: kept_def flip: rev_append)
  have at: "unix_file_name_at bs =
      (if kept = [] then None
       else case piece_component (last kept) of Some (Normal p) \<Rightarrow> Some (p, length (join_with [slash] kept)) | _ \<Rightarrow> None)"
    unfolding unix_file_name_at_def kept_def Let_def by (rule refl)
  then have ne: "kept \<noteq> []" and last: "piece_component (last kept) = Some (Normal name)"
    and stop: "stop = length (join_with [slash] kept)"
    using assms by (auto split: if_splits option.splits component.splits)
  define ks where "ks = butlast kept"
  have "last kept = name" using last by (simp add: piece_Normal)
  then have kept: "kept = ks @ [name]" using append_butlast_last_id [OF ne] by (simp add: ks_def)
  have normal: "piece_component name = Some (Normal name)" using last by (simp add: piece_Normal)
  have skipped: "\<forall>p \<in> set ?t. ?none p" by (auto dest: set_takeWhileD)
  have "bs = join_with [slash] (kept @ ?t)" using split join_split [of slash bs] by simp
  then obtain more where "bs = join_with [slash] kept @ more"
    using ne by (cases "?t = []") (auto simp: join_with_append)
  then have "take stop bs = join_with [slash] kept \<and> stop \<le> length bs" using stop by simp
  then show thesis using that [of ks ?t] split kept normal skipped by simp
qed

text \<open>Cutting a path just past its file name and extending the name.\<close>

lemma extended_name:
  assumes name: "unix_file_name_at bs = Some (name, stop)" and ext: "slash \<notin> set ext"
  shows "file_name unix (take stop bs @ 46 # ext) = Some (name @ 46 # ext) \<and>
    unix_components bs = butlast (unix_components bs) @ [Normal name] \<and>
    unix_components (take stop bs @ 46 # ext) = butlast (unix_components bs) @ [Normal (name @ 46 # ext)]"
proof (cases rule: unix_file_name_cases [OF name])
  case (1 ks skipped)
  let ?new = "name @ 46 # ext" and ?bs = "take stop bs @ 46 # ext"
  have "\<forall>p \<in> set (ks @ [name]). slash \<notin> set p"
    using split_at_free [of _ slash bs] 1(1) by auto
  then have cut_pieces: "pieces (take stop bs) = ks @ [name]" using 1(4) by (simp add: split_join)
  then have new_pieces: "pieces ?bs = ks @ [?new]"
    using ext by (subst split_at_suffix) (simp_all add: slash_def)
  have ne: "name \<noteq> []" "name \<noteq> [46]" using 1(3) by (simp_all add: piece_Normal)
  then have new: "piece_component ?new = Some (Normal ?new)"
    by (cases name; cases "List.tl name") (auto simp: piece_Normal)
  have "take stop bs \<noteq> []"
  proof
    assume e: "take stop bs = []"
    have "ks @ [name] = [[]]" using cut_pieces unfolding e by simp
    then show False using ne by (cases ks) auto
  qed
  then have root: "unix_has_root ?bs = unix_has_root bs"
    using unix_has_root_append [of "take stop bs"] by (metis append_take_drop_id)
  have front: "hd (pieces ?bs) = [46] \<longleftrightarrow> hd (pieces bs) = [46]"
    using 1(1) new_pieces ne by (cases ks; cases name) auto
  have "List.map_filter piece_component skipped = []" using 1(2) by (rule map_filter_None)
  then have old: "unix_components bs =
      (if unix_has_root bs then [RootDir] else if hd (pieces bs) = [46] then [CurDir] else []) @
      List.map_filter piece_component ks @ [Normal name]"
    using 1(1,3) by (simp add: unix_components_def List.map_filter_simps)
  moreover have "unix_components ?bs =
      (if unix_has_root bs then [RootDir] else if hd (pieces bs) = [46] then [CurDir] else []) @
      List.map_filter piece_component ks @ [Normal ?new]"
    using new front by (simp add: unix_components_def root new_pieces List.map_filter_simps)
  moreover have "file_name unix ?bs = Some ?new"
    by (simp add: file_name_def unix_file_name_at_def new_pieces new)
  ultimately show ?thesis by (simp add: butlast_append)
qed

text \<open>With a file name and a proper extension, either the reservation fails or the path is extended.\<close>

lemma add_extension_named:
  assumes ok: "vec_ok v" and at: "unix_file_name_at (items v) = Some (name, stop)"
    and free: "slash \<notin> set ext" and ext: "ext \<noteq> []"
    and run: "path_buf_try_add_extension unix ext (v, h) = (r, (v', h'))"
  shows "(\<exists>e. r = Err (AddExtReserve e)) \<and> v' = v \<or>
    r = Ok True \<and> vec_ok v' \<and> items v' = take stop (items v) @ 46 # ext"
proof -
  let ?cut = "vlen v - stop" let ?needed = "length ext + 1 - ?cut"
  have stop: "stop \<le> vlen v" by (cases rule: unix_file_name_cases [OF at]) simp
  show ?thesis
  proof (cases "length ext + 1 \<le> usize_max")
    case False
    then show ?thesis using run at free ext by (auto simp: path_buf_try_add_extension_def checked_add_def Let_def)
  next
    case True
    let ?tail = "(\<lambda>_ (v, h). map_ok_run (\<lambda>_. True) (and_then (append_bytes [46] (vec_truncate stop v, h)) (\<lambda>_. append_bytes ext)))
        :: unit \<Rightarrow> sstate \<Rightarrow> (sstate, add_extension_error, bool) run"
    have run': "and_then (if 0 < ?needed then map_err_run AddExtReserve (vec_try_reserve ?needed (v, h)) else (Ok (), (v, h))) ?tail
        = (r, (v', h'))"
      using run at free ext True by (auto simp: path_buf_try_add_extension_def checked_add_def Let_def)
    have tail: "?tail () (w, k) = (Ok True, (with_items (take stop (items v) @ 46 # ext) w, k))"
      if "items w = items v" and "vlen v + ?needed \<le> cap w" for w k
    proof -
      have "stop + length ext + 1 \<le> cap w" using that stop by linarith
      then have "append_bytes [46] (vec_truncate stop w, k) =
          ((Ok () :: (add_extension_error, unit) outcome), (with_items (take stop (items v) @ [46]) w, k))"
        and "append_bytes ext (with_items (take stop (items v) @ [46]) w, k) =
          ((Ok () :: (add_extension_error, unit) outcome), (with_items (take stop (items v) @ 46 # ext) w, k))"
        using that(1) stop by (simp_all add: append_bytes_room vec_truncate_def)
      then show ?thesis by simp
    qed
    show ?thesis
    proof (cases rule: vec_try_reserve_cases [OF ok, of ?needed h])
      case (1 w k)
      have "and_then (if 0 < ?needed then map_err_run AddExtReserve (vec_try_reserve ?needed (v, h)) else (Ok (), (v, h))) ?tail
          = (Ok True, (with_items (take stop (items v) @ 46 # ext) u, l))"
        if "u = (if 0 < ?needed then w else v)" and "l = (if 0 < ?needed then k else h)" for u l
        using that 1 tail [of u l] ok by (auto simp: vec_ok_lenD)
      then have "r = Ok True" and "v' = with_items (take stop (items v) @ 46 # ext) (if 0 < ?needed then w else v)"
        using run' by simp_all
      moreover have "length (take stop (items v) @ 46 # ext) \<le> cap (if 0 < ?needed then w else v)"
        using 1(5) stop vec_ok_lenD [OF ok] by (auto simp: min_def)
      ultimately show ?thesis using 1(2) ok by (auto intro: vec_ok_with_items)
    next
      case (2 e k)
      show ?thesis
      proof (cases "0 < ?needed")
        case True
        then show ?thesis using run' 2 by auto
      next
        case False
        then show ?thesis using run' tail [of v h] stop vec_ok_lenD [OF ok] ok
          by (auto simp: min_def intro!: vec_ok_with_items)
      qed
    qed
  qed
qed

text \<open>Claim C28. On Unix \<open>try_add_extension\<close> replaces the last component, the file name, by the name with a
  dot and the extension and keeps all other components; it answers false exactly when the path has no file
  name and leaves the path alone then, for an empty extension, and on every error; it never panics: once
  the reservation has succeeded the two appends need no memory.\<close>
theorem path_add_extension_spec:
  assumes ok: "vec_ok v" and run: "path_buf_try_add_extension unix ext (v, h) = (r, (v', h'))"
  shows "vec_ok v' \<and>
    (case r of
       Ok b \<Rightarrow>
         slash \<notin> set ext \<and> (b \<longleftrightarrow> file_name unix (items v) \<noteq> None) \<and>
         (\<forall>name. file_name unix (items v) = Some name \<and> ext \<noteq> [] \<longrightarrow>
            file_name unix (items v') = Some (name @ 46 # ext) \<and>
            unix_components (items v') = butlast (unix_components (items v)) @ [Normal (name @ 46 # ext)]) \<and>
         (file_name unix (items v) = None \<or> ext = [] \<longrightarrow> items v' = items v)
     | Err AddExtSeparator \<Rightarrow> slash \<in> set ext \<and> v' = v
     | Err (AddExtReserve e) \<Rightarrow> v' = v
     | Panic m \<Rightarrow> False
     | UB \<Rightarrow> False)"
proof (cases "slash \<in> set ext")
  case True
  then show ?thesis using assms by (auto simp: path_buf_try_add_extension_def)
next
  case free: False
  show ?thesis
  proof (cases "unix_file_name_at (items v)")
    case None
    then show ?thesis using free assms by (auto simp: path_buf_try_add_extension_def file_name_def)
  next
    case (Some np)
    obtain name stop where np: "np = (name, stop)" by (cases np)
    note at = Some [unfolded np]
    show ?thesis
    proof (cases "ext = []")
      case True
      then show ?thesis using at assms by (auto simp: path_buf_try_add_extension_def file_name_def)
    next
      case ext: False
      then show ?thesis using add_extension_named [OF ok at free ext run] at extended_name [OF at free] ok
        by (auto simp: file_name_def free split: outcome.splits add_extension_error.splits)
    qed
  qed
qed

theorem path_add_extension_spec_witness:
  "\<exists>v' h'. path_buf_try_add_extension unix [120, 122] (Vec [97, slash, 98, slash] 8 byte_layout, heap_with policy_nothing) =
       (Ok True, (v', h')) \<and>
     unix_components (items v') = [Normal [97], Normal [98, 46, 120, 122]]"
proof -
  let ?v = "Vec [97, slash, 98, slash] 8 byte_layout" let ?s = "(?v, heap_with policy_nothing)"
  have ok: "vec_ok ?v" by (simp add: vec_ok_def byte_layout_def isize_max_def usize_max_def)
  obtain r v' h' where run: "path_buf_try_add_extension unix [120, 122] ?s = (r, (v', h'))"
    by (cases "path_buf_try_add_extension unix [120, 122] ?s") auto
  have facts: "unix_file_name_at (items ?v) = Some ([98], 3)" "unix_components (items ?v) = [Normal [97], Normal [98]]"
    "slash \<notin> set [120, 122]" by code_simp+
  have "r = Ok True"
    using run facts(1,3) by (auto simp: path_buf_try_add_extension_def checked_add_def usize_max_def
      vec_try_reserve_room append_bytes_room vec_truncate_def)
  then show ?thesis
    using path_add_extension_spec [OF ok run] run facts
    by (intro exI [of _ v'] exI [of _ h']) (auto simp: file_name_def)
qed

text \<open>\<open>try_set_extension\<close> leaves the path alone on every error and never panics: the standard library's
  \<open>set_extension\<close> finds the room it needs.\<close>

lemma std_set_extension_room:
  assumes "vlen v + Suc (length ext) \<le> cap v \<or> ext = []"
  shows "is_ok (fst (std_set_extension P ext (v, h) :: (sstate, 'e, bool) run))"
proof -
  have "append_bytes (46 # ext) (vec_truncate k v, h) = ((Ok () :: ('e, unit) outcome), (with_items (take k (items v) @ 46 # ext) v, h))"
    if "ext \<noteq> []" for k
    using assms that by (simp add: append_bytes_room vec_truncate_def)
  then show ?thesis by (auto simp: std_set_extension_def Let_def split: option.splits prod.splits)
qed

lemma set_extension_safe:
  assumes ok: "vec_ok v" and run: "path_buf_try_set_extension P ext (v, h) = (r, (v', h'))"
  shows "clean r \<and> (\<not> is_ok r \<longrightarrow> v' = v)"
proof -
  have finish: "clean r \<and> (\<not> is_ok r \<longrightarrow> v' = v)"
    if "map_ok_run (\<lambda>_. ()) (std_set_extension P ext (w, k)) = (r, (v', h'))"
      and "vlen w + Suc (length ext) \<le> cap w \<or> ext = []" for w k
  proof -
    have "is_ok (fst (std_set_extension P ext (w, k) :: (sstate, set_extension_error, bool) run))"
      using that(2) by (rule std_set_extension_room)
    then show ?thesis using that(1)
      by (cases "fst (std_set_extension P ext (w, k) :: (sstate, set_extension_error, bool) run)")
        (auto simp: map_ok_run_def)
  qed
  consider "file_name_at P (items v) = None \<or> (\<exists>b \<in> set ext. is_separator P b)"
    | (empty) "file_name_at P (items v) \<noteq> None" "\<forall>b \<in> set ext. \<not> is_separator P b" "ext = []"
    | (proper) "file_name_at P (items v) \<noteq> None" "\<forall>b \<in> set ext. \<not> is_separator P b" "ext \<noteq> []" by blast
  then show ?thesis
  proof cases
    case 1
    then show ?thesis using run by (auto simp: path_buf_try_set_extension_def split: if_splits)
  next
    case empty
    then show ?thesis using run finish [of v h] by (auto simp: path_buf_try_set_extension_def)
  next
    case proper
    then have ns: "\<not> (\<exists>b \<in> set ext. is_separator P b)" by blast
    show ?thesis
    proof (cases "length ext + 1 \<le> usize_max")
      case False
      then show ?thesis using run proper(1,3) ns by (auto simp: path_buf_try_set_extension_def checked_add_def)
    next
      case True
      have run': "and_then (map_err_run SetExtReserve (vec_try_reserve (length ext + 1) (v, h)))
          (\<lambda>_ s'. map_ok_run (\<lambda>_. ()) (std_set_extension P ext s')) = (r, (v', h'))"
        using run proper(1,3) ns True by (auto simp: path_buf_try_set_extension_def checked_add_def)
      show ?thesis
      proof (cases rule: vec_try_reserve_cases [OF ok, of "length ext + 1" h])
        case (1 w k)
        then show ?thesis using run' finish [of w k] by simp
      next
        case (2 e k)
        then show ?thesis using run' by auto
      qed
    qed
  qed
qed

end
