(* ===== verification/ModulePath.thy ===== *)
theory ModulePath
  imports PathProps
begin

text \<open>
  Module paths of the bindings generator (\<^verbatim>\<open>rustyfill-sys-bindings/src/syntaxes/module_path.rs\<close>): the
  position of a module as a list of identifiers, with its two spellings, \<open>a/b/c\<close> and \<open>a::b::c\<close>. A text is
  its UTF-8 bytes; the separators and the identifiers are ASCII.
\<close>

section \<open>Text\<close>

text \<open>\<open>str::split\<close> cuts at every leftmost occurrence of a non-empty pattern.\<close>

definition strip_prefix :: "'a list \<Rightarrow> 'a list \<Rightarrow> 'a list option" where
  "strip_prefix p s = (if take (length p) s = p then Some (drop (length p) s) else None)"

definition strip_suffix :: "'a list \<Rightarrow> 'a list \<Rightarrow> 'a list option" where
  "strip_suffix p s = map_option rev (strip_prefix (rev p) (rev s))"

function split_on :: "'a list \<Rightarrow> 'a list \<Rightarrow> 'a list list" where
  "split_on sep s =
     (if sep \<noteq> [] \<and> strip_prefix sep s \<noteq> None then [] # split_on sep (drop (length sep) s)
      else case s of
          [] \<Rightarrow> [[]]
        | c # cs \<Rightarrow> (let ps = split_on sep cs in (c # hd ps) # List.tl ps))"
  by auto
termination
proof (relation "measure (\<lambda>(sep, s). length s)")
  fix sep s :: "'a list"
  assume "sep \<noteq> [] \<and> strip_prefix sep s \<noteq> None"
  then have "sep \<noteq> []" and "take (length sep) s = sep" by (auto simp: strip_prefix_def split: if_splits)
  then have "s \<noteq> []" by auto
  then show "((sep, drop (length sep) s), sep, s) \<in> measure (\<lambda>(sep, s). length s)" using \<open>sep \<noteq> []\<close> by simp
qed auto

declare split_on.simps [simp del]

definition is_ascii_alphabetic :: "char \<Rightarrow> bool" where
  "is_ascii_alphabetic c = (let n = (of_char c :: nat) in 65 \<le> n \<and> n \<le> 90 \<or> 97 \<le> n \<and> n \<le> 122)"

definition is_ascii_number :: "char \<Rightarrow> bool" where
  "is_ascii_number c = (let n = (of_char c :: nat) in 48 \<le> n \<and> n \<le> 57)"

definition is_identifier :: "string \<Rightarrow> bool" where
  "is_identifier seg =
     (case seg of
        [] \<Rightarrow> False
      | c # cs \<Rightarrow>
          (is_ascii_alphabetic c \<or> c = CHR ''_'') \<and>
          list_all (\<lambda>c. (is_ascii_alphabetic c \<or> is_ascii_number c) \<or> c = CHR ''_'') cs)"

section \<open>The path\<close>

datatype module_path = ModulePath (segments: "string list")

definition module_root :: module_path where
  "module_root = ModulePath []"

definition parse_segments :: "string list \<Rightarrow> module_path option" where
  "parse_segments collected =
     (if collected = [''''] then Some module_root
      else if (\<exists>seg \<in> set collected. seg = '''' \<or> \<not> is_identifier seg) then None
      else Some (ModulePath collected))"

definition from_slash :: "string \<Rightarrow> module_path option" where
  "from_slash s = parse_segments (split_on ''/'' s)"

definition from_canonical :: "string \<Rightarrow> module_path option" where
  "from_canonical s = parse_segments (split_on ''::'' s)"

definition from_file_stem :: "string \<Rightarrow> module_path option" where
  "from_file_stem path =
     (let without_rs = (case strip_suffix ''.rs'' path of Some p \<Rightarrow> p | None \<Rightarrow> path);
          cleaned = (case strip_suffix ''/mod'' without_rs of Some p \<Rightarrow> p | None \<Rightarrow> without_rs)
      in if cleaned = ''mod'' then Some module_root else from_slash cleaned)"

definition from_segments :: "string list \<Rightarrow> module_path option" where
  "from_segments segs =
     (if (\<exists>seg \<in> set segs. seg \<noteq> '''' \<and> \<not> is_identifier seg) then None else Some (ModulePath segs))"

definition is_root :: "module_path \<Rightarrow> bool" where
  "is_root p = (segments p = [])"

definition depth :: "module_path \<Rightarrow> nat" where
  "depth p = length (segments p)"

definition leaf :: "module_path \<Rightarrow> string" where
  "leaf p = (if segments p = [] then '''' else last (segments p))"

definition parent_owned :: "module_path \<Rightarrow> module_path" where
  "parent_owned p = ModulePath (take (length (segments p) - 1) (segments p))"

definition module_join :: "module_path \<Rightarrow> string \<Rightarrow> module_path" where
  "module_join p name = ModulePath (segments p @ [name])"

definition module_head :: "module_path \<Rightarrow> string" where
  "module_head p = (case segments p of [] \<Rightarrow> '''' | s # _ \<Rightarrow> s)"

definition module_contains :: "module_path \<Rightarrow> module_path \<Rightarrow> bool" where
  "module_contains p other = (strip_prefix (segments p) (segments other) \<noteq> None)"

definition is_direct_parent_of :: "module_path \<Rightarrow> module_path \<Rightarrow> bool" where
  "is_direct_parent_of p other =
     (depth other = depth p + 1 \<and> length (drop (depth p) (segments other)) = 1 \<and>
      take (depth p) (segments other) = segments p)"

definition to_slash :: "module_path \<Rightarrow> string" where
  "to_slash p = join_with ''/'' (segments p)"

definition to_canonical :: "module_path \<Rightarrow> string" where
  "to_canonical p = join_with ''::'' (segments p)"

text \<open>The file path is pushed together segment by segment.\<close>

definition char_byte :: "char \<Rightarrow> byte" where
  "char_byte c = word_of_nat (of_char c)"

definition to_file_path :: "module_path \<Rightarrow> byte list" where
  "to_file_path p = foldl (\<lambda>pb seg. unix_joined pb (map char_byte seg)) [] (segments p)"

definition relative_segments :: "module_path \<Rightarrow> module_path \<Rightarrow> string list option" where
  "relative_segments p prefix =
     (if module_contains prefix p then Some (drop (depth prefix) (segments p)) else None)"

definition child_name_below :: "module_path \<Rightarrow> module_path \<Rightarrow> string option" where
  "child_name_below p prefix =
     Option.bind (relative_segments p prefix) (\<lambda>rest. if length rest = 1 then Some (rest ! 0) else None)"

definition tail_joined :: "module_path \<Rightarrow> nat \<Rightarrow> string \<Rightarrow> string" where
  "tail_joined p n sep = join_with sep (drop (length (segments p) - n) (segments p))"

text \<open>The borrowed views \<open>ParentView\<close> and \<open>ParentTailView\<close>.\<close>

definition parent_depth :: "module_path \<Rightarrow> nat" where
  "parent_depth p = depth p - 1"

definition parent_to_slash :: "module_path \<Rightarrow> string" where
  "parent_to_slash p = join_with ''/'' (take (depth p - 1) (segments p))"

definition parent_to_canonical :: "module_path \<Rightarrow> string" where
  "parent_to_canonical p = join_with ''::'' (take (depth p - 1) (segments p))"

definition tail_is_root :: "module_path \<Rightarrow> bool" where
  "tail_is_root p = (depth p \<le> 1)"

definition tail_to_slash :: "module_path \<Rightarrow> string" where
  "tail_to_slash p = (if depth p \<le> 1 then '''' else join_with ''/'' (drop 1 (segments p)))"

definition tail_to_canonical :: "module_path \<Rightarrow> string" where
  "tail_to_canonical p = (if depth p \<le> 1 then '''' else join_with ''::'' (drop 1 (segments p)))"

section \<open>Splitting and joining\<close>

lemma strip_prefix_Some [simp]: "strip_prefix p s = Some r \<longleftrightarrow> s = p @ r"
  by (auto simp: strip_prefix_def) (metis append_take_drop_id)

lemma strip_prefix_append [simp]: "strip_prefix p (p @ r) = Some r"
  by simp

lemma strip_suffix_Some [simp]: "strip_suffix p s = Some r \<longleftrightarrow> s = r @ p"
  by (auto simp: strip_suffix_def) (metis rev_append rev_rev_ident)

lemma strip_suffix_append [simp]: "strip_suffix p (r @ p) = Some r"
  by simp

lemma split_on_Nil: "sep \<noteq> [] \<Longrightarrow> split_on sep [] = [[]]"
  by (subst split_on.simps) (simp add: strip_prefix_def)

lemma split_on_sep: "sep \<noteq> [] \<Longrightarrow> split_on sep (sep @ s) = [] # split_on sep s"
  by (subst split_on.simps) simp

lemma split_on_free:
  assumes "sep \<noteq> []" and "hd sep \<notin> set p"
  shows "split_on sep (p @ s) = (p @ hd (split_on sep s)) # List.tl (split_on sep s)"
  using assms(2)
proof (induction p)
  case Nil
  have "split_on sep s \<noteq> []" by (subst split_on.simps) (simp add: Let_def split: list.split)
  then show ?case by simp
next
  case (Cons c p)
  have "strip_prefix sep (c # p @ s) = None"
    using assms(1) Cons.prems by (cases sep) (auto simp: strip_prefix_def)
  then have "split_on sep ((c # p) @ s) = (c # hd (split_on sep (p @ s))) # List.tl (split_on sep (p @ s))"
    by (subst split_on.simps) (simp add: Let_def)
  then show ?case using Cons by simp
qed

lemma split_on_join:
  assumes "sep \<noteq> []" and "ps \<noteq> []" and "\<forall>p \<in> set ps. hd sep \<notin> set p"
  shows "split_on sep (join_with sep ps) = ps"
  using assms(2,3)
proof (induction ps rule: induct_list012)
  case (2 p)
  then show ?case using split_on_free [OF assms(1), of p "[]"] split_on_Nil [OF assms(1)] by simp
next
  case (3 p q ps)
  then show ?case
    using split_on_free [OF assms(1), of p "sep @ join_with sep (q # ps)"] split_on_sep [OF assms(1), of "join_with sep (q # ps)"]
    by simp
qed simp

lemma split_on_not_Nil [simp]: "split_on sep s \<noteq> []"
  by (subst split_on.simps) (simp add: Let_def split: list.split)

lemma join_split_on: "join_with sep (split_on sep s) = s"
proof (induction sep s rule: split_on.induct)
  case (1 sep s)
  show ?case
  proof (cases "sep \<noteq> [] \<and> strip_prefix sep s \<noteq> None")
    case True
    then obtain r where "s = sep @ r" by auto
    then show ?thesis using True 1(1) by (simp add: split_on_sep join_with_Cons)
  next
    case False
    show ?thesis
    proof (cases s)
      case Nil
      then show ?thesis using False by (subst split_on.simps) simp
    next
      case (Cons c cs)
      then have "split_on sep s = (c # hd (split_on sep cs)) # List.tl (split_on sep cs)"
        using False by (subst split_on.simps) (simp add: Let_def)
      moreover have "join_with sep (split_on sep cs) = cs" using 1(2) [OF False Cons] .
      ultimately show ?thesis
        using Cons by (cases "split_on sep cs"; cases "List.tl (split_on sep cs)") (auto simp: join_with_Cons)
    qed
  qed
qed

section \<open>Properties\<close>

definition module_ok :: "module_path \<Rightarrow> bool" where
  "module_ok p \<longleftrightarrow> (\<forall>seg \<in> set (segments p). is_identifier seg)"

lemma identifier_chars:
  assumes "is_identifier seg"
  shows "seg \<noteq> []" and "CHR ''/'' \<notin> set seg" and "CHR '':'' \<notin> set seg"
proof -
  have c: "is_ascii_alphabetic c \<or> is_ascii_number c \<or> c = CHR ''_''" if "c \<in> set seg" for c
    using assms that by (auto simp: is_identifier_def list_all_iff split: list.splits)
  have "\<not> (is_ascii_alphabetic (CHR ''/'') \<or> is_ascii_number (CHR ''/'') \<or> CHR ''/'' = CHR ''_'')"
    and "\<not> (is_ascii_alphabetic (CHR '':'') \<or> is_ascii_number (CHR '':'') \<or> CHR '':'' = CHR ''_'')"
    by code_simp+
  with c show "CHR ''/'' \<notin> set seg" and "CHR '':'' \<notin> set seg" by blast+
  show "seg \<noteq> []" using assms by (auto simp: is_identifier_def)
qed

lemma not_identifier_Nil [simp]: "\<not> is_identifier []"
  by (simp add: is_identifier_def)

lemma parse_segments_Some:
  "parse_segments collected = Some p \<longleftrightarrow>
     collected = [''''] \<and> p = module_root \<or> collected \<noteq> [''''] \<and> p = ModulePath collected \<and> module_ok p"
  using identifier_chars(1) by (auto simp: parse_segments_def module_ok_def)

lemma parse_print:
  assumes "module_ok p" and "sep \<noteq> []" and "\<forall>seg \<in> set (segments p). hd sep \<notin> set seg"
  shows "parse_segments (split_on sep (join_with sep (segments p))) = Some p"
proof (cases "segments p = []")
  case True
  then show ?thesis
    using split_on_Nil [OF assms(2)] by (cases p) (simp add: parse_segments_def module_root_def)
next
  case False
  then have "split_on sep (join_with sep (segments p)) = segments p"
    using split_on_join [OF assms(2) False assms(3)] by simp
  moreover have "segments p \<noteq> ['''']" using assms(1) by (auto simp: module_ok_def)
  ultimately show ?thesis using assms(1) by (cases p) (simp add: parse_segments_Some)
qed

lemma print_parse:
  assumes "parse_segments (split_on sep s) = Some p"
  shows "module_ok p \<and> join_with sep (segments p) = s"
proof -
  have "join_with sep (split_on sep s) = s" by (rule join_split_on)
  then show ?thesis using assms by (auto simp: parse_segments_Some module_root_def module_ok_def)
qed

lemma from_slash_print: "module_ok p \<Longrightarrow> from_slash (to_slash p) = Some p"
  using parse_print [of p "''/''"] identifier_chars(2)
  by (simp add: from_slash_def to_slash_def module_ok_def)

lemma from_canonical_print: "module_ok p \<Longrightarrow> from_canonical (to_canonical p) = Some p"
  using parse_print [of p "''::''"] identifier_chars(3)
  by (simp add: from_canonical_def to_canonical_def module_ok_def)

text \<open>A file name suffix never hides in the spelling of a path whose last segment is not \<open>mod\<close>.\<close>

lemma slash_segments:
  assumes "module_ok p" and "segments p \<noteq> []"
  shows "split_at (CHR ''/'') (to_slash p) = segments p"
  using assms identifier_chars(2) by (simp add: to_slash_def split_join module_ok_def)

lemma slash_mod_suffix:
  assumes "module_ok p" and "to_slash p = r @ ''/mod'' \<or> to_slash p = ''mod''"
  shows "leaf p = ''mod''"
proof -
  have ne: "segments p \<noteq> []" using assms(2) by (auto simp: to_slash_def)
  have "split_at (CHR ''/'') (r @ CHR ''/'' # ''mod'') = split_at (CHR ''/'') r @ [''mod'']"
    unfolding split_at_sep by simp
  then have "last (split_at (CHR ''/'') (to_slash p)) = ''mod''" using assms(2) by auto
  then show ?thesis using slash_segments [OF assms(1) ne] ne by (simp add: leaf_def)
qed

lemma file_stem_print:
  assumes "module_ok p" and "leaf p \<noteq> ''mod''"
  shows "from_file_stem (to_slash p @ ''.rs'') = Some p"
    and "from_file_stem (to_slash p @ ''/mod.rs'') = Some p"
proof -
  have none: "strip_suffix ''/mod'' (to_slash p) = None"
    using slash_mod_suffix [OF assms(1)] assms(2) by (cases "strip_suffix ''/mod'' (to_slash p)") auto
  have ne: "to_slash p \<noteq> ''mod''"
    using slash_mod_suffix [OF assms(1)] assms(2) by auto
  show "from_file_stem (to_slash p @ ''.rs'') = Some p"
    using none ne from_slash_print [OF assms(1)] by (simp add: from_file_stem_def Let_def)
  have "strip_suffix ''.rs'' (to_slash p @ ''/mod.rs'') = Some (to_slash p @ ''/mod'')" by simp
  then show "from_file_stem (to_slash p @ ''/mod.rs'') = Some p"
    using ne from_slash_print [OF assms(1)] by (simp add: from_file_stem_def Let_def del: strip_suffix_Some)
qed

text \<open>The names of files: the module \<open>mod\<close> at the top is read as the root.\<close>

definition top_mod_is_root :: "module_path \<Rightarrow> module_path" where
  "top_mod_is_root p = (if p = ModulePath [''mod''] then module_root else p)"

lemma cleaned_stem:
  assumes "module_ok p"
  shows "(if to_slash p = ''mod'' then Some module_root else from_slash (to_slash p)) = Some (top_mod_is_root p)"
proof -
  have "to_slash p = ''mod'' \<longleftrightarrow> p = ModulePath [''mod'']"
  proof
    assume "to_slash p = ''mod''"
    then have "from_slash ''mod'' = Some p" using from_slash_print [OF assms] by simp
    moreover have "from_slash ''mod'' = Some (ModulePath [''mod''])" by code_simp
    ultimately show "p = ModulePath [''mod'']" by simp
  qed (simp add: to_slash_def)
  then show ?thesis using from_slash_print [OF assms] by (simp add: top_mod_is_root_def)
qed

lemma file_of_directory:
  assumes "module_ok p"
  shows "from_file_stem (to_slash p @ ''/mod.rs'') = Some (top_mod_is_root p)"
proof -
  have "strip_suffix ''.rs'' (to_slash p @ ''/mod.rs'') = Some (to_slash p @ ''/mod'')" by simp
  then show ?thesis
    using cleaned_stem [OF assms] by (simp add: from_file_stem_def Let_def del: strip_suffix_Some split: if_splits)
qed

lemma file_of_module:
  assumes "module_ok p"
  shows "from_file_stem (to_slash p @ ''.rs'') =
    Some (top_mod_is_root (if leaf p = ''mod'' then parent_owned p else p))"
proof (cases "leaf p = ''mod''")
  case False
  moreover have "p \<noteq> ModulePath [''mod'']" using False by (auto simp: leaf_def)
  ultimately show ?thesis using file_stem_print(1) [OF assms] by (simp add: top_mod_is_root_def)
next
  case True
  let ?q = "parent_owned p"
  have "segments p \<noteq> []" using True by (auto simp: leaf_def)
  then have segs: "segments p = segments ?q @ [''mod'']"
    using True append_butlast_last_id [of "segments p"] by (simp add: leaf_def parent_owned_def butlast_conv_take)
  then have ok: "module_ok ?q" using assms by (auto simp: module_ok_def)
  show ?thesis
  proof (cases "segments ?q = []")
    case None: True
    then have "to_slash p = ''mod''" "?q = module_root" using segs by (cases ?q; simp add: to_slash_def module_root_def)+
    then show ?thesis
      using True by (simp add: from_file_stem_def Let_def strip_suffix_def strip_prefix_def top_mod_is_root_def module_root_def)
  next
    case False
    then have "to_slash p = to_slash ?q @ ''/mod''"
      using join_with_append [OF False, of "[''mod'']" "''/''"] segs by (simp add: to_slash_def)
    then show ?thesis using file_of_directory [OF ok] True by simp
  qed
qed

text \<open>Claim C29. The spellings of a module path and the path determine each other: a path of identifiers is
  read back from its slash and its canonical spelling, and whatever text is accepted is the spelling of the
  path it is read as, which has only identifiers. The file of a directory module, the slash spelling with
  \<open>/mod.rs\<close>, is read back as the path; the other file name, with \<open>.rs\<close>, as well, unless the last segment is
  \<open>mod\<close>, when it is read as the parent. In both cases the path whose one segment is \<open>mod\<close> comes out as the
  root. The root itself has the file names \<open>.rs\<close> and \<open>/mod.rs\<close>, which are accepted.\<close>
theorem module_path_roundtrip:
  shows "(module_ok p \<longrightarrow> from_slash (to_slash p) = Some p \<and> from_canonical (to_canonical p) = Some p \<and>
      from_file_stem (to_slash p @ ''/mod.rs'') = Some (top_mod_is_root p) \<and>
      from_file_stem (to_slash p @ ''.rs'') = Some (top_mod_is_root (if leaf p = ''mod'' then parent_owned p else p))) \<and>
    (from_slash s = Some p \<longrightarrow> module_ok p \<and> to_slash p = s) \<and>
    (from_canonical s = Some p \<longrightarrow> module_ok p \<and> to_canonical p = s)"
  using from_slash_print [of p] from_canonical_print [of p] file_of_directory [of p] file_of_module [of p]
    print_parse [of "''/''" s p] print_parse [of "''::''" s p]
  unfolding from_slash_def from_canonical_def to_slash_def to_canonical_def by blast

theorem module_path_roundtrip_witness:
  "from_canonical ''std::sync'' = Some (ModulePath [''std'', ''sync'']) \<and>
   from_file_stem ''std/sync/mod.rs'' = Some (ModulePath [''std'', ''sync'']) \<and>
   from_file_stem ''std/mod.rs'' = Some (ModulePath [''std''])"
proof -
  let ?p = "ModulePath [''std'', ''sync'']" and ?q = "ModulePath [''std'', ''mod'']"
  have "module_ok ?p" "module_ok ?q" "leaf ?q = ''mod''" "parent_owned ?q = ModulePath [''std'']" by code_simp+
  then show ?thesis
    using module_path_roundtrip [of ?p] module_path_roundtrip [of ?q]
    by (simp add: to_slash_def to_canonical_def top_mod_is_root_def)
qed

text \<open>\<open>from_segments\<close> lets empty segments through, which no spelling can express.\<close>

lemma from_segments_empty:
  "from_segments [''''] = Some (ModulePath ['''']) \<and> from_slash (to_slash (ModulePath [''''])) = Some module_root"
  by code_simp

text \<open>A text with an empty separator run that denotes the root all the same.\<close>

lemma file_stem_leading_slash: "from_file_stem ''/mod.rs'' = Some module_root"
  by (simp add: from_file_stem_def strip_suffix_def strip_prefix_def from_slash_def split_on_Nil parse_segments_def)

section \<open>The tree of modules\<close>

lemma module_contains_iff: "module_contains p q \<longleftrightarrow> (\<exists>tl_segs. segments q = segments p @ tl_segs)"
  by (auto simp: module_contains_def)

lemma relative_segments_iff: "relative_segments p base = Some tl_segs \<longleftrightarrow> segments p = segments base @ tl_segs"
  by (auto simp: relative_segments_def module_contains_iff depth_def)

lemma contains_order:
  "module_contains p p"
  "module_contains p q \<Longrightarrow> module_contains q r \<Longrightarrow> module_contains p r"
  "module_contains p q \<Longrightarrow> module_contains q p \<Longrightarrow> p = q"
  by (auto simp: module_contains_iff intro: module_path.expand)

text \<open>The children of a module: the three ways the code has to recognise them agree.\<close>

lemma direct_parent_iff: "is_direct_parent_of p q \<longleftrightarrow> (\<exists>name. q = module_join p name)"
proof
  assume d: "is_direct_parent_of p q"
  then have "length (drop (depth p) (segments q)) = 1" unfolding is_direct_parent_of_def by blast
  then obtain name where "drop (depth p) (segments q) = [name]"
    by (auto simp: length_Suc_conv simp del: length_drop)
  then have "segments q = segments p @ [name]"
    using d append_take_drop_id [of "depth p" "segments q"] by (simp add: is_direct_parent_of_def)
  then show "\<exists>name. q = module_join p name" by (cases q) (auto simp: module_join_def)
qed (auto simp: is_direct_parent_of_def module_join_def depth_def)

lemma child_name_iff: "child_name_below q p = Some name \<longleftrightarrow> q = module_join p name"
proof -
  have "child_name_below q p = Some name \<longleftrightarrow> relative_segments q p = Some [name]"
    by (auto simp: child_name_below_def length_Suc_conv split: if_splits Option.bind_splits)
  also have "\<dots> \<longleftrightarrow> q = module_join p name" by (cases q) (auto simp: relative_segments_iff module_join_def)
  finally show ?thesis .
qed

lemma parent_of_join: "parent_owned (module_join p name) = p" "leaf (module_join p name) = name"
  by (cases p; simp add: parent_owned_def module_join_def leaf_def)+

lemma parent_views: "parent_depth p = depth (parent_owned p)" "parent_to_slash p = to_slash (parent_owned p)"
    "parent_to_canonical p = to_canonical (parent_owned p)"
  by (cases "segments p"; simp add: parent_depth_def parent_owned_def depth_def parent_to_slash_def to_slash_def
      parent_to_canonical_def to_canonical_def)+

lemma head_and_tail:
  assumes "1 < depth p"
  shows "to_slash p = module_head p @ ''/'' @ tail_to_slash p"
proof -
  obtain a b tl_segs where "segments p = a # b # tl_segs" using assms by (cases "segments p"; cases "List.tl (segments p)") (auto simp: depth_def)
  then show ?thesis by (simp add: to_slash_def module_head_def tail_to_slash_def depth_def)
qed

text \<open>The file path is the slash spelling.\<close>

lemma map_join_with: "map f (join_with sep ps) = join_with (map f sep) (map (map f) ps)"
  by (induction ps rule: induct_list012) auto

lemma char_byte_slash: "char_byte c = slash \<longleftrightarrow> c = CHR ''/''"
proof -
  have slash: "slash = word_of_nat 47" by (simp add: slash_def)
  have "char_byte c = slash \<longleftrightarrow> (of_char c :: nat) mod 256 = 47"
    unfolding char_byte_def slash word_of_nat_eq_iff by (simp add: take_bit_eq_mod)
  also have "\<dots> \<longleftrightarrow> c = CHR ''/''"
  proof
    assume "(of_char c :: nat) mod 256 = 47"
    then have "(of_char c :: nat) = 47" by simp
    then have "char_of (of_char c :: nat) = char_of (of_char (CHR ''/'') :: nat)" by simp
    then show "c = CHR ''/''" by (simp only: char_of_char)
  qed simp
  finally show ?thesis .
qed

lemma pushed_segments:
  assumes "\<forall>q \<in> set ps. q \<noteq> [] \<and> slash \<notin> set q"
  shows "foldl unix_joined [] ps = join_with [slash] ps \<and>
    (ps \<noteq> [] \<longrightarrow> join_with [slash] ps \<noteq> [] \<and> last (join_with [slash] ps) \<noteq> slash)"
  using assms
proof (induction ps rule: rev_induct)
  case (snoc q ps)
  then have q: "q \<noteq> []" "slash \<notin> set q" by simp_all
  then have "\<not> unix_has_root q" by (auto simp: unix_has_root_def split: list.splits)
  moreover have "last q \<noteq> slash" using q last_in_set by metis
  ultimately have q: "q \<noteq> []" "\<not> unix_has_root q" "last q \<noteq> slash" using q(1) by simp_all
  show ?case
  proof (cases "ps = []")
    case True
    then show ?thesis using q by (simp add: unix_joined_def)
  next
    case False
    have "join_with [slash] (ps @ [q]) = join_with [slash] ps @ slash # q"
      using join_with_append [OF False, of "[q]"] by simp
    then show ?thesis using snoc False q by (simp add: unix_joined_def)
  qed
qed simp

lemma file_path_spelling:
  assumes "module_ok p"
  shows "to_file_path p = map char_byte (to_slash p)"
proof -
  have "\<forall>q \<in> set (map (map char_byte) (segments p)). q \<noteq> [] \<and> slash \<notin> set q"
  proof
    fix q assume "q \<in> set (map (map char_byte) (segments p))"
    then obtain seg where "is_identifier seg" and "q = map char_byte seg" using assms by (auto simp: module_ok_def)
    then show "q \<noteq> [] \<and> slash \<notin> set q" using identifier_chars(1,2) [of seg]
      by (simp add: image_iff char_byte_slash eq_commute [of slash])
  qed
  from pushed_segments [OF this]
  have "to_file_path p = join_with [slash] (map (map char_byte) (segments p))"
    by (simp only: to_file_path_def foldl_map)
  also have "\<dots> = map char_byte (to_slash p)"
    using char_byte_slash [of "CHR ''/''"] by (simp add: to_slash_def map_join_with)
  finally show ?thesis .
qed

end
