(* ===== verification/FormatArgs.thy ===== *)
theory FormatArgs
  imports Prelude
begin

text \<open>
  The \<open>try_format_args!\<close> procedural macro of \<^verbatim>\<open>rustyfill-macros/src/try_format_args.rs\<close>: the scan of
  the format string (\<open>analyze_format_string\<close>), the splitting of the macro's tokens into arguments
  (\<open>parse_macro\<close>), and the emitted \<open>core::format_args!\<close> call (\<open>emit\<close>).

  A peekable iterator of characters is the list of the characters left, and each parser returns what
  it leaves. A position in the token array is likewise the list of the tokens left. Characters are the
  code points up to U+00FF, on which the tables of \<open>char::is_alphabetic\<close> and \<open>is_alphanumeric\<close> are
  written out. The two \<open>BTreeMap\<close>s are partial functions. A token is a token tree without its source
  span; the grouping counters stay far below the width of their type.
\<close>

section \<open>Characters\<close>

definition is_ascii_digit :: "char \<Rightarrow> bool" where
  "is_ascii_digit c = (48 \<le> (of_char c :: nat) \<and> (of_char c :: nat) \<le> 57)"

definition is_alphabetic :: "char \<Rightarrow> bool" where
  "is_alphabetic c = (let n = (of_char c :: nat) in
     65 \<le> n \<and> n \<le> 90 \<or> 97 \<le> n \<and> n \<le> 122 \<or> n = 170 \<or> n = 181 \<or> n = 186 \<or>
     192 \<le> n \<and> n \<le> 214 \<or> 216 \<le> n \<and> n \<le> 246 \<or> 248 \<le> n)"

definition is_numeric :: "char \<Rightarrow> bool" where
  "is_numeric c = (let n = (of_char c :: nat) in
     48 \<le> n \<and> n \<le> 57 \<or> n = 178 \<or> n = 179 \<or> n = 185 \<or> n = 188 \<or> n = 189 \<or> n = 190)"

definition is_alphanumeric :: "char \<Rightarrow> bool" where
  "is_alphanumeric c = (is_alphabetic c \<or> is_numeric c)"

text \<open>The characters of an identifier, as the scanning loops test them.\<close>

definition ident_char :: "char \<Rightarrow> bool" where
  "ident_char c = (is_alphanumeric c \<or> c = CHR ''_'')"

text \<open>\<open>num.parse::<usize>().unwrap_or(0)\<close> on a run of digits: an overflow gives 0.\<close>

definition digits_value :: "string \<Rightarrow> nat" where
  "digits_value ds = foldl (\<lambda>n c. 10 * n + (of_char c - 48)) 0 ds"

definition parse_usize :: "string \<Rightarrow> nat" where
  "parse_usize ds = (if digits_value ds \<le> usize_max then digits_value ds else 0)"

section \<open>Wrapper kinds\<close>

datatype wrap_kind =
    KDebug | KDisplay | KLowerHex | KUpperHex | KLowerExp | KUpperExp | KMeasure | KMulti

definition merge_kinds :: "wrap_kind \<Rightarrow> wrap_kind \<Rightarrow> wrap_kind" where
  "merge_kinds a b =
     (if a = b then a
      else if a = KMeasure then b
      else if b = KMeasure then a
      else KMulti)"

definition merge_kind_p :: "(nat \<rightharpoonup> wrap_kind) \<Rightarrow> nat \<Rightarrow> wrap_kind \<Rightarrow> (nat \<rightharpoonup> wrap_kind)" where
  "merge_kind_p m key new =
     m(key \<mapsto> (case m key of None \<Rightarrow> new | Some existing \<Rightarrow> merge_kinds existing new))"

definition merge_kind_n ::
  "(string \<rightharpoonup> wrap_kind) \<Rightarrow> string \<Rightarrow> wrap_kind \<Rightarrow> (string \<rightharpoonup> wrap_kind)" where
  "merge_kind_n m key new =
     m(key \<mapsto> (case m key of None \<Rightarrow> new | Some existing \<Rightarrow> merge_kinds existing new))"

section \<open>Analysis of the format string\<close>

record format_analysis =
  positional :: "nat \<rightharpoonup> wrap_kind"
  named :: "string \<rightharpoonup> wrap_kind"
  auto_kinds :: "wrap_kind list"

datatype arg_kind = Positional nat | Named string | Auto

fun parse_arg_spec :: "string \<Rightarrow> arg_kind \<times> string" where
  "parse_arg_spec [] = (Auto, [])"
| "parse_arg_spec (c # cs) =
     (if c = CHR '':'' \<or> c = CHR ''}'' then (Auto, c # cs)
      else if is_ascii_digit c then
        (Positional (parse_usize (takeWhile is_ascii_digit (c # cs))), dropWhile is_ascii_digit (c # cs))
      else let name = takeWhile ident_char (c # cs) in
        (if name = [] then Auto else Named name, dropWhile ident_char (c # cs)))"

fun parse_width_or_precision ::
  "string \<Rightarrow> (nat \<rightharpoonup> wrap_kind) \<Rightarrow> string \<times> (nat \<rightharpoonup> wrap_kind)" where
  "parse_width_or_precision [] pm = ([], pm)"
| "parse_width_or_precision (c # cs) pm =
     (if c = CHR ''*'' then (cs, pm)
      else if is_ascii_digit c then
        (let num = takeWhile is_ascii_digit (c # cs) in
         case dropWhile is_ascii_digit (c # cs) of
           [] \<Rightarrow> ([], pm)
         | d # ds \<Rightarrow>
             if d = CHR ''$'' then (ds, merge_kind_p pm (parse_usize num) KMeasure) else (d # ds, pm))
      else (c # cs, pm))"

text \<open>The first loop of \<open>parse_format_spec\<close> eats these, in any order and any number.\<close>

definition flag_char :: "char \<Rightarrow> bool" where
  "flag_char c = (c \<in> set ''<>^=+- #0'')"

text \<open>The last character of a specification, if it is not the closing brace.\<close>

fun trailing_char :: "string \<Rightarrow> char option \<times> string" where
  "trailing_char [] = (None, [])"
| "trailing_char (c # cs) = (if c = CHR ''}'' then (None, c # cs) else (Some c, cs))"

definition parse_type ::
  "string \<Rightarrow> (string \<rightharpoonup> wrap_kind) \<Rightarrow> char option \<times> string \<times> (string \<rightharpoonup> wrap_kind)" where
  "parse_type cs nm =
     (case cs of
        [] \<Rightarrow> (None, [], nm)
      | c # _ \<Rightarrow>
          if is_alphabetic c \<or> c = CHR ''_'' then
            (let ident = takeWhile ident_char cs; rest = dropWhile ident_char cs in
             case rest of
               d # ds \<Rightarrow>
                 if d = CHR ''$'' then
                   (let (f, left) = trailing_char ds in (f, left, merge_kind_n nm ident KMeasure))
                 else (Some (hd ident), rest, nm)
             | [] \<Rightarrow> (Some (hd ident), rest, nm))
          else (let (f, left) = trailing_char cs in (f, left, nm)))"

definition parse_format_spec ::
  "string \<Rightarrow> (nat \<rightharpoonup> wrap_kind) \<Rightarrow> (string \<rightharpoonup> wrap_kind) \<Rightarrow>
   char option \<times> string \<times> (nat \<rightharpoonup> wrap_kind) \<times> (string \<rightharpoonup> wrap_kind)" where
  "parse_format_spec chars pm nm =
     (let (cs, pm) = parse_width_or_precision (dropWhile flag_char chars) pm;
          (cs, pm) = (case cs of
              [] \<Rightarrow> (cs, pm)
            | c # ds \<Rightarrow> if c = CHR ''.'' then parse_width_or_precision ds pm else (cs, pm));
          (f, cs, nm) = parse_type cs nm
      in (f, cs, pm, nm))"

definition kind_of_char :: "char option \<Rightarrow> wrap_kind" where
  "kind_of_char f =
     (if f = Some (CHR ''?'') then KDebug
      else if f = Some (CHR ''x'') then KLowerHex
      else if f = Some (CHR ''X'') then KUpperHex
      else if f = Some (CHR ''e'') then KLowerExp
      else if f = Some (CHR ''E'') then KUpperExp
      else KDisplay)"

text \<open>The usage of one placeholder is merged into the slot it names.\<close>

fun record_use :: "arg_kind \<Rightarrow> wrap_kind \<Rightarrow> format_analysis \<Rightarrow> format_analysis" where
  "record_use (Positional i) w a = a\<lparr>positional := merge_kind_p (positional a) i w\<rparr>"
| "record_use (Named n) w a = a\<lparr>named := merge_kind_n (named a) n w\<rparr>"
| "record_use Auto w a = a\<lparr>auto_kinds := auto_kinds a @ [w]\<rparr>"

text \<open>A placeholder, from after its opening brace to after its closing one.\<close>

definition placeholder :: "string \<Rightarrow> format_analysis \<Rightarrow> string \<times> format_analysis" where
  "placeholder cs a =
     (let (kind, cs) = parse_arg_spec cs;
          (f, cs, a) = (case cs of
              c # ds \<Rightarrow>
                if c = CHR '':'' then
                  (let (f, left, pm, nm) = parse_format_spec ds (positional a) (named a)
                   in (f, left, a\<lparr>positional := pm, named := nm\<rparr>))
                else (None, cs, a)
            | [] \<Rightarrow> (None, cs, a))
      in (drop 1 cs, record_use kind (kind_of_char f) a))"

lemma parse_arg_spec_shrinks: "length (snd (parse_arg_spec cs)) \<le> length cs"
proof (cases cs)
  case (Cons c ds)
  have "length (dropWhile is_ascii_digit ds) \<le> length ds" "length (dropWhile ident_char ds) \<le> length ds"
    by (simp_all add: length_dropWhile_le)
  with Cons show ?thesis by (auto simp: Let_def)
qed simp

lemma parse_width_shrinks: "length (fst (parse_width_or_precision cs pm)) \<le> length cs"
proof (cases cs)
  case (Cons c ds)
  have "length (dropWhile is_ascii_digit ds) \<le> length ds" by (simp add: length_dropWhile_le)
  with Cons show ?thesis by (auto simp: Let_def split: list.splits)
qed simp

lemma trailing_char_shrinks: "length (snd (trailing_char cs)) \<le> length cs"
  by (cases cs) auto

lemma parse_type_shrinks: "length (fst (snd (parse_type cs nm))) \<le> length cs"
proof -
  have "length (dropWhile ident_char cs) \<le> length cs" by (simp add: length_dropWhile_le)
  moreover have "length (snd (trailing_char ds)) \<le> length cs" if "dropWhile ident_char cs = d # ds" for d ds
    using trailing_char_shrinks [of ds] calculation that by simp
  ultimately show ?thesis
    using trailing_char_shrinks [of cs]
    by (auto simp: parse_type_def Let_def split: list.splits prod.splits)
qed

lemma parse_format_spec_shrinks: "length (fst (snd (parse_format_spec cs pm nm))) \<le> length cs"
proof -
  define d where "d = dropWhile flag_char cs"
  have d: "length d \<le> length cs" by (simp add: d_def length_dropWhile_le)
  obtain cs1 pm1 where w: "parse_width_or_precision d pm = (cs1, pm1)" by fastforce
  have "length cs1 \<le> length d" using parse_width_shrinks [of d pm] w by simp
  moreover define q where "q = (case cs1 of [] \<Rightarrow> (cs1, pm1)
    | c # ds \<Rightarrow> if c = CHR ''.'' then parse_width_or_precision ds pm1 else (cs1, pm1))"
  have "length (fst q) \<le> length cs1"
  proof (cases cs1)
    case (Cons c ds)
    with parse_width_shrinks [of ds pm1] show ?thesis by (auto simp: q_def)
  qed (simp add: q_def)
  moreover have "length (fst (snd (parse_type (fst q) nm))) \<le> length (fst q)"
    by (rule parse_type_shrinks)
  moreover have "fst (snd (parse_format_spec cs pm nm)) = fst (snd (parse_type (fst q) nm))"
    by (simp add: parse_format_spec_def Let_def d_def [symmetric] w q_def [symmetric] split: prod.splits)
  ultimately show ?thesis using d by simp
qed

lemma placeholder_shrinks: "length (fst (placeholder cs a)) \<le> length cs"
proof -
  obtain k cs1 where k: "parse_arg_spec cs = (k, cs1)" by fastforce
  then have l: "length cs1 \<le> length cs" using parse_arg_spec_shrinks [of cs] by simp
  show ?thesis
  proof (cases cs1)
    case Nil
    then show ?thesis by (simp add: placeholder_def k)
  next
    case (Cons c ds)
    with l parse_format_spec_shrinks [of ds "positional a" "named a"] show ?thesis
      by (auto simp: placeholder_def k split: prod.splits)
  qed
qed

function analyze_from :: "string \<Rightarrow> format_analysis \<Rightarrow> format_analysis" where
  "analyze_from [] a = a"
| "analyze_from (c # cs) a =
     (if c \<noteq> CHR ''{'' then analyze_from cs a
      else if cs \<noteq> [] \<and> hd cs = CHR ''{'' then analyze_from (tl cs) a
      else analyze_from (fst (placeholder cs a)) (snd (placeholder cs a)))"
  by pat_completeness auto

termination
proof (relation "measure (\<lambda>(cs, a). length cs)", goal_cases)
  case (4 c cs a)
  then show ?case using placeholder_shrinks [of cs a] by (simp add: case_prod_beta)
qed auto

definition analyze_format_string :: "string \<Rightarrow> format_analysis" where
  "analyze_format_string s =
     analyze_from s \<lparr>positional = Map.empty, named = Map.empty, auto_kinds = []\<rparr>"

section \<open>The macro's tokens\<close>

datatype spacing = Alone | Joint

datatype delimiter = Parenthesis | Brace | Bracket | NoDelimiter

text \<open>A literal token is a string literal, with the value \<open>syn::LitStr\<close> gives it, or another one.\<close>

datatype literal = StrLit string | OtherLit string

datatype token =
    Group delimiter "token list"
  | Ident string
  | Punct char spacing
  | Literal literal

fun is_punct :: "char \<Rightarrow> token \<Rightarrow> bool" where
  "is_punct c (Punct d _) = (d = c)"
| "is_punct c _ = False"

fun is_group :: "token \<Rightarrow> bool" where
  "is_group (Group _ _) = True"
| "is_group _ = False"

record format_input =
  format_string :: string
  format_literal :: token
  args :: "(string option \<times> token list) list"

text \<open>The loop of \<open>collect_arg_trees\<close>: the tokens collected from here on, and those left. The depth
  goes up at a group, which the tokenizer has already closed, and never down.\<close>

fun collect_from :: "int \<Rightarrow> token list \<Rightarrow> token list \<times> token list" where
  "collect_from depth [] = ([], [])"
| "collect_from depth (t # ts) =
     (if is_group t then (let (c, left) = collect_from (depth + 1) ts in (t # c, left))
      else if is_punct (CHR '','') t \<and> depth = 0 then ([], ts)
      else (let (c, left) = collect_from depth ts in (t # c, left)))"

definition collect_arg_trees :: "token list \<Rightarrow> token list \<times> token list" where
  "collect_arg_trees tts = collect_from 0 tts"

text \<open>The loop of \<open>parse_arg\<close>: whether an \<open>=\<close> was found, and the first identifier before it.\<close>

fun scan_binding :: "nat \<Rightarrow> string option \<Rightarrow> token list \<Rightarrow> bool \<times> string option" where
  "scan_binding depth first [] = (False, first)"
| "scan_binding depth first (t # ts) =
     (if is_group t then scan_binding (depth + 1) first ts
      else if is_punct (CHR ''='') t \<and> depth = 0 then (True, first)
      else scan_binding depth
        (case t of Ident i \<Rightarrow> (if first = None \<and> depth = 0 then Some i else first) | _ \<Rightarrow> first) ts)"

fun split_from :: "bool \<Rightarrow> token list \<Rightarrow> token list" where
  "split_from past_eq [] = []"
| "split_from past_eq (t # ts) =
     (if is_punct (CHR ''='') t then split_from True ts
      else if past_eq then t # split_from past_eq ts
      else split_from past_eq ts)"

definition split_after_eq :: "token list \<Rightarrow> token list" where
  "split_after_eq tokens = split_from False tokens"

definition parse_arg :: "token list \<Rightarrow> string option \<times> token list" where
  "parse_arg tokens =
     (case scan_binding 0 None tokens of
        (True, Some name) \<Rightarrow> (Some name, split_after_eq tokens)
      | _ \<Rightarrow> (None, tokens))"

lemma collect_from_shrinks: "length (snd (collect_from d ts)) \<le> length ts"
proof (induction ts arbitrary: d)
  case (Cons t ts)
  from Cons.IH [of d] Cons.IH [of "d + 1"] show ?case
    by (auto simp: case_prod_beta Let_def)
qed simp

lemma collect_progress:
  assumes "\<not> is_punct (CHR '','') t"
  shows "length (snd (collect_arg_trees (t # ts))) < length (t # ts)"
  using assms collect_from_shrinks [of 0 ts] collect_from_shrinks [of 1 ts]
  by (auto simp: collect_arg_trees_def split: prod.splits)

text \<open>The argument loop of \<open>parse\<close>.\<close>

function parse_args :: "token list \<Rightarrow> (string option \<times> token list) list" where
  "parse_args [] = []"
| "parse_args (t # ts) =
     (if is_punct (CHR '','') t then parse_args ts
      else
        let arg = fst (collect_arg_trees (t # ts)) in
        if arg = [] then []
        else parse_arg arg # parse_args (snd (collect_arg_trees (t # ts))))"
  by pat_completeness auto

termination
  by (relation "measure length") (use collect_progress in force)+

definition parse_macro :: "token list \<Rightarrow> (string, format_input) outcome" where
  "parse_macro tts =
     (case tts of
        [] \<Rightarrow> Err ''expected format string literal''
      | Literal (StrLit v) # ts \<Rightarrow>
          Ok \<lparr>format_string = v, format_literal = Literal (StrLit v), args = parse_args ts\<rparr>
      | _ # _ \<Rightarrow> Err ''expected a string literal'')"

section \<open>Emission\<close>

text \<open>The tokens of \<open>::rustyfill::try_fmt::<wrapper>::new(&(expr))\<close>.\<close>

definition path_sep :: "token list" where
  "path_sep = [Punct (CHR '':'') Joint, Punct (CHR '':'') Alone]"

definition wrapper_call :: "string \<Rightarrow> token list \<Rightarrow> token list" where
  "wrapper_call wrapper expr =
     path_sep @ [Ident ''rustyfill''] @ path_sep @ [Ident ''try_fmt''] @ path_sep @ [Ident wrapper] @
     path_sep @ [Ident ''new'', Group Parenthesis [Punct (CHR ''&'') Alone, Group Parenthesis expr]]"

fun wrap_expr :: "wrap_kind \<Rightarrow> token list \<Rightarrow> token list" where
  "wrap_expr KDebug e = wrapper_call ''TryDebugWrapper'' e"
| "wrap_expr KDisplay e = wrapper_call ''TryDisplayWrapper'' e"
| "wrap_expr KMulti e = wrapper_call ''TryDisplayWrapper'' e"
| "wrap_expr KLowerHex e = wrapper_call ''TryLowerHexWrapper'' e"
| "wrap_expr KUpperHex e = wrapper_call ''TryUpperHexWrapper'' e"
| "wrap_expr KLowerExp e = wrapper_call ''TryLowerExpWrapper'' e"
| "wrap_expr KUpperExp e = wrapper_call ''TryUpperExpWrapper'' e"
| "wrap_expr KMeasure e = e"

text \<open>\<open>syn::Ident::new\<close> panics on a raw identifier, which its caller must build with \<open>new_raw\<close>; every
  other name here comes from an identifier token.\<close>

definition ident_new :: "string \<Rightarrow> (string, token) outcome" where
  "ident_new name =
     (if take 2 name = ''r#'' then Panic ''not a valid Ident'' else Ok (Ident name))"

definition auto_default :: "format_analysis \<Rightarrow> wrap_kind option" where
  "auto_default a =
     (case auto_kinds a of
        [] \<Rightarrow> None
      | first # _ \<Rightarrow>
          if list_all (\<lambda>k. k = first) (auto_kinds a) then Some first else Some KDisplay)"

definition arg_wrap :: "format_analysis \<Rightarrow> nat \<Rightarrow> string option \<Rightarrow> wrap_kind option" where
  "arg_wrap a i maybe_name =
     (case maybe_name of
        Some name \<Rightarrow> named a name
      | None \<Rightarrow> if auto_default a \<noteq> None then auto_default a else positional a i)"

definition emit_arg ::
  "format_analysis \<Rightarrow> nat \<Rightarrow> string option \<times> token list \<Rightarrow> (string, token list) outcome" where
  "emit_arg a i arg =
     (case arg of (maybe_name, expr) \<Rightarrow>
        let wrapped = (case arg_wrap a i maybe_name of Some k \<Rightarrow> wrap_expr k expr | None \<Rightarrow> expr) in
        case maybe_name of
          Some name \<Rightarrow> map_ok (\<lambda>ident. ident # Punct (CHR ''='') Alone # wrapped) (ident_new name)
        | None \<Rightarrow> Ok wrapped)"

fun emit_args ::
  "format_analysis \<Rightarrow> nat \<Rightarrow> (string option \<times> token list) list \<Rightarrow> (string, token list list) outcome"
where
  "emit_args a i [] = Ok []"
| "emit_args a i (x # xs) =
     (case emit_arg a i x of
        Ok e \<Rightarrow> map_ok ((#) e) (emit_args a (i + 1) xs)
      | Err m \<Rightarrow> Err m
      | Panic m \<Rightarrow> Panic m
      | UB \<Rightarrow> UB)"

text \<open>\<open>#(...),*\<close> of \<open>quote!\<close>: the pieces with a comma between each two.\<close>

fun comma_separated :: "token list list \<Rightarrow> token list" where
  "comma_separated [] = []"
| "comma_separated [e] = e"
| "comma_separated (e # f # es) = e @ Punct (CHR '','') Alone # comma_separated (f # es)"

definition format_args_call :: "token list \<Rightarrow> token list" where
  "format_args_call inner =
     Ident ''core'' # path_sep @
     [Ident ''format_args'', Punct (CHR ''!'') Alone, Group Parenthesis inner]"

definition emit :: "format_input \<Rightarrow> (string, token list) outcome" where
  "emit input =
     map_ok (\<lambda>formatted. format_args_call
         (if formatted = [] then [format_literal input]
          else format_literal input # Punct (CHR '','') Alone # comma_separated formatted))
       (emit_args (analyze_format_string (format_string input)) 0 (args input))"

text \<open>The tokens of \<open>syn::Error::to_compile_error\<close>, without its spans.\<close>

definition to_compile_error :: "string \<Rightarrow> token list" where
  "to_compile_error msg =
     path_sep @ [Ident ''core''] @ path_sep @
     [Ident ''compile_error'', Punct (CHR ''!'') Alone, Group Brace [Literal (StrLit msg)]]"

definition try_format_args :: "token list \<Rightarrow> (string, token list) outcome" where
  "try_format_args input =
     (case parse_macro input of
        Ok result \<Rightarrow> emit result
      | Err err \<Rightarrow> Ok (to_compile_error err)
      | Panic m \<Rightarrow> Panic m
      | UB \<Rightarrow> UB)"

end
