(* ===== verification/FormatGrammar.thy ===== *)
theory FormatGrammar
  imports FormatArgs
begin

text \<open>
  What \<open>try_format_args!\<close> makes of a format string. A well-formed string is printed from pieces (literal
  text, escaped braces, placeholders); the pieces say which slot is used with which kind, and the scan
  finds exactly these uses, merged per slot in the semilattice of the wrapper kinds.
\<close>

section \<open>The semilattice of wrapper kinds\<close>

text \<open>\<open>KMeasure\<close> is the least kind, \<open>KMulti\<close> the greatest, the others are incomparable; \<open>merge\<close> is the
  least upper bound.\<close>

instantiation wrap_kind :: "{bounded_semilattice_sup_bot, order_top}"
begin

definition less_eq_wrap_kind :: "wrap_kind \<Rightarrow> wrap_kind \<Rightarrow> bool" where
  "less_eq_wrap_kind a b = (a = b \<or> a = KMeasure \<or> b = KMulti)"

definition less_wrap_kind :: "wrap_kind \<Rightarrow> wrap_kind \<Rightarrow> bool" where
  "less_wrap_kind a b = (a \<noteq> b \<and> (a = KMeasure \<or> b = KMulti))"

definition bot_wrap_kind :: wrap_kind where
  "bot_wrap_kind = KMeasure"

definition top_wrap_kind :: wrap_kind where
  "top_wrap_kind = KMulti"

definition sup_wrap_kind :: "wrap_kind \<Rightarrow> wrap_kind \<Rightarrow> wrap_kind" where
  "sup_wrap_kind a b = merge_kinds a b"

instance
  by standard
    (auto simp: less_eq_wrap_kind_def less_wrap_kind_def bot_wrap_kind_def top_wrap_kind_def
      sup_wrap_kind_def merge_kinds_def split: if_splits)

end

lemmas wrap_kind_lattice =
  sup_wrap_kind_def [symmetric] bot_wrap_kind_def [symmetric] top_wrap_kind_def [symmetric]

text \<open>What the uses of a slot amount to: nothing when there is none, a bare measure, the one kind it is
  displayed with, or a conflict.\<close>

definition displayed :: "wrap_kind set \<Rightarrow> wrap_kind set" where
  "displayed ks = ks - {KMeasure}"

definition slot_kind :: "wrap_kind set \<Rightarrow> wrap_kind option" where
  "slot_kind ks =
     (if ks = {} then None
      else if displayed ks = {} then Some KMeasure
      else if card (displayed ks) = 1 then Some (the_elem (displayed ks))
      else Some KMulti)"

text \<open>The same as a join: the form in which the scan computes it.\<close>

definition merge_opt :: "wrap_kind option \<Rightarrow> wrap_kind \<Rightarrow> wrap_kind option" where
  "merge_opt e k = Some (case e of None \<Rightarrow> k | Some e \<Rightarrow> merge_kinds e k)"

lemma slot_kind_insert:
  assumes "finite ks" shows "slot_kind (insert k ks) = merge_opt (slot_kind ks) k"
proof -
  have fin: "finite (displayed ks)" using assms by (simp add: displayed_def)
  show ?thesis
  proof (cases "k = KMeasure")
    case True
    then have "displayed (insert k ks) = displayed ks" by (simp add: displayed_def)
    with True show ?thesis
      by (auto simp: slot_kind_def merge_opt_def merge_kinds_def displayed_def)
  next
    case False
    then have ins: "displayed (insert k ks) = insert k (displayed ks)" by (auto simp: displayed_def)
    consider "displayed ks = {}" | d where "displayed ks = {d}" | "1 < card (displayed ks)"
      using fin by (metis card_0_eq card_1_singletonE less_one linorder_neqE_nat)
    then show ?thesis
    proof cases
      case 1
      with False ins show ?thesis
        by (auto simp: slot_kind_def merge_opt_def merge_kinds_def)
    next
      case (2 d)
      then have "ks \<noteq> {}" "d \<noteq> KMeasure" by (auto simp: displayed_def)
      with 2 False ins show ?thesis
        by (cases "k = d") (auto simp: slot_kind_def merge_opt_def merge_kinds_def)
    next
      case 3
      then have "displayed ks \<noteq> {}" by auto
      moreover then have "ks \<noteq> {}" by (auto simp: displayed_def)
      moreover have "1 < card (insert k (displayed ks))"
        using 3 fin by (metis card_insert_le order_less_le_trans)
      ultimately show ?thesis
        using 3 ins False by (auto simp: slot_kind_def merge_opt_def merge_kinds_def)
    qed
  qed
qed

lemma merge_kind_p_opt: "merge_kind_p m i k = m(i := merge_opt (m i) k)"
  by (simp add: merge_kind_p_def merge_opt_def)

lemma merge_kind_n_opt: "merge_kind_n m n k = m(n := merge_opt (m n) k)"
  by (simp add: merge_kind_n_def merge_opt_def)

section \<open>Uses of slots\<close>

type_synonym slot_use = "arg_kind \<times> wrap_kind"

abbreviation no_uses :: format_analysis where
  "no_uses \<equiv> \<lparr>positional = Map.empty, named = Map.empty, auto_kinds = []\<rparr>"

definition record_uses :: "slot_use list \<Rightarrow> format_analysis \<Rightarrow> format_analysis" where
  "record_uses us a = fold (\<lambda>(k, w). record_use k w) us a"

lemma record_uses_simps [simp]:
  "record_uses [] a = a"
  "record_uses ((k, w) # us) a = record_uses us (record_use k w a)"
  "record_uses (us @ vs) a = record_uses vs (record_uses us a)"
  by (simp_all add: record_uses_def)

definition kinds_at :: "arg_kind \<Rightarrow> slot_use list \<Rightarrow> wrap_kind set" where
  "kinds_at k us = {w. (k, w) \<in> set us}"

lemma finite_kinds_at [simp]: "finite (kinds_at k us)"
  by (rule finite_subset [of _ "snd ` set us"]) (force simp: kinds_at_def)+

lemma kinds_at_simps [simp]:
  "kinds_at k [] = {}"
  "kinds_at k (us @ [(j, w)]) = (if j = k then insert w (kinds_at k us) else kinds_at k us)"
  by (auto simp: kinds_at_def)

lemma record_uses_slots:
  "positional (record_uses us no_uses) i = slot_kind (kinds_at (Positional i) us)"
  "named (record_uses us no_uses) n = slot_kind (kinds_at (Named n) us)"
  "auto_kinds (record_uses us no_uses) = [w. (k, w) \<leftarrow> us, k = Auto]"
proof (induction us rule: rev_induct)
  case Nil
  show "positional (record_uses [] no_uses) i = slot_kind (kinds_at (Positional i) [])"
    "named (record_uses [] no_uses) n = slot_kind (kinds_at (Named n) [])"
    "auto_kinds (record_uses [] no_uses) = [w. (k, w) \<leftarrow> [], k = Auto]"
    by (simp_all add: slot_kind_def)
next
  case (snoc u us)
  obtain k w where u: "u = (k, w)" by fastforce
  show "positional (record_uses (us @ [u]) no_uses) i = slot_kind (kinds_at (Positional i) (us @ [u]))"
    by (cases k) (auto simp: u snoc merge_kind_p_opt slot_kind_insert)
  show "named (record_uses (us @ [u]) no_uses) n = slot_kind (kinds_at (Named n) (us @ [u]))"
    by (cases k) (auto simp: u snoc merge_kind_n_opt slot_kind_insert)
  show "auto_kinds (record_uses (us @ [u]) no_uses) = [w. (k, w) \<leftarrow> us @ [u], k = Auto]"
    by (cases k) (auto simp: u snoc)
qed

section \<open>The grammar of format strings\<close>

text \<open>A decimal number, without leading zeros.\<close>

definition digit_char :: "nat \<Rightarrow> char" where
  "digit_char d = ''0123456789'' ! d"

fun decimal :: "nat \<Rightarrow> string" where
  "decimal n = (if n < 10 then [digit_char n] else decimal (n div 10) @ [digit_char (n mod 10)])"

declare decimal.simps [simp del]

text \<open>A count is a number, a numbered argument or a named one; \<open>CStar\<close> takes the next argument.\<close>

datatype count = CNum nat | CArg nat | CName string | CStar

record spec =
  flags :: string
  width :: "count option"
  precision :: "count option"
  type_char :: "char option"

datatype piece = Text string | OpenBrace | CloseBrace | Hole arg_kind "spec option"

fun print_arg :: "arg_kind \<Rightarrow> string" where
  "print_arg (Positional i) = decimal i"
| "print_arg (Named n) = n"
| "print_arg Auto = []"

fun print_count :: "count \<Rightarrow> string" where
  "print_count (CNum n) = decimal n"
| "print_count (CArg i) = decimal i @ ''$''"
| "print_count (CName n) = n @ ''$''"
| "print_count CStar = ''*''"

definition print_spec :: "spec \<Rightarrow> string" where
  "print_spec s = flags s
     @ (case width s of None \<Rightarrow> [] | Some c \<Rightarrow> print_count c)
     @ (case precision s of None \<Rightarrow> [] | Some c \<Rightarrow> CHR ''.'' # print_count c)
     @ (case type_char s of None \<Rightarrow> [] | Some c \<Rightarrow> [c])"

fun print_piece :: "piece \<Rightarrow> string" where
  "print_piece (Text t) = t"
| "print_piece OpenBrace = ''{{''"
| "print_piece CloseBrace = ''}}''"
| "print_piece (Hole k None) = CHR ''{'' # print_arg k @ ''}''"
| "print_piece (Hole k (Some s)) = CHR ''{'' # print_arg k @ CHR '':'' # print_spec s @ ''}''"

definition print_pieces :: "piece list \<Rightarrow> string" where
  "print_pieces ps = concat (map print_piece ps)"

text \<open>Well-formed parts: an identifier starts with a letter or an underscore; the type is one of the
  one-letter ones. A width may not be \<open>0$\<close> and, when it is named, no precision follows; a precision of
  any form but \<open>.*\<close>, which takes an argument of its own, is allowed.\<close>

definition ident_ok :: "string \<Rightarrow> bool" where
  "ident_ok n = (case n of [] \<Rightarrow> False
     | c # cs \<Rightarrow> (is_alphabetic c \<or> c = CHR ''_'') \<and> list_all ident_char cs)"

fun arg_ok :: "arg_kind \<Rightarrow> bool" where
  "arg_ok (Positional i) = (i \<le> usize_max)"
| "arg_ok (Named n) = ident_ok n"
| "arg_ok Auto = True"

fun width_ok :: "count option \<Rightarrow> count option \<Rightarrow> bool" where
  "width_ok None p = True"
| "width_ok (Some (CNum n)) p = (0 < n)"
| "width_ok (Some (CArg i)) p = (0 < i \<and> i \<le> usize_max)"
| "width_ok (Some (CName n)) p = (ident_ok n \<and> p = None)"
| "width_ok (Some CStar) p = False"

fun precision_ok :: "count option \<Rightarrow> bool" where
  "precision_ok None = True"
| "precision_ok (Some (CNum n)) = True"
| "precision_ok (Some (CArg i)) = (i \<le> usize_max)"
| "precision_ok (Some (CName n)) = ident_ok n"
| "precision_ok (Some CStar) = False"

definition spec_ok :: "spec \<Rightarrow> bool" where
  "spec_ok s = (list_all flag_char (flags s) \<and> width_ok (width s) (precision s) \<and>
     precision_ok (precision s) \<and> (\<forall>c. type_char s = Some c \<longrightarrow> c \<in> set ''?oxXpbeE''))"

fun piece_ok :: "piece \<Rightarrow> bool" where
  "piece_ok (Text t) = (CHR ''{'' \<notin> set t)"
| "piece_ok (Hole k None) = arg_ok k"
| "piece_ok (Hole k (Some s)) = (arg_ok k \<and> spec_ok s)"
| "piece_ok p = True"

text \<open>The uses a piece makes of the arguments, counts first.\<close>

fun count_uses :: "count option \<Rightarrow> slot_use list" where
  "count_uses (Some (CArg i)) = [(Positional i, KMeasure)]"
| "count_uses (Some (CName n)) = [(Named n, KMeasure)]"
| "count_uses _ = []"

fun piece_uses :: "piece \<Rightarrow> slot_use list" where
  "piece_uses (Hole k None) = [(k, KDisplay)]"
| "piece_uses (Hole k (Some s)) =
     count_uses (width s) @ count_uses (precision s) @ [(k, kind_of_char (type_char s))]"
| "piece_uses p = []"

definition pieces_uses :: "piece list \<Rightarrow> slot_use list" where
  "pieces_uses ps = concat (map piece_uses ps)"

section \<open>The scan finds the uses\<close>

lemma span_stop:
  assumes "\<forall>x\<in>set xs. P x" and "\<not> P c"
  shows "takeWhile P (xs @ c # r) = xs" "dropWhile P (xs @ c # r) = c # r"
  using assms by (simp_all add: takeWhile_append2 dropWhile_append2)

lemma digit_char_props:
  assumes "d < 10"
  shows "is_ascii_digit (digit_char d)" "of_char (digit_char d) = 48 + d"
    "digit_char d = CHR ''0'' \<longleftrightarrow> d = 0"
proof -
  have "d = 0 \<or> d = 1 \<or> d = 2 \<or> d = 3 \<or> d = 4 \<or> d = 5 \<or> d = 6 \<or> d = 7 \<or> d = 8 \<or> d = 9"
    using assms by arith
  then show "is_ascii_digit (digit_char d)" "of_char (digit_char d) = 48 + d"
    "digit_char d = CHR ''0'' \<longleftrightarrow> d = 0"
    by (elim disjE; simp add: is_ascii_digit_def digit_char_def)+
qed

lemma decimal_digits: "\<forall>c\<in>set (decimal n). is_ascii_digit c"
  by (induction n rule: decimal.induct) (subst decimal.simps, auto simp: digit_char_props)

lemma decimal_nonempty: "decimal n \<noteq> []"
  by (subst decimal.simps) auto

lemma digits_value_snoc: "digits_value (ds @ [c]) = 10 * digits_value ds + (of_char c - 48)"
  by (simp add: digits_value_def)

lemma digits_value_decimal [simp]: "digits_value (decimal n) = n"
proof (induction n rule: decimal.induct)
  case (1 n)
  show ?case
  proof (cases "n < 10")
    case True
    then show ?thesis by (subst decimal.simps) (simp add: digits_value_def digit_char_props)
  next
    case False
    with 1 show ?thesis
      by (subst decimal.simps) (simp add: digits_value_snoc digit_char_props)
  qed
qed

lemma parse_usize_decimal: "n \<le> usize_max \<Longrightarrow> parse_usize (decimal n) = n"
  by (simp add: parse_usize_def)

lemma decimal_head: "0 < n \<Longrightarrow> hd (decimal n) \<noteq> CHR ''0''"
proof (induction n rule: decimal.induct)
  case (1 n)
  show ?case
  proof (cases "n < 10")
    case True
    with "1.prems" show ?thesis by (subst decimal.simps) (simp add: digit_char_props)
  next
    case False
    then have "0 < n div 10" by simp
    with 1 False show ?thesis by (subst decimal.simps) (simp add: decimal_nonempty)
  qed
qed

end
