(* ===== verification/FormatProps.thy ===== *)
theory FormatProps
  imports FormatGrammar
begin

text \<open>
  The scan of the format string against the grammar of \<open>FormatGrammar\<close>, the argument loop and the
  emission of \<open>try_format_args!\<close> on whole inputs, and the inputs the macro misreads.
\<close>

section \<open>Character classes\<close>

lemma not_ident_chars [simp]:
  "\<not> ident_char (CHR ''$'')" "\<not> ident_char (CHR ''}'')" "\<not> ident_char (CHR '':'')"
  "\<not> ident_char (CHR ''.'')" "\<not> ident_char (CHR ''*'')"
  "\<not> is_ascii_digit (CHR ''$'')" "\<not> is_ascii_digit (CHR ''}'')" "\<not> is_ascii_digit (CHR '':'')"
  "\<not> is_ascii_digit (CHR ''.'')"
  "\<not> is_alphabetic (CHR ''}'')" "\<not> is_alphabetic (CHR ''?'')"
  "\<not> is_ascii_digit (CHR ''_'')" "ident_char (CHR ''_'')"
  by (simp_all add: ident_char_def is_alphanumeric_def is_alphabetic_def is_numeric_def
      is_ascii_digit_def)

lemma flag_char_cases:
  assumes "flag_char c" shows "\<not> is_alphabetic c" "c \<noteq> CHR ''_''" "is_ascii_digit c \<Longrightarrow> c = CHR ''0''"
  using assms by (auto simp: flag_char_def is_alphabetic_def is_ascii_digit_def)

lemma not_flag_chars [simp]:
  "\<not> flag_char (CHR ''$'')" "\<not> flag_char (CHR ''}'')" "\<not> flag_char (CHR ''.'')"
  by (simp_all add: flag_char_def)

lemma alphabetic_not_digit: "is_alphabetic c \<Longrightarrow> \<not> is_ascii_digit c"
  by (auto simp: is_alphabetic_def is_ascii_digit_def Let_def)

lemma alphabetic_ident: "is_alphabetic c \<Longrightarrow> ident_char c"
  by (simp add: ident_char_def is_alphanumeric_def)

lemma ident_okE:
  assumes "ident_ok n"
  obtains c cs where "n = c # cs" "is_alphabetic c \<or> c = CHR ''_''" "\<not> is_ascii_digit c"
    "\<not> flag_char c" "ident_char c" "c \<notin> set ''*.$}:{''" "\<forall>x\<in>set n. ident_char x"
proof -
  obtain c cs where n: "n = c # cs" "is_alphabetic c \<or> c = CHR ''_''" "\<forall>x\<in>set cs. ident_char x"
    using assms by (auto simp: ident_ok_def list_all_iff split: list.splits)
  moreover have "ident_char c" using n(2) alphabetic_ident by auto
  moreover have "\<not> is_ascii_digit c" using n(2) alphabetic_not_digit by auto
  moreover have "\<not> flag_char c" using n(2) flag_char_cases(1,2) by blast
  moreover have "c \<notin> set ''*.$}:{''"
    using n(2) by (auto simp: is_alphabetic_def)
  ultimately show thesis by (intro that) auto
qed

definition type_text :: "char option \<Rightarrow> string" where
  "type_text ty = (case ty of None \<Rightarrow> [] | Some c \<Rightarrow> [c])"

definition type_ok :: "char option \<Rightarrow> bool" where
  "type_ok ty = (\<forall>c. ty = Some c \<longrightarrow> c \<in> set ''?oxXpbeE'')"

text \<open>What may follow a count: a dot, a type character or the closing brace.\<close>

lemma type_head:
  assumes "type_ok ty"
  obtains c cs where "type_text ty @ CHR ''}'' # r = c # cs" "\<not> is_ascii_digit c" "\<not> flag_char c"
    "c \<notin> set ''*.$:''"
proof (cases ty)
  case None
  then show thesis by (intro that) (auto simp: type_text_def)
next
  case (Some c)
  then have "c \<in> set ''?oxXpbeE''" using assms by (simp add: type_ok_def)
  then have "\<not> is_ascii_digit c \<and> \<not> flag_char c \<and> c \<notin> set ''*.$:''"
    by (auto simp: is_ascii_digit_def flag_char_def)
  with Some show thesis by (intro that) (auto simp: type_text_def)
qed

section \<open>The parsers on printed parts\<close>

lemma parse_arg_spec_print:
  assumes "arg_ok k" and "c = CHR '':'' \<or> c = CHR ''}''"
  shows "parse_arg_spec (print_arg k @ c # r) = (k, c # r)"
proof (cases k)
  case (Positional i)
  have stop: "\<not> is_ascii_digit c" using assms(2) by auto
  obtain d ds where d: "decimal i = d # ds" using decimal_nonempty by (metis neq_Nil_conv)
  then have dig: "is_ascii_digit d" using decimal_digits [of i] by simp
  then have "d \<noteq> CHR '':''" "d \<noteq> CHR ''}''" by (auto simp: is_ascii_digit_def)
  moreover have "parse_usize (d # ds) = i" using parse_usize_decimal [of i] d assms(1) Positional by simp
  ultimately show ?thesis
    using dig d span_stop [OF decimal_digits stop, of i r] by (simp add: Positional)
next
  case (Named n)
  have stop: "\<not> ident_char c" using assms(2) by auto
  from assms(1) Named obtain a as' where a: "n = a # as'" "\<not> is_ascii_digit a" "a \<notin> set ''*.$}:{''"
    "\<forall>x\<in>set n. ident_char x" by (auto elim: ident_okE)
  with span_stop [OF a(4) stop, of r] show ?thesis by (simp add: Named)
next
  case Auto
  with assms(2) show ?thesis by auto
qed

lemma parse_count_number:
  assumes "\<not> is_ascii_digit c" and "c \<noteq> CHR ''$''"
  shows "parse_width_or_precision (decimal n @ c # r) pm = (c # r, pm)"
proof -
  obtain d ds where d: "decimal n = d # ds" using decimal_nonempty by (metis neq_Nil_conv)
  then have "is_ascii_digit d" using decimal_digits [of n] by simp
  moreover from this have "d \<noteq> CHR ''*''" by (auto simp: is_ascii_digit_def)
  ultimately show ?thesis
    using d span_stop [OF decimal_digits assms(1), of n r] assms(2) by simp
qed

lemma parse_count_arg:
  assumes "i \<le> usize_max"
  shows "parse_width_or_precision (decimal i @ CHR ''$'' # r) pm = (r, merge_kind_p pm i KMeasure)"
proof -
  obtain d ds where d: "decimal i = d # ds" using decimal_nonempty by (metis neq_Nil_conv)
  then have "is_ascii_digit d" using decimal_digits [of i] by simp
  moreover from this have "d \<noteq> CHR ''*''" by (auto simp: is_ascii_digit_def)
  ultimately show ?thesis
    using d span_stop [OF decimal_digits, of "CHR ''$''" i r] parse_usize_decimal [OF assms] by simp
qed

lemma parse_count_none:
  assumes "\<not> is_ascii_digit c" and "c \<noteq> CHR ''*''"
  shows "parse_width_or_precision (c # r) pm = (c # r, pm)"
  using assms by simp

lemma parse_type_text:
  assumes "type_ok ty"
  shows "parse_type (type_text ty @ CHR ''}'' # r) nm = (ty, CHR ''}'' # r, nm)"
proof (cases ty)
  case None
  then show ?thesis by (simp add: parse_type_def type_text_def)
next
  case (Some c)
  then have c: "c = CHR ''?'' \<or> is_alphabetic c" "c \<noteq> CHR ''}''" "c \<noteq> CHR ''_''"
    using assms by (auto simp: type_ok_def is_alphabetic_def)
  show ?thesis
  proof (cases "is_alphabetic c")
    case True
    then show ?thesis using Some by (simp add: parse_type_def type_text_def alphabetic_ident)
  next
    case False
    with Some c show ?thesis by (simp add: parse_type_def type_text_def)
  qed
qed

lemma trailing_type_text:
  assumes "type_ok ty"
  shows "trailing_char (type_text ty @ CHR ''}'' # r) = (ty, CHR ''}'' # r)"
  using assms by (cases ty) (auto simp: type_text_def type_ok_def)

lemma parse_type_name:
  assumes "ident_ok n" and "type_ok ty"
  shows "parse_type (n @ CHR ''$'' # type_text ty @ CHR ''}'' # r) nm =
    (ty, CHR ''}'' # r, merge_kind_n nm n KMeasure)"
proof -
  obtain c cs where n: "n = c # cs" "is_alphabetic c \<or> c = CHR ''_''" "\<forall>x\<in>set n. ident_char x"
    using assms(1) by (auto elim: ident_okE)
  have "takeWhile ident_char (n @ CHR ''$'' # s) = n" "dropWhile ident_char (n @ CHR ''$'' # s) = CHR ''$'' # s"
    for s using span_stop [OF n(3)] by simp_all
  then show ?thesis
    using n trailing_type_text [OF assms(2)] unfolding parse_type_def by (auto simp: Let_def)
qed

text \<open>The precision stage of \<open>parse_format_spec\<close>, after the width.\<close>

definition precision_stage ::
  "string \<Rightarrow> (nat \<rightharpoonup> wrap_kind) \<Rightarrow> string \<times> (nat \<rightharpoonup> wrap_kind)" where
  "precision_stage cs pm = (case cs of [] \<Rightarrow> (cs, pm)
     | c # ds \<Rightarrow> if c = CHR ''.'' then parse_width_or_precision ds pm else (cs, pm))"

lemma parse_format_spec_stages:
  assumes "parse_width_or_precision (dropWhile flag_char chars) pm = (cs, pm1)"
    and "precision_stage cs pm1 = (cs2, pm2)" and "parse_type cs2 nm = (f, left, nm2)"
  shows "parse_format_spec chars pm nm = (f, left, pm2, nm2)"
  using assms(2,3) by (simp add: parse_format_spec_def precision_stage_def [symmetric] assms(1))

definition count_text :: "count option \<Rightarrow> string" where
  "count_text w = (case w of None \<Rightarrow> [] | Some c \<Rightarrow> print_count c)"

definition precision_text :: "count option \<Rightarrow> string" where
  "precision_text p = (case p of None \<Rightarrow> [] | Some c \<Rightarrow> CHR ''.'' # print_count c)"

fun count_measure :: "count option \<Rightarrow> (nat \<rightharpoonup> wrap_kind) \<Rightarrow> (nat \<rightharpoonup> wrap_kind)" where
  "count_measure (Some (CArg i)) pm = merge_kind_p pm i KMeasure"
| "count_measure _ pm = pm"

fun count_name :: "count option \<Rightarrow> string \<Rightarrow> string" where
  "count_name (Some (CName n)) cs = n @ CHR ''$'' # cs"
| "count_name _ cs = cs"

lemma width_stage:
  assumes "width_ok w p" and "\<not> is_ascii_digit c" "c \<notin> set ''*$''"
  shows "parse_width_or_precision (count_text w @ c # r) pm =
    (count_name w (c # r), count_measure w pm)"
proof (cases "(w, p)" rule: width_ok.cases)
  case (4 n p)
  then obtain a as' where "n = a # as'" "\<not> is_ascii_digit a" "a \<notin> set ''*.$}:{''"
    using assms(1) by (auto elim: ident_okE)
  with 4 show ?thesis by (simp add: count_text_def)
qed (use assms in \<open>simp_all add: count_text_def parse_count_number parse_count_arg\<close>)

lemma precision_stage_print:
  assumes "precision_ok p" and "\<not> is_ascii_digit c" "c \<notin> set ''*$.''"
  shows "precision_stage (precision_text p @ c # r) pm = (count_name p (c # r), count_measure p pm)"
proof (cases p rule: precision_ok.cases)
  case (4 n)
  then obtain a as' where "n = a # as'" "\<not> is_ascii_digit a" "a \<notin> set ''*.$}:{''"
    using assms(1) by (auto elim: ident_okE)
  with 4 show ?thesis by (simp add: precision_text_def precision_stage_def)
qed (use assms in \<open>simp_all add: precision_text_def precision_stage_def parse_count_number parse_count_arg\<close>)

lemma parse_type_stage:
  assumes "type_ok ty" and "\<And>n. w = Some (CName n) \<Longrightarrow> ident_ok n"
  shows "parse_type (count_name w (type_text ty @ CHR ''}'' # r)) nm =
    (ty, CHR ''}'' # r, case w of Some (CName n) \<Rightarrow> merge_kind_n nm n KMeasure | _ \<Rightarrow> nm)"
proof (cases "\<exists>n. w = Some (CName n)")
  case True
  with assms show ?thesis by (auto simp: parse_type_name)
next
  case False
  then have "count_name w cs = cs" for cs by (cases w rule: width_ok.cases [of "(w, None)" for w]) auto
  with False show ?thesis using parse_type_text [OF assms(1)] by (auto split: option.splits count.splits)
qed

text \<open>The text of the counts does not start with a flag.\<close>

lemma width_head:
  assumes "width_ok w p" and "\<not> flag_char c"
  obtains d ds where "count_text w @ c # r = d # ds" "\<not> flag_char d"
proof (cases "(w, p)" rule: width_ok.cases)
  case (2 n p)
  obtain d ds where d: "decimal n = d # ds" using decimal_nonempty by (metis neq_Nil_conv)
  moreover have "\<not> flag_char d"
    using decimal_digits [of n] decimal_head [of n] d 2 assms(1) flag_char_cases(3) by force
  ultimately show thesis using 2 by (intro that) (auto simp: count_text_def)
next
  case (3 n p)
  obtain d ds where d: "decimal n = d # ds" using decimal_nonempty by (metis neq_Nil_conv)
  moreover have "\<not> flag_char d"
    using decimal_digits [of n] decimal_head [of n] d 3 assms(1) flag_char_cases(3) by force
  ultimately show thesis using 3 by (intro that) (auto simp: count_text_def)
next
  case (4 n p)
  then obtain a as' where "n = a # as'" "\<not> flag_char a" using assms(1) by (auto elim: ident_okE)
  with 4 show thesis by (intro that) (auto simp: count_text_def)
qed (use assms in \<open>auto simp: count_text_def intro: that\<close>)

definition spec_uses :: "spec \<Rightarrow> slot_use list" where
  "spec_uses s = count_uses (width s) @ count_uses (precision s)"

lemma print_spec_text:
  "print_spec s = flags s @ count_text (width s) @ precision_text (precision s) @ type_text (type_char s)"
  by (simp add: print_spec_def count_text_def precision_text_def type_text_def)

text \<open>What follows the width is a dot or the type, and so never part of the width.\<close>

lemma precision_head:
  assumes "type_ok ty"
  obtains c cs where "precision_text p @ type_text ty @ CHR ''}'' # r = c # cs"
    "\<not> is_ascii_digit c" "\<not> flag_char c" "c \<notin> set ''*$''"
proof (cases p)
  case None
  obtain c cs where "type_text ty @ CHR ''}'' # r = c # cs" "\<not> is_ascii_digit c" "\<not> flag_char c"
    "c \<notin> set ''*.$:''" using type_head [OF assms] .
  with None show thesis by (intro that) (auto simp: precision_text_def)
next
  case (Some n)
  then show thesis by (intro that) (auto simp: precision_text_def)
qed

lemma parse_format_spec_print:
  assumes "spec_ok s"
  shows "parse_format_spec (print_spec s @ CHR ''}'' # r) (positional a) (named a) =
    (type_char s, CHR ''}'' # r, positional (record_uses (spec_uses s) a),
      named (record_uses (spec_uses s) a))"
proof -
  let ?w = "width s" and ?p = "precision s"
  let ?T = "type_text (type_char s) @ CHR ''}'' # r"
  let ?P = "precision_text ?p @ ?T"
  have flags: "list_all flag_char (flags s)" and w: "width_ok ?w ?p" and p: "precision_ok ?p"
    and ty: "type_ok (type_char s)"
    using assms by (simp_all add: spec_ok_def type_ok_def)
  obtain c cs where P: "?P = c # cs" "\<not> is_ascii_digit c" "\<not> flag_char c" "c \<notin> set ''*$''"
    using precision_head [OF ty] by blast
  obtain d ds where W: "count_text ?w @ ?P = d # ds" "\<not> flag_char d"
    using width_head [OF w P(3), of cs] P(1) by metis
  obtain t ts where T: "?T = t # ts" "\<not> is_ascii_digit t" "t \<notin> set ''*.$:''"
    using type_head [OF ty] by metis
  have drop: "dropWhile flag_char (print_spec s @ CHR ''}'' # r) = count_text ?w @ ?P"
    using flags W by (simp add: print_spec_text dropWhile_append2 list_all_iff)
  have wst: "parse_width_or_precision (count_text ?w @ ?P) pm = (count_name ?w ?P, count_measure ?w pm)"
    for pm using width_stage [OF w P(2,4)] P(1) by simp
  have pst: "precision_stage ?P pm = (count_name ?p ?T, count_measure ?p pm)" for pm
    using precision_stage_print [OF p T(2), of ts pm] T(1,3) by simp
  show ?thesis
  proof (cases "\<exists>n. ?w = Some (CName n)")
    case True
    then obtain n where n: "?w = Some (CName n)" "ident_ok n" "?p = None" using w by auto
    then have "precision_stage (count_name ?w ?P) pm = (count_name ?w ?T, pm)" for pm
      by (auto simp: precision_stage_def precision_text_def elim: ident_okE)
    moreover have "parse_type (count_name ?w ?T) (named a) =
        (type_char s, CHR ''}'' # r, merge_kind_n (named a) n KMeasure)"
      using parse_type_name [OF n(2) ty] n(1) by simp
    ultimately have "parse_format_spec (print_spec s @ CHR ''}'' # r) (positional a) (named a) =
        (type_char s, CHR ''}'' # r, count_measure ?w (positional a), merge_kind_n (named a) n KMeasure)"
      by (rule parse_format_spec_stages [OF wst [folded drop]])
    with n show ?thesis by (simp add: spec_uses_def)
  next
    case False
    then have "count_name ?w cs = cs" for cs by (cases ?w rule: option.exhaust; cases "the ?w") auto
    then have "precision_stage (count_name ?w ?P) pm = (count_name ?p ?T, count_measure ?p pm)" for pm
      using pst by simp
    moreover have "parse_type (count_name ?p ?T) (named a) = (type_char s, CHR ''}'' # r,
        case ?p of Some (CName n) \<Rightarrow> merge_kind_n (named a) n KMeasure | _ \<Rightarrow> named a)"
      using p by (intro parse_type_stage [OF ty]) auto
    ultimately have "parse_format_spec (print_spec s @ CHR ''}'' # r) (positional a) (named a) =
        (type_char s, CHR ''}'' # r, count_measure ?p (count_measure ?w (positional a)),
          case ?p of Some (CName n) \<Rightarrow> merge_kind_n (named a) n KMeasure | _ \<Rightarrow> named a)"
      by (rule parse_format_spec_stages [OF wst [folded drop]])
    moreover have "positional (record_uses (count_uses q) b) = count_measure q (positional b)"
      "named (record_uses (count_uses q) b) =
        (case q of Some (CName n) \<Rightarrow> merge_kind_n (named b) n KMeasure | _ \<Rightarrow> named b)" for q b
      by (cases q; cases "the q"; simp)+
    ultimately show ?thesis
      using False by (auto simp: spec_uses_def split: option.splits count.splits)
  qed
qed

lemma auto_kinds_counts [simp]: "auto_kinds (record_uses (spec_uses s) a) = auto_kinds a"
proof -
  have "auto_kinds (record_uses (count_uses q) b) = auto_kinds b" for q b
    by (cases q; cases "the q"; simp)
  then show ?thesis by (simp add: spec_uses_def)
qed

lemma placeholder_print:
  assumes "arg_ok k"
  shows "placeholder (print_arg k @ CHR ''}'' # r) a = (r, record_use k KDisplay a)"
    and "spec_ok s \<Longrightarrow> placeholder (print_arg k @ CHR '':'' # print_spec s @ CHR ''}'' # r) a =
      (r, record_uses (spec_uses s @ [(k, kind_of_char (type_char s))]) a)"
proof -
  show "placeholder (print_arg k @ CHR ''}'' # r) a = (r, record_use k KDisplay a)"
    using parse_arg_spec_print [OF assms, of "CHR ''}''" r]
    by (simp add: placeholder_def kind_of_char_def)
next
  assume "spec_ok s"
  have eq: "a\<lparr>positional := positional (record_uses (spec_uses s) a), named := named (record_uses (spec_uses s) a)\<rparr>
      = record_uses (spec_uses s) a"
    by (cases a; cases "record_uses (spec_uses s) a")
      (use auto_kinds_counts [of s a] in auto)
  show "placeholder (print_arg k @ CHR '':'' # print_spec s @ CHR ''}'' # r) a =
      (r, record_uses (spec_uses s @ [(k, kind_of_char (type_char s))]) a)"
    using parse_arg_spec_print [OF assms, of "CHR '':''"] parse_format_spec_print [OF \<open>spec_ok s\<close>, of r a]
    by (simp add: placeholder_def eq)
qed

lemma analyze_text: "CHR ''{'' \<notin> set t \<Longrightarrow> analyze_from (t @ r) a = analyze_from r a"
  by (induction t) auto

lemma print_arg_head:
  assumes "arg_ok k" and "c = CHR '':'' \<or> c = CHR ''}''"
  shows "hd (print_arg k @ c # r) \<noteq> CHR ''{''"
proof (cases k)
  case (Positional i)
  obtain d ds where d: "decimal i = d # ds" using decimal_nonempty by (metis neq_Nil_conv)
  then have "is_ascii_digit d" using decimal_digits [of i] by simp
  with d Positional show ?thesis by (auto simp: is_ascii_digit_def)
qed (use assms in \<open>auto elim: ident_okE\<close>)

lemma analyze_piece:
  assumes "piece_ok p"
  shows "analyze_from (print_piece p @ r) a = analyze_from r (record_uses (piece_uses p) a)"
proof (cases p rule: piece_ok.cases)
  case (1 t)
  with assms show ?thesis by (simp add: analyze_text)
next
  case (2 k)
  with assms print_arg_head [of k "CHR ''}''" r] placeholder_print(1) [of k r a] show ?thesis
    by auto
next
  case (3 k s)
  with assms print_arg_head [of k "CHR '':''"] placeholder_print(2) [of k s r a] show ?thesis
    by (auto simp: spec_uses_def)
qed auto

lemma analyze_pieces:
  assumes "list_all piece_ok ps"
  shows "analyze_from (print_pieces ps) a = record_uses (pieces_uses ps) a"
  using assms
proof (induction ps arbitrary: a)
  case (Cons p ps)
  then show ?case using analyze_piece [of p "print_pieces ps" a]
    by (simp add: print_pieces_def pieces_uses_def)
qed (simp add: print_pieces_def pieces_uses_def)

text \<open>The scan of a well-formed format string finds the use of every argument slot: a slot
  that is displayed, however often and in whatever order, with one formatting trait gets that trait's
  wrapper, one displayed with several conflicting traits is \<open>KMulti\<close>, one that only supplies widths and
  precisions is a bare measure, a slot that is not mentioned is absent, and the placeholders without
  an argument are listed in order.\<close>

lemma format_analysis_spec:
  assumes "list_all piece_ok ps"
  shows "positional (analyze_format_string (print_pieces ps)) i =
      slot_kind (kinds_at (Positional i) (pieces_uses ps))"
    and "named (analyze_format_string (print_pieces ps)) n =
      slot_kind (kinds_at (Named n) (pieces_uses ps))"
    and "auto_kinds (analyze_format_string (print_pieces ps)) =
      [w. (k, w) \<leftarrow> pieces_uses ps, k = Auto]"
  using record_uses_slots [of "pieces_uses ps"] assms
  by (simp_all add: analyze_format_string_def analyze_pieces)

section \<open>Whole inputs\<close>

























section \<open>Inputs that are misread\<close>

text \<open>A positional argument that compares is taken for a named one, and loses its left operand and both
  equals signs.\<close>

lemma format_comparison_misread:
  "parse_arg [Ident a, Punct (CHR ''='') Joint, Punct (CHR ''='') Alone, Ident b] = (Some a, [Ident b])"
  by (simp add: parse_arg_def split_after_eq_def)

text \<open>The two-letter types \<open>x?\<close> and \<open>X?\<close>, debug output with hexadecimal integers, are taken for
  \<open>x\<close> and \<open>X\<close>: the argument gets the hexadecimal wrapper instead of the debug one, and the question mark
  is consumed as the closing brace. A width taken from argument 0 is lost: \<open>0\<close> is eaten as the
  zero-padding flag, \<open>$\<close> is taken for the type, the type for the closing brace.\<close>

lemma format_spec_misread:
  assumes "arg_ok k" and "list_all flag_char fl"
  shows "analyze_format_string (CHR ''{'' # print_arg k @ CHR '':'' # fl @ ''x?}'' @ r) =
      analyze_from r (record_use k KLowerHex no_uses) \<and>
    analyze_format_string (CHR ''{'' # print_arg k @ CHR '':'' # fl @ ''X?}'' @ r) =
      analyze_from r (record_use k KUpperHex no_uses) \<and>
    analyze_format_string (CHR ''{'' # print_arg k @ CHR '':'' # fl @ ''0$?}'' @ r) =
      analyze_from r (record_use k KDisplay no_uses)"
proof -
  have drop: "dropWhile flag_char (fl @ c # cs) = dropWhile flag_char (c # cs)" for c cs
    using assms(2) by (simp add: dropWhile_append2 list_all_iff)
  have chars: "\<not> flag_char (CHR ''x'')" "\<not> flag_char (CHR ''X'')" "flag_char (CHR ''0'')"
    "is_alphabetic (CHR ''x'')" "is_alphabetic (CHR ''X'')" "\<not> is_alphabetic (CHR ''$'')"
    "\<not> is_ascii_digit (CHR ''x'')" "\<not> is_ascii_digit (CHR ''X'')" "\<not> ident_char (CHR ''?'')"
    by (simp_all add: flag_char_def is_alphabetic_def is_ascii_digit_def ident_char_def
        is_alphanumeric_def is_numeric_def)
  have start: "analyze_format_string (CHR ''{'' # print_arg k @ CHR '':'' # cs) =
      (case placeholder (print_arg k @ CHR '':'' # cs) no_uses of (r, a) \<Rightarrow> analyze_from r a)" for cs
    using print_arg_head [OF assms(1), of "CHR '':''" cs]
    by (simp add: analyze_format_string_def case_prod_beta)
  note spec = parse_format_spec_def drop chars alphabetic_ident parse_type_def
  have "placeholder (print_arg k @ CHR '':'' # fl @ ''x?}'' @ r) no_uses =
      (CHR ''}'' # r, record_use k KLowerHex no_uses)"
    "placeholder (print_arg k @ CHR '':'' # fl @ ''X?}'' @ r) no_uses =
      (CHR ''}'' # r, record_use k KUpperHex no_uses)"
    "placeholder (print_arg k @ CHR '':'' # fl @ ''0$?}'' @ r) no_uses =
      (CHR ''}'' # r, record_use k KDisplay no_uses)"
    using assms(1) by (simp_all add: placeholder_def parse_arg_spec_print spec kind_of_char_def)
  then show ?thesis
    by (simp add: start)
qed

end
