(* ===== verification/Render.thy ===== *)
theory Render
  imports Frames Strings
begin

text \<open>
  The rendering of reports as trees: \<^verbatim>\<open>rustyfill-errors/src/fmt.rs\<close> and \<^verbatim>\<open>fmt_helpers.rs\<close>. A text is
  its code points. A formatter collects what was written and asks for every write whether the sink
  behind it accepts it; the display of a user's value is the list of the pieces it writes, which may end
  in a failure of its own.
\<close>

section \<open>The formatter\<close>

type_synonym chars = "nat list"

record formatter =
  fm_out :: chars
  fm_writes :: nat
  fm_accepts :: "nat \<Rightarrow> bool"

definition lit :: "string \<Rightarrow> chars" where
  "lit s = map of_char s"

definition write_str :: "chars \<Rightarrow> formatter \<Rightarrow> (formatter, unit, unit) run" where
  "write_str t f =
     (if fm_accepts f (fm_writes f) then (Ok (), f\<lparr>fm_out := fm_out f @ t, fm_writes := Suc (fm_writes f)\<rparr>)
      else (Err (), f\<lparr>fm_writes := Suc (fm_writes f)\<rparr>))"

text \<open>Writing pieces one after the other, as the expansion of \<open>try_write!\<close> does.\<close>

fun write_all :: "chars list \<Rightarrow> formatter \<Rightarrow> (formatter, unit, unit) run" where
  "write_all [] f = (Ok (), f)"
| "write_all (t # ts) f = and_then (write_str t f) (\<lambda>_. write_all ts)"

definition newline :: chars where
  "newline = [10]"

fun display_events :: "fmt_event list \<Rightarrow> formatter \<Rightarrow> (formatter, unit, unit) run" where
  "display_events [] f = (Ok (), f)"
| "display_events (WriteStr t # es) f = and_then (write_str t f) (\<lambda>_. display_events es)"
| "display_events (FormatFails # es) f = (Err (), f)"

fun digits_of :: "nat \<Rightarrow> chars" where
  "digits_of n = (if n < 10 then [48 + n] else digits_of (n div 10) @ [48 + n mod 10])"

declare digits_of.simps [simp del]

text \<open>A loop \<open>for x in xs { .. ? }\<close>.\<close>

fun for_each :: "('a \<Rightarrow> 's \<Rightarrow> ('s, 'e, unit) run) \<Rightarrow> 'a list \<Rightarrow> 's \<Rightarrow> ('s, 'e, unit) run" where
  "for_each g [] s = (Ok (), s)"
| "for_each g (x # xs) s = and_then (g x s) (\<lambda>_. for_each g xs)"

text \<open>A result that is dropped: \<open>let _ = ..\<close> or \<open>.ok()\<close>.\<close>

definition ignore_err :: "('s, 'e, unit) run \<Rightarrow> ('s, 'f, unit) run" where
  "ignore_err r = (case fst r of Ok _ \<Rightarrow> Ok () | Err _ \<Rightarrow> Ok () | Panic m \<Rightarrow> Panic m | UB \<Rightarrow> UB, snd r)"

section \<open>Helpers\<close>

definition thin_branch :: chars where "thin_branch = [0x251c, 0x2574]"

definition thin_last :: chars where "thin_last = [0x2570, 0x2574]"

definition source_first :: chars where "source_first = [0x2570, 0x252c, 0x25b6, 32]"

definition source_exclusive :: chars where "source_exclusive = [0x2570, 0x2500, 0x25b6, 32]"

definition source_mid :: chars where "source_mid = [0x251c, 0x25b6, 32]"

definition source_last :: chars where "source_last = [0x2570, 0x25b6, 32]"

definition sep_char :: chars where "sep_char = [0x2502]"

text \<open>The loop \<open>while continuing.len() <= needed { continuing.try_push(true)? }\<close>: as many pushes as slots
  are missing.\<close>

fun push_trues :: "nat \<Rightarrow> bool vstate \<Rightarrow> (bool vstate, try_reserve_error, unit) run" where
  "push_trues 0 s = (Ok (), s)"
| "push_trues (Suc n) s = and_then (vec_try_push True s) (\<lambda>_. push_trues n)"

definition extend_continuing :: "nat \<Rightarrow> bool vstate \<Rightarrow> (bool vstate, try_reserve_error, unit) run" where
  "extend_continuing depth s = (let needed = depth - 1 in push_trues (Suc needed - vlen (fst s)) s)"

definition mark_last_at :: "nat \<Rightarrow> bool vec \<Rightarrow> bool vec" where
  "mark_last_at ancestor_depth v =
     (let idx = ancestor_depth - 1
      in if idx < vlen v then with_items ((items v)[idx := False]) v else v)"

text \<open>\<open>continuing.get(i).copied().unwrap_or(true)\<close>\<close>

definition continues :: "bool list \<Rightarrow> nat \<Rightarrow> bool" where
  "continues c i = (if i < length c then c ! i else True)"

definition write_indent :: "bool list \<Rightarrow> nat \<Rightarrow> formatter \<Rightarrow> (formatter, unit, unit) run" where
  "write_indent c depth f =
     (if depth \<le> 1 then (Ok (), f)
      else for_each (\<lambda>i. write_str (if continues c i then [32, 0x2502, 32, 32] else [32, 32, 32, 32])) [0..<depth - 1] f)"

definition write_sibling_separator :: "bool list \<Rightarrow> nat \<Rightarrow> formatter \<Rightarrow> (formatter, unit, unit) run" where
  "write_sibling_separator c depth f =
     and_then (for_each (\<lambda>i. write_str (if continues c i then [32, 0x2502] else [32, 32])) [0..<depth - 1] f)
       (\<lambda>_. write_all [[32, 0x2502], newline])"

definition count_attachments :: "'p item list \<Rightarrow> nat \<times> nat" where
  "count_attachments atts =
     (let printable = length (filter is_printable atts) in (printable, length atts - printable))"

text \<open>\<open>file.split('\\')\<close>\<close>

fun split_backslash :: "string \<Rightarrow> string list" where
  "split_backslash [] = [[]]"
| "split_backslash (c # cs) =
     (if of_char c = (92 :: nat) then [] # split_backslash cs
      else (c # hd (split_backslash cs)) # List.tl (split_backslash cs))"

text \<open>\<open>forward\<close> is the thread-local \<open>FORCE_FORWARD_SLASHES\<close>.\<close>

definition write_location :: "bool \<Rightarrow> location \<Rightarrow> formatter \<Rightarrow> (formatter, unit, unit) run" where
  "write_location forward loc f =
     (case loc of (file, line, column) \<Rightarrow>
        and_then (write_str (lit ''at '') f) (\<lambda>_ f.
        and_then
          (if forward \<and> (\<exists>c \<in> set file. of_char c = (92 :: nat))
           then (case split_backslash file of
                   [] \<Rightarrow> (Ok (), f)
                 | p # ps \<Rightarrow> and_then (write_str (lit p) f) (\<lambda>_. for_each (\<lambda>q. write_all [lit ''/'', lit q]) ps))
           else write_str (lit file) f)
          (\<lambda>_. write_all [lit '':'', digits_of line, lit '':'', digits_of column])))"

text \<open>\<open>ItemImpl::write_location\<close>: only a context has one, and its errors are dropped.\<close>

fun item_write_location :: "bool \<Rightarrow> 'p item \<Rightarrow> formatter \<Rightarrow> (formatter, unit, unit) run" where
  "item_write_location forward (ContextItem cf) f = ignore_err (write_location forward (cf_location cf) f)"
| "item_write_location forward _ f = (Ok (), f)"

definition plural :: "nat \<Rightarrow> chars" where
  "plural n = (if n = 1 then [] else lit ''s'')"

text \<open>The loop over the printable attachments, with their line numbers, and the line that counts the others.\<close>

definition render_attachments ::
    "('p \<Rightarrow> fmt_event list) \<Rightarrow> bool list \<Rightarrow> nat \<Rightarrow> 'p item list \<Rightarrow> nat \<Rightarrow> nat \<Rightarrow> formatter \<Rightarrow> (formatter, unit, unit) run"
where
  "render_attachments disp c sub_depth atts total_lines first_line f =
     (let opaque = snd (count_attachments atts)
      in and_then
        (for_each
          (\<lambda>(off, att) f.
             case checked_add first_line off of
               None \<Rightarrow> (Panic ''attachment line index within budget'', f)
             | Some line_idx \<Rightarrow>
                 and_then (write_indent c sub_depth f) (\<lambda>_ f.
                 and_then (write_str (if line_idx = total_lines - 1 \<and> opaque = 0 then thin_last else thin_branch) f) (\<lambda>_ f.
                 and_then (display_events (disp (as_any att)) f) (\<lambda>_. write_str newline))))
          (enumerate 0 (filter is_printable atts)) f)
        (\<lambda>_ f.
           if 0 < opaque then
             and_then (write_indent c sub_depth f)
               (\<lambda>_. write_all [thin_last, digits_of opaque, lit '' additional opaque attachment'', plural opaque, newline])
           else (Ok (), f)))"

section \<open>Frames\<close>

text \<open>A context that fails to display is replaced by a note.\<close>

definition display_context :: "('p \<Rightarrow> fmt_event list) \<Rightarrow> 'p \<Rightarrow> formatter \<Rightarrow> (formatter, unit, unit) run" where
  "display_context disp x f =
     (case display_events (disp x) f of
        (Err _, f') \<Rightarrow> ignore_err (write_str (lit ''<failed to format context>'') f')
      | r \<Rightarrow> r)"

definition render_static_frame ::
    "('p \<Rightarrow> fmt_event list) \<Rightarrow> bool \<Rightarrow> bool list \<Rightarrow> 'p sframe \<Rightarrow> bool \<Rightarrow> formatter \<Rightarrow> (formatter, unit, unit) run"
where
  "render_static_frame disp forward c sf has_children f =
     (let atts = items (sf_attachments sf);
          att_lines = saturating_add (length (filter is_printable atts)) (if 0 < snd (count_attachments atts) then 1 else 0)
      in and_then (display_context disp (cf_context (sf_context sf)) f) (\<lambda>_ f.
         and_then (case cf_segment (sf_context sf) of Some seg \<Rightarrow> write_all [lit '' ['', lit seg, lit '']''] f | None \<Rightarrow> (Ok (), f)) (\<lambda>_ f.
         and_then (write_str newline f) (\<lambda>_ f.
         and_then (write_str (if atts \<noteq> [] \<or> has_children then thin_branch else thin_last) f) (\<lambda>_ f.
         and_then (write_location forward (cf_location (sf_context sf)) f) (\<lambda>_ f.
         and_then (write_str newline f) (\<lambda>_ f.
           if atts \<noteq> [] then render_attachments disp c 0 atts (saturating_add att_lines 1) 1 f else (Ok (), f))))))))"

definition lost_line :: "nat \<Rightarrow> formatter \<Rightarrow> (formatter, unit, unit) run" where
  "lost_line n = write_all [thin_last, lit ''<'', digits_of n, lit '' frame'', plural n, lit '' lost>'', newline]"

text \<open>The state of the loop: the formatter, the tracker of open columns, and the heap.\<close>

type_synonym render = "formatter \<times> bool vec \<times> heap"

definition on_formatter ::
    "(bool list \<Rightarrow> formatter \<Rightarrow> (formatter, unit, unit) run) \<Rightarrow> render \<Rightarrow> (render, unit, unit) run" where
  "on_formatter g s = (case s of (f, c, h) \<Rightarrow> case g (items c) f of (r, f') \<Rightarrow> (r, (f', c, h)))"

definition extend_tracker :: "nat \<Rightarrow> render \<Rightarrow> (render, unit, unit) run" where
  "extend_tracker depth s =
     (case s of (f, c, h) \<Rightarrow>
        case ignore_err (extend_continuing depth (c, h)) of (r, (c', h')) \<Rightarrow> (r, (f, c', h')))"

definition mark_tracker :: "nat \<Rightarrow> render \<Rightarrow> render" where
  "mark_tracker depth s = (case s of (f, c, h) \<Rightarrow> (f, mark_last_at depth c, h))"

definition has_own_children :: "'p sframe \<Rightarrow> bool" where
  "has_own_children sf \<longleftrightarrow> items (sf_children sf) \<noteq> [] \<or> 0 < sf_lost_children sf"

definition sf_block ::
    "('p \<Rightarrow> fmt_event list) \<Rightarrow> bool \<Rightarrow> 'p sframe \<Rightarrow> bool \<Rightarrow> render \<Rightarrow> (render, unit, unit) run" where
  "sf_block disp forward sf has_children s =
     and_then (on_formatter (\<lambda>c. render_static_frame disp forward c sf has_children) s) (\<lambda>_ s.
     and_then (if has_own_children sf then on_formatter (\<lambda>c. write_all [sep_char, newline]) s else (Ok (), s)) (\<lambda>_.
       extend_tracker 1))"

definition render_static ::
    "('p \<Rightarrow> fmt_event list) \<Rightarrow> bool \<Rightarrow> 'p walk_item list \<Rightarrow> nat \<Rightarrow> 'p sframe \<Rightarrow> nat \<Rightarrow> render \<Rightarrow> (render, unit, unit) run"
where
  "render_static disp forward fs i sf depth s =
     (if depth = 0 \<and> i = 0 then sf_block disp forward sf (has_own_children sf) s
      else and_then (on_formatter (\<lambda>c. write_str newline) s) (\<lambda>_ s.
        case checked_add i 1 of
          None \<Rightarrow> (Panic ''frame index below total'', s)
        | Some next_i \<Rightarrow>
            let lost_frames_follow =
              next_i < length fs \<and> (case fs ! next_i of (Inr (FLost n), d) \<Rightarrow> d = 0 | _ \<Rightarrow> False)
            in sf_block disp forward sf (has_own_children sf \<or> lost_frames_follow) s))"

text \<open>The connector of a source depends on the frames of its depth before and after it in the list.\<close>

definition same_depth :: "nat \<Rightarrow> 'p walk_item list \<Rightarrow> nat" where
  "same_depth depth fs = length (filter (\<lambda>x. snd x = depth) fs)"

definition source_header :: "bool \<Rightarrow> bool \<Rightarrow> chars list" where
  "source_header is_first is_last =
     (if is_first \<and> \<not> is_last then [source_first]
      else if is_first \<and> is_last then [source_exclusive]
      else if \<not> is_last then [[32], source_mid]
      else [[32], source_last])"

definition render_dynamic ::
    "('p \<Rightarrow> fmt_event list) \<Rightarrow> bool \<Rightarrow> 'p walk_item list \<Rightarrow> nat \<Rightarrow> 'p dframe \<Rightarrow> nat \<Rightarrow> render \<Rightarrow> (render, unit, unit) run"
where
  "render_dynamic disp forward fs i df depth s =
     (let is_first = (same_depth depth (take i fs) = 0);
          is_last = (same_depth depth (drop 1 (drop i fs)) = 0);
          atts = items (df_attachments df);
          has_lost = (0 < df_lost_children df \<and> items (df_children df) = []);
          has_child_sources = (items (df_children df) \<noteq> []);
          loc_is_last = (atts = [] \<and> \<not> has_lost \<and> \<not> has_child_sources)
      in and_then (extend_tracker depth s) (\<lambda>_ s.
         let s = (if is_last then mark_tracker depth s else s) in
         and_then (on_formatter (\<lambda>c f.
           and_then (write_indent c depth f) (\<lambda>_ f.
           and_then (write_all (source_header is_first is_last) f) (\<lambda>_ f.
           and_then (display_context disp (as_any (df_context df)) f) (\<lambda>_.
             write_str newline)))) s) (\<lambda>_ s.
         case checked_add depth 1 of
           None \<Rightarrow> (Panic ''trace depth fits in usize'', s)
         | Some sub_depth \<Rightarrow>
             and_then (on_formatter (\<lambda>c f.
               and_then (write_indent c sub_depth f) (\<lambda>_ f.
               and_then (write_str (if loc_is_last then thin_last else thin_branch) f) (\<lambda>_ f.
               and_then (item_write_location forward (df_context df) f) (\<lambda>_ f.
               and_then (write_str newline f) (\<lambda>_ f.
               and_then
                 (if atts \<noteq> [] then
                    let remaining = saturating_add
                          (saturating_add (length (filter is_printable atts)) (if 0 < snd (count_attachments atts) then 1 else 0))
                          (if has_lost then 1 else 0)
                    in render_attachments disp c sub_depth atts (saturating_add remaining 1) 1 f
                  else (Ok (), f)) (\<lambda>_ f.
               and_then
                 (if has_lost then and_then (write_indent c sub_depth f) (\<lambda>_. lost_line (df_lost_children df)) else (Ok (), f)) (\<lambda>_ f.
               and_then
                 (if \<not> is_last \<and> \<not> has_child_sources then write_sibling_separator c depth f else (Ok (), f)) (\<lambda>_ f.
                 if has_child_sources
                 then and_then (write_indent c sub_depth f) (\<lambda>_. write_all [sep_char, newline])
                 else (Ok (), f))))))))) s)
             (\<lambda>_. extend_tracker sub_depth))))"

definition render_item ::
    "('p \<Rightarrow> fmt_event list) \<Rightarrow> bool \<Rightarrow> 'p walk_item list \<Rightarrow> nat \<Rightarrow> render \<Rightarrow> (render, unit, unit) run" where
  "render_item disp forward fs i s =
     (case fs ! i of
        (Inr (FStatic sf), depth) \<Rightarrow> render_static disp forward fs i sf depth s
      | (Inr (FDynamic df), depth) \<Rightarrow> render_dynamic disp forward fs i df depth s
      | (Inr (FLost n), depth) \<Rightarrow>
          and_then (extend_tracker depth s) (\<lambda>_.
            on_formatter (\<lambda>c f. and_then (write_indent c depth f) (\<lambda>_. lost_line n)))
      | (Inl _, depth) \<Rightarrow>
          and_then (extend_tracker depth s) (\<lambda>_.
            on_formatter (\<lambda>c f. and_then (write_indent c depth f)
              (\<lambda>_. write_all [thin_last, lit ''<failed to display, out of memory>'', newline]))))"

text \<open>The loop \<open>while i < total { .. ; i += 1 }\<close>, with its checked increment.\<close>

definition render_frames ::
    "('p \<Rightarrow> fmt_event list) \<Rightarrow> bool \<Rightarrow> 'p walk_item list \<Rightarrow> render \<Rightarrow> (render, unit, unit) run" where
  "render_frames disp forward fs =
     for_each
       (\<lambda>i s. and_then (render_item disp forward fs i s) (\<lambda>_ s.
          if checked_add i 1 = None then (Panic ''loop index below frame count'', s) else (Ok (), s)))
       [0..<length fs]"

section \<open>The report\<close>

text \<open>The frames are collected first; \<open>None\<close> is a walk that does not end. The walker discards what it
  cannot enter.\<close>

partial_function (option) collect_frames ::
    "'p frames \<Rightarrow> 'p walk_item vec \<Rightarrow> heap \<Rightarrow> (('p walk_item vec \<times> heap, try_reserve_error, unit) run) option" where
  "collect_frames w v h =
     (case (frames_next (w, h) :: ('p frames \<times> heap, unit, 'p walk_item option) run) of
        (Ok None, (w', h')) \<Rightarrow> Some (Ok (), (v, h'))
      | (Ok (Some x), (w', h')) \<Rightarrow>
          (case vec_try_push x (v, h') of
             (Ok _, (v', h'')) \<Rightarrow> collect_frames w' v' h''
           | (Err e, s) \<Rightarrow> Some (Err e, s)
           | (Panic m, s) \<Rightarrow> Some (Panic m, s)
           | (UB, s) \<Rightarrow> Some (UB, s))
      | (Err _, (w', h')) \<Rightarrow> Some (UB, (v, h'))
      | (Panic m, (w', h')) \<Rightarrow> Some (Panic m, (v, h'))
      | (UB, (w', h')) \<Rightarrow> Some (UB, (v, h')))"

text \<open>\<open>entry_l\<close>, \<open>frame_l\<close>: the layouts of the walker's stack entries and of the collected frames.\<close>

definition display_report ::
    "layout \<Rightarrow> layout \<Rightarrow> ('p \<Rightarrow> fmt_event list) \<Rightarrow> bool \<Rightarrow> 'p report \<Rightarrow> formatter \<times> heap \<Rightarrow> (formatter \<times> heap, unit, unit) run option"
where
  "display_report entry_l frame_l disp forward r s =
     (case s of (f, h) \<Rightarrow>
        let walker = walk_set_auto_unstall True (report_frames entry_l r)
        in case collect_frames walker (vec_new frame_l) h of
            None \<Rightarrow> None
          | Some (Ok _, (v, h1)) \<Rightarrow>
              (case render_frames disp forward (items v) (f, vec_new (Layout 1 1), h1) of
                 (q, (f', c, h2)) \<Rightarrow> Some (q, (f', h2)))
          | Some (Err _, (v, h1)) \<Rightarrow>
              (case write_str (lit ''<failed to render report, out of memory>'') f of (q, f') \<Rightarrow> Some (q, (f', h1)))
          | Some (Panic m, (v, h1)) \<Rightarrow> Some (Panic m, (f, h1))
          | Some (UB, (v, h1)) \<Rightarrow> Some (UB, (f, h1)))"

end
