(* ===== verification/RenderProps.thy ===== *)
theory RenderProps
  imports Render FramesProps
begin

text \<open>
  Rendering degrades: with a sink that takes everything, it ends without an error or a panic whatever the
  allocator refuses, be it the tracker of columns, the stack of the walk or the list of the frames. Every
  frame that was collected has its line, and frames are missing only below a line that says so.
\<close>

section \<open>What a writer adds\<close>

named_theorems writes

definition accepting :: "formatter \<Rightarrow> bool" where
  "accepting f \<longleftrightarrow> (\<forall>n. fm_accepts f n)"

text \<open>\<open>says w g\<close>: to an accepting sink, \<open>g\<close> writes a text that contains \<open>w\<close>, and succeeds.\<close>

definition says :: "chars \<Rightarrow> (formatter \<Rightarrow> (formatter, unit, unit) run) \<Rightarrow> bool" where
  "says w g \<longleftrightarrow> (\<forall>f. accepting f \<longrightarrow>
     (\<exists>t f'. g f = (Ok (), f') \<and> accepting f' \<and> fm_out f' = fm_out f @ t \<and> sublist w t))"

abbreviation works :: "(formatter \<Rightarrow> (formatter, unit, unit) run) \<Rightarrow> bool" where
  "works \<equiv> says []"

lemma saysE:
  assumes "says w g" and "accepting f"
  obtains t f' where "g f = (Ok (), f')" and "accepting f'" and "fm_out f' = fm_out f @ t" and "sublist w t"
  using assms by (auto simp: says_def)

lemma says_worksD: "says w g \<Longrightarrow> works g"
  unfolding says_def by (meson sublist_Nil_left)

lemma works_Ok [writes]: "works (\<lambda>f. (Ok (), f))"
  by (simp add: says_def)

lemma says_write: "says t (write_str t)"
  by (simp add: says_def write_str_def accepting_def)

lemma works_write [writes]: "works (write_str t)"
  by (rule says_worksD [OF says_write])

lemma sublist_wider: "sublist w t \<Longrightarrow> sublist w (t @ u)" "sublist w u \<Longrightarrow> sublist w (t @ u)"
  unfolding sublist_def by (metis append_assoc)+

lemma says_first: assumes "says w g" and "works k" shows "says w (\<lambda>f. and_then (g f) (\<lambda>_. k))"
  unfolding says_def
proof (intro allI impI)
  fix f assume "accepting f"
  with assms(1) obtain t f1 where 1: "g f = (Ok (), f1)" "accepting f1" "fm_out f1 = fm_out f @ t" "sublist w t"
    by (rule saysE)
  from assms(2) 1(2) obtain u f2 where "k f1 = (Ok (), f2)" "accepting f2" "fm_out f2 = fm_out f1 @ u" by (rule saysE)
  with 1 show "\<exists>t f'. and_then (g f) (\<lambda>_. k) = (Ok (), f') \<and> accepting f' \<and> fm_out f' = fm_out f @ t \<and> sublist w t"
    by (intro exI [of _ "t @ u"] exI [of _ f2]) (auto intro: sublist_wider)
qed

lemma says_then: assumes "works g" and "says w k" shows "says w (\<lambda>f. and_then (g f) (\<lambda>_. k))"
  unfolding says_def
proof (intro allI impI)
  fix f assume "accepting f"
  with assms(1) obtain t f1 where 1: "g f = (Ok (), f1)" "accepting f1" "fm_out f1 = fm_out f @ t" by (rule saysE)
  from assms(2) 1(2) obtain u f2 where "k f1 = (Ok (), f2)" "accepting f2" "fm_out f2 = fm_out f1 @ u" "sublist w u"
    by (rule saysE)
  with 1 show "\<exists>t f'. and_then (g f) (\<lambda>_. k) = (Ok (), f') \<and> accepting f' \<and> fm_out f' = fm_out f @ t \<and> sublist w t"
    by (intro exI [of _ "t @ u"] exI [of _ f2]) (auto intro: sublist_wider)
qed

lemmas works_seq [writes] = says_first [where w = "[]"]

lemma works_if [writes]: "(b \<Longrightarrow> works g) \<Longrightarrow> (\<not> b \<Longrightarrow> works k) \<Longrightarrow> works (\<lambda>f. if b then g f else k f)"
  by (simp add: says_def)

lemma works_option [writes]:
  "works k \<Longrightarrow> (\<And>x. works (g x)) \<Longrightarrow> works (\<lambda>f. case z of None \<Rightarrow> k f | Some x \<Rightarrow> g x f)"
  by (cases z) (simp_all add: says_def)

lemma works_list [writes]:
  "works k \<Longrightarrow> (\<And>x xs. works (g x xs)) \<Longrightarrow> works (\<lambda>f. case z of [] \<Rightarrow> k f | x # xs \<Rightarrow> g x xs f)"
  by (cases z) (simp_all add: says_def)

lemma works_write_all [writes]: "works (write_all ts)"
proof (induction ts)
  case (Cons t ts)
  have "write_all (t # ts) = (\<lambda>f. and_then (write_str t f) (\<lambda>_. write_all ts))" by (simp add: fun_eq_iff)
  then show ?case using Cons by (simp add: works_seq works_write)
qed (simp add: says_def)

lemma works_for_each [writes]: "(\<And>x. x \<in> set xs \<Longrightarrow> works (g x)) \<Longrightarrow> works (for_each g xs)"
proof (induction xs)
  case (Cons x xs)
  have "for_each g (x # xs) = (\<lambda>f. and_then (g x f) (\<lambda>_. for_each g xs))" by (simp add: fun_eq_iff)
  then show ?case using Cons by (simp add: works_seq)
qed (simp add: says_def)

text \<open>What a display writes before it ends or fails.\<close>

fun shown :: "fmt_event list \<Rightarrow> chars" where
  "shown [] = []"
| "shown (WriteStr t # es) = t @ shown es"
| "shown (FormatFails # es) = []"

lemma display_events_out:
  assumes "accepting f"
  shows "\<exists>f'. display_events es f = (if FormatFails \<in> set es then Err () else Ok (), f') \<and> accepting f' \<and>
    fm_out f' = fm_out f @ shown es"
  using assms
proof (induction es arbitrary: f)
  case (Cons e es)
  show ?case
  proof (cases e)
    case (WriteStr t)
    obtain f1 where f1: "write_str t f = (Ok (), f1)" "accepting f1" "fm_out f1 = fm_out f @ t"
      using Cons.prems by (auto simp: write_str_def accepting_def)
    from Cons.IH [OF f1(2)] show ?thesis using f1 WriteStr by auto
  next
    case FormatFails
    then show ?thesis using Cons.prems by simp
  qed
qed simp

lemma works_events: "FormatFails \<notin> set es \<Longrightarrow> works (display_events es)"
  unfolding says_def using display_events_out [of _ es] by (metis sublist_Nil_left)

lemma works_ignore [writes]: "works g \<Longrightarrow> works (\<lambda>f. ignore_err (g f))"
  unfolding says_def ignore_err_def by fastforce

lemma says_context: "says (shown (disp x)) (display_context disp x)"
  unfolding says_def
proof (intro allI impI)
  fix f assume "accepting f"
  then obtain f1 where f1: "display_events (disp x) f = (if FormatFails \<in> set (disp x) then Err () else Ok (), f1)"
    "accepting f1" "fm_out f1 = fm_out f @ shown (disp x)"
    using display_events_out by blast
  show "\<exists>t f'. display_context disp x f = (Ok (), f') \<and> accepting f' \<and> fm_out f' = fm_out f @ t \<and> sublist (shown (disp x)) t"
  proof (cases "FormatFails \<in> set (disp x)")
    case True
    let ?t = "lit ''<failed to format context>''"
    have "(ignore_err (write_str ?t f1) :: (formatter, unit, unit) run) =
        (Ok (), f1\<lparr>fm_out := fm_out f1 @ ?t, fm_writes := Suc (fm_writes f1)\<rparr>)"
      using f1(2) by (simp add: ignore_err_def write_str_def accepting_def)
    then show ?thesis
      using f1 True by (simp add: display_context_def accepting_def)
  next
    case False
    then show ?thesis using f1 by (simp add: display_context_def)
  qed
qed

lemmas works_context [writes] = says_worksD [OF says_context]

section \<open>The helpers\<close>

lemma works_indent [writes]: "works (write_indent c depth)"
  unfolding write_indent_def by (intro writes)

lemma works_separator [writes]: "works (write_sibling_separator c depth)"
  unfolding write_sibling_separator_def by (intro writes)

lemma works_location [writes]: "works (write_location forward loc)"
  unfolding write_location_def
  by (cases loc) (simp only: prod.case, intro writes)

lemma works_item_location [writes]: "works (item_write_location forward x)"
proof (cases x)
  case (ContextItem cf)
  then have "item_write_location forward x = (\<lambda>f. ignore_err (write_location forward (cf_location cf) f))"
    by (simp add: fun_eq_iff)
  then show ?thesis by (simp add: works_ignore works_location)
qed (simp_all add: says_def)

text \<open>What a frame must satisfy to be drawn: its depth and its attachments can be counted, and its
  printable attachments display.\<close>

definition displays :: "('p \<Rightarrow> fmt_event list) \<Rightarrow> 'p item list \<Rightarrow> bool" where
  "displays disp atts \<longleftrightarrow>
     length atts < usize_max \<and> (\<forall>a \<in> set atts. is_printable a \<longrightarrow> FormatFails \<notin> set (disp (as_any a)))"

fun renderable :: "('p \<Rightarrow> fmt_event list) \<Rightarrow> 'p frame_ref \<times> nat \<Rightarrow> bool" where
  "renderable disp (FStatic sf, d) = displays disp (items (sf_attachments sf))"
| "renderable disp (FDynamic df, d) = (d < usize_max \<and> displays disp (items (df_attachments df)))"
| "renderable disp (FLost n, d) = True"

lemma works_attachments:
  assumes "displays disp atts"
  shows "works (render_attachments disp c depth atts n 1)"
proof -
  have line: "works ((\<lambda>(off, att) f. case checked_add 1 off of
             None \<Rightarrow> (Panic ''attachment line index within budget'', f)
           | Some line_idx \<Rightarrow>
               and_then (write_indent c depth f) (\<lambda>_ f.
               and_then (write_str (if line_idx = n - 1 \<and> q = 0 then thin_last else thin_branch) f) (\<lambda>_ f.
               and_then (display_events (disp (as_any att)) f) (\<lambda>_. write_str newline)))) x)"
    if "x \<in> set (enumerate 0 (filter is_printable atts))" for x q
  proof -
    obtain off att where x: "x = (off, att)" by (cases x)
    have att: "att \<in> set atts" "is_printable att" and "off < length (filter is_printable atts)"
      using that x by (auto simp: in_set_enumerate_eq dest: nth_mem)
    then have "off < length atts" using length_filter_le [of is_printable atts] by linarith
    then have add: "checked_add 1 off = Some (1 + off)" using assms by (simp add: displays_def checked_add_def)
    have "works (display_events (disp (as_any att)))"
      using assms att by (intro works_events) (auto simp: displays_def)
    then show ?thesis unfolding x prod.case add option.case by (intro writes)
  qed
  show ?thesis
    unfolding render_attachments_def Let_def by (intro writes line)
qed

lemma says_static_frame:
  assumes "displays disp (items (sf_attachments sf))"
  shows "says (shown (disp (cf_context (sf_context sf)))) (render_static_frame disp forward c sf has_children)"
  unfolding render_static_frame_def Let_def
  by (rule says_first [OF says_context]) (intro writes works_attachments [OF assms])

lemma says_in_all: "t \<in> set ts \<Longrightarrow> says t (write_all ts)"
proof (induction ts)
  case (Cons u ts)
  have eq: "write_all (u # ts) = (\<lambda>f. and_then (write_str u f) (\<lambda>_. write_all ts))" by (simp add: fun_eq_iff)
  show ?case
  proof (cases "t = u")
    case True
    show ?thesis unfolding eq True by (rule says_first [OF says_write works_write_all])
  next
    case False
    then show ?thesis unfolding eq using Cons by (intro says_then works_write) simp
  qed
qed simp

lemma says_lost: "says (digits_of n) (lost_line n)"
  unfolding lost_line_def by (rule says_in_all) simp

lemmas works_lost [writes] = says_worksD [OF says_lost]

section \<open>The whole state\<close>

text \<open>The tracker of open columns is a vector that grows as it can.\<close>

definition prints :: "chars \<Rightarrow> (render \<Rightarrow> (render, unit, unit) run) \<Rightarrow> bool" where
  "prints w g \<longleftrightarrow> (\<forall>f c h. accepting f \<longrightarrow> vec_ok c \<longrightarrow>
     (\<exists>t f' c' h'. g (f, c, h) = (Ok (), (f', c', h')) \<and> accepting f' \<and> vec_ok c' \<and> fm_out f' = fm_out f @ t \<and> sublist w t))"

lemma printsE:
  assumes "prints w g" and "accepting f" and "vec_ok c"
  obtains t f' c' h' where "g (f, c, h) = (Ok (), (f', c', h'))" and "accepting f'" and "vec_ok c'"
    and "fm_out f' = fm_out f @ t" and "sublist w t"
  using assms unfolding prints_def by blast

lemma prints_worksD: "prints w g \<Longrightarrow> prints [] g"
  unfolding prints_def by (meson sublist_Nil_left)

lemma prints_Ok: "prints [] (\<lambda>s. (Ok (), s))"
  by (simp add: prints_def)

lemma prints_first: assumes "prints w g" and "prints [] k" shows "prints w (\<lambda>s. and_then (g s) (\<lambda>_. k))"
  unfolding prints_def
proof (intro allI impI)
  fix f h and c :: "bool vec" assume "accepting f" "vec_ok c"
  with assms(1) obtain t f1 c1 h1 where 1: "g (f, c, h) = (Ok (), (f1, c1, h1))" "accepting f1" "vec_ok c1"
    "fm_out f1 = fm_out f @ t" "sublist w t" by (rule printsE)
  from assms(2) 1(2,3) obtain u f2 c2 h2 where "k (f1, c1, h1) = (Ok (), (f2, c2, h2))" "accepting f2" "vec_ok c2"
    "fm_out f2 = fm_out f1 @ u" by (rule printsE)
  with 1 show "\<exists>t f' c' h'. and_then (g (f, c, h)) (\<lambda>_. k) = (Ok (), (f', c', h')) \<and> accepting f' \<and> vec_ok c' \<and>
      fm_out f' = fm_out f @ t \<and> sublist w t"
    by (intro exI [of _ "t @ u"] exI [of _ f2] exI [of _ c2] exI [of _ h2]) (auto intro: sublist_wider)
qed

lemma prints_then: assumes "prints [] g" and "prints w k" shows "prints w (\<lambda>s. and_then (g s) (\<lambda>_. k))"
  unfolding prints_def
proof (intro allI impI)
  fix f h and c :: "bool vec" assume "accepting f" "vec_ok c"
  with assms(1) obtain t f1 c1 h1 where 1: "g (f, c, h) = (Ok (), (f1, c1, h1))" "accepting f1" "vec_ok c1"
    "fm_out f1 = fm_out f @ t" by (rule printsE)
  from assms(2) 1(2,3) obtain u f2 c2 h2 where "k (f1, c1, h1) = (Ok (), (f2, c2, h2))" "accepting f2" "vec_ok c2"
    "fm_out f2 = fm_out f1 @ u" "sublist w u" by (rule printsE)
  with 1 show "\<exists>t f' c' h'. and_then (g (f, c, h)) (\<lambda>_. k) = (Ok (), (f', c', h')) \<and> accepting f' \<and> vec_ok c' \<and>
      fm_out f' = fm_out f @ t \<and> sublist w t"
    by (intro exI [of _ "t @ u"] exI [of _ f2] exI [of _ c2] exI [of _ h2]) (auto intro: sublist_wider)
qed

lemma prints_on_formatter: "(\<And>c. says w (g c)) \<Longrightarrow> prints w (on_formatter g)"
  unfolding prints_def on_formatter_def
proof (intro allI impI)
  fix f h and c :: "bool vec"
  assume g: "\<And>c. says w (g c)" and f: "accepting f" and ok: "vec_ok c"
  from g f obtain t f' where "g (items c) f = (Ok (), f')" "accepting f'" "fm_out f' = fm_out f @ t" "sublist w t"
    by (rule saysE)
  then show "\<exists>t f' c' h'. (case (f, c, h) of (f, c, h) \<Rightarrow> case g (items c) f of (r, f') \<Rightarrow> (r, f', c, h)) = (Ok (), f', c', h') \<and>
      accepting f' \<and> vec_ok c' \<and> fm_out f' = fm_out f @ t \<and> sublist w t"
    using ok by auto
qed

lemma vec_try_push_cases [consumes 1]:
  assumes "vec_ok v"
  obtains (pushed) v' h' where "vec_try_push x (v, h) = (Ok (), (v', h'))" and "vec_ok v'" and "items v' = items v @ [x]"
  | (failed) e h' where "vec_try_push x (v, h) = (Err e, (v, h'))"
  using assms
proof (cases rule: vec_try_reserve_cases [of v 1 h])
  case (reserved v' h')
  then show thesis
    by (intro pushed [of "with_items (items v @ [x]) v'" h'])
      (auto simp: vec_try_push_def vec_push_room vec_ok_with_items)
next
  case (failed e h')
  then show thesis by (intro that(2)) (simp add: vec_try_push_def)
qed

lemma push_trues_ok:
  assumes "vec_ok c"
  shows "\<exists>q c' h'. push_trues n (c, h) = (q, (c', h')) \<and> vec_ok c' \<and> (q = Ok () \<or> (\<exists>e. q = Err e))"
  using assms
proof (induction n arbitrary: c h)
  case (Suc n)
  show ?case
  proof (cases rule: vec_try_push_cases [OF Suc.prems, of True h])
    case (1 c' h')
    then show ?thesis using Suc.IH [of c' h'] by simp
  next
    case (2 e h')
    then show ?thesis using Suc.prems by simp
  qed
qed simp

lemma prints_tracker: "prints [] (extend_tracker depth)"
  unfolding prints_def
proof (intro allI impI)
  fix f c h assume a: "accepting f" "vec_ok (c :: bool vec)"
  obtain q c' h' where "extend_continuing depth (c, h) = (q, (c', h'))" "vec_ok c'" "q = Ok () \<or> (\<exists>e. q = Err e)"
    using push_trues_ok [OF a(2)] unfolding extend_continuing_def Let_def by metis
  then show "\<exists>t f' c' h'. extend_tracker depth (f, c, h) = (Ok (), f', c', h') \<and> accepting f' \<and> vec_ok c' \<and>
      fm_out f' = fm_out f @ t \<and> sublist [] t"
    using a(1) by (auto simp: extend_tracker_def ignore_err_def)
qed

lemma prints_mark: "prints w g \<Longrightarrow> prints w (\<lambda>s. g (if b then mark_tracker depth s else s))"
proof -
  have "vec_ok (mark_last_at depth c)" if "vec_ok c" for c
    using that by (auto simp: mark_last_at_def Let_def vec_ok_def)
  then show "prints w g \<Longrightarrow> prints w (\<lambda>s. g (if b then mark_tracker depth s else s))"
    by (cases b) (simp_all add: prints_def mark_tracker_def)
qed

lemmas printing = prints_Ok prints_first [where w = "[]"] prints_tracker prints_mark [where w = "[]"]

section \<open>One line per frame\<close>

definition label :: "('p \<Rightarrow> fmt_event list) \<Rightarrow> 'p walk_item \<Rightarrow> chars" where
  "label disp x =
     (case fst x of
        Inl e \<Rightarrow> lit ''<failed to display, out of memory>''
      | Inr (FStatic sf) \<Rightarrow> shown (disp (cf_context (sf_context sf)))
      | Inr (FDynamic df) \<Rightarrow> shown (disp (as_any (df_context df)))
      | Inr (FLost n) \<Rightarrow> digits_of n)"

lemma prints_if: "prints w g \<Longrightarrow> prints w k \<Longrightarrow> prints w (\<lambda>s. if b then g s else k s)"
  by (simp add: prints_def)

lemma prints_block:
  assumes "displays disp (items (sf_attachments sf))"
  shows "prints (shown (disp (cf_context (sf_context sf)))) (sf_block disp forward sf b)"
  unfolding sf_block_def
  by (rule prints_first [OF prints_on_formatter [OF says_static_frame [OF assms]]])
    (intro prints_first prints_if prints_on_formatter prints_Ok prints_tracker works_write_all)

lemma prints_static:
  assumes "displays disp (items (sf_attachments sf))" and "i < usize_max"
  shows "prints (shown (disp (cf_context (sf_context sf)))) (render_static disp forward fs i sf depth)"
proof -
  have add: "checked_add i 1 = Some (i + 1)" using assms(2) by (simp add: checked_add_def)
  show ?thesis
    unfolding render_static_def add option.case Let_def
    by (intro prints_if prints_block [OF assms(1)] prints_then prints_on_formatter works_write)
qed

lemma prints_dynamic:
  assumes "displays disp (items (df_attachments df))" and "depth < usize_max"
  shows "prints (shown (disp (as_any (df_context df)))) (render_dynamic disp forward fs i df depth)"
proof -
  have add: "checked_add depth 1 = Some (depth + 1)" using assms(2) by (simp add: checked_add_def)
  show ?thesis
    unfolding render_dynamic_def add option.case Let_def
    apply (rule prints_then [OF prints_tracker])
    apply (rule prints_mark)
    apply (rule prints_first)
     apply (rule prints_on_formatter)
     apply (rule says_then [OF works_indent])
     apply (rule says_then [OF works_write_all])
     apply (rule says_first [OF says_context works_write])
    apply (rule prints_first)
     apply (rule prints_on_formatter)
     apply (intro writes works_attachments [OF assms(1)])
    apply (rule prints_tracker)
    done
qed

lemma prints_item:
  assumes "i < usize_max" and "\<And>f d. fs ! i = (Inr f, d) \<Longrightarrow> renderable disp (f, d)"
  shows "prints (label disp (fs ! i)) (render_item disp forward fs i)"
proof (cases "fs ! i")
  case (Pair x d)
  show ?thesis
  proof (cases x)
    case (Inl e)
    show ?thesis
      unfolding render_item_def Pair Inl prod.case sum.case label_def fst_conv
      by (rule prints_then [OF prints_tracker], rule prints_on_formatter, rule says_then [OF works_indent],
          rule says_in_all) simp
  next
    case (Inr f)
    have r: "renderable disp (f, d)" using assms(2) Pair Inr by simp
    show ?thesis
    proof (cases f)
      case (FStatic sf)
      then show ?thesis
        unfolding render_item_def Pair Inr prod.case sum.case label_def fst_conv FStatic frame_ref.case
        using r FStatic assms(1) by (intro prints_static) simp_all
    next
      case (FDynamic df)
      then show ?thesis
        unfolding render_item_def Pair Inr prod.case sum.case label_def fst_conv FDynamic frame_ref.case
        using r FDynamic by (intro prints_dynamic) simp_all
    next
      case (FLost n)
      then show ?thesis
        unfolding render_item_def Pair Inr prod.case sum.case label_def fst_conv FLost frame_ref.case
        by (intro prints_then prints_tracker prints_on_formatter says_then works_indent says_lost)
    qed
  qed
qed

lemma for_each_blocks:
  assumes "\<And>x. x \<in> set xs \<Longrightarrow> prints (lab x) (g x)" and "accepting f" and "vec_ok c"
  shows "\<exists>bs f' c' h'. for_each g xs (f, c, h) = (Ok (), (f', c', h')) \<and> accepting f' \<and>
    fm_out f' = fm_out f @ concat bs \<and> list_all2 (\<lambda>x b. sublist (lab x) b) xs bs"
  using assms
proof (induction xs arbitrary: f c h)
  case (Cons x xs)
  obtain t f1 c1 h1 where 1: "g x (f, c, h) = (Ok (), (f1, c1, h1))" "accepting f1" "vec_ok c1"
    "fm_out f1 = fm_out f @ t" "sublist (lab x) t"
    by (rule printsE [of "lab x" "g x" f c h]) (use Cons.prems in auto)
  obtain bs f2 c2 h2 where "for_each g xs (f1, c1, h1) = (Ok (), (f2, c2, h2))" "accepting f2"
    "fm_out f2 = fm_out f1 @ concat bs" "list_all2 (\<lambda>x b. sublist (lab x) b) xs bs"
    using Cons.IH [of f1 c1 h1] Cons.prems(1) 1(2,3) by auto
  then show ?case using 1 by (intro exI [of _ "t # bs"]) auto
qed simp

lemma render_frames_blocks:
  assumes "\<And>f d. (Inr f, d) \<in> set fs \<Longrightarrow> renderable disp (f, d)" and "length fs \<le> usize_max"
    and "accepting f" and "vec_ok c"
  shows "\<exists>bs f' c' h'. render_frames disp forward fs (f, c, h) = (Ok (), (f', c', h')) \<and> accepting f' \<and>
    fm_out f' = fm_out f @ concat bs \<and> list_all2 (\<lambda>x b. sublist (label disp x) b) fs bs"
proof -
  let ?g = "\<lambda>i s. and_then (render_item disp forward fs i s) (\<lambda>_ s.
    if checked_add i 1 = None then (Panic ''loop index below frame count'', s) else (Ok (), s))"
  have "prints (label disp (fs ! i)) (?g i)" if "i \<in> set [0..<length fs]" for i
  proof -
    have i: "i < length fs" using that by simp
    have "checked_add i 1 \<noteq> None" using i assms(2) by (simp add: checked_add_def)
    moreover have "prints (label disp (fs ! i)) (render_item disp forward fs i)"
      using i assms(1,2) by (intro prints_item) (auto dest: nth_mem)
    ultimately show ?thesis by (simp add: prints_first [OF _ prints_Ok])
  qed
  from for_each_blocks [of "[0..<length fs]" "\<lambda>i. label disp (fs ! i)" ?g f c h, OF this assms(3,4)]
  show ?thesis
    using list_all2_map1 [of "\<lambda>x b. sublist (label disp x) b" "(!) fs" "[0..<length fs]"]
    by (simp add: render_frames_def map_nth)
qed

section \<open>Collecting the frames\<close>

lemma kids_walk_nonempty: "children_of f = Some e \<Longrightarrow> fst e \<noteq> [] \<Longrightarrow> kids_walk d f \<noteq> []"
  by (cases e; cases "fst e") (auto simp: kids_walk_def dwalk_eq)

lemma collect_frames_ends:
  assumes "frames_ok w" and "w_auto_unstall w" and "vec_ok v"
  shows "\<exists>q v' h' xs. collect_frames w v h = Some (q, (v', h')) \<and> (q = Ok () \<or> (\<exists>e. q = Err e)) \<and> vec_ok v' \<and>
    items v' = items v @ xs \<and> subseq (delivered xs) (frames_left w) \<and>
    (q = Ok () \<longrightarrow> (\<forall>x \<in> set xs. isl (fst x) = False) \<longrightarrow> delivered xs = frames_left w)"
  using assms
proof (induction "length (frames_left w)" arbitrary: w v h rule: less_induct)
  case less
  obtain q w' h' where run: "(frames_next (w, h) :: ('a frames \<times> heap, unit, 'a walk_item option) run) = (q, (w', h'))"
    by (metis prod.exhaust)
  have step: "frames_ok w'" "w_auto_unstall w'"
    and split: "(q = Ok None \<and> frames_left w = [] \<and> frames_left w' = []) \<or>
      (\<exists>f d. q = Ok (Some (Inr f, d)) \<and> frames_left w = (f, d) # frames_left w') \<or>
      (\<exists>e f d. q = Ok (Some (Inl e, d)) \<and> w_pending w = Some f \<and>
        frames_left w = kids_walk (Suc (vlen (w_stack w))) f @ frames_left w')"
    using recent.next_step [OF less.prems(1) run [unfolded frames_next_def]] less.prems(2) by auto
  show ?case
  proof (cases "q = Ok None")
    case True
    then show ?thesis
      using run split less.prems(3) by (subst collect_frames.simps) (auto intro!: exI [of _ "[]"])
  next
    case False
    then obtain x ys where q: "q = Ok (Some x)" and left: "frames_left w = ys @ frames_left w'" "ys \<noteq> []"
      and ys: "case fst x of Inl e \<Rightarrow> True | Inr f \<Rightarrow> ys = [(f, snd x)]"
    proof -
      consider (frame) f d where "q = Ok (Some (Inr f, d))" "frames_left w = (f, d) # frames_left w'"
        | (error) e f d where "q = Ok (Some (Inl e, d))" "w_pending w = Some f"
          "frames_left w = kids_walk (Suc (vlen (w_stack w))) f @ frames_left w'"
        using split False by blast
      then show thesis
      proof cases
        case frame
        then show thesis by (intro that [of "(Inr f, d)" "[(f, d)]"]) auto
      next
        case error
        then have "\<exists>e. children_of f = Some e \<and> fst e \<noteq> []"
          using less.prems(1) by (simp add: frames_ok_def walk_ok_def)
        then show thesis
          using error kids_walk_nonempty [of f] by (intro that [of "(Inl e, d)" "kids_walk (Suc (vlen (w_stack w))) f"]) auto
      qed
    qed
    show ?thesis
    proof (cases rule: vec_try_push_cases [OF less.prems(3), of x h'])
      case (1 v' h'')
      have shorter: "length (frames_left w') < length (frames_left w)" using left by simp
      from less.hyps [OF shorter step 1(2), of h'']
      obtain r v2 h2 xs where rest: "collect_frames w' v' h'' = Some (r, (v2, h2))" "r = Ok () \<or> (\<exists>e. r = Err e)"
        "vec_ok v2" "items v2 = items v' @ xs" "subseq (delivered xs) (frames_left w')"
        "r = Ok () \<longrightarrow> (\<forall>x \<in> set xs. isl (fst x) = False) \<longrightarrow> delivered xs = frames_left w'" by blast
      have "collect_frames w v h = Some (r, (v2, h2))"
        using run q 1 rest by (subst collect_frames.simps) simp
      moreover have "subseq (delivered (x # xs)) (frames_left w)"
        using ys rest(5) left by (cases x; cases "fst x") (auto simp: list_emb_append2)
      moreover have "\<not> isl (fst x) \<Longrightarrow> delivered xs = frames_left w' \<Longrightarrow> delivered (x # xs) = frames_left w"
        using ys left by (cases x; cases "fst x") auto
      ultimately show ?thesis
        using rest 1 by (intro exI [of _ r] exI [of _ v2] exI [of _ h2] exI [of _ "x # xs"]) auto
    next
      case (2 e h'')
      then have "collect_frames w v h = Some (Err e, (v, h''))"
        using run q by (subst collect_frames.simps) simp
      then show ?thesis using less.prems(3) by (auto intro!: exI [of _ "[]"])
    qed
  qed
qed

section \<open>With memory to spare\<close>

text \<open>A growable vector takes one more element.\<close>

lemma reserve_one_generous:
  assumes "generous h" and "vec_ok v" and "growable (elem v) n" and "vlen v \<le> n"
  obtains v' h' where "vec_try_reserve 1 (v, h) = (Ok (), (v', h'))" and "generous h'" and "vec_ok v'"
    and "items v' = items v" and "elem v' = elem v" and "vlen v < cap v'"
proof (cases "vlen v < cap v")
  case True
  then show thesis using assms that by (simp add: vec_try_reserve_def)
next
  case False
  then have "cap v = vlen v" using assms(2) by (simp add: vec_ok_def)
  then have "grow_cap v 1 \<noteq> None" using growable_grow assms(3,4) by blast
  from vec_try_reserve_generous [OF assms(1) this] obtain c h' where
    run: "vec_try_reserve 1 (v, h) = (Ok (), (with_cap c v, h'))" "generous h'" by blast
  show thesis
    by (cases rule: vec_try_reserve_cases [OF assms(2), of 1 h]) (use run that in auto)
qed

lemma push_generous:
  assumes "generous h" and "vec_ok v" and "growable (elem v) n" and "vlen v \<le> n"
  obtains v' h' where "vec_try_push x (v, h) = (Ok (), (v', h'))"
    and "vec_try_push_give_back x (v, h) = (Ok (), (v', h'))"
    and "generous h'" and "vec_ok v'" and "items v' = items v @ [x]" and "elem v' = elem v"
proof -
  obtain w h' where w: "vec_try_reserve 1 (v, h) = (Ok (), (w, h'))" "generous h'" "vec_ok w" "items w = items v"
    "elem w = elem v" "vlen v < cap w"
    by (rule reserve_one_generous [OF assms])
  show thesis
    by (rule that [of "with_items (items v @ [x]) w" h'])
      (use w in \<open>auto simp: vec_try_push_def vec_try_push_give_back_def vec_push_room vec_ok_with_items\<close>)
qed

lemma stack_never_grows:
  "walk_stack w = (it, w') \<Longrightarrow> vlen (w_stack w') \<le> vlen (w_stack w) \<and> elem (w_stack w') = elem (w_stack w)"
proof (induction "vlen (w_stack w)" arbitrary: w rule: less_induct)
  case less
  show ?case
  proof (cases "items (w_stack w)" rule: rev_cases)
    case Nil
    then show ?thesis using less.prems by (simp add: walk_stack.simps [of w])
  next
    case (snoc rest e)
    obtain kids n where e: "e = (kids, n)" by fastforce
    let ?w = "w\<lparr>w_stack := with_items rest (w_stack w)\<rparr>"
    show ?thesis
    proof (cases "kids = [] \<and> n = 0")
      case True
      then have "walk_stack ?w = (it, w')" using less.prems snoc e by (simp add: walk_stack.simps [of w] Let_def)
      moreover have "vlen (w_stack ?w) < vlen (w_stack w)" using snoc by simp
      ultimately show ?thesis using less.hyps [of ?w] by simp
    next
      case False
      then show ?thesis
        using less.prems snoc e
        by (cases kids) (auto simp: walk_stack.simps [of w] Let_def yield_frame_def split: if_splits)
    qed
  qed
qed

lemma advance_stack:
  "frames_advance w = (it, w') \<Longrightarrow> vlen (w_stack w') \<le> vlen (w_stack w) \<and> elem (w_stack w') = elem (w_stack w)"
  using stack_never_grows [of w]
  by (auto simp: frames_advance_def yield_frame_def emit_lost_def split: if_splits prod.splits option.splits list.splits)

text \<open>The entries on the stack and the one that is about to be pushed.\<close>

definition slots_due :: "'p frames \<Rightarrow> nat" where
  "slots_due w = vlen (w_stack w) + (if w_pending w = None then 0 else 1)"

lemma retry_generous:
  assumes "frames_ok w" and "generous h" and "growable (elem (w_stack w)) n" and "vlen (w_stack w) \<le> n"
  obtains st h' where "(retry_pending (w, h) :: ('p frames \<times> heap, 'e, 'p walk_item option) run) =
      (Ok None, (w\<lparr>w_stalled := False, w_pending := None, w_stack := st\<rparr>, h'))"
    and "generous h'" and "vlen st = slots_due w" and "elem st = elem (w_stack w)"
proof (cases "w_pending w")
  case None
  then show thesis using assms(2) by (intro that [of "w_stack w" h]) (auto simp: retry_pending_def slots_due_def)
next
  case (Some f)
  then obtain kids lost where f: "children_of f = Some (kids, lost)" "kids \<noteq> []"
    using assms(1) by (auto simp: frames_ok_def walk_ok_def)
  have "vec_ok (w_stack w)" using assms(1) by (simp add: frames_ok_def walk_ok_def)
  then obtain st h' where "vec_try_push_give_back (kids, lost) (w_stack w, h) = (Ok (), (st, h'))" "generous h'"
    "items st = items (w_stack w) @ [(kids, lost)]" "elem st = elem (w_stack w)"
    by (rule push_generous [OF assms(2) _ assms(3,4)])
  then show thesis using Some f by (intro that [of st h']) (auto simp: retry_pending_def slots_due_def)
qed

lemma walk_stack_frame: "walk_stack w = (Some x, w') \<Longrightarrow> \<not> isl (fst x)"
proof (induction "vlen (w_stack w)" arbitrary: w rule: less_induct)
  case less
  show ?case
  proof (cases "items (w_stack w)" rule: rev_cases)
    case Nil
    then show ?thesis using less.prems by (simp add: walk_stack.simps [of w])
  next
    case (snoc rest e)
    have "walk_stack (w\<lparr>w_stack := with_items rest (w_stack w)\<rparr>) = (Some x, w') \<Longrightarrow> \<not> isl (fst x)"
      by (rule less.hyps) (use snoc in simp_all)
    then show ?thesis
      using less.prems snoc
      by (auto simp: walk_stack.simps [of w] Let_def yield_frame_def split: if_splits list.splits prod.splits)
  qed
qed

lemma next_generous:
  assumes "frames_ok w" and "generous h" and "growable (elem (w_stack w)) n" and "slots_due w + length (frames_left w) \<le> n"
    and "(frames_next (w, h) :: ('p frames \<times> heap, 'e, 'p walk_item option) run) = (q, (w', h'))"
  shows "generous h' \<and> elem (w_stack w') = elem (w_stack w) \<and> (\<nexists>e d. q = Ok (Some (Inl e, d))) \<and>
    (q \<noteq> Ok None \<longrightarrow> slots_due w' + length (frames_left w') \<le> n)"
proof -
  have "vlen (w_stack w) \<le> n" using assms(4) by (simp add: slots_due_def)
  from retry_generous [OF assms(1-3) this, where 'e = 'e] obtain st h1 where
    retry: "(retry_pending (w, h) :: ('p frames \<times> heap, 'e, 'p walk_item option) run) =
      (Ok None, (w\<lparr>w_stalled := False, w_pending := None, w_stack := st\<rparr>, h1))"
    "generous h1" "vlen st = slots_due w" "elem st = elem (w_stack w)" by blast
  obtain it w2 where adv: "frames_advance (w\<lparr>w_stalled := False, w_pending := None, w_stack := st\<rparr>) = (it, w2)"
    by fastforce
  have q: "q = Ok it" "w' = w2" "h' = h1"
    using assms(5) retry(1) adv by (simp_all add: frames_next_def next_with_def)
  have st: "vlen (w_stack w') \<le> slots_due w" "elem (w_stack w') = elem (w_stack w)"
    using advance_stack [OF adv] retry(3,4) q by simp_all
  note step = recent.next_step [OF assms(1) assms(5) [unfolded frames_next_def]]
  have it: "\<nexists>e d. it = Some (Inl e, d)"
    using adv by (auto simp: frames_advance_def yield_frame_def emit_lost_def split: if_splits prod.splits list.splits
        option.splits dest!: walk_stack_frame)
  have "slots_due w' + length (frames_left w') \<le> n" if "q \<noteq> Ok None"
    using step st(1) assms(4) it that q by (auto simp: slots_due_def)
  then show ?thesis using q retry(2) st(2) it by auto
qed

text \<open>The whole walk is collected.\<close>

definition frame_items :: "('p frame_ref \<times> nat) list \<Rightarrow> 'p walk_item list" where
  "frame_items xs = map (\<lambda>(f, d). (Inr f, d)) xs"

lemma frame_items_delivered: "\<forall>x \<in> set xs. \<not> isl (fst x) \<Longrightarrow> xs = frame_items (delivered xs)"
proof (induction xs)
  case (Cons x xs)
  then show ?case by (cases x; cases "fst x") (auto simp: frame_items_def)
qed (simp add: frame_items_def)

lemma collect_frames_whole:
  assumes "frames_ok w" and "w_auto_unstall w" and "vec_ok v" and "generous h"
    and "growable (elem (w_stack w)) n" and "slots_due w + length (frames_left w) \<le> n"
    and "growable (elem v) n" and "vlen v + length (frames_left w) \<le> n"
  shows "\<exists>v' h'. collect_frames w v h = Some (Ok (), (v', h')) \<and> items v' = items v @ frame_items (frames_left w)"
  using assms
proof (induction "length (frames_left w)" arbitrary: w v h rule: less_induct)
  case less
  obtain q w' h' where run: "(frames_next (w, h) :: ('a frames \<times> heap, unit, 'a walk_item option) run) = (q, (w', h'))"
    by (metis prod.exhaust)
  note gen = next_generous [OF less.prems(1,4-6) run]
  note step = recent.next_step [OF less.prems(1) run [unfolded frames_next_def]]
  then consider (last) "q = Ok None" "frames_left w = []"
    | (frame) f d where "q = Ok (Some (Inr f, d))" "frames_left w = (f, d) # frames_left w'"
    using gen by blast
  then show ?case
  proof cases
    case last
    then show ?thesis using run by (subst collect_frames.simps) (simp add: frame_items_def)
  next
    case frame
    have "vlen v \<le> n" using less.prems(8) by simp
    then obtain v1 h1 where push: "vec_try_push (Inr f, d) (v, h') = (Ok (), (v1, h1))" "generous h1" "vec_ok v1"
      "items v1 = items v @ [(Inr f, d)]" "elem v1 = elem v"
      using push_generous [of h' v n "(Inr f, d)"] gen less.prems(3,7) by metis
    have "\<exists>v' h'. collect_frames w' v1 h1 = Some (Ok (), (v', h')) \<and> items v' = items v1 @ frame_items (frames_left w')"
      using less.hyps [of w' v1 h1] gen step push less.prems frame by simp
    then show ?thesis using run frame push by (subst collect_frames.simps) (auto simp: frame_items_def)
  qed
qed

section \<open>Rendering a report\<close>

text \<open>Memory to spare: the allocator grants every request, and neither the stack of the walk nor the list of
  the frames can overflow its capacity.\<close>

definition render_room :: "layout \<Rightarrow> layout \<Rightarrow> 'p report \<Rightarrow> heap \<Rightarrow> bool" where
  "render_room entry_l frame_l r h \<longleftrightarrow>
     generous h \<and> growable entry_l (length (report_walk r)) \<and> growable frame_l (length (report_walk r))"

text \<open>Claim C10. With a sink that takes everything, and when the depth and the attachments of each frame can be
  counted and every printable attachment displays, rendering a report ends with \<open>Ok\<close> and no panic on every
  heap: either it says that it ran out of memory, or it writes one block per collected frame, in the order of
  the walk, each with the text of its context, and a frame of the walk is missing only when some line says so.
  With memory to spare it writes exactly one block for every frame of the walk. A context that fails to display
  does not stop it.\<close>

theorem report_display_spec:
  assumes "0 < lalign entry_l" and "0 < lalign frame_l" and "accepting f"
    and "\<And>x. x \<in> set (report_walk r) \<Longrightarrow> renderable disp x"
  shows "\<exists>f' h'. display_report entry_l frame_l disp forward r (f, h) = Some (Ok (), (f', h')) \<and>
    (fm_out f' = fm_out f @ lit ''<failed to render report, out of memory>'' \<and> \<not> render_room entry_l frame_l r h \<or>
     (\<exists>fs bs. fm_out f' = fm_out f @ concat bs \<and> list_all2 (\<lambda>x b. sublist (label disp x) b) fs bs \<and>
        subseq (delivered fs) (report_walk r) \<and>
        (fs = frame_items (report_walk r) \<or>
         (\<exists>e d. (Inl e, d) \<in> set fs) \<and> \<not> render_room entry_l frame_l r h)))"
proof -
  let ?w = "walk_set_auto_unstall True (report_frames entry_l r)" and ?n = "length (report_walk r)"
  have w: "frames_ok ?w" "w_auto_unstall ?w" "frames_left ?w = report_walk r" "slots_due ?w = 0"
    "elem (w_stack ?w) = entry_l"
    using assms(1)
    by (simp_all add: walk_set_auto_unstall_def report_frames_def frames_ok_def walk_ok_def frames_left_def below_def
        report_walk_def lost_left_def slots_due_def)
  have new: "vec_ok (vec_new frame_l :: 'a walk_item vec)" using assms(2) by simp
  from collect_frames_ends [OF w(1,2) new, of h]
  obtain q v h1 fs where "collect_frames ?w (vec_new frame_l) h = Some (q, (v, h1))" "q = Ok () \<or> (\<exists>e. q = Err e)"
    "vec_ok v" "items v = items (vec_new frame_l :: 'a walk_item vec) @ fs" "subseq (delivered fs) (frames_left ?w)"
    "q = Ok () \<longrightarrow> (\<forall>x \<in> set fs. isl (fst x) = False) \<longrightarrow> delivered fs = frames_left ?w" by blast
  then have c: "collect_frames ?w (vec_new frame_l) h = Some (q, (v, h1))" "q = Ok () \<or> (\<exists>e. q = Err e)"
    "vec_ok v" "items v = fs" "subseq (delivered fs) (report_walk r)"
    "q = Ok () \<longrightarrow> (\<forall>x \<in> set fs. isl (fst x) = False) \<longrightarrow> delivered fs = report_walk r"
    by (simp_all add: w(3))
  have whole: "q = Ok () \<and> fs = frame_items (report_walk r)" if "render_room entry_l frame_l r h"
    using collect_frames_whole [OF w(1,2) new, of h ?n] that c(1,4) by (simp add: render_room_def w(3-5))
  have all: "fs = frame_items (report_walk r) \<or> (\<exists>e d. (Inl e, d) \<in> set fs) \<and> \<not> render_room entry_l frame_l r h"
    if "q = Ok ()"
  proof (cases "\<exists>x \<in> set fs. isl (fst x)")
    case True
    then obtain e d where "(Inl e, d) \<in> set fs" by (auto simp: isl_def)
    then show ?thesis using whole by blast
  next
    case False
    then show ?thesis using c(6) that frame_items_delivered [of fs] by auto
  qed
  show ?thesis
  proof (cases "q = Ok ()")
    case True
    have "renderable disp (g, d)" if "(Inr g, d) \<in> set fs" for g d
    proof -
      have "(g, d) \<in> set (delivered fs)" using that by (force simp: delivered_def map_filter_def)
      then show ?thesis using assms(4) by (auto elim: list_emb_set [OF c(5)])
    qed
    moreover have "length fs \<le> usize_max" using c(3,4) by (simp add: vec_ok_def)
    moreover have "vec_ok (vec_new (Layout 1 1) :: bool vec)" by simp
    ultimately obtain bs f' c' h' where
      "render_frames disp forward fs (f, vec_new (Layout 1 1), h1) = (Ok (), (f', c', h'))"
      "fm_out f' = fm_out f @ concat bs" "list_all2 (\<lambda>x b. sublist (label disp x) b) fs bs"
      using render_frames_blocks [of fs disp f "vec_new (Layout 1 1)" forward h1] assms(3) by blast
    then show ?thesis using c(1,4,5) True all [OF True] by (auto simp: display_report_def Let_def)
  next
    case False
    then show ?thesis
      using c(1,2) assms(3) whole by (auto simp: display_report_def Let_def write_str_def accepting_def)
  qed
qed

text \<open>A report with a child, on a heap that grants nothing; one context fails to display.\<close>

definition open_sink :: formatter where
  "open_sink = \<lparr>fm_out = [], fm_writes = 0, fm_accepts = (\<lambda>_. True)\<rparr>"

definition shaky :: "nat \<Rightarrow> fmt_event list" where
  "shaky n = [WriteStr (digits_of n), FormatFails]"

theorem report_display_spec_witness:
  "(\<exists>f' h'. display_report (Layout 40 8) (Layout 24 8) shaky False parent_report (open_sink, heap_with policy_fail_all) =
     Some (Ok (), (f', h'))) \<and>
   (\<exists>f' h' bs. display_report (Layout 40 8) (Layout 24 8) shaky False parent_report (open_sink, heap_with policy_nothing) =
     Some (Ok (), (f', h')) \<and> fm_out f' = concat bs \<and>
     list_all2 (\<lambda>x b. sublist (label shaky x) b) (frame_items (report_walk parent_report)) bs)"
proof -
  have walk: "renderable shaky x" if "x \<in> set (report_walk parent_report)" for x
    using that
    by (auto simp: report_walk_def parent_report_def sample_report_def report_new_def sframe_from_def sframe_new_def
        context_frame_new_def erase_def swalk_def kids_walk_def entry_walk_def lost_walk_def dwalk_eq displays_def usize_max_def)
  have "length (report_walk parent_report) \<le> 2"
    by (simp add: report_walk_def parent_report_def sample_report_def report_new_def sframe_from_def sframe_new_def
        context_frame_new_def erase_def swalk_def kids_walk_def entry_walk_def lost_walk_def dwalk_eq)
  then have "render_room (Layout 40 8) (Layout 24 8) parent_report (heap_with policy_nothing)"
    by (simp add: render_room_def growable_def min_non_zero_cap_def usize_max_def isize_max_def)
  moreover have "accepting open_sink" "fm_out open_sink = []" by (simp_all add: accepting_def open_sink_def)
  ultimately show ?thesis
    using report_display_spec [of "Layout 40 8" "Layout 24 8" open_sink parent_report shaky False "heap_with policy_fail_all", OF _ _ _ walk]
      report_display_spec [of "Layout 40 8" "Layout 24 8" open_sink parent_report shaky False "heap_with policy_nothing", OF _ _ _ walk]
    by auto
qed

text \<open>
  An attachment that fails to display ends the whole rendering with an error, on any sink that takes
  everything, where a failing context is replaced by a note.
\<close>

lemma attachment_failure_aborts:
  assumes "accepting f" and "filter is_printable atts = a # as" and "FormatFails \<in> set (disp (as_any a))"
  shows "fst (render_attachments disp c depth atts n 1 f) = Err ()"
proof -
  have one: "checked_add (Suc 0) 0 = Some (Suc 0)" by (simp add: checked_add_def usize_max_def)
  obtain f1 where f1: "write_indent c depth f = (Ok (), f1)" "accepting f1"
    using works_indent [of c depth] assms(1) by (auto elim: saysE)
  have "\<exists>d. \<forall>g. accepting g \<longrightarrow> display_events (disp (as_any a)) g = (Err (), d g)"
    using display_events_out [of _ "disp (as_any a)"] assms(3) by (intro choice) auto
  then obtain d where "\<And>g. accepting g \<Longrightarrow> display_events (disp (as_any a)) g = (Err (), d g)" by blast
  then show ?thesis
    using assms(2) f1 by (simp add: render_attachments_def Let_def one write_str_def accepting_def)
qed

text \<open>The connectors count the frames of a depth in the whole walk: a frame that is the only child of its parent is
  not drawn as one when another parent has a child at that depth.\<close>

lemma sole_child_connector:
  assumes "i < length fs" and "snd (fs ! i) = d" and "2 \<le> same_depth d fs"
  shows "source_header (same_depth d (take i fs) = 0) (same_depth d (drop 1 (drop i fs)) = 0) \<noteq> [source_exclusive]"
proof -
  have "same_depth d fs = same_depth d (take i fs @ fs ! i # drop (Suc i) fs)"
    using assms(1) by (simp add: id_take_nth_drop [symmetric])
  also have "\<dots> = same_depth d (take i fs) + Suc (same_depth d (drop (Suc i) fs))"
    using assms(2) by (simp add: same_depth_def)
  finally have "\<not> (same_depth d (take i fs) = 0 \<and> same_depth d (drop (Suc i) fs) = 0)" using assms(3) by auto
  then show ?thesis by (auto simp: source_header_def source_first_def source_exclusive_def)
qed

end
